(* ===== verification/Prelude.thy ===== *)
theory Prelude
  imports Main "HOL-Library.Word" "HOL-Library.Signed_Division"
begin

text \<open>
  Shared vocabulary of the development: the C integer types as words, the RT-Thread
  error codes and alignment macros of \<open>rt-thread/include/rtdef.h\<close>, a block write on
  lists (the effect of \<open>memcpy\<close> into an array), and the lemma collections that the
  component theories feed and use.
\<close>

unbundle bit_operations_syntax

type_synonym u8 = "8 word"
type_synonym u16 = "16 word"
type_synonym u32 = "32 word"

named_theorems model_defs \<open>definitions a proof may unfold wholesale\<close>
named_theorems frame_simps \<open>fields an operation leaves alone\<close>

subsection \<open>Error codes\<close>

text \<open>The codes of \<open>rtdef.h\<close>. A C function returns \<open>RT_EOK\<close> or a negated code.\<close>

datatype rt_err =
    RT_EOK | RT_ERROR | RT_ETIMEOUT | RT_EFULL | RT_EEMPTY | RT_ENOMEM
  | RT_ENOSYS | RT_EBUSY | RT_EIO | RT_EINTR | RT_EINVAL

primrec rt_err_value :: "rt_err \<Rightarrow> int" where
  "rt_err_value RT_EOK = 0"
| "rt_err_value RT_ERROR = 1"
| "rt_err_value RT_ETIMEOUT = 2"
| "rt_err_value RT_EFULL = 3"
| "rt_err_value RT_EEMPTY = 4"
| "rt_err_value RT_ENOMEM = 5"
| "rt_err_value RT_ENOSYS = 6"
| "rt_err_value RT_EBUSY = 7"
| "rt_err_value RT_EIO = 8"
| "rt_err_value RT_EINTR = 9"
| "rt_err_value RT_EINVAL = 10"

lemma rt_err_value_inject: "rt_err_value a = rt_err_value b \<Longrightarrow> a = b"
  by (cases a; cases b) simp_all

text \<open>The error codes are ordered by their numeric value.\<close>

instantiation rt_err :: linorder
begin

definition less_eq_rt_err :: "rt_err \<Rightarrow> rt_err \<Rightarrow> bool" where
  "less_eq_rt_err a b \<longleftrightarrow> rt_err_value a \<le> rt_err_value b"

definition less_rt_err :: "rt_err \<Rightarrow> rt_err \<Rightarrow> bool" where
  "less_rt_err a b \<longleftrightarrow> rt_err_value a < rt_err_value b"

instance
  by standard
    (auto simp: less_eq_rt_err_def less_rt_err_def intro: rt_err_value_inject)

end

subsection \<open>Alignment\<close>

definition RT_ALIGN :: "u32 \<Rightarrow> u32 \<Rightarrow> u32" where
  "RT_ALIGN sz align = (sz + align - 1) AND NOT (align - 1)"

definition RT_ALIGN_DOWN :: "u32 \<Rightarrow> u32 \<Rightarrow> u32" where
  "RT_ALIGN_DOWN sz align = sz AND NOT (align - 1)"

definition RT_ALIGN_SIZE :: u32 where
  "RT_ALIGN_SIZE = 4"

lemma and_not_mask: "(w :: 'a::len word) AND NOT (mask n) = push_bit n (drop_bit n w)"
  by (auto intro!: bit_eqI simp: bit_simps)

lemma and_minus_4: "(w :: 'a::len word) AND - 4 = push_bit 2 (drop_bit 2 w)"
proof -
  have "(- 4 :: 'a word) = NOT (mask 2)"
    by (simp add: mask_eq_exp_minus_1 not_eq_complement)
  then show ?thesis
    by (simp only: and_not_mask)
qed

lemma unat_and_minus_4: "unat ((w :: 'a::len word) AND - 4) = unat w div 4 * 4"
proof -
  have "unat w div 4 * 4 \<le> unat w"
    by simp
  then have less: "unat w div 4 * 4 < 2 ^ LENGTH('a)"
    using unsigned_less [of w] by (rule le_less_trans)
  have "unat (w AND - 4) = take_bit LENGTH('a) (push_bit 2 (drop_bit 2 (unat w)))"
    by (simp only: and_minus_4 unsigned_push_bit_eq unsigned_drop_bit_eq
        take_bit_nat_eq_self unsigned_less)
  then show ?thesis
    using less by (simp add: push_bit_eq_mult drop_bit_eq_div take_bit_eq_mod)
qed

lemma unat_RT_ALIGN_DOWN: "unat (RT_ALIGN_DOWN s RT_ALIGN_SIZE) = unat s div 4 * 4"
  by (simp add: RT_ALIGN_DOWN_def RT_ALIGN_SIZE_def unat_and_minus_4)

lemma unat_RT_ALIGN:
  assumes "unat s + 3 < 2 ^ 32"
  shows "unat (RT_ALIGN s RT_ALIGN_SIZE) = (unat s + 3) div 4 * 4"
proof -
  have "unat (s + 3) = unat s + 3"
    using assms by (simp add: unat_word_ariths)
  then show ?thesis
    by (simp add: RT_ALIGN_def RT_ALIGN_SIZE_def unat_and_minus_4 add.commute)
qed

subsection \<open>Block writes\<close>

text \<open>\<open>overwrite i src dst\<close> is \<open>dst\<close> after \<open>memcpy(&dst[i], src, length src)\<close>.\<close>

definition overwrite :: "nat \<Rightarrow> 'a list \<Rightarrow> 'a list \<Rightarrow> 'a list" where
  "overwrite i src dst = take i dst @ src @ drop (i + length src) dst"

lemma length_overwrite [simp]:
  "i + length src \<le> length dst \<Longrightarrow> length (overwrite i src dst) = length dst"
  by (simp add: overwrite_def)

lemma overwrite_Nil [simp]: "overwrite i [] dst = dst"
  by (simp add: overwrite_def)

lemma take_overwrite_before [simp]:
  "n \<le> i \<Longrightarrow> i \<le> length dst \<Longrightarrow> take n (overwrite i src dst) = take n dst"
  by (simp add: overwrite_def min_def)

lemma take_overwrite_end:
  "i \<le> length dst \<Longrightarrow> take (i + length src) (overwrite i src dst) = take i dst @ src"
  by (simp add: overwrite_def)

lemma drop_overwrite_after [simp]:
  "i + length src \<le> n \<Longrightarrow> i \<le> length dst \<Longrightarrow> drop n (overwrite i src dst) = drop n dst"
  by (simp add: overwrite_def add.commute)

lemma nth_overwrite:
  assumes "i + length src \<le> length dst" "n < length dst"
  shows "overwrite i src dst ! n =
    (if n < i then dst ! n else if n < i + length src then src ! (n - i) else dst ! n)"
  using assms by (auto simp: overwrite_def nth_append min_def)

end
