(* ===== verification/Interfaces.thy ===== *)
theory Interfaces
  imports Prelude
begin

text \<open>
  The contracts between components, as locales. A bounded FIFO is what a ring buffer or a
  message queue promises its clients; an invariant machine is a deterministic component
  driven by a list of inputs; a stream codec is one field of a binary header. The client
  lemmas are proved here once; each provider interprets the locale on its own operations.
\<close>

subsection \<open>Bounded FIFO\<close>

locale bounded_fifo =
  fixes inv :: "'q \<Rightarrow> bool"
    and contents :: "'q \<Rightarrow> 'a list"
    and capacity :: "'q \<Rightarrow> nat"
    and ok :: "'q \<Rightarrow> 'a \<Rightarrow> bool"
    and enq :: "'a \<Rightarrow> 'q \<Rightarrow> bool \<times> 'q"
    and deq :: "'q \<Rightarrow> 'a option \<times> 'q"
  assumes contents_le: "inv q \<Longrightarrow> length (contents q) \<le> capacity q"
    and enq_room: "inv q \<Longrightarrow> ok q x \<Longrightarrow> length (contents q) < capacity q \<Longrightarrow>
      fst (enq x q) \<and> contents (snd (enq x q)) = contents q @ [x]"
    and enq_full: "inv q \<Longrightarrow> ok q x \<Longrightarrow> length (contents q) = capacity q \<Longrightarrow>
      \<not> fst (enq x q) \<and> contents (snd (enq x q)) = contents q"
    and enq_inv: "inv q \<Longrightarrow> ok q x \<Longrightarrow> inv (snd (enq x q))"
    and enq_capacity: "inv q \<Longrightarrow> capacity (snd (enq x q)) = capacity q"
    and enq_ok: "inv q \<Longrightarrow> ok (snd (enq x q)) y = ok q y"
    and deq_some: "inv q \<Longrightarrow> contents q = x # xs \<Longrightarrow>
      fst (deq q) = Some x \<and> contents (snd (deq q)) = xs"
    and deq_none: "inv q \<Longrightarrow> contents q = [] \<Longrightarrow>
      fst (deq q) = None \<and> contents (snd (deq q)) = []"
    and deq_inv: "inv q \<Longrightarrow> inv (snd (deq q))"
    and deq_capacity: "inv q \<Longrightarrow> capacity (snd (deq q)) = capacity q"
    and deq_ok: "inv q \<Longrightarrow> ok (snd (deq q)) y = ok q y"
begin

text \<open>A producer that keeps sending and a consumer that drains \<open>n\<close> elements.\<close>

primrec enq_all :: "'a list \<Rightarrow> 'q \<Rightarrow> 'q" where
  "enq_all [] q = q"
| "enq_all (x # xs) q = enq_all xs (snd (enq x q))"

primrec drain :: "nat \<Rightarrow> 'q \<Rightarrow> 'a list \<times> 'q" where
  "drain 0 q = ([], q)"
| "drain (Suc n) q =
     (case deq q of
        (None, q') \<Rightarrow> ([], q')
      | (Some x, q') \<Rightarrow> (let (xs, q'') = drain n q' in (x # xs, q'')))"

lemma enq_all_props:
  assumes "inv q" "\<forall>x \<in> set xs. ok q x"
  shows "inv (enq_all xs q)"
    and "capacity (enq_all xs q) = capacity q"
    and "contents (enq_all xs q) = contents q @ take (capacity q - length (contents q)) xs"
  using assms
proof (induction xs arbitrary: q)
  case Nil
  { case 1 then show ?case by simp next
    case 2 then show ?case by simp next
    case 3 then show ?case by simp }
next
  case (Cons x xs)
  { case 1 then show ?case using Cons.IH(1) [of "snd (enq x q)"] by (simp add: enq_inv enq_ok) next
    case 2 then show ?case using Cons.IH(2) [of "snd (enq x q)"]
      by (simp add: enq_inv enq_ok enq_capacity) next
    case 3
    let ?q = "snd (enq x q)"
    have ih: "contents (enq_all xs ?q)
        = contents ?q @ take (capacity ?q - length (contents ?q)) xs"
      using 3 by (intro Cons.IH(3)) (simp_all add: enq_inv enq_ok)
    show ?case
    proof (cases "length (contents q) < capacity q")
      case True
      then have "contents ?q = contents q @ [x]"
        using 3 enq_room by simp
      then show ?thesis
        using ih True 3 by (simp add: enq_capacity take_Cons' Suc_diff_Suc)
    next
      case False
      then have "length (contents q) = capacity q"
        using 3 contents_le [of q] by simp
      then show ?thesis
        using ih 3 enq_full [of q x] by (simp add: enq_capacity)
    qed }
qed

lemma drain_contents:
  assumes "inv q"
  shows "fst (drain n q) = take n (contents q)
    \<and> contents (snd (drain n q)) = drop n (contents q) \<and> inv (snd (drain n q))"
  using assms
proof (induction n arbitrary: q)
  case 0
  then show ?case by simp
next
  case (Suc n)
  obtain r q' where d: "deq q = (r, q')" by (cases "deq q")
  have q': "inv q'" using deq_inv [OF Suc.prems] d by simp
  show ?case
  proof (cases "contents q")
    case Nil
    then show ?thesis using deq_none [OF Suc.prems Nil] d q' by simp
  next
    case (Cons y ys)
    then show ?thesis
      using deq_some [OF Suc.prems Cons] d q' Suc.IH [OF q']
      by (simp add: case_prod_unfold Let_def)
  qed
qed

text \<open>What is sent while there is room comes out once, in order, after the older elements.\<close>

lemma enq_all_drain:
  assumes "inv q" "\<forall>x \<in> set xs. ok q x" "length (contents q) + length xs \<le> capacity q"
  shows "fst (drain (length (contents q) + length xs) (enq_all xs q)) = contents q @ xs"
  using assms drain_contents [OF enq_all_props(1) [OF assms(1,2)]]
  by (simp add: enq_all_props(3))

end

subsection \<open>Deterministic machines with an invariant\<close>

locale invariant_machine =
  fixes step :: "'s \<Rightarrow> 'i \<Rightarrow> 's"
    and inv :: "'s \<Rightarrow> bool"
  assumes step_inv: "inv s \<Longrightarrow> inv (step s i)"
begin

lemma run_inv: "inv s \<Longrightarrow> inv (foldl step s is)"
  by (induction "is" arbitrary: s) (simp_all add: step_inv)

end

text \<open>The same for a system with choices, a step relation.\<close>

locale invariant_relation =
  fixes moves :: "'s \<Rightarrow> 's \<Rightarrow> bool"
    and keeps :: "'s \<Rightarrow> bool"
  assumes move_keeps: "moves s s' \<Longrightarrow> keeps s \<Longrightarrow> keeps s'"
begin

lemma reachable_keeps: "moves\<^sup>*\<^sup>* s s' \<Longrightarrow> keeps s \<Longrightarrow> keeps s'"
  by (induction rule: rtranclp_induct) (simp_all add: move_keeps)

end

subsection \<open>Event flags\<close>

text \<open>A word of flags: posting sets bits, fetching returns and clears the set bits of a mask.\<close>

locale event_flags =
  fixes inv :: "'e \<Rightarrow> bool"
    and pending :: "'e \<Rightarrow> u32"
    and post :: "'e \<Rightarrow> u32 \<Rightarrow> 'e"
    and fetch :: "'e \<Rightarrow> u32 \<Rightarrow> u32 option \<times> 'e"
  assumes post_pending: "inv e \<Longrightarrow> pending (post e s) = pending e OR s"
    and post_inv: "inv e \<Longrightarrow> inv (post e s)"
    and fetch_some: "inv e \<Longrightarrow> pending e AND m \<noteq> 0 \<Longrightarrow>
      fst (fetch e m) = Some (pending e AND m) \<and> pending (snd (fetch e m)) = pending e AND NOT m"
    and fetch_none: "inv e \<Longrightarrow> pending e AND m = 0 \<Longrightarrow>
      fst (fetch e m) = None \<and> pending (snd (fetch e m)) = pending e"
    and fetch_inv: "inv e \<Longrightarrow> inv (snd (fetch e m))"
begin

lemma post_all:
  "inv e \<Longrightarrow> inv (foldl post e ss) \<and> pending (foldl post e ss) = foldl (OR) (pending e) ss"
  by (induction ss arbitrary: e) (simp_all add: post_pending post_inv)

lemma fetch_posted:
  assumes "inv e" "pending e = 0" "foldl (OR) 0 ss AND m \<noteq> 0"
  shows "fst (fetch (foldl post e ss) m) = Some (foldl (OR) 0 ss AND m)
    \<and> pending (snd (fetch (foldl post e ss) m)) AND m = 0"
proof -
  have "(w AND NOT m) AND m = 0" for w :: u32
    by (auto intro!: bit_eqI simp: bit_simps)
  then show ?thesis
    using post_all [OF assms(1), of ss] fetch_some [of "foldl post e ss" m] assms by simp
qed

lemma fetch_twice:
  assumes "inv e"
  shows "fst (fetch (snd (fetch e m)) m) = None"
proof -
  have "(w AND NOT m) AND m = 0" for w :: u32
    by (auto intro!: bit_eqI simp: bit_simps)
  then show ?thesis
    using fetch_some [OF assms, of m] fetch_none [OF assms, of m] fetch_none [OF fetch_inv [OF assms], of m m]
    by (cases "pending e AND m = 0") simp_all
qed

end

subsection \<open>Fields of a binary stream\<close>

text \<open>
  \<open>enc\<close> writes one field at the end of a byte stream, \<open>dec\<close> consumes it from the front.
\<close>

locale stream_codec =
  fixes enc :: "'a \<Rightarrow> u8 list"
    and dec :: "u8 list \<Rightarrow> 'a \<times> u8 list"
    and width :: nat
  assumes dec_enc: "dec (enc x @ rest) = (x, rest)"
    and length_enc: "length (enc x) = width"
begin

lemma enc_inject: "enc x = enc y \<Longrightarrow> x = y"
  using dec_enc [of x "[]"] dec_enc [of y "[]"] by simp

lemma dec_enc_nil: "dec (enc x) = (x, [])"
  using dec_enc [of x "[]"] by simp

end

end
