(* ===== verification/RingBuffer.thy ===== *)
theory RingBuffer
  imports Interfaces
begin

text \<open>
  The byte ring buffer of \<open>rt-thread/components/drivers/src/ringbuffer.c\<close> (header
  \<open>include/ipc/ringbuffer.h\<close>), which the serial and audio drivers use. The indices are
  15-bit fields with a separate mirror bit each; the pool is a list of bytes. \<open>contents\<close>
  is the data between the read and the write position, oldest first: it is what every
  operation is specified against. C's \<open>int\<close> subtractions on indices are written on \<open>nat\<close>:
  under \<open>rb_inv\<close> none of them is negative.
\<close>

subsection \<open>State\<close>

record ringbuffer =
  buffer_ptr :: "u8 list"
  read_mirror :: "1 word"
  read_index :: "15 word"
  write_mirror :: "1 word"
  write_index :: "15 word"
  buffer_size :: u16

datatype rb_state = RT_RINGBUFFER_EMPTY | RT_RINGBUFFER_FULL | RT_RINGBUFFER_HALFFULL

abbreviation rb_size :: "ringbuffer \<Rightarrow> nat" where
  "rb_size rb \<equiv> nat (sint (buffer_size rb))"

abbreviation rb_ri :: "ringbuffer \<Rightarrow> nat" where
  "rb_ri rb \<equiv> unat (read_index rb)"

abbreviation rb_wi :: "ringbuffer \<Rightarrow> nat" where
  "rb_wi rb \<equiv> unat (write_index rb)"

subsection \<open>Operations\<close>

definition rt_ringbuffer_status :: "ringbuffer \<Rightarrow> rb_state" where
  "rt_ringbuffer_status rb =
     (if read_index rb = write_index rb
      then (if read_mirror rb = write_mirror rb then RT_RINGBUFFER_EMPTY else RT_RINGBUFFER_FULL)
      else RT_RINGBUFFER_HALFFULL)"

definition rt_ringbuffer_data_len :: "ringbuffer \<Rightarrow> nat" where
  "rt_ringbuffer_data_len rb =
     (case rt_ringbuffer_status rb of
        RT_RINGBUFFER_EMPTY \<Rightarrow> 0
      | RT_RINGBUFFER_FULL \<Rightarrow> rb_size rb
      | RT_RINGBUFFER_HALFFULL \<Rightarrow>
          (if write_index rb > read_index rb then rb_wi rb - rb_ri rb
           else rb_size rb - (rb_ri rb - rb_wi rb)))"

definition rt_ringbuffer_space_len :: "ringbuffer \<Rightarrow> nat" where
  "rt_ringbuffer_space_len rb = rb_size rb - rt_ringbuffer_data_len rb"

definition rt_ringbuffer_get_size :: "ringbuffer \<Rightarrow> u16" where
  "rt_ringbuffer_get_size rb = buffer_size rb"

text \<open>\<open>rt_ringbuffer_init\<close> overwrites every field of \<open>*rb\<close>, so the old value is not an
  argument; \<open>RT_ASSERT(size > 0)\<close> is a precondition of the lemmas.\<close>

definition rt_ringbuffer_init :: "u8 list \<Rightarrow> u16 \<Rightarrow> ringbuffer" where
  "rt_ringbuffer_init pool sz =
     \<lparr>buffer_ptr = pool, read_mirror = 0, read_index = 0, write_mirror = 0, write_index = 0,
      buffer_size = ucast (RT_ALIGN_DOWN (scast sz) RT_ALIGN_SIZE)\<rparr>"

definition rt_ringbuffer_reset :: "ringbuffer \<Rightarrow> ringbuffer" where
  "rt_ringbuffer_reset rb =
     rb\<lparr>read_mirror := 0, read_index := 0, write_mirror := 0, write_index := 0\<rparr>"

text \<open>The two allocations of \<open>rt_ringbuffer_create\<close> can fail: \<open>malloc_rb\<close> says whether the
  structure is obtained, \<open>malloc_pool\<close> gives the pool (uninitialised memory of the requested
  size).\<close>

definition rt_ringbuffer_create :: "bool \<Rightarrow> (nat \<Rightarrow> u8 list option) \<Rightarrow> u16 \<Rightarrow> ringbuffer option" where
  "rt_ringbuffer_create malloc_rb malloc_pool sz =
     (let sz' = ucast (RT_ALIGN_DOWN (ucast sz) RT_ALIGN_SIZE)
      in if malloc_rb
         then (case malloc_pool (unat sz') of
                 None \<Rightarrow> None
               | Some pool \<Rightarrow> Some (rt_ringbuffer_init pool sz'))
         else None)"

definition rt_ringbuffer_put :: "ringbuffer \<Rightarrow> u8 list \<Rightarrow> u16 \<Rightarrow> nat \<times> ringbuffer" where
  "rt_ringbuffer_put rb ptr len0 =
     (let room = rt_ringbuffer_space_len rb
      in if room = 0 then (0, rb)
         else
           let len = (if room < unat len0 then room else unat len0);
               tail = rb_size rb - rb_wi rb
           in if tail > len
              then (len, rb\<lparr>buffer_ptr := overwrite (rb_wi rb) (take len ptr) (buffer_ptr rb),
                            write_index := write_index rb + of_nat len\<rparr>)
              else (len, rb\<lparr>buffer_ptr :=
                               overwrite 0 (take (len - tail) (drop tail ptr))
                                 (overwrite (rb_wi rb) (take tail ptr) (buffer_ptr rb)),
                            write_mirror := NOT (write_mirror rb),
                            write_index := of_nat (len - tail)\<rparr>))"

definition rt_ringbuffer_put_force :: "ringbuffer \<Rightarrow> u8 list \<Rightarrow> u16 \<Rightarrow> nat \<times> ringbuffer" where
  "rt_ringbuffer_put_force rb ptr0 len0 =
     (let space_length = rt_ringbuffer_space_len rb;
          (ptr, len) = (if unat len0 > rb_size rb
                        then (drop (unat len0 - rb_size rb) ptr0, rb_size rb)
                        else (ptr0, unat len0));
          tail = rb_size rb - rb_wi rb
      in if tail > len
         then (let rb1 = rb\<lparr>buffer_ptr := overwrite (rb_wi rb) (take len ptr) (buffer_ptr rb),
                            write_index := write_index rb + of_nat len\<rparr>
               in (len, if len > space_length then rb1\<lparr>read_index := write_index rb1\<rparr> else rb1))
         else (let rb1 = rb\<lparr>buffer_ptr :=
                               overwrite 0 (take (len - tail) (drop tail ptr))
                                 (overwrite (rb_wi rb) (take tail ptr) (buffer_ptr rb)),
                            write_mirror := NOT (write_mirror rb),
                            write_index := of_nat (len - tail)\<rparr>
               in (len, if len > space_length
                        then rb1\<lparr>read_mirror := NOT (read_mirror rb1), read_index := write_index rb1\<rparr>
                        else rb1)))"

definition rt_ringbuffer_get :: "ringbuffer \<Rightarrow> u16 \<Rightarrow> u8 list \<times> ringbuffer" where
  "rt_ringbuffer_get rb len0 =
     (let avail = rt_ringbuffer_data_len rb
      in if avail = 0 then ([], rb)
         else
           let len = (if avail < unat len0 then avail else unat len0);
               tail = rb_size rb - rb_ri rb
           in if tail > len
              then (take len (drop (rb_ri rb) (buffer_ptr rb)),
                    rb\<lparr>read_index := read_index rb + of_nat len\<rparr>)
              else (take tail (drop (rb_ri rb) (buffer_ptr rb)) @ take (len - tail) (buffer_ptr rb),
                    rb\<lparr>read_mirror := NOT (read_mirror rb), read_index := of_nat (len - tail)\<rparr>))"

definition rt_ringbuffer_putchar :: "ringbuffer \<Rightarrow> u8 \<Rightarrow> nat \<times> ringbuffer" where
  "rt_ringbuffer_putchar rb ch =
     (if rt_ringbuffer_space_len rb = 0 then (0, rb)
      else
        let rb1 = rb\<lparr>buffer_ptr := (buffer_ptr rb)[rb_wi rb := ch]\<rparr>
        in if rb_wi rb = rb_size rb - 1
           then (1, rb1\<lparr>write_mirror := NOT (write_mirror rb), write_index := 0\<rparr>)
           else (1, rb1\<lparr>write_index := write_index rb + 1\<rparr>))"

definition rt_ringbuffer_putchar_force :: "ringbuffer \<Rightarrow> u8 \<Rightarrow> nat \<times> ringbuffer" where
  "rt_ringbuffer_putchar_force rb ch =
     (let old_state = rt_ringbuffer_status rb;
          rb1 = rb\<lparr>buffer_ptr := (buffer_ptr rb)[rb_wi rb := ch]\<rparr>
      in if rb_wi rb = rb_size rb - 1
         then (let rb2 = rb1\<lparr>write_mirror := NOT (write_mirror rb), write_index := 0\<rparr>
               in (1, if old_state = RT_RINGBUFFER_FULL
                      then rb2\<lparr>read_mirror := NOT (read_mirror rb2), read_index := write_index rb2\<rparr>
                      else rb2))
         else (let rb2 = rb1\<lparr>write_index := write_index rb + 1\<rparr>
               in (1, if old_state = RT_RINGBUFFER_FULL
                      then rb2\<lparr>read_index := write_index rb2\<rparr> else rb2)))"

definition rt_ringbuffer_getchar :: "ringbuffer \<Rightarrow> u8 option \<times> ringbuffer" where
  "rt_ringbuffer_getchar rb =
     (if rt_ringbuffer_data_len rb = 0 then (None, rb)
      else
        (Some (buffer_ptr rb ! rb_ri rb),
         if rb_ri rb = rb_size rb - 1
         then rb\<lparr>read_mirror := NOT (read_mirror rb), read_index := 0\<rparr>
         else rb\<lparr>read_index := read_index rb + 1\<rparr>))"

subsection \<open>Invariant and contents\<close>

text \<open>With equal mirrors the reader is not ahead of the writer; with different mirrors the
  writer has wrapped and is not ahead of the reader.\<close>

definition rb_inv :: "ringbuffer \<Rightarrow> bool" where
  "rb_inv rb \<longleftrightarrow> 0 < rb_size rb \<and> rb_size rb \<le> length (buffer_ptr rb)
     \<and> rb_ri rb < rb_size rb \<and> rb_wi rb < rb_size rb
     \<and> (if read_mirror rb = write_mirror rb then rb_ri rb \<le> rb_wi rb else rb_wi rb \<le> rb_ri rb)"

definition rb_contents :: "ringbuffer \<Rightarrow> u8 list" where
  "rb_contents rb =
     (if read_mirror rb = write_mirror rb
      then take (rb_wi rb - rb_ri rb) (drop (rb_ri rb) (buffer_ptr rb))
      else drop (rb_ri rb) (take (rb_size rb) (buffer_ptr rb)) @ take (rb_wi rb) (buffer_ptr rb))"

lemma mirror_cases: "(a :: 1 word) = 0 \<or> a = 1"
proof -
  have "unat a < 2" using unsigned_less [of a] by simp
  then have "unat a = 0 \<or> unat a = 1" by linarith
  then show ?thesis by (auto simp: word_unat_eq_iff)
qed

lemma mirror_not [simp]:
  "NOT (a :: 1 word) = b \<longleftrightarrow> a \<noteq> b" "a = NOT (b :: 1 word) \<longleftrightarrow> a \<noteq> b"
  using mirror_cases [of a] mirror_cases [of b] by auto

lemma rb_size_bound: "rb_size rb < 2 ^ 15"
proof -
  have "sint (buffer_size rb) < 2 ^ (LENGTH(16) - 1)"
    by (rule sint_lt)
  then show ?thesis by simp
qed

lemma index_eq_iff: "read_index rb = write_index rb \<longleftrightarrow> rb_ri rb = rb_wi rb"
  by (simp add: word_unat_eq_iff)

lemma unat_of_nat_15 [simp]: "n < 2 ^ 15 \<Longrightarrow> unat (of_nat n :: 15 word) = n"
  by (simp add: unat_of_nat)

lemma unat_add_15: "unat (w :: 15 word) + n < 2 ^ 15 \<Longrightarrow> unat (w + of_nat n) = unat w + n"
  by (simp add: unat_word_ariths unat_of_nat)

lemma data_len_contents:
  assumes "rb_inv rb"
  shows "rt_ringbuffer_data_len rb = length (rb_contents rb)"
  using assms
  by (auto simp: rt_ringbuffer_data_len_def rt_ringbuffer_status_def rb_inv_def rb_contents_def
      index_eq_iff word_less_nat_alt split: if_splits)

lemma length_contents_le: "rb_inv rb \<Longrightarrow> length (rb_contents rb) \<le> rb_size rb"
  by (auto simp: rb_inv_def rb_contents_def split: if_splits)

lemma space_len_contents:
  "rb_inv rb \<Longrightarrow> rt_ringbuffer_space_len rb = rb_size rb - length (rb_contents rb)"
  by (simp add: rt_ringbuffer_space_len_def data_len_contents)

subsection \<open>Block writes and reads\<close>

text \<open>The two ways a block of \<open>len\<close> bytes that fits is written: inside the current mirror, or
  across its end. Both append the block to the contents.\<close>

lemma write_inside:
  assumes inv: "rb_inv rb" and len: "length bs \<le> rb_size rb - length (rb_contents rb)"
    and inside: "length bs < rb_size rb - rb_wi rb"
  defines "rb' \<equiv> rb\<lparr>buffer_ptr := overwrite (rb_wi rb) bs (buffer_ptr rb),
                    write_index := write_index rb + of_nat (length bs)\<rparr>"
  shows "rb_inv rb'" and "rb_contents rb' = rb_contents rb @ bs"
proof -
  have wi: "rb_wi rb' = rb_wi rb + length bs"
    using inside rb_size_bound [of rb] by (simp add: rb'_def unat_add_15)
  show "rb_inv rb'"
    using inv len inside wi by (auto simp: rb_inv_def rb'_def rb_contents_def split: if_splits)
  have split: "rb_wi rb + length bs \<le> length (buffer_ptr rb)" "rb_wi rb \<le> length (buffer_ptr rb)"
    using inv inside by (auto simp: rb_inv_def)
  show "rb_contents rb' = rb_contents rb @ bs"
  proof (cases "read_mirror rb = write_mirror rb")
    case True
    then have le: "rb_ri rb \<le> rb_wi rb" using inv by (simp add: rb_inv_def)
    have "rb_contents rb' = drop (rb_ri rb) (take (rb_wi rb + length bs) (buffer_ptr rb'))"
      using True wi le by (simp add: rb_contents_def rb'_def drop_take)
    also have "\<dots> = drop (rb_ri rb) (take (rb_wi rb) (buffer_ptr rb) @ bs)"
      using split by (simp add: rb'_def take_overwrite_end)
    finally show ?thesis
      using True le split by (simp add: rb_contents_def drop_take)
  next
    case False
    have fit: "rb_wi rb + length bs \<le> rb_ri rb"
      using False inv len by (auto simp: rb_contents_def rb_inv_def)
    then have "drop (rb_ri rb) (buffer_ptr rb') = drop (rb_ri rb) (buffer_ptr rb)"
      using split by (simp add: rb'_def)
    then show ?thesis
      using False wi split by (simp add: rb_contents_def rb'_def drop_take take_overwrite_end)
  qed
qed

lemma write_across:
  assumes inv: "rb_inv rb" and len: "length as + length bs \<le> rb_size rb - length (rb_contents rb)"
    and tail: "length as = rb_size rb - rb_wi rb"
  defines "rb' \<equiv> rb\<lparr>buffer_ptr := overwrite 0 bs (overwrite (rb_wi rb) as (buffer_ptr rb)),
                    write_mirror := NOT (write_mirror rb), write_index := of_nat (length bs)\<rparr>"
  shows "rb_inv rb'" and "rb_contents rb' = rb_contents rb @ as @ bs"
proof -
  have same: "read_mirror rb = write_mirror rb"
    using inv len tail by (auto simp: rb_inv_def rb_contents_def split: if_splits)
  have ri: "rb_ri rb \<le> rb_wi rb" "rb_wi rb < rb_size rb" "rb_size rb \<le> length (buffer_ptr rb)"
    using same inv by (auto simp: rb_inv_def)
  have bs: "length bs \<le> rb_ri rb"
    using len tail same ri by (simp add: rb_contents_def)
  have wi: "rb_wi rb' = length bs"
    using bs ri rb_size_bound [of rb] by (simp add: rb'_def)
  show "rb_inv rb'"
    using inv same ri bs tail wi by (auto simp: rb_inv_def rb'_def)
  have size: "rb_wi rb + length as = rb_size rb" using tail ri by simp
  have full: "take (rb_size rb) (overwrite (rb_wi rb) as (buffer_ptr rb))
      = take (rb_wi rb) (buffer_ptr rb) @ as"
    using ri take_overwrite_end [of "rb_wi rb" "buffer_ptr rb" as] by (simp add: size)
  have "drop (rb_ri rb) (take (rb_size rb) (buffer_ptr rb'))
      = drop (rb_ri rb) (take (rb_size rb) (overwrite (rb_wi rb) as (buffer_ptr rb)))"
    using bs by (simp add: rb'_def drop_take)
  then have "drop (rb_ri rb) (take (rb_size rb) (buffer_ptr rb'))
      = drop (rb_ri rb) (take (rb_wi rb) (buffer_ptr rb)) @ as"
    using full ri by simp
  moreover have "take (length bs) (buffer_ptr rb') = bs"
    by (simp add: rb'_def overwrite_def)
  ultimately show "rb_contents rb' = rb_contents rb @ as @ bs"
    using same ri wi by (simp add: rb_contents_def rb'_def drop_take)
qed

text \<open>The two ways a block is read.\<close>

lemma read_inside:
  assumes inv: "rb_inv rb" and len: "n \<le> length (rb_contents rb)"
    and inside: "n < rb_size rb - rb_ri rb"
  defines "rb' \<equiv> rb\<lparr>read_index := read_index rb + of_nat n\<rparr>"
  shows "rb_inv rb'" and "rb_contents rb' = drop n (rb_contents rb)"
    and "take n (drop (rb_ri rb) (buffer_ptr rb)) = take n (rb_contents rb)"
proof -
  have ri: "rb_ri rb' = rb_ri rb + n"
    using inside rb_size_bound [of rb] by (simp add: rb'_def unat_add_15)
  show "rb_inv rb'"
    using inv len inside ri by (auto simp: rb_inv_def rb'_def rb_contents_def split: if_splits)
  show "rb_contents rb' = drop n (rb_contents rb)"
  proof (cases "read_mirror rb = write_mirror rb")
    case True
    then show ?thesis using ri by (simp add: rb_contents_def rb'_def drop_take add.commute)
  next
    case False
    have "length (drop (rb_ri rb) (take (rb_size rb) (buffer_ptr rb))) = rb_size rb - rb_ri rb"
      using inv by (simp add: rb_inv_def)
    then show ?thesis using False ri inside
      by (simp add: rb_contents_def rb'_def add.commute del: length_drop)
  qed
  show "take n (drop (rb_ri rb) (buffer_ptr rb)) = take n (rb_contents rb)"
  proof (cases "read_mirror rb = write_mirror rb")
    case True
    then show ?thesis using inv len by (simp add: rb_inv_def rb_contents_def)
  next
    case False
    have "length (drop (rb_ri rb) (take (rb_size rb) (buffer_ptr rb))) = rb_size rb - rb_ri rb"
      using inv by (simp add: rb_inv_def)
    then have "take n (rb_contents rb) = take n (drop (rb_ri rb) (take (rb_size rb) (buffer_ptr rb)))"
      using False inside by (simp add: rb_contents_def del: length_drop)
    then show ?thesis using inside by (simp add: drop_take)
  qed
qed

lemma read_across:
  assumes inv: "rb_inv rb" and len: "n \<le> length (rb_contents rb)"
    and across: "rb_size rb - rb_ri rb \<le> n"
  defines "tail \<equiv> rb_size rb - rb_ri rb"
  defines "rb' \<equiv> rb\<lparr>read_mirror := NOT (read_mirror rb), read_index := of_nat (n - tail)\<rparr>"
  shows "rb_inv rb'" and "rb_contents rb' = drop n (rb_contents rb)"
    and "take tail (drop (rb_ri rb) (buffer_ptr rb)) @ take (n - tail) (buffer_ptr rb)
      = take n (rb_contents rb)"
proof -
  have differ: "read_mirror rb \<noteq> write_mirror rb"
    using inv len across by (auto simp: rb_inv_def rb_contents_def split: if_splits)
  have bounds: "rb_wi rb \<le> rb_ri rb" "rb_ri rb < rb_size rb" "rb_size rb \<le> length (buffer_ptr rb)"
    using differ inv by (auto simp: rb_inv_def)
  have rest: "n - tail \<le> rb_wi rb"
    using len differ bounds by (simp add: rb_contents_def tail_def)
  have ri: "rb_ri rb' = n - tail"
    using rest bounds rb_size_bound [of rb] by (simp add: rb'_def)
  show "rb_inv rb'"
    using inv differ bounds rest ri by (auto simp: rb_inv_def rb'_def)
  have first: "length (drop (rb_ri rb) (take (rb_size rb) (buffer_ptr rb))) = tail"
    using bounds by (simp add: tail_def)
  have "rb_contents rb' = take (rb_wi rb - (n - tail)) (drop (n - tail) (buffer_ptr rb))"
    using differ ri by (simp add: rb_contents_def rb'_def)
  also have "\<dots> = drop n (rb_contents rb)"
    using differ across first by (simp add: rb_contents_def drop_take tail_def)
  finally show "rb_contents rb' = drop n (rb_contents rb)" .
  show "take tail (drop (rb_ri rb) (buffer_ptr rb)) @ take (n - tail) (buffer_ptr rb)
      = take n (rb_contents rb)"
  proof -
    let ?X = "drop (rb_ri rb) (take (rb_size rb) (buffer_ptr rb))"
    have c: "rb_contents rb = ?X @ take (rb_wi rb) (buffer_ptr rb)"
      using differ by (simp add: rb_contents_def)
    have "take n ?X = ?X"
      using first across by (intro take_all) (simp only: tail_def)
    then have "take n (rb_contents rb) = ?X @ take (n - tail) (take (rb_wi rb) (buffer_ptr rb))"
      by (simp only: c take_append first)
    also have "\<dots> = take tail (drop (rb_ri rb) (buffer_ptr rb)) @ take (n - tail) (buffer_ptr rb)"
      using rest by (simp add: drop_take tail_def)
    finally show ?thesis by simp
  qed
qed

subsection \<open>What the operations do\<close>

text \<open>How much \<open>rt_ringbuffer_put\<close> stores, and the two shapes of its result.\<close>

definition rb_accept :: "ringbuffer \<Rightarrow> u16 \<Rightarrow> nat" where
  "rb_accept rb len = min (unat len) (rb_size rb - length (rb_contents rb))"

lemma put_shapes:
  fixes len :: u16
  assumes inv: "rb_inv rb" and room: "0 < rb_size rb - length (rb_contents rb)"
  defines "n \<equiv> rb_accept rb len" and "tail \<equiv> rb_size rb - rb_wi rb"
  shows "n < tail \<Longrightarrow> rt_ringbuffer_put rb ptr len
      = (n, rb\<lparr>buffer_ptr := overwrite (rb_wi rb) (take n ptr) (buffer_ptr rb),
               write_index := write_index rb + of_nat n\<rparr>)"
    and "tail \<le> n \<Longrightarrow> rt_ringbuffer_put rb ptr len
      = (n, rb\<lparr>buffer_ptr := overwrite 0 (take (n - tail) (drop tail ptr))
                               (overwrite (rb_wi rb) (take tail ptr) (buffer_ptr rb)),
               write_mirror := NOT (write_mirror rb), write_index := of_nat (n - tail)\<rparr>)"
proof -
  have "rt_ringbuffer_space_len rb \<noteq> 0"
    "(if rt_ringbuffer_space_len rb < unat len then rt_ringbuffer_space_len rb else unat len) = n"
    using room by (simp_all add: space_len_contents [OF inv] n_def rb_accept_def min_def)
  then show "n < tail \<Longrightarrow> rt_ringbuffer_put rb ptr len
      = (n, rb\<lparr>buffer_ptr := overwrite (rb_wi rb) (take n ptr) (buffer_ptr rb),
               write_index := write_index rb + of_nat n\<rparr>)"
    and "tail \<le> n \<Longrightarrow> rt_ringbuffer_put rb ptr len
      = (n, rb\<lparr>buffer_ptr := overwrite 0 (take (n - tail) (drop tail ptr))
                               (overwrite (rb_wi rb) (take tail ptr) (buffer_ptr rb)),
               write_mirror := NOT (write_mirror rb), write_index := of_nat (n - tail)\<rparr>)"
    unfolding rt_ringbuffer_put_def Let_def tail_def by simp_all
qed

lemma rt_ringbuffer_put_spec:
  assumes inv: "rb_inv rb" and src: "unat len \<le> length ptr"
  shows "fst (rt_ringbuffer_put rb ptr len) = rb_accept rb len
    \<and> rb_contents (snd (rt_ringbuffer_put rb ptr len))
        = rb_contents rb @ take (rb_accept rb len) ptr
    \<and> rb_inv (snd (rt_ringbuffer_put rb ptr len))"
proof -
  define n tail where "n = rb_accept rb len" and "tail = rb_size rb - rb_wi rb"
  have n: "n \<le> length ptr" "n \<le> rb_size rb - length (rb_contents rb)"
    using src by (simp_all add: n_def rb_accept_def)
  consider (none) "rb_size rb - length (rb_contents rb) = 0"
    | (inside) "0 < rb_size rb - length (rb_contents rb)" "n < tail"
    | (across) "0 < rb_size rb - length (rb_contents rb)" "tail \<le> n"
    by linarith
  then show ?thesis
  proof cases
    case none
    then show ?thesis
      using inv by (simp add: rt_ringbuffer_put_def space_len_contents rb_accept_def)
  next
    case inside
    have len: "length (take n ptr) = n" using n by simp
    note w = write_inside [OF inv, of "take n ptr", unfolded len, OF n(2)]
    show ?thesis
      using put_shapes(1) [OF inv inside(1), of len ptr, folded n_def tail_def] inside w
      by (simp flip: n_def add: tail_def)
  next
    case across
    have lens: "length (take tail ptr) = tail" "length (take (n - tail) (drop tail ptr)) = n - tail"
      using across n by (simp_all add: min.absorb2)
    have fit: "tail + (n - tail) \<le> rb_size rb - length (rb_contents rb)"
      using across n by linarith
    note w = write_across [OF inv, of "take tail ptr" "take (n - tail) (drop tail ptr)",
        unfolded lens, OF fit tail_def]
    have parts: "take n ptr = take tail ptr @ take (n - tail) (drop tail ptr)"
      using across by (simp flip: take_add)
    show ?thesis
      using put_shapes(2) [OF inv across(1), of len ptr, folded n_def tail_def] across w parts
      by (simp flip: n_def)
  qed
qed

lemma rt_ringbuffer_get_spec:
  assumes inv: "rb_inv rb"
  shows "fst (rt_ringbuffer_get rb len) = take (unat len) (rb_contents rb)"
    and "rb_contents (snd (rt_ringbuffer_get rb len)) = drop (unat len) (rb_contents rb)"
    and "rb_inv (snd (rt_ringbuffer_get rb len))"
proof -
  let ?n = "if length (rb_contents rb) < unat len then length (rb_contents rb) else unat len"
  have n: "?n \<le> length (rb_contents rb)" by simp
  have same: "take ?n (rb_contents rb) = take (unat len) (rb_contents rb)"
    "drop ?n (rb_contents rb) = drop (unat len) (rb_contents rb)"
    by auto
  consider (none) "rb_contents rb = []"
    | (inside) "rb_contents rb \<noteq> []" "rb_size rb - rb_ri rb > ?n"
    | (across) "rb_contents rb \<noteq> []" "\<not> rb_size rb - rb_ri rb > ?n"
    by blast
  then have "fst (rt_ringbuffer_get rb len) = take (unat len) (rb_contents rb)
      \<and> rb_contents (snd (rt_ringbuffer_get rb len)) = drop (unat len) (rb_contents rb)
      \<and> rb_inv (snd (rt_ringbuffer_get rb len))"
  proof cases
    case none
    then show ?thesis using inv by (simp add: rt_ringbuffer_get_def data_len_contents)
  next
    case inside
    then show ?thesis
      using read_inside [OF inv n] same
      by (simp add: rt_ringbuffer_get_def data_len_contents [OF inv] Let_def del: take_all drop_all)
  next
    case across
    then show ?thesis
      using read_across [OF inv n] same
      by (simp add: rt_ringbuffer_get_def data_len_contents [OF inv] Let_def del: take_all drop_all)
  qed
  then show "fst (rt_ringbuffer_get rb len) = take (unat len) (rb_contents rb)"
    and "rb_contents (snd (rt_ringbuffer_get rb len)) = drop (unat len) (rb_contents rb)"
    and "rb_inv (snd (rt_ringbuffer_get rb len))"
    by simp_all
qed

subsection \<open>Single bytes\<close>

lemma rt_ringbuffer_putchar_eq:
  assumes "rb_inv rb"
  shows "rt_ringbuffer_putchar rb ch = rt_ringbuffer_put rb [ch] 1"
proof -
  have upd: "(buffer_ptr rb)[rb_wi rb := ch] = overwrite (rb_wi rb) [ch] (buffer_ptr rb)"
    using assms by (simp add: rb_inv_def overwrite_def upd_conv_take_nth_drop)
  consider "rt_ringbuffer_space_len rb = 0"
    | (last) "0 < rt_ringbuffer_space_len rb" "rb_size rb - rb_wi rb = 1" "rb_wi rb = rb_size rb - 1"
    | (more) "0 < rt_ringbuffer_space_len rb" "1 < rb_size rb - rb_wi rb" "rb_wi rb \<noteq> rb_size rb - 1"
    using assms by (fastforce simp: rb_inv_def)
  then show ?thesis
  proof cases
    case last
    then show ?thesis
      unfolding rt_ringbuffer_putchar_def rt_ringbuffer_put_def upd Let_def
      by (simp only: last(2)) simp
  next
    case more
    then show ?thesis
      unfolding rt_ringbuffer_putchar_def rt_ringbuffer_put_def upd Let_def by simp
  qed (simp add: rt_ringbuffer_putchar_def rt_ringbuffer_put_def)
qed

lemma rt_ringbuffer_getchar_eq:
  assumes "rb_inv rb"
  shows "rt_ringbuffer_getchar rb =
    (case rt_ringbuffer_get rb 1 of ([], rb') \<Rightarrow> (None, rb') | (c # _, rb') \<Rightarrow> (Some c, rb'))"
proof -
  have first: "take 1 (drop (rb_ri rb) (buffer_ptr rb)) = [buffer_ptr rb ! rb_ri rb]"
    using assms by (simp add: rb_inv_def take_Suc_conv_app_nth)
  consider "rt_ringbuffer_data_len rb = 0"
    | (last) "0 < rt_ringbuffer_data_len rb" "rb_size rb - rb_ri rb = 1" "rb_ri rb = rb_size rb - 1"
    | (more) "0 < rt_ringbuffer_data_len rb" "1 < rb_size rb - rb_ri rb" "rb_ri rb \<noteq> rb_size rb - 1"
    using assms by (fastforce simp: rb_inv_def)
  then show ?thesis
  proof cases
    case last
    have "rt_ringbuffer_get rb 1 = ([buffer_ptr rb ! rb_ri rb],
        rb\<lparr>read_mirror := NOT (read_mirror rb), read_index := 0\<rparr>)"
      using last(1) unfolding rt_ringbuffer_get_def Let_def
      by (simp only: last(2) first) simp
    moreover have "rt_ringbuffer_getchar rb = (Some (buffer_ptr rb ! rb_ri rb),
        rb\<lparr>read_mirror := NOT (read_mirror rb), read_index := 0\<rparr>)"
      using last(1) unfolding rt_ringbuffer_getchar_def if_P [OF last(3)] by simp
    ultimately show ?thesis by simp
  next
    case more
    then show ?thesis
      unfolding rt_ringbuffer_getchar_def rt_ringbuffer_get_def Let_def
      using first by simp
  qed (simp add: rt_ringbuffer_getchar_def rt_ringbuffer_get_def)
qed

lemma size_put: "rb_size (snd (rt_ringbuffer_put rb ptr len)) = rb_size rb"
  by (simp add: rt_ringbuffer_put_def Let_def)

lemma size_get: "rb_size (snd (rt_ringbuffer_get rb len)) = rb_size rb"
  by (simp add: rt_ringbuffer_get_def Let_def)

text \<open>The bytes of a ring buffer form a bounded FIFO: \<open>rb_enq\<close> reads the C result as success.\<close>

definition rb_enq :: "u8 \<Rightarrow> ringbuffer \<Rightarrow> bool \<times> ringbuffer" where
  "rb_enq c rb = (case rt_ringbuffer_putchar rb c of (n, rb') \<Rightarrow> (n = 1, rb'))"

lemma rb_enq_eq: "rb_inv rb \<Longrightarrow>
    rb_enq c rb = (fst (rt_ringbuffer_put rb [c] 1) = 1, snd (rt_ringbuffer_put rb [c] 1))"
  by (simp add: rb_enq_def rt_ringbuffer_putchar_eq split: prod.split)

interpretation rb_fifo: bounded_fifo rb_inv rb_contents rb_size "\<lambda>_ _. True"
  rb_enq
  rt_ringbuffer_getchar
proof (unfold_locales, goal_cases)
  case (1 q)
  then show ?case by (rule length_contents_le)
next
  case (2 q x)
  then show ?case
    using rt_ringbuffer_put_spec [of q 1 "[x]"]
    by (simp add: rb_enq_eq rb_accept_def)
next
  case (3 q x)
  then show ?case
    using rt_ringbuffer_put_spec [of q 1 "[x]"] by (simp add: rb_enq_eq rb_accept_def)
next
  case (4 q x)
  then show ?case
    using rt_ringbuffer_put_spec [of q 1 "[x]"] by (simp add: rb_enq_eq rb_accept_def)
next
  case (5 q x)
  then show ?case by (simp add: rb_enq_eq size_put)
next
  case (6 q x y)
  then show ?case by simp
next
  case (7 q x xs)
  then show ?case
    using rt_ringbuffer_get_spec [of q 1]
    by (auto simp: rt_ringbuffer_getchar_eq split: prod.splits)
next
  case (8 q)
  then show ?case
    using rt_ringbuffer_get_spec [of q 1]
    by (auto simp: rt_ringbuffer_getchar_eq split: prod.splits)
next
  case (9 q)
  then show ?case
    using rt_ringbuffer_get_spec(3) [of q 1]
    by (auto simp: rt_ringbuffer_getchar_eq split: prod.splits list.splits)
next
  case (10 q)
  then show ?case
    using size_get [of q 1]
    by (auto simp: rt_ringbuffer_getchar_eq split: prod.splits list.splits)
next
  case (11 q y)
  then show ?case by simp
qed

subsection \<open>Properties\<close>

text \<open>
  A block written with \<open>rt_ringbuffer_put\<close> goes to the end of the contents: the call stores
  as many bytes as there is room for, returns that number, and keeps the older bytes in front.
\<close>

lemma ringbuffer_put_appends:
  assumes "rb_inv rb" "unat len \<le> length ptr"
  shows "fst (rt_ringbuffer_put rb ptr len) = min (unat len) (rb_size rb - length (rb_contents rb))
    \<and> rb_contents (snd (rt_ringbuffer_put rb ptr len))
        = rb_contents rb @ take (fst (rt_ringbuffer_put rb ptr len)) ptr
    \<and> rb_inv (snd (rt_ringbuffer_put rb ptr len))"
  using rt_ringbuffer_put_spec [OF assms] by (simp add: rb_accept_def)

definition rb_example :: ringbuffer where
  "rb_example = \<lparr>buffer_ptr = [1, 2, 3, 4, 5, 6, 7, 8], read_mirror = 0, read_index = 2,
     write_mirror = 0, write_index = 6, buffer_size = 8\<rparr>"

lemma rb_example_fields:
  "rb_size rb_example = 8" "rb_ri rb_example = 2" "rb_wi rb_example = 6"
  "read_mirror rb_example = write_mirror rb_example"
  by (simp_all add: rb_example_def)

lemma rb_example_inv: "rb_inv rb_example"
  by (simp add: rb_example_def rb_inv_def)

text \<open>
  \<open>rt_ringbuffer_get\<close> returns the oldest bytes, at most as many as asked for, and removes
  exactly these from the contents.
\<close>

lemma ringbuffer_get_oldest:
  assumes "rb_inv rb"
  shows "fst (rt_ringbuffer_get rb len) = take (unat len) (rb_contents rb)
    \<and> rb_contents (snd (rt_ringbuffer_get rb len)) = drop (unat len) (rb_contents rb)
    \<and> rb_inv (snd (rt_ringbuffer_get rb len))"
  using rt_ringbuffer_get_spec [OF assms, of len] by simp

text \<open>
  Bytes pushed one at a time with \<open>rt_ringbuffer_putchar\<close> while there is room come back from
  \<open>rt_ringbuffer_getchar\<close> once each and in order, after the bytes that were there before.
\<close>

lemma ringbuffer_drained:
  assumes "rb_inv rb" "length (rb_contents rb) + length cs \<le> rb_size rb"
  shows "fst (rb_fifo.drain (length (rb_contents rb) + length cs) (rb_fifo.enq_all cs rb))
    = rb_contents rb @ cs"
  using assms by (intro rb_fifo.enq_all_drain) simp_all

text \<open>Calls in any order: blocks and single bytes are put and got. A result is the number stored, the block read, or the
  byte read.\<close>

datatype rb_call = Rb_put "u8 list" | Rb_putchar u8 | Rb_get u16 | Rb_getchar

datatype rb_result = Stored nat | Block "u8 list" | Byte "u8 option"

fun rb_do :: "rb_call \<Rightarrow> ringbuffer \<Rightarrow> rb_result \<times> ringbuffer" where
  "rb_do (Rb_put bs) rb = apfst Stored (rt_ringbuffer_put rb bs (of_nat (length bs)))"
| "rb_do (Rb_putchar c) rb = apfst Stored (rt_ringbuffer_putchar rb c)"
| "rb_do (Rb_get n) rb = apfst Block (rt_ringbuffer_get rb n)"
| "rb_do Rb_getchar rb = apfst Byte (rt_ringbuffer_getchar rb)"

fun rb_calls :: "rb_call list \<Rightarrow> ringbuffer \<Rightarrow> rb_result list \<times> ringbuffer" where
  "rb_calls [] rb = ([], rb)"
| "rb_calls (c # cs) rb = (case rb_do c rb of (r, rb) \<Rightarrow> apfst ((#) r) (rb_calls cs rb))"

text \<open>The same calls on a list that holds at most \<open>room\<close> bytes.\<close>

fun list_do :: "nat \<Rightarrow> rb_call \<Rightarrow> u8 list \<Rightarrow> rb_result \<times> u8 list" where
  "list_do room (Rb_put bs) xs = (let ys = take (room - length xs) bs in (Stored (length ys), xs @ ys))"
| "list_do room (Rb_putchar c) xs = (if length xs < room then (Stored 1, xs @ [c]) else (Stored 0, xs))"
| "list_do room (Rb_get n) xs = (Block (take (unat n) xs), drop (unat n) xs)"
| "list_do room Rb_getchar xs = (case xs of [] \<Rightarrow> (Byte None, []) | x # xs \<Rightarrow> (Byte (Some x), xs))"

fun list_calls :: "nat \<Rightarrow> rb_call list \<Rightarrow> u8 list \<Rightarrow> rb_result list \<times> u8 list" where
  "list_calls room [] xs = ([], xs)"
| "list_calls room (c # cs) xs = (case list_do room c xs of (r, xs) \<Rightarrow> apfst ((#) r) (list_calls room cs xs))"

fun short_call :: "rb_call \<Rightarrow> bool" where
  "short_call (Rb_put bs) \<longleftrightarrow> length bs < 2 ^ 16"
| "short_call _ \<longleftrightarrow> True"

lemma rb_do_list:
  assumes "rb_inv rb" "short_call c"
  shows "apsnd rb_contents (rb_do c rb) = list_do (rb_size rb) c (rb_contents rb)
    \<and> rb_inv (snd (rb_do c rb)) \<and> rb_size (snd (rb_do c rb)) = rb_size rb"
proof (cases c)
  case (Rb_put bs)
  have n: "unat (of_nat (length bs) :: u16) = length bs" using assms(2) Rb_put by (simp add: unat_of_nat)
  show ?thesis
    using rt_ringbuffer_put_spec [OF assms(1), of "of_nat (length bs)" bs] n size_put [of rb bs "of_nat (length bs)"] Rb_put
    by (cases "rt_ringbuffer_put rb bs (of_nat (length bs))") (auto simp: rb_accept_def min_def)
next
  case (Rb_putchar ch)
  show ?thesis
    using rt_ringbuffer_put_spec [OF assms(1), of 1 "[ch]"] size_put [of rb "[ch]" 1] Rb_putchar rt_ringbuffer_putchar_eq [OF assms(1), of ch]
    by (cases "rt_ringbuffer_put rb [ch] 1") (auto simp: rb_accept_def min_def)
next
  case (Rb_get n)
  then show ?thesis using rt_ringbuffer_get_spec [OF assms(1), of n] size_get [of rb n]
    by (cases "rt_ringbuffer_get rb n") simp
next
  case Rb_getchar
  then show ?thesis
    using rt_ringbuffer_get_spec [OF assms(1), of 1] size_get [of rb 1] rt_ringbuffer_getchar_eq [OF assms(1)]
    by (cases "rt_ringbuffer_get rb 1"; cases "rb_contents rb") auto
qed

lemma rb_calls_list:
  "rb_inv rb \<Longrightarrow> \<forall>c \<in> set cs. short_call c \<Longrightarrow>
    apsnd rb_contents (rb_calls cs rb) = list_calls (rb_size rb) cs (rb_contents rb) \<and> rb_inv (snd (rb_calls cs rb))"
proof (induction cs arbitrary: rb)
  case (Cons c cs)
  obtain r rb1 where r: "rb_do c rb = (r, rb1)" by fastforce
  have 1: "list_do (rb_size rb) c (rb_contents rb) = (r, rb_contents rb1)" "rb_inv rb1" "rb_size rb1 = rb_size rb"
    using rb_do_list [OF Cons.prems(1), of c] Cons.prems(2) r by simp_all
  obtain rs rb2 where 2: "rb_calls cs rb1 = (rs, rb2)" by fastforce
  have "list_calls (rb_size rb) cs (rb_contents rb1) = (rs, rb_contents rb2)" "rb_inv rb2"
    using Cons.IH [OF 1(2)] Cons.prems(2) 1(3) 2 by simp_all
  then show ?case using r 1(1) 2 by simp
qed simp

text \<open>
  C37. Blocks and single bytes come out in the order they were put in: whatever calls of \<open>rt_ringbuffer_put\<close>,
  \<open>rt_ringbuffer_putchar\<close>, \<open>rt_ringbuffer_get\<close> and \<open>rt_ringbuffer_getchar\<close> are made in whatever order, wrapping round any
  number of times, every result and the data left are those of a list to whose end is written what fits and from whose front is read.
\<close>

theorem ringbuffer_bytes_in_order:
  assumes "rb_inv rb" "\<forall>c \<in> set cs. short_call c"
  shows "apsnd rb_contents (rb_calls cs rb) = list_calls (rb_size rb) cs (rb_contents rb) \<and> rb_inv (snd (rb_calls cs rb))"
  by (rule rb_calls_list [OF assms])

text \<open>A put that wraps round and drops what does not fit, and a get that wraps round.\<close>

theorem ringbuffer_bytes_in_order_witness:
  "fst (rb_calls [Rb_put [9, 10, 11], Rb_putchar 12, Rb_put [13], Rb_getchar, Rb_get 6] rb_example)
    = [Stored 3, Stored 1, Stored 0, Byte (Some 3), Block [4, 5, 6, 9, 10, 11]]
   \<and> rb_contents (snd (rb_calls [Rb_put [9, 10, 11], Rb_putchar 12, Rb_put [13], Rb_getchar, Rb_get 6] rb_example)) = [12]"
proof -
  have c: "rb_contents rb_example = [3, 4, 5, 6]"
    by (simp add: rb_example_def rb_contents_def)
  have "apsnd rb_contents (rb_calls [Rb_put [9, 10, 11], Rb_putchar 12, Rb_put [13], Rb_getchar, Rb_get 6] rb_example)
      = ([Stored 3, Stored 1, Stored 0, Byte (Some 3), Block [4, 5, 6, 9, 10, 11]], [12])"
    using ringbuffer_bytes_in_order [OF rb_example_inv, of "[Rb_put [9, 10, 11], Rb_putchar 12, Rb_put [13], Rb_getchar, Rb_get 6]"]
    unfolding c rb_example_fields(1) by (simp add: Let_def)
  then show ?thesis by (metis fst_apsnd snd_apsnd fst_conv snd_conv)
qed

text \<open>
  \<open>rt_ringbuffer_putchar_force\<close> always stores the byte; a full buffer drops its oldest byte
  for it, any other buffer keeps everything.
\<close>

lemma full_shape:
  assumes "rb_inv rb" "rt_ringbuffer_status rb = RT_RINGBUFFER_FULL"
  shows "read_mirror rb \<noteq> write_mirror rb" "rb_wi rb = rb_ri rb" "write_index rb = read_index rb"
  using assms by (auto simp: rt_ringbuffer_status_def split: if_splits)

lemma putchar_force_room:
  assumes "rb_inv rb" "rt_ringbuffer_status rb \<noteq> RT_RINGBUFFER_FULL"
  shows "rt_ringbuffer_putchar_force rb ch = rt_ringbuffer_putchar rb ch"
proof -
  have "length (rb_contents rb) \<noteq> rb_size rb"
    using assms
    by (auto simp: rb_contents_def rb_inv_def rt_ringbuffer_status_def index_eq_iff split: if_splits)
  then have "rt_ringbuffer_space_len rb \<noteq> 0"
    using length_contents_le [OF assms(1)] space_len_contents [OF assms(1)] by simp
  then show ?thesis
    using assms(2) by (simp add: rt_ringbuffer_putchar_force_def rt_ringbuffer_putchar_def Let_def)
qed

lemma putchar_force_full:
  assumes inv: "rb_inv rb" and full: "rt_ringbuffer_status rb = RT_RINGBUFFER_FULL"
  shows "rb_contents (snd (rt_ringbuffer_putchar_force rb ch)) = tl (rb_contents rb) @ [ch]
    \<and> rb_inv (snd (rt_ringbuffer_putchar_force rb ch))"
proof -
  note f = full_shape [OF inv full]
  have b: "rb_ri rb < rb_size rb" "rb_size rb \<le> length (buffer_ptr rb)" "rb_ri rb < length (buffer_ptr rb)"
    using inv by (auto simp: rb_inv_def)
  have hd: "drop (rb_ri rb) (take (rb_size rb) (buffer_ptr rb))
      = buffer_ptr rb ! rb_ri rb # drop (Suc (rb_ri rb)) (take (rb_size rb) (buffer_ptr rb))"
    using b by (simp add: Cons_nth_drop_Suc [symmetric])
  then have tl: "tl (rb_contents rb)
      = drop (Suc (rb_ri rb)) (take (rb_size rb) (buffer_ptr rb)) @ take (rb_ri rb) (buffer_ptr rb)"
    using f by (simp add: rb_contents_def)
  have upd: "take (Suc (rb_ri rb)) ((buffer_ptr rb)[rb_ri rb := ch]) = take (rb_ri rb) (buffer_ptr rb) @ [ch]"
    using b by (simp add: take_Suc_conv_app_nth)
  show ?thesis
  proof (cases "rb_ri rb = rb_size rb - 1")
    case True
    then have s: "rb_size rb = Suc (rb_ri rb)" using b by simp
    have "snd (rt_ringbuffer_putchar_force rb ch)
        = rb\<lparr>buffer_ptr := (buffer_ptr rb)[rb_ri rb := ch], write_mirror := NOT (write_mirror rb),
             write_index := 0, read_mirror := NOT (read_mirror rb), read_index := 0\<rparr>"
      using full f s by (simp add: rt_ringbuffer_putchar_force_def Let_def)
    then show ?thesis
      using f s b upd tl by (simp add: rb_contents_def rb_inv_def)
  next
    case False
    then have "Suc (rb_ri rb) < rb_size rb" using b by simp
    moreover from this have wi: "unat (read_index rb + 1) = Suc (rb_ri rb)"
      using unat_add_15 [of "read_index rb" 1] rb_size_bound [of rb] by simp
    moreover have "snd (rt_ringbuffer_putchar_force rb ch)
        = rb\<lparr>buffer_ptr := (buffer_ptr rb)[rb_ri rb := ch], write_index := read_index rb + 1,
             read_index := read_index rb + 1\<rparr>"
      using full f False by (simp add: rt_ringbuffer_putchar_force_def Let_def)
    ultimately show ?thesis
      using f b upd tl by (simp add: rb_contents_def rb_inv_def drop_take)
  qed
qed

lemma ringbuffer_putchar_force_drops_oldest:
  assumes "rb_inv rb"
  shows "rb_contents (snd (rt_ringbuffer_putchar_force rb ch))
      = (if length (rb_contents rb) = rb_size rb then tl (rb_contents rb) else rb_contents rb) @ [ch]
    \<and> rb_inv (snd (rt_ringbuffer_putchar_force rb ch))"
proof (cases "rt_ringbuffer_status rb = RT_RINGBUFFER_FULL")
  case True
  then have "length (rb_contents rb) = rb_size rb"
    using data_len_contents [OF assms] by (simp add: rt_ringbuffer_data_len_def)
  then show ?thesis using putchar_force_full [OF assms True] by simp
next
  case False
  have "length (rb_contents rb) \<noteq> rb_size rb"
    using assms False
    by (auto simp: rb_contents_def rb_inv_def rt_ringbuffer_status_def index_eq_iff split: if_splits)
  then have "length (rb_contents rb) < rb_size rb"
    using length_contents_le [OF assms] by simp
  then show ?thesis
    using rb_fifo.enq_room [OF assms TrueI, of ch] rb_fifo.enq_inv [OF assms TrueI, of ch]
    by (simp add: putchar_force_room [OF assms False] rb_enq_def case_prod_unfold)
qed

text \<open>
  \<open>rt_ringbuffer_put_force\<close> loses the whole buffer when the reader and the writer are in the
  same mirror and the forced block both crosses the end of the pool and overruns the reader: it
  flips both mirror bits and sets the indices equal, which reads as an empty buffer, although it
  reports the block as stored.
\<close>

lemma ringbuffer_put_force_loses_data:
  assumes "rb_inv rb" "read_mirror rb = write_mirror rb" "unat len \<le> rb_size rb"
    and "rb_size rb - rb_wi rb \<le> unat len" "rb_size rb - length (rb_contents rb) < unat len"
  shows "fst (rt_ringbuffer_put_force rb ptr len) = unat len
    \<and> rb_contents (snd (rt_ringbuffer_put_force rb ptr len)) = []"
proof -
  let ?tail = "rb_size rb - rb_wi rb"
  have conds: "\<not> unat len > rb_size rb" "\<not> ?tail > unat len" "unat len > rt_ringbuffer_space_len rb"
    using assms by (simp_all add: space_len_contents)
  have "rt_ringbuffer_put_force rb ptr len = (unat len,
      rb\<lparr>buffer_ptr := overwrite 0 (take (unat len - ?tail) (drop ?tail ptr))
                          (overwrite (rb_wi rb) (take ?tail ptr) (buffer_ptr rb)),
         write_mirror := NOT (write_mirror rb), write_index := of_nat (unat len - ?tail),
         read_mirror := NOT (read_mirror rb), read_index := of_nat (unat len - ?tail)\<rparr>)"
    unfolding rt_ringbuffer_put_force_def Let_def if_not_P [OF conds(1)] prod.case
      if_not_P [OF conds(2)] if_P [OF conds(3)] by simp
  then show ?thesis
    using assms(2) by (simp add: rb_contents_def)
qed

end
