(* ===== verification/FlexButton.thy ===== *)
theory FlexButton
  imports Interfaces
begin

text \<open>
  The button scanner \<open>packages/FlexibleButton-v1.0.0/flexible_button.c\<close>: registration of
  buttons, sampling of their levels into one 16-bit word, and the click / press state machine
  that every registered button runs once per scan. The linked list from \<open>btn_head\<close> is the list
  \<open>btns\<close> of button structures with their addresses; function pointers are identities
  (\<open>None\<close> is NULL), and the levels that the read functions return are an argument of the scan.
\<close>

subsection \<open>State\<close>

datatype flex_event =
    FLEX_BTN_PRESS_DOWN | FLEX_BTN_PRESS_CLICK | FLEX_BTN_PRESS_DOUBLE_CLICK
  | FLEX_BTN_PRESS_SHORT_START | FLEX_BTN_PRESS_SHORT_UP | FLEX_BTN_PRESS_LONG_START
  | FLEX_BTN_PRESS_LONG_UP | FLEX_BTN_PRESS_LONG_HOLD | FLEX_BTN_PRESS_LONG_HOLD_UP
  | FLEX_BTN_PRESS_MAX | FLEX_BTN_PRESS_NONE

record flex_button =
  pressed_logic_level :: "1 word"
  event :: flex_event
  status :: "3 word"
  scan_cnt :: u16
  click_cnt :: u16
  debounce_tick :: u16
  click_start_tick :: u16
  short_press_start_tick :: u16
  long_press_start_tick :: u16
  long_hold_start_tick :: u16
  usr_button_read :: "nat option"
  cb :: "nat option"

record flex_state =
  btns :: "(nat \<times> flex_button) list"
  trg :: u16
  cont :: u16
  keydata :: u16
  key_rst_data :: u16
  button_cnt :: u8

definition flex_init :: flex_state where
  "flex_init = \<lparr>btns = [], trg = 0, cont = 0, keydata = 0xFFFF, key_rst_data = 0xFFFF, button_cnt = 0\<rparr>"

definition MAX_BUTTON_CNT :: u8 where
  "MAX_BUTTON_CNT = 16"

subsection \<open>Registration\<close>

definition flex_button_register ::
  "flex_state \<Rightarrow> (nat \<times> flex_button) option \<Rightarrow> int \<times> flex_state" where
  "flex_button_register st button =
     (case button of
        None \<Rightarrow> (-1, st)
      | Some (p, b) \<Rightarrow>
          if button_cnt st > MAX_BUTTON_CNT then (-1, st)
          else if p \<in> fst ` set (btns st) then (-1, st)
          else
            let b' = b\<lparr>status := 0, event := FLEX_BTN_PRESS_NONE, scan_cnt := 0, click_cnt := 0\<rparr>;
                cnt = button_cnt st + 1
            in (sint cnt,
                st\<lparr>btns := (p, b') # btns st, key_rst_data := push_bit 1 (key_rst_data st),
                   button_cnt := cnt\<rparr>))"

subsection \<open>Sampling\<close>

text \<open>The loop of \<open>flex_button_read\<close> stops at the first button without a read function.\<close>

fun read_from :: "(nat \<Rightarrow> u8) \<Rightarrow> nat \<Rightarrow> (nat \<times> flex_button) list \<Rightarrow> u16 \<Rightarrow> u16" where
  "read_from rd i [] kd = kd"
| "read_from rd i ((p, b) # bs) kd =
     (case usr_button_read b of
        None \<Rightarrow> kd
      | Some r \<Rightarrow>
          read_from rd (Suc i) bs
            (kd OR (if pressed_logic_level b = 1 then push_bit i (of_bool (rd r = 0))
                    else push_bit i (ucast (rd r)))))"

definition flex_button_read :: "(nat \<Rightarrow> u8) \<Rightarrow> flex_state \<Rightarrow> flex_state" where
  "flex_button_read rd st =
     (let kd = read_from rd 0 (btns st) (key_rst_data st);
          read_data = kd XOR 0xFFFF
      in st\<lparr>keydata := kd, trg := read_data AND (read_data XOR cont st), cont := read_data\<rparr>)"

subsection \<open>The state machine of one button\<close>

definition EVENT_CB_EXECUTOR :: "flex_button \<Rightarrow> flex_button \<times> (nat \<times> flex_event) list" where
  "EVENT_CB_EXECUTOR b = (b, case cb b of None \<Rightarrow> [] | Some c \<Rightarrow> [(c, event b)])"

text \<open>The body of the loop in \<open>flex_button_process\<close> for one target; \<open>t\<close> and \<open>c\<close> are the tests
  \<open>trg & (1 << i)\<close> and \<open>cont & (1 << i)\<close>.\<close>

definition flex_process_target ::
  "bool \<Rightarrow> bool \<Rightarrow> flex_button \<Rightarrow> flex_button \<times> (nat \<times> flex_event) list" where
  "flex_process_target t c b0 =
     (let b = (if status b0 > 0 then b0\<lparr>scan_cnt := scan_cnt b0 + 1\<rparr> else b0)
      in if status b = 0 then
           (if t then EVENT_CB_EXECUTOR
                        (b\<lparr>scan_cnt := 0, click_cnt := 0, status := 1, event := FLEX_BTN_PRESS_DOWN\<rparr>)
            else (b\<lparr>event := FLEX_BTN_PRESS_NONE\<rparr>, []))
         else if status b = 1 then
           (if \<not> c then (b\<lparr>status := 2\<rparr>, [])
            else if scan_cnt b \<ge> short_press_start_tick b \<and> scan_cnt b < long_press_start_tick b
            then EVENT_CB_EXECUTOR (b\<lparr>status := 4, event := FLEX_BTN_PRESS_SHORT_START\<rparr>)
            else (b, []))
         else if status b = 2 then
           (if scan_cnt b < click_start_tick b then
              (let b = b\<lparr>click_cnt := click_cnt b + 1\<rparr>
               in if click_cnt b = 1 then (b\<lparr>status := 3\<rparr>, [])
                  else EVENT_CB_EXECUTOR
                         (b\<lparr>click_cnt := 0, status := 0, event := FLEX_BTN_PRESS_DOUBLE_CLICK\<rparr>))
            else if scan_cnt b \<ge> click_start_tick b \<and> scan_cnt b < short_press_start_tick b
            then EVENT_CB_EXECUTOR (b\<lparr>click_cnt := 0, status := 0, event := FLEX_BTN_PRESS_CLICK\<rparr>)
            else if scan_cnt b \<ge> short_press_start_tick b \<and> scan_cnt b < long_press_start_tick b
            then EVENT_CB_EXECUTOR (b\<lparr>click_cnt := 0, status := 0, event := FLEX_BTN_PRESS_SHORT_UP\<rparr>)
            else if scan_cnt b \<ge> long_press_start_tick b \<and> scan_cnt b < long_hold_start_tick b
            then EVENT_CB_EXECUTOR (b\<lparr>click_cnt := 0, status := 0, event := FLEX_BTN_PRESS_LONG_UP\<rparr>)
            else if scan_cnt b \<ge> long_hold_start_tick b
            then EVENT_CB_EXECUTOR (b\<lparr>click_cnt := 0, status := 0, event := FLEX_BTN_PRESS_LONG_HOLD_UP\<rparr>)
            else (b, []))
         else if status b = 3 then
           (if t then (b\<lparr>click_cnt := click_cnt b + 1, status := 2, scan_cnt := scan_cnt b - 1\<rparr>, [])
            else if scan_cnt b \<ge> click_start_tick b then (b\<lparr>status := 2\<rparr>, [])
            else (b, []))
         else if status b = 4 then
           (if \<not> c then (b\<lparr>status := 2\<rparr>, [])
            else if scan_cnt b \<ge> long_press_start_tick b \<and> scan_cnt b < long_hold_start_tick b
            then EVENT_CB_EXECUTOR (b\<lparr>status := 5, event := FLEX_BTN_PRESS_LONG_START\<rparr>)
            else (b, []))
         else if status b = 5 then
           (if \<not> c then (b\<lparr>status := 2\<rparr>, [])
            else if scan_cnt b \<ge> long_hold_start_tick b
            then EVENT_CB_EXECUTOR (b\<lparr>status := 6, event := FLEX_BTN_PRESS_LONG_HOLD\<rparr>)
            else (b, []))
         else if status b = 6 then
           (if \<not> c then (b\<lparr>status := 2\<rparr>, []) else (b, []))
         else (b, []))"

fun process_from ::
  "u16 \<Rightarrow> u16 \<Rightarrow> nat \<Rightarrow> (nat \<times> flex_button) list \<Rightarrow> (nat \<times> flex_button) list \<times> (nat \<times> flex_event) list" where
  "process_from t c i [] = ([], [])"
| "process_from t c i ((p, b) # bs) =
     (let (b', es) = flex_process_target (bit t i) (bit c i) b;
          (bs', es') = process_from t c (Suc i) bs
      in ((p, b') # bs', es @ es'))"

definition flex_button_process :: "flex_state \<Rightarrow> flex_state \<times> (nat \<times> flex_event) list" where
  "flex_button_process st =
     (let (bs, es) = process_from (trg st) (cont st) 0 (btns st) in (st\<lparr>btns := bs\<rparr>, es))"

definition flex_button_event_read :: "flex_button \<Rightarrow> flex_event" where
  "flex_button_event_read b = event b"

definition flex_button_scan :: "(nat \<Rightarrow> u8) \<Rightarrow> flex_state \<Rightarrow> flex_state \<times> (nat \<times> flex_event) list" where
  "flex_button_scan rd st = flex_button_process (flex_button_read rd st)"

subsection \<open>One button over a sequence of scans\<close>

text \<open>\<open>btn_run b prev ps\<close> feeds one button with the debounced samples \<open>ps\<close> (pressed or not),
  \<open>prev\<close> being the sample before: \<open>cont\<close> is the sample itself and \<open>trg\<close> its rising edge.\<close>

fun btn_run :: "flex_button \<Rightarrow> bool \<Rightarrow> bool list \<Rightarrow> flex_button \<times> (nat \<times> flex_event) list" where
  "btn_run b prev [] = (b, [])"
| "btn_run b prev (p # ps) =
     (let (b', es) = flex_process_target (p \<and> \<not> prev) p b;
          (b'', es') = btn_run b' p ps
      in (b'', es @ es'))"

lemma btn_run_append:
  "btn_run b prev (ps @ qs) =
     (let (b', es) = btn_run b prev ps;
          (b'', es') = btn_run b' (last (prev # ps)) qs
      in (b'', es @ es'))"
  by (induction ps arbitrary: b prev) (simp_all add: Let_def split: prod.splits)

lemma btn_run_appendI:
  "btn_run b prev ps = (b', es) \<Longrightarrow> last (prev # ps) = q \<Longrightarrow>
    snd (btn_run b prev (ps @ qs)) = es @ snd (btn_run b' q qs)"
  by (simp add: btn_run_append case_prod_unfold Let_def)

text \<open>The order of the thresholds that \<open>user_button_init\<close> sets up.\<close>

definition flex_config :: "flex_button \<Rightarrow> bool" where
  "flex_config b \<longleftrightarrow> click_start_tick b + 1 < short_press_start_tick b
     \<and> click_start_tick b < click_start_tick b + 1
     \<and> short_press_start_tick b < long_press_start_tick b
     \<and> long_press_start_tick b < long_hold_start_tick b"

lemma flex_config_nat:
  assumes "flex_config b"
  shows "Suc (unat (click_start_tick b)) < unat (short_press_start_tick b)"
    and "unat (short_press_start_tick b) < unat (long_press_start_tick b)"
    and "unat (long_press_start_tick b) < unat (long_hold_start_tick b)"
    and "unat (long_hold_start_tick b) < 65536"
proof -
  have "1 + click_start_tick b \<noteq> 0"
    using assms by (auto simp: flex_config_def add.commute)
  then have "unat (click_start_tick b + 1) = Suc (unat (click_start_tick b))"
    using unatSuc [of "click_start_tick b"] by (simp add: add.commute)
  then show "Suc (unat (click_start_tick b)) < unat (short_press_start_tick b)"
    using assms by (simp add: flex_config_def word_less_nat_alt)
  show "unat (short_press_start_tick b) < unat (long_press_start_tick b)"
    and "unat (long_press_start_tick b) < unat (long_hold_start_tick b)"
    using assms by (simp_all add: flex_config_def word_less_nat_alt)
  show "unat (long_hold_start_tick b) < 65536"
    using unsigned_less [of "long_hold_start_tick b"] by simp
qed

lemma of_nat_compare_16:
  assumes "k < 65536"
  shows "(t :: u16) \<le> of_nat k \<longleftrightarrow> unat t \<le> k" and "of_nat k < t \<longleftrightarrow> k < unat t"
  using assms by (simp_all add: word_le_nat_alt word_less_nat_alt unat_of_nat)

subsubsection \<open>While the button is held\<close>

definition held_status :: "flex_button \<Rightarrow> nat \<Rightarrow> 3 word" where
  "held_status b k =
     (if k < unat (short_press_start_tick b) then 1
      else if k < unat (long_press_start_tick b) then 4
      else if k < unat (long_hold_start_tick b) then 5 else 6)"

definition held_events :: "flex_button \<Rightarrow> nat \<Rightarrow> flex_event list" where
  "held_events b k =
     FLEX_BTN_PRESS_DOWN
     # (if unat (short_press_start_tick b) \<le> k then [FLEX_BTN_PRESS_SHORT_START] else [])
     @ (if unat (long_press_start_tick b) \<le> k then [FLEX_BTN_PRESS_LONG_START] else [])
     @ (if unat (long_hold_start_tick b) \<le> k then [FLEX_BTN_PRESS_LONG_HOLD] else [])"

lemma held_step:
  assumes cfg: "flex_config b" and f: "cb b = Some f"
  shows "flex_process_target False True
      (b\<lparr>scan_cnt := of_nat k, click_cnt := 0, status := held_status b k, event := last (held_events b k)\<rparr>)
    = (b\<lparr>scan_cnt := of_nat (Suc k), click_cnt := 0, status := held_status b (Suc k),
         event := last (held_events b (Suc k))\<rparr>,
       map (Pair f) (drop (length (held_events b k)) (held_events b (Suc k))))"
proof -
  note c = flex_config_nat [OF cfg]
  have suc: "of_nat k + 1 = (of_nat (Suc k) :: u16)" by simp
  let ?s = "unat (short_press_start_tick b)" and ?l = "unat (long_press_start_tick b)"
    and ?h = "unat (long_hold_start_tick b)"
  consider "Suc k < ?s" | "Suc k = ?s" | "?s \<le> k" "Suc k < ?l" | "Suc k = ?l"
    | "?l \<le> k" "Suc k < ?h" | "Suc k = ?h" | "?h \<le> k"
    by linarith
  then show ?thesis
  proof cases
    case 7
    then show ?thesis using c
      by (simp add: flex_process_target_def held_status_def held_events_def Let_def suc del: of_nat_Suc)
  qed (use c cfg [unfolded flex_config_def] in \<open>simp_all add: flex_process_target_def held_status_def held_events_def Let_def suc
      of_nat_compare_16 EVENT_CB_EXECUTOR_def f del: of_nat_Suc\<close>)
qed

lemma held_run:
  assumes cfg: "flex_config b" and f: "cb b = Some f" and idle: "status b = 0"
  shows "btn_run b False (replicate (Suc k) True) =
    (b\<lparr>scan_cnt := of_nat k, click_cnt := 0, status := held_status b k, event := last (held_events b k)\<rparr>,
     map (Pair f) (held_events b k))"
proof (induction k)
  case 0
  show ?case
    using flex_config_nat [OF cfg] idle f
    by (simp add: flex_process_target_def EVENT_CB_EXECUTOR_def held_status_def held_events_def)
next
  case (Suc k)
  have pre: "held_events b (Suc k) = held_events b k @ drop (length (held_events b k)) (held_events b (Suc k))"
    using flex_config_nat [OF cfg] by (auto simp: held_events_def)
  have "replicate (Suc (Suc k)) True = replicate (Suc k) True @ [True]"
    by (metis replicate_Suc replicate_append_same)
  moreover have "last (False # replicate (Suc k) True)"
    by (induction k) auto
  ultimately have "btn_run b False (replicate (Suc (Suc k)) True) =
    (b\<lparr>scan_cnt := of_nat (Suc k), click_cnt := 0, status := held_status b (Suc k),
       event := last (held_events b (Suc k))\<rparr>,
     map (Pair f) (held_events b k)
       @ map (Pair f) (drop (length (held_events b k)) (held_events b (Suc k))))"
    by (simp only: btn_run_append Suc.IH) (simp add: held_step [OF cfg f] del: of_nat_Suc)
  then show ?case
    by (metis (no_types, lifting) map_append pre)
qed

subsubsection \<open>After the release\<close>

text \<open>The event reported for a release seen with the counter at \<open>v\<close>.\<close>

definition release_event :: "flex_button \<Rightarrow> nat \<Rightarrow> flex_event" where
  "release_event b v =
     (if v < unat (short_press_start_tick b) then FLEX_BTN_PRESS_CLICK
      else if v < unat (long_press_start_tick b) then FLEX_BTN_PRESS_SHORT_UP
      else if v < unat (long_hold_start_tick b) then FLEX_BTN_PRESS_LONG_UP
      else FLEX_BTN_PRESS_LONG_HOLD_UP)"

lemma idle_run:
  "status b = 0 \<Longrightarrow> snd (btn_run b False (replicate m False)) = []
    \<and> status (fst (btn_run b False (replicate m False))) = 0"
  by (induction m arbitrary: b) (simp_all add: flex_process_target_def Let_def split: prod.split)

text \<open>Status 3 waits for a second press until the counter reaches the click threshold.\<close>

lemma wait_run:
  assumes cfg: "flex_config b" and f: "cb b = Some f"
    and "status b = 3" "scan_cnt b = of_nat v" "v + j = unat (click_start_tick b)" "0 < j"
  shows "snd (btn_run b False (replicate (j + 1 + m) False)) = [(f, FLEX_BTN_PRESS_CLICK)]"
  using assms
proof (induction j arbitrary: b v)
  case 0
  then show ?case by simp
next
  case (Suc j)
  note c = flex_config_nat [OF Suc.prems(1)]
  have tick: "scan_cnt b + 1 = of_nat (Suc v)"
    using Suc.prems(4) by simp
  show ?case
  proof (cases "j = 0")
    case True
    let ?b1 = "b\<lparr>scan_cnt := of_nat (Suc v), status := 2\<rparr>"
    have reach: "Suc v = unat (click_start_tick b)" using Suc.prems(5) True by simp
    have s1: "flex_process_target False False b = (?b1, [])"
      using Suc.prems(3) c reach
      by (simp add: flex_process_target_def Let_def tick of_nat_compare_16 del: of_nat_Suc)
    have s2: "flex_process_target False False ?b1
        = (?b1\<lparr>scan_cnt := of_nat (Suc (Suc v)), click_cnt := 0, status := 0,
              event := FLEX_BTN_PRESS_CLICK\<rparr>, [(f, FLEX_BTN_PRESS_CLICK)])"
    proof -
      have "of_nat (Suc v) + 1 = (of_nat (Suc (Suc v)) :: u16)" by simp
      then show ?thesis using c reach Suc.prems(2)
        by (simp add: flex_process_target_def Let_def of_nat_compare_16 EVENT_CB_EXECUTOR_def
            del: of_nat_Suc)
    qed
    show ?thesis
      using idle_run [of "?b1\<lparr>scan_cnt := of_nat (Suc (Suc v)), click_cnt := 0, status := 0,
              event := FLEX_BTN_PRESS_CLICK\<rparr>" m]
      by (simp add: True s1 s2 case_prod_unfold del: of_nat_Suc)
  next
    case False
    let ?b1 = "b\<lparr>scan_cnt := of_nat (Suc v)\<rparr>"
    have less: "Suc v < unat (click_start_tick b)" using Suc.prems(5) False by simp
    have s1: "flex_process_target False False b = (?b1, [])"
      using Suc.prems(3) c less
      by (simp add: flex_process_target_def Let_def tick of_nat_compare_16 del: of_nat_Suc)
    have "snd (btn_run ?b1 False (replicate (j + 1 + m) False)) = [(f, FLEX_BTN_PRESS_CLICK)]"
      using Suc.prems False by (intro Suc.IH [of _ "Suc v"]) (simp_all add: flex_config_def)
    then show ?thesis
      by (simp add: s1 case_prod_unfold del: of_nat_Suc)
  qed
qed

lemma of_nat_mod_16: "(of_nat (k mod 65536) :: u16) = of_nat k"
  by (simp add: word_unat_eq_iff unat_of_nat)

lemma release_run:
  assumes cfg: "flex_config b" and f: "cb b = Some f"
    and st: "status b \<in> {1, 4, 5, 6}" "scan_cnt b = of_nat k" "click_cnt b = 0"
    and m: "unat (click_start_tick b) + 3 \<le> m"
  shows "snd (btn_run b True (replicate m False)) = [(f, release_event b ((k + 2) mod 65536))]"
proof -
  note c = flex_config_nat [OF cfg]
  define v where "v = (k + 2) mod 65536"
  have v: "v < 65536" "of_nat k + 1 + 1 = (of_nat v :: u16)"
    by (simp_all add: v_def of_nat_mod_16)
  let ?b1 = "b\<lparr>scan_cnt := of_nat k + 1, status := 2\<rparr>"
  have s1: "flex_process_target False False b = (?b1, [])"
  proof -
    consider "status b = 1" | "status b = 4" | "status b = 5" | "status b = 6"
      using st(1) by blast
    then show ?thesis
      by cases (simp_all add: flex_process_target_def st(2))
  qed
  obtain m' where m': "m = Suc (Suc m')" "unat (click_start_tick b) + 1 \<le> m'"
    using m by (intro that [of "m - 2"]) simp_all
  have two: "snd (btn_run b True (replicate m False))
      = snd (flex_process_target False False ?b1)
        @ snd (btn_run (fst (flex_process_target False False ?b1)) False (replicate m' False))"
    by (simp add: m'(1) s1 case_prod_unfold Let_def)
  show ?thesis
  proof (cases "v < unat (click_start_tick b)")
    case True
    let ?b2 = "?b1\<lparr>scan_cnt := of_nat v, click_cnt := 1, status := 3\<rparr>"
    have "flex_process_target False False ?b1 = (?b2, [])"
      using True v st(3) by (simp add: flex_process_target_def Let_def of_nat_compare_16)
    moreover have "snd (btn_run ?b2 False (replicate m' False)) = [(f, FLEX_BTN_PRESS_CLICK)]"
    proof -
      define j where "j = unat (click_start_tick b) - v"
      have "j + 1 \<le> m'" using m'(2) by (simp add: j_def)
      then have "replicate m' False = replicate (j + 1 + (m' - (j + 1))) False" by simp
      moreover have "snd (btn_run ?b2 False (replicate (j + 1 + (m' - (j + 1))) False))
          = [(f, FLEX_BTN_PRESS_CLICK)]"
        by (rule wait_run [where v = v])
          (use cfg f True in \<open>simp_all add: flex_config_def j_def\<close>)
      ultimately show ?thesis by metis
    qed
    ultimately show ?thesis
      using True c two by (simp add: release_event_def v_def)
  next
    case False
    let ?b2 = "?b1\<lparr>scan_cnt := of_nat v, click_cnt := 0, status := 0, event := release_event b v\<rparr>"
    have "flex_process_target False False ?b1 = (?b2, [(f, release_event b v)])"
      using False v c f
      by (simp add: flex_process_target_def Let_def of_nat_compare_16 EVENT_CB_EXECUTOR_def
          release_event_def not_less)
    then show ?thesis
      using two idle_run [of ?b2 m'] by (simp add: v_def)
  qed
qed

subsubsection \<open>Gestures\<close>

lemma press_release_run:
  assumes cfg: "flex_config b" and f: "cb b = Some f" and idle: "status b = 0"
    and m: "unat (click_start_tick b) + 3 \<le> m"
  shows "snd (btn_run b False (replicate (Suc k) True @ replicate m False))
    = map (Pair f) (held_events b k @ [release_event b ((k + 2) mod 65536)])"
proof -
  let ?b1 = "b\<lparr>scan_cnt := of_nat k, click_cnt := 0, status := held_status b k,
               event := last (held_events b k)\<rparr>"
  have "last (False # replicate (Suc k) True)"
    by (induction k) auto
  moreover have "snd (btn_run ?b1 True (replicate m False))
      = [(f, release_event ?b1 ((k + 2) mod 65536))]"
    by (rule release_run) (use cfg f m in \<open>auto simp: flex_config_def held_status_def\<close>)
  moreover have "release_event ?b1 = release_event b"
    by (simp add: release_event_def fun_eq_iff)
  ultimately show ?thesis
    by (simp only: btn_run_append held_run [OF cfg f idle]) (simp add: case_prod_unfold)
qed

text \<open>Two presses: the second one starts \<open>g\<close> scans after the first was released.\<close>

lemma idle_while_held:
  "status b = 0 \<Longrightarrow> snd (btn_run b True (replicate n True)) = []
    \<and> status (fst (btn_run b True (replicate n True))) = 0"
  by (induction n arbitrary: b) (simp_all add: flex_process_target_def Let_def split: prod.split)

lemma idle_release:
  assumes "status b = 0"
  shows "snd (btn_run b True (replicate n False)) = []"
proof (cases n)
  case 0
  then show ?thesis by simp
next
  case (Suc m)
  have "flex_process_target False False b = (b\<lparr>event := FLEX_BTN_PRESS_NONE\<rparr>, [])"
    using assms by (simp add: flex_process_target_def)
  then show ?thesis
    using idle_run [of "b\<lparr>event := FLEX_BTN_PRESS_NONE\<rparr>" m] assms Suc
    by (simp add: case_prod_unfold)
qed

lemma wait_silent:
  assumes "flex_config b" "status b = 3" "scan_cnt b = of_nat v" "v + g < unat (click_start_tick b)"
  shows "btn_run b False (replicate g False) = (b\<lparr>scan_cnt := of_nat (v + g)\<rparr>, [])"
  using assms
proof (induction g arbitrary: b v)
  case 0
  then show ?case by simp
next
  case (Suc g)
  note c = flex_config_nat [OF Suc.prems(1)]
  have tick: "scan_cnt b + 1 = of_nat (Suc v)" using Suc.prems(3) by simp
  have s1: "flex_process_target False False b = (b\<lparr>scan_cnt := of_nat (Suc v)\<rparr>, [])"
    using Suc.prems(2,4) c
    by (simp add: flex_process_target_def Let_def tick of_nat_compare_16 del: of_nat_Suc)
  have "btn_run (b\<lparr>scan_cnt := of_nat (Suc v)\<rparr>) False (replicate g False)
      = (b\<lparr>scan_cnt := of_nat (Suc v + g)\<rparr>, [])"
    using Suc.prems Suc.IH [of "b\<lparr>scan_cnt := of_nat (Suc v)\<rparr>" "Suc v"]
    by (simp add: flex_config_def del: of_nat_Suc)
  then show ?case by (simp add: s1 del: of_nat_Suc)
qed

lemma double_press_run:
  assumes cfg: "flex_config b" and f: "cb b = Some f" and idle: "status b = 0"
    and quick: "Suc k + (g + 2) < unat (click_start_tick b)"
  shows "snd (btn_run b False
      (replicate (Suc k) True @ replicate (g + 2) False @ replicate (Suc (Suc n)) True @ replicate m False))
    = [(f, FLEX_BTN_PRESS_DOWN), (f, FLEX_BTN_PRESS_DOUBLE_CLICK)]"
proof -
  note c = flex_config_nat [OF cfg]
  have short: "held_status b k = 1" "held_events b k = [FLEX_BTN_PRESS_DOWN]"
    using quick c by (simp_all add: held_status_def held_events_def)
  let ?b1 = "b\<lparr>scan_cnt := of_nat k, click_cnt := 0, status := 1, event := FLEX_BTN_PRESS_DOWN\<rparr>"
  let ?b2 = "?b1\<lparr>scan_cnt := of_nat (k + 2), click_cnt := 1, status := 3\<rparr>"
  let ?b3 = "?b2\<lparr>scan_cnt := of_nat (k + 2 + g)\<rparr>"
  let ?b4 = "?b3\<lparr>click_cnt := 2, status := 2\<rparr>"
  let ?b5 = "?b4\<lparr>scan_cnt := of_nat (k + 3 + g), click_cnt := 0, status := 0,
                 event := FLEX_BTN_PRESS_DOUBLE_CLICK\<rparr>"
  have press: "btn_run b False (replicate (Suc k) True) = (?b1, [(f, FLEX_BTN_PRESS_DOWN)])"
    using held_run [OF cfg f idle, of k] short by simp
  have "flex_process_target False False ?b1 = (?b1\<lparr>scan_cnt := of_nat k + 1, status := 2\<rparr>, [])"
    by (simp add: flex_process_target_def)
  moreover have "flex_process_target False False (?b1\<lparr>scan_cnt := of_nat k + 1, status := 2\<rparr>) = (?b2, [])"
  proof -
    have "of_nat k + 1 + 1 = (of_nat (k + 2) :: u16)" by simp
    then show ?thesis using quick c
      by (simp add: flex_process_target_def Let_def of_nat_compare_16 del: of_nat_add of_nat_Suc of_nat_numeral)
  qed
  moreover have "btn_run ?b2 False (replicate g False) = (?b3, [])"
    using quick cfg wait_silent [of ?b2 "k + 2" g] by (simp add: flex_config_def)
  ultimately have gap: "btn_run ?b1 True (replicate (g + 2) False) = (?b3, [])"
    by (simp del: of_nat_add)
  have "flex_process_target True True ?b3 = (?b4, [])"
    by (simp add: flex_process_target_def)
  moreover have "flex_process_target False True ?b4 = (?b5, [(f, FLEX_BTN_PRESS_DOUBLE_CLICK)])"
  proof -
    have "of_nat (k + 2 + g) + 1 = (of_nat (k + 3 + g) :: u16)" by simp
    then show ?thesis using quick c f
      by (simp add: flex_process_target_def Let_def of_nat_compare_16 EVENT_CB_EXECUTOR_def
          del: of_nat_add of_nat_Suc of_nat_numeral)
  qed
  moreover have "snd (btn_run ?b5 True (replicate n True)) = []"
    "status (fst (btn_run ?b5 True (replicate n True))) = 0"
    using idle_while_held [of ?b5 n] by simp_all
  ultimately have second: "snd (btn_run ?b3 False (replicate (Suc (Suc n)) True @ replicate m False))
      = [(f, FLEX_BTN_PRESS_DOUBLE_CLICK)]"
    using idle_release by (simp add: btn_run_append case_prod_unfold Let_def del: of_nat_add)
  have "last (False # replicate (Suc k) True) = True" "last (True # replicate (g + 2) False) = False"
    by simp_all
  then show ?thesis
    using second by (simp only: btn_run_appendI [OF press] btn_run_appendI [OF gap]) simp
qed

subsection \<open>The registered buttons\<close>

text \<open>With \<open>n\<close> registered buttons the reset word has its lowest \<open>n\<close> bits clear.\<close>

definition flex_inv :: "flex_state \<Rightarrow> bool" where
  "flex_inv st \<longleftrightarrow> distinct (map fst (btns st)) \<and> length (btns st) \<le> 17
     \<and> button_cnt st = of_nat (length (btns st))
     \<and> key_rst_data st = push_bit (length (btns st)) 0xFFFF"

lemma flex_init_inv: "flex_inv flex_init"
  by (simp add: flex_inv_def flex_init_def)

lemma register_cases:
  assumes "flex_inv st"
  shows "flex_button_register st (Some (p, b)) =
    (if length (btns st) = 17 \<or> p \<in> fst ` set (btns st) then (-1, st)
     else (int (Suc (length (btns st))),
           st\<lparr>btns := (p, b\<lparr>status := 0, event := FLEX_BTN_PRESS_NONE, scan_cnt := 0, click_cnt := 0\<rparr>) # btns st,
              key_rst_data := push_bit (Suc (length (btns st))) 0xFFFF,
              button_cnt := of_nat (Suc (length (btns st)))\<rparr>))"
proof -
  have n: "length (btns st) \<le> 17" using assms by (simp add: flex_inv_def)
  have big: "(of_nat (length (btns st)) :: u8) > 16 \<longleftrightarrow> length (btns st) = 17"
    using n by (simp add: word_less_nat_alt unat_of_nat) linarith
  have val: "length (btns st) \<noteq> 17 \<Longrightarrow> sint (of_nat (length (btns st)) + 1 :: u8) = int (Suc (length (btns st)))"
  proof -
    assume "length (btns st) \<noteq> 17"
    then have lt: "Suc (length (btns st)) < 128" using n by simp
    have "sint (word_of_int (int (Suc (length (btns st)))) :: u8) = int (Suc (length (btns st)))"
      unfolding sint_sbintrunc' using lt by (intro signed_take_bit_int_eq_self) simp_all
    then show ?thesis by (simp add: add.commute)
  qed
  show ?thesis
    using assms big val
    by (auto simp: flex_button_register_def MAX_BUTTON_CNT_def flex_inv_def Let_def push_bit_push_bit add.commute)
qed

lemma register_inv: "flex_inv st \<Longrightarrow> flex_inv (snd (flex_button_register st button))"
proof (cases button)
  case None
  then show "flex_inv st \<Longrightarrow> ?thesis" by (simp add: flex_button_register_def)
next
  case (Some pb)
  assume inv: "flex_inv st"
  obtain p b where pb: "pb = (p, b)" by (cases pb)
  show ?thesis
    using inv by (auto simp: Some pb register_cases [OF inv] flex_inv_def)
qed

lemma process_from_fst: "map fst (fst (process_from t c i bs)) = map fst bs"
  by (induction t c i bs rule: process_from.induct) (auto simp: Let_def split: prod.splits)

lemma scan_inv: "flex_inv st \<Longrightarrow> flex_inv (fst (flex_button_scan rd st))"
proof -
  assume inv: "flex_inv st"
  have "map fst (fst (process_from t c i (btns st))) = map fst (btns st)" for t c i
    by (rule process_from_fst)
  then have "map fst (btns (fst (flex_button_scan rd st))) = map fst (btns st)"
    by (simp add: flex_button_scan_def flex_button_process_def flex_button_read_def Let_def case_prod_unfold)
  moreover from this have "length (btns (fst (flex_button_scan rd st))) = length (btns st)"
    by (metis length_map)
  ultimately show ?thesis
    using inv
    by (simp add: flex_inv_def)
      (simp add: flex_button_scan_def flex_button_process_def flex_button_read_def Let_def case_prod_unfold)
qed

text \<open>The scanner as a machine whose inputs are registrations and scans.\<close>

datatype flex_input = Register "(nat \<times> flex_button) option" | Scan "nat \<Rightarrow> u8"

fun flex_step :: "flex_state \<Rightarrow> flex_input \<Rightarrow> flex_state" where
  "flex_step st (Register button) = snd (flex_button_register st button)"
| "flex_step st (Scan rd) = fst (flex_button_scan rd st)"

interpretation flex_machine: invariant_machine flex_step flex_inv
proof unfold_locales
  fix st i
  assume "flex_inv st"
  then show "flex_inv (flex_step st i)"
    by (cases i) (simp_all add: register_inv scan_inv)
qed

subsection \<open>What a scan samples\<close>

definition pressed :: "(nat \<Rightarrow> u8) \<Rightarrow> flex_button \<Rightarrow> bool" where
  "pressed rd b =
     (case usr_button_read b of
        None \<Rightarrow> False
      | Some r \<Rightarrow> if pressed_logic_level b = 1 then rd r \<noteq> 0 else rd r = 0)"

text \<open>The pins deliver 0 or 1, and every button has a read function.\<close>

definition readable :: "(nat \<Rightarrow> u8) \<Rightarrow> flex_state \<Rightarrow> bool" where
  "readable rd st \<longleftrightarrow>
     (\<forall>(p, b) \<in> set (btns st). \<exists>r. usr_button_read b = Some r \<and> (rd r = 0 \<or> rd r = 1))"

lemma bit_read_from:
  assumes "\<forall>(p, b) \<in> set bs. \<exists>r. usr_button_read b = Some r \<and> (rd r = 0 \<or> rd r = 1)" "j < 16"
  shows "bit (read_from rd i bs kd) j \<longleftrightarrow>
    bit kd j \<or> (i \<le> j \<and> j < i + length bs \<and> \<not> pressed rd (snd (bs ! (j - i))))"
  using assms(1)
proof (induction bs arbitrary: i kd)
  case Nil
  then show ?case by auto
next
  case (Cons pb bs)
  obtain p b where pb: "pb = (p, b)" by (cases pb)
  obtain r where r: "usr_button_read b = Some r" "rd r = 0 \<or> rd r = 1"
    using Cons.prems pb by auto
  define x :: u16 where "x = (if pressed_logic_level b = 1 then push_bit i (of_bool (rd r = 0))
    else push_bit i (ucast (rd r)))"
  have x: "bit x j \<longleftrightarrow> j = i \<and> \<not> pressed rd b"
    using r assms(2) by (auto simp: x_def pressed_def bit_simps)
  have ih: "bit (read_from rd (Suc i) bs (kd OR x)) j \<longleftrightarrow>
      bit (kd OR x) j \<or> (Suc i \<le> j \<and> j < Suc i + length bs \<and> \<not> pressed rd (snd (bs ! (j - Suc i))))"
    using Cons.prems by (intro Cons.IH) simp
  have "j \<noteq> i \<Longrightarrow> i \<le> j \<Longrightarrow> (pb # bs) ! (j - i) = bs ! (j - Suc i)"
    by (simp add: nth_Cons' )
  then show ?case
    using ih x by (cases "j = i") (auto simp: pb r x_def [symmetric] bit_or_iff)
qed

lemma bit_FFFF: "j < 16 \<Longrightarrow> bit (0xFFFF :: u16) j"
proof -
  assume "j < 16"
  have "(0xFFFF :: u16) = - 1" by simp
  then show ?thesis using \<open>j < 16\<close> by (simp only: bit_minus_1_iff) (simp add: possible_bit_def)
qed

lemma bit_reset_word: "j < 16 \<Longrightarrow> bit (push_bit n (0xFFFF :: u16)) j \<longleftrightarrow> n \<le> j"
  using bit_FFFF [of "j - n"] by (auto simp only: bit_push_bit_iff) (auto simp: possible_bit_def)

lemma read_cont: "cont (flex_button_read rd st) = read_from rd 0 (btns st) (key_rst_data st) XOR 0xFFFF"
  by (simp add: flex_button_read_def Let_def)

lemma scan_bits:
  assumes inv: "flex_inv st" and rd: "readable rd st" and j: "j < 16"
  shows "bit (cont (flex_button_read rd st)) j \<longleftrightarrow>
      j < length (btns st) \<and> pressed rd (snd (btns st ! j))"
    and "bit (trg (flex_button_read rd st)) j \<longleftrightarrow>
      j < length (btns st) \<and> pressed rd (snd (btns st ! j)) \<and> \<not> bit (cont st) j"
proof -
  have kd: "key_rst_data st = push_bit (length (btns st)) 0xFFFF"
    using inv by (simp add: flex_inv_def)
  have "bit (read_from rd 0 (btns st) (key_rst_data st)) j \<longleftrightarrow>
      length (btns st) \<le> j \<or> (j < length (btns st) \<and> \<not> pressed rd (snd (btns st ! j)))"
    using bit_read_from [OF rd [unfolded readable_def] j, of 0 "key_rst_data st"]
    unfolding kd bit_reset_word [OF j] by simp
  then show c: "bit (cont (flex_button_read rd st)) j \<longleftrightarrow>
      j < length (btns st) \<and> pressed rd (snd (btns st ! j))"
    using bit_FFFF [OF j] read_cont [of rd st] by (auto simp only: bit_xor_iff)
  have "bit (trg (flex_button_read rd st)) j \<longleftrightarrow>
      bit (cont (flex_button_read rd st)) j \<and> \<not> bit (cont st) j"
    by (auto simp: flex_button_read_def Let_def bit_xor_iff bit_and_iff)
  then show "bit (trg (flex_button_read rd st)) j \<longleftrightarrow>
      j < length (btns st) \<and> pressed rd (snd (btns st ! j)) \<and> \<not> bit (cont st) j"
    using c by blast
qed

lemma process_from_nth:
  assumes "j < length bs"
  shows "fst (process_from t c i bs) ! j
    = (fst (bs ! j), fst (flex_process_target (bit t (i + j)) (bit c (i + j)) (snd (bs ! j))))"
  using assms
proof (induction bs arbitrary: i j)
  case Nil
  then show ?case by simp
next
  case (Cons pb bs)
  obtain p b where pb: "pb = (p, b)" by (cases pb)
  then show ?case
    using Cons by (cases j) (simp_all add: Let_def case_prod_unfold)
qed

lemma process_from_events:
  "snd (process_from t c i bs) =
     concat (map (\<lambda>j. snd (flex_process_target (bit t (i + j)) (bit c (i + j)) (snd (bs ! j)))) [0..<length bs])"
proof (induction bs arbitrary: i)
  case Nil
  then show ?case by simp
next
  case (Cons pb bs)
  obtain p b where pb: "pb = (p, b)" by (cases pb)
  have "[0..<length (pb # bs)] = 0 # map Suc [0..<length bs]"
    by (simp add: upt_conv_Cons map_Suc_upt del: upt_Suc)
  then show ?case
    using Cons [of "Suc i"] pb by (simp add: Let_def case_prod_unfold comp_def del: upt_Suc)
qed

text \<open>What \<open>flex_process_target\<close> never changes, and whom it calls.\<close>

lemma process_target_frame [frame_simps]:
  "usr_button_read (fst (flex_process_target t c b)) = usr_button_read b"
  "pressed_logic_level (fst (flex_process_target t c b)) = pressed_logic_level b"
  "cb (fst (flex_process_target t c b)) = cb b"
  by (simp_all add: flex_process_target_def EVENT_CB_EXECUTOR_def Let_def)

lemma process_target_cb:
  "e \<in> set (snd (flex_process_target t c b)) \<Longrightarrow> cb b = Some (fst e)"
  by (auto simp: flex_process_target_def EVENT_CB_EXECUTOR_def Let_def split: if_splits option.splits)

lemma pressed_process_target [frame_simps]:
  "pressed rd (fst (flex_process_target t c b)) = pressed rd b"
  by (simp add: pressed_def frame_simps split: option.split)

fun flex_scans :: "flex_state \<Rightarrow> (nat \<Rightarrow> u8) list \<Rightarrow> flex_state \<times> (nat \<times> flex_event) list" where
  "flex_scans st [] = (st, [])"
| "flex_scans st (rd # rds) =
     (let (st', es) = flex_button_scan rd st;
          (st'', es') = flex_scans st' rds
      in (st'', es @ es'))"

lemma scan_btns:
  "btns (fst (flex_button_scan rd st)) =
     fst (process_from (trg (flex_button_read rd st)) (cont (flex_button_read rd st)) 0 (btns st))"
  "snd (flex_button_scan rd st) =
     snd (process_from (trg (flex_button_read rd st)) (cont (flex_button_read rd st)) 0 (btns st))"
  "cont (fst (flex_button_scan rd st)) = cont (flex_button_read rd st)"
  by (simp_all add: flex_button_scan_def flex_button_process_def case_prod_unfold Let_def flex_button_read_def)

lemma length_process_from: "length (fst (process_from t c i bs)) = length bs"
  using process_from_fst [of t c i bs] by (metis length_map)

text \<open>Only the button whose callback is \<open>f\<close> contributes the calls of \<open>f\<close>.\<close>

lemma process_from_filter:
  assumes j: "j < length bs"
    and others: "\<And>k. k < length bs \<Longrightarrow> k \<noteq> j \<Longrightarrow> cb (snd (bs ! k)) \<noteq> Some f"
    and mine: "cb (snd (bs ! j)) = Some f"
  shows "filter (\<lambda>e. fst e = f) (snd (process_from t c 0 bs))
    = snd (flex_process_target (bit t j) (bit c j) (snd (bs ! j)))"
proof -
  let ?ev = "\<lambda>k. snd (flex_process_target (bit t k) (bit c k) (snd (bs ! k)))"
  have parts: "[0..<length bs] = [0..<j] @ j # [Suc j..<length bs]"
    using j upt_add_eq_append [of 0 j "length bs - j"] by (simp add: upt_conv_Cons)
  have none: "filter (\<lambda>e. fst e = f) (concat (map ?ev ks)) = []"
    if "\<forall>k \<in> set ks. k < length bs \<and> k \<noteq> j" for ks
    using that others process_target_cb by (fastforce simp: filter_empty_conv)
  have "filter (\<lambda>e. fst e = f) (?ev j) = ?ev j"
    using mine process_target_cb by (fastforce simp: filter_id_conv)
  then show ?thesis
    using none [of "[0..<j]"] none [of "[Suc j..<length bs]"] j
    by (simp add: process_from_events parts del: upt_Suc)
qed

lemma readable_scan:
  assumes "readable rd' st"
  shows "readable rd' (fst (flex_button_scan rd st))"
proof -
  let ?bs = "btns (fst (flex_button_scan rd st))"
  have "\<exists>r. usr_button_read (snd (?bs ! k)) = Some r \<and> (rd' r = 0 \<or> rd' r = 1)" if "k < length ?bs" for k
  proof -
    have k: "k < length (btns st)"
      using that by (simp add: scan_btns length_process_from)
    then have "\<exists>r. usr_button_read (snd (btns st ! k)) = Some r \<and> (rd' r = 0 \<or> rd' r = 1)"
      using assms nth_mem [OF k] by (auto simp: readable_def case_prod_unfold)
    then show ?thesis
      using k by (simp add: scan_btns process_from_nth frame_simps)
  qed
  then show ?thesis
    by (simp add: readable_def case_prod_unfold) (metis in_set_conv_nth)
qed

lemma flex_scans_button_any:
  assumes "flex_inv st" "\<forall>rd \<in> set rds. readable rd st" "j < length (btns st)"
    and "cb (snd (btns st ! j)) = Some f"
    and "\<forall>k < length (btns st). k \<noteq> j \<longrightarrow> cb (snd (btns st ! k)) \<noteq> Some f"
    and "j < 16"
  shows "filter (\<lambda>e. fst e = f) (snd (flex_scans st rds))
    = snd (btn_run (snd (btns st ! j)) (bit (cont st) j) (map (\<lambda>rd. pressed rd (snd (btns st ! j))) rds))"
  using assms
proof (induction rds arbitrary: st)
  case Nil
  then show ?case by simp
next
  case (Cons rd rds)
  let ?st = "fst (flex_button_scan rd st)" and ?b = "snd (btns st ! j)"
  let ?r = "flex_button_read rd st"
  have rd: "readable rd st" using Cons.prems by simp
  note bits = scan_bits [OF Cons.prems(1) rd Cons.prems(6)]
  have b': "snd (btns ?st ! k)
      = fst (flex_process_target (bit (trg ?r) k) (bit (cont ?r) k) (snd (btns st ! k)))"
    if "k < length (btns st)" for k
    using that by (simp add: scan_btns process_from_nth)
  have len: "length (btns ?st) = length (btns st)"
    by (simp add: scan_btns length_process_from)
  have ih: "filter (\<lambda>e. fst e = f) (snd (flex_scans ?st rds))
    = snd (btn_run (snd (btns ?st ! j)) (bit (cont ?st) j) (map (\<lambda>rd. pressed rd (snd (btns ?st ! j))) rds))"
    using Cons.prems readable_scan scan_inv
    by (intro Cons.IH) (simp_all add: len b' frame_simps)
  have here: "filter (\<lambda>e. fst e = f) (snd (flex_button_scan rd st))
    = snd (flex_process_target (bit (trg ?r) j) (bit (cont ?r) j) ?b)"
    using Cons.prems by (simp add: scan_btns process_from_filter)
  show ?case
    using Cons.prems(3) here ih bits
    by (simp add: Let_def case_prod_unfold b' frame_simps scan_btns(3))
qed

subsection \<open>Properties\<close>

text \<open>A button as \<open>user_button_init\<close> fills it, with callback 7 and read function 3.\<close>

definition example_button :: flex_button where
  "example_button =
     \<lparr>pressed_logic_level = 0, event = FLEX_BTN_PRESS_NONE, status = 0, scan_cnt = 0, click_cnt = 0,
      debounce_tick = 0, click_start_tick = 20, short_press_start_tick = 100,
      long_press_start_tick = 200, long_hold_start_tick = 300,
      usr_button_read = Some 3, cb = Some 7\<rparr>"

lemma example_button_config:
  "flex_config example_button" "cb example_button = Some 7" "status example_button = 0"
  "unat (click_start_tick example_button) = 20" "unat (short_press_start_tick example_button) = 100"
  "unat (long_press_start_tick example_button) = 200" "unat (long_hold_start_tick example_button) = 300"
  by (simp_all add: example_button_def flex_config_def)

text \<open>C38. One press and release. A button that is pressed for \<open>k + 1\<close> scans (fewer than 65535)
  and then stays released calls back with PRESS_DOWN, with each of SHORT_START, LONG_START and
  LONG_HOLD whose threshold the hold has reached, and finally with the one release event whose
  interval contains \<open>k + 2\<close>; nothing else is reported.\<close>

theorem flex_press_release:
  assumes "flex_config b" "cb b = Some f" "status b = 0"
    and "unat (click_start_tick b) + 3 \<le> m" "k + 2 < 65536"
  shows "snd (btn_run b False (replicate (k + 1) True @ replicate m False)) =
    map (Pair f)
      ([FLEX_BTN_PRESS_DOWN]
       @ (if unat (short_press_start_tick b) \<le> k then [FLEX_BTN_PRESS_SHORT_START] else [])
       @ (if unat (long_press_start_tick b) \<le> k then [FLEX_BTN_PRESS_LONG_START] else [])
       @ (if unat (long_hold_start_tick b) \<le> k then [FLEX_BTN_PRESS_LONG_HOLD] else [])
       @ [if k + 2 < unat (short_press_start_tick b) then FLEX_BTN_PRESS_CLICK
          else if k + 2 < unat (long_press_start_tick b) then FLEX_BTN_PRESS_SHORT_UP
          else if k + 2 < unat (long_hold_start_tick b) then FLEX_BTN_PRESS_LONG_UP
          else FLEX_BTN_PRESS_LONG_HOLD_UP])"
  using press_release_run [OF assms(1-4), of k] assms(5)
  by (simp add: held_events_def release_event_def)

theorem flex_press_release_witness:
  "snd (btn_run example_button False (replicate 151 True @ replicate 30 False)) =
    map (Pair 7) [FLEX_BTN_PRESS_DOWN, FLEX_BTN_PRESS_SHORT_START, FLEX_BTN_PRESS_SHORT_UP]
   \<and> snd (btn_run example_button False (replicate 31 True @ replicate 30 False)) =
    map (Pair 7) [FLEX_BTN_PRESS_DOWN, FLEX_BTN_PRESS_CLICK]"
  using flex_press_release [of example_button 7 30 150] flex_press_release [of example_button 7 30 30]
  by (simp add: example_button_config)

text \<open>Two presses within the click window: when the second press starts while the counter
  of the first is below \<open>click_start_tick\<close>, exactly PRESS_DOWN and DOUBLE_CLICK are reported,
  however long the second press lasts (no click, no second press, no long press).\<close>

lemma flex_double_click:
  assumes "flex_config b" "cb b = Some f" "status b = 0"
    and "k + g + 3 < unat (click_start_tick b)"
  shows "snd (btn_run b False
      (replicate (k + 1) True @ replicate (g + 2) False @ replicate (n + 2) True @ replicate m False))
    = [(f, FLEX_BTN_PRESS_DOWN), (f, FLEX_BTN_PRESS_DOUBLE_CLICK)]"
  using double_press_run [OF assms(1-3), of k g n m] assms(4) by simp

text \<open>The 16-bit scan counter wraps while a button is held: after 65535 scans the counter is
  back at the click interval, so the release of a button held for \<open>65535 + v\<close> scans is reported
  as a CLICK after LONG_HOLD instead of LONG_HOLD_UP.\<close>

lemma flex_hold_wraps:
  assumes "flex_config b" "cb b = Some f" "status b = 0"
    and "unat (click_start_tick b) + 3 \<le> m"
    and "v < unat (short_press_start_tick b)" "unat (long_hold_start_tick b) < 65535"
  shows "snd (btn_run b False (replicate (65535 + v) True @ replicate m False)) =
    map (Pair f) [FLEX_BTN_PRESS_DOWN, FLEX_BTN_PRESS_SHORT_START, FLEX_BTN_PRESS_LONG_START,
                  FLEX_BTN_PRESS_LONG_HOLD, FLEX_BTN_PRESS_CLICK]"
proof -
  note c = flex_config_nat [OF assms(1)]
  have "v < 65536" using c assms(5) by linarith
  moreover have "65534 + v + 2 = v + 65536" by linarith
  ultimately have wrap: "(65534 + v + 2) mod 65536 = v" by (metis mod_add_self2 mod_less)
  have "held_events b (65534 + v) = [FLEX_BTN_PRESS_DOWN, FLEX_BTN_PRESS_SHORT_START,
      FLEX_BTN_PRESS_LONG_START, FLEX_BTN_PRESS_LONG_HOLD]"
    using assms(6) c(2,3) by (simp add: held_events_def)
  moreover have "release_event b v = FLEX_BTN_PRESS_CLICK"
    using assms(5) by (simp only: release_event_def if_True)
  moreover have "Suc (65534 + v) = 65535 + v" by simp
  ultimately show ?thesis
    using press_release_run [OF assms(1-4), of "65534 + v"]
    by (simp only: wrap append.simps)
qed

text \<open>The buttons are independent: over any sequence of scans from a state that satisfies the
  invariant, the calls of the callback of one of the first 16 buttons are those that this button
  alone makes on its own samples, whatever the others do.\<close>

lemma flex_scans_independent:
  assumes "flex_inv st" "\<forall>rd \<in> set rds. readable rd st" "j < length (btns st)" "j < 16"
    and "cb (snd (btns st ! j)) = Some f"
    and "\<forall>k < length (btns st). k \<noteq> j \<longrightarrow> cb (snd (btns st ! k)) \<noteq> Some f"
  shows "filter (\<lambda>e. fst e = f) (snd (flex_scans st rds))
    = snd (btn_run (snd (btns st ! j)) (bit (cont st) j) (map (\<lambda>rd. pressed rd (snd (btns st ! j))) rds))"
  using assms by (intro flex_scans_button_any)

text \<open>Two buttons: 3 is pressed at level 0, 4 at level 1.\<close>

definition example_flex :: flex_state where
  "example_flex =
     snd (flex_button_register
       (snd (flex_button_register flex_init (Some (1, example_button))))
       (Some (2, example_button\<lparr>usr_button_read := Some 4, cb := Some 8, pressed_logic_level := 1\<rparr>)))"

lemma example_flex_inv: "flex_inv example_flex"
  by (simp add: example_flex_def register_inv flex_init_inv)

lemma example_flex_btns:
  "btns example_flex =
     [(2, example_button\<lparr>usr_button_read := Some 4, cb := Some 8, pressed_logic_level := 1\<rparr>),
      (1, example_button)]" "cont example_flex = 0"
  by (simp_all add: example_flex_def flex_init_def flex_button_register_def MAX_BUTTON_CNT_def Let_def example_button_def)

lemma example_flex_run:
  "snd (btn_run example_button False [False, True, False]) = [(7, FLEX_BTN_PRESS_DOWN)]"
  by (simp add: example_button_def flex_process_target_def EVENT_CB_EXECUTOR_def Let_def)

lemma example_flex_pressed:
  "map (\<lambda>rd. pressed rd example_button) [\<lambda>r. 1, \<lambda>r. 0, \<lambda>r. 1] = [False, True, False]"
  by (simp add: example_button_def pressed_def)

text \<open>Registration: a NULL or already registered button is refused with -1 and no change;
  otherwise a button is accepted while fewer than 17 are registered, is put in front of the list
  in the idle state, clears one more bit of the reset word, and the number of registered buttons
  is returned. The invariant is kept.\<close>

lemma flex_register_result:
  assumes "flex_inv st"
  shows "flex_button_register st None = (-1, st)
    \<and> flex_button_register st (Some (p, b)) =
      (if length (btns st) = 17 \<or> p \<in> fst ` set (btns st) then (-1, st)
       else (int (length (btns st) + 1),
             st\<lparr>btns := (p, b\<lparr>status := 0, event := FLEX_BTN_PRESS_NONE, scan_cnt := 0, click_cnt := 0\<rparr>) # btns st,
                key_rst_data := push_bit (length (btns st) + 1) 0xFFFF,
                button_cnt := of_nat (length (btns st) + 1)\<rparr>))
    \<and> flex_inv (snd (flex_button_register st button))"
proof (intro conjI)
  show "flex_button_register st None = (-1, st)" by (simp add: flex_button_register_def)
  show "flex_inv (snd (flex_button_register st button))" by (rule register_inv [OF assms])
qed (simp only: register_cases [OF assms] Suc_eq_plus1)

text \<open>The 17th button: \<open>flex_button_register\<close> accepts it (the guard is
  \<open>button_cnt > MAX_BUTTON_CNT\<close>), which moves the first registered button to position 16,
  outside the 16-bit sample word: from then on it never reports anything, whatever its pin does.\<close>

lemma dead_target:
  "status b = 0 \<Longrightarrow> flex_process_target False c b = (b\<lparr>event := FLEX_BTN_PRESS_NONE\<rparr>, [])"
  by (simp add: flex_process_target_def)

definition seventeenth_idle :: "nat \<Rightarrow> flex_state \<Rightarrow> bool" where
  "seventeenth_idle f st \<longleftrightarrow> length (btns st) = 17 \<and> status (snd (btns st ! 16)) = 0
     \<and> (\<forall>k < 16. cb (snd (btns st ! k)) \<noteq> Some f)"

lemma seventeenth_scan:
  assumes "seventeenth_idle f st"
  shows "seventeenth_idle f (fst (flex_button_scan rd st))"
    and "(f, e) \<notin> set (snd (flex_button_scan rd st))"
proof -
  let ?r = "flex_button_read rd st"
  have lost: "\<not> bit (trg ?r) 16" using bit_imp_le_length [of "trg ?r" 16] by auto
  have nth: "btns (fst (flex_button_scan rd st)) ! k
      = (fst (btns st ! k), fst (flex_process_target (bit (trg ?r) k) (bit (cont ?r) k) (snd (btns st ! k))))"
    if "k < 17" for k
    using that assms by (simp add: scan_btns process_from_nth seventeenth_idle_def)
  show "seventeenth_idle f (fst (flex_button_scan rd st))"
    using assms lost
    by (simp add: seventeenth_idle_def nth frame_simps dead_target)
      (simp add: scan_btns length_process_from)
  have "(f, e) \<notin> set (snd (flex_process_target (bit (trg ?r) k) (bit (cont ?r) k) (snd (btns st ! k))))"
    if "k < 17" for k
  proof (cases "k = 16")
    case True
    then show ?thesis using lost assms by (simp add: dead_target seventeenth_idle_def)
  next
    case False
    then have "k < 16" using that by simp
    then show ?thesis
      using assms process_target_cb [of "(f, e)" _ _ "snd (btns st ! k)"]
      by (auto simp: seventeenth_idle_def)
  qed
  then show "(f, e) \<notin> set (snd (flex_button_scan rd st))"
    using assms by (auto simp: scan_btns process_from_events seventeenth_idle_def)
qed

lemma seventeenth_scans: "seventeenth_idle f st \<Longrightarrow> (f, e) \<notin> set (snd (flex_scans st rds))"
  by (induction rds arbitrary: st)
    (simp_all add: Let_def case_prod_unfold seventeenth_scan)

lemma flex_seventeenth_dead:
  assumes "flex_inv st" "length (btns st) = 16" "p \<notin> fst ` set (btns st)"
    and "status (snd (btns st ! 15)) = 0"
    and "\<forall>k < 15. cb (snd (btns st ! k)) \<noteq> Some f" "cb b \<noteq> Some f"
  shows "fst (flex_button_register st (Some (p, b))) = 17
    \<and> (f, e) \<notin> set (snd (flex_scans (snd (flex_button_register st (Some (p, b)))) rds))"
proof -
  have "seventeenth_idle f (snd (flex_button_register st (Some (p, b))))"
    using assms by (auto simp: register_cases seventeenth_idle_def nth_Cons')
  then show ?thesis
    using seventeenth_scans register_cases [OF assms(1), of p b] assms(2,3) by auto
qed

text \<open>Sixteen buttons with the callbacks 0 to 15; the first registered one has callback 0.\<close>

primrec example_flex16 :: "nat \<Rightarrow> flex_state" where
  "example_flex16 0 = flex_init"
| "example_flex16 (Suc n) =
     snd (flex_button_register (example_flex16 n) (Some (n, example_button\<lparr>cb := Some n\<rparr>)))"

lemma example_flex16_inv: "flex_inv (example_flex16 n)"
  by (induction n) (simp_all add: flex_init_inv register_inv)

lemma example_flex16_btns:
  "n \<le> 16 \<Longrightarrow> btns (example_flex16 n) = map (\<lambda>k. (k, example_button\<lparr>cb := Some k\<rparr>)) (rev [0..<n])"
proof (induction n)
  case 0
  then show ?case by (simp add: flex_init_def)
next
  case (Suc n)
  then have "btns (example_flex16 n) = map (\<lambda>k. (k, example_button\<lparr>cb := Some k\<rparr>)) (rev [0..<n])"
    by simp
  then show ?case
    using Suc.prems register_cases [OF example_flex16_inv, of n n "example_button\<lparr>cb := Some n\<rparr>"]
    by (simp add: image_image) (simp add: example_button_def)
qed

end
