(* ===== verification/RtMq.thy ===== *)
theory RtMq
  imports Interfaces "HOL-Library.Multiset"
begin

text \<open>
  The kernel message queue of \<open>rt-thread/src/ipc.c\<close> (\<open>rt_mq_*\<close>, with the thread lists of
  \<open>rt_ipc_list_suspend\<close>, \<open>rt_ipc_list_resume\<close> and \<open>rt_ipc_list_resume_all\<close>), which carries the
  key events and the player's commands. The pool is an array of \<open>max_msgs\<close> blocks: block \<open>b\<close> has the
  link \<open>mq_next b\<close> (the \<open>rt_mq_message\<close> header) and the payload \<open>mq_body b\<close> of \<open>msg_size\<close> bytes; a pointer to a
  block is its number, NULL is \<open>None\<close>. Every section that the C code runs with interrupts disabled
  is one function; a call is the composition of its sections, and \<open>mq_step\<close> interleaves the
  sections of several threads.
\<close>

subsection \<open>State\<close>

record rt_thread =
  thread_id :: nat
  current_priority :: u8

record rt_messagequeue =
  mq_flag :: u8
  mq_suspend_thread :: "rt_thread list"
  mq_msg_size :: u16
  mq_max_msgs :: u16
  mq_entry :: u16
  mq_head :: "nat option"
  mq_tail :: "nat option"
  mq_free :: "nat option"
  mq_suspend_sender :: "rt_thread list"
  mq_next :: "nat \<Rightarrow> nat option"
  mq_body :: "nat \<Rightarrow> u8 list"
  mq_resumed :: "(nat \<times> int option) list"

text \<open>\<open>mq_resumed\<close> logs the threads handed to \<open>rt_thread_resume\<close>, with the error code written into
  the thread when the call writes one.\<close>

abbreviation mq_size :: "rt_messagequeue \<Rightarrow> nat" where
  "mq_size mq \<equiv> unat (mq_msg_size mq)"

abbreviation mq_max :: "rt_messagequeue \<Rightarrow> nat" where
  "mq_max mq \<equiv> unat (mq_max_msgs mq)"

subsection \<open>Thread lists\<close>

definition RT_IPC_FLAG_FIFO :: u8 where "RT_IPC_FLAG_FIFO = 0"
definition RT_IPC_FLAG_PRIO :: u8 where "RT_IPC_FLAG_PRIO = 1"

fun insert_prio :: "'a rt_thread_scheme \<Rightarrow> 'a rt_thread_scheme list \<Rightarrow> 'a rt_thread_scheme list" where
  "insert_prio t [] = [t]"
| "insert_prio t (s # ss) =
     (if current_priority t < current_priority s then t # s # ss else s # insert_prio t ss)"

definition rt_ipc_list_suspend :: "'a rt_thread_scheme list \<Rightarrow> 'a rt_thread_scheme \<Rightarrow> u8 \<Rightarrow> 'a rt_thread_scheme list" where
  "rt_ipc_list_suspend ts t flag =
     (if flag = RT_IPC_FLAG_FIFO then ts @ [t]
      else if flag = RT_IPC_FLAG_PRIO then insert_prio t ts
      else ts)"

definition rt_ipc_list_resume :: "'a rt_thread_scheme list \<Rightarrow> 'a rt_thread_scheme list \<times> (nat \<times> int option) list" where
  "rt_ipc_list_resume ts =
     (case ts of [] \<Rightarrow> ([], []) | t # ts' \<Rightarrow> (ts', [(thread_id t, None)]))"

fun rt_ipc_list_resume_all :: "'a rt_thread_scheme list \<Rightarrow> 'a rt_thread_scheme list \<times> (nat \<times> int option) list" where
  "rt_ipc_list_resume_all [] = ([], [])"
| "rt_ipc_list_resume_all (t # ts) =
     (let (rest, woken) = rt_ipc_list_resume_all ts
      in (rest, (thread_id t, Some (- rt_err_value RT_ERROR)) # woken))"

lemma resume_all_empty: "fst (rt_ipc_list_resume_all ts) = []"
  by (induction ts) (simp_all add: case_prod_unfold Let_def)

lemma resume_all_woken:
  "snd (rt_ipc_list_resume_all ts) = map (\<lambda>t. (thread_id t, Some (- rt_err_value RT_ERROR))) ts"
  by (induction ts) (simp_all add: case_prod_unfold Let_def)

lemma set_insert_prio: "mset (insert_prio t ts) = add_mset t (mset ts)"
  by (induction ts) auto

lemma sorted_insert_prio:
  "sorted_wrt (\<lambda>a b. current_priority a \<le> current_priority b) ts \<Longrightarrow>
    sorted_wrt (\<lambda>a b. current_priority a \<le> current_priority b) (insert_prio t ts)"
proof (induction ts)
  case (Cons s ss)
  moreover have "set (insert_prio t ss) = insert t (set ss)"
    by (metis set_insert_prio set_mset_add_mset_insert set_mset_mset)
  ultimately show ?case by auto
qed simp

subsection \<open>Creation\<close>

text \<open>The loop that threads the blocks into the free list, from \<open>msg_queue_free = RT_NULL\<close>.\<close>

fun mq_init_free :: "nat list \<Rightarrow> (nat \<Rightarrow> nat option) \<Rightarrow> nat option \<Rightarrow> (nat \<Rightarrow> nat option) \<times> nat option" where
  "mq_init_free [] nx fr = (nx, fr)"
| "mq_init_free (i # is) nx fr = mq_init_free is (nx(i := fr)) (Some i)"

definition rt_mq_init ::
  "(nat \<Rightarrow> nat option) \<times> (nat \<Rightarrow> u8 list) \<Rightarrow> u32 \<Rightarrow> u32 \<Rightarrow> u8 \<Rightarrow> rt_messagequeue" where
  "rt_mq_init pool msg_size pool_size flag =
     (let sz = (ucast (RT_ALIGN msg_size RT_ALIGN_SIZE) :: u16);
          max_msgs = (ucast (pool_size div (ucast sz + 4)) :: u16);
          (nx, fr) = mq_init_free [0..<unat max_msgs] (fst pool) None
      in \<lparr>mq_flag = flag, mq_suspend_thread = [], mq_msg_size = sz, mq_max_msgs = max_msgs,
          mq_entry = 0, mq_head = None, mq_tail = None, mq_free = fr, mq_suspend_sender = [],
          mq_next = nx, mq_body = snd pool, mq_resumed = []\<rparr>)"

text \<open>\<open>rt_mq_create\<close> takes the object and the pool from the heap; either allocation may fail.\<close>

definition rt_mq_create ::
  "bool \<Rightarrow> (u32 \<Rightarrow> ((nat \<Rightarrow> nat option) \<times> (nat \<Rightarrow> u8 list)) option) \<Rightarrow> u32 \<Rightarrow> u32 \<Rightarrow> u8 \<Rightarrow> rt_messagequeue option" where
  "rt_mq_create object_ok kernel_malloc msg_size max_msgs flag =
     (if \<not> object_ok then None
      else
        let sz = (ucast (RT_ALIGN msg_size RT_ALIGN_SIZE) :: u16);
            mx = (ucast max_msgs :: u16)
        in (case kernel_malloc ((ucast sz + 4) * ucast mx) of
              None \<Rightarrow> None
            | Some pool \<Rightarrow>
                (let (nx, fr) = mq_init_free [0..<unat mx] (fst pool) None
                 in Some \<lparr>mq_flag = flag, mq_suspend_thread = [], mq_msg_size = sz, mq_max_msgs = mx,
                          mq_entry = 0, mq_head = None, mq_tail = None, mq_free = fr,
                          mq_suspend_sender = [], mq_next = nx,
                          mq_body = snd pool, mq_resumed = []\<rparr>)))"

definition mq_resume_waiters :: "rt_messagequeue \<Rightarrow> rt_messagequeue" where
  "mq_resume_waiters mq =
     (let (rs, woken) = rt_ipc_list_resume_all (mq_suspend_thread mq);
          (ss, woken') = rt_ipc_list_resume_all (mq_suspend_sender mq)
      in mq\<lparr>mq_suspend_thread := rs, mq_suspend_sender := ss,
            mq_resumed := mq_resumed mq @ woken @ woken'\<rparr>)"

text \<open>Detaching (or deleting) a queue resumes its waiters; giving the object back to the kernel is
  outside the model.\<close>

definition rt_mq_detach :: "rt_messagequeue \<Rightarrow> rt_messagequeue" where
  "rt_mq_detach mq = mq_resume_waiters mq"

subsection \<open>The sections of a send\<close>

text \<open>Taking a block from the free list, filling it outside the lock, and linking it at the tail
  (or, for an urgent message, at the head). Linking wakes the first thread that waits for a message.\<close>

definition mq_take_free :: "rt_messagequeue \<Rightarrow> (nat \<times> rt_messagequeue) option" where
  "mq_take_free mq =
     (case mq_free mq of None \<Rightarrow> None | Some b \<Rightarrow> Some (b, mq\<lparr>mq_free := mq_next mq b\<rparr>))"

definition mq_fill :: "bool \<Rightarrow> nat \<Rightarrow> u8 list \<Rightarrow> rt_messagequeue \<Rightarrow> rt_messagequeue" where
  "mq_fill urgent b buf mq =
     mq\<lparr>mq_next := (if urgent then mq_next mq else (mq_next mq)(b := None)),
        mq_body := (mq_body mq)(b := overwrite 0 buf (mq_body mq b))\<rparr>"

definition mq_wake_receiver :: "rt_messagequeue \<Rightarrow> rt_messagequeue" where
  "mq_wake_receiver mq =
     (if mq_suspend_thread mq \<noteq> []
      then (let (ts, woken) = rt_ipc_list_resume (mq_suspend_thread mq)
            in mq\<lparr>mq_suspend_thread := ts, mq_resumed := mq_resumed mq @ woken\<rparr>)
      else mq)"

definition mq_link_tail :: "nat \<Rightarrow> rt_messagequeue \<Rightarrow> rt_messagequeue" where
  "mq_link_tail b mq =
     mq_wake_receiver
       (mq\<lparr>mq_next := (case mq_tail mq of None \<Rightarrow> mq_next mq | Some t \<Rightarrow> (mq_next mq)(t := Some b)),
           mq_tail := Some b,
           mq_head := (if mq_head mq = None then Some b else mq_head mq),
           mq_entry := mq_entry mq + 1\<rparr>)"

definition mq_link_head :: "nat \<Rightarrow> rt_messagequeue \<Rightarrow> rt_messagequeue" where
  "mq_link_head b mq =
     mq_wake_receiver
       (mq\<lparr>mq_next := (mq_next mq)(b := mq_head mq),
           mq_head := Some b,
           mq_tail := (if mq_tail mq = None then Some b else mq_tail mq),
           mq_entry := mq_entry mq + 1\<rparr>)"

subsection \<open>The sections of a receive\<close>

definition mq_unlink :: "rt_messagequeue \<Rightarrow> (nat \<times> rt_messagequeue) option" where
  "mq_unlink mq =
     (case mq_head mq of
        None \<Rightarrow> None
      | Some b \<Rightarrow> Some (b, mq\<lparr>mq_head := mq_next mq b,
                              mq_tail := (if mq_tail mq = Some b then None else mq_tail mq),
                              mq_entry := mq_entry mq - 1\<rparr>))"

definition mq_copy_out :: "nat \<Rightarrow> u32 \<Rightarrow> rt_messagequeue \<Rightarrow> u8 list" where
  "mq_copy_out b sz mq =
     take (if unat sz > mq_size mq then mq_size mq else unat sz) (mq_body mq b)"

definition mq_release :: "nat \<Rightarrow> rt_messagequeue \<Rightarrow> rt_messagequeue" where
  "mq_release b mq =
     (let mq1 = mq\<lparr>mq_next := (mq_next mq)(b := mq_free mq), mq_free := Some b\<rparr>
      in if mq_suspend_sender mq1 \<noteq> []
         then (let (ts, woken) = rt_ipc_list_resume (mq_suspend_sender mq1)
               in mq1\<lparr>mq_suspend_sender := ts, mq_resumed := mq_resumed mq1 @ woken\<rparr>)
         else mq1)"

subsection \<open>Whole calls\<close>

text \<open>A call that has to wait leaves the thread on a list and gives up the processor. Each wake-up is
  one element of a list: what the rest of the system did to the queue meanwhile, the error code
  found in the thread, and the ticks that passed. \<open>Pending\<close> is a call that is still waiting when the
  list is used up; \<open>Fault\<close> is a NULL dereference.\<close>

record mq_wake =
  wake_mq :: "rt_messagequeue \<Rightarrow> rt_messagequeue"
  wake_error :: int
  wake_elapsed :: u32

datatype 'a mq_result = Got 'a rt_messagequeue | Failed int rt_messagequeue | Pending rt_messagequeue | Fault

definition timeout_left :: "32 word \<Rightarrow> u32 \<Rightarrow> 32 word" where
  "timeout_left timeout tick_delta =
     (if 0 <s timeout then (if timeout - tick_delta <s 0 then 0 else timeout - tick_delta) else timeout)"

fun mq_await_free :: "rt_thread \<Rightarrow> 32 word \<Rightarrow> mq_wake list \<Rightarrow> rt_messagequeue \<Rightarrow> nat mq_result" where
  "mq_await_free t timeout wakes mq =
     (case mq_take_free mq of
        Some (b, mq') \<Rightarrow> Got b mq'
      | None \<Rightarrow>
          if timeout = 0 then Failed (- rt_err_value RT_EFULL) mq
          else
            let mq1 = mq\<lparr>mq_suspend_sender := rt_ipc_list_suspend (mq_suspend_sender mq) t (mq_flag mq)\<rparr>
            in (case wakes of
                  [] \<Rightarrow> Pending mq1
                | w # ws \<Rightarrow>
                    if wake_error w \<noteq> 0 then Failed (wake_error w) (wake_mq w mq1)
                    else mq_await_free t (timeout_left timeout (wake_elapsed w)) ws (wake_mq w mq1)))"

definition rt_mq_send_wait ::
  "rt_thread \<Rightarrow> mq_wake list \<Rightarrow> rt_messagequeue \<Rightarrow> u8 list \<Rightarrow> u32 \<Rightarrow> 32 word \<Rightarrow> unit mq_result" where
  "rt_mq_send_wait t wakes mq buffer sz timeout =
     (if unat sz > mq_size mq then Failed (- rt_err_value RT_ERROR) mq
      else
        case mq_await_free t timeout wakes mq of
          Got b mq1 \<Rightarrow> Got () (mq_link_tail b (mq_fill False b (take (unat sz) buffer) mq1))
        | Failed e mq1 \<Rightarrow> Failed e mq1
        | Pending mq1 \<Rightarrow> Pending mq1
        | Fault \<Rightarrow> Fault)"

definition rt_mq_send :: "rt_thread \<Rightarrow> rt_messagequeue \<Rightarrow> u8 list \<Rightarrow> u32 \<Rightarrow> unit mq_result" where
  "rt_mq_send t mq buffer sz = rt_mq_send_wait t [] mq buffer sz 0"

definition rt_mq_urgent :: "rt_messagequeue \<Rightarrow> u8 list \<Rightarrow> u32 \<Rightarrow> unit mq_result" where
  "rt_mq_urgent mq buffer sz =
     (if unat sz > mq_size mq then Failed (- rt_err_value RT_ERROR) mq
      else
        case mq_take_free mq of
          None \<Rightarrow> Failed (- rt_err_value RT_EFULL) mq
        | Some (b, mq1) \<Rightarrow> Got () (mq_link_head b (mq_fill True b (take (unat sz) buffer) mq1)))"

fun mq_await_message :: "rt_thread \<Rightarrow> 32 word \<Rightarrow> mq_wake list \<Rightarrow> rt_messagequeue \<Rightarrow> nat mq_result" where
  "mq_await_message t timeout wakes mq =
     (if mq_entry mq \<noteq> 0 then
        (case mq_unlink mq of None \<Rightarrow> Fault | Some (b, mq') \<Rightarrow> Got b mq')
      else if timeout = 0 then Failed (- rt_err_value RT_ETIMEOUT) mq
      else
        let mq1 = mq\<lparr>mq_suspend_thread := rt_ipc_list_suspend (mq_suspend_thread mq) t (mq_flag mq)\<rparr>
        in (case wakes of
              [] \<Rightarrow> Pending mq1
            | w # ws \<Rightarrow>
                if wake_error w \<noteq> 0 then Failed (wake_error w) (wake_mq w mq1)
                else mq_await_message t (timeout_left timeout (wake_elapsed w)) ws (wake_mq w mq1)))"

definition rt_mq_recv ::
  "rt_thread \<Rightarrow> mq_wake list \<Rightarrow> rt_messagequeue \<Rightarrow> u32 \<Rightarrow> 32 word \<Rightarrow> u8 list mq_result" where
  "rt_mq_recv t wakes mq sz timeout =
     (case mq_await_message t timeout wakes mq of
        Got b mq1 \<Rightarrow> Got (mq_copy_out b sz mq1) (mq_release b mq1)
      | Failed e mq1 \<Rightarrow> Failed e mq1
      | Pending mq1 \<Rightarrow> Pending mq1
      | Fault \<Rightarrow> Fault)"

text \<open>The release loop of \<open>RT_IPC_CMD_RESET\<close> runs until the head is NULL; the fuel is the number of
  blocks.\<close>

fun mq_reset_loop :: "nat \<Rightarrow> rt_messagequeue \<Rightarrow> rt_messagequeue option" where
  "mq_reset_loop n mq =
     (case mq_head mq of
        None \<Rightarrow> Some mq
      | Some b \<Rightarrow>
          (case n of
             0 \<Rightarrow> None
           | Suc k \<Rightarrow>
               mq_reset_loop k
                 (mq\<lparr>mq_head := mq_next mq b,
                     mq_tail := (if mq_tail mq = Some b then None else mq_tail mq),
                     mq_next := (mq_next mq)(b := mq_free mq),
                     mq_free := Some b\<rparr>)))"

definition RT_IPC_CMD_RESET :: int where "RT_IPC_CMD_RESET = 1"

definition rt_mq_control :: "rt_messagequeue \<Rightarrow> int \<Rightarrow> (int \<times> rt_messagequeue) option" where
  "rt_mq_control mq cmd =
     (if cmd = RT_IPC_CMD_RESET
      then (case mq_reset_loop (mq_max mq) (mq_resume_waiters mq) of
              None \<Rightarrow> None
            | Some mq1 \<Rightarrow> Some (0, mq1\<lparr>mq_entry := 0\<rparr>))
      else Some (- rt_err_value RT_ERROR, mq))"

declare mq_await_free.simps [simp del] mq_await_message.simps [simp del] mq_reset_loop.simps [simp del]

subsection \<open>Linked lists of blocks\<close>

fun chain :: "(nat \<Rightarrow> nat option) \<Rightarrow> nat option \<Rightarrow> nat list \<Rightarrow> bool" where
  "chain nx p [] \<longleftrightarrow> p = None"
| "chain nx p (b # bs) \<longleftrightarrow> p = Some b \<and> chain nx (nx b) bs"

text \<open>The blocks met by following at most \<open>n\<close> links.\<close>

fun follow :: "nat \<Rightarrow> (nat \<Rightarrow> nat option) \<Rightarrow> nat option \<Rightarrow> nat list" where
  "follow 0 nx p = []"
| "follow (Suc n) nx p = (case p of None \<Rightarrow> [] | Some b \<Rightarrow> b # follow n nx (nx b))"

lemma follow_chain: "chain nx p bs \<Longrightarrow> length bs \<le> n \<Longrightarrow> follow n nx p = bs"
proof (induction bs arbitrary: n p)
  case Nil
  then show ?case by (cases n) simp_all
next
  case (Cons b bs)
  then show ?case by (cases n) simp_all
qed

lemma chain_other [simp]: "b \<notin> set bs \<Longrightarrow> chain (nx(b := q)) p bs = chain nx p bs"
  by (induction bs arbitrary: p) auto

lemma chain_snoc:
  "chain nx p bs \<Longrightarrow> bs \<noteq> [] \<Longrightarrow> distinct (bs @ [b]) \<Longrightarrow> nx b = None \<Longrightarrow>
    chain (nx(last bs := Some b)) p (bs @ [b])"
proof (induction bs arbitrary: p)
  case (Cons a bs)
  show ?case
  proof (cases "bs = []")
    case False
    moreover from this have "last bs \<noteq> a" using Cons.prems(3) last_in_set [of bs] by auto
    ultimately show ?thesis using Cons by simp
  qed (use Cons in auto)
qed simp

lemma chain_head: "chain nx p bs \<Longrightarrow> p = (case bs of [] \<Rightarrow> None | b # _ \<Rightarrow> Some b)"
  by (cases bs) simp_all

subsection \<open>Invariant and contents\<close>

text \<open>\<open>mq_inv w mq\<close>: the queue, the free list and the blocks \<open>w\<close> that calls in progress hold are
  together all blocks, each once; the tail is the last queued block, and the entry count is the
  number of queued blocks.\<close>

definition mq_queue :: "rt_messagequeue \<Rightarrow> nat list" where
  "mq_queue mq = follow (mq_max mq) (mq_next mq) (mq_head mq)"

definition mq_freelist :: "rt_messagequeue \<Rightarrow> nat list" where
  "mq_freelist mq = follow (mq_max mq) (mq_next mq) (mq_free mq)"

definition mq_shape :: "nat multiset \<Rightarrow> nat list \<Rightarrow> nat list \<Rightarrow> rt_messagequeue \<Rightarrow> bool" where
  "mq_shape w q f mq \<longleftrightarrow>
     chain (mq_next mq) (mq_head mq) q \<and> chain (mq_next mq) (mq_free mq) f
     \<and> mq_tail mq = (if q = [] then None else Some (last q))
     \<and> mq_entry mq = of_nat (length q)
     \<and> mset q + mset f + w = mset [0..<mq_max mq]
     \<and> (\<forall>b < mq_max mq. length (mq_body mq b) = mq_size mq)"

definition mq_inv :: "nat multiset \<Rightarrow> rt_messagequeue \<Rightarrow> bool" where
  "mq_inv w mq \<longleftrightarrow> mq_shape w (mq_queue mq) (mq_freelist mq) mq"

definition mq_contents :: "rt_messagequeue \<Rightarrow> u8 list list" where
  "mq_contents mq = map (mq_body mq) (mq_queue mq)"

lemma mq_shape_length:
  assumes "mq_shape w q f mq"
  shows "length q + length f + size w = mq_max mq"
proof -
  have "size (mset q + mset f + w) = size (mset [0..<mq_max mq])"
    using assms by (simp only: mq_shape_def)
  then show ?thesis by simp
qed

lemma mq_shapeD:
  assumes "mq_shape w q f mq"
  shows "mq_queue mq = q" "mq_freelist mq = f" "mq_inv w mq"
proof -
  have "length q \<le> mq_max mq" "length f \<le> mq_max mq"
    using mq_shape_length [OF assms] by simp_all
  then show "mq_queue mq = q" "mq_freelist mq = f"
    using assms by (simp_all add: mq_queue_def mq_freelist_def follow_chain mq_shape_def)
  then show "mq_inv w mq"
    using assms by (simp add: mq_inv_def)
qed

lemma mq_shape_contents: "mq_shape w q f mq \<Longrightarrow> mq_contents mq = map (mq_body mq) q"
  by (simp add: mq_contents_def mq_shapeD)

lemma mq_shape_blocks:
  assumes "mq_shape w q f mq"
  shows "distinct q" "distinct f" "set q \<inter> set f = {}"
    and "b \<in># w \<Longrightarrow> b \<notin> set q \<and> b \<notin> set f \<and> b < mq_max mq"
    and "b \<in> set q \<Longrightarrow> b < mq_max mq" and "b \<in> set f \<Longrightarrow> b < mq_max mq"
proof -
  have all: "mset q + mset f + w = mset [0..<mq_max mq]"
    using assms by (simp add: mq_shape_def)
  have one: "count (mset q) c + count (mset f) c + count w c = (if c < mq_max mq then 1 else 0)" for c
  proof -
    have "count (mset q + mset f + w) c = count (mset [0..<mq_max mq]) c"
      by (simp only: all)
    then show ?thesis by (simp add: distinct_count_atmost_1 [THEN iffD1] count_mset_set)
  qed
  have pos: "c \<in> set xs \<Longrightarrow> 0 < count (mset xs) c" for c and xs :: "nat list"
    by (metis count_greater_zero_iff set_mset_mset)
  have le1: "count (mset q) c + count (mset f) c + count w c \<le> 1" for c
    by (simp add: one)
  have single: "count (mset q) c = (if c \<in> set q then 1 else 0)" "count (mset f) c = (if c \<in> set f then 1 else 0)" for c
  proof -
    have "c \<in> set q \<Longrightarrow> count (mset q) c = 1" "c \<in> set f \<Longrightarrow> count (mset f) c = 1"
      using le1 [of c] pos [of c q] pos [of c f] by linarith+
    then show "count (mset q) c = (if c \<in> set q then 1 else 0)" "count (mset f) c = (if c \<in> set f then 1 else 0)"
      by simp_all
  qed
  show "distinct q" "distinct f"
    unfolding distinct_count_atmost_1 using single by (simp_all add: count_eq_zero_iff)
  show "set q \<inter> set f = {}"
  proof (rule ccontr)
    assume "set q \<inter> set f \<noteq> {}"
    then obtain c where "c \<in> set q" "c \<in> set f" by auto
    then show False using le1 [of c] single [of c] by simp
  qed
  show "b \<in># w \<Longrightarrow> b \<notin> set q \<and> b \<notin> set f \<and> b < mq_max mq"
    using one [of b] single [of b] by (auto simp flip: count_greater_zero_iff split: if_splits)
  show "b \<in> set q \<Longrightarrow> b < mq_max mq" "b \<in> set f \<Longrightarrow> b < mq_max mq"
    using one [of b] single [of b] by (auto split: if_splits)
qed

subsection \<open>The sections keep the invariant\<close>

lemma mq_init_free_chain:
  "distinct (is @ bs) \<Longrightarrow> chain nx fr bs \<Longrightarrow>
    chain (fst (mq_init_free is nx fr)) (snd (mq_init_free is nx fr)) (rev is @ bs)"
proof (induction "is" arbitrary: nx fr bs)
  case (Cons i "is")
  have "chain (nx(i := fr)) fr bs"
    using Cons.prems by (subst chain_other) simp_all
  then have c: "chain (nx(i := fr)) (Some i) (i # bs)" by (simp del: fun_upd_apply add: fun_upd_same)
  have d: "distinct (is @ i # bs)" using Cons.prems by simp
  from Cons.IH [OF d c] show ?case
    by (simp only: mq_init_free.simps rev.simps append.simps append_assoc)
qed simp

lemma mq_wake_receiver_simps [frame_simps]:
  "mq_next (mq_wake_receiver mq) = mq_next mq" "mq_head (mq_wake_receiver mq) = mq_head mq"
  "mq_tail (mq_wake_receiver mq) = mq_tail mq" "mq_free (mq_wake_receiver mq) = mq_free mq"
  "mq_entry (mq_wake_receiver mq) = mq_entry mq" "mq_body (mq_wake_receiver mq) = mq_body mq"
  "mq_max_msgs (mq_wake_receiver mq) = mq_max_msgs mq" "mq_msg_size (mq_wake_receiver mq) = mq_msg_size mq"
  by (simp_all add: mq_wake_receiver_def Let_def case_prod_unfold)

lemma mq_shape_wake_receiver [simp]: "mq_shape w q f (mq_wake_receiver mq) = mq_shape w q f mq"
  by (simp add: mq_shape_def frame_simps)

lemma mq_take_free_shape:
  assumes "mq_shape w q (b # f) mq"
  shows "\<exists>mq'. mq_take_free mq = Some (b, mq') \<and> mq_shape (add_mset b w) q f mq'
    \<and> mq_body mq' = mq_body mq \<and> mq_max mq' = mq_max mq \<and> mq_size mq' = mq_size mq"
  using assms by (auto simp: mq_take_free_def mq_shape_def)

lemma mq_take_free_none: "mq_shape w q [] mq \<Longrightarrow> mq_take_free mq = None"
  by (simp add: mq_take_free_def mq_shape_def)

lemma mq_fill_shape:
  assumes "mq_shape w q f mq" "b \<in># w" "length buf \<le> mq_size mq"
  shows "mq_shape w q f (mq_fill urgent b buf mq)"
  using assms mq_shape_blocks(4) [OF assms(1,2)]
  by (auto simp: mq_shape_def mq_fill_def)

lemma entry_less:
  assumes "mq_shape (add_mset b w) q f mq"
  shows "length q < mq_max mq"
  using mq_shape_length [OF assms] by simp

lemma mq_link_tail_shape:
  assumes "mq_shape (add_mset b w) q f mq" "mq_next mq b = None"
  shows "mq_shape w (q @ [b]) f (mq_link_tail b mq)"
proof -
  note bl = mq_shape_blocks [OF assms(1)]
  have b: "b \<notin> set q" "b \<notin> set f" using bl(4) [of b] by simp_all
  have lastf: "q \<noteq> [] \<Longrightarrow> last q \<notin> set f" using bl(3) last_in_set [of q] by blast
  have "q \<noteq> [] \<Longrightarrow> chain ((mq_next mq)(last q := Some b)) (mq_head mq) (q @ [b])"
    using assms bl(1) b by (intro chain_snoc) (simp_all add: mq_shape_def)
  then show ?thesis
    unfolding mq_link_tail_def mq_shape_wake_receiver
    using assms b lastf chain_head [of "mq_next mq" "mq_head mq" q]
    by (cases "q = []") (auto simp: mq_shape_def split: list.splits)
qed

lemma mq_link_head_shape:
  assumes "mq_shape (add_mset b w) q f mq"
  shows "mq_shape w (b # q) f (mq_link_head b mq)"
proof -
  note bl = mq_shape_blocks [OF assms(1)]
  have b: "b \<notin> set q" "b \<notin> set f" using bl(4) [of b] by simp_all
  then show ?thesis
    unfolding mq_link_head_def mq_shape_wake_receiver
    using assms by (auto simp: mq_shape_def)
qed

lemma mq_unlink_shape:
  assumes "mq_shape w (b # q) f mq"
  shows "\<exists>mq'. mq_unlink mq = Some (b, mq') \<and> mq_shape (add_mset b w) q f mq'
    \<and> mq_body mq' = mq_body mq \<and> mq_max mq' = mq_max mq \<and> mq_size mq' = mq_size mq"
proof -
  have "q \<noteq> [] \<Longrightarrow> last q \<noteq> b"
    using mq_shape_blocks(1) [OF assms] last_in_set [of q] by auto
  then show ?thesis
    using assms by (auto simp: mq_unlink_def mq_shape_def)
qed

lemma mq_release_frame [frame_simps]:
  "mq_body (mq_release b mq) = mq_body mq" "mq_max_msgs (mq_release b mq) = mq_max_msgs mq"
  "mq_msg_size (mq_release b mq) = mq_msg_size mq"
  by (simp_all add: mq_release_def Let_def case_prod_unfold)

lemma mq_release_shape:
  assumes "mq_shape (add_mset b w) q f mq"
  shows "mq_shape w q (b # f) (mq_release b mq)"
proof -
  have b: "b \<notin> set q" "b \<notin> set f" using mq_shape_blocks(4) [OF assms, of b] by simp_all
  then show ?thesis
    using assms by (auto simp: mq_release_def mq_shape_def Let_def case_prod_unfold)
qed

lemma mq_entry_zero:
  assumes "mq_shape w q f mq"
  shows "mq_entry mq = 0 \<longleftrightarrow> q = []"
proof -
  have "mq_max mq < 65536"
    using unsigned_less [of "mq_max_msgs mq"] by simp
  then have "length q < 65536"
    using mq_shape_length [OF assms] by linarith
  then have "(of_nat (length q) :: u16) = 0 \<longleftrightarrow> length q = 0"
    by (auto simp: of_nat_eq_0_iff word_eq_iff_unsigned unat_of_nat dest: arg_cong [of _ _ unat])
  then show ?thesis using assms by (simp add: mq_shape_def)
qed

subsection \<open>Calls that do not wait\<close>

text \<open>A queue at rest: no call is in progress.\<close>

abbreviation mq_rest :: "rt_messagequeue \<Rightarrow> bool" where
  "mq_rest mq \<equiv> mq_inv {#} mq"

lemma mq_restD: "mq_rest mq \<Longrightarrow> mq_shape {#} (mq_queue mq) (mq_freelist mq) mq"
  by (simp add: mq_inv_def)

lemma mq_rest_count: "mq_rest mq \<Longrightarrow> length (mq_queue mq) + length (mq_freelist mq) = mq_max mq"
  using mq_shape_length [OF mq_restD] by simp

lemma mq_fill_frame [frame_simps]:
  "mq_max_msgs (mq_fill u b buf mq) = mq_max_msgs mq" "mq_msg_size (mq_fill u b buf mq) = mq_msg_size mq"
  "mq_body (mq_fill u b buf mq) = (mq_body mq)(b := overwrite 0 buf (mq_body mq b))"
  "\<not> u \<Longrightarrow> mq_next (mq_fill u b buf mq) b = None"
  by (simp_all add: mq_fill_def)

lemma mq_link_frame [frame_simps]:
  "mq_max_msgs (mq_link_tail b mq) = mq_max_msgs mq" "mq_msg_size (mq_link_tail b mq) = mq_msg_size mq"
  "mq_body (mq_link_tail b mq) = mq_body mq"
  "mq_max_msgs (mq_link_head b mq) = mq_max_msgs mq" "mq_msg_size (mq_link_head b mq) = mq_msg_size mq"
  "mq_body (mq_link_head b mq) = mq_body mq"
  by (simp_all add: mq_link_tail_def mq_link_head_def frame_simps)

text \<open>The payload of a sent message: its bytes, then what the block held before.\<close>

definition padded :: "u8 list \<Rightarrow> u32 \<Rightarrow> u8 list \<Rightarrow> u8 list" where
  "padded buffer sz old = take (unat sz) buffer @ drop (unat sz) old"

lemma overwrite_padded:
  "unat sz \<le> length buffer \<Longrightarrow> overwrite 0 (take (unat sz) buffer) old = padded buffer sz old"
  by (simp add: overwrite_def padded_def min_def)

lemma map_body_other: "b \<notin> set q \<Longrightarrow> map (body(b := x)) q = map body q"
  by auto

lemma send_shape:
  assumes sh: "mq_shape w q (b # f) mq" and sz: "unat sz \<le> mq_size mq" "unat sz \<le> length buffer"
  shows "\<exists>mq'. rt_mq_send_wait t wakes mq buffer sz timeout = Got () mq'
      \<and> mq_shape w (q @ [b]) f mq' \<and> mq_size mq' = mq_size mq \<and> mq_max mq' = mq_max mq
      \<and> mq_contents mq' = mq_contents mq @ [padded buffer sz (mq_body mq b)]"
    and "\<exists>mq'. rt_mq_urgent mq buffer sz = Got () mq'
      \<and> mq_shape w (b # q) f mq' \<and> mq_size mq' = mq_size mq \<and> mq_max mq' = mq_max mq
      \<and> mq_contents mq' = padded buffer sz (mq_body mq b) # mq_contents mq"
proof -
  obtain mq1 where mq1: "mq_take_free mq = Some (b, mq1)" "mq_shape (add_mset b w) q f mq1"
    "mq_body mq1 = mq_body mq" "mq_max mq1 = mq_max mq" "mq_size mq1 = mq_size mq"
    using mq_take_free_shape [OF sh] by blast
  have b: "b \<notin> set q" using mq_shape_blocks(4) [OF mq1(2), of b] by simp
  note fill = mq_fill_shape [OF mq1(2), of b "take (unat sz) buffer"]
  have tail: "mq_shape w (q @ [b]) f (mq_link_tail b (mq_fill False b (take (unat sz) buffer) mq1))"
    using fill sz mq1 by (intro mq_link_tail_shape) (simp_all add: frame_simps)
  have head: "mq_shape w (b # q) f (mq_link_head b (mq_fill True b (take (unat sz) buffer) mq1))"
    using fill sz mq1 by (intro mq_link_head_shape) simp
  note c = mq_shape_contents [OF tail] mq_shape_contents [OF head] mq_shape_contents [OF sh]
  show "\<exists>mq'. rt_mq_send_wait t wakes mq buffer sz timeout = Got () mq'
      \<and> mq_shape w (q @ [b]) f mq' \<and> mq_size mq' = mq_size mq \<and> mq_max mq' = mq_max mq
      \<and> mq_contents mq' = mq_contents mq @ [padded buffer sz (mq_body mq b)]"
    using sz tail c b mq1 overwrite_padded [OF sz(2)]
    by (simp add: rt_mq_send_wait_def mq_await_free.simps [of t timeout wakes mq] frame_simps map_body_other)
  show "\<exists>mq'. rt_mq_urgent mq buffer sz = Got () mq'
      \<and> mq_shape w (b # q) f mq' \<and> mq_size mq' = mq_size mq \<and> mq_max mq' = mq_max mq
      \<and> mq_contents mq' = padded buffer sz (mq_body mq b) # mq_contents mq"
    using sz head c b mq1 overwrite_padded [OF sz(2)]
    by (simp add: rt_mq_urgent_def frame_simps map_body_other)
qed

lemma send_full:
  assumes "mq_shape w q [] mq" "unat sz \<le> mq_size mq"
  shows "rt_mq_send t mq buffer sz = Failed (- rt_err_value RT_EFULL) mq"
    and "rt_mq_urgent mq buffer sz = Failed (- rt_err_value RT_EFULL) mq"
  using assms mq_take_free_none [OF assms(1)]
  by (simp_all add: rt_mq_send_def rt_mq_send_wait_def mq_await_free.simps rt_mq_urgent_def)

lemma recv_shape:
  assumes sh: "mq_shape w (b # q) f mq"
  shows "\<exists>mq'. rt_mq_recv t wakes mq sz timeout = Got (take (min (unat sz) (mq_size mq)) (mq_body mq b)) mq'
      \<and> mq_shape w q (b # f) mq' \<and> mq_size mq' = mq_size mq \<and> mq_max mq' = mq_max mq
      \<and> mq_contents mq' = tl (mq_contents mq)"
proof -
  obtain mq1 where mq1: "mq_unlink mq = Some (b, mq1)" "mq_shape (add_mset b w) q f mq1"
    "mq_body mq1 = mq_body mq" "mq_max mq1 = mq_max mq" "mq_size mq1 = mq_size mq"
    using mq_unlink_shape [OF sh] by blast
  note rel = mq_release_shape [OF mq1(2)]
  have "mq_entry mq \<noteq> 0" using mq_entry_zero [OF sh] by simp
  moreover have "(if mq_size mq < unat sz then mq_size mq else unat sz) = min (unat sz) (mq_size mq)"
    by simp
  ultimately show ?thesis
    using mq1 rel mq_shape_contents [OF rel] mq_shape_contents [OF sh]
    by (simp add: rt_mq_recv_def mq_await_message.simps [of t timeout wakes mq] mq_copy_out_def frame_simps)
qed

lemma recv_empty:
  assumes "mq_shape w [] f mq"
  shows "rt_mq_recv t wakes mq sz 0 = Failed (- rt_err_value RT_ETIMEOUT) mq"
  using mq_entry_zero [OF assms] by (simp add: rt_mq_recv_def mq_await_message.simps)

subsection \<open>A new queue\<close>

lemma mq_init_shape:
  assumes "mq_init_free [0..<unat mx] nx None = (nx', fr)" "\<forall>b < unat mx. length (body b) = unat sz"
  shows "mq_shape {#} [] (rev [0..<unat mx])
    \<lparr>mq_flag = fl, mq_suspend_thread = [], mq_msg_size = sz, mq_max_msgs = mx, mq_entry = 0,
     mq_head = None, mq_tail = None, mq_free = fr, mq_suspend_sender = [], mq_next = nx',
     mq_body = body, mq_resumed = []\<rparr>"
  using mq_init_free_chain [of "[0..<unat mx]" "[]" nx None] assms
  by (simp add: mq_shape_def)

definition aligned_size :: "u32 \<Rightarrow> nat" where
  "aligned_size msg_size = (unat msg_size + 3) div 4 * 4"

lemma msg_size_field:
  assumes "unat msg_size \<le> 65532"
  shows "unat (ucast (RT_ALIGN msg_size RT_ALIGN_SIZE) :: u16) = aligned_size msg_size"
proof -
  have "aligned_size msg_size < 65536" using assms by (simp add: aligned_size_def)
  then show ?thesis
    using assms by (simp add: unsigned_ucast_eq unat_RT_ALIGN aligned_size_def take_bit_eq_mod)
qed

lemma unat_ucast_16_32: "unat (ucast (w :: u16) :: u32) = unat w"
proof -
  have "unat w < 65536" using unsigned_less [of w] by simp
  then show ?thesis by (simp add: unsigned_ucast_eq take_bit_eq_mod)
qed

lemma max_msgs_field:
  assumes "unat msg_size \<le> 65532" "unat (pool_size :: u32) div (aligned_size msg_size + 4) < 65536"
  shows "unat (ucast (pool_size div (ucast (ucast (RT_ALIGN msg_size RT_ALIGN_SIZE) :: u16) + 4)) :: u16)
    = unat pool_size div (aligned_size msg_size + 4)"
proof -
  let ?s = "ucast (RT_ALIGN msg_size RT_ALIGN_SIZE) :: u16"
  have s: "unat ?s = aligned_size msg_size" by (rule msg_size_field [OF assms(1)])
  have "unat ?s < 65536" using unsigned_less [of ?s] by simp
  then have "unat (ucast ?s + 4 :: u32) = aligned_size msg_size + 4"
    using s by (simp add: unat_word_ariths unat_ucast_16_32)
  then have "unat (pool_size div (ucast ?s + 4)) = unat pool_size div (aligned_size msg_size + 4)"
    by (simp only: unat_div_distrib)
  then show ?thesis using assms(2) by (simp add: unsigned_ucast_eq take_bit_eq_mod)
qed

lemma rt_mq_init_spec:
  assumes "unat msg_size \<le> 65532" "unat pool_size div (aligned_size msg_size + 4) < 65536"
    and "\<forall>b < unat pool_size div (aligned_size msg_size + 4). length (snd pool b) = aligned_size msg_size"
  shows "mq_shape {#} [] (rev [0..<unat pool_size div (aligned_size msg_size + 4)])
      (rt_mq_init pool msg_size pool_size flag)
    \<and> mq_size (rt_mq_init pool msg_size pool_size flag) = aligned_size msg_size
    \<and> mq_max (rt_mq_init pool msg_size pool_size flag) = unat pool_size div (aligned_size msg_size + 4)"
proof -
  let ?sz = "ucast (RT_ALIGN msg_size RT_ALIGN_SIZE) :: u16"
  let ?mx = "ucast (pool_size div (ucast ?sz + 4)) :: u16"
  obtain nx fr where nf: "mq_init_free [0..<unat ?mx] (fst pool) None = (nx, fr)" by fastforce
  note fields = msg_size_field [OF assms(1)] max_msgs_field [OF assms(1,2)]
  have "mq_shape {#} [] (rev [0..<unat ?mx])
    \<lparr>mq_flag = flag, mq_suspend_thread = [], mq_msg_size = ?sz, mq_max_msgs = ?mx, mq_entry = 0,
     mq_head = None, mq_tail = None, mq_free = fr, mq_suspend_sender = [], mq_next = nx,
     mq_body = snd pool, mq_resumed = []\<rparr>"
    by (rule mq_init_shape [OF nf]) (use assms(3) in \<open>simp only: fields simp_thms\<close>)
  then show ?thesis
    unfolding rt_mq_init_def Let_def nf prod.case by (simp only: fields rt_messagequeue.simps simp_thms)
qed

lemma rt_mq_create_spec:
  assumes "unat msg_size \<le> 65532" "unat max_msgs < 65536"
    and "rt_mq_create True malloc msg_size max_msgs flag = Some mq"
    and "\<And>n pool b. malloc n = Some pool \<Longrightarrow> b < unat max_msgs \<Longrightarrow> length (snd pool b) = aligned_size msg_size"
  shows "mq_shape {#} [] (rev [0..<unat max_msgs]) mq"
    and "mq_size mq = aligned_size msg_size" and "mq_max mq = unat max_msgs"
proof -
  let ?sz = "ucast (RT_ALIGN msg_size RT_ALIGN_SIZE) :: u16" and ?mx = "ucast max_msgs :: u16"
  have mx: "unat ?mx = unat max_msgs" using assms(2) by (simp add: unsigned_ucast_eq take_bit_eq_mod)
  obtain pool where pool: "malloc ((ucast ?sz + 4) * ucast ?mx) = Some pool"
    using assms(3) by (auto simp: rt_mq_create_def Let_def split: option.splits)
  obtain nx fr where nf: "mq_init_free [0..<unat ?mx] (fst pool) None = (nx, fr)" by fastforce
  have mq: "mq = \<lparr>mq_flag = flag, mq_suspend_thread = [], mq_msg_size = ?sz, mq_max_msgs = ?mx, mq_entry = 0,
     mq_head = None, mq_tail = None, mq_free = fr, mq_suspend_sender = [], mq_next = nx,
     mq_body = snd pool, mq_resumed = []\<rparr>"
    using assms(3) pool nf by (simp add: rt_mq_create_def Let_def)
  show "mq_shape {#} [] (rev [0..<unat max_msgs]) mq"
    unfolding mq mx [symmetric]
    by (rule mq_init_shape [OF nf]) (simp add: mx msg_size_field [OF assms(1)] assms(4) [OF pool])
  show "mq_size mq = aligned_size msg_size" "mq_max mq = unat max_msgs"
    by (simp_all only: mq rt_messagequeue.simps mx msg_size_field [OF assms(1)])
qed

subsection \<open>The queue as a bounded FIFO\<close>

text \<open>Messages of exactly \<open>msg_size\<close> bytes, sent and received without waiting.\<close>

definition mq_enq :: "u8 list \<Rightarrow> rt_messagequeue \<Rightarrow> bool \<times> rt_messagequeue" where
  "mq_enq m mq =
     (case rt_mq_send \<lparr>thread_id = 0, current_priority = 0\<rparr> mq m (of_nat (length m)) of
        Got _ mq' \<Rightarrow> (True, mq')
      | Failed e mq' \<Rightarrow> (False, mq')
      | Pending mq' \<Rightarrow> (False, mq')
      | Fault \<Rightarrow> (False, mq))"

definition mq_deq :: "rt_messagequeue \<Rightarrow> u8 list option \<times> rt_messagequeue" where
  "mq_deq mq =
     (case rt_mq_recv \<lparr>thread_id = 0, current_priority = 0\<rparr> [] mq (ucast (mq_msg_size mq)) 0 of
        Got m mq' \<Rightarrow> (Some m, mq')
      | Failed e mq' \<Rightarrow> (None, mq')
      | Pending mq' \<Rightarrow> (None, mq')
      | Fault \<Rightarrow> (None, mq))"

definition mq_fits :: "rt_messagequeue \<Rightarrow> u8 list \<Rightarrow> bool" where
  "mq_fits mq m \<longleftrightarrow> length m = mq_size mq"

lemma mq_fits_size:
  assumes "mq_fits mq m"
  shows "unat (of_nat (length m) :: u32) = length m"
proof -
  have "length m < 65536"
    using assms unsigned_less [of "mq_msg_size mq"] by (simp add: mq_fits_def)
  then show ?thesis by (simp add: unat_of_nat)
qed

lemma mq_enq_room:
  assumes "mq_rest mq" "mq_fits mq m" "length (mq_contents mq) < mq_max mq"
  shows "fst (mq_enq m mq) \<and> mq_contents (snd (mq_enq m mq)) = mq_contents mq @ [m]
    \<and> mq_rest (snd (mq_enq m mq)) \<and> mq_max (snd (mq_enq m mq)) = mq_max mq
    \<and> mq_size (snd (mq_enq m mq)) = mq_size mq"
proof -
  obtain b f where bf: "mq_freelist mq = b # f"
    using mq_rest_count [OF assms(1)] assms(3) by (cases "mq_freelist mq") (simp_all add: mq_contents_def)
  have sh: "mq_shape {#} (mq_queue mq) (b # f) mq"
    using mq_restD [OF assms(1)] by (simp add: bf)
  have "length (mq_body mq b) = mq_size mq"
    using sh mq_shape_blocks(6) [OF sh, of b] by (simp add: mq_shape_def)
  then have "padded m (of_nat (length m)) (mq_body mq b) = m"
    using assms(2) by (simp add: padded_def mq_fits_size [OF assms(2)]) (simp add: mq_fits_def)
  moreover have "unat (of_nat (length m) :: u32) \<le> mq_size mq" "unat (of_nat (length m) :: u32) \<le> length m"
    using assms(2) by (simp_all add: mq_fits_size) (simp add: mq_fits_def)
  ultimately show ?thesis
    using send_shape(1) [OF sh, of "of_nat (length m)" m "\<lparr>thread_id = 0, current_priority = 0\<rparr>" "[]" 0]
    by (auto simp: mq_enq_def rt_mq_send_def dest: mq_shapeD(3))
qed

lemma mq_enq_full:
  assumes "mq_rest mq" "mq_fits mq m" "length (mq_contents mq) = mq_max mq"
  shows "mq_enq m mq = (False, mq)"
proof -
  have "mq_freelist mq = []"
    using mq_rest_count [OF assms(1)] assms(3) by (simp add: mq_contents_def)
  moreover have "unat (of_nat (length m) :: u32) \<le> mq_size mq"
    using assms(2) by (simp add: mq_fits_size) (simp add: mq_fits_def)
  ultimately show ?thesis
    using mq_restD [OF assms(1)] send_full(1) by (simp add: mq_enq_def)
qed

lemma mq_deq_some:
  assumes "mq_rest mq" "mq_contents mq = m # ms"
  shows "fst (mq_deq mq) = Some m \<and> mq_contents (snd (mq_deq mq)) = ms
    \<and> mq_rest (snd (mq_deq mq)) \<and> mq_max (snd (mq_deq mq)) = mq_max mq
    \<and> mq_size (snd (mq_deq mq)) = mq_size mq"
proof -
  obtain b q where bq: "mq_queue mq = b # q" "m = mq_body mq b"
    using assms(2) by (auto simp: mq_contents_def)
  have sh: "mq_shape {#} (b # q) (mq_freelist mq) mq"
    using mq_restD [OF assms(1)] by (simp add: bq)
  have "length m = mq_size mq"
    using sh mq_shape_blocks(5) [OF sh, of b] by (simp add: mq_shape_def bq)
  moreover have "unat (ucast (mq_msg_size mq) :: u32) = mq_size mq"
    by (rule unat_ucast_16_32)
  ultimately show ?thesis
    using recv_shape [OF sh, of "\<lparr>thread_id = 0, current_priority = 0\<rparr>" "[]" "ucast (mq_msg_size mq)" 0]
      assms(2) by (auto simp: mq_deq_def bq(2) dest: mq_shapeD(3))
qed

lemma mq_deq_none:
  assumes "mq_rest mq" "mq_contents mq = []"
  shows "mq_deq mq = (None, mq)"
  using mq_restD [OF assms(1)] recv_empty [of "{#}" "mq_freelist mq" mq] assms(2)
  by (simp add: mq_deq_def mq_contents_def)

lemma mq_take_free_frame:
  "mq_take_free mq = Some (b, mq1) \<Longrightarrow>
    mq_max_msgs mq1 = mq_max_msgs mq \<and> mq_msg_size mq1 = mq_msg_size mq"
  by (auto simp: mq_take_free_def split: option.splits)

lemma mq_enq_frame:
  "mq_max_msgs (snd (mq_enq m mq)) = mq_max_msgs mq" "mq_msg_size (snd (mq_enq m mq)) = mq_msg_size mq"
  by (auto simp: mq_enq_def rt_mq_send_def rt_mq_send_wait_def mq_await_free.simps frame_simps
      dest: mq_take_free_frame split: option.splits)

lemma mq_enq_cases:
  assumes "mq_rest mq" "mq_fits mq m"
  obtains "length (mq_contents mq) < mq_max mq" | "length (mq_contents mq) = mq_max mq"
  using mq_rest_count [OF assms(1)] by (fastforce simp: mq_contents_def)

interpretation mq_fifo: bounded_fifo mq_rest mq_contents mq_max mq_fits mq_enq mq_deq
proof (unfold_locales, goal_cases)
  case (1 q)
  then show ?case using mq_rest_count [of q] by (simp add: mq_contents_def)
next
  case (2 q x)
  then show ?case using mq_enq_room by blast
next
  case (3 q x)
  then show ?case by (simp add: mq_enq_full)
next
  case (4 q x)
  then show ?case
    by (cases rule: mq_enq_cases [OF 4]) (simp_all add: mq_enq_room mq_enq_full)
next
  case (5 q x)
  then show ?case by (simp add: mq_enq_frame)
next
  case (6 q x y)
  then show ?case by (simp add: mq_enq_frame mq_fits_def)
next
  case (7 q x xs)
  then show ?case using mq_deq_some by blast
next
  case (8 q)
  then show ?case by (simp add: mq_deq_none)
next
  case (9 q)
  then show ?case by (cases "mq_contents q") (simp_all add: mq_deq_some mq_deq_none)
next
  case (10 q)
  then show ?case by (cases "mq_contents q") (simp_all add: mq_deq_some mq_deq_none)
next
  case (11 q y)
  then show ?case by (cases "mq_contents q") (simp_all add: mq_deq_some mq_deq_none mq_fits_def)
qed

subsection \<open>Reset\<close>

lemma mq_resume_waiters_frame [frame_simps]:
  "mq_next (mq_resume_waiters mq) = mq_next mq" "mq_head (mq_resume_waiters mq) = mq_head mq"
  "mq_tail (mq_resume_waiters mq) = mq_tail mq" "mq_free (mq_resume_waiters mq) = mq_free mq"
  "mq_entry (mq_resume_waiters mq) = mq_entry mq" "mq_body (mq_resume_waiters mq) = mq_body mq"
  "mq_max_msgs (mq_resume_waiters mq) = mq_max_msgs mq" "mq_msg_size (mq_resume_waiters mq) = mq_msg_size mq"
  "mq_suspend_thread (mq_resume_waiters mq) = []" "mq_suspend_sender (mq_resume_waiters mq) = []"
  "mq_resumed (mq_resume_waiters mq) = mq_resumed mq
     @ map (\<lambda>t. (thread_id t, Some (- rt_err_value RT_ERROR))) (mq_suspend_thread mq @ mq_suspend_sender mq)"
  by (simp_all add: mq_resume_waiters_def Let_def case_prod_unfold resume_all_empty resume_all_woken)

lemma mq_resume_waiters_shape [simp]: "mq_shape w q f (mq_resume_waiters mq) = mq_shape w q f mq"
  by (simp add: mq_shape_def frame_simps)

definition mq_release_head :: "nat \<Rightarrow> rt_messagequeue \<Rightarrow> rt_messagequeue" where
  "mq_release_head b mq =
     mq\<lparr>mq_head := mq_next mq b, mq_tail := (if mq_tail mq = Some b then None else mq_tail mq),
        mq_next := (mq_next mq)(b := mq_free mq), mq_free := Some b, mq_entry := mq_entry mq - 1\<rparr>"

lemma mq_release_head_shape:
  assumes "mq_shape w (b # q) f mq"
  shows "mq_shape w q (b # f) (mq_release_head b mq)"
proof -
  note bl = mq_shape_blocks [OF assms]
  have "q \<noteq> [] \<Longrightarrow> last q \<noteq> b" "b \<notin> set q" "b \<notin> set f"
    using bl(1,3) last_in_set [of q] by auto
  then show ?thesis
    using assms by (auto simp: mq_release_head_def mq_shape_def)
qed

lemma mq_reset_loop_shape:
  assumes "mq_shape w q f (mq\<lparr>mq_entry := of_nat (length q)\<rparr>)" "length q \<le> n"
  shows "\<exists>mq'. mq_reset_loop n mq = Some mq' \<and> mq_shape w [] (rev q @ f) (mq'\<lparr>mq_entry := 0\<rparr>)
    \<and> mq_body mq' = mq_body mq \<and> mq_max_msgs mq' = mq_max_msgs mq \<and> mq_msg_size mq' = mq_msg_size mq
    \<and> mq_suspend_thread mq' = mq_suspend_thread mq \<and> mq_suspend_sender mq' = mq_suspend_sender mq
    \<and> mq_resumed mq' = mq_resumed mq \<and> (\<forall>c. c \<notin> set q \<longrightarrow> mq_next mq' c = mq_next mq c)"
  using assms
proof (induction q arbitrary: n f mq)
  case Nil
  then show ?case
    by (simp add: mq_reset_loop.simps [of n mq]) (simp add: mq_shape_def)
next
  case (Cons b q)
  obtain k where k: "n = Suc k" "length q \<le> k" using Cons.prems(2) by (cases n) simp_all
  let ?mq = "mq\<lparr>mq_head := mq_next mq b, mq_tail := (if mq_tail mq = Some b then None else mq_tail mq),
        mq_next := (mq_next mq)(b := mq_free mq), mq_free := Some b\<rparr>"
  have "mq_release_head b (mq\<lparr>mq_entry := of_nat (length (b # q))\<rparr>) = ?mq\<lparr>mq_entry := of_nat (length q)\<rparr>"
    by (simp add: mq_release_head_def)
  then have sh: "mq_shape w q (b # f) (?mq\<lparr>mq_entry := of_nat (length q)\<rparr>)"
    using mq_release_head_shape [OF Cons.prems(1)] by simp
  have "mq_head mq = Some b" using Cons.prems(1) by (simp add: mq_shape_def)
  then have "mq_reset_loop n mq = mq_reset_loop k ?mq"
    by (subst mq_reset_loop.simps) (simp add: k)
  then show ?case
    using Cons.IH [OF sh k(2)] by auto
qed

lemma rt_mq_control_reset:
  assumes "mq_shape w q f mq"
  shows "\<exists>mq'. rt_mq_control mq RT_IPC_CMD_RESET = Some (0, mq') \<and> mq_shape w [] (rev q @ f) mq'
    \<and> mq_contents mq' = [] \<and> mq_body mq' = mq_body mq
    \<and> mq_max_msgs mq' = mq_max_msgs mq \<and> mq_msg_size mq' = mq_msg_size mq
    \<and> mq_suspend_thread mq' = [] \<and> mq_suspend_sender mq' = []
    \<and> (\<forall>c. c \<notin> set q \<longrightarrow> mq_next mq' c = mq_next mq c)
    \<and> mq_resumed mq' = mq_resumed mq
       @ map (\<lambda>t. (thread_id t, Some (- rt_err_value RT_ERROR))) (mq_suspend_thread mq @ mq_suspend_sender mq)"
proof -
  have "mq_entry (mq_resume_waiters mq) = of_nat (length q)"
    using assms by (simp add: mq_shape_def frame_simps)
  then have "(mq_resume_waiters mq)\<lparr>mq_entry := of_nat (length q)\<rparr> = mq_resume_waiters mq"
    by (metis rt_messagequeue.surjective rt_messagequeue.update_convs(5))
  then have sh: "mq_shape w q f ((mq_resume_waiters mq)\<lparr>mq_entry := of_nat (length q)\<rparr>)"
    using assms by simp
  have "length q \<le> mq_max mq" using mq_shape_length [OF assms] by simp
  from mq_reset_loop_shape [OF sh this] obtain mq' where mq':
    "mq_reset_loop (mq_max mq) (mq_resume_waiters mq) = Some mq'"
    "mq_shape w [] (rev q @ f) (mq'\<lparr>mq_entry := 0\<rparr>)" "mq_body mq' = mq_body mq"
    "mq_max_msgs mq' = mq_max_msgs mq" "mq_msg_size mq' = mq_msg_size mq"
    "mq_suspend_thread mq' = []" "mq_suspend_sender mq' = []"
    "mq_resumed mq' = mq_resumed (mq_resume_waiters mq)"
    "\<forall>c. c \<notin> set q \<longrightarrow> mq_next mq' c = mq_next mq c"
    by (auto simp: frame_simps)
  then show ?thesis
    using mq_shape_contents [OF mq'(2)] by (simp add: rt_mq_control_def frame_simps)
qed

subsection \<open>Interleaved calls\<close>

text \<open>Each thread is between two sections of the call it runs. \<open>Linking u b buf\<close> still carries the buffer \<open>buf\<close> that
  the sender passed, and \<open>Copying b n m\<close> the message \<open>m\<close> that was first in the queue when the block was taken
  off it (no later section reads them).\<close>

datatype mq_phase =
    Idle
  | Sending bool nat "u8 list"
  | Linking bool nat "u8 list"
  | Copying nat u32 "u8 list"
  | Releasing nat "u8 list"

record mq_sys =
  sys_mq :: rt_messagequeue
  sys_phases :: "mq_phase list"

datatype mq_label =
    Take nat bool "u8 list" | Fill nat | Link nat
  | Unlink nat u32 | Copy nat | Release nat
  | Wait_message rt_thread | Wait_free rt_thread | Expire rt_thread | Reset

inductive mq_step :: "mq_sys \<Rightarrow> mq_label \<Rightarrow> mq_sys \<Rightarrow> bool" where
  step_take:
    "t < length ps \<Longrightarrow> ps ! t = Idle \<Longrightarrow> length buf \<le> mq_size mq \<Longrightarrow> mq_take_free mq = Some (b, mq') \<Longrightarrow>
     mq_step \<lparr>sys_mq = mq, sys_phases = ps\<rparr> (Take t urgent buf)
             \<lparr>sys_mq = mq', sys_phases = ps[t := Sending urgent b buf]\<rparr>"
| step_fill:
    "t < length ps \<Longrightarrow> ps ! t = Sending urgent b buf \<Longrightarrow>
     mq_step \<lparr>sys_mq = mq, sys_phases = ps\<rparr> (Fill t)
             \<lparr>sys_mq = mq_fill urgent b buf mq, sys_phases = ps[t := Linking urgent b buf]\<rparr>"
| step_link:
    "t < length ps \<Longrightarrow> ps ! t = Linking urgent b buf \<Longrightarrow>
     mq_step \<lparr>sys_mq = mq, sys_phases = ps\<rparr> (Link t)
             \<lparr>sys_mq = (if urgent then mq_link_head b mq else mq_link_tail b mq), sys_phases = ps[t := Idle]\<rparr>"
| step_unlink:
    "t < length ps \<Longrightarrow> ps ! t = Idle \<Longrightarrow> mq_entry mq \<noteq> 0 \<Longrightarrow> mq_unlink mq = Some (b, mq') \<Longrightarrow>
     mq_step \<lparr>sys_mq = mq, sys_phases = ps\<rparr> (Unlink t n)
             \<lparr>sys_mq = mq', sys_phases = ps[t := Copying b n (mq_body mq b)]\<rparr>"
| step_copy:
    "t < length ps \<Longrightarrow> ps ! t = Copying b n m \<Longrightarrow>
     mq_step \<lparr>sys_mq = mq, sys_phases = ps\<rparr> (Copy t)
             \<lparr>sys_mq = mq, sys_phases = ps[t := Releasing b (mq_copy_out b n mq)]\<rparr>"
| step_release:
    "t < length ps \<Longrightarrow> ps ! t = Releasing b d \<Longrightarrow>
     mq_step \<lparr>sys_mq = mq, sys_phases = ps\<rparr> (Release t)
             \<lparr>sys_mq = mq_release b mq, sys_phases = ps[t := Idle]\<rparr>"
| step_wait_message:
    "mq_entry mq = 0 \<Longrightarrow>
     mq_step \<lparr>sys_mq = mq, sys_phases = ps\<rparr> (Wait_message th)
             \<lparr>sys_mq = mq\<lparr>mq_suspend_thread := rt_ipc_list_suspend (mq_suspend_thread mq) th (mq_flag mq)\<rparr>,
              sys_phases = ps\<rparr>"
| step_wait_free:
    "mq_free mq = None \<Longrightarrow>
     mq_step \<lparr>sys_mq = mq, sys_phases = ps\<rparr> (Wait_free th)
             \<lparr>sys_mq = mq\<lparr>mq_suspend_sender := rt_ipc_list_suspend (mq_suspend_sender mq) th (mq_flag mq)\<rparr>,
              sys_phases = ps\<rparr>"
| step_expire:
    "mq_step \<lparr>sys_mq = mq, sys_phases = ps\<rparr> (Expire th)
             \<lparr>sys_mq = mq\<lparr>mq_suspend_thread := removeAll th (mq_suspend_thread mq),
                          mq_suspend_sender := removeAll th (mq_suspend_sender mq)\<rparr>,
              sys_phases = ps\<rparr>"
| step_reset:
    "rt_mq_control mq RT_IPC_CMD_RESET = Some (r, mq') \<Longrightarrow>
     mq_step \<lparr>sys_mq = mq, sys_phases = ps\<rparr> Reset \<lparr>sys_mq = mq', sys_phases = ps\<rparr>"

inductive_cases mq_step_linkE: "mq_step s (Link t) s'"

fun phase_block :: "mq_phase \<Rightarrow> nat list" where
  "phase_block Idle = []"
| "phase_block (Sending u b buf) = [b]"
| "phase_block (Linking u b buf) = [b]"
| "phase_block (Copying b n m) = [b]"
| "phase_block (Releasing b d) = [b]"

definition phases_held :: "mq_phase list \<Rightarrow> nat multiset" where
  "phases_held ps = mset (concat (map phase_block ps))"

fun phase_ok :: "rt_messagequeue \<Rightarrow> mq_phase \<Rightarrow> bool" where
  "phase_ok mq Idle \<longleftrightarrow> True"
| "phase_ok mq (Sending u b buf) \<longleftrightarrow> length buf \<le> mq_size mq"
| "phase_ok mq (Linking u b buf) \<longleftrightarrow> (\<not> u \<longrightarrow> mq_next mq b = None)
     \<and> length buf \<le> mq_size mq \<and> take (length buf) (mq_body mq b) = buf"
| "phase_ok mq (Copying b n m) \<longleftrightarrow> mq_body mq b = m"
| "phase_ok mq (Releasing b d) \<longleftrightarrow> True"

definition sys_inv :: "mq_sys \<Rightarrow> bool" where
  "sys_inv s \<longleftrightarrow> mq_inv (phases_held (sys_phases s)) (sys_mq s)
     \<and> (\<forall>p \<in> set (sys_phases s). phase_ok (sys_mq s) p)"

definition phases_rest :: "nat \<Rightarrow> mq_phase list \<Rightarrow> nat multiset" where
  "phases_rest t ps = phases_held (take t ps @ drop (Suc t) ps)"

lemma phases_held_update:
  "t < length ps \<Longrightarrow> phases_held (ps[t := p]) = mset (phase_block p) + phases_rest t ps"
  by (simp add: phases_held_def phases_rest_def upd_conv_take_nth_drop ac_simps)

lemma phases_held_nth:
  "t < length ps \<Longrightarrow> phases_held ps = mset (phase_block (ps ! t)) + phases_rest t ps"
  using phases_held_update [of t ps "ps ! t"] by simp

lemma phase_ok_stable:
  assumes "phase_ok mq p" "mq_size mq' = mq_size mq"
    and "\<forall>c \<in> set (phase_block p). mq_next mq' c = mq_next mq c \<and> mq_body mq' c = mq_body mq c"
  shows "phase_ok mq' p"
  using assms by (cases p) simp_all

lemma held_notin_rest:
  assumes "mq_shape (add_mset b w) q f mq"
  shows "b \<notin># w"
proof
  assume "b \<in># w"
  then obtain k where "count w b = Suc k"
    by (metis Suc_pred count_greater_zero_iff)
  then have "1 < count (mset q + mset f + add_mset b w) b" by simp
  moreover have "count (mset [0..<mq_max mq]) b \<le> 1"
    by (metis distinct_upt distinct_count_atmost_1 le_eq_less_or_eq less_one count_eq_zero_iff set_mset_mset)
  moreover have "count (mset q + mset f + add_mset b w) b = count (mset [0..<mq_max mq]) b"
    using assms by (simp only: mq_shape_def)
  ultimately show False by linarith
qed

text \<open>A step of thread \<open>t\<close> that leaves the other threads' blocks alone.\<close>

lemma sys_invI:
  assumes "sys_inv \<lparr>sys_mq = mq, sys_phases = ps\<rparr>" "t < length ps"
    and "mq_shape (mset (phase_block p) + phases_rest t ps) q f mq'"
    and "phase_ok mq' p" "mq_size mq' = mq_size mq"
    and "\<forall>c \<in># phases_rest t ps. mq_next mq' c = mq_next mq c \<and> mq_body mq' c = mq_body mq c"
  shows "sys_inv \<lparr>sys_mq = mq', sys_phases = ps[t := p]\<rparr>"
proof -
  have "phase_ok mq' p'" if "p' \<in> set (ps[t := p])" for p'
  proof -
    have "set (ps[t := p]) \<subseteq> insert p (set (take t ps @ drop (Suc t) ps))"
      unfolding upd_conv_take_nth_drop [OF assms(2)] by auto
    then have "p' \<in> insert p (set (take t ps @ drop (Suc t) ps))"
      using that by (rule subsetD)
    then have "p' = p \<or> p' \<in> set (take t ps @ drop (Suc t) ps)"
      by (simp only: insert_iff)
    then show ?thesis
    proof
      assume 2: "p' \<in> set (take t ps @ drop (Suc t) ps)"
      then have "p' \<in> set ps"
        by (auto dest: in_set_takeD in_set_dropD)
      then have "phase_ok mq p'"
        using assms(1) by (simp add: sys_inv_def)
      moreover have "set (phase_block p') \<subseteq> set_mset (phases_rest t ps)"
        using 2 unfolding phases_rest_def phases_held_def set_mset_mset set_concat set_map by blast
      ultimately show ?thesis using assms(5,6) by (intro phase_ok_stable [of mq p' mq']) blast+
    qed (use assms(4) in simp)
  qed
  then show ?thesis
    using assms(2,3) by (simp add: sys_inv_def phases_held_update mq_shapeD(3))
qed

text \<open>What a step does to the queued blocks: a block is appended or pushed to the front, popped, or all are
  dropped; every other section leaves them alone.\<close>

abbreviation sys_contents :: "mq_sys \<Rightarrow> u8 list list" where
  "sys_contents s \<equiv> mq_contents (sys_mq s)"

fun contents_step :: "mq_sys \<Rightarrow> mq_label \<Rightarrow> u8 list list \<Rightarrow> u8 list list" where
  "contents_step s (Link t) c =
     (case sys_phases s ! t of
        Linking urgent b buf \<Rightarrow> if urgent then mq_body (sys_mq s) b # c else c @ [mq_body (sys_mq s) b]
      | _ \<Rightarrow> c)"
| "contents_step s (Unlink t n) c = tl c"
| "contents_step s Reset c = []"
| "contents_step s _ c = c"

lemma sys_shape:
  "sys_inv \<lparr>sys_mq = mq, sys_phases = ps\<rparr> \<Longrightarrow> t < length ps \<Longrightarrow>
    mq_shape (mset (phase_block (ps ! t)) + phases_rest t ps) (mq_queue mq) (mq_freelist mq) mq"
  by (simp add: sys_inv_def mq_inv_def phases_held_nth [of t])

lemma step_take_sim:
  assumes "sys_inv \<lparr>sys_mq = mq, sys_phases = ps\<rparr>" "t < length ps" "ps ! t = Idle"
    and "length buf \<le> mq_size mq" "mq_take_free mq = Some (b, mq')"
  shows "sys_inv \<lparr>sys_mq = mq', sys_phases = ps[t := Sending u b buf]\<rparr> \<and> mq_contents mq' = mq_contents mq"
proof -
  let ?w = "phases_rest t ps"
  obtain f where f: "mq_freelist mq = b # f"
    using sys_shape [OF assms(1,2)] assms(5)
    by (cases "mq_freelist mq") (auto simp: mq_take_free_def mq_shape_def)
  have sh: "mq_shape ?w (mq_queue mq) (b # f) mq"
    using sys_shape [OF assms(1,2)] by (simp add: f assms(3))
  obtain mq'' where "mq_take_free mq = Some (b, mq'')" "mq_shape (add_mset b ?w) (mq_queue mq) f mq''"
    "mq_body mq'' = mq_body mq" "mq_size mq'' = mq_size mq"
    using mq_take_free_shape [OF sh] by blast
  then have sh': "mq_shape (add_mset b ?w) (mq_queue mq) f mq'" "mq_body mq' = mq_body mq" "mq_size mq' = mq_size mq"
    using assms(5) by simp_all
  have "mq_next mq' = mq_next mq" using assms(5) by (auto simp: mq_take_free_def split: option.splits)
  then show ?thesis
    using sh' assms(4) mq_shape_contents [OF sh] mq_shape_contents [OF sh'(1)]
    by (intro conjI sys_invI [OF assms(1,2)]) simp_all
qed

lemma step_fill_sim:
  assumes "sys_inv \<lparr>sys_mq = mq, sys_phases = ps\<rparr>" "t < length ps" "ps ! t = Sending u b buf"
  shows "sys_inv \<lparr>sys_mq = mq_fill u b buf mq, sys_phases = ps[t := Linking u b buf]\<rparr>
    \<and> mq_contents (mq_fill u b buf mq) = mq_contents mq"
proof -
  let ?w = "phases_rest t ps"
  have sh: "mq_shape (add_mset b ?w) (mq_queue mq) (mq_freelist mq) mq"
    using sys_shape [OF assms(1,2)] by (simp add: assms(3))
  have len: "length buf \<le> mq_size mq"
    using assms nth_mem [OF assms(2)] by (fastforce simp: sys_inv_def)
  have b: "b \<notin> set (mq_queue mq)" "b \<notin># ?w"
    using mq_shape_blocks(4) [OF sh, of b] held_notin_rest [OF sh] by simp_all
  have sh': "mq_shape (add_mset b ?w) (mq_queue mq) (mq_freelist mq) (mq_fill u b buf mq)"
    using mq_fill_shape [OF sh _ len] by simp
  have "\<forall>c \<in># ?w. mq_next (mq_fill u b buf mq) c = mq_next mq c \<and> mq_body (mq_fill u b buf mq) c = mq_body mq c"
    using b(2) by (auto simp: mq_fill_def)
  moreover have "mq_contents (mq_fill u b buf mq) = mq_contents mq"
    using mq_shape_contents [OF sh] mq_shape_contents [OF sh'] b(1) by (simp add: frame_simps map_body_other)
  moreover have "take (length buf) (overwrite 0 buf (mq_body mq b)) = buf"
    by (simp add: overwrite_def)
  ultimately show ?thesis
    using sh' len by (intro conjI sys_invI [OF assms(1,2)]) (simp_all add: frame_simps)
qed

lemma step_link_sim:
  assumes "sys_inv \<lparr>sys_mq = mq, sys_phases = ps\<rparr>" "t < length ps" "ps ! t = Linking u b buf"
  shows "sys_inv \<lparr>sys_mq = (if u then mq_link_head b mq else mq_link_tail b mq), sys_phases = ps[t := Idle]\<rparr>
    \<and> mq_contents (if u then mq_link_head b mq else mq_link_tail b mq)
      = (if u then mq_body mq b # mq_contents mq else mq_contents mq @ [mq_body mq b])
    \<and> length (mq_body mq b) = mq_size mq \<and> take (length buf) (mq_body mq b) = buf"
proof -
  let ?w = "phases_rest t ps" and ?mq = "if u then mq_link_head b mq else mq_link_tail b mq"
  have sh: "mq_shape (add_mset b ?w) (mq_queue mq) (mq_freelist mq) mq"
    using sys_shape [OF assms(1,2)] by (simp add: assms(3))
  have "phase_ok mq (Linking u b buf)"
    using assms nth_mem [OF assms(2)] by (fastforce simp: sys_inv_def)
  then have nx: "\<not> u \<Longrightarrow> mq_next mq b = None" and buf: "take (length buf) (mq_body mq b) = buf"
    by simp_all
  note b = held_notin_rest [OF sh]
  have len: "length (mq_body mq b) = mq_size mq"
    using sh mq_shape_blocks(4) [OF sh, of b] by (simp add: mq_shape_def)
  have sh': "mq_shape ?w (if u then b # mq_queue mq else mq_queue mq @ [b]) (mq_freelist mq) ?mq"
    using mq_link_head_shape [OF sh] mq_link_tail_shape [OF sh nx] by simp
  have tail: "mq_tail mq = Some c \<Longrightarrow> c \<in> set (mq_queue mq)" for c
    using sh last_in_set [of "mq_queue mq"] by (auto simp: mq_shape_def split: if_splits)
  have "\<forall>c \<in># ?w. c \<notin> set (mq_queue mq)"
    using mq_shape_blocks(4) [OF sh] by auto
  then have "\<forall>c \<in># ?w. mq_next ?mq c = mq_next mq c \<and> mq_body ?mq c = mq_body mq c"
    using b tail by (auto simp: mq_link_head_def mq_link_tail_def frame_simps split: option.splits)
  then show ?thesis
    using sh' mq_shape_contents [OF sh] mq_shape_contents [OF sh'] len buf
    by (intro conjI sys_invI [OF assms(1,2)]) (simp_all add: frame_simps)
qed

lemma step_unlink_sim:
  assumes "sys_inv \<lparr>sys_mq = mq, sys_phases = ps\<rparr>" "t < length ps" "ps ! t = Idle"
    and "mq_unlink mq = Some (b, mq')"
  shows "sys_inv \<lparr>sys_mq = mq', sys_phases = ps[t := Copying b n (mq_body mq b)]\<rparr>
    \<and> mq_contents mq = mq_body mq b # mq_contents mq'"
proof -
  let ?w = "phases_rest t ps"
  obtain q where q: "mq_queue mq = b # q"
    using sys_shape [OF assms(1,2)] assms(4)
    by (cases "mq_queue mq") (auto simp: mq_unlink_def mq_shape_def)
  have sh: "mq_shape ?w (b # q) (mq_freelist mq) mq"
    using sys_shape [OF assms(1,2)] by (simp add: q assms(3))
  obtain mq'' where "mq_unlink mq = Some (b, mq'')" "mq_shape (add_mset b ?w) q (mq_freelist mq) mq''"
    "mq_body mq'' = mq_body mq" "mq_size mq'' = mq_size mq"
    using mq_unlink_shape [OF sh] by blast
  then have sh': "mq_shape (add_mset b ?w) q (mq_freelist mq) mq'" "mq_body mq' = mq_body mq" "mq_size mq' = mq_size mq"
    using assms(4) by simp_all
  have "mq_next mq' = mq_next mq" using assms(4) by (auto simp: mq_unlink_def split: option.splits)
  then show ?thesis
    using sh' mq_shape_contents [OF sh] mq_shape_contents [OF sh'(1)]
    by (intro conjI sys_invI [OF assms(1,2)]) simp_all
qed

lemma step_copy_sim:
  assumes "sys_inv \<lparr>sys_mq = mq, sys_phases = ps\<rparr>" "t < length ps" "ps ! t = Copying b n m"
  shows "sys_inv \<lparr>sys_mq = mq, sys_phases = ps[t := Releasing b d]\<rparr> \<and> mq_copy_out b n mq = take (min (unat n) (mq_size mq)) m"
proof -
  have "mq_body mq b = m"
    using assms nth_mem [OF assms(2)] by (fastforce simp: sys_inv_def)
  then show ?thesis
    using sys_shape [OF assms(1,2)] assms(3)
    by (intro conjI sys_invI [OF assms(1,2)]) (simp_all add: mq_copy_out_def)
qed

lemma step_release_sim:
  assumes "sys_inv \<lparr>sys_mq = mq, sys_phases = ps\<rparr>" "t < length ps" "ps ! t = Releasing b d"
  shows "sys_inv \<lparr>sys_mq = mq_release b mq, sys_phases = ps[t := Idle]\<rparr>
    \<and> mq_contents (mq_release b mq) = mq_contents mq"
proof -
  let ?w = "phases_rest t ps"
  have sh: "mq_shape (add_mset b ?w) (mq_queue mq) (mq_freelist mq) mq"
    using sys_shape [OF assms(1,2)] by (simp add: assms(3))
  note sh' = mq_release_shape [OF sh]
  have "\<forall>c \<in># ?w. mq_next (mq_release b mq) c = mq_next mq c \<and> mq_body (mq_release b mq) c = mq_body mq c"
    using held_notin_rest [OF sh] by (auto simp: mq_release_def Let_def case_prod_unfold)
  then show ?thesis
    using sh' mq_shape_contents [OF sh] mq_shape_contents [OF sh']
    by (intro conjI sys_invI [OF assms(1,2)]) (simp_all add: frame_simps)
qed

lemma step_reset_sim:
  assumes "sys_inv \<lparr>sys_mq = mq, sys_phases = ps\<rparr>" "rt_mq_control mq RT_IPC_CMD_RESET = Some (r, mq')"
  shows "sys_inv \<lparr>sys_mq = mq', sys_phases = ps\<rparr> \<and> mq_contents mq' = []"
proof -
  have sh: "mq_shape (phases_held ps) (mq_queue mq) (mq_freelist mq) mq"
    using assms(1) by (simp add: sys_inv_def mq_inv_def)
  obtain mq1 where "rt_mq_control mq RT_IPC_CMD_RESET = Some (0, mq1)"
    "mq_shape (phases_held ps) [] (rev (mq_queue mq) @ mq_freelist mq) mq1" "mq_contents mq1 = []"
    "mq_body mq1 = mq_body mq" "mq_msg_size mq1 = mq_msg_size mq"
    "\<forall>c. c \<notin> set (mq_queue mq) \<longrightarrow> mq_next mq1 c = mq_next mq c"
    using rt_mq_control_reset [OF sh] by blast
  then have mq': "mq_shape (phases_held ps) [] (rev (mq_queue mq) @ mq_freelist mq) mq'" "mq_contents mq' = []"
    "mq_body mq' = mq_body mq" "mq_size mq' = mq_size mq"
    "\<forall>c. c \<notin> set (mq_queue mq) \<longrightarrow> mq_next mq' c = mq_next mq c"
    using assms(2) by simp_all
  have "phase_ok mq' p" if "p \<in> set ps" for p
  proof -
    have "set (phase_block p) \<subseteq> set_mset (phases_held ps)"
      using that unfolding phases_held_def set_mset_mset set_concat set_map by blast
    then have "c \<in> set (phase_block p) \<Longrightarrow> c \<notin> set (mq_queue mq)" for c
      using mq_shape_blocks(4) [OF sh, of c] by blast
    moreover have "phase_ok mq p" using that assms(1) by (simp add: sys_inv_def)
    ultimately show ?thesis using mq'(3-5) by (intro phase_ok_stable [of mq p mq']) simp_all
  qed
  then show ?thesis
    using mq' by (simp add: sys_inv_def mq_shapeD(3))
qed

lemma sys_inv_waiters:
  assumes "sys_inv \<lparr>sys_mq = mq, sys_phases = ps\<rparr>"
  shows "sys_inv \<lparr>sys_mq = mq\<lparr>mq_suspend_thread := ts, mq_suspend_sender := ss\<rparr>, sys_phases = ps\<rparr>
    \<and> mq_contents (mq\<lparr>mq_suspend_thread := ts, mq_suspend_sender := ss\<rparr>) = mq_contents mq"
proof -
  have sh: "mq_shape (phases_held ps) (mq_queue mq) (mq_freelist mq) mq"
    using assms by (simp add: sys_inv_def mq_inv_def)
  then have sh': "mq_shape (phases_held ps) (mq_queue mq) (mq_freelist mq)
      (mq\<lparr>mq_suspend_thread := ts, mq_suspend_sender := ss\<rparr>)"
    by (simp add: mq_shape_def)
  have "\<forall>p \<in> set ps. phase_ok (mq\<lparr>mq_suspend_thread := ts, mq_suspend_sender := ss\<rparr>) p"
  proof
    fix p assume "p \<in> set ps"
    then show "phase_ok (mq\<lparr>mq_suspend_thread := ts, mq_suspend_sender := ss\<rparr>) p"
      using assms by (intro phase_ok_stable [of mq p "mq\<lparr>mq_suspend_thread := ts, mq_suspend_sender := ss\<rparr>"])
        (simp_all add: sys_inv_def)
  qed
  then show ?thesis
    using mq_shapeD(3) [OF sh'] mq_shape_contents [OF sh] mq_shape_contents [OF sh']
    by (simp add: sys_inv_def)
qed

text \<open>What a step hands to the caller of \<open>rt_mq_recv\<close> is the front of the message taken.\<close>

definition copied_ok :: "mq_sys \<Rightarrow> mq_label \<Rightarrow> mq_sys \<Rightarrow> bool" where
  "copied_ok s l s' \<longleftrightarrow>
     (case l of
        Copy t \<Rightarrow> (case sys_phases s ! t of
            Copying b n m \<Rightarrow> sys_phases s' ! t = Releasing b (take (min (unat n) (mq_size (sys_mq s))) m)
          | _ \<Rightarrow> False)
      | Unlink t n \<Rightarrow> (\<exists>b. sys_phases s' ! t = Copying b n (hd (sys_contents s))) \<and> sys_contents s \<noteq> []
      | _ \<Rightarrow> True)"

lemma mq_step_sim:
  assumes "mq_step s l s'" "sys_inv s"
  shows "sys_inv s' \<and> sys_contents s' = contents_step s l (sys_contents s) \<and> copied_ok s l s'"
  using assms
proof (induction rule: mq_step.induct)
  case (step_take t ps buf mq b mq' urgent)
  then show ?case using step_take_sim [of mq ps t buf b mq' urgent] by (simp add: copied_ok_def)
next
  case (step_fill t ps urgent b buf mq)
  then show ?case using step_fill_sim [of mq ps t urgent b buf] by (simp add: copied_ok_def)
next
  case (step_link t ps urgent b buf mq)
  then show ?case using step_link_sim [of mq ps t urgent b buf] by (simp add: copied_ok_def)
next
  case (step_unlink t ps mq b mq' n)
  then show ?case using step_unlink_sim [of mq ps t b mq' n] by (simp add: copied_ok_def)
next
  case (step_copy t ps b n m mq)
  then show ?case using step_copy_sim [of mq ps t b n m "take (min (unat n) (mq_size mq)) m"] by (simp add: copied_ok_def)
next
  case (step_release t ps b d mq)
  then show ?case using step_release_sim [of mq ps t b d] by (simp add: copied_ok_def)
next
  case (step_wait_message mq ps th)
  then show ?case
    using sys_inv_waiters [of mq ps "mq_suspend_sender mq" "rt_ipc_list_suspend (mq_suspend_thread mq) th (mq_flag mq)"]
    by (simp add: copied_ok_def)
next
  case (step_wait_free mq ps th)
  then show ?case
    using sys_inv_waiters [of mq ps "rt_ipc_list_suspend (mq_suspend_sender mq) th (mq_flag mq)" "mq_suspend_thread mq"]
    by (simp add: copied_ok_def)
next
  case (step_expire mq ps th)
  then show ?case using sys_inv_waiters [of mq ps] by (simp add: copied_ok_def)
next
  case (step_reset mq r mq' ps)
  then show ?case using step_reset_sim [of mq ps r mq'] by (simp add: copied_ok_def)
qed

subsection \<open>The abstract queue with its calls\<close>

text \<open>The specification knows no blocks: a list of messages, and for each thread what its call has passed or got. A message
  in the queue has the size of the queue's messages and begins with the bytes that its sender passed.\<close>

datatype spec_call = No_call | Offered bool "u8 list" | Taken u32 "u8 list" | Handed "u8 list"

inductive spec_step :: "nat \<Rightarrow> u8 list list \<times> spec_call list \<Rightarrow> mq_label \<Rightarrow> u8 list list \<times> spec_call list \<Rightarrow> bool"
  for size :: nat where
  spec_take: "t < length cs \<Longrightarrow> cs ! t = No_call \<Longrightarrow> length buf \<le> size \<Longrightarrow>
    spec_step size (ms, cs) (Take t urgent buf) (ms, cs[t := Offered urgent buf])"
| spec_fill: "t < length cs \<Longrightarrow> cs ! t = Offered urgent buf \<Longrightarrow> spec_step size (ms, cs) (Fill t) (ms, cs)"
| spec_append: "t < length cs \<Longrightarrow> cs ! t = Offered False buf \<Longrightarrow> length m = size \<Longrightarrow> take (length buf) m = buf \<Longrightarrow>
    spec_step size (ms, cs) (Link t) (ms @ [m], cs[t := No_call])"
| spec_push: "t < length cs \<Longrightarrow> cs ! t = Offered True buf \<Longrightarrow> length m = size \<Longrightarrow> take (length buf) m = buf \<Longrightarrow>
    spec_step size (ms, cs) (Link t) (m # ms, cs[t := No_call])"
| spec_pop: "t < length cs \<Longrightarrow> cs ! t = No_call \<Longrightarrow> spec_step size (m # ms, cs) (Unlink t n) (ms, cs[t := Taken n m])"
| spec_hand: "t < length cs \<Longrightarrow> cs ! t = Taken n m \<Longrightarrow>
    spec_step size (ms, cs) (Copy t) (ms, cs[t := Handed (take (min (unat n) size) m)])"
| spec_end: "t < length cs \<Longrightarrow> cs ! t = Handed d \<Longrightarrow> spec_step size (ms, cs) (Release t) (ms, cs[t := No_call])"
| spec_wait_message: "ms = [] \<Longrightarrow> spec_step size (ms, cs) (Wait_message th) (ms, cs)"
| spec_wait_free: "spec_step size (ms, cs) (Wait_free th) (ms, cs)"
| spec_expire: "spec_step size (ms, cs) (Expire th) (ms, cs)"
| spec_clear: "spec_step size (ms, cs) Reset ([], cs)"

primrec abs_phase :: "mq_phase \<Rightarrow> spec_call" where
  "abs_phase Idle = No_call"
| "abs_phase (Sending u b buf) = Offered u buf"
| "abs_phase (Linking u b buf) = Offered u buf"
| "abs_phase (Copying b n m) = Taken n m"
| "abs_phase (Releasing b d) = Handed d"

definition abs_sys :: "mq_sys \<Rightarrow> u8 list list \<times> spec_call list" where
  "abs_sys s = (sys_contents s, map abs_phase (sys_phases s))"

lemma mq_step_spec:
  assumes "mq_step s l s'" "sys_inv s"
  shows "spec_step (mq_size (sys_mq s)) (abs_sys s) l (abs_sys s')"
  using assms
proof (induction rule: mq_step.induct)
  case (step_take t ps buf mq b mq' urgent)
  then show ?case using step_take_sim [of mq ps t buf b mq' urgent]
    by (simp add: abs_sys_def map_update spec_step.intros)
next
  case (step_fill t ps urgent b buf mq)
  then have "map abs_phase (ps[t := Linking urgent b buf]) = map abs_phase ps"
    by (simp add: map_update list_update_same_conv)
  then show ?case using step_fill step_fill_sim [of mq ps t urgent b buf]
    by (simp add: abs_sys_def spec_fill [of t _ urgent buf])
next
  case (step_link t ps urgent b buf mq)
  then show ?case using step_link_sim [of mq ps t urgent b buf]
    by (cases urgent) (simp_all add: abs_sys_def map_update spec_append [of t _ buf] spec_push [of t _ buf])
next
  case (step_unlink t ps mq b mq' n)
  then show ?case using step_unlink_sim [of mq ps t b mq' n] by (simp add: abs_sys_def map_update spec_pop)
next
  case (step_copy t ps b n m mq)
  then show ?case using step_copy_sim [of mq ps t b n m "[]"] by (simp add: abs_sys_def map_update spec_hand [of t _ n m])
next
  case (step_release t ps b d mq)
  then show ?case using step_release_sim [of mq ps t b d] by (simp add: abs_sys_def map_update spec_end [of t _ d])
next
  case (step_wait_message mq ps th)
  have "mq_shape (phases_held ps) (mq_queue mq) (mq_freelist mq) mq"
    using step_wait_message.prems by (simp add: sys_inv_def mq_inv_def)
  from mq_entry_zero [OF this] have "mq_contents mq = []" using step_wait_message.hyps by (simp add: mq_contents_def)
  then show ?case
    using sys_inv_waiters [OF step_wait_message.prems, of "mq_suspend_sender mq" "rt_ipc_list_suspend (mq_suspend_thread mq) th (mq_flag mq)"]
    by (simp add: abs_sys_def map_update spec_wait_message)
next
  case (step_wait_free mq ps th)
  then show ?case
    using sys_inv_waiters [of mq ps "rt_ipc_list_suspend (mq_suspend_sender mq) th (mq_flag mq)" "mq_suspend_thread mq"]
    by (simp add: abs_sys_def map_update spec_wait_free)
next
  case (step_expire mq ps th)
  then show ?case using sys_inv_waiters [of mq ps] by (simp add: abs_sys_def map_update spec_expire)
next
  case (step_reset mq r mq' ps)
  then show ?case using step_reset_sim [of mq ps r mq'] by (simp add: abs_sys_def map_update spec_clear)
qed

text \<open>Runs of ordinary sends and receives (no urgent message, no reset), with the messages that were
  linked and the messages that were taken, each in order.\<close>

fun linked_by :: "mq_sys \<Rightarrow> mq_label \<Rightarrow> u8 list list" where
  "linked_by s (Link t) =
     (case sys_phases s ! t of Linking u b buf \<Rightarrow> [mq_body (sys_mq s) b] | _ \<Rightarrow> [])"
| "linked_by s _ = []"

fun taken_by :: "mq_sys \<Rightarrow> mq_label \<Rightarrow> u8 list list" where
  "taken_by s (Unlink t n) = [hd (sys_contents s)]"
| "taken_by s _ = []"

fun ordinary :: "mq_sys \<Rightarrow> mq_label \<Rightarrow> bool" where
  "ordinary s (Link t) = (case sys_phases s ! t of Linking u b buf \<Rightarrow> \<not> u | _ \<Rightarrow> True)"
| "ordinary s Reset = False"
| "ordinary s _ = True"

inductive mq_run :: "mq_sys \<Rightarrow> u8 list list \<Rightarrow> u8 list list \<Rightarrow> mq_sys \<Rightarrow> bool" where
  run_refl: "mq_run s [] [] s"
| run_step: "mq_run s snt tkn s1 \<Longrightarrow> mq_step s1 l s2 \<Longrightarrow> ordinary s1 l \<Longrightarrow>
    mq_run s (snt @ linked_by s1 l) (tkn @ taken_by s1 l) s2"

lemma ordinary_step:
  assumes "mq_step s l s'" "sys_inv s" "ordinary s l"
  shows "sys_contents s @ linked_by s l = taken_by s l @ sys_contents s'"
proof -
  note sim = mq_step_sim [OF assms(1,2)]
  show ?thesis
  proof (cases l)
    case (Link t)
    then show ?thesis using sim assms(3) by (cases "sys_phases s ! t") simp_all
  next
    case (Unlink t n)
    then show ?thesis using sim by (simp add: copied_ok_def)
  qed (use sim assms(3) in simp_all)
qed

lemma mq_run_history:
  assumes "mq_run s snt tkn s'" "sys_inv s"
  shows "sys_inv s' \<and> sys_contents s @ snt = tkn @ sys_contents s'"
  using assms
proof (induction rule: mq_run.induct)
  case (run_step s snt tkn s1 l s2)
  then have "sys_inv s1" "sys_contents s @ snt = tkn @ sys_contents s1" by simp_all
  moreover have "sys_contents s1 @ linked_by s1 l = taken_by s1 l @ sys_contents s2"
    using run_step ordinary_step by blast
  ultimately show ?case
    using mq_step_sim [OF run_step.hyps(2)] by (metis append.assoc)
qed simp

subsection \<open>Waiting\<close>

lemma mq_await_message_wait:
  assumes "mq_entry mq = 0" "timeout \<noteq> 0"
  shows "mq_await_message t timeout [] mq =
      Pending (mq\<lparr>mq_suspend_thread := rt_ipc_list_suspend (mq_suspend_thread mq) t (mq_flag mq)\<rparr>)"
    and "mq_await_message t timeout (w # ws) mq =
      (let mq1 = wake_mq w (mq\<lparr>mq_suspend_thread := rt_ipc_list_suspend (mq_suspend_thread mq) t (mq_flag mq)\<rparr>)
       in if wake_error w \<noteq> 0 then Failed (wake_error w) mq1
          else mq_await_message t (timeout_left timeout (wake_elapsed w)) ws mq1)"
  using assms by (simp_all add: mq_await_message.simps [of t timeout _ mq] Let_def)

lemma timeout_left_expired:
  assumes "0 <s timeout" "timeout - d <s 0"
  shows "timeout_left timeout d = 0"
  using assms by (simp add: timeout_left_def)

lemma timeout_left_forever: "\<not> 0 <s timeout \<Longrightarrow> timeout_left timeout d = timeout"
  by (simp add: timeout_left_def)

subsection \<open>Properties\<close>

text \<open>Three blocks of four bytes.\<close>

definition example_mq :: rt_messagequeue where
  "example_mq = rt_mq_init (\<lambda>_. None, \<lambda>_. replicate 4 0) 3 24 RT_IPC_FLAG_FIFO"

lemma example_mq_shape:
  "mq_shape {#} [] [Suc (Suc 0), 1, 0] example_mq" "mq_size example_mq = 4" "mq_max example_mq = 3"
  using rt_mq_init_spec [of 3 24 "(\<lambda>_. None, \<lambda>_. replicate 4 0)" RT_IPC_FLAG_FIFO]
  by (simp_all add: aligned_size_def example_mq_def upt_rec)

lemma example_mq_props:
  "mq_rest example_mq" "mq_contents example_mq = []"
  using mq_shapeD(3) [OF example_mq_shape(1)] mq_shape_contents [OF example_mq_shape(1)] by simp_all

text \<open>Initialisation: the queue starts at rest and empty, its message size is the requested
  one rounded up to a multiple of 4, and its capacity is the number of blocks of that size plus one
  link that fit in the pool.\<close>

lemma mq_init_capacity:
  assumes "unat msg_size \<le> 65532" "unat pool_size div (aligned_size msg_size + 4) < 65536"
    and "\<forall>b < unat pool_size div (aligned_size msg_size + 4). length (snd pool b) = aligned_size msg_size"
  shows "mq_rest (rt_mq_init pool msg_size pool_size flag)
    \<and> mq_contents (rt_mq_init pool msg_size pool_size flag) = []
    \<and> mq_size (rt_mq_init pool msg_size pool_size flag) = (unat msg_size + 3) div 4 * 4
    \<and> mq_max (rt_mq_init pool msg_size pool_size flag)
        = unat pool_size div ((unat msg_size + 3) div 4 * 4 + 4)"
proof -
  note s = rt_mq_init_spec [OF assms, of flag]
  show ?thesis
    using s mq_shapeD(3) [OF s [THEN conjunct1]] mq_shape_contents [OF s [THEN conjunct1]]
    by (simp add: aligned_size_def)
qed

text \<open>Every outcome of a send without waiting, on a queue at rest: a message longer than a block is
  refused with \<open>-RT_ERROR\<close>, a full queue answers \<open>-RT_EFULL\<close>, both without any change, and otherwise
  the message is queued last, its block keeping the old bytes beyond the message.\<close>

lemma mq_send_outcomes:
  assumes "mq_rest mq" "unat sz \<le> length buffer"
  shows "if unat sz > mq_size mq then rt_mq_send t mq buffer sz = Failed (-1) mq
    else if length (mq_contents mq) = mq_max mq then rt_mq_send t mq buffer sz = Failed (-3) mq
    else \<exists>mq' old. rt_mq_send t mq buffer sz = Got () mq' \<and> mq_rest mq' \<and> length old = mq_size mq
      \<and> mq_contents mq' = mq_contents mq @ [take (unat sz) buffer @ drop (unat sz) old]"
proof -
  consider (big) "unat sz > mq_size mq" | (full) "unat sz \<le> mq_size mq" "mq_freelist mq = []"
    | (room) b f where "unat sz \<le> mq_size mq" "mq_freelist mq = b # f"
    by (meson neq_Nil_conv not_le)
  then show ?thesis
  proof cases
    case big
    then show ?thesis by (simp add: rt_mq_send_def rt_mq_send_wait_def)
  next
    case full
    then have "length (mq_contents mq) = mq_max mq"
      using mq_rest_count [OF assms(1)] by (simp add: mq_contents_def)
    moreover have "mq_shape {#} (mq_queue mq) [] mq"
      using mq_restD [OF assms(1)] full(2) by simp
    ultimately show ?thesis
      using full(1) send_full(1) by (simp add: not_less)
  next
    case room
    have sh: "mq_shape {#} (mq_queue mq) (b # f) mq"
      using mq_restD [OF assms(1)] room(2) by simp
    have "length (mq_body mq b) = mq_size mq"
      using sh mq_shape_blocks(6) [OF sh, of b] by (simp add: mq_shape_def)
    moreover have "length (mq_contents mq) \<noteq> mq_max mq"
      using mq_rest_count [OF assms(1)] room(2) by (simp add: mq_contents_def)
    moreover obtain mq' where "rt_mq_send t mq buffer sz = Got () mq'" "mq_shape {#} (mq_queue mq @ [b]) f mq'"
      "mq_contents mq' = mq_contents mq @ [padded buffer sz (mq_body mq b)]"
      using send_shape(1) [OF sh room(1) assms(2), of t "[]" 0] unfolding rt_mq_send_def by blast
    ultimately show ?thesis
      using room(1) mq_shapeD(3) by (auto simp: padded_def not_less)
  qed
qed

text \<open>Messages come out whole, once and in the order they were sent: as long as the capacity is not
  exceeded, draining the queue after a series of sends yields the older messages and then the new ones.\<close>

lemma mq_messages_in_order:
  assumes "mq_rest mq" "\<forall>m \<in> set ms. length m = mq_size mq"
    and "length (mq_contents mq) + length ms \<le> mq_max mq"
  shows "fst (mq_fifo.drain (length (mq_contents mq) + length ms) (mq_fifo.enq_all ms mq)) = mq_contents mq @ ms"
  using assms by (intro mq_fifo.enq_all_drain) (simp_all add: mq_fits_def)

text \<open>Receiving, when it need not wait: the oldest message leaves the queue, at most
  \<open>min size msg_size\<close> of its bytes reach the caller, and its block is free again; no NULL pointer is
  followed. A receive that must wait queues the thread, returns the error it is woken with, and
  otherwise tries again with the remaining time.\<close>

lemma mq_recv_outcomes:
  assumes "mq_rest mq"
  shows "case mq_contents mq of
      m # ms \<Rightarrow> \<exists>mq'. rt_mq_recv t wakes mq sz timeout = Got (take (min (unat sz) (mq_size mq)) m) mq'
        \<and> mq_rest mq' \<and> mq_contents mq' = ms
    | [] \<Rightarrow> rt_mq_recv t wakes mq sz 0 = Failed (-2) mq
        \<and> (timeout \<noteq> 0 \<longrightarrow>
            rt_mq_recv t [] mq sz timeout
              = Pending (mq\<lparr>mq_suspend_thread := rt_ipc_list_suspend (mq_suspend_thread mq) t (mq_flag mq)\<rparr>)
          \<and> rt_mq_recv t (w # ws) mq sz timeout =
              (let mq1 = wake_mq w (mq\<lparr>mq_suspend_thread := rt_ipc_list_suspend (mq_suspend_thread mq) t (mq_flag mq)\<rparr>)
               in if wake_error w \<noteq> 0 then Failed (wake_error w) mq1
                  else rt_mq_recv t ws mq1 sz (timeout_left timeout (wake_elapsed w))))"
proof (cases "mq_queue mq")
  case Nil
  have sh: "mq_shape {#} [] (mq_freelist mq) mq" using mq_restD [OF assms] Nil by simp
  then have "mq_entry mq = 0" by (simp add: mq_shape_def)
  then show ?thesis
    using recv_empty [OF sh] mq_await_message_wait [of mq timeout t]
    by (simp add: mq_contents_def Nil rt_mq_recv_def Let_def)
next
  case (Cons b q)
  have sh: "mq_shape {#} (b # q) (mq_freelist mq) mq" using mq_restD [OF assms] Cons by simp
  then show ?thesis
    using recv_shape [OF sh, of t wakes sz timeout] mq_shapeD(3)
    by (fastforce simp: mq_contents_def Cons)
qed

text \<open>C36. Refinement under interleaving: whatever sections of sends, urgent sends, receives and resets the threads execute in
  whatever order, the blocks stay partitioned and each section is a step of the abstract queue with its calls. So the message
  that a send queues begins with the bytes its caller passed, whatever ran since, a receive takes the first message, and its caller
  gets the front of that message, whatever ran between taking and copying.\<close>

theorem mq_step_refines:
  assumes "mq_step s l s'" "sys_inv s"
  shows "sys_inv s' \<and> spec_step (mq_size (sys_mq s)) (abs_sys s) l (abs_sys s')"
  using mq_step_spec [OF assms] mq_step_sim [OF assms] by blast

text \<open>Consequence for whole runs: with ordinary sends and receives interleaved arbitrarily, the
  messages taken so far followed by those still queued are exactly those that were queued at the
  start followed by those linked since, in that order: nothing is lost, duplicated or reordered.\<close>

lemma mq_run_fifo:
  assumes "mq_run s snt tkn s'" "sys_inv s"
  shows "sys_contents s @ snt = tkn @ sys_contents s'"
  using mq_run_history [OF assms] by simp

definition example_sys :: mq_sys where
  "example_sys = \<lparr>sys_mq = example_mq, sys_phases = [Idle, Idle]\<rparr>"

lemma example_sys_inv: "sys_inv example_sys"
  using example_mq_props by (simp add: sys_inv_def example_sys_def phases_held_def)

lemma example_take:
  "\<exists>b mq'. mq_take_free example_mq = Some (b, mq')"
  using mq_take_free_shape [OF example_mq_shape(1)] by blast

inductive_cases spec_takeE: "spec_step n s (Take t u buf) s'"
inductive_cases spec_fillE: "spec_step n s (Fill t) s'"
inductive_cases spec_linkE: "spec_step n s (Link t) s'"

text \<open>A message of two bytes is sent.\<close>

theorem mq_step_refines_witness:
  "\<exists>s1 s2 s3 m. mq_step example_sys (Take 0 False [1, 2]) s1 \<and> mq_step s1 (Fill 0) s2 \<and> mq_step s2 (Link 0) s3
    \<and> sys_inv s3 \<and> sys_contents s3 = [m] \<and> take 2 m = [1, 2]"
proof -
  obtain b mq' where b: "mq_take_free example_mq = Some (b, mq')" using example_take by blast
  define s1 where "s1 = \<lparr>sys_mq = mq', sys_phases = [Sending False b [1, 2], Idle]\<rparr>"
  define s2 where "s2 = \<lparr>sys_mq = mq_fill False b [1, 2] mq', sys_phases = [Linking False b [1, 2], Idle]\<rparr>"
  define s3 where "s3 = \<lparr>sys_mq = mq_link_tail b (mq_fill False b [1, 2] mq'), sys_phases = [Idle, Idle]\<rparr>"
  have 1: "mq_step example_sys (Take 0 False [1, 2]) s1"
    using step_take [of 0 "[Idle, Idle]" "[1, 2]" example_mq b mq' False] b
    by (simp add: example_sys_def s1_def example_mq_shape)
  have 2: "mq_step s1 (Fill 0) s2"
    using step_fill [of 0 "[Sending False b [1, 2], Idle]" False b "[1, 2]" mq'] by (simp add: s1_def s2_def)
  have 3: "mq_step s2 (Link 0) s3"
    using step_link [of 0 "[Linking False b [1, 2], Idle]" False b "[1, 2]" "mq_fill False b [1, 2] mq'"] by (simp add: s2_def s3_def)
  note r1 = mq_step_refines [OF 1 example_sys_inv]
  note r2 = mq_step_refines [OF 2 r1 [THEN conjunct1]]
  note r3 = mq_step_refines [OF 3 r2 [THEN conjunct1]]
  have "sys_contents s1 = []"
    using r1 example_mq_props(2) by (auto simp: abs_sys_def example_sys_def elim: spec_takeE)
  then have "sys_contents s2 = []" using r2 by (auto simp: abs_sys_def elim: spec_fillE)
  then have "\<exists>m. sys_contents s3 = [m] \<and> take 2 m = [1, 2]"
    using r3 by (auto simp: abs_sys_def s2_def numeral_2_eq_2 elim!: spec_linkE)
  then show ?thesis using 1 2 3 r3 by blast
qed

text \<open>Reset: every waiting thread is resumed with \<open>-RT_ERROR\<close>, both waiting lists and the queue are empty
  afterwards, all blocks of the queue are free again, the loop ends within \<open>max_msgs\<close> rounds, and
  the blocks of calls in progress are not touched. Any other command is refused with \<open>-RT_ERROR\<close>.\<close>

lemma mq_control_reset:
  assumes "mq_inv w mq"
  shows "\<exists>mq'. rt_mq_control mq RT_IPC_CMD_RESET = Some (0, mq') \<and> mq_inv w mq'
      \<and> mq_contents mq' = [] \<and> mset (mq_freelist mq') = mset (mq_freelist mq) + mset (mq_queue mq)
      \<and> mq_suspend_thread mq' = [] \<and> mq_suspend_sender mq' = []
      \<and> mq_resumed mq' = mq_resumed mq
         @ map (\<lambda>t. (thread_id t, Some (-1))) (mq_suspend_thread mq @ mq_suspend_sender mq)
    \<and> (\<forall>cmd. cmd \<noteq> RT_IPC_CMD_RESET \<longrightarrow> rt_mq_control mq cmd = Some (-1, mq))"
proof -
  have sh: "mq_shape w (mq_queue mq) (mq_freelist mq) mq" using assms by (simp add: mq_inv_def)
  from rt_mq_control_reset [OF sh] obtain mq' where mq':
    "rt_mq_control mq RT_IPC_CMD_RESET = Some (0, mq')"
    "mq_shape w [] (rev (mq_queue mq) @ mq_freelist mq) mq'" "mq_contents mq' = []"
    "mq_suspend_thread mq' = []" "mq_suspend_sender mq' = []"
    "mq_resumed mq' = mq_resumed mq
       @ map (\<lambda>t. (thread_id t, Some (- rt_err_value RT_ERROR))) (mq_suspend_thread mq @ mq_suspend_sender mq)"
    by blast
  have "\<forall>cmd. cmd \<noteq> RT_IPC_CMD_RESET \<longrightarrow> rt_mq_control mq cmd = Some (-1, mq)"
    by (simp add: rt_mq_control_def)
  then show ?thesis
    using mq' mq_shapeD [OF mq'(2)] by (intro exI [of _ mq']) simp
qed

end
