(* ===== verification/RtEvent.thy ===== *)
theory RtEvent
  imports RtMq
begin

text \<open>
  The kernel event object of \<open>rt-thread/src/ipc.c\<close> (\<open>rt_event_*\<close>): a 32-bit set of flags and the list of
  threads that wait for some (OR) or all (AND) bits of a mask, optionally clearing what they
  receive. The LCD thread gets its key commands through one of these. A send scans the waiting
  threads in list order against the current set, so an earlier thread may clear bits that a later one
  wanted.
\<close>

subsection \<open>State\<close>

record event_thread = rt_thread +
  event_set :: u32
  event_info :: u8

record rt_event =
  ev_flag :: u8
  ev_suspend :: "event_thread list"
  ev_set :: u32
  ev_woken :: "(nat \<times> int option \<times> u32) list"

text \<open>\<open>ev_woken\<close> logs the resumed threads, the error written into the thread (if any) and its
  \<open>event_set\<close> at that moment, which is what its receive call returns.\<close>

definition RT_EVENT_FLAG_AND :: u8 where "RT_EVENT_FLAG_AND = 1"
definition RT_EVENT_FLAG_OR :: u8 where "RT_EVENT_FLAG_OR = 2"
definition RT_EVENT_FLAG_CLEAR :: u8 where "RT_EVENT_FLAG_CLEAR = 4"

subsection \<open>Operations\<close>

definition rt_event_init :: "u8 \<Rightarrow> rt_event" where
  "rt_event_init flag = \<lparr>ev_flag = flag, ev_suspend = [], ev_set = 0, ev_woken = []\<rparr>"

definition rt_event_create :: "bool \<Rightarrow> u8 \<Rightarrow> rt_event option" where
  "rt_event_create object_ok flag = (if object_ok then Some (rt_event_init flag) else None)"

text \<open>The test of one mask against the current set; \<open>None\<close> when the option names neither AND nor OR.\<close>

definition event_satisfied :: "u32 \<Rightarrow> u32 \<Rightarrow> u8 \<Rightarrow> bool option" where
  "event_satisfied cur want option =
     (if option AND RT_EVENT_FLAG_AND \<noteq> 0 then Some (cur AND want = want)
      else if option AND RT_EVENT_FLAG_OR \<noteq> 0 then Some (cur AND want \<noteq> 0)
      else None)"

text \<open>The scan of the waiting threads in \<open>rt_event_send\<close>.\<close>

fun event_wake :: "u32 \<Rightarrow> event_thread list \<Rightarrow> u32 \<times> event_thread list \<times> (nat \<times> int option \<times> u32) list" where
  "event_wake cur [] = (cur, [], [])"
| "event_wake cur (t # ts) =
     (if event_satisfied cur (event_set t) (event_info t) = Some True then
        let got = (if event_info t AND RT_EVENT_FLAG_AND \<noteq> 0 then event_set t else event_set t AND cur);
            cur' = (if event_info t AND RT_EVENT_FLAG_CLEAR \<noteq> 0 then cur AND NOT got else cur);
            (cur'', ts', woken) = event_wake cur' ts
        in (cur'', ts', (thread_id t, None, got) # woken)
      else
        let (cur'', ts', woken) = event_wake cur ts in (cur'', t # ts', woken))"

definition rt_event_send :: "rt_event \<Rightarrow> u32 \<Rightarrow> int \<times> rt_event" where
  "rt_event_send ev want =
     (if want = 0 then (- rt_err_value RT_ERROR, ev)
      else
        let (cur, ts, woken) = event_wake (ev_set ev OR want) (ev_suspend ev)
        in (0, ev\<lparr>ev_set := cur, ev_suspend := ts, ev_woken := ev_woken ev @ woken\<rparr>))"

text \<open>\<open>wake\<close> is how a receive that had to wait is resumed: the thread's error code, its \<open>event_set\<close>, and
  the event object at that time. \<open>Ev_wait\<close> is a receive that is still waiting, \<open>Ev_assert\<close> the failed
  \<open>RT_ASSERT(0)\<close>.\<close>

datatype event_result = Ev_return int "u32 option" rt_event | Ev_wait rt_event | Ev_assert

definition rt_event_recv ::
  "rt_event \<Rightarrow> nat \<Rightarrow> u8 \<Rightarrow> u32 \<Rightarrow> u8 \<Rightarrow> 32 word \<Rightarrow> (int \<times> u32 \<times> rt_event) option \<Rightarrow> event_result" where
  "rt_event_recv ev tid prio want option timeout wake =
     (if want = 0 then Ev_return (- rt_err_value RT_ERROR) None ev
      else
        case event_satisfied (ev_set ev) want option of
          None \<Rightarrow> Ev_assert
        | Some True \<Rightarrow>
            Ev_return 0 (Some (ev_set ev AND want))
              (if option AND RT_EVENT_FLAG_CLEAR \<noteq> 0 then ev\<lparr>ev_set := ev_set ev AND NOT want\<rparr> else ev)
        | Some False \<Rightarrow>
            if timeout = 0 then Ev_return (- rt_err_value RT_ETIMEOUT) None ev
            else
              let t = \<lparr>thread_id = tid, current_priority = prio, event_set = want, event_info = option\<rparr>;
                  ev1 = ev\<lparr>ev_suspend := rt_ipc_list_suspend (ev_suspend ev) t (ev_flag ev)\<rparr>
              in (case wake of
                    None \<Rightarrow> Ev_wait ev1
                  | Some (err, got, ev2) \<Rightarrow>
                      if err \<noteq> 0 then Ev_return err None ev2 else Ev_return 0 (Some got) ev2))"

definition event_resume_waiters :: "rt_event \<Rightarrow> rt_event" where
  "event_resume_waiters ev =
     (let (ts, woken) = rt_ipc_list_resume_all (ev_suspend ev)
      in ev\<lparr>ev_suspend := ts,
            ev_woken := ev_woken ev
              @ map (\<lambda>(t, (i, e)). (i, e, event_set t)) (zip (ev_suspend ev) woken)\<rparr>)"

definition rt_event_detach :: "rt_event \<Rightarrow> rt_event" where
  "rt_event_detach ev = event_resume_waiters ev"

definition rt_event_control :: "rt_event \<Rightarrow> int \<Rightarrow> int \<times> rt_event" where
  "rt_event_control ev cmd =
     (if cmd = RT_IPC_CMD_RESET then (0, (event_resume_waiters ev)\<lparr>ev_set := 0\<rparr>)
      else (- rt_err_value RT_ERROR, ev))"

subsection \<open>The scan\<close>

text \<open>Clearing only removes bits, so a thread that was passed over stays unsatisfied.\<close>

definition unsatisfied :: "u32 \<Rightarrow> event_thread \<Rightarrow> bool" where
  "unsatisfied cur t \<longleftrightarrow> event_satisfied cur (event_set t) (event_info t) \<noteq> Some True"

definition subbits :: "u32 \<Rightarrow> u32 \<Rightarrow> bool" where
  "subbits a b \<longleftrightarrow> (\<forall>n. bit a n \<longrightarrow> bit b n)"

lemma subbits_refl [simp]: "subbits a a"
  by (simp add: subbits_def)

lemma subbits_trans: "subbits a b \<Longrightarrow> subbits b c \<Longrightarrow> subbits a c"
  by (simp add: subbits_def)

lemma subbits_and [simp]: "subbits (a AND b) a" "subbits (a AND b) b"
  by (simp_all add: subbits_def bit_and_iff)

lemma and_eq_want_iff: "(a AND m = m) \<longleftrightarrow> subbits m (a :: u32)"
proof
  assume "a AND m = m"
  then show "subbits m a" unfolding subbits_def by (metis bit_and_iff)
next
  assume "subbits m a"
  then show "a AND m = m" by (auto intro!: bit_eqI simp: subbits_def bit_and_iff)
qed

lemma and_nonzero_iff: "(a AND m \<noteq> 0) \<longleftrightarrow> (\<exists>n. bit (a :: u32) n \<and> bit m n)"
proof
  assume "a AND m \<noteq> 0"
  then obtain n where "bit (a AND m) n" by (metis bit_eqI bit_0_eq bot_apply bot_bool_def)
  then show "\<exists>n. bit a n \<and> bit m n" by (auto simp: bit_and_iff)
next
  assume "\<exists>n. bit a n \<and> bit m n"
  then obtain n where "bit (a AND m) n" by (auto simp: bit_and_iff)
  then show "a AND m \<noteq> 0" by auto
qed

lemma unsatisfied_antimono:
  assumes "unsatisfied cur t" "subbits cur' cur"
  shows "unsatisfied cur' t"
  using assms
  by (auto simp: unsatisfied_def event_satisfied_def and_eq_want_iff and_nonzero_iff
      intro: subbits_trans split: if_splits)
    (auto simp: subbits_def and_nonzero_iff)

lemma event_wake_shrinks: "subbits (fst (event_wake cur ts)) cur"
proof (induction cur ts rule: event_wake.induct)
  case (2 cur t ts)
  show ?case
  proof (cases "event_satisfied cur (event_set t) (event_info t) = Some True")
    case True
    then show ?thesis
      using 2(1) [OF True refl refl]
      by (auto simp: Let_def case_prod_unfold intro: subbits_trans)
  next
    case False
    then show ?thesis using 2(2) [OF False] by (simp add: Let_def case_prod_unfold)
  qed
qed simp

lemma event_wake_unsatisfied:
  "t \<in> set (fst (snd (event_wake cur ts))) \<Longrightarrow> t \<in> set ts \<and> unsatisfied (fst (event_wake cur ts)) t"
proof (induction cur ts rule: event_wake.induct)
  case (2 cur s ts)
  show ?case
  proof (cases "event_satisfied cur (event_set s) (event_info s) = Some True")
    case True
    then show ?thesis
      using 2(1) [OF True refl refl] 2(3)
      unfolding event_wake.simps(2) if_P [OF True] Let_def case_prod_unfold by simp
  next
    case False
    have "unsatisfied (fst (event_wake cur ts)) s"
      using False by (intro unsatisfied_antimono [OF _ event_wake_shrinks]) (simp add: unsatisfied_def)
    then show ?thesis
      using 2(2) [OF False] 2(3)
      unfolding event_wake.simps(2) if_not_P [OF False] Let_def case_prod_unfold by auto
  qed
qed simp

text \<open>What the resumed threads receive: their mask for AND, otherwise the wanted bits that were set.\<close>

lemma event_wake_woken:
  "(i, e, got) \<in> set (snd (snd (event_wake cur ts))) \<Longrightarrow>
    e = None \<and> subbits got cur \<and> (\<exists>t \<in> set ts. thread_id t = i \<and> subbits got (event_set t))"
proof (induction cur ts rule: event_wake.induct)
  case (2 cur s ts)
  show ?case
  proof (cases "event_satisfied cur (event_set s) (event_info s) = Some True")
    case True
    let ?got = "if event_info s AND RT_EVENT_FLAG_AND \<noteq> 0 then event_set s else event_set s AND cur"
    let ?cur = "if event_info s AND RT_EVENT_FLAG_CLEAR \<noteq> 0 then cur AND NOT ?got else cur"
    have cur: "subbits ?cur cur" by simp
    have got: "subbits ?got cur" "subbits ?got (event_set s)"
      using True by (auto simp: event_satisfied_def and_eq_want_iff split: if_splits)
    have "(i, e, got) = (thread_id s, None, ?got) \<or> (i, e, got) \<in> set (snd (snd (event_wake ?cur ts)))"
      using 2(3) unfolding event_wake.simps(2) if_P [OF True] Let_def case_prod_unfold by simp
    then show ?thesis
    proof
      assume "(i, e, got) = (thread_id s, None, ?got)"
      then show ?thesis using got by simp
    next
      assume "(i, e, got) \<in> set (snd (snd (event_wake ?cur ts)))"
      from 2(1) [OF True refl refl this] show ?thesis
        using cur subbits_trans by auto
    qed
  next
    case False
    then show ?thesis
      using 2(2) [OF False] 2(3)
      unfolding event_wake.simps(2) if_not_P [OF False] Let_def case_prod_unfold by auto
  qed
qed simp

subsection \<open>No lost wake-ups\<close>

text \<open>Every waiting thread wants something that the current set does not give it.\<close>

definition event_inv :: "rt_event \<Rightarrow> bool" where
  "event_inv ev \<longleftrightarrow> (\<forall>t \<in> set (ev_suspend ev). unsatisfied (ev_set ev) t)"

lemma event_init_inv: "event_inv (rt_event_init flag)"
  by (simp add: event_inv_def rt_event_init_def)

lemma event_send_inv: "event_inv (snd (rt_event_send ev s))" if "event_inv ev"
  using that event_wake_unsatisfied
  by (auto simp: rt_event_send_def event_inv_def Let_def case_prod_unfold)

lemma set_rt_ipc_list_suspend: "set (rt_ipc_list_suspend ts t flag) \<subseteq> insert t (set ts)"
proof -
  have "set (insert_prio t ts) = insert t (set ts)"
    by (metis set_insert_prio set_mset_add_mset_insert set_mset_mset)
  then show ?thesis by (auto simp: rt_ipc_list_suspend_def)
qed

fun event_result_state :: "event_result \<Rightarrow> rt_event option" where
  "event_result_state (Ev_return r g ev) = Some ev"
| "event_result_state (Ev_wait ev) = Some ev"
| "event_result_state Ev_assert = None"

lemma event_recv_inv:
  assumes "event_inv ev" "event_result_state (rt_event_recv ev tid prio want option timeout None) = Some ev'"
  shows "event_inv ev'"
proof (cases "event_satisfied (ev_set ev) want option")
  case (Some sat)
  have shrink: "unsatisfied (ev_set ev) t \<Longrightarrow> unsatisfied (ev_set ev AND NOT want) t" for t
    by (rule unsatisfied_antimono [OF _ subbits_and(1)])
  show ?thesis
  proof (cases sat)
    case True
    then show ?thesis
      using assms Some shrink by (auto simp: rt_event_recv_def event_inv_def split: if_splits)
  next
    case False
    have "set (rt_ipc_list_suspend (ev_suspend ev)
        \<lparr>thread_id = tid, current_priority = prio, event_set = want, event_info = option\<rparr> (ev_flag ev))
      \<subseteq> insert \<lparr>thread_id = tid, current_priority = prio, event_set = want, event_info = option\<rparr> (set (ev_suspend ev))"
      by (rule set_rt_ipc_list_suspend)
    then show ?thesis
      using assms Some False
      by (auto simp: rt_event_recv_def event_inv_def unsatisfied_def Let_def split: if_splits)
  qed
qed (use assms in \<open>auto simp: rt_event_recv_def split: if_splits\<close>)

lemma event_control_inv: "event_inv ev \<Longrightarrow> event_inv (snd (rt_event_control ev cmd))"
  by (simp add: rt_event_control_def event_resume_waiters_def event_inv_def Let_def case_prod_unfold
      resume_all_empty)

subsection \<open>Flags without waiting threads\<close>

text \<open>A client that only polls (zero timeout, OR and CLEAR), as the LCD thread does.\<close>

definition event_idle :: "rt_event \<Rightarrow> bool" where
  "event_idle ev \<longleftrightarrow> ev_suspend ev = []"

definition event_post :: "rt_event \<Rightarrow> u32 \<Rightarrow> rt_event" where
  "event_post ev s = snd (rt_event_send ev s)"

definition event_poll :: "rt_event \<Rightarrow> u32 \<Rightarrow> u32 option \<times> rt_event" where
  "event_poll ev s =
     (case rt_event_recv ev 0 0 s (RT_EVENT_FLAG_OR OR RT_EVENT_FLAG_CLEAR) 0 None of
        Ev_return r got ev' \<Rightarrow> (got, ev')
      | Ev_wait ev' \<Rightarrow> (None, ev')
      | Ev_assert \<Rightarrow> (None, ev))"

lemma event_poll_cases:
  "event_poll ev s =
     (if ev_set ev AND s \<noteq> 0 then (Some (ev_set ev AND s), ev\<lparr>ev_set := ev_set ev AND NOT s\<rparr>)
      else (None, ev))"
proof -
  have "(RT_EVENT_FLAG_OR OR RT_EVENT_FLAG_CLEAR) AND RT_EVENT_FLAG_AND = 0"
    "(RT_EVENT_FLAG_OR OR RT_EVENT_FLAG_CLEAR) AND RT_EVENT_FLAG_OR \<noteq> 0"
    "(RT_EVENT_FLAG_OR OR RT_EVENT_FLAG_CLEAR) AND RT_EVENT_FLAG_CLEAR \<noteq> 0"
    by (simp_all add: RT_EVENT_FLAG_AND_def RT_EVENT_FLAG_OR_def RT_EVENT_FLAG_CLEAR_def)
  then show ?thesis
    by (auto simp: event_poll_def rt_event_recv_def event_satisfied_def)
qed

lemma event_post_simps:
  "event_idle ev \<Longrightarrow> ev_set (event_post ev s) = ev_set ev OR s"
  "event_idle ev \<Longrightarrow> event_idle (event_post ev s)"
  by (auto simp: event_post_def rt_event_send_def event_idle_def)

interpretation ev_flags: event_flags event_idle ev_set event_post event_poll
proof (unfold_locales, goal_cases)
  case (1 e s)
  then show ?case by (rule event_post_simps)
next
  case (2 e s)
  then show ?case by (rule event_post_simps)
next
  case (3 e m)
  then show ?case by (simp add: event_poll_cases)
next
  case (4 e m)
  then show ?case by (simp add: event_poll_cases)
next
  case (5 e m)
  then show ?case by (simp add: event_poll_cases event_idle_def)
qed

text \<open>The event object driven by calls of its operations (a receive that waits stays on the list).\<close>

datatype event_call = Call_send u32 | Call_recv nat u8 u32 u8 "32 word" | Call_control int

fun event_step :: "rt_event \<Rightarrow> event_call \<Rightarrow> rt_event" where
  "event_step ev (Call_send s) = snd (rt_event_send ev s)"
| "event_step ev (Call_recv tid prio want option timeout) =
     (case event_result_state (rt_event_recv ev tid prio want option timeout None) of
        None \<Rightarrow> ev | Some ev' \<Rightarrow> ev')"
| "event_step ev (Call_control cmd) = snd (rt_event_control ev cmd)"

interpretation ev_machine: invariant_machine event_step event_inv
proof unfold_locales
  fix ev c
  assume "event_inv ev"
  then show "event_inv (event_step ev c)"
    by (cases c) (auto simp: event_send_inv event_control_inv intro: event_recv_inv split: option.splits)
qed

subsection \<open>Properties\<close>

text \<open>C39. No lost wake-up: after any sequence of sends, receives and resets on a new event object, no
  thread is left waiting for flags that the current set already gives it.\<close>

theorem event_no_lost_wakeup:
  assumes "t \<in> set (ev_suspend (foldl event_step (rt_event_init flag) calls))"
  shows "event_satisfied (ev_set (foldl event_step (rt_event_init flag) calls)) (event_set t) (event_info t) \<noteq> Some True"
  using ev_machine.run_inv [OF event_init_inv, of flag calls] assms
  by (simp add: event_inv_def unsatisfied_def)

theorem event_no_lost_wakeup_witness:
  "event_satisfied
     (ev_set (foldl event_step (rt_event_init 0) [Call_recv 4 10 3 1 (-1), Call_send 1])) 3 1 \<noteq> Some True"
proof -
  let ?t = "\<lparr>thread_id = 4, current_priority = 10, event_set = 3, event_info = 1\<rparr>"
  have "ev_suspend (foldl event_step (rt_event_init 0) [Call_recv 4 10 3 1 (-1), Call_send 1]) = [?t]"
    by (simp add: rt_event_init_def rt_event_recv_def event_satisfied_def RT_EVENT_FLAG_AND_def Let_def
        rt_ipc_list_suspend_def RT_IPC_FLAG_FIFO_def rt_event_send_def)
  then show ?thesis
    using event_no_lost_wakeup [of ?t 0 "[Call_recv 4 10 3 1 (-1), Call_send 1]"] by simp
qed

text \<open>A send with no flags is refused with \<open>-RT_ERROR\<close> and no change. Otherwise it returns 0, each thread it
  resumes was waiting and gets flags that it wanted and that were set, the threads that stay were
  waiting before, none of them is satisfied, and no flag appears that was not set before or sent.\<close>

lemma event_send_outcome:
  "rt_event_send ev 0 = (-1, ev)
    \<and> (s \<noteq> 0 \<longrightarrow>
        fst (rt_event_send ev s) = 0
      \<and> (\<exists>woken. ev_woken (snd (rt_event_send ev s)) = ev_woken ev @ woken
           \<and> (\<forall>(i, e, got) \<in> set woken. e = None \<and> got AND (ev_set ev OR s) = got
                \<and> (\<exists>t \<in> set (ev_suspend ev). thread_id t = i \<and> got AND event_set t = got)))
      \<and> set (ev_suspend (snd (rt_event_send ev s))) \<subseteq> set (ev_suspend ev)
      \<and> event_inv (snd (rt_event_send ev s))
      \<and> ev_set (snd (rt_event_send ev s)) AND (ev_set ev OR s) = ev_set (snd (rt_event_send ev s)))"
proof (intro conjI impI)
  show "rt_event_send ev 0 = (-1, ev)" by (simp add: rt_event_send_def)
  assume s: "s \<noteq> 0"
  let ?w = "event_wake (ev_set ev OR s) (ev_suspend ev)"
  have sb: "subbits x y \<Longrightarrow> x AND y = x" for x y :: u32
    using and_eq_want_iff [of y x] by (simp add: and.commute)
  have parts: "snd (rt_event_send ev s) =
      ev\<lparr>ev_set := fst ?w, ev_suspend := fst (snd ?w), ev_woken := ev_woken ev @ snd (snd ?w)\<rparr>"
    using s by (simp add: rt_event_send_def Let_def case_prod_unfold)
  show "fst (rt_event_send ev s) = 0" using s by (simp add: rt_event_send_def Let_def case_prod_unfold)
  show "\<exists>woken. ev_woken (snd (rt_event_send ev s)) = ev_woken ev @ woken
      \<and> (\<forall>(i, e, got) \<in> set woken. e = None \<and> got AND (ev_set ev OR s) = got
           \<and> (\<exists>t \<in> set (ev_suspend ev). thread_id t = i \<and> got AND event_set t = got))"
  proof (intro exI conjI)
    show "ev_woken (snd (rt_event_send ev s)) = ev_woken ev @ snd (snd ?w)" by (simp add: parts)
    show "\<forall>(i, e, got) \<in> set (snd (snd ?w)). e = None \<and> got AND (ev_set ev OR s) = got
           \<and> (\<exists>t \<in> set (ev_suspend ev). thread_id t = i \<and> got AND event_set t = got)"
      using event_wake_woken [of _ _ _ "ev_set ev OR s" "ev_suspend ev"] sb by blast
  qed
  show "set (ev_suspend (snd (rt_event_send ev s))) \<subseteq> set (ev_suspend ev)"
    using event_wake_unsatisfied by (auto simp: parts)
  show "event_inv (snd (rt_event_send ev s))"
    using event_wake_unsatisfied by (auto simp: parts event_inv_def)
  show "ev_set (snd (rt_event_send ev s)) AND (ev_set ev OR s) = ev_set (snd (rt_event_send ev s))"
    using sb [OF event_wake_shrinks] by (simp add: parts)
qed

text \<open>Polled flags coalesce and are consumed once: when nobody waits and no flag is set, a poll after
  any sends returns exactly the wanted bits among all bits sent, and the next poll for the same mask
  finds none of them.\<close>

lemma event_poll_coalesces:
  assumes "event_idle ev" "ev_set ev = 0" "foldl (OR) 0 ss AND m \<noteq> 0"
  shows "fst (event_poll (foldl event_post ev ss) m) = Some (foldl (OR) 0 ss AND m)
    \<and> fst (event_poll (snd (event_poll (foldl event_post ev ss) m)) m) = None"
  using ev_flags.fetch_posted [OF assms] ev_flags.fetch_twice [of "foldl event_post ev ss" m]
    ev_flags.post_all [OF assms(1), of ss]
  by simp

end
