(* ===== verification/RtMutex.thy ===== *)
theory RtMutex
  imports RtMq
begin

text \<open>
  The kernel mutex of \<open>rt-thread/src/ipc.c\<close> (\<open>rt_mutex_*\<close>): a recursive lock with a 16-bit value, an 8-bit hold
  count and priority inheritance. The display thread and the player each create one in FIFO mode. The
  state holds all mutexes and the current priority of every thread, because a take raises the priority of the
  thread that owns the mutex. A take that has to wait leaves its thread in the list; \<open>rt_mutex_release\<close>
  hands the mutex to the first one, and the code after \<open>rt_schedule\<close> for any other wake-up is
  \<open>mutex_resume\<close>.
\<close>

subsection \<open>State\<close>

record rt_mutex =
  mx_flag :: u8
  mx_value :: u16
  mx_original_priority :: u8
  mx_hold :: u8
  mx_owner :: "nat option"
  mx_suspend_thread :: "nat list"

record mutex_sys =
  mutexes :: "nat \<Rightarrow> rt_mutex"
  priority :: "nat \<Rightarrow> u8"
  thread_error :: "nat \<Rightarrow> rt_err"

definition set_mutex :: "nat \<Rightarrow> rt_mutex \<Rightarrow> mutex_sys \<Rightarrow> mutex_sys" where
  "set_mutex m x s = s\<lparr>mutexes := (mutexes s)(m := x)\<rparr>"

text \<open>\<open>rt_thread_control(t, RT_THREAD_CTRL_CHANGE_PRIORITY, \<dots>)\<close>, as far as the mutex sees it.\<close>

definition change_priority :: "nat \<Rightarrow> u8 \<Rightarrow> mutex_sys \<Rightarrow> mutex_sys" where
  "change_priority t p s = s\<lparr>priority := (priority s)(t := p)\<rparr>"

definition set_error :: "nat \<Rightarrow> rt_err \<Rightarrow> mutex_sys \<Rightarrow> mutex_sys" where
  "set_error t e s = s\<lparr>thread_error := (thread_error s)(t := e)\<rparr>"

subsection \<open>Operations\<close>

definition rt_mutex_init :: "u8 \<Rightarrow> rt_mutex" where
  "rt_mutex_init flag = \<lparr>mx_flag = flag, mx_value = 1, mx_original_priority = 0xFF, mx_hold = 0, mx_owner = None,
     mx_suspend_thread = []\<rparr>"

definition rt_mutex_create :: "bool \<Rightarrow> u8 \<Rightarrow> rt_mutex option" where
  "rt_mutex_create object_ok flag =
     (if \<not> object_ok then None
      else Some \<lparr>mx_flag = flag, mx_value = 1, mx_original_priority = 0xFF, mx_hold = 0, mx_owner = None,
                 mx_suspend_thread = []\<rparr>)"

definition thread_of :: "mutex_sys \<Rightarrow> nat \<Rightarrow> rt_thread" where
  "thread_of s t = \<lparr>thread_id = t, current_priority = priority s t\<rparr>"

definition mutex_suspend :: "mutex_sys \<Rightarrow> nat list \<Rightarrow> nat \<Rightarrow> u8 \<Rightarrow> nat list" where
  "mutex_suspend s ts t flag =
     map thread_id (rt_ipc_list_suspend (map (thread_of s) ts) (thread_of s t) flag)"

datatype take_result = Taken mutex_sys | Take_timeout mutex_sys | Take_waits mutex_sys | Take_fault

text \<open>From the label \<open>__again\<close> on; a value of 0 without an owner would be a null access.\<close>

definition mutex_again :: "nat \<Rightarrow> nat \<Rightarrow> int \<Rightarrow> mutex_sys \<Rightarrow> take_result" where
  "mutex_again t m time s =
     (let x = mutexes s m
      in if mx_value x > 0
         then Taken (set_mutex m (x\<lparr>mx_value := mx_value x - 1, mx_owner := Some t,
                                    mx_original_priority := priority s t, mx_hold := mx_hold x + 1\<rparr>) s)
         else if time = 0 then Take_timeout (set_error t RT_ETIMEOUT s)
         else (case mx_owner x of
                 None \<Rightarrow> Take_fault
               | Some ow \<Rightarrow>
                   let s = (if priority s t < priority s ow then change_priority ow (priority s t) s else s)
                   in Take_waits (set_mutex m
                        (x\<lparr>mx_suspend_thread := mutex_suspend s (mx_suspend_thread x) t (mx_flag x)\<rparr>) s)))"

definition rt_mutex_take :: "nat \<Rightarrow> nat \<Rightarrow> int \<Rightarrow> mutex_sys \<Rightarrow> take_result" where
  "rt_mutex_take t m time s =
     (let x = mutexes s m; s = set_error t RT_EOK s
      in if mx_owner x = Some t then Taken (set_mutex m (x\<lparr>mx_hold := mx_hold x + 1\<rparr>) s)
         else mutex_again t m time s)"

text \<open>
  A timeout, a signal or the detaching of the mutex takes a waiting thread off the list and sets its error; a
  release takes it off without touching the error. The code after \<open>rt_schedule\<close> is \<open>mutex_resume\<close>:
  \<open>-RT_EINTR\<close> tries again, any other error is returned.
\<close>

definition mutex_wake :: "nat \<Rightarrow> nat \<Rightarrow> rt_err \<Rightarrow> mutex_sys \<Rightarrow> mutex_sys" where
  "mutex_wake t m error s =
     (let x = mutexes s m in set_error t error (set_mutex m (x\<lparr>mx_suspend_thread := remove1 t (mx_suspend_thread x)\<rparr>) s))"

datatype resume_result = Resumed rt_err | Retried take_result

definition mutex_resume :: "nat \<Rightarrow> nat \<Rightarrow> int \<Rightarrow> mutex_sys \<Rightarrow> resume_result" where
  "mutex_resume t m time s =
     (if thread_error s t \<noteq> RT_EOK
      then if thread_error s t = RT_EINTR then Retried (mutex_again t m time s) else Resumed (thread_error s t)
      else Resumed RT_EOK)"

definition rt_mutex_release :: "nat \<Rightarrow> nat \<Rightarrow> mutex_sys \<Rightarrow> rt_err \<times> mutex_sys" where
  "rt_mutex_release t m s =
     (let x = mutexes s m
      in if mx_owner x \<noteq> Some t then (RT_ERROR, set_error t RT_ERROR s)
      else
        let x = x\<lparr>mx_hold := mx_hold x - 1\<rparr>
        in if mx_hold x \<noteq> 0 then (RT_EOK, set_mutex m x s)
        else
          let s = (if mx_original_priority x \<noteq> priority s t then change_priority t (mx_original_priority x) s else s)
          in (case mx_suspend_thread x of
                w # ws \<Rightarrow>
                  (RT_EOK, set_mutex m (x\<lparr>mx_owner := Some w, mx_original_priority := priority s w,
                                          mx_hold := mx_hold x + 1, mx_suspend_thread := ws\<rparr>) s)
              | [] \<Rightarrow>
                  (RT_EOK, set_mutex m (x\<lparr>mx_value := mx_value x + 1, mx_owner := None,
                                          mx_original_priority := 0xFF\<rparr>) s)))"

definition rt_mutex_detach :: "nat \<Rightarrow> mutex_sys \<Rightarrow> (nat \<times> int option) list \<times> mutex_sys" where
  "rt_mutex_detach m s =
     (let x = mutexes s m; (ts, woken) = rt_ipc_list_resume_all (map (thread_of s) (mx_suspend_thread x))
      in (woken, set_mutex m (x\<lparr>mx_suspend_thread := map thread_id ts\<rparr>) s))"

definition rt_mutex_control :: "int \<Rightarrow> rt_err" where
  "rt_mutex_control cmd = RT_ERROR"

subsection \<open>Specification: a recursive lock with a queue\<close>

record lock_spec =
  locked_by :: "(nat \<times> nat) option"
  queue :: "nat list"

definition spec_take :: "nat \<Rightarrow> nat list \<Rightarrow> lock_spec \<Rightarrow> lock_spec" where
  "spec_take t q l =
     (case locked_by l of
        None \<Rightarrow> l\<lparr>locked_by := Some (t, 1)\<rparr>
      | Some (ow, n) \<Rightarrow> if ow = t then l\<lparr>locked_by := Some (t, n + 1)\<rparr> else l\<lparr>queue := q\<rparr>)"

definition spec_release :: "nat \<Rightarrow> lock_spec \<Rightarrow> lock_spec" where
  "spec_release t l =
     (case locked_by l of
        None \<Rightarrow> l
      | Some (ow, n) \<Rightarrow>
          if ow \<noteq> t then l
          else if n > 1 then l\<lparr>locked_by := Some (t, n - 1)\<rparr>
          else (case queue l of [] \<Rightarrow> l\<lparr>locked_by := None\<rparr> | w # ws \<Rightarrow> l\<lparr>locked_by := Some (w, 1), queue := ws\<rparr>))"

text \<open>The mutex represents the lock, as long as the owner has taken it fewer than 256 times.\<close>

definition represents :: "rt_mutex \<Rightarrow> lock_spec \<Rightarrow> bool" where
  "represents x l \<longleftrightarrow> mx_suspend_thread x = queue l \<and> distinct (queue l) \<and>
     (case locked_by l of
        None \<Rightarrow> mx_value x = 1 \<and> mx_owner x = None \<and> mx_hold x = 0 \<and> queue l = []
      | Some (t, n) \<Rightarrow> mx_value x = 0 \<and> mx_owner x = Some t \<and> 0 < n \<and> n < 256 \<and> mx_hold x = of_nat n \<and> t \<notin> set (queue l))"

lemma mutex_suspend_set:
  assumes "flag = RT_IPC_FLAG_FIFO \<or> flag = RT_IPC_FLAG_PRIO"
  shows "mset (mutex_suspend s ts t flag) = add_mset t (mset ts)"
proof -
  have "map (thread_id \<circ> thread_of s) ts = ts" for ts
    by (induction ts) (simp_all add: thread_of_def)
  then have ids: "image_mset thread_id (mset (map (thread_of s) ts)) = mset ts"
    by (metis map_map mset_map)
  show ?thesis
    using assms ids set_insert_prio [of "thread_of s t" "map (thread_of s) ts"]
    by (auto simp: mutex_suspend_def rt_ipc_list_suspend_def mset_map thread_of_def)
qed

lemma mutex_suspend_distinct:
  assumes "flag = RT_IPC_FLAG_FIFO \<or> flag = RT_IPC_FLAG_PRIO" "distinct ts" "t \<notin> set ts"
  shows "distinct (mutex_suspend s ts t flag)" "set (mutex_suspend s ts t flag) = insert t (set ts)"
proof -
  have m: "mset (mutex_suspend s ts t flag) = mset (t # ts)"
    using mutex_suspend_set [OF assms(1)] by simp
  show "distinct (mutex_suspend s ts t flag)"
    using assms(2,3) mset_eq_imp_distinct_iff [OF m] by simp
  show "set (mutex_suspend s ts t flag) = insert t (set ts)"
    using mset_eq_setD [OF m] by simp
qed

lemma mutexes_set [simp]:
  "mutexes (set_mutex m x s) = (mutexes s)(m := x)" "priority (set_mutex m x s) = priority s"
  "mutexes (change_priority t p s) = mutexes s" "priority (change_priority t p s) = (priority s)(t := p)"
  "mutexes (set_error t e s) = mutexes s" "priority (set_error t e s) = priority s"
  "thread_error (set_error t e s) = (thread_error s)(t := e)" "thread_error (set_mutex m x s) = thread_error s"
  "thread_error (change_priority t p s) = thread_error s"
  by (simp_all add: set_mutex_def change_priority_def set_error_def)

lemma hold_less: "n < 256 \<Longrightarrow> (of_nat n :: u8) = 0 \<longleftrightarrow> n = 0"
  by (simp add: word_of_nat_eq_0_iff dvd_eq_mod_eq_0)

lemma release_refines:
  assumes r: "represents (mutexes s m) l"
  shows "represents (mutexes (snd (rt_mutex_release t m s)) m) (spec_release t l)
    \<and> fst (rt_mutex_release t m s) = (if \<exists>n. locked_by l = Some (t, n) then RT_EOK else RT_ERROR)"
proof (cases "\<exists>n. locked_by l = Some (t, n)")
  case False
  then have "mx_owner (mutexes s m) \<noteq> Some t"
    using r by (auto simp: represents_def split: option.splits)
  then show ?thesis
    using r False by (auto simp: rt_mutex_release_def spec_release_def Let_def split: option.split)
next
  case True
  then obtain n where n: "locked_by l = Some (t, n)" by blast
  then have x: "mx_value (mutexes s m) = 0" "mx_owner (mutexes s m) = Some t" "0 < n" "n < 256" "mx_hold (mutexes s m) = of_nat n"
      "t \<notin> set (queue l)" "mx_suspend_thread (mutexes s m) = queue l" "distinct (queue l)"
    using r by (simp_all add: represents_def)
  have hold: "mx_hold (mutexes s m) - 1 = of_nat (n - 1)"
    using x(3,5) by (simp add: of_nat_diff)
  show ?thesis
  proof (cases "n = 1")
    case True
    then show ?thesis
      using x n by (cases "queue l") (auto simp: rt_mutex_release_def Let_def spec_release_def represents_def)
  next
    case False
    then have "(of_nat (n - 1) :: u8) \<noteq> 0"
      using hold_less [of "n - 1"] x(3,4) by simp
    then show ?thesis
      using x n False hold by (simp add: rt_mutex_release_def Let_def spec_release_def represents_def)
  qed
qed

lemma take_refines:
  assumes r: "represents (mutexes s m) l"
    and flag: "mx_flag (mutexes s m) = RT_IPC_FLAG_FIFO \<or> mx_flag (mutexes s m) = RT_IPC_FLAG_PRIO"
    and run: "t \<notin> set (queue l)" and depth: "\<forall>n. locked_by l = Some (t, n) \<longrightarrow> n < 255"
  shows "case rt_mutex_take t m time s of
      Taken s' \<Rightarrow> (\<forall>q. represents (mutexes s' m) (spec_take t q l)) \<and> mx_owner (mutexes s' m) = Some t
        \<and> (\<forall>ow n. locked_by l = Some (ow, n) \<longrightarrow> ow = t)
    | Take_timeout s' \<Rightarrow> mutexes s' = mutexes s \<and> time = 0 \<and> (\<exists>ow n. locked_by l = Some (ow, n) \<and> ow \<noteq> t)
    | Take_waits s' \<Rightarrow> time \<noteq> 0 \<and> (\<exists>q. mset q = add_mset t (mset (queue l)) \<and> represents (mutexes s' m) (spec_take t q l)
        \<and> (\<exists>ow n. locked_by l = Some (ow, n) \<and> ow \<noteq> t))
    | Take_fault \<Rightarrow> False"
proof (cases "locked_by l")
  case None
  then show ?thesis
    using r by (simp add: represents_def rt_mutex_take_def mutex_again_def Let_def spec_take_def)
next
  case (Some on)
  obtain ow n where on: "locked_by l = Some (ow, n)" using Some by (cases on) simp
  then have x: "mx_value (mutexes s m) = 0" "mx_owner (mutexes s m) = Some ow" "0 < n" "n < 256" "mx_hold (mutexes s m) = of_nat n"
      "ow \<notin> set (queue l)" "mx_suspend_thread (mutexes s m) = queue l" "distinct (queue l)"
    using r by (simp_all add: represents_def)
  show ?thesis
  proof (cases "ow = t")
    case True
    then show ?thesis
      using x on depth by (simp add: rt_mutex_take_def Let_def represents_def spec_take_def)
  next
    case False
    let ?r = "set_error t RT_EOK s"
    let ?s = "if priority s t < priority s ow then change_priority ow (priority s t) ?r else ?r"
    let ?q = "mutex_suspend ?s (queue l) t (mx_flag (mutexes s m))"
    have q: "mset ?q = add_mset t (mset (queue l))" "distinct ?q" "set ?q = insert t (set (queue l))"
      using mutex_suspend_set [OF flag] mutex_suspend_distinct [OF flag x(8) run] by blast+
    have mx: "mutexes ?s = mutexes s" by simp
    have take: "rt_mutex_take t m time s = (if time = 0 then Take_timeout (set_error t RT_ETIMEOUT ?r)
        else Take_waits (set_mutex m ((mutexes s m)\<lparr>mx_suspend_thread := ?q\<rparr>) ?s))"
      using x False by (simp add: rt_mutex_take_def mutex_again_def Let_def)
    have "represents ((mutexes s m)\<lparr>mx_suspend_thread := ?q\<rparr>) (l\<lparr>queue := ?q\<rparr>)"
      using x on q False by (simp add: represents_def)
    then show ?thesis
      using take on False q(1) by (auto simp: spec_take_def)
  qed
qed

subsection \<open>Priority inheritance\<close>

fun take_state :: "take_result \<Rightarrow> mutex_sys option" where
  "take_state (Taken s) = Some s"
| "take_state (Take_timeout s) = Some s"
| "take_state (Take_waits s) = Some s"
| "take_state Take_fault = None"

text \<open>
  The threads use one mutex: a thread that does not wait takes or releases it, one that waits is woken with an error,
  and one woken by a signal tries again, unless it has been handed the mutex since.
\<close>

inductive mutex_move :: "nat \<Rightarrow> mutex_sys \<Rightarrow> mutex_sys \<Rightarrow> bool" for m where
  take: "t \<notin> set (mx_suspend_thread (mutexes s m)) \<Longrightarrow> take_state (rt_mutex_take t m time s) = Some s' \<Longrightarrow> mutex_move m s s'"
| release: "t \<notin> set (mx_suspend_thread (mutexes s m)) \<Longrightarrow> mutex_move m s (snd (rt_mutex_release t m s))"
| wake: "t \<in> set (mx_suspend_thread (mutexes s m)) \<Longrightarrow> mutex_move m s (mutex_wake t m error s)"
| retry: "t \<notin> set (mx_suspend_thread (mutexes s m)) \<Longrightarrow> mx_owner (mutexes s m) \<noteq> Some t \<Longrightarrow>
    mutex_resume t m time s = Retried r \<Longrightarrow> take_state r = Some s' \<Longrightarrow> mutex_move m s s'"

definition mutex_ok :: "rt_mutex \<Rightarrow> bool" where
  "mutex_ok x \<longleftrightarrow> distinct (mx_suspend_thread x) \<and>
     (case mx_owner x of
        None \<Rightarrow> mx_value x = 1 \<and> mx_hold x = 0 \<and> mx_suspend_thread x = []
      | Some ow \<Rightarrow> mx_value x = 0 \<and> ow \<notin> set (mx_suspend_thread x))"

definition inherits :: "(nat \<Rightarrow> u8) \<Rightarrow> nat \<Rightarrow> mutex_sys \<Rightarrow> bool" where
  "inherits base m s \<longleftrightarrow> (let x = mutexes s m in mutex_ok x \<and> mx_flag x = RT_IPC_FLAG_PRIO
     \<and> (\<forall>t. mx_owner x \<noteq> Some t \<longrightarrow> priority s t = base t)
     \<and> (\<forall>ow. mx_owner x = Some ow \<longrightarrow> mx_original_priority x = base ow \<and> priority s ow \<le> base ow
          \<and> (\<forall>w \<in> set (mx_suspend_thread x). priority s ow \<le> base w))
     \<and> sorted_wrt (\<lambda>a b. base a \<le> base b) (mx_suspend_thread x))"

lemma mutex_suspend_sorted:
  assumes "sorted_wrt (\<lambda>a b. base a \<le> base b) ts" "\<forall>w \<in> insert t (set ts). priority s w = base w"
  shows "sorted_wrt (\<lambda>a b. base a \<le> base b) (mutex_suspend s ts t RT_IPC_FLAG_PRIO)"
proof -
  have flags: "RT_IPC_FLAG_PRIO \<noteq> RT_IPC_FLAG_FIFO"
    by (simp add: RT_IPC_FLAG_PRIO_def RT_IPC_FLAG_FIFO_def)
  have "sorted_wrt (\<lambda>a b. current_priority a \<le> current_priority b) (map (thread_of s) ts)"
    unfolding sorted_wrt_map
    by (rule sorted_wrt_mono_rel [OF _ assms(1)]) (use assms(2) in \<open>simp add: thread_of_def\<close>)
  then have srt: "sorted_wrt (\<lambda>a b. current_priority a \<le> current_priority b) (insert_prio (thread_of s t) (map (thread_of s) ts))"
    by (rule sorted_insert_prio)
  have of_s: "current_priority x = base (thread_id x)"
    if "x \<in> set (insert_prio (thread_of s t) (map (thread_of s) ts))" for x
  proof -
    have "set (insert_prio (thread_of s t) (map (thread_of s) ts)) = insert (thread_of s t) (thread_of s ` set ts)"
      using arg_cong [OF set_insert_prio [of "thread_of s t" "map (thread_of s) ts"], of set_mset] by simp
    then show ?thesis using that assms(2) by (auto simp: thread_of_def)
  qed
  have "sorted_wrt (\<lambda>a b. base (thread_id a) \<le> base (thread_id b)) (insert_prio (thread_of s t) (map (thread_of s) ts))"
    by (rule sorted_wrt_mono_rel [OF _ srt]) (simp add: of_s)
  then show ?thesis
    using flags by (simp add: mutex_suspend_def rt_ipc_list_suspend_def sorted_wrt_map)
qed

lemma inherits_again:
  assumes i: "inherits base m s" and t: "t \<notin> set (mx_suspend_thread (mutexes s m))" "mx_owner (mutexes s m) \<noteq> Some t"
    and r: "take_state (mutex_again t m time s) = Some s'"
  shows "inherits base m s'"
proof (cases "mx_owner (mutexes s m)")
  case None
  then have x: "mx_value (mutexes s m) = 1" "mx_suspend_thread (mutexes s m) = []"
    using i by (simp_all add: inherits_def Let_def mutex_ok_def)
  then have "s' = set_mutex m ((mutexes s m)\<lparr>mx_value := 0, mx_owner := Some t, mx_original_priority := priority s t,
      mx_hold := mx_hold (mutexes s m) + 1\<rparr>) s"
    using r by (simp add: mutex_again_def Let_def)
  then show ?thesis
    using i None x by (auto simp: inherits_def Let_def mutex_ok_def)
next
  case (Some ow)
  then have x: "mx_value (mutexes s m) = 0" "ow \<notin> set (mx_suspend_thread (mutexes s m))" "distinct (mx_suspend_thread (mutexes s m))"
      "mx_flag (mutexes s m) = RT_IPC_FLAG_PRIO" "\<forall>u. u \<noteq> ow \<longrightarrow> priority s u = base u"
      "mx_original_priority (mutexes s m) = base ow" "priority s ow \<le> base ow"
      "\<forall>w \<in> set (mx_suspend_thread (mutexes s m)). priority s ow \<le> base w"
      "sorted_wrt (\<lambda>a b. base a \<le> base b) (mx_suspend_thread (mutexes s m))"
    using i by (simp_all add: inherits_def Let_def mutex_ok_def)
  have tow: "t \<noteq> ow" using t(2) Some by simp
  let ?s = "if priority s t < priority s ow then change_priority ow (priority s t) s else s"
  let ?q = "mutex_suspend ?s (mx_suspend_thread (mutexes s m)) t RT_IPC_FLAG_PRIO"
  show ?thesis
  proof (cases "time = 0")
    case True
    then have "s' = set_error t RT_ETIMEOUT s" using r x(1) by (simp add: mutex_again_def Let_def)
    then show ?thesis using i by (simp add: inherits_def)
  next
    case False
    have s': "s' = set_mutex m ((mutexes s m)\<lparr>mx_suspend_thread := ?q\<rparr>) ?s"
      using r x(1,4) Some False by (simp add: mutex_again_def Let_def)
    have q: "distinct ?q" "set ?q = insert t (set (mx_suspend_thread (mutexes s m)))"
      using mutex_suspend_distinct [OF _ x(3) t(1)] by blast+
    have pr: "priority ?s u = base u" if "u \<noteq> ow" for u
      using x(5) that by simp
    have "\<forall>w \<in> insert t (set (mx_suspend_thread (mutexes s m))). priority ?s w = base w"
    proof
      fix w assume "w \<in> insert t (set (mx_suspend_thread (mutexes s m)))"
      then have "w \<noteq> ow" using x(2) tow by blast
      then show "priority ?s w = base w" by (rule pr)
    qed
    from mutex_suspend_sorted [OF x(9) this] have "sorted_wrt (\<lambda>a b. base a \<le> base b) ?q" .
    moreover have "priority ?s ow \<le> base ow" "\<forall>w \<in> set ?q. priority ?s ow \<le> base w"
      unfolding q(2) using x(5,7,8) tow by auto
    ultimately show ?thesis
      using q x(1,2,4,6) Some pr tow unfolding s' by (simp add: inherits_def Let_def mutex_ok_def)
  qed
qed

lemma inherits_take:
  assumes i: "inherits base m s" and t: "t \<notin> set (mx_suspend_thread (mutexes s m))"
    and r: "take_state (rt_mutex_take t m time s) = Some s'"
  shows "inherits base m s'"
proof (cases "mx_owner (mutexes s m) = Some t")
  case True
  then have "s' = set_mutex m ((mutexes s m)\<lparr>mx_hold := mx_hold (mutexes s m) + 1\<rparr>) (set_error t RT_EOK s)"
    using r by (simp add: rt_mutex_take_def Let_def)
  then show ?thesis
    using i True by (simp add: inherits_def Let_def mutex_ok_def)
next
  case False
  have "inherits base m (set_error t RT_EOK s)"
    using i by (simp add: inherits_def)
  from inherits_again [OF this, of t time s'] show ?thesis
    using t r False by (simp add: rt_mutex_take_def Let_def)
qed

lemma inherits_release:
  assumes i: "inherits base m s"
  shows "inherits base m (snd (rt_mutex_release t m s))"
proof (cases "mx_owner (mutexes s m) = Some t")
  case False
  then show ?thesis using i by (simp add: rt_mutex_release_def Let_def inherits_def)
next
  case True
  then have x: "mx_value (mutexes s m) = 0" "t \<notin> set (mx_suspend_thread (mutexes s m))" "distinct (mx_suspend_thread (mutexes s m))"
      "mx_flag (mutexes s m) = RT_IPC_FLAG_PRIO" "\<forall>u. u \<noteq> t \<longrightarrow> priority s u = base u"
      "mx_original_priority (mutexes s m) = base t" "sorted_wrt (\<lambda>a b. base a \<le> base b) (mx_suspend_thread (mutexes s m))"
      "priority s t \<le> base t" "\<forall>w \<in> set (mx_suspend_thread (mutexes s m)). priority s t \<le> base w"
    using i by (simp_all add: inherits_def Let_def mutex_ok_def)
  show ?thesis
  proof (cases "mx_hold (mutexes s m) - 1 = 0")
    case False
    then show ?thesis
      using True x by (simp add: rt_mutex_release_def Let_def inherits_def mutex_ok_def)
  next
    case hold: True
    let ?p = "if base t \<noteq> priority s t then change_priority t (base t) s else s"
    have pr: "priority ?p u = base u" for u
      using x(5) by (cases "u = t") simp_all
    show ?thesis
    proof (cases "mx_suspend_thread (mutexes s m)")
      case Nil
      let ?x = "(mutexes s m)\<lparr>mx_hold := mx_hold (mutexes s m) - 1, mx_value := mx_value (mutexes s m) + 1, mx_owner := None,
          mx_original_priority := 0xFF\<rparr>"
      have "mutex_ok ?x" "mx_flag ?x = RT_IPC_FLAG_PRIO" "mx_owner ?x = None" "mx_suspend_thread ?x = []"
        using Nil x(1,4) hold by (simp_all add: mutex_ok_def)
      moreover have "snd (rt_mutex_release t m s) = set_mutex m ?x ?p"
        using True Nil hold x(6) by (simp add: rt_mutex_release_def Let_def)
      ultimately show ?thesis
        unfolding inherits_def Let_def using pr by simp
    next
      case (Cons w ws)
      let ?x = "(mutexes s m)\<lparr>mx_owner := Some w, mx_original_priority := base w,
          mx_hold := mx_hold (mutexes s m) - 1 + 1, mx_suspend_thread := ws\<rparr>"
      have "mutex_ok ?x" "mx_flag ?x = RT_IPC_FLAG_PRIO" "mx_owner ?x = Some w" "mx_original_priority ?x = base w"
          "mx_suspend_thread ?x = ws"
        using Cons x(1-4) hold by (simp_all add: mutex_ok_def)
      moreover have "snd (rt_mutex_release t m s) = set_mutex m ?x ?p"
        using True Cons hold x(2,6) pr [of w] by (auto simp: rt_mutex_release_def Let_def)
      moreover have "sorted_wrt (\<lambda>a b. base a \<le> base b) ws" "\<forall>v \<in> set ws. base w \<le> base v"
        using Cons x(7) by simp_all
      ultimately show ?thesis
        unfolding inherits_def Let_def using pr by simp
    qed
  qed
qed

lemma inherits_wake:
  assumes "inherits base m s"
  shows "inherits base m (mutex_wake t m error s)"
proof -
  have "set (remove1 t xs) \<subseteq> set xs" for xs :: "nat list"
    by (rule set_remove1_subset)
  moreover have "sorted_wrt P (remove1 t xs)" if "sorted_wrt P xs" for P and xs :: "nat list"
    using that by (induction xs) (auto dest: in_set_remove1 [THEN iffD1, rotated] notin_set_remove1 set_remove1_subset [THEN subsetD])
  ultimately show ?thesis
    using assms by (auto simp: mutex_wake_def inherits_def Let_def mutex_ok_def split: option.splits)
qed

lemma inherits_move: "mutex_move m s s' \<Longrightarrow> inherits base m s \<Longrightarrow> inherits base m s'"
proof (induction rule: mutex_move.induct)
  case (take t s time s')
  then show ?case using inherits_take by blast
next
  case (release t s)
  then show ?case using inherits_release by blast
next
  case (wake t s error)
  then show ?case using inherits_wake by blast
next
  case (retry t s time r s')
  have "r = mutex_again t m time s"
    using retry.hyps(3) by (simp add: mutex_resume_def split: if_splits)
  then show ?case
    using inherits_again [OF retry.prems retry.hyps(1,2)] retry.hyps(4) by blast
qed

interpretation mutex_inheritance: invariant_relation "mutex_move m" "inherits base m"
  by unfold_locales (rule inherits_move)


lemma inherits_start:
  "mutexes s m = rt_mutex_init RT_IPC_FLAG_PRIO \<Longrightarrow> inherits (priority s) m s"
  by (simp add: inherits_def Let_def mutex_ok_def rt_mutex_init_def)

subsection \<open>Wake-ups with a stale error\<close>

text \<open>
  A thread woken by a signal tries again without clearing its error. When it then waits, is handed the mutex and runs,
  it finds the old error, tries a third time, and waits for the mutex it owns.
\<close>

lemma mutex_signal_self_wait:
  assumes "thread_error s t = RT_EINTR" "mx_owner (mutexes s m) = Some ow" "ow \<noteq> t" "mx_value (mutexes s m) = 0"
    "mx_hold (mutexes s m) = 1" "mx_suspend_thread (mutexes s m) = []" "time \<noteq> 0" "mx_flag (mutexes s m) = RT_IPC_FLAG_FIFO"
  shows "\<exists>s1 s2 s3. mutex_resume t m time s = Retried (Take_waits s1)
    \<and> rt_mutex_release ow m s1 = (RT_EOK, s2) \<and> mx_owner (mutexes s2 m) = Some t
    \<and> mutex_resume t m time s2 = Retried (Take_waits s3)
    \<and> mx_owner (mutexes s3 m) = Some t \<and> mx_suspend_thread (mutexes s3 m) = [t]"
proof -
  have q: "mutex_suspend s' [] t RT_IPC_FLAG_FIFO = [t]" for s'
    by (simp add: mutex_suspend_def rt_ipc_list_suspend_def thread_of_def)
  show ?thesis
    using assms q by (simp add: mutex_resume_def mutex_again_def rt_mutex_release_def Let_def)
qed

subsection \<open>Properties\<close>

text \<open>C34. The mutex is a recursive lock: a take by a thread that does not wait gets it exactly if it is free or its own, fails
  at once exactly if it may not wait, and queues the thread otherwise; a release gives it up, or one level of it, or
  hands it to the first waiter, and fails exactly for a thread that does not own it. The depth stays below 256.\<close>

theorem mutex_recursive_lock:
  assumes "represents (mutexes s m) l" and "mx_flag (mutexes s m) = RT_IPC_FLAG_FIFO \<or> mx_flag (mutexes s m) = RT_IPC_FLAG_PRIO"
    and "t \<notin> set (queue l)" and "\<forall>n. locked_by l = Some (t, n) \<longrightarrow> n < 255"
  shows "(case rt_mutex_take t m time s of
      Taken s' \<Rightarrow> (\<forall>q. represents (mutexes s' m) (spec_take t q l)) \<and> mx_owner (mutexes s' m) = Some t
        \<and> (\<forall>ow n. locked_by l = Some (ow, n) \<longrightarrow> ow = t)
    | Take_timeout s' \<Rightarrow> mutexes s' = mutexes s \<and> time = 0 \<and> (\<exists>ow n. locked_by l = Some (ow, n) \<and> ow \<noteq> t)
    | Take_waits s' \<Rightarrow> time \<noteq> 0 \<and> (\<exists>q. mset q = add_mset t (mset (queue l)) \<and> represents (mutexes s' m) (spec_take t q l)
        \<and> (\<exists>ow n. locked_by l = Some (ow, n) \<and> ow \<noteq> t))
    | Take_fault \<Rightarrow> False)
    \<and> represents (mutexes (snd (rt_mutex_release t m s)) m) (spec_release t l)
    \<and> fst (rt_mutex_release t m s) = (if \<exists>n. locked_by l = Some (t, n) then RT_EOK else RT_ERROR)"
  using take_refines [OF assms, of time] release_refines [OF assms(1), of t] by blast

definition example_mutex_sys :: mutex_sys where
  "example_mutex_sys = \<lparr>mutexes = (\<lambda>_. \<lparr>mx_flag = RT_IPC_FLAG_FIFO, mx_value = 0, mx_original_priority = 20, mx_hold = 1,
      mx_owner = Some 1, mx_suspend_thread = [2, 3]\<rparr>), priority = (\<lambda>t. if t = 1 then 5 else if t = 2 then 15 else 5),
      thread_error = (\<lambda>_. RT_EOK)\<rparr>"

definition example_lock :: lock_spec where
  "example_lock = \<lparr>locked_by = Some (1, 1), queue = [2, 3]\<rparr>"

lemma example_represents: "represents (mutexes example_mutex_sys m) example_lock"
  by (simp add: represents_def example_mutex_sys_def example_lock_def)

theorem mutex_recursive_lock_witness:
  "(\<exists>s'. rt_mutex_take 4 0 (- 1) example_mutex_sys = Take_waits s')
    \<and> fst (rt_mutex_release 1 0 example_mutex_sys) = RT_EOK \<and> fst (rt_mutex_release 4 0 example_mutex_sys) = RT_ERROR"
proof -
  have flag: "mx_flag (mutexes example_mutex_sys 0) = RT_IPC_FLAG_FIFO \<or> mx_flag (mutexes example_mutex_sys 0) = RT_IPC_FLAG_PRIO"
    by (simp add: example_mutex_sys_def)
  have q4: "4 \<notin> set (queue example_lock)" and q1: "1 \<notin> set (queue example_lock)"
    and d: "\<forall>n. locked_by example_lock = Some (4, n) \<longrightarrow> n < 255" "\<forall>n. locked_by example_lock = Some (1, n) \<longrightarrow> n < 255"
    and l: "locked_by example_lock = Some (1, 1)"
    by (simp_all add: example_lock_def)
  note four = mutex_recursive_lock [OF example_represents flag q4 d(1), of "- 1"]
    and one = mutex_recursive_lock [OF example_represents flag q1 d(2), of "- 1"]
  have "\<exists>s'. rt_mutex_take 4 0 (- 1) example_mutex_sys = Take_waits s'"
    using four l by (cases "rt_mutex_take 4 0 (- 1) example_mutex_sys") auto
  then show ?thesis using four one l by auto
qed

text \<open>C35. Priority inheritance: in every run of the calls on a mutex created in priority order, its owner runs at least at
  the priority of every waiting thread and of its own, the threads that do not own it run at their own priority, and the
  waiting threads are queued by priority.\<close>

theorem mutex_inherits_priority:
  assumes "(mutex_move m)\<^sup>*\<^sup>* s0 s" "mutexes s0 m = rt_mutex_init RT_IPC_FLAG_PRIO"
  shows "(case mx_owner (mutexes s m) of
      None \<Rightarrow> mx_suspend_thread (mutexes s m) = [] \<and> priority s = priority s0
    | Some ow \<Rightarrow> priority s ow \<le> priority s0 ow \<and> (\<forall>w \<in> set (mx_suspend_thread (mutexes s m)). priority s ow \<le> priority s w)
        \<and> (\<forall>t. t \<noteq> ow \<longrightarrow> priority s t = priority s0 t))
    \<and> sorted_wrt (\<lambda>a b. priority s a \<le> priority s b) (mx_suspend_thread (mutexes s m))"
proof -
  have i: "inherits (priority s0) m s"
    by (rule mutex_inheritance.reachable_keeps [OF assms(1) inherits_start [OF assms(2)]])
  show ?thesis
  proof (cases "mx_owner (mutexes s m)")
    case None
    then show ?thesis using i by (auto simp: inherits_def Let_def mutex_ok_def)
  next
    case (Some ow)
    have base: "priority s w = priority s0 w" if "w \<in> set (mx_suspend_thread (mutexes s m))" for w
      using i Some that by (auto simp: inherits_def Let_def mutex_ok_def)
    have "sorted_wrt (\<lambda>a b. priority s0 a \<le> priority s0 b) (mx_suspend_thread (mutexes s m))"
      using i by (simp add: inherits_def Let_def)
    then have "sorted_wrt (\<lambda>a b. priority s a \<le> priority s b) (mx_suspend_thread (mutexes s m))"
      by (rule sorted_wrt_mono_rel [rotated]) (simp add: base)
    then show ?thesis
      using i Some base by (simp add: inherits_def Let_def)
  qed
qed

definition prio_mutex_sys :: mutex_sys where
  "prio_mutex_sys = \<lparr>mutexes = (\<lambda>_. rt_mutex_init RT_IPC_FLAG_PRIO), priority = (\<lambda>t. if t = 1 then 20 else 5),
      thread_error = (\<lambda>_. RT_EOK)\<rparr>"

theorem mutex_inherits_priority_witness:
  "\<exists>s1 s2. rt_mutex_take 1 0 (- 1) prio_mutex_sys = Taken s1 \<and> rt_mutex_take 2 0 (- 1) s1 = Take_waits s2
    \<and> priority s2 1 \<le> priority s2 2 \<and> priority s2 2 = 5"
proof -
  have mx: "mutexes prio_mutex_sys 0 = rt_mutex_init RT_IPC_FLAG_PRIO"
    by (simp add: prio_mutex_sys_def)
  obtain s1 where s1: "rt_mutex_take 1 0 (- 1) prio_mutex_sys = Taken s1" "mx_value (mutexes s1 0) = 0"
      "mx_owner (mutexes s1 0) = Some 1" "mx_suspend_thread (mutexes s1 0) = []" "mx_flag (mutexes s1 0) = RT_IPC_FLAG_PRIO"
    by (simp add: rt_mutex_take_def mutex_again_def Let_def mx rt_mutex_init_def)
  obtain s2 where s2: "rt_mutex_take 2 0 (- 1) s1 = Take_waits s2" "mx_owner (mutexes s2 0) = Some 1"
      "2 \<in> set (mx_suspend_thread (mutexes s2 0))"
    using s1(2-5) mutex_suspend_distinct(2) [of RT_IPC_FLAG_PRIO "[]" 2]
    by (simp add: rt_mutex_take_def mutex_again_def Let_def)
  have "mutex_move 0 prio_mutex_sys s1"
    by (rule mutex_move.take [of 1 _ _ "- 1"]) (simp_all add: mx rt_mutex_init_def s1(1) [simplified])
  moreover have "mutex_move 0 s1 s2"
    by (rule mutex_move.take [of 2 _ _ "- 1"]) (simp_all add: s1(4) s2(1) [simplified])
  ultimately have "(mutex_move 0)\<^sup>*\<^sup>* prio_mutex_sys s2" by simp
  from mutex_inherits_priority [OF this mx]
  have "\<forall>w \<in> set (mx_suspend_thread (mutexes s2 0)). priority s2 1 \<le> priority s2 w" "priority s2 2 = 5"
    unfolding s2(2) by (simp_all add: prio_mutex_sys_def)
  then show ?thesis using s1(1) s2(1,3) by blast
qed

text \<open>In FIFO order, the mode in which the application creates its mutexes, inheritance ends at the first release: the
  mutex goes to the thread that waited longest, which keeps its own priority although a thread of a higher priority
  (a smaller number) is still waiting.\<close>

lemma mutex_fifo_inversion:
  assumes "mx_owner (mutexes s m) = Some t" "mx_hold (mutexes s m) = 1" "mx_suspend_thread (mutexes s m) = w # ws"
    and "v \<in> set ws" "priority s v < priority s w" "t \<noteq> w" "t \<noteq> v"
  shows "\<exists>s'. rt_mutex_release t m s = (RT_EOK, s') \<and> mx_owner (mutexes s' m) = Some w
    \<and> v \<in> set (mx_suspend_thread (mutexes s' m)) \<and> priority s' v < priority s' w"
  using assms by (simp add: rt_mutex_release_def Let_def)

end
