(* ===== verification/IotbEvent.thy ===== *)
theory IotbEvent
  imports RtEvent
begin

text \<open>
  The event hub \<open>applications/iotb_event.c\<close>: key events are queued as messages of two enum values in a
  kernel message queue and a dispatcher thread turns each of them into one flag of the LCD thread's
  event object. The size of an enum is the compiler's choice (1 byte with short enums, as
  the ARM EABI does by default, 4 otherwise): it is the argument \<open>es\<close>.
\<close>

subsection \<open>Messages\<close>

datatype iotb_event_src =
    IOTB_EVENT_SRC_NONE | IOTB_EVENT_SRC_KEY0 | IOTB_EVENT_SRC_KEY1 | IOTB_EVENT_SRC_KEY2
  | IOTB_EVENT_SRC_KEYWKUP

datatype iotb_event_type =
    IOTB_EVENT_TYPE_NONE | IOTB_EVENT_TYPE_KEY_CLICK | IOTB_EVENT_TYPE_KEY_DOUBLE_CLICK
  | IOTB_EVENT_TYPE_KEY_SHORT_PRESSED | IOTB_EVENT_TYPE_KEY_SHORT_PRESSED_UP
  | IOTB_EVENT_TYPE_KEY_LONG_PRESSED | IOTB_EVENT_TYPE_KEY_LONG_PRESSED_UP
  | IOTB_EVENT_TYPE_KEY_LONG_HOLD | IOTB_EVENT_TYPE_KEY_LONG_HOLD_UP

record iotb_event_msg =
  event_src :: iotb_event_src
  event_type :: iotb_event_type

fun src_value :: "iotb_event_src \<Rightarrow> u8" where
  "src_value IOTB_EVENT_SRC_NONE = 0"
| "src_value IOTB_EVENT_SRC_KEY0 = 1"
| "src_value IOTB_EVENT_SRC_KEY1 = 2"
| "src_value IOTB_EVENT_SRC_KEY2 = 3"
| "src_value IOTB_EVENT_SRC_KEYWKUP = 4"

fun type_value :: "iotb_event_type \<Rightarrow> u8" where
  "type_value IOTB_EVENT_TYPE_NONE = 0"
| "type_value IOTB_EVENT_TYPE_KEY_CLICK = 1"
| "type_value IOTB_EVENT_TYPE_KEY_DOUBLE_CLICK = 2"
| "type_value IOTB_EVENT_TYPE_KEY_SHORT_PRESSED = 3"
| "type_value IOTB_EVENT_TYPE_KEY_SHORT_PRESSED_UP = 4"
| "type_value IOTB_EVENT_TYPE_KEY_LONG_PRESSED = 5"
| "type_value IOTB_EVENT_TYPE_KEY_LONG_PRESSED_UP = 6"
| "type_value IOTB_EVENT_TYPE_KEY_LONG_HOLD = 7"
| "type_value IOTB_EVENT_TYPE_KEY_LONG_HOLD_UP = 8"

definition src_of :: "u8 \<Rightarrow> iotb_event_src" where
  "src_of v = (if v = 1 then IOTB_EVENT_SRC_KEY0 else if v = 2 then IOTB_EVENT_SRC_KEY1
     else if v = 3 then IOTB_EVENT_SRC_KEY2 else if v = 4 then IOTB_EVENT_SRC_KEYWKUP
     else IOTB_EVENT_SRC_NONE)"

definition type_of :: "u8 \<Rightarrow> iotb_event_type" where
  "type_of v = (if v = 1 then IOTB_EVENT_TYPE_KEY_CLICK else if v = 2 then IOTB_EVENT_TYPE_KEY_DOUBLE_CLICK
     else if v = 3 then IOTB_EVENT_TYPE_KEY_SHORT_PRESSED else if v = 4 then IOTB_EVENT_TYPE_KEY_SHORT_PRESSED_UP
     else if v = 5 then IOTB_EVENT_TYPE_KEY_LONG_PRESSED else if v = 6 then IOTB_EVENT_TYPE_KEY_LONG_PRESSED_UP
     else if v = 7 then IOTB_EVENT_TYPE_KEY_LONG_HOLD else if v = 8 then IOTB_EVENT_TYPE_KEY_LONG_HOLD_UP
     else IOTB_EVENT_TYPE_NONE)"

text \<open>The bytes of a message in memory (little endian, both values below 256).\<close>

definition msg_bytes :: "nat \<Rightarrow> iotb_event_msg \<Rightarrow> u8 list" where
  "msg_bytes es m =
     (src_value (event_src m) # replicate (es - 1) 0) @ (type_value (event_type m) # replicate (es - 1) 0)"

definition bytes_msg :: "nat \<Rightarrow> u8 list \<Rightarrow> iotb_event_msg" where
  "bytes_msg es bs = \<lparr>event_src = src_of (bs ! 0), event_type = type_of (bs ! es)\<rparr>"

definition sizeof_msg :: "nat \<Rightarrow> u32" where
  "sizeof_msg es = of_nat (2 * es)"

definition IOTB_EVENT_MSG_NUM :: u32 where
  "IOTB_EVENT_MSG_NUM = 10"

lemma src_of_value [simp]: "src_of (src_value s) = s"
  by (cases s) (simp_all add: src_of_def)

lemma type_of_value [simp]: "type_of (type_value s) = s"
  by (cases s) (simp_all add: type_of_def)

lemma length_msg_bytes: "0 < es \<Longrightarrow> length (msg_bytes es m) = 2 * es"
  by (simp add: msg_bytes_def)

lemma bytes_msg_bytes: "0 < es \<Longrightarrow> bytes_msg es (msg_bytes es m @ rest) = m"
  by (simp add: bytes_msg_def msg_bytes_def nth_append)

subsection \<open>State and operations\<close>

record iotb_event_state =
  iotb_event_mq :: rt_messagequeue
  iotb_event_put_enable :: bool
  iotb_event_thr_cycle :: u16

definition IOTB_EVENT_THR_CYCLE :: u16 where
  "IOTB_EVENT_THR_CYCLE = 100"

text \<open>\<open>pool\<close> is the memory of the array \<open>event_msg\<close>, cut into the queue's blocks.\<close>

definition iotb_event_init ::
  "nat \<Rightarrow> (nat \<Rightarrow> nat option) \<times> (nat \<Rightarrow> u8 list) \<Rightarrow> iotb_event_state \<Rightarrow> int \<times> iotb_event_state" where
  "iotb_event_init es pool st =
     (0, st\<lparr>iotb_event_mq := rt_mq_init pool (sizeof_msg es) (IOTB_EVENT_MSG_NUM * sizeof_msg es) RT_IPC_FLAG_FIFO\<rparr>)"

definition iotb_event_put_set_enable :: "iotb_event_state \<Rightarrow> iotb_event_state" where
  "iotb_event_put_set_enable st = st\<lparr>iotb_event_put_enable := True\<rparr>"

definition iotb_event_put_set_disable :: "iotb_event_state \<Rightarrow> iotb_event_state" where
  "iotb_event_put_set_disable st = st\<lparr>iotb_event_put_enable := False\<rparr>"

text \<open>The result is the code, the milliseconds the caller sleeps, and the state; a failed queue access
  is \<open>None\<close>.\<close>

definition iotb_event_put ::
  "nat \<Rightarrow> rt_thread \<Rightarrow> iotb_event_state \<Rightarrow> iotb_event_msg \<Rightarrow> (int \<times> nat \<times> iotb_event_state) option" where
  "iotb_event_put es t st msg =
     (if \<not> iotb_event_put_enable st then Some (0, 0, st)
      else
        case rt_mq_send t (iotb_event_mq st) (msg_bytes es msg) (sizeof_msg es) of
          Got _ mq \<Rightarrow> Some (0, 0, st\<lparr>iotb_event_mq := mq\<rparr>)
        | Failed e mq \<Rightarrow>
            if e = - rt_err_value RT_EFULL then Some (- rt_err_value RT_EFULL, 100, st\<lparr>iotb_event_mq := mq\<rparr>)
            else Some (e, 0, st\<lparr>iotb_event_mq := mq\<rparr>)
        | Pending mq \<Rightarrow> None
        | Fault \<Rightarrow> None)"

definition iotb_event_get ::
  "nat \<Rightarrow> rt_thread \<Rightarrow> mq_wake list \<Rightarrow> iotb_event_state \<Rightarrow> u32 \<Rightarrow>
    (int \<times> iotb_event_msg option \<times> iotb_event_state) option" where
  "iotb_event_get es t wakes st timeout =
     (case rt_mq_recv t wakes (iotb_event_mq st) (sizeof_msg es) timeout of
        Got m mq \<Rightarrow> Some (0, Some (bytes_msg es m), st\<lparr>iotb_event_mq := mq\<rparr>)
      | Failed e mq \<Rightarrow> Some (e, None, st\<lparr>iotb_event_mq := mq\<rparr>)
      | Pending mq \<Rightarrow> None
      | Fault \<Rightarrow> None)"

definition iotb_event_thr_set_cycle :: "u16 \<Rightarrow> iotb_event_state \<Rightarrow> iotb_event_state" where
  "iotb_event_thr_set_cycle time st = st\<lparr>iotb_event_thr_cycle := time\<rparr>"

subsection \<open>The LCD thread's flags\<close>

datatype iotb_lcd_event =
    IOTB_LCD_EVENT_KEY2_CLICK | IOTB_LCD_EVENT_KEY1_CLICK | IOTB_LCD_EVENT_KEY0_CLICK
  | IOTB_LCD_EVENT_WKUP_CLICK | IOTB_LCD_EVENT_KEY2_DOUBLE_CLICK | IOTB_LCD_EVENT_KEY1_DOUBLE_CLICK
  | IOTB_LCD_EVENT_KEY0_DOUBLE_CLICK | IOTB_LCD_EVENT_WKUP_DOUBLE_CLICK
  | IOTB_LCD_EVENT_KEY2_SHORT_PRESSED | IOTB_LCD_EVENT_KEY1_SHORT_PRESSED
  | IOTB_LCD_EVENT_KEY0_SHORT_PRESSED | IOTB_LCD_EVENT_WKUP_SHORT_PRESSED
  | IOTB_LCD_EVENT_KEY2_LONG_HOLD | IOTB_LCD_EVENT_KEY1_LONG_HOLD | IOTB_LCD_EVENT_KEY0_LONG_HOLD
  | IOTB_LCD_EVENT_WKUP_LONG_HOLD | IOTB_LCD_EVENT_NONE | IOTB_LCD_EVENT_ENTER | IOTB_LCD_EVENT_EXIT
  | IOTB_LCD_EVENT_NEXT | IOTB_LCD_EVENT_NEXTSONG | IOTB_LCD_EVENT_LASTSONG | IOTB_LCD_EVENT_DOWNLOAD
  | IOTB_LCD_EVENT_MUSIC_PLAY | IOTB_LCD_EVENT_MAX

text \<open>The bit position of each flag: the enum value is \<open>1u << position\<close>.\<close>

primrec lcd_bit :: "iotb_lcd_event \<Rightarrow> nat" where
  "lcd_bit IOTB_LCD_EVENT_KEY2_CLICK = 0"
| "lcd_bit IOTB_LCD_EVENT_KEY1_CLICK = 1"
| "lcd_bit IOTB_LCD_EVENT_KEY0_CLICK = 2"
| "lcd_bit IOTB_LCD_EVENT_WKUP_CLICK = 3"
| "lcd_bit IOTB_LCD_EVENT_KEY2_DOUBLE_CLICK = 4"
| "lcd_bit IOTB_LCD_EVENT_KEY1_DOUBLE_CLICK = 5"
| "lcd_bit IOTB_LCD_EVENT_KEY0_DOUBLE_CLICK = 6"
| "lcd_bit IOTB_LCD_EVENT_WKUP_DOUBLE_CLICK = 7"
| "lcd_bit IOTB_LCD_EVENT_KEY2_SHORT_PRESSED = 8"
| "lcd_bit IOTB_LCD_EVENT_KEY1_SHORT_PRESSED = 9"
| "lcd_bit IOTB_LCD_EVENT_KEY0_SHORT_PRESSED = 10"
| "lcd_bit IOTB_LCD_EVENT_WKUP_SHORT_PRESSED = 11"
| "lcd_bit IOTB_LCD_EVENT_KEY2_LONG_HOLD = 12"
| "lcd_bit IOTB_LCD_EVENT_KEY1_LONG_HOLD = 13"
| "lcd_bit IOTB_LCD_EVENT_KEY0_LONG_HOLD = 14"
| "lcd_bit IOTB_LCD_EVENT_WKUP_LONG_HOLD = 15"
| "lcd_bit IOTB_LCD_EVENT_NONE = 16"
| "lcd_bit IOTB_LCD_EVENT_ENTER = 17"
| "lcd_bit IOTB_LCD_EVENT_EXIT = 18"
| "lcd_bit IOTB_LCD_EVENT_NEXT = 19"
| "lcd_bit IOTB_LCD_EVENT_NEXTSONG = 20"
| "lcd_bit IOTB_LCD_EVENT_LASTSONG = 21"
| "lcd_bit IOTB_LCD_EVENT_DOWNLOAD = 22"
| "lcd_bit IOTB_LCD_EVENT_MUSIC_PLAY = 23"
| "lcd_bit IOTB_LCD_EVENT_MAX = 24"

definition lcd_value :: "iotb_lcd_event \<Rightarrow> u32" where
  "lcd_value e = push_bit (lcd_bit e) 1"

definition iotb_lcd_event_put :: "iotb_lcd_event \<Rightarrow> rt_event \<Rightarrow> rt_event" where
  "iotb_lcd_event_put e lcd = snd (rt_event_send lcd (lcd_value e))"

subsection \<open>Dispatch\<close>

text \<open>\<open>Put e\<close> is a case that sends a flag, \<open>Ignored\<close> a case with an empty body, \<open>Unhandled\<close> a default
  branch, which only logs.\<close>

datatype dispatch = Put iotb_lcd_event | Ignored | Unhandled

fun dispatch_key2 :: "iotb_event_type \<Rightarrow> dispatch" where
  "dispatch_key2 IOTB_EVENT_TYPE_KEY_CLICK = Put IOTB_LCD_EVENT_KEY2_CLICK"
| "dispatch_key2 IOTB_EVENT_TYPE_KEY_DOUBLE_CLICK = Put IOTB_LCD_EVENT_KEY2_DOUBLE_CLICK"
| "dispatch_key2 IOTB_EVENT_TYPE_KEY_SHORT_PRESSED = Put IOTB_LCD_EVENT_KEY2_SHORT_PRESSED"
| "dispatch_key2 IOTB_EVENT_TYPE_KEY_LONG_HOLD = Put IOTB_LCD_EVENT_KEY2_LONG_HOLD"
| "dispatch_key2 IOTB_EVENT_TYPE_NONE = Unhandled"
| "dispatch_key2 _ = Ignored"

fun dispatch_key1 :: "iotb_event_type \<Rightarrow> dispatch" where
  "dispatch_key1 IOTB_EVENT_TYPE_KEY_CLICK = Put IOTB_LCD_EVENT_KEY1_CLICK"
| "dispatch_key1 IOTB_EVENT_TYPE_KEY_DOUBLE_CLICK = Put IOTB_LCD_EVENT_KEY1_DOUBLE_CLICK"
| "dispatch_key1 IOTB_EVENT_TYPE_KEY_SHORT_PRESSED = Put IOTB_LCD_EVENT_KEY1_SHORT_PRESSED"
| "dispatch_key1 IOTB_EVENT_TYPE_KEY_LONG_HOLD = Put IOTB_LCD_EVENT_KEY1_LONG_HOLD"
| "dispatch_key1 IOTB_EVENT_TYPE_NONE = Unhandled"
| "dispatch_key1 _ = Ignored"

fun dispatch_key0 :: "iotb_event_type \<Rightarrow> dispatch" where
  "dispatch_key0 IOTB_EVENT_TYPE_KEY_CLICK = Put IOTB_LCD_EVENT_MUSIC_PLAY"
| "dispatch_key0 IOTB_EVENT_TYPE_KEY_DOUBLE_CLICK = Put IOTB_LCD_EVENT_NEXT"
| "dispatch_key0 IOTB_EVENT_TYPE_KEY_SHORT_PRESSED = Put IOTB_LCD_EVENT_KEY0_SHORT_PRESSED"
| "dispatch_key0 IOTB_EVENT_TYPE_KEY_LONG_HOLD = Put IOTB_LCD_EVENT_KEY0_LONG_HOLD"
| "dispatch_key0 IOTB_EVENT_TYPE_NONE = Unhandled"
| "dispatch_key0 _ = Ignored"

fun dispatch_keywkup :: "iotb_event_type \<Rightarrow> dispatch" where
  "dispatch_keywkup IOTB_EVENT_TYPE_KEY_CLICK = Put IOTB_LCD_EVENT_WKUP_CLICK"
| "dispatch_keywkup IOTB_EVENT_TYPE_KEY_DOUBLE_CLICK = Put IOTB_LCD_EVENT_WKUP_DOUBLE_CLICK"
| "dispatch_keywkup IOTB_EVENT_TYPE_KEY_SHORT_PRESSED = Put IOTB_LCD_EVENT_WKUP_SHORT_PRESSED"
| "dispatch_keywkup IOTB_EVENT_TYPE_KEY_LONG_HOLD = Put IOTB_LCD_EVENT_WKUP_LONG_HOLD"
| "dispatch_keywkup IOTB_EVENT_TYPE_NONE = Unhandled"
| "dispatch_keywkup _ = Ignored"

fun iotb_event_dispatch :: "iotb_event_msg \<Rightarrow> dispatch" where
  "iotb_event_dispatch msg =
     (case event_src msg of
        IOTB_EVENT_SRC_KEY2 \<Rightarrow> dispatch_key2 (event_type msg)
      | IOTB_EVENT_SRC_KEY1 \<Rightarrow> dispatch_key1 (event_type msg)
      | IOTB_EVENT_SRC_KEY0 \<Rightarrow> dispatch_key0 (event_type msg)
      | IOTB_EVENT_SRC_KEYWKUP \<Rightarrow> dispatch_keywkup (event_type msg)
      | IOTB_EVENT_SRC_NONE \<Rightarrow> Unhandled)"

definition iotb_event_process :: "iotb_event_msg \<Rightarrow> rt_event \<Rightarrow> int \<times> rt_event" where
  "iotb_event_process msg lcd =
     (0, case iotb_event_dispatch msg of Put e \<Rightarrow> iotb_lcd_event_put e lcd | _ \<Rightarrow> lcd)"

text \<open>One round of the dispatcher thread's loop.\<close>

definition iotb_event_handler_round ::
  "nat \<Rightarrow> rt_thread \<Rightarrow> mq_wake list \<Rightarrow> iotb_event_state \<Rightarrow> rt_event \<Rightarrow> (iotb_event_state \<times> rt_event) option" where
  "iotb_event_handler_round es t wakes st lcd =
     (case iotb_event_get es t wakes st (ucast (iotb_event_thr_cycle st)) of
        None \<Rightarrow> None
      | Some (rst, msg, st') \<Rightarrow>
          (case msg of
             Some m \<Rightarrow> if rst = 0 then Some (st', snd (iotb_event_process m lcd)) else Some (st', lcd)
           | None \<Rightarrow> Some (st', lcd)))"

subsection \<open>The hub as a bounded FIFO of messages\<close>

definition iotb_inv :: "nat \<Rightarrow> iotb_event_state \<Rightarrow> bool" where
  "iotb_inv es st \<longleftrightarrow> 0 < es \<and> es < 256 \<and> mq_rest (iotb_event_mq st)
     \<and> 2 * es \<le> mq_size (iotb_event_mq st) \<and> iotb_event_put_enable st"

definition iotb_pending :: "nat \<Rightarrow> iotb_event_state \<Rightarrow> iotb_event_msg list" where
  "iotb_pending es st = map (bytes_msg es) (mq_contents (iotb_event_mq st))"

definition iotb_capacity :: "iotb_event_state \<Rightarrow> nat" where
  "iotb_capacity st = mq_max (iotb_event_mq st)"

lemma unat_sizeof_msg: "es < 256 \<Longrightarrow> unat (sizeof_msg es) = 2 * es"
  unfolding sizeof_msg_def unat_of_nat by simp

lemma iotb_put_room:
  assumes "iotb_inv es st" "length (iotb_pending es st) < iotb_capacity st"
  shows "\<exists>mq. iotb_event_put es t st m = Some (0, 0, st\<lparr>iotb_event_mq := mq\<rparr>)
    \<and> iotb_inv es (st\<lparr>iotb_event_mq := mq\<rparr>)
    \<and> iotb_pending es (st\<lparr>iotb_event_mq := mq\<rparr>) = iotb_pending es st @ [m]
    \<and> mq_max mq = iotb_capacity st \<and> mq_size mq = mq_size (iotb_event_mq st)"
proof -
  let ?mq = "iotb_event_mq st"
  have inv: "0 < es" "es < 256" "mq_rest ?mq" "2 * es \<le> mq_size ?mq" "iotb_event_put_enable st"
    using assms(1) by (simp_all add: iotb_inv_def)
  obtain b f where bf: "mq_freelist ?mq = b # f"
    using mq_rest_count [OF inv(3)] assms(2)
    by (cases "mq_freelist ?mq") (simp_all add: mq_contents_def iotb_pending_def iotb_capacity_def)
  have sh: "mq_shape {#} (mq_queue ?mq) (b # f) ?mq"
    using mq_restD [OF inv(3)] by (simp add: bf)
  obtain mq where mq: "rt_mq_send_wait t [] ?mq (msg_bytes es m) (sizeof_msg es) 0 = Got () mq"
    "mq_shape {#} (mq_queue ?mq @ [b]) f mq" "mq_size mq = mq_size ?mq" "mq_max mq = mq_max ?mq"
    "mq_contents mq = mq_contents ?mq @ [padded (msg_bytes es m) (sizeof_msg es) (mq_body ?mq b)]"
    using send_shape(1) [OF sh, of "sizeof_msg es" "msg_bytes es m" t "[]" 0] inv
    by (auto simp: unat_sizeof_msg length_msg_bytes)
  have "bytes_msg es (padded (msg_bytes es m) (sizeof_msg es) (mq_body ?mq b)) = m"
    using inv by (simp add: padded_def unat_sizeof_msg length_msg_bytes bytes_msg_bytes)
  then show ?thesis
    using mq inv mq_shapeD(3) [OF mq(2)]
    by (intro exI [of _ mq])
      (simp add: iotb_event_put_def rt_mq_send_def iotb_inv_def iotb_pending_def iotb_capacity_def)
qed

lemma iotb_put_full:
  assumes "iotb_inv es st" "length (iotb_pending es st) = iotb_capacity st"
  shows "iotb_event_put es t st m = Some (- 3, 100, st)"
proof -
  let ?mq = "iotb_event_mq st"
  have inv: "0 < es" "es < 256" "mq_rest ?mq" "2 * es \<le> mq_size ?mq" "iotb_event_put_enable st"
    using assms(1) by (simp_all add: iotb_inv_def)
  have "mq_freelist ?mq = []"
    using mq_rest_count [OF inv(3)] assms(2) by (simp add: mq_contents_def iotb_pending_def iotb_capacity_def)
  then have "mq_shape {#} (mq_queue ?mq) [] ?mq" using mq_restD [OF inv(3)] by simp
  then have "rt_mq_send t ?mq (msg_bytes es m) (sizeof_msg es) = Failed (- rt_err_value RT_EFULL) ?mq"
    using inv by (intro send_full) (simp_all add: unat_sizeof_msg)
  then show ?thesis using inv by (simp add: iotb_event_put_def)
qed

lemma iotb_get_some:
  assumes "iotb_inv es st" "iotb_pending es st = m # ms"
  shows "\<exists>mq. iotb_event_get es t wakes st timeout = Some (0, Some m, st\<lparr>iotb_event_mq := mq\<rparr>)
    \<and> iotb_inv es (st\<lparr>iotb_event_mq := mq\<rparr>) \<and> iotb_pending es (st\<lparr>iotb_event_mq := mq\<rparr>) = ms
    \<and> mq_max mq = iotb_capacity st \<and> mq_size mq = mq_size (iotb_event_mq st)"
proof -
  let ?mq = "iotb_event_mq st"
  have inv: "0 < es" "es < 256" "mq_rest ?mq" "2 * es \<le> mq_size ?mq" "iotb_event_put_enable st"
    using assms(1) by (simp_all add: iotb_inv_def)
  obtain b q where bq: "mq_queue ?mq = b # q" "m = bytes_msg es (mq_body ?mq b)"
    using assms(2) by (auto simp: mq_contents_def iotb_pending_def)
  have sh: "mq_shape {#} (b # q) (mq_freelist ?mq) ?mq" using mq_restD [OF inv(3)] bq by simp
  obtain mq where mq:
    "rt_mq_recv t wakes ?mq (sizeof_msg es) timeout = Got (take (min (unat (sizeof_msg es)) (mq_size ?mq)) (mq_body ?mq b)) mq"
    "mq_shape {#} q (b # mq_freelist ?mq) mq" "mq_size mq = mq_size ?mq" "mq_max mq = mq_max ?mq"
    "mq_contents mq = tl (mq_contents ?mq)"
    using recv_shape [OF sh, of t wakes "sizeof_msg es" timeout] by blast
  have "length (mq_body ?mq b) = mq_size ?mq"
    using sh mq_shape_blocks(5) [OF sh, of b] by (simp add: mq_shape_def)
  then have "bytes_msg es (take (min (unat (sizeof_msg es)) (mq_size ?mq)) (mq_body ?mq b)) = m"
    using inv by (simp add: bytes_msg_def bq(2) unat_sizeof_msg)
  then show ?thesis
    using mq inv mq_shapeD(3) [OF mq(2)] assms(2)
    by (intro exI [of _ mq])
      (auto simp: iotb_event_get_def iotb_inv_def iotb_pending_def iotb_capacity_def)
qed

lemma iotb_get_none:
  assumes "iotb_inv es st" "iotb_pending es st = []"
  shows "iotb_event_get es t wakes st 0 = Some (- 2, None, st)"
proof -
  have "mq_shape {#} [] (mq_freelist (iotb_event_mq st)) (iotb_event_mq st)"
    using assms mq_restD [of "iotb_event_mq st"]
    by (simp add: iotb_inv_def iotb_pending_def mq_contents_def)
  then show ?thesis by (simp add: iotb_event_get_def recv_empty)
qed

text \<open>Putting and getting without waiting, read as success or failure.\<close>

definition iotb_enq :: "nat \<Rightarrow> iotb_event_msg \<Rightarrow> iotb_event_state \<Rightarrow> bool \<times> iotb_event_state" where
  "iotb_enq es m st =
     (case iotb_event_put es \<lparr>thread_id = 0, current_priority = 10\<rparr> st m of
        Some (r, _, st') \<Rightarrow> (r = 0, st')
      | None \<Rightarrow> (False, st))"

definition iotb_deq :: "nat \<Rightarrow> iotb_event_state \<Rightarrow> iotb_event_msg option \<times> iotb_event_state" where
  "iotb_deq es st =
     (case iotb_event_get es \<lparr>thread_id = 1, current_priority = 12\<rparr> [] st 0 of
        Some (r, m, st') \<Rightarrow> (m, st')
      | None \<Rightarrow> (None, st))"

lemma iotb_enq_cases:
  assumes "iotb_inv es st"
  shows "(length (iotb_pending es st) < iotb_capacity st \<and>
      (\<exists>st'. iotb_enq es m st = (True, st') \<and> iotb_inv es st' \<and> iotb_pending es st' = iotb_pending es st @ [m]
        \<and> iotb_capacity st' = iotb_capacity st))
    \<or> (length (iotb_pending es st) = iotb_capacity st \<and> iotb_enq es m st = (False, st))"
proof -
  have "length (iotb_pending es st) \<le> iotb_capacity st"
    using mq_rest_count [of "iotb_event_mq st"] assms
    by (simp add: iotb_inv_def iotb_pending_def iotb_capacity_def mq_contents_def)
  then consider "length (iotb_pending es st) < iotb_capacity st" | "length (iotb_pending es st) = iotb_capacity st"
    by linarith
  then show ?thesis
  proof cases
    case 1
    then show ?thesis
      using iotb_put_room [OF assms 1, of "\<lparr>thread_id = 0, current_priority = 10\<rparr>" m]
      by (auto simp: iotb_enq_def iotb_capacity_def)
  next
    case 2
    then show ?thesis using iotb_put_full [OF assms 2] by (simp add: iotb_enq_def)
  qed
qed

lemma iotb_deq_cases:
  assumes "iotb_inv es st"
  shows "case iotb_pending es st of
      [] \<Rightarrow> iotb_deq es st = (None, st)
    | m # ms \<Rightarrow> \<exists>st'. iotb_deq es st = (Some m, st') \<and> iotb_inv es st' \<and> iotb_pending es st' = ms
        \<and> iotb_capacity st' = iotb_capacity st"
proof (cases "iotb_pending es st")
  case Nil
  then show ?thesis using iotb_get_none [OF assms] by (simp add: iotb_deq_def)
next
  case (Cons m ms)
  then show ?thesis
    using iotb_get_some [OF assms Cons, of "\<lparr>thread_id = 1, current_priority = 12\<rparr>" "[]" 0]
    by (auto simp: iotb_deq_def iotb_capacity_def)
qed

lemma iotb_enq_capacity: "iotb_inv es st \<Longrightarrow> iotb_capacity (snd (iotb_enq es m st)) = iotb_capacity st"
  using iotb_enq_cases [of es st m] by auto

interpretation iotb_fifo: bounded_fifo "iotb_inv es" "iotb_pending es" iotb_capacity "\<lambda>_ _. True"
  "iotb_enq es" "iotb_deq es" for es
proof (unfold_locales, goal_cases)
  case (1 q)
  then show ?case using iotb_enq_cases [of es q undefined] by auto
next
  case (2 q x)
  then show ?case using iotb_enq_cases [of es q x] by auto
next
  case (3 q x)
  then show ?case using iotb_enq_cases [of es q x] by auto
next
  case (4 q x)
  then show ?case using iotb_enq_cases [of es q x] by auto
next
  case (5 q x)
  then show ?case by (rule iotb_enq_capacity)
next
  case (7 q x xs)
  then show ?case using iotb_deq_cases [of es q] by auto
next
  case (8 q)
  then show ?case using iotb_deq_cases [of es q] by simp
next
  case (9 q)
  then show ?case using iotb_deq_cases [of es q] by (auto split: list.splits)
next
  case (10 q)
  then show ?case using iotb_deq_cases [of es q] by (auto split: list.splits)
qed simp_all

subsection \<open>Properties\<close>

text \<open>The memory of \<open>event_msg\<close>, all zero, cut into blocks for an enum size of 1 or 4.\<close>

definition event_msg_pool :: "nat \<Rightarrow> (nat \<Rightarrow> nat option) \<times> (nat \<Rightarrow> u8 list)" where
  "event_msg_pool es = (\<lambda>_. None, \<lambda>_. replicate (aligned_size (sizeof_msg es)) 0)"

definition iotb_start :: "nat \<Rightarrow> iotb_event_state" where
  "iotb_start es =
     snd (iotb_event_init es (event_msg_pool es)
       \<lparr>iotb_event_mq = rt_mq_init (event_msg_pool es) 0 0 0, iotb_event_put_enable = True,
        iotb_event_thr_cycle = IOTB_EVENT_THR_CYCLE\<rparr>)"

lemma iotb_start_props:
  assumes "es = 1 \<or> es = 4"
  shows "iotb_inv es (iotb_start es)" "iotb_pending es (iotb_start es) = []"
    "iotb_capacity (iotb_start es) = (if es = 1 then 2 else 6)"
proof -
  let ?mq = "rt_mq_init (event_msg_pool es) (sizeof_msg es) (IOTB_EVENT_MSG_NUM * sizeof_msg es) RT_IPC_FLAG_FIFO"
  have mq: "mq_rest ?mq \<and> mq_contents ?mq = [] \<and> mq_size ?mq = aligned_size (sizeof_msg es)
      \<and> mq_max ?mq = (if es = 1 then 2 else 6)"
  proof -
    have n: "unat (IOTB_EVENT_MSG_NUM * sizeof_msg es) div (aligned_size (sizeof_msg es) + 4)
        = (if es = 1 then 2 else 6)" and s: "unat (sizeof_msg es) \<le> 65532"
      using assms by (auto simp: IOTB_EVENT_MSG_NUM_def sizeof_msg_def aligned_size_def)
    note spec = rt_mq_init_spec [OF s, of "IOTB_EVENT_MSG_NUM * sizeof_msg es" "event_msg_pool es" RT_IPC_FLAG_FIFO]
    have "mq_shape {#} [] (rev [0..<(if es = 1 then 2 else 6)]) ?mq \<and> mq_size ?mq = aligned_size (sizeof_msg es)
        \<and> mq_max ?mq = (if es = 1 then 2 else 6)"
      using spec unfolding n by (simp add: event_msg_pool_def)
    then show ?thesis using mq_shapeD(3) mq_shape_contents by fastforce
  qed
  have st: "iotb_event_mq (iotb_start es) = ?mq" "iotb_event_put_enable (iotb_start es)"
    by (simp_all add: iotb_start_def iotb_event_init_def)
  show "iotb_inv es (iotb_start es)" "iotb_pending es (iotb_start es) = []"
    "iotb_capacity (iotb_start es) = (if es = 1 then 2 else 6)"
    using mq assms
    by (auto simp: iotb_inv_def iotb_pending_def iotb_capacity_def st aligned_size_def sizeof_msg_def)
qed

text \<open>The key event queue is smaller than its array: the pool handed to \<open>rt_mq_init\<close> is the array of
  \<open>IOTB_EVENT_MSG_NUM\<close> = 10 messages, but each block also needs a link word and word alignment, so
  the queue takes 2 messages (1-byte enums) or 6 (4-byte enums); the next put returns \<open>-RT_EFULL\<close>
  after sleeping 100 ms and leaves the queue unchanged.\<close>

lemma iotb_event_capacity:
  assumes "es = 1 \<or> es = 4"
    and "length (iotb_pending es st) = iotb_capacity st" "iotb_inv es st"
    and "iotb_capacity st = iotb_capacity (iotb_start es)"
  shows "iotb_capacity st = (if es = 1 then 2 else 6) \<and> iotb_event_put es t st m = Some (-3, 100, st)"
  using iotb_start_props(3) [OF assms(1)] iotb_put_full [OF assms(3,2)] assms(4) by simp

lemma iotb_full_example:
  "\<exists>st. iotb_inv 1 st \<and> length (iotb_pending 1 st) = 2 \<and> iotb_capacity st = 2"
proof -
  let ?m = "\<lparr>event_src = IOTB_EVENT_SRC_KEY0, event_type = IOTB_EVENT_TYPE_KEY_CLICK\<rparr>"
  let ?st = "iotb_fifo.enq_all 1 [?m, ?m] (iotb_start 1)"
  have inv: "iotb_inv 1 (iotb_start 1)" using iotb_start_props [of 1] by simp
  have "iotb_inv 1 ?st \<and> iotb_capacity ?st = 2 \<and> iotb_pending 1 ?st = [?m, ?m]"
    using iotb_fifo.enq_all_props [OF inv, of "[?m, ?m]"] iotb_start_props [of 1] by simp
  then show ?thesis by force
qed

text \<open>Messages put while the hub is enabled and has room are got in the same order with the same
  source and type, whatever bytes their blocks held before.\<close>

lemma iotb_events_in_order:
  assumes "iotb_inv es st" "length (iotb_pending es st) + length ms \<le> iotb_capacity st"
  shows "fst (iotb_fifo.drain es (length (iotb_pending es st) + length ms) (iotb_fifo.enq_all es ms st))
    = iotb_pending es st @ ms"
  using assms by (intro iotb_fifo.enq_all_drain) simp_all

end
