(* ===== verification/KeyProcess.thy ===== *)
theory KeyProcess
  imports FlexButton IotbEvent
begin

text \<open>
  \<open>applications/iotb_key_process.c\<close>: the four keys of the board, their callbacks, which turn the events of
  the button scanner into key messages for the event hub, the initialisation, and one round of the
  scan thread. The read functions and the callbacks are identified by pin number and key index.
\<close>

subsection \<open>Pins and callbacks\<close>

definition PIN_WK_UP :: nat where "PIN_WK_UP = 16 * 2 + 13"
definition PIN_KEY0 :: nat where "PIN_KEY0 = 16 * 3 + 10"
definition PIN_KEY1 :: nat where "PIN_KEY1 = 16 * 3 + 9"
definition PIN_KEY2 :: nat where "PIN_KEY2 = 16 * 3 + 8"

datatype user_button = USER_BUTTON_0 | USER_BUTTON_1 | USER_BUTTON_2 | USER_BUTTON_3

primrec button_index :: "user_button \<Rightarrow> nat" where
  "button_index USER_BUTTON_0 = 0"
| "button_index USER_BUTTON_1 = 1"
| "button_index USER_BUTTON_2 = 2"
| "button_index USER_BUTTON_3 = 3"

definition USER_BUTTON_MAX :: nat where "USER_BUTTON_MAX = 4"

primrec button_pin :: "user_button \<Rightarrow> nat" where
  "button_pin USER_BUTTON_0 = PIN_KEY0"
| "button_pin USER_BUTTON_1 = PIN_KEY1"
| "button_pin USER_BUTTON_2 = PIN_KEY2"
| "button_pin USER_BUTTON_3 = PIN_WK_UP"

text \<open>\<open>button_key0_read\<close> and the other read functions return the level of their pin.\<close>

definition button_read :: "(nat \<Rightarrow> u8) \<Rightarrow> user_button \<Rightarrow> u8" where
  "button_read levels b = levels (button_pin b)"

text \<open>The \<open>switch\<close> of a callback: the type of the message for an event, \<open>None\<close> for events that are only
  logged or not listed.\<close>

fun btn_event_type :: "flex_event \<Rightarrow> iotb_event_type option" where
  "btn_event_type FLEX_BTN_PRESS_DOWN = None"
| "btn_event_type FLEX_BTN_PRESS_CLICK = Some IOTB_EVENT_TYPE_KEY_CLICK"
| "btn_event_type FLEX_BTN_PRESS_DOUBLE_CLICK = Some IOTB_EVENT_TYPE_KEY_DOUBLE_CLICK"
| "btn_event_type FLEX_BTN_PRESS_SHORT_START = Some IOTB_EVENT_TYPE_KEY_SHORT_PRESSED"
| "btn_event_type FLEX_BTN_PRESS_SHORT_UP = Some IOTB_EVENT_TYPE_KEY_SHORT_PRESSED_UP"
| "btn_event_type FLEX_BTN_PRESS_LONG_START = Some IOTB_EVENT_TYPE_KEY_LONG_PRESSED"
| "btn_event_type FLEX_BTN_PRESS_LONG_UP = Some IOTB_EVENT_TYPE_KEY_LONG_PRESSED_UP"
| "btn_event_type FLEX_BTN_PRESS_LONG_HOLD = Some IOTB_EVENT_TYPE_KEY_LONG_HOLD"
| "btn_event_type FLEX_BTN_PRESS_LONG_HOLD_UP = Some IOTB_EVENT_TYPE_KEY_LONG_HOLD_UP"
| "btn_event_type FLEX_BTN_PRESS_MAX = None"
| "btn_event_type FLEX_BTN_PRESS_NONE = None"

text \<open>The state that the callbacks share: the static message buffer, the hub, the time slept, and
  the number of puts whose failure was logged.\<close>

record key_state =
  key_msg :: iotb_event_msg
  key_hub :: iotb_event_state
  key_slept :: nat
  key_failed :: nat

definition key_put :: "nat \<Rightarrow> rt_thread \<Rightarrow> iotb_event_src \<Rightarrow> iotb_event_type \<Rightarrow> key_state \<Rightarrow> key_state option" where
  "key_put es t src ty ks =
     (let msg = (key_msg ks)\<lparr>event_src := src, event_type := ty\<rparr>
      in case iotb_event_put es t (key_hub ks) msg of
           None \<Rightarrow> None
         | Some (rst, ms, hub) \<Rightarrow>
             Some (ks\<lparr>key_msg := msg, key_hub := hub, key_slept := key_slept ks + ms,
                      key_failed := (if rst \<noteq> 0 then key_failed ks + 1 else key_failed ks)\<rparr>))"

definition btn_report :: "nat \<Rightarrow> rt_thread \<Rightarrow> iotb_event_src \<Rightarrow> flex_event \<Rightarrow> key_state \<Rightarrow> key_state option" where
  "btn_report es t src ev ks =
     (case btn_event_type ev of None \<Rightarrow> Some ks | Some ty \<Rightarrow> key_put es t src ty ks)"

definition btn_0_cb :: "nat \<Rightarrow> rt_thread \<Rightarrow> flex_event \<Rightarrow> key_state \<Rightarrow> key_state option" where
  "btn_0_cb es t ev ks = btn_report es t IOTB_EVENT_SRC_KEY0 ev ks"

definition btn_1_cb :: "nat \<Rightarrow> rt_thread \<Rightarrow> flex_event \<Rightarrow> key_state \<Rightarrow> key_state option" where
  "btn_1_cb es t ev ks = btn_report es t IOTB_EVENT_SRC_KEY1 ev ks"

definition btn_2_cb :: "nat \<Rightarrow> rt_thread \<Rightarrow> flex_event \<Rightarrow> key_state \<Rightarrow> key_state option" where
  "btn_2_cb es t ev ks = btn_report es t IOTB_EVENT_SRC_KEY2 ev ks"

definition btn_wkup_cb :: "nat \<Rightarrow> rt_thread \<Rightarrow> flex_event \<Rightarrow> key_state \<Rightarrow> key_state option" where
  "btn_wkup_cb es t ev ks = btn_report es t IOTB_EVENT_SRC_KEYWKUP ev ks"

text \<open>The callback that a function pointer stands for; an unknown one cannot be called.\<close>

definition button_cb :: "nat \<Rightarrow> nat \<Rightarrow> rt_thread \<Rightarrow> flex_event \<Rightarrow> key_state \<Rightarrow> key_state option" where
  "button_cb f es t ev ks =
     (if f = 0 then btn_0_cb es t ev ks else if f = 1 then btn_1_cb es t ev ks
      else if f = 2 then btn_2_cb es t ev ks else if f = 3 then btn_wkup_cb es t ev ks
      else None)"

subsection \<open>Initialisation and scanning\<close>

text \<open>The structure after \<open>rt_memset(\<dots>, 0x0, \<dots>)\<close>; event number 0 is \<open>FLEX_BTN_PRESS_DOWN\<close>.\<close>

definition zero_button :: flex_button where
  "zero_button =
     \<lparr>pressed_logic_level = 0, event = FLEX_BTN_PRESS_DOWN, status = 0, scan_cnt = 0, click_cnt = 0,
      debounce_tick = 0, click_start_tick = 0, short_press_start_tick = 0, long_press_start_tick = 0,
      long_hold_start_tick = 0, usr_button_read = None, cb = None\<rparr>"

definition init_button :: "user_button \<Rightarrow> flex_button" where
  "init_button b =
     (let s = zero_button\<lparr>usr_button_read := Some (button_pin b), cb := Some (button_index b)\<rparr>;
          s1 = s\<lparr>pressed_logic_level := 0, click_start_tick := 20, short_press_start_tick := 100,
                 long_press_start_tick := 200, long_hold_start_tick := 300\<rparr>
      in if b = USER_BUTTON_3 then s1\<lparr>pressed_logic_level := 1\<rparr> else s1)"

definition user_button_init :: "flex_state \<Rightarrow> flex_state" where
  "user_button_init st =
     foldl (\<lambda>st b. snd (flex_button_register st (Some (button_index b, init_button b)))) st
       [USER_BUTTON_0, USER_BUTTON_1, USER_BUTTON_2, USER_BUTTON_3]"

fun run_callbacks :: "nat \<Rightarrow> rt_thread \<Rightarrow> (nat \<times> flex_event) list \<Rightarrow> key_state \<Rightarrow> key_state option" where
  "run_callbacks es t [] ks = Some ks"
| "run_callbacks es t ((f, ev) # evs) ks =
     (case button_cb f es t ev ks of None \<Rightarrow> None | Some ks' \<Rightarrow> run_callbacks es t evs ks')"

text \<open>One round of the scan thread; it then sleeps for 10 ms.\<close>

definition button_scan ::
  "nat \<Rightarrow> rt_thread \<Rightarrow> (nat \<Rightarrow> u8) \<Rightarrow> flex_state \<Rightarrow> key_state \<Rightarrow> (flex_state \<times> key_state) option" where
  "button_scan es t levels st ks =
     (let (st', evs) = flex_button_scan levels st
      in case run_callbacks es t evs ks of None \<Rightarrow> None | Some ks' \<Rightarrow> Some (st', ks'))"

text \<open>The scan thread over a sequence of rounds.\<close>

fun button_scan_thread ::
  "nat \<Rightarrow> rt_thread \<Rightarrow> (nat \<Rightarrow> u8) list \<Rightarrow> flex_state \<Rightarrow> key_state \<Rightarrow> (flex_state \<times> key_state) option" where
  "button_scan_thread es t [] st ks = Some (st, ks)"
| "button_scan_thread es t (levels # ls) st ks =
     (case button_scan es t levels st ks of
        None \<Rightarrow> None
      | Some (st', ks') \<Rightarrow> button_scan_thread es t ls st' ks')"

subsection \<open>The initialised buttons\<close>

text \<open>Registration puts each button in front: the list is WK_UP, KEY2, KEY1, KEY0.\<close>

definition user_buttons :: "user_button list" where
  "user_buttons = [USER_BUTTON_3, USER_BUTTON_2, USER_BUTTON_1, USER_BUTTON_0]"

definition idle_button :: "user_button \<Rightarrow> flex_button" where
  "idle_button b = (init_button b)\<lparr>status := 0, event := FLEX_BTN_PRESS_NONE, scan_cnt := 0, click_cnt := 0\<rparr>"

lemma button_index_inject: "button_index a = button_index b \<Longrightarrow> a = b"
  by (cases a; cases b) simp_all

lemma button_index_eq: "button_index a = button_index b \<longleftrightarrow> a = b"
  using button_index_inject by blast

lemma register_button_step:
  assumes "flex_inv st" "length (btns st) < 4" "button_index b \<notin> fst ` set (btns st)"
  shows "btns (snd (flex_button_register st (Some (button_index b, init_button b))))
      = (button_index b, idle_button b) # btns st"
    and "cont (snd (flex_button_register st (Some (button_index b, init_button b)))) = cont st"
    and "flex_inv (snd (flex_button_register st (Some (button_index b, init_button b))))"
proof -
  show "flex_inv (snd (flex_button_register st (Some (button_index b, init_button b))))"
    by (rule register_inv [OF assms(1)])
qed (use register_cases [OF assms(1), of "button_index b" "init_button b"] assms(2,3) in
    \<open>simp_all add: idle_button_def\<close>)


lemma user_button_init_btns:
  "btns (user_button_init flex_init) = map (\<lambda>b. (button_index b, idle_button b)) user_buttons"
  "cont (user_button_init flex_init) = 0"
proof -
  have "btns flex_init = []" "cont flex_init = 0" by (simp_all add: flex_init_def)
  then show "btns (user_button_init flex_init) = map (\<lambda>b. (button_index b, idle_button b)) user_buttons"
    "cont (user_button_init flex_init) = 0"
    using flex_init_inv by (simp_all add: user_button_init_def user_buttons_def register_button_step button_index_eq
        del: button_index.simps)
qed

lemma user_button_init_inv: "flex_inv (user_button_init flex_init)"
  by (simp add: user_button_init_def register_inv flex_init_inv)

lemma idle_button_props:
  "flex_config (idle_button b)" "cb (idle_button b) = Some (button_index b)" "status (idle_button b) = 0"
  "unat (click_start_tick (idle_button b)) = 20" "unat (short_press_start_tick (idle_button b)) = 100"
  "unat (long_press_start_tick (idle_button b)) = 200" "unat (long_hold_start_tick (idle_button b)) = 300"
  "usr_button_read (idle_button b) = Some (button_pin b)"
  "pressed_logic_level (idle_button b) = (if b = USER_BUTTON_3 then 1 else 0)"
  by (simp_all add: idle_button_def init_button_def Let_def zero_button_def flex_config_def)

definition key_pressed :: "(nat \<Rightarrow> u8) \<Rightarrow> user_button \<Rightarrow> bool" where
  "key_pressed levels b = (if b = USER_BUTTON_3 then levels (button_pin b) \<noteq> 0 else levels (button_pin b) = 0)"

lemma pressed_idle_button: "pressed levels (idle_button b) = key_pressed levels b"
  by (simp add: pressed_def idle_button_props key_pressed_def)

text \<open>Pins read 0 or 1.\<close>

definition levels_ok :: "(nat \<Rightarrow> u8) \<Rightarrow> bool" where
  "levels_ok levels \<longleftrightarrow> (\<forall>b \<in> set user_buttons. levels (button_pin b) = 0 \<or> levels (button_pin b) = 1)"

text \<open>The calls of one key's callback over any rounds are those of its own samples.\<close>

lemma user_buttons_nth:
  "k < 4 \<Longrightarrow> j < 4 \<Longrightarrow> user_buttons ! k = user_buttons ! j \<Longrightarrow> k = j"
  "\<exists>j < 4. user_buttons ! j = b"
proof -
  have "distinct user_buttons" "length user_buttons = 4" by (simp_all add: user_buttons_def)
  then show "k < 4 \<Longrightarrow> j < 4 \<Longrightarrow> user_buttons ! k = user_buttons ! j \<Longrightarrow> k = j"
    by (simp add: nth_eq_iff_index_eq)
  have "b \<in> set user_buttons" by (cases b) (simp_all add: user_buttons_def)
  then show "\<exists>j < 4. user_buttons ! j = b"
    using \<open>length user_buttons = 4\<close> by (metis in_set_conv_nth)
qed

lemma user_button_calls:
  assumes "\<forall>l \<in> set ls. levels_ok l"
  shows "filter (\<lambda>e. fst e = button_index b) (snd (flex_scans (user_button_init flex_init) ls))
    = snd (btn_run (idle_button b) False (map (\<lambda>l. key_pressed l b) ls))"
proof -
  let ?st = "user_button_init flex_init"
  have len: "length (btns ?st) = 4" by (simp add: user_button_init_btns user_buttons_def)
  obtain j where j: "j < 4" "user_buttons ! j = b" using user_buttons_nth(2) by blast
  have nth: "snd (btns ?st ! k) = idle_button (user_buttons ! k)" if "k < 4" for k
  proof -
    have "k < length user_buttons" using that by (simp add: user_buttons_def)
    then show ?thesis by (simp add: user_button_init_btns)
  qed
  have dist: "user_buttons ! k \<noteq> b" if "k < 4" "k \<noteq> j" for k
    using that j user_buttons_nth(1) by blast
  have rd: "\<forall>rd \<in> set ls. readable rd ?st"
    using assms by (auto simp: readable_def user_button_init_btns idle_button_props levels_ok_def)
  have "filter (\<lambda>e. fst e = button_index b) (snd (flex_scans ?st ls))
    = snd (btn_run (snd (btns ?st ! j)) (bit (cont ?st) j) (map (\<lambda>rd. pressed rd (snd (btns ?st ! j))) ls))"
  proof (rule flex_scans_button_any [OF user_button_init_inv rd])
    show "j < length (btns ?st)" "j < 16" using j len by simp_all
    show "cb (snd (btns ?st ! j)) = Some (button_index b)" using j by (simp add: nth idle_button_props)
    show "\<forall>k < length (btns ?st). k \<noteq> j \<longrightarrow> cb (snd (btns ?st ! k)) \<noteq> Some (button_index b)"
      using dist button_index_inject by (simp add: len nth idle_button_props) blast
  qed
  then show ?thesis
    using j by (simp add: nth user_button_init_btns(2) pressed_idle_button)
qed

subsection \<open>From events to messages\<close>

primrec button_src :: "user_button \<Rightarrow> iotb_event_src" where
  "button_src USER_BUTTON_0 = IOTB_EVENT_SRC_KEY0"
| "button_src USER_BUTTON_1 = IOTB_EVENT_SRC_KEY1"
| "button_src USER_BUTTON_2 = IOTB_EVENT_SRC_KEY2"
| "button_src USER_BUTTON_3 = IOTB_EVENT_SRC_KEYWKUP"

text \<open>The messages that a list of callback calls tries to put.\<close>

fun call_messages :: "(nat \<times> flex_event) list \<Rightarrow> iotb_event_msg list" where
  "call_messages [] = []"
| "call_messages ((f, ev) # evs) =
     (case btn_event_type ev of
        None \<Rightarrow> call_messages evs
      | Some ty \<Rightarrow>
          \<lparr>event_src = (if f = 0 then IOTB_EVENT_SRC_KEY0 else if f = 1 then IOTB_EVENT_SRC_KEY1
                       else if f = 2 then IOTB_EVENT_SRC_KEY2 else IOTB_EVENT_SRC_KEYWKUP),
           event_type = ty\<rparr> # call_messages evs)"

lemma button_cb_report:
  "f < 4 \<Longrightarrow> button_cb f es t ev ks = btn_report es t
     (if f = 0 then IOTB_EVENT_SRC_KEY0 else if f = 1 then IOTB_EVENT_SRC_KEY1
      else if f = 2 then IOTB_EVENT_SRC_KEY2 else IOTB_EVENT_SRC_KEYWKUP) ev ks"
  by (auto simp: button_cb_def btn_0_cb_def btn_1_cb_def btn_2_cb_def btn_wkup_cb_def)

lemma key_put_room:
  assumes "iotb_inv es (key_hub ks)" "length (iotb_pending es (key_hub ks)) < iotb_capacity (key_hub ks)"
  shows "\<exists>ks'. key_put es t src ty ks = Some ks' \<and> iotb_inv es (key_hub ks')
    \<and> iotb_pending es (key_hub ks') = iotb_pending es (key_hub ks) @ [\<lparr>event_src = src, event_type = ty\<rparr>]
    \<and> iotb_capacity (key_hub ks') = iotb_capacity (key_hub ks)
    \<and> key_failed ks' = key_failed ks \<and> key_slept ks' = key_slept ks"
proof -
  let ?m = "(key_msg ks)\<lparr>event_src := src, event_type := ty\<rparr>"
  have m: "?m = \<lparr>event_src = src, event_type = ty\<rparr>" by simp
  obtain mq where "iotb_event_put es t (key_hub ks) ?m = Some (0, 0, (key_hub ks)\<lparr>iotb_event_mq := mq\<rparr>)"
    "iotb_inv es ((key_hub ks)\<lparr>iotb_event_mq := mq\<rparr>)"
    "iotb_pending es ((key_hub ks)\<lparr>iotb_event_mq := mq\<rparr>) = iotb_pending es (key_hub ks) @ [?m]"
    "mq_max mq = iotb_capacity (key_hub ks)"
    using iotb_put_room [OF assms, of t ?m] by blast
  then show ?thesis
    unfolding m by (simp add: key_put_def m iotb_capacity_def)
qed

lemma run_callbacks_room:
  assumes "iotb_inv es (key_hub ks)" "\<forall>e \<in> set evs. fst e < 4"
    and "length (iotb_pending es (key_hub ks)) + length (call_messages evs) \<le> iotb_capacity (key_hub ks)"
  shows "\<exists>ks'. run_callbacks es t evs ks = Some ks' \<and> iotb_inv es (key_hub ks')
    \<and> iotb_pending es (key_hub ks') = iotb_pending es (key_hub ks) @ call_messages evs
    \<and> iotb_capacity (key_hub ks') = iotb_capacity (key_hub ks)
    \<and> key_failed ks' = key_failed ks \<and> key_slept ks' = key_slept ks"
  using assms
proof (induction evs arbitrary: ks)
  case Nil
  then show ?case by simp
next
  case (Cons e evs)
  obtain f ev where e: "e = (f, ev)" by (cases e)
  let ?src = "if f = 0 then IOTB_EVENT_SRC_KEY0 else if f = 1 then IOTB_EVENT_SRC_KEY1
      else if f = 2 then IOTB_EVENT_SRC_KEY2 else IOTB_EVENT_SRC_KEYWKUP"
  have f: "button_cb f es t ev ks = btn_report es t ?src ev ks"
    using Cons.prems(2) by (intro button_cb_report) (simp add: e)
  show ?case
  proof (cases "btn_event_type ev")
    case None
    then show ?thesis
      using Cons by (simp add: e f btn_report_def)
  next
    case (Some ty)
    have "length (iotb_pending es (key_hub ks)) < iotb_capacity (key_hub ks)"
      using Cons.prems(3) by (simp add: e Some)
    from key_put_room [OF Cons.prems(1) this, of t ?src ty] obtain ks1 where ks1:
      "key_put es t ?src ty ks = Some ks1" "iotb_inv es (key_hub ks1)"
      "iotb_pending es (key_hub ks1) = iotb_pending es (key_hub ks) @ [\<lparr>event_src = ?src, event_type = ty\<rparr>]"
      "iotb_capacity (key_hub ks1) = iotb_capacity (key_hub ks)"
      "key_failed ks1 = key_failed ks" "key_slept ks1 = key_slept ks"
      by blast
    have "\<exists>ks'. run_callbacks es t evs ks1 = Some ks' \<and> iotb_inv es (key_hub ks')
      \<and> iotb_pending es (key_hub ks') = iotb_pending es (key_hub ks1) @ call_messages evs
      \<and> iotb_capacity (key_hub ks') = iotb_capacity (key_hub ks1)
      \<and> key_failed ks' = key_failed ks1 \<and> key_slept ks' = key_slept ks1"
      using Cons.prems ks1(2-4) by (intro Cons.IH) (simp_all add: e Some)
    then show ?thesis
      using ks1 by (simp add: e f btn_report_def Some del: One_nat_def)
  qed
qed

text \<open>The scan thread in terms of the scanner alone.\<close>

lemma button_scan_thread_room:
  assumes "iotb_inv es (key_hub ks)" "\<forall>e \<in> set (snd (flex_scans st ls)). fst e < 4"
    and "length (iotb_pending es (key_hub ks)) + length (call_messages (snd (flex_scans st ls)))
      \<le> iotb_capacity (key_hub ks)"
  shows "\<exists>ks'. button_scan_thread es t ls st ks = Some (fst (flex_scans st ls), ks') \<and> iotb_inv es (key_hub ks')
    \<and> iotb_pending es (key_hub ks') = iotb_pending es (key_hub ks) @ call_messages (snd (flex_scans st ls))
    \<and> key_failed ks' = key_failed ks \<and> key_slept ks' = key_slept ks"
  using assms
proof (induction ls arbitrary: st ks)
  case Nil
  then show ?case by simp
next
  case (Cons l ls)
  have msgs: "call_messages (xs @ ys) = call_messages xs @ call_messages ys" for xs ys
    by (induction xs rule: call_messages.induct) (simp_all split: option.split)
  obtain st1 evs where s: "flex_button_scan l st = (st1, evs)" by (cases "flex_button_scan l st")
  obtain st2 evs2 where s2: "flex_scans st1 ls = (st2, evs2)" by (cases "flex_scans st1 ls")
  obtain ks1 where ks1: "run_callbacks es t evs ks = Some ks1" "iotb_inv es (key_hub ks1)"
    "iotb_pending es (key_hub ks1) = iotb_pending es (key_hub ks) @ call_messages evs"
    "iotb_capacity (key_hub ks1) = iotb_capacity (key_hub ks)"
    "key_failed ks1 = key_failed ks" "key_slept ks1 = key_slept ks"
    using run_callbacks_room [of es ks evs t] Cons.prems by (auto simp: s s2 msgs)
  have "\<exists>ks'. button_scan_thread es t ls st1 ks1 = Some (fst (flex_scans st1 ls), ks') \<and> iotb_inv es (key_hub ks')
    \<and> iotb_pending es (key_hub ks') = iotb_pending es (key_hub ks1) @ call_messages (snd (flex_scans st1 ls))
    \<and> key_failed ks' = key_failed ks1 \<and> key_slept ks' = key_slept ks1"
    using Cons.prems ks1(2-4) by (intro Cons.IH) (simp_all add: s s2 msgs)
  then show ?case
    using ks1 by (simp add: s s2 button_scan_def msgs)
qed

lemma scan_cbs:
  "map (\<lambda>q. cb (snd q)) (btns (fst (flex_button_scan l st))) = map (\<lambda>q. cb (snd q)) (btns st)"
  by (rule nth_equalityI) (simp_all add: scan_btns length_process_from process_from_nth frame_simps)

lemma scans_cbs:
  "e \<in> set (snd (flex_scans st ls)) \<Longrightarrow> Some (fst e) \<in> (\<lambda>q. cb (snd q)) ` set (btns st)"
proof (induction ls arbitrary: st)
  case (Cons l ls)
  let ?st = "fst (flex_button_scan l st)"
  have "e \<in> set (snd (flex_button_scan l st)) \<or> e \<in> set (snd (flex_scans ?st ls))"
    using Cons.prems by (simp add: Let_def case_prod_unfold)
  then show ?case
  proof
    assume "e \<in> set (snd (flex_button_scan l st))"
    then obtain j where j: "j < length (btns st)"
      "e \<in> set (snd (flex_process_target (bit (trg (flex_button_read l st)) j) (bit (cont (flex_button_read l st)) j)
        (snd (btns st ! j))))"
      by (auto simp: scan_btns process_from_events)
    then have "cb (snd (btns st ! j)) = Some (fst e)" by (intro process_target_cb)
    then show ?thesis using j(1) by (metis image_eqI nth_mem)
  next
    assume "e \<in> set (snd (flex_scans ?st ls))"
    then have "Some (fst e) \<in> set (map (\<lambda>q. cb (snd q)) (btns ?st))"
      using Cons.IH by simp
    then show ?thesis unfolding scan_cbs by simp
  qed
qed simp

lemma user_calls_lt4:
  "e \<in> set (snd (flex_scans (user_button_init flex_init) ls)) \<Longrightarrow> fst e < 4"
proof -
  assume "e \<in> set (snd (flex_scans (user_button_init flex_init) ls))"
  then obtain b where "Some (fst e) = Some (button_index b)"
    using scans_cbs [of e "user_button_init flex_init" ls]
    by (auto simp: user_button_init_btns idle_button_props)
  then show "fst e < 4" by (cases b) simp_all
qed

lemma call_messages_filter:
  assumes "\<forall>e \<in> set evs. fst e < 4"
  shows "filter (\<lambda>m. event_src m = button_src b) (call_messages evs)
    = call_messages (filter (\<lambda>e. fst e = button_index b) evs)"
  using assms
proof (induction evs rule: call_messages.induct)
  case (2 f ev evs)
  have "f = 0 \<or> f = 1 \<or> f = 2 \<or> f = 3" using 2(3) by auto
  then show ?case
    using 2 by (cases b; cases "btn_event_type ev") auto
qed simp

text \<open>The message types for one press of \<open>k + 1\<close> scans with the thresholds 100, 200 and 300.\<close>

definition gesture_types :: "nat \<Rightarrow> iotb_event_type list" where
  "gesture_types k =
     (if 100 \<le> k then [IOTB_EVENT_TYPE_KEY_SHORT_PRESSED] else [])
     @ (if 200 \<le> k then [IOTB_EVENT_TYPE_KEY_LONG_PRESSED] else [])
     @ (if 300 \<le> k then [IOTB_EVENT_TYPE_KEY_LONG_HOLD] else [])
     @ [if k + 2 < 100 then IOTB_EVENT_TYPE_KEY_CLICK
        else if k + 2 < 200 then IOTB_EVENT_TYPE_KEY_SHORT_PRESSED_UP
        else if k + 2 < 300 then IOTB_EVENT_TYPE_KEY_LONG_PRESSED_UP
        else IOTB_EVENT_TYPE_KEY_LONG_HOLD_UP]"

lemma call_messages_own:
  "call_messages (map (Pair (button_index b)) evs) =
     map (\<lambda>ty. \<lparr>event_src = button_src b, event_type = ty\<rparr>) (List.map_filter btn_event_type evs)"
  by (induction evs) (cases b; auto simp: map_filter_simps split: option.split)+

lemma gesture_messages:
  assumes "\<forall>l \<in> set ls. levels_ok l"
    and "map (\<lambda>l. key_pressed l b) ls = replicate (k + 1) True @ replicate m False"
    and "23 \<le> m" "k + 2 < 65536"
  shows "filter (\<lambda>msg. event_src msg = button_src b) (call_messages (snd (flex_scans (user_button_init flex_init) ls)))
    = map (\<lambda>ty. \<lparr>event_src = button_src b, event_type = ty\<rparr>) (gesture_types k)"
proof -
  have calls: "filter (\<lambda>e. fst e = button_index b) (snd (flex_scans (user_button_init flex_init) ls))
    = map (Pair (button_index b)) (held_events (idle_button b) k @ [release_event (idle_button b) (k + 2)])"
    using user_button_calls [OF assms(1), of b] assms(2-4)
      press_release_run [of "idle_button b" "button_index b" m k]
    by (simp add: idle_button_props)
  have "List.map_filter btn_event_type (held_events (idle_button b) k @ [release_event (idle_button b) (k + 2)])
    = gesture_types k"
    by (simp add: held_events_def release_event_def gesture_types_def idle_button_props map_filter_def)
  then show ?thesis
    using call_messages_filter [of "snd (flex_scans (user_button_init flex_init) ls)" b] user_calls_lt4
    by (simp only: calls call_messages_own) blast
qed

text \<open>A key that is never pressed reports nothing; with only one key pressed, its messages are all.\<close>

lemma unpressed_silent:
  assumes "\<forall>l \<in> set ls. levels_ok l" "\<forall>l \<in> set ls. \<not> key_pressed l c"
  shows "filter (\<lambda>msg. event_src msg = button_src c) (call_messages (snd (flex_scans (user_button_init flex_init) ls))) = []"
proof -
  have "map (\<lambda>l. key_pressed l c) ls = replicate (length ls) False"
    using assms(2) by (intro replicate_eqI) auto
  then have "filter (\<lambda>e. fst e = button_index c) (snd (flex_scans (user_button_init flex_init) ls)) = []"
    using user_button_calls [OF assms(1), of c] idle_run [of "idle_button c" "length ls"]
    by (simp add: idle_button_props)
  then show ?thesis
    using call_messages_filter [of "snd (flex_scans (user_button_init flex_init) ls)" c] user_calls_lt4
    by simp
qed

lemma call_messages_src: "msg \<in> set (call_messages evs) \<Longrightarrow> \<exists>c. event_src msg = button_src c"
proof (induction evs rule: call_messages.induct)
  case (2 f ev evs)
  have "\<exists>c. (if f = 0 then IOTB_EVENT_SRC_KEY0 else if f = 1 then IOTB_EVENT_SRC_KEY1
      else if f = 2 then IOTB_EVENT_SRC_KEY2 else IOTB_EVENT_SRC_KEYWKUP) = button_src c"
    by (metis button_src.simps)
  then show ?case using 2 by (cases "btn_event_type ev") auto
qed simp

lemma button_src_inject: "button_src b = button_src c \<longleftrightarrow> b = c"
  by (cases b; cases c) simp_all

lemma single_key_messages:
  assumes "\<forall>l \<in> set ls. levels_ok l"
    and "map (\<lambda>l. key_pressed l b) ls = replicate (k + 1) True @ replicate m False"
    and "23 \<le> m" "k + 2 < 65536" "\<forall>l \<in> set ls. \<forall>c. c \<noteq> b \<longrightarrow> \<not> key_pressed l c"
  shows "call_messages (snd (flex_scans (user_button_init flex_init) ls))
    = map (\<lambda>ty. \<lparr>event_src = button_src b, event_type = ty\<rparr>) (gesture_types k)"
proof -
  let ?ms = "call_messages (snd (flex_scans (user_button_init flex_init) ls))"
  have "event_src msg = button_src b" if "msg \<in> set ?ms" for msg
  proof -
    from call_messages_src [OF that] obtain c where c: "event_src msg = button_src c" by blast
    have "c = b"
    proof (rule ccontr)
      assume "c \<noteq> b"
      then have "filter (\<lambda>msg. event_src msg = button_src c) ?ms = []"
        using unpressed_silent [OF assms(1), of c] assms(5) by blast
      then show False using that c by (metis (mono_tags, lifting) filter_empty_conv)
    qed
    then show ?thesis using c by simp
  qed
  then have "filter (\<lambda>msg. event_src msg = button_src b) ?ms = ?ms" by (simp add: filter_id_conv)
  then show ?thesis using gesture_messages [OF assms(1-4)] by simp
qed

subsection \<open>Properties\<close>

text \<open>One press of a key, whatever the other keys do meanwhile: after \<open>user_button_init\<close>, a key held for
  \<open>k + 1\<close> scans (fewer than 65535) and then released for at least 23 produces for its source exactly the
  messages of its gesture: SHORT_PRESSED, LONG_PRESSED and LONG_HOLD from 101, 201 and 301 scans on,
  and one CLICK or release message; PRESS_DOWN produces none.\<close>

lemma key_gesture_messages:
  assumes "\<forall>l \<in> set ls. levels_ok l"
    and "map (\<lambda>l. key_pressed l b) ls = replicate (k + 1) True @ replicate m False"
    and "23 \<le> m" "k + 2 < 65536"
  shows "filter (\<lambda>msg. event_src msg = button_src b) (call_messages (snd (flex_scans (user_button_init flex_init) ls)))
    = map (\<lambda>ty. \<lparr>event_src = button_src b, event_type = ty\<rparr>) (gesture_types k)"
  by (rule gesture_messages [OF assms])

text \<open>The levels while KEY0 is pressed and while nothing is pressed.\<close>

definition key0_down :: "nat \<Rightarrow> u8" where
  "key0_down pin = of_bool (pin \<noteq> PIN_KEY0 \<and> pin \<noteq> PIN_WK_UP)"

definition keys_up :: "nat \<Rightarrow> u8" where
  "keys_up pin = of_bool (pin \<noteq> PIN_WK_UP)"

lemma key0_levels_ok: "levels_ok key0_down" "levels_ok keys_up"
proof -
  have "(of_bool P :: u8) = 0 \<or> (of_bool P :: u8) = 1" for P by (cases P) simp_all
  then show "levels_ok key0_down" "levels_ok keys_up"
    unfolding levels_ok_def key0_down_def keys_up_def by blast+
qed

lemma key0_levels: "key_pressed key0_down b \<longleftrightarrow> b = USER_BUTTON_0" "\<not> key_pressed keys_up b"
  by (cases b; simp add: key0_down_def keys_up_def key_pressed_def PIN_KEY0_def PIN_KEY1_def PIN_KEY2_def PIN_WK_UP_def)+

lemma key0_down_run:
  "map (\<lambda>l. key_pressed l USER_BUTTON_0) (replicate n key0_down @ replicate m keys_up) = replicate n True @ replicate m False"
  by (simp add: map_replicate key0_levels)

lemma key0_down_ok: "\<forall>l \<in> set (replicate n key0_down @ replicate m keys_up). levels_ok l"
  by (auto simp: key0_levels_ok)

text \<open>The scan thread delivers: from any state whose hub is enabled and has room for what the scans
  report, the thread runs to the end, and the hub holds its old messages followed by exactly those
  reported, in order; no put fails and the thread never sleeps for a full queue.\<close>

lemma key_scan_delivers:
  assumes "iotb_inv es (key_hub ks)"
    and "length (iotb_pending es (key_hub ks))
        + length (call_messages (snd (flex_scans (user_button_init flex_init) ls))) \<le> iotb_capacity (key_hub ks)"
  shows "\<exists>ks'. button_scan_thread es t ls (user_button_init flex_init) ks
        = Some (fst (flex_scans (user_button_init flex_init) ls), ks')
    \<and> iotb_pending es (key_hub ks')
        = iotb_pending es (key_hub ks) @ call_messages (snd (flex_scans (user_button_init flex_init) ls))
    \<and> key_failed ks' = key_failed ks \<and> key_slept ks' = key_slept ks"
  using button_scan_thread_room [OF assms(1) _ assms(2), of t] user_calls_lt4 by blast

definition example_keys :: key_state where
  "example_keys =
     \<lparr>key_msg = \<lparr>event_src = IOTB_EVENT_SRC_NONE, event_type = IOTB_EVENT_TYPE_NONE\<rparr>,
      key_hub = iotb_start 1, key_slept = 0, key_failed = 0\<rparr>"

lemma example_keys_props:
  "iotb_inv 1 (key_hub example_keys)" "iotb_pending 1 (key_hub example_keys) = []"
  "iotb_capacity (key_hub example_keys) = 2"
  using iotb_start_props [of 1] by (simp_all add: example_keys_def)

lemma key0_click_messages:
  "call_messages (snd (flex_scans (user_button_init flex_init)
      (replicate (9 + 1) key0_down @ replicate 30 keys_up)))
    = [\<lparr>event_src = IOTB_EVENT_SRC_KEY0, event_type = IOTB_EVENT_TYPE_KEY_CLICK\<rparr>]"
proof -
  have types: "gesture_types 9 = [IOTB_EVENT_TYPE_KEY_CLICK]" by (simp add: gesture_types_def)
  have others: "\<forall>l \<in> set (replicate (9 + 1) key0_down @ replicate 30 keys_up). \<forall>c. c \<noteq> USER_BUTTON_0 \<longrightarrow> \<not> key_pressed l c"
    by (auto simp: key0_levels)
  show ?thesis
    using single_key_messages [OF key0_down_ok key0_down_run _ _ others]
    by (simp add: types)
qed

end
