(* ===== verification/LcdMenu.thy ===== *)
theory LcdMenu
  imports IotbEvent "HOL-Library.Monad_Syntax"
begin

text \<open>
  The display thread \<open>applications/iotb_lcd_process.c\<close>: three pages (song list of the web server, player,
  file system), the page state machine of \<open>iotb_lcd_show\<close> that polls the key flags, and the handler of
  each page with its calls to the display and to the player, kept as a log. What the code gets from
  outside (web client, JSON parser, file system) is the record \<open>lcd_env\<close>. A NULL or out-of-range
  access is the result \<open>None\<close>.
\<close>

subsection \<open>State\<close>

datatype content_type = IOTB_LCD_CONTENT_NONE | IOTB_LCD_STATIC_CONTENT | IOTB_LCD_DYNAMIC_CONTENT

record iotb_lcd_menu =
  menu :: u16
  refresh_time :: u16
  content_type :: content_type
  current_event :: iotb_lcd_event

datatype colour = WHITE | BLACK | BLUE | RED | GRAY240

datatype lcd_effect =
    Lcd_clear colour
  | Lcd_set_color colour colour
  | Lcd_show_string u16 u16 nat string
  | Lcd_show_num u16 u16 int nat
  | Lcd_draw_line u16 u16 u16 u16
  | Lcd_draw_rectangle u16 u16 u16 u16
  | Lcd_show_image u16 u16 u16 u16 string
  | Wav_play string | Wav_stop | Wav_pause | Wav_resume | Wav_volume int
  | Web_get string | Web_read int | Web_close | Web_get_file string string
  | Heap_write nat nat

text \<open>\<open>Heap_write n k\<close> is a write of \<open>k\<close> bytes into a heap block of \<open>n\<close>. The song list is an array of pointers
  to 30-byte blocks: the outer \<open>None\<close> is the NULL array, an inner \<open>None\<close> a NULL entry; a stored name of
  30 characters has no terminator.\<close>

record lcd_state =
  lcd_instance :: "iotb_lcd_menu list"
  iotb_lcd_menu_index :: u8
  show_menu_index :: u8
  show_cnt :: u16
  songlist :: "string option list option"
  item_num :: int
  songlist_num :: int
  iotb_music_is_play :: bool
  iotb_music_is_resume :: bool
  volume_value :: int
  lcd_fds :: nat
  lcd_log :: "lcd_effect list"

datatype web_reply = Bad_json | No_list | Song_array "string list"

record lcd_env =
  env_url_ok :: bool
  env_session_ok :: bool
  env_get_status :: int
  env_buffer_ok :: bool
  env_memory :: nat
  env_content_length :: int
  env_reads :: "int list"
  env_reply :: web_reply
  env_open :: "nat \<Rightarrow> string \<Rightarrow> bool"
  env_download :: "string \<Rightarrow> string \<Rightarrow> bool"
  env_dir :: "(string \<times> int) list option"

text \<open>\<open>env_memory\<close> is the number of allocations that still succeed when a page's own blocks are asked for.
  \<open>env_open n s\<close> says whether \<open>open\<close> succeeds on \<open>s\<close> when \<open>n\<close> descriptors were left open before.\<close>

definition IOTB_LCD_MENU_MAX :: nat where "IOTB_LCD_MENU_MAX = 3"
definition WEBSERVER_URL :: string where "WEBSERVER_URL = ''http://123.207.116.104:1234/dir''"
definition DOWNLOAD_URL :: string where "DOWNLOAD_URL = ''http://123.207.116.104:9999/''"
definition GET_RESP_BUFSZ :: int where "GET_RESP_BUFSZ = 1024"

definition emit :: "lcd_effect list \<Rightarrow> lcd_state \<Rightarrow> lcd_state" where
  "emit es st = st\<lparr>lcd_log := lcd_log st @ es\<rparr>"

definition the_menu :: "nat \<Rightarrow> lcd_state \<Rightarrow> iotb_lcd_menu" where
  "the_menu i st = lcd_instance st ! i"

definition set_menu :: "nat \<Rightarrow> (iotb_lcd_menu \<Rightarrow> iotb_lcd_menu) \<Rightarrow> lcd_state \<Rightarrow> lcd_state" where
  "set_menu i f st = st\<lparr>lcd_instance := (lcd_instance st)[i := f (lcd_instance st ! i)]\<rparr>"

definition set_event :: "nat \<Rightarrow> iotb_lcd_event \<Rightarrow> lcd_state \<Rightarrow> lcd_state" where
  "set_event i e = set_menu i (\<lambda>m. m\<lparr>current_event := e\<rparr>)"

definition set_content :: "nat \<Rightarrow> content_type \<Rightarrow> lcd_state \<Rightarrow> lcd_state" where
  "set_content i c = set_menu i (\<lambda>m. m\<lparr>content_type := c\<rparr>)"

text \<open>Reading \<open>songlist[i]\<close> as a C string.\<close>

definition song :: "lcd_state \<Rightarrow> int \<Rightarrow> string option" where
  "song st i =
     (case songlist st of
        None \<Rightarrow> None
      | Some xs \<Rightarrow>
          if 0 \<le> i \<and> nat i < length xs
          then (case xs ! nat i of None \<Rightarrow> None | Some s \<Rightarrow> if length s < 30 then Some s else None)
          else None)"

definition row_y :: "int \<Rightarrow> u16" where
  "row_y n = word_of_int (52 + 31 * n)"

definition blank20 :: string where
  "blank20 = replicate 20 CHR '' ''"

definition blank12 :: string where
  "blank12 = replicate 12 CHR '' ''"

subsection \<open>The song list page\<close>

text \<open>The loop that shows and stores the names; \<open>rt_memcpy\<close> copies 30 bytes.\<close>

fun show_names :: "nat \<Rightarrow> string list \<Rightarrow> lcd_effect list" where
  "show_names cnt [] = []"
| "show_names cnt (s # ss) =
     [Lcd_set_color WHITE BLACK,
      Lcd_show_string 8 (row_y (int cnt)) 24 s,
      Lcd_set_color WHITE GRAY240,
      Lcd_draw_line 8 (row_y (int cnt) - 4) (240 - 8) (row_y (int cnt) - 4)]
     @ show_names (Suc cnt) ss"

text \<open>The blocks of the list and of each name are not checked: when one is missing, a NULL pointer is written through.\<close>

fun copy_names :: "nat \<Rightarrow> string list \<Rightarrow> string option list option" where
  "copy_names mem [] = Some []"
| "copy_names 0 (s # ss) = None"
| "copy_names (Suc mem) (s # ss) = map_option ((#) (Some (take 30 s))) (copy_names mem ss)"

definition new_songlist :: "nat \<Rightarrow> string list \<Rightarrow> string option list option" where
  "new_songlist mem names = (case mem of 0 \<Rightarrow> None | Suc mem \<Rightarrow> copy_names mem names)"

definition webserver_data_parse :: "nat \<Rightarrow> web_reply \<Rightarrow> lcd_state \<Rightarrow> lcd_state option" where
  "webserver_data_parse mem reply st =
     (case reply of
        Bad_json \<Rightarrow> Some st
      | No_list \<Rightarrow> Some st
      | Song_array names \<Rightarrow>
          let n = (if int (length names) > 6 then 6 else int (length names));
              st1 = st\<lparr>item_num := n\<rparr>
          in if n > 0 then do {
               xs \<leftarrow> new_songlist mem (take (nat n) names);
               let st2 = emit ([Lcd_show_string 48 80 24 blank12] @ show_names 0 (take (nat n) names)) (st1\<lparr>songlist := Some xs\<rparr>);
               s \<leftarrow> song st2 (songlist_num st2);
               Some (emit
                 [Lcd_draw_line 8 (row_y n - 4) (240 - 8) (row_y n - 4),
                  Lcd_set_color BLUE WHITE,
                  Lcd_show_string 0 (row_y (songlist_num st2)) 24 blank20,
                  Lcd_show_string 8 (row_y (songlist_num st2)) 24 s] st2)
             }
             else
               Some (emit [Lcd_set_color WHITE BLACK,
                           Lcd_show_string 48 80 24 blank12,
                           Lcd_show_string 78 80 24 ''No Data''] st1))"

text \<open>The sizes asked from \<open>webclient_read\<close>; a missing element of \<open>env_reads\<close> is the end of the data.\<close>

fun read_chunked :: "int list \<Rightarrow> int list" where
  "read_chunked [] = [GET_RESP_BUFSZ]"
| "read_chunked (r # rs) = GET_RESP_BUFSZ # (if r \<le> 0 then [] else read_chunked rs)"

definition read_size :: "int \<Rightarrow> int \<Rightarrow> int" where
  "read_size len pos = (if len - pos > GET_RESP_BUFSZ then GET_RESP_BUFSZ else len - pos)"

fun read_fixed :: "int \<Rightarrow> int \<Rightarrow> int list \<Rightarrow> int list" where
  "read_fixed len pos [] = [read_size len pos]"
| "read_fixed len pos (r # rs) =
     read_size len pos # (if r \<le> 0 then [] else if pos + r < len then read_fixed len (pos + r) rs else [])"

definition fetch_songs :: "lcd_env \<Rightarrow> lcd_state \<Rightarrow> lcd_state option" where
  "fetch_songs env st =
     (let sizes = (if env_content_length env < 0 then read_chunked (env_reads env)
                   else read_fixed (env_content_length env) 0 (env_reads env))
      in webserver_data_parse (env_memory env) (env_reply env) (emit (map Web_read sizes) st))"

text \<open>The second component says whether the code jumped to \<open>__exit\<close>.\<close>

definition connect_server :: "lcd_env \<Rightarrow> lcd_state \<Rightarrow> (lcd_state \<times> bool) option" where
  "connect_server env st =
     (if \<not> env_url_ok env then Some (st, True)
      else if \<not> env_session_ok env then Some (st, True)
      else
        let st1 = emit [Web_get WEBSERVER_URL] st
        in if env_get_status env \<noteq> 200 then Some (st1, True)
           else if \<not> env_buffer_ok env then Some (st1, True)
           else map_option (\<lambda>st2. (st2, False)) (fetch_songs env st1))"

definition next_song :: "nat \<Rightarrow> lcd_state \<Rightarrow> lcd_state option" where
  "next_song i st = do {
     st1 \<leftarrow>
       (if songlist_num st \<le> item_num st - 1 then
          let st = st\<lparr>songlist_num := songlist_num st + 1\<rparr>
          in do {
               s \<leftarrow> song st (songlist_num st - 1);
               Some (set_event i IOTB_LCD_EVENT_NONE
                 (emit [Lcd_set_color WHITE BLACK,
                        Lcd_show_string 0 (row_y (songlist_num st - 1)) 24 blank20,
                        Lcd_show_string 8 (row_y (songlist_num st - 1)) 24 s] st))
             }
        else Some st);
     st2 \<leftarrow>
       (if songlist_num st1 > item_num st1 - 1 then
          let st = st1\<lparr>songlist_num := 0\<rparr>
          in do {
               s \<leftarrow> song st (item_num st - 1);
               Some (emit [Lcd_set_color WHITE BLACK,
                           Lcd_show_string 0 (row_y (item_num st - 1)) 24 blank20,
                           Lcd_show_string 8 (row_y (item_num st - 1)) 24 s] st)
             }
        else Some st1);
     s \<leftarrow> song st2 (songlist_num st2);
     Some (set_event i IOTB_LCD_EVENT_NONE
       (emit [Lcd_set_color BLUE WHITE,
              Lcd_show_string 0 (row_y (songlist_num st2)) 24 blank20,
              Lcd_show_string 8 (row_y (songlist_num st2)) 24 s] st2))
   }"

definition last_song :: "nat \<Rightarrow> lcd_state \<Rightarrow> lcd_state option" where
  "last_song i st = do {
     st1 \<leftarrow>
       (if songlist_num st \<ge> 0 then
          let st = st\<lparr>songlist_num := songlist_num st - 1\<rparr>
          in do {
               s \<leftarrow> song st (songlist_num st + 1);
               Some (emit [Lcd_set_color WHITE BLACK,
                           Lcd_show_string 0 (row_y (songlist_num st + 1)) 24 blank20,
                           Lcd_show_string 8 (row_y (songlist_num st + 1)) 24 s] st)
             }
        else Some st);
     st2 \<leftarrow>
       (if songlist_num st1 < 0 then
          let st = st1\<lparr>songlist_num := item_num st1 - 1\<rparr>
          in do {
               s \<leftarrow> song st (songlist_num st);
               Some (emit [Lcd_set_color WHITE BLACK,
                           Lcd_show_string 0 (row_y (songlist_num st)) 24 blank20,
                           Lcd_show_string 8 (row_y (songlist_num st)) 24 s] st)
             }
        else Some st1);
     s \<leftarrow> song st2 (songlist_num st2);
     Some (set_event i IOTB_LCD_EVENT_NONE
       (emit [Lcd_set_color BLUE WHITE,
              Lcd_show_string 0 (row_y (songlist_num st2)) 24 blank20,
              Lcd_show_string 8 (row_y (songlist_num st2)) 24 s] st2))
   }"

text \<open>The part of the handler between the download and \<open>__exit\<close>.\<close>

definition select_song :: "nat \<Rightarrow> lcd_state \<Rightarrow> lcd_state option" where
  "select_song i st = do {
     st1 \<leftarrow> (if current_event (the_menu i st) = IOTB_LCD_EVENT_NEXTSONG then next_song i st else Some st);
     st2 \<leftarrow> (if current_event (the_menu i st1) = IOTB_LCD_EVENT_LASTSONG then last_song i st1 else Some st1);
     Some (if current_event (the_menu i st2) = IOTB_LCD_EVENT_EXIT then emit [Wav_stop] st2 else st2)
   }"

definition connects :: "nat \<Rightarrow> lcd_state \<Rightarrow> bool" where
  "connects i st \<longleftrightarrow> current_event (the_menu i st) = IOTB_LCD_EVENT_ENTER
     \<or> content_type (the_menu i st) = IOTB_LCD_STATIC_CONTENT"

definition web_page :: "nat \<Rightarrow> lcd_state \<Rightarrow> lcd_state" where
  "web_page i st =
     (if content_type (the_menu i st) = IOTB_LCD_STATIC_CONTENT
      then emit [Lcd_clear WHITE, Lcd_set_color WHITE BLACK,
                 Lcd_show_string 40 8 32 ''Web Server'',
                 Lcd_show_string 48 80 24 ''Searching...''] st
      else st)"

definition iotb_lcd_show_httpwebserver :: "lcd_env \<Rightarrow> nat \<Rightarrow> lcd_state \<Rightarrow> lcd_state option" where
  "iotb_lcd_show_httpwebserver env i st = do {
     let st1 = web_page i st;
     (st2, exit) \<leftarrow> (if connects i st1 then connect_server env st1 else Some (st1, False));
     st3 \<leftarrow> (if exit then Some st2 else select_song i st2);
     Some (if connects i st1 \<and> env_url_ok env \<and> env_session_ok env then emit [Web_close] st3 else st3)
   }"

subsection \<open>The player page\<close>

definition volume_bar :: "int \<Rightarrow> lcd_effect list" where
  "volume_bar v =
     concat (map (\<lambda>i. (if i = v div 5 then [Lcd_set_color WHITE GRAY240] else [])
                       @ [Lcd_show_string (word_of_int (64 + 8 * i)) 214 16 ''>'']) [0..18])"

definition album_image :: "string \<Rightarrow> lcd_effect list" where
  "album_image s =
     (if s = ''fangjian.wav'' then [Lcd_show_image 41 52 158 118 ''gImage_fangjian2'']
      else if s = ''gaobaiqiqiu.wav'' then [Lcd_show_image 41 52 158 118 ''gImage_gaobaiqiqiu2'']
      else if s = ''jiandanai.wav'' then [Lcd_show_image 41 52 158 118 ''gImage_jiandanai2'']
      else if s = ''mingmingjiu.wav'' then [Lcd_show_image 41 52 158 118 ''gImage_mingmingjiu2'']
      else if s = ''xiatiandefeng.wav'' then [Lcd_show_image 41 52 158 118 ''gImage_xiatiandefeng2'']
      else if s = ''yuebanxiaoyequ.wav'' then [Lcd_show_image 41 52 158 118 ''gImage_yuebanxiaoyequ2'']
      else [Lcd_set_color WHITE GRAY240,
            Lcd_draw_rectangle 41 52 199 159,
            Lcd_draw_line 41 52 199 159,
            Lcd_draw_line 199 52 45 159,
            Lcd_show_string 72 99 24 ''No Album''])"

text \<open>The horizontal position is computed in unsigned arithmetic and passed as 16 bits.\<close>

definition title_x :: "string \<Rightarrow> u16" where
  "title_x s = ucast ((240 - of_nat (length s) * 12 :: u32) div 2)"

definition enter_music :: "lcd_env \<Rightarrow> nat \<Rightarrow> lcd_state \<Rightarrow> lcd_state option" where
  "enter_music env i st = do {
     s \<leftarrow> song st (songlist_num st);
     let st1 = emit ([Lcd_set_color WHITE BLACK] @ album_image s) st;
     st2 \<leftarrow>
       (if env_open env (lcd_fds st1) s then
          Some (emit [Wav_play s, Lcd_set_color WHITE BLACK, Lcd_show_string (title_x s) 179 24 s]
            (st1\<lparr>lcd_fds := lcd_fds st1 + 1, iotb_music_is_play := True\<rparr>))
        else if env_memory env = 0 then None
        else
          let url = DOWNLOAD_URL @ s;
              st3 = emit [Lcd_set_color WHITE BLACK, Lcd_show_string 60 179 24 ''Caching...'',
                          Heap_write (length DOWNLOAD_URL + length s) (length url + 1),
                          Web_get_file url s] st1
          in Some (if env_download env url s then
               emit [Wav_play s, Lcd_set_color WHITE BLACK, Lcd_show_string 0 179 24 blank20,
                     Lcd_show_string (title_x s) 179 24 s]
                 (st3\<lparr>iotb_music_is_play := True\<rparr>)
             else st3));
     Some (set_event i IOTB_LCD_EVENT_NONE st2)
   }"

definition toggle_play :: "nat \<Rightarrow> lcd_state \<Rightarrow> lcd_state option" where
  "toggle_play i st =
     (if iotb_music_is_play st
      then Some (set_event i IOTB_LCD_EVENT_NONE (emit [Wav_stop] (st\<lparr>iotb_music_is_play := False\<rparr>)))
      else do {
        s \<leftarrow> song st (songlist_num st);
        Some (set_event i IOTB_LCD_EVENT_NONE (emit [Wav_play s] (st\<lparr>iotb_music_is_play := True\<rparr>)))
      })"

definition toggle_pause :: "nat \<Rightarrow> lcd_state \<Rightarrow> lcd_state" where
  "toggle_pause i st =
     (if iotb_music_is_resume st
      then set_event i IOTB_LCD_EVENT_NONE (emit [Wav_pause] (st\<lparr>iotb_music_is_resume := False\<rparr>))
      else set_event i IOTB_LCD_EVENT_NONE (emit [Wav_resume] (st\<lparr>iotb_music_is_resume := True\<rparr>)))"

definition volume_down :: "nat \<Rightarrow> lcd_state \<Rightarrow> lcd_state" where
  "volume_down i st =
     (let v = volume_value st - 5
      in set_event i IOTB_LCD_EVENT_NONE
           (if volume_value st > 10 then
              emit [Wav_volume v, Lcd_set_color WHITE GRAY240,
                    Lcd_show_string (word_of_int (224 - 8 * (20 - v div 5))) 214 16 ''>'',
                    Lcd_set_color WHITE BLACK, Lcd_show_num 216 214 v 16]
                (st\<lparr>volume_value := v\<rparr>)
            else st))"

definition volume_up :: "nat \<Rightarrow> lcd_state \<Rightarrow> lcd_state" where
  "volume_up i st =
     (let v = volume_value st + 5
      in set_event i IOTB_LCD_EVENT_NONE
           (if volume_value st < 95 then
              emit [Wav_volume v, Lcd_set_color WHITE RED,
                    Lcd_show_string (word_of_int (64 + 8 * (v div 5 - 1))) 214 16 ''>'',
                    Lcd_set_color WHITE BLACK, Lcd_show_num 216 214 v 16]
                (st\<lparr>volume_value := v\<rparr>)
            else st))"

definition music_page :: "nat \<Rightarrow> lcd_state \<Rightarrow> lcd_state" where
  "music_page i st =
     (if content_type (the_menu i st) = IOTB_LCD_STATIC_CONTENT
      then emit ([Lcd_clear WHITE, Lcd_set_color WHITE BLACK,
                  Lcd_show_string 40 8 32 ''Wav Player'', Lcd_set_color WHITE BLACK,
                  Lcd_show_num 216 214 (volume_value st) 16,
                  Lcd_show_string 8 214 16 ''Volume:'', Lcd_set_color WHITE RED]
                 @ volume_bar (volume_value st)) st
      else st)"

text \<open>The pause, volume and exit parts of the handler, in the order of the code.\<close>

definition music_controls :: "nat \<Rightarrow> lcd_state \<Rightarrow> lcd_state" where
  "music_controls i st =
     (let st1 = (if current_event (the_menu i st) = IOTB_LCD_EVENT_KEY1_DOUBLE_CLICK then toggle_pause i st else st);
          st2 = (if current_event (the_menu i st1) = IOTB_LCD_EVENT_KEY1_CLICK then volume_down i st1 else st1);
          st3 = (if current_event (the_menu i st2) = IOTB_LCD_EVENT_WKUP_CLICK then volume_up i st2 else st2)
      in if current_event (the_menu i st3) = IOTB_LCD_EVENT_EXIT
         then emit [Wav_stop] (st3\<lparr>iotb_music_is_play := False\<rparr>) else st3)"

definition iotb_lcd_show_music :: "lcd_env \<Rightarrow> nat \<Rightarrow> lcd_state \<Rightarrow> lcd_state option" where
  "iotb_lcd_show_music env i st = do {
     let st0 = music_page i st;
     st1 \<leftarrow> (if current_event (the_menu i st0) = IOTB_LCD_EVENT_ENTER then enter_music env i st0 else Some st0);
     st2 \<leftarrow> (if current_event (the_menu i st1) = IOTB_LCD_EVENT_WKUP_DOUBLE_CLICK then toggle_play i st1 else Some st1);
     Some (music_controls i st2)
   }"

subsection \<open>The file system page\<close>

text \<open>The loop that frees the names reads \<open>songlist[cnt]\<close> for every \<open>cnt < item_num\<close>.\<close>

definition free_songs :: "lcd_state \<Rightarrow> lcd_state option" where
  "free_songs st =
     (case songlist st of
        None \<Rightarrow> if item_num st > 0 then None else Some st
      | Some xs \<Rightarrow>
          if item_num st > int (length xs) then None else Some (st\<lparr>songlist := None\<rparr>))"

definition name_field :: "string \<Rightarrow> string" where
  "name_field s = take 15 (s @ replicate (16 - length s) CHR '' '')"

fun show_dir :: "nat \<Rightarrow> (string \<times> int) list \<Rightarrow> lcd_effect list" where
  "show_dir line [] = []"
| "show_dir line ((name, ty) # ds) =
     [Lcd_set_color WHITE BLACK, Lcd_show_string 8 (row_y (int line)) 24 (name_field name)]
     @ (if ty = 1 then [Lcd_set_color WHITE GRAY240, Lcd_show_string (240 - 48) (row_y (int line)) 24 ''file'']
        else if ty = 2 then [Lcd_set_color WHITE GRAY240, Lcd_show_string (240 - 48) (row_y (int line)) 24 ''dir '']
        else [])
     @ [Lcd_set_color WHITE GRAY240,
        Lcd_draw_line 8 (row_y (int line) - 4) (240 - 8) (row_y (int line) - 4),
        Lcd_draw_line 8 (row_y (int (line + 1)) - 4) (240 - 8) (row_y (int (line + 1)) - 4)]
     @ (if line + 1 > 5 then [] else show_dir (line + 1) ds)"

definition iotb_lcd_show_sdcard :: "lcd_env \<Rightarrow> nat \<Rightarrow> lcd_state \<Rightarrow> lcd_state option" where
  "iotb_lcd_show_sdcard env i st = do {
     st1 \<leftarrow>
       (if content_type (the_menu i st) = IOTB_LCD_STATIC_CONTENT
        then free_songs (emit [Lcd_clear WHITE, Lcd_set_color WHITE BLACK,
                               Lcd_show_string 32 8 32 ''File System''] st)
        else Some st);
     Some (case env_dir env of
             None \<Rightarrow> emit [Lcd_show_string 24 (52 + 27 * 2) 24 '' Insert SD card'',
                           Lcd_show_string 24 (52 + 27 * 3) 24 '' before power-on''] st1
           | Some ds \<Rightarrow> emit (show_dir 0 ds) st1)
   }"

subsection \<open>The pages and their state machine\<close>

definition menu_refresh_time :: "u16 list" where
  "menu_refresh_time = [5, 5, 5, 0]"

definition lcd_handle :: "lcd_env \<Rightarrow> nat \<Rightarrow> lcd_state \<Rightarrow> lcd_state option" where
  "lcd_handle env i st =
     (if i = 1 then iotb_lcd_show_httpwebserver env i st
      else if i = 2 then iotb_lcd_show_music env i st
      else if i = 3 then iotb_lcd_show_sdcard env i st
      else None)"

definition iotb_lcd_menu_init :: "lcd_state \<Rightarrow> lcd_state" where
  "iotb_lcd_menu_init st =
     st\<lparr>lcd_instance :=
          \<lparr>menu = 0, refresh_time = 0, content_type = IOTB_LCD_CONTENT_NONE, current_event = IOTB_LCD_EVENT_KEY2_CLICK\<rparr>
          # map (\<lambda>i. \<lparr>menu = of_nat i, refresh_time = menu_refresh_time ! i,
                     content_type = IOTB_LCD_CONTENT_NONE, current_event = IOTB_LCD_EVENT_NONE\<rparr>)
              [1, 2, 3]\<rparr>"

definition iotb_lcd_update_menu_index :: "u8 \<Rightarrow> lcd_state \<Rightarrow> lcd_state" where
  "iotb_lcd_update_menu_index k st = st\<lparr>iotb_lcd_menu_index := k\<rparr>"

definition iotb_lcd_get_menu_index :: "lcd_state \<Rightarrow> u8" where
  "iotb_lcd_get_menu_index st = iotb_lcd_menu_index st"

text \<open>Leaving and entering a page; \<open>leave_menu\<close> reads the shared index into the local one.\<close>

definition leave_menu :: "lcd_env \<Rightarrow> lcd_state \<Rightarrow> lcd_state option" where
  "leave_menu env st =
     (let k = iotb_lcd_get_menu_index st; i = unat k
      in lcd_handle env i
           (set_event i IOTB_LCD_EVENT_EXIT (set_content i IOTB_LCD_CONTENT_NONE (st\<lparr>show_menu_index := k\<rparr>))))"

definition enter_menu :: "lcd_env \<Rightarrow> u8 \<Rightarrow> lcd_state \<Rightarrow> lcd_state option" where
  "enter_menu env k st = do {
     let i = unat k;
     st1 \<leftarrow> lcd_handle env i
       (set_event i IOTB_LCD_EVENT_ENTER (set_content i IOTB_LCD_STATIC_CONTENT
         (iotb_lcd_update_menu_index k (st\<lparr>show_menu_index := k\<rparr>))));
     Some (st1\<lparr>show_cnt := refresh_time (the_menu i st1)\<rparr>)
   }"

definition has :: "u32 \<Rightarrow> iotb_lcd_event \<Rightarrow> bool" where
  "has ev e \<longleftrightarrow> ev AND lcd_value e \<noteq> 0"

definition next_page :: "u8 \<Rightarrow> u8" where
  "next_page k =
     (let k1 = k + 1; k2 = (if k1 = 2 then k1 + 1 else k1)
      in if k2 > of_nat IOTB_LCD_MENU_MAX then 1 else k2)"

definition key_clicked :: "u32 \<Rightarrow> bool" where
  "key_clicked ev \<longleftrightarrow> has ev IOTB_LCD_EVENT_KEY2_CLICK \<or> has ev IOTB_LCD_EVENT_KEY1_CLICK
     \<or> has ev IOTB_LCD_EVENT_WKUP_CLICK"

definition key_double_clicked :: "u32 \<Rightarrow> bool" where
  "key_double_clicked ev \<longleftrightarrow> has ev IOTB_LCD_EVENT_KEY2_DOUBLE_CLICK \<or> has ev IOTB_LCD_EVENT_KEY1_DOUBLE_CLICK
     \<or> has ev IOTB_LCD_EVENT_WKUP_DOUBLE_CLICK"

definition on_click :: "lcd_env \<Rightarrow> u32 \<Rightarrow> lcd_state \<Rightarrow> lcd_state option" where
  "on_click env ev st = do {
     let i = unat (show_menu_index st);
     let st1 =
       (if i = 1 then
          set_event i
            (if has ev IOTB_LCD_EVENT_KEY2_CLICK then IOTB_LCD_EVENT_DOWNLOAD
             else if has ev IOTB_LCD_EVENT_KEY1_CLICK then IOTB_LCD_EVENT_NEXTSONG
             else IOTB_LCD_EVENT_LASTSONG)
            (set_content i IOTB_LCD_DYNAMIC_CONTENT st)
        else st);
     (if i = 2 then
        let st2 = set_content i IOTB_LCD_DYNAMIC_CONTENT st1
        in if has ev IOTB_LCD_EVENT_KEY2_CLICK then do {
             st3 \<leftarrow> leave_menu env st2;
             enter_menu env (show_menu_index st3 - 1) st3
           }
           else if has ev IOTB_LCD_EVENT_KEY1_CLICK then Some (set_event i IOTB_LCD_EVENT_KEY1_CLICK st2)
           else Some (set_event i IOTB_LCD_EVENT_WKUP_CLICK st2)
      else Some st1)
   }"

definition on_double_click :: "u32 \<Rightarrow> lcd_state \<Rightarrow> lcd_state" where
  "on_double_click ev st =
     (let i = unat (show_menu_index st)
      in set_event i
           (if has ev IOTB_LCD_EVENT_KEY2_DOUBLE_CLICK then IOTB_LCD_EVENT_KEY2_DOUBLE_CLICK
            else if has ev IOTB_LCD_EVENT_KEY1_DOUBLE_CLICK then IOTB_LCD_EVENT_KEY1_DOUBLE_CLICK
            else IOTB_LCD_EVENT_WKUP_DOUBLE_CLICK)
           (set_content i IOTB_LCD_DYNAMIC_CONTENT st))"

text \<open>The \<open>if\<close> chain of \<open>iotb_lcd_show\<close> for the received flags.\<close>

definition on_event :: "lcd_env \<Rightarrow> u32 \<Rightarrow> lcd_state \<Rightarrow> lcd_state option" where
  "on_event env ev st =
     (if has ev IOTB_LCD_EVENT_NEXT then do {
        st1 \<leftarrow> leave_menu env st;
        enter_menu env (next_page (show_menu_index st1)) st1
      }
      else if has ev IOTB_LCD_EVENT_MUSIC_PLAY then
        (if show_menu_index st = 1 then do {
           st1 \<leftarrow> leave_menu env st;
           enter_menu env (show_menu_index st1 + 1) st1
         }
         else Some st)
      else if has ev IOTB_LCD_EVENT_EXIT then do {
        let i = unat (show_menu_index st);
        st1 \<leftarrow> lcd_handle env i (set_event i IOTB_LCD_EVENT_EXIT (set_content i IOTB_LCD_CONTENT_NONE st));
        Some ((set_event i IOTB_LCD_EVENT_NONE st1)\<lparr>show_cnt := 0\<rparr>)
      }
      else if key_clicked ev then on_click env ev st
      else if key_double_clicked ev then Some (on_double_click ev st)
      else Some st)"

definition iotb_lcd_event_get :: "rt_event \<Rightarrow> u32 \<Rightarrow> u8 \<Rightarrow> 32 word \<Rightarrow> event_result" where
  "iotb_lcd_event_get lcd want clr timeout =
     rt_event_recv lcd 0 0 want
       (if clr \<noteq> 0 then RT_EVENT_FLAG_OR OR RT_EVENT_FLAG_CLEAR else RT_EVENT_FLAG_OR) timeout None"

definition refresh :: "lcd_env \<Rightarrow> lcd_state \<Rightarrow> lcd_state option" where
  "refresh env st =
     (let i = unat (show_menu_index st)
      in if content_type (the_menu i st) = IOTB_LCD_DYNAMIC_CONTENT \<and> show_cnt st \<ge> refresh_time (the_menu i st)
         then lcd_handle env i (st\<lparr>show_cnt := 0\<rparr>) else Some st)"

definition count_round :: "lcd_state \<Rightarrow> lcd_state" where
  "count_round st =
     (if content_type (the_menu (unat (show_menu_index st)) st) = IOTB_LCD_DYNAMIC_CONTENT
      then st\<lparr>show_cnt := show_cnt st + 1\<rparr> else st)"

text \<open>One round of the loop: poll the flags without waiting, act on them, refresh, sleep, count.\<close>

definition iotb_lcd_show_round :: "lcd_env \<Rightarrow> rt_event \<Rightarrow> lcd_state \<Rightarrow> (rt_event \<times> lcd_state) option" where
  "iotb_lcd_show_round env lcd st =
     (case iotb_lcd_event_get lcd (NOT (lcd_value IOTB_LCD_EVENT_NONE)) 1 0 of
        Ev_return r got lcd' \<Rightarrow> do {
          st1 \<leftarrow> (case got of Some ev \<Rightarrow> if r = 0 then on_event env ev st else Some st | None \<Rightarrow> Some st);
          st2 \<leftarrow> refresh env st1;
          Some (lcd', count_round st2)
        }
      | Ev_wait lcd' \<Rightarrow> None
      | Ev_assert \<Rightarrow> None)"

text \<open>The part of \<open>iotb_lcd_show\<close> before the loop.\<close>

definition iotb_lcd_show_start :: "lcd_env \<Rightarrow> lcd_state \<Rightarrow> lcd_state option" where
  "iotb_lcd_show_start env st =
     lcd_handle env 1
       (set_event 1 IOTB_LCD_EVENT_NONE (set_content 1 IOTB_LCD_STATIC_CONTENT
         (st\<lparr>show_menu_index := 1, show_cnt := 0\<rparr>)))"

definition lcd_boot :: lcd_state where
  "lcd_boot = iotb_lcd_menu_init
     \<lparr>lcd_instance = [], iotb_lcd_menu_index = 1, show_menu_index = 1, show_cnt = 0, songlist = None,
      item_num = 0, songlist_num = 0, iotb_music_is_play = False, iotb_music_is_resume = False,
      volume_value = 55, lcd_fds = 0, lcd_log = []\<rparr>"

subsection \<open>What the handlers leave alone\<close>

definition pages :: "lcd_state \<Rightarrow> u8 \<times> u8 \<times> u16 list" where
  "pages st = (show_menu_index st, iotb_lcd_menu_index st, map refresh_time (lcd_instance st))"

lemma pages_set_menu:
  assumes "\<And>m. refresh_time (f m) = refresh_time m"
  shows "pages (set_menu i f st) = pages st"
proof -
  have "map refresh_time ((lcd_instance st)[i := f (lcd_instance st ! i)]) = map refresh_time (lcd_instance st)"
    by (cases "i < length (lcd_instance st)") (simp_all add: map_update assms list_update_same_conv list_update_beyond)
  then show ?thesis by (simp add: pages_def set_menu_def)
qed

lemma pages_simps [frame_simps]:
  "pages (emit es st) = pages st" "pages (set_event i e st) = pages st" "pages (set_content i c st) = pages st"
  "pages (st\<lparr>songlist := a\<rparr>) = pages st" "pages (st\<lparr>item_num := n\<rparr>) = pages st"
  "pages (st\<lparr>songlist_num := n\<rparr>) = pages st" "pages (st\<lparr>iotb_music_is_play := b\<rparr>) = pages st"
  "pages (st\<lparr>iotb_music_is_resume := b\<rparr>) = pages st" "pages (st\<lparr>volume_value := v\<rparr>) = pages st"
  "pages (st\<lparr>lcd_fds := k\<rparr>) = pages st" "pages (st\<lparr>show_cnt := w\<rparr>) = pages st"
  by (simp_all add: emit_def set_event_def set_content_def pages_set_menu) (simp_all add: pages_def)

lemma volume_simps [frame_simps]:
  "volume_value (emit es st) = volume_value st" "volume_value (set_event i e st) = volume_value st"
  "volume_value (set_content i c st) = volume_value st"
  by (simp_all add: emit_def set_event_def set_content_def set_menu_def)

definition volume_ok :: "int \<Rightarrow> bool" where
  "volume_ok v \<longleftrightarrow> 10 \<le> v \<and> v \<le> 95 \<and> v mod 5 = 0"

lemma volume_ok_step:
  "volume_ok v \<Longrightarrow> v > 10 \<Longrightarrow> volume_ok (v - 5)" "volume_ok v \<Longrightarrow> v < 95 \<Longrightarrow> volume_ok (v + 5)"
  unfolding volume_ok_def by presburger+

text \<open>\<open>kept st st'\<close>: the page indices and refresh times are the same and the volume stays legal.\<close>

definition kept :: "lcd_state \<Rightarrow> lcd_state \<Rightarrow> bool" where
  "kept st st' \<longleftrightarrow> pages st' = pages st \<and> (volume_ok (volume_value st) \<longrightarrow> volume_ok (volume_value st'))"

lemma kept_refl [simp]: "kept st st"
  by (simp add: kept_def)

lemma kept_trans: "kept a b \<Longrightarrow> kept b c \<Longrightarrow> kept a c"
  by (simp add: kept_def)

lemma kept_emit [simp]: "kept st (emit es st') = kept st st'"
  by (simp add: kept_def frame_simps)

lemma kept_set_event [simp]: "kept st (set_event i e st') = kept st st'"
  by (simp add: kept_def frame_simps)

lemma kept_set_content [simp]: "kept st (set_content i e st') = kept st st'"
  by (simp add: kept_def frame_simps)

lemma kept_fields [simp]:
  "kept st (st'\<lparr>songlist := a\<rparr>) = kept st st'" "kept st (st'\<lparr>item_num := n\<rparr>) = kept st st'"
  "kept st (st'\<lparr>songlist_num := n\<rparr>) = kept st st'" "kept st (st'\<lparr>iotb_music_is_play := b\<rparr>) = kept st st'"
  "kept st (st'\<lparr>iotb_music_is_resume := b\<rparr>) = kept st st'" "kept st (st'\<lparr>lcd_fds := k\<rparr>) = kept st st'"
  "kept st (st'\<lparr>show_cnt := w\<rparr>) = kept st st'"
  by (simp_all add: kept_def frame_simps)

lemma webserver_data_parse_kept: "webserver_data_parse mem r st = Some st' \<Longrightarrow> kept st st'"
  by (auto simp: webserver_data_parse_def Let_def bind_eq_Some_conv split: web_reply.splits if_splits)

lemma connect_server_kept: "connect_server env st = Some (st', e) \<Longrightarrow> kept st st'"
  by (auto simp: connect_server_def fetch_songs_def Let_def split: if_splits
      dest!: webserver_data_parse_kept) (simp_all add: kept_def frame_simps)

lemma next_song_kept: "next_song i st = Some st' \<Longrightarrow> kept st st'"
  by (auto simp: next_song_def Let_def bind_eq_Some_conv split: if_splits)

lemma last_song_kept: "last_song i st = Some st' \<Longrightarrow> kept st st'"
  by (auto simp: last_song_def Let_def bind_eq_Some_conv split: if_splits)

lemma select_song_kept:
  assumes "select_song i st = Some st'"
  shows "kept st st'"
proof -
  obtain st1 st2 where s:
    "(if current_event (the_menu i st) = IOTB_LCD_EVENT_NEXTSONG then next_song i st else Some st) = Some st1"
    "(if current_event (the_menu i st1) = IOTB_LCD_EVENT_LASTSONG then last_song i st1 else Some st1) = Some st2"
    "kept st2 st'"
    using assms by (auto simp: select_song_def bind_eq_Some_conv)
  have "kept st st1" "kept st1 st2"
    using s(1,2) next_song_kept last_song_kept by (auto split: if_splits)
  then show ?thesis using s(3) kept_trans by blast
qed

lemma web_page_kept: "kept st (web_page i st)"
  by (simp add: web_page_def)

lemma httpwebserver_kept:
  assumes "iotb_lcd_show_httpwebserver env i st = Some st'"
  shows "kept st st'"
proof -
  let ?st1 = "web_page i st"
  obtain p st3 where s:
    "(if connects i ?st1 then connect_server env ?st1 else Some (?st1, False)) = Some p"
    "(if snd p then Some (fst p) else select_song i (fst p)) = Some st3"
    "st' = (if connects i ?st1 \<and> env_url_ok env \<and> env_session_ok env then emit [Web_close] st3 else st3)"
    using assms unfolding iotb_lcd_show_httpwebserver_def Let_def bind_eq_Some_conv case_prod_unfold by blast
  have "kept ?st1 (fst p)" "kept (fst p) st3"
    using s(1,2) connect_server_kept [of env ?st1 "fst p" "snd p"] select_song_kept by (auto split: if_splits)
  moreover have "kept st3 st'" using s(3) by simp
  ultimately show ?thesis using web_page_kept kept_trans by blast
qed

lemma enter_music_kept: "enter_music env i st = Some st' \<Longrightarrow> kept st st'"
  by (auto simp: enter_music_def Let_def bind_eq_Some_conv split: if_splits)

lemma toggle_play_kept: "toggle_play i st = Some st' \<Longrightarrow> kept st st'"
  by (auto simp: toggle_play_def bind_eq_Some_conv split: if_splits)

lemma toggle_pause_kept: "kept st (toggle_pause i st)"
  by (simp add: toggle_pause_def)

lemma volume_kept: "kept st (volume_down i st)" "kept st (volume_up i st)"
  by (simp_all add: volume_down_def volume_up_def Let_def kept_def frame_simps volume_ok_step)

lemma music_controls_kept: "kept st (music_controls i st)"
proof -
  let ?f1 = "if current_event (the_menu i st) = IOTB_LCD_EVENT_KEY1_DOUBLE_CLICK then toggle_pause i st else st"
  let ?f2 = "if current_event (the_menu i ?f1) = IOTB_LCD_EVENT_KEY1_CLICK then volume_down i ?f1 else ?f1"
  let ?f3 = "if current_event (the_menu i ?f2) = IOTB_LCD_EVENT_WKUP_CLICK then volume_up i ?f2 else ?f2"
  have "kept st ?f1" using toggle_pause_kept by simp
  moreover have "kept ?f1 ?f2" using volume_kept by simp
  ultimately have "kept st ?f2" by (rule kept_trans)
  moreover have "kept ?f2 ?f3" using volume_kept by simp
  ultimately have "kept st ?f3" by (rule kept_trans)
  moreover have "kept ?f3 (music_controls i st)" by (simp add: music_controls_def Let_def)
  ultimately show ?thesis by (rule kept_trans)
qed

lemma music_kept:
  assumes "iotb_lcd_show_music env i st = Some st'"
  shows "kept st st'"
proof -
  let ?st0 = "music_page i st"
  obtain st1 st2 where s:
    "(if current_event (the_menu i ?st0) = IOTB_LCD_EVENT_ENTER then enter_music env i ?st0 else Some ?st0) = Some st1"
    "(if current_event (the_menu i st1) = IOTB_LCD_EVENT_WKUP_DOUBLE_CLICK then toggle_play i st1 else Some st1) = Some st2"
    "st' = music_controls i st2"
    using assms unfolding iotb_lcd_show_music_def Let_def bind_eq_Some_conv by auto
  have "kept ?st0 st1" "kept st1 st2"
    using s(1,2) enter_music_kept toggle_play_kept by (auto split: if_splits)
  moreover have "kept st ?st0" by (simp add: music_page_def)
  ultimately show ?thesis using s(3) music_controls_kept kept_trans by metis
qed

lemma sdcard_kept: "iotb_lcd_show_sdcard env i st = Some st' \<Longrightarrow> kept st st'"
  by (auto simp: iotb_lcd_show_sdcard_def free_songs_def bind_eq_Some_conv emit_def kept_def pages_def
      split: if_splits option.splits)

lemma lcd_handle_kept: "lcd_handle env i st = Some st' \<Longrightarrow> kept st st'"
  by (auto simp: lcd_handle_def httpwebserver_kept music_kept sdcard_kept split: if_splits)

subsection \<open>The invariant of the display thread\<close>

definition lcd_inv :: "lcd_state \<Rightarrow> bool" where
  "lcd_inv st \<longleftrightarrow> show_menu_index st = iotb_lcd_menu_index st
     \<and> (show_menu_index st = 1 \<or> show_menu_index st = 2 \<or> show_menu_index st = 3)
     \<and> map refresh_time (lcd_instance st) = [0, 5, 5, 0] \<and> volume_ok (volume_value st)"

lemma lcd_boot_inv: "lcd_inv lcd_boot"
  by (simp add: lcd_inv_def lcd_boot_def iotb_lcd_menu_init_def menu_refresh_time_def volume_ok_def)

lemma kept_inv: "kept st st' \<Longrightarrow> lcd_inv st \<Longrightarrow> lcd_inv st'"
  by (auto simp: kept_def lcd_inv_def pages_def)

lemma lcd_inv_index:
  assumes "lcd_inv st"
  shows "unat (show_menu_index st) = 1 \<longleftrightarrow> show_menu_index st = 1"
    and "unat (show_menu_index st) = 2 \<longleftrightarrow> show_menu_index st = 2"
  using assms by (auto simp: lcd_inv_def)

lemma kept_pages: "kept st st' \<Longrightarrow> show_menu_index st' = show_menu_index st \<and> iotb_lcd_menu_index st' = iotb_lcd_menu_index st"
  by (simp add: kept_def pages_def)

lemma leave_menu_kept:
  assumes "leave_menu env st = Some st'" "lcd_inv st"
  shows "kept st st'"
proof -
  have "st\<lparr>show_menu_index := iotb_lcd_menu_index st\<rparr> = st"
    using assms(2) by (simp add: lcd_inv_def)
  then have "lcd_handle env (unat (show_menu_index st))
      (set_event (unat (show_menu_index st)) IOTB_LCD_EVENT_EXIT
        (set_content (unat (show_menu_index st)) IOTB_LCD_CONTENT_NONE st)) = Some st'"
    using assms by (simp add: leave_menu_def Let_def iotb_lcd_get_menu_index_def lcd_inv_def)
  from lcd_handle_kept [OF this] show ?thesis
    by (simp add: kept_def frame_simps)
qed

lemma enter_menu_kept:
  assumes "enter_menu env k st = Some st'"
  shows "kept (st\<lparr>show_menu_index := k, iotb_lcd_menu_index := k\<rparr>) st'"
proof -
  obtain st1 where st1: "lcd_handle env (unat k)
      (set_event (unat k) IOTB_LCD_EVENT_ENTER (set_content (unat k) IOTB_LCD_STATIC_CONTENT
        (st\<lparr>show_menu_index := k, iotb_lcd_menu_index := k\<rparr>))) = Some st1"
    "st' = st1\<lparr>show_cnt := refresh_time (the_menu (unat k) st1)\<rparr>"
    using assms by (auto simp: enter_menu_def Let_def iotb_lcd_update_menu_index_def bind_eq_Some_conv)
  show ?thesis
    using lcd_handle_kept [OF st1(1)] by (simp add: st1(2)) (simp add: kept_def frame_simps)
qed

lemma enter_menu_inv:
  assumes "enter_menu env k st = Some st'" "lcd_inv st" "k = 1 \<or> k = 2 \<or> k = 3"
  shows "lcd_inv st' \<and> show_menu_index st' = k"
proof -
  have "lcd_inv (st\<lparr>show_menu_index := k, iotb_lcd_menu_index := k\<rparr>)"
    using assms(2,3) by (simp add: lcd_inv_def)
  then show ?thesis
    using kept_inv [OF enter_menu_kept [OF assms(1)]] kept_pages [OF enter_menu_kept [OF assms(1)]] by simp
qed

lemma switch_page:
  assumes "do { st1 \<leftarrow> leave_menu env st; enter_menu env (f (show_menu_index st1)) st1 } = Some st'"
    and "lcd_inv st" "f (show_menu_index st) = 1 \<or> f (show_menu_index st) = 2 \<or> f (show_menu_index st) = 3"
  shows "lcd_inv st' \<and> show_menu_index st' = f (show_menu_index st)"
proof -
  obtain st1 where st1: "leave_menu env st = Some st1" "enter_menu env (f (show_menu_index st1)) st1 = Some st'"
    using assms(1) by (auto simp: bind_eq_Some_conv)
  note k = leave_menu_kept [OF st1(1) assms(2)]
  show ?thesis
    using enter_menu_inv [OF st1(2) kept_inv [OF k assms(2)]] kept_pages [OF k] assms(3) by simp
qed

lemma next_page_values: "next_page 1 = 3" "next_page 2 = 3" "next_page 3 = 1"
  by (simp_all add: next_page_def Let_def IOTB_LCD_MENU_MAX_def)

lemma next_page_legal: "lcd_inv st \<Longrightarrow> next_page (show_menu_index st) = 1 \<or> next_page (show_menu_index st) = 2
    \<or> next_page (show_menu_index st) = 3"
  by (auto simp: lcd_inv_def next_page_values)

lemma lcd_inv_updates [simp]:
  "lcd_inv (set_event i e st) = lcd_inv st" "lcd_inv (set_content i c st) = lcd_inv st"
  "lcd_inv (st\<lparr>show_cnt := w\<rparr>) = lcd_inv st" "lcd_inv (emit es st) = lcd_inv st"
proof -
  have iff: "pages a = pages b \<Longrightarrow> volume_value a = volume_value b \<Longrightarrow> lcd_inv a = lcd_inv b" for a b
    by (simp add: lcd_inv_def pages_def)
  show "lcd_inv (set_event i e st) = lcd_inv st" "lcd_inv (set_content i c st) = lcd_inv st"
    "lcd_inv (st\<lparr>show_cnt := w\<rparr>) = lcd_inv st" "lcd_inv (emit es st) = lcd_inv st"
    by (rule iff; simp add: frame_simps)+
qed

lemma on_click_inv:
  assumes "on_click env ev st = Some st'" "lcd_inv st"
  shows "lcd_inv st' \<and> show_menu_index st' =
    (if show_menu_index st = 2 \<and> has ev IOTB_LCD_EVENT_KEY2_CLICK then 1 else show_menu_index st)"
proof -
  have same: "pages a = pages b \<Longrightarrow> show_menu_index a = show_menu_index b" for a b
    by (simp add: pages_def)
  have fr: "show_menu_index (set_event i e s) = show_menu_index s" "show_menu_index (set_content i c s) = show_menu_index s" for i e c s
    by (rule same; simp add: frame_simps)+
  show ?thesis
  proof (cases "show_menu_index st = 2 \<and> has ev IOTB_LCD_EVENT_KEY2_CLICK")
    case True
    then have "do { st1 \<leftarrow> leave_menu env (set_content 2 IOTB_LCD_DYNAMIC_CONTENT st); enter_menu env (show_menu_index st1 - 1) st1 } = Some st'"
      using assms(1) by (simp add: on_click_def Let_def)
    from switch_page [OF this] True assms(2) show ?thesis by (simp add: fr)
  next
    case False
    then show ?thesis
      using assms by (auto simp: on_click_def Let_def fr lcd_inv_index [OF assms(2)] split: if_splits)
  qed
qed

lemma on_exit_inv:
  assumes "lcd_handle env i (set_event i IOTB_LCD_EVENT_EXIT (set_content i IOTB_LCD_CONTENT_NONE st)) = Some st1"
    and "lcd_inv st"
  shows "lcd_inv st1"
  using kept_inv [OF lcd_handle_kept [OF assms(1)]] assms(2) by simp

lemma on_event_inv:
  assumes "on_event env ev st = Some st'" "lcd_inv st"
  shows "lcd_inv st'"
proof -
  consider (page) "has ev IOTB_LCD_EVENT_NEXT"
    | (music) "\<not> has ev IOTB_LCD_EVENT_NEXT" "has ev IOTB_LCD_EVENT_MUSIC_PLAY"
    | (exit) "\<not> has ev IOTB_LCD_EVENT_NEXT" "\<not> has ev IOTB_LCD_EVENT_MUSIC_PLAY" "has ev IOTB_LCD_EVENT_EXIT"
    | (rest) "\<not> has ev IOTB_LCD_EVENT_NEXT" "\<not> has ev IOTB_LCD_EVENT_MUSIC_PLAY" "\<not> has ev IOTB_LCD_EVENT_EXIT"
    by blast
  then show ?thesis
  proof cases
    case page
    then show ?thesis
      using assms(1) switch_page [where f = next_page, OF _ assms(2) next_page_legal [OF assms(2)]]
      by (simp add: on_event_def)
  next
    case music
    show ?thesis
    proof (cases "show_menu_index st = 1")
      case True
      then show ?thesis
        using assms(1) music switch_page [where f = "\<lambda>k. k + 1", OF _ assms(2)]
        by (simp add: on_event_def)
    next
      case False
      then show ?thesis using assms music by (simp add: on_event_def)
    qed
  next
    case exit
    then obtain st1 where "lcd_handle env (unat (show_menu_index st))
        (set_event (unat (show_menu_index st)) IOTB_LCD_EVENT_EXIT
          (set_content (unat (show_menu_index st)) IOTB_LCD_CONTENT_NONE st)) = Some st1"
      "st' = (set_event (unat (show_menu_index st)) IOTB_LCD_EVENT_NONE st1)\<lparr>show_cnt := 0\<rparr>"
      using assms(1) by (auto simp: on_event_def Let_def bind_eq_Some_conv)
    then show ?thesis using on_exit_inv assms(2) by simp
  next
    case rest
    then show ?thesis
      using assms on_click_inv [OF _ assms(2)]
      by (auto simp: on_event_def on_double_click_def Let_def split: if_splits)
  qed
qed

lemma refresh_inv: "refresh env st = Some st' \<Longrightarrow> lcd_inv st \<Longrightarrow> lcd_inv st'"
  using lcd_handle_kept [of env "unat (show_menu_index st)" "st\<lparr>show_cnt := 0\<rparr>" st'] kept_inv [of "st\<lparr>show_cnt := 0\<rparr>" st']
  by (auto simp: refresh_def Let_def split: if_splits)

lemma count_round_inv: "lcd_inv (count_round st) = lcd_inv st"
  by (simp add: count_round_def)

lemma show_round_inv:
  assumes "iotb_lcd_show_round env lcd st = Some (lcd', st')" "lcd_inv st"
  shows "lcd_inv st'"
proof -
  show ?thesis
  proof (cases "iotb_lcd_event_get lcd (NOT (lcd_value IOTB_LCD_EVENT_NONE)) 1 0")
    case (Ev_return r got l)
    let ?m = "case got of Some ev \<Rightarrow> if r = 0 then on_event env ev st else Some st | None \<Rightarrow> Some st"
    have "\<exists>st1 st2. ?m = Some st1 \<and> refresh env st1 = Some st2 \<and> st' = count_round st2"
      using assms(1) unfolding iotb_lcd_show_round_def Ev_return event_result.case bind_eq_Some_conv
      by (metis option.inject prod.inject)
    then obtain st1 st2 where s: "?m = Some st1" "refresh env st1 = Some st2" "st' = count_round st2" by blast
    have "lcd_inv st1" using s(1) assms(2) on_event_inv by (auto split: option.splits if_splits)
    then show ?thesis using s(2,3) refresh_inv count_round_inv by simp
  qed (use assms(1) in \<open>simp_all add: iotb_lcd_show_round_def\<close>)
qed

subsection \<open>Choosing a song\<close>

lemma song_simps [frame_simps]:
  "song (emit es st) = song st" "song (set_event i e st) = song st" "song (set_content i c st) = song st"
  "song (st\<lparr>songlist_num := n\<rparr>) = song st" "song (st\<lparr>item_num := n\<rparr>) = song st"
  by (simp_all add: song_def fun_eq_iff emit_def set_event_def set_content_def set_menu_def)

lemma select_simps [frame_simps]:
  "songlist_num (emit es st) = songlist_num st" "songlist_num (set_event i e st) = songlist_num st"
  "item_num (emit es st) = item_num st" "item_num (set_event i e st) = item_num st"
  "songlist (emit es st) = songlist st" "songlist (set_event i e st) = songlist st"
  by (simp_all add: emit_def set_event_def set_menu_def)

text \<open>A loaded list: as many names as \<open>item_num\<close>, each terminated, and a selection inside it.\<close>

definition songs_ok :: "lcd_state \<Rightarrow> bool" where
  "songs_ok st \<longleftrightarrow> 0 < item_num st \<and> (\<forall>i. 0 \<le> i \<and> i < item_num st \<longrightarrow> song st i \<noteq> None)
     \<and> 0 \<le> songlist_num st \<and> songlist_num st < item_num st"

lemma songs_okD: "songs_ok st \<Longrightarrow> 0 \<le> i \<Longrightarrow> i < item_num st \<Longrightarrow> \<exists>s. song st i = Some s"
  unfolding songs_ok_def by blast

lemma next_song_spec:
  assumes "songs_ok st"
  shows "\<exists>st'. next_song i st = Some st' \<and> songs_ok st' \<and> songlist st' = songlist st \<and> item_num st' = item_num st
    \<and> songlist_num st' = (songlist_num st + 1) mod item_num st"
proof -
  have n: "0 < item_num st" "0 \<le> songlist_num st" "songlist_num st < item_num st"
    using assms by (simp_all add: songs_ok_def)
  obtain s0 s1 s2 where s: "song st (songlist_num st) = Some s0" "song st (item_num st - 1) = Some s1" "song st 0 = Some s2"
    using songs_okD [OF assms] n by (meson diff_ge_0_iff_ge diff_less_eq int_one_le_iff_zero_less less_add_one order_refl)
  show ?thesis
  proof (cases "songlist_num st + 1 < item_num st")
    case True
    moreover obtain s3 where "song st (songlist_num st + 1) = Some s3"
      using songs_okD [OF assms, of "songlist_num st + 1"] n True by auto
    moreover have "(songlist_num st + 1) mod item_num st = songlist_num st + 1"
      using n True by simp
    ultimately show ?thesis
      using s n assms by (simp add: next_song_def Let_def frame_simps songs_ok_def)
  next
    case False
    then have "songlist_num st + 1 = item_num st" using n by simp
    then show ?thesis
      using s n assms by (simp add: next_song_def Let_def frame_simps songs_ok_def)
  qed
qed

lemma last_song_spec:
  assumes "songs_ok st"
  shows "\<exists>st'. last_song i st = Some st' \<and> songs_ok st' \<and> songlist st' = songlist st \<and> item_num st' = item_num st
    \<and> songlist_num st' = (songlist_num st - 1) mod item_num st"
proof -
  have n: "0 < item_num st" "0 \<le> songlist_num st" "songlist_num st < item_num st"
    using assms by (simp_all add: songs_ok_def)
  obtain s0 s1 where s: "song st (songlist_num st) = Some s0" "song st (item_num st - 1) = Some s1"
    using songs_okD [OF assms] n by (meson diff_ge_0_iff_ge diff_less_eq int_one_le_iff_zero_less less_add_one order_refl)
  show ?thesis
  proof (cases "songlist_num st = 0")
    case True
    have "(- 1) mod item_num st = item_num st - 1"
      using n by (simp add: zmod_minus1)
    then show ?thesis
      using s n assms True by (simp add: last_song_def Let_def frame_simps songs_ok_def)
  next
    case False
    moreover obtain s3 where "song st (songlist_num st - 1) = Some s3"
      using songs_okD [OF assms, of "songlist_num st - 1"] n False by auto
    moreover have "(songlist_num st - 1) mod item_num st = songlist_num st - 1"
      using n False by simp
    ultimately show ?thesis
      using s n assms by (simp add: last_song_def Let_def frame_simps songs_ok_def)
  qed
qed

text \<open>A successful download of a list of short names gives a loaded list.\<close>

lemma new_songlist_eq:
  "new_songlist mem names = (if length names < mem then Some (map (\<lambda>s. Some (take 30 s)) names) else None)"
proof -
  have "copy_names m names = (if length names \<le> m then Some (map (\<lambda>s. Some (take 30 s)) names) else None)" for m
    by (induction m names rule: copy_names.induct) simp_all
  then show ?thesis by (simp add: new_songlist_def less_eq_Suc_le split: nat.split)
qed

lemma webserver_data_parse_loads:
  assumes "names \<noteq> []" "\<forall>s \<in> set names. length s < 30" "min (length names) 6 < mem"
    and "0 \<le> songlist_num st" "songlist_num st < int (min (length names) 6)"
  shows "\<exists>st'. webserver_data_parse mem (Song_array names) st = Some st' \<and> songs_ok st'
    \<and> item_num st' = int (min (length names) 6) \<and> songlist_num st' = songlist_num st
    \<and> songlist st' = Some (map Some (take 6 names))"
proof -
  let ?n = "if int (length names) > 6 then 6 else int (length names)"
  let ?l = "map (\<lambda>s. Some (take 30 s)) (take (nat ?n) names)"
  have n: "?n = int (min (length names) 6)" "0 < ?n" using assms(1) by (auto simp: min_def)
  have tk: "take (nat ?n) names = take 6 names" by auto
  have l: "?l = map Some (take 6 names)"
  proof -
    have "take 30 s = s" if "s \<in> set (take 6 names)" for s
      using assms(2) in_set_takeD [OF that] by (simp add: less_imp_le)
    then have "map (\<lambda>s. Some (take 30 s)) (take 6 names) = map Some (take 6 names)"
      by (intro map_cong refl) metis
    then show ?thesis by (simp only: tk)
  qed
  define st2 where "st2 = emit ([Lcd_show_string 48 80 24 blank12] @ show_names 0 (take (nat ?n) names))
      (st\<lparr>item_num := ?n, songlist := Some ?l\<rparr>)"
  have st2: "songlist st2 = Some (map Some (take 6 names))" "item_num st2 = ?n" "songlist_num st2 = songlist_num st"
    unfolding st2_def l by (simp_all add: frame_simps)
  have ok: "song st2 i \<noteq> None" if "0 \<le> i" "i < ?n" for i
  proof -
    have "i < int (min (length names) 6)" using that(2) unfolding n(1) .
    then have i: "nat i < length (take 6 names)"
      using that(1) unfolding length_take by linarith
    then have "length (take 6 names ! nat i) < 30"
      using assms(2) nth_mem [OF i] in_set_takeD by fastforce
    then show ?thesis using that(1) i by (simp add: song_def st2)
  qed
  obtain s where s: "song st2 (songlist_num st) = Some s"
    using ok [of "songlist_num st"] assms(4,5) n by auto
  let ?es = "[Lcd_draw_line 8 (row_y ?n - 4) (240 - 8) (row_y ?n - 4), Lcd_set_color BLUE WHITE,
      Lcd_show_string 0 (row_y (songlist_num st2)) 24 blank20, Lcd_show_string 8 (row_y (songlist_num st2)) 24 s]"
  have new: "new_songlist mem (take (nat ?n) names) = Some ?l"
    using assms(3) by (simp add: new_songlist_eq tk) (simp add: min_def split: if_splits)
  have "webserver_data_parse mem (Song_array names) st = Some (emit ?es st2)"
    unfolding webserver_data_parse_def web_reply.case Let_def if_P [OF n(2)]
    by (simp only: new bind.bind_lunit st2_def [symmetric] s st2(3))
  then show ?thesis
    using ok n assms(4,5) by (simp add: songs_ok_def frame_simps st2)
qed

subsection \<open>Flags and rounds\<close>

lemma has_bit: "has ev e \<longleftrightarrow> bit ev (lcd_bit e)"
proof -
  have len: "lcd_bit e < 32" by (cases e) simp_all
  have "has ev e \<longleftrightarrow> (\<exists>n. bit ev n \<and> bit (lcd_value e) n)"
    unfolding has_def by (rule and_nonzero_iff)
  also have "\<dots> \<longleftrightarrow> bit ev (lcd_bit e)"
    using len by (auto simp: lcd_value_def bit_simps)
  finally show ?thesis .
qed

text \<open>The flags that a poll of the display thread asks for: all but \<open>IOTB_LCD_EVENT_NONE\<close>.\<close>

abbreviation lcd_want :: u32 where
  "lcd_want \<equiv> NOT (lcd_value IOTB_LCD_EVENT_NONE)"

lemma lcd_want_nonzero: "lcd_want \<noteq> 0"
  by (simp add: lcd_value_def)

lemma event_get_poll:
  "iotb_lcd_event_get lcd want 1 0 =
     (if want = 0 then Ev_return (-1) None lcd
      else if ev_set lcd AND want \<noteq> 0 then Ev_return 0 (Some (ev_set lcd AND want)) (lcd\<lparr>ev_set := ev_set lcd AND NOT want\<rparr>)
      else Ev_return (-2) None lcd)"
proof -
  have "(RT_EVENT_FLAG_OR OR RT_EVENT_FLAG_CLEAR) AND RT_EVENT_FLAG_AND = 0"
    "(RT_EVENT_FLAG_OR OR RT_EVENT_FLAG_CLEAR) AND RT_EVENT_FLAG_OR \<noteq> 0"
    "(RT_EVENT_FLAG_OR OR RT_EVENT_FLAG_CLEAR) AND RT_EVENT_FLAG_CLEAR \<noteq> 0"
    by (simp_all add: RT_EVENT_FLAG_AND_def RT_EVENT_FLAG_OR_def RT_EVENT_FLAG_CLEAR_def)
  then show ?thesis
    by (simp add: iotb_lcd_event_get_def rt_event_recv_def event_satisfied_def)
qed

lemma show_round_cases:
  "iotb_lcd_show_round env lcd st =
     (if ev_set lcd AND lcd_want \<noteq> 0
      then do {
        st1 \<leftarrow> on_event env (ev_set lcd AND lcd_want) st;
        st2 \<leftarrow> refresh env st1;
        Some (lcd\<lparr>ev_set := ev_set lcd AND lcd_value IOTB_LCD_EVENT_NONE\<rparr>, count_round st2)
      }
      else do { st2 \<leftarrow> refresh env st; Some (lcd, count_round st2) })"
  by (simp only: iotb_lcd_show_round_def event_get_poll lcd_want_nonzero) simp

text \<open>The display thread over rounds; before each round the hub sends some flags.\<close>

fun lcd_thread :: "(lcd_env \<times> iotb_lcd_event list) list \<Rightarrow> rt_event \<Rightarrow> lcd_state \<Rightarrow> (rt_event \<times> lcd_state) option" where
  "lcd_thread [] lcd st = Some (lcd, st)"
| "lcd_thread ((env, es) # rs) lcd st =
     (case iotb_lcd_show_round env (foldl (\<lambda>l e. iotb_lcd_event_put e l) lcd es) st of
        None \<Rightarrow> None
      | Some (lcd', st') \<Rightarrow> lcd_thread rs lcd' st')"

lemma lcd_thread_inv:
  "lcd_thread rs lcd st = Some (lcd', st') \<Longrightarrow> lcd_inv st \<Longrightarrow> lcd_inv st'"
proof (induction rs arbitrary: lcd st)
  case (Cons r rs)
  obtain env es where r: "r = (env, es)" by (cases r)
  obtain l1 st1 where s: "iotb_lcd_show_round env (foldl (\<lambda>l e. iotb_lcd_event_put e l) lcd es) st = Some (l1, st1)"
    "lcd_thread rs l1 st1 = Some (lcd', st')"
    using Cons.prems(1) by (auto simp: r split: option.splits)
  then show ?case using Cons.IH show_round_inv [OF s(1) Cons.prems(2)] by blast
qed simp

lemma show_start_inv: "iotb_lcd_show_start env lcd_boot = Some st \<Longrightarrow> lcd_inv st"
proof -
  assume s: "iotb_lcd_show_start env lcd_boot = Some st"
  have "lcd_boot\<lparr>show_menu_index := 1, show_cnt := 0\<rparr> = lcd_boot"
    by (simp add: lcd_boot_def iotb_lcd_menu_init_def)
  then show "lcd_inv st"
    using kept_inv [OF lcd_handle_kept] s lcd_boot_inv by (fastforce simp: iotb_lcd_show_start_def)
qed

subsection \<open>Properties\<close>

definition example_env :: lcd_env where
  "example_env =
     \<lparr>env_url_ok = True, env_session_ok = True, env_get_status = 200, env_buffer_ok = True, env_memory = 100,
      env_content_length = 40, env_reads = [40], env_reply = Song_array [''1.wav'', ''2.wav'', ''3.wav''],
      env_open = (\<lambda>n s. True), env_download = (\<lambda>u s. True), env_dir = Some [(''a'', 1)]\<rparr>"

text \<open>C40. The display thread keeps its state legal: after start-up and any number of rounds with any flags and
  any answers from outside, as long as no invalid access happened, the local and the shared page index
  agree, the page is one of 1 to 3, and the volume is a multiple of 5 between 10 and 95.\<close>

theorem lcd_thread_legal:
  assumes "iotb_lcd_show_start env lcd_boot = Some st0" "lcd_thread rs lcd st0 = Some (lcd', st)"
  shows "show_menu_index st = iotb_lcd_menu_index st
    \<and> (show_menu_index st = 1 \<or> show_menu_index st = 2 \<or> show_menu_index st = 3)
    \<and> 10 \<le> volume_value st \<and> volume_value st \<le> 95 \<and> volume_value st mod 5 = 0"
  using lcd_thread_inv [OF assms(2) show_start_inv [OF assms(1)]]
  by (auto simp: lcd_inv_def volume_ok_def)

text \<open>With no network: the song page is shown, then a NEXT flag leads to the file system page.\<close>

definition offline_env :: lcd_env where
  "offline_env = example_env\<lparr>env_url_ok := False\<rparr>"

lemma offline_run:
  "map_option (\<lambda>(l, s). show_menu_index s)
     (iotb_lcd_show_start offline_env lcd_boot \<bind> lcd_thread [(offline_env, [IOTB_LCD_EVENT_NEXT])] (rt_event_init 0))
    = Some 3"
  by code_simp

theorem lcd_thread_legal_witness:
  "\<exists>lcd' st. iotb_lcd_show_start offline_env lcd_boot \<bind> lcd_thread [(offline_env, [IOTB_LCD_EVENT_NEXT])] (rt_event_init 0)
      = Some (lcd', st)
    \<and> show_menu_index st = 3 \<and> iotb_lcd_menu_index st = 3"
proof -
  obtain st0 lcd' st where s: "iotb_lcd_show_start offline_env lcd_boot = Some st0"
    "lcd_thread [(offline_env, [IOTB_LCD_EVENT_NEXT])] (rt_event_init 0) st0 = Some (lcd', st)" "show_menu_index st = 3"
    using offline_run by (auto simp: bind_eq_Some_conv simp del: lcd_thread.simps)
  then show ?thesis using lcd_thread_legal [OF s(1,2)] by simp
qed

text \<open>Page switching: in a legal state, flags that were handled without an invalid access leave the
  page that the first matching rule says: NEXT goes from page 1 or 2 to page 3 (it skips the player)
  and from 3 to 1, MUSIC_PLAY opens the player from page 1 only, KEY2_CLICK goes back from the
  player to page 1, and everything else stays.\<close>

lemma on_event_page:
  assumes "on_event env ev st = Some st'" "lcd_inv st"
  shows "show_menu_index st' =
    (if has ev IOTB_LCD_EVENT_NEXT then (if show_menu_index st = 3 then 1 else 3)
     else if has ev IOTB_LCD_EVENT_MUSIC_PLAY then (if show_menu_index st = 1 then 2 else show_menu_index st)
     else if has ev IOTB_LCD_EVENT_EXIT then show_menu_index st
     else if show_menu_index st = 2 \<and> has ev IOTB_LCD_EVENT_KEY2_CLICK then 1
     else show_menu_index st)"
proof -
  have same: "pages a = pages b \<Longrightarrow> show_menu_index a = show_menu_index b" for a b
    by (simp add: pages_def)
  have fr: "show_menu_index (set_event i e s) = show_menu_index s" "show_menu_index (set_content i c s) = show_menu_index s" for i e c s
    by (rule same; simp add: frame_simps)+
  have np: "next_page (show_menu_index st) = (if show_menu_index st = 3 then 1 else 3)"
    using assms(2) by (auto simp: lcd_inv_def next_page_values)
  consider (page) "has ev IOTB_LCD_EVENT_NEXT"
    | (music) "\<not> has ev IOTB_LCD_EVENT_NEXT" "has ev IOTB_LCD_EVENT_MUSIC_PLAY" "show_menu_index st = 1"
    | (none) "\<not> has ev IOTB_LCD_EVENT_NEXT" "has ev IOTB_LCD_EVENT_MUSIC_PLAY" "show_menu_index st \<noteq> 1"
    | (exit) "\<not> has ev IOTB_LCD_EVENT_NEXT" "\<not> has ev IOTB_LCD_EVENT_MUSIC_PLAY" "has ev IOTB_LCD_EVENT_EXIT"
    | (click) "\<not> has ev IOTB_LCD_EVENT_NEXT" "\<not> has ev IOTB_LCD_EVENT_MUSIC_PLAY" "\<not> has ev IOTB_LCD_EVENT_EXIT"
        "key_clicked ev"
    | (rest) "\<not> has ev IOTB_LCD_EVENT_NEXT" "\<not> has ev IOTB_LCD_EVENT_MUSIC_PLAY" "\<not> has ev IOTB_LCD_EVENT_EXIT"
        "\<not> key_clicked ev"
    by blast
  then show ?thesis
  proof cases
    case page
    then show ?thesis
      using assms(1) switch_page [where f = next_page, OF _ assms(2) next_page_legal [OF assms(2)]] np
      by (simp add: on_event_def)
  next
    case music
    then show ?thesis
      using assms(1) switch_page [where f = "\<lambda>k. k + 1", OF _ assms(2)] by (simp add: on_event_def)
  next
    case none
    then show ?thesis using assms(1) by (simp add: on_event_def)
  next
    case exit
    then obtain st1 where "lcd_handle env (unat (show_menu_index st))
        (set_event (unat (show_menu_index st)) IOTB_LCD_EVENT_EXIT
          (set_content (unat (show_menu_index st)) IOTB_LCD_CONTENT_NONE st)) = Some st1"
      "st' = (set_event (unat (show_menu_index st)) IOTB_LCD_EVENT_NONE st1)\<lparr>show_cnt := 0\<rparr>"
      using assms(1) by (auto simp: on_event_def Let_def bind_eq_Some_conv)
    then show ?thesis using exit kept_pages [OF lcd_handle_kept] by (fastforce simp: fr)
  next
    case click
    then show ?thesis using assms(1) on_click_inv [OF _ assms(2)] by (simp add: on_event_def)
  next
    case rest
    then show ?thesis using assms(1)
      by (auto simp: on_event_def on_double_click_def Let_def fr key_clicked_def split: if_splits)
  qed
qed

lemma lcd_page_switch:
  assumes "on_event env ev st = Some st'" "lcd_inv st"
  shows "lcd_inv st' \<and> show_menu_index st' =
    (if has ev IOTB_LCD_EVENT_NEXT then (if show_menu_index st = 3 then 1 else 3)
     else if has ev IOTB_LCD_EVENT_MUSIC_PLAY then (if show_menu_index st = 1 then 2 else show_menu_index st)
     else if has ev IOTB_LCD_EVENT_EXIT then show_menu_index st
     else if show_menu_index st = 2 \<and> has ev IOTB_LCD_EVENT_KEY2_CLICK then 1
     else show_menu_index st)"
  using on_event_page [OF assms] on_event_inv [OF assms] by (rule conjI [rotated])

lemma offline_next:
  "\<exists>st'. on_event offline_env (lcd_value IOTB_LCD_EVENT_NEXT) lcd_boot = Some st'"
proof -
  have "on_event offline_env (lcd_value IOTB_LCD_EVENT_NEXT) lcd_boot \<noteq> None" by code_simp
  then show ?thesis by blast
qed

text \<open>A round takes every pending flag but acts on one rule only: when NEXT is pending together with
  any other keys, the outcome is that of NEXT alone, and afterwards no other flag is left, so the
  other key presses are lost.\<close>

lemma lcd_flags_lost:
  assumes "has (ev_set lcd) IOTB_LCD_EVENT_NEXT" "iotb_lcd_show_round env lcd st = Some (lcd', st')"
  shows "map_option snd (iotb_lcd_show_round env (lcd\<lparr>ev_set := lcd_value IOTB_LCD_EVENT_NEXT\<rparr>) st) = Some st'
    \<and> ev_set lcd' AND lcd_want = 0"
proof -
  let ?ev = "ev_set lcd AND lcd_want" and ?lcd = "lcd\<lparr>ev_set := lcd_value IOTB_LCD_EVENT_NEXT\<rparr>"
  have only: "lcd_value IOTB_LCD_EVENT_NEXT AND lcd_want = lcd_value IOTB_LCD_EVENT_NEXT"
    "lcd_value IOTB_LCD_EVENT_NEXT \<noteq> 0" "has (lcd_value IOTB_LCD_EVENT_NEXT) IOTB_LCD_EVENT_NEXT"
    by (simp_all add: has_def lcd_value_def)
  have n: "has ?ev IOTB_LCD_EVENT_NEXT"
    using assms(1) only(1) by (simp add: has_def and.assoc and.left_commute)
      (metis and.commute and.left_commute only(1))
  then have nz: "?ev \<noteq> 0" by (auto simp: has_def)
  have "on_event env ?ev st = on_event env (lcd_value IOTB_LCD_EVENT_NEXT) st"
    using n only(3) by (simp add: on_event_def)
  then show ?thesis
    using assms(2) nz only by (auto simp: show_round_cases bind_eq_Some_conv and.assoc)
qed

lemma offline_round:
  "iotb_lcd_show_round offline_env ((rt_event_init 0)\<lparr>ev_set := 0x80003\<rparr>) lcd_boot \<noteq> None"
  by code_simp

text \<open>Volume keys on the player page: from a legal volume, KEY1_CLICK lowers it by 5 down to 10 and
  WKUP_CLICK raises it by 5 up to 95; the player is told exactly the new value, and only when it changed.\<close>

lemma current_event_set: "i < length (lcd_instance st) \<Longrightarrow> current_event (the_menu i (set_event i e st)) = e"
  by (simp add: the_menu_def set_event_def set_menu_def)

lemma len_set_event: "length (lcd_instance (emit es st)) = length (lcd_instance st)"
  "length (lcd_instance (set_event i e st)) = length (lcd_instance st)"
  by (simp_all add: emit_def set_event_def set_menu_def)

lemma wav_filter: "filter (\<lambda>e. \<exists>v. e = Wav_volume v) (lcd_log (set_event i e st)) = filter (\<lambda>e. \<exists>v. e = Wav_volume v) (lcd_log st)"
  "lcd_log (emit es st) = lcd_log st @ es"
  by (simp_all add: emit_def set_event_def set_menu_def)

lemma lcd_volume_keys:
  assumes "length (lcd_instance st) = 4" "content_type (the_menu 2 st) = IOTB_LCD_DYNAMIC_CONTENT"
    and "current_event (the_menu 2 st) = IOTB_LCD_EVENT_KEY1_CLICK \<or> current_event (the_menu 2 st) = IOTB_LCD_EVENT_WKUP_CLICK"
    and "10 \<le> volume_value st" "volume_value st \<le> 95" "volume_value st mod 5 = 0"
  shows "\<exists>st'. iotb_lcd_show_music env 2 st = Some st'
    \<and> volume_value st' = (if current_event (the_menu 2 st) = IOTB_LCD_EVENT_KEY1_CLICK
         then max 10 (volume_value st - 5) else min 95 (volume_value st + 5))
    \<and> filter (\<lambda>e. \<exists>v. e = Wav_volume v) (lcd_log st')
       = filter (\<lambda>e. \<exists>v. e = Wav_volume v) (lcd_log st)
         @ (if volume_value st' = volume_value st then [] else [Wav_volume (volume_value st')])"
proof -
  let ?v = "volume_value st"
  have static: "music_page 2 st = st" using assms(2) by (simp add: music_page_def)
  have down: "?v > 10 \<Longrightarrow> max 10 (?v - 5) = ?v - 5" "\<not> ?v > 10 \<Longrightarrow> ?v = 10"
    and up: "?v < 95 \<Longrightarrow> min 95 (?v + 5) = ?v + 5" "\<not> ?v < 95 \<Longrightarrow> ?v = 95"
    using assms(4-6) by presburger+
  from assms(3) show ?thesis
  proof
    assume e: "current_event (the_menu 2 st) = IOTB_LCD_EVENT_KEY1_CLICK"
    have "iotb_lcd_show_music env 2 st = Some (volume_down 2 st)"
      using assms(1) e static
      by (simp add: iotb_lcd_show_music_def music_controls_def Let_def volume_down_def current_event_set len_set_event)
    then show ?thesis
      using e down assms(4) by (cases "?v > 10") (simp_all add: volume_down_def Let_def frame_simps wav_filter)
  next
    assume e: "current_event (the_menu 2 st) = IOTB_LCD_EVENT_WKUP_CLICK"
    have "iotb_lcd_show_music env 2 st = Some (volume_up 2 st)"
      using assms(1) e static
      by (simp add: iotb_lcd_show_music_def music_controls_def Let_def volume_up_def current_event_set len_set_event)
    then show ?thesis
      using e up assms(5) by (cases "?v < 95") (simp_all add: volume_up_def Let_def frame_simps wav_filter)
  qed
qed

definition example_player :: lcd_state where
  "example_player = set_event 2 IOTB_LCD_EVENT_WKUP_CLICK (set_content 2 IOTB_LCD_DYNAMIC_CONTENT lcd_boot)"

text \<open>Choosing songs is cyclic: with a loaded list, the next-song and last-song keys of the song page
  never access anything invalid, move the selection by one modulo the number of songs, and undo each
  other.\<close>

lemma lcd_song_cycle:
  assumes "songs_ok st"
  shows "\<exists>st1 st2. next_song i st = Some st1 \<and> last_song i st1 = Some st2
    \<and> songlist_num st1 = (songlist_num st + 1) mod item_num st
    \<and> songs_ok st1 \<and> songs_ok st2 \<and> songlist_num st2 = songlist_num st"
proof -
  obtain st1 where st1: "next_song i st = Some st1" "songs_ok st1" "item_num st1 = item_num st"
    "songlist_num st1 = (songlist_num st + 1) mod item_num st"
    using next_song_spec [OF assms] by blast
  obtain st2 where st2: "last_song i st1 = Some st2" "songs_ok st2" "songlist_num st2 = (songlist_num st1 - 1) mod item_num st"
    using last_song_spec [OF st1(2)] st1(3) by metis
  have "((songlist_num st + 1) mod item_num st - 1) mod item_num st = songlist_num st mod item_num st"
    by (simp add: mod_diff_left_eq)
  also have "\<dots> = songlist_num st" using assms by (simp add: songs_ok_def)
  finally show ?thesis using st1 st2 by auto
qed

definition example_songs :: lcd_state where
  "example_songs = lcd_boot\<lparr>songlist := Some [Some ''1.wav'', Some ''2.wav'', Some ''3.wav''], item_num := 3, songlist_num := 2\<rparr>"

lemma example_songs_ok: "songs_ok example_songs"
proof -
  have "song example_songs i \<noteq> None" if "0 \<le> i" "i < 3" for i
  proof -
    have "i = 0 \<or> i = 1 \<or> i = 2" using that by presburger
    then show ?thesis by (auto simp: song_def example_songs_def)
  qed
  then show ?thesis unfolding songs_ok_def by (simp add: example_songs_def)
qed

text \<open>The file system page frees the song list but keeps \<open>item_num\<close> and the selection: after showing it
  with songs loaded, unless a later download succeeds, the next-song and last-song keys follow the
  NULL list, and so does showing the file system page again.\<close>

lemma lcd_freed_list_used:
  assumes "iotb_lcd_show_sdcard env 3 st = Some st1" "content_type (the_menu 3 st) = IOTB_LCD_STATIC_CONTENT"
    and "0 < item_num st"
  shows "songlist st1 = None \<and> item_num st1 = item_num st
    \<and> next_song 1 st1 = None \<and> last_song 1 st1 = None
    \<and> iotb_lcd_show_sdcard env' 3 (set_content 3 IOTB_LCD_STATIC_CONTENT st1) = None"
proof -
  obtain stf where f: "free_songs (emit [Lcd_clear WHITE, Lcd_set_color WHITE BLACK,
      Lcd_show_string 32 8 32 ''File System''] st) = Some stf"
    "st1 = (case env_dir env of
             None \<Rightarrow> emit [Lcd_show_string 24 (52 + 27 * 2) 24 '' Insert SD card'',
                           Lcd_show_string 24 (52 + 27 * 3) 24 '' before power-on''] stf
           | Some ds \<Rightarrow> emit (show_dir 0 ds) stf)"
    using assms(1,2) unfolding iotb_lcd_show_sdcard_def by (auto simp: bind_eq_Some_conv)
  have free: "songlist stf = None" "item_num stf = item_num st" "lcd_instance stf = lcd_instance st"
    using f(1) assms(3) by (auto simp: free_songs_def emit_def split: option.splits if_splits)
  then have st1: "songlist st1 = None" "item_num st1 = item_num st" "lcd_instance st1 = lcd_instance st"
    by (auto simp: f(2) emit_def split: option.splits)
  then have none: "song st1 j = None" for j by (simp add: song_def)
  have "next_song 1 st1 = None" "last_song 1 st1 = None"
    by (simp_all add: next_song_def last_song_def Let_def frame_simps none bind_eq_None_conv)
  moreover have "iotb_lcd_show_sdcard env' 3 (set_content 3 IOTB_LCD_STATIC_CONTENT st1) = None"
  proof (cases "3 < length (lcd_instance st1)")
    case True
    then show ?thesis
      using assms(3) st1 by (simp add: iotb_lcd_show_sdcard_def the_menu_def set_content_def set_menu_def
          free_songs_def emit_def)
  next
    case False
    then have "set_content 3 IOTB_LCD_STATIC_CONTENT st1 = st1"
      by (simp add: set_content_def set_menu_def list_update_beyond)
    then show ?thesis
      using assms(2,3) st1 by (simp add: iotb_lcd_show_sdcard_def the_menu_def free_songs_def emit_def)
  qed
  ultimately show ?thesis using st1 by simp
qed

lemma example_sdcard: "iotb_lcd_show_sdcard offline_env 3 (set_content 3 IOTB_LCD_STATIC_CONTENT example_songs) \<noteq> None"
  by code_simp

end
