(* ===== verification/WavHdr.thy ===== *)
theory WavHdr
  imports Interfaces "HOL-Library.Signed_Division"
begin

text \<open>
  The WAV header codec \<open>packages/wavplayer-v0.2.0/src/wavhdr.c\<close>. A file opened for reading is the list of its
  remaining bytes, one opened for writing the list of bytes written; \<open>int\<close> and \<open>short\<close> are 32- and
  16-bit words, stored least significant byte first. \<open>getc\<close> at the end of the file yields \<open>EOF\<close>, which
  becomes the byte 0xFF, and \<open>fread\<close> copies what is left.
\<close>

subsection \<open>Header\<close>

record wav_header =
  riff_id :: "u8 list"
  riff_datasize :: u32
  riff_type :: "u8 list"
  fmt_id :: "u8 list"
  fmt_datasize :: u32
  fmt_compression_code :: u16
  fmt_channels :: u16
  fmt_sample_rate :: u32
  fmt_avg_bytes_per_sec :: u32
  fmt_block_align :: u16
  fmt_bit_per_sample :: u16
  data_id :: "u8 list"
  data_datasize :: u32

definition RIFF :: "u8 list" where "RIFF = [0x52, 0x49, 0x46, 0x46]"
definition WAVE :: "u8 list" where "WAVE = [0x57, 0x41, 0x56, 0x45]"
definition FMT_ID :: "u8 list" where "FMT_ID = [0x66, 0x6D, 0x74, 0x20]"
definition DATA :: "u8 list" where "DATA = [0x64, 0x61, 0x74, 0x61]"

subsection \<open>Integers in a stream\<close>

fun getc :: "u8 list \<Rightarrow> u8 \<times> u8 list" where
  "getc [] = (0xFF, [])"
| "getc (b # bs) = (b, bs)"

definition get_int :: "u8 list \<Rightarrow> u32 \<times> u8 list" where
  "get_int fp =
     (let (s0, fp) = getc fp; (s1, fp) = getc fp; (s2, fp) = getc fp; (s3, fp) = getc fp
      in (ucast s0 OR push_bit 8 (ucast s1) OR push_bit 16 (ucast s2) OR push_bit 24 (ucast s3), fp))"

definition put_int :: "u32 \<Rightarrow> u8 list" where
  "put_int i = [ucast i, ucast (drop_bit 8 i), ucast (drop_bit 16 i), ucast (drop_bit 24 i)]"

definition get_sint :: "u8 list \<Rightarrow> u16 \<times> u8 list" where
  "get_sint fp =
     (let (s0, fp) = getc fp; (s1, fp) = getc fp in (ucast s0 OR push_bit 8 (ucast s1), fp))"

definition put_sint :: "u16 \<Rightarrow> u8 list" where
  "put_sint i = [ucast i, ucast (drop_bit 8 i)]"

text \<open>\<open>fread(id, 4, 1, fp)\<close> into a field that holds \<open>old\<close>.\<close>

definition fread_id :: "u8 list \<Rightarrow> u8 list \<Rightarrow> u8 list \<times> u8 list" where
  "fread_id old fp = (take 4 fp @ drop (length (take 4 fp)) old, drop 4 fp)"

definition fwrite_id :: "u8 list \<Rightarrow> u8 list" where
  "fwrite_id d = take 4 d"

subsection \<open>Operations\<close>

text \<open>C's signed division of an \<open>int\<close>, which truncates towards zero.\<close>

definition int_div :: "u32 \<Rightarrow> int \<Rightarrow> u32" where
  "int_div a b = word_of_int (sint a sdiv b)"

definition wavheader_init :: "wav_header option \<Rightarrow> u32 \<Rightarrow> u32 \<Rightarrow> u32 \<Rightarrow> int \<times> wav_header option" where
  "wavheader_init header sample_rate channels datasize =
     (case header of
        None \<Rightarrow> (-1, None)
      | Some h \<Rightarrow>
          let h = h\<lparr>riff_id := RIFF, riff_datasize := datasize + 44 - 8, riff_type := WAVE, fmt_id := FMT_ID,
                    fmt_datasize := 16, fmt_compression_code := 1, fmt_channels := ucast channels,
                    fmt_sample_rate := sample_rate\<rparr>;
              h = h\<lparr>fmt_avg_bytes_per_sec :=
                      int_div (fmt_sample_rate h * scast (fmt_channels h) * scast (fmt_bit_per_sample h)) 8\<rparr>;
              h = h\<lparr>fmt_block_align :=
                      ucast (int_div (scast (fmt_bit_per_sample h) * scast (fmt_channels h)) 8)\<rparr>
          in (0, Some (h\<lparr>fmt_bit_per_sample := 16, data_id := DATA, data_datasize := datasize\<rparr>)))"

definition wavheader_read :: "wav_header \<Rightarrow> u8 list option \<Rightarrow> int \<times> wav_header \<times> u8 list option" where
  "wavheader_read h fp =
     (case fp of
        None \<Rightarrow> (-1, h, None)
      | Some fp \<Rightarrow>
          let (a, fp) = fread_id (riff_id h) fp;
              (b, fp) = get_int fp;
              (c, fp) = fread_id (riff_type h) fp;
              (d, fp) = fread_id (fmt_id h) fp;
              (e, fp) = get_int fp;
              (f, fp) = get_sint fp;
              (g, fp) = get_sint fp;
              (i, fp) = get_int fp;
              (j, fp) = get_int fp;
              (k, fp) = get_sint fp;
              (l, fp) = get_sint fp;
              (m, fp) = fread_id (data_id h) fp;
              (n, fp) = get_int fp
          in (0, \<lparr>riff_id = a, riff_datasize = b, riff_type = c, fmt_id = d, fmt_datasize = e,
                  fmt_compression_code = f, fmt_channels = g, fmt_sample_rate = i,
                  fmt_avg_bytes_per_sec = j, fmt_block_align = k, fmt_bit_per_sample = l,
                  data_id = m, data_datasize = n\<rparr>, Some fp))"

definition wavheader_write :: "wav_header \<Rightarrow> u8 list option \<Rightarrow> int \<times> u8 list option" where
  "wavheader_write h fp =
     (case fp of
        None \<Rightarrow> (-1, None)
      | Some fp \<Rightarrow>
          (0, Some (fp @ fwrite_id (riff_id h) @ put_int (riff_datasize h) @ fwrite_id (riff_type h)
                    @ fwrite_id (fmt_id h) @ put_int (fmt_datasize h) @ put_sint (fmt_compression_code h)
                    @ put_sint (fmt_channels h) @ put_int (fmt_sample_rate h)
                    @ put_int (fmt_avg_bytes_per_sec h) @ put_sint (fmt_block_align h)
                    @ put_sint (fmt_bit_per_sample h) @ fwrite_id (data_id h) @ put_int (data_datasize h))))"

subsection \<open>The codecs\<close>

lemma word32_bytes:
  "(ucast (ucast (i :: u32) :: u8) :: u32) OR push_bit 8 (ucast (ucast (drop_bit 8 i) :: u8))
     OR push_bit 16 (ucast (ucast (drop_bit 16 i) :: u8)) OR push_bit 24 (ucast (ucast (drop_bit 24 i) :: u8)) = i"
proof (rule bit_word_eqI)
  fix n
  assume "n < LENGTH(32)"
  then have n: "n < 32" by simp
  then consider "n < 8" | "8 \<le> n" "n < 16" | "16 \<le> n" "n < 24" | "24 \<le> n" "n < 32" by linarith
  then show "bit ((ucast (ucast (i :: u32) :: u8) :: u32) OR push_bit 8 (ucast (ucast (drop_bit 8 i) :: u8))
     OR push_bit 16 (ucast (ucast (drop_bit 16 i) :: u8)) OR push_bit 24 (ucast (ucast (drop_bit 24 i) :: u8))) n
     = bit i n"
    by cases (auto simp: bit_simps)
qed

lemma word16_bytes:
  "(ucast (ucast (i :: u16) :: u8) :: u16) OR push_bit 8 (ucast (ucast (drop_bit 8 i) :: u8)) = i"
proof (rule bit_word_eqI)
  fix n
  assume "n < LENGTH(16)"
  then consider "n < 8" | "8 \<le> n" "n < 16" by fastforce
  then show "bit ((ucast (ucast (i :: u16) :: u8) :: u16) OR push_bit 8 (ucast (ucast (drop_bit 8 i) :: u8))) n = bit i n"
    by cases (auto simp: bit_simps)
qed

interpretation int_codec: stream_codec put_int get_int 4
  by unfold_locales (simp_all add: put_int_def get_int_def word32_bytes)

interpretation sint_codec: stream_codec put_sint get_sint 2
  by unfold_locales (simp_all add: put_sint_def get_sint_def word16_bytes)

lemma fread_fwrite_id [simp]:
  "length d = 4 \<Longrightarrow> length old = 4 \<Longrightarrow> fread_id old (fwrite_id d @ rest) = (d, rest)"
  by (simp add: fread_id_def fwrite_id_def)

definition header_ok :: "wav_header \<Rightarrow> bool" where
  "header_ok h \<longleftrightarrow> length (riff_id h) = 4 \<and> length (riff_type h) = 4 \<and> length (fmt_id h) = 4
     \<and> length (data_id h) = 4"

subsection \<open>Properties\<close>

lemma length_wavheader_write:
  assumes "header_ok h"
  shows "length (the (snd (wavheader_write h (Some fp)))) = length fp + 44"
  using assms
  by (simp add: wavheader_write_def header_ok_def fwrite_id_def int_codec.length_enc sint_codec.length_enc)

lemma wavheader_read_written:
  assumes "header_ok h" "header_ok old"
  shows "wavheader_read old (Some (the (snd (wavheader_write h (Some []))) @ rest)) = (0, h, Some rest)"
  using assms
  by (simp add: wavheader_write_def wavheader_read_def header_ok_def int_codec.dec_enc sint_codec.dec_enc)

text \<open>
  Round trip of the header: writing any header produces exactly 44 bytes, and reading them back, whatever the
  record held before and whatever follows in the file, yields the same header and leaves the stream at the first byte
  of the sound data.
\<close>

lemma wavheader_roundtrip:
  assumes "header_ok h" "header_ok old"
  shows "\<exists>bytes. wavheader_write h (Some fp) = (0, Some (fp @ bytes)) \<and> length bytes = 44
    \<and> wavheader_read old (Some (bytes @ rest)) = (0, h, Some rest)"
proof -
  let ?bytes = "the (snd (wavheader_write h (Some [])))"
  have "wavheader_write h (Some fp) = (0, Some (fp @ ?bytes))"
    by (simp add: wavheader_write_def)
  then show ?thesis
    using wavheader_read_written [OF assms] length_wavheader_write [OF assms(1), of "[]"] by auto
qed

definition zero_header :: wav_header where
  "zero_header = \<lparr>riff_id = replicate 4 0, riff_datasize = 0, riff_type = replicate 4 0, fmt_id = replicate 4 0,
     fmt_datasize = 0, fmt_compression_code = 0, fmt_channels = 0, fmt_sample_rate = 0, fmt_avg_bytes_per_sec = 0,
     fmt_block_align = 0, fmt_bit_per_sample = 0, data_id = replicate 4 0, data_datasize = 0\<rparr>"

text \<open>
  \<open>wavheader_init\<close> computes the byte rate and the block size from the sample width the record held
  \<^emph>\<open>before\<close> the call and only then stores the width 16. Called on a zeroed record (as the recorder calls it) it
  therefore announces 16-bit samples at 0 bytes per second in blocks of 0 bytes; only a second call on the same record
  gives the rate and the block size that belong to the width.
\<close>

lemma wavheader_init_old_width:
  assumes "fmt_bit_per_sample h = 0"
  shows "\<exists>h1 h2. wavheader_init (Some h) rate ch len = (0, Some h1)
    \<and> wavheader_init (Some h1) rate ch len = (0, Some h2)
    \<and> header_ok h1
    \<and> fmt_bit_per_sample h1 = 16 \<and> fmt_avg_bytes_per_sec h1 = 0 \<and> fmt_block_align h1 = 0
    \<and> fmt_sample_rate h1 = rate \<and> fmt_channels h1 = ucast ch \<and> data_datasize h1 = len \<and> riff_datasize h1 = len + 36
    \<and> fmt_avg_bytes_per_sec h2 = int_div (rate * scast (ucast ch :: u16) * 16) 8
    \<and> fmt_block_align h2 = ucast (int_div (16 * scast (ucast ch :: u16)) 8)"
  using assms
  by (simp add: wavheader_init_def Let_def int_div_def header_ok_def RIFF_def WAVE_def FMT_ID_def DATA_def)

lemma wavheader_init_old_width_witness:
  "fmt_bit_per_sample zero_header = 0 \<and>
   (\<exists>h1 h2. wavheader_init (Some zero_header) 44100 2 1000 = (0, Some h1)
     \<and> wavheader_init (Some h1) 44100 2 1000 = (0, Some h2)
     \<and> fmt_avg_bytes_per_sec h1 = 0 \<and> fmt_avg_bytes_per_sec h2 = 176400
     \<and> fmt_block_align h1 = 0 \<and> fmt_block_align h2 = 4)"
proof -
  have zero: "fmt_bit_per_sample zero_header = 0"
    by (simp add: zero_header_def)
  have "int_div (44100 * scast (ucast (2 :: u32) :: u16) * 16) 8 = 176400"
    "ucast (int_div (16 * scast (ucast (2 :: u32) :: u16)) 8) = (4 :: u16)"
    by (simp_all add: int_div_def)
  then show ?thesis
    using zero wavheader_init_old_width [OF zero, of 44100 2 1000] by auto
qed

end
