(* ===== verification/RtCompletion.thy ===== *)
theory RtCompletion
  imports Prelude
begin

text \<open>
  The completion object of \<open>rt-thread/components/drivers/src/completion.c\<close>: a flag and a list that holds at most the
  one thread waiting for it. The player thread acknowledges every request through one. A waiting thread
  suspends inside \<open>rt_completion_wait\<close>; the code after \<open>rt_schedule\<close> runs when it is resumed
  and is a definition of its own.
\<close>

subsection \<open>State and operations\<close>

record completion =
  c_flag :: bool
  c_suspended :: "nat list"

datatype completion_wait =
    Proceed rt_err completion
  | Suspend completion
  | Assert_failed

definition rt_completion_init :: completion where
  "rt_completion_init = \<lparr>c_flag = False, c_suspended = []\<rparr>"

definition rt_completion_wait :: "nat \<Rightarrow> int \<Rightarrow> completion \<Rightarrow> completion_wait" where
  "rt_completion_wait self timeout c =
     (if c_flag c then Proceed RT_EOK (c\<lparr>c_flag := False\<rparr>)
      else if c_suspended c \<noteq> [] then Assert_failed
      else if timeout = 0 then Proceed RT_ETIMEOUT c
      else Suspend (c\<lparr>c_suspended := c_suspended c @ [self]\<rparr>))"

text \<open>After \<open>rt_schedule\<close>: the waiter returns the error it was resumed with and clears the flag.\<close>

definition rt_completion_resumed :: "rt_err \<Rightarrow> completion \<Rightarrow> rt_err \<times> completion" where
  "rt_completion_resumed error c = (error, c\<lparr>c_flag := False\<rparr>)"

definition rt_completion_done :: "completion \<Rightarrow> completion \<times> nat option" where
  "rt_completion_done c =
     (if c_flag c then (c, None)
      else
        let c = c\<lparr>c_flag := True\<rparr>
        in (case c_suspended c of
              [] \<Rightarrow> (c, None)
            | t # ts \<Rightarrow> (c\<lparr>c_suspended := ts\<rparr>, Some t)))"

subsection \<open>The handshake\<close>

text \<open>
  What a client of a completion relies on: from the initial state a signal and a wait meet, in either
  order, and leave the initial state behind. \<open>wait\<close> says whether the caller proceeds at once,
  \<open>resume\<close> is what a suspended caller does when it is woken.
\<close>

locale handshake =
  fixes idle :: 'c
    and wait :: "nat \<Rightarrow> 'c \<Rightarrow> bool \<times> 'c"
    and resume :: "'c \<Rightarrow> 'c"
    and signal :: "'c \<Rightarrow> 'c \<times> nat option"
  assumes early: "snd (signal idle) = None \<and> wait t (fst (signal idle)) = (True, idle)"
    and late: "\<not> fst (wait t idle) \<and> snd (signal (snd (wait t idle))) = Some t
      \<and> resume (fst (signal (snd (wait t idle)))) = idle"
begin

definition exchange :: "bool \<Rightarrow> nat \<Rightarrow> 'c \<Rightarrow> nat option \<times> 'c" where
  "exchange signal_first t c =
     (if signal_first
      then (let (proceeds, c) = wait t (fst (signal c)) in (if proceeds then Some t else None, c))
      else (let (c, woken) = signal (snd (wait t c)) in (woken, resume c)))"

primrec exchanges :: "(bool \<times> nat) list \<Rightarrow> 'c \<Rightarrow> nat option list \<times> 'c" where
  "exchanges [] c = ([], c)"
| "exchanges (x # xs) c =
     (let (w, c) = exchange (fst x) (snd x) c; (ws, c) = exchanges xs c in (w # ws, c))"

lemma exchange_idle: "exchange b t idle = (Some t, idle)"
  using early [of t] late [of t] by (cases b) (simp_all add: exchange_def case_prod_unfold)

lemma exchanges_idle: "exchanges xs idle = (map (\<lambda>x. Some (snd x)) xs, idle)"
  by (induction xs) (simp_all add: exchange_idle)

end

definition completion_wait_forever :: "nat \<Rightarrow> completion \<Rightarrow> bool \<times> completion" where
  "completion_wait_forever t c =
     (case rt_completion_wait t (- 1) c of
        Proceed _ c' \<Rightarrow> (True, c') | Suspend c' \<Rightarrow> (False, c') | Assert_failed \<Rightarrow> (False, c))"

interpretation ack: handshake rt_completion_init completion_wait_forever
    "\<lambda>c. snd (rt_completion_resumed RT_EOK c)" rt_completion_done
  by unfold_locales
    (simp_all add: rt_completion_init_def completion_wait_forever_def rt_completion_wait_def
      rt_completion_resumed_def rt_completion_done_def)

subsection \<open>Properties\<close>

text \<open>
  A wait and a done on a completion meet in either order: over any sequence of rounds from the initialised state, in each
  of which the waiter comes first or the signal does, the waiter of that round is released, and the
  completion ends as initialised. A wait that finds another thread waiting fails its assertion.
\<close>

lemma completion_rounds:
  "ack.exchanges xs rt_completion_init = (map (\<lambda>x. Some (snd x)) xs, rt_completion_init)
   \<and> rt_completion_wait u (- 1) (snd (completion_wait_forever t rt_completion_init)) = Assert_failed"
proof
  show "ack.exchanges xs rt_completion_init = (map (\<lambda>x. Some (snd x)) xs, rt_completion_init)"
    by (rule ack.exchanges_idle)
  show "rt_completion_wait u (- 1) (snd (completion_wait_forever t rt_completion_init)) = Assert_failed"
    by (simp add: completion_wait_forever_def rt_completion_wait_def rt_completion_init_def)
qed

end
