(* ===== verification/WavPlayer.thy ===== *)
theory WavPlayer
  imports RtMq RtCompletion WavHdr
begin

text \<open>
  The player of \<open>packages/wavplayer-v0.2.0/src/wavplayer.c\<close>: a thread that waits for a start request, opens the
  file and the sound device and then alternates between polling its message queue and writing a block
  of the file to the device; and the client calls \<open>wavplayer_play\<close>, \<open>_stop\<close>, \<open>_pause\<close>, \<open>_resume\<close>, which hold a
  mutex, send one message and wait for a completion. The state is the struct \<open>player\<close> plus the program
  counters of the player thread and of the clients (numbered threads), and one step runs a thread to
  its next interaction with the others: every read of \<open>player.state\<close>, every send, wait, lock and
  unlock is a step of its own, so the interleavings of the model are those of a preemptive scheduler.
  The queue is the list of its messages, bounded by what \<open>rt_mq_create\<close> of theory \<open>RtMq\<close> provides. The
  file system and the sound device are the parameters in \<open>player_env\<close>; \<open>rt_strdup\<close> succeeds.
\<close>

subsection \<open>Data\<close>

definition VOLUME_MIN :: int where "VOLUME_MIN = 0"
definition VOLUME_MAX :: int where "VOLUME_MAX = 99"
definition WP_BUFFER_SIZE :: nat where "WP_BUFFER_SIZE = 2048"
definition WP_VOLUME_DEFAULT :: int where "WP_VOLUME_DEFAULT = 55"

datatype player_state = PLAYER_STATE_STOPED | PLAYER_STATE_PLAYING | PLAYER_STATE_PAUSED

datatype msg_type = MSG_NONE | MSG_START | MSG_STOP | MSG_PAUSE | MSG_RESUME

datatype player_event =
  PLAYER_EVENT_NONE | PLAYER_EVENT_PLAY | PLAYER_EVENT_STOP | PLAYER_EVENT_PAUSE | PLAYER_EVENT_RESUME

text \<open>
  Where the player thread stands: \<open>Outer\<close> the wait of the outer loop, \<open>Opening\<close> before \<open>wavplayer_open\<close>, \<open>Poll\<close>
  the non-blocking receive of the inner loop, \<open>Reading\<close> before \<open>fread\<close>, \<open>PauseWait\<close> the wait for a
  resume or stop, \<open>Check\<close> the test that ends the inner loop, \<open>Closing\<close> before \<open>wavplayer_close\<close>, \<open>Exited\<close> after
  a failed start.
\<close>

datatype player_pc = Outer | Opening | Poll | Reading | PauseWait | Check | Closing | Exited

text \<open>
  The calls; \<open>Play_stop\<close> is the \<open>wavplayer_stop\<close> that \<open>wavplayer_play\<close> makes while it holds the lock. \<open>C_lock\<close> is
  the call at \<open>play_lock\<close>, after \<open>rt_completion_init\<close>; \<open>C_guard\<close> at the test of \<open>player.state\<close>; \<open>C_uri\<close>, \<open>C_send\<close> and
  \<open>C_wait\<close> at the statements they name; \<open>C_blocked\<close> suspended in \<open>rt_completion_wait\<close>, \<open>C_woken\<close> resumed
  there; \<open>C_unlock\<close> at \<open>play_unlock\<close>.
\<close>

datatype player_op = Op_play string | Op_stop | Op_pause | Op_resume | Play_stop string

datatype client_pc =
    C_idle
  | C_lock player_op
  | C_guard player_op
  | C_uri player_op
  | C_send player_op
  | C_wait player_op rt_err
  | C_blocked player_op rt_err
  | C_woken player_op rt_err
  | C_unlock player_op rt_err

datatype effect =
    Dev_open
  | Dev_close
  | Dev_config u32 u16 u16
  | Dev_volume int
  | Dev_write "u8 list"
  | Returned nat player_op rt_err

record wavplayer =
  p_state :: player_state
  p_uri :: "string option"
  p_buffer :: bool
  p_device :: bool
  p_mq :: "msg_type list"
  p_mq_max :: nat
  p_lock :: "(nat \<times> nat) option"
  p_ack :: completion
  p_fp :: "u8 list option"
  p_volume :: int
  p_pc :: player_pc
  p_clients :: "nat \<Rightarrow> client_pc"
  p_effects :: "effect list"

record player_env =
  malloc_ok :: bool
  mq_object_ok :: bool
  mq_malloc :: "u32 \<Rightarrow> ((nat \<Rightarrow> nat option) \<times> (nat \<Rightarrow> u8 list)) option"
  mutex_ok :: bool
  find_ok :: bool
  dev_open :: rt_err
  dev_control :: rt_err
  files :: "string \<Rightarrow> u8 list option"
  stack_wav :: wav_header

text \<open>\<open>p_lock\<close> is the owner of the recursive mutex and its hold count; \<open>p_device\<close> and \<open>p_buffer\<close> say that the
  pointer is not null; \<open>p_mq\<close> holds the queued messages and \<open>p_mq_max\<close> the number of blocks; \<open>stack_wav\<close> is what
  the uninitialised header on the stack holds.\<close>

definition player_log :: "effect \<Rightarrow> wavplayer \<Rightarrow> wavplayer" where
  "player_log e p = p\<lparr>p_effects := p_effects p @ [e]\<rparr>"

definition sizeof_play_msg :: u32 where "sizeof_play_msg = 8"

subsection \<open>The player thread\<close>

text \<open>The static struct before the thread runs, and the prologue of \<open>wavplayer_entry\<close>. The arguments of
  \<open>rt_mq_create\<close> are those of the source: message size 10 and \<open>sizeof(struct play_msg)\<close> messages.\<close>

definition player_zero :: wavplayer where
  "player_zero = \<lparr>p_state = PLAYER_STATE_STOPED, p_uri = None, p_buffer = False, p_device = False, p_mq = [],
     p_mq_max = 0, p_lock = None, p_ack = rt_completion_init, p_fp = None, p_volume = 0, p_pc = Exited,
     p_clients = (\<lambda>_. C_idle), p_effects = []\<rparr>"

definition wavplayer_start :: "player_env \<Rightarrow> wavplayer" where
  "wavplayer_start env =
     (if \<not> malloc_ok env then player_zero
      else let p = player_zero\<lparr>p_buffer := True\<rparr>
           in (case rt_mq_create (mq_object_ok env) (mq_malloc env) 10 sizeof_play_msg RT_IPC_FLAG_FIFO of
                 None \<Rightarrow> p\<lparr>p_buffer := False\<rparr>
               | Some q \<Rightarrow>
                   let p = p\<lparr>p_mq_max := unat (mq_max_msgs q)\<rparr>
                   in if \<not> mutex_ok env then p\<lparr>p_buffer := False, p_mq_max := 0\<rparr>
                      else p\<lparr>p_volume := WP_VOLUME_DEFAULT, p_pc := Outer\<rparr>))"

text \<open>\<open>rt_completion_done\<close> on the acknowledgement: the thread it resumes continues in its wait.\<close>

definition player_ack :: "wavplayer \<Rightarrow> wavplayer" where
  "player_ack p =
     (case rt_completion_done (p_ack p) of
        (c, None) \<Rightarrow> p\<lparr>p_ack := c\<rparr>
      | (c, Some i) \<Rightarrow>
          p\<lparr>p_ack := c,
            p_clients := (p_clients p)(i := (case p_clients p i of C_blocked op r \<Rightarrow> C_woken op r | pc \<Rightarrow> pc))\<rparr>)"

primrec player_event_of :: "msg_type \<Rightarrow> player_event" where
  "player_event_of MSG_START = PLAYER_EVENT_PLAY"
| "player_event_of MSG_STOP = PLAYER_EVENT_STOP"
| "player_event_of MSG_PAUSE = PLAYER_EVENT_PAUSE"
| "player_event_of MSG_RESUME = PLAYER_EVENT_RESUME"
| "player_event_of MSG_NONE = PLAYER_EVENT_NONE"

fun state_after :: "msg_type \<Rightarrow> player_state \<Rightarrow> player_state" where
  "state_after MSG_START _ = PLAYER_STATE_PLAYING"
| "state_after MSG_STOP _ = PLAYER_STATE_STOPED"
| "state_after MSG_PAUSE _ = PLAYER_STATE_PAUSED"
| "state_after MSG_RESUME _ = PLAYER_STATE_PLAYING"
| "state_after MSG_NONE s = s"

text \<open>\<open>wavplayer_event_handler\<close>. With \<open>RT_WAITING_NO\<close> an empty queue is the event \<open>PLAYER_EVENT_NONE\<close>; with
  \<open>RT_WAITING_FOREVER\<close> it suspends the thread, here \<open>None\<close>.\<close>

definition wavplayer_event_handler :: "bool \<Rightarrow> wavplayer \<Rightarrow> (player_event \<times> wavplayer) option" where
  "wavplayer_event_handler forever p =
     (case p_mq p of
        [] \<Rightarrow> if forever then None else Some (PLAYER_EVENT_NONE, p)
      | m # ms \<Rightarrow>
          Some (player_event_of m, player_ack (p\<lparr>p_mq := ms, p_state := state_after m (p_state p)\<rparr>)))"

definition wavplayer_close :: "wavplayer \<Rightarrow> wavplayer" where
  "wavplayer_close p =
     (let p = (if p_fp p \<noteq> None then p\<lparr>p_fp := None\<rparr> else p)
      in if p_device p then (player_log Dev_close p)\<lparr>p_device := False\<rparr> else p)"

definition wavplayer_open :: "player_env \<Rightarrow> wavplayer \<Rightarrow> rt_err \<times> wavplayer" where
  "wavplayer_open env p =
     (let p = p\<lparr>p_device := find_ok env\<rparr>
      in if \<not> find_ok env then (RT_ERROR, p)
      else
        let p = p\<lparr>p_fp := files env (the (p_uri p))\<rparr>
        in case p_fp p of
             None \<Rightarrow> (RT_ERROR, wavplayer_close p)
           | Some f \<Rightarrow>
               if dev_open env \<noteq> RT_EOK then (dev_open env, wavplayer_close p)
               else
                 let p = player_log Dev_open p;
                     (_, wav, f') = wavheader_read (stack_wav env) (Some f);
                     p = p\<lparr>p_fp := f'\<rparr>;
                     p = player_log (Dev_config (fmt_sample_rate wav) (fmt_channels wav) (fmt_bit_per_sample wav)) p;
                     p = player_log (Dev_volume (p_volume p)) p
                 in (RT_EOK, p))"

text \<open>\<open>fread(buffer, WP_BUFFER_SIZE, 1, fp)\<close> counts whole blocks: it yields the next block, or consumes what is
  left and yields nothing.\<close>

definition read_block :: "u8 list \<Rightarrow> u8 list option \<times> u8 list" where
  "read_block f =
     (if WP_BUFFER_SIZE \<le> length f then (Some (take WP_BUFFER_SIZE f), drop WP_BUFFER_SIZE f) else (None, []))"

definition player_read :: "wavplayer \<Rightarrow> wavplayer" where
  "player_read p =
     (case read_block (the (p_fp p)) of
        (None, f) \<Rightarrow> p\<lparr>p_fp := Some f, p_state := PLAYER_STATE_STOPED\<rparr>
      | (Some block, f) \<Rightarrow> player_log (Dev_write block) (p\<lparr>p_fp := Some f\<rparr>))"

text \<open>The two loops of \<open>wavplayer_entry\<close>, one step per statement that meets the other threads; \<open>None\<close> when the
  thread is suspended or has ended.\<close>

definition wavplayer_entry :: "player_env \<Rightarrow> wavplayer \<Rightarrow> wavplayer option" where
  "wavplayer_entry env p =
     (case p_pc p of
        Outer \<Rightarrow>
          (case wavplayer_event_handler True p of
             None \<Rightarrow> None
           | Some (event, p) \<Rightarrow> Some (if event = PLAYER_EVENT_PLAY then p\<lparr>p_pc := Opening\<rparr> else p))
      | Opening \<Rightarrow>
          (let (result, p) = wavplayer_open env p
           in Some (if result \<noteq> RT_EOK then p\<lparr>p_state := PLAYER_STATE_STOPED, p_pc := Outer\<rparr>
                    else p\<lparr>p_pc := Poll\<rparr>))
      | Poll \<Rightarrow>
          (case wavplayer_event_handler False p of
             None \<Rightarrow> None
           | Some (event, p) \<Rightarrow>
               Some (p\<lparr>p_pc := (case event of
                                  PLAYER_EVENT_NONE \<Rightarrow> Reading
                                | PLAYER_EVENT_PAUSE \<Rightarrow> PauseWait
                                | _ \<Rightarrow> Check)\<rparr>))
      | Reading \<Rightarrow> Some ((player_read p)\<lparr>p_pc := Check\<rparr>)
      | PauseWait \<Rightarrow>
          (case wavplayer_event_handler True p of
             None \<Rightarrow> None
           | Some (event, p) \<Rightarrow> Some (p\<lparr>p_pc := Check\<rparr>))
      | Check \<Rightarrow> Some (p\<lparr>p_pc := (if p_state p = PLAYER_STATE_STOPED then Closing else Poll)\<rparr>)
      | Closing \<Rightarrow> Some ((wavplayer_close p)\<lparr>p_pc := Outer\<rparr>)
      | Exited \<Rightarrow> None)"

subsection \<open>The calls of a client\<close>

definition set_client :: "nat \<Rightarrow> client_pc \<Rightarrow> wavplayer \<Rightarrow> wavplayer" where
  "set_client i pc p = p\<lparr>p_clients := (p_clients p)(i := pc)\<rparr>"

definition play_lock :: "nat \<Rightarrow> wavplayer \<Rightarrow> wavplayer option" where
  "play_lock i p =
     (case p_lock p of
        None \<Rightarrow> Some (p\<lparr>p_lock := Some (i, 1)\<rparr>)
      | Some (j, n) \<Rightarrow> if j = i then Some (p\<lparr>p_lock := Some (i, n + 1)\<rparr>) else None)"

definition play_unlock :: "nat \<Rightarrow> wavplayer \<Rightarrow> wavplayer" where
  "play_unlock i p =
     (case p_lock p of
        None \<Rightarrow> p
      | Some (j, n) \<Rightarrow> if j \<noteq> i then p else if n = 1 then p\<lparr>p_lock := None\<rparr> else p\<lparr>p_lock := Some (i, n - 1)\<rparr>)"

definition play_msg_send :: "msg_type \<Rightarrow> wavplayer \<Rightarrow> rt_err \<times> wavplayer" where
  "play_msg_send m p =
     (if length (p_mq p) < p_mq_max p then (RT_EOK, p\<lparr>p_mq := p_mq p @ [m]\<rparr>) else (RT_EFULL, p))"

primrec message_of :: "player_op \<Rightarrow> msg_type" where
  "message_of (Op_play u) = MSG_START"
| "message_of Op_stop = MSG_STOP"
| "message_of Op_pause = MSG_PAUSE"
| "message_of Op_resume = MSG_RESUME"
| "message_of (Play_stop u) = MSG_STOP"

text \<open>A call starts with \<open>rt_completion_init\<close>, before it takes the lock.\<close>

definition call_op :: "nat \<Rightarrow> player_op \<Rightarrow> wavplayer \<Rightarrow> wavplayer" where
  "call_op i op p = set_client i (C_lock op) (p\<lparr>p_ack := rt_completion_init\<rparr>)"

text \<open>The test of \<open>player.state\<close> and the branch it takes.\<close>

fun guard_op :: "nat \<Rightarrow> player_op \<Rightarrow> wavplayer \<Rightarrow> wavplayer" where
  "guard_op i (Op_play u) p =
     (if p_state p \<noteq> PLAYER_STATE_STOPED then call_op i (Play_stop u) p else set_client i (C_uri (Op_play u)) p)"
| "guard_op i Op_pause p =
     set_client i (if p_state p = PLAYER_STATE_PLAYING then C_send Op_pause else C_unlock Op_pause RT_EOK) p"
| "guard_op i Op_resume p =
     set_client i (if p_state p = PLAYER_STATE_PAUSED then C_send Op_resume else C_unlock Op_resume RT_EOK) p"
| "guard_op i op p =
     set_client i (if p_state p \<noteq> PLAYER_STATE_STOPED then C_send op else C_unlock op RT_EOK) p"

fun unlocked_op :: "nat \<Rightarrow> player_op \<Rightarrow> rt_err \<Rightarrow> wavplayer \<Rightarrow> wavplayer" where
  "unlocked_op i (Play_stop u) r p = set_client i (C_uri (Op_play u)) p"
| "unlocked_op i op r p = player_log (Returned i op r) (set_client i C_idle p)"

fun op_uri :: "player_op \<Rightarrow> string option \<Rightarrow> string option" where
  "op_uri (Op_play u) _ = Some u"
| "op_uri _ old = old"

definition client_step :: "nat \<Rightarrow> wavplayer \<Rightarrow> wavplayer option" where
  "client_step i p =
     (case p_clients p i of
        C_idle \<Rightarrow> None
      | C_lock op \<Rightarrow> map_option (set_client i (C_guard op)) (play_lock i p)
      | C_guard op \<Rightarrow> Some (guard_op i op p)
      | C_uri op \<Rightarrow> Some (set_client i (C_send op) (p\<lparr>p_uri := op_uri op (p_uri p)\<rparr>))
      | C_send op \<Rightarrow> (let (r, p) = play_msg_send (message_of op) p in Some (set_client i (C_wait op r) p))
      | C_wait op r \<Rightarrow>
          (case rt_completion_wait i (- 1) (p_ack p) of
             Proceed _ c \<Rightarrow> Some (set_client i (C_unlock op r) (p\<lparr>p_ack := c\<rparr>))
           | Suspend c \<Rightarrow> Some (set_client i (C_blocked op r) (p\<lparr>p_ack := c\<rparr>))
           | Assert_failed \<Rightarrow> None)
      | C_blocked op r \<Rightarrow> None
      | C_woken op r \<Rightarrow>
          Some (set_client i (C_unlock op r) (p\<lparr>p_ack := snd (rt_completion_resumed RT_EOK (p_ack p))\<rparr>))
      | C_unlock op r \<Rightarrow> Some (unlocked_op i op r (play_unlock i p)))"

definition wavplayer_volume_set :: "player_env \<Rightarrow> int \<Rightarrow> wavplayer \<Rightarrow> rt_err \<times> wavplayer" where
  "wavplayer_volume_set env volume p =
     (let volume = (if volume < VOLUME_MIN then VOLUME_MIN
                    else if volume > VOLUME_MAX then VOLUME_MAX else volume);
          p = p\<lparr>p_device := find_ok env\<rparr>
      in if \<not> find_ok env then (RT_ERROR, p) else (dev_control env, player_log (Dev_volume volume) (p\<lparr>p_volume := volume\<rparr>)))"

definition wavplayer_volume_get :: "wavplayer \<Rightarrow> int" where
  "wavplayer_volume_get p = p_volume p"

definition wavplayer_state_get :: "wavplayer \<Rightarrow> player_state" where
  "wavplayer_state_get p = p_state p"

definition wavplayer_uri_get :: "wavplayer \<Rightarrow> string option" where
  "wavplayer_uri_get p = p_uri p"

subsection \<open>Executions\<close>

text \<open>One step of the system when clients of the set \<open>C\<close> call the player: the player thread, a new call, a
  client inside a call, or a volume setting; and the states that are reached.\<close>

inductive wp_step :: "player_env \<Rightarrow> nat set \<Rightarrow> wavplayer \<Rightarrow> wavplayer \<Rightarrow> bool" for env C where
  thread: "wavplayer_entry env p = Some p' \<Longrightarrow> wp_step env C p p'"
| call: "i \<in> C \<Longrightarrow> p_clients p i = C_idle \<Longrightarrow> (\<And>u. op \<noteq> Play_stop u) \<Longrightarrow> wp_step env C p (call_op i op p)"
| client: "client_step i p = Some p' \<Longrightarrow> wp_step env C p p'"
| vol: "wp_step env C p (snd (wavplayer_volume_set env v p))"

definition wp_reach :: "player_env \<Rightarrow> nat set \<Rightarrow> wavplayer \<Rightarrow> bool" where
  "wp_reach env C p \<longleftrightarrow> (wp_step env C)\<^sup>*\<^sup>* (wavplayer_start env) p"

text \<open>A given schedule, as a computation.\<close>

datatype action = Thread | Call nat player_op | Client nat

text \<open>How often a call already holds the lock when it takes it: a client starts the ones with 0.\<close>

fun nested :: "player_op \<Rightarrow> nat" where
  "nested (Play_stop u) = 1"
| "nested _ = 0"

fun wp_act :: "player_env \<Rightarrow> action \<Rightarrow> wavplayer \<Rightarrow> wavplayer option" where
  "wp_act env Thread p = wavplayer_entry env p"
| "wp_act env (Call i op) p = (if p_clients p i = C_idle \<and> nested op = 0 then Some (call_op i op p) else None)"
| "wp_act env (Client i) p = client_step i p"

fun wp_run :: "player_env \<Rightarrow> action list \<Rightarrow> wavplayer \<Rightarrow> wavplayer option" where
  "wp_run env [] p = Some p"
| "wp_run env (a # as) p = (case wp_act env a p of None \<Rightarrow> None | Some p \<Rightarrow> wp_run env as p)"

subsection \<open>Invariant\<close>

text \<open>How often a client at a program counter holds the recursive lock.\<close>

primrec holds :: "client_pc \<Rightarrow> nat" where
  "holds C_idle = 0"
| "holds (C_lock op) = nested op"
| "holds (C_guard op) = nested op + 1"
| "holds (C_uri op) = nested op + 1"
| "holds (C_send op) = nested op + 1"
| "holds (C_wait op r) = nested op + 1"
| "holds (C_blocked op r) = nested op + 1"
| "holds (C_woken op r) = nested op + 1"
| "holds (C_unlock op r) = nested op + 1"

text \<open>What holds of the player while the message of a call is about to be sent or waits in the queue.\<close>

fun demand :: "player_op \<Rightarrow> wavplayer \<Rightarrow> bool" where
  "demand (Op_play u) p \<longleftrightarrow> p_state p = PLAYER_STATE_STOPED \<and> p_uri p = Some u"
| "demand Op_pause p \<longleftrightarrow> p_state p \<noteq> PLAYER_STATE_PAUSED"
| "demand Op_resume p \<longleftrightarrow> p_state p = PLAYER_STATE_PAUSED"
| "demand _ p \<longleftrightarrow> True"

text \<open>What a call finds when its message has been acknowledged, or when it had nothing to send.\<close>

fun promise :: "player_op \<Rightarrow> wavplayer \<Rightarrow> bool" where
  "promise (Op_play u) p \<longleftrightarrow> p_uri p = Some u"
| "promise Op_pause p \<longleftrightarrow> p_state p \<noteq> PLAYER_STATE_PLAYING"
| "promise Op_resume p \<longleftrightarrow> p_state p \<noteq> PLAYER_STATE_PAUSED"
| "promise _ p \<longleftrightarrow> p_state p = PLAYER_STATE_STOPED"

definition quiet :: "wavplayer \<Rightarrow> bool" where
  "quiet p \<longleftrightarrow> p_mq p = [] \<and> p_ack p = rt_completion_init"

primrec owner_ok :: "nat \<Rightarrow> wavplayer \<Rightarrow> client_pc \<Rightarrow> bool" where
  "owner_ok i p C_idle \<longleftrightarrow> False"
| "owner_ok i p (C_lock op) \<longleftrightarrow> quiet p"
| "owner_ok i p (C_guard op) \<longleftrightarrow> quiet p"
| "owner_ok i p (C_uri op) \<longleftrightarrow> quiet p \<and> p_state p = PLAYER_STATE_STOPED \<and> (\<exists>u. op = Op_play u)"
| "owner_ok i p (C_send op) \<longleftrightarrow> quiet p \<and> demand op p"
| "owner_ok i p (C_wait op r) \<longleftrightarrow> r = RT_EOK \<and> c_suspended (p_ack p) = []
     \<and> (p_mq p = [] \<and> promise op p \<or> p_mq p = [message_of op] \<and> demand op p \<and> \<not> c_flag (p_ack p))"
| "owner_ok i p (C_blocked op r) \<longleftrightarrow> r = RT_EOK \<and> (c_suspended (p_ack p) = [] \<or> c_suspended (p_ack p) = [i])
     \<and> (p_mq p = [] \<and> promise op p \<or> p_mq p = [message_of op] \<and> demand op p \<and> \<not> c_flag (p_ack p))"
| "owner_ok i p (C_woken op r) \<longleftrightarrow> r = RT_EOK \<and> p_mq p = [] \<and> promise op p \<and> c_suspended (p_ack p) = []"
| "owner_ok i p (C_unlock op r) \<longleftrightarrow> r = RT_EOK \<and> quiet p \<and> promise op p"

definition client_inv :: "wavplayer \<Rightarrow> bool" where
  "client_inv p \<longleftrightarrow> p_mq_max p = 8 \<and>
     (case p_lock p of
        None \<Rightarrow> quiet p \<and> (\<forall>j. holds (p_clients p j) = 0)
      | Some (i, n) \<Rightarrow> n = holds (p_clients p i) \<and> 0 < n \<and> (\<forall>j. j \<noteq> i \<longrightarrow> holds (p_clients p j) = 0)
          \<and> owner_ok i p (p_clients p i))"

text \<open>How many opens of the sound device are not yet closed.\<close>

definition dev_opened :: "effect list \<Rightarrow> nat" where
  "dev_opened es = fold (\<lambda>e n. case e of Dev_open \<Rightarrow> n + 1 | Dev_close \<Rightarrow> n - 1 | _ \<Rightarrow> n) es 0"

lemma dev_opened_simps [simp]:
  "dev_opened [] = 0"
  "dev_opened (es @ [Dev_open]) = dev_opened es + 1"
  "dev_opened (es @ [Dev_close]) = dev_opened es - 1"
  "dev_opened (es @ [Dev_config a b c]) = dev_opened es"
  "dev_opened (es @ [Dev_volume v]) = dev_opened es"
  "dev_opened (es @ [Dev_write bs]) = dev_opened es"
  "dev_opened (es @ [Returned i op r]) = dev_opened es"
  by (simp_all add: dev_opened_def)

definition playing_pc :: "player_pc \<Rightarrow> bool" where
  "playing_pc pc \<longleftrightarrow> pc \<in> {Poll, Reading, PauseWait, Check, Closing}"

primrec pc_state :: "player_pc \<Rightarrow> player_state \<Rightarrow> bool" where
  "pc_state Outer s \<longleftrightarrow> True"
| "pc_state Opening s \<longleftrightarrow> s = PLAYER_STATE_PLAYING"
| "pc_state Poll s \<longleftrightarrow> s = PLAYER_STATE_PLAYING"
| "pc_state Reading s \<longleftrightarrow> s = PLAYER_STATE_PLAYING"
| "pc_state PauseWait s \<longleftrightarrow> s = PLAYER_STATE_PAUSED"
| "pc_state Check s \<longleftrightarrow> s \<noteq> PLAYER_STATE_PAUSED"
| "pc_state Closing s \<longleftrightarrow> s = PLAYER_STATE_STOPED"
| "pc_state Exited s \<longleftrightarrow> False"

definition thread_inv :: "player_env \<Rightarrow> wavplayer \<Rightarrow> bool" where
  "thread_inv env p \<longleftrightarrow> pc_state (p_pc p) (p_state p)
     \<and> (p_fp p \<noteq> None \<longleftrightarrow> playing_pc (p_pc p))
     \<and> (playing_pc (p_pc p) \<longrightarrow> find_ok env \<and> p_device p)
     \<and> dev_opened (p_effects p) = (if playing_pc (p_pc p) then 1 else 0)
     \<and> (p_pc p = Opening \<longrightarrow> p_uri p \<noteq> None)
     \<and> (\<forall>i op r. Returned i op r \<in> set (p_effects p) \<longrightarrow> r = RT_EOK)"

definition wp_inv :: "player_env \<Rightarrow> wavplayer \<Rightarrow> bool" where
  "wp_inv env p \<longleftrightarrow> client_inv p \<and> thread_inv env p"

definition player_ready :: "player_env \<Rightarrow> bool" where
  "player_ready env \<longleftrightarrow> malloc_ok env \<and> mq_object_ok env \<and> (\<forall>n. mq_malloc env n \<noteq> None) \<and> mutex_ok env"

lemma start_ready:
  assumes "player_ready env"
  shows "wavplayer_start env = player_zero\<lparr>p_buffer := True, p_mq_max := 8, p_volume := 55, p_pc := Outer\<rparr>"
proof -
  have some: "\<exists>pool. mq_malloc env n = Some pool" for n
    using assms by (simp add: player_ready_def)
  obtain pool where pool: "mq_malloc env (ucast (ucast (RT_ALIGN 10 RT_ALIGN_SIZE) :: u16) * 8 + 32) = Some pool"
    using some by blast
  have "mq_object_ok env"
    using assms by (simp add: player_ready_def)
  then have "\<exists>q. rt_mq_create (mq_object_ok env) (mq_malloc env) 10 sizeof_play_msg RT_IPC_FLAG_FIFO = Some q
      \<and> mq_max_msgs q = 8"
    by (simp add: rt_mq_create_def Let_def sizeof_play_msg_def case_prod_unfold pool)
  then show ?thesis
    using assms by (auto simp: wavplayer_start_def player_ready_def WP_VOLUME_DEFAULT_def player_zero_def)
qed

subsection \<open>Every step keeps the invariant\<close>

lemma outside_op: "holds pc = 0 \<Longrightarrow> pc = C_idle \<or> (\<exists>op. pc = C_lock op \<and> nested op = 0)"
  by (cases pc) auto

lemma completion_init_fields [simp]:
  "c_flag rt_completion_init = False" "c_suspended rt_completion_init = []"
  by (simp_all add: rt_completion_init_def)

lemma completion_cleared: "c_suspended c = [] \<Longrightarrow> c\<lparr>c_flag := False\<rparr> = rt_completion_init"
  by (simp add: rt_completion_init_def)

lemma player_ack_fields [simp]:
  "p_state (player_ack p) = p_state p" "p_uri (player_ack p) = p_uri p" "p_mq (player_ack p) = p_mq p"
  "p_mq_max (player_ack p) = p_mq_max p" "p_lock (player_ack p) = p_lock p" "p_fp (player_ack p) = p_fp p"
  "p_device (player_ack p) = p_device p" "p_pc (player_ack p) = p_pc p" "p_effects (player_ack p) = p_effects p"
  "p_volume (player_ack p) = p_volume p"
  by (simp_all add: player_ack_def case_prod_unfold split: option.split)

text \<open>A change that keeps the client side of the state and the demands of the pending message.\<close>

lemma client_inv_cong:
  assumes "client_inv p" "p_mq p' = p_mq p" "p_mq_max p' = p_mq_max p" "p_lock p' = p_lock p" "p_ack p' = p_ack p"
    "p_clients p' = p_clients p" "p_uri p' = p_uri p"
    "p_state p' = p_state p \<or> (p_state p = PLAYER_STATE_PLAYING \<and> p_state p' = PLAYER_STATE_STOPED)"
  shows "client_inv p'"
proof -
  have demand: "demand op p'" if "demand op p" for op
    using that assms(7,8) by (cases op) auto
  have promise: "promise op p'" if "promise op p" for op
    using that assms(7,8) by (cases op) auto
  have "owner_ok i p' pc" if "owner_ok i p pc" for i pc
    using that assms(2,5,8) demand promise by (cases pc) (auto simp: quiet_def)
  then show ?thesis
    using assms by (auto simp: client_inv_def quiet_def split: option.splits)
qed

text \<open>The queue holds at most the message of the call that owns the lock.\<close>

lemma pending_message:
  assumes "client_inv p" "p_mq p = m # ms"
  obtains i n op r where "p_lock p = Some (i, n)" "m = message_of op" "ms = []" "demand op p" "r = RT_EOK"
    "\<not> c_flag (p_ack p)" "n = holds (p_clients p i)" "0 < n" "\<forall>j. j \<noteq> i \<longrightarrow> holds (p_clients p j) = 0"
    "p_clients p i = C_wait op r \<and> c_suspended (p_ack p) = []
     \<or> p_clients p i = C_blocked op r \<and> (c_suspended (p_ack p) = [] \<or> c_suspended (p_ack p) = [i])"
proof -
  obtain i n where lock: "p_lock p = Some (i, n)"
    using assms by (auto simp: client_inv_def quiet_def split: option.splits)
  have ok: "owner_ok i p (p_clients p i)" "n = holds (p_clients p i)" "0 < n"
      "\<forall>j. j \<noteq> i \<longrightarrow> holds (p_clients p j) = 0"
    using assms(1) lock by (auto simp: client_inv_def)
  then show ?thesis
    using assms(2) lock that by (cases "p_clients p i") (auto simp: quiet_def)
qed

text \<open>Receiving and acknowledging it.\<close>

lemma receive_inv:
  assumes "client_inv p" "p_mq p = m # ms"
  shows "client_inv (player_ack (p\<lparr>p_mq := ms, p_state := state_after m (p_state p)\<rparr>))"
proof -
  obtain i n op r where d: "p_lock p = Some (i, n)" "m = message_of op" "ms = []" "demand op p" "r = RT_EOK"
    "\<not> c_flag (p_ack p)" "n = holds (p_clients p i)" "0 < n" "\<forall>j. j \<noteq> i \<longrightarrow> holds (p_clients p j) = 0"
    and at: "p_clients p i = C_wait op r \<and> c_suspended (p_ack p) = []
     \<or> p_clients p i = C_blocked op r \<and> (c_suspended (p_ack p) = [] \<or> c_suspended (p_ack p) = [i])"
    using pending_message [OF assms] by blast
  have max: "p_mq_max p = 8" using assms(1) by (simp add: client_inv_def)
  have pr: "promise op q" if "p_state q = state_after (message_of op) (p_state p)" "p_uri q = p_uri p" for q
    using that d(4) by (cases op) simp_all
  show ?thesis
    using d at max pr by (auto simp: client_inv_def player_ack_def rt_completion_done_def Let_def quiet_def)
qed

lemma received_inv: "client_inv p \<Longrightarrow> client_inv (p\<lparr>p_pc := pc\<rparr>)"
  by (erule client_inv_cong) simp_all

lemma handler_client_inv:
  assumes "client_inv p" "wavplayer_event_handler forever p = Some (event, p')"
  shows "client_inv p'"
  using assms receive_inv by (auto simp: wavplayer_event_handler_def split: list.splits if_splits)

text \<open>\<open>wavplayer_open\<close> and \<open>wavplayer_close\<close> only touch the file, the device and the effects.\<close>

lemma close_fields [simp]:
  "p_state (wavplayer_close p) = p_state p" "p_uri (wavplayer_close p) = p_uri p"
  "p_mq (wavplayer_close p) = p_mq p" "p_mq_max (wavplayer_close p) = p_mq_max p"
  "p_lock (wavplayer_close p) = p_lock p" "p_ack (wavplayer_close p) = p_ack p"
  "p_clients (wavplayer_close p) = p_clients p" "p_fp (wavplayer_close p) = None"
  "\<not> p_device (wavplayer_close p)"
  "p_effects (wavplayer_close p) = p_effects p @ (if p_device p then [Dev_close] else [])"
  by (simp_all add: wavplayer_close_def player_log_def)

text \<open>The result of opening.\<close>

definition open_wav :: "player_env \<Rightarrow> u8 list \<Rightarrow> wav_header" where
  "open_wav env f = fst (snd (wavheader_read (stack_wav env) (Some f)))"

definition open_rest :: "u8 list \<Rightarrow> u8 list" where
  "open_rest f = drop 44 f"

lemma getc_rest: "snd (getc f) = drop 1 f"
  by (cases f) simp_all

lemma get_rest: "snd (get_int f) = drop 4 f" "snd (get_sint f) = drop 2 f" "snd (fread_id old f) = drop 4 f"
  by (simp_all add: get_int_def get_sint_def fread_id_def case_prod_unfold getc_rest numeral_eq_Suc)

lemma wavheader_read_rest:
  "wavheader_read old (Some f) = (0, fst (snd (wavheader_read old (Some f))), Some (open_rest f))"
  by (simp add: wavheader_read_def open_rest_def case_prod_unfold get_rest)

lemma open_cases:
  "wavplayer_open env p =
     (if \<not> find_ok env then (RT_ERROR, p\<lparr>p_device := False\<rparr>)
      else case files env (the (p_uri p)) of
        None \<Rightarrow> (RT_ERROR, wavplayer_close (p\<lparr>p_device := True, p_fp := None\<rparr>))
      | Some f \<Rightarrow>
          if dev_open env \<noteq> RT_EOK then (dev_open env, wavplayer_close (p\<lparr>p_device := True, p_fp := Some f\<rparr>))
          else (RT_EOK, p\<lparr>p_device := True, p_fp := Some (open_rest f),
                 p_effects := p_effects p
                   @ [Dev_open,
                      Dev_config (fmt_sample_rate (open_wav env f)) (fmt_channels (open_wav env f))
                        (fmt_bit_per_sample (open_wav env f)),
                      Dev_volume (p_volume p)]\<rparr>))"
proof (cases "find_ok env \<and> files env (the (p_uri p)) \<noteq> None \<and> dev_open env = RT_EOK")
  case True
  then obtain f where f: "files env (the (p_uri p)) = Some f" by blast
  have r: "wavheader_read (stack_wav env) (Some f) = (0, open_wav env f, Some (open_rest f))"
    using wavheader_read_rest [of "stack_wav env" f] by (simp add: open_wav_def)
  show ?thesis
    using True f r by (simp add: wavplayer_open_def player_log_def Let_def)
next
  case False
  then show ?thesis
    by (auto simp: wavplayer_open_def Let_def split: option.splits)
qed

lemma open_fields [simp]:
  "p_state (snd (wavplayer_open env p)) = p_state p" "p_uri (snd (wavplayer_open env p)) = p_uri p"
  "p_mq (snd (wavplayer_open env p)) = p_mq p" "p_mq_max (snd (wavplayer_open env p)) = p_mq_max p"
  "p_lock (snd (wavplayer_open env p)) = p_lock p" "p_ack (snd (wavplayer_open env p)) = p_ack p"
  "p_clients (snd (wavplayer_open env p)) = p_clients p" "p_pc (wavplayer_close p) = p_pc p"
  by (simp_all add: open_cases split: option.split) (simp add: wavplayer_close_def player_log_def)

lemma read_fields [simp]:
  "p_uri (player_read p) = p_uri p" "p_mq (player_read p) = p_mq p" "p_mq_max (player_read p) = p_mq_max p"
  "p_lock (player_read p) = p_lock p" "p_ack (player_read p) = p_ack p" "p_clients (player_read p) = p_clients p"
  "p_device (player_read p) = p_device p" "p_pc (player_read p) = p_pc p"
  "dev_opened (p_effects (player_read p)) = dev_opened (p_effects p)" "\<exists>f. p_fp (player_read p) = Some f"
  "p_state (player_read p) = PLAYER_STATE_STOPED \<or> p_state (player_read p) = p_state p"
  "Returned i op r \<in> set (p_effects (player_read p)) \<longleftrightarrow> Returned i op r \<in> set (p_effects p)"
  by (simp_all add: player_read_def player_log_def read_block_def)

lemma entry_client_inv:
  assumes inv: "wp_inv env p" and step: "wavplayer_entry env p = Some p'"
  shows "client_inv p'"
proof -
  have c: "client_inv p" and t: "thread_inv env p"
    using inv by (simp_all add: wp_inv_def)
  show ?thesis
  proof (cases "p_pc p")
    case Opening
    have "p_state p = PLAYER_STATE_PLAYING"
      using t Opening by (simp add: thread_inv_def)
    then show ?thesis
      using step Opening by (auto simp: wavplayer_entry_def case_prod_unfold Let_def intro: client_inv_cong [OF c] split: if_splits)
  next
    case Reading
    have "p_state p = PLAYER_STATE_PLAYING"
      using t Reading by (simp add: thread_inv_def)
    then have "p_state (player_read p) = p_state p
        \<or> p_state p = PLAYER_STATE_PLAYING \<and> p_state (player_read p) = PLAYER_STATE_STOPED"
      using read_fields(11) [of p] by auto
    then show ?thesis
      using step Reading by (auto simp: wavplayer_entry_def intro!: client_inv_cong [OF c])
  qed (use step handler_client_inv [OF c] received_inv client_inv_cong [OF c] in
      \<open>auto simp: wavplayer_entry_def split: option.splits if_splits\<close>)
qed

text \<open>The thread side of the invariant.\<close>

lemma handler_received:
  assumes "client_inv p" "wavplayer_event_handler True p = Some (event, p')"
  obtains op where "event = player_event_of (message_of op)" "demand op p"
    "p_state p' = state_after (message_of op) (p_state p)" "p_uri p' = p_uri p" "p_fp p' = p_fp p"
    "p_device p' = p_device p" "p_effects p' = p_effects p"
proof -
  obtain m ms where m: "p_mq p = m # ms" "event = player_event_of m"
      "p' = player_ack (p\<lparr>p_mq := ms, p_state := state_after m (p_state p)\<rparr>)"
    using assms(2) by (auto simp: wavplayer_event_handler_def split: list.splits)
  then show ?thesis
  proof -
    obtain op where op: "m = message_of op" "demand op p"
      using pending_message [OF assms(1) m(1)] by blast
    show ?thesis
      by (rule that [of op]) (simp_all add: m(2,3) op)
  qed
qed

lemma receive_thread_inv:
  assumes c: "client_inv p" and t: "thread_inv env p" and r: "wavplayer_event_handler True p = Some (event, p')"
    and pc: "p_pc p = Outer \<and> pc = (if event = PLAYER_EVENT_PLAY then Opening else Outer)
      \<or> p_pc p = Poll \<and> pc = (if event = PLAYER_EVENT_PAUSE then PauseWait else Check)
      \<or> p_pc p = PauseWait \<and> pc = Check"
  shows "thread_inv env (p'\<lparr>p_pc := pc\<rparr>)"
proof -
  obtain op where d: "event = player_event_of (message_of op)" "demand op p"
    and f: "p_state p' = state_after (message_of op) (p_state p)" "p_uri p' = p_uri p" "p_fp p' = p_fp p"
    "p_device p' = p_device p" "p_effects p' = p_effects p"
    using handler_received [OF c r] by blast
  have ps: "pc_state (p_pc p) (p_state p)"
    using t by (simp add: thread_inv_def)
  have pr: "playing_pc pc = playing_pc (p_pc p)"
    using pc by (auto simp: playing_pc_def split: if_splits)
  have st: "pc_state pc (p_state p') \<and> (pc = Opening \<longrightarrow> p_uri p' \<noteq> None)"
    using pc ps d(2) unfolding d(1) f(1,2) by (cases op) (elim disjE conjE; simp)+
  have "p_fp (p'\<lparr>p_pc := pc\<rparr>) = p_fp p" "p_device (p'\<lparr>p_pc := pc\<rparr>) = p_device p"
      "p_effects (p'\<lparr>p_pc := pc\<rparr>) = p_effects p" "p_pc (p'\<lparr>p_pc := pc\<rparr>) = pc"
    by (simp_all add: f)
  then show ?thesis
    using t st unfolding thread_inv_def by (simp add: pr)
qed

lemma close_thread_inv:
  "thread_inv env p \<Longrightarrow> p_pc p = Closing \<Longrightarrow> thread_inv env ((wavplayer_close p)\<lparr>p_pc := Outer\<rparr>)"
  by (auto simp: thread_inv_def playing_pc_def)

lemma open_thread_inv:
  assumes t: "thread_inv env p" and pc: "p_pc p = Opening"
  shows "thread_inv env (if fst (wavplayer_open env p) \<noteq> RT_EOK
      then (snd (wavplayer_open env p))\<lparr>p_state := PLAYER_STATE_STOPED, p_pc := Outer\<rparr>
      else (snd (wavplayer_open env p))\<lparr>p_pc := Poll\<rparr>)"
proof -
  have opened: "dev_opened (es @ [Dev_open, Dev_config a b c, Dev_volume v]) = dev_opened es + 1" for es a b c v
    by (simp add: dev_opened_def)
  show ?thesis
    using t pc by (auto simp: thread_inv_def playing_pc_def open_cases opened split: option.splits)
qed

lemma read_thread_inv:
  assumes t: "thread_inv env p" and pc: "p_pc p = Reading"
  shows "thread_inv env ((player_read p)\<lparr>p_pc := Check\<rparr>)"
proof -
  obtain f where "p_fp (player_read p) = Some f"
    using read_fields(10) [of p] by blast
  then show ?thesis
    using t pc read_fields(11) [of p] by (auto simp: thread_inv_def playing_pc_def)
qed

lemma entry_thread_inv:
  assumes inv: "wp_inv env p" and step: "wavplayer_entry env p = Some p'"
  shows "thread_inv env p'"
proof -
  have c: "client_inv p" and t: "thread_inv env p"
    using inv by (simp_all add: wp_inv_def)
  show ?thesis
  proof (cases "p_pc p")
    case Outer
    then obtain event q where q: "wavplayer_event_handler True p = Some (event, q)"
        "p' = (if event = PLAYER_EVENT_PLAY then q\<lparr>p_pc := Opening\<rparr> else q)"
      using step by (auto simp: wavplayer_entry_def split: option.splits)
    have "p_pc q = Outer"
      using q(1) Outer by (auto simp: wavplayer_event_handler_def split: list.splits)
    then have "p' = q\<lparr>p_pc := (if event = PLAYER_EVENT_PLAY then Opening else Outer)\<rparr>"
      using q(2) by simp
    then show ?thesis
      using receive_thread_inv [OF c t q(1)] Outer by simp
  next
    case Opening
    then show ?thesis
      using step open_thread_inv [OF t Opening] by (simp add: wavplayer_entry_def case_prod_unfold Let_def split: if_splits)
  next
    case Poll
    show ?thesis
    proof (cases "p_mq p")
      case Nil
      then show ?thesis
        using step Poll t by (auto simp: wavplayer_entry_def wavplayer_event_handler_def thread_inv_def playing_pc_def)
    next
      case (Cons m ms)
      then obtain event q where q: "wavplayer_event_handler True p = Some (event, q)"
          "wavplayer_event_handler False p = Some (event, q)"
        by (simp add: wavplayer_event_handler_def)
      obtain op where "event = player_event_of (message_of op)"
        using handler_received [OF c q(1)] by blast
      then have "event \<noteq> PLAYER_EVENT_NONE"
        by (cases op) simp_all
      then have "p' = q\<lparr>p_pc := (if event = PLAYER_EVENT_PAUSE then PauseWait else Check)\<rparr>"
        using step Poll q by (cases event) (simp_all add: wavplayer_entry_def)
      then show ?thesis
        using receive_thread_inv [OF c t q(1)] Poll by simp
    qed
  next
    case PauseWait
    then obtain event q where q: "wavplayer_event_handler True p = Some (event, q)" "p' = q\<lparr>p_pc := Check\<rparr>"
      using step by (auto simp: wavplayer_entry_def split: option.splits)
    then show ?thesis
      using receive_thread_inv [OF c t q(1)] PauseWait by simp
  next
    case Reading
    then show ?thesis
      using step read_thread_inv [OF t Reading] by (simp add: wavplayer_entry_def)
  next
    case Check
    then show ?thesis
      using step t by (cases "p_state p") (auto simp: wavplayer_entry_def thread_inv_def playing_pc_def)
  next
    case Closing
    then show ?thesis
      using step close_thread_inv [OF t Closing] by (simp add: wavplayer_entry_def)
  next
    case Exited
    then show ?thesis
      using step by (simp add: wavplayer_entry_def)
  qed
qed

subsubsection \<open>Client steps\<close>

lemma owner_of:
  assumes "client_inv p" "0 < holds (p_clients p i)"
  shows "p_lock p = Some (i, holds (p_clients p i)) \<and> owner_ok i p (p_clients p i)
    \<and> (\<forall>j. j \<noteq> i \<longrightarrow> holds (p_clients p j) = 0)"
proof (cases "p_lock p")
  case None
  then show ?thesis using assms by (simp add: client_inv_def)
next
  case (Some l)
  obtain k n where l: "l = (k, n)" by (cases l)
  have k: "n = holds (p_clients p k)" "\<forall>j. j \<noteq> k \<longrightarrow> holds (p_clients p j) = 0" "owner_ok k p (p_clients p k)"
    using assms(1) Some l by (simp_all add: client_inv_def)
  have "k = i"
    using k(2) assms(2) by (metis less_irrefl)
  then show ?thesis
    using k Some l by blast
qed

lemma owner_ok_cong:
  "owner_ok i p pc \<Longrightarrow> p_mq p' = p_mq p \<Longrightarrow> p_ack p' = p_ack p \<Longrightarrow> p_state p' = p_state p \<Longrightarrow> p_uri p' = p_uri p
   \<Longrightarrow> owner_ok i p' pc"
proof -
  assume eq: "p_mq p' = p_mq p" "p_ack p' = p_ack p" "p_state p' = p_state p" "p_uri p' = p_uri p"
  have "demand op p' = demand op p \<and> promise op p' = promise op p" for op
    using eq by (cases op) simp_all
  then show "owner_ok i p pc \<Longrightarrow> owner_ok i p' pc"
    using eq by (cases pc) (simp_all add: quiet_def)
qed

text \<open>The owner moves to another counter at which it still holds the lock.\<close>

lemma move_owner:
  assumes c: "client_inv p" and h: "0 < holds (p_clients p i)" "holds pc = holds (p_clients p i)"
    and p': "p_lock p' = p_lock p" "p_clients p' = p_clients p" "p_mq_max p' = p_mq_max p"
    and ok: "owner_ok i p' pc"
  shows "client_inv (set_client i pc p')"
proof -
  have "owner_ok i (set_client i pc p') pc"
    by (rule owner_ok_cong [OF ok]) (simp_all add: set_client_def)
  then show ?thesis
    using owner_of [OF c h(1)] c h(2) p' by (auto simp: client_inv_def set_client_def h(1))
qed

lemma release_owner:
  assumes c: "client_inv p" and at: "p_clients p i = C_unlock op r"
  shows "client_inv (unlocked_op i op r (play_unlock i p))"
proof -
  have o: "p_lock p = Some (i, nested op + 1)" "r = RT_EOK" "quiet p" "promise op p" "\<forall>j. j \<noteq> i \<longrightarrow> holds (p_clients p j) = 0"
    using owner_of [OF c, of i] at by simp_all
  have "p_mq_max p = 8" using c by (simp add: client_inv_def)
  then show ?thesis
    using o by (cases op) (auto simp: play_unlock_def client_inv_def set_client_def player_log_def quiet_def)
qed

lemma lock_client:
  assumes c: "client_inv p" and at: "p_clients p i = C_lock op" and l: "play_lock i p = Some p'"
  shows "client_inv (set_client i (C_guard op) p')"
proof (cases "p_lock p")
  case None
  then have "quiet p" "\<forall>j. holds (p_clients p j) = 0" "p_mq_max p = 8"
    using c by (simp_all add: client_inv_def)
  moreover have "nested op = 0"
    using calculation(2) at by (metis holds.simps(2))
  ultimately show ?thesis
    using None l by (auto simp: play_lock_def client_inv_def set_client_def quiet_def)
next
  case (Some x)
  then obtain n where n: "p_lock p = Some (i, n)" "p' = p\<lparr>p_lock := Some (i, n + 1)\<rparr>"
    using l by (cases x) (auto simp: play_lock_def split: if_splits)
  then show ?thesis
    using c at by (auto simp: client_inv_def set_client_def quiet_def)
qed

lemma play_lock_fields:
  "play_lock i p = Some p' \<Longrightarrow> p_state p' = p_state p \<and> p_uri p' = p_uri p \<and> p_fp p' = p_fp p
     \<and> p_device p' = p_device p \<and> p_pc p' = p_pc p \<and> p_effects p' = p_effects p"
  by (auto simp: play_lock_def split: option.splits prod.splits if_splits)

lemma guard_client_inv:
  assumes c: "client_inv p" and at: "p_clients p i = C_guard op"
  shows "client_inv (guard_op i op p)"
proof -
  have h: "0 < holds (p_clients p i)" "holds (p_clients p i) = nested op + 1" and q: "quiet p"
    using at owner_of [OF c, of i] by simp_all
  have go: "client_inv (set_client i pc p)" if "holds pc = nested op + 1" "owner_ok i p pc" for pc
    using move_owner [OF c h(1) _ refl refl refl that(2)] that(1) h(2) by simp
  have again: "client_inv (call_op i (Play_stop u) p)" if "op = Op_play u" for u
    unfolding call_op_def
    by (rule move_owner [OF c h(1)]) (use h(2) that q in \<open>simp_all add: quiet_def\<close>)
  show ?thesis
    using q by (cases op) (auto intro!: go again)
qed

lemma client_client_inv:
  assumes c: "client_inv p" and step: "client_step i p = Some p'"
  shows "client_inv p'"
proof (cases "p_clients p i")
  case (C_lock op)
  then obtain q where q: "play_lock i p = Some q" "p' = set_client i (C_guard op) q"
    using step by (auto simp: client_step_def)
  show ?thesis
    unfolding q(2) by (rule lock_client [OF c C_lock q(1)])
next
  case (C_guard op)
  then show ?thesis
    using step guard_client_inv [OF c C_guard] by (simp add: client_step_def)
next
  case (C_uri op)
  then have o: "owner_ok i p (C_uri op)" and p': "p' = set_client i (C_send op) (p\<lparr>p_uri := op_uri op (p_uri p)\<rparr>)"
    using step owner_of [OF c, of i] by (simp_all add: client_step_def)
  show ?thesis
    unfolding p' by (rule move_owner [OF c]) (use C_uri o in \<open>auto simp: quiet_def\<close>)
next
  case (C_send op)
  then have o: "quiet p" "demand op p"
    using owner_of [OF c, of i] by simp_all
  have "p_mq_max p = 8" using c by (simp add: client_inv_def)
  then have p': "p' = set_client i (C_wait op RT_EOK) (p\<lparr>p_mq := [message_of op]\<rparr>)"
    using step C_send o by (simp add: client_step_def play_msg_send_def quiet_def)
  have d: "demand op (p\<lparr>p_mq := [message_of op]\<rparr>)"
    using o(2) by (cases op) simp_all
  show ?thesis
    unfolding p' by (rule move_owner [OF c]) (use C_send o d in \<open>simp_all add: quiet_def\<close>)
next
  case (C_wait op r)
  then have o: "owner_ok i p (C_wait op r)"
    using owner_of [OF c, of i] by simp
  have pr: "promise op (p\<lparr>p_ack := a\<rparr>) = promise op p" "demand op (p\<lparr>p_ack := a\<rparr>) = demand op p" for a
    by (cases op; simp)+
  show ?thesis
  proof (cases "c_flag (p_ack p)")
    case True
    then have p': "p' = set_client i (C_unlock op r) (p\<lparr>p_ack := (p_ack p)\<lparr>c_flag := False\<rparr>\<rparr>)"
      using step C_wait by (simp add: client_step_def rt_completion_wait_def)
    have "(p_ack p)\<lparr>c_flag := False\<rparr> = rt_completion_init"
      using o by (intro completion_cleared) simp
    then show ?thesis
      unfolding p' using True C_wait o by (intro move_owner [OF c]) (auto simp: quiet_def pr)
  next
    case False
    then have p': "p' = set_client i (C_blocked op r) (p\<lparr>p_ack := (p_ack p)\<lparr>c_suspended := [i]\<rparr>\<rparr>)"
      using step C_wait o by (simp add: client_step_def rt_completion_wait_def)
    show ?thesis
      unfolding p' using False C_wait o by (intro move_owner [OF c]) (auto simp: pr)
  qed
next
  case (C_woken op r)
  then have o: "owner_ok i p (C_woken op r)"
    using owner_of [OF c, of i] by simp
  have p': "p' = set_client i (C_unlock op r) (p\<lparr>p_ack := rt_completion_init\<rparr>)"
    using step C_woken o by (simp add: client_step_def rt_completion_resumed_def completion_cleared)
  have pr: "promise op (p\<lparr>p_ack := a\<rparr>) = promise op p" for a
    by (cases op; simp)
  show ?thesis
    unfolding p' by (rule move_owner [OF c]) (use C_woken o in \<open>simp_all add: quiet_def pr\<close>)
next
  case (C_unlock op r)
  then show ?thesis
    using step release_owner [OF c C_unlock] by (simp add: client_step_def)
qed (use step in \<open>simp_all add: client_step_def\<close>)

lemma call_op_fields:
  "p_state (call_op i op p) = p_state p" "p_uri (call_op i op p) = p_uri p" "p_mq (call_op i op p) = p_mq p"
  "p_ack (call_op i op p) = rt_completion_init" "p_lock (call_op i op p) = p_lock p"
  "p_clients (call_op i op p) = (p_clients p)(i := C_lock op)" "p_fp (call_op i op p) = p_fp p"
  "p_device (call_op i op p) = p_device p" "p_pc (call_op i op p) = p_pc p"
  "p_effects (call_op i op p) = p_effects p" "p_mq_max (call_op i op p) = p_mq_max p"
  by (simp_all add: call_op_def set_client_def)

text \<open>A call of an idle client only touches the completion: it forgets its flag and its waiter.\<close>

lemma call_client_inv:
  assumes c: "client_inv p" and idle: "p_clients p i = C_idle" and op: "nested op = 0"
  shows "client_inv (call_op i op p)"
proof (cases "p_lock p")
  case None
  then show ?thesis
    using c op by (auto simp: client_inv_def call_op_def set_client_def quiet_def)
next
  case (Some l)
  obtain k n where l: "l = (k, n)" by (cases l)
  have o: "n = holds (p_clients p k)" "0 < n" "\<forall>j. j \<noteq> k \<longrightarrow> holds (p_clients p j) = 0" "owner_ok k p (p_clients p k)"
      "p_mq_max p = 8"
    using c Some l by (simp_all add: client_inv_def)
  have ki: "k \<noteq> i" using o(1,2) idle by auto
  have pr: "promise op (call_op i a p) = promise op p" "demand op (call_op i a p) = demand op p" for op a
    by (cases op; simp add: call_op_def set_client_def)+
  have "owner_ok k (call_op i op p) (p_clients p k)"
    using o(4) by (cases "p_clients p k") (auto simp: pr quiet_def call_op_fields)
  then show ?thesis
    using Some l o ki op by (simp add: client_inv_def call_op_def set_client_def)
qed

lemma client_thread_fields:
  assumes "client_step i p = Some p'"
  shows "p_state p' = p_state p \<and> p_fp p' = p_fp p \<and> p_device p' = p_device p \<and> p_pc p' = p_pc p
    \<and> (p_effects p' = p_effects p
       \<or> (\<exists>op r. p_clients p i = C_unlock op r \<and> p_effects p' = p_effects p @ [Returned i op r]))
    \<and> (p_uri p' = p_uri p \<or> (\<exists>op. p_clients p i = C_uri op \<and> p_uri p' = op_uri op (p_uri p)))"
proof (cases "p_clients p i")
  case (C_lock op)
  then show ?thesis
    using assms play_lock_fields by (auto simp: client_step_def set_client_def)
next
  case (C_guard op)
  then show ?thesis
    using assms by (cases op) (auto simp: client_step_def set_client_def call_op_fields split: if_splits)
next
  case (C_unlock op r)
  have "p_state (play_unlock i p) = p_state p \<and> p_fp (play_unlock i p) = p_fp p \<and> p_device (play_unlock i p) = p_device p
      \<and> p_pc (play_unlock i p) = p_pc p \<and> p_effects (play_unlock i p) = p_effects p \<and> p_uri (play_unlock i p) = p_uri p"
    by (simp add: play_unlock_def split: option.split prod.split)
  then show ?thesis
    using assms C_unlock by (cases op) (auto simp: client_step_def set_client_def player_log_def)
qed (use assms in \<open>auto simp: client_step_def set_client_def play_msg_send_def rt_completion_wait_def
    split: if_splits completion_wait.splits prod.splits\<close>)

lemma client_thread_inv:
  assumes c: "client_inv p" and t: "thread_inv env p" and step: "client_step i p = Some p'"
  shows "thread_inv env p'"
proof -
  note f = client_thread_fields [OF step]
  have unlock: "r = RT_EOK" if "p_clients p i = C_unlock op r" for op r
    using owner_of [OF c, of i] that by simp
  have uri: "p_uri p \<noteq> None \<longrightarrow> p_uri p' \<noteq> None"
  proof -
    have "op_uri op u \<noteq> None" if "u \<noteq> None" for op u
      using that by (cases op) auto
    then show ?thesis using f by metis
  qed
  have opened: "dev_opened (p_effects p') = dev_opened (p_effects p)"
    using f by auto
  have ret: "\<forall>j op r. Returned j op r \<in> set (p_effects p') \<longrightarrow> r = RT_EOK"
    using f t unlock by (auto simp: thread_inv_def)
  show ?thesis
    using t f uri opened ret by (simp add: thread_inv_def)
qed

lemma volume_inv:
  assumes "wp_inv env p"
  shows "wp_inv env (snd (wavplayer_volume_set env v p))"
proof -
  have c: "client_inv p" and t: "thread_inv env p"
    using assms by (simp_all add: wp_inv_def)
  have "client_inv (snd (wavplayer_volume_set env v p))"
    by (rule client_inv_cong [OF c]) (simp_all add: wavplayer_volume_set_def player_log_def Let_def)
  moreover have "thread_inv env (snd (wavplayer_volume_set env v p))"
    using t by (auto simp: thread_inv_def wavplayer_volume_set_def player_log_def Let_def)
  ultimately show ?thesis by (simp add: wp_inv_def)
qed

lemma start_inv:
  assumes "player_ready env"
  shows "wp_inv env (wavplayer_start env)"
  by (simp add: start_ready [OF assms] wp_inv_def client_inv_def thread_inv_def player_zero_def quiet_def
      playing_pc_def)

lemma call_inv:
  assumes inv: "wp_inv env p" and idle: "p_clients p i = C_idle" and op: "\<And>u. op \<noteq> Play_stop u"
  shows "wp_inv env (call_op i op p)"
proof -
  have "nested op = 0"
  proof (cases op)
    case (Play_stop u)
    then show ?thesis using op [of u] by contradiction
  qed simp_all
  then have "client_inv (call_op i op p)"
    using inv idle call_client_inv by (simp only: wp_inv_def)
  moreover have "thread_inv env (call_op i op p)"
    using inv by (simp add: wp_inv_def thread_inv_def call_op_fields)
  ultimately show ?thesis by (simp add: wp_inv_def)
qed

lemma client_inv_step:
  assumes inv: "wp_inv env p" and step: "client_step i p = Some p'"
  shows "wp_inv env p'"
proof -
  have "client_inv p" "thread_inv env p"
    using inv by (simp_all add: wp_inv_def)
  then show ?thesis
    using client_client_inv [OF _ step] client_thread_inv [OF _ _ step] by (simp add: wp_inv_def)
qed

lemma entry_inv:
  assumes inv: "wp_inv env p" and step: "wavplayer_entry env p = Some p'"
  shows "wp_inv env p'"
  using entry_client_inv [OF assms] entry_thread_inv [OF assms] by (simp only: wp_inv_def)

lemma wp_step_inv:
  assumes "wp_step env C p p'" "wp_inv env p"
  shows "wp_inv env p'"
  using assms
proof (cases rule: wp_step.cases)
  case thread
  then show ?thesis using entry_inv assms(2) by blast
next
  case (call i op)
  then show ?thesis using call_inv [OF assms(2)] by simp
next
  case (client i)
  then show ?thesis using client_inv_step assms(2) by blast
next
  case (vol v)
  then show ?thesis using volume_inv assms(2) by simp
qed

interpretation wp_system: invariant_relation "wp_step env C" "wp_inv env"
  by unfold_locales (rule wp_step_inv)

lemma reach_inv:
  assumes "wp_reach env C p" "player_ready env"
  shows "wp_inv env p"
  using wp_system.reachable_keeps start_inv [OF assms(2)] assms(1) by (auto simp: wp_reach_def)

text \<open>A schedule whose calls are those of \<open>C\<close> is an execution.\<close>

lemma run_steps:
  assumes "wp_run env as p = Some q" "\<forall>i op. Call i op \<in> set as \<longrightarrow> i \<in> C"
  shows "(wp_step env C)\<^sup>*\<^sup>* p q"
  using assms
proof (induction as arbitrary: p)
  case Nil
  then show ?case by simp
next
  case (Cons a as)
  then obtain p' where p': "wp_act env a p = Some p'" "wp_run env as p' = Some q"
    by (auto split: option.splits)
  have "wp_step env C p p'"
  proof (cases a)
    case Thread
    then show ?thesis using p' by (auto intro: wp_step.thread)
  next
    case (Call i op)
    have "op \<noteq> Play_stop u" for u using p' Call by (auto split: if_splits)
    then show ?thesis using p' Call Cons.prems(2) by (auto intro!: wp_step.call split: if_splits)
  next
    case (Client i)
    then show ?thesis using p' by (auto intro: wp_step.client)
  qed
  moreover have "(wp_step env C)\<^sup>*\<^sup>* p' q"
    by (rule Cons.IH [OF p'(2)]) (use Cons.prems(2) in simp)
  ultimately show ?case by simp
qed

lemma run_reach:
  "wp_run env as (wavplayer_start env) = Some q \<Longrightarrow> \<forall>i op. Call i op \<in> set as \<longrightarrow> i \<in> C \<Longrightarrow> wp_reach env C q"
  by (simp add: wp_reach_def run_steps)

subsection \<open>A single client is always answered\<close>

text \<open>With one calling client, its wait never misses the acknowledgement.\<close>

fun answerable :: "nat \<Rightarrow> wavplayer \<Rightarrow> client_pc \<Rightarrow> bool" where
  "answerable i p (C_wait op r) \<longleftrightarrow> p_mq p \<noteq> [] \<or> c_flag (p_ack p)"
| "answerable i p (C_blocked op r) \<longleftrightarrow> p_mq p \<noteq> [] \<and> c_suspended (p_ack p) = [i]"
| "answerable i p _ \<longleftrightarrow> True"

definition solo :: "player_env \<Rightarrow> nat \<Rightarrow> wavplayer \<Rightarrow> bool" where
  "solo env i p \<longleftrightarrow> wp_inv env p \<and> (\<forall>j. j \<noteq> i \<longrightarrow> p_clients p j = C_idle) \<and> answerable i p (p_clients p i)"

lemma answerable_cong:
  "answerable i p pc \<Longrightarrow> p_mq p' = p_mq p \<Longrightarrow> p_ack p' = p_ack p \<Longrightarrow> answerable i p' pc"
  by (cases pc) simp_all

text \<open>A step of the thread either leaves the queue, the clients and the completion alone or takes the message.\<close>

lemma entry_frame:
  assumes "wavplayer_entry env p = Some p'"
  shows "p_mq p' = p_mq p \<and> p_ack p' = p_ack p \<and> p_clients p' = p_clients p \<and> p_lock p' = p_lock p
    \<or> (\<exists>m ms q. p_mq p = m # ms \<and> q = player_ack (p\<lparr>p_mq := ms, p_state := state_after m (p_state p)\<rparr>)
        \<and> p_mq p' = ms \<and> p_ack p' = p_ack q \<and> p_clients p' = p_clients q \<and> p_lock p' = p_lock p)"
proof (cases "p_pc p")
  case Opening
  then show ?thesis
    using assms by (auto simp: wavplayer_entry_def case_prod_unfold Let_def split: if_splits)
qed (use assms in \<open>auto simp: wavplayer_entry_def wavplayer_event_handler_def split: list.splits if_splits\<close>)

lemma received_clients:
  assumes c: "client_inv p" and m: "p_mq p = m # ms" and solo: "answerable i p (p_clients p i)"
    "\<forall>j. j \<noteq> i \<longrightarrow> p_clients p j = C_idle"
    and q: "q = player_ack (p\<lparr>p_mq := ms, p_state := s\<rparr>)"
  shows "(\<forall>j. j \<noteq> i \<longrightarrow> p_clients q j = C_idle)
    \<and> (\<exists>op. p_clients p i = C_wait op RT_EOK \<and> p_clients q i = C_wait op RT_EOK \<and> c_flag (p_ack q)
      \<or> p_clients p i = C_blocked op RT_EOK \<and> p_clients q i = C_woken op RT_EOK)"
proof -
  obtain k op where d: "\<not> c_flag (p_ack p)"
    and at: "p_clients p k = C_wait op RT_EOK \<and> c_suspended (p_ack p) = []
     \<or> p_clients p k = C_blocked op RT_EOK \<and> (c_suspended (p_ack p) = [] \<or> c_suspended (p_ack p) = [k])"
  proof (rule pending_message [OF c m])
    fix k n op r
    assume "r = RT_EOK" "\<not> c_flag (p_ack p)"
      "p_clients p k = C_wait op r \<and> c_suspended (p_ack p) = []
     \<or> p_clients p k = C_blocked op r \<and> (c_suspended (p_ack p) = [] \<or> c_suspended (p_ack p) = [k])"
    then show ?thesis by (intro that [of k op]) simp_all
  qed
  have ki: "k = i"
  proof (rule ccontr)
    assume "k \<noteq> i"
    then have "p_clients p k = C_idle" using solo(2) by blast
    then show False using at by simp
  qed
  have "p_clients p k = C_wait op RT_EOK \<and> c_suspended (p_ack p) = [] \<or> p_clients p k = C_blocked op RT_EOK"
    using at by blast
  then show ?thesis
  proof (elim disjE conjE)
    assume w: "p_clients p k = C_wait op RT_EOK" "c_suspended (p_ack p) = []"
    then have "p_clients q = p_clients p" "c_flag (p_ack q)"
      using d unfolding q by (simp_all add: player_ack_def rt_completion_done_def Let_def)
    then show ?thesis using w solo(2) ki by simp
  next
    assume w: "p_clients p k = C_blocked op RT_EOK"
    then have "c_suspended (p_ack p) = [i]"
      using solo(1) ki by simp
    then have "p_clients q = (p_clients p)(i := C_woken op RT_EOK)"
      using d w ki unfolding q by (simp add: player_ack_def rt_completion_done_def Let_def)
    then show ?thesis using w solo(2) ki by simp
  qed
qed

lemma entry_solo:
  assumes s: "solo env i p" and step: "wavplayer_entry env p = Some p'"
  shows "solo env i p'"
proof -
  have inv: "wp_inv env p" "client_inv p" and others: "\<forall>j. j \<noteq> i \<longrightarrow> p_clients p j = C_idle"
    and a: "answerable i p (p_clients p i)"
    using s by (simp_all add: solo_def wp_inv_def)
  have "wp_inv env p'" by (rule entry_inv [OF inv(1) step])
  moreover have "(\<forall>j. j \<noteq> i \<longrightarrow> p_clients p' j = C_idle) \<and> answerable i p' (p_clients p' i)"
    using entry_frame [OF step]
  proof (elim disjE exE conjE)
    assume eq: "p_mq p' = p_mq p" "p_ack p' = p_ack p" "p_clients p' = p_clients p"
    have "answerable i p' (p_clients p i)"
      by (rule answerable_cong [OF a eq(1,2)])
    then show ?thesis using others eq(3) by simp
  next
    fix m ms q
    assume q: "p_mq p = m # ms" "q = player_ack (p\<lparr>p_mq := ms, p_state := state_after m (p_state p)\<rparr>)"
      and eq: "p_mq p' = ms" "p_ack p' = p_ack q" "p_clients p' = p_clients q"
    show ?thesis
      using received_clients [OF inv(2) q(1) a others q(2)] eq by auto
  qed
  ultimately show ?thesis by (simp add: solo_def)
qed

lemma client_solo:
  assumes s: "solo env i p" and step: "client_step k p = Some p'"
  shows "solo env i p'"
proof -
  have inv: "wp_inv env p" "client_inv p" and others: "\<forall>j. j \<noteq> i \<longrightarrow> p_clients p j = C_idle"
    and a: "answerable i p (p_clients p i)"
    using s by (simp_all add: solo_def wp_inv_def)
  have ki: "k = i" using step others by (cases "k = i") (simp_all add: client_step_def)
  have inv': "wp_inv env p'" by (rule client_inv_step [OF inv(1) step])
  have max: "p_mq_max p = 8" using inv(2) by (simp add: client_inv_def)
  have "(\<forall>j. j \<noteq> i \<longrightarrow> p_clients p' j = C_idle) \<and> answerable i p' (p_clients p' i)"
  proof (cases "p_clients p i")
    case (C_lock op)
    then show ?thesis
      using step ki others by (auto simp: client_step_def set_client_def play_lock_def split: option.splits if_splits)
  next
    case (C_guard op)
    then show ?thesis
      using step ki others by (cases op) (auto simp: client_step_def set_client_def call_op_fields split: if_splits)
  next
    case (C_send op)
    then have "p_mq p = []" using owner_of [OF inv(2), of i] by (simp add: quiet_def)
    then show ?thesis
      using step ki others C_send max by (auto simp: client_step_def set_client_def play_msg_send_def)
  next
    case (C_wait op r)
    then have o: "owner_ok i p (C_wait op r)"
      using owner_of [OF inv(2), of i] by simp
    then show ?thesis
      using step ki others C_wait a
      by (auto simp: client_step_def set_client_def rt_completion_wait_def split: if_splits)
  next
    case (C_unlock op r)
    have "p_clients (play_unlock i p) = p_clients p"
      by (simp add: play_unlock_def split: option.split prod.split)
    then show ?thesis
      using step ki others C_unlock by (cases op) (auto simp: client_step_def set_client_def player_log_def)
  qed (use step ki others in \<open>auto simp: client_step_def set_client_def\<close>)
  then show ?thesis using inv' by (simp add: solo_def)
qed

lemma step_solo:
  assumes step: "wp_step env {i} p p'" and s: "solo env i p"
  shows "solo env i p'"
proof -
  have inv: "wp_inv env p" using s by (simp add: solo_def)
  show ?thesis
    using step
  proof (cases rule: wp_step.cases)
    case thread
    then show ?thesis by (rule entry_solo [OF s])
  next
    case (call j op)
    have "wp_inv env (call_op j op p)"
      by (rule call_inv [OF inv call(3,4)])
    then show ?thesis
      using call(1,2) s by (simp add: solo_def call_op_fields)
  next
    case (client k)
    then show ?thesis by (rule client_solo [OF s])
  next
    case (vol v)
    have fields: "p_clients p' = p_clients p" "p_mq p' = p_mq p" "p_ack p' = p_ack p"
      by (simp_all add: vol wavplayer_volume_set_def player_log_def Let_def)
    have "wp_inv env p'"
      unfolding vol by (rule volume_inv [OF inv])
    then show ?thesis
      using s answerable_cong [of i p "p_clients p i" p'] fields by (simp add: solo_def)
  qed
qed

interpretation wp_solo: invariant_relation "wp_step env {i}" "solo env i"
  by unfold_locales (rule step_solo)

lemma reach_solo:
  assumes "wp_reach env {i} p" "player_ready env"
  shows "solo env i p"
proof -
  have "solo env i (wavplayer_start env)"
    using start_inv [OF assms(2)] by (simp add: solo_def start_ready [OF assms(2)] player_zero_def)
  then show ?thesis
    using wp_solo.reachable_keeps assms(1) by (auto simp: wp_reach_def)
qed

text \<open>The thread reaches its next receive in at most three steps.\<close>

definition thread_run :: "player_env \<Rightarrow> nat \<Rightarrow> wavplayer \<Rightarrow> wavplayer option" where
  "thread_run env k = wp_run env (replicate k Thread)"

lemma thread_run_simps [simp]:
  "thread_run env 0 p = Some p"
  "thread_run env (Suc k) p = (case wavplayer_entry env p of None \<Rightarrow> None | Some q \<Rightarrow> thread_run env k q)"
  by (simp_all add: thread_run_def split: option.split)

definition to_receive :: "wavplayer \<Rightarrow> nat" where
  "to_receive p = (case p_pc p of
     Opening \<Rightarrow> 1 | Reading \<Rightarrow> 3 | Check \<Rightarrow> if p_state p = PLAYER_STATE_STOPED then 2 else 1 | Closing \<Rightarrow> 1 | _ \<Rightarrow> 0)"

lemma towards_receive:
  assumes "thread_inv env p" "0 < to_receive p"
  shows "\<exists>p'. wavplayer_entry env p = Some p' \<and> to_receive p' < to_receive p \<and> p_mq p' = p_mq p"
  using assms
  by (cases "p_pc p")
    (auto simp: to_receive_def wavplayer_entry_def case_prod_unfold Let_def thread_inv_def)

lemma receives:
  assumes "thread_inv env p" "to_receive p = 0" "p_mq p = [m]"
  shows "\<exists>p'. wavplayer_entry env p = Some p' \<and> p_mq p' = []"
  using assms
  by (cases "p_pc p") (auto simp: to_receive_def wavplayer_entry_def wavplayer_event_handler_def thread_inv_def split: if_splits)

lemma message_taken:
  assumes "wp_inv env p" "p_mq p = [m]"
  shows "\<exists>k \<le> to_receive p. \<exists>q q'. thread_run env k p = Some q \<and> p_mq q = [m] \<and> wavplayer_entry env q = Some q' \<and> p_mq q' = []"
  using assms
proof (induction "to_receive p" arbitrary: p rule: less_induct)
  case less
  have t: "thread_inv env p" using less.prems by (simp add: wp_inv_def)
  show ?case
  proof (cases "to_receive p = 0")
    case True
    then obtain p' where "wavplayer_entry env p = Some p'" "p_mq p' = []"
      using receives [OF t] less.prems(2) by blast
    then show ?thesis using less.prems(2) by (intro exI [of _ 0]) simp
  next
    case False
    then obtain p' where p': "wavplayer_entry env p = Some p'" "to_receive p' < to_receive p" "p_mq p' = p_mq p"
      using towards_receive [OF t] by blast
    have "wp_inv env p'" by (rule entry_inv [OF less.prems(1) p'(1)])
    then obtain k q q' where k: "k \<le> to_receive p'" "thread_run env k p' = Some q" "p_mq q = [m]"
        "wavplayer_entry env q = Some q'" "p_mq q' = []"
      using less.hyps [OF p'(2)] less.prems(2) p'(3) by auto
    have "Suc k \<le> to_receive p" "thread_run env (Suc k) p = Some q"
      using k(1,2) p'(1,2) by simp_all
    then show ?thesis using k(3-5) by blast
  qed
qed

lemma thread_run_last:
  "thread_run env k p = Some q \<Longrightarrow> wavplayer_entry env q = Some q' \<Longrightarrow> thread_run env (Suc k) p = Some q'"
proof (induction k arbitrary: p)
  case (Suc k)
  then obtain p' where p': "wavplayer_entry env p = Some p'" "thread_run env k p' = Some q"
    by (auto split: option.splits)
  have "thread_run env (Suc k) p' = Some q'"
    by (rule Suc.IH [OF p'(2) Suc.prems(2)])
  then show ?case by (subst thread_run_simps) (simp only: p'(1) option.case)
qed simp

lemma thread_run_solo: "thread_run env k p = Some q \<Longrightarrow> solo env i p \<Longrightarrow> solo env i q"
proof (induction k arbitrary: p)
  case (Suc k)
  then obtain p' where "wavplayer_entry env p = Some p'" "thread_run env k p' = Some q"
    by (auto split: option.splits)
  then show ?case using Suc.IH entry_solo [OF Suc.prems(2)] by blast
qed simp

lemma solo_released:
  assumes s: "solo env i q" and pending: "p_mq q = [m]" and step: "wavplayer_entry env q = Some q'"
    and empty: "p_mq q' = []"
  shows "\<exists>op q''. (p_clients q i = C_wait op RT_EOK \<or> p_clients q i = C_blocked op RT_EOK)
    \<and> client_step i q' = Some q'' \<and> p_clients q'' i = C_unlock op RT_EOK"
proof -
  have inv: "client_inv q" and others: "\<forall>j. j \<noteq> i \<longrightarrow> p_clients q j = C_idle"
    and a: "answerable i q (p_clients q i)"
    using s by (simp_all add: solo_def wp_inv_def)
  obtain ms r where r: "r = player_ack (q\<lparr>p_mq := [], p_state := state_after m (p_state q)\<rparr>)"
      "p_ack q' = p_ack r" "p_clients q' = p_clients r"
    using entry_frame [OF step] pending empty by auto
  obtain op where "p_clients q i = C_wait op RT_EOK \<and> p_clients q' i = C_wait op RT_EOK \<and> c_flag (p_ack q')
      \<or> p_clients q i = C_blocked op RT_EOK \<and> p_clients q' i = C_woken op RT_EOK"
    using received_clients [OF inv pending a others r(1)] r(2,3) by auto
  then show ?thesis
    by (intro exI [of _ op]) (auto simp: client_step_def rt_completion_wait_def set_client_def)
qed

subsection \<open>Properties\<close>

lemma pc_state_stoped: "pc_state pc PLAYER_STATE_STOPED \<Longrightarrow> pc \<in> {Outer, Check, Closing}"
  by (cases pc) simp_all

lemma message_of_start: "message_of op = MSG_START \<Longrightarrow> \<exists>u. op = Op_play u"
  by (cases op) simp_all

lemma queued:
  assumes "client_inv p"
  shows "p_mq p = [] \<or> (\<exists>op. p_mq p = [message_of op] \<and> demand op p)"
proof (cases "p_mq p")
  case (Cons m ms)
  show ?thesis
    by (rule pending_message [OF assms Cons]) (use Cons in auto)
qed simp

text \<open>
  C3. Safety of the player, whatever number of clients call it in whatever interleaving: the file is open and the sound
  device is opened exactly once precisely while the thread is between a successful open and the close; the queue never
  holds more than one message (so no send fails although the queue was created with its two sizes swapped);
  a start request only ever meets a stopped player that will take it in its outer wait; and the URI is not
  freed while the thread opens it.
\<close>

theorem player_safe:
  assumes "wp_reach env C p" "player_ready env"
  shows "(p_fp p \<noteq> None \<longleftrightarrow> playing_pc (p_pc p))
    \<and> dev_opened (p_effects p) = (if playing_pc (p_pc p) then 1 else 0)
    \<and> length (p_mq p) \<le> 1 \<and> p_mq_max p = 8
    \<and> (MSG_START \<in> set (p_mq p) \<longrightarrow> p_state p = PLAYER_STATE_STOPED \<and> p_pc p \<in> {Outer, Check, Closing})
    \<and> (\<forall>i op. p_clients p i = C_uri op \<longrightarrow> p_pc p \<noteq> Opening)
    \<and> (p_pc p = Opening \<longrightarrow> p_uri p \<noteq> None)"
proof -
  have c: "client_inv p" and t: "thread_inv env p"
    using reach_inv [OF assms] by (simp_all add: wp_inv_def)
  have q: "length (p_mq p) \<le> 1 \<and> (MSG_START \<in> set (p_mq p) \<longrightarrow> p_state p = PLAYER_STATE_STOPED)"
    using queued [OF c]
  proof (elim disjE exE conjE)
    fix op
    assume m: "p_mq p = [message_of op]" and d: "demand op p"
    have "p_state p = PLAYER_STATE_STOPED" if "message_of op = MSG_START"
      using message_of_start [OF that] d by auto
    then show ?thesis using m by auto
  qed simp
  have stop: "p_state p = PLAYER_STATE_STOPED \<Longrightarrow> p_pc p \<in> {Outer, Check, Closing}"
    using t pc_state_stoped [of "p_pc p"] by (simp add: thread_inv_def)
  have uri: "p_state p = PLAYER_STATE_STOPED" if "p_clients p i = C_uri op" for i op
    using owner_of [OF c, of i] that by simp
  have no_open: "p_pc p \<noteq> Opening" if "p_clients p i = C_uri op" for i op
    using stop [OF uri [OF that]] by auto
  have "p_mq_max p = 8" using c by (simp add: client_inv_def)
  then show ?thesis
    using t q stop no_open unfolding thread_inv_def by blast
qed

text \<open>
  C4. What a call has achieved when it is about to return, whatever other clients do: it returns \<open>RT_EOK\<close>, its message is
  no longer in the queue, it alone holds the lock, and after a stop the player is stopped, after a pause it is not
  playing, after a resume it is not paused, after a play its URI is the one asked for.
\<close>

theorem player_call_result:
  assumes "wp_reach env C p" "player_ready env" "p_clients p i = C_unlock op r"
  shows "r = RT_EOK \<and> p_mq p = [] \<and> (\<forall>j. j \<noteq> i \<longrightarrow> p_clients p j = C_idle \<or> (\<exists>op'. p_clients p j = C_lock op'))
    \<and> (op = Op_stop \<longrightarrow> wavplayer_state_get p = PLAYER_STATE_STOPED)
    \<and> (op = Op_pause \<longrightarrow> wavplayer_state_get p \<noteq> PLAYER_STATE_PLAYING)
    \<and> (op = Op_resume \<longrightarrow> wavplayer_state_get p \<noteq> PLAYER_STATE_PAUSED)
    \<and> (\<forall>u. op = Op_play u \<longrightarrow> wavplayer_uri_get p = Some u)"
proof -
  have c: "client_inv p"
    using reach_inv [OF assms(1,2)] by (simp add: wp_inv_def)
  have o: "r = RT_EOK" "quiet p" "promise op p" "\<forall>j. j \<noteq> i \<longrightarrow> holds (p_clients p j) = 0"
    using owner_of [OF c, of i] assms(3) by simp_all
  have "p_clients p j = C_idle \<or> (\<exists>op'. p_clients p j = C_lock op')" if "j \<noteq> i" for j
    using o(4) that outside_op by blast
  then show ?thesis
    using o(1-3) by (auto simp: quiet_def wavplayer_state_get_def wavplayer_uri_get_def)
qed

text \<open>
  C5. With one calling client every request is answered: whenever a message waits in the queue, at most four steps of the
  player thread take it, and the client's next step leaves its wait with \<open>RT_EOK\<close>.
\<close>

theorem player_answers:
  assumes "wp_reach env {i} p" "player_ready env" "p_mq p \<noteq> []"
  shows "\<exists>k \<le> 4. \<exists>q q' op. thread_run env k p = Some q \<and> p_mq q = [] \<and> client_step i q = Some q'
    \<and> p_clients q' i = C_unlock op RT_EOK"
proof -
  have s: "solo env i p" by (rule reach_solo [OF assms(1,2)])
  then have inv: "wp_inv env p" by (simp add: solo_def)
  obtain m where m: "p_mq p = [m]"
    using queued inv assms(3) unfolding wp_inv_def by blast
  obtain k q q' where k: "k \<le> to_receive p" "thread_run env k p = Some q" "p_mq q = [m]"
      "wavplayer_entry env q = Some q'" "p_mq q' = []"
    using message_taken [OF inv m] by blast
  have "to_receive p \<le> 3" by (simp add: to_receive_def split: player_pc.split)
  then have "Suc k \<le> 4" using k(1) by simp
  moreover have "thread_run env (Suc k) p = Some q'"
    by (rule thread_run_last [OF k(2,4)])
  moreover have "\<exists>op q''. client_step i q' = Some q'' \<and> p_clients q'' i = C_unlock op RT_EOK"
    using solo_released [OF thread_run_solo [OF k(2) s] k(3-5)] by blast
  ultimately show ?thesis using k(5) by blast
qed

text \<open>A call that lost its acknowledgement.\<close>

definition lost :: "nat \<Rightarrow> player_op \<Rightarrow> rt_err \<Rightarrow> wavplayer \<Rightarrow> bool" where
  "lost i op r p \<longleftrightarrow> p_clients p i = C_blocked op r \<and> c_suspended (p_ack p) = []
     \<and> p_lock p = Some (i, nested op + 1)
     \<and> (\<forall>j. j \<noteq> i \<longrightarrow> p_clients p j = C_idle \<or> (\<exists>op'. nested op' = 0 \<and> p_clients p j = C_lock op'))"

lemma lost_entry:
  assumes l: "lost i op r p" and step: "wavplayer_entry env p = Some p'"
  shows "lost i op r p' \<and> p_clients p' = p_clients p"
  using entry_frame [OF step]
proof (elim disjE exE conjE)
  assume "p_mq p' = p_mq p" "p_ack p' = p_ack p" "p_clients p' = p_clients p" "p_lock p' = p_lock p"
  then show ?thesis using l by (simp add: lost_def)
next
  fix m ms q
  assume q: "q = player_ack (p\<lparr>p_mq := ms, p_state := state_after m (p_state p)\<rparr>)"
    and eq: "p_ack p' = p_ack q" "p_clients p' = p_clients q" "p_lock p' = p_lock p"
  have s: "c_suspended (p_ack p) = []" using l by (simp add: lost_def)
  then have "c_suspended (p_ack q) = []" "p_clients q = p_clients p"
    unfolding q by (simp_all add: player_ack_def rt_completion_done_def Let_def)
  then show ?thesis using l eq by (simp add: lost_def)
qed

lemma lost_client:
  assumes l: "lost i op r p" and step: "client_step k p = Some p'"
  shows False
proof -
  have "k \<noteq> i" using l step by (auto simp: lost_def client_step_def)
  then have "p_clients p k = C_idle \<or> (\<exists>op'. nested op' = 0 \<and> p_clients p k = C_lock op')" "p_lock p = Some (i, nested op + 1)"
    using l by (simp_all add: lost_def)
  then show False
    using step \<open>k \<noteq> i\<close> by (auto simp: client_step_def play_lock_def)
qed

lemma lost_step:
  assumes l: "lost i op r p" and step: "wp_step env C p p'"
  shows "lost i op r p' \<and> (\<forall>j. p_clients p j \<noteq> C_idle \<longrightarrow> p_clients p' j = p_clients p j)"
  using step
proof (cases rule: wp_step.cases)
  case thread
  show ?thesis using lost_entry [OF l thread] by simp
next
  case (call j op')
  have "nested op' = 0"
  proof (cases op')
    case (Play_stop u)
    then show ?thesis using call(4) [of u] by contradiction
  qed simp_all
  moreover have "j \<noteq> i" using l call(3) by (auto simp: lost_def)
  ultimately show ?thesis
    using l call(1,3) by (auto simp: lost_def call_op_fields)
next
  case (client k)
  then show ?thesis using lost_client [OF l] by blast
next
  case (vol v)
  have "p_clients p' = p_clients p" "p_ack p' = p_ack p" "p_lock p' = p_lock p"
    by (simp_all add: vol wavplayer_volume_set_def player_log_def Let_def)
  then show ?thesis using l by (simp add: lost_def)
qed

interpretation wp_lost: invariant_relation "wp_step env C"
    "\<lambda>p. lost i op r p \<and> (\<forall>j. p_clients s j \<noteq> C_idle \<longrightarrow> p_clients p j = p_clients s j)"
proof unfold_locales
  fix p p'
  assume step: "wp_step env C p p'" and
    a: "lost i op r p \<and> (\<forall>j. p_clients s j \<noteq> C_idle \<longrightarrow> p_clients p j = p_clients s j)"
  have "lost i op r p" using a by blast
  then have b: "lost i op r p' \<and> (\<forall>j. p_clients p j \<noteq> C_idle \<longrightarrow> p_clients p' j = p_clients p j)"
    by (rule lost_step [OF _ step])
  show "lost i op r p' \<and> (\<forall>j. p_clients s j \<noteq> C_idle \<longrightarrow> p_clients p' j = p_clients s j)"
    using a b by metis
qed

lemma lost_after_call:
  assumes "client_inv p" "p_clients p i = C_blocked op r" "j \<noteq> i" "nested op' = 0"
  shows "lost i op r (call_op j op' p)"
proof -
  have "p_lock p = Some (i, nested op + 1)" "\<forall>k. k \<noteq> i \<longrightarrow> holds (p_clients p k) = 0"
    using owner_of [OF assms(1), of i] assms(2) by simp_all
  then show ?thesis
    using assms(2-4) outside_op by (auto simp: lost_def call_op_fields)
qed

text \<open>
  C6. A second caller can block the player's clients for ever: each call initialises the shared completion before it takes
  the lock, so a call made while another client is suspended in its wait throws that client off the completion's
  list. From then on, in every continuation, the first client stays suspended (with the lock) and the
  second never gets past \<open>play_lock\<close>.
\<close>

theorem player_second_call_hangs:
  assumes "wp_reach env C p" "player_ready env" "p_clients p i = C_blocked op r" "p_clients p j = C_idle"
    and "nested op' = 0" "(wp_step env D)\<^sup>*\<^sup>* (call_op j op' p) q"
  shows "p_clients q i = C_blocked op r \<and> p_clients q j = C_lock op' \<and> client_step i q = None \<and> client_step j q = None"
proof -
  have c: "client_inv p" using reach_inv [OF assms(1,2)] by (simp add: wp_inv_def)
  have ji: "j \<noteq> i" using assms(3,4) by auto
  let ?s = "call_op j op' p"
  have "lost i op r ?s \<and> (\<forall>k. p_clients ?s k \<noteq> C_idle \<longrightarrow> p_clients ?s k = p_clients ?s k)"
    using lost_after_call [OF c assms(3) ji assms(5)] by simp
  then have q: "lost i op r q \<and> (\<forall>k. p_clients ?s k \<noteq> C_idle \<longrightarrow> p_clients q k = p_clients ?s k)"
    by (rule wp_lost.reachable_keeps [OF assms(6)])
  have "client_step k q = None" for k
    using lost_client q by (cases "client_step k q") auto
  then show ?thesis
    using q ji assms(3) by (simp add: call_op_fields)
qed

text \<open>Playing a file without requests.\<close>

fun blocks :: "u8 list \<Rightarrow> u8 list list" where
  "blocks f = (if length f < 2048 then [] else take 2048 f # blocks (drop 2048 f))"

declare blocks.simps [simp del]

lemma blocks_step:
  assumes "\<not> length f < 2048"
  shows "blocks f = take 2048 f # blocks (drop 2048 f)"
    and "length f div 2048 = Suc (length (drop 2048 f) div 2048)"
  using assms by (simp_all add: blocks.simps [of f] le_div_geq)

lemma blocks_props:
  "length (blocks f) = length f div 2048 \<and> concat (blocks f) = take (length f div 2048 * 2048) f
     \<and> (\<forall>b \<in> set (blocks f). length b = 2048)"
proof (induction f rule: blocks.induct)
  case (1 f)
  show ?case
  proof (cases "length f < 2048")
    case True
    then have "blocks f = []" by (simp add: blocks.simps [of f])
    then show ?thesis using True by simp
  next
    case False
    define n where "n = length (drop 2048 f) div 2048"
    have ih: "length (blocks (drop 2048 f)) = n" "concat (blocks (drop 2048 f)) = take (n * 2048) (drop 2048 f)"
      "\<forall>b \<in> set (blocks (drop 2048 f)). length b = 2048"
      using 1 [OF False] unfolding n_def by blast+
    have d: "length f div 2048 = Suc n" and b: "blocks f = take 2048 f # blocks (drop 2048 f)"
      using blocks_step [OF False] unfolding n_def by blast+
    have "length (take 2048 f) = 2048" using False by simp
    then show ?thesis
      unfolding b d mult_Suc take_add using ih by simp
  qed
qed

lemma poll_empty:
  "p_pc p = Poll \<Longrightarrow> p_mq p = [] \<Longrightarrow> wavplayer_entry env p = Some (p\<lparr>p_pc := Reading\<rparr>)"
  by (simp add: wavplayer_entry_def wavplayer_event_handler_def)

lemma reading_block:
  "p_pc p = Reading \<Longrightarrow> p_fp p = Some f \<Longrightarrow> 2048 \<le> length f \<Longrightarrow> wavplayer_entry env p
     = Some (p\<lparr>p_fp := Some (drop 2048 f), p_effects := p_effects p @ [Dev_write (take 2048 f)], p_pc := Check\<rparr>)"
  by (simp add: wavplayer_entry_def player_read_def read_block_def WP_BUFFER_SIZE_def player_log_def)

lemma reading_end:
  "p_pc p = Reading \<Longrightarrow> p_fp p = Some f \<Longrightarrow> length f < 2048 \<Longrightarrow> wavplayer_entry env p
     = Some (p\<lparr>p_fp := Some [], p_state := PLAYER_STATE_STOPED, p_pc := Check\<rparr>)"
  by (simp add: wavplayer_entry_def player_read_def read_block_def WP_BUFFER_SIZE_def)

lemma check_step:
  "p_pc p = Check \<Longrightarrow> wavplayer_entry env p
     = Some (p\<lparr>p_pc := (if p_state p = PLAYER_STATE_STOPED then Closing else Poll)\<rparr>)"
  by (simp add: wavplayer_entry_def)

lemma closing_step:
  "p_pc p = Closing \<Longrightarrow> p_device p \<Longrightarrow> wavplayer_entry env p
     = Some (p\<lparr>p_fp := None, p_device := False, p_effects := p_effects p @ [Dev_close], p_pc := Outer\<rparr>)"
  by (simp add: wavplayer_entry_def wavplayer_close_def player_log_def)

lemma play_block:
  assumes "p_pc p = Poll" "p_mq p = []" "p_fp p = Some f" "p_state p = PLAYER_STATE_PLAYING" "2048 \<le> length f"
  shows "thread_run env 3 p = Some (p\<lparr>p_fp := Some (drop 2048 f), p_effects := p_effects p @ [Dev_write (take 2048 f)]\<rparr>)"
  using assms by (simp add: numeral_3_eq_3 poll_empty reading_block check_step)

lemma four: "(4 :: nat) = Suc (Suc (Suc (Suc 0)))"
  by simp

lemma play_tail:
  assumes "p_pc p = Poll" "p_mq p = []" "p_fp p = Some f" "p_device p" "length f < 2048"
  shows "thread_run env (Suc (Suc (Suc (Suc 0)))) p = Some (p\<lparr>p_pc := Outer, p_fp := None, p_device := False,
     p_state := PLAYER_STATE_STOPED, p_effects := p_effects p @ [Dev_close]\<rparr>)"
  using assms by (simp add: poll_empty reading_end check_step closing_step)

lemma thread_run_add:
  "thread_run env (m + n) p = (case thread_run env m p of None \<Rightarrow> None | Some q \<Rightarrow> thread_run env n q)"
  by (induction m arbitrary: p) (auto split: option.splits)

lemma play_through:
  assumes "p_pc p = Poll" "p_mq p = []" "p_fp p = Some f" "p_device p" "p_state p = PLAYER_STATE_PLAYING"
  shows "thread_run env (3 * (length f div 2048) + 4) p = Some (p\<lparr>p_pc := Outer, p_fp := None, p_device := False,
     p_state := PLAYER_STATE_STOPED, p_effects := p_effects p @ map Dev_write (blocks f) @ [Dev_close]\<rparr>)"
  using assms
proof (induction f arbitrary: p rule: blocks.induct)
  case (1 f)
  show ?case
  proof (cases "length f < 2048")
    case True
    have "thread_run env 4 p = Some (p\<lparr>p_pc := Outer, p_fp := None, p_device := False,
        p_state := PLAYER_STATE_STOPED, p_effects := p_effects p @ [Dev_close]\<rparr>)"
      using play_tail [OF 1(2-5) True] by (simp only: four)
    then show ?thesis
      using True by (simp only: blocks.simps [of f] div_less mult_0_right add_0 if_True list.map append.left_neutral)
  next
    case False
    let ?p = "p\<lparr>p_fp := Some (drop 2048 f), p_effects := p_effects p @ [Dev_write (take 2048 f)]\<rparr>"
    have n: "3 * (length f div 2048) + 4 = 3 + (3 * (length (drop 2048 f) div 2048) + 4)"
      unfolding blocks_step(2) [OF False] by simp
    note b = blocks_step(1) [OF False]
    have "thread_run env 3 p = Some ?p"
      using 1(2-4,6) False by (intro play_block) simp_all
    moreover have "thread_run env (3 * (length (drop 2048 f) div 2048) + 4) ?p
      = Some (?p\<lparr>p_pc := Outer, p_fp := None, p_device := False, p_state := PLAYER_STATE_STOPED,
           p_effects := p_effects ?p @ map Dev_write (blocks (drop 2048 f)) @ [Dev_close]\<rparr>)"
      by (rule 1(1) [OF False]) (use 1(2-6) in simp_all)
    ultimately show ?thesis
      unfolding n thread_run_add by (simp add: b)
  qed
qed

lemma plays_file:
  assumes "p_pc p = Opening" "p_mq p = []" "p_state p = PLAYER_STATE_PLAYING" "p_uri p = Some u"
    and "find_ok env" "dev_open env = RT_EOK" "files env u = Some f"
  shows "\<exists>k q bs. thread_run env k p = Some q \<and> p_pc q = Outer \<and> wavplayer_state_get q = PLAYER_STATE_STOPED
    \<and> p_fp q = None
    \<and> p_effects q = p_effects p
        @ [Dev_open,
           Dev_config (fmt_sample_rate (open_wav env f)) (fmt_channels (open_wav env f)) (fmt_bit_per_sample (open_wav env f)),
           Dev_volume (wavplayer_volume_get p)]
        @ map Dev_write bs @ [Dev_close]
    \<and> (\<forall>b \<in> set bs. length b = 2048)
    \<and> concat bs = take ((length f - 44) div 2048 * 2048) (drop 44 f)"
proof -
  let ?fx = "p_effects p @ [Dev_open, Dev_config (fmt_sample_rate (open_wav env f)) (fmt_channels (open_wav env f))
    (fmt_bit_per_sample (open_wav env f)), Dev_volume (p_volume p)]"
  let ?p = "p\<lparr>p_device := True, p_fp := Some (drop 44 f), p_effects := ?fx, p_pc := Poll\<rparr>"
  have "wavplayer_entry env p = Some ?p"
    using assms by (simp add: wavplayer_entry_def open_cases open_rest_def)
  then have "thread_run env (Suc (3 * (length (drop 44 f) div 2048) + 4)) p
      = thread_run env (3 * (length (drop 44 f) div 2048) + 4) ?p"
    by (simp only: thread_run_simps option.case)
  also have "\<dots> = Some (?p\<lparr>p_pc := Outer, p_fp := None, p_device := False, p_state := PLAYER_STATE_STOPED,
      p_effects := p_effects ?p @ map Dev_write (blocks (drop 44 f)) @ [Dev_close]\<rparr>)"
    by (rule play_through) (use assms in simp_all)
  finally show ?thesis
    using blocks_props [of "drop 44 f"]
    by (intro exI [of _ "Suc (3 * (length (drop 44 f) div 2048) + 4)"] exI [of _ "blocks (drop 44 f)"] exI conjI)
      (assumption, simp_all add: wavplayer_state_get_def wavplayer_volume_get_def)
qed

text \<open>
  C7. Playing a file to its end without requests: from the moment the start request is taken, the thread opens the
  device, configures it with the sample rate, channels and width of the file's header and the current volume,
  writes the sound data after the 44 header bytes in order, in blocks of 2048 bytes, closes the device
  and waits for the next request in the stopped state. The bytes after the last full block are never written.
\<close>

theorem player_plays_file:
  assumes "p_pc p = Opening" "p_mq p = []" "p_state p = PLAYER_STATE_PLAYING" "p_uri p = Some u"
    and "find_ok env" "dev_open env = RT_EOK" "files env u = Some f"
  shows "\<exists>k q bs. thread_run env k p = Some q \<and> p_pc q = Outer \<and> wavplayer_state_get q = PLAYER_STATE_STOPED
    \<and> p_fp q = None
    \<and> p_effects q = p_effects p
        @ [Dev_open,
           Dev_config (fmt_sample_rate (open_wav env f)) (fmt_channels (open_wav env f)) (fmt_bit_per_sample (open_wav env f)),
           Dev_volume (wavplayer_volume_get p)]
        @ map Dev_write bs @ [Dev_close]
    \<and> (\<forall>b \<in> set bs. length b = 2048)
    \<and> concat bs = take ((length f - 44) div 2048 * 2048) (drop 44 f)"
  by (rule plays_file [OF assms])

text \<open>A pause that races with the end of the file.\<close>

definition race_play :: "string \<Rightarrow> action list" where
  "race_play u = [Call 0 (Op_play u), Client 0, Client 0, Client 0, Client 0, Thread, Client 0, Client 0, Thread, Thread]"

definition race_pause :: "action list" where
  "race_pause = [Call 0 Op_pause, Client 0, Client 0, Thread, Thread, Thread, Client 0, Thread, Client 0, Client 0]"

definition race_resume :: "action list" where
  "race_resume = [Call 0 Op_resume, Client 0, Client 0, Client 0, Thread, Client 0, Client 0]"

lemmas client_defs = client_step_def set_client_def call_op_fields play_lock_def play_unlock_def play_msg_send_def
  rt_completion_wait_def wavplayer_event_handler_def player_ack_def rt_completion_done_def player_log_def

lemma race_play_run:
  assumes "player_ready env" "find_ok env" "dev_open env = RT_EOK" "files env u = Some f"
  shows "\<exists>p. wp_run env (race_play u) (wavplayer_start env) = Some p \<and> p_pc p = Reading \<and> p_fp p = Some (drop 44 f)
    \<and> p_state p = PLAYER_STATE_PLAYING \<and> p_mq p = [] \<and> p_clients p 0 = C_idle \<and> p_lock p = None \<and> p_mq_max p = 8
    \<and> p_device p"
  using assms
  by (simp add: start_ready race_play_def player_zero_def client_defs call_op_def wavplayer_entry_def open_cases open_rest_def
      Let_def)

lemma race_pause_run:
  assumes "p_pc p = Reading" "p_fp p = Some f" "length f < 2048" "p_state p = PLAYER_STATE_PLAYING" "p_mq p = []"
    "p_clients p 0 = C_idle" "p_lock p = None" "p_mq_max p = 8"  "p_device p"
  shows "\<exists>q. wp_run env race_pause p = Some q \<and> p_pc q = Outer \<and> p_fp q = None \<and> p_state q = PLAYER_STATE_PAUSED
    \<and> p_mq q = [] \<and> p_clients q 0 = C_idle \<and> p_lock q = None \<and> p_mq_max q = 8"
  using assms
  by (simp add: race_pause_def client_defs call_op_def wavplayer_entry_def player_read_def read_block_def
      WP_BUFFER_SIZE_def wavplayer_close_def Let_def rt_completion_init_def)

lemma race_resume_run:
  assumes "p_pc p = Outer" "p_fp p = None" "p_state p = PLAYER_STATE_PAUSED" "p_mq p = []"
    "p_clients p 0 = C_idle" "p_lock p = None" "p_mq_max p = 8"
  shows "\<exists>q. wp_run env race_resume p = Some q \<and> p_pc q = Outer \<and> p_fp q = None \<and> p_state q = PLAYER_STATE_PLAYING
    \<and> p_mq q = [] \<and> p_clients q 0 = C_idle"
  using assms
  by (simp add: race_resume_def client_defs call_op_def wavplayer_entry_def Let_def rt_completion_init_def)

text \<open>
  A pause can outlive the playback: the client tests \<open>player.state\<close>, the thread then reaches the end of a short file,
  closes it and returns to its outer wait, and the client's pause message is taken there. The player reports
  \<open>PAUSED\<close> with no file open, and after a resume \<open>PLAYING\<close>, although nothing is played.
\<close>

lemma player_phantom_pause:
  assumes "player_ready env" "find_ok env" "dev_open env = RT_EOK" "files env u = Some f" "length f < 2092"
  shows "\<exists>p q. wp_reach env {0} p \<and> wavplayer_state_get p = PLAYER_STATE_PAUSED \<and> p_pc p = Outer \<and> p_fp p = None
    \<and> (wp_step env {0})\<^sup>*\<^sup>* p q \<and> wavplayer_state_get q = PLAYER_STATE_PLAYING \<and> p_pc q = Outer \<and> p_fp q = None
    \<and> p_mq q = []"
proof -
  obtain a where a: "wp_run env (race_play u) (wavplayer_start env) = Some a" "p_pc a = Reading" "p_fp a = Some (drop 44 f)"
      "p_state a = PLAYER_STATE_PLAYING" "p_mq a = []" "p_clients a 0 = C_idle" "p_lock a = None" "p_mq_max a = 8" "p_device a"
    using race_play_run [OF assms(1-4)] by blast
  have len: "length (drop 44 f) < 2048" using assms(5) by simp
  obtain p where p: "wp_run env race_pause a = Some p" "p_pc p = Outer" "p_fp p = None" "p_state p = PLAYER_STATE_PAUSED"
      "p_mq p = []" "p_clients p 0 = C_idle" "p_lock p = None" "p_mq_max p = 8"
    using race_pause_run [OF a(2,3) len a(4-9), of env] by blast
  obtain q where q: "wp_run env race_resume p = Some q" "p_pc q = Outer" "p_fp q = None" "p_state q = PLAYER_STATE_PLAYING"
      "p_mq q = []"
    using race_resume_run [OF p(2-8), of env] by blast
  have "(wp_step env {0})\<^sup>*\<^sup>* (wavplayer_start env) a"
    by (rule run_steps [OF a(1)]) (simp add: race_play_def)
  also have "(wp_step env {0})\<^sup>*\<^sup>* a p"
    by (rule run_steps [OF p(1)]) (simp add: race_pause_def)
  finally have "wp_reach env {0} p" by (simp add: wp_reach_def)
  moreover have "(wp_step env {0})\<^sup>*\<^sup>* p q"
    by (rule run_steps [OF q(1)]) (simp add: race_resume_def)
  ultimately show ?thesis
    using p q unfolding wavplayer_state_get_def by blast
qed

subsection \<open>Witnesses\<close>

definition demo_env :: player_env where
  "demo_env = \<lparr>malloc_ok = True, mq_object_ok = True, mq_malloc = (\<lambda>_. Some (\<lambda>_. None, \<lambda>_. [])), mutex_ok = True,
     find_ok = True, dev_open = RT_EOK, dev_control = RT_EOK,
     files = (\<lambda>u. if u = ''/a.wav'' then Some (replicate 50 0) else Some (replicate 4200 7)), stack_wav = zero_header\<rparr>"

lemma demo_ready: "player_ready demo_env"
  by (simp add: player_ready_def demo_env_def)

definition demo_call :: "nat \<Rightarrow> action list" where
  "demo_call n = Call 0 (Op_play ''/a.wav'') # replicate n (Client 0)"

lemma demo_call_reach: "wp_run demo_env (demo_call n) (wavplayer_start demo_env) = Some p \<Longrightarrow> wp_reach demo_env {0} p"
  by (rule run_reach) (assumption, simp add: demo_call_def)

lemma demo_sent:
  "\<exists>p. wp_run demo_env (demo_call 4) (wavplayer_start demo_env) = Some p \<and> p_mq p = [MSG_START]"
  by (simp add: start_ready [OF demo_ready] demo_call_def numeral_eq_Suc player_zero_def client_defs call_op_def Let_def)

lemma demo_blocked:
  "\<exists>p. wp_run demo_env (demo_call 5) (wavplayer_start demo_env) = Some p
     \<and> p_clients p 0 = C_blocked (Op_play ''/a.wav'') RT_EOK \<and> p_clients p 1 = C_idle"
  by (simp add: start_ready [OF demo_ready] demo_call_def numeral_eq_Suc player_zero_def client_defs call_op_def Let_def
      rt_completion_init_def)

lemma demo_stop:
  "\<exists>p. wp_run demo_env [Call 0 Op_stop, Client 0, Client 0] (wavplayer_start demo_env) = Some p
     \<and> p_clients p 0 = C_unlock Op_stop RT_EOK"
  by (simp add: start_ready [OF demo_ready] player_zero_def client_defs call_op_def Let_def)

theorem player_safe_witness:
  "\<exists>p. wp_reach demo_env {0} p \<and> p_pc p = Reading \<and> p_fp p \<noteq> None \<and> dev_opened (p_effects p) = 1"
proof -
  have env: "find_ok demo_env" "dev_open demo_env = RT_EOK" "files demo_env ''/a.wav'' = Some (replicate 50 0)"
    by (simp_all add: demo_env_def)
  obtain p where p: "wp_run demo_env (race_play ''/a.wav'') (wavplayer_start demo_env) = Some p" "p_pc p = Reading"
    using race_play_run [OF demo_ready env] by blast
  have "wp_reach demo_env {0} p"
    by (rule run_reach [OF p(1)]) (simp add: race_play_def)
  then show ?thesis
    using player_safe [OF _ demo_ready, of "{0}" p] p(2) by (auto simp: playing_pc_def)
qed

theorem player_call_result_witness:
  "\<exists>p. p_clients p 0 = C_unlock Op_stop RT_EOK \<and> wavplayer_state_get p = PLAYER_STATE_STOPED \<and> p_mq p = []"
proof -
  obtain p where p: "wp_run demo_env [Call 0 Op_stop, Client 0, Client 0] (wavplayer_start demo_env) = Some p"
      "p_clients p 0 = C_unlock Op_stop RT_EOK"
    using demo_stop by blast
  have "wp_reach demo_env {0} p" by (rule run_reach [OF p(1)]) simp
  then show ?thesis
    using player_call_result [OF _ demo_ready p(2), of "{0}"] p(2) by blast
qed

theorem player_answers_witness:
  "\<exists>p k q. p_mq p = [MSG_START] \<and> k \<le> 4 \<and> thread_run demo_env k p = Some q \<and> p_mq q = []"
proof -
  obtain p where p: "wp_run demo_env (demo_call 4) (wavplayer_start demo_env) = Some p" "p_mq p = [MSG_START]"
    using demo_sent by blast
  then show ?thesis
    using player_answers [OF demo_call_reach [OF p(1)] demo_ready] by auto
qed

theorem player_second_call_hangs_witness:
  "\<exists>q. p_clients q 0 = C_blocked (Op_play ''/a.wav'') RT_EOK \<and> p_clients q 1 = C_lock Op_stop
     \<and> client_step 0 q = None \<and> client_step 1 q = None"
proof -
  obtain p where p: "wp_run demo_env (demo_call 5) (wavplayer_start demo_env) = Some p"
      "p_clients p 0 = C_blocked (Op_play ''/a.wav'') RT_EOK" "p_clients p 1 = C_idle"
    using demo_blocked by blast
  show ?thesis
    using player_second_call_hangs [OF demo_call_reach [OF p(1)] demo_ready p(2,3), of Op_stop UNIV "call_op 1 Op_stop p"]
    by auto
qed

theorem player_plays_file_witness:
  "\<exists>k q bs. thread_run demo_env k (player_zero\<lparr>p_pc := Opening, p_state := PLAYER_STATE_PLAYING, p_uri := Some ''/b.wav''\<rparr>) = Some q
     \<and> p_pc q = Outer \<and> concat bs = replicate 4096 (7 :: u8) \<and> last (p_effects q) = Dev_close"
proof -
  let ?p = "player_zero\<lparr>p_pc := Opening, p_state := PLAYER_STATE_PLAYING, p_uri := Some ''/b.wav''\<rparr>"
  have h: "p_pc ?p = Opening" "p_mq ?p = []" "p_state ?p = PLAYER_STATE_PLAYING" "p_uri ?p = Some ''/b.wav''"
      "find_ok demo_env" "dev_open demo_env = RT_EOK" "files demo_env ''/b.wav'' = Some (replicate 4200 7)"
    by (simp_all add: player_zero_def demo_env_def)
  show ?thesis
    using player_plays_file [OF h] by (elim exE conjE) (intro exI conjI, assumption, simp_all)
qed

end
