(* ===== verification/WavRecorder.thy ===== *)
theory WavRecorder
  imports RtEvent RtCompletion WavHdr
begin

text \<open>
  The recorder of \<open>packages/wavplayer-v0.2.0/src/wavrecorder.c\<close>. \<open>wavrecorder_start\<close> creates a thread that opens
  file, microphone and event, writes 44 zero bytes, and then alternates between reading the microphone and
  polling the stop event; on a stop it writes the header over the zero bytes, closes everything and
  completes the acknowledgement. The struct \<open>record\<close> is shared by all threads; the state lists the
  recorder threads that exist with their program counters. The microphone, the heap and the file system are
  parameters.
\<close>

subsection \<open>Data\<close>

definition WR_BUFFER_SIZE :: nat where "WR_BUFFER_SIZE = 2048"

definition RECORD_EVENT_STOP :: u32 where "RECORD_EVENT_STOP = 1"
definition RECORD_EVENT_START :: u32 where "RECORD_EVENT_START = 2"

record wavrecord_info =
  info_uri :: "string option"
  info_samplerate :: u32
  info_channels :: u16
  info_samplebits :: u16

text \<open>An open file: its bytes and the position.\<close>

type_synonym out_file = "u8 list \<times> nat"

definition fwrite :: "u8 list \<Rightarrow> out_file \<Rightarrow> out_file" where
  "fwrite bs f = (take (snd f) (fst f) @ bs @ drop (snd f + length bs) (fst f), snd f + length bs)"

definition fseek_start :: "out_file \<Rightarrow> out_file" where
  "fseek_start f = (fst f, 0)"

text \<open>A recorder thread: created, in its loop with its \<open>total_length\<close>, or between the acknowledgement and the last
  statement.\<close>

datatype rec_pc = Rec_created | Rec_loop u32 | Rec_acked

datatype rec_effect = Mic_open | Mic_close | Mic_config u32 u16 u16

record recorder =
  r_device :: bool
  r_info :: wavrecord_info
  r_event :: "rt_event option"
  r_ack :: completion
  r_buffer :: bool
  r_fp :: "out_file option"
  r_activated :: bool
  r_threads :: "rec_pc list"
  r_saved :: "u8 list list"
  r_effects :: "rec_effect list"

text \<open>\<open>r_device\<close> and \<open>r_buffer\<close> say that the pointer is not null; \<open>r_saved\<close> collects the files that were closed.\<close>

record rec_env =
  mic_found :: bool
  rec_malloc_ok :: bool
  fopen_ok :: bool
  mic_open :: rt_err
  event_ok :: bool
  thread_ok :: bool

definition recorder_zero :: recorder where
  "recorder_zero = \<lparr>r_device = False,
     r_info = \<lparr>info_uri = None, info_samplerate = 0, info_channels = 0, info_samplebits = 0\<rparr>,
     r_event = None, r_ack = rt_completion_init, r_buffer = False, r_fp = None, r_activated = False,
     r_threads = [], r_saved = [], r_effects = []\<rparr>"

subsection \<open>The recorder thread\<close>

definition wavrecorder_close :: "recorder \<Rightarrow> recorder" where
  "wavrecorder_close r =
     (let r = r\<lparr>r_buffer := False\<rparr>;
          r = (case r_fp r of None \<Rightarrow> r | Some f \<Rightarrow> r\<lparr>r_fp := None, r_saved := r_saved r @ [fst f]\<rparr>);
          r = (if r_device r then r\<lparr>r_device := False, r_effects := r_effects r @ [Mic_close]\<rparr> else r)
      in r\<lparr>r_event := None\<rparr>)"

text \<open>The error path releases the same things as \<open>wavrecorder_close\<close>, in the same order.\<close>

definition wavrecorder_open :: "rec_env \<Rightarrow> recorder \<Rightarrow> rt_err \<times> recorder" where
  "wavrecorder_open env r =
     (let r = r\<lparr>r_device := mic_found env\<rparr>
      in if \<not> mic_found env then (RT_ERROR, r)
      else let r = r\<lparr>r_buffer := rec_malloc_ok env\<rparr>
      in if \<not> rec_malloc_ok env then (RT_ENOMEM, wavrecorder_close r)
      else let r = r\<lparr>r_fp := (if fopen_ok env then Some ([], 0) else None)\<rparr>
      in if \<not> fopen_ok env then (RT_ERROR, wavrecorder_close r)
      else if mic_open env \<noteq> RT_EOK then (RT_ERROR, wavrecorder_close r)
      else let r = r\<lparr>r_effects := r_effects r @ [Mic_open], r_event := rt_event_create (event_ok env) RT_IPC_FLAG_FIFO\<rparr>
      in if \<not> event_ok env then (RT_ERROR, wavrecorder_close r)
      else (RT_EOK, r))"

definition rec_write :: "u8 list \<Rightarrow> recorder \<Rightarrow> recorder" where
  "rec_write bs r = r\<lparr>r_fp := map_option (fwrite bs) (r_fp r)\<rparr>"

text \<open>The zeroed local header.\<close>

definition wav_zero :: wav_header where
  "wav_zero = zero_header"

text \<open>\<open>wavrecord_entry\<close> up to its loop; a failed open ends the thread.\<close>

definition rec_begin :: "rec_env \<Rightarrow> recorder \<Rightarrow> rec_pc option \<times> recorder" where
  "rec_begin env r =
     (let (result, r) = wavrecorder_open env r
      in if result \<noteq> RT_EOK then (None, r)
      else
        let r = rec_write (the (snd (wavheader_write wav_zero (Some [])))) (r\<lparr>r_activated := True\<rparr>)
        in (Some (Rec_loop 0),
            r\<lparr>r_effects := r_effects r @ [Mic_config (info_samplerate (r_info r)) (info_channels (r_info r)) 16]\<rparr>))"

text \<open>The header that is written over the first 44 bytes.\<close>

definition final_header :: "recorder \<Rightarrow> u32 \<Rightarrow> wav_header" where
  "final_header r total_length =
     the (snd (wavheader_init (Some wav_zero) (info_samplerate (r_info r)) (ucast (info_channels (r_info r))) total_length))"

definition rec_finish :: "u32 \<Rightarrow> recorder \<Rightarrow> recorder" where
  "rec_finish total_length r =
     (let r = r\<lparr>r_fp := map_option fseek_start (r_fp r)\<rparr>;
          r = rec_write (the (snd (wavheader_write (final_header r total_length) (Some [])))) r;
          r = wavrecorder_close r
      in r\<lparr>r_ack := fst (rt_completion_done (r_ack r))\<rparr>)"

text \<open>One round of the loop; \<open>chunk\<close> is what the microphone delivers, at most a buffer.\<close>

definition rec_round :: "u8 list \<Rightarrow> u32 \<Rightarrow> recorder \<Rightarrow> (rec_pc \<times> recorder) option" where
  "rec_round chunk total_length r =
     (let chunk = take WR_BUFFER_SIZE chunk;
          r = (if chunk \<noteq> [] then rec_write chunk r else r);
          total_length = (if chunk \<noteq> [] then total_length + of_nat (length chunk) else total_length)
      in case r_event r of
           None \<Rightarrow> None
         | Some ev \<Rightarrow>
             (case rt_event_recv ev 0 19 RECORD_EVENT_STOP (RT_EVENT_FLAG_OR OR RT_EVENT_FLAG_CLEAR) 0 None of
                Ev_return code got ev' \<Rightarrow>
                  let r = r\<lparr>r_event := Some ev'\<rparr>
                  in Some (if code = 0 then (Rec_acked, rec_finish total_length r) else (Rec_loop total_length, r))
              | Ev_wait ev' \<Rightarrow> None
              | Ev_assert \<Rightarrow> None))"

text \<open>Thread \<open>i\<close> takes a step; \<open>None\<close> when there is no such thread or it uses a null event.\<close>

definition set_rec :: "nat \<Rightarrow> rec_pc option \<Rightarrow> recorder \<Rightarrow> recorder" where
  "set_rec i pc r =
     r\<lparr>r_threads := (case pc of Some p \<Rightarrow> (r_threads r)[i := p]
                              | None \<Rightarrow> take i (r_threads r) @ drop (Suc i) (r_threads r))\<rparr>"

definition wavrecord_entry :: "rec_env \<Rightarrow> u8 list \<Rightarrow> nat \<Rightarrow> recorder \<Rightarrow> recorder option" where
  "wavrecord_entry env chunk i r =
     (if i < length (r_threads r) then
        (case r_threads r ! i of
           Rec_created \<Rightarrow> (let (pc, r) = rec_begin env r in Some (set_rec i pc r))
         | Rec_loop total_length \<Rightarrow> map_option (\<lambda>(pc, r). set_rec i (Some pc) r) (rec_round chunk total_length r)
         | Rec_acked \<Rightarrow> Some (set_rec i None (r\<lparr>r_activated := False\<rparr>)))
      else None)"

subsection \<open>The calls\<close>

text \<open>\<open>wavrecorder_start\<close>; \<open>rt_strdup\<close> succeeds.\<close>

definition wavrecorder_start :: "rec_env \<Rightarrow> wavrecord_info \<Rightarrow> recorder \<Rightarrow> rt_err \<times> recorder" where
  "wavrecorder_start env info r =
     (if \<not> r_activated r
      then (RT_EOK, r\<lparr>r_info := info, r_threads := (if thread_ok env then r_threads r @ [Rec_created] else r_threads r)\<rparr>)
      else (RT_EOK, r))"

text \<open>\<open>wavrecorder_stop\<close> up to its wait (\<open>False\<close> when it returns without one; \<open>None\<close> for a null event), and the wait.\<close>

definition wavrecorder_stop :: "recorder \<Rightarrow> (bool \<times> recorder) option" where
  "wavrecorder_stop r =
     (if r_activated r then
        (case r_event r of
           None \<Rightarrow> None
         | Some ev \<Rightarrow>
             Some (True, r\<lparr>r_ack := rt_completion_init, r_event := Some (snd (rt_event_send ev RECORD_EVENT_STOP))\<rparr>))
      else Some (False, r))"

definition wavrecorder_stop_wait :: "nat \<Rightarrow> recorder \<Rightarrow> completion_wait" where
  "wavrecorder_stop_wait self r = rt_completion_wait self (- 1) (r_ack r)"

definition wavrecorder_is_actived :: "recorder \<Rightarrow> bool" where
  "wavrecorder_is_actived r = r_activated r"

subsection \<open>Recording\<close>

text \<open>The only recorder thread runs, given what the microphone delivers in each of its steps.\<close>

fun rec_run :: "rec_env \<Rightarrow> u8 list list \<Rightarrow> recorder \<Rightarrow> recorder option" where
  "rec_run env [] r = Some r"
| "rec_run env (c # cs) r = (case wavrecord_entry env c 0 r of None \<Rightarrow> None | Some r' \<Rightarrow> rec_run env cs r')"

definition rec_ok :: "rec_env \<Rightarrow> bool" where
  "rec_ok env \<longleftrightarrow> mic_found env \<and> rec_malloc_ok env \<and> fopen_ok env \<and> mic_open env = RT_EOK \<and> event_ok env \<and> thread_ok env"

definition rec_clean :: "recorder \<Rightarrow> bool" where
  "rec_clean r \<longleftrightarrow> \<not> r_device r \<and> r_event r = None \<and> \<not> r_buffer r \<and> r_fp r = None \<and> \<not> r_activated r"

definition mic_data :: "u8 list list \<Rightarrow> u8 list" where
  "mic_data cs = concat (map (take WR_BUFFER_SIZE) cs)"

text \<open>The recorder in its loop, having recorded \<open>data\<close>.\<close>

definition recording :: "wavrecord_info \<Rightarrow> u8 list list \<Rightarrow> u8 list \<Rightarrow> recorder \<Rightarrow> bool" where
  "recording info saved data r \<longleftrightarrow> r_threads r = [Rec_loop (of_nat (length data))] \<and> r_activated r \<and> r_device r
     \<and> r_info r = info \<and> r_saved r = saved \<and> (\<exists>hdr. length hdr = 44 \<and> r_fp r = Some (hdr @ data, 44 + length data))
     \<and> r_event r = Some (rt_event_init RT_IPC_FLAG_FIFO)"

lemma fwrite_end: "p = length f \<Longrightarrow> fwrite bs (f, p) = (f @ bs, p + length bs)"
  by (simp add: fwrite_def)

lemma fwrite_header:
  "length bs = 44 \<Longrightarrow> length hdr = 44 \<Longrightarrow> fwrite bs (fseek_start (hdr @ data, p)) = (bs @ data, 44)"
  by (simp add: fwrite_def fseek_start_def)

lemma zero_header_ok: "header_ok wav_zero"
  by (simp add: wav_zero_def zero_header_def header_ok_def)

lemma begin_recording:
  assumes "rec_ok env" "r_threads r = [Rec_created]"
  shows "\<exists>r'. wavrecord_entry env c 0 r = Some r' \<and> recording (r_info r) (r_saved r) [] r'"
proof -
  have len: "length (the (snd (wavheader_write wav_zero (Some [])))) = 44"
    using length_wavheader_write [OF zero_header_ok, of "[]"] by simp
  show ?thesis
    using assms len
    by (simp add: wavrecord_entry_def rec_begin_def wavrecorder_open_def rec_ok_def rec_write_def set_rec_def
        recording_def rt_event_create_def fwrite_end)
qed

lemma stop_flag: "RECORD_EVENT_STOP \<noteq> 0" "RECORD_EVENT_STOP AND RECORD_EVENT_STOP = RECORD_EVENT_STOP"
  by (simp_all add: RECORD_EVENT_STOP_def)

lemma recv_options:
  "(RT_EVENT_FLAG_OR OR RT_EVENT_FLAG_CLEAR) AND RT_EVENT_FLAG_AND = 0"
  "(RT_EVENT_FLAG_OR OR RT_EVENT_FLAG_CLEAR) AND RT_EVENT_FLAG_OR \<noteq> 0"
  "(RT_EVENT_FLAG_OR OR RT_EVENT_FLAG_CLEAR) AND RT_EVENT_FLAG_CLEAR \<noteq> 0"
  by (simp_all add: RT_EVENT_FLAG_AND_def RT_EVENT_FLAG_OR_def RT_EVENT_FLAG_CLEAR_def)

lemma poll_stop:
  "rt_event_recv ev 0 19 RECORD_EVENT_STOP (RT_EVENT_FLAG_OR OR RT_EVENT_FLAG_CLEAR) 0 None =
     (if ev_set ev AND RECORD_EVENT_STOP \<noteq> 0
      then Ev_return 0 (Some (ev_set ev AND RECORD_EVENT_STOP)) (ev\<lparr>ev_set := ev_set ev AND NOT RECORD_EVENT_STOP\<rparr>)
      else Ev_return (- 2) None ev)"
  using recv_options stop_flag by (simp add: rt_event_recv_def event_satisfied_def)

lemma write_chunk:
  "(if chunk \<noteq> [] then rec_write chunk r else r) = rec_write chunk r"
  if "r_fp r = Some f" "snd f = length (fst f)"
proof -
  have "fwrite [] f = f" using that(2) by (cases f) (simp add: fwrite_def)
  then have "rec_write [] r = r" using that(1) by (simp add: rec_write_def)
  then show ?thesis by simp
qed

lemma record_round:
  assumes "recording info saved data r"
  shows "\<exists>r'. wavrecord_entry env c 0 r = Some r' \<and> recording info saved (data @ take WR_BUFFER_SIZE c) r'"
proof -
  obtain hdr where hdr: "length hdr = 44" "r_fp r = Some (hdr @ data, 44 + length data)"
    using assms by (auto simp: recording_def)
  let ?c = "take WR_BUFFER_SIZE c"
  have w: "(if ?c \<noteq> [] then rec_write ?c r else r) = rec_write ?c r"
    by (rule write_chunk [OF hdr(2)]) (simp add: hdr(1))
  have n: "(if ?c \<noteq> [] then of_nat (length data) + of_nat (length ?c) else of_nat (length data)) = (of_nat (length (data @ ?c)) :: u32)"
    by simp
  have fp: "fwrite ?c (hdr @ data, 44 + length data) = (hdr @ data @ ?c, 44 + length (data @ ?c))"
    using hdr(1) by (subst fwrite_end) simp_all
  show ?thesis
    using assms hdr
    by (simp add: wavrecord_entry_def recording_def rec_round_def Let_def w n poll_stop rt_event_init_def set_rec_def
        rec_write_def fp)
qed

lemma record_rounds:
  "recording info saved data r \<Longrightarrow> \<exists>r'. rec_run env cs r = Some r' \<and> recording info saved (data @ mic_data cs) r'"
proof (induction cs arbitrary: data r)
  case Nil
  then show ?case by (simp add: mic_data_def)
next
  case (Cons c cs)
  obtain r1 where "wavrecord_entry env c 0 r = Some r1" "recording info saved (data @ take WR_BUFFER_SIZE c) r1"
    using record_round [OF Cons.prems] by blast
  then show ?case
    using Cons.IH by (fastforce simp: mic_data_def)
qed

lemma ucast_u16_u32_u16: "(ucast (ucast (w :: u16) :: u32) :: u16) = w"
  by (rule bit_word_eqI) (simp add: bit_simps)

lemma final_header_props:
  "header_ok (final_header r n)" "fmt_sample_rate (final_header r n) = info_samplerate (r_info r)"
  "fmt_channels (final_header r n) = info_channels (r_info r)" "fmt_bit_per_sample (final_header r n) = 16"
  "data_datasize (final_header r n) = n" "fmt_block_align (final_header r n) = 0"
  by (simp_all add: final_header_def wavheader_init_def Let_def header_ok_def RIFF_def WAVE_def FMT_ID_def DATA_def
      wav_zero_def zero_header_def int_div_def ucast_u16_u32_u16)

text \<open>The round that meets the stop event.\<close>

lemma stop_round:
  assumes rec: "recording info saved data r" and stop: "wavrecorder_stop r = Some (b, r1)"
  shows "b \<and> (\<exists>r2. wavrecord_entry env c 0 r1 = Some r2 \<and> r_threads r2 = [Rec_acked] \<and> r_activated r2
    \<and> r_fp r2 = None \<and> r_event r2 = None \<and> \<not> r_device r2 \<and> \<not> r_buffer r2 \<and> r_ack r2 = \<lparr>c_flag = True, c_suspended = []\<rparr>
    \<and> r_info r2 = info
    \<and> (\<exists>h. header_ok h \<and> fmt_sample_rate h = info_samplerate info \<and> fmt_channels h = info_channels info
        \<and> fmt_bit_per_sample h = 16 \<and> fmt_block_align h = 0
        \<and> data_datasize h = of_nat (length (data @ take WR_BUFFER_SIZE c))
        \<and> r_saved r2 = saved @ [the (snd (wavheader_write h (Some []))) @ data @ take WR_BUFFER_SIZE c]))"
proof -
  let ?c = "take WR_BUFFER_SIZE c"
  obtain hdr where hdr: "length hdr = 44" "r_fp r = Some (hdr @ data, 44 + length data)"
    using rec by (auto simp: recording_def)
  let ?ev = "(rt_event_init RT_IPC_FLAG_FIFO)\<lparr>ev_set := RECORD_EVENT_STOP\<rparr>"
  have r1: "b" "r1 = r\<lparr>r_ack := rt_completion_init, r_event := Some ?ev\<rparr>"
    using rec stop by (auto simp: recording_def wavrecorder_stop_def rt_event_send_def rt_event_init_def RECORD_EVENT_STOP_def)
  have fp1: "r_fp r1 = Some (hdr @ data, 44 + length data)" using hdr(2) r1(2) by simp
  have w: "(if ?c \<noteq> [] then rec_write ?c r1 else r1) = rec_write ?c r1"
    by (rule write_chunk [OF fp1]) (simp add: hdr(1))
  have fp: "fwrite ?c (hdr @ data, 44 + length data) = (hdr @ data @ ?c, 44 + length data + length ?c)"
    using hdr(1) by (subst fwrite_end) simp_all
  have n: "(if ?c \<noteq> [] then of_nat (length data) + of_nat (length ?c) else of_nat (length data)) = (of_nat (length (data @ ?c)) :: u32)"
    by simp
  let ?h = "final_header r (of_nat (length (data @ ?c)))"
  have len: "length (the (snd (wavheader_write ?h (Some [])))) = 44"
    using length_wavheader_write [OF final_header_props(1), where fp = "[]"] by simp
  have sv: "fwrite (the (snd (wavheader_write ?h (Some [])))) (fseek_start (hdr @ data @ ?c, k))
      = (the (snd (wavheader_write ?h (Some []))) @ data @ ?c, 44)" for k
    by (rule fwrite_header [OF len hdr(1)])
  have info: "r_info r = info" "r_saved r = saved" "r_threads r = [Rec_loop (of_nat (length data))]" "r_activated r"
    using rec by (simp_all add: recording_def)
  define r2 where "r2 = the (wavrecord_entry env c 0 r1)"
  have poll: "rt_event_recv ?ev 0 19 RECORD_EVENT_STOP (RT_EVENT_FLAG_OR OR RT_EVENT_FLAG_CLEAR) 0 None
      = Ev_return 0 (Some RECORD_EVENT_STOP) (?ev\<lparr>ev_set := RECORD_EVENT_STOP AND NOT RECORD_EVENT_STOP\<rparr>)"
    using stop_flag unfolding poll_stop by simp
  have fh: "final_header q k = final_header r k" if "r_info q = r_info r" for q k
    using that by (simp add: final_header_def)
  let ?q = "(rec_write ?c r1)\<lparr>r_event := Some (?ev\<lparr>ev_set := RECORD_EVENT_STOP AND NOT RECORD_EVENT_STOP\<rparr>)\<rparr>"
  have qi: "r_info ?q = r_info r" by (simp add: rec_write_def r1(2))
  have ev: "r_event (rec_write ?c r1) = Some ?ev" by (simp add: rec_write_def r1(2))
  have round: "rec_round c (of_nat (length data)) r1 = Some (Rec_acked, rec_finish (of_nat (length (data @ ?c))) ?q)"
    unfolding rec_round_def Let_def w n ev by (simp only: option.case poll event_result.case if_True refl)
  have fq: "r_fp ?q = Some (hdr @ data @ ?c, 44 + length data + length ?c)"
    by (simp add: rec_write_def fp1 fp del: length_take)
  have fin: "rec_finish (of_nat (length (data @ ?c))) ?q
      = ?q\<lparr>r_fp := None, r_saved := r_saved ?q @ [the (snd (wavheader_write ?h (Some []))) @ data @ ?c], r_buffer := False,
          r_device := False, r_effects := r_effects ?q @ (if r_device ?q then [Mic_close] else []), r_event := None,
          r_ack := \<lparr>c_flag = True, c_suspended = []\<rparr>\<rparr>"
  proof -
    have "final_header (?q\<lparr>r_fp := f\<rparr>) k = final_header r k" for f k
      by (rule fh) (use qi in simp)
    then show ?thesis
      unfolding rec_finish_def Let_def rec_write_def [of "the (snd (wavheader_write _ _))"] fq option.map
      using sv by (simp add: wavrecorder_close_def rt_completion_done_def rt_completion_init_def r1(2) rec_write_def)
  qed
  have step: "wavrecord_entry env c 0 r1 = Some (set_rec 0 (Some Rec_acked) (rec_finish (of_nat (length (data @ ?c))) ?q))"
    using info(3) round by (simp add: wavrecord_entry_def r1(2))
  have q: "r_threads ?q = [Rec_loop (of_nat (length data))]" "r_activated ?q" "r_saved ?q = saved" "r_info ?q = info"
    using info by (simp_all add: rec_write_def r1(2))
  show ?thesis
    using r1(1) step final_header_props [of r "of_nat (length (data @ ?c))"] q info(1)
    unfolding fin by (intro conjI) (assumption, auto simp: set_rec_def)
qed

lemma started:
  assumes "rec_ok env" "r_threads r = []" "\<not> r_activated r"
  shows "\<exists>r2. rec_run env (c0 # cs) (snd (wavrecorder_start env info r)) = Some r2 \<and> recording info (r_saved r) (mic_data cs) r2"
proof -
  let ?r1 = "snd (wavrecorder_start env info r)"
  have r1: "r_threads ?r1 = [Rec_created]" "r_info ?r1 = info" "r_saved ?r1 = r_saved r"
    using assms by (simp_all add: wavrecorder_start_def rec_ok_def)
  obtain r2 where r2: "wavrecord_entry env c0 0 ?r1 = Some r2" "recording info (r_saved r) [] r2"
    using begin_recording [OF assms(1) r1(1)] r1(2,3) by fastforce
  show ?thesis
    using record_rounds [OF r2(2), of env cs] r2(1) by simp
qed

lemma start_wait_stop:
  assumes "rec_ok env" "r_threads r = []" "\<not> r_activated r"
  shows "\<exists>r2 r3 r4 h. rec_run env (c0 # cs) (snd (wavrecorder_start env info r)) = Some r2
    \<and> wavrecorder_stop r2 = Some (True, r3) \<and> wavrecord_entry env c 0 r3 = Some r4
    \<and> r_threads r4 = [Rec_acked] \<and> r_activated r4 \<and> r_fp r4 = None \<and> r_event r4 = None \<and> \<not> r_device r4 \<and> \<not> r_buffer r4
    \<and> r_ack r4 = \<lparr>c_flag = True, c_suspended = []\<rparr> \<and> r_info r4 = info
    \<and> header_ok h \<and> fmt_sample_rate h = info_samplerate info \<and> fmt_channels h = info_channels info
    \<and> fmt_bit_per_sample h = 16 \<and> fmt_block_align h = 0 \<and> data_datasize h = of_nat (length (mic_data (cs @ [c])))
    \<and> r_saved r4 = r_saved r @ [the (snd (wavheader_write h (Some []))) @ mic_data (cs @ [c])]"
proof -
  obtain r2 where r2: "rec_run env (c0 # cs) (snd (wavrecorder_start env info r)) = Some r2"
      "recording info (r_saved r) (mic_data cs) r2"
    using started [OF assms] by blast
  obtain b r3 where r3: "wavrecorder_stop r2 = Some (b, r3)"
    using r2(2) by (auto simp: recording_def wavrecorder_stop_def)
  have m: "mic_data cs @ take WR_BUFFER_SIZE c = mic_data (cs @ [c])"
    by (simp add: mic_data_def)
  have "wavrecorder_stop r2 = Some (True, r3)"
    using stop_round [OF r2(2) r3, of env c] r3 by simp
  then show ?thesis
    using stop_round [OF r2(2) r3, of env c] r2(1) unfolding m by blast
qed

subsection \<open>Properties\<close>

text \<open>
  C12. A recording keeps what the microphone delivered: from an idle recorder, a start, any number of rounds, a stop and the
  round that meets it save one file, whose first 44 bytes are a header with the requested rate and channels, 16
  bits and the length of the data, and whose rest is the data in order. The thread then ends with everything
  closed, and the caller's wait for the acknowledgement returns. (The header's block size is 0.)
\<close>

theorem recorder_saves_file:
  assumes "rec_ok env" "r_threads r = []" "\<not> r_activated r" "header_ok old"
  shows "\<exists>r2 r3 r4 r5 h file. rec_run env (c0 # cs) (snd (wavrecorder_start env info r)) = Some r2
    \<and> wavrecorder_stop r2 = Some (True, r3) \<and> rec_run env [c] r3 = Some r4
    \<and> wavrecorder_stop_wait 1 r4 = Proceed RT_EOK rt_completion_init
    \<and> r_saved r4 = r_saved r @ [file]
    \<and> wavheader_read old (Some file) = (0, h, Some (mic_data (cs @ [c])))
    \<and> fmt_sample_rate h = info_samplerate info \<and> fmt_channels h = info_channels info \<and> fmt_bit_per_sample h = 16
    \<and> fmt_block_align h = 0 \<and> data_datasize h = of_nat (length (mic_data (cs @ [c])))
    \<and> wavrecord_entry env c' 0 r4 = Some r5 \<and> r_threads r5 = [] \<and> rec_clean r5"
proof -
  obtain r2 r3 r4 h where p: "rec_run env (c0 # cs) (snd (wavrecorder_start env info r)) = Some r2"
      "wavrecorder_stop r2 = Some (True, r3)" "wavrecord_entry env c 0 r3 = Some r4"
      "r_threads r4 = [Rec_acked]" "r_fp r4 = None" "r_event r4 = None" "\<not> r_device r4" "\<not> r_buffer r4"
      "r_ack r4 = \<lparr>c_flag = True, c_suspended = []\<rparr>"
    and h: "header_ok h" "fmt_sample_rate h = info_samplerate info" "fmt_channels h = info_channels info"
      "fmt_bit_per_sample h = 16" "fmt_block_align h = 0" "data_datasize h = of_nat (length (mic_data (cs @ [c])))"
      "r_saved r4 = r_saved r @ [the (snd (wavheader_write h (Some []))) @ mic_data (cs @ [c])]"
    using start_wait_stop [OF assms(1-3), of c0 cs info c] by auto
  have wait: "wavrecorder_stop_wait 1 r4 = Proceed RT_EOK rt_completion_init"
    using p(9) by (simp add: wavrecorder_stop_wait_def rt_completion_wait_def rt_completion_init_def)
  have read: "wavheader_read old (Some (the (snd (wavheader_write h (Some []))) @ mic_data (cs @ [c])))
      = (0, h, Some (mic_data (cs @ [c])))"
    by (rule wavheader_read_written [OF h(1) assms(4)])
  let ?r5 = "set_rec 0 None (r4\<lparr>r_activated := False\<rparr>)"
  have r5: "wavrecord_entry env c' 0 r4 = Some ?r5" "r_threads ?r5 = []" "rec_clean ?r5"
    using p(4-8) by (simp_all add: wavrecord_entry_def set_rec_def rec_clean_def)
  have run: "rec_run env [c] r3 = Some r4"
    using p(3) by simp
  show ?thesis
    using p(1,2) run wait read h(2-7) r5 by blast
qed

text \<open>
  A start right after a stop can be lost: the stop returns on the acknowledgement, which the thread gives before it
  clears \<open>activated\<close>. A \<open>wavrecorder_start\<close> in between reports \<open>RT_EOK\<close> but changes nothing, and when the thread has
  ended no recorder runs.
\<close>

lemma recorder_start_lost:
  assumes "rec_ok env" "r_threads r = []" "\<not> r_activated r"
  shows "\<exists>r2 r3 r4 r5. rec_run env (c0 # cs) (snd (wavrecorder_start env info r)) = Some r2
    \<and> wavrecorder_stop r2 = Some (True, r3) \<and> rec_run env [c] r3 = Some r4
    \<and> wavrecorder_stop_wait 1 r4 = Proceed RT_EOK rt_completion_init
    \<and> wavrecorder_start env info' (r4\<lparr>r_ack := rt_completion_init\<rparr>) = (RT_EOK, r4\<lparr>r_ack := rt_completion_init\<rparr>)
    \<and> wavrecord_entry env c' 0 (r4\<lparr>r_ack := rt_completion_init\<rparr>) = Some r5
    \<and> r_threads r5 = [] \<and> \<not> wavrecorder_is_actived r5"
proof -
  obtain r2 r3 r4 h where p: "rec_run env (c0 # cs) (snd (wavrecorder_start env info r)) = Some r2"
      "wavrecorder_stop r2 = Some (True, r3)" "wavrecord_entry env c 0 r3 = Some r4"
      "r_threads r4 = [Rec_acked]" "r_activated r4" "r_ack r4 = \<lparr>c_flag = True, c_suspended = []\<rparr>"
    using start_wait_stop [OF assms, of c0 cs info c] by auto
  have wait: "wavrecorder_stop_wait 1 r4 = Proceed RT_EOK rt_completion_init"
    using p(6) by (simp add: wavrecorder_stop_wait_def rt_completion_wait_def rt_completion_init_def)
  let ?r = "r4\<lparr>r_ack := rt_completion_init\<rparr>"
  have start: "wavrecorder_start env info' ?r = (RT_EOK, ?r)"
    using p(5) by (simp add: wavrecorder_start_def)
  let ?r5 = "set_rec 0 None (?r\<lparr>r_activated := False\<rparr>)"
  have r5: "wavrecord_entry env c' 0 ?r = Some ?r5" "r_threads ?r5 = []" "\<not> wavrecorder_is_actived ?r5"
    using p(4) by (simp_all add: wavrecord_entry_def set_rec_def wavrecorder_is_actived_def)
  have run: "rec_run env [c] r3 = Some r4"
    using p(3) by simp
  show ?thesis
    using p(1,2) run wait start r5 by blast
qed

definition demo_rec :: rec_env where
  "demo_rec = \<lparr>mic_found = True, rec_malloc_ok = True, fopen_ok = True, mic_open = RT_EOK, event_ok = True, thread_ok = True\<rparr>"

definition demo_info :: wavrecord_info where
  "demo_info = \<lparr>info_uri = Some ''/r.wav'', info_samplerate = 8000, info_channels = 1, info_samplebits = 16\<rparr>"

lemma demo_rec_ok: "rec_ok demo_rec" "r_threads recorder_zero = []" "\<not> r_activated recorder_zero" "header_ok zero_header"
  by (simp_all add: rec_ok_def demo_rec_def recorder_zero_def zero_header_def header_ok_def)

theorem recorder_saves_file_witness:
  "\<exists>r2 r3 r4 h file. rec_run demo_rec [[], [1, 2], [3]] (snd (wavrecorder_start demo_rec demo_info recorder_zero)) = Some r2
    \<and> wavrecorder_stop r2 = Some (True, r3) \<and> rec_run demo_rec [[4]] r3 = Some r4
    \<and> r_saved r4 = [file] \<and> wavheader_read zero_header (Some file) = (0, h, Some [1, 2, 3, 4]) \<and> fmt_sample_rate h = 8000"
proof -
  have m: "mic_data ([[1, 2], [3]] @ [[4]]) = [1, 2, 3, 4]"
    by (simp add: mic_data_def WR_BUFFER_SIZE_def)
  have z: "r_saved recorder_zero = []" "info_samplerate demo_info = 8000"
    by (simp_all add: recorder_zero_def demo_info_def)
  show ?thesis
    using recorder_saves_file [OF demo_rec_ok, of "[]" "[[1, 2], [3]]" demo_info "[4]" "[]"]
    unfolding m z append_Nil by blast
qed

end
