(* ===== verification/CString.thy ===== *)
theory CString
  imports Prelude
begin

text \<open>
  C strings and the text routines the components share: \<open>rt_strstr\<close> and \<open>rt_strncpy\<close> of \<open>rt-thread/src/kservice.c\<close>, and the
  conversions \<open>atoi\<close> and \<open>strtol\<close> of the C library. A C string is the list of its characters before the NUL; an array is a
  list with its NUL in it, and \<open>c_string\<close> is the string it holds. A pointer into a string is the rest of it.
\<close>

abbreviation NUL :: char where "NUL \<equiv> CHR 0x00"

definition c_string :: "string \<Rightarrow> string" where
  "c_string buf = takeWhile (\<lambda>c. c \<noteq> NUL) buf"

lemma c_string_append [simp]: "NUL \<notin> set s \<Longrightarrow> c_string (s @ NUL # t) = s" "NUL \<notin> set s \<Longrightarrow> c_string s = s"
  unfolding c_string_def by (induction s) auto

lemma c_string_no_nul: "NUL \<notin> set (c_string s)"
  unfolding c_string_def by (induction s) auto

text \<open>
  Formatted text at position \<open>pos\<close> of an array with room for \<open>room\<close> bytes: text that does not fit is cut.
\<close>

definition print_at :: "nat \<Rightarrow> nat \<Rightarrow> string \<Rightarrow> string \<Rightarrow> string" where
  "print_at pos room out buf = (if room = 0 then buf else overwrite pos (take (room - 1) out @ [NUL]) buf)"

subsection \<open>Search\<close>

fun rt_strstr :: "string \<Rightarrow> string \<Rightarrow> string option" where
  "rt_strstr s1 s2 =
     (if length s1 < length s2 then None
      else if take (length s2) s1 = s2 then Some s1
      else case s1 of [] \<Rightarrow> None | c # s \<Rightarrow> rt_strstr s s2)"

declare rt_strstr.simps [simp del]

text \<open>The first occurrence splits the text.\<close>

lemma rt_strstr_Some: "rt_strstr s p = Some r \<Longrightarrow> \<exists>u v. s = u @ r \<and> r = p @ v"
proof (induction s p rule: rt_strstr.induct)
  case (1 s p)
  show ?case
  proof (cases "length s < length p \<or> take (length p) s = p")
    case True
    then have "s = r" "take (length p) s = p" using "1.prems" by (auto simp: rt_strstr.simps [of s] split: if_splits)
    then show ?thesis by (metis append_Nil append_take_drop_id)
  next
    case False
    then obtain c s' where s: "s = c # s'" using "1.prems" by (cases s) (auto simp: rt_strstr.simps [of "[]"])
    then have "rt_strstr s' p = Some r" using False "1.prems" by (simp add: rt_strstr.simps [of "c # s'"])
    then obtain u v where "s' = u @ r" "r = p @ v" using "1.IH" [OF _ _ s] False by auto
    then show ?thesis using s by - (rule exI [of _ "c # u"], rule exI [of _ v], simp)
  qed
qed

lemma rt_strstr_char:
  "rt_strstr s [c] = (if c \<in> set s then Some (dropWhile (\<lambda>d. d \<noteq> c) s) else None)"
  by (induction s) (auto simp: rt_strstr.simps [of _ "[c]"])

lemma rt_strstr_head: "rt_strstr (p @ s) p = Some (p @ s)"
  by (simp add: rt_strstr.simps)

lemma rt_strstr_absent: "c \<in> set p \<Longrightarrow> c \<notin> set s \<Longrightarrow> rt_strstr s p = None"
proof (induction s)
  case Nil
  then show ?case by (cases p) (simp_all add: rt_strstr.simps)
next
  case (Cons d s)
  then have "take (length p) (d # s) \<noteq> p" by (metis in_set_takeD)
  then show ?case using Cons by (simp add: rt_strstr.simps [of "d # s"])
qed

subsection \<open>Numbers\<close>

text \<open>\<open>atoi\<close> of the C library: white space, a sign, digits, cut to the range of \<open>long\<close>.\<close>

definition is_digit :: "char \<Rightarrow> bool" where
  "is_digit c \<longleftrightarrow> 48 \<le> (of_char c :: nat) \<and> (of_char c :: nat) \<le> 57"

definition is_space :: "char \<Rightarrow> bool" where
  "is_space c \<longleftrightarrow> (of_char c :: nat) = 32 \<or> 9 \<le> (of_char c :: nat) \<and> (of_char c :: nat) \<le> 13"

definition digits_value :: "string \<Rightarrow> int" where
  "digits_value s = foldl (\<lambda>n c. n * 10 + (of_char c - 48)) 0 (takeWhile is_digit s)"

definition clamp :: "int \<Rightarrow> int" where
  "clamp n = max (- (2 ^ 31)) (min (2 ^ 31 - 1) n)"

definition atoi :: "string \<Rightarrow> int" where
  "atoi s =
     (let s = dropWhile is_space s;
          n = (if s \<noteq> [] \<and> hd s = CHR ''-'' then - digits_value (tl s)
               else if s \<noteq> [] \<and> hd s = CHR ''+'' then digits_value (tl s) else digits_value s)
      in clamp n)"

text \<open>
  \<open>strtol\<close> with base 16 on an array, which need not hold a NUL: \<open>None\<close> when the digits go on to its end, where the routine would
  read on behind it.
\<close>

definition hex_value :: "char \<Rightarrow> int option" where
  "hex_value c =
     (let n = of_char c
      in if 48 \<le> n \<and> n \<le> 57 then Some (n - 48)
         else if 65 \<le> n \<and> n \<le> 70 then Some (n - 55)
         else if 97 \<le> n \<and> n \<le> 102 then Some (n - 87) else None)"

definition hex_number :: "string \<Rightarrow> int" where
  "hex_number ds = foldl (\<lambda>n c. n * 16 + the (hex_value c)) 0 ds"

definition strtol16 :: "string \<Rightarrow> int option" where
  "strtol16 buf =
     (let s = dropWhile is_space buf;
          (sg, s) = (if s \<noteq> [] \<and> hd s = CHR ''-'' then (- 1, tl s) else if s \<noteq> [] \<and> hd s = CHR ''+'' then (1, tl s) else (1, s));
          s = (if take 2 s = ''0x'' \<or> take 2 s = ''0X'' then drop 2 s else s);
          ds = takeWhile (\<lambda>c. hex_value c \<noteq> None) s
      in if length ds = length s then None else Some (clamp (sg * hex_number ds)))"

end
