(* ===== verification/OptParse.thy ===== *)
theory OptParse
  imports CString
begin

text \<open>
  The option parser of \<open>packages/optparse-v1.0.0/optparse.c\<close>, which reads the command lines of the player and the
  recorder. \<open>argv\<close> is a list of cells, a string or NULL (\<open>None\<close>); the parser permutes it so that the words that are
  no options end up behind the options. A pointer into a word is the rest of that word. \<open>None\<close> as a result is an access
  outside an array or behind the end of a word. A group of letters as in \<open>-tp\<close> is read over several calls, with the
  position in \<open>subopt\<close>. \<open>optparse_loop\<close> is the loop its callers run.
\<close>

subsection \<open>Data\<close>

datatype argtype = OPTPARSE_NONE | OPTPARSE_REQUIRED | OPTPARSE_OPTIONAL

record optparse_opt =
  longname :: "string option"
  shortname :: int
  argtype :: argtype

record optparse_t =
  argv :: "string option list"
  permute :: bool
  optind :: nat
  optopt :: int
  optarg :: "string option"
  errmsg :: string
  subopt :: nat


definition OPTPARSE_MSG_INVALID :: string where "OPTPARSE_MSG_INVALID = ''invalid option''"
definition OPTPARSE_MSG_MISSING :: string where "OPTPARSE_MSG_MISSING = ''option requires an argument''"
definition OPTPARSE_MSG_TOOMANY :: string where "OPTPARSE_MSG_TOOMANY = ''option takes no arguments''"

definition QUERY :: int where "QUERY = of_char (CHR ''?'')"

text \<open>A cell of \<open>argv\<close>, and a character of a word, whose end reads as NUL.\<close>

definition argv_at :: "optparse_t \<Rightarrow> nat \<Rightarrow> string option option" where
  "argv_at o' i = (if i < length (argv o') then Some (argv o' ! i) else None)"

definition char_at :: "string \<Rightarrow> nat \<Rightarrow> char option" where
  "char_at s i = (if i < length s then Some (s ! i) else if i = length s then Some NUL else None)"

subsection \<open>Helpers\<close>

definition optparse_error :: "optparse_t \<Rightarrow> string \<Rightarrow> string \<Rightarrow> int \<times> optparse_t" where
  "optparse_error o' msg data =
     (let p = msg @ '' -- '' @ [CHR 0x27]
      in (QUERY, o'\<lparr>errmsg := p @ take (62 - length p) data @ [CHR 0x27]\<rparr>))"

fun optparse_is_dashdash :: "string \<Rightarrow> bool" where
  "optparse_is_dashdash [a, b] = (a = CHR ''-'' \<and> b = CHR ''-'')"
| "optparse_is_dashdash _ = False"

fun optparse_is_shortopt :: "string \<Rightarrow> bool" where
  "optparse_is_shortopt (a # b # _) = (a = CHR ''-'' \<and> b \<noteq> CHR ''-'')"
| "optparse_is_shortopt _ = False"

fun optparse_is_longopt :: "string \<Rightarrow> bool" where
  "optparse_is_longopt (a # b # _ # _) = (a = CHR ''-'' \<and> b = CHR ''-'')"
| "optparse_is_longopt _ = False"

definition optparse_permute :: "nat \<Rightarrow> optparse_t \<Rightarrow> optparse_t" where
  "optparse_permute index o' =
     (let nonoption = argv o' ! index;
          moved = fold (\<lambda>i a. a[i := a ! (i + 1)]) [index ..< optind o' - 1] (argv o')
      in o'\<lparr>argv := moved[optind o' - 1 := nonoption]\<rparr>)"

text \<open>\<open>None\<close> is the result -1.\<close>

definition optparse_argtype :: "string \<Rightarrow> char \<Rightarrow> argtype option" where
  "optparse_argtype optstring c =
     (if c = CHR '':'' then None
      else case dropWhile (\<lambda>x. x \<noteq> c) optstring of
             [] \<Rightarrow> None
           | [_] \<Rightarrow> Some OPTPARSE_NONE
           | _ # x # rest \<Rightarrow>
               if x = CHR '':'' then Some (if take 1 rest = [CHR '':''] then OPTPARSE_OPTIONAL else OPTPARSE_REQUIRED)
               else Some OPTPARSE_NONE)"

definition optparse_longopts_end :: "optparse_opt \<Rightarrow> bool" where
  "optparse_longopts_end l \<longleftrightarrow> longname l = None \<and> shortname l = 0"

text \<open>The entries up to the one that ends the table.\<close>

definition entries :: "optparse_opt list \<Rightarrow> optparse_opt list" where
  "entries longopts = takeWhile (\<lambda>l. \<not> optparse_longopts_end l) longopts"

fun argtype_colons :: "argtype \<Rightarrow> string" where
  "argtype_colons OPTPARSE_NONE = []"
| "argtype_colons OPTPARSE_REQUIRED = '':''"
| "argtype_colons OPTPARSE_OPTIONAL = ''::''"

definition optparse_from_long :: "optparse_opt list \<Rightarrow> string" where
  "optparse_from_long longopts =
     concat (map (\<lambda>l. if shortname l \<noteq> 0 then char_of (shortname l) # argtype_colons (argtype l) else []) (entries longopts))"

fun match_name :: "string \<Rightarrow> string \<Rightarrow> bool" where
  "match_name [] a = (a = [] \<or> hd a = CHR ''='')"
| "match_name (_ # _) [] = False"
| "match_name (n # ns) (a # as) = (a \<noteq> CHR ''='' \<and> a = n \<and> match_name ns as)"

definition optparse_longopts_match :: "string option \<Rightarrow> string \<Rightarrow> bool" where
  "optparse_longopts_match name option = (case name of None \<Rightarrow> False | Some n \<Rightarrow> match_name n option)"

definition optparse_longopts_arg :: "string \<Rightarrow> string option" where
  "optparse_longopts_arg option =
     (case dropWhile (\<lambda>c. c \<noteq> CHR ''='') option of [] \<Rightarrow> None | _ # rest \<Rightarrow> Some rest)"

definition optparse_init :: "string option list \<Rightarrow> optparse_t" where
  "optparse_init args = \<lparr>argv = args, permute = True, optind = 1, optopt = 0, optarg = None, errmsg = [], subopt = 0\<rparr>"

subsection \<open>The next option\<close>

text \<open>The part of \<open>optparse\<close> for a word that is a group of letters.\<close>

definition optparse_letter :: "string \<Rightarrow> string \<Rightarrow> optparse_t \<Rightarrow> (int \<times> optparse_t) option" where
  "optparse_letter optstring word o' =
     (case (char_at word (subopt o' + 1), argv_at o' (optind o' + 1)) of
        (Some c, Some next) \<Rightarrow>
          let o' = o'\<lparr>optopt := of_char c\<rparr>; rest = drop (subopt o' + 2) word
          in (case optparse_argtype optstring c of
                None \<Rightarrow>
                  Some (optparse_error (o'\<lparr>optind := optind o' + 1\<rparr>) OPTPARSE_MSG_INVALID (if c = NUL then [] else [c]))
              | Some OPTPARSE_NONE \<Rightarrow>
                  Some (of_char c, if rest \<noteq> [] then o'\<lparr>subopt := subopt o' + 1\<rparr>
                                   else o'\<lparr>subopt := 0, optind := optind o' + 1\<rparr>)
              | Some OPTPARSE_REQUIRED \<Rightarrow>
                  let o' = o'\<lparr>subopt := 0, optind := optind o' + 1\<rparr>
                  in Some (if rest \<noteq> [] then (of_char c, o'\<lparr>optarg := Some rest\<rparr>)
                           else case next of
                                  Some a \<Rightarrow> (of_char c, o'\<lparr>optarg := Some a, optind := optind o' + 1\<rparr>)
                                | None \<Rightarrow> optparse_error (o'\<lparr>optarg := None\<rparr>) OPTPARSE_MSG_MISSING [c])
              | Some OPTPARSE_OPTIONAL \<Rightarrow>
                  Some (of_char c, o'\<lparr>subopt := 0, optind := optind o' + 1, optarg := (if rest \<noteq> [] then Some rest else None)\<rparr>))
      | _ \<Rightarrow> None)"

lemma argv_at_update [simp]:
  "argv_at (o'\<lparr>optind := n\<rparr>) i = argv_at o' i" "argv_at (o'\<lparr>errmsg := s\<rparr>) i = argv_at o' i"
  "argv_at (o'\<lparr>optopt := c\<rparr>) i = argv_at o' i" "argv_at (o'\<lparr>optarg := a\<rparr>) i = argv_at o' i"
  "argv_at (o'\<lparr>subopt := n\<rparr>) i = argv_at o' i"
  by (simp_all add: argv_at_def)

lemma argv_at_less: "argv_at o' i = Some x \<Longrightarrow> i < length (argv o')"
  by (simp add: argv_at_def split: if_splits)

text \<open>The results are the option's character, -1 at the end and \<open>?\<close> for an error.\<close>

function optparse :: "string \<Rightarrow> optparse_t \<Rightarrow> (int \<times> optparse_t) option" where
  "optparse optstring o' =
     (case argv_at o' (optind o') of
        None \<Rightarrow> None
      | Some cell \<Rightarrow>
          let o' = o'\<lparr>errmsg := [], optopt := 0, optarg := None\<rparr>
          in (case cell of
                None \<Rightarrow> Some (- 1, o')
              | Some word \<Rightarrow>
                  if optparse_is_dashdash word then Some (- 1, o'\<lparr>optind := optind o' + 1\<rparr>)
                  else if \<not> optparse_is_shortopt word then
                    if permute o' then
                      (case optparse optstring (o'\<lparr>optind := optind o' + 1\<rparr>) of
                         None \<Rightarrow> None
                       | Some (r, o'') \<Rightarrow>
                           let o'' = optparse_permute (optind o') o'' in Some (r, o''\<lparr>optind := optind o'' - 1\<rparr>))
                    else Some (- 1, o')
                  else optparse_letter optstring word o'))"
  by pat_completeness auto
termination
  by (relation "measure (\<lambda>(_, o'). length (argv o') - optind o')") (auto dest: argv_at_less)

declare optparse.simps [simp del]

text \<open>\<open>longindex\<close> is \<open>None\<close> for a null pointer; the string of the letters has room for 288 characters.\<close>

definition optparse_long_fallback ::
  "optparse_opt list \<Rightarrow> int option \<Rightarrow> optparse_t \<Rightarrow> (int \<times> int option \<times> optparse_t) option" where
  "optparse_long_fallback longopts longindex o' =
     (let optstring = optparse_from_long longopts
      in if length optstring > 288 then None
      else case optparse optstring o' of
             None \<Rightarrow> None
           | Some (r, o'') \<Rightarrow>
               Some (r, map_option (\<lambda>_. if r = - 1 then - 1
                          else fold (\<lambda>i k. if shortname (entries longopts ! i) = optopt o'' then int i else k)
                                 [0 ..< length (entries longopts)] (- 1)) longindex, o''))"

text \<open>A word \<open>--name\<close> or \<open>--name=arg\<close>; \<open>i\<close> counts the entries.\<close>

fun long_entries :: "string \<Rightarrow> nat \<Rightarrow> optparse_opt list \<Rightarrow> int option \<Rightarrow> optparse_t \<Rightarrow> (int \<times> int option \<times> optparse_t) option" where
  "long_entries word i [] longindex o' =
     (let (r, o') = optparse_error o' OPTPARSE_MSG_INVALID word in Some (r, longindex, o'))"
| "long_entries word i (l # ls) longindex o' =
     (if optparse_longopts_match (longname l) word then
        let longindex = map_option (\<lambda>_. int i) longindex;
            o' = o'\<lparr>optopt := shortname l\<rparr>;
            arg = optparse_longopts_arg word
        in if argtype l = OPTPARSE_NONE \<and> arg \<noteq> None then
             let (r, o') = optparse_error o' OPTPARSE_MSG_TOOMANY (the (longname l)) in Some (r, longindex, o')
           else if arg \<noteq> None then Some (optopt o', longindex, o'\<lparr>optarg := arg\<rparr>)
           else if argtype l = OPTPARSE_REQUIRED then
             (case argv_at o' (optind o') of
                None \<Rightarrow> None
              | Some None \<Rightarrow>
                  let (r, o') = optparse_error (o'\<lparr>optarg := None\<rparr>) OPTPARSE_MSG_MISSING (the (longname l))
                  in Some (r, longindex, o')
              | Some (Some a) \<Rightarrow> Some (optopt o', longindex, o'\<lparr>optarg := Some a, optind := optind o' + 1\<rparr>))
           else Some (optopt o', longindex, o')
      else long_entries word (i + 1) ls longindex o')"

function optparse_long ::
  "optparse_opt list \<Rightarrow> int option \<Rightarrow> optparse_t \<Rightarrow> (int \<times> int option \<times> optparse_t) option" where
  "optparse_long longopts longindex o' =
     (case argv_at o' (optind o') of
        None \<Rightarrow> None
      | Some None \<Rightarrow> Some (- 1, longindex, o')
      | Some (Some word) \<Rightarrow>
          if optparse_is_dashdash word then Some (- 1, longindex, o'\<lparr>optind := optind o' + 1\<rparr>)
          else if optparse_is_shortopt word then optparse_long_fallback longopts longindex o'
          else if \<not> optparse_is_longopt word then
            if permute o' then
              (case optparse_long longopts longindex (o'\<lparr>optind := optind o' + 1\<rparr>) of
                 None \<Rightarrow> None
               | Some (r, longindex, o'') \<Rightarrow>
                   let o'' = optparse_permute (optind o') o'' in Some (r, longindex, o''\<lparr>optind := optind o'' - 1\<rparr>))
            else Some (- 1, longindex, o')
          else long_entries (drop 2 word) 0 (entries longopts) longindex
                 (o'\<lparr>errmsg := [], optopt := 0, optarg := None, optind := optind o' + 1\<rparr>))"
  by pat_completeness auto
termination
  by (relation "measure (\<lambda>(_, _, o'). length (argv o') - optind o')") (auto dest: argv_at_less)

declare optparse_long.simps [simp del]

definition optparse_arg :: "optparse_t \<Rightarrow> (string option \<times> optparse_t) option" where
  "optparse_arg o' =
     (case argv_at o' (optind o') of
        None \<Rightarrow> None
      | Some word \<Rightarrow> Some (word, o'\<lparr>subopt := 0, optind := (if word \<noteq> None then optind o' + 1 else optind o')\<rparr>))"


subsection \<open>Progress\<close>

text \<open>Every call that does not end the loop moves on to another word or to the next letter of its word.\<close>

definition longest :: "string option list \<Rightarrow> nat" where
  "longest a = foldr (\<lambda>c n. max (case c of None \<Rightarrow> 0 | Some s \<Rightarrow> length s) n) a 0"

definition advances :: "optparse_t \<Rightarrow> optparse_t \<Rightarrow> bool" where
  "advances o' o'' \<longleftrightarrow> length (argv o'') = length (argv o') \<and> optind o' < length (argv o') \<and>
     (optind o' < optind o'' \<or>
      (argv o'' = argv o' \<and> optind o'' = optind o' \<and> subopt o'' = subopt o' + 1 \<and> subopt o' + 1 < longest (argv o')))"

lemma longest_ge: "Some s \<in> set a \<Longrightarrow> length s \<le> longest a"
  by (induction a) (auto simp: longest_def)

lemma length_moves [simp]: "length (fold (\<lambda>i a. a[i := a ! Suc i]) is a) = length a"
  by (induction "is" arbitrary: a) simp_all

lemma permute_fields [simp]:
  "length (argv (optparse_permute i o')) = length (argv o')" "optind (optparse_permute i o') = optind o'"
  "subopt (optparse_permute i o') = subopt o'" "optarg (optparse_permute i o') = optarg o'"
  "errmsg (optparse_permute i o') = errmsg o'" "permute (optparse_permute i o') = permute o'"
  "optopt (optparse_permute i o') = optopt o'"
  by (simp_all add: optparse_permute_def)

lemma permute_same: "optind o' = Suc i \<Longrightarrow> argv (optparse_permute i o') = argv o'"
  by (simp add: optparse_permute_def)

lemma error_fields [simp]:
  "argv (snd (optparse_error o' m d)) = argv o'" "optind (snd (optparse_error o' m d)) = optind o'"
  "subopt (snd (optparse_error o' m d)) = subopt o'" "fst (optparse_error o' m d) = QUERY"
  "optarg (snd (optparse_error o' m d)) = optarg o'" "permute (snd (optparse_error o' m d)) = permute o'"
  by (simp_all add: optparse_error_def Let_def)

lemma letter_advances:
  assumes r: "optparse_letter optstring word o' = Some (r, o'')" and w: "argv_at o' (optind o') = Some (Some word)"
  shows "advances o' o''"
proof -
  have i: "optind o' < length (argv o')" using w by (rule argv_at_less)
  have "Some word \<in> set (argv o')" using w i by (simp add: argv_at_def) (metis nth_mem)
  then have long: "length word \<le> longest (argv o')" by (rule longest_ge)
  obtain c nxt where c: "char_at word (subopt o' + 1) = Some c" "argv_at o' (optind o' + 1) = Some nxt"
    using r by (auto simp: optparse_letter_def split: option.splits)
  show ?thesis
  proof (cases "optparse_argtype optstring c")
    case None
    then show ?thesis
      using r c i by (auto simp: optparse_letter_def Let_def advances_def optparse_error_def)
  next
    case (Some ty)
    then show ?thesis
      using r c i long
      by (cases ty) (auto simp: optparse_letter_def Let_def advances_def optparse_error_def split: if_splits option.splits)
  qed
qed

lemma skip_advances:
  assumes "advances (o'\<lparr>optind := optind o' + 1\<rparr>) o''" "optind o' < length (argv o')"
  shows "advances o' ((optparse_permute (optind o') o'')\<lparr>optind := optind (optparse_permute (optind o') o'') - 1\<rparr>)"
proof (cases "optind o'' = optind o' + 1")
  case True
  then show ?thesis using assms permute_same [of o'' "optind o'"] by (simp add: advances_def)
next
  case False
  then show ?thesis using assms by (auto simp: advances_def)
qed

lemma optparse_advances:
  "optparse optstring o' = Some (r, o'') \<Longrightarrow> r \<noteq> - 1 \<Longrightarrow> advances o' o''"
proof (induction optstring o' arbitrary: r o'' rule: optparse.induct)
  case (1 optstring o')
  let ?o = "o'\<lparr>errmsg := [], optopt := 0, optarg := None\<rparr>"
  obtain word where w: "argv_at o' (optind o') = Some (Some word)" "\<not> optparse_is_dashdash word"
    using "1.prems" by (auto simp: optparse.simps [of optstring o'] Let_def split: option.splits if_splits)
  have adv: "advances o' q \<longleftrightarrow> advances ?o q" for q by (simp add: advances_def)
  have wo: "argv_at ?o (optind ?o) = Some (Some word)" using w(1) by (simp add: argv_at_def split: if_splits)
  show ?case
  proof (cases "optparse_is_shortopt word")
    case True
    then have "optparse_letter optstring word ?o = Some (r, o'')"
      using "1.prems" w by (simp add: optparse.simps [of optstring o'] Let_def)
    then show ?thesis unfolding adv using wo by (rule letter_advances)
  next
    case False
    then have p: "permute ?o" "permute o'"
      using "1.prems" w by (auto simp: optparse.simps [of optstring o'] Let_def split: if_splits)
    then obtain q where q: "optparse optstring (?o\<lparr>optind := optind ?o + 1\<rparr>) = Some (r, q)"
        "o'' = (optparse_permute (optind ?o) q)\<lparr>optind := optind (optparse_permute (optind ?o) q) - 1\<rparr>"
      using "1.prems" w False by (auto simp: optparse.simps [of optstring o'] Let_def split: option.splits)
    have "advances (?o\<lparr>optind := optind ?o + 1\<rparr>) q"
      using "1.IH" [OF w(1) refl refl w(2) False p(1) q(1) "1.prems"(2)] .
    then show ?thesis
      unfolding adv q(2) by (rule skip_advances) (use argv_at_less [OF w(1)] in simp)
  qed
qed

lemma long_entries_advances:
  assumes "long_entries word i ls li o' = Some (r, li', o'')"
  shows "length (argv o'') = length (argv o') \<and> optind o' \<le> optind o''"
  using assms
  by (induction word i ls li o' rule: long_entries.induct)
    (auto simp: Let_def optparse_error_def split: if_splits option.splits)

lemma long_advances:
  "optparse_long longopts li o' = Some (r, li', o'') \<Longrightarrow> r \<noteq> - 1 \<Longrightarrow> advances o' o''"
proof (induction longopts li o' arbitrary: r li' o'' rule: optparse_long.induct)
  case (1 longopts li o')
  obtain word where w: "argv_at o' (optind o') = Some (Some word)" "\<not> optparse_is_dashdash word"
    using "1.prems" by (auto simp: optparse_long.simps [of longopts li o'] Let_def split: option.splits if_splits)
  have i: "optind o' < length (argv o')" by (rule argv_at_less [OF w(1)])
  show ?case
  proof (cases "optparse_is_shortopt word")
    case True
    then have "optparse_long_fallback longopts li o' = Some (r, li', o'')"
      using "1.prems"(1) w by (simp add: optparse_long.simps [of longopts li o'])
    then show ?thesis
      using optparse_advances "1.prems"(2) by (auto simp: optparse_long_fallback_def Let_def split: if_splits option.splits)
  next
    case short: False
    show ?thesis
    proof (cases "optparse_is_longopt word")
      case True
      then have "long_entries (drop 2 word) 0 (entries longopts) li
          (o'\<lparr>errmsg := [], optopt := 0, optarg := None, optind := optind o' + 1\<rparr>) = Some (r, li', o'')"
        using "1.prems"(1) w short by (simp add: optparse_long.simps [of longopts li o'])
      then show ?thesis
        using long_entries_advances i by (fastforce simp: advances_def)
    next
      case False
      then have p: "permute o'"
        using "1.prems" w short by (auto simp: optparse_long.simps [of longopts li o'] split: if_splits)
      then obtain q where q: "optparse_long longopts li (o'\<lparr>optind := optind o' + 1\<rparr>) = Some (r, li', q)"
          "o'' = (optparse_permute (optind o') q)\<lparr>optind := optind (optparse_permute (optind o') q) - 1\<rparr>"
        using "1.prems"(1) w short False
        by (auto simp: optparse_long.simps [of longopts li o'] Let_def split: option.splits)
      have "advances (o'\<lparr>optind := optind o' + 1\<rparr>) q"
        using "1.IH" [OF w(1) refl w(2) short False p q(1) "1.prems"(2)] .
      then show ?thesis
        unfolding q(2) by (rule skip_advances) (rule i)
    qed
  qed
qed

text \<open>The loop \<open>while ((ch = optparse_long(&options, opts, &option_index)) != -1)\<close> with any body.\<close>

function optparse_loop ::
  "(int \<Rightarrow> optparse_t \<Rightarrow> 's \<Rightarrow> 's option) \<Rightarrow> optparse_opt list \<Rightarrow> optparse_t \<Rightarrow> 's \<Rightarrow> ('s \<times> optparse_t) option" where
  "optparse_loop body longopts o' s =
     (case optparse_long longopts (Some 0) o' of
        None \<Rightarrow> None
      | Some (ch, _, o'') \<Rightarrow>
          if ch = - 1 then Some (s, o'')
          else (case body ch o'' s of None \<Rightarrow> None | Some s' \<Rightarrow> optparse_loop body longopts o'' s'))"
  by pat_completeness auto
termination
proof (relation "measures [\<lambda>(_, _, o', _). length (argv o') - optind o', \<lambda>(_, _, o', _). longest (argv o') - subopt o']",
    goal_cases)
  case (2 body longopts o' s x ch y li o'' r)
  then show ?case using long_advances [of longopts "Some 0" o' ch li o''] by (auto simp: advances_def)
qed simp

declare optparse_loop.simps [simp del]


subsection \<open>Skipping words\<close>

definition plain :: "string \<Rightarrow> bool" where
  "plain s \<longleftrightarrow> \<not> optparse_is_dashdash s \<and> \<not> optparse_is_shortopt s \<and> \<not> optparse_is_longopt s"

text \<open>The parser is behind \<open>don\<close>, has skipped \<open>nons\<close>, and \<open>rest\<close> is what it has not seen.\<close>

definition parsing :: "string option list \<Rightarrow> string list \<Rightarrow> string option list \<Rightarrow> nat \<Rightarrow> optparse_t \<Rightarrow> bool" where
  "parsing don nons rest k o' \<longleftrightarrow> argv o' = don @ map Some nons @ rest \<and> optind o' = length don \<and> permute o'
     \<and> (\<forall>s \<in> set nons. plain s) \<and> subopt o' = k"

lemma moves_shift:
  "fold (\<lambda>i a. a[i := a ! Suc i]) [length pre ..< length pre + length mid] (pre @ x # mid @ rest)
     = pre @ mid @ last (x # mid) # rest"
proof (induction mid arbitrary: pre x)
  case (Cons m ms)
  have "[length pre ..< length pre + length (m # ms)] = length pre # [length (pre @ [m]) ..< length (pre @ [m]) + length ms]"
    by (subst upt_conv_Cons) simp_all
  then show ?case
    using Cons [of "pre @ [m]" m] by (simp add: nth_append)
qed simp

lemma permute_moves:
  assumes "argv o' = pre @ x # mid @ rest" "optind o' = length pre + 1 + length mid"
  shows "argv (optparse_permute (length pre) o') = pre @ mid @ x # rest"
  using assms moves_shift [of pre mid x rest] by (simp add: optparse_permute_def nth_append list_update_append)

lemma long_skip:
  assumes "\<forall>s \<in> set nons. plain s" "argv o' = pre @ map Some nons @ tls" "optind o' = length pre" "permute o'"
    and "optparse_long longopts li (o'\<lparr>optind := length pre + length nons\<rparr>) = Some (r, li', q)"
    and "argv q = argv o'" "optind q = length pre + length nons + n" "n \<le> length tls"
  shows "\<exists>o''. optparse_long longopts li o' = Some (r, li', o'') \<and> argv o'' = pre @ take n tls @ map Some nons @ drop n tls
    \<and> optind o'' = length pre + n \<and> subopt o'' = subopt q \<and> optarg o'' = optarg q \<and> permute o'' = permute q"
  using assms
proof (induction nons arbitrary: pre o')
  case Nil
  have same: "o'\<lparr>optind := length pre\<rparr> = o'" using Nil.prems(3) by (cases o') simp
  show ?case using Nil.prems by (simp add: same)
next
  case (Cons a nons)
  let ?o = "o'\<lparr>optind := optind o' + 1\<rparr>"
  have "\<exists>o''. optparse_long longopts li ?o = Some (r, li', o'')
      \<and> argv o'' = (pre @ [Some a]) @ take n tls @ map Some nons @ drop n tls
      \<and> optind o'' = length (pre @ [Some a]) + n \<and> subopt o'' = subopt q \<and> optarg o'' = optarg q \<and> permute o'' = permute q"
    by (rule Cons.IH) (use Cons.prems in simp_all)
  then obtain o1 where o1: "optparse_long longopts li ?o = Some (r, li', o1)"
      "argv o1 = pre @ Some a # take n tls @ (map Some nons @ drop n tls)" "optind o1 = length pre + 1 + length (take n tls)"
      "subopt o1 = subopt q" "optarg o1 = optarg q" "permute o1 = permute q"
    using Cons.prems(8) by auto
  have w: "argv_at o' (optind o') = Some (Some a)" and a: "plain a"
    using Cons.prems by (simp_all add: argv_at_def nth_append)
  have "optparse_long longopts li o' = Some (r, li', (optparse_permute (length pre) o1)\<lparr>optind := length pre + n\<rparr>)"
    using w a o1(1,3) Cons.prems(3,4,8) by (simp add: optparse_long.simps [of longopts li o'] plain_def Let_def)
  then show ?case
    using permute_moves [OF o1(2,3)] o1(4-6) by simp
qed

text \<open>A call at an option behind skipped words.\<close>

lemma parsing_step:
  assumes p: "parsing don nons rest k o'"
    and r: "optparse_long longopts li (o'\<lparr>optind := length don + length nons\<rparr>) = Some (r, li', q)"
    and q: "argv q = argv o'" "optind q = length don + length nons + n" "n \<le> length rest" "permute q"
  shows "\<exists>o''. optparse_long longopts li o' = Some (r, li', o'')
    \<and> parsing (don @ take n rest) nons (drop n rest) (subopt q) o'' \<and> optarg o'' = optarg q"
  using long_skip [OF _ _ _ _ r q(1-3)] p q(3,4) by (fastforce simp: parsing_def)

lemma parsing_word:
  assumes "parsing don nons (Some w # rest) k o'"
  shows "argv_at o' (length don + length nons) = Some (Some w)"
  using assms by (simp add: parsing_def argv_at_def nth_append)

lemma parsing_next:
  assumes "parsing don nons (w # x # rest) k o'"
  shows "argv_at o' (Suc (length don + length nons)) = Some x"
  using assms by (simp add: parsing_def argv_at_def nth_append)

subsection \<open>One option\<close>

lemma of_char_ge: "0 \<le> (of_char c :: int)"
  by (metis of_nat_0_le_iff of_nat_of_char)

lemma of_char_not_end: "(of_char c :: int) \<noteq> - 1"
  using of_char_ge [of c] by linarith

lemma letters_word: "w = CHR ''-'' # s \<Longrightarrow> s \<noteq> [] \<Longrightarrow> hd s \<noteq> CHR ''-'' \<Longrightarrow> optparse_is_shortopt w \<and> \<not> optparse_is_dashdash w"
  by (cases s; cases "tl s") auto

lemma letters_call:
  assumes p: "parsing don nons (Some (CHR ''-'' # s) # x # rest) k o'" and s: "s \<noteq> []" "hd s \<noteq> CHR ''-''"
    and tab: "length (optparse_from_long longopts) \<le> 288"
    and r: "optparse_letter (optparse_from_long longopts) (CHR ''-'' # s)
       (o'\<lparr>optind := length don + length nons, errmsg := [], optopt := 0, optarg := None\<rparr>) = Some (r, q)"
  shows "\<exists>li. optparse_long longopts (Some j) (o'\<lparr>optind := length don + length nons\<rparr>) = Some (r, li, q)"
  using parsing_word [OF p] letters_word [OF refl s] tab r
  by (simp add: optparse_long.simps [of longopts "Some j"] optparse.simps [of "optparse_from_long longopts"]
      optparse_long_fallback_def Let_def)

lemma letter_flag:
  assumes p: "parsing don nons (Some (CHR ''-'' # us @ v # vs) # x # rest) (length us) o'"
    and s: "hd (us @ [v]) \<noteq> CHR ''-''" and tab: "length (optparse_from_long longopts) \<le> 288"
    and ty: "optparse_argtype (optparse_from_long longopts) v = Some OPTPARSE_NONE"
  shows "\<exists>li o''. optparse_long longopts (Some j) o' = Some (of_char v, li, o'') \<and> optarg o'' = None
    \<and> (if vs = [] then parsing (don @ [Some (CHR ''-'' # us @ [v])]) nons (x # rest) 0 o''
       else parsing don nons (Some (CHR ''-'' # us @ v # vs) # x # rest) (length us + 1) o'')"
proof -
  have h: "us @ v # vs \<noteq> []" "hd (us @ v # vs) \<noteq> CHR ''-''" using s by (cases us; simp)+
  let ?q = "o'\<lparr>optind := length don + length nons, errmsg := [], optopt := 0, optarg := None\<rparr>"
  let ?q' = "if vs \<noteq> [] then ?q\<lparr>optopt := of_char v, subopt := length us + 1\<rparr>
    else ?q\<lparr>optopt := of_char v, subopt := 0, optind := length don + length nons + 1\<rparr>"
  have sub: "subopt o' = length us" "permute o'" using p by (simp_all add: parsing_def)
  have "optparse_letter (optparse_from_long longopts) (CHR ''-'' # us @ v # vs) ?q = Some (of_char v, ?q')"
    using sub ty parsing_next [OF p] by (simp add: optparse_letter_def char_at_def nth_append Let_def)
  from letters_call [OF p h tab this] obtain li
    where li: "optparse_long longopts (Some j) (o'\<lparr>optind := length don + length nons\<rparr>) = Some (of_char v, li, ?q')" by blast
  show ?thesis
    using parsing_step [OF p li, of "if vs = [] then 1 else 0"] sub by (cases "vs = []") auto
qed


lemma letter_arg:
  assumes p: "parsing don nons (Some (CHR ''-'' # us @ v # vs) # x # rest) (length us) o'" and vs: "vs \<noteq> []"
    and s: "hd (us @ [v]) \<noteq> CHR ''-''" and tab: "length (optparse_from_long longopts) \<le> 288"
    and ty: "optparse_argtype (optparse_from_long longopts) v \<in> {Some OPTPARSE_REQUIRED, Some OPTPARSE_OPTIONAL}"
  shows "\<exists>li o''. optparse_long longopts (Some j) o' = Some (of_char v, li, o'') \<and> optarg o'' = Some vs
    \<and> parsing (don @ [Some (CHR ''-'' # us @ v # vs)]) nons (x # rest) 0 o''"
proof -
  have h: "us @ v # vs \<noteq> []" "hd (us @ v # vs) \<noteq> CHR ''-''" using s by (cases us; simp)+
  let ?q = "o'\<lparr>optind := length don + length nons, errmsg := [], optopt := 0, optarg := None\<rparr>"
  let ?q' = "?q\<lparr>optopt := of_char v, subopt := 0, optind := length don + length nons + 1, optarg := Some vs\<rparr>"
  have sub: "subopt o' = length us" "permute o'" using p by (simp_all add: parsing_def)
  have "optparse_letter (optparse_from_long longopts) (CHR ''-'' # us @ v # vs) ?q = Some (of_char v, ?q')"
    using sub ty parsing_next [OF p] vs by (auto simp: optparse_letter_def char_at_def nth_append Let_def)
  from letters_call [OF p h tab this] obtain li
    where li: "optparse_long longopts (Some j) (o'\<lparr>optind := length don + length nons\<rparr>) = Some (of_char v, li, ?q')" by blast
  show ?thesis
    using parsing_step [OF p li, of 1] sub by auto
qed

lemma letter_sep:
  assumes p: "parsing don nons (Some (CHR ''-'' # us @ [v]) # Some a # rest) (length us) o'"
    and s: "hd (us @ [v]) \<noteq> CHR ''-''" and tab: "length (optparse_from_long longopts) \<le> 288"
    and ty: "optparse_argtype (optparse_from_long longopts) v = Some OPTPARSE_REQUIRED"
  shows "\<exists>li o''. optparse_long longopts (Some j) o' = Some (of_char v, li, o'') \<and> optarg o'' = Some a
    \<and> parsing (don @ [Some (CHR ''-'' # us @ [v]), Some a]) nons rest 0 o''"
proof -
  have h: "us @ [v] \<noteq> []" "hd (us @ [v]) \<noteq> CHR ''-''" using s by simp_all
  let ?q = "o'\<lparr>optind := length don + length nons, errmsg := [], optopt := 0, optarg := None\<rparr>"
  let ?q' = "?q\<lparr>optopt := of_char v, subopt := 0, optarg := Some a, optind := length don + length nons + 2\<rparr>"
  have sub: "subopt o' = length us" "permute o'" using p by (simp_all add: parsing_def)
  have "optparse_letter (optparse_from_long longopts) (CHR ''-'' # us @ [v]) ?q = Some (of_char v, ?q')"
    using sub ty parsing_next [OF p] by (simp add: optparse_letter_def char_at_def nth_append Let_def)
  from letters_call [OF p h tab this] obtain li
    where li: "optparse_long longopts (Some j) (o'\<lparr>optind := length don + length nons\<rparr>) = Some (of_char v, li, ?q')" by blast
  show ?thesis
    using parsing_step [OF p li, of 2] sub by auto
qed

definition entry_of :: "optparse_opt list \<Rightarrow> string \<Rightarrow> optparse_opt option" where
  "entry_of longopts n = find (\<lambda>l. longname l = Some n) (entries longopts)"

text \<open>A table whose names can be written on a command line.\<close>

definition table_ok :: "optparse_opt list \<Rightarrow> bool" where
  "table_ok longopts \<longleftrightarrow> length (optparse_from_long longopts) \<le> 288 \<and>
     (\<forall>l \<in> set (entries longopts). shortname l \<noteq> - 1 \<and>
        (case longname l of None \<Rightarrow> True | Some n \<Rightarrow> n \<noteq> [] \<and> CHR ''='' \<notin> set n))"

lemma match_name_iff: "CHR ''='' \<notin> set n \<Longrightarrow> match_name n a \<longleftrightarrow> n = takeWhile (\<lambda>c. c \<noteq> CHR ''='') a"
proof (induction n a rule: match_name.induct)
  case (1 a)
  then show ?case by (cases a) auto
qed auto

lemma long_entries_find:
  assumes "\<forall>l \<in> set ls. case longname l of None \<Rightarrow> True | Some n \<Rightarrow> CHR ''='' \<notin> set n"
    and "find (\<lambda>l. longname l = Some (takeWhile (\<lambda>c. c \<noteq> CHR ''='') word)) ls = Some l"
  shows "\<exists>k. long_entries word i ls (Some j) o' = long_entries word k [l] (Some j) o'"
  using assms
proof (induction ls arbitrary: i)
  case (Cons e ls)
  show ?case
  proof (cases "longname e = Some (takeWhile (\<lambda>c. c \<noteq> CHR ''='') word)")
    case True
    then have "e = l" "optparse_longopts_match (longname e) word"
      using Cons.prems match_name_iff by (auto simp: optparse_longopts_match_def)
    then show ?thesis by (intro exI [of _ i]) simp
  next
    case False
    then have "\<not> optparse_longopts_match (longname e) word"
      using Cons.prems(1) match_name_iff by (auto simp: optparse_longopts_match_def split: option.splits)
    moreover have "\<exists>k. long_entries word (i + 1) ls (Some j) o' = long_entries word k [l] (Some j) o'"
      by (rule Cons.IH) (use Cons.prems False in auto)
    ultimately show ?thesis by simp
  qed
qed simp

lemma long_call:
  assumes p: "parsing don nons (Some (''--'' @ word) # x # rest) k o'" and w: "word \<noteq> []" and tab: "table_ok longopts"
    and e: "entry_of longopts (takeWhile (\<lambda>c. c \<noteq> CHR ''='') word) = Some l"
  shows "\<exists>m. optparse_long longopts (Some j) (o'\<lparr>optind := length don + length nons\<rparr>) =
    long_entries word m [l] (Some j)
      (o'\<lparr>errmsg := [], optopt := 0, optarg := None, optind := length don + length nons + 1\<rparr>)"
proof -
  obtain b bs where b: "word = b # bs" using w by (cases word) simp_all
  have "\<forall>l \<in> set (entries longopts). case longname l of None \<Rightarrow> True | Some n \<Rightarrow> CHR ''='' \<notin> set n"
    using tab by (auto simp: table_ok_def split: option.splits)
  note find = long_entries_find [OF this e [unfolded entry_of_def], of 0 j
      "o'\<lparr>errmsg := [], optopt := 0, optarg := None, optind := length don + length nons + 1\<rparr>"]
  have "optparse_long longopts (Some j) (o'\<lparr>optind := length don + length nons\<rparr>) =
      long_entries word 0 (entries longopts) (Some j)
        (o'\<lparr>errmsg := [], optopt := 0, optarg := None, optind := length don + length nons + 1\<rparr>)"
    using parsing_word [OF p] b by (simp add: optparse_long.simps [of longopts "Some j"])
  then show ?thesis using find by metis
qed

lemma entry_props:
  assumes "entry_of longopts n = Some l" "table_ok longopts"
  shows "longname l = Some n" "n \<noteq> []" "CHR ''='' \<notin> set n" "shortname l \<noteq> - 1"
    "takeWhile (\<lambda>c. c \<noteq> CHR ''='') (n @ CHR ''='' # a) = n" "takeWhile (\<lambda>c. c \<noteq> CHR ''='') n = n"
    "dropWhile (\<lambda>c. c \<noteq> CHR ''='') (n @ CHR ''='' # a) = CHR ''='' # a" "dropWhile (\<lambda>c. c \<noteq> CHR ''='') n = []"
    "optparse_longopts_match (Some n) n" "optparse_longopts_match (Some n) (n @ CHR ''='' # a)"
proof -
  have l: "l \<in> set (entries longopts)" "longname l = Some n"
    using assms(1) by (auto simp: entry_of_def find_Some_iff)
  then show n: "longname l = Some n" "n \<noteq> []" "CHR ''='' \<notin> set n" "shortname l \<noteq> - 1"
    using assms(2) by (fastforce simp: table_ok_def)+
  have split: "takeWhile (\<lambda>c. c \<noteq> CHR ''='') (m @ CHR ''='' # a) = m \<and> takeWhile (\<lambda>c. c \<noteq> CHR ''='') m = m
      \<and> dropWhile (\<lambda>c. c \<noteq> CHR ''='') (m @ CHR ''='' # a) = CHR ''='' # a \<and> dropWhile (\<lambda>c. c \<noteq> CHR ''='') m = []"
    if "CHR ''='' \<notin> set m" for m
    using that by (induction m) auto
  then show tw: "takeWhile (\<lambda>c. c \<noteq> CHR ''='') (n @ CHR ''='' # a) = n" "takeWhile (\<lambda>c. c \<noteq> CHR ''='') n = n"
    "dropWhile (\<lambda>c. c \<noteq> CHR ''='') (n @ CHR ''='' # a) = CHR ''='' # a" "dropWhile (\<lambda>c. c \<noteq> CHR ''='') n = []"
    using n(3) by blast+
  show "optparse_longopts_match (Some n) n" "optparse_longopts_match (Some n) (n @ CHR ''='' # a)"
    by (simp_all add: optparse_longopts_match_def match_name_iff [OF n(3)] tw)
qed


lemma long_flag:
  assumes p: "parsing don nons (Some (''--'' @ n) # x # rest) 0 o'" and tab: "table_ok longopts"
    and e: "entry_of longopts n = Some l" "argtype l \<noteq> OPTPARSE_REQUIRED"
  shows "\<exists>li o''. optparse_long longopts (Some j) o' = Some (shortname l, li, o'') \<and> optarg o'' = None
    \<and> parsing (don @ [Some (''--'' @ n)]) nons (x # rest) 0 o''"
proof -
  note n = entry_props [OF e(1) tab]
  let ?q = "o'\<lparr>errmsg := [], optarg := None, optind := length don + length nons + 1, optopt := shortname l\<rparr>"
  obtain m where "optparse_long longopts (Some j) (o'\<lparr>optind := length don + length nons\<rparr>) =
      long_entries n m [l] (Some j) (o'\<lparr>errmsg := [], optopt := 0, optarg := None, optind := length don + length nons + 1\<rparr>)"
    using long_call [OF p n(2) tab, of l j] e(1) n(6) by auto
  then have "optparse_long longopts (Some j) (o'\<lparr>optind := length don + length nons\<rparr>) = Some (shortname l, Some (int m), ?q)"
    using n e(2) by (simp add: Let_def optparse_longopts_arg_def)
  from parsing_step [OF p this, of 1] show ?thesis
    using p by (auto simp: parsing_def)
qed

lemma long_eq:
  assumes p: "parsing don nons (Some (''--'' @ n @ CHR ''='' # a) # x # rest) 0 o'" and tab: "table_ok longopts"
    and e: "entry_of longopts n = Some l" "argtype l \<noteq> OPTPARSE_NONE"
  shows "\<exists>li o''. optparse_long longopts (Some j) o' = Some (shortname l, li, o'') \<and> optarg o'' = Some a
    \<and> parsing (don @ [Some (''--'' @ n @ CHR ''='' # a)]) nons (x # rest) 0 o''"
proof -
  note n = entry_props [OF e(1) tab]
  let ?q = "o'\<lparr>errmsg := [], optind := length don + length nons + 1, optopt := shortname l, optarg := Some a\<rparr>"
  obtain m where "optparse_long longopts (Some j) (o'\<lparr>optind := length don + length nons\<rparr>) =
      long_entries (n @ CHR ''='' # a) m [l] (Some j)
        (o'\<lparr>errmsg := [], optopt := 0, optarg := None, optind := length don + length nons + 1\<rparr>)"
    using long_call [OF p _ tab, of l j] e(1) n(5) by auto
  then have "optparse_long longopts (Some j) (o'\<lparr>optind := length don + length nons\<rparr>) = Some (shortname l, Some (int m), ?q)"
    using n e(2) by (simp add: Let_def optparse_longopts_arg_def)
  from parsing_step [OF p this, of 1] show ?thesis
    using p by (auto simp: parsing_def)
qed

lemma long_sep:
  assumes p: "parsing don nons (Some (''--'' @ n) # Some a # rest) 0 o'" and tab: "table_ok longopts"
    and e: "entry_of longopts n = Some l" "argtype l = OPTPARSE_REQUIRED"
  shows "\<exists>li o''. optparse_long longopts (Some j) o' = Some (shortname l, li, o'') \<and> optarg o'' = Some a
    \<and> parsing (don @ [Some (''--'' @ n), Some a]) nons rest 0 o''"
proof -
  note n = entry_props [OF e(1) tab]
  let ?q = "o'\<lparr>errmsg := [], optopt := shortname l, optarg := Some a, optind := length don + length nons + 2\<rparr>"
  obtain m where "optparse_long longopts (Some j) (o'\<lparr>optind := length don + length nons\<rparr>) =
      long_entries n m [l] (Some j) (o'\<lparr>errmsg := [], optopt := 0, optarg := None, optind := length don + length nons + 1\<rparr>)"
    using long_call [OF p n(2) tab, of l j] e(1) n(6) by auto
  then have "optparse_long longopts (Some j) (o'\<lparr>optind := length don + length nons\<rparr>) = Some (shortname l, Some (int m), ?q)"
    using n e(2) parsing_next [OF p] by (simp add: Let_def optparse_longopts_arg_def)
  from parsing_step [OF p this, of 2] show ?thesis
    using p by (auto simp: parsing_def)
qed

lemma plain_word:
  "plain s \<Longrightarrow> parsing don nons (Some s # rest) k o' \<Longrightarrow> parsing don (nons @ [s]) rest k o'"
  by (simp add: parsing_def)

lemma parse_end:
  assumes "parsing don nons (None # rest) k o'"
  shows "\<exists>li o''. optparse_long longopts (Some j) o' = Some (- 1, li, o'') \<and> parsing don nons (None # rest) k o''"
proof -
  have "optparse_long longopts (Some j) (o'\<lparr>optind := length don + length nons\<rparr>)
      = Some (- 1, Some j, o'\<lparr>optind := length don + length nons\<rparr>)"
    using assms by (simp add: optparse_long.simps [of longopts "Some j"] parsing_def argv_at_def nth_append)
  from parsing_step [OF assms this, of 0] show ?thesis
    using assms by (auto simp: parsing_def)
qed

lemma parse_dashdash:
  assumes "parsing don nons (Some ''--'' # rest) k o'"
  shows "\<exists>li o''. optparse_long longopts (Some j) o' = Some (- 1, li, o'') \<and> parsing (don @ [Some ''--'']) nons rest k o''"
proof -
  have "optparse_long longopts (Some j) (o'\<lparr>optind := length don + length nons\<rparr>)
      = Some (- 1, Some j, o'\<lparr>optind := length don + length nons + 1\<rparr>)"
    using parsing_word [OF assms] by (simp add: optparse_long.simps [of longopts "Some j"])
  from parsing_step [OF assms this, of 1] show ?thesis
    using assms by (auto simp: parsing_def)
qed

subsection \<open>Specification: a command line as a list of words with their meaning\<close>

datatype opt_word =
    Letters string | Letters_arg string char string | Letters_sep string char string
  | Long string | Long_eq string string | Long_sep string string | Plain string

fun words_of :: "opt_word \<Rightarrow> string list" where
  "words_of (Letters cs) = [CHR ''-'' # cs]"
| "words_of (Letters_arg cs c a) = [CHR ''-'' # cs @ c # a]"
| "words_of (Letters_sep cs c a) = [CHR ''-'' # cs @ [c], a]"
| "words_of (Long n) = [''--'' @ n]"
| "words_of (Long_eq n a) = [''--'' @ n @ CHR ''='' # a]"
| "words_of (Long_sep n a) = [''--'' @ n, a]"
| "words_of (Plain s) = [s]"

type_synonym opt_event = "int \<times> string option"

fun events_of :: "optparse_opt list \<Rightarrow> opt_word \<Rightarrow> opt_event list" where
  "events_of ops (Letters cs) = map (\<lambda>c. (of_char c, None)) cs"
| "events_of ops (Letters_arg cs c a) = map (\<lambda>c. (of_char c, None)) cs @ [(of_char c, Some a)]"
| "events_of ops (Letters_sep cs c a) = map (\<lambda>c. (of_char c, None)) cs @ [(of_char c, Some a)]"
| "events_of ops (Long n) = [(shortname (the (entry_of ops n)), None)]"
| "events_of ops (Long_eq n a) = [(shortname (the (entry_of ops n)), Some a)]"
| "events_of ops (Long_sep n a) = [(shortname (the (entry_of ops n)), Some a)]"
| "events_of ops (Plain s) = []"

definition flag_letter :: "optparse_opt list \<Rightarrow> char \<Rightarrow> bool" where
  "flag_letter ops c \<longleftrightarrow> optparse_argtype (optparse_from_long ops) c = Some OPTPARSE_NONE"

definition long_type :: "optparse_opt list \<Rightarrow> string \<Rightarrow> argtype option" where
  "long_type ops n = map_option argtype (entry_of ops n)"

fun word_ok :: "optparse_opt list \<Rightarrow> opt_word \<Rightarrow> bool" where
  "word_ok ops (Letters cs) = (cs \<noteq> [] \<and> hd cs \<noteq> CHR ''-'' \<and> list_all (flag_letter ops) cs)"
| "word_ok ops (Letters_arg cs c a) = (hd (cs @ [c]) \<noteq> CHR ''-'' \<and> list_all (flag_letter ops) cs \<and> a \<noteq> []
     \<and> optparse_argtype (optparse_from_long ops) c \<in> {Some OPTPARSE_REQUIRED, Some OPTPARSE_OPTIONAL})"
| "word_ok ops (Letters_sep cs c a) = (hd (cs @ [c]) \<noteq> CHR ''-'' \<and> list_all (flag_letter ops) cs
     \<and> optparse_argtype (optparse_from_long ops) c = Some OPTPARSE_REQUIRED)"
| "word_ok ops (Long n) = (long_type ops n \<in> {Some OPTPARSE_NONE, Some OPTPARSE_OPTIONAL})"
| "word_ok ops (Long_eq n a) = (long_type ops n \<in> {Some OPTPARSE_REQUIRED, Some OPTPARSE_OPTIONAL})"
| "word_ok ops (Long_sep n a) = (long_type ops n = Some OPTPARSE_REQUIRED)"
| "word_ok ops (Plain s) = plain s"

fun plains :: "opt_word list \<Rightarrow> string list" where
  "plains [] = []"
| "plains (Plain s # ws) = s # plains ws"
| "plains (_ # ws) = plains ws"

fun option_words :: "opt_word list \<Rightarrow> string list" where
  "option_words [] = []"
| "option_words (Plain s # ws) = option_words ws"
| "option_words (w # ws) = words_of w @ option_words ws"

text \<open>A loop body that only looks at the option and its argument.\<close>

definition on_events :: "(opt_event \<Rightarrow> 's \<Rightarrow> 's) \<Rightarrow> int \<Rightarrow> optparse_t \<Rightarrow> 's \<Rightarrow> 's option" where
  "on_events f ch o' s = Some (f (ch, optarg o') s)"

lemma loop_event:
  "optparse_long ops (Some 0) o' = Some (ch, li, o'') \<Longrightarrow> ch \<noteq> - 1
    \<Longrightarrow> optparse_loop (on_events f) ops o' s = optparse_loop (on_events f) ops o'' (f (ch, optarg o'') s)"
  by (simp add: optparse_loop.simps [of _ ops o'] on_events_def)

lemma loop_letters:
  assumes "parsing don nons (Some (CHR ''-'' # us @ cs @ t) # x # rest) (length us) o'" "t \<noteq> []"
    and "hd (us @ cs @ t) \<noteq> CHR ''-''" "length (optparse_from_long ops) \<le> 288" "list_all (flag_letter ops) cs"
  shows "\<exists>o''. optparse_loop (on_events f) ops o' s
      = optparse_loop (on_events f) ops o'' (fold f (map (\<lambda>c. (of_char c, None)) cs) s)
    \<and> parsing don nons (Some (CHR ''-'' # us @ cs @ t) # x # rest) (length (us @ cs)) o''"
  using assms
proof (induction cs arbitrary: us o' s)
  case (Cons c cs)
  have h: "hd (us @ [c]) \<noteq> CHR ''-''" using Cons.prems(3) by (cases us) auto
  have ty: "optparse_argtype (optparse_from_long ops) c = Some OPTPARSE_NONE"
    using Cons.prems(5) by (simp add: flag_letter_def)
  have p: "parsing don nons (Some (CHR ''-'' # us @ c # (cs @ t)) # x # rest) (length us) o'"
    using Cons.prems(1) by simp
  obtain li o1 where o1: "optparse_long ops (Some 0) o' = Some (of_char c, li, o1)" "optarg o1 = None"
      "parsing don nons (Some (CHR ''-'' # (us @ [c]) @ cs @ t) # x # rest) (length (us @ [c])) o1"
    using letter_flag [OF p h Cons.prems(4) ty, of 0] Cons.prems(2) by auto
  have "\<exists>o''. optparse_loop (on_events f) ops o1 (f (of_char c, None) s)
      = optparse_loop (on_events f) ops o'' (fold f (map (\<lambda>c. (of_char c, None)) cs) (f (of_char c, None) s))
    \<and> parsing don nons (Some (CHR ''-'' # (us @ [c]) @ cs @ t) # x # rest) (length ((us @ [c]) @ cs)) o''"
    by (rule Cons.IH [OF o1(3)]) (use Cons.prems in auto)
  then show ?case
    using loop_event [OF o1(1) of_char_not_end, of f s] o1(2) by simp
qed auto


lemma long_typeE:
  assumes "long_type ops n = Some ty"
  obtains l where "entry_of ops n = Some l" "argtype l = ty"
  using assms by (auto simp: long_type_def)

lemma loop_word:
  assumes p: "parsing don nons (map Some (words_of w) @ x # rest) 0 o'" and tab: "table_ok ops" and w: "word_ok ops w"
    and opt: "\<forall>s. w \<noteq> Plain s"
  shows "\<exists>o''. optparse_loop (on_events f) ops o' s = optparse_loop (on_events f) ops o'' (fold f (events_of ops w) s)
    \<and> parsing (don @ map Some (words_of w)) nons (x # rest) 0 o''"
proof (cases w)
  case (Letters cs)
  obtain us c where cs: "cs = us @ [c]" using w Letters by (cases cs rule: rev_cases) simp_all
  have q: "parsing don nons (Some (CHR ''-'' # [] @ us @ [c]) # x # rest) (length []) o'" "[c] \<noteq> []"
      "hd ([] @ us @ [c]) \<noteq> CHR ''-''" "length (optparse_from_long ops) \<le> 288" "list_all (flag_letter ops) us"
    using p w tab Letters cs by (simp_all add: table_ok_def)
  obtain o1 where o1: "optparse_loop (on_events f) ops o' s
        = optparse_loop (on_events f) ops o1 (fold f (map (\<lambda>c. (of_char c, None)) us) s)"
      "parsing don nons (Some (CHR ''-'' # us @ [c]) # x # rest) (length us) o1"
    using loop_letters [OF q, of f s] by auto
  have h: "hd (us @ [c]) \<noteq> CHR ''-''" and ty: "optparse_argtype (optparse_from_long ops) c = Some OPTPARSE_NONE"
    using w Letters cs by (simp_all add: flag_letter_def)
  obtain li o2 where o2: "optparse_long ops (Some 0) o1 = Some (of_char c, li, o2)" "optarg o2 = None"
      "parsing (don @ [Some (CHR ''-'' # us @ [c])]) nons (x # rest) 0 o2"
    using letter_flag [OF o1(2) h q(4) ty, of 0] by auto
  show ?thesis
    using o1(1) loop_event [OF o2(1) of_char_not_end] o2(2,3) Letters cs by (intro exI [of _ o2]) simp
next
  case (Letters_arg cs c a)
  have q: "parsing don nons (Some (CHR ''-'' # [] @ cs @ (c # a)) # x # rest) (length []) o'" "c # a \<noteq> []"
      "hd ([] @ cs @ c # a) \<noteq> CHR ''-''" "length (optparse_from_long ops) \<le> 288" "list_all (flag_letter ops) cs"
    using p w tab Letters_arg by (auto simp: table_ok_def hd_append)
  obtain o1 where o1: "optparse_loop (on_events f) ops o' s
        = optparse_loop (on_events f) ops o1 (fold f (map (\<lambda>c. (of_char c, None)) cs) s)"
      "parsing don nons (Some (CHR ''-'' # cs @ c # a) # x # rest) (length cs) o1"
    using loop_letters [OF q, of f s] by auto
  have h: "a \<noteq> []" "hd (cs @ [c]) \<noteq> CHR ''-''"
    and ty: "optparse_argtype (optparse_from_long ops) c \<in> {Some OPTPARSE_REQUIRED, Some OPTPARSE_OPTIONAL}"
    using w Letters_arg by simp_all
  obtain li o2 where o2: "optparse_long ops (Some 0) o1 = Some (of_char c, li, o2)" "optarg o2 = Some a"
      "parsing (don @ [Some (CHR ''-'' # cs @ c # a)]) nons (x # rest) 0 o2"
    using letter_arg [OF o1(2) h q(4) ty, of 0] by auto
  show ?thesis
    using o1(1) loop_event [OF o2(1) of_char_not_end] o2(2,3) Letters_arg by (intro exI [of _ o2]) simp
next
  case (Letters_sep cs c a)
  have q: "parsing don nons (Some (CHR ''-'' # [] @ cs @ [c]) # Some a # x # rest) (length []) o'" "[c] \<noteq> []"
      "hd ([] @ cs @ [c]) \<noteq> CHR ''-''" "length (optparse_from_long ops) \<le> 288" "list_all (flag_letter ops) cs"
    using p w tab Letters_sep by (auto simp: table_ok_def)
  obtain o1 where o1: "optparse_loop (on_events f) ops o' s
        = optparse_loop (on_events f) ops o1 (fold f (map (\<lambda>c. (of_char c, None)) cs) s)"
      "parsing don nons (Some (CHR ''-'' # cs @ [c]) # Some a # x # rest) (length cs) o1"
    using loop_letters [OF q, of f s] by auto
  have h: "hd (cs @ [c]) \<noteq> CHR ''-''" and ty: "optparse_argtype (optparse_from_long ops) c = Some OPTPARSE_REQUIRED"
    using w Letters_sep by simp_all
  obtain li o2 where o2: "optparse_long ops (Some 0) o1 = Some (of_char c, li, o2)" "optarg o2 = Some a"
      "parsing (don @ [Some (CHR ''-'' # cs @ [c]), Some a]) nons (x # rest) 0 o2"
    using letter_sep [OF o1(2) h q(4) ty, of 0] by auto
  show ?thesis
    using o1(1) loop_event [OF o2(1) of_char_not_end] o2(2,3) Letters_sep by (intro exI [of _ o2]) simp
next
  case (Long n)
  obtain l where e: "entry_of ops n = Some l" "argtype l \<noteq> OPTPARSE_REQUIRED"
    using w Long by (auto elim: long_typeE)
  have q: "parsing don nons (Some (''--'' @ n) # x # rest) 0 o'" using p Long by simp
  show ?thesis
    using long_flag [OF q tab e, of 0] loop_event [OF _ entry_props(4) [OF e(1) tab], where f = f and s = s] Long e(1)
    by fastforce
next
  case (Long_eq n a)
  obtain l where e: "entry_of ops n = Some l" "argtype l \<noteq> OPTPARSE_NONE"
    using w Long_eq by (auto elim: long_typeE)
  have q: "parsing don nons (Some (''--'' @ n @ CHR ''='' # a) # x # rest) 0 o'" using p Long_eq by simp
  show ?thesis
    using long_eq [OF q tab e, of 0] loop_event [OF _ entry_props(4) [OF e(1) tab], where f = f and s = s] Long_eq e(1)
    by fastforce
next
  case (Long_sep n a)
  obtain l where e: "entry_of ops n = Some l" "argtype l = OPTPARSE_REQUIRED"
    using w Long_sep by (auto elim: long_typeE)
  have q: "parsing don nons (Some (''--'' @ n) # Some a # x # rest) 0 o'" using p Long_sep by simp
  show ?thesis
    using long_sep [OF q tab e, of 0] loop_event [OF _ entry_props(4) [OF e(1) tab], where f = f and s = s] Long_sep e(1)
    by fastforce
next
  case (Plain s)
  then show ?thesis using opt by simp
qed

text \<open>The end of the options: NULL, or \<open>--\<close> and more words.\<close>

definition end_cells :: "string list option \<Rightarrow> string option list \<Rightarrow> string option list" where
  "end_cells extra pad = (case extra of None \<Rightarrow> pad | Some ss \<Rightarrow> Some ''--'' # map Some ss @ pad)"

lemma option_words_cons:
  "(\<forall>s. w \<noteq> Plain s) \<Longrightarrow> option_words (w # ws) = words_of w @ option_words ws \<and> plains (w # ws) = plains ws"
  by (cases w) simp_all

lemma loop_words:
  assumes "parsing don nons (map Some (concat (map words_of ws)) @ end_cells extra (None # pad)) 0 o'"
    and "table_ok ops" "list_all (word_ok ops) ws"
  shows "\<exists>o''. optparse_loop (on_events f) ops o' s = Some (fold f (concat (map (events_of ops) ws)) s, o'')
    \<and> parsing (don @ map Some (option_words ws @ (if extra = None then [] else [''--'']))) (nons @ plains ws)
        (map Some (case extra of None \<Rightarrow> [] | Some ss \<Rightarrow> ss) @ None # pad) 0 o''"
  using assms
proof (induction ws arbitrary: don nons o' s)
  case Nil
  show ?case
  proof (cases extra)
    case None
    then show ?thesis
      using parse_end [of don nons pad 0 o' ops 0] Nil
      by (auto simp: optparse_loop.simps [of _ ops o'] end_cells_def)
  next
    case (Some ss)
    then show ?thesis
      using parse_dashdash [of don nons "map Some ss @ None # pad" 0 o' ops 0] Nil
      by (auto simp: optparse_loop.simps [of _ ops o'] end_cells_def)
  qed
next
  case (Cons w ws)
  let ?rest = "map Some (concat (map words_of ws)) @ end_cells extra (None # pad)"
  obtain x xs where x: "?rest = x # xs"
    by (cases ?rest) (simp_all add: end_cells_def split: option.splits)
  show ?case
  proof (cases "\<exists>s'. w = Plain s'")
    case True
    then obtain s' where w: "w = Plain s'" by blast
    then have "parsing don (nons @ [s']) ?rest 0 o'"
      using Cons.prems by (auto intro: plain_word)
    then show ?thesis
      using Cons.IH [of don "nons @ [s']" o' s] Cons.prems w by simp
  next
    case False
    have p: "parsing don nons (map Some (words_of w) @ x # xs) 0 o'"
      using Cons.prems(1) x by simp
    obtain o1 where o1: "optparse_loop (on_events f) ops o' s = optparse_loop (on_events f) ops o1 (fold f (events_of ops w) s)"
        "parsing (don @ map Some (words_of w)) nons (x # xs) 0 o1"
      using loop_word [OF p Cons.prems(2), of f s] Cons.prems(3) False by auto
    show ?thesis
      using Cons.IH [OF o1(2) [folded x] Cons.prems(2), of "fold f (events_of ops w) s"] Cons.prems(3) o1(1)
        option_words_cons [of w ws] False
      by auto
  qed
qed


text \<open>Without a NULL behind the words the parser leaves the array.\<close>

lemma parse_out: "parsing don nons [] k o' \<Longrightarrow> optparse_long ops li o' = None"
proof (induction nons arbitrary: don o')
  case Nil
  then show ?case by (simp add: optparse_long.simps [of ops li o'] parsing_def argv_at_def)
next
  case (Cons s nons)
  then have "argv_at o' (optind o') = Some (Some s)" "plain s" "permute o'"
    by (simp_all add: parsing_def argv_at_def nth_append)
  moreover have "parsing (don @ [Some s]) nons [] k (o'\<lparr>optind := optind o' + 1\<rparr>)"
    using Cons.prems by (simp add: parsing_def)
  ultimately show ?case
    using Cons.IH by (simp add: optparse_long.simps [of ops li o'] plain_def)
qed

lemma loop_words_out:
  assumes "parsing don nons (map Some (concat (map words_of ws)) @ [Some s0]) 0 o'" "table_ok ops"
    "list_all (word_ok ops) ws" "plain s0"
  shows "optparse_loop (on_events f) ops o' s = None"
  using assms
proof (induction ws arbitrary: don nons o' s)
  case Nil
  then have "parsing don (nons @ [s0]) [] 0 o'" by (auto intro: plain_word)
  then show ?case by (simp add: optparse_loop.simps [of _ ops o'] parse_out)
next
  case (Cons w ws)
  let ?rest = "map Some (concat (map words_of ws)) @ [Some s0]"
  obtain x xs where x: "?rest = x # xs" by (cases ?rest) simp_all
  show ?case
  proof (cases "\<exists>s'. w = Plain s'")
    case True
    then obtain s' where w: "w = Plain s'" by blast
    then have "parsing don (nons @ [s']) ?rest 0 o'"
      using Cons.prems by (auto intro: plain_word)
    then show ?thesis
      using Cons.IH [of don "nons @ [s']" o' s] Cons.prems w by simp
  next
    case False
    have p: "parsing don nons (map Some (words_of w) @ x # xs) 0 o'"
      using Cons.prems(1) x by simp
    obtain o1 where o1: "optparse_loop (on_events f) ops o' s = optparse_loop (on_events f) ops o1 (fold f (events_of ops w) s)"
        "parsing (don @ map Some (words_of w)) nons (x # xs) 0 o1"
      using loop_word [OF p Cons.prems(2), of f s] Cons.prems(3) False by auto
    show ?thesis
      using Cons.IH [OF o1(2) [folded x] Cons.prems(2)] Cons.prems(3,4) o1(1) by simp
  qed
qed

lemma optparse_reads_command_line_core:
  assumes "table_ok ops" "list_all (word_ok ops) ws"
  shows "\<exists>o'. optparse_loop (on_events f) ops
        (optparse_init (Some prog # map Some (concat (map words_of ws)) @ end_cells extra (None # pad))) s
      = Some (fold f (concat (map (events_of ops) ws)) s, o')
    \<and> argv o' = map Some (prog # option_words ws @ (if extra = None then [] else [''--'']) @ plains ws
        @ (case extra of None \<Rightarrow> [] | Some ss \<Rightarrow> ss)) @ None # pad
    \<and> optind o' = 1 + length (option_words ws) + (if extra = None then 0 else 1)"
proof -
  let ?o = "optparse_init (Some prog # map Some (concat (map words_of ws)) @ end_cells extra (None # pad))"
  have "parsing [Some prog] [] (map Some (concat (map words_of ws)) @ end_cells extra (None # pad)) 0 ?o"
    by (simp add: parsing_def optparse_init_def)
  from loop_words [OF this assms, of f s] show ?thesis
    by (auto simp: parsing_def)
qed

subsection \<open>Properties\<close>

text \<open>C14. A command line is read as what it says: words that are groups of letters, options with their argument attached,
  behind \<open>=\<close> or in the next word, and other words, in any order and optionally cut by \<open>--\<close>, give their options with
  their arguments in order. Afterwards the words that are no options stand in order behind the options, where
  \<open>optind\<close> points.\<close>

theorem optparse_reads_command_line:
  assumes "table_ok ops" "list_all (word_ok ops) ws"
  shows "\<exists>o'. optparse_loop (on_events f) ops
        (optparse_init (Some prog # map Some (concat (map words_of ws)) @ end_cells extra (None # pad))) s
      = Some (fold f (concat (map (events_of ops) ws)) s, o')
    \<and> argv o' = map Some (prog # option_words ws @ (if extra = None then [] else [''--'']) @ plains ws
        @ (case extra of None \<Rightarrow> [] | Some ss \<Rightarrow> ss)) @ None # pad
    \<and> optind o' = 1 + length (option_words ws) + (if extra = None then 0 else 1)"
  by (rule optparse_reads_command_line_core [OF assms])

definition demo_opts :: "optparse_opt list" where
  "demo_opts = [\<lparr>longname = Some ''start'', shortname = of_char (CHR ''s''), argtype = OPTPARSE_REQUIRED\<rparr>,
     \<lparr>longname = Some ''stop'', shortname = of_char (CHR ''t''), argtype = OPTPARSE_NONE\<rparr>,
     \<lparr>longname = None, shortname = 0, argtype = OPTPARSE_NONE\<rparr>]"

lemma demo_opts_ok: "table_ok demo_opts"
  by (simp add: table_ok_def demo_opts_def entries_def optparse_longopts_end_def optparse_from_long_def)

lemma demo_chars: "char_of (115 :: int) = CHR ''s''" "char_of (116 :: int) = CHR ''t''"
  by (simp_all add: char_of_def)

lemma demo_letters: "optparse_argtype (optparse_from_long demo_opts) (CHR ''s'') = Some OPTPARSE_REQUIRED"
  "flag_letter demo_opts (CHR ''t'')" "optparse_argtype (optparse_from_long demo_opts) (CHR ''x'') = None"
  by (simp_all add: flag_letter_def demo_opts_def entries_def optparse_longopts_end_def optparse_from_long_def
      optparse_argtype_def demo_chars)

theorem optparse_reads_command_line_witness:
  "\<exists>o'. optparse_loop (on_events (\<lambda>e es. es @ [e])) demo_opts
      (optparse_init (map Some [''wav'', ''8000'', ''-tsf.wav'', ''--stop'', ''16''] @ [None])) []
    = Some ([(of_char (CHR ''t''), None), (of_char (CHR ''s''), Some ''f.wav''), (of_char (CHR ''t''), None)], o')
    \<and> argv o' = map Some [''wav'', ''-tsf.wav'', ''--stop'', ''8000'', ''16''] @ [None]"
proof -
  let ?ws = "[Plain ''8000'', Letters_arg ''t'' (CHR ''s'') ''f.wav'', Long ''stop'', Plain ''16'']"
  have e: "entry_of demo_opts ''stop'' = Some \<lparr>longname = Some ''stop'', shortname = of_char (CHR ''t''), argtype = OPTPARSE_NONE\<rparr>"
    by (simp add: entry_of_def demo_opts_def entries_def optparse_longopts_end_def)
  have ok: "list_all (word_ok demo_opts) ?ws"
    by (simp add: demo_letters plain_def long_type_def e)
  show ?thesis
    using optparse_reads_command_line [OF demo_opts_ok ok, of "\<lambda>e es. es @ [e]" "''wav''" None "[]" "[]"]
    by (auto simp: end_cells_def e)
qed

text \<open>C15. Every call that does not end the loop makes progress in a well-founded order, whatever is on the command line: it
  moves to a later word, or to a later letter of its word, which the length of the longest word bounds. So the loop
  of every caller ends.\<close>

theorem optparse_call_progress:
  assumes "optparse_long longopts li o' = Some (r, li', o'')" "r \<noteq> - 1"
  shows "(o'', o') \<in> measures [\<lambda>q. length (argv q) - optind q, \<lambda>q. longest (argv q) - subopt q]"
  using long_advances [OF assms] by (auto simp: advances_def)

lemma demo_stop_call:
  "\<exists>li o''. optparse_long demo_opts (Some 0) (optparse_init [Some ''wav'', Some ''-t'', None]) = Some (of_char (CHR ''t''), li, o'')"
proof -
  have p: "parsing [Some ''wav''] [] (Some (CHR ''-'' # [] @ CHR ''t'' # []) # None # []) (length [])
      (optparse_init [Some ''wav'', Some ''-t'', None])"
    by (simp add: parsing_def optparse_init_def)
  have h: "hd ([] @ [CHR ''t'']) \<noteq> CHR ''-''" by simp
  show ?thesis
    using letter_flag [OF p h _ demo_letters(2) [unfolded flag_letter_def], of 0] demo_opts_ok by (auto simp: table_ok_def)
qed

theorem optparse_call_progress_witness:
  "\<exists>li o''. optparse_long demo_opts (Some 0) (optparse_init [Some ''wav'', Some ''-t'', None]) = Some (of_char (CHR ''t''), li, o'')
    \<and> (o'', optparse_init [Some ''wav'', Some ''-t'', None])
        \<in> measures [\<lambda>q. length (argv q) - optind q, \<lambda>q. longest (argv q) - subopt q]"
proof -
  obtain li o'' where o: "optparse_long demo_opts (Some 0) (optparse_init [Some ''wav'', Some ''-t'', None])
      = Some (of_char (CHR ''t''), li, o'')"
    using demo_stop_call by blast
  from optparse_call_progress [OF this of_char_not_end] o show ?thesis by blast
qed

text \<open>An unknown letter inside a group leaves \<open>subopt\<close> where it is although the word is given up: if the next option is
  shorter than that, the following call reads behind its end, and no loop over the command line survives.\<close>

lemma optparse_unknown_letter:
  assumes "table_ok ops" "us \<noteq> []" "hd us \<noteq> CHR ''-''" "list_all (flag_letter ops) us"
    and "optparse_argtype (optparse_from_long ops) c = None"
    and "optparse_is_shortopt w" "length w \<le> length us"
  shows "optparse_loop (on_events f) ops (optparse_init (map Some [prog, CHR ''-'' # us @ c # vs, w] @ None # pad)) s = None"
proof -
  let ?o = "optparse_init (map Some [prog, CHR ''-'' # us @ c # vs, w] @ None # pad)"
  have tab: "length (optparse_from_long ops) \<le> 288" using assms(1) by (simp add: table_ok_def)
  have p: "parsing [Some prog] [] (Some (CHR ''-'' # [] @ us @ c # vs) # Some w # None # pad) (length []) ?o"
    by (simp add: parsing_def optparse_init_def)
  have h: "hd ([] @ us @ c # vs) \<noteq> CHR ''-''" "hd (us @ c # vs) \<noteq> CHR ''-''" "us @ c # vs \<noteq> []"
    using assms(2,3) by simp_all
  obtain o1 where o1: "optparse_loop (on_events f) ops ?o s
        = optparse_loop (on_events f) ops o1 (fold f (map (\<lambda>c. (of_char c, None)) us) s)"
      "parsing [Some prog] [] (Some (CHR ''-'' # us @ c # vs) # Some w # None # pad) (length us) o1"
    using loop_letters [OF p _ h(1) tab assms(4), of f s] by auto
  let ?q = "o1\<lparr>optind := length [Some prog] + length ([] :: string list), errmsg := [], optopt := 0, optarg := None\<rparr>"
  let ?e = "optparse_error (?q\<lparr>optopt := of_char c, optind := 2\<rparr>) OPTPARSE_MSG_INVALID (if c = NUL then [] else [c])"
  have sub: "subopt o1 = length us" "permute o1" "optind o1 = 1"
      "argv o1 = [Some prog, Some (CHR ''-'' # us @ c # vs), Some w, None] @ pad"
    using o1(2) by (simp_all add: parsing_def)
  have "optparse_letter (optparse_from_long ops) (CHR ''-'' # us @ c # vs) ?q = Some (QUERY, snd ?e)"
    using sub assms(5) parsing_next [OF o1(2)]
    by (simp add: optparse_letter_def char_at_def nth_append Let_def optparse_error_def)
  from letters_call [OF o1(2) h(3,2) tab this] obtain li where
    li: "optparse_long ops (Some 0) (o1\<lparr>optind := length [Some prog] + length ([] :: string list)\<rparr>) = Some (QUERY, li, snd ?e)"
    by blast
  have same: "o1\<lparr>optind := 1\<rparr> = o1" using sub(3) by (cases o1) simp
  have call: "optparse_long ops (Some 0) o1 = Some (QUERY, li, snd ?e)"
    using li by (simp add: same [simplified])
  define e where "e = snd ?e"
  have e: "argv_at e (optind e) = Some (Some w)" "subopt e = length us"
    using sub by (simp_all add: e_def argv_at_def)
  have dd: "\<not> optparse_is_dashdash w" using assms(6) by (cases w rule: optparse_is_dashdash.cases) auto
  have "optparse_long ops (Some 0) e = None"
    using e dd assms(6,7) tab
    by (simp add: optparse_long.simps [of ops "Some 0" e] optparse_long_fallback_def optparse.simps [of _ e]
        optparse_letter_def char_at_def Let_def)
  then have "optparse_loop (on_events f) ops e s' = None" for s'
    by (simp add: optparse_loop.simps [of _ ops e])
  moreover have "QUERY \<noteq> - 1" unfolding QUERY_def by (rule of_char_not_end)
  ultimately show ?thesis
    using o1(1) loop_event [OF call [folded e_def]] by metis
qed

end
