(* ===== verification/PlayerCmd.thy ===== *)
theory PlayerCmd
  imports OptParse WavPlayer WavRecorder
begin

text \<open>
  The shell commands \<open>wavplay\<close> and \<open>wavrecord\<close> of \<open>packages/wavplayer-v0.2.0/src/wavplayer_cmd.c\<close> and
  \<open>wavrecorder_cmd.c\<close>: their option tables, the loops over the options, and the calls of the player and the recorder they make.
  A player call is started here (\<open>call_op\<close>); the steps of \<open>WavPlayer\<close> carry it out. The usage text is not modelled.
\<close>

subsection \<open>The option tables\<close>

definition option_entry :: "string \<Rightarrow> char \<Rightarrow> argtype \<Rightarrow> optparse_opt" where
  "option_entry name c ty = \<lparr>longname = Some name, shortname = of_char c, argtype = ty\<rparr>"

definition end_entry :: optparse_opt where
  "end_entry = \<lparr>longname = None, shortname = 0, argtype = OPTPARSE_NONE\<rparr>"

definition wavplay_opts :: "optparse_opt list" where
  "wavplay_opts =
     [option_entry ''help'' (CHR ''h'') OPTPARSE_NONE,
      option_entry ''start'' (CHR ''s'') OPTPARSE_REQUIRED,
      option_entry ''stop'' (CHR ''t'') OPTPARSE_NONE,
      option_entry ''pause'' (CHR ''p'') OPTPARSE_NONE,
      option_entry ''resume'' (CHR ''r'') OPTPARSE_NONE,
      option_entry ''volume'' (CHR ''v'') OPTPARSE_REQUIRED,
      option_entry ''dump'' (CHR ''d'') OPTPARSE_NONE,
      end_entry]"

definition wavrecord_opts :: "optparse_opt list" where
  "wavrecord_opts =
     [option_entry ''help'' (CHR ''h'') OPTPARSE_NONE,
      option_entry ''start'' (CHR ''s'') OPTPARSE_REQUIRED,
      option_entry ''stop'' (CHR ''t'') OPTPARSE_NONE,
      end_entry]"

subsection \<open>The player command\<close>

datatype wavplayer_action =
    WAVPLAYER_ACTION_HELP | WAVPLAYER_ACTION_START | WAVPLAYER_ACTION_STOP | WAVPLAYER_ACTION_PAUSE
  | WAVPLAYER_ACTION_RESUME | WAVPLAYER_ACTION_VOLUME | WAVPLAYER_ACTION_DUMP

record wavplay_args =
  pa_action :: wavplayer_action
  pa_uri :: "string option"
  pa_volume :: int

definition wavplay_args_zero :: wavplay_args where
  "wavplay_args_zero = \<lparr>pa_action = WAVPLAYER_ACTION_HELP, pa_uri = None, pa_volume = 0\<rparr>"

text \<open>The switch in the loop; the state is the arguments, \<open>action_cnt\<close> and \<open>result\<close>.\<close>

fun wavplay_case :: "opt_event \<Rightarrow> wavplay_args \<times> u8 \<times> rt_err \<Rightarrow> wavplay_args \<times> u8 \<times> rt_err" where
  "wavplay_case (ch, arg) (a, cnt, result) =
     (if ch = of_char (CHR ''h'') then (a\<lparr>pa_action := WAVPLAYER_ACTION_HELP\<rparr>, cnt, result)
      else if ch = of_char (CHR ''s'') then (a\<lparr>pa_action := WAVPLAYER_ACTION_START, pa_uri := arg\<rparr>, cnt + 1, result)
      else if ch = of_char (CHR ''t'') then (a\<lparr>pa_action := WAVPLAYER_ACTION_STOP\<rparr>, cnt + 1, result)
      else if ch = of_char (CHR ''p'') then (a\<lparr>pa_action := WAVPLAYER_ACTION_PAUSE\<rparr>, cnt + 1, result)
      else if ch = of_char (CHR ''r'') then (a\<lparr>pa_action := WAVPLAYER_ACTION_RESUME\<rparr>, cnt + 1, result)
      else if ch = of_char (CHR ''v'') then
        (a\<lparr>pa_action := WAVPLAYER_ACTION_VOLUME, pa_volume := (case arg of None \<Rightarrow> - 1 | Some s \<Rightarrow> atoi s)\<rparr>, cnt + 1, result)
      else if ch = of_char (CHR ''d'') then (a\<lparr>pa_action := WAVPLAYER_ACTION_DUMP\<rparr>, cnt, result)
      else (a, cnt, RT_EINVAL))"

definition wavplay_args_prase :: "nat \<Rightarrow> string option list \<Rightarrow> wavplay_args \<Rightarrow> (rt_err \<times> wavplay_args) option" where
  "wavplay_args_prase argc args a =
     (if argc = 1 then Some (RT_EOK, a\<lparr>pa_action := WAVPLAYER_ACTION_HELP\<rparr>)
      else map_option (\<lambda>((a, cnt, result), _). (if cnt > 1 then RT_EINVAL else result, a))
             (optparse_loop (on_events wavplay_case) wavplay_opts (optparse_init args) (a, 0, RT_EOK)))"

definition state_str :: "string list" where
  "state_str = [''STOPPED'', ''PLAYING'', ''PAUSED'']"

primrec state_index :: "player_state \<Rightarrow> nat" where
  "state_index PLAYER_STATE_STOPED = 0"
| "state_index PLAYER_STATE_PLAYING = 1"
| "state_index PLAYER_STATE_PAUSED = 2"

definition dump_status :: "wavplayer \<Rightarrow> string option \<times> string \<times> int" where
  "dump_status p = (wavplayer_uri_get p, state_str ! state_index (wavplayer_state_get p), wavplayer_volume_get p)"

text \<open>Thread \<open>i\<close> runs the command; a null uri would be a null access.\<close>

definition wav_player ::
  "player_env \<Rightarrow> nat \<Rightarrow> nat \<Rightarrow> string option list \<Rightarrow> wavplayer \<Rightarrow> (rt_err \<times> wavplayer) option" where
  "wav_player env i argc args p =
     (case wavplay_args_prase argc args wavplay_args_zero of
        None \<Rightarrow> None
      | Some (result, a) \<Rightarrow>
          if result \<noteq> RT_EOK then Some (result, p)
          else (case pa_action a of
                  WAVPLAYER_ACTION_HELP \<Rightarrow> Some (result, p)
                | WAVPLAYER_ACTION_START \<Rightarrow> map_option (\<lambda>u. (result, call_op i (Op_play u) p)) (pa_uri a)
                | WAVPLAYER_ACTION_STOP \<Rightarrow> Some (result, call_op i Op_stop p)
                | WAVPLAYER_ACTION_PAUSE \<Rightarrow> Some (result, call_op i Op_pause p)
                | WAVPLAYER_ACTION_RESUME \<Rightarrow> Some (result, call_op i Op_resume p)
                | WAVPLAYER_ACTION_VOLUME \<Rightarrow> Some (result, snd (wavplayer_volume_set env (pa_volume a) p))
                | WAVPLAYER_ACTION_DUMP \<Rightarrow> Some (result, p)))"

subsection \<open>The recorder command\<close>

datatype wavrecorder_action = WAVRECORDER_ACTION_HELP | WAVRECORDER_ACTION_START | WAVRECORDER_ACTION_STOP

record wavrecord_args =
  ra_action :: wavrecorder_action
  ra_file :: "string option"
  ra_samplerate :: u16
  ra_channels :: u16
  ra_samplebits :: u16

definition wavrecord_args_zero :: wavrecord_args where
  "wavrecord_args_zero = \<lparr>ra_action = WAVRECORDER_ACTION_HELP, ra_file = None, ra_samplerate = 0, ra_channels = 0,
     ra_samplebits = 0\<rparr>"

text \<open>\<open>argv[k]\<close> as a number.\<close>

definition argv_number :: "optparse_t \<Rightarrow> nat \<Rightarrow> int \<Rightarrow> u16 option" where
  "argv_number o' k dflt =
     map_option (\<lambda>cell. word_of_int (case cell of None \<Rightarrow> dflt | Some s \<Rightarrow> atoi s)) (argv_at o' k)"

definition wavrecord_case ::
  "int \<Rightarrow> optparse_t \<Rightarrow> wavrecord_args \<times> rt_err \<Rightarrow> (wavrecord_args \<times> rt_err) option" where
  "wavrecord_case ch o' = (\<lambda>(a, result).
     if ch = of_char (CHR ''h'') then Some (a\<lparr>ra_action := WAVRECORDER_ACTION_HELP\<rparr>, result)
     else if ch = of_char (CHR ''s'') then
       (case (argv_number o' 3 8000, argv_number o' 4 2, argv_number o' 5 16) of
          (Some rate, Some channels, Some bits) \<Rightarrow>
            Some (a\<lparr>ra_action := WAVRECORDER_ACTION_START, ra_file := optarg o', ra_samplerate := rate,
                     ra_channels := channels, ra_samplebits := bits\<rparr>, result)
        | _ \<Rightarrow> None)
     else if ch = of_char (CHR ''t'') then Some (a\<lparr>ra_action := WAVRECORDER_ACTION_STOP\<rparr>, result)
     else Some (a, RT_EINVAL))"

definition wavrecord_args_prase ::
  "nat \<Rightarrow> string option list \<Rightarrow> wavrecord_args \<Rightarrow> (rt_err \<times> wavrecord_args) option" where
  "wavrecord_args_prase argc args a =
     (if argc = 1 then Some (RT_EOK, a\<lparr>ra_action := WAVRECORDER_ACTION_HELP\<rparr>)
      else map_option (\<lambda>((a, result), _). (result, a))
             (optparse_loop wavrecord_case wavrecord_opts (optparse_init args) (a, RT_EOK)))"

text \<open>\<open>wavrecorder_stop\<close> is run up to its wait.\<close>

definition wav_recorder ::
  "rec_env \<Rightarrow> nat \<Rightarrow> string option list \<Rightarrow> recorder \<Rightarrow> (rt_err \<times> recorder) option" where
  "wav_recorder env argc args r =
     (case wavrecord_args_prase argc args wavrecord_args_zero of
        None \<Rightarrow> None
      | Some (result, a) \<Rightarrow>
          if result \<noteq> RT_EOK then Some (result, r)
          else (case ra_action a of
                  WAVRECORDER_ACTION_HELP \<Rightarrow> Some (result, r)
                | WAVRECORDER_ACTION_START \<Rightarrow>
                    Some (result, snd (wavrecorder_start env
                      \<lparr>info_uri = ra_file a, info_samplerate = ucast (ra_samplerate a), info_channels = ra_channels a,
                       info_samplebits = ra_samplebits a\<rparr> r))
                | WAVRECORDER_ACTION_STOP \<Rightarrow> map_option (\<lambda>(_, r). (result, r)) (wavrecorder_stop r)))"


subsection \<open>What a command line of the player says\<close>

datatype player_cmd = Cmd_help | Cmd_play string | Cmd_stop | Cmd_pause | Cmd_resume | Cmd_volume string | Cmd_dump

text \<open>The spellings of a command.\<close>

fun spells :: "player_cmd \<Rightarrow> opt_word \<Rightarrow> bool" where
  "spells Cmd_help w = (w \<in> {Letters ''h'', Long ''help''})"
| "spells (Cmd_play u) w =
     (w \<in> {Letters_sep [] (CHR ''s'') u, Long_eq ''start'' u, Long_sep ''start'' u} \<or> u \<noteq> [] \<and> w = Letters_arg [] (CHR ''s'') u)"
| "spells Cmd_stop w = (w \<in> {Letters ''t'', Long ''stop''})"
| "spells Cmd_pause w = (w \<in> {Letters ''p'', Long ''pause''})"
| "spells Cmd_resume w = (w \<in> {Letters ''r'', Long ''resume''})"
| "spells (Cmd_volume v) w =
     (w \<in> {Letters_sep [] (CHR ''v'') v, Long_eq ''volume'' v, Long_sep ''volume'' v} \<or> v \<noteq> [] \<and> w = Letters_arg [] (CHR ''v'') v)"
| "spells Cmd_dump w = (w \<in> {Letters ''d'', Long ''dump''})"

primrec is_plain :: "opt_word \<Rightarrow> bool" where
  "is_plain (Plain s) = True"
| "is_plain (Letters cs) = False"
| "is_plain (Letters_arg cs c a) = False"
| "is_plain (Letters_sep cs c a) = False"
| "is_plain (Long n) = False"
| "is_plain (Long_eq n a) = False"
| "is_plain (Long_sep n a) = False"

definition line_says :: "player_cmd list \<Rightarrow> opt_word list \<Rightarrow> bool" where
  "line_says cmds ws \<longleftrightarrow> list_all2 spells cmds (filter (\<lambda>w. \<not> is_plain w) ws)
     \<and> list_all (\<lambda>w. is_plain w \<longrightarrow> word_ok wavplay_opts w) ws"

fun counted :: "player_cmd \<Rightarrow> bool" where
  "counted Cmd_help = False"
| "counted Cmd_dump = False"
| "counted _ = True"

fun player_does :: "player_env \<Rightarrow> nat \<Rightarrow> player_cmd \<Rightarrow> wavplayer \<Rightarrow> wavplayer" where
  "player_does env i (Cmd_play u) p = call_op i (Op_play u) p"
| "player_does env i Cmd_stop p = call_op i Op_stop p"
| "player_does env i Cmd_pause p = call_op i Op_pause p"
| "player_does env i Cmd_resume p = call_op i Op_resume p"
| "player_does env i (Cmd_volume v) p = snd (wavplayer_volume_set env (atoi v) p)"
| "player_does env i _ p = p"

fun cmd_event :: "player_cmd \<Rightarrow> opt_event" where
  "cmd_event Cmd_help = (of_char (CHR ''h''), None)"
| "cmd_event (Cmd_play u) = (of_char (CHR ''s''), Some u)"
| "cmd_event Cmd_stop = (of_char (CHR ''t''), None)"
| "cmd_event Cmd_pause = (of_char (CHR ''p''), None)"
| "cmd_event Cmd_resume = (of_char (CHR ''r''), None)"
| "cmd_event (Cmd_volume v) = (of_char (CHR ''v''), Some v)"
| "cmd_event Cmd_dump = (of_char (CHR ''d''), None)"

lemma char_codes:
  "char_of (100 :: int) = CHR ''d''" "char_of (104 :: int) = CHR ''h''" "char_of (112 :: int) = CHR ''p''"
  "char_of (114 :: int) = CHR ''r''" "char_of (115 :: int) = CHR ''s''" "char_of (116 :: int) = CHR ''t''"
  "char_of (118 :: int) = CHR ''v''"
  by (simp_all add: char_of_def)

lemma wavplay_entries: "entries wavplay_opts = butlast wavplay_opts"
  by (simp add: entries_def wavplay_opts_def option_entry_def end_entry_def optparse_longopts_end_def)

lemma wavplay_letters: "optparse_from_long wavplay_opts = ''hs:tprv:d''"
  unfolding optparse_from_long_def wavplay_entries
  by (simp add: wavplay_opts_def option_entry_def end_entry_def char_codes)

lemma wavplay_table: "table_ok wavplay_opts"
  unfolding table_ok_def wavplay_letters wavplay_entries
  by (simp add: wavplay_opts_def option_entry_def end_entry_def)

lemma wavplay_types:
  "optparse_argtype ''hs:tprv:d'' (CHR ''h'') = Some OPTPARSE_NONE" "optparse_argtype ''hs:tprv:d'' (CHR ''s'') = Some OPTPARSE_REQUIRED"
  "optparse_argtype ''hs:tprv:d'' (CHR ''t'') = Some OPTPARSE_NONE" "optparse_argtype ''hs:tprv:d'' (CHR ''p'') = Some OPTPARSE_NONE"
  "optparse_argtype ''hs:tprv:d'' (CHR ''r'') = Some OPTPARSE_NONE" "optparse_argtype ''hs:tprv:d'' (CHR ''v'') = Some OPTPARSE_REQUIRED"
  "optparse_argtype ''hs:tprv:d'' (CHR ''d'') = Some OPTPARSE_NONE"
  by (simp_all add: optparse_argtype_def)

lemma wavplay_names:
  "entry_of wavplay_opts ''help'' = Some (option_entry ''help'' (CHR ''h'') OPTPARSE_NONE)"
  "entry_of wavplay_opts ''start'' = Some (option_entry ''start'' (CHR ''s'') OPTPARSE_REQUIRED)"
  "entry_of wavplay_opts ''stop'' = Some (option_entry ''stop'' (CHR ''t'') OPTPARSE_NONE)"
  "entry_of wavplay_opts ''pause'' = Some (option_entry ''pause'' (CHR ''p'') OPTPARSE_NONE)"
  "entry_of wavplay_opts ''resume'' = Some (option_entry ''resume'' (CHR ''r'') OPTPARSE_NONE)"
  "entry_of wavplay_opts ''volume'' = Some (option_entry ''volume'' (CHR ''v'') OPTPARSE_REQUIRED)"
  "entry_of wavplay_opts ''dump'' = Some (option_entry ''dump'' (CHR ''d'') OPTPARSE_NONE)"
  unfolding entry_of_def wavplay_entries by (simp_all add: wavplay_opts_def option_entry_def)

lemma spells_event:
  assumes "spells c w"
  shows "word_ok wavplay_opts w \<and> events_of wavplay_opts w = [cmd_event c] \<and> \<not> is_plain w"
  using assms
  by (cases c) (auto simp: flag_letter_def wavplay_letters wavplay_types long_type_def wavplay_names option_entry_def)

lemma line_events:
  assumes "line_says cmds ws"
  shows "list_all (word_ok wavplay_opts) ws \<and> concat (map (events_of wavplay_opts) ws) = map cmd_event cmds"
  using assms
proof (induction ws arbitrary: cmds)
  case (Cons w ws)
  show ?case
  proof (cases "is_plain w")
    case True
    then have "line_says cmds ws" "events_of wavplay_opts w = []" "word_ok wavplay_opts w"
      using Cons.prems by (cases w; simp add: line_says_def)+
    then show ?thesis using Cons.IH by simp
  next
    case False
    then obtain c cs where c: "cmds = c # cs" "spells c w" "line_says cs ws"
      using Cons.prems by (auto simp: line_says_def list_all2_Cons2)
    then show ?thesis using Cons.IH [OF c(3)] spells_event [OF c(2)] by simp
  qed
qed (simp add: line_says_def)

text \<open>The arguments the loop has collected for the commands so far, the last one first.\<close>

fun collected :: "player_cmd list \<Rightarrow> wavplay_args" where
  "collected [] = wavplay_args_zero"
| "collected (c # cs) = fst (wavplay_case (cmd_event c) (collected cs, 0, RT_EOK))"

lemma wavplay_case_cmd:
  "wavplay_case (cmd_event c) (a, n, r) = (fst (wavplay_case (cmd_event c) (a, 0, RT_EOK)), if counted c then n + 1 else n, r)"
  by (cases c) simp_all

lemma fold_cmds:
  "fold wavplay_case (map cmd_event cmds) (wavplay_args_zero, 0, RT_EOK)
     = (collected (rev cmds), of_nat (length (filter counted cmds)), RT_EOK)"
proof (induction cmds rule: rev_induct)
  case (snoc c cmds)
  then show ?case using wavplay_case_cmd [of c "collected (rev cmds)" "of_nat (length (filter counted cmds))"] by simp
qed simp

lemma wavplay_prase:
  assumes "line_says cmds ws" "argc \<noteq> 1"
  shows "wavplay_args_prase argc (Some prog # map Some (concat (map words_of ws)) @ None # pad) wavplay_args_zero
    = Some (if (of_nat (length (filter counted cmds)) :: u8) > 1 then RT_EINVAL else RT_EOK, collected (rev cmds))"
  using optparse_reads_command_line_core [OF wavplay_table, of ws wavplay_case prog None pad "(wavplay_args_zero, 0, RT_EOK)"]
    line_events [OF assms(1)] assms(2) fold_cmds [of cmds]
  by (auto simp: wavplay_args_prase_def end_cells_def)


lemma collected_last:
  "pa_action (collected (c # cs)) = pa_action (fst (wavplay_case (cmd_event c) (wavplay_args_zero, 0, RT_EOK)))"
  "pa_uri (collected (Cmd_play u # cs)) = Some u" "pa_volume (collected (Cmd_volume v # cs)) = atoi v"
  by (cases c; simp)+

lemma words_not_empty: "ws \<noteq> [] \<Longrightarrow> length (concat (map words_of ws)) \<noteq> 0"
proof (induction ws)
  case (Cons w ws)
  then show ?case by (cases w) auto
qed simp

text \<open>The player command does what its line says: for every mix of commands in any of their spellings and of other words,
  it makes the call of the last command, or none for an empty list; and it rejects the line with \<open>-RT_EINVAL\<close>, doing
  nothing, exactly if more than one of start, stop, pause, resume and volume is on it. (Fewer than 256 of them:
  \<open>action_cnt\<close> has 8 bits.)\<close>

lemma wavplay_command_core:
  assumes "line_says cmds ws" "ws \<noteq> []" "length (filter counted cmds) < 256"
  shows "wav_player env i (1 + length (concat (map words_of ws)))
      (Some prog # map Some (concat (map words_of ws)) @ None # pad) p
    = Some (if 1 < length (filter counted cmds) then (RT_EINVAL, p)
            else (RT_EOK, if cmds = [] then p else player_does env i (last cmds) p))"
proof -
  let ?argc = "1 + length (concat (map words_of ws))"
  let ?args = "Some prog # map Some (concat (map words_of ws)) @ None # pad"
  have argc: "?argc \<noteq> 1" using words_not_empty [OF assms(2)] by simp
  have "(of_nat (length (filter counted cmds)) :: u8) > 1 \<longleftrightarrow> 1 < length (filter counted cmds)"
    using assms(3) by (simp add: word_less_nat_alt unat_of_nat)
  then have prase: "wavplay_args_prase ?argc ?args wavplay_args_zero
      = Some (if 1 < length (filter counted cmds) then RT_EINVAL else RT_EOK, collected (rev cmds))"
    using wavplay_prase [OF assms(1) argc] by simp
  show ?thesis
  proof (cases cmds rule: rev_cases)
    case Nil
    then show ?thesis using prase by (simp add: wav_player_def wavplay_args_zero_def)
  next
    case (snoc cs c)
    then have "wavplay_args_prase ?argc ?args wavplay_args_zero
        = Some (if 1 < length (filter counted cmds) then RT_EINVAL else RT_EOK, collected (c # rev cs))"
      using prase by simp
    then show ?thesis
      using snoc collected_last(1) [of c "rev cs"] collected_last(2) [of _ "rev cs"] collected_last(3) [of _ "rev cs"]
      by (cases c) (simp_all add: wav_player_def del: collected.simps)
  qed
qed

subsection \<open>What a command line of the recorder says\<close>

lemma wavrecord_entries: "entries wavrecord_opts = butlast wavrecord_opts"
  by (simp add: entries_def wavrecord_opts_def option_entry_def end_entry_def optparse_longopts_end_def)

lemma wavrecord_letters: "optparse_from_long wavrecord_opts = ''hs:t''"
  unfolding optparse_from_long_def wavrecord_entries
  by (simp add: wavrecord_opts_def option_entry_def end_entry_def char_codes)

lemma wavrecord_table: "table_ok wavrecord_opts"
  unfolding table_ok_def wavrecord_letters wavrecord_entries
  by (simp add: wavrecord_opts_def option_entry_def end_entry_def)

lemma wavrecord_s: "optparse_argtype ''hs:t'' (CHR ''s'') = Some OPTPARSE_REQUIRED"
  by (simp add: optparse_argtype_def)

lemma wavrecord_start: "entry_of wavrecord_opts ''start'' = Some (option_entry ''start'' (CHR ''s'') OPTPARSE_REQUIRED)"
  unfolding entry_of_def wavrecord_entries by (simp add: wavrecord_opts_def option_entry_def)

lemma record_words_end:
  assumes "parsing don [] (map Some ws @ None # pad) 0 o'" "\<forall>w \<in> set ws. plain w"
  shows "\<exists>o''. optparse_loop body ops o' s = Some (s, o'')"
proof -
  have "parsing don ws (None # pad) 0 o'"
    using assms by (simp add: parsing_def)
  from parse_end [OF this, of ops 0] show ?thesis
    by (auto simp: optparse_loop.simps [of body ops o'])
qed

text \<open>After the start option has been read with \<open>argv\<close> unchanged.\<close>

lemma record_start_event:
  assumes call: "optparse_long wavrecord_opts (Some 0) (optparse_init args) = Some (of_char (CHR ''s''), li, o')" "optarg o' = Some f"
    and p: "parsing don [] (map Some ws @ None # pad) 0 o'" "\<forall>w \<in> set ws. plain w"
    and n: "argv_number o' 3 8000 = Some rate" "argv_number o' 4 2 = Some channels" "argv_number o' 5 16 = Some bits"
    and argc: "argc \<noteq> 1"
  shows "wav_recorder env argc args r = Some (RT_EOK, snd (wavrecorder_start env
    \<lparr>info_uri = Some f, info_samplerate = ucast rate, info_channels = channels, info_samplebits = bits\<rparr> r))"
proof -
  let ?a = "wavrecord_args_zero\<lparr>ra_action := WAVRECORDER_ACTION_START, ra_file := Some f, ra_samplerate := rate,
    ra_channels := channels, ra_samplebits := bits\<rparr>"
  have "wavrecord_case (of_char (CHR ''s'')) o' (wavrecord_args_zero, RT_EOK) = Some (?a, RT_EOK)"
    using n call(2) by (simp add: wavrecord_case_def)
  then have "optparse_loop wavrecord_case wavrecord_opts (optparse_init args) (wavrecord_args_zero, RT_EOK)
      = optparse_loop wavrecord_case wavrecord_opts o' (?a, RT_EOK)"
    using call(1) of_char_not_end [of "CHR ''s''"] by (simp add: optparse_loop.simps [of _ _ "optparse_init args"])
  moreover obtain o'' where "optparse_loop wavrecord_case wavrecord_opts o' (?a, RT_EOK) = Some ((?a, RT_EOK), o'')"
    using record_words_end [OF p, of wavrecord_case wavrecord_opts "(?a, RT_EOK)"] by blast
  ultimately show ?thesis
    using argc by (simp add: wav_recorder_def wavrecord_args_prase_def)
qed

subsection \<open>Properties\<close>

text \<open>The numbers of the recorder command are taken from \<open>argv[3]\<close> to \<open>argv[5]\<close>. With \<open>-s file\<close> they are the three words
  behind the file; with \<open>--start=file\<close>, the other form its usage text gives, they are the second and third of these words
  and a default: the rate is what the user gave as the number of channels.\<close>

lemma wavrecord_start_forms:
  assumes "plain rate" "plain channels" "plain bits"
  shows "wav_recorder env 6 (map Some [prog, ''-s'', f, rate, channels, bits] @ None # pad) r
      = Some (RT_EOK, snd (wavrecorder_start env \<lparr>info_uri = Some f, info_samplerate = ucast (word_of_int (atoi rate) :: u16),
          info_channels = word_of_int (atoi channels), info_samplebits = word_of_int (atoi bits)\<rparr> r))
    \<and> wav_recorder env 5 (map Some [prog, ''--start='' @ f, rate, channels, bits] @ None # pad) r
      = Some (RT_EOK, snd (wavrecorder_start env \<lparr>info_uri = Some f, info_samplerate = ucast (word_of_int (atoi channels) :: u16),
          info_channels = word_of_int (atoi bits), info_samplebits = 16\<rparr> r))"
proof
  let ?args = "map Some [prog, ''-s'', f, rate, channels, bits] @ None # pad"
  have p: "parsing [Some prog] [] (Some (CHR ''-'' # [] @ [CHR ''s'']) # Some f # map Some [rate, channels, bits] @ None # pad)
      (length []) (optparse_init ?args)"
    by (simp add: parsing_def optparse_init_def)
  have tab: "length (optparse_from_long wavrecord_opts) \<le> 288" using wavrecord_table by (simp add: table_ok_def)
  obtain li o' where o': "optparse_long wavrecord_opts (Some 0) (optparse_init ?args) = Some (of_char (CHR ''s''), li, o')"
      "optarg o' = Some f"
      "parsing ([Some prog] @ [Some (CHR ''-'' # [] @ [CHR ''s'']), Some f]) [] (map Some [rate, channels, bits] @ None # pad) 0 o'"
    using letter_sep [OF p _ tab, of 0] wavrecord_s unfolding wavrecord_letters by auto
  show "wav_recorder env 6 ?args r
      = Some (RT_EOK, snd (wavrecorder_start env \<lparr>info_uri = Some f, info_samplerate = ucast (word_of_int (atoi rate) :: u16),
          info_channels = word_of_int (atoi channels), info_samplebits = word_of_int (atoi bits)\<rparr> r))"
    by (rule record_start_event [OF o'])
      (use assms o'(3) in \<open>simp_all add: argv_number_def argv_at_def parsing_def eval_nat_numeral\<close>)
next
  let ?args = "map Some [prog, ''--start='' @ f, rate, channels, bits] @ None # pad"
  have p: "parsing [Some prog] [] (Some (''--'' @ ''start'' @ CHR ''='' # f) # Some rate # map Some [channels, bits] @ None # pad) 0
      (optparse_init ?args)"
    by (simp add: parsing_def optparse_init_def)
  obtain li o' where o': "optparse_long wavrecord_opts (Some 0) (optparse_init ?args) = Some (of_char (CHR ''s''), li, o')"
      "optarg o' = Some f"
      "parsing ([Some prog] @ [Some (''--'' @ ''start'' @ CHR ''='' # f)]) [] (map Some [rate, channels, bits] @ None # pad) 0 o'"
    using long_eq [OF p wavrecord_table wavrecord_start, of 0] by (auto simp: option_entry_def)
  show "wav_recorder env 5 ?args r
      = Some (RT_EOK, snd (wavrecorder_start env \<lparr>info_uri = Some f, info_samplerate = ucast (word_of_int (atoi channels) :: u16),
          info_channels = word_of_int (atoi bits), info_samplebits = 16\<rparr> r))"
    by (rule record_start_event [OF o'])
      (use assms o'(3) in \<open>simp_all add: argv_number_def argv_at_def parsing_def eval_nat_numeral\<close>)
qed

lemma demo_numbers: "atoi ''8000'' = 8000" "atoi ''1'' = 1" "atoi ''16'' = 16"
  by (simp_all add: atoi_def clamp_def digits_value_def is_digit_def is_space_def)

end
