(* ===== verification/Msh.thy ===== *)
theory Msh
  imports PlayerCmd
begin

text \<open>
  The shell of \<open>rt-thread/components/finsh/msh.c\<close> from a typed line to the call of a command: \<open>msh_split\<close>, \<open>msh_get_cmd\<close>,
  \<open>_msh_exec_cmd\<close> and the beginning of \<open>msh_exec\<close>. A line is the characters before its NUL; the pointers that
  \<open>msh_split\<close> stores are the words they point to after the blanks have been overwritten. A command is a function from
  \<open>argc\<close>, \<open>argv\<close> and a state to a code and a new state, or \<open>None\<close> for an invalid access.
\<close>

subsection \<open>Splitting a line\<close>

definition FINSH_ARG_MAX :: nat where "FINSH_ARG_MAX = 10"

definition blank :: "char \<Rightarrow> bool" where
  "blank c \<longleftrightarrow> c = CHR '' '' \<or> c = CHR 0x09"

abbreviation quote :: char where "quote \<equiv> CHR 0x22"
abbreviation backslash :: char where "backslash \<equiv> CHR 0x5C"

text \<open>The inside of a quoted word, and what follows the closing quote, if there is one.\<close>

fun msh_string :: "string \<Rightarrow> string \<times> string option" where
  "msh_string [] = ([], None)"
| "msh_string [c] = (if c = quote then ([], Some []) else ([c], None))"
| "msh_string (c # d # s) =
     (if c = quote then ([], Some (d # s))
      else if c = backslash \<and> d = quote then (let (w, rest) = msh_string s in (c # d # w, rest))
      else (let (w, rest) = msh_string (d # s) in (c # w, rest)))"

lemma msh_string_less: "snd (msh_string s) = Some r \<Longrightarrow> length r < length s"
  by (induction s rule: msh_string.induct) (auto simp: case_prod_unfold Let_def split: if_splits)

function msh_split :: "nat \<Rightarrow> string \<Rightarrow> string list" where
  "msh_split argc s =
     (let s = dropWhile blank s
      in if argc \<ge> FINSH_ARG_MAX \<or> s = [] then []
         else if hd s = quote then
           (case msh_string (tl s) of
              (w, None) \<Rightarrow> [w]
            | (w, Some r) \<Rightarrow> w # msh_split (argc + 1) r)
         else takeWhile (\<lambda>c. \<not> blank c) s # msh_split (argc + 1) (dropWhile (\<lambda>c. \<not> blank c) s))"
  by pat_completeness auto
termination
proof (relation "measure (\<lambda>(_, s). length s)", goal_cases)
  case (2 argc s x w r a)
  then have "length a < length (tl (dropWhile blank s))"
    using msh_string_less [of "tl (dropWhile blank s)" a] by (metis snd_conv)
  also have "\<dots> \<le> length s"
    using length_dropWhile_le [of blank s] by simp
  finally show ?case by simp
next
  case (3 argc s x)
  then obtain c t where c: "dropWhile blank s = c # t" by (cases "dropWhile blank s") auto
  then have "\<not> blank c" using hd_dropWhile [of blank s] by auto
  then have "length (dropWhile (\<lambda>c. \<not> blank c) (dropWhile blank s)) \<le> length t"
    using c length_dropWhile_le [of "\<lambda>c. \<not> blank c" t] by simp
  moreover have "Suc (length t) \<le> length s"
    using c length_dropWhile_le [of blank s] by simp
  ultimately show ?case using 3 by simp
qed simp

declare msh_split.simps [simp del]

subsection \<open>Running a command\<close>

type_synonym 's command = "nat \<Rightarrow> string option list \<Rightarrow> 's \<Rightarrow> (rt_err \<times> 's) option"

text \<open>The entries of the table of the shell's system calls with a command's name.\<close>

definition msh_get_cmd :: "(string \<times> 's command) list \<Rightarrow> string \<Rightarrow> 's command option" where
  "msh_get_cmd table cmd = map_option snd (find (\<lambda>(name, _). take 6 name = ''__cmd_'' \<and> drop 6 name = cmd) table)"

datatype 's exec = No_command | Ran rt_err 's | Exec_fault

definition msh_exec_cmd :: "(string \<times> 's command) list \<Rightarrow> string \<Rightarrow> 's \<Rightarrow> 's exec" where
  "msh_exec_cmd table cmd s =
     (let name = takeWhile (\<lambda>c. \<not> blank c) cmd
      in if name = [] then No_command
      else case msh_get_cmd table name of
             None \<Rightarrow> No_command
           | Some func \<Rightarrow>
               let words = msh_split 0 cmd; argc = length words
               in if argc = 0 then No_command
                  else (case func argc (map Some words @ replicate (FINSH_ARG_MAX - argc) None) s of
                          None \<Rightarrow> Exec_fault
                        | Some (r, s') \<Rightarrow> Ran r s'))"

definition msh_exec :: "(string \<times> 's command) list \<Rightarrow> string \<Rightarrow> 's \<Rightarrow> 's exec" where
  "msh_exec table cmd s =
     (let cmd = dropWhile blank cmd in if cmd = [] then Ran RT_EOK s else msh_exec_cmd table cmd s)"

subsection \<open>Splitting typed words\<close>

text \<open>A word as it can be typed: not empty, without blanks, and not starting with a quote.\<close>

definition typable :: "string \<Rightarrow> bool" where
  "typable w \<longleftrightarrow> w \<noteq> [] \<and> list_all (\<lambda>c. \<not> blank c) w \<and> hd w \<noteq> quote"

fun typed :: "string list \<Rightarrow> string" where
  "typed [] = []"
| "typed [w] = w"
| "typed (w # ws) = w @ CHR '' '' # typed ws"

lemma typable_split:
  assumes "typable w" "argc < FINSH_ARG_MAX"
  shows "msh_split argc (w @ CHR '' '' # s) = w # msh_split (argc + 1) s" "msh_split argc w = [w]"
proof -
  obtain c t where w: "w = c # t" "\<not> blank c" "list_all (\<lambda>c. \<not> blank c) t" "c \<noteq> quote"
    using assms(1) by (cases w) (auto simp: typable_def)
  have b: "blank (CHR '' '')" by (simp add: blank_def)
  have all: "\<forall>x \<in> set t. \<not> blank x" using w(3) by (simp add: list_all_iff)
  have "msh_split argc (w @ CHR '' '' # s) = w # msh_split (argc + 1) (CHR '' '' # s)"
    using w assms(2) all b by (simp add: msh_split.simps [of argc] takeWhile_append dropWhile_append)
  moreover have "msh_split (argc + 1) (CHR '' '' # s) = msh_split (argc + 1) s"
    by (subst (1 2) msh_split.simps) (simp add: b)
  ultimately show "msh_split argc (w @ CHR '' '' # s) = w # msh_split (argc + 1) s" by simp
  have e: "msh_split (argc + 1) [] = []" by (simp add: msh_split.simps)
  have "takeWhile (\<lambda>c. \<not> blank c) t = t" "dropWhile (\<lambda>c. \<not> blank c) t = []"
    using all by (simp_all add: takeWhile_eq_all_conv)
  note ends = this
  show "msh_split argc w = [w]"
    using w(1,2,4) assms(2) e by (simp add: msh_split.simps [of argc] ends)
qed

lemma split_typed: "list_all typable ws \<Longrightarrow> argc \<le> FINSH_ARG_MAX \<Longrightarrow> msh_split argc (typed ws) = take (FINSH_ARG_MAX - argc) ws"
proof (induction ws arbitrary: argc rule: typed.induct)
  case 1
  then show ?case by (simp add: msh_split.simps)
next
  case (2 w)
  then show ?case
    using typable_split(2) [of w argc] by (cases "argc = FINSH_ARG_MAX") (simp_all add: msh_split.simps [of FINSH_ARG_MAX] take_Cons')
next
  case (3 w v ws)
  show ?case
  proof (cases "argc = FINSH_ARG_MAX")
    case True
    then show ?thesis by (simp add: msh_split.simps)
  next
    case False
    then have "msh_split argc (typed (w # v # ws)) = w # msh_split (argc + 1) (typed (v # ws))"
      using 3 typable_split(1) [of w argc] by simp
    moreover have "FINSH_ARG_MAX - argc = Suc (FINSH_ARG_MAX - (argc + 1))"
      using False 3 by simp
    ultimately show ?thesis using 3 False by simp
  qed
qed


lemma exec_typed:
  assumes "list_all typable (name # ws)" "length ws < 10" "msh_get_cmd table name = Some func"
  shows "msh_exec table (typed (name # ws)) s =
    (case func (1 + length ws) (map Some (name # ws) @ replicate (9 - length ws) None) s of
       None \<Rightarrow> Exec_fault | Some (r, s') \<Rightarrow> Ran r s')"
proof -
  obtain c t where n: "name = c # t" "\<not> blank c" "\<forall>x \<in> set t. \<not> blank x"
    using assms(1) by (cases name) (auto simp: typable_def list_all_iff)
  let ?line = "typed (name # ws)"
  have b: "blank (CHR '' '')" by (simp add: blank_def)
  have line: "?line = c # tl ?line"
    using n(1) by (cases ws) simp_all
  have drop: "dropWhile blank ?line = ?line" "?line \<noteq> []"
    using line n(2) by (metis dropWhile.simps(2), metis list.distinct(1))
  have tw: "takeWhile (\<lambda>c. \<not> blank c) t = t" using n(3) by (simp add: takeWhile_eq_all_conv)
  have name: "takeWhile (\<lambda>c. \<not> blank c) ?line = name"
    using n b tw by (cases ws) (simp_all add: takeWhile_append)
  have split: "msh_split 0 ?line = name # ws"
    using split_typed [OF assms(1), of 0] assms(2) by (simp add: FINSH_ARG_MAX_def)
  have ne: "name \<noteq> []" using n(1) by simp
  show ?thesis
    using ne assms(2,3) unfolding msh_exec_def msh_exec_cmd_def Let_def drop(1) name split
    by (simp add: drop(2) FINSH_ARG_MAX_def)
qed

lemma counted_words: "line_says cmds ws \<Longrightarrow> length (filter counted cmds) \<le> length (concat (map words_of ws))"
proof (induction ws arbitrary: cmds)
  case (Cons w ws)
  have w: "1 \<le> length (words_of w)" by (cases w) simp_all
  show ?case
  proof (cases "is_plain w")
    case True
    then have "line_says cmds ws" using Cons.prems by (simp add: line_says_def)
    then show ?thesis using Cons.IH by fastforce
  next
    case False
    then obtain c cs where c: "cmds = c # cs" "line_says cs ws"
      using Cons.prems by (auto simp: line_says_def list_all2_Cons2)
    then show ?thesis using Cons.IH [OF c(2)] w by simp
  qed
qed (simp add: line_says_def)

subsection \<open>Properties\<close>

text \<open>C13. From the keyboard to the player: a typed line \<open>wavplay\<close> with at most eight more words is split, found in the table,
  parsed and carried out as \<open>wavplay_command\<close> says: the call of its last command is made, and a line with two
  commands that exclude each other is refused.\<close>

theorem typed_player_command:
  assumes "msh_get_cmd table name = Some (wav_player env i)" "line_says cmds ws" "ws \<noteq> []"
    and "list_all typable (name # concat (map words_of ws))" "length (concat (map words_of ws)) < 9"
  shows "msh_exec table (typed (name # concat (map words_of ws))) p =
    (if 1 < length (filter counted cmds) then Ran RT_EINVAL p
     else Ran RT_EOK (if cmds = [] then p else player_does env i (last cmds) p))"
proof -
  let ?ws = "concat (map words_of ws)"
  have "replicate (9 - length ?ws) None = (None :: string option) # replicate (8 - length ?ws) None"
    using assms(5) by (simp add: Suc_diff_le [symmetric] flip: replicate_Suc)
  moreover have "length (filter counted cmds) < 256"
    using counted_words [OF assms(2)] assms(5) by linarith
  ultimately show ?thesis
    using exec_typed [OF assms(4) _ assms(1), of p] assms(5)
      wavplay_command_core [OF assms(2,3), of env i name "replicate (8 - length ?ws) None" p]
    by simp
qed

definition demo_table :: "(string \<times> wavplayer command) list" where
  "demo_table = [(''__cmd_wavplay'', wav_player demo_env 1)]"

theorem typed_player_command_witness:
  "msh_exec demo_table ''wavplay -s /a.wav'' player_zero = Ran RT_EOK (call_op 1 (Op_play ''/a.wav'') player_zero)"
proof -
  have t: "msh_get_cmd demo_table ''wavplay'' = Some (wav_player demo_env 1)"
    by (simp add: demo_table_def msh_get_cmd_def)
  have l: "line_says [Cmd_play ''/a.wav''] [Letters_sep [] (CHR ''s'') ''/a.wav'']"
    by (simp add: line_says_def)
  have ty: "list_all typable (''wavplay'' # concat (map words_of [Letters_sep [] (CHR ''s'') ''/a.wav'']))"
    by (simp add: typable_def blank_def)
  show ?thesis
    using typed_player_command [OF t l _ ty, of player_zero] by simp
qed

text \<open>The array of the words has ten cells, so a line of ten words leaves no NULL behind them, and the parser, which
  looks for it, reads behind the array: whatever the nine words say, if the last one is no option, the command makes
  an invalid access.\<close>

lemma shell_ten_words:
  assumes "msh_get_cmd table name = Some (wav_player env i)" "list_all (word_ok wavplay_opts) ws" "plain s"
    and "list_all typable (name # concat (map words_of ws) @ [s])" "length (concat (map words_of ws)) = 8"
  shows "msh_exec table (typed (name # concat (map words_of ws) @ [s])) p = Exec_fault"
proof -
  let ?ws = "concat (map words_of ws) @ [s]"
  have "parsing [Some name] [] (map Some (concat (map words_of ws)) @ [Some s]) 0 (optparse_init (map Some (name # ?ws)))"
    by (simp add: parsing_def optparse_init_def)
  from loop_words_out [OF this wavplay_table assms(2,3), of wavplay_case "(wavplay_args_zero, 0, RT_EOK)"]
  have "wav_player env i (1 + length ?ws) (map Some (name # ?ws)) p = None"
    using assms(5) by (simp add: wav_player_def wavplay_args_prase_def)
  then show ?thesis
    using exec_typed [OF assms(4) _ assms(1), of p] assms(5) by simp
qed

end
