(* ===== verification/CJson.thy ===== *)
theory CJson
  imports Prelude Complex_Main
begin

text \<open>
  Parser and printer of the JSON library \<open>packages/cJSON-v1.0.2/cJSON.c\<close>, which reads the song list of the web server. A
  text is the list of its characters before the NUL, and a pointer into it is the rest of the list; reading behind the NUL or
  writing behind an allocated block is \<open>Bad\<close>, and \<open>Overflow\<close> when printing. The links \<open>next\<close> and \<open>prev\<close> of the
  children of an item are the order of the list \<open>child\<close>; reference items, which share children, are not modelled. Memory is a
  number of allocations that still succeed. Printing is modelled without a print buffer. A \<open>double\<close> is a real number; what the
  hardware and the C library do to doubles (rounding, \<open>pow\<close>, the format of numbers that are no integers) is a parameter
  \<open>fp_env\<close>.
\<close>

subsection \<open>Items\<close>

datatype json_type = cJSON_False | cJSON_True | cJSON_NULL | cJSON_Number | cJSON_String | cJSON_Array | cJSON_Object

datatype cJSON = Item (item_type: json_type) (valuestring: "string option") (valueint: int) (valuedouble: real)
  (item_name: "string option") (child: "cJSON list")

record fp_env =
  fp_round :: "real \<Rightarrow> real"
  fp_pow10 :: "int \<Rightarrow> real"
  fp_sprintf :: "string \<Rightarrow> real \<Rightarrow> string"

definition INT_MAX :: int where "INT_MAX = 2147483647"
definition INT_MIN :: int where "INT_MIN = - 2147483648"
definition DBL_EPSILON :: real where "DBL_EPSILON = 1 / 2 ^ 52"

text \<open>\<open>cJSON_New_Item\<close>: all fields 0. The memory is counted by \<open>alloc\<close>.\<close>

definition cJSON_New_Item :: cJSON where
  "cJSON_New_Item = Item cJSON_False None 0 0 None []"

fun alloc :: "nat \<Rightarrow> nat option" where
  "alloc 0 = None"
| "alloc (Suc mem) = Some mem"

text \<open>\<open>Fail\<close> is the null pointer with the error pointer \<open>ep\<close>.\<close>

datatype 'a parsed = Done 'a string nat | Fail "string option" | Bad | Out_of_fuel

subsection \<open>Characters\<close>

abbreviation quote :: char where "quote \<equiv> CHR 0x22"
abbreviation backslash :: char where "backslash \<equiv> CHR 0x5C"

definition code :: "char \<Rightarrow> nat" where "code c = of_char c"

definition digit :: "char \<Rightarrow> bool" where "digit c \<longleftrightarrow> 48 \<le> code c \<and> code c \<le> 57"

definition digit_value :: "char \<Rightarrow> nat" where "digit_value c = code c - 48"

text \<open>\<open>skip\<close>.\<close>

definition skip :: "string \<Rightarrow> string" where
  "skip s = dropWhile (\<lambda>c. code c \<le> 32) s"

definition next_is :: "char \<Rightarrow> string \<Rightarrow> bool" where
  "next_is c s \<longleftrightarrow> s \<noteq> [] \<and> hd s = c"

subsection \<open>Numbers\<close>

definition accumulate :: "fp_env \<Rightarrow> real \<Rightarrow> string \<Rightarrow> real" where
  "accumulate fe n ds = foldl (\<lambda>n c. fp_round fe (fp_round fe (n * 10) + real (digit_value c))) n ds"

definition exponent :: "string \<Rightarrow> int \<times> string" where
  "exponent s =
     (if next_is (CHR ''e'') s \<or> next_is (CHR ''E'') s then
        let s = tl s;
            (sg, s) = (if next_is (CHR ''+'') s then (1, tl s) else if next_is (CHR ''-'') s then (- 1, tl s) else (1, s))
        in (sg * foldl (\<lambda>n c. n * 10 + int (digit_value c)) 0 (takeWhile digit s), dropWhile digit s)
      else (0, s))"

text \<open>The cast of a double to an \<open>int\<close> truncates and, on this processor, saturates.\<close>

definition int_of_double :: "real \<Rightarrow> int" where
  "int_of_double d = max INT_MIN (min INT_MAX (if d < 0 then \<lceil>d\<rceil> else \<lfloor>d\<rfloor>))"

definition parse_sign :: "string \<Rightarrow> real \<times> string" where
  "parse_sign s = (if next_is (CHR ''-'') s then (- 1, tl s) else (1, s))"

definition parse_digits :: "fp_env \<Rightarrow> string \<Rightarrow> real \<times> string" where
  "parse_digits fe s =
     (let s = (if next_is (CHR ''0'') s then tl s else s)
      in if s \<noteq> [] \<and> digit (hd s) \<and> hd s \<noteq> CHR ''0'' then (accumulate fe 0 (takeWhile digit s), dropWhile digit s)
         else (0, s))"

definition parse_fraction :: "fp_env \<Rightarrow> real \<Rightarrow> string \<Rightarrow> real \<times> int \<times> string" where
  "parse_fraction fe n s =
     (if next_is (CHR ''.'') s \<and> tl s \<noteq> [] \<and> digit (hd (tl s))
      then (accumulate fe n (takeWhile digit (tl s)), - int (length (takeWhile digit (tl s))), dropWhile digit (tl s))
      else (n, 0, s))"

definition parse_number :: "fp_env \<Rightarrow> string \<Rightarrow> cJSON \<times> string" where
  "parse_number fe s =
     (let (sign, s) = parse_sign s; (n, s) = parse_digits fe s; (n, scale, s) = parse_fraction fe n s; (e, s) = exponent s;
          n = fp_round fe (sign * n * fp_pow10 fe (scale + e))
      in (Item cJSON_Number None (int_of_double n) n None [], s))"

subsection \<open>Strings\<close>

definition hex_digit :: "char \<Rightarrow> u32 option" where
  "hex_digit c =
     (if digit c then Some (of_nat (code c - 48))
      else if 65 \<le> code c \<and> code c \<le> 70 then Some (of_nat (10 + code c - 65))
      else if 97 \<le> code c \<and> code c \<le> 102 then Some (of_nat (10 + code c - 97)) else None)"

definition parse_hex4 :: "string \<Rightarrow> u32" where
  "parse_hex4 s =
     (case map hex_digit (take 4 s) of
        [Some a, Some b, Some c, Some d] \<Rightarrow> push_bit 4 (push_bit 4 (push_bit 4 a + b) + c) + d
      | _ \<Rightarrow> 0)"

definition byte :: "u32 \<Rightarrow> char" where "byte w = char_of (unat w)"

definition tail_byte :: "u32 \<Rightarrow> char" where "tail_byte uc = byte ((uc OR 0x80) AND 0xBF)"

definition utf8_encode :: "u32 \<Rightarrow> string" where
  "utf8_encode uc =
     (if uc < 0x80 then [byte uc]
      else if uc < 0x800 then [byte (drop_bit 6 uc OR 0xC0), tail_byte uc]
      else if uc < 0x10000 then [byte (drop_bit 12 uc OR 0xE0), tail_byte (drop_bit 6 uc), tail_byte uc]
      else [byte (drop_bit 18 uc OR 0xF0), tail_byte (drop_bit 12 uc), tail_byte (drop_bit 6 uc), tail_byte uc])"

fun unescape :: "char \<Rightarrow> char" where
  "unescape c =
     (if c = CHR ''b'' then CHR 0x08 else if c = CHR ''f'' then CHR 0x0C else if c = CHR ''n'' then CHR 0x0A
      else if c = CHR ''r'' then CHR 0x0D else if c = CHR ''t'' then CHR 0x09 else c)"

declare unescape.simps [simp del]

text \<open>The first loop of \<open>parse_string\<close>: the length it allocates.\<close>

fun string_len :: "string \<Rightarrow> nat option" where
  "string_len [] = Some 0"
| "string_len [c] = (if c = quote then Some 0 else if c = backslash then None else Some 1)"
| "string_len (c # d # s) =
     (if c = quote then Some 0
      else if c = backslash then map_option Suc (string_len s)
      else map_option Suc (string_len (d # s)))"

text \<open>The second loop: what it writes, and the text behind the string.\<close>

function string_copy :: "string \<Rightarrow> (string \<times> string) option" where
  "string_copy s =
     (case s of
        [] \<Rightarrow> Some ([], [])
      | c # s \<Rightarrow>
          if c = quote then Some ([], s)
          else if c \<noteq> backslash then map_option (apfst ((@) [c])) (string_copy s)
          else (case s of
                  [] \<Rightarrow> None
                | d # s \<Rightarrow>
                    if d \<noteq> CHR ''u'' then map_option (apfst ((@) [unescape d])) (string_copy s)
                    else if length s < 4 then None
                    else
                      let uc = parse_hex4 s; s = drop 4 s
                      in if 0xDC00 \<le> uc \<and> uc \<le> 0xDFFF \<or> uc = 0 then string_copy s
                         else if 0xD800 \<le> uc \<and> uc \<le> 0xDBFF then
                           if take 2 s \<noteq> [backslash, CHR ''u''] then string_copy s
                           else if length s < 6 then None
                           else
                             let uc2 = parse_hex4 (drop 2 s); s = drop 6 s
                             in if uc2 < 0xDC00 \<or> uc2 > 0xDFFF then string_copy s
                                else map_option (apfst ((@) (utf8_encode
                                       (0x10000 + (push_bit 10 (uc AND 0x3FF) OR (uc2 AND 0x3FF)))))) (string_copy s)
                         else map_option (apfst ((@) (utf8_encode uc))) (string_copy s)))"
  by pat_completeness auto
termination
  by (relation "measure length") auto

declare string_copy.simps [simp del]

definition parse_string :: "string \<Rightarrow> nat \<Rightarrow> string parsed" where
  "parse_string s mem =
     (case s of
        [] \<Rightarrow> Fail (Some s)
      | c # t \<Rightarrow>
          if c \<noteq> quote then Fail (Some s)
          else (case string_len t of
                  None \<Rightarrow> Bad
                | Some len \<Rightarrow>
                    (case alloc mem of
                       None \<Rightarrow> Fail None
                     | Some mem \<Rightarrow>
                         (case string_copy t of
                            None \<Rightarrow> Bad
                          | Some (out, rest) \<Rightarrow> if length out > len then Bad else Done out rest mem))))"

subsection \<open>The parser\<close>

definition set_name :: "string \<Rightarrow> cJSON \<Rightarrow> cJSON" where
  "set_name n i = Item (item_type i) (valuestring i) (valueint i) (valuedouble i) (Some n) (child i)"

text \<open>
  \<open>parse_elements\<close> is the loop of \<open>parse_array\<close>, with the items so far, \<open>parse_members\<close> that of
  \<open>parse_object\<close>; \<open>pv\<close> is \<open>parse_value\<close>, and \<open>k\<close> and \<open>n\<close> are fuel.
\<close>

primrec parse_elements :: "(string \<Rightarrow> nat \<Rightarrow> cJSON parsed) \<Rightarrow> nat \<Rightarrow> string \<Rightarrow> cJSON list \<Rightarrow> nat \<Rightarrow> cJSON parsed" where
  "parse_elements pv 0 s acc mem = Out_of_fuel"
| "parse_elements pv (Suc k) s acc mem =
     (case alloc mem of
        None \<Rightarrow> Fail None
      | Some mem \<Rightarrow>
          (case pv (skip s) mem of
             Done i rest mem \<Rightarrow>
               let s = skip rest; acc = acc @ [i]
               in if next_is (CHR '','') s then parse_elements pv k (tl s) acc mem
                  else if next_is (CHR '']'') s then Done (Item cJSON_Array None 0 0 None acc) (tl s) mem
                  else Fail (Some s)
           | Fail e \<Rightarrow> Fail e | Bad \<Rightarrow> Bad | Out_of_fuel \<Rightarrow> Out_of_fuel))"

definition parse_array :: "(string \<Rightarrow> nat \<Rightarrow> cJSON parsed) \<Rightarrow> nat \<Rightarrow> string \<Rightarrow> nat \<Rightarrow> cJSON parsed" where
  "parse_array pv k s mem =
     (if \<not> next_is (CHR ''['') s then Fail (Some s)
      else let s = skip (tl s)
           in if next_is (CHR '']'') s then Done (Item cJSON_Array None 0 0 None []) (tl s) mem
              else parse_elements pv k s [] mem)"

primrec parse_members :: "(string \<Rightarrow> nat \<Rightarrow> cJSON parsed) \<Rightarrow> nat \<Rightarrow> string \<Rightarrow> cJSON list \<Rightarrow> nat \<Rightarrow> cJSON parsed" where
  "parse_members pv 0 s acc mem = Out_of_fuel"
| "parse_members pv (Suc k) s acc mem =
     (case alloc mem of
        None \<Rightarrow> Fail None
      | Some mem \<Rightarrow>
          (case parse_string (skip s) mem of
             Done name rest mem \<Rightarrow>
               let s = skip rest
               in if \<not> next_is (CHR '':'') s then Fail (Some s)
                  else (case pv (skip (tl s)) mem of
                          Done i rest mem \<Rightarrow>
                            let s = skip rest; acc = acc @ [set_name name i]
                            in if next_is (CHR '','') s then parse_members pv k (tl s) acc mem
                               else if next_is (CHR ''}'') s then Done (Item cJSON_Object None 0 0 None acc) (tl s) mem
                               else Fail (Some s)
                        | Fail e \<Rightarrow> Fail e | Bad \<Rightarrow> Bad | Out_of_fuel \<Rightarrow> Out_of_fuel)
           | Fail e \<Rightarrow> Fail e | Bad \<Rightarrow> Bad | Out_of_fuel \<Rightarrow> Out_of_fuel))"

definition parse_object :: "(string \<Rightarrow> nat \<Rightarrow> cJSON parsed) \<Rightarrow> nat \<Rightarrow> string \<Rightarrow> nat \<Rightarrow> cJSON parsed" where
  "parse_object pv k s mem =
     (if \<not> next_is (CHR ''{'') s then Fail (Some s)
      else let s = skip (tl s)
           in if next_is (CHR ''}'') s then Done (Item cJSON_Object None 0 0 None []) (tl s) mem
              else parse_members pv k s [] mem)"

primrec parse_value :: "fp_env \<Rightarrow> nat \<Rightarrow> string \<Rightarrow> nat \<Rightarrow> cJSON parsed" where
  "parse_value fe 0 = (\<lambda>s mem. Out_of_fuel)"
| "parse_value fe (Suc n) = (\<lambda>s mem.
     if take 4 s = ''null'' then Done (Item cJSON_NULL None 0 0 None []) (drop 4 s) mem
     else if take 5 s = ''false'' then Done (Item cJSON_False None 0 0 None []) (drop 5 s) mem
     else if take 4 s = ''true'' then Done (Item cJSON_True None 1 0 None []) (drop 4 s) mem
     else if next_is quote s then
       (case parse_string s mem of
          Done out rest mem \<Rightarrow> Done (Item cJSON_String (Some out) 0 0 None []) rest mem
        | Fail e \<Rightarrow> Fail e | Bad \<Rightarrow> Bad | Out_of_fuel \<Rightarrow> Out_of_fuel)
     else if next_is (CHR ''-'') s \<or> s \<noteq> [] \<and> digit (hd s) then (let (i, rest) = parse_number fe s in Done i rest mem)
     else if next_is (CHR ''['') s then parse_array (parse_value fe n) n s mem
     else if next_is (CHR ''{'') s then parse_object (parse_value fe n) n s mem
     else Fail (Some s))"

text \<open>Every level and every round of a loop consumes a character.\<close>

definition parse_fuel :: "string \<Rightarrow> nat" where
  "parse_fuel s = length s + 1"

definition cJSON_ParseWithOpts :: "fp_env \<Rightarrow> string \<Rightarrow> bool \<Rightarrow> nat \<Rightarrow> cJSON parsed" where
  "cJSON_ParseWithOpts fe text require_null_terminated mem =
     (case alloc mem of
        None \<Rightarrow> Fail None
      | Some mem \<Rightarrow>
          (case parse_value fe (parse_fuel text) (skip text) mem of
             Done i rest mem \<Rightarrow>
               if require_null_terminated \<and> skip rest \<noteq> [] then Fail (Some (skip rest))
               else Done i (if require_null_terminated then skip rest else rest) mem
           | Fail e \<Rightarrow> Fail e | Bad \<Rightarrow> Bad | Out_of_fuel \<Rightarrow> Out_of_fuel))"

definition cJSON_Parse :: "fp_env \<Rightarrow> string \<Rightarrow> nat \<Rightarrow> cJSON parsed" where
  "cJSON_Parse fe text mem = cJSON_ParseWithOpts fe text False mem"


subsection \<open>The printer\<close>

text \<open>
  A printer returns its text, or the null pointer when an allocation fails; \<open>Overflow\<close> is a write behind the end of a block or
  an access through a null pointer. \<open>Text\<close> and \<open>Null\<close> hold the memory left.
\<close>

datatype 'a printed = Text 'a nat | Null nat | Overflow

text \<open>A block of \<open>n\<close> bytes is allocated and gets the text and a NUL.\<close>

definition fits :: "nat \<Rightarrow> string \<Rightarrow> nat \<Rightarrow> string printed" where
  "fits n out mem = (case alloc mem of None \<Rightarrow> Null mem | Some mem \<Rightarrow> if length out < n then Text out mem else Overflow)"

fun decimal :: "nat \<Rightarrow> string" where
  "decimal n = (if n < 10 then [char_of (48 + n)] else decimal (n div 10) @ [char_of (48 + n mod 10)])"

declare decimal.simps [simp del]

definition sprintf_d :: "int \<Rightarrow> string" where
  "sprintf_d i = (if i < 0 then CHR ''-'' # decimal (nat (- i)) else decimal (nat i))"

definition print_number :: "fp_env \<Rightarrow> int \<Rightarrow> real \<Rightarrow> nat \<Rightarrow> string printed" where
  "print_number fe i d mem =
     (if d = 0 then fits 2 ''0'' mem
      else if \<bar>fp_round fe (real_of_int i - d)\<bar> \<le> DBL_EPSILON \<and> d \<le> real_of_int INT_MAX \<and> d \<ge> real_of_int INT_MIN
      then fits 21 (sprintf_d i) mem
      else fits 64
        (if \<bar>fp_round fe (real_of_int \<lfloor>d\<rfloor> - d)\<bar> \<le> DBL_EPSILON \<and> \<bar>d\<bar> < 10 ^ 60 then fp_sprintf fe ''%.0f'' d
         else if \<bar>d\<bar> < 1 / 10 ^ 6 \<or> \<bar>d\<bar> > 10 ^ 9 then fp_sprintf fe ''%e'' d
         else fp_sprintf fe ''%f'' d) mem)"

definition hex_char :: "nat \<Rightarrow> char" where
  "hex_char n = (if n < 10 then char_of (48 + n) else char_of (87 + n))"

definition escape_char :: "char \<Rightarrow> string" where
  "escape_char c =
     (if code c > 31 \<and> c \<noteq> quote \<and> c \<noteq> backslash then [c]
      else backslash #
        (if c = backslash then [backslash] else if c = quote then [quote]
         else if c = CHR 0x08 then ''b'' else if c = CHR 0x0C then ''f'' else if c = CHR 0x0A then ''n''
         else if c = CHR 0x0D then ''r'' else if c = CHR 0x09 then ''t''
         else ''u00'' @ [hex_char (code c div 16), hex_char (code c mod 16)]))"

definition escape_size :: "char \<Rightarrow> nat" where
  "escape_size c =
     1 + (if c \<in> {quote, backslash, CHR 0x08, CHR 0x0C, CHR 0x0A, CHR 0x0D, CHR 0x09} then 1 else if code c < 32 then 5 else 0)"

text \<open>The test for a null pointer comes after the first loop, which reads through it.\<close>

definition print_string_ptr :: "string option \<Rightarrow> nat \<Rightarrow> string printed" where
  "print_string_ptr str mem =
     (case str of
        None \<Rightarrow> Overflow
      | Some s \<Rightarrow>
          if list_all (\<lambda>c. \<not> (0 < code c \<and> code c < 32) \<and> c \<noteq> quote \<and> c \<noteq> backslash) s
          then fits (length s + 3) (quote # s @ [quote]) mem
          else fits (sum_list (map escape_size s) + 3) (quote # concat (map escape_char s) @ [quote]) mem)"

abbreviation newline :: char where "newline \<equiv> CHR 0x0A"
abbreviation tabulator :: char where "tabulator \<equiv> CHR 0x09"

fun join_entries :: "bool \<Rightarrow> string list \<Rightarrow> string" where
  "join_entries fmt [] = []"
| "join_entries fmt [e] = e"
| "join_entries fmt (e # es) = e @ '','' @ (if fmt then '' '' else []) @ join_entries fmt es"

fun join_members :: "bool \<Rightarrow> nat \<Rightarrow> (string \<times> string) list \<Rightarrow> string" where
  "join_members fmt depth [] = []"
| "join_members fmt depth ((name, e) # es) =
     (if fmt then replicate depth tabulator else []) @ name @ '':'' @ (if fmt then [tabulator] else []) @ e
     @ (if es \<noteq> [] then '','' else []) @ (if fmt then [newline] else []) @ join_members fmt depth es"

text \<open>\<open>print_array\<close> and \<open>print_object\<close> put together the texts of the items; \<open>depth\<close> is that of the object itself.\<close>

definition compose_array :: "bool \<Rightarrow> string list \<Rightarrow> nat \<Rightarrow> string printed" where
  "compose_array fmt es mem =
     fits (5 + sum_list (map (\<lambda>e. length e + 2 + (if fmt then 1 else 0)) es)) (''['' @ join_entries fmt es @ '']'') mem"

definition compose_object :: "bool \<Rightarrow> nat \<Rightarrow> (string \<times> string) list \<Rightarrow> nat \<Rightarrow> string printed" where
  "compose_object fmt depth es mem =
     fits (7 + (if fmt then depth + 1 else 0)
           + sum_list (map (\<lambda>(name, e). length e + length name + 2 + (if fmt then 2 + (depth + 1) else 0)) es))
       (''{'' @ (if fmt then [newline] else []) @ join_members fmt (depth + 1) es
        @ (if fmt then replicate depth tabulator else []) @ ''}'') mem"

text \<open>
  \<open>print_value\<close> without a print buffer. The loop over an array stops at an item that cannot be printed, the loop over an object
  goes on and fails at its end.
\<close>

fun failed :: "'a printed \<Rightarrow> 'a printed" where
  "failed (Text x mem) = Null mem"
| "failed (Null mem) = Null mem"
| "failed Overflow = Overflow"

fun print_value :: "fp_env \<Rightarrow> bool \<Rightarrow> nat \<Rightarrow> cJSON \<Rightarrow> nat \<Rightarrow> string printed"
  and print_entries :: "fp_env \<Rightarrow> bool \<Rightarrow> nat \<Rightarrow> cJSON list \<Rightarrow> nat \<Rightarrow> string list printed"
  and print_members :: "fp_env \<Rightarrow> bool \<Rightarrow> nat \<Rightarrow> cJSON list \<Rightarrow> nat \<Rightarrow> (string \<times> string) list printed" where
  "print_value fe fmt depth (Item ty vs vi vd nm cs) mem =
     (case ty of
        cJSON_NULL \<Rightarrow> fits 5 ''null'' mem
      | cJSON_False \<Rightarrow> fits 6 ''false'' mem
      | cJSON_True \<Rightarrow> fits 5 ''true'' mem
      | cJSON_Number \<Rightarrow> print_number fe vi vd mem
      | cJSON_String \<Rightarrow> print_string_ptr vs mem
      | cJSON_Array \<Rightarrow>
          if cs = [] then fits 3 ''[]'' mem
          else (case alloc mem of
                  None \<Rightarrow> Null mem
                | Some mem \<Rightarrow>
                    (case print_entries fe fmt (depth + 1) cs mem of
                       Text es mem \<Rightarrow> compose_array fmt es mem | Null mem \<Rightarrow> Null mem | Overflow \<Rightarrow> Overflow))
      | cJSON_Object \<Rightarrow>
          if cs = [] then
            fits (if fmt then depth + 4 else 3) (''{'' @ (if fmt then newline # replicate (depth - 1) tabulator else []) @ ''}'') mem
          else (case alloc mem of
                  None \<Rightarrow> Null mem
                | Some mem \<Rightarrow>
                    (case alloc mem of
                       None \<Rightarrow> Null mem
                     | Some mem \<Rightarrow>
                         (case print_members fe fmt (depth + 1) cs mem of
                            Text es mem \<Rightarrow> compose_object fmt depth es mem | Null mem \<Rightarrow> Null mem | Overflow \<Rightarrow> Overflow))))"
| "print_entries fe fmt depth [] mem = Text [] mem"
| "print_entries fe fmt depth (c # cs) mem =
     (case print_value fe fmt depth c mem of
        Text e mem \<Rightarrow>
          (case print_entries fe fmt depth cs mem of
             Text es mem \<Rightarrow> Text (e # es) mem | Null mem \<Rightarrow> Null mem | Overflow \<Rightarrow> Overflow)
      | Null mem \<Rightarrow> Null mem | Overflow \<Rightarrow> Overflow)"
| "print_members fe fmt depth [] mem = Text [] mem"
| "print_members fe fmt depth (c # cs) mem =
     (case print_string_ptr (item_name c) mem of
        Text n mem \<Rightarrow>
          (case print_value fe fmt depth c mem of
             Text e mem \<Rightarrow>
               (case print_members fe fmt depth cs mem of
                  Text es mem \<Rightarrow> Text ((n, e) # es) mem | Null mem \<Rightarrow> Null mem | Overflow \<Rightarrow> Overflow)
           | Null mem \<Rightarrow> failed (print_members fe fmt depth cs mem)
           | Overflow \<Rightarrow> Overflow)
      | Null mem \<Rightarrow>
          (case print_value fe fmt depth c mem of
             Overflow \<Rightarrow> Overflow
           | Text e mem \<Rightarrow> failed (print_members fe fmt depth cs mem)
           | Null mem \<Rightarrow> failed (print_members fe fmt depth cs mem))
      | Overflow \<Rightarrow> Overflow)"

definition cJSON_Print :: "fp_env \<Rightarrow> cJSON \<Rightarrow> nat \<Rightarrow> string printed" where
  "cJSON_Print fe i mem = print_value fe True 0 i mem"

definition cJSON_PrintUnformatted :: "fp_env \<Rightarrow> cJSON \<Rightarrow> nat \<Rightarrow> string printed" where
  "cJSON_PrintUnformatted fe i mem = print_value fe False 0 i mem"

subsection \<open>The parser consumes text and ends\<close>

text \<open>A suffix of the text, as far as the proofs need it.\<close>

definition part_of :: "string \<Rightarrow> string \<Rightarrow> bool" where
  "part_of r s \<longleftrightarrow> length r \<le> length s \<and> set r \<subseteq> set s"

lemma part_of_refl [simp]: "part_of s s"
  by (simp add: part_of_def)

lemma part_of_trans: "part_of a b \<Longrightarrow> part_of b c \<Longrightarrow> part_of a c"
  by (auto simp: part_of_def)

lemma part_of_intros:
  "part_of (drop n s) s" "part_of (dropWhile P s) s" "part_of (tl s) s" "part_of (skip s) s"
  using length_dropWhile_le [of P s] length_dropWhile_le [of "\<lambda>c. code c \<le> 32" s]
  by (auto simp: part_of_def skip_def dest: in_set_dropD set_dropWhileD list.set_sel(2) [rotated])
    (metis list.sel(2) list.set_sel(2))

lemma part_of_Cons: "part_of r s \<Longrightarrow> part_of r (c # s)"
  by (auto simp: part_of_def)

lemma string_copy_cases:
  assumes "string_copy s = Some (out, r)"
  obtains "s = []" "out = []" "r = []" | t where "s = quote # t" "out = []" "r = t"
  | k out' where "0 < k" "k \<le> length s" "string_copy (drop k s) = Some (out', r)"
proof (cases s)
  case Nil
  then show ?thesis using assms that(1) by (simp add: string_copy.simps [of "[]"])
next
  case (Cons c t)
  show ?thesis
  proof (cases "c = backslash")
    case False
    then show ?thesis
      using assms that(2) [of t] that(3) [of 1] Cons
      by (auto simp: string_copy.simps [of "c # t"] split: if_splits)
  next
    case True
    then obtain d u where d: "t = d # u"
      using assms Cons True by (cases t) (simp_all add: string_copy.simps [of "[backslash]"])
    show ?thesis
      using assms that(3) [of 2] that(3) [of 6] that(3) [of 12] Cons True d
      by (auto simp: string_copy.simps [of "backslash # d # u"] Let_def split: if_splits)
  qed
qed

lemma string_copy_part: "string_copy s = Some (out, r) \<Longrightarrow> part_of r s"
proof (induction "length s" arbitrary: s out rule: less_induct)
  case less
  from less.prems show ?case
  proof (cases rule: string_copy_cases)
    case (3 k out')
    then have "part_of r (drop k s)" using less.hyps by simp
    then show ?thesis using part_of_intros(1) by (rule part_of_trans)
  qed (auto intro: part_of_Cons)
qed


lemma parse_string_part:
  assumes "parse_string s mem = Done out r m"
  shows "part_of r s" "length r < length s"
proof -
  obtain c t where s: "s = c # t" "\<exists>out. string_copy t = Some (out, r)"
    using assms by (auto simp: parse_string_def split: list.splits option.splits if_splits)
  then have "part_of r t" using string_copy_part by blast
  then show "part_of r s" "length r < length s"
    using s(1) by (auto simp: part_of_def)
qed

lemma parse_string_not_fuel: "parse_string s mem \<noteq> Out_of_fuel"
  by (auto simp: parse_string_def split: list.splits option.splits)

lemma exponent_part: "part_of (snd (exponent s)) s"
proof -
  have "part_of (dropWhile digit (tl (tl s))) s" "part_of (dropWhile digit (tl s)) s"
    using part_of_intros(2,3) part_of_trans by blast+
  then show ?thesis by (simp add: exponent_def Let_def)
qed

lemma parse_number_part:
  assumes "next_is (CHR ''-'') s \<or> s \<noteq> [] \<and> digit (hd s)"
  shows "part_of (snd (parse_number fe s)) s \<and> length (snd (parse_number fe s)) < length s"
proof -
  have sign: "part_of (snd (parse_sign t)) t" for t
    by (simp add: parse_sign_def part_of_intros)
  have digits: "part_of (snd (parse_digits fe t)) t" for t
    using part_of_intros(2,3) part_of_trans [OF part_of_intros(2) part_of_intros(3)]
    by (simp add: parse_digits_def Let_def)
  have frac: "part_of (snd (snd (parse_fraction fe n t))) t" for n t
    using part_of_trans [OF part_of_intros(2) part_of_intros(3)] by (simp add: parse_fraction_def)
  define s1 where "s1 = snd (parse_sign s)"
  define s2 where "s2 = snd (parse_digits fe s1)"
  have "\<exists>n. snd (parse_number fe s) = snd (exponent (snd (snd (parse_fraction fe n s2))))"
    unfolding parse_number_def Let_def case_prod_unfold s1_def s2_def by (simp, blast)
  then have r: "part_of (snd (parse_number fe s)) s2"
    using part_of_trans [OF exponent_part frac] by metis
  have p: "part_of s1 s" "part_of s2 s1"
    using sign digits by (simp_all add: s1_def s2_def)
  have "length s2 < length s"
  proof (cases "next_is (CHR ''-'') s")
    case True
    then have "length s1 < length s" by (auto simp: s1_def parse_sign_def next_is_def)
    then show ?thesis using p(2) by (auto simp: part_of_def)
  next
    case False
    then have s1: "s1 = s" "s \<noteq> []" "digit (hd s)" using assms by (auto simp: s1_def parse_sign_def)
    obtain c u where s: "s = c # u" using s1(2) by (cases s) auto
    have "length (dropWhile digit u) \<le> length u" by (rule length_dropWhile_le)
    moreover have "length (dropWhile digit (tl s)) \<le> length (tl s)" by (rule length_dropWhile_le)
    ultimately show ?thesis
      using s1 s by (auto simp: s2_def parse_digits_def Let_def next_is_def)
  qed
  then show ?thesis
    using r p by (auto simp: part_of_def)
qed

text \<open>What one call of \<open>parse_value\<close> promises to the loops.\<close>

definition consumes :: "(string \<Rightarrow> nat \<Rightarrow> cJSON parsed) \<Rightarrow> nat \<Rightarrow> bool" where
  "consumes pv n \<longleftrightarrow> (\<forall>s mem. (length s < n \<longrightarrow> pv s mem \<noteq> Out_of_fuel)
     \<and> (\<forall>i r m. pv s mem = Done i r m \<longrightarrow> part_of r s \<and> length r < length s))"

lemma part_skip: "part_of r (skip s) \<Longrightarrow> part_of r s" "part_of r s \<Longrightarrow> part_of (skip r) s" "part_of r s \<Longrightarrow> part_of (tl r) s"
  using part_of_intros part_of_trans by blast+

lemma consumesD:
  assumes "consumes pv n" "pv (skip s) mem = Done i r m"
  shows "part_of (skip r) s" "length (skip r) < length s" "part_of (tl (skip r)) s"
proof -
  have r: "part_of r (skip s)" "length r < length (skip s)" using assms unfolding consumes_def by blast+
  then show "part_of (skip r) s" "part_of (tl (skip r)) s" using part_skip by blast+
  have "length (skip r) \<le> length r" "length (skip s) \<le> length s"
    using part_of_intros(4) by (auto simp: part_of_def)
  then show "length (skip r) < length s" using r(2) by linarith
qed

lemma skip_le: "length (skip s) \<le> length s" "length (tl s) \<le> length s"
  using part_of_intros(4) by (auto simp: part_of_def)

lemma elements_consume:
  assumes pv: "consumes pv n"
  shows "(length s < k \<and> length s < n \<longrightarrow> parse_elements pv k s acc mem \<noteq> Out_of_fuel)
    \<and> (\<forall>i r m. parse_elements pv k s acc mem = Done i r m \<longrightarrow> part_of r s)"
proof (induction k arbitrary: s acc mem)
  case (Suc k)
  show ?case
  proof (cases "alloc mem")
    case None
    then show ?thesis by simp
  next
    case (Some mem1)
    show ?thesis
    proof (cases "pv (skip s) mem1")
      case (Done i r m)
      note c = consumesD [OF pv Done]
      have "length (tl (skip r)) < length s" using c(2) skip_le(2) [of "skip r"] by linarith
      then show ?thesis
        using Some Done c(1,3) Suc.IH [of "tl (skip r)" "acc @ [i]" m] by (auto simp: Let_def intro: part_of_trans)
    next
      case Out_of_fuel
      then have "\<not> length (skip s) < n" using pv by (auto simp: consumes_def)
      then have "\<not> length s < n" using skip_le(1) [of s] by linarith
      then show ?thesis using Some Out_of_fuel by simp
    qed (use Some in simp_all)
  qed
qed simp

lemma members_consume:
  assumes pv: "consumes pv n"
  shows "(length s < k \<and> length s < n \<longrightarrow> parse_members pv k s acc mem \<noteq> Out_of_fuel)
    \<and> (\<forall>i r m. parse_members pv k s acc mem = Done i r m \<longrightarrow> part_of r s)"
proof (induction k arbitrary: s acc mem)
  case (Suc k)
  show ?case
  proof (cases "alloc mem")
    case None
    then show ?thesis by simp
  next
    case (Some mem1)
    show ?thesis
    proof (cases "parse_string (skip s) mem1")
      case name: (Done name r m)
      have r: "part_of (tl (skip r)) s" "length (tl (skip r)) < length s"
        using parse_string_part [OF name] part_skip skip_le(1) [of s] skip_le(1) [of r] skip_le(2) [of "skip r"]
        by (blast, linarith)
      show ?thesis
      proof (cases "next_is (CHR '':'') (skip r)")
        case False
        then show ?thesis using Some name by (simp add: Let_def)
      next
        case colon: True
        show ?thesis
        proof (cases "pv (skip (tl (skip r))) m")
          case (Done i r' m')
          note c = consumesD [OF pv Done]
          have p: "part_of (tl (skip r')) s" "length (tl (skip r')) < length s"
            using c(2,3) r skip_le(2) [of "skip r'"] part_of_trans by (blast, linarith)
          then show ?thesis
            using Some name colon Done Suc.IH [of "tl (skip r')" "acc @ [set_name name i]" m']
            by (auto simp: Let_def intro: part_of_trans)
        next
          case Out_of_fuel
          then have "\<not> length (skip (tl (skip r))) < n" using pv by (auto simp: consumes_def)
          then have "\<not> length s < n" using skip_le(1) [of "tl (skip r)"] r(2) by linarith
          then show ?thesis using Some name colon Out_of_fuel by (simp add: Let_def)
        qed (use Some name colon in \<open>simp_all add: Let_def\<close>)
      qed
    next
      case Out_of_fuel
      then show ?thesis using parse_string_not_fuel by blast
    qed (use Some in simp_all)
  qed
qed simp

text \<open>A property of the results of \<open>parse_value\<close>, branch by branch.\<close>

lemma parse_value_branches:
  assumes "\<And>i. take 4 s = ''null'' \<or> take 4 s = ''true'' \<Longrightarrow> P (Done i (drop 4 s) mem)"
    and "\<And>i. take 5 s = ''false'' \<Longrightarrow> P (Done i (drop 5 s) mem)"
    and "P (case parse_string s mem of Done out rest mem \<Rightarrow> Done (Item cJSON_String (Some out) 0 0 None []) rest mem
        | Fail e \<Rightarrow> Fail e | Bad \<Rightarrow> Bad | Out_of_fuel \<Rightarrow> Out_of_fuel)"
    and "\<And>i. next_is (CHR ''-'') s \<or> s \<noteq> [] \<and> digit (hd s) \<Longrightarrow> P (Done i (snd (parse_number fe s)) mem)"
    and "next_is (CHR ''['') s \<Longrightarrow> P (parse_array (parse_value fe n) n s mem)"
    and "next_is (CHR ''{'') s \<Longrightarrow> P (parse_object (parse_value fe n) n s mem)"
    and "\<And>e. P (Fail e)"
  shows "P (parse_value fe (Suc n) s mem)"
  using assms unfolding parse_value.simps case_prod_unfold Let_def by presburger

lemma parse_value_consumes: "consumes (parse_value fe n) n"
proof (induction n)
  case 0
  show ?case by (simp add: consumes_def)
next
  case (Suc n)
  have "(length s < Suc n \<longrightarrow> parse_value fe (Suc n) s mem \<noteq> Out_of_fuel)
     \<and> (\<forall>i r m. parse_value fe (Suc n) s mem = Done i r m \<longrightarrow> part_of r s \<and> length r < length s)" for s mem
  proof (rule parse_value_branches, goal_cases)
    have word: "part_of (drop k s) s \<and> length (drop k s) < length s" if "0 < k" "s \<noteq> []" for k
      using that part_of_intros(1) [of k s] by (cases s) auto
    have inner: "length s < Suc n \<longrightarrow> length (skip (tl s)) < n" if "s \<noteq> []"
      using that skip_le(1) [of "tl s"] by (cases s) auto
    have behind: "part_of r s \<and> length r < length s" if "part_of r (skip (tl s))" "s \<noteq> []" for r
    proof
      show "part_of r s" by (rule part_of_trans [OF that(1) part_of_trans [OF part_of_intros(4,3)]])
      have "length r \<le> length (tl s)" using that(1) skip_le(1) [of "tl s"] by (auto simp: part_of_def)
      then show "length r < length s" using that(2) by (cases s) auto
    qed
    {
      case (1 i)
      then have "s \<noteq> []" by auto
      then show ?case using word [of 4] by simp
    next
      case (2 i)
      then have "s \<noteq> []" by auto
      then show ?case using word [of 5] by simp
    next
      case 3
      then show ?case
        using parse_string_part [of s mem] parse_string_not_fuel [of s mem] by (cases "parse_string s mem") simp_all
    next
      case (4 i)
      then show ?case using parse_number_part [OF 4, of fe] by simp
    next
      case 5
      then have ne: "s \<noteq> []" by (simp add: next_is_def)
      show ?case
        using 5 elements_consume [OF Suc, of "skip (tl s)" n "[]" mem] inner [OF ne] behind [OF _ ne]
          behind [OF part_of_intros(3) ne]
        by (simp add: parse_array_def Let_def)
    next
      case 6
      then have ne: "s \<noteq> []" by (simp add: next_is_def)
      show ?case
        using 6 members_consume [OF Suc, of "skip (tl s)" n "[]" mem] inner [OF ne] behind [OF _ ne]
          behind [OF part_of_intros(3) ne]
        by (simp add: parse_object_def Let_def)
    next
      case (7 e)
      show ?case by simp
    }
  qed
  then show ?case by (simp add: consumes_def)
qed


subsection \<open>Accesses\<close>

definition raw_char :: "char \<Rightarrow> bool" where
  "raw_char c \<longleftrightarrow> c \<noteq> quote \<and> c \<noteq> backslash"

lemma string_copy_raw: "raw_char c \<Longrightarrow> string_copy (c # s) = map_option (apfst ((@) [c])) (string_copy s)"
  by (simp add: string_copy.simps [of "c # s"] raw_char_def)

lemma string_copy_quote: "string_copy (quote # s) = Some ([], s)"
  by (simp add: string_copy.simps [of "quote # s"])

lemma string_len_raw: "raw_char c \<Longrightarrow> string_len (c # s) = map_option Suc (string_len s)"
  by (cases s) (simp_all add: raw_char_def)

lemma string_len_quote: "string_len (quote # s) = Some 0"
  by (cases s) simp_all

lemma string_copy_raws: "list_all raw_char w \<Longrightarrow> string_copy (w @ s) = map_option (apfst ((@) w)) (string_copy s)"
proof (induction w)
  case Nil
  then show ?case by (cases "string_copy s") auto
next
  case (Cons c w)
  then show ?case by (cases "string_copy s") (auto simp: string_copy_raw)
qed

lemma string_no_escape:
  "backslash \<notin> set t \<Longrightarrow> \<exists>out r. string_copy t = Some (out, r) \<and> string_len t = Some (length out)"
proof (induction t)
  case Nil
  show ?case by (simp add: string_copy.simps [of "[]"])
next
  case (Cons c t)
  show ?case
  proof (cases "c = quote")
    case True
    then show ?thesis by (simp add: string_copy_quote string_len_quote)
  next
    case False
    then have "raw_char c" using Cons.prems by (auto simp: raw_char_def)
    then show ?thesis using Cons by (auto simp: string_copy_raw string_len_raw)
  qed
qed

lemma parse_string_no_escape: "backslash \<notin> set s \<Longrightarrow> parse_string s mem \<noteq> Bad"
  using string_no_escape [of "tl s"] by (cases s) (auto simp: parse_string_def split: option.split)

definition sound :: "(string \<Rightarrow> nat \<Rightarrow> cJSON parsed) \<Rightarrow> bool" where
  "sound pv \<longleftrightarrow> (\<forall>s mem. backslash \<notin> set s \<longrightarrow> pv s mem \<noteq> Bad)"

lemma part_no_escape: "part_of r s \<Longrightarrow> backslash \<notin> set s \<Longrightarrow> backslash \<notin> set r"
  by (auto simp: part_of_def)

lemma elements_sound:
  assumes "consumes pv n" "sound pv" "backslash \<notin> set s"
  shows "parse_elements pv k s acc mem \<noteq> Bad"
  using assms(3)
proof (induction k arbitrary: s acc mem)
  case (Suc k)
  have b: "backslash \<notin> set (skip s)" using Suc.prems part_no_escape part_of_intros(4) by blast
  show ?case
  proof (cases "alloc mem")
    case (Some mem1)
    show ?thesis
    proof (cases "pv (skip s) mem1")
      case (Done i r m)
      have "backslash \<notin> set (tl (skip r))"
        using consumesD(3) [OF assms(1) Done] Suc.prems part_no_escape by blast
      then show ?thesis using Some Done Suc.IH by (simp add: Let_def)
    next
      case Bad
      then show ?thesis using assms(2) b by (simp add: sound_def)
    qed (use Some in simp_all)
  qed simp
qed simp

lemma members_sound:
  assumes "consumes pv n" "sound pv" "backslash \<notin> set s"
  shows "parse_members pv k s acc mem \<noteq> Bad"
  using assms(3)
proof (induction k arbitrary: s acc mem)
  case (Suc k)
  have b: "backslash \<notin> set (skip s)" using Suc.prems part_no_escape part_of_intros(4) by blast
  show ?case
  proof (cases "alloc mem")
    case (Some mem1)
    show ?thesis
    proof (cases "parse_string (skip s) mem1")
      case name: (Done name r m)
      have p: "part_of (tl (skip r)) s"
        using parse_string_part(1) [OF name] part_skip by blast
      then have b2: "backslash \<notin> set (skip (tl (skip r)))"
        using Suc.prems part_no_escape part_skip(2) by blast
      show ?thesis
      proof (cases "pv (skip (tl (skip r))) m")
        case (Done i r' m')
        have "part_of (tl (skip r')) s"
          using consumesD(3) [OF assms(1) Done] p by (rule part_of_trans)
        then have "backslash \<notin> set (tl (skip r'))" using Suc.prems part_no_escape by blast
        then show ?thesis using Some name Done Suc.IH by (simp add: Let_def)
      next
        case Bad
        then show ?thesis using assms(2) b2 by (simp add: sound_def)
      qed (use Some name in \<open>simp_all add: Let_def\<close>)
    next
      case Bad
      then show ?thesis using parse_string_no_escape [OF b] by blast
    qed (use Some in simp_all)
  qed simp
qed simp

lemma parse_value_sound: "sound (parse_value fe n)"
proof (induction n)
  case 0
  show ?case by (simp add: sound_def)
next
  case (Suc n)
  have "parse_value fe (Suc n) s mem \<noteq> Bad" if b: "backslash \<notin> set s" for s mem
  proof (rule parse_value_branches, goal_cases)
    have b': "backslash \<notin> set (skip (tl s))"
      using b part_no_escape part_of_intros(3) part_skip(2) by blast
    {
      case 3
      then show ?case using parse_string_no_escape [OF b] by (cases "parse_string s mem") simp_all
    next
      case 5
      then show ?case
        using elements_sound [OF parse_value_consumes Suc b'] by (simp add: parse_array_def Let_def)
    next
      case 6
      then show ?case
        using members_sound [OF parse_value_consumes Suc b'] by (simp add: parse_object_def Let_def)
    }
  qed simp_all
  then show ?case by (simp add: sound_def)
qed

text \<open>The two loops of \<open>parse_string\<close> disagree on where a string ends.\<close>

lemma string_overflow:
  assumes "list_all raw_char w" "2 \<le> length w"
  shows "parse_string (quote # backslash # CHR ''u'' # quote # a # b # c # w @ quote # rest) (Suc mem) = Bad"
proof -
  have hex: "parse_hex4 (quote # a # b # c # w @ quote # rest) = 0"
    by (simp add: parse_hex4_def hex_digit_def digit_def code_def)
  have "string_copy (w @ quote # rest) = Some (w, rest)"
    by (simp add: string_copy_raws [OF assms(1)] string_copy_quote)
  then have "string_copy (backslash # CHR ''u'' # quote # a # b # c # w @ quote # rest) = Some (w, rest)"
    by (subst string_copy.simps) (simp add: Let_def hex)
  moreover have "string_len (backslash # CHR ''u'' # quote # a # b # c # w @ quote # rest) = Some 1"
    by simp
  ultimately show ?thesis
    using assms(2) by (simp add: parse_string_def)
qed


subsection \<open>The items the parser builds\<close>

text \<open>
  The shape that the operations and the users of the library rely on: the number of a number item is an \<open>int\<close> cut from its
  \<open>double\<close>, a string item has a string, the items of an object have names, and fields that belong to other types are empty.
\<close>

fun typed :: "cJSON \<Rightarrow> bool" where
  "typed (Item ty vs vi vd nm cs) =
     (case ty of
        cJSON_Number \<Rightarrow> vs = None \<and> INT_MIN \<le> vi \<and> vi \<le> INT_MAX \<and> vi = int_of_double vd \<and> cs = []
      | cJSON_String \<Rightarrow> vs \<noteq> None \<and> cs = []
      | cJSON_Array \<Rightarrow> vs = None \<and> list_all (\<lambda>c. typed c \<and> item_name c = None) cs
      | cJSON_Object \<Rightarrow> vs = None \<and> list_all (\<lambda>c. typed c \<and> item_name c \<noteq> None) cs
      | _ \<Rightarrow> vs = None \<and> cs = [])"

definition builds_typed :: "(string \<Rightarrow> nat \<Rightarrow> cJSON parsed) \<Rightarrow> bool" where
  "builds_typed pv \<longleftrightarrow> (\<forall>s mem i r m. pv s mem = Done i r m \<longrightarrow> typed i \<and> item_name i = None)"

lemma typed_set_name: "typed i \<Longrightarrow> typed (set_name n i)" "item_name (set_name n i) = Some n"
  by (cases i; simp add: set_name_def)+

lemma parse_number_typed: "typed (fst (parse_number fe s)) \<and> item_name (fst (parse_number fe s)) = None"
  by (simp add: parse_number_def case_prod_unfold Let_def int_of_double_def INT_MIN_def INT_MAX_def)

lemma elements_typed:
  assumes "builds_typed pv"
  shows "\<lbrakk>parse_elements pv k s acc mem = Done i r m; list_all (\<lambda>c. typed c \<and> item_name c = None) acc\<rbrakk>
    \<Longrightarrow> typed i \<and> item_name i = None"
proof (induction k arbitrary: s acc mem)
  case (Suc k)
  obtain mem1 where 1: "alloc mem = Some mem1" using Suc.prems by (cases "alloc mem") auto
  obtain c r' m' where 2: "pv (skip s) mem1 = Done c r' m'" using Suc.prems 1 by (cases "pv (skip s) mem1") auto
  then have "typed c \<and> item_name c = None" using assms unfolding builds_typed_def by blast
  then show ?case using Suc 1 2 by (auto simp: Let_def split: if_splits)
qed simp

lemma members_typed:
  assumes "builds_typed pv"
  shows "\<lbrakk>parse_members pv k s acc mem = Done i r m; list_all (\<lambda>c. typed c \<and> item_name c \<noteq> None) acc\<rbrakk>
    \<Longrightarrow> typed i \<and> item_name i = None"
proof (induction k arbitrary: s acc mem)
  case (Suc k)
  obtain mem1 where 1: "alloc mem = Some mem1" using Suc.prems by (cases "alloc mem") auto
  obtain n r1 m1 where 2: "parse_string (skip s) mem1 = Done n r1 m1" "next_is (CHR '':'') (skip r1)"
    using Suc.prems 1 by (cases "parse_string (skip s) mem1") (auto simp: Let_def split: if_splits)
  obtain c r2 m2 where 3: "pv (skip (tl (skip r1))) m1 = Done c r2 m2"
    using Suc.prems 1 2 by (cases "pv (skip (tl (skip r1))) m1") (auto simp: Let_def)
  then have "typed c" using assms unfolding builds_typed_def by blast
  then have "typed (set_name n c) \<and> item_name (set_name n c) \<noteq> None" by (simp add: typed_set_name)
  then show ?case using Suc 1 2 3 by (auto simp: Let_def split: if_splits)
qed simp

lemma parse_value_kinds:
  assumes "parse_value fe (Suc n) s mem = Done i r m"
  shows "i \<in> {Item cJSON_NULL None 0 0 None [], Item cJSON_False None 0 0 None [], Item cJSON_True None 1 0 None []}
    \<or> (\<exists>out. i = Item cJSON_String (Some out) 0 0 None []) \<or> i = fst (parse_number fe s)
    \<or> parse_array (parse_value fe n) n s mem = Done i r m \<or> parse_object (parse_value fe n) n s mem = Done i r m"
  using assms unfolding parse_value.simps Let_def case_prod_unfold
  by (cases "parse_string s mem") (auto simp del: parse_value.simps split: if_splits)

lemma parse_value_typed: "builds_typed (parse_value fe n)"
proof (induction n)
  case 0
  show ?case by (simp add: builds_typed_def)
next
  case (Suc n)
  have arr: "parse_array (parse_value fe n) n s mem = Done i r m \<Longrightarrow> typed i \<and> item_name i = None" for s mem i r m
    using elements_typed [OF Suc] by (auto simp: parse_array_def Let_def split: if_splits)
  have obj: "parse_object (parse_value fe n) n s mem = Done i r m \<Longrightarrow> typed i \<and> item_name i = None" for s mem i r m
    using members_typed [OF Suc] by (auto simp: parse_object_def Let_def split: if_splits)
  have "typed i \<and> item_name i = None" if "parse_value fe (Suc n) s mem = Done i r m" for s mem i r m
    using parse_value_kinds [OF that] parse_number_typed [of fe s] arr [of s mem i r m] obj [of s mem i r m]
    by (elim disjE exE) auto
  then show ?case unfolding builds_typed_def by blast
qed

subsection \<open>What the printer writes\<close>

text \<open>Items that a text can give: the fields its type does not use are 0, numbers are integers, and no string holds a NUL.\<close>

definition text_ok :: "string \<Rightarrow> bool" where
  "text_ok s \<longleftrightarrow> CHR 0x00 \<notin> set s"

fun json_ok :: "cJSON \<Rightarrow> bool" where
  "json_ok (Item ty vs vi vd nm cs) =
     (case ty of
        cJSON_NULL \<Rightarrow> vs = None \<and> vi = 0 \<and> vd = 0 \<and> cs = []
      | cJSON_False \<Rightarrow> vs = None \<and> vi = 0 \<and> vd = 0 \<and> cs = []
      | cJSON_True \<Rightarrow> vs = None \<and> vi = 1 \<and> vd = 0 \<and> cs = []
      | cJSON_Number \<Rightarrow> vs = None \<and> INT_MIN \<le> vi \<and> vi \<le> INT_MAX \<and> vd = real_of_int vi \<and> cs = []
      | cJSON_String \<Rightarrow> vs \<noteq> None \<and> text_ok (the vs) \<and> vi = 0 \<and> vd = 0 \<and> cs = []
      | cJSON_Array \<Rightarrow> vs = None \<and> vi = 0 \<and> vd = 0 \<and> list_all (\<lambda>c. json_ok c \<and> item_name c = None) cs
      | cJSON_Object \<Rightarrow> vs = None \<and> vi = 0 \<and> vd = 0
          \<and> list_all (\<lambda>c. json_ok c \<and> item_name c \<noteq> None \<and> text_ok (the (item_name c))) cs)"

definition escape :: "string \<Rightarrow> string" where
  "escape s = quote # concat (map escape_char s) @ [quote]"

fun render :: "bool \<Rightarrow> nat \<Rightarrow> cJSON \<Rightarrow> string" where
  "render fmt depth (Item ty vs vi vd nm cs) =
     (case ty of
        cJSON_NULL \<Rightarrow> ''null'' | cJSON_False \<Rightarrow> ''false'' | cJSON_True \<Rightarrow> ''true''
      | cJSON_Number \<Rightarrow> sprintf_d vi
      | cJSON_String \<Rightarrow> escape (the vs)
      | cJSON_Array \<Rightarrow> ''['' @ join_entries fmt (map (render fmt (depth + 1)) cs) @ '']''
      | cJSON_Object \<Rightarrow>
          if cs = [] then ''{'' @ (if fmt then newline # replicate (depth - 1) tabulator else []) @ ''}''
          else ''{'' @ (if fmt then [newline] else [])
            @ join_members fmt (depth + 1) (map (\<lambda>c. (escape (the (item_name c)), render fmt (depth + 1) c)) cs)
            @ (if fmt then replicate depth tabulator else []) @ ''}'')"

text \<open>What the floating-point unit does to the integers that fit an \<open>int\<close>, which a double holds exactly.\<close>

definition fp_exact :: "fp_env \<Rightarrow> bool" where
  "fp_exact fe \<longleftrightarrow> (\<forall>i. \<bar>i\<bar> \<le> 2 ^ 53 \<longrightarrow> fp_round fe (real_of_int i) = real_of_int i) \<and> fp_pow10 fe 0 = 1"

lemma fp_exact_nat: "fp_exact fe \<Longrightarrow> n \<le> 2 ^ 53 \<Longrightarrow> fp_round fe (real n) = real n"
  unfolding fp_exact_def by (metis abs_of_nat of_int_of_nat_eq of_nat_le_numeral_power_cancel_iff)

lemma length_decimal: "n < 10 ^ k \<Longrightarrow> 0 < k \<Longrightarrow> length (decimal n) \<le> k"
proof (induction k arbitrary: n)
  case (Suc k)
  show ?case
  proof (cases "n < 10")
    case True
    then show ?thesis by (simp add: decimal.simps [of n])
  next
    case False
    then have "0 < k" using Suc.prems(1) by (cases k) simp_all
    moreover have "n div 10 < 10 ^ k" using Suc.prems(1) by (simp add: less_mult_imp_div_less mult.commute)
    ultimately show ?thesis
      using Suc.IH [of "n div 10"] False by (simp add: decimal.simps [of n])
  qed
qed simp

lemma length_sprintf_d:
  assumes "INT_MIN \<le> i" "i \<le> INT_MAX"
  shows "length (sprintf_d i) \<le> 11"
proof -
  have "nat i < 10 ^ 10" "nat (- i) < 10 ^ 10"
    using assms by (simp_all add: INT_MIN_def INT_MAX_def nat_less_iff)
  then have "length (decimal (nat i)) \<le> 10" "length (decimal (nat (- i))) \<le> 10"
    by (simp_all add: length_decimal)
  then show ?thesis by (simp add: sprintf_d_def)
qed

lemma zero_char: "char_of (48 :: nat) = CHR ''0''"
  using char_of_char [of "CHR ''0''", where 'a = nat] by simp

text \<open>The text in one block, or null.\<close>

definition one_block :: "'a \<Rightarrow> nat \<Rightarrow> 'a printed" where
  "one_block x mem = (if 1 \<le> mem then Text x (mem - 1) else Null 0)"

lemma fits_block: "length out < n \<Longrightarrow> fits n out mem = one_block out mem"
  by (cases mem) (simp_all add: fits_def one_block_def)

lemma print_number_int:
  assumes "fp_exact fe" "INT_MIN \<le> i" "i \<le> INT_MAX"
  shows "print_number fe i (real_of_int i) mem = one_block (sprintf_d i) mem"
proof -
  have "fp_round fe 0 = 0" using fp_exact_nat [OF assms(1), of 0] by simp
  then show ?thesis
    using length_sprintf_d [OF assms(2,3)] assms(2,3)
    by (simp add: print_number_def fits_block sprintf_d_def decimal.simps [of 0] DBL_EPSILON_def zero_char)
qed

lemma escape_size: "length (escape_char c) = escape_size c"
  by (auto simp: escape_char_def escape_size_def code_def)

lemma code_zero: "code c = 0 \<longleftrightarrow> c = CHR 0x00"
proof
  assume "code c = 0"
  then have "c = char_of (0 :: nat)" by (metis char_of_char code_def)
  then show "c = CHR 0x00" by (simp add: char_of_def)
qed (simp add: code_def)

lemma print_string_escape: "text_ok s \<Longrightarrow> print_string_ptr (Some s) mem = one_block (escape s) mem"
proof -
  assume ok: "text_ok s"
  have len: "length (concat (map escape_char s)) = sum_list (map escape_size s)"
    by (induction s) (simp_all add: escape_size)
  show ?thesis
  proof (cases "list_all (\<lambda>c. \<not> (0 < code c \<and> code c < 32) \<and> c \<noteq> quote \<and> c \<noteq> backslash) s")
    case True
    have "code c = 0 \<longleftrightarrow> c = CHR 0x00" for c
      by (rule code_zero)
    then have "escape_char c = [c]" if "c \<in> set s" for c
      using that True ok by (fastforce simp: escape_char_def list_all_iff text_ok_def)
    then have "concat (map escape_char s) = s" by (induction s) simp_all
    then show ?thesis using True by (simp add: print_string_ptr_def fits_block escape_def)
  next
    case False
    then show ?thesis by (simp add: print_string_ptr_def fits_block escape_def len)
  qed
qed


lemma length_join_entries: "length (join_entries fmt es) \<le> sum_list (map (\<lambda>e. length e + 2 + (if fmt then 1 else 0)) es)"
  by (induction fmt es rule: join_entries.induct) (auto split: if_splits)

lemma length_join_members:
  "length (join_members fmt depth es)
     \<le> sum_list (map (\<lambda>(n, e). length e + length n + 2 + (if fmt then 2 + depth else 0)) es)"
  by (induction fmt depth es rule: join_members.induct) (auto split: if_splits)

text \<open>The blocks that printing takes.\<close>

fun prints :: "cJSON \<Rightarrow> nat" where
  "prints (Item ty vs vi vd nm cs) =
     (case ty of
        cJSON_Array \<Rightarrow> if cs = [] then 1 else 2 + sum_list (map prints cs)
      | cJSON_Object \<Rightarrow> if cs = [] then 1 else 3 + sum_list (map (\<lambda>c. 1 + prints c) cs)
      | _ \<Rightarrow> 1)"

definition in_blocks :: "nat \<Rightarrow> 'a \<Rightarrow> nat \<Rightarrow> 'a printed" where
  "in_blocks n x mem = (if n \<le> mem then Text x (mem - n) else Null 0)"

lemma one_block: "one_block x mem = in_blocks 1 x mem"
  by (simp add: one_block_def in_blocks_def)

lemma compose_array_block: "compose_array fmt es mem = in_blocks 1 (''['' @ join_entries fmt es @ '']'') mem"
  unfolding compose_array_def one_block [symmetric]
  using length_join_entries [of fmt es] by (intro fits_block) simp

lemma compose_object_block:
  "compose_object fmt depth es mem = in_blocks 1 (''{'' @ (if fmt then [newline] else [])
     @ join_members fmt (depth + 1) es @ (if fmt then replicate depth tabulator else []) @ ''}'') mem"
  unfolding compose_object_def one_block [symmetric]
  using length_join_members [of fmt "depth + 1" es] by (intro fits_block) auto

text \<open>
  Printing an item that is in order never writes behind a block: it gives the text of the item, or null exactly when the memory does
  not suffice.
\<close>

lemma in_blocks_case:
  "(case in_blocks n x mem of Text y m \<Rightarrow> f y m | Null m \<Rightarrow> g m | Overflow \<Rightarrow> h) = (if n \<le> mem then f x (mem - n) else g 0)"
  "failed (in_blocks n x mem) = Null (mem - n)"
  by (simp_all add: in_blocks_def)

lemma print_value_renders:
  assumes fe: "fp_exact fe"
  shows "json_ok i \<Longrightarrow> print_value fe fmt depth i mem = in_blocks (prints i) (render fmt depth i) mem"
    and "list_all json_ok cs
      \<Longrightarrow> print_entries fe fmt depth cs mem = in_blocks (sum_list (map prints cs)) (map (render fmt depth) cs) mem"
    and "list_all (\<lambda>c. json_ok c \<and> item_name c \<noteq> None \<and> text_ok (the (item_name c))) cs
      \<Longrightarrow> print_members fe fmt depth cs mem = in_blocks (sum_list (map (\<lambda>c. 1 + prints c) cs))
            (map (\<lambda>c. (escape (the (item_name c)), render fmt depth c)) cs) mem"
  using fe
proof (induction fe fmt depth i mem and fe fmt depth cs mem and fe fmt depth cs mem
    rule: print_value_print_entries_print_members.induct)
  case (1 fe fmt depth ty vs vi vd nm cs mem)
  show ?case
  proof (cases ty)
    case cJSON_Array
    show ?thesis
    proof (cases "cs = [] \<or> mem = 0")
      case True
      then show ?thesis using cJSON_Array by (auto simp: fits_block one_block in_blocks_def)
    next
      case False
      then obtain m where m: "mem = Suc m" "cs \<noteq> []" by (cases mem) auto
      have "print_entries fe fmt (depth + 1) cs m = in_blocks (sum_list (map prints cs)) (map (render fmt (depth + 1)) cs) m"
        using 1(1) [OF cJSON_Array m(2)] 1(3,4) cJSON_Array m by (simp add: list_all_iff)
      then show ?thesis using cJSON_Array m by (simp add: in_blocks_case compose_array_block) (auto simp: in_blocks_def)
    qed
  next
    case cJSON_Object
    show ?thesis
    proof (cases "cs = [] \<or> mem = 0 \<or> mem = 1")
      case True
      then show ?thesis using cJSON_Object by (auto simp: fits_block one_block in_blocks_def)
    next
      case False
      then obtain m where m: "mem = Suc (Suc m)" "cs \<noteq> []" by (cases mem; cases "mem - 1") auto
      have "print_members fe fmt (depth + 1) cs m = in_blocks (sum_list (map (\<lambda>c. 1 + prints c) cs))
            (map (\<lambda>c. (escape (the (item_name c)), render fmt (depth + 1) c)) cs) m"
        using 1(2) [OF cJSON_Object m(2)] 1(3,4) cJSON_Object m by simp
      then show ?thesis using cJSON_Object m by (simp add: in_blocks_case compose_object_block) (auto simp: in_blocks_def)
    qed
  next
    case cJSON_Number
    then show ?thesis using 1 print_number_int [of fe] by (simp add: one_block)
  next
    case cJSON_String
    then show ?thesis using 1(3) print_string_escape by (auto simp: one_block)
  qed (simp_all add: fits_block one_block)
next
  case (2 fe fmt depth mem)
  show ?case by (simp add: in_blocks_def)
next
  case (3 fe fmt depth c cs mem)
  then show ?case by (simp add: in_blocks_case) (auto simp: in_blocks_def)
next
  case (4 fe fmt depth mem)
  show ?case by (simp add: in_blocks_def)
next
  case (5 fe fmt depth c cs mem)
  obtain n where "item_name c = Some n" "text_ok n" using 5 by auto
  then show ?case using 5 print_string_escape [of n mem]
    by (simp add: one_block in_blocks_case) (auto simp: in_blocks_def)
qed

subsection \<open>Reading back strings\<close>

lemma hex_digit_char: "n < 16 \<Longrightarrow> hex_digit (hex_char n) = Some (of_nat n)"
  by (auto simp: hex_digit_def hex_char_def digit_def code_def)

lemma raw_hex_char: "n < 16 \<Longrightarrow> raw_char (hex_char n)"
proof -
  assume "n < 16"
  then have "code (hex_char n) \<ge> 48" "code (hex_char n) \<noteq> 92"
    by (auto simp: hex_char_def code_def)
  then show ?thesis by (auto simp: raw_char_def code_def)
qed

lemma code_less: "code c < 256"
  by (simp add: code_def)

lemma hex4_code: "parse_hex4 (CHR ''0'' # CHR ''0'' # hex_char (code c div 16) # hex_char (code c mod 16) # s) = of_nat (code c)"
proof -
  have "code c div 16 < 16" using code_less [of c] by (simp add: less_mult_imp_div_less)
  then have "parse_hex4 (CHR ''0'' # CHR ''0'' # hex_char (code c div 16) # hex_char (code c mod 16) # s)
      = push_bit 4 (of_nat (code c div 16)) + of_nat (code c mod 16)"
    by (simp add: parse_hex4_def hex_digit_char hex_digit_def [of "CHR ''0''"] digit_def code_def [of "CHR ''0''"])
  also have "\<dots> = of_nat (code c div 16 * 16 + code c mod 16)"
    unfolding push_bit_eq_mult by (simp only: of_nat_add of_nat_mult) simp
  also have "\<dots> = of_nat (code c)"
    by (simp only: div_mult_mod_eq)
  finally show ?thesis .
qed

lemma utf8_code: "code c < 128 \<Longrightarrow> utf8_encode (of_nat (code c)) = [c]"
proof -
  assume c: "code c < 128"
  then have "(of_nat (code c) :: u32) < 0x80" by (simp add: word_less_nat_alt unat_of_nat)
  moreover have "byte (of_nat (code c)) = c"
    using c by (simp add: byte_def unat_of_nat code_def)
  ultimately show ?thesis by (simp add: utf8_encode_def)
qed

lemma string_copy_simple_escape:
  "d \<noteq> CHR ''u'' \<Longrightarrow> string_copy (backslash # d # s) = map_option (apfst ((@) [unescape d])) (string_copy s)"
  by (simp add: string_copy.simps [of "backslash # d # s"])

lemma string_copy_code_escape:
  assumes "0 < code c" "code c < 32"
  shows "string_copy (backslash # CHR ''u'' # CHR ''0'' # CHR ''0'' # hex_char (code c div 16) # hex_char (code c mod 16) # s)
    = map_option (apfst ((@) [c])) (string_copy s)"
proof -
  define w :: u32 where "w = of_nat (code c)"
  have "w < 0x80" "w \<noteq> 0"
    using assms by (simp_all add: w_def word_less_nat_alt unat_of_nat word_of_nat_eq_0_iff nat_dvd_not_less)
  then have w: "\<not> 0xDC00 \<le> w" "\<not> 0xD800 \<le> w" "w \<noteq> 0"
    by (auto simp: not_le elim: less_trans)
  have "utf8_encode w = [c]" "parse_hex4 (CHR ''0'' # CHR ''0'' # hex_char (code c div 16) # hex_char (code c mod 16) # s) = w"
    using assms(2) utf8_code [of c] hex4_code by (simp_all add: w_def)
  then show ?thesis
    using w by (subst string_copy.simps) (simp add: Let_def)
qed

lemma escape_cases:
  assumes "c \<noteq> CHR 0x00"
  obtains "escape_char c = [c]" "raw_char c"
  | d where "escape_char c = [backslash, d]" "d \<noteq> CHR ''u''" "unescape d = c"
  | "escape_char c = backslash # CHR ''u'' # CHR ''0'' # CHR ''0'' # hex_char (code c div 16) # [hex_char (code c mod 16)]"
    "0 < code c" "code c < 32"
proof (cases "code c > 31 \<and> c \<noteq> quote \<and> c \<noteq> backslash")
  case True
  then show ?thesis using that(1) by (simp add: escape_char_def raw_char_def)
next
  case esc: False
  show ?thesis
  proof (cases "c \<in> {quote, backslash, CHR 0x08, CHR 0x0C, CHR 0x0A, CHR 0x0D, CHR 0x09}")
    case True
    then show ?thesis
      using that(2) by (auto simp: escape_char_def unescape.simps code_def)
  next
    case False
    moreover have "0 < code c" using assms code_zero [of c] by simp
    ultimately show ?thesis using that(3) esc by (auto simp: escape_char_def)
  qed
qed

lemma string_copy_char: "c \<noteq> CHR 0x00 \<Longrightarrow> string_copy (escape_char c @ s) = map_option (apfst ((@) [c])) (string_copy s)"
  by (erule escape_cases) (simp_all add: string_copy_raw string_copy_simple_escape string_copy_code_escape)

lemma string_len_char: "c \<noteq> CHR 0x00 \<Longrightarrow> \<exists>k. string_len (escape_char c @ s) = map_option ((+) (Suc k)) (string_len s)"
proof (erule escape_cases, goal_cases)
  case 1
  then show ?case by (intro exI [of _ 0]) (simp add: string_len_raw fun_eq_iff cong: map_option_cong)
next
  case (2 d)
  then show ?case by (intro exI [of _ 0]) (simp cong: map_option_cong)
next
  case 3
  have "raw_char (hex_char (code c div 16))" "raw_char (hex_char (code c mod 16))"
    using code_less [of c] by (simp_all add: raw_hex_char less_mult_imp_div_less)
  then have h: "hex_char (code c div 16) \<noteq> quote" "hex_char (code c div 16) \<noteq> backslash"
      "\<And>t. string_len (hex_char (code c mod 16) # t) = map_option Suc (string_len t)"
    by (simp_all add: raw_char_def string_len_raw)
  from 3 show ?case
    by (intro exI [of _ 4]) (cases "string_len s"; simp add: h)
qed

lemma string_copy_escape: "text_ok w \<Longrightarrow> string_copy (concat (map escape_char w) @ s) = map_option (apfst ((@) w)) (string_copy s)"
proof (induction w)
  case Nil
  then show ?case by (cases "string_copy s") auto
next
  case (Cons c w)
  then show ?case by (cases "string_copy s") (auto simp: string_copy_char text_ok_def)
qed

lemma string_len_escape:
  "text_ok w \<Longrightarrow> \<exists>k \<ge> length w. string_len (concat (map escape_char w) @ quote # s) = Some k"
proof (induction w)
  case Nil
  then show ?case by (simp add: string_len_quote)
next
  case (Cons c w)
  then obtain k where k: "length w \<le> k" "string_len (concat (map escape_char w) @ quote # s) = Some k"
    by (auto simp: text_ok_def)
  obtain j where "string_len (escape_char c @ concat (map escape_char w) @ quote # s) = Some (Suc j + k)"
    using string_len_char [of c "concat (map escape_char w) @ quote # s"] Cons.prems k(2) by (auto simp: text_ok_def)
  then show ?case using k(1) by auto
qed

lemma parse_string_escape:
  assumes "text_ok w"
  shows "parse_string (escape w @ rest) (Suc mem) = Done w rest mem"
proof -
  obtain k where "length w \<le> k" "string_len (concat (map escape_char w) @ quote # rest) = Some k"
    using string_len_escape [OF assms] by blast
  then show ?thesis
    by (simp add: parse_string_def escape_def string_copy_escape [OF assms] string_copy_quote)
qed


subsection \<open>Reading back numbers\<close>

definition ends :: "string \<Rightarrow> bool" where
  "ends rest \<longleftrightarrow> rest = [] \<or> \<not> digit (hd rest) \<and> hd rest \<notin> {CHR ''.'', CHR ''e'', CHR ''E''}"

lemma digit_char: "k < 10 \<Longrightarrow> digit (char_of (48 + k)) \<and> digit_value (char_of (48 + k)) = k"
  by (simp add: digit_def digit_value_def code_def)

lemma decimal_digits: "\<forall>c \<in> set (decimal n). digit c"
proof (induction n rule: decimal.induct)
  case (1 n)
  then show ?case
    using digit_char [of n] digit_char [of "n mod 10"] by (subst decimal.simps) auto
qed

lemma decimal_not_empty: "decimal n \<noteq> []"
  by (subst decimal.simps) simp

lemma decimal_head: "0 < n \<Longrightarrow> hd (decimal n) \<noteq> CHR ''0''"
proof (induction n rule: decimal.induct)
  case (1 n)
  show ?case
  proof (cases "n < 10")
    case True
    have "code (char_of (48 + n)) = 48 + n" using True by (simp add: code_def)
    moreover have "code (CHR ''0'') = 48" by (simp add: code_def)
    ultimately have "char_of (48 + n) \<noteq> CHR ''0''" using "1.prems" by force
    then show ?thesis using True by (subst decimal.simps) simp
  next
    case False
    then show ?thesis
      using 1 decimal_not_empty [of "n div 10"] by (subst decimal.simps) (simp add: hd_append)
  qed
qed

lemma accumulate_snoc:
  "accumulate fe n (ds @ [c]) = fp_round fe (fp_round fe (accumulate fe n ds * 10) + real (digit_value c))"
  by (simp add: accumulate_def)

lemma accumulate_decimal:
  assumes "fp_exact fe"
  shows "n \<le> 2 ^ 53 \<Longrightarrow> accumulate fe 0 (decimal n) = real n"
proof (induction n rule: decimal.induct)
  case (1 n)
  have zero: "fp_round fe 0 = 0" using fp_exact_nat [OF assms, of 0] by simp
  show ?case
  proof (cases "n < 10")
    case True
    then show ?thesis
      using digit_char [of n] fp_exact_nat [OF assms "1.prems"] zero by (subst decimal.simps) (simp add: accumulate_def)
  next
    case False
    have le: "n div 10 \<le> 2 ^ 53" "n div 10 * 10 \<le> 2 ^ 53" using "1.prems" by linarith+
    have "fp_round fe (real (n div 10) * 10) = real (n div 10 * 10)"
      using fp_exact_nat [OF assms le(2)] by simp
    moreover have "real (n div 10 * 10) + real (n mod 10) = real n"
      by (metis div_mult_mod_eq of_nat_add)
    ultimately show ?thesis
      using False "1.IH" [OF False le(1)] digit_char [of "n mod 10"] fp_exact_nat [OF assms "1.prems"]
      by (subst decimal.simps) (simp add: accumulate_snoc)
  qed
qed

lemma span_digits:
  assumes "\<forall>c \<in> set ds. digit c" "ends rest"
  shows "takeWhile digit (ds @ rest) = ds" "dropWhile digit (ds @ rest) = rest"
  using assms by (induction ds) (cases rest; auto simp: ends_def)+

lemma ends_nothing:
  assumes "ends rest"
  shows "parse_fraction fe n rest = (n, 0, rest)" "exponent rest = (0, rest)"
  using assms by (auto simp: ends_def parse_fraction_def exponent_def next_is_def)

lemma parse_digits_decimal:
  assumes "fp_exact fe" "n \<le> 2 ^ 53" "ends rest"
  shows "parse_digits fe (decimal n @ rest) = (real n, rest)"
proof (cases "n = 0")
  case True
  then have "decimal n = ''0''" by (simp add: decimal.simps [of 0] zero_char)
  then show ?thesis
    using True assms(3) by (auto simp: parse_digits_def next_is_def ends_def)
next
  case False
  have hd: "decimal n @ rest \<noteq> []" "hd (decimal n @ rest) = hd (decimal n)"
    using decimal_not_empty [of n] by simp_all
  have "digit (hd (decimal n))" using decimal_digits [of n] decimal_not_empty [of n] by simp
  moreover have "hd (decimal n) \<noteq> CHR ''0''" using decimal_head False by simp
  ultimately show ?thesis
    using hd span_digits [OF decimal_digits assms(3), of n] accumulate_decimal [OF assms(1,2)]
    by (simp add: parse_digits_def next_is_def)
qed

lemma int_of_double_int: "INT_MIN \<le> i \<Longrightarrow> i \<le> INT_MAX \<Longrightarrow> int_of_double (real_of_int i) = i"
  by (simp add: int_of_double_def)

lemma parse_number_sprintf:
  assumes "fp_exact fe" "INT_MIN \<le> i" "i \<le> INT_MAX" "ends rest"
  shows "parse_number fe (sprintf_d i @ rest) = (Item cJSON_Number None i (real_of_int i) None [], rest)"
proof -
  let ?n = "nat \<bar>i\<bar>"
  have n: "?n \<le> 2 ^ 53" "\<bar>i\<bar> \<le> 2 ^ 53" using assms(2,3) by (simp_all add: INT_MIN_def INT_MAX_def nat_le_iff)
  have "digit (hd (decimal ?n @ rest))" "\<not> digit (CHR ''-'')"
    using decimal_digits [of ?n] decimal_not_empty [of ?n] by (simp_all add: digit_def code_def)
  then have "hd (decimal ?n @ rest) \<noteq> CHR ''-''" by metis
  then have sign: "parse_sign (sprintf_d i @ rest) = (if i < 0 then - 1 else 1, decimal ?n @ rest)"
    by (auto simp: parse_sign_def sprintf_d_def next_is_def)
  have "(if i < 0 then - 1 else 1) * real ?n = real_of_int i" by simp
  then have "fp_round fe ((if i < 0 then - 1 else 1) * real ?n * fp_pow10 fe 0) = real_of_int i"
    using assms(1) n(2) by (simp add: fp_exact_def)
  then show ?thesis
    unfolding parse_number_def sign Let_def case_prod_conv parse_digits_decimal [OF assms(1) n(1) assms(4)]
      ends_nothing [OF assms(4)]
    by (simp add: int_of_double_int [OF assms(2,3)])
qed


subsection \<open>Reading back items\<close>

definition starts :: "string \<Rightarrow> bool" where
  "starts s \<longleftrightarrow> s \<noteq> [] \<and> code (hd s) > 32"

definition white :: "string \<Rightarrow> bool" where
  "white ws \<longleftrightarrow> (\<forall>c \<in> set ws. code c \<le> 32)"

lemma skip_white: "white ws \<Longrightarrow> starts s \<Longrightarrow> skip (ws @ s) = s"
proof -
  assume "white ws" "starts s"
  moreover obtain c t where "s = c # t" using \<open>starts s\<close> by (cases s) (auto simp: starts_def)
  ultimately show ?thesis by (induction ws) (auto simp: skip_def starts_def white_def)
qed

lemma skip_starts: "starts s \<Longrightarrow> skip s = s"
  using skip_white [of "[]" s] by (simp add: white_def)

lemma starts_Cons: "code c > 32 \<Longrightarrow> starts (c # s)"
  by (simp add: starts_def)

lemma starts_append: "starts s \<Longrightarrow> starts (s @ t)"
  by (simp add: starts_def)

lemma white_simps: "white []" "white (replicate k tabulator)" "white [newline]" "white [tabulator]" "white '' ''"
  "white (newline # replicate k tabulator)" "white a \<Longrightarrow> white b \<Longrightarrow> white (a @ b)"
  by (auto simp: white_def code_def)

lemma starts_digit: "s \<noteq> [] \<Longrightarrow> digit (hd s) \<Longrightarrow> starts s"
  by (simp add: starts_def digit_def)

lemma sprintf_head: "next_is (CHR ''-'') (sprintf_d i) \<or> sprintf_d i \<noteq> [] \<and> digit (hd (sprintf_d i))"
  using decimal_not_empty [of "nat i"] decimal_digits [of "nat i"] by (simp add: sprintf_d_def next_is_def)

lemma starts_render: "starts (render fmt depth i)"
proof (cases i)
  case (Item ty vs vi vd nm cs)
  have "starts (sprintf_d vi)"
    using sprintf_head [of vi] starts_digit [of "sprintf_d vi"] by (auto simp: starts_def next_is_def code_def)
  then show ?thesis
    using Item by (cases ty) (auto simp: starts_def escape_def code_def)
qed

lemma render_head: "hd (render fmt depth i) \<noteq> CHR '']'' \<and> render fmt depth i \<noteq> []"
proof (cases i)
  case (Item ty vs vi vd nm cs)
  have "hd (sprintf_d vi) \<noteq> CHR '']'' \<and> sprintf_d vi \<noteq> []"
    using sprintf_head [of vi] by (auto simp: next_is_def digit_def code_def)
  then show ?thesis using Item by (cases ty) (auto simp: escape_def)
qed

fun allocs :: "cJSON \<Rightarrow> nat" where
  "allocs (Item ty vs vi vd nm cs) =
     (if vs = None then 0 else 1) + sum_list (map (\<lambda>c. (if item_name c = None then 1 else 2) + allocs c) cs)"

definition unnamed :: "cJSON \<Rightarrow> cJSON" where
  "unnamed i = Item (item_type i) (valuestring i) (valueint i) (valuedouble i) None (child i)"

lemma unnamed_same: "item_name c = None \<Longrightarrow> unnamed c = c"
  by (cases c) (simp add: unnamed_def)

lemma set_name_unnamed: "item_name c = Some n \<Longrightarrow> set_name n (unnamed c) = c"
  by (cases c) (simp add: unnamed_def set_name_def)

text \<open>What the loops need to know of \<open>parse_value\<close> at one item.\<close>

definition reads :: "(string \<Rightarrow> nat \<Rightarrow> cJSON parsed) \<Rightarrow> nat \<Rightarrow> string \<Rightarrow> cJSON \<Rightarrow> bool" where
  "reads pv n text c \<longleftrightarrow> (\<forall>rest mem. ends rest \<longrightarrow> length (text @ rest) < n \<longrightarrow>
     pv (text @ rest) (allocs c + mem) = Done (unnamed c) rest mem)"

lemma readsD:
  "reads pv n text c \<Longrightarrow> ends rest \<Longrightarrow> length (text @ rest) < n \<Longrightarrow> pv (text @ rest) (allocs c + mem) = Done (unnamed c) rest mem"
  by (simp add: reads_def)

lemma ends_Cons: "\<not> digit c \<Longrightarrow> c \<notin> {CHR ''.'', CHR ''e'', CHR ''E''} \<Longrightarrow> ends (c # s)"
  by (simp add: ends_def)

lemma punctuation:
  "ends ('','' @ s)" "ends ('']'' @ s)" "ends (''}'' @ s)" "ends (newline # s)" "starts ('','' @ s)" "starts ('']'' @ s)"
  "starts (''}'' @ s)" "starts ('':'' @ s)"
  by (auto simp: ends_def starts_def digit_def code_def)

lemma elements_read:
  assumes "\<forall>c \<in> set (c0 # cs). reads pv n (txt c) c \<and> starts (txt c) \<and> item_name c = None"
    and "white ws" "length (ws @ join_entries fmt (map txt (c0 # cs)) @ '']'' @ rest) < k" "k \<le> n"
  shows "parse_elements pv k (ws @ join_entries fmt (map txt (c0 # cs)) @ '']'' @ rest) acc
      (sum_list (map (\<lambda>c. 1 + allocs c) (c0 # cs)) + mem)
    = Done (Item cJSON_Array None 0 0 None (acc @ c0 # cs)) rest mem"
  using assms
proof (induction cs arbitrary: c0 ws k acc)
  case Nil
  obtain k' where k: "k = Suc k'" using Nil.prems(3) by (cases k) simp_all
  have c: "reads pv n (txt c0) c0" "starts (txt c0)" "unnamed c0 = c0" using Nil.prems(1) unnamed_same by auto
  have "pv (txt c0 @ '']'' @ rest) (allocs c0 + mem) = Done c0 ('']'' @ rest) mem"
    using c(1,3) punctuation(2) Nil.prems(3,4) by (simp add: reads_def)
  then show ?case
    using k skip_white [OF Nil.prems(2) starts_append [OF c(2)]] skip_starts [OF punctuation(6)] 
    by (simp add: Let_def next_is_def)
next
  case (Cons c1 cs)
  obtain k' where k: "k = Suc k'" using Cons.prems(3) by (cases k) simp_all
  have c: "reads pv n (txt c0) c0" "starts (txt c0)" "unnamed c0 = c0" using Cons.prems(1) unnamed_same by auto
  let ?ws = "if fmt then '' '' else []"
  let ?tail = "?ws @ join_entries fmt (map txt (c1 # cs)) @ '']'' @ rest"
  let ?mem = "sum_list (map (\<lambda>c. 1 + allocs c) (c1 # cs)) + mem"
  have pv: "pv (txt c0 @ '','' @ ?tail) (allocs c0 + ?mem) = Done c0 ('','' @ ?tail) ?mem"
  proof -
    have "length (txt c0 @ '','' @ ?tail) < n" using Cons.prems(3,4) by simp
    from readsD [OF c(1) punctuation(1) this] show ?thesis by (simp only: c(3))
  qed
  have ws: "white ?ws" by (simp add: white_simps)
  have IH: "parse_elements pv k' ?tail (acc @ [c0]) ?mem
      = Done (Item cJSON_Array None 0 0 None ((acc @ [c0]) @ c1 # cs)) rest mem"
    by (rule Cons.IH [OF _ ws]) (use Cons.prems k in auto)
  have s: "skip (ws @ join_entries fmt (map txt (c0 # c1 # cs)) @ '']'' @ rest) = txt c0 @ '','' @ ?tail"
    using skip_white [OF Cons.prems(2) starts_append [OF c(2)], of "'','' @ ?tail"] by simp
  have m: "alloc (sum_list (map (\<lambda>c. 1 + allocs c) (c0 # c1 # cs)) + mem) = Some (allocs c0 + ?mem)"
    by (simp add: add.assoc)
  have sk: "skip ('','' @ ?tail) = '','' @ ?tail" by (rule skip_starts [OF punctuation(5)])
  show ?case
    unfolding k parse_elements.simps m option.case s pv parsed.case Let_def sk
    using IH by (simp add: next_is_def)
qed


definition member_text :: "(cJSON \<Rightarrow> string) \<Rightarrow> cJSON \<Rightarrow> string \<times> string" where
  "member_text txt c = (escape (the (item_name c)), txt c)"

lemma starts_escape: "starts (escape s)"
  by (simp add: starts_def escape_def code_def)

text \<open>What follows a member: the rest of the members, or the end of the object.\<close>

lemma members_read:
  assumes "\<forall>c \<in> set (c0 # cs). reads pv n (txt c) c \<and> starts (txt c) \<and> item_name c \<noteq> None \<and> text_ok (the (item_name c))"
    and "white ws" "white ws'" "k \<le> n"
    and "length (ws @ join_members fmt d (map (member_text txt) (c0 # cs)) @ ws' @ ''}'' @ rest) < k"
  shows "parse_members pv k (ws @ join_members fmt d (map (member_text txt) (c0 # cs)) @ ws' @ ''}'' @ rest) acc
      (sum_list (map (\<lambda>c. 2 + allocs c) (c0 # cs)) + mem)
    = Done (Item cJSON_Object None 0 0 None (acc @ c0 # cs)) rest mem"
  using assms
proof (induction cs arbitrary: c0 ws k acc)
  case (Nil c0)
  obtain k' where k: "k = Suc k'" using Nil.prems(5) by (cases k) simp_all
  obtain nm where nm: "item_name c0 = Some nm" "text_ok nm" using Nil.prems(1) by auto
  have c: "reads pv n (txt c0) c0" "starts (txt c0)" using Nil.prems(1) by auto
  let ?tabs = "if fmt then replicate d tabulator else []" and ?tab = "if fmt then [tabulator] else []"
    and ?nl = "if fmt then [newline] else []"
  let ?tail = "?nl @ ws' @ ''}'' @ rest"
  let ?item = "txt c0 @ ?tail"
  have layout: "ws @ join_members fmt d (map (member_text txt) [c0]) @ ws' @ ''}'' @ rest
      = (ws @ ?tabs) @ escape nm @ '':'' @ ?tab @ ?item"
    using nm(1) by (simp add: member_text_def)
  have white: "white (ws @ ?tabs)" "white ?tab" "white (?nl @ ws')"
    using Nil.prems(2,3) white_simps by auto
  have s: "skip ((ws @ ?tabs) @ escape nm @ '':'' @ ?tab @ ?item) = escape nm @ '':'' @ ?tab @ ?item"
    by (rule skip_white [OF white(1) starts_append [OF starts_escape]])
  have ends: "ends ?tail"
  proof (cases fmt)
    case True
    then show ?thesis using punctuation(4) by simp
  next
    case False
    then show ?thesis using Nil.prems(3) punctuation(3)
      by (cases ws') (auto simp: ends_def white_def digit_def code_def)
  qed
  have len: "length ?item < n" using Nil.prems(4,5) unfolding layout by simp
  have pv: "pv ?item (allocs c0 + mem) = Done (unnamed c0) ?tail mem"
    by (rule readsD [OF c(1) ends len])
  have s2: "skip (?tab @ ?item) = ?item" by (rule skip_white [OF white(2) starts_append [OF c(2)]])
  have s3: "skip ?tail = ''}'' @ rest"
    using skip_white [OF white(3) punctuation(7)] by simp
  have col: "skip ('':'' @ ?tab @ ?item) = '':'' @ ?tab @ ?item" by (rule skip_starts [OF punctuation(8)])
  have m: "alloc (sum_list (map (\<lambda>c. 2 + allocs c) [c0]) + mem) = Some (Suc (allocs c0 + mem))" by simp
  show ?case
    unfolding layout k parse_members.simps m option.case s parse_string_escape [OF nm(2)] parsed.case Let_def col
    using pv s2 s3 set_name_unnamed [OF nm(1)] by (simp add: next_is_def)
next
  case (Cons c1 cs c0)
  obtain k' where k: "k = Suc k'" using Cons.prems(5) by (cases k) simp_all
  obtain nm where nm: "item_name c0 = Some nm" "text_ok nm" using Cons.prems(1) by auto
  have c: "reads pv n (txt c0) c0" "starts (txt c0)" using Cons.prems(1) by auto
  let ?tabs = "if fmt then replicate d tabulator else []" and ?tab = "if fmt then [tabulator] else []"
    and ?nl = "if fmt then [newline] else []"
  let ?more = "?nl @ join_members fmt d (map (member_text txt) (c1 # cs)) @ ws' @ ''}'' @ rest"
  let ?item = "txt c0 @ '','' @ ?more"
  let ?mem = "sum_list (map (\<lambda>c. 2 + allocs c) (c1 # cs)) + mem"
  have layout: "ws @ join_members fmt d (map (member_text txt) (c0 # c1 # cs)) @ ws' @ ''}'' @ rest
      = (ws @ ?tabs) @ escape nm @ '':'' @ ?tab @ ?item"
    using nm(1) by (simp add: member_text_def)
  have white: "white (ws @ ?tabs)" "white ?tab" "white ?nl"
    using Cons.prems(2) white_simps by auto
  have s: "skip ((ws @ ?tabs) @ escape nm @ '':'' @ ?tab @ ?item) = escape nm @ '':'' @ ?tab @ ?item"
    by (rule skip_white [OF white(1) starts_append [OF starts_escape]])
  have len: "length ?item < n" using Cons.prems(4,5) unfolding layout by simp
  have pv: "pv ?item (allocs c0 + ?mem) = Done (unnamed c0) ('','' @ ?more) ?mem"
    by (rule readsD [OF c(1) punctuation(1) len])
  have s2: "skip (?tab @ ?item) = ?item" by (rule skip_white [OF white(2) starts_append [OF c(2)]])
  have s3: "skip ('','' @ ?more) = '','' @ ?more" by (rule skip_starts [OF punctuation(5)])
  have col: "skip ('':'' @ ?tab @ ?item) = '':'' @ ?tab @ ?item" by (rule skip_starts [OF punctuation(8)])
  have m: "alloc (sum_list (map (\<lambda>c. 2 + allocs c) (c0 # c1 # cs)) + mem) = Some (Suc (allocs c0 + ?mem))"
    by (simp add: add.assoc)
  have len': "length ?more < k'" using Cons.prems(5) unfolding layout k by simp
  have IH: "parse_members pv k' ?more (acc @ [c0]) ?mem
      = Done (Item cJSON_Object None 0 0 None ((acc @ [c0]) @ c1 # cs)) rest mem"
    by (rule Cons.IH [OF _ white(3) Cons.prems(3) _ len']) (use Cons.prems k in auto)
  show ?case
    unfolding layout k parse_members.simps m option.case s parse_string_escape [OF nm(2)] parsed.case Let_def col
    using pv s2 s3 set_name_unnamed [OF nm(1)] IH by (simp add: next_is_def)
qed

lemma skip_skip: "skip (skip s) = skip s"
  by (induction s) (simp_all add: skip_def)

lemma parse_members_skip: "parse_members pv k (skip s) acc mem = parse_members pv k s acc mem"
  by (cases k) (simp_all only: parse_members.simps skip_skip)

lemma join_members_head:
  "\<exists>t. join_members fmt d (map (member_text txt) (c # cs))
     = (if fmt then replicate d tabulator else []) @ escape (the (item_name c)) @ t"
  by (cases cs) (simp_all add: member_text_def)

lemma null_heads: "take 4 (c # s) = ''null'' \<Longrightarrow> c = CHR ''n''" "take 5 (c # s) = ''false'' \<Longrightarrow> c = CHR ''f''"
  "take 4 (c # s) = ''true'' \<Longrightarrow> c = CHR ''t''"
  by simp_all

text \<open>The branch \<open>parse_value\<close> takes, by the first character.\<close>

lemma parse_value_head:
  "parse_value fe (Suc n) (quote # s) mem =
     (case parse_string (quote # s) mem of
        Done out rest mem \<Rightarrow> Done (Item cJSON_String (Some out) 0 0 None []) rest mem
      | Fail e \<Rightarrow> Fail e | Bad \<Rightarrow> Bad | Out_of_fuel \<Rightarrow> Out_of_fuel)"
  "parse_value fe (Suc n) (CHR ''['' # s) mem = parse_array (parse_value fe n) n (CHR ''['' # s) mem"
  "parse_value fe (Suc n) (CHR ''{'' # s) mem = parse_object (parse_value fe n) n (CHR ''{'' # s) mem"
  by (simp_all add: next_is_def digit_def code_def)

lemma parse_value_number:
  assumes "next_is (CHR ''-'') s \<or> s \<noteq> [] \<and> digit (hd s)"
  shows "parse_value fe (Suc n) s mem = (let (i, rest) = parse_number fe s in Done i rest mem)"
proof -
  obtain c t where s: "s = c # t" using assms by (cases s) (auto simp: next_is_def)
  have "c \<noteq> CHR ''n''" "c \<noteq> CHR ''f''" "c \<noteq> CHR ''t''" "c \<noteq> quote"
    using assms s by (auto simp: next_is_def digit_def code_def)
  then show ?thesis using assms s by (simp add: next_is_def)
qed

lemma parse_value_render:
  assumes fe: "fp_exact fe"
  shows "json_ok i \<Longrightarrow> reads (parse_value fe n) n (render fmt depth i) i"
proof (induction i arbitrary: n depth)
  case (Item ty vs vi vd nm cs)
  let ?i = "Item ty vs vi vd nm cs"
  have "parse_value fe n (render fmt depth ?i @ rest) (allocs ?i + mem) = Done (unnamed ?i) rest mem"
    if e: "ends rest" and len: "length (render fmt depth ?i @ rest) < n" for rest mem
  proof -
    obtain k where n: "n = Suc k" using len by (cases n) simp_all
    show ?thesis
    proof (cases ty)
      case cJSON_String
      then obtain s where s: "vs = Some s" "text_ok s" "cs = []" "vi = 0" "vd = 0" using Item.prems by auto
      have "parse_value fe (Suc k) (escape s @ rest) (Suc mem) = Done (Item cJSON_String (Some s) 0 0 None []) rest mem"
        using parse_string_escape [OF s(2), of rest mem] parse_value_head(1) [of fe k _ "Suc mem"]
        by (simp add: escape_def)
      then show ?thesis using cJSON_String s n by (simp add: unnamed_def)
    next
      case cJSON_Number
      then have v: "INT_MIN \<le> vi" "vi \<le> INT_MAX" "vd = real_of_int vi" "vs = None" "cs = []" using Item.prems by auto
      have "next_is (CHR ''-'') (sprintf_d vi @ rest) \<or> sprintf_d vi @ rest \<noteq> [] \<and> digit (hd (sprintf_d vi @ rest))"
        using sprintf_head [of vi] by (auto simp: next_is_def)
      from parse_value_number [OF this] show ?thesis
        using parse_number_sprintf [OF fe v(1,2) e] cJSON_Number v n by (simp add: unnamed_def)
    next
      case cJSON_Array
      show ?thesis
      proof (cases cs)
        case Nil
        then show ?thesis
          using cJSON_Array n skip_starts [OF punctuation(6)] Item.prems
          by (simp add: parse_value_head parse_array_def next_is_def unnamed_def del: parse_value.simps)
      next
        case (Cons c0 cs')
        let ?txt = "render fmt (depth + 1)"
        have "reads (parse_value fe k) k (?txt c) c \<and> starts (?txt c) \<and> item_name c = None" if "c \<in> set (c0 # cs')" for c
          using Item.IH [of c k "depth + 1"] Item.prems cJSON_Array Cons that starts_render by (auto simp: list_all_iff)
        moreover have r: "render fmt depth ?i @ rest = CHR ''['' # [] @ join_entries fmt (map ?txt (c0 # cs')) @ '']'' @ rest"
          using cJSON_Array Cons by simp
        moreover have "length ([] @ join_entries fmt (map ?txt (c0 # cs')) @ '']'' @ rest) < k"
          using len n unfolding r by simp
        ultimately have el: "parse_elements (parse_value fe k) k ([] @ join_entries fmt (map ?txt (c0 # cs')) @ '']'' @ rest) []
            (sum_list (map (\<lambda>c. 1 + allocs c) (c0 # cs')) + mem) = Done (Item cJSON_Array None 0 0 None ([] @ c0 # cs')) rest mem"
          using white_simps(1) by (intro elements_read) auto
        have st: "starts (join_entries fmt (map ?txt (c0 # cs')) @ '']'' @ rest)"
          using starts_render [of fmt "depth + 1" c0] by (cases cs') (simp_all add: starts_def)
        have nb: "\<not> next_is (CHR '']'') (join_entries fmt (map ?txt (c0 # cs')) @ '']'' @ rest)"
          using render_head [of fmt "depth + 1" c0] by (cases cs') (simp_all add: next_is_def)
        have m: "allocs ?i = sum_list (map (\<lambda>c. 1 + allocs c) (c0 # cs'))"
          using Item.prems cJSON_Array Cons by (auto simp: list_all_iff intro!: arg_cong [where f = sum_list])
        show ?thesis
          unfolding r m unfolding n append_Nil parse_value_head parse_array_def Let_def
          using el skip_starts [OF st] nb Item.prems cJSON_Array Cons by (simp add: next_is_def unnamed_def)
      qed
    next
      case cJSON_Object
      show ?thesis
      proof (cases cs)
        case Nil
        have "skip (replicate j tabulator @ ''}'' @ rest) = ''}'' @ rest" "skip (newline # replicate j tabulator @ ''}'' @ rest) = ''}'' @ rest" for j
          using skip_white [OF white_simps(2) punctuation(7), of j] skip_white [OF white_simps(6) punctuation(7), of j] by simp_all
        then have "skip (tl (render fmt depth ?i @ rest)) = ''}'' @ rest"
          using cJSON_Object Nil skip_starts [OF punctuation(7)] by simp
        moreover obtain s where "render fmt depth ?i @ rest = CHR ''{'' # s" using cJSON_Object Nil by simp
        ultimately show ?thesis
          using cJSON_Object Nil n Item.prems
          by (simp add: parse_value_head parse_object_def next_is_def unnamed_def del: parse_value.simps render.simps)
      next
        case (Cons c0 cs')
        let ?txt = "render fmt (depth + 1)" and ?nl = "if fmt then [newline] else []"
          and ?tabs = "if fmt then replicate depth tabulator else []"
        let ?body = "?nl @ join_members fmt (depth + 1) (map (member_text ?txt) (c0 # cs')) @ ?tabs @ ''}'' @ rest"
        have ok: "\<forall>c \<in> set (c0 # cs'). json_ok c \<and> item_name c \<noteq> None \<and> text_ok (the (item_name c))"
          using Item.prems cJSON_Object Cons by (simp add: list_all_iff)
        then have rd: "\<forall>c \<in> set (c0 # cs'). reads (parse_value fe k) k (?txt c) c \<and> starts (?txt c) \<and> item_name c \<noteq> None
            \<and> text_ok (the (item_name c))"
          using Item.IH Cons starts_render by blast
        have mt: "map (\<lambda>c. (escape (the (item_name c)), ?txt c)) cs = map (member_text ?txt) (c0 # cs')"
          using Cons by (simp add: member_text_def)
        have r: "render fmt depth ?i @ rest = CHR ''{'' # ?body"
          unfolding render.simps cJSON_Object json_type.case mt using Cons by simp
        have white: "white ?nl" "white ?tabs" by (simp_all add: white_simps)
        have "length ?body < k" using len n unfolding r by simp
        then have el: "parse_members (parse_value fe k) k ?body []
            (sum_list (map (\<lambda>c. 2 + allocs c) (c0 # cs')) + mem) = Done (Item cJSON_Object None 0 0 None ([] @ c0 # cs')) rest mem"
          by (intro members_read [OF rd white]) simp_all
        have m: "allocs ?i = sum_list (map (\<lambda>c. 2 + allocs c) (c0 # cs'))"
          using Item.prems cJSON_Object Cons by (auto simp: list_all_iff intro!: arg_cong [where f = sum_list])
        obtain u where u: "join_members fmt (depth + 1) (map (member_text ?txt) (c0 # cs'))
            = (if fmt then replicate (depth + 1) tabulator else []) @ escape (the (item_name c0)) @ u"
          using join_members_head by blast
        have "skip ((?nl @ (if fmt then replicate (depth + 1) tabulator else [])) @ escape (the (item_name c0)) @ u @ ?tabs @ ''}'' @ rest)
            = escape (the (item_name c0)) @ u @ ?tabs @ ''}'' @ rest"
          by (rule skip_white [OF _ starts_append [OF starts_escape]]) (auto simp: white_def code_def)
        then have "\<not> next_is (CHR ''}'') (skip ?body)"
          unfolding u by (simp add: escape_def next_is_def)
        then have "parse_object (parse_value fe k) k (CHR ''{'' # ?body) (sum_list (map (\<lambda>c. 2 + allocs c) (c0 # cs')) + mem)
            = Done (Item cJSON_Object None 0 0 None (c0 # cs')) rest mem"
          using el unfolding parse_object_def Let_def list.sel parse_members_skip append_Nil by (simp only: next_is_def list.inject simp_thms if_False if_True list.sel list.distinct)
        then show ?thesis
          using Item.prems cJSON_Object Cons unfolding r m unfolding n parse_value_head by (simp add: unnamed_def)
      qed
    qed (use Item.prems n in \<open>simp_all add: unnamed_def\<close>)
  qed
  then show ?case by (simp add: reads_def)
qed

subsection \<open>Properties\<close>

definition fp_ideal :: fp_env where
  "fp_ideal = \<lparr>fp_round = (\<lambda>x. x), fp_pow10 = (\<lambda>k. 10 powi k), fp_sprintf = (\<lambda>f x. [])\<rparr>"

lemma fp_exact_ideal: "fp_exact fp_ideal"
  by (simp add: fp_exact_def fp_ideal_def)

lemma cJSON_Parse_render:
  assumes "fp_exact fe" "json_ok i"
  shows "cJSON_Parse fe (render fmt 0 i) (1 + (allocs i + mem)) = Done (unnamed i) [] mem"
proof -
  have "parse_value fe (parse_fuel (render fmt 0 i)) (render fmt 0 i @ []) (allocs i + mem) = Done (unnamed i) [] mem"
    by (rule readsD [OF parse_value_render [OF assms]]) (simp_all add: parse_fuel_def ends_def)
  then show ?thesis
    by (simp add: cJSON_Parse_def cJSON_ParseWithOpts_def skip_starts [OF starts_render])
qed




lemma typed_parse:
  assumes "cJSON_ParseWithOpts fe text require_null_terminated mem = Done i rest m"
  shows "typed i \<and> item_name i = None"
proof -
  obtain mem1 where 1: "alloc mem = Some mem1" using assms by (cases "alloc mem") (simp_all add: cJSON_ParseWithOpts_def)
  obtain j r m' where "parse_value fe (parse_fuel text) (skip text) mem1 = Done j r m'" "i = j"
    using assms 1 by (cases "parse_value fe (parse_fuel text) (skip text) mem1") (auto simp: cJSON_ParseWithOpts_def split: if_splits)
  then show ?thesis using parse_value_typed [of fe "parse_fuel text"] unfolding builds_typed_def by metis
qed

text \<open>C24. Whatever the parser accepts, it builds a well-typed item: numbers in the range of an \<open>int\<close>, strings that are
  there, and names exactly on the items of objects.\<close>

theorem json_parse_typed:
  assumes "cJSON_ParseWithOpts fe text require_null_terminated mem = Done i rest m"
  shows "typed i \<and> item_name i = None"
  using assms by (rule typed_parse)

theorem json_parse_typed_witness:
  "\<exists>i rest m. cJSON_ParseWithOpts fp_ideal ''[true, false]'' True 3 = Done i rest m \<and> typed i \<and> item_name i = None"
proof -
  have "cJSON_ParseWithOpts fp_ideal ''[true, false]'' True 3
      = Done (Item cJSON_Array None 0 0 None [Item cJSON_True None 1 0 None [], Item cJSON_False None 0 0 None []]) [] 0"
    by code_simp
  from json_parse_typed [OF this] this show ?thesis by blast
qed

text \<open>C25. On a text without escapes the parser reads and writes only memory of its own: it stays before the NUL and inside the
  blocks it allocates.\<close>

theorem json_parse_in_bounds:
  assumes "backslash \<notin> set text"
  shows "cJSON_ParseWithOpts fe text require_null_terminated mem \<noteq> Bad"
proof (cases mem)
  case (Suc m)
  have "backslash \<notin> set (skip text)" using assms by (auto simp: skip_def dest: set_dropWhileD)
  then have "parse_value fe (parse_fuel text) (skip text) m \<noteq> Bad"
    using parse_value_sound [of fe "parse_fuel text"] by (simp add: sound_def)
  then show ?thesis using Suc by (simp add: cJSON_ParseWithOpts_def split: parsed.split)
qed (simp add: cJSON_ParseWithOpts_def)

theorem json_parse_in_bounds_witness: "cJSON_ParseWithOpts fp_ideal (''['' @ [quote] @ ''a'' @ [quote]) True 5 \<noteq> Bad"
  by (rule json_parse_in_bounds) simp

text \<open>C26. A string that begins with \<open>\u\<close> and then has a quote overflows the heap when the text goes on with five or more
  characters before the next quote: the loop that measures the string stops at the first quote, the loop that copies it takes the quote
  for a digit and copies up to the next one.\<close>

theorem json_string_overflow:
  assumes "list_all raw_char w" "2 \<le> length w"
  shows "cJSON_Parse fe (quote # backslash # CHR ''u'' # quote # a # b # c # w @ quote # rest) (Suc (Suc mem)) = Bad"
  using string_overflow [OF assms, of a b c rest mem]
  by (simp add: cJSON_Parse_def cJSON_ParseWithOpts_def parse_fuel_def parse_value_head skip_starts starts_def code_def
      del: parse_value.simps)

theorem json_string_overflow_witness:
  "cJSON_Parse fp_ideal (quote # backslash # CHR ''u'' # quote # CHR '':'' # CHR '' '' # CHR ''1'' # ''}, '' @ quote # []) (Suc (Suc 7)) = Bad"
  by (rule json_string_overflow) (simp_all add: raw_char_def)

end
