(* ===== verification/CJsonItems.thy ===== *)
theory CJsonItems
  imports CJson CString
begin

text \<open>
  The operations of \<open>cJSON.c\<close> on items in memory (lines 45-51 and 667-739), the helpers of \<open>cJSON_util.c\<close>, and
  \<open>cJSON_Minify\<close> (741-756). An operation that changes an array returns it updated; the chain \<open>next\<close>/\<open>prev\<close> of its
  items is the list \<open>child\<close>, so the loop \<open>while (c && which > 0)\<close> is \<open>drop (nat which)\<close>. \<open>None\<close> stands for the
  null pointer where an operation returns an item, and for the access through a null pointer where it is the outer option.
  Items are given by value: an item is in one list only. Reference items and constant names are not modelled.
\<close>

subsection \<open>Names\<close>

definition tolower :: "char \<Rightarrow> nat" where
  "tolower c = (if 65 \<le> code c \<and> code c \<le> 90 then code c + 32 else code c)"

text \<open>The loop of \<open>cJSON_strcasecmp\<close>: the NUL behind a text is its end.\<close>

fun compare_names :: "string \<Rightarrow> string \<Rightarrow> int" where
  "compare_names [] [] = 0"
| "compare_names [] (d # t) = - int (tolower d)"
| "compare_names (c # s) [] = int (tolower c)"
| "compare_names (c # s) (d # t) = (if tolower c = tolower d then compare_names s t else int (tolower c) - int (tolower d))"

fun cJSON_strcasecmp :: "string option \<Rightarrow> string option \<Rightarrow> int" where
  "cJSON_strcasecmp None s2 = (if s2 = None then 0 else 1)"
| "cJSON_strcasecmp (Some s1) None = 1"
| "cJSON_strcasecmp (Some s1) (Some s2) = compare_names s1 s2"

text \<open>\<open>cJSON_strdup\<close> and the memory left.\<close>

definition cJSON_strdup :: "string \<Rightarrow> nat \<Rightarrow> string option \<times> nat" where
  "cJSON_strdup s mem = (case alloc mem of None \<Rightarrow> (None, mem) | Some mem \<Rightarrow> (Some s, mem))"

subsection \<open>Reading arrays and objects\<close>

definition cJSON_GetArraySize :: "cJSON \<Rightarrow> int" where
  "cJSON_GetArraySize array = int (length (child array))"

definition cJSON_GetArrayItem :: "cJSON \<Rightarrow> int \<Rightarrow> cJSON option" where
  "cJSON_GetArrayItem array item = (case drop (nat item) (child array) of [] \<Rightarrow> None | c # _ \<Rightarrow> Some c)"

definition other_name :: "string \<Rightarrow> cJSON \<Rightarrow> bool" where
  "other_name string c \<longleftrightarrow> cJSON_strcasecmp (item_name c) (Some string) \<noteq> 0"

definition cJSON_GetObjectItem :: "cJSON \<Rightarrow> string \<Rightarrow> cJSON option" where
  "cJSON_GetObjectItem object string =
     (case dropWhile (other_name string) (child object) of [] \<Rightarrow> None | c # _ \<Rightarrow> Some c)"

subsection \<open>Changing arrays and objects\<close>

definition set_child :: "cJSON list \<Rightarrow> cJSON \<Rightarrow> cJSON" where
  "set_child cs i = Item (item_type i) (valuestring i) (valueint i) (valuedouble i) (item_name i) cs"

definition put_name :: "string option \<Rightarrow> cJSON \<Rightarrow> cJSON" where
  "put_name n i = Item (item_type i) (valuestring i) (valueint i) (valuedouble i) n (child i)"

definition cJSON_AddItemToArray :: "cJSON \<Rightarrow> cJSON option \<Rightarrow> cJSON" where
  "cJSON_AddItemToArray array item = (case item of None \<Rightarrow> array | Some i \<Rightarrow> set_child (child array @ [i]) array)"

definition cJSON_AddItemToObject :: "cJSON \<Rightarrow> string \<Rightarrow> cJSON option \<Rightarrow> nat \<Rightarrow> cJSON \<times> nat" where
  "cJSON_AddItemToObject object string item mem =
     (case item of
        None \<Rightarrow> (object, mem)
      | Some i \<Rightarrow>
          let (n, mem) = cJSON_strdup string mem
          in (cJSON_AddItemToArray object (Some (put_name n i)), mem))"

definition cJSON_DetachItemFromArray :: "cJSON \<Rightarrow> int \<Rightarrow> cJSON \<times> cJSON option" where
  "cJSON_DetachItemFromArray array which =
     (case drop (nat which) (child array) of
        [] \<Rightarrow> (array, None)
      | c # cs \<Rightarrow> (set_child (take (nat which) (child array) @ cs) array, Some c))"

definition cJSON_DeleteItemFromArray :: "cJSON \<Rightarrow> int \<Rightarrow> cJSON" where
  "cJSON_DeleteItemFromArray array which = fst (cJSON_DetachItemFromArray array which)"

text \<open>The index that the loops over the names of an object count.\<close>

definition name_index :: "cJSON \<Rightarrow> string \<Rightarrow> nat" where
  "name_index object string = length (takeWhile (other_name string) (child object))"

definition cJSON_DetachItemFromObject :: "cJSON \<Rightarrow> string \<Rightarrow> cJSON \<times> cJSON option" where
  "cJSON_DetachItemFromObject object string =
     (if dropWhile (other_name string) (child object) \<noteq> []
      then cJSON_DetachItemFromArray object (int (name_index object string))
      else (object, None))"

definition cJSON_DeleteItemFromObject :: "cJSON \<Rightarrow> string \<Rightarrow> cJSON" where
  "cJSON_DeleteItemFromObject object string = fst (cJSON_DetachItemFromObject object string)"

definition cJSON_InsertItemInArray :: "cJSON \<Rightarrow> int \<Rightarrow> cJSON \<Rightarrow> cJSON" where
  "cJSON_InsertItemInArray array which newitem =
     (case drop (nat which) (child array) of
        [] \<Rightarrow> cJSON_AddItemToArray array (Some newitem)
      | c # cs \<Rightarrow> set_child (take (nat which) (child array) @ newitem # c # cs) array)"

definition cJSON_ReplaceItemInArray :: "cJSON \<Rightarrow> int \<Rightarrow> cJSON \<Rightarrow> cJSON" where
  "cJSON_ReplaceItemInArray array which newitem =
     (case drop (nat which) (child array) of
        [] \<Rightarrow> array
      | c # cs \<Rightarrow> set_child (take (nat which) (child array) @ newitem # cs) array)"

definition cJSON_ReplaceItemInObject :: "cJSON \<Rightarrow> string \<Rightarrow> cJSON \<Rightarrow> nat \<Rightarrow> cJSON \<times> nat" where
  "cJSON_ReplaceItemInObject object string newitem mem =
     (if dropWhile (other_name string) (child object) \<noteq> [] then
        let (n, mem) = cJSON_strdup string mem
        in (cJSON_ReplaceItemInArray object (int (name_index object string)) (put_name n newitem), mem)
      else (object, mem))"

subsection \<open>Creating items\<close>

definition create :: "cJSON \<Rightarrow> nat \<Rightarrow> cJSON option \<times> nat" where
  "create i mem = (case alloc mem of None \<Rightarrow> (None, mem) | Some mem \<Rightarrow> (Some i, mem))"

definition cJSON_CreateNull :: "nat \<Rightarrow> cJSON option \<times> nat" where
  "cJSON_CreateNull = create (Item cJSON_NULL None 0 0 None [])"
definition cJSON_CreateTrue :: "nat \<Rightarrow> cJSON option \<times> nat" where
  "cJSON_CreateTrue = create (Item cJSON_True None 0 0 None [])"
definition cJSON_CreateFalse :: "nat \<Rightarrow> cJSON option \<times> nat" where
  "cJSON_CreateFalse = create (Item cJSON_False None 0 0 None [])"
definition cJSON_CreateBool :: "bool \<Rightarrow> nat \<Rightarrow> cJSON option \<times> nat" where
  "cJSON_CreateBool b = create (Item (if b then cJSON_True else cJSON_False) None 0 0 None [])"
definition cJSON_CreateNumber :: "real \<Rightarrow> nat \<Rightarrow> cJSON option \<times> nat" where
  "cJSON_CreateNumber num = create (Item cJSON_Number None (int_of_double num) num None [])"
definition cJSON_CreateArray :: "nat \<Rightarrow> cJSON option \<times> nat" where
  "cJSON_CreateArray = create (Item cJSON_Array None 0 0 None [])"
definition cJSON_CreateObject :: "nat \<Rightarrow> cJSON option \<times> nat" where
  "cJSON_CreateObject = create (Item cJSON_Object None 0 0 None [])"

definition cJSON_CreateString :: "string \<Rightarrow> nat \<Rightarrow> cJSON option \<times> nat" where
  "cJSON_CreateString string mem =
     (case alloc mem of
        None \<Rightarrow> (None, mem)
      | Some mem \<Rightarrow>
          let (s, mem) = cJSON_strdup string mem in (Some (Item cJSON_String s 0 0 None []), mem))"

text \<open>
  The loop of the four functions that create arrays. Its first item may be null (\<open>a->child = n\<close>); a null item later, or any
  item after a null one, is linked by \<open>suffix_object\<close> through a null pointer.
\<close>

fun create_items :: "('a \<Rightarrow> nat \<Rightarrow> cJSON option \<times> nat) \<Rightarrow> 'a list \<Rightarrow> cJSON list \<Rightarrow> nat \<Rightarrow> (cJSON list \<times> nat) option" where
  "create_items new [] cs mem = Some (cs, mem)"
| "create_items new (x # xs) cs mem =
     (case new x mem of
        (Some n, mem) \<Rightarrow> create_items new xs (cs @ [n]) mem
      | (None, mem) \<Rightarrow> if cs = [] \<and> xs = [] then Some ([], mem) else None)"

definition create_array :: "('a \<Rightarrow> nat \<Rightarrow> cJSON option \<times> nat) \<Rightarrow> 'a list \<Rightarrow> nat \<Rightarrow> (cJSON option \<times> nat) option" where
  "create_array new xs mem =
     (case cJSON_CreateArray mem of
        (None, mem) \<Rightarrow> Some (None, mem)
      | (Some a, mem) \<Rightarrow> map_option (\<lambda>(cs, mem). (Some (set_child cs a), mem)) (create_items new xs [] mem))"

definition cJSON_CreateIntArray :: "int list \<Rightarrow> nat \<Rightarrow> (cJSON option \<times> nat) option" where
  "cJSON_CreateIntArray numbers = create_array (\<lambda>x. cJSON_CreateNumber (real_of_int x)) numbers"
definition cJSON_CreateFloatArray :: "real list \<Rightarrow> nat \<Rightarrow> (cJSON option \<times> nat) option" where
  "cJSON_CreateFloatArray numbers = create_array cJSON_CreateNumber numbers"
definition cJSON_CreateDoubleArray :: "real list \<Rightarrow> nat \<Rightarrow> (cJSON option \<times> nat) option" where
  "cJSON_CreateDoubleArray numbers = create_array cJSON_CreateNumber numbers"
definition cJSON_CreateStringArray :: "string list \<Rightarrow> nat \<Rightarrow> (cJSON option \<times> nat) option" where
  "cJSON_CreateStringArray strings = create_array cJSON_CreateString strings"

subsection \<open>Copying items\<close>

text \<open>\<open>cJSON_Duplicate\<close> on an item, and its loop over the children.\<close>

definition copy_string :: "string option \<Rightarrow> nat \<Rightarrow> string option option \<times> nat" where
  "copy_string s mem =
     (case s of
        None \<Rightarrow> (Some None, mem)
      | Some s \<Rightarrow> (case cJSON_strdup s mem of (None, mem) \<Rightarrow> (None, mem) | (Some s, mem) \<Rightarrow> (Some (Some s), mem)))"

fun cJSON_Duplicate :: "cJSON \<Rightarrow> bool \<Rightarrow> nat \<Rightarrow> cJSON option \<times> nat"
  and duplicate_children :: "cJSON list \<Rightarrow> nat \<Rightarrow> cJSON list option \<times> nat" where
  "cJSON_Duplicate (Item ty vs vi vd nm cs) recurse mem =
     (case alloc mem of
        None \<Rightarrow> (None, mem)
      | Some mem \<Rightarrow>
          (case copy_string vs mem of
             (None, mem) \<Rightarrow> (None, mem)
           | (Some vs, mem) \<Rightarrow>
               (case copy_string nm mem of
                  (None, mem) \<Rightarrow> (None, mem)
                | (Some nm, mem) \<Rightarrow>
                    if \<not> recurse then (Some (Item ty vs vi vd nm []), mem)
                    else (case duplicate_children cs mem of
                            (None, mem) \<Rightarrow> (None, mem)
                          | (Some cs, mem) \<Rightarrow> (Some (Item ty vs vi vd nm cs), mem)))))"
| "duplicate_children [] mem = (Some [], mem)"
| "duplicate_children (c # cs) mem =
     (case cJSON_Duplicate c True mem of
        (None, mem) \<Rightarrow> (None, mem)
      | (Some c, mem) \<Rightarrow>
          (case duplicate_children cs mem of
             (None, mem) \<Rightarrow> (None, mem)
           | (Some cs, mem) \<Rightarrow> (Some (c # cs), mem)))"

subsection \<open>The helpers of \<open>cJSON_util.c\<close>\<close>

text \<open>The outer option is the access to the first item of an empty array.\<close>

definition cJSON_item_get_string :: "cJSON \<Rightarrow> string \<Rightarrow> string option option" where
  "cJSON_item_get_string object name =
     (case cJSON_GetObjectItem object name of
        None \<Rightarrow> Some None
      | Some item \<Rightarrow>
          if item_type item \<noteq> cJSON_String \<and> item_type item \<noteq> cJSON_Array then Some None
          else if item_type item = cJSON_Array then
            (case child item of [] \<Rightarrow> None | c # _ \<Rightarrow> Some (valuestring c))
          else Some (valuestring item))"

text \<open>The status and what is stored through \<open>result\<close>, whose old content is \<open>r\<close>.\<close>

definition cJSON_item_get_number :: "cJSON \<Rightarrow> string \<Rightarrow> int \<Rightarrow> int \<times> int" where
  "cJSON_item_get_number object name r =
     (case cJSON_GetObjectItem object name of
        None \<Rightarrow> (- 1, r)
      | Some item \<Rightarrow> if item_type item \<noteq> cJSON_Number then (- 1, r) else (0, valueint item))"

text \<open>\<open>None\<close> is a write behind the 12 bytes of \<open>str_buf\<close>.\<close>

definition cJSON_AddInteger2StringToObject :: "cJSON \<Rightarrow> string \<Rightarrow> int \<Rightarrow> nat \<Rightarrow> (cJSON \<times> nat) option" where
  "cJSON_AddInteger2StringToObject object name i mem =
     (if 12 \<le> length (sprintf_d i) then None
      else
        let (item, mem) = cJSON_CreateString (sprintf_d i) mem
        in Some (cJSON_AddItemToObject object name item mem))"

subsection \<open>Minify\<close>

text \<open>
  \<open>cJSON_Minify\<close> works in place: \<open>into\<close> and \<open>json\<close> are indices into the block \<open>buf\<close>, which holds the text
  and its NUL; an access behind the block is \<open>None\<close>. The search for the end of a comment starts at the slash that opens it.
\<close>

definition buf_at :: "string \<Rightarrow> nat \<Rightarrow> char \<Rightarrow> bool" where
  "buf_at buf j c \<longleftrightarrow> j < length buf \<and> buf ! j = c"

function line_end :: "string \<Rightarrow> nat \<Rightarrow> nat option" where
  "line_end buf j =
     (if length buf \<le> j then None
      else if buf ! j = NUL \<or> buf ! j = CHR 0x0A then Some j else line_end buf (j + 1))"
  by pat_completeness auto
termination by (relation "measure (\<lambda>(buf, j). length buf - j)") auto

function block_end :: "string \<Rightarrow> nat \<Rightarrow> nat option" where
  "block_end buf j =
     (if length buf \<le> j then None
      else if buf ! j = NUL \<or> buf ! j = CHR ''*'' \<and> buf_at buf (j + 1) (CHR ''/'') then Some j else block_end buf (j + 1))"
  by pat_completeness auto
termination by (relation "measure (\<lambda>(buf, j). length buf - j)") auto

text \<open>The inner loop of a string literal, from behind the opening quote to the closing one or the NUL.\<close>

function copy_literal :: "string \<Rightarrow> nat \<Rightarrow> nat \<Rightarrow> (string \<times> nat \<times> nat) option" where
  "copy_literal buf into json =
     (if length buf \<le> json then None
      else if buf ! json = NUL \<or> buf ! json = quote then Some (buf, into, json)
      else
        let (buf, into, json) = (if buf ! json = backslash then (buf[into := backslash], into + 1, json + 1) else (buf, into, json))
        in if length buf \<le> json then None else copy_literal (buf[into := buf ! json]) (into + 1) (json + 1))"
  by pat_completeness auto
termination
  by (relation "measure (\<lambda>(buf, into, json). length buf - json)") (auto split: if_splits)

declare line_end.simps [simp del] block_end.simps [simp del] copy_literal.simps [simp del]

lemma line_end_after: "line_end buf j = Some k \<Longrightarrow> j \<le> k \<and> k < length buf"
proof (induction buf j rule: line_end.induct)
  case (1 buf j)
  then show ?case unfolding line_end.simps [of buf j] by (fastforce split: if_splits)
qed

lemma block_end_after: "block_end buf j = Some k \<Longrightarrow> j \<le> k \<and> k < length buf"
proof (induction buf j rule: block_end.induct)
  case (1 buf j)
  then show ?case unfolding block_end.simps [of buf j] by (fastforce split: if_splits)
qed

lemma copy_literal_after:
  "copy_literal buf into json = Some (buf', into', json') \<Longrightarrow> length buf' = length buf \<and> json \<le> json' \<and> json' < length buf'"
proof (induction buf into json rule: copy_literal.induct)
  case (1 buf into json)
  then show ?case unfolding copy_literal.simps [of buf into json] by (cases "buf ! json = backslash") (fastforce split: if_splits)+
qed

lemma line_end_slash: "line_end buf j = Some k \<Longrightarrow> buf ! j = CHR ''/'' \<Longrightarrow> j < k \<and> k < length buf"
  using line_end_after [of buf "j + 1" k] by (subst (asm) line_end.simps) (auto split: if_splits)

lemma block_end_slash: "block_end buf j = Some k \<Longrightarrow> buf ! j = CHR ''/'' \<Longrightarrow> j < k \<and> k < length buf"
  using block_end_after [of buf "j + 1" k] by (subst (asm) block_end.simps) (auto split: if_splits)

function minify_loop :: "string \<Rightarrow> nat \<Rightarrow> nat \<Rightarrow> string option" where
  "minify_loop buf into json =
     (if length buf \<le> json then None
      else
        let c = buf ! json
        in if c = NUL then Some (buf[into := NUL])
           else if c = CHR '' '' \<or> c = CHR 0x09 \<or> c = CHR 0x0D \<or> c = CHR 0x0A then minify_loop buf into (json + 1)
           else if c = CHR ''/'' \<and> buf_at buf (json + 1) (CHR ''/'') then
             (case line_end buf json of None \<Rightarrow> None | Some json \<Rightarrow> minify_loop buf into json)
           else if c = CHR ''/'' \<and> buf_at buf (json + 1) (CHR ''*'') then
             (case block_end buf json of None \<Rightarrow> None | Some json \<Rightarrow> minify_loop buf into (json + 2))
           else if c = quote then
             (case copy_literal (buf[into := c]) (into + 1) (json + 1) of
                None \<Rightarrow> None
              | Some (buf, into, json) \<Rightarrow> minify_loop (buf[into := buf ! json]) (into + 1) (json + 1))
           else minify_loop (buf[into := c]) (into + 1) (json + 1))"
  by pat_completeness auto
termination
  by (relation "measure (\<lambda>(buf, into, json). length buf - json)")
    (auto dest!: line_end_slash block_end_slash copy_literal_after)

declare minify_loop.simps [simp del]

definition cJSON_Minify :: "string \<Rightarrow> string option" where
  "cJSON_Minify json = minify_loop json 0 0"

subsection \<open>Arrays\<close>

lemma child_set_child [simp]: "child (set_child cs i) = cs"
  by (simp add: set_child_def)

lemma set_child_same: "set_child (child i) i = i"
  by (cases i) (simp add: set_child_def)

lemma set_child_twice [simp]: "set_child cs (set_child cs' i) = set_child cs i"
  by (simp add: set_child_def)

lemmas array_defs = cJSON_GetArraySize_def cJSON_GetArrayItem_def cJSON_AddItemToArray_def cJSON_DetachItemFromArray_def
  cJSON_InsertItemInArray_def cJSON_ReplaceItemInArray_def cJSON_DeleteItemFromArray_def

text \<open>What each operation does to the list of items, for any index an \<open>int\<close> can be: a negative one counts as 0.\<close>

lemma drop_head: "(case drop n xs of [] \<Rightarrow> None | c # _ \<Rightarrow> Some c) = (if n < length xs then Some (xs ! n) else None)"
  by (cases "n < length xs") (simp_all add: Cons_nth_drop_Suc [symmetric])

lemma array_get: "cJSON_GetArrayItem a k = (if nat k < length (child a) then Some (child a ! nat k) else None)"
  unfolding cJSON_GetArrayItem_def by (rule drop_head)

lemma array_add: "child (cJSON_AddItemToArray a (Some i)) = child a @ [i]"
  by (simp add: array_defs)

lemma array_insert: "child (cJSON_InsertItemInArray a k i) = take (nat k) (child a) @ i # drop (nat k) (child a)"
  by (auto simp: array_defs split: list.split)

lemma array_detach:
  "cJSON_DetachItemFromArray a k = (set_child (take (nat k) (child a) @ drop (Suc (nat k)) (child a)) a, cJSON_GetArrayItem a k)"
proof (cases "drop (nat k) (child a)")
  case Nil
  then show ?thesis by (simp add: array_defs set_child_same)
next
  case (Cons c cs)
  then have "drop (Suc (nat k)) (child a) = cs" by (metis drop_Suc tl_drop list.sel(3))
  then show ?thesis using Cons by (simp add: array_defs)
qed

lemma array_replace: "child (cJSON_ReplaceItemInArray a k i) = (child a)[nat k := i]"
proof (cases "drop (nat k) (child a)")
  case (Cons c cs)
  then have "drop (Suc (nat k)) (child a) = cs" "nat k < length (child a)"
    by (metis drop_Suc tl_drop list.sel(3)) (metis Cons drop_all linorder_not_le list.distinct(1))
  then show ?thesis using Cons by (simp add: array_defs upd_conv_take_nth_drop)
qed (simp add: array_defs list_update_beyond)

lemma array_insert_detach:
  assumes "k \<le> cJSON_GetArraySize a"
  shows "cJSON_DetachItemFromArray (cJSON_InsertItemInArray a k i) k = (a, Some i)"
proof -
  have len: "length (take (nat k) (child a)) = nat k" using assms by (simp add: array_defs)
  have "cJSON_InsertItemInArray a k i = set_child (take (nat k) (child a) @ i # drop (nat k) (child a)) a"
    by (auto simp: array_defs split: list.split)
  then show ?thesis
    using len by (simp add: array_detach cJSON_GetArrayItem_def set_child_same)
qed

subsection \<open>Objects\<close>

lemma compare_names_0: "text_ok s \<Longrightarrow> text_ok t \<Longrightarrow> compare_names s t = 0 \<longleftrightarrow> map tolower s = map tolower t"
proof (induction s t rule: compare_names.induct)
  case (2 d t)
  then show ?case using code_zero [of d] by (cases "code d = 0") (auto simp: text_ok_def tolower_def)
next
  case (3 c s)
  then show ?case using code_zero [of c] by (cases "code c = 0") (auto simp: text_ok_def tolower_def)
qed (auto simp: text_ok_def)

text \<open>Names are compared without regard to case.\<close>

lemma other_name_iff:
  "\<lbrakk>text_ok s; \<forall>n. item_name c = Some n \<longrightarrow> text_ok n\<rbrakk>
   \<Longrightarrow> \<not> other_name s c \<longleftrightarrow> (\<exists>n. item_name c = Some n \<and> map tolower n = map tolower s)"
  by (cases "item_name c") (auto simp: other_name_def compare_names_0)

lemma object_get:
  "cJSON_GetObjectItem ob s
     = (if name_index ob s < length (child ob) then Some (child ob ! name_index ob s) else None)"
proof -
  have d: "dropWhile (other_name s) (child ob) = drop (name_index ob s) (child ob)"
    by (simp add: name_index_def dropWhile_eq_drop)
  show ?thesis
    unfolding cJSON_GetObjectItem_def d by (rule drop_head)
qed

lemma name_index_first:
  "j < name_index ob s \<Longrightarrow> other_name s (child ob ! j)"
  "name_index ob s < length (child ob) \<Longrightarrow> \<not> other_name s (child ob ! name_index ob s)"
  using nth_length_takeWhile [of "other_name s" "child ob"] set_takeWhileD nth_mem [of j "takeWhile (other_name s) (child ob)"]
  by (fastforce simp: name_index_def takeWhile_nth)+

lemma object_detach:
  "cJSON_DetachItemFromObject ob s
     = (set_child (take (name_index ob s) (child ob) @ drop (Suc (name_index ob s)) (child ob)) ob, cJSON_GetObjectItem ob s)"
proof (cases "dropWhile (other_name s) (child ob)")
  case Nil
  then have "name_index ob s = length (child ob)" by (simp add: name_index_def) (metis dropWhile_eq_Nil_conv takeWhile_eq_all_conv)
  then show ?thesis using Nil by (simp add: cJSON_DetachItemFromObject_def object_get set_child_same)
next
  case (Cons c cs)
  then have "name_index ob s < length (child ob)"
    unfolding name_index_def by (metis dropWhile_eq_drop drop_all linorder_not_le list.distinct(1))
  then show ?thesis
    using Cons by (simp add: cJSON_DetachItemFromObject_def array_detach object_get array_get cJSON_GetArraySize_def)
qed

text \<open>An item that is added is found by its name, unless an earlier item has that name.\<close>

lemma other_put_name: "\<not> other_name s (put_name (Some s) i)"
proof -
  have "compare_names s s = 0" for s by (induction s) simp_all
  then show ?thesis by (simp add: other_name_def put_name_def)
qed

lemma object_add_get:
  "cJSON_GetObjectItem (fst (cJSON_AddItemToObject ob s (Some i) (Suc mem))) s
     = (case cJSON_GetObjectItem ob s of None \<Rightarrow> Some (put_name (Some s) i) | Some c \<Rightarrow> Some c)"
proof (cases "dropWhile (other_name s) (child ob)")
  case Nil
  then have "\<forall>c \<in> set (child ob). other_name s c" by (simp add: dropWhile_eq_Nil_conv)
  then show ?thesis
    using other_put_name [of s i] unfolding cJSON_GetObjectItem_def [of ob] Nil
    by (simp add: cJSON_AddItemToObject_def cJSON_strdup_def cJSON_GetObjectItem_def array_defs dropWhile_append2)
next
  case (Cons c cs)
  then have "\<exists>x \<in> set (child ob). \<not> other_name s x" by (metis dropWhile_eq_Nil_conv list.distinct(1))
  then show ?thesis
    using Cons by (auto simp: cJSON_AddItemToObject_def cJSON_strdup_def cJSON_GetObjectItem_def array_defs dropWhile_append1)
qed

subsection \<open>Copies, and the helpers\<close>

definition blocks :: "'a option \<Rightarrow> nat" where
  "blocks s = (if s = None then 0 else 1)"

fun copy_size :: "cJSON \<Rightarrow> nat" where
  "copy_size (Item ty vs vi vd nm cs) = 1 + (blocks vs + (blocks nm + sum_list (map copy_size cs)))"

lemma copy_string_exact: "copy_string s mem = (if blocks s \<le> mem then (Some s, mem - blocks s) else (None, 0))"
  by (cases s; cases mem) (simp_all add: copy_string_def cJSON_strdup_def blocks_def)

text \<open>A deep copy is the item itself, or null when the memory does not suffice for every block of it.\<close>

lemma duplicate_exact:
  "cJSON_Duplicate i True mem = (if copy_size i \<le> mem then (Some i, mem - copy_size i) else (None, 0))"
  "duplicate_children cs mem = (if sum_list (map copy_size cs) \<le> mem then (Some cs, mem - sum_list (map copy_size cs)) else (None, 0))"
proof (induction i "True" mem and cs mem rule: cJSON_Duplicate_duplicate_children.induct)
  case (1 ty vs vi vd nm cs mem)
  show ?case
  proof (cases mem)
    case (Suc m)
    have IH: "duplicate_children cs (m - blocks vs - blocks nm)
        = (if sum_list (map copy_size cs) \<le> m - blocks vs - blocks nm
           then (Some cs, m - blocks vs - blocks nm - sum_list (map copy_size cs)) else (None, 0))"
      if "blocks vs \<le> m" "blocks nm \<le> m - blocks vs"
      using 1 [of m "Some vs" "m - blocks vs" vs "Some nm" "m - blocks vs - blocks nm" nm] that Suc by (simp add: copy_string_exact)
    show ?thesis
      using IH Suc by (auto simp: copy_string_exact)
  qed simp
next
  case (3 c cs mem)
  then show ?case by (cases "copy_size c \<le> mem") auto
qed simp_all

text \<open>Every \<open>int\<close> fits the buffer of \<open>cJSON_AddInteger2StringToObject\<close>, and is found as a string under its name.\<close>

lemma integer_to_string:
  assumes "INT_MIN \<le> i" "i \<le> INT_MAX" "cJSON_GetObjectItem ob name = None"
  shows "\<exists>ob' mem'. cJSON_AddInteger2StringToObject ob name i (3 + mem) = Some (ob', mem')
    \<and> mem' = mem \<and> cJSON_item_get_string ob' name = Some (Some (sprintf_d i))"
proof -
  have "length (sprintf_d i) < 12" using length_sprintf_d [OF assms(1,2)] by simp
  then show ?thesis
    using object_add_get [of ob name "Item cJSON_String (Some (sprintf_d i)) 0 0 None []" mem] assms(3)
    by (simp add: cJSON_AddInteger2StringToObject_def cJSON_CreateString_def cJSON_strdup_def numeral_3_eq_3
        cJSON_item_get_string_def put_name_def cJSON_AddItemToObject_def)
qed

text \<open>An array of two or more items for which the memory does not last is linked through a null pointer.\<close>

lemma create_items_ok:
  assumes "\<And>x mem. new x (Suc mem) = (Some (f x), mem)"
  shows "create_items new xs cs (length xs + mem) = Some (cs @ map f xs, mem)"
  by (induction xs arbitrary: cs) (simp_all add: assms)

lemma create_items_short:
  assumes new: "\<And>x mem. new x (Suc mem) = (Some (f x), mem)" "\<And>x. new x 0 = (None, 0)"
    and "mem < length xs" "2 \<le> length cs + length xs"
  shows "create_items new xs cs mem = None"
  using assms(3,4)
proof (induction xs arbitrary: cs mem)
  case (Cons x xs)
  then show ?case using new by (cases mem) (auto simp: Suc_le_eq)
qed simp

subsection \<open>Minify: the text it leaves\<close>

text \<open>
  What \<open>cJSON_Minify\<close> is for: the text without blanks and comments outside of string literals, or \<open>None\<close> when a literal
  or a comment does not end. \<open>literal\<close> reads from behind the opening quote.
\<close>

fun literal :: "string \<Rightarrow> (string \<times> string) option" where
  "literal [] = None"
| "literal [c] = (if c = quote then Some ([c], []) else None)"
| "literal (c # d # s) =
     (if c = quote then Some ([c], d # s)
      else if c = backslash then map_option (apfst (\<lambda>out. c # d # out)) (literal s)
      else map_option (apfst ((#) c)) (literal (d # s)))"

fun comment_end :: "string \<Rightarrow> string option" where
  "comment_end [] = None"
| "comment_end (c # s) = (if c = CHR ''*'' \<and> next_is (CHR ''/'') s then Some (tl s) else comment_end s)"

lemma literal_split: "literal s = Some (out, r) \<Longrightarrow> s = out @ r \<and> out \<noteq> []"
  by (induction s arbitrary: out r rule: literal.induct) (fastforce split: if_splits)+

lemma literal_shorter: "literal s = Some (out, r) \<Longrightarrow> length r < length s"
  using literal_split by fastforce

lemma comment_split: "comment_end s = Some r \<Longrightarrow> \<exists>u. s = u @ ''*/'' @ r"
proof (induction s rule: comment_end.induct)
  case (2 c s)
  show ?case
  proof (cases "c = CHR ''*'' \<and> next_is (CHR ''/'') s")
    case True
    then show ?thesis using 2(2) by (cases s) (auto simp: next_is_def)
  next
    case False
    then obtain u where "s = u @ ''*/'' @ r" using 2 by auto
    then show ?thesis by (intro exI [of _ "c # u"]) simp
  qed
qed simp

lemma comment_shorter: "comment_end s = Some r \<Longrightarrow> length r + 2 \<le> length s"
  using comment_split by fastforce

abbreviation blank :: "char \<Rightarrow> bool" where
  "blank c \<equiv> c = CHR '' '' \<or> c = CHR 0x09 \<or> c = CHR 0x0D \<or> c = CHR 0x0A"

function minify :: "string \<Rightarrow> string option" where
  "minify s =
     (case s of
        [] \<Rightarrow> Some []
      | c # t \<Rightarrow>
          if blank c then minify t
          else if c = CHR ''/'' \<and> next_is (CHR ''/'') t then minify (dropWhile (\<lambda>c. c \<noteq> CHR 0x0A) t)
          else if c = CHR ''/'' \<and> next_is (CHR ''*'') t then
            (case comment_end t of None \<Rightarrow> None | Some r \<Rightarrow> minify r)
          else if c = quote then
            (case literal t of None \<Rightarrow> None | Some (out, r) \<Rightarrow> map_option (\<lambda>o2. c # out @ o2) (minify r))
          else map_option ((#) c) (minify t))"
  by pat_completeness auto
termination
proof (relation "measure length", goal_cases)
  case (3 s c t)
  then show ?case using length_dropWhile_le [of "\<lambda>c. c \<noteq> CHR 0x0A" t] by simp
qed (auto dest!: literal_shorter comment_shorter)

declare minify.simps [simp del]

text \<open>
  The block during the run: \<open>w\<close> is written, \<open>g\<close> are old characters between the two pointers, \<open>s\<close> is to be read.
  Writing the character just read moves the three parts on.
\<close>

definition gap :: "string \<Rightarrow> string \<Rightarrow> string \<Rightarrow> string" where
  "gap w g s = w @ g @ s @ [NUL]"

lemma gap_read:
  "gap w g (c # s) ! (length w + length g) = c" "gap w g [] ! (length w + length g) = NUL"
  "length (gap w g s) = length w + length g + length s + 1"
  by (simp_all add: gap_def nth_append)

lemma gap_next: "buf_at (gap w g (c # s)) (Suc (length w + length g)) d \<longleftrightarrow> (case s of [] \<Rightarrow> d = NUL | x # _ \<Rightarrow> d = x)"
  by (cases s) (auto simp: buf_at_def gap_def nth_append)

lemma gap_write: "(gap w g (c # s))[length w := c] = gap (w @ [c]) (tl (g @ [c])) s"
  by (cases g) (simp_all add: gap_def list_update_append)

lemma gap_skip: "gap w g (c # s) = gap w (g @ [c]) s"
  by (simp add: gap_def)

lemma gap_drop: "gap w g (u @ s) = gap w (g @ u) s"
  by (simp add: gap_def)

lemma line_end_gap:
  "NUL \<notin> set s \<Longrightarrow> line_end (gap w g s) (length w + length g)
     = Some (length w + length g + length (takeWhile (\<lambda>c. c \<noteq> CHR 0x0A) s))"
proof (induction s arbitrary: g)
  case Nil
  then show ?case by (subst line_end.simps) (simp add: gap_read)
next
  case (Cons c s)
  then show ?case
    using Cons.IH [of "g @ [c]"] unfolding line_end.simps [of "gap w g (c # s)" "length w + length g"]
    by (auto simp: gap_read gap_skip [symmetric])
qed

lemma block_end_gap:
  "NUL \<notin> set s \<Longrightarrow> block_end (gap w g s) (length w + length g)
     = (case comment_end s of None \<Rightarrow> Some (length w + length g + length s)
        | Some r \<Rightarrow> Some (length w + length g + (length s - length r - 2)))"
proof (induction s arbitrary: g)
  case Nil
  then show ?case by (subst block_end.simps) (simp add: gap_read)
next
  case (Cons c s)
  have "buf_at (gap w g (c # s)) (length w + length g + 1) (CHR ''/'') \<longleftrightarrow> next_is (CHR ''/'') s"
    by (cases s) (auto simp: gap_next next_is_def)
  then show ?case
    using Cons.IH [of "g @ [c]"] Cons.prems comment_shorter [of s]
    unfolding block_end.simps [of "gap w g (c # s)" "length w + length g"]
    by (auto simp: gap_read gap_skip [symmetric] split: option.splits)
qed

lemma copy_literal_gap:
  "copy_literal (gap w g []) (length w) (length w + length g) = Some (gap w g [], length w, length w + length g)"
  "copy_literal (gap w g (quote # s)) (length w) (length w + length g) = Some (gap w g (quote # s), length w, length w + length g)"
  "c \<noteq> NUL \<Longrightarrow> c \<noteq> quote \<Longrightarrow> c \<noteq> backslash \<Longrightarrow> copy_literal (gap w g (c # s)) (length w) (length w + length g)
     = copy_literal (gap (w @ [c]) (tl (g @ [c])) s) (length (w @ [c])) (length (w @ [c]) + length (tl (g @ [c])))"
  "copy_literal (gap w g (backslash # d # s)) (length w) (length w + length g)
     = copy_literal (gap (w @ [backslash, d]) (tl (tl (g @ [backslash, d]))) s) (length (w @ [backslash, d]))
         (length (w @ [backslash, d]) + length (tl (tl (g @ [backslash, d]))))"
  "copy_literal (gap w g [backslash]) (length w) (length w + length g) = None"
proof -
  let ?j = "length w + length g"
  show "copy_literal (gap w g []) (length w) ?j = Some (gap w g [], length w, ?j)"
    "copy_literal (gap w g (quote # s)) (length w) ?j = Some (gap w g (quote # s), length w, ?j)"
    by (simp_all add: copy_literal.simps [of _ "length w"] gap_read)
  show "copy_literal (gap w g (c # s)) (length w) ?j
     = copy_literal (gap (w @ [c]) (tl (g @ [c])) s) (length (w @ [c])) (length (w @ [c]) + length (tl (g @ [c])))"
    if "c \<noteq> NUL" "c \<noteq> quote" "c \<noteq> backslash"
    unfolding copy_literal.simps [of "gap w g (c # s)"  "length w" ?j] using that by (simp add: gap_read gap_write)
  have tl2: "tl (tl (g @ [a, b])) = tl (tl (g @ [a]) @ [b])" for a b :: char by (cases g) simp_all
  have d: "gap (w @ [backslash]) (tl (g @ [backslash])) (d # s) ! Suc ?j = d" for d s
    using gap_read(1) [of "w @ [backslash]" "tl (g @ [backslash])" d s] by simp
  have u: "(gap (w @ [backslash]) (tl (g @ [backslash])) (d # s)) [Suc (length w) := d]
      = gap (w @ [backslash, d]) (tl (tl (g @ [backslash, d]))) s" for d s
    using gap_write [of "w @ [backslash]" "tl (g @ [backslash])" d s] by (simp add: tl2)
  show "copy_literal (gap w g (backslash # d # s)) (length w) ?j
     = copy_literal (gap (w @ [backslash, d]) (tl (tl (g @ [backslash, d]))) s) (length (w @ [backslash, d]))
         (length (w @ [backslash, d]) + length (tl (tl (g @ [backslash, d]))))"
    unfolding copy_literal.simps [of "gap w g (backslash # d # s)"  "length w" ?j] by (simp add: gap_read gap_write d u)
  have "copy_literal ((gap (w @ [backslash]) (tl (g @ [backslash])) [])[Suc (length w) := x]) k (?j + 2) = None" for x k
    by (subst copy_literal.simps) (simp add: gap_read)
  then show "copy_literal (gap w g [backslash]) (length w) ?j = None"
    unfolding copy_literal.simps [of "gap w g [backslash]"  "length w" ?j] by (simp add: gap_read gap_write)
qed

lemma copy_literal_closed:
  "\<lbrakk>literal s = Some (out, r); NUL \<notin> set s\<rbrakk> \<Longrightarrow> \<exists>v g'. out = v @ [quote] \<and> NUL \<notin> set v \<and>
     copy_literal (gap w g s) (length w) (length w + length g)
       = Some (gap (w @ v) g' (quote # r), length (w @ v), length (w @ v) + length g')"
proof (induction s arbitrary: out w g rule: literal.induct)
  case (2 c)
  then show ?case
    by (intro exI [of _ "[]"] exI [of _ g]) (auto simp: copy_literal_gap split: if_splits)
next
  case (3 c d s)
  consider (quote) "c = quote" | (esc) "c = backslash" | (plain) "c \<noteq> quote" "c \<noteq> backslash" by blast
  then show ?case
  proof cases
    case quote
    then show ?thesis using "3.prems"
      by (intro exI [of _ "[]"] exI [of _ g]) (auto simp: copy_literal_gap)
  next
    case esc
    obtain out' where o: "literal s = Some (out', r)" "out = c # d # out'" using "3.prems" esc by auto
    from "3.IH"(1) [OF _ esc o(1), of "w @ [backslash, d]" "tl (tl (g @ [backslash, d]))"] "3.prems" esc
    obtain v g' where "out' = v @ [quote]" "NUL \<notin> set v" "copy_literal (gap (w @ [backslash, d]) (tl (tl (g @ [backslash, d]))) s)
         (length (w @ [backslash, d])) (length (w @ [backslash, d]) + length (tl (tl (g @ [backslash, d]))))
       = Some (gap ((w @ [backslash, d]) @ v) g' (quote # r), length ((w @ [backslash, d]) @ v), length ((w @ [backslash, d]) @ v) + length g')"
      by auto
    then show ?thesis
      using esc o "3.prems" by (intro exI [of _ "backslash # d # v"] exI [of _ g']) (simp add: copy_literal_gap(4))
  next
    case plain
    obtain out' where o: "literal (d # s) = Some (out', r)" "out = c # out'" using "3.prems" plain by auto
    from "3.IH"(2) [OF plain o(1), of "w @ [c]" "tl (g @ [c])"] "3.prems"
    obtain v g' where "out' = v @ [quote]" "NUL \<notin> set v" "copy_literal (gap (w @ [c]) (tl (g @ [c])) (d # s))
         (length (w @ [c])) (length (w @ [c]) + length (tl (g @ [c])))
       = Some (gap ((w @ [c]) @ v) g' (quote # r), length ((w @ [c]) @ v), length ((w @ [c]) @ v) + length g')"
      by auto
    then show ?thesis
      using plain o "3.prems" by - (rule exI [of _ "c # v"], rule exI [of _ g'], simp add: copy_literal_gap(3) not_sym [of NUL c])
  qed
qed simp

lemma copy_literal_open:
  "\<lbrakk>literal s = None; NUL \<notin> set s; copy_literal (gap w g s) (length w) (length w + length g) = Some (buf, into, json)\<rbrakk>
   \<Longrightarrow> length buf = Suc json"
proof (induction s arbitrary: w g rule: literal.induct)
  case 1
  then show ?case by (auto simp: copy_literal_gap gap_read)
next
  case (2 c)
  then show ?case
    using copy_literal_gap(1) [of "w @ [c]" "tl (g @ [c])"]
    by (cases "c = backslash") (auto simp: copy_literal_gap gap_read split: if_splits)
next
  case (3 c d s)
  consider (esc) "c = backslash" | (plain) "c \<noteq> quote" "c \<noteq> backslash" using "3.prems" by force
  then show ?case
  proof cases
    case esc
    then show ?thesis using "3.IH"(1) [of "w @ [c, d]" "tl (tl (g @ [c, d]))"] "3.prems"
      by (simp add: copy_literal_gap(4))
  next
    case plain
    then show ?thesis using "3.IH"(2) [of "w @ [c]" "tl (g @ [c])"] "3.prems"
      by (simp add: copy_literal_gap(3) not_sym [of NUL c])
  qed
qed

text \<open>One round of the loop on such a block.\<close>

lemma minify_loop_gap:
  "NUL \<notin> set w \<Longrightarrow> map_option c_string (minify_loop (gap w g []) (length w) (length w + length g)) = Some w"
  "blank c \<Longrightarrow> minify_loop (gap w g (c # s)) (length w) (length w + length g)
     = minify_loop (gap w (g @ [c]) s) (length w) (length w + length (g @ [c]))"
  "\<lbrakk>c \<noteq> NUL; \<not> blank c; c \<noteq> quote; \<not> (c = CHR ''/'' \<and> (next_is (CHR ''/'') s \<or> next_is (CHR ''*'') s))\<rbrakk>
   \<Longrightarrow> minify_loop (gap w g (c # s)) (length w) (length w + length g)
     = minify_loop (gap (w @ [c]) (tl (g @ [c])) s) (length (w @ [c])) (length (w @ [c]) + length (tl (g @ [c])))"
proof -
  let ?j = "length w + length g"
  show "map_option c_string (minify_loop (gap w g []) (length w) ?j) = Some w" if "NUL \<notin> set w"
  proof -
    have "c_string ((gap w g [])[length w := NUL]) = w"
      using that by (cases g) (auto simp: gap_def list_update_append c_string_def takeWhile_append)
    then show ?thesis by (subst minify_loop.simps) (simp add: gap_read)
  qed
  have at: "buf_at (gap w g (c # s)) (Suc ?j) d \<longleftrightarrow> next_is d s" if "d \<noteq> NUL" for d
    using that by (cases s) (auto simp: gap_next next_is_def)
  show "minify_loop (gap w g (c # s)) (length w) ?j = minify_loop (gap w (g @ [c]) s) (length w) (length w + length (g @ [c]))"
    if "blank c"
    unfolding minify_loop.simps [of "gap w g (c # s)" "length w" ?j] using that by (auto simp: gap_read gap_skip [symmetric])
  show "minify_loop (gap w g (c # s)) (length w) ?j
     = minify_loop (gap (w @ [c]) (tl (g @ [c])) s) (length (w @ [c])) (length (w @ [c]) + length (tl (g @ [c])))"
    if "c \<noteq> NUL" "\<not> blank c" "c \<noteq> quote" "\<not> (c = CHR ''/'' \<and> (next_is (CHR ''/'') s \<or> next_is (CHR ''*'') s))"
    unfolding minify_loop.simps [of "gap w g (c # s)" "length w" ?j] using that by (auto simp: gap_read gap_write at)
qed

lemma minify_loop_line:
  assumes "NUL \<notin> set s" "next_is (CHR ''/'') s"
  shows "\<exists>g'. minify_loop (gap w g (CHR ''/'' # s)) (length w) (length w + length g)
    = minify_loop (gap w g' (dropWhile (\<lambda>c. c \<noteq> CHR 0x0A) s)) (length w) (length w + length g')"
proof -
  let ?u = "takeWhile (\<lambda>c. c \<noteq> CHR 0x0A) (CHR ''/'' # s)" and ?r = "dropWhile (\<lambda>c. c \<noteq> CHR 0x0A) (CHR ''/'' # s)"
  have "buf_at (gap w g (CHR ''/'' # s)) (Suc (length w + length g)) (CHR ''/'')"
    using assms(2) by (cases s) (auto simp: gap_next next_is_def)
  moreover have "line_end (gap w g (CHR ''/'' # s)) (length w + length g) = Some (length w + length (g @ ?u))"
    using line_end_gap [of "CHR ''/'' # s" w g] assms(1) by simp
  ultimately have step: "minify_loop (gap w g (CHR ''/'' # s)) (length w) (length w + length g)
    = minify_loop (gap w g (CHR ''/'' # s)) (length w) (length w + length (g @ ?u))"
    unfolding minify_loop.simps [of "gap w g (CHR ''/'' # s)" "length w" "length w + length g"] by (simp add: gap_read)
  have "gap w g (CHR ''/'' # s) = gap w (g @ ?u) ?r"
    unfolding gap_drop [symmetric] takeWhile_dropWhile_id by simp
  with step have "minify_loop (gap w g (CHR ''/'' # s)) (length w) (length w + length g)
    = minify_loop (gap w (g @ ?u) ?r) (length w) (length w + length (g @ ?u))" by (simp only:)
  moreover have "?r = dropWhile (\<lambda>c. c \<noteq> CHR 0x0A) s" by simp
  ultimately show ?thesis by (intro exI [of _ "g @ ?u"]) (simp only:)
qed

lemma minify_loop_block:
  assumes "NUL \<notin> set s" "next_is (CHR ''*'') s"
  shows "case comment_end s of
      None \<Rightarrow> minify_loop (gap w g (CHR ''/'' # s)) (length w) (length w + length g) = None
    | Some r \<Rightarrow> (\<exists>g'. minify_loop (gap w g (CHR ''/'' # s)) (length w) (length w + length g)
        = minify_loop (gap w g' r) (length w) (length w + length g'))"
proof -
  let ?s = "CHR ''/'' # s" and ?j = "length w + length g"
  have at: "buf_at (gap w g ?s) (Suc ?j) (CHR ''*'')" "\<not> buf_at (gap w g ?s) (Suc ?j) (CHR ''/'')"
    using assms(2) by (cases s; auto simp: gap_next next_is_def)+
  have e: "comment_end ?s = comment_end s" by simp
  have b: "block_end (gap w g ?s) ?j = (case comment_end s of None \<Rightarrow> Some (?j + length ?s)
        | Some r \<Rightarrow> Some (?j + (length ?s - length r - 2)))"
    using block_end_gap [of ?s w g] assms(1) unfolding e by simp
  show ?thesis
  proof (cases "comment_end s")
    case None
    have "minify_loop (gap w g ?s) (length w) (?j + length ?s + 2) = None"
      by (subst minify_loop.simps) (simp add: gap_read)
    then have "minify_loop (gap w g ?s) (length w) ?j = None"
      unfolding minify_loop.simps [of "gap w g ?s" "length w" ?j] using None at b by (simp add: gap_read)
    then show ?thesis using None by simp
  next
    case (Some r)
    obtain u where u: "?s = (CHR ''/'' # u @ ''*/'') @ r" using comment_split [OF Some] by auto
    let ?u = "CHR ''/'' # u @ ''*/''"
    have "?j + (length ?s - length r - 2) + 2 = length w + length (g @ ?u)" unfolding u by simp
    then have step: "minify_loop (gap w g ?s) (length w) ?j = minify_loop (gap w g ?s) (length w) (length w + length (g @ ?u))"
      unfolding minify_loop.simps [of "gap w g ?s" "length w" ?j] using Some at b by (simp add: gap_read add.assoc)
    have "gap w g ?s = gap w (g @ ?u) r" unfolding u by (rule gap_drop)
    with step have "minify_loop (gap w g ?s) (length w) ?j = minify_loop (gap w (g @ ?u) r) (length w) (length w + length (g @ ?u))"
      by (simp only:)
    then show ?thesis unfolding Some option.case by (rule exI [of _ "g @ ?u"])
  qed
qed

lemma minify_loop_literal:
  assumes "NUL \<notin> set s" "NUL \<notin> set w"
  shows "case literal s of
      None \<Rightarrow> minify_loop (gap w g (quote # s)) (length w) (length w + length g) = None
    | Some (out, r) \<Rightarrow> NUL \<notin> set out \<and> (\<exists>g'. minify_loop (gap w g (quote # s)) (length w) (length w + length g)
        = minify_loop (gap (w @ quote # out) g' r) (length (w @ quote # out)) (length (w @ quote # out) + length g'))"
proof -
  let ?w = "w @ [quote]" and ?g = "tl (g @ [quote])" and ?j = "length w + length g"
  have q: "minify_loop (gap w g (quote # s)) (length w) ?j =
      (case copy_literal (gap ?w ?g s) (length ?w) (length ?w + length ?g) of
         None \<Rightarrow> None
       | Some (buf, into, json) \<Rightarrow> minify_loop (buf[into := buf ! json]) (into + 1) (json + 1))"
    unfolding minify_loop.simps [of "gap w g (quote # s)" "length w" ?j] by (simp add: gap_read gap_write) (simp only: Let_def)
  show ?thesis
  proof (cases "literal s")
    case None
    have "minify_loop (gap w g (quote # s)) (length w) ?j = None"
    proof (cases "copy_literal (gap ?w ?g s) (length ?w) (length ?w + length ?g)")
      case (Some y)
      obtain buf into json where y: "y = (buf, into, json)" by (rule prod_cases3)
      have "length buf = Suc json" using copy_literal_open [OF None assms(1) Some [unfolded y]] .
      then have "minify_loop (buf[into := buf ! json]) (into + 1) (json + 1) = None"
        by (subst minify_loop.simps) simp
      then show ?thesis unfolding q Some y option.case prod.case .
    qed (simp only: q option.case)
    then show ?thesis using None by simp
  next
    case (Some x)
    obtain out r where x: "x = (out, r)" by (cases x)
    from copy_literal_closed [OF Some [unfolded x] assms(1), of ?w ?g]
    obtain v g' where v: "out = v @ [quote]" "NUL \<notin> set v" and
      c: "copy_literal (gap ?w ?g s) (length ?w) (length ?w + length ?g)
        = Some (gap (?w @ v) g' (quote # r), length (?w @ v), length (?w @ v) + length g')"
      by (elim exE conjE)
    have "minify_loop (gap w g (quote # s)) (length w) ?j
        = minify_loop (gap ((?w @ v) @ [quote]) (tl (g' @ [quote])) r) (length (?w @ v) + 1) (length (?w @ v) + length g' + 1)"
      unfolding q c option.case prod.case by (simp only: gap_read(1) gap_write)
    moreover have "(?w @ v) @ [quote] = w @ quote # out" "length (?w @ v) + 1 = length (w @ quote # out)"
      "length (?w @ v) + length g' + 1 = length (w @ quote # out) + length (tl (g' @ [quote]))"
      using v(1) by simp_all
    ultimately have e: "minify_loop (gap w g (quote # s)) (length w) ?j
        = minify_loop (gap (w @ quote # out) (tl (g' @ [quote])) r) (length (w @ quote # out))
            (length (w @ quote # out) + length (tl (g' @ [quote])))" by (simp only:)
    have "NUL \<notin> set out" using v by simp
    then show ?thesis
      unfolding Some x option.case prod.case by (rule conjI) (rule exI [of _ "tl (g' @ [quote])"], rule e)
  qed
qed

text \<open>The loop on the block leaves the text that \<open>minify\<close> gives, and leaves the block exactly when that is \<open>None\<close>.\<close>

lemma minify_loop_refines:
  "\<lbrakk>NUL \<notin> set w; NUL \<notin> set s\<rbrakk>
   \<Longrightarrow> map_option c_string (minify_loop (gap w g s) (length w) (length w + length g)) = map_option ((@) w) (minify s)"
proof (induction s arbitrary: w g rule: minify.induct)
  case (1 s)
  show ?case
  proof (cases s)
    case Nil
    then show ?thesis using minify_loop_gap(1) [OF 1(6), of g] by (simp add: minify.simps [of "[]"])
  next
    case (Cons c t)
    note IH = 1(1-5) [OF Cons]
    have t: "NUL \<notin> set t" "c \<noteq> NUL" using 1(7) Cons by auto
    consider (blank) "blank c" | (line) "c = CHR ''/''" "next_is (CHR ''/'') t"
      | (block) "c = CHR ''/''" "next_is (CHR ''*'') t" "\<not> next_is (CHR ''/'') t" | (string) "c = quote"
      | (other) "\<not> blank c" "c \<noteq> quote" "\<not> (c = CHR ''/'' \<and> (next_is (CHR ''/'') t \<or> next_is (CHR ''*'') t))"
      by blast
    then show ?thesis
    proof cases
      case blank
      then show ?thesis
        using IH(1) [OF blank 1(6) t(1), of "g @ [c]"] unfolding Cons minify_loop_gap(2) [OF blank] minify.simps [of "c # t"] by simp
    next
      case line
      have "NUL \<notin> set (dropWhile (\<lambda>c. c \<noteq> CHR 0x0A) t)" using t(1) by (meson set_dropWhileD)
      then show ?thesis
        using IH(2) [OF _ _ 1(6)] line minify_loop_line [OF t(1) line(2), of w g]
        unfolding Cons minify.simps [of "c # t"] by fastforce
    next
      case block
      show ?thesis
      proof (cases "comment_end t")
        case None
        then show ?thesis using minify_loop_block [OF t(1) block(2), of w g] block unfolding Cons minify.simps [of "c # t"] by simp
      next
        case (Some r)
        have "NUL \<notin> set r" using comment_split [OF Some] t(1) by auto
        then show ?thesis
          using IH(3) [OF _ _ _ Some 1(6)] Some block minify_loop_block [OF t(1) block(2), of w g]
          unfolding Cons minify.simps [of "c # t"] by fastforce
      qed
    next
      case string
      show ?thesis
      proof (cases "literal t")
        case None
        then show ?thesis using minify_loop_literal [OF t(1) 1(6), of g] string unfolding Cons minify.simps [of "c # t"] by simp
      next
        case (Some x)
        obtain out r where x: "x = (out, r)" by (cases x)
        have u: "t = out @ r" using literal_split Some unfolding x by blast
        obtain g' where g': "NUL \<notin> set out" "minify_loop (gap w g (quote # t)) (length w) (length w + length g)
            = minify_loop (gap (w @ quote # out) g' r) (length (w @ quote # out)) (length (w @ quote # out) + length g')"
          using minify_loop_literal [OF t(1) 1(6), of g] Some unfolding x by auto
        have "map_option c_string (minify_loop (gap (w @ quote # out) g' r) (length (w @ quote # out)) (length (w @ quote # out) + length g'))
            = map_option ((@) (w @ quote # out)) (minify r)"
          by (rule IH(4) [OF _ _ _ string Some x [symmetric]]) (use string 1(6) t(1) g'(1) u in simp_all)
        then show ?thesis
          using Some x unfolding Cons string minify.simps [of "quote # t"] g'(2) by (cases "minify r") simp_all
      qed
    next
      case other
      then show ?thesis
        using IH(5) [OF _ _ _ other(2), of "w @ [c]" "tl (g @ [c])"] 1(6) t
        unfolding Cons minify_loop_gap(3) [OF t(2) other] minify.simps [of "c # t"] by (auto simp: option.map_comp comp_def)
    qed
  qed
qed

lemma map_append:
  "map_option ((@) []) x = x" "map_option ((@) a) (map_option ((@) b) x) = map_option ((@) (a @ b)) x"
  "map_option ((#) c) x = map_option ((@) [c]) x"
  by (cases x; simp)+

lemma cJSON_Minify_refines: "NUL \<notin> set s \<Longrightarrow> map_option c_string (cJSON_Minify (s @ [NUL])) = minify s"
  using minify_loop_refines [of "[]" s "[]"] by (simp add: cJSON_Minify_def gap_def map_append)

subsection \<open>Minify on what the printer writes\<close>

text \<open>A part of a text that leaves \<open>b\<close>, whatever comes behind it.\<close>

definition leaves :: "string \<Rightarrow> string \<Rightarrow> bool" where
  "leaves a b \<longleftrightarrow> (\<forall>rest. minify (a @ rest) = map_option ((@) b) (minify rest))"

lemma leaves_append: "leaves a b \<Longrightarrow> leaves a' b' \<Longrightarrow> leaves (a @ a') (b @ b')"
  by (simp add: leaves_def map_append)

lemma leaves_nil: "leaves [] []"
  by (simp add: leaves_def map_append)

lemma minify_char:
  "\<not> blank c \<Longrightarrow> c \<noteq> quote \<Longrightarrow> c \<noteq> CHR ''/'' \<Longrightarrow> minify (c # s) = map_option ((@) [c]) (minify s)"
  "blank c \<Longrightarrow> minify (c # s) = minify s"
  "literal s = Some (out, r) \<Longrightarrow> minify (quote # s) = map_option ((@) (quote # out)) (minify r)"
  unfolding minify.simps [of "c # s"] minify.simps [of "quote # s"] by (auto simp: map_append(3)) (cases "minify r"; simp)

lemma leaves_char: "\<not> blank c \<Longrightarrow> c \<noteq> quote \<Longrightarrow> c \<noteq> CHR ''/'' \<Longrightarrow> leaves [c] [c]"
  by (simp add: leaves_def minify_char(1))

lemma leaves_chars: "\<forall>c \<in> set s. \<not> blank c \<and> c \<noteq> quote \<and> c \<noteq> CHR ''/'' \<Longrightarrow> leaves s s"
proof (induction s)
  case (Cons c s)
  then show ?case using leaves_append [OF leaves_char [of c], of s s] by simp
qed (rule leaves_nil)

lemma leaves_blanks: "\<forall>c \<in> set s. blank c \<Longrightarrow> leaves s []"
proof (induction s)
  case (Cons c s)
  then have "leaves [c] []" by (auto simp: leaves_def minify_char(2) map_append(1))
  then show ?case using leaves_append [of "[c]" "[]" s "[]"] Cons by simp
qed (rule leaves_nil)

lemma literal_plain: "c \<noteq> quote \<Longrightarrow> c \<noteq> backslash \<Longrightarrow> literal (c # s) = map_option (apfst ((#) c)) (literal s)"
  by (cases s) simp_all

lemma literal_quote: "literal (quote # s) = Some ([quote], s)"
  by (cases s) simp_all

lemma literal_char: "c \<noteq> NUL \<Longrightarrow> literal (escape_char c @ s) = map_option (apfst ((@) (escape_char c))) (literal s)"
proof (erule escape_cases, goal_cases)
  case 1
  then show ?case by (cases "literal s") (simp_all add: literal_plain raw_char_def)
next
  case (2 d)
  then show ?case by (cases "literal s") simp_all
next
  case 3
  have "raw_char (hex_char (code c div 16))" "raw_char (hex_char (code c mod 16))"
    using code_less [of c] by (simp_all add: raw_hex_char less_mult_imp_div_less)
  then have h: "hex_char (code c div 16) \<noteq> quote" "hex_char (code c div 16) \<noteq> backslash"
    "hex_char (code c mod 16) \<noteq> quote" "hex_char (code c mod 16) \<noteq> backslash"
    by (simp_all add: raw_char_def)
  from 3 show ?case by (cases "literal s") (simp_all add: h literal_plain split_paired_all)
qed

lemma leaves_escape:
  assumes "text_ok s"
  shows "leaves (escape s) (escape s)"
proof -
  have "literal (concat (map escape_char s) @ quote # rest) = Some (concat (map escape_char s) @ [quote], rest)" for rest
    using assms
  proof (induction s)
    case (Cons c s)
    then show ?case by (simp add: text_ok_def literal_char not_sym [of NUL c])
  qed (simp add: literal_quote)
  then show ?thesis by (simp add: leaves_def escape_def minify_char(3))
qed

lemma leaves_decimal: "leaves (sprintf_d i) (sprintf_d i)"
proof (rule leaves_chars, rule ballI)
  fix c assume "c \<in> set (sprintf_d i)"
  then have "c = CHR ''-'' \<or> digit c" using decimal_digits by (auto simp: sprintf_d_def split: if_splits)
  then show "\<not> blank c \<and> c \<noteq> quote \<and> c \<noteq> CHR ''/''" by (auto simp: digit_def code_def)
qed

lemma leaves_join_entries:
  "\<forall>i \<in> set is. leaves (f i) (g i) \<Longrightarrow> leaves (join_entries True (map f is)) (join_entries False (map g is))"
proof (induction "is")
  case (Cons i js)
  have c: "leaves ('','' @ '' '') '',''"
    using leaves_append [OF leaves_chars leaves_blanks, of "'',''" "'' ''"] by simp
  show ?case
    using Cons leaves_append [OF _ leaves_append [OF c], of "f i" "g i"] by (cases js) auto
qed (simp add: leaves_nil)

lemma leaves_join_members:
  "\<forall>i \<in> set is. leaves (f i) (g i) \<and> text_ok (the (item_name i))
   \<Longrightarrow> leaves (join_members True d (map (member_text f) is)) (join_members False d' (map (member_text g) is))"
proof (induction "is")
  case (Cons i js)
  have t: "leaves (replicate d tabulator) []" "leaves [newline] []" by (rule leaves_blanks; simp)+
  have c: "leaves ('':'' @ [tabulator]) '':''" "leaves '','' '',''"
    using leaves_append [OF leaves_chars leaves_blanks, of "'':''" "[tabulator]"] leaves_chars [of "'',''"] by simp_all
  have "leaves (if js = [] then [] else '','') (if js = [] then [] else '','')" using c(2) leaves_nil by simp
  then have "leaves (replicate d tabulator @ escape (the (item_name i)) @ ('':'' @ [tabulator]) @ f i @ (if js = [] then [] else '','') @ [newline]
       @ join_members True d (map (member_text f) js))
     ([] @ escape (the (item_name i)) @ '':'' @ g i @ (if js = [] then [] else '','') @ [] @ join_members False d' (map (member_text g) js))"
    using Cons t c by (intro leaves_append leaves_escape) auto
  then show ?case by (simp add: member_text_def [abs_def] split: if_splits)
qed (simp add: leaves_nil)

lemma leaves_render: "json_ok i \<Longrightarrow> leaves (render True d i) (render False d' i)"
proof (induction i arbitrary: d d')
  case (Item ty vs vi vd nm cs)
  have br: "leaves ''['' ''[''" "leaves '']'' '']''" "leaves ''{'' ''{''" "leaves ''}'' ''}''" by (rule leaves_chars; simp)+
  have bl: "leaves [newline] []" "leaves (replicate d tabulator) []" "leaves (newline # replicate (d - 1) tabulator) []"
    by (rule leaves_blanks; simp)+
  show ?case
  proof (cases ty)
    case cJSON_Array
    have "leaves (''['' @ join_entries True (map (render True (d + 1)) cs) @ '']'')
        (''['' @ join_entries False (map (render False (d' + 1)) cs) @ '']'')"
      using Item cJSON_Array by (intro leaves_append br leaves_join_entries) (auto simp: list_all_iff)
    then show ?thesis using cJSON_Array by simp
  next
    case cJSON_Object
    show ?thesis
    proof (cases "cs = []")
      case True
      have "leaves (''{'' @ (newline # replicate (d - 1) tabulator) @ ''}'') (''{'' @ [] @ ''}'')"
        by (intro leaves_append br bl)
      then show ?thesis using cJSON_Object True by simp
    next
      case False
      have "leaves (''{'' @ [newline] @ join_members True (d + 1) (map (member_text (render True (d + 1))) cs) @ replicate d tabulator @ ''}'')
        (''{'' @ [] @ join_members False (d' + 1) (map (member_text (render False (d' + 1))) cs) @ [] @ ''}'')"
        using Item cJSON_Object by (intro leaves_append br bl leaves_join_members) (auto simp: list_all_iff)
      then show ?thesis using cJSON_Object False by (simp add: member_text_def [abs_def])
    qed
  next
    case cJSON_String
    then show ?thesis using leaves_escape Item.prems by simp
  next
    case cJSON_Number
    then show ?thesis using leaves_decimal by simp
  qed (simp_all add: leaves_chars)
qed

lemma hex_char_no_nul: "n < 16 \<Longrightarrow> hex_char n \<noteq> NUL"
  using hex_digit_char [of n] by (auto simp: hex_digit_def [of NUL] digit_def code_def)

lemma escape_char_no_nul:
  assumes "c \<noteq> NUL"
  shows "NUL \<notin> set (escape_char c)"
proof (rule escape_cases [OF assms], goal_cases)
  case (2 d)
  with assms have "d \<noteq> NUL" by (auto simp: unescape.simps)
  then show ?case using 2 by simp
next
  case 3
  have "code c div 16 < 16" "code c mod 16 < 16" using code_less [of c] by simp_all
  then show ?case using 3 hex_char_no_nul [of "code c div 16"] hex_char_no_nul [of "code c mod 16"] by simp
qed (use assms in simp)

lemma escape_no_nul: "text_ok s \<Longrightarrow> NUL \<notin> set (escape s)"
  unfolding escape_def text_ok_def by (induction s) (simp_all add: escape_char_no_nul not_sym [of NUL])

lemma set_join_entries: "set (join_entries fmt es) \<subseteq> {CHR '','', CHR '' ''} \<union> (\<Union>e \<in> set es. set e)"
  by (induction fmt es rule: join_entries.induct) auto

lemma set_join_members:
  "set (join_members fmt d es) \<subseteq> {CHR '','', CHR '':'', newline, tabulator} \<union> (\<Union>(n, e) \<in> set es. set n \<union> set e)"
  by (induction fmt d es rule: join_members.induct) (auto split: if_splits)

lemma render_no_nul: "json_ok i \<Longrightarrow> NUL \<notin> set (render fmt d i)"
proof (induction i arbitrary: d)
  case (Item ty vs vi vd nm cs)
  show ?case
  proof (cases ty)
    case cJSON_Number
    have "NUL \<notin> set (decimal n)" for n
      using decimal_digits [of n] by (auto simp: digit_def code_def)
    then have "NUL \<notin> set (sprintf_d vi)" by (simp add: sprintf_d_def)
    then show ?thesis using cJSON_Number by simp
  next
    case cJSON_Array
    then show ?thesis using Item set_join_entries [of fmt "map (render fmt (d + 1)) cs"] by (auto simp: list_all_iff)
  next
    case cJSON_Object
    let ?es = "map (\<lambda>c. (escape (the (item_name c)), render fmt (d + 1) c)) cs"
    have "NUL \<notin> (\<Union>(n, e) \<in> set ?es. set n \<union> set e)"
      using Item cJSON_Object escape_no_nul by (auto simp: list_all_iff)
    then have "NUL \<notin> set (join_members fmt (d + 1) ?es)" using set_join_members [of fmt "d + 1" ?es] by auto
    then show ?thesis using cJSON_Object by auto
  qed (use Item.prems escape_no_nul in \<open>auto split: option.splits\<close>)
qed

subsection \<open>Properties\<close>



text \<open>An array of two or more integers, made when memory for it and for all of them does not suffice but does for the array
  itself, writes through a null pointer.\<close>

lemma json_create_array_null:
  assumes "0 < mem" "mem \<le> length numbers" "2 \<le> length numbers"
  shows "cJSON_CreateIntArray numbers mem = None"
proof -
  obtain m where m: "mem = Suc m" using assms(1) by (cases mem) simp_all
  have "create_items (\<lambda>x. cJSON_CreateNumber (real_of_int x)) numbers [] m = None"
    by (rule create_items_short) (use assms m in \<open>simp_all add: cJSON_CreateNumber_def create_def\<close>)
  then show ?thesis by (simp add: m cJSON_CreateIntArray_def create_array_def cJSON_CreateArray_def create_def)
qed

end
