(* ===== verification/WebSongs.thy ===== *)
theory WebSongs
  imports LcdMenu CJsonItems
begin

text \<open>
  From the bytes of the web server to the song list: the receive buffer of \<open>iotb_lcd_show_httpwebserver\<close>, and the part of
  \<open>webserver_data_parse\<close> that calls the JSON library. \<open>LcdMenu\<close> models what is done with the names.
\<close>

subsection \<open>The receive buffer\<close>

text \<open>
  Every \<open>webclient_read\<close> is given the start of the buffer, which \<open>rt_calloc\<close> has cleared; a piece is what one
  successful call stores.
\<close>

definition read_piece :: "string \<Rightarrow> string \<Rightarrow> string" where
  "read_piece buffer piece = piece @ drop (length piece) buffer"

definition receive_buffer :: "string list \<Rightarrow> string" where
  "receive_buffer pieces = foldl read_piece (replicate (nat GET_RESP_BUFSZ) NUL) pieces"

subsection \<open>Parsing\<close>

text \<open>The names that the loop reads; \<open>None\<close> is the access to a null \<open>valuestring\<close>.\<close>

definition song_names :: "cJSON \<Rightarrow> string list option" where
  "song_names array = those (map valuestring (take 6 (child array)))"

text \<open>
  What \<open>webserver_data_parse\<close> finds in the buffer: \<open>None\<close> is an access behind the buffer, which happens when it holds no NUL,
  an access of the parser behind its blocks, or one through a null pointer. With a list comes the number of allocations that
  still succeed after the parse; the items are only freed at the end of the function.
\<close>

definition songs_of_reply :: "fp_env \<Rightarrow> string \<Rightarrow> nat \<Rightarrow> (web_reply \<times> nat) option" where
  "songs_of_reply fe data mem =
     (if NUL \<notin> set data then None
      else case cJSON_Parse fe (c_string data) mem of
             Done obj rest mem \<Rightarrow>
               (case cJSON_GetObjectItem obj ''internet_radio'' of
                  None \<Rightarrow> Some (No_list, mem)
                | Some array \<Rightarrow> map_option (\<lambda>names. (Song_array names, mem)) (song_names array))
           | Fail e \<Rightarrow> Some (Bad_json, mem) | Bad \<Rightarrow> None | Out_of_fuel \<Rightarrow> None)"

definition show_songs_of_reply :: "fp_env \<Rightarrow> string list \<Rightarrow> nat \<Rightarrow> lcd_state \<Rightarrow> lcd_state option" where
  "show_songs_of_reply fe pieces mem st =
     (case songs_of_reply fe (receive_buffer pieces) mem of
        None \<Rightarrow> None | Some (reply, mem) \<Rightarrow> webserver_data_parse mem reply st)"

subsection \<open>What the server sends\<close>

definition song_item :: "string \<Rightarrow> cJSON" where
  "song_item s = Item cJSON_String (Some s) 0 0 None []"

definition songs_object :: "string list \<Rightarrow> cJSON" where
  "songs_object names = Item cJSON_Object None 0 0 None
     [Item cJSON_Array None 0 0 (Some ''internet_radio'') (map song_item names)]"

lemma songs_json_ok: "\<forall>s \<in> set names. text_ok s \<Longrightarrow> json_ok (songs_object names)"
  by (auto simp: songs_object_def song_item_def list_all_iff text_ok_def)

lemma songs_allocs: "allocs (songs_object names) = 2 + 2 * length names"
  by (induction names) (simp_all add: songs_object_def song_item_def)

lemma receive_one: "length s \<le> nat GET_RESP_BUFSZ \<Longrightarrow> receive_buffer [s] = s @ replicate (nat GET_RESP_BUFSZ - length s) NUL"
  by (simp add: receive_buffer_def read_piece_def)

lemma c_string_padded: "NUL \<notin> set s \<Longrightarrow> c_string (s @ replicate n NUL) = s"
  by (cases n) (auto simp: c_string_def takeWhile_append)

lemma those_map: "those (map f xs) = Some ys \<longleftrightarrow> map f xs = map Some ys"
  by (induction xs arbitrary: ys) (auto simp: map_eq_Cons_conv split: option.splits)

lemma those_None: "i < length xs \<Longrightarrow> xs ! i = None \<Longrightarrow> those xs = None"
  by (induction xs arbitrary: i) (auto simp: nth_Cons split: nat.splits option.splits)

lemma typed_valuestring: "typed c \<Longrightarrow> valuestring c = None \<longleftrightarrow> item_type c \<noteq> cJSON_String"
  by (cases c; cases "item_type c") auto

lemma typed_child: "typed i \<Longrightarrow> c \<in> set (child i) \<Longrightarrow> typed c"
  by (cases i; cases "item_type i") (auto simp: list_all_iff)

lemma object_get_member: "cJSON_GetObjectItem i s = Some c \<Longrightarrow> c \<in> set (child i)"
  by (auto simp: object_get split: if_splits)

lemma songs_of_printed:
  assumes "fp_exact fe" "\<forall>s \<in> set names. text_ok s" "length (render fmt 0 (songs_object names)) < nat GET_RESP_BUFSZ"
  shows "songs_of_reply fe (receive_buffer [render fmt 0 (songs_object names)]) (3 + 2 * length names + mem)
    = Some (Song_array (take 6 names), mem)"
proof -
  let ?t = "render fmt 0 (songs_object names)"
  have ok: "json_ok (songs_object names)" using assms(2) by (rule songs_json_ok)
  have "cJSON_Parse fe ?t (3 + 2 * length names + mem) = Done (unnamed (songs_object names)) [] mem"
    using cJSON_Parse_render [OF assms(1) ok, of fmt mem] by (simp add: songs_allocs numeral_3_eq_3)
  moreover have "c_string (receive_buffer [?t]) = ?t" "NUL \<in> set (receive_buffer [?t])"
    using assms(3) render_no_nul [OF ok] by (simp_all add: receive_one c_string_padded)
  moreover have "song_names (Item cJSON_Array None 0 0 (Some ''internet_radio'') (map song_item names)) = Some (take 6 names)"
    by (simp add: song_names_def those_map take_map song_item_def)
  moreover have "cJSON_GetObjectItem (unnamed (songs_object names)) ''internet_radio''
      = Some (Item cJSON_Array None 0 0 (Some ''internet_radio'') (map song_item names))"
    by (simp add: cJSON_GetObjectItem_def unnamed_def songs_object_def other_name_def)
  ultimately show ?thesis by (simp add: songs_of_reply_def)
qed

subsection \<open>Properties\<close>

text \<open>A song list that the server prints, formatted or not, and that arrives in one piece shorter than the buffer is loaded
  by the display thread, when there is memory for the items and for the list: after it the thread holds the first six names in
  their order.\<close>

lemma web_songs_loaded:
  assumes "fp_exact fe" "\<forall>s \<in> set names. text_ok s \<and> length s < 30" "names \<noteq> []" "min (length names) 6 < mem"
    and "length (render fmt 0 (songs_object names)) < nat GET_RESP_BUFSZ"
    and "0 \<le> songlist_num st" "songlist_num st < int (min (length names) 6)"
  shows "\<exists>st'. show_songs_of_reply fe [render fmt 0 (songs_object names)] (3 + 2 * length names + mem) st = Some st'
    \<and> songs_ok st' \<and> songlist st' = Some (map Some (take 6 names)) \<and> item_num st' = int (min (length names) 6)"
proof -
  have "songs_of_reply fe (receive_buffer [render fmt 0 (songs_object names)]) (3 + 2 * length names + mem)
    = Some (Song_array (take 6 names), mem)"
    using assms(1,2,5) by (intro songs_of_printed) auto
  moreover have "\<exists>st'. webserver_data_parse mem (Song_array (take 6 names)) st = Some st' \<and> songs_ok st'
    \<and> item_num st' = int (min (length (take 6 names)) 6) \<and> songlist_num st' = songlist_num st
    \<and> songlist st' = Some (map Some (take 6 (take 6 names)))"
    using assms by (intro webserver_data_parse_loads) (auto dest: in_set_takeD)
  ultimately show ?thesis by (auto simp: show_songs_of_reply_def)
qed

text \<open>The blocks of the list are not checked: when the memory ends behind the items, the thread writes through a NULL pointer.\<close>

lemma web_songs_no_memory:
  assumes "fp_exact fe" "\<forall>s \<in> set names. text_ok s" "names \<noteq> []" "mem \<le> min (length names) 6"
    and "length (render fmt 0 (songs_object names)) < nat GET_RESP_BUFSZ"
  shows "show_songs_of_reply fe [render fmt 0 (songs_object names)] (3 + 2 * length names + mem) st = None"
proof -
  have "songs_of_reply fe (receive_buffer [render fmt 0 (songs_object names)]) (3 + 2 * length names + mem)
    = Some (Song_array (take 6 names), mem)"
    using assms(1,2,5) by (intro songs_of_printed) auto
  moreover have "new_songlist mem (take 6 names) = None" "take (nat (int (min (length names) 6))) (take 6 names) = take 6 names"
    using assms(4) by (simp_all add: new_songlist_eq not_less min.commute) (simp add: min_def)
  moreover have "(if int (length (take 6 names)) > 6 then 6 else int (length (take 6 names))) = int (min (length names) 6)" "0 < int (min (length names) 6)"
    using assms(3) by auto
  ultimately show ?thesis by (simp add: show_songs_of_reply_def webserver_data_parse_def Let_def)
qed

text \<open>The pieces of a body are not put together: each read starts at the beginning of the buffer, so when a later piece is at
  least as long as the earlier one, the earlier one is lost.\<close>

lemma web_piece_overwritten:
  assumes "length a \<le> length b"
  shows "show_songs_of_reply fe [a, b] mem st = show_songs_of_reply fe [b] mem st"
  using assms by (simp add: show_songs_of_reply_def receive_buffer_def read_piece_def)

text \<open>A song list with an item that is no string, in its first six, makes the thread read through a null pointer.\<close>

lemma web_song_no_string:
  assumes "cJSON_Parse fe (c_string (receive_buffer pieces)) mem = Done obj rest mem'"
    and "cJSON_GetObjectItem obj ''internet_radio'' = Some array" "i < 6" "i < length (child array)"
    and "item_type (child array ! i) \<noteq> cJSON_String"
  shows "show_songs_of_reply fe pieces mem st = None"
proof -
  have "typed obj" using assms(1) typed_parse by (simp add: cJSON_Parse_def)
  then have "typed (child array ! i)"
    using typed_child object_get_member [OF assms(2)] nth_mem [OF assms(4)] by blast
  then have "valuestring (take 6 (child array) ! i) = None"
    using assms(3,5) typed_valuestring by simp
  then have "song_names array = None"
    using assms(3,4) unfolding song_names_def by (intro those_None [of i]) simp_all
  then show ?thesis using assms(1,2) by (simp add: show_songs_of_reply_def songs_of_reply_def)
qed

end
