(* ===== verification/KService.thy ===== *)
theory KService
  imports CString
begin

text \<open>
  The memory and string services of \<open>rt-thread/src/kservice.c\<close>. Memory is a function from addresses to bytes, little-endian; the
  routines that work on whole words are the code's, configured without \<open>RT_USING_TINY_SIZE\<close>. Strings are arrays with their NUL,
  and a result is missing when a routine runs over the end of an array.
\<close>

subsection \<open>Memory\<close>

type_synonym mem = "nat \<Rightarrow> u8"

definition store_word :: "nat \<Rightarrow> u32 \<Rightarrow> mem \<Rightarrow> mem" where
  "store_word a w m =
     m(a := ucast w, a + 1 := ucast (drop_bit 8 w), a + 2 := ucast (drop_bit 16 w), a + 3 := ucast (drop_bit 24 w))"

definition load_word :: "nat \<Rightarrow> mem \<Rightarrow> u32" where
  "load_word a m =
     ucast (m a) OR push_bit 8 (ucast (m (a + 1))) OR push_bit 16 (ucast (m (a + 2))) OR push_bit 24 (ucast (m (a + 3)))"

definition LBLOCKSIZE :: nat where "LBLOCKSIZE = 4"

text \<open>The loops of \<open>rt_memset\<close>: four words at a time, words, bytes.\<close>

fun set_blocks :: "nat \<Rightarrow> u32 \<Rightarrow> nat \<Rightarrow> mem \<Rightarrow> nat \<times> nat \<times> mem" where
  "set_blocks a buffer count m =
     (if count \<ge> LBLOCKSIZE * 4 \<and> 0 < LBLOCKSIZE then
        set_blocks (a + 16) buffer (count - 4 * LBLOCKSIZE)
          (store_word (a + 12) buffer (store_word (a + 8) buffer (store_word (a + 4) buffer (store_word a buffer m))))
      else (a, count, m))"

fun set_words :: "nat \<Rightarrow> u32 \<Rightarrow> nat \<Rightarrow> mem \<Rightarrow> nat \<times> nat \<times> mem" where
  "set_words a buffer count m =
     (if count \<ge> LBLOCKSIZE \<and> 0 < LBLOCKSIZE then set_words (a + 4) buffer (count - LBLOCKSIZE) (store_word a buffer m)
      else (a, count, m))"

primrec set_bytes :: "nat \<Rightarrow> u8 \<Rightarrow> nat \<Rightarrow> mem \<Rightarrow> mem" where
  "set_bytes a d 0 m = m"
| "set_bytes a d (Suc count) m = set_bytes (a + 1) d count (m(a := d))"

definition rt_memset :: "nat \<Rightarrow> u32 \<Rightarrow> nat \<Rightarrow> mem \<Rightarrow> mem" where
  "rt_memset s c count m =
     (let d = c AND 0xff;
          (a, count, m) =
            (if \<not> count < LBLOCKSIZE \<and> s mod LBLOCKSIZE = 0 then
               let buffer = push_bit 8 d OR d;
                   buffer = buffer OR push_bit 16 buffer;
                   (a, count, m) = set_blocks s buffer count m
               in set_words a buffer count m
             else (s, count, m))
      in set_bytes a (ucast d) count m)"

text \<open>\<open>rt_memcpy\<close> copies forwards, in words when both addresses are aligned.\<close>

definition copy_word :: "nat \<Rightarrow> nat \<Rightarrow> mem \<Rightarrow> mem" where
  "copy_word dst src m = store_word dst (load_word src m) m"

fun copy_blocks :: "nat \<Rightarrow> nat \<Rightarrow> nat \<Rightarrow> mem \<Rightarrow> nat \<times> nat \<times> nat \<times> mem" where
  "copy_blocks dst src len m =
     (if 16 \<le> len then
        copy_blocks (dst + 16) (src + 16) (len - 16)
          (copy_word (dst + 12) (src + 12) (copy_word (dst + 8) (src + 8) (copy_word (dst + 4) (src + 4) (copy_word dst src m))))
      else (dst, src, len, m))"

fun copy_words :: "nat \<Rightarrow> nat \<Rightarrow> nat \<Rightarrow> mem \<Rightarrow> nat \<times> nat \<times> nat \<times> mem" where
  "copy_words dst src len m =
     (if 4 \<le> len then copy_words (dst + 4) (src + 4) (len - 4) (copy_word dst src m) else (dst, src, len, m))"

primrec copy_bytes :: "nat \<Rightarrow> nat \<Rightarrow> nat \<Rightarrow> mem \<Rightarrow> mem" where
  "copy_bytes dst src 0 m = m"
| "copy_bytes dst src (Suc len) m = copy_bytes (dst + 1) (src + 1) len (m(dst := m src))"

definition rt_memcpy :: "nat \<Rightarrow> nat \<Rightarrow> nat \<Rightarrow> mem \<Rightarrow> mem" where
  "rt_memcpy dst src count m =
     (let (dst, src, len, m) =
            (if \<not> count < 16 \<and> src mod 4 = 0 \<and> dst mod 4 = 0 then
               let (dst, src, len, m) = copy_blocks dst src count m in copy_words dst src len m
             else (dst, src, count, m))
      in copy_bytes dst src len m)"

text \<open>\<open>rt_memmove\<close> copies backwards when the destination begins inside the source.\<close>

primrec copy_backwards :: "nat \<Rightarrow> nat \<Rightarrow> nat \<Rightarrow> mem \<Rightarrow> mem" where
  "copy_backwards tmp s 0 m = m"
| "copy_backwards tmp s (Suc n) m = copy_backwards (tmp - 1) (s - 1) n (m(tmp - 1 := m (s - 1)))"

definition rt_memmove :: "nat \<Rightarrow> nat \<Rightarrow> nat \<Rightarrow> mem \<Rightarrow> mem" where
  "rt_memmove dest src n m =
     (if src < dest \<and> dest < src + n then copy_backwards (dest + n) (src + n) n m else copy_bytes dest src n m)"

primrec rt_memcmp :: "nat \<Rightarrow> nat \<Rightarrow> nat \<Rightarrow> mem \<Rightarrow> int" where
  "rt_memcmp cs ct 0 m = 0"
| "rt_memcmp cs ct (Suc count) m =
     (if uint (m cs) - uint (m ct) \<noteq> 0 then uint (m cs) - uint (m ct) else rt_memcmp (cs + 1) (ct + 1) count m)"

declare set_blocks.simps [simp del] set_words.simps [simp del] copy_blocks.simps [simp del] copy_words.simps [simp del]

subsection \<open>Strings\<close>

text \<open>\<open>char\<close> is unsigned on the target.\<close>

definition char_code :: "char \<Rightarrow> int" where
  "char_code c = of_char c"

fun rt_strcmp :: "string \<Rightarrow> string \<Rightarrow> int option" where
  "rt_strcmp (c # cs) (d # ds) = (if c \<noteq> NUL \<and> c = d then rt_strcmp cs ds else Some (char_code c - char_code d))"
| "rt_strcmp _ _ = None"

text \<open>The difference of two characters is kept in a \<open>signed char\<close>.\<close>

definition signed_char :: "int \<Rightarrow> int" where
  "signed_char n = signed_take_bit 7 n"

fun rt_strncmp :: "string \<Rightarrow> string \<Rightarrow> nat \<Rightarrow> int option" where
  "rt_strncmp cs ct 0 = Some 0"
| "rt_strncmp (c # cs) (d # ds) (Suc count) =
     (let res = signed_char (char_code c - char_code d)
      in if res \<noteq> 0 \<or> c = NUL then Some res else rt_strncmp cs ds count)"
| "rt_strncmp _ _ _ = None"

definition lower :: "int \<Rightarrow> int" where
  "lower c = (if 65 \<le> c \<and> c \<le> 90 then c + 32 else c)"

fun rt_strcasecmp :: "string \<Rightarrow> string \<Rightarrow> int option" where
  "rt_strcasecmp (c # cs) (d # ds) =
     (let ca = lower (char_code c); cb = lower (char_code d)
      in if ca = cb \<and> ca \<noteq> 0 then rt_strcasecmp cs ds else Some (ca - cb))"
| "rt_strcasecmp _ _ = None"

fun rt_strlen :: "string \<Rightarrow> nat option" where
  "rt_strlen [] = None"
| "rt_strlen (c # cs) = (if c = NUL then Some 0 else map_option Suc (rt_strlen cs))"

text \<open>The character is read before the length is tested.\<close>

fun rt_strnlen :: "string \<Rightarrow> nat \<Rightarrow> nat option" where
  "rt_strnlen [] maxlen = None"
| "rt_strnlen (c # cs) maxlen =
     (if c \<noteq> NUL \<and> 0 < maxlen then map_option Suc (rt_strnlen cs (maxlen - 1)) else Some 0)"

text \<open>What \<open>rt_strncpy\<close> writes: characters up to the NUL, then NULs.\<close>

fun strncpy_out :: "string \<Rightarrow> nat \<Rightarrow> string option" where
  "strncpy_out src 0 = Some []"
| "strncpy_out [] (Suc n) = None"
| "strncpy_out (c # cs) (Suc n) = (if c = NUL then Some (replicate (Suc n) NUL) else map_option ((#) c) (strncpy_out cs n))"

definition rt_strncpy :: "string \<Rightarrow> string \<Rightarrow> nat \<Rightarrow> string option" where
  "rt_strncpy dst src n =
     (case strncpy_out src n of
        None \<Rightarrow> None
      | Some out \<Rightarrow> if length dst < n then None else Some (overwrite 0 out dst))"

subsection \<open>The word loops do what the byte loops do\<close>

definition filled :: "nat \<Rightarrow> nat \<Rightarrow> u8 \<Rightarrow> mem \<Rightarrow> mem" where
  "filled s n d m = (\<lambda>a. if s \<le> a \<and> a < s + n then d else m a)"

definition copied :: "nat \<Rightarrow> nat \<Rightarrow> nat \<Rightarrow> mem \<Rightarrow> mem" where
  "copied dst src n m = (\<lambda>a. if dst \<le> a \<and> a < dst + n then m (a - dst + src) else m a)"

lemma filled_0 [simp]: "filled s 0 d m = m"
  by (auto simp: filled_def fun_eq_iff)

lemma filled_filled: "filled (s + k) n d (filled s k d m) = filled s (k + n) d m"
  by (auto simp: filled_def)

lemma filled_byte: "m(s := d) = filled s 1 d m"
  by (auto simp: filled_def)

lemma set_bytes_filled: "set_bytes s d n m = filled s n d m"
proof (induction n arbitrary: s m)
  case (Suc n)
  then show ?case using filled_filled [of s 1 n d m] by (simp add: filled_byte)
qed simp

definition repeated :: "u8 \<Rightarrow> u32 \<Rightarrow> bool" where
  "repeated d w \<longleftrightarrow> ucast w = d \<and> ucast (drop_bit 8 w) = d \<and> ucast (drop_bit 16 w) = d \<and> ucast (drop_bit 24 w) = d"

lemma store_repeated: "repeated d w \<Longrightarrow> store_word s w m = filled s 4 d m"
  by (auto simp: repeated_def store_word_def filled_def fun_eq_iff)

lemma set_words_filled:
  "repeated d w \<Longrightarrow> set_words s w n m = (s + n div 4 * 4, n mod 4, filled s (n div 4 * 4) d m)"
proof (induction s w n m rule: set_words.induct)
  case (1 s w n m)
  show ?case
  proof (cases "4 \<le> n")
    case True
    then have d: "n div 4 = (n - 4) div 4 + 1" "n mod 4 = (n - 4) mod 4" by (simp_all add: le_div_geq le_mod_geq)
    have "filled (s + 4) ((n - 4) div 4 * 4) d (filled s 4 d m) = filled s (n div 4 * 4) d m"
      unfolding filled_filled d by (simp add: algebra_simps)
    then show ?thesis using 1 True d by (simp add: set_words.simps [of s] LBLOCKSIZE_def store_repeated)
  next
    case False
    then show ?thesis by (simp add: set_words.simps [of s] LBLOCKSIZE_def)
  qed
qed

lemma set_blocks_filled:
  "repeated d w \<Longrightarrow> set_blocks s w n m = (s + n div 16 * 16, n mod 16, filled s (n div 16 * 16) d m)"
proof (induction s w n m rule: set_blocks.induct)
  case (1 s w n m)
  have four: "store_word (s + 12) w (store_word (s + 8) w (store_word (s + 4) w (store_word s w m))) = filled s 16 d m"
    using filled_filled [of s 4 4 d m] filled_filled [of s 8 4 d m] filled_filled [of s 12 4 d m]
    by (simp add: store_repeated [OF "1.prems"])
  show ?case
  proof (cases "16 \<le> n")
    case True
    then have d: "n div 16 = (n - 16) div 16 + 1" "n mod 16 = (n - 16) mod 16" by (simp_all add: le_div_geq le_mod_geq)
    have "filled (s + 16) ((n - 16) div 16 * 16) d (filled s 16 d m) = filled s (n div 16 * 16) d m"
      unfolding filled_filled d by (simp add: algebra_simps)
    then show ?thesis using 1 True d four by (simp add: set_blocks.simps [of s] LBLOCKSIZE_def)
  next
    case False
    then show ?thesis by (simp add: set_blocks.simps [of s] LBLOCKSIZE_def)
  qed
qed

lemma repeated_buffer:
  fixes c :: u32
  defines "d \<equiv> c AND 0xff"
  defines "b \<equiv> push_bit 8 d OR d"
  shows "repeated (ucast d) (b OR push_bit 16 b)"
proof -
  have "(0xff :: u32) = mask 8" by (simp add: mask_eq_exp_minus_1)
  then have l: "bit d n \<Longrightarrow> n < 8" for n unfolding d_def by (simp add: bit_simps)
  have "\<not> bit d (8 + n)" "\<not> bit d (16 + n)" "\<not> bit d (24 + n)" for n using l [of "8 + n"] l [of "16 + n"] l [of "24 + n"] by auto
  then show ?thesis
    unfolding repeated_def b_def by (auto intro!: bit_eqI simp: bit_simps dest: l)
qed

lemma low_byte: "ucast (c AND 0xff :: u32) = (ucast c :: u8)"
proof -
  have "(0xff :: u32) = mask 8" by (simp add: mask_eq_exp_minus_1)
  then have "ucast (c AND 0xff) = (ucast (c AND mask 8) :: u8)" by (simp only:)
  also have "\<dots> = ucast c" unfolding take_bit_eq_mask [symmetric] by (rule bit_eqI) (simp add: bit_simps)
  finally show ?thesis .
qed

text \<open>C33. \<open>rt_memset\<close> sets exactly the bytes asked for, for every address, aligned or not, and every count.\<close>

theorem rt_memset_fills: "rt_memset s c n m = filled s n (ucast c) m"
proof -
  let ?d = "c AND 0xff :: u32"
  let ?b = "push_bit 8 ?d OR ?d"
  have r: "repeated (ucast ?d) (?b OR push_bit 16 ?b)" by (rule repeated_buffer)
  have d: "ucast ?d = (ucast c :: u8)" by (rule low_byte)
  have n: "s + n div 16 * 16 + (n mod 16) div 4 * 4 = s + (n div 16 * 16 + (n mod 16) div 4 * 4)"
    "n div 16 * 16 + (n mod 16) div 4 * 4 + n mod 16 mod 4 = n" by simp_all
  show ?thesis
  proof (cases "\<not> n < LBLOCKSIZE \<and> s mod LBLOCKSIZE = 0")
    case True
    then show ?thesis unfolding rt_memset_def Let_def if_P [OF True] set_blocks_filled [OF r] split set_words_filled [OF r]
        set_bytes_filled filled_filled n d by simp
  next
    case False
    then show ?thesis unfolding rt_memset_def Let_def if_not_P [OF False] split set_bytes_filled d by simp
  qed
qed

subsection \<open>Copies\<close>

lemma copied_0 [simp]: "copied dst src 0 m = m"
  by (auto simp: copied_def fun_eq_iff)

text \<open>A forward copy is right unless the destination begins inside the source.\<close>

lemma copied_copied:
  assumes "dst \<le> src \<or> src + (k + n) \<le> dst"
  shows "copied (dst + k) (src + k) n (copied dst src k m) = copied dst src (k + n) m"
  using assms by (auto simp: copied_def fun_eq_iff)

lemma copied_byte: "m(dst := m src) = copied dst src 1 m"
  by (auto simp: copied_def fun_eq_iff)

lemma copy_bytes_copied: "dst \<le> src \<or> src + n \<le> dst \<Longrightarrow> copy_bytes dst src n m = copied dst src n m"
proof (induction n arbitrary: dst src m)
  case (Suc n)
  then have "copy_bytes (dst + 1) (src + 1) n (copied dst src 1 m) = copied (dst + 1) (src + 1) n (copied dst src 1 m)"
    by (intro Suc.IH) auto
  then show ?case using copied_copied [of dst src 1 n m] Suc.prems by (simp add: copied_byte)
qed simp

lemma high_bits [simp]: "\<not> bit (b :: u8) (8 + n)" "\<not> bit (b :: u8) (16 + n)" "\<not> bit (b :: u8) (24 + n)"
  using bit_imp_le_length [of b "8 + n"] bit_imp_le_length [of b "16 + n"] bit_imp_le_length [of b "24 + n"] by auto

lemma load_bytes:
  "ucast (load_word a m) = m a" "ucast (drop_bit 8 (load_word a m)) = m (a + 1)"
  "ucast (drop_bit 16 (load_word a m)) = m (a + 2)" "ucast (drop_bit 24 (load_word a m)) = m (a + 3)"
  by (auto intro!: bit_eqI simp: load_word_def bit_simps dest: bit_imp_le_length)

lemma copy_word_copied: "copy_word dst src m = copied dst src 4 m"
proof -
  have "(m(dst := m src, dst + 1 := m (src + 1), dst + 2 := m (src + 2), dst + 3 := m (src + 3))) a
    = (if dst \<le> a \<and> a < dst + 4 then m (a - dst + src) else m a)" for a
  proof -
    consider "a < dst \<or> dst + 4 \<le> a" | "a = dst" | "a = dst + 1" | "a = dst + 2" | "a = dst + 3" by linarith
    then show ?thesis by cases (auto simp: add.commute)
  qed
  then show ?thesis unfolding copy_word_def store_word_def load_bytes copied_def by (rule ext)
qed

lemma four_words:
  assumes "dst \<le> src \<or> src + 16 \<le> dst"
  shows "copy_word (dst + 12) (src + 12) (copy_word (dst + 8) (src + 8) (copy_word (dst + 4) (src + 4) (copy_word dst src m)))
    = copied dst src 16 m"
proof -
  have "copied (dst + 4) (src + 4) 4 (copied dst src 4 m) = copied dst src 8 m"
    using assms copied_copied [of dst src 4 4 m] by auto
  moreover have "copied (dst + 8) (src + 8) 4 (copied dst src 8 m) = copied dst src 12 m"
    using assms copied_copied [of dst src 8 4 m] by auto
  moreover have "copied (dst + 12) (src + 12) 4 (copied dst src 12 m) = copied dst src 16 m"
    using assms copied_copied [of dst src 12 4 m] by auto
  ultimately show ?thesis by (simp add: copy_word_copied)
qed

lemma copy_words_copied:
  "dst \<le> src \<or> src + n \<le> dst \<Longrightarrow>
   copy_words dst src n m = (dst + n div 4 * 4, src + n div 4 * 4, n mod 4, copied dst src (n div 4 * 4) m)"
proof (induction dst src n m rule: copy_words.induct)
  case (1 dst src n m)
  show ?case
  proof (cases "4 \<le> n")
    case True
    then have d: "n div 4 = (n - 4) div 4 + 1" "n mod 4 = (n - 4) mod 4" by (simp_all add: le_div_geq le_mod_geq)
    have o: "dst + 4 \<le> src + 4 \<or> src + 4 + (n - 4) \<le> dst + 4" using "1.prems" True by auto
    have "(n - 4) div 4 * 4 \<le> n - 4" by simp
    then have "dst \<le> src \<or> src + (4 + (n - 4) div 4 * 4) \<le> dst" using "1.prems" True by linarith
    from copied_copied [OF this, of m]
    have "copied (dst + 4) (src + 4) ((n - 4) div 4 * 4) (copied dst src 4 m) = copied dst src (n div 4 * 4) m"
      unfolding d by (simp add: algebra_simps)
    then show ?thesis using "1.IH" [OF True o] True d by (simp add: copy_words.simps [of dst src n] copy_word_copied)
  next
    case False
    then show ?thesis by (simp add: copy_words.simps [of dst src n])
  qed
qed

lemma copy_blocks_copied:
  "dst \<le> src \<or> src + n \<le> dst \<Longrightarrow>
   copy_blocks dst src n m = (dst + n div 16 * 16, src + n div 16 * 16, n mod 16, copied dst src (n div 16 * 16) m)"
proof (induction dst src n m rule: copy_blocks.induct)
  case (1 dst src n m)
  show ?case
  proof (cases "16 \<le> n")
    case True
    then have d: "n div 16 = (n - 16) div 16 + 1" "n mod 16 = (n - 16) mod 16" by (simp_all add: le_div_geq le_mod_geq)
    have o: "dst + 16 \<le> src + 16 \<or> src + 16 + (n - 16) \<le> dst + 16" "dst \<le> src \<or> src + 16 \<le> dst" using "1.prems" True by auto
    have "(n - 16) div 16 * 16 \<le> n - 16" by simp
    then have "dst \<le> src \<or> src + (16 + (n - 16) div 16 * 16) \<le> dst" using "1.prems" True by linarith
    from copied_copied [OF this, of m]
    have "copied (dst + 16) (src + 16) ((n - 16) div 16 * 16) (copied dst src 16 m) = copied dst src (n div 16 * 16) m"
      unfolding d by (simp add: algebra_simps)
    then show ?thesis using "1.IH" [OF True o(1)] True d four_words [OF o(2)] by (simp add: copy_blocks.simps [of dst src n])
  next
    case False
    then show ?thesis by (simp add: copy_blocks.simps [of dst src n])
  qed
qed

text \<open>\<open>rt_memcpy\<close> copies exactly the bytes asked for, whatever the alignment of the two addresses, when the blocks do not
  overlap or the destination lies before the source.\<close>

lemma rt_memcpy_copies:
  assumes "dst \<le> src \<or> src + n \<le> dst"
  shows "rt_memcpy dst src n m = copied dst src n m"
proof (cases "\<not> n < 16 \<and> src mod 4 = 0 \<and> dst mod 4 = 0")
  case True
  let ?a = "n div 16 * 16" and ?b = "n mod 16 div 4 * 4"
  have s: "?a + ?b + n mod 16 mod 4 = n" "?a + n mod 16 = n" by simp_all
  have o: "dst + ?a \<le> src + ?a \<or> src + ?a + n mod 16 \<le> dst + ?a" "dst \<le> src \<or> src + (?a + ?b) \<le> dst"
    "dst + (?a + ?b) \<le> src + (?a + ?b) \<or> src + (?a + ?b) + n mod 16 mod 4 \<le> dst + (?a + ?b)"
    "dst \<le> src \<or> src + (?a + ?b + n mod 16 mod 4) \<le> dst"
    using assms s by linarith+
  have w: "copy_words (dst + ?a) (src + ?a) (n mod 16) (copied dst src ?a m)
    = (dst + (?a + ?b), src + (?a + ?b), n mod 16 mod 4, copied dst src (?a + ?b) m)"
    using copy_words_copied [OF o(1)] copied_copied [OF o(2), of m] by (simp add: add.assoc)
  have "copy_bytes (dst + (?a + ?b)) (src + (?a + ?b)) (n mod 16 mod 4) (copied dst src (?a + ?b) m) = copied dst src n m"
    unfolding copy_bytes_copied [OF o(3)] copied_copied [OF o(4)] s ..
  then show ?thesis unfolding rt_memcpy_def Let_def if_P [OF True] copy_blocks_copied [OF assms] split w .
next
  case False
  then show ?thesis unfolding rt_memcpy_def Let_def if_not_P [OF False] split using copy_bytes_copied [OF assms] by simp
qed

lemma copy_backwards_copied:
  "src \<le> dst \<Longrightarrow> copy_backwards (dst + n) (src + n) n m = copied dst src n m"
proof (induction n arbitrary: m)
  case (Suc n)
  have "copied dst src n (m(dst + n := m (src + n))) = copied dst src (Suc n) m"
    using Suc.prems by (auto simp: copied_def fun_eq_iff less_Suc_eq add.commute)
  then show ?case using Suc by simp
qed simp

text \<open>\<open>rt_memmove\<close> moves a block to any address, however source and destination overlap.\<close>

lemma rt_memmove_moves: "rt_memmove dest src n m = copied dest src n m"
proof (cases "src < dest \<and> dest < src + n")
  case True
  then show ?thesis by (simp add: rt_memmove_def copy_backwards_copied)
next
  case False
  then have "dest \<le> src \<or> src + n \<le> dest" by auto
  then show ?thesis using False by (auto simp: rt_memmove_def copy_bytes_copied)
qed

lemma rt_memcmp_equal: "rt_memcmp a b n m = 0 \<longleftrightarrow> (\<forall>i < n. m (a + i) = m (b + i))"
proof (induction n arbitrary: a b)
  case (Suc n)
  show ?case using Suc [of "a + 1" "b + 1"] by (auto simp: less_Suc_eq_0_disj word_uint_eq_iff)
qed simp

subsection \<open>Comparisons\<close>

lemma char_code_zero: "char_code NUL = 0"
  by (simp add: char_code_def)

lemma char_code_inject: "char_code c = char_code d \<longleftrightarrow> c = d"
  by (simp add: char_code_def)

lemma char_code_range: "0 \<le> char_code c" "char_code c < 256"
  unfolding char_code_def by (cases c; simp add: of_char_def)+

lemma char_code_pos: "c \<noteq> NUL \<Longrightarrow> 0 < char_code c"
  using char_code_range(1) [of c] char_code_inject [of c NUL] char_code_zero by linarith

text \<open>\<open>rt_strcmp\<close> on two C strings is zero exactly when they are equal, and else has the sign of their lexicographic order.\<close>

lemma rt_strcmp_orders:
  assumes "NUL \<notin> set s" "NUL \<notin> set t"
  shows "\<exists>k. rt_strcmp (s @ NUL # u) (t @ NUL # v) = Some k \<and> (k = 0 \<longleftrightarrow> s = t)
    \<and> (k < 0 \<longleftrightarrow> (s, t) \<in> lexord {(c, d). char_code c < char_code d})"
  using assms
proof (induction s arbitrary: t)
  case Nil
  then show ?case
  proof (cases t)
    case (Cons d t')
    then have "0 < char_code d" using Nil.prems by (intro char_code_pos) auto
    then show ?thesis using Cons char_code_zero by auto
  qed simp
next
  case (Cons c s)
  show ?case
  proof (cases t)
    case Nil
    have "0 < char_code c" using Cons.prems by (intro char_code_pos) auto
    then show ?thesis using Nil char_code_zero by auto
  next
    case t: (Cons d t')
    show ?thesis
    proof (cases "c = d")
      case True
      then show ?thesis using Cons t by auto
    next
      case False
      then show ?thesis using t char_code_inject [of c d] by auto
    qed
  qed
qed

lemma rt_strncmp_sign: "rt_strncmp [CHR 0xC8, NUL] [CHR 0x41, NUL] 1 = Some (- 121)" "rt_strcmp [CHR 0xC8, NUL] [CHR 0x41, NUL] = Some 135"
  by (simp_all add: signed_char_def char_code_def)

end
