(* ===== verification/Printf.thy ===== *)
theory Printf
  imports KService "HOL-Library.Monad_Syntax"
begin

text \<open>
  Formatted output of \<open>rt-thread/src/kservice.c\<close>: \<open>rt_print_number\<close> and \<open>rt_vsnprintf\<close>, configured with \<open>RT_PRINTF_PRECISION\<close> and
  without \<open>RT_PRINTF_LONGLONG\<close> and \<open>RT_PRINTF_SPECIAL\<close>. The variable arguments are a list; a result is missing when a conversion
  finds no argument of its kind, where the code would read whatever lies in the argument registers or on the stack, and when a
  character is written outside the block of the buffer. The printing functions write one character after the other, each behind the
  check of the code against \<open>end\<close>; \<open>vformat\<close> is the whole text that a format stands for, which they are proved to print.
\<close>

subsection \<open>Writing characters\<close>

text \<open>The buffer and the index of \<open>str\<close> in it; \<open>end\<close> is an index, too.\<close>

type_synonym printed = "string \<times> nat"

definition store_char :: "nat \<Rightarrow> char \<Rightarrow> string \<Rightarrow> string option" where
  "store_char i c buf = (if i < length buf then Some (buf[i := c]) else None)"

definition put_char :: "nat \<Rightarrow> char \<Rightarrow> printed \<Rightarrow> printed option" where
  "put_char end c p =
     (case p of (buf, str) \<Rightarrow>
        do { buf \<leftarrow> (if str < end then store_char str c buf else Some buf); Some (buf, str + 1) })"

fun put_chars :: "nat \<Rightarrow> string \<Rightarrow> printed \<Rightarrow> printed option" where
  "put_chars end [] p = Some p"
| "put_chars end (c # cs) p = do { p \<leftarrow> put_char end c p; put_chars end cs p }"

fun put_pad :: "nat \<Rightarrow> char \<Rightarrow> nat \<Rightarrow> printed \<Rightarrow> printed option" where
  "put_pad end c 0 p = Some p"
| "put_pad end c (Suc n) p = do { p \<leftarrow> put_char end c p; put_pad end c n p }"

lemma put_chars_fun:
  "put_chars end [] = Some" "put_chars end (c # cs) = (\<lambda>p. put_char end c p \<bind> put_chars end cs)"
  by (simp_all add: fun_eq_iff)

lemma put_chars_append: "put_chars end (xs @ ys) = (\<lambda>p. put_chars end xs p \<bind> put_chars end ys)"
proof (induction xs)
  case (Cons c xs)
  then show ?case by (simp only: append_Cons put_chars_fun Option.bind_assoc)
qed (simp add: fun_eq_iff)

lemma put_pad_chars: "put_pad end c n = put_chars end (replicate n c)"
proof (induction n)
  case (Suc n)
  show ?case by (rule ext) (simp only: put_pad.simps(2) replicate_Suc put_chars.simps(2) Suc)
qed (simp add: fun_eq_iff)

lemmas put_simps = put_chars_fun put_chars_append put_pad_chars Option.bind_assoc Option.bind_runit

text \<open>Behind the checks nothing is written at \<open>end\<close> or after it, and the pointer moves by the length of the whole text.\<close>

lemma put_chars_result:
  assumes "end \<le> length buf"
  shows "put_chars end out (buf, pos) = Some (if pos < end then overwrite pos (take (end - pos) out) buf else buf, pos + length out)"
  using assms
proof (induction out arbitrary: buf pos)
  case (Cons c out)
  show ?case
  proof (cases "pos < end")
    case True
    then have p: "put_char end c (buf, pos) = Some (buf[pos := c], pos + 1)" "pos < length buf"
      using Cons.prems by (simp_all add: put_char_def store_char_def)
    have u: "buf[pos := c] = take pos buf @ c # drop (Suc pos) buf" using p(2) by (rule upd_conv_take_nth_drop)
    have "end - pos = Suc (end - Suc pos)" using True by simp
    then have "(if pos + 1 < end then overwrite (pos + 1) (take (end - (pos + 1)) out) (buf[pos := c]) else buf[pos := c])
        = overwrite pos (take (end - pos) (c # out)) buf"
      using p(2) unfolding u by (auto simp: overwrite_def min_def add.commute)
    then show ?thesis using Cons.IH [of "buf[pos := c]" "pos + 1"] Cons.prems p(1) True by simp
  next
    case False
    then show ?thesis using Cons.IH [of buf "pos + 1"] Cons.prems by (simp add: put_char_def)
  qed
qed simp

subsection \<open>Numbers\<close>

definition ZEROPAD :: u8 where "ZEROPAD = 1"
definition SIGN :: u8 where "SIGN = 2"
definition PLUS :: u8 where "PLUS = 4"
definition SPACE :: u8 where "SPACE = 8"
definition LEFT :: u8 where "LEFT = 16"
definition SPECIAL :: u8 where "SPECIAL = 32"
definition LARGE :: u8 where "LARGE = 64"

abbreviation on :: "u8 \<Rightarrow> u8 \<Rightarrow> bool" where "on type flag \<equiv> type AND flag \<noteq> 0"

text \<open>\<open>divide\<close> knows two bases: ten, and sixteen for every other one.\<close>

definition divisor :: "nat \<Rightarrow> nat" where
  "divisor base = (if base = 10 then 10 else 16)"

definition divide :: "nat \<Rightarrow> nat \<Rightarrow> nat \<times> nat" where
  "divide n base = (n mod divisor base, n div divisor base)"

definition digit_char :: "bool \<Rightarrow> nat \<Rightarrow> char" where
  "digit_char large d = (if d < 10 then char_of (48 + d) else char_of ((if large then 55 else 87) + d))"

text \<open>The array \<open>tmp\<close>, last digit first.\<close>

function number_tmp :: "bool \<Rightarrow> nat \<Rightarrow> nat \<Rightarrow> string" where
  "number_tmp large base num =
     (if num = 0 then [] else (case divide num base of (r, q) \<Rightarrow> digit_char large r # number_tmp large base q))"
  by pat_completeness auto
termination
  by (relation "measure (\<lambda>(large, base, num). num)") (auto simp: divide_def divisor_def)

declare number_tmp.simps [simp del]

text \<open>The value of the counter after \<open>while (size-- > 0)\<close>.\<close>

definition counted_down :: "int \<Rightarrow> int" where
  "counted_down width = min width 0 - 1"

definition rt_print_number :: "nat \<Rightarrow> u32 \<Rightarrow> nat \<Rightarrow> int \<Rightarrow> int \<Rightarrow> u8 \<Rightarrow> printed \<Rightarrow> printed option" where
  "rt_print_number end num base s precision type p =
     (let type = (if on type LEFT then type AND NOT ZEROPAD else type);
          c = (if on type ZEROPAD then CHR ''0'' else CHR '' '');
          (sign, num) =
            (if on type SIGN then
               if num <s 0 then (''-'', - num) else if on type PLUS then (''+'', num) else if on type SPACE then ('' '', num) else ([], num)
             else ([], num));
          tmp = (if num = 0 then ''0'' else number_tmp (on type LARGE) base (unat num));
          i = int (length tmp);
          digits = max i precision;
          width = s - digits
      in do {
        (width, p) \<leftarrow>
          (if \<not> on type (ZEROPAD OR LEFT) then
             let width = (if sign \<noteq> [] \<and> width > 0 then width - 1 else width)
             in do { p \<leftarrow> put_pad end CHR '' '' (nat width) p; Some (counted_down width, p) }
           else Some (width, p));
        (width, p) \<leftarrow> (if sign \<noteq> [] then do { p \<leftarrow> put_chars end sign p; Some (width - 1, p) } else Some (width, p));
        (width, p) \<leftarrow>
          (if \<not> on type LEFT then do { p \<leftarrow> put_pad end c (nat width) p; Some (counted_down width, p) } else Some (width, p));
        p \<leftarrow> put_pad end CHR ''0'' (nat (digits - i)) p;
        p \<leftarrow> (if precision \<noteq> 0 then put_chars end (rev tmp) p else Some p);
        put_pad end CHR '' '' (nat width) p
      })"

text \<open>The text of a number.\<close>

definition number_text :: "u32 \<Rightarrow> nat \<Rightarrow> int \<Rightarrow> int \<Rightarrow> u8 \<Rightarrow> string" where
  "number_text num base s precision type =
     (let type = (if on type LEFT then type AND NOT ZEROPAD else type);
          c = (if on type ZEROPAD then CHR ''0'' else CHR '' '');
          (sign, num) =
            (if on type SIGN then
               if num <s 0 then (''-'', - num) else if on type PLUS then (''+'', num) else if on type SPACE then ('' '', num) else ([], num)
             else ([], num));
          tmp = (if num = 0 then ''0'' else number_tmp (on type LARGE) base (unat num));
          i = int (length tmp);
          digits = max i precision;
          width = s - digits;
          (before, width) =
            (if \<not> on type (ZEROPAD OR LEFT) then
               let width = (if sign \<noteq> [] \<and> width > 0 then width - 1 else width) in (replicate (nat width) CHR '' '', counted_down width)
             else ([], width));
          width = (if sign \<noteq> [] then width - 1 else width);
          (fill, width) = (if \<not> on type LEFT then (replicate (nat width) c, counted_down width) else ([], width))
      in before @ sign @ fill @ replicate (nat (digits - i)) CHR ''0'' @ (if precision \<noteq> 0 then rev tmp else [])
         @ replicate (nat width) CHR '' '')"

lemma print_number_text: "rt_print_number end num base s precision type p = put_chars end (number_text num base s precision type) p"
proof -
  obtain ty c where h: "ty = (if on type LEFT then type AND NOT ZEROPAD else type)" "c = (if on ty ZEROPAD then CHR ''0'' else CHR '' '')"
    by blast
  obtain sign n where sn: "(sign, n) = (if on ty SIGN then
               if num <s 0 then (''-'', - num) else if on ty PLUS then (''+'', num) else if on ty SPACE then ('' '', num) else ([], num)
             else ([], num))"
    by (metis surj_pair)
  obtain tmp w where tw: "tmp = (if n = 0 then ''0'' else number_tmp (on ty LARGE) base (unat n))"
    "w = s - max (int (length tmp)) precision"
    by blast
  show ?thesis
    unfolding rt_print_number_def number_text_def Let_def h(1) [symmetric] h(2) [symmetric] sn [symmetric] prod.case
      tw(1) [symmetric] tw(2) [symmetric]
    by (simp add: put_simps del: put_chars.simps put_pad.simps)
qed

subsection \<open>Formats\<close>

datatype va_arg = Word u32 | Text "string option"

fun va_word :: "va_arg list \<Rightarrow> (u32 \<times> va_arg list) option" where
  "va_word (Word w # args) = Some (w, args)"
| "va_word _ = None"

fun va_text :: "va_arg list \<Rightarrow> (string option \<times> va_arg list) option" where
  "va_text (Text s # args) = Some (s, args)"
| "va_text _ = None"

text \<open>A format is what is left of it, without its NUL.\<close>

definition flag_of :: "char \<Rightarrow> u8" where
  "flag_of c = (if c = CHR ''-'' then LEFT else if c = CHR ''+'' then PLUS else if c = CHR '' '' then SPACE
     else if c = CHR ''#'' then SPECIAL else if c = CHR ''0'' then ZEROPAD else 0)"

fun fmt_flags :: "u8 \<Rightarrow> string \<Rightarrow> u8 \<times> string" where
  "fmt_flags flags (c # fmt) = (if flag_of c \<noteq> 0 then fmt_flags (flags OR flag_of c) fmt else (flags, c # fmt))"
| "fmt_flags flags [] = (flags, [])"

text \<open>\<open>skip_atoi\<close>.\<close>

definition skip_atoi :: "string \<Rightarrow> int \<times> string" where
  "skip_atoi fmt = (digits_value fmt, dropWhile is_digit fmt)"

definition fmt_width :: "u8 \<Rightarrow> string \<Rightarrow> va_arg list \<Rightarrow> (int \<times> u8 \<times> string \<times> va_arg list) option" where
  "fmt_width flags fmt args =
     (if fmt \<noteq> [] \<and> is_digit (hd fmt) then (case skip_atoi fmt of (w, fmt) \<Rightarrow> Some (w, flags, fmt, args))
      else if fmt \<noteq> [] \<and> hd fmt = CHR ''*'' then
        (case va_word args of
           None \<Rightarrow> None
         | Some (w, args) \<Rightarrow>
             let w = sint w in Some (if w < 0 then (- w, flags OR LEFT, tl fmt, args) else (w, flags, tl fmt, args)))
      else Some (- 1, flags, fmt, args))"

definition fmt_precision :: "string \<Rightarrow> va_arg list \<Rightarrow> (int \<times> string \<times> va_arg list) option" where
  "fmt_precision fmt args =
     (if fmt \<noteq> [] \<and> hd fmt = CHR ''.'' then
        let fmt = tl fmt
        in if fmt \<noteq> [] \<and> is_digit (hd fmt) then (case skip_atoi fmt of (p, fmt) \<Rightarrow> Some (max p 0, fmt, args))
           else if fmt \<noteq> [] \<and> hd fmt = CHR ''*'' then
             (case va_word args of None \<Rightarrow> None | Some (p, args) \<Rightarrow> Some (max (sint p) 0, tl fmt, args))
           else Some (0, fmt, args)
      else Some (- 1, fmt, args))"

definition fmt_qualifier :: "string \<Rightarrow> char \<times> string" where
  "fmt_qualifier fmt = (if fmt \<noteq> [] \<and> (hd fmt = CHR ''h'' \<or> hd fmt = CHR ''l'') then (hd fmt, tl fmt) else (NUL, fmt))"

text \<open>The integer that a conversion prints.\<close>

definition h_or_l :: "char \<Rightarrow> u8 \<Rightarrow> u32 \<Rightarrow> u32" where
  "h_or_l qualifier flags num =
     (if qualifier = CHR ''h'' then
        if on flags SIGN then scast (ucast num :: u16) else ucast (ucast num :: u16)
      else num)"

text \<open>The conversions \<open>c\<close> and \<open>s\<close>; the counter of a loop is used up by it.\<close>

definition print_c :: "nat \<Rightarrow> u8 \<Rightarrow> int \<Rightarrow> char \<Rightarrow> printed \<Rightarrow> printed option" where
  "print_c end flags field_width c p = do {
     (field_width, p) \<leftarrow>
       (if \<not> on flags LEFT then do { p \<leftarrow> put_pad end CHR '' '' (nat (field_width - 1)) p; Some (min (field_width - 1) 0, p) }
        else Some (field_width, p));
     p \<leftarrow> put_char end c p;
     put_pad end CHR '' '' (nat (field_width - 1)) p
   }"

definition print_s :: "nat \<Rightarrow> u8 \<Rightarrow> int \<Rightarrow> int \<Rightarrow> string \<Rightarrow> printed \<Rightarrow> printed option" where
  "print_s end flags field_width precision s p =
     (let len = (if precision > 0 \<and> int (length s) > precision then nat precision else length s)
      in do {
        (field_width, p) \<leftarrow>
          (if \<not> on flags LEFT then
             do { p \<leftarrow> put_pad end CHR '' '' (nat (field_width - int len)) p; Some (min field_width (int len) - 1, p) }
           else Some (field_width, p));
        p \<leftarrow> put_chars end (take len s) p;
        put_pad end CHR '' '' (nat (field_width - int len)) p
      })"

text \<open>One conversion; an unknown one is printed as it is.\<close>

definition print_conversion ::
    "nat \<Rightarrow> u8 \<Rightarrow> int \<Rightarrow> int \<Rightarrow> char \<Rightarrow> string \<Rightarrow> va_arg list \<Rightarrow> printed \<Rightarrow> (printed \<times> string \<times> va_arg list) option" where
  "print_conversion end flags field_width precision qualifier fmt args p =
     (let integer = (\<lambda>base flags. do {
            (w, args) \<leftarrow> va_word args;
            p \<leftarrow> rt_print_number end (h_or_l qualifier flags w) base field_width precision flags p;
            Some (p, tl fmt, args) })
      in case fmt of
           [] \<Rightarrow> do { p \<leftarrow> put_char end CHR ''%'' p; Some (p, [], args) }
         | c # rest \<Rightarrow>
             if c = CHR ''c'' then do {
               (w, args) \<leftarrow> va_word args;
               p \<leftarrow> print_c end flags field_width (char_of (unat w)) p;
               Some (p, rest, args) }
             else if c = CHR ''s'' then do {
               (s, args) \<leftarrow> va_text args;
               p \<leftarrow> print_s end flags field_width precision (case s of None \<Rightarrow> ''(NULL)'' | Some s \<Rightarrow> s) p;
               Some (p, rest, args) }
             else if c = CHR ''p'' then do {
               (w, args) \<leftarrow> va_word args;
               let (width, flags) = (if field_width = - 1 then (8, flags OR ZEROPAD) else (field_width, flags));
               p \<leftarrow> rt_print_number end w 16 width precision flags p;
               Some (p, rest, args) }
             else if c = CHR ''%'' then do { p \<leftarrow> put_char end CHR ''%'' p; Some (p, rest, args) }
             else if c = CHR ''o'' then integer 8 flags
             else if c = CHR ''X'' then integer 16 (flags OR LARGE)
             else if c = CHR ''x'' then integer 16 flags
             else if c = CHR ''d'' \<or> c = CHR ''i'' then integer 10 (flags OR SIGN)
             else if c = CHR ''u'' then integer 10 flags
             else do { p \<leftarrow> put_char end CHR ''%'' p; p \<leftarrow> put_char end c p; Some (p, rest, args) })"

text \<open>What follows a percent sign.\<close>

definition print_directive :: "nat \<Rightarrow> string \<Rightarrow> va_arg list \<Rightarrow> printed \<Rightarrow> (printed \<times> string \<times> va_arg list) option" where
  "print_directive end fmt args p = do {
     let (flags, fmt) = fmt_flags 0 fmt;
     (field_width, flags, fmt, args) \<leftarrow> fmt_width flags fmt args;
     (precision, fmt, args) \<leftarrow> fmt_precision fmt args;
     let (qualifier, fmt) = fmt_qualifier fmt;
     print_conversion end flags field_width precision qualifier fmt args p
   }"

subsection \<open>The text of a format\<close>

definition padded_char :: "u8 \<Rightarrow> int \<Rightarrow> char \<Rightarrow> string" where
  "padded_char flags field_width c =
     (let pad = replicate (nat (field_width - 1)) CHR '' '' in if on flags LEFT then c # pad else pad @ [c])"

definition padded_text :: "u8 \<Rightarrow> int \<Rightarrow> int \<Rightarrow> string \<Rightarrow> string" where
  "padded_text flags field_width precision s =
     (let len = (if precision > 0 \<and> int (length s) > precision then nat precision else length s);
          pad = replicate (nat (field_width - int len)) CHR '' ''
      in if on flags LEFT then take len s @ pad else pad @ take len s)"

definition fmt_convert ::
    "u8 \<Rightarrow> int \<Rightarrow> int \<Rightarrow> char \<Rightarrow> string \<Rightarrow> va_arg list \<Rightarrow> (string \<times> string \<times> va_arg list) option" where
  "fmt_convert flags field_width precision qualifier fmt args =
     (let integer = (\<lambda>base flags. case va_word args of
            None \<Rightarrow> None
          | Some (w, args) \<Rightarrow> Some (number_text (h_or_l qualifier flags w) base field_width precision flags, tl fmt, args))
      in case fmt of
           [] \<Rightarrow> Some (''%'', [], args)
         | c # rest \<Rightarrow>
             if c = CHR ''c'' then
               (case va_word args of None \<Rightarrow> None | Some (w, args) \<Rightarrow> Some (padded_char flags field_width (char_of (unat w)), rest, args))
             else if c = CHR ''s'' then
               (case va_text args of
                  None \<Rightarrow> None
                | Some (s, args) \<Rightarrow>
                    Some (padded_text flags field_width precision (case s of None \<Rightarrow> ''(NULL)'' | Some s \<Rightarrow> s), rest, args))
             else if c = CHR ''p'' then
               (case va_word args of
                  None \<Rightarrow> None
                | Some (w, args) \<Rightarrow>
                    let (width, flags) = (if field_width = - 1 then (8, flags OR ZEROPAD) else (field_width, flags))
                    in Some (number_text w 16 width precision flags, rest, args))
             else if c = CHR ''%'' then Some (''%'', rest, args)
             else if c = CHR ''o'' then integer 8 flags
             else if c = CHR ''X'' then integer 16 (flags OR LARGE)
             else if c = CHR ''x'' then integer 16 flags
             else if c = CHR ''d'' \<or> c = CHR ''i'' then integer 10 (flags OR SIGN)
             else if c = CHR ''u'' then integer 10 flags
             else Some (''%'' @ [c], rest, args))"

definition fmt_item :: "string \<Rightarrow> va_arg list \<Rightarrow> (string \<times> string \<times> va_arg list) option" where
  "fmt_item fmt args =
     (case fmt_flags 0 fmt of
        (flags, fmt) \<Rightarrow>
          (case fmt_width flags fmt args of
             None \<Rightarrow> None
           | Some (field_width, flags, fmt, args) \<Rightarrow>
               (case fmt_precision fmt args of
                  None \<Rightarrow> None
                | Some (precision, fmt, args) \<Rightarrow>
                    (case fmt_qualifier fmt of
                       (qualifier, fmt) \<Rightarrow> fmt_convert flags field_width precision qualifier fmt args))))"

lemma fmt_flags_shorter: "fmt_flags flags fmt = (f, rest) \<Longrightarrow> length rest \<le> length fmt"
  by (induction flags fmt rule: fmt_flags.induct) (force split: if_splits)+

lemma dropWhile_shorter: "length (dropWhile P xs) \<le> length xs"
  by (rule length_dropWhile_le)

lemma fmt_item_shorter:
  assumes "fmt_item fmt args = Some (out, rest, args')"
  shows "length rest \<le> length fmt"
proof -
  obtain f1 r1 where 1: "fmt_flags 0 fmt = (f1, r1)" by (cases "fmt_flags 0 fmt")
  with assms obtain w f2 r2 a2 where 2: "fmt_width f1 r1 args = Some (w, f2, r2, a2)"
    by (auto simp: fmt_item_def split: option.splits)
  with 1 assms obtain p r3 a3 where 3: "fmt_precision r2 a2 = Some (p, r3, a3)"
    by (auto simp: fmt_item_def split: option.splits)
  obtain q r4 where 4: "fmt_qualifier r3 = (q, r4)" by (cases "fmt_qualifier r3")
  have 5: "fmt_convert f2 w p q r4 a3 = Some (out, rest, args')" using assms 1 2 3 4 by (simp add: fmt_item_def)
  have "length r1 \<le> length fmt" by (rule fmt_flags_shorter [OF 1])
  moreover have "length r2 \<le> length r1" using 2 dropWhile_shorter [of is_digit r1]
    by (auto simp: fmt_width_def skip_atoi_def Let_def split: if_splits option.splits)
  moreover have "length r3 \<le> length r2" using 3 dropWhile_shorter [of is_digit "tl r2"]
    by (auto simp: fmt_precision_def skip_atoi_def Let_def split: if_splits option.splits)
  moreover have "length r4 \<le> length r3" using 4 by (auto simp: fmt_qualifier_def split: if_splits)
  moreover have "length rest \<le> length r4" using 5
    by (auto simp: fmt_convert_def Let_def split: if_splits option.splits list.splits prod.splits)
  ultimately show ?thesis by linarith
qed

function vformat :: "string \<Rightarrow> va_arg list \<Rightarrow> string option" where
  "vformat [] args = Some []"
| "vformat (c # fmt) args =
     (if c \<noteq> CHR ''%'' then map_option ((#) c) (vformat fmt args)
      else case fmt_item fmt args of
             None \<Rightarrow> None
           | Some (out, rest, args) \<Rightarrow> map_option ((@) out) (vformat rest args))"
  by pat_completeness auto
termination
  by (relation "measure (\<lambda>(fmt, args). length fmt)") (auto dest: fmt_item_shorter)

subsection \<open>The whole function\<close>

lemma print_c_text: "print_c end flags w c p = put_chars end (padded_char flags w c) p"
proof -
  have "nat (min (w - 1) 0 - 1) = 0" by simp
  then show ?thesis by (simp add: print_c_def padded_char_def Let_def put_simps del: put_chars.simps put_pad.simps)
qed

lemma print_s_text: "print_s end flags w prec s p = put_chars end (padded_text flags w prec s) p"
proof -
  obtain len where len: "len = (if prec > 0 \<and> int (length s) > prec then nat prec else length s)" by blast
  have "nat (min w (int len) - 1 - int len) = 0" by simp
  then show ?thesis unfolding print_s_def padded_text_def Let_def len [symmetric]
    by (simp add: put_simps del: put_chars.simps put_pad.simps)
qed

lemma print_conversion_text:
  "print_conversion end flags w prec q fmt args p
    = fmt_convert flags w prec q fmt args \<bind> (\<lambda>(out, rest, args). put_chars end out p \<bind> (\<lambda>p. Some (p, rest, args)))"
proof (cases fmt)
  case Nil
  then show ?thesis by (simp add: print_conversion_def fmt_convert_def Option.bind_assoc)
next
  case (Cons c rest)
  show ?thesis unfolding Cons print_conversion_def fmt_convert_def Let_def print_number_text print_c_text print_s_text
    by (cases "va_word args"; cases "va_text args") (simp_all add: case_prod_unfold Let_def Option.bind_assoc)
qed

lemma print_directive_text:
  "print_directive end fmt args p = fmt_item fmt args \<bind> (\<lambda>(out, rest, args). put_chars end out p \<bind> (\<lambda>p. Some (p, rest, args)))"
proof -
  obtain flags fmt1 where 1: "fmt_flags 0 fmt = (flags, fmt1)" by (cases "fmt_flags 0 fmt")
  show ?thesis
  proof (cases "fmt_width flags fmt1 args")
    case None
    then show ?thesis using 1 by (simp add: print_directive_def fmt_item_def)
  next
    case (Some r)
    obtain w flags2 fmt2 args2 where 2: "r = (w, flags2, fmt2, args2)" by (cases r)
    show ?thesis
    proof (cases "fmt_precision fmt2 args2")
      case None
      then show ?thesis using 1 2 Some by (simp add: print_directive_def fmt_item_def)
    next
      case (Some r3)
      obtain prec fmt3 args3 where 3: "r3 = (prec, fmt3, args3)" by (cases r3)
      show ?thesis using 1 2 \<open>fmt_width flags fmt1 args = Some r\<close> 3 Some
        by (cases "fmt_qualifier fmt3") (simp add: print_directive_def fmt_item_def print_conversion_text)
    qed
  qed
qed

lemma print_directive_shorter:
  "print_directive end fmt args p = Some (p', rest, args') \<Longrightarrow> length rest \<le> length fmt"
  by (auto simp: print_directive_text bind_eq_Some_conv dest: fmt_item_shorter)

function print_loop :: "nat \<Rightarrow> string \<Rightarrow> va_arg list \<Rightarrow> printed \<Rightarrow> printed option" where
  "print_loop end [] args p = Some p"
| "print_loop end (c # fmt) args p =
     (if c \<noteq> CHR ''%'' then (case put_char end c p of None \<Rightarrow> None | Some p \<Rightarrow> print_loop end fmt args p)
      else (case print_directive end fmt args p of None \<Rightarrow> None | Some (p, fmt, args) \<Rightarrow> print_loop end fmt args p))"
  by pat_completeness auto
termination
  by (relation "measure (\<lambda>(n, fmt, args, p). length fmt)") (auto dest: print_directive_shorter)

text \<open>The terminator goes to \<open>str\<close> or, when the text has reached it, before \<open>end\<close>. The length of the whole text is returned.
  The block of the buffer does not end the address space, so \<open>end\<close> does not wrap round.\<close>

definition rt_vsnprintf :: "string \<Rightarrow> nat \<Rightarrow> string \<Rightarrow> va_arg list \<Rightarrow> (nat \<times> string) option" where
  "rt_vsnprintf buf room fmt args = do {
     (buf, str) \<leftarrow> print_loop room fmt args (buf, 0);
     buf \<leftarrow> (if room > 0 then (if str < room then store_char str NUL buf else store_char (room - 1) NUL buf) else Some buf);
     Some (str, buf)
   }"

text \<open>The loop prints the text of the format.\<close>

lemma print_loop_text: "print_loop end fmt args p = vformat fmt args \<bind> (\<lambda>out. put_chars end out p)" if "end \<le> length (fst p)"
  using that
proof (induction "length fmt" arbitrary: fmt args p rule: less_induct)
  case less
  show ?case
  proof (cases fmt)
    case (Cons c rest)
    obtain buf pos where p: "p = (buf, pos)" by (cases p)
    have step: "\<exists>q. put_chars end out p = Some q \<and> end \<le> length (fst q)" for out
    proof -
      have e: "end \<le> length buf" using less.prems p by simp
      show ?thesis unfolding p put_chars_result [OF e] using e by (auto simp: overwrite_def min_def)
    qed
    show ?thesis
    proof (cases "c = CHR ''%''")
      case False
      obtain q where q: "put_char end c p = Some q" "end \<le> length (fst q)" using step [of "[c]"] by (auto simp: put_simps simp del: put_chars.simps)
      have "print_loop end rest args q = vformat rest args \<bind> (\<lambda>out. put_chars end out q)"
        using less.hyps [of rest q args] q(2) Cons by simp
      then show ?thesis using False q(1) Cons by (cases "vformat rest args") simp_all
    next
      case True
      show ?thesis
      proof (cases "fmt_item rest args")
        case None
        then show ?thesis using True Cons by (simp add: print_directive_text)
      next
        case (Some r)
        obtain out rest' args' where r: "r = (out, rest', args')" by (cases r)
        obtain q where q: "put_chars end out p = Some q" "end \<le> length (fst q)" using step by blast
        have "length rest' < length fmt" using fmt_item_shorter Some r Cons by fastforce
        from less.hyps [OF this q(2), of args'] show ?thesis
          using True Some r q(1) Cons by (cases "vformat rest' args'") (simp_all add: print_directive_text put_chars_append)
      qed
    qed
  qed simp
qed

lemma rt_vsnprintf_text:
  assumes "room \<le> length buf"
  shows "rt_vsnprintf buf room fmt args = map_option (\<lambda>out. (length out, print_at 0 room out buf)) (vformat fmt args)"
proof (cases "vformat fmt args")
  case None
  then show ?thesis using assms by (simp add: rt_vsnprintf_def print_loop_text)
next
  case (Some out)
  note loop = put_chars_result [OF assms, of out 0]
  have l: "print_loop room fmt args (buf, 0) = Some (if 0 < room then overwrite 0 (take room out) buf else buf, length out)"
    using assms Some loop by (simp add: print_loop_text)
  show ?thesis
  proof (cases "0 < room")
    case True
    then show ?thesis using assms Some
      by (auto simp: rt_vsnprintf_def l store_char_def print_at_def overwrite_def min_def list_update_append take_Cons' upd_conv_take_nth_drop)
  next
    case False
    then show ?thesis using Some l by (simp add: rt_vsnprintf_def print_at_def)
  qed
qed

subsection \<open>What is printed\<close>

lemma vformat_text: "CHR ''%'' \<notin> set s \<Longrightarrow> vformat (s @ fmt) args = map_option ((@) s) (vformat fmt args)"
  by (induction s) (cases "vformat fmt args"; auto)+

lemma vformat_plain: "CHR ''%'' \<notin> set s \<Longrightarrow> vformat s args = Some s"
  using vformat_text [of s "[]" args] by simp

text \<open>The decimal text of a number.\<close>

function decimal_nat :: "nat \<Rightarrow> string" where
  "decimal_nat n = (if n < 10 then [char_of (48 + n)] else decimal_nat (n div 10) @ [char_of (48 + n mod 10)])"
  by pat_completeness auto
termination
  by (relation "measure id") auto

declare decimal_nat.simps [simp del]

definition decimal_int :: "int \<Rightarrow> string" where
  "decimal_int n = (if n < 0 then CHR ''-'' # decimal_nat (nat (- n)) else decimal_nat (nat n))"

lemma number_tmp_decimal: "0 < n \<Longrightarrow> rev (number_tmp l 10 n) = decimal_nat n"
proof (induction n rule: less_induct)
  case (less n)
  have u: "number_tmp l 10 n = digit_char l (n mod 10) # number_tmp l 10 (n div 10)"
    using less.prems by (simp add: number_tmp.simps [of l 10 n] divide_def divisor_def)
  have d: "digit_char l (n mod 10) = char_of (48 + n mod 10)" by (simp add: digit_char_def)
  show ?case
  proof (cases "n < 10")
    case True
    then show ?thesis using u d by (simp add: decimal_nat.simps [of n] number_tmp.simps [of l 10 0])
  next
    case False
    then have "0 < n div 10" "n div 10 < n" by simp_all
    then show ?thesis using less.IH [of "n div 10"] u d False by (simp add: decimal_nat.simps [of n])
  qed
qed

text \<open>The sixteen bytes of \<open>tmp\<close> are enough for every number and base.\<close>

lemma number_tmp_length: "n < 10 ^ k \<Longrightarrow> length (number_tmp l base n) \<le> k"
proof (induction k arbitrary: n)
  case (Suc k)
  have "10 \<le> divisor base" by (simp add: divisor_def)
  then have "n div divisor base \<le> n div 10" by (rule div_le_mono2 [rotated]) simp
  also have "\<dots> < 10 ^ k" using Suc.prems by (simp add: less_mult_imp_div_less)
  finally have "length (number_tmp l base (n div divisor base)) \<le> k" by (rule Suc.IH)
  then show ?case by (simp add: number_tmp.simps [of l base n] divide_def)
qed (simp add: number_tmp.simps)

lemma number_tmp_fits: "length (number_tmp l base (unat (w :: u32))) \<le> 10"
proof (rule number_tmp_length)
  have "unat w < 2 ^ 32" using unsigned_less [of w] by simp
  then show "unat w < 10 ^ 10" by simp
qed

lemma number_text_signed: "number_text w 10 (- 1) (- 1) SIGN = decimal_int (sint w)"
proof -
  have f: "\<not> on SIGN LEFT" "on SIGN SIGN" "\<not> on SIGN (ZEROPAD OR LEFT)" "\<not> on SIGN ZEROPAD" "\<not> on SIGN PLUS" "\<not> on SIGN SPACE" "\<not> on SIGN LARGE"
    by (simp_all add: SIGN_def LEFT_def ZEROPAD_def PLUS_def SPACE_def LARGE_def)
  have "char_of (48 :: nat) = CHR ''0''" by code_simp
  then have z: "decimal_nat 0 = ''0''" by (simp add: decimal_nat.simps [of 0])
  have range: "- (2 ^ 31) \<le> sint w" "sint w < 2 ^ 31" using sint_greater_eq [of w] sint_less [of w] by simp_all
  show ?thesis
  proof (cases "w <s 0")
    case True
    then have n: "sint w < 0" "w \<noteq> 0" by (auto simp: word_sless_alt)
    have "uint (- w) = (- sint w) mod 2 ^ 32" using uint_word_of_int [of "- sint w", where 'a = 32] by simp
    then have "unat (- w) = nat (- sint w)" using range n by (simp add: unat_eq_nat_uint)
    then show ?thesis using n True f z number_tmp_decimal [of "nat (- sint w)" False] unfolding number_text_def Let_def
      by (simp add: decimal_int_def counted_down_def)
  next
    case False
    then have n: "0 \<le> sint w" by (simp add: word_sless_alt)
    have "uint w = sint w mod 2 ^ 32" using uint_word_of_int [of "sint w", where 'a = 32] by simp
    then have "unat w = nat (sint w)" using range n by (simp add: unat_eq_nat_uint)
    moreover have "w \<noteq> 0 \<Longrightarrow> 0 < nat (sint w)" using n signed_eq_0_iff [of w, where 'a = int] by (simp add: order_less_le)
    ultimately show ?thesis using n False f z number_tmp_decimal [of "nat (sint w)" False] unfolding number_text_def Let_def
      by (auto simp: decimal_int_def counted_down_def)
  qed
qed

lemma fmt_item_d: "fmt_item (''d'' @ rest) (Word w # args) = Some (decimal_int (sint w), rest, args)"
  by (simp add: fmt_item_def fmt_width_def fmt_precision_def fmt_qualifier_def fmt_convert_def flag_of_def is_digit_def h_or_l_def
      number_text_signed Let_def)

lemma vformat_d: "vformat (''%d'' @ rest) (Word w # args) = map_option ((@) (decimal_int (sint w))) (vformat rest args)"
  using fmt_item_d [of rest w args] by simp

lemma vformat_s: "vformat (''%s'' @ rest) (Text (Some s) # args) = map_option ((@) s) (vformat rest args)"
  by (simp add: fmt_item_def fmt_width_def fmt_precision_def fmt_qualifier_def fmt_convert_def flag_of_def is_digit_def padded_text_def LEFT_def Let_def)

text \<open>A conversion without an argument.\<close>

lemma vformat_no_argument:
  assumes "CHR ''%'' \<notin> set a" "c \<in> set ''csdxp''"
  shows "vformat (a @ CHR ''%'' # c # rest) [] = None"
proof -
  consider "c = CHR ''c''" | "c = CHR ''s''" | "c = CHR ''d''" | "c = CHR ''x''" | "c = CHR ''p''" using assms(2) by auto
  then have "fmt_item (c # rest) [] = None"
    by cases (simp_all add: fmt_item_def fmt_width_def fmt_precision_def fmt_qualifier_def fmt_convert_def flag_of_def is_digit_def Let_def)
  then show ?thesis using vformat_text [OF assms(1)] by simp
qed

text \<open>The octal conversion prints hexadecimal digits: \<open>divide\<close> has no base 8.\<close>

lemma vformat_octal: "vformat ''%o'' [Word 8] = Some ''8''" "vformat ''%o'' [Word 63] = Some ''3f''"
proof -
  have t: "number_tmp False 8 8 = ''8''" "number_tmp False 8 63 = ''f3''" by code_simp+
  have f: "fmt_item ''o'' [Word w] = Some (number_text w 8 (- 1) (- 1) 0, [], [])" for w
    by (simp add: fmt_item_def fmt_width_def fmt_precision_def fmt_qualifier_def fmt_convert_def flag_of_def is_digit_def h_or_l_def Let_def)
  have "number_text 8 8 (- 1) (- 1) 0 = ''8''" "number_text 63 8 (- 1) (- 1) 0 = ''3f''"
    unfolding number_text_def Let_def using t by (simp_all add: counted_down_def)
  then show "vformat ''%o'' [Word 8] = Some ''8''" "vformat ''%o'' [Word 63] = Some ''3f''" using f by simp_all
qed

text \<open>What ends up in the buffer.\<close>

lemma printed:
  assumes "vformat fmt args = Some out" "NUL \<notin> set out" "0 < room" "room \<le> length buf"
  shows "\<exists>b. rt_vsnprintf buf room fmt args = Some (length out, b) \<and> length b = length buf
    \<and> drop room b = drop room buf \<and> c_string b = take (room - 1) out"
proof -
  have "length (take (room - 1) out @ [NUL]) \<le> room" using assms(3) by simp
  moreover have "NUL \<notin> set (take (room - 1) out)" using assms(2) by (meson in_set_takeD)
  ultimately show ?thesis using assms by (simp add: rt_vsnprintf_text print_at_def) (simp add: overwrite_def)
qed

text \<open>
  C32. \<open>rt_vsnprintf\<close> keeps to its buffer: it returns the length of the whole text, writes at most \<open>room\<close> bytes, and leaves a C string
  there, the text cut to what fits.
\<close>

theorem rt_vsnprintf_fits:
  assumes "vformat fmt args = Some out" "NUL \<notin> set out" "0 < room" "room \<le> length buf"
  shows "\<exists>b. rt_vsnprintf buf room fmt args = Some (length out, b) \<and> length b = length buf
    \<and> drop room b = drop room buf \<and> c_string b = take (room - 1) out"
  by (rule printed [OF assms])

theorem rt_vsnprintf_fits_witness:
  "\<exists>b. rt_vsnprintf (replicate 8 (CHR ''x'')) 4 ''%d!'' [Word (- 12)] = Some (length ''-12!'', b) \<and> length b = length (replicate 8 (CHR ''x''))
    \<and> drop 4 b = drop 4 (replicate 8 (CHR ''x'')) \<and> c_string b = take (4 - 1) ''-12!''"
proof (rule rt_vsnprintf_fits)
  have "decimal_int (- 12) = ''-12''" by code_simp
  then show "vformat ''%d!'' [Word (- 12)] = Some ''-12!''" using vformat_d [of "''!''" "- 12" "[]"] vformat_plain [of "''!''" "[]"] by simp
qed simp_all

end
