(* ===== verification/WebClient.thy ===== *)
theory WebClient
  imports Printf
begin

text \<open>
  The HTTP client \<open>packages/webclient-v2.1.0/src/webclient.c\<close>, configured without TLS (\<open>WEBCLIENT_NOT_USE_TLS\<close>), with which
  the display thread fetches the song list and the songs. A session is a record; the connection is part of the state: what the
  server still sends, in the pieces in which it arrives (\<open>rx\<close>), how the connection goes on when that is used up, and how many
  bytes it takes from us. A list of connections waits for the calls of \<open>webclient_connect\<close>. Memory is a number of allocations
  that succeed. The outer \<open>None\<close> of a result is an access outside an array or to freed memory.
\<close>

subsection \<open>Sessions and connections\<close>

datatype WEBCLIENT_STATUS =
    WEBCLIENT_OK | WEBCLIENT_ERROR | WEBCLIENT_TIMEOUT | WEBCLIENT_NOMEM | WEBCLIENT_NOSOCKET | WEBCLIENT_NOBUFFER
  | WEBCLIENT_CONNECT_FAILED | WEBCLIENT_DISCONNECT | WEBCLIENT_FILE_ERROR

primrec status_code :: "WEBCLIENT_STATUS \<Rightarrow> int" where
  "status_code WEBCLIENT_OK = 0"
| "status_code WEBCLIENT_ERROR = 1"
| "status_code WEBCLIENT_TIMEOUT = 2"
| "status_code WEBCLIENT_NOMEM = 3"
| "status_code WEBCLIENT_NOSOCKET = 4"
| "status_code WEBCLIENT_NOBUFFER = 5"
| "status_code WEBCLIENT_CONNECT_FAILED = 6"
| "status_code WEBCLIENT_DISCONNECT = 7"
| "status_code WEBCLIENT_FILE_ERROR = 8"

abbreviation err :: "WEBCLIENT_STATUS \<Rightarrow> int" where "err s \<equiv> - status_code s"

datatype WEBCLIENT_METHOD = WEBCLIENT_USER_METHOD | WEBCLIENT_GET | WEBCLIENT_POST

definition WEBCLIENT_HEADER_BUFSZ :: nat where "WEBCLIENT_HEADER_BUFSZ = 4096"
definition WEBCLIENT_RESPONSE_BUFSZ :: nat where "WEBCLIENT_RESPONSE_BUFSZ = 4096"

datatype rx_end = Closed | Reset | Silent

record connection =
  dns_ok :: bool
  socket_ok :: bool
  connect_ok :: bool
  arriving :: "string list"
  arriving_end :: rx_end
  taking :: nat

text \<open>The size of the header buffer is its length.\<close>

record webclient_session =
  header_buffer :: string
  header_length :: nat
  socket :: int
  resp_status :: int
  host :: "string option"
  req_url :: "string option"
  chunk_sz :: int
  chunk_offset :: int
  content_length :: int
  content_remainder :: nat

record web = webclient_session +
  rx :: "string list"
  rx_end :: rx_end
  tx :: string
  tx_room :: nat
  connections :: "connection list"
  memory :: nat
  stack_junk :: string

definition header_size :: "web \<Rightarrow> nat" where
  "header_size w = length (header_buffer w)"

definition web_alloc :: "web \<Rightarrow> web option" where
  "web_alloc w = (if memory w = 0 then None else Some (w\<lparr>memory := memory w - 1\<rparr>))"

definition closesocket :: "web \<Rightarrow> web" where
  "closesocket w = w\<lparr>socket := - 1\<rparr>"

text \<open>\<open>recv\<close> gives at most \<open>len\<close> bytes of the first piece; it fails on a closed socket.\<close>

definition webclient_recv :: "nat \<Rightarrow> web \<Rightarrow> int \<times> string \<times> web" where
  "webclient_recv len w =
     (if socket w < 0 then (- 1, [], w)
      else
        case rx w of
          [] \<Rightarrow> (if rx_end w = Closed then 0 else - 1, [], w)
        | p # ps \<Rightarrow>
            (int (length (take len p)), take len p, w\<lparr>rx := (if len < length p then drop len p # ps else ps)\<rparr>))"

text \<open>\<open>send\<close> until the connection takes no more.\<close>

definition webclient_write :: "string \<Rightarrow> web \<Rightarrow> int \<times> web" where
  "webclient_write bytes w =
     (if socket w < 0 then (err WEBCLIENT_DISCONNECT, w)
      else if bytes = [] then (0, w)
      else
        let sent = take (tx_room w) bytes;
            w1 = w\<lparr>tx := tx w @ sent, tx_room := tx_room w - length sent\<rparr>
        in if sent = bytes then (int (length bytes), w1)
           else (if sent = [] then err WEBCLIENT_DISCONNECT else int (length sent), closesocket w1))"

subsection \<open>Lines\<close>

text \<open>
  The loop of \<open>webclient_read_line\<close>, with the number of bytes the buffer still takes: the return value, what has been written to the
  buffer, and the new state. A line ends with carriage return and line feed; the carriage return is kept.
\<close>

primrec read_line_loop :: "nat \<Rightarrow> string \<Rightarrow> char \<Rightarrow> web \<Rightarrow> int \<times> string \<times> web" where
  "read_line_loop 0 acc last_ch w = (int (length acc), acc, w)"
| "read_line_loop (Suc k) acc last_ch w =
     (case webclient_recv 1 w of
        (rc, chs, w) \<Rightarrow>
          if rc \<le> 0 then (rc, acc, w)
          else
            let ch = hd chs
            in if ch = CHR 0x0A \<and> last_ch = CHR 0x0D then (int (length acc), acc, w)
               else read_line_loop k (acc @ [ch]) ch w)"

definition webclient_read_line :: "nat \<Rightarrow> web \<Rightarrow> int \<times> string \<times> web" where
  "webclient_read_line room w = read_line_loop room [] NUL w"

subsection \<open>URLs\<close>

text \<open>
  \<open>webclient_resolve_address\<close> up to the host name look-up: host, port and the request, which is the rest of the URL from its slash
  on. \<open>Url_overflow\<close> is a write behind the six bytes of \<open>port_str\<close>.
\<close>

datatype url = Url string string string | Url_error | Url_overflow

definition port_copy :: "string \<Rightarrow> nat \<Rightarrow> string option" where
  "port_copy src n = (if 5 < n then None else Some (c_string (take n src)))"

definition resolve_ipv6 :: "string \<Rightarrow> string \<Rightarrow> url" where
  "resolve_ipv6 port_str host_addr =
     (case rt_strstr host_addr '']'' of
        None \<Rightarrow> Url_error
      | Some p \<Rightarrow>
          let host_addr_len = length host_addr - length p
          in (case rt_strstr p ''/'' of
                None \<Rightarrow> Url_error
              | Some request \<Rightarrow>
                  let at = length host_addr - length request
                  in if host_addr_len < 1 then (if at \<noteq> host_addr_len + 1 \<and> 5 < at - host_addr_len - 2 then Url_overflow else Url_error)
                     else if at \<noteq> host_addr_len + 1 then
                       (case port_copy (drop 2 p) (at - host_addr_len - 2) of
                          None \<Rightarrow> Url_overflow
                        | Some port \<Rightarrow> Url (take host_addr_len host_addr) port request)
                     else Url (take host_addr_len host_addr) port_str request))"

definition resolve_ipv4 :: "string \<Rightarrow> string \<Rightarrow> url" where
  "resolve_ipv4 port_str host_addr =
     (case rt_strstr host_addr ''/'' of
        None \<Rightarrow> Url_error
      | Some request \<Rightarrow>
          let at = length host_addr - length request;
              port_ptr = rt_strstr host_addr '':''
          in (case port_ptr of
                Some p \<Rightarrow>
                  let colon = length host_addr - length p
                  in if colon < at then
                       (case port_copy (tl p) (at - colon - 1) of
                          None \<Rightarrow> Url_overflow
                        | Some port \<Rightarrow> if colon < 1 then Url_error else Url (take colon host_addr) port request)
                     else if at < 1 then Url_error else Url (take at host_addr) port_str request
              | None \<Rightarrow> if at < 1 then Url_error else Url (take at host_addr) port_str request))"

definition resolve_url :: "string \<Rightarrow> url" where
  "resolve_url url =
     (if take 7 url = ''http://'' then
        let h = drop 7 url in if h \<noteq> [] \<and> hd h = CHR ''['' then resolve_ipv6 ''80'' (tl h) else resolve_ipv4 ''80'' h
      else if take 8 url = ''https://'' then
        let h = drop 8 url in if h \<noteq> [] \<and> hd h = CHR ''['' then resolve_ipv6 ''443'' (tl h) else resolve_ipv4 ''443'' h
      else Url_error)"

text \<open>The whole of \<open>webclient_resolve_address\<close>: the host is stored in the session, and freed again on an error. The second result
  is the request.\<close>

definition webclient_resolve_address :: "string \<Rightarrow> connection option \<Rightarrow> web \<Rightarrow> (int \<times> string \<times> web) option" where
  "webclient_resolve_address url conn w =
     (case resolve_url url of
        Url_overflow \<Rightarrow> None
      | Url_error \<Rightarrow> Some (err WEBCLIENT_ERROR, [], w\<lparr>host := None\<rparr>)
      | Url h port request \<Rightarrow>
          (case web_alloc w of
             None \<Rightarrow> Some (err WEBCLIENT_ERROR, [], w\<lparr>host := None\<rparr>)
           | Some w \<Rightarrow>
               if \<not> (case conn of None \<Rightarrow> False | Some c \<Rightarrow> dns_ok c) then Some (err WEBCLIENT_ERROR, [], w\<lparr>host := None\<rparr>)
               else Some (0, request, w\<lparr>host := Some h\<rparr>)))"

text \<open>The allocation of the request may fail, which is not tested.\<close>

definition webclient_connect :: "string \<Rightarrow> web \<Rightarrow> (int \<times> web) option" where
  "webclient_connect URI w =
     (let w = w\<lparr>socket := - 1\<rparr>
      in if take 8 URI = ''https://'' then Some (err WEBCLIENT_ERROR, w)
         else
           let conn = (case connections w of [] \<Rightarrow> None | c # _ \<Rightarrow> Some c);
               w = w\<lparr>connections := tl (connections w)\<rparr>
           in (case webclient_resolve_address URI conn w of
                 None \<Rightarrow> None
               | Some (rc, request, w) \<Rightarrow>
                   if rc \<noteq> 0 then Some (rc, w)
                   else
                     let w = (case web_alloc w of None \<Rightarrow> w\<lparr>req_url := None\<rparr> | Some w \<Rightarrow> w\<lparr>req_url := Some request\<rparr>);
                         c = the conn
                     in if \<not> socket_ok c then Some (err WEBCLIENT_NOSOCKET, w)
                        else if \<not> connect_ok c then Some (err WEBCLIENT_CONNECT_FAILED, w)
                        else Some (0, w\<lparr>socket := 1, rx := arriving c, rx_end := arriving_end c, tx := [], tx_room := taking c\<rparr>)))"

subsection \<open>Header fields\<close>

text \<open>A size of the header that is an underflow of \<open>size_t\<close> has no limit.\<close>

definition webclient_header_fields_add :: "string \<Rightarrow> web \<Rightarrow> (int \<times> web) option" where
  "webclient_header_fields_add out w =
     (if header_size w < header_length w then None
      else
        let w1 = w\<lparr>header_buffer := print_at (header_length w) (header_size w - header_length w) out (header_buffer w),
                   header_length := header_length w + length out\<rparr>
        in if header_size w \<le> header_length w1 then Some (err WEBCLIENT_ERROR, w1) else Some (int (length out), w1))"

text \<open>
  The loop of \<open>webclient_header_fields_get\<close> over the strings of the buffer; the length of a string is counted when the loop
  moves to it. The inner option is the null pointer.
\<close>

definition is_blank :: "char \<Rightarrow> bool" where
  "is_blank c \<longleftrightarrow> c = CHR '' '' \<or> c = CHR 0x09"

function fields_get_loop :: "string \<Rightarrow> nat \<Rightarrow> string \<Rightarrow> nat \<Rightarrow> string option option" where
  "fields_get_loop key len resp_buf resp_buf_len =
     (if len \<le> resp_buf_len then Some None
      else if NUL \<notin> set resp_buf then None
      else
        let s = c_string resp_buf
        in case (rt_strstr s key, rt_strstr s '':'') of
             (Some _, Some p) \<Rightarrow> Some (Some (dropWhile is_blank (tl p)))
           | _ \<Rightarrow>
               if s = [] then Some None
               else
                 let rest = drop (length s + 1) resp_buf
                 in if NUL \<notin> set rest then None
                    else fields_get_loop key len rest (resp_buf_len + length (c_string rest) + 1))"
  by pat_completeness auto
termination
  by (relation "measure (\<lambda>(key, len, resp_buf, k). length resp_buf)") (auto intro!: diff_less dest: length_pos_if_in_set)

declare fields_get_loop.simps [simp del]

definition webclient_header_fields_get :: "string \<Rightarrow> web \<Rightarrow> string option option" where
  "webclient_header_fields_get key w = fields_get_loop key (header_length w) (header_buffer w) 0"

definition webclient_content_length_get :: "web \<Rightarrow> int" where
  "webclient_content_length_get w = content_length w"

definition webclient_resp_status_get :: "web \<Rightarrow> int" where
  "webclient_resp_status_get w = resp_status w"

subsection \<open>The request\<close>

abbreviation CRLF :: string where "CRLF \<equiv> [CHR 0x0D, CHR 0x0A]"

definition shown :: "string option \<Rightarrow> string" where
  "shown s = (case s of None \<Rightarrow> ''(NULL)'' | Some s \<Rightarrow> s)"

definition request_line :: "WEBCLIENT_METHOD \<Rightarrow> string \<Rightarrow> string" where
  "request_line m url = (if m = WEBCLIENT_POST then ''POST '' else ''GET '') @ url @ '' HTTP/1.1'' @ CRLF"

text \<open>Adding lines one after the other, as long as they fit; the result says whether all did.\<close>

fun add_fields :: "string list \<Rightarrow> web \<Rightarrow> (bool \<times> web) option" where
  "add_fields [] w = Some (True, w)"
| "add_fields (l # ls) w =
     (case webclient_header_fields_add l w of
        None \<Rightarrow> None
      | Some (rc, w) \<Rightarrow> if rc < 0 then Some (False, w) else add_fields ls w)"

definition header_text :: "web \<Rightarrow> string" where
  "header_text w = c_string (header_buffer w)"

text \<open>A line is added when the header does not have the keyword yet.\<close>

definition missing :: "string \<Rightarrow> string \<Rightarrow> web \<Rightarrow> string list" where
  "missing key line w = (if rt_strstr (header_text w) key = None then [line] else [])"

definition add_missing :: "string \<Rightarrow> string \<Rightarrow> (bool \<times> web) option \<Rightarrow> (bool \<times> web) option" where
  "add_missing key line r =
     (case r of None \<Rightarrow> None | Some (ok, w) \<Rightarrow> if ok then add_fields (missing key line w) w else Some (ok, w))"

definition webclient_send_header :: "WEBCLIENT_METHOD \<Rightarrow> web \<Rightarrow> (int \<times> web) option" where
  "webclient_send_header m w =
     (if header_length w = 0 then
        (case add_fields [request_line WEBCLIENT_GET (shown (req_url w)), ''Host: '' @ shown (host w) @ CRLF,
                          ''User-Agent: RT-Thread HTTP Agent'' @ CRLF @ CRLF] w of
           None \<Rightarrow> None
         | Some (ok, w) \<Rightarrow>
             if ok then Some (0, snd (webclient_write (take (header_length w) (header_buffer w)) w))
             else Some (err WEBCLIENT_NOMEM, w))
      else if m = WEBCLIENT_USER_METHOD then
        (if header_size w < header_length w then None
         else Some (0, snd (webclient_write (take (header_length w) (header_buffer w)) w)))
      else
        let spliced =
          (if take 7 (header_buffer w) \<noteq> ''HTTP/1.'' then
             (case web_alloc w of
                None \<Rightarrow> None
              | Some w \<Rightarrow>
                  let out = request_line m (case req_url w of None \<Rightarrow> ''/'' | Some u \<Rightarrow> u) @ header_text w
                  in Some (w\<lparr>header_buffer := print_at 0 (header_size w) out (header_buffer w), header_length := length out\<rparr>))
           else Some w)
        in case spliced of
             None \<Rightarrow> Some (err WEBCLIENT_NOMEM, w)
           | Some w \<Rightarrow>
               (case add_missing ''Accept:'' (''Accept: */*'' @ CRLF)
                       (add_missing ''User-Agent:'' (''User-Agent: RT-Thread HTTP Agent'' @ CRLF)
                         (add_missing ''Host:'' (''Host: '' @ shown (host w) @ CRLF) (Some (True, w)))) of
                  None \<Rightarrow> None
                | Some (ok, w) \<Rightarrow>
                    if \<not> ok then Some (err WEBCLIENT_NOMEM, w)
                    else if header_size w < header_length w + 3 then None
                    else
                      let w = w\<lparr>header_buffer := overwrite (header_length w) (CRLF @ [NUL]) (header_buffer w),
                                header_length := header_length w + 2\<rparr>
                      in Some (0, snd (webclient_write (take (header_length w) (header_buffer w)) w))))"

subsection \<open>The response\<close>

lemma recv_frame [simp]:
  "header_buffer (snd (snd (webclient_recv n w))) = header_buffer w"
  "header_length (snd (snd (webclient_recv n w))) = header_length w"
  by (simp_all add: webclient_recv_def split: list.split)

lemma read_line_loop_frame:
  "header_buffer (snd (snd (read_line_loop k acc c w))) = header_buffer w
   \<and> header_length (snd (snd (read_line_loop k acc c w))) = header_length w"
proof (induction k arbitrary: acc c w)
  case (Suc k)
  obtain rc1 chs w1 where 1: "webclient_recv (Suc 0) w = (rc1, chs, w1)" by (cases "webclient_recv (Suc 0) w")
  have "header_buffer w1 = header_buffer w" "header_length w1 = header_length w"
    using recv_frame [of "Suc 0" w] 1 by simp_all
  then show ?case using Suc 1 by (simp add: Let_def)
qed simp

lemma read_line_loop_result:
  "read_line_loop k acc c w = (rc, line, w') \<Longrightarrow> length line \<le> length acc + k \<and> (0 < rc \<longrightarrow> rc = int (length line))"
proof (induction k arbitrary: acc c w)
  case (Suc k)
  obtain rc1 chs w1 where 1: "webclient_recv (Suc 0) w = (rc1, chs, w1)" by (cases "webclient_recv (Suc 0) w")
  consider "rc1 \<le> 0" | "0 < rc1" "hd chs = CHR 0x0A \<and> c = CHR 0x0D" | "0 < rc1" "\<not> (hd chs = CHR 0x0A \<and> c = CHR 0x0D)" by linarith
  then show ?case
  proof cases
    case 3
    then have "read_line_loop k (acc @ [hd chs]) (hd chs) w1 = (rc, line, w')" using Suc.prems 1 by (auto simp: Let_def split: if_splits)
    from Suc.IH [OF this] show ?thesis by auto
  qed (use Suc.prems 1 in auto)
qed simp

text \<open>One round of the loop over the header lines: the end, whose first component is missing when the buffer is full, or the next
  round.\<close>

definition header_line :: "web \<Rightarrow> (int option \<times> web) + web" where
  "header_line w =
     (let n = header_length w;
          (rc, line, w1) = webclient_read_line (header_size w - n) w;
          w2 = w1\<lparr>header_buffer := overwrite n line (header_buffer w1)\<rparr>
      in if rc \<le> 0 then Inl (Some rc, w2)
         else if rc = 1 \<and> line = [CHR 0x0D] then Inl (Some rc, w2\<lparr>header_buffer := (header_buffer w2)[n := NUL]\<rparr>)
         else
           let w3 = w2\<lparr>header_buffer := (header_buffer w2)[n + nat rc - 1 := NUL], header_length := n + nat rc\<rparr>
           in if header_size w3 \<le> header_length w3 then Inl (None, w3) else Inr w3)"

lemma header_line_next:
  assumes "header_line w = Inr w'"
  shows "header_size w' = header_size w" "header_length w < header_length w'" "header_length w' < header_size w'"
proof -
  obtain rc line w1 where 1: "webclient_read_line (header_size w - header_length w) w = (rc, line, w1)"
    by (cases "webclient_read_line (header_size w - header_length w) w")
  have f: "header_buffer w1 = header_buffer w" "header_length w1 = header_length w"
    using read_line_loop_frame [of "header_size w - header_length w" "[]" NUL w] 1 by (simp_all add: webclient_read_line_def)
  have r: "length line \<le> header_size w - header_length w" "0 < rc \<longrightarrow> rc = int (length line)"
    using read_line_loop_result 1 unfolding webclient_read_line_def by fastforce+
  have rc: "0 < rc" using assms 1 by (auto simp: header_line_def Let_def split: if_splits)
  then have "header_length w + length line \<le> header_size w" using r by linarith
  then have "length (overwrite (header_length w) line (header_buffer w)) = header_size w"
    by (simp add: header_size_def)
  then show "header_size w' = header_size w" "header_length w < header_length w'" "header_length w' < header_size w'"
    using assms 1 f r rc by (auto simp: header_line_def Let_def header_size_def split: if_splits)
qed

function header_loop :: "web \<Rightarrow> int option \<times> web" where
  "header_loop w = (case header_line w of Inl r \<Rightarrow> r | Inr w \<Rightarrow> header_loop w)"
  by pat_completeness auto
termination
proof (relation "measure (\<lambda>w. header_size w - header_length w)", goal_cases)
  case (2 w w')
  then show ?case using header_line_next [of w w'] by auto
qed simp

declare header_loop.simps [simp del]

text \<open>
  The status code: \<open>None\<close> when the search for the blank behind it passes the end of the string, or when the string ends with
  the protocol; the inner option is missing when there is no protocol.
\<close>

definition status_of :: "string \<Rightarrow> int option option" where
  "status_of s =
     (if rt_strstr s ''HTTP/1.'' = None then Some None
      else if length s < 8 then None
      else
        let p = dropWhile is_blank (drop 8 s)
        in if list_all (\<lambda>c. \<not> is_blank c) p then None else Some (Some (atoi (takeWhile (\<lambda>c. \<not> is_blank c) p))))"

text \<open>The size of the first chunk is read into 16 bytes, which keep their old content behind the line.\<close>

definition first_chunk :: "web \<Rightarrow> web option" where
  "first_chunk w =
     (case webclient_read_line (header_size w) w of
        (rc, line, w) \<Rightarrow>
          if 16 < length line then None
          else
            (case strtol16 (line @ drop (length line) (stack_junk w)) of
               None \<Rightarrow> None
             | Some n \<Rightarrow> Some (w\<lparr>chunk_sz := n, chunk_offset := 0\<rparr>)))"

definition size_t :: "int \<Rightarrow> nat" where
  "size_t n = nat (n mod 2 ^ 32)"

definition set_lengths :: "web \<Rightarrow> web option" where
  "set_lengths w =
     (case webclient_header_fields_get ''Content-Length'' w of
        None \<Rightarrow> None
      | Some f \<Rightarrow>
          let w = (case f of None \<Rightarrow> w | Some v \<Rightarrow> w\<lparr>content_length := atoi v\<rparr>);
              w = w\<lparr>content_remainder := (if content_length w \<noteq> 0 then size_t (content_length w) else 2 ^ 32 - 1)\<rparr>
          in (case webclient_header_fields_get ''Transfer-Encoding'' w of
                None \<Rightarrow> None
              | Some e \<Rightarrow> if e = Some ''chunked'' then first_chunk w else Some w))"

definition webclient_handle_response :: "web \<Rightarrow> (int \<times> web) option" where
  "webclient_handle_response w =
     (case header_loop (w\<lparr>header_buffer := replicate (header_size w) NUL, header_length := 0\<rparr>) of
        (None, w) \<Rightarrow> Some (err WEBCLIENT_NOMEM, w)
      | (Some rc, w) \<Rightarrow>
          (case web_alloc w of
             None \<Rightarrow> Some (err WEBCLIENT_NOMEM, w)
           | Some w \<Rightarrow>
               (case status_of (header_text w) of
                  None \<Rightarrow> None
                | Some st \<Rightarrow>
                    (case set_lengths (case st of None \<Rightarrow> w | Some n \<Rightarrow> w\<lparr>resp_status := n\<rparr>) of
                       None \<Rightarrow> None
                     | Some w \<Rightarrow> Some (if rc < 0 then rc else resp_status w, w)))))"

subsection \<open>Reading the body\<close>

text \<open>The line with the size of the next chunk, in 64 cleared bytes.\<close>

definition chunk_line :: "string \<Rightarrow> string" where
  "chunk_line line = line @ replicate (64 - length line) NUL"

definition webclient_next_chunk :: "web \<Rightarrow> web option" where
  "webclient_next_chunk w =
     (let (rc, line, w) = webclient_read_line 64 w
      in if rc \<le> 0 then Some (closesocket w)
         else
           let (rc, line2, w) = (if c_string (chunk_line line) = [CHR 0x0D] then webclient_read_line 64 w else (rc, [], w));
               array = overwrite 0 line2 (chunk_line line)
           in if rc \<le> 0 then Some (closesocket w)
              else (case strtol16 array of
                      None \<Rightarrow> None
                    | Some n \<Rightarrow>
                        let w = w\<lparr>chunk_sz := n, chunk_offset := 0\<rparr>
                        in Some (if n = 0 then (closesocket w)\<lparr>chunk_sz := - 1\<rparr> else w)))"

text \<open>The loop that reads until the buffer is full or the data end: what it has read.\<close>

function read_loop :: "nat \<Rightarrow> string \<Rightarrow> web \<Rightarrow> string \<times> web" where
  "read_loop left acc w =
     (case webclient_recv left w of
        (n, bytes, w) \<Rightarrow>
          if n \<le> 0 then (acc, w)
          else if left \<le> nat n then (acc @ bytes, w) else read_loop (left - nat n) (acc @ bytes) w)"
  by pat_completeness auto
termination
  by (relation "measure (\<lambda>(left, acc, w). left)") auto

declare read_loop.simps [simp del]

text \<open>The return value, the bytes stored in the buffer, and the new state.\<close>

definition webclient_read :: "nat \<Rightarrow> web \<Rightarrow> (int \<times> string \<times> web) option" where
  "webclient_read len w =
     (if chunk_sz w < 0 then Some (0, [], w)
      else if socket w < 0 then Some (err WEBCLIENT_DISCONNECT, [], w)
      else if len = 0 then Some (0, [], w)
      else if chunk_sz w \<noteq> 0 then
        (let len = (if int len > chunk_sz w - chunk_offset w then size_t (chunk_sz w - chunk_offset w) else len)
         in case webclient_recv len w of
              (n, bytes, w) \<Rightarrow>
                if n \<le> 0 then
                  Some (if n < 0 \<and> rx_end w = Silent then (err WEBCLIENT_TIMEOUT, [], w) else (0, [], closesocket w))
                else
                  let w = w\<lparr>chunk_offset := chunk_offset w + n\<rparr>
                  in if chunk_sz w \<le> chunk_offset w then map_option (\<lambda>w. (n, bytes, w)) (webclient_next_chunk w)
                     else Some (n, bytes, w))
      else
        (let len = (if content_length w > 0 \<and> content_remainder w < len then content_remainder w else len)
         in if len = 0 then Some (0, [], w)
            else
              (case read_loop len [] w of
                 (bytes, w) \<Rightarrow>
                   if bytes = [] then
                     Some (if rx_end w = Silent then (err WEBCLIENT_TIMEOUT, [], w) else (0, [], closesocket w))
                   else
                     let w = (if content_length w > 0 then w\<lparr>content_remainder := content_remainder w - length bytes\<rparr> else w)
                     in Some (int (length bytes), bytes, w))))"

subsection \<open>Sessions\<close>

text \<open>\<open>webclient_session_create\<close>: three allocations; the content of the new buffer is \<open>fresh\<close>. The network part of the state
  is that of \<open>w\<close>.\<close>

definition webclient_session_create :: "string \<Rightarrow> web \<Rightarrow> web option" where
  "webclient_session_create fresh w =
     (case Option.bind (Option.bind (web_alloc w) web_alloc) web_alloc of
        None \<Rightarrow> None
      | Some w \<Rightarrow> Some (w\<lparr>header_buffer := fresh, header_length := 0, socket := 0, resp_status := 0, host := None,
          req_url := None, chunk_sz := 0, chunk_offset := 0, content_length := - 1, content_remainder := 0\<rparr>))"

text \<open>
  The result of a request: \<open>Got\<close> a status with the session, or \<open>Gone\<close>: a status, when the session of the caller was closed
  because the server redirected, with what is left of the state.
\<close>

datatype got = Got int web | Gone int web

text \<open>
  \<open>webclient_get\<close>. A redirection closes and frees the session, makes another one (with a buffer content from \<open>fresh\<close>) and calls
  the function again; the new session is lost. Each call takes a connection, so the list of connections bounds the calls.
\<close>

definition redirects :: "int \<Rightarrow> web \<Rightarrow> string option option" where
  "redirects status w =
     (case webclient_header_fields_get ''Location'' w of
        None \<Rightarrow> None
      | Some l \<Rightarrow> Some (if status = 302 \<or> status = 301 then l else None))"

primrec webclient_get :: "nat \<Rightarrow> (nat \<Rightarrow> string) \<Rightarrow> string \<Rightarrow> web \<Rightarrow> got option" where
  "webclient_get 0 fresh URI w = Some (Got (err WEBCLIENT_ERROR) w)"
| "webclient_get (Suc k) fresh URI w =
     (case webclient_connect URI w of
        None \<Rightarrow> None
      | Some (rc, w) \<Rightarrow>
          if rc \<noteq> 0 then Some (Got rc w)
          else
            (case webclient_send_header WEBCLIENT_GET w of
               None \<Rightarrow> None
             | Some (rc, w) \<Rightarrow>
                 if rc \<noteq> 0 then Some (Got rc w)
                 else
                   (case webclient_handle_response w of
                      None \<Rightarrow> None
                    | Some (status, w) \<Rightarrow>
                        if status \<le> 0 then Some (Got status w)
                        else
                          (case redirects status w of
                             None \<Rightarrow> None
                           | Some None \<Rightarrow> Some (Got status w)
                           | Some (Some new_url) \<Rightarrow>
                               (case web_alloc w of
                                  None \<Rightarrow> Some (Got (err WEBCLIENT_NOMEM) w)
                                | Some w \<Rightarrow>
                                    (case webclient_session_create (fresh k) (closesocket w) of
                                       None \<Rightarrow> Some (Gone (err WEBCLIENT_NOMEM) (closesocket w))
                                     | Some w \<Rightarrow>
                                         (case webclient_get k fresh new_url w of
                                            None \<Rightarrow> None
                                          | Some (Got rc w) \<Rightarrow> Some (Gone rc w)
                                          | Some (Gone rc w) \<Rightarrow> Some (Gone rc w))))))))"

text \<open>\<open>webclient_get_position\<close>: the same with a range in the header.\<close>

definition range_field :: "u32 \<Rightarrow> string" where
  "range_field position = the (vformat (''Range: bytes=%d-'' @ CRLF) [Word position])"

primrec webclient_get_position :: "nat \<Rightarrow> (nat \<Rightarrow> string) \<Rightarrow> string \<Rightarrow> u32 \<Rightarrow> web \<Rightarrow> got option" where
  "webclient_get_position 0 fresh URI position w = Some (Got (err WEBCLIENT_ERROR) w)"
| "webclient_get_position (Suc k) fresh URI position w =
     (case webclient_connect URI w of
        None \<Rightarrow> None
      | Some (rc, w) \<Rightarrow>
          if rc \<noteq> 0 then Some (Got rc w)
          else
            (case webclient_header_fields_add (range_field position) w of
               None \<Rightarrow> None
             | Some (rc, w) \<Rightarrow>
                 if rc \<le> 0 then Some (Got (err WEBCLIENT_ERROR) w)
                 else
                   (case webclient_send_header WEBCLIENT_GET w of
                      None \<Rightarrow> None
                    | Some (rc, w) \<Rightarrow>
                        if rc \<noteq> 0 then Some (Got rc w)
                        else
                          (case webclient_handle_response w of
                             None \<Rightarrow> None
                           | Some (status, w) \<Rightarrow>
                               if status \<le> 0 then Some (Got status w)
                               else
                                 (case redirects status w of
                                    None \<Rightarrow> None
                                  | Some None \<Rightarrow> Some (Got status w)
                                  | Some (Some new_url) \<Rightarrow>
                                      (case web_alloc w of
                                         None \<Rightarrow> Some (Got (err WEBCLIENT_NOMEM) w)
                                       | Some w \<Rightarrow>
                                           (case webclient_session_create (fresh k) (closesocket w) of
                                              None \<Rightarrow> Some (Gone (err WEBCLIENT_NOMEM) (closesocket w))
                                            | Some w \<Rightarrow>
                                                (case webclient_get_position k fresh new_url position w of
                                                   None \<Rightarrow> None
                                                 | Some (Got rc w) \<Rightarrow> Some (Gone rc w)
                                                 | Some (Gone rc w) \<Rightarrow> Some (Gone rc w)))))))))"

subsection \<open>Reading uses up what arrives\<close>

definition pending :: "web \<Rightarrow> nat" where
  "pending w = length (concat (rx w))"

lemma recv_pending: "webclient_recv n w = (k, bytes, w') \<Longrightarrow> pending w' + length bytes = pending w \<and> k \<le> int (length bytes)"
  by (cases "rx w") (auto simp: webclient_recv_def pending_def split: if_splits)

lemma recv_positive: "webclient_recv n w = (k, bytes, w') \<Longrightarrow> 0 < k \<Longrightarrow> k = int (length bytes) \<and> length bytes \<le> n"
  by (cases "rx w") (auto simp: webclient_recv_def split: if_splits)

lemma recv_nothing: "webclient_recv n w = (k, bytes, w') \<Longrightarrow> k \<le> 0 \<Longrightarrow> bytes = []"
  by (cases "rx w") (auto simp: webclient_recv_def split: if_splits)

lemma read_line_loop_pending: "read_line_loop k acc c w = (rc, line, w') \<Longrightarrow> pending w' \<le> pending w"
proof (induction k arbitrary: acc c w)
  case (Suc k)
  obtain rc1 chs w1 where 1: "webclient_recv (Suc 0) w = (rc1, chs, w1)" by (cases "webclient_recv (Suc 0) w")
  have "pending w1 \<le> pending w" using recv_pending [OF 1] by linarith
  then show ?case using Suc 1 by (fastforce simp: Let_def split: if_splits)
qed simp

lemma pending_closesocket [simp]: "pending (closesocket w) = pending w"
  by (simp add: pending_def closesocket_def)

lemma next_chunk_pending:
  assumes "webclient_next_chunk w = Some w'"
  shows "pending w' \<le> pending w"
proof -
  obtain rc line w1 where 1: "webclient_read_line 64 w = (rc, line, w1)" by (cases "webclient_read_line 64 w")
  obtain rc2 line2 w2 where 2: "webclient_read_line 64 w1 = (rc2, line2, w2)" by (cases "webclient_read_line 64 w1")
  have "pending w1 \<le> pending w" "pending w2 \<le> pending w1"
    using 1 2 read_line_loop_pending unfolding webclient_read_line_def by blast+
  then show ?thesis
    using assms 1 2 by (auto simp: webclient_next_chunk_def Let_def pending_def closesocket_def split: if_splits option.splits)
qed

lemma read_loop_pending: "read_loop left acc w = (bytes, w') \<Longrightarrow> pending w' + length bytes = pending w + length acc"
proof (induction left acc w rule: read_loop.induct)
  case (1 left acc w)
  obtain n bs w1 where r: "webclient_recv left w = (n, bs, w1)" by (cases "webclient_recv left w")
  have u: "read_loop left acc w = (if n \<le> 0 then (acc, w1)
      else if left \<le> nat n then (acc @ bs, w1) else read_loop (left - nat n) (acc @ bs) w1)"
    using r by (simp add: read_loop.simps [of left])
  show ?case
  proof (cases "n \<le> 0 \<or> left \<le> nat n")
    case True
    then show ?thesis
      using recv_pending [OF r] recv_nothing [OF r] "1.prems" unfolding u by (auto split: if_splits)
  next
    case False
    then have "pending w' + length bytes = pending w1 + length (acc @ bs)"
      using "1.IH" [OF r [symmetric] refl] "1.prems" unfolding u by simp
    then show ?thesis using recv_pending [OF r] by simp
  qed
qed

lemma webclient_read_pending:
  assumes "webclient_read len w = Some (n, bytes, w')" "0 < n"
  shows "pending w' < pending w"
proof -
  let ?c = "if int len > chunk_sz w - chunk_offset w then size_t (chunk_sz w - chunk_offset w) else len"
  let ?l = "if content_length w > 0 \<and> content_remainder w < len then content_remainder w else len"
  obtain k bs w1 where r: "webclient_recv ?c w = (k, bs, w1)" by (cases "webclient_recv ?c w")
  obtain bs2 w2 where l: "read_loop ?l [] w = (bs2, w2)" by (cases "read_loop ?l [] w")
  have c: "0 < k \<Longrightarrow> pending w1 < pending w" using recv_pending [OF r] recv_positive [OF r] by linarith
  have p: "bs2 \<noteq> [] \<Longrightarrow> pending w2 < pending w" using read_loop_pending [OF l] by (cases bs2) auto
  show ?thesis
  proof (cases "chunk_sz w = 0")
    case True
    then show ?thesis using assms l p
      by (auto simp: webclient_read_def Let_def pending_def split: if_splits)
  next
    case False
    have n: "pending (w1\<lparr>chunk_offset := x\<rparr>) = pending w1" for x by (simp add: pending_def)
    show ?thesis using False assms r c n next_chunk_pending
      by (fastforce simp: webclient_read_def Let_def split: if_splits)
  qed
qed

subsection \<open>Whole responses\<close>

text \<open>
  The loops of \<open>webclient_response\<close> and \<open>webclient_get_file\<close>: with a known length, \<open>left\<close> bytes in reads of at most
  \<open>cap\<close>; without, until the data end. The first component is what has been stored.
\<close>

function read_body :: "nat \<Rightarrow> nat \<Rightarrow> string \<Rightarrow> web \<Rightarrow> (string \<times> web) option" where
  "read_body cap left acc w =
     (if left = 0 then Some (acc, w)
      else
        case webclient_read (if cap < left then cap else left) w of
          None \<Rightarrow> None
        | Some (n, bytes, w') \<Rightarrow> if n \<le> 0 then Some (acc, w') else read_body cap (left - nat n) (acc @ bytes) w')"
  by pat_completeness auto
termination
  by (relation "measure (\<lambda>(cap, left, acc, w). pending w)") (auto dest: webclient_read_pending)

function read_all :: "nat \<Rightarrow> string \<Rightarrow> web \<Rightarrow> (string \<times> web) option" where
  "read_all cap acc w =
     (case webclient_read cap w of
        None \<Rightarrow> None
      | Some (n, bytes, w') \<Rightarrow> if n \<le> 0 then Some (acc, w') else read_all cap (acc @ bytes) w')"
  by pat_completeness auto
termination
  by (relation "measure (\<lambda>(cap, acc, w). pending w)") (auto dest: webclient_read_pending)

text \<open>Without a length the response grows by one reallocation for each read.\<close>

lemma pending_alloc: "web_alloc w = Some w' \<Longrightarrow> pending w' = pending w"
  by (auto simp: web_alloc_def pending_def split: if_splits)

function response_all :: "string \<Rightarrow> web \<Rightarrow> (string \<times> web) option" where
  "response_all acc w =
     (case web_alloc w of
        None \<Rightarrow> Some (acc, w)
      | Some w1 \<Rightarrow>
          (case webclient_read WEBCLIENT_RESPONSE_BUFSZ w1 of
             None \<Rightarrow> None
           | Some (n, bytes, w') \<Rightarrow> if n \<le> 0 then Some (acc, w') else response_all (acc @ bytes) w'))"
  by pat_completeness auto
termination
  by (relation "measure (\<lambda>(acc, w). pending w)") (fastforce dest: webclient_read_pending pending_alloc)+

declare read_body.simps [simp del] read_all.simps [simp del] response_all.simps [simp del]

text \<open>The size, the response, which is null when it is empty, and the new state.\<close>

definition webclient_response :: "web \<Rightarrow> (int \<times> string option \<times> web) option" where
  "webclient_response w =
     (let result = (\<lambda>(acc, w). (int (length acc), if acc = [] then None else Some acc, w))
      in if content_length w < 0 then map_option result (response_all [] w)
         else
           case web_alloc w of
             None \<Rightarrow> Some (err WEBCLIENT_NOMEM, None, w)
           | Some w \<Rightarrow> map_option result (read_body (nat (content_length w)) (nat (content_length w)) [] w))"

definition webclient_close :: "web \<Rightarrow> web" where
  "webclient_close w = (if 0 \<le> socket w then closesocket w else w)"

definition webclient_post :: "string \<Rightarrow> string option \<Rightarrow> web \<Rightarrow> (int \<times> web) option" where
  "webclient_post URI post_data w =
     (case webclient_connect URI w of
        None \<Rightarrow> None
      | Some (rc, w) \<Rightarrow>
          if rc \<noteq> 0 then Some (rc, w)
          else
            (case webclient_send_header WEBCLIENT_POST w of
               None \<Rightarrow> None
             | Some (rc, w) \<Rightarrow>
                 if rc \<noteq> 0 then Some (rc, w)
                 else
                   (case post_data of
                      None \<Rightarrow> Some (0, w)
                    | Some d \<Rightarrow> webclient_handle_response (snd (webclient_write d w)))))"

text \<open>Each call of \<open>webclient_get\<close> takes a connection, and without one it fails.\<close>

definition get_fuel :: "web \<Rightarrow> nat" where
  "get_fuel w = length (connections w) + 1"

subsection \<open>Requests in one call\<close>

text \<open>
  \<open>webclient_request_header_add\<close> appends to a text of \<open>WEBCLIENT_HEADER_BUFSZ\<close> bytes, which the first call allocates; what does
  not fit is cut.
\<close>

definition webclient_request_header_add :: "string option \<Rightarrow> string \<Rightarrow> web \<Rightarrow> int \<times> string option \<times> web" where
  "webclient_request_header_add request_header out w =
     (case (case request_header of
              Some header \<Rightarrow> Some (header, w)
            | None \<Rightarrow> map_option (\<lambda>w. (replicate WEBCLIENT_HEADER_BUFSZ NUL, w)) (web_alloc w)) of
        None \<Rightarrow> (0, None, w)
      | Some (header, w) \<Rightarrow>
          let n = length (c_string header);
              header = print_at n (WEBCLIENT_HEADER_BUFSZ - n) out header
          in if WEBCLIENT_HEADER_BUFSZ \<le> length (c_string header) then (err WEBCLIENT_ERROR, Some header, w)
             else (int (length out), Some header, w))"

text \<open>The lines of the header text of a request, each with its end; what follows the last line end is left out.\<close>

function header_lines :: "string \<Rightarrow> string list" where
  "header_lines s =
     (case rt_strstr s CRLF of
        None \<Rightarrow> []
      | Some p \<Rightarrow>
          let n = length s - length p + 2
          in take n s # header_lines (drop n s))"
  by pat_completeness auto
termination
proof (relation "measure length", goal_cases)
  case (2 s p n)
  then obtain u v where "s = u @ p" "p = CRLF @ v" using rt_strstr_Some by blast
  then show ?case using 2 by simp
qed simp

declare header_lines.simps [simp del]

text \<open>The request adds every line, whatever the result.\<close>

primrec add_all :: "string list \<Rightarrow> web \<Rightarrow> web option" where
  "add_all [] w = Some w"
| "add_all (l # ls) w =
     (case webclient_header_fields_add l w of None \<Rightarrow> None | Some (_, w) \<Rightarrow> add_all ls w)"

text \<open>What a request does with the answer: anything but status 200 and a response that is not empty is an error. Without a place
  for the response an assertion fails (\<open>None\<close>); a session that was freed by a redirection is closed again (\<open>None\<close>).\<close>

definition request_result :: "bool \<Rightarrow> (int \<times> web) option \<Rightarrow> (int \<times> string option) option" where
  "request_result response_ok r =
     (case r of
        None \<Rightarrow> None
      | Some (status, w) \<Rightarrow>
          if status \<noteq> 200 then Some (err WEBCLIENT_ERROR, None)
          else if \<not> response_ok then None
          else
            (case webclient_response w of
               None \<Rightarrow> None
             | Some (n, response, w) \<Rightarrow> Some (if n \<le> 0 then err WEBCLIENT_ERROR else n, response)))"

definition same_session :: "got option \<Rightarrow> (int \<times> web) option" where
  "same_session r = (case r of Some (Got rc w) \<Rightarrow> Some (rc, w) | _ \<Rightarrow> None)"

definition webclient_request ::
    "(nat \<Rightarrow> string) \<Rightarrow> string \<Rightarrow> string option \<Rightarrow> string option \<Rightarrow> bool \<Rightarrow> web \<Rightarrow> (int \<times> string option) option" where
  "webclient_request fresh URI header post_data response w =
     (if post_data = None \<and> \<not> response then Some (err WEBCLIENT_ERROR, None)
      else
        (case webclient_session_create (fresh (get_fuel w)) w of
           None \<Rightarrow> Some (err WEBCLIENT_NOMEM, None)
         | Some w \<Rightarrow>
             (case add_all (case header of None \<Rightarrow> [] | Some h \<Rightarrow> header_lines h) w of
                None \<Rightarrow> None
              | Some w \<Rightarrow>
                  (case post_data of
                     None \<Rightarrow> request_result response (same_session (webclient_get (get_fuel w) fresh URI w))
                   | Some d \<Rightarrow>
                       (case add_all (missing ''Content-Length'' (the (vformat (''Content-Length: %d'' @ CRLF) [Word (of_nat (length d))])) w) w of
                          None \<Rightarrow> None
                        | Some w \<Rightarrow>
                            (case add_all (missing ''Content-Type'' (''Content-Type: application/octet-stream'' @ CRLF) w) w of
                               None \<Rightarrow> None
                             | Some w \<Rightarrow> request_result response (webclient_post URI (Some d) w)))))))"

subsection \<open>Downloads\<close>

text \<open>
  \<open>webclient_get_file\<close>: the status and what has been passed to \<open>write\<close>, if the file was opened (the result of \<open>write\<close> is ignored). After a redirection the session that is read and
  closed has been freed.
\<close>

definition webclient_get_file :: "(nat \<Rightarrow> string) \<Rightarrow> string \<Rightarrow> bool \<Rightarrow> web \<Rightarrow> (int \<times> string option) option" where
  "webclient_get_file fresh URI file_ok w =
     (case webclient_session_create (fresh (get_fuel w)) w of
        None \<Rightarrow> Some (err WEBCLIENT_NOMEM, None)
      | Some w \<Rightarrow>
          (case webclient_get (get_fuel w) fresh URI w of
             None \<Rightarrow> None
           | Some (Gone rc w) \<Rightarrow> None
           | Some (Got rc w) \<Rightarrow>
               if rc \<noteq> 200 then Some (err WEBCLIENT_ERROR, None)
               else if \<not> file_ok then Some (err WEBCLIENT_ERROR, None)
               else
                 (case web_alloc w of
                    None \<Rightarrow> Some (err WEBCLIENT_NOMEM, Some [])
                  | Some w \<Rightarrow>
                      map_option (\<lambda>(bytes, w). (0, Some bytes))
                        (if content_length w < 0 then read_all WEBCLIENT_RESPONSE_BUFSZ [] w
                         else read_body WEBCLIENT_RESPONSE_BUFSZ (nat (content_length w)) [] w))))"

end
