(* ===== verification/WebStream.thy ===== *)
theory WebStream
  imports WebClient
begin

text \<open>
  What the HTTP client makes of the answer of a server. The answer is a stream of bytes that arrives in pieces of any size;
  \<open>flows\<close> says what is still to come. A line, a head and a body are read from the stream; the contract of a body
  (\<open>body_source\<close>) is stated once and holds for bodies with a length, bodies up to the end of the connection and chunked bodies.
\<close>

subsection \<open>The stream\<close>

definition flows :: "web \<Rightarrow> string \<Rightarrow> bool" where
  "flows w s \<longleftrightarrow> 0 \<le> socket w \<and> concat (rx w) = s \<and> [] \<notin> set (rx w)"

lemma flows_frame [simp]:
  "flows (w\<lparr>header_buffer := b\<rparr>) s = flows w s" "flows (w\<lparr>header_length := n\<rparr>) s = flows w s"
  "flows (w\<lparr>resp_status := i\<rparr>) s = flows w s" "flows (w\<lparr>chunk_sz := i\<rparr>) s = flows w s"
  "flows (w\<lparr>chunk_offset := i\<rparr>) s = flows w s" "flows (w\<lparr>content_length := i\<rparr>) s = flows w s"
  "flows (w\<lparr>content_remainder := n\<rparr>) s = flows w s" "flows (w\<lparr>memory := n\<rparr>) s = flows w s"
  by (simp_all add: flows_def)

lemma recv_end: "flows w [] \<Longrightarrow> webclient_recv n w = (if rx_end w = Closed then 0 else - 1, [], w)"
  by (cases "rx w") (auto simp: flows_def webclient_recv_def)

lemma recv_flow:
  assumes "flows w s" "s \<noteq> []" "0 < n"
  shows "\<exists>k ps. 0 < k \<and> k \<le> n \<and> k \<le> length s \<and> webclient_recv n w = (int k, take k s, w\<lparr>rx := ps\<rparr>)
           \<and> flows (w\<lparr>rx := ps\<rparr>) (drop k s)"
proof -
  from assms(1,2) obtain p ps where p: "rx w = p # ps" by (cases "rx w") (auto simp: flows_def)
  then have s: "s = p @ concat ps" "p \<noteq> []" "[] \<notin> set ps" "0 \<le> socket w" using assms(1) by (auto simp: flows_def)
  let ?ps = "if n < length p then drop n p # ps else ps"
  have l: "0 < length p" using s(2) by simp
  have "webclient_recv n w = (int (min n (length p)), take (min n (length p)) s, w\<lparr>rx := ?ps\<rparr>)"
    using p s by (simp add: webclient_recv_def min_def)
  moreover have "flows (w\<lparr>rx := ?ps\<rparr>) (drop (min n (length p)) s)"
    using s by (auto simp: flows_def min_def)
  ultimately show ?thesis
    using l assms(3) s(1) by - (rule exI [of _ "min n (length p)"], rule exI [of _ ?ps], simp)
qed

lemma recv_byte:
  assumes "flows w (c # s)"
  shows "\<exists>ps. webclient_recv (Suc 0) w = (1, [c], w\<lparr>rx := ps\<rparr>) \<and> flows (w\<lparr>rx := ps\<rparr>) s"
proof -
  from recv_flow [OF assms, of "Suc 0"] obtain k ps where k: "0 < k" "k \<le> Suc 0"
    "webclient_recv (Suc 0) w = (int k, take k (c # s), w\<lparr>rx := ps\<rparr>)" "flows (w\<lparr>rx := ps\<rparr>) (drop k (c # s))" by auto
  then have "k = Suc 0" by simp
  with k(3,4) show ?thesis by (intro exI [of _ ps]) simp
qed

subsection \<open>Lines\<close>

lemma read_line_loop_line:
  assumes "flows w (l @ CRLF @ s)" "CHR 0x0A \<notin> set l" "length l + 2 \<le> k"
  shows "\<exists>ps. read_line_loop k acc c w = (int (length acc + length l + 1), acc @ l @ [CHR 0x0D], w\<lparr>rx := ps\<rparr>)
           \<and> flows (w\<lparr>rx := ps\<rparr>) s"
  using assms
proof (induction l arbitrary: k acc c w)
  case Nil
  then have "2 \<le> k" by simp
  from le_Suc_ex [OF this] obtain j where k: "k = Suc (Suc j)" by auto
  have "flows w (CHR 0x0D # CHR 0x0A # s)" using Nil.prems(1) by simp
  from recv_byte [OF this] obtain ps where
    1: "webclient_recv (Suc 0) w = (1, [CHR 0x0D], w\<lparr>rx := ps\<rparr>)" "flows (w\<lparr>rx := ps\<rparr>) (CHR 0x0A # s)" by blast
  from recv_byte [OF 1(2)] obtain qs where
    2: "webclient_recv (Suc 0) (w\<lparr>rx := ps\<rparr>) = (1, [CHR 0x0A], w\<lparr>rx := qs\<rparr>)" "flows (w\<lparr>rx := qs\<rparr>) s" by auto
  show ?case using 1 2 k by (intro exI [of _ qs]) simp
next
  case (Cons d l)
  then obtain j where k: "k = Suc j" by (cases k) auto
  have "flows w (d # l @ CRLF @ s)" using Cons.prems(1) by simp
  from recv_byte [OF this] obtain ps where
    1: "webclient_recv (Suc 0) w = (1, [d], w\<lparr>rx := ps\<rparr>)" "flows (w\<lparr>rx := ps\<rparr>) (l @ CRLF @ s)" by blast
  have "CHR 0x0A \<notin> set l" "length l + 2 \<le> j" using Cons.prems k by auto
  from Cons.IH [OF 1(2) this, of "acc @ [d]" d] obtain qs where
    2: "read_line_loop j (acc @ [d]) d (w\<lparr>rx := ps\<rparr>)
          = (int (length acc + 1 + length l + 1), acc @ d # l @ [CHR 0x0D], w\<lparr>rx := qs\<rparr>)" "flows (w\<lparr>rx := qs\<rparr>) s" by auto
  have "d \<noteq> CHR 0x0A" using Cons.prems by auto
  then show ?case using 1 2 k by (intro exI [of _ qs]) simp
qed

lemma read_line:
  assumes "flows w (l @ CRLF @ s)" "CHR 0x0A \<notin> set l" "length l + 2 \<le> k"
  shows "\<exists>ps. webclient_read_line k w = (int (length l + 1), l @ [CHR 0x0D], w\<lparr>rx := ps\<rparr>) \<and> flows (w\<lparr>rx := ps\<rparr>) s"
  using read_line_loop_line [OF assms, of "[]" NUL] unfolding webclient_read_line_def by simp

subsection \<open>The head of an answer\<close>

text \<open>A head is a list of lines, without the empty line at its end: as it is sent, and as it lies in the header buffer.\<close>

definition head_bytes :: "string list \<Rightarrow> string" where
  "head_bytes ls = concat (map (\<lambda>l. l @ CRLF) ls) @ CRLF"

definition head_mem :: "string list \<Rightarrow> string" where
  "head_mem ls = concat (map (\<lambda>l. l @ [NUL]) ls)"

definition good_line :: "string \<Rightarrow> bool" where
  "good_line l \<longleftrightarrow> l \<noteq> [] \<and> NUL \<notin> set l \<and> CHR 0x0A \<notin> set l"

definition zeros :: "nat \<Rightarrow> string" where
  "zeros n = replicate n NUL"

lemma head_mem_simps [simp]: "head_mem [] = []" "head_mem (l # ls) = l @ NUL # head_mem ls" "head_mem (ls @ ms) = head_mem ls @ head_mem ms"
  by (simp_all add: head_mem_def)

text \<open>The state while the head is read: the lines so far and cleared bytes.\<close>

definition with_head :: "string list \<Rightarrow> nat \<Rightarrow> string list \<Rightarrow> web \<Rightarrow> web" where
  "with_head ls sz ps w = w\<lparr>rx := ps, header_buffer := head_mem ls @ zeros (sz - length (head_mem ls)),
     header_length := length (head_mem ls)\<rparr>"

lemma overwrite_zeros:
  assumes "length l + k \<le> n"
  shows "overwrite (length m) l (m @ zeros n) = m @ l @ zeros (n - length l)"
  using assms by (simp add: overwrite_def zeros_def)

lemma line_end_zero: "(m @ l @ c # z)[length m + length l := NUL] = m @ l @ NUL # z"
  by (simp add: list_update_append)

lemma header_line_read:
  assumes f: "flows (with_head past sz ps w) (l @ CRLF @ s)" and g: "good_line l" and room: "length (head_mem past) + length l + 2 \<le> sz"
  shows "\<exists>qs. header_line (with_head past sz ps w) = Inr (with_head (past @ [l]) sz qs w) \<and> flows (with_head (past @ [l]) sz qs w) s"
proof -
  let ?w = "with_head past sz ps w" and ?n = "length (head_mem past)"
  have h: "header_size ?w = sz" "header_length ?w = ?n" using room by (simp_all add: with_head_def header_size_def zeros_def)
  have "CHR 0x0A \<notin> set l" "length l + 2 \<le> sz - ?n" using g room by (auto simp: good_line_def)
  from read_line [OF f this] obtain qs where
    1: "webclient_read_line (sz - ?n) ?w = (int (length l + 1), l @ [CHR 0x0D], ?w\<lparr>rx := qs\<rparr>)" and 2: "flows (?w\<lparr>rx := qs\<rparr>) s" by blast
  have b: "overwrite ?n (l @ [CHR 0x0D]) (head_mem past @ zeros (sz - ?n)) = head_mem past @ l @ CHR 0x0D # zeros (sz - ?n - length l - 1)"
    using overwrite_zeros [of "l @ [CHR 0x0D]" 0 "sz - ?n" "head_mem past"] room by simp
  have ne: "l \<noteq> []" using g by (simp add: good_line_def)
  have "header_line ?w = Inr (with_head (past @ [l]) sz qs w)"
    unfolding header_line_def h 1 Let_def
    using ne room b by (simp add: with_head_def line_end_zero header_size_def zeros_def nat_add_distrib)
  moreover have "flows (with_head (past @ [l]) sz qs w) s" using 2 by (simp add: with_head_def flows_def)
  ultimately show ?thesis by blast
qed

lemma header_line_end:
  assumes f: "flows (with_head ls sz ps w) (CRLF @ s)" and room: "length (head_mem ls) + 2 \<le> sz"
  shows "\<exists>qs. header_line (with_head ls sz ps w) = Inl (Some 1, with_head ls sz qs w) \<and> flows (with_head ls sz qs w) s"
proof -
  let ?w = "with_head ls sz ps w" and ?n = "length (head_mem ls)"
  have h: "header_size ?w = sz" "header_length ?w = ?n" using room by (simp_all add: with_head_def header_size_def zeros_def)
  have "flows ?w ([] @ CRLF @ s)" "length [] + 2 \<le> sz - ?n" using f room by simp_all
  from read_line [OF this(1) _ this(2)] obtain qs where
    1: "webclient_read_line (sz - ?n) ?w = (1, [CHR 0x0D], ?w\<lparr>rx := qs\<rparr>)" and 2: "flows (?w\<lparr>rx := qs\<rparr>) s" by auto
  have b: "overwrite ?n [CHR 0x0D] (head_mem ls @ zeros (sz - ?n)) = head_mem ls @ CHR 0x0D # zeros (sz - ?n - 1)"
    using overwrite_zeros [of "[CHR 0x0D]" 0 "sz - ?n" "head_mem ls"] room by simp
  have z: "(head_mem ls @ CHR 0x0D # zeros (sz - ?n - 1))[?n := NUL] = head_mem ls @ zeros (sz - ?n)"
    using room by (cases "sz - ?n") (simp_all add: list_update_append zeros_def)
  have "header_line ?w = Inl (Some 1, with_head ls sz qs w)"
    unfolding header_line_def h 1 Let_def using b z by (simp add: with_head_def)
  moreover have "flows (with_head ls sz qs w) s" using 2 by (simp add: with_head_def flows_def)
  ultimately show ?thesis by blast
qed

lemma header_loop_read:
  assumes "flows (with_head past sz ps w) (head_bytes ls @ s)" "list_all good_line ls"
    "length (head_mem (past @ ls)) + 2 \<le> sz"
  shows "\<exists>qs. header_loop (with_head past sz ps w) = (Some 1, with_head (past @ ls) sz qs w)
           \<and> flows (with_head (past @ ls) sz qs w) s"
  using assms
proof (induction ls arbitrary: past ps)
  case Nil
  then have "flows (with_head past sz ps w) (CRLF @ s)" "length (head_mem past) + 2 \<le> sz" by (simp_all add: head_bytes_def)
  from header_line_end [OF this] show ?case by (auto simp: header_loop.simps [of "with_head past sz ps w"])
next
  case (Cons l ls)
  then have "flows (with_head past sz ps w) (l @ CRLF @ head_bytes ls @ s)" "good_line l" "length (head_mem past) + length l + 2 \<le> sz"
    by (simp_all add: head_bytes_def)
  from header_line_read [OF this] obtain qs where
    1: "header_line (with_head past sz ps w) = Inr (with_head (past @ [l]) sz qs w)"
    and 2: "flows (with_head (past @ [l]) sz qs w) (head_bytes ls @ s)" by blast
  have "list_all good_line ls" "length (head_mem ((past @ [l]) @ ls)) + 2 \<le> sz" using Cons.prems by simp_all
  from Cons.IH [OF 2 this] show ?case using 1 by (simp add: header_loop.simps [of "with_head past sz ps w"])
qed

text \<open>The status line and the fields, as a reader of the head sees them.\<close>

definition status_line :: "char \<Rightarrow> string \<Rightarrow> string \<Rightarrow> string" where
  "status_line v code reason = ''HTTP/1.'' @ [v] @ '' '' @ code @ '' '' @ reason"

definition no_blank :: "string \<Rightarrow> bool" where
  "no_blank s \<longleftrightarrow> list_all (\<lambda>c. \<not> is_blank c) s"

lemma status_of_line:
  assumes "no_blank code" "code \<noteq> []"
  shows "status_of (status_line v code reason) = Some (Some (atoi code))"
proof -
  have d: "dropWhile is_blank (CHR '' '' # code @ CHR '' '' # reason) = code @ CHR '' '' # reason"
    using assms by (cases code) (simp_all add: is_blank_def no_blank_def)
  have t: "takeWhile (\<lambda>c. \<not> is_blank c) (code @ CHR '' '' # reason) = code"
    using assms(1) by (induction code) (simp_all add: is_blank_def no_blank_def)
  have n: "\<not> list_all (\<lambda>c. \<not> is_blank c) (code @ CHR '' '' # reason)" by (simp add: is_blank_def)
  have h: "rt_strstr (status_line v code reason) ''HTTP/1.'' \<noteq> None"
    using rt_strstr_head [of "''HTTP/1.''" "[v] @ '' '' @ code @ '' '' @ reason"] by (simp add: status_line_def)
  have l: "\<not> length (status_line v code reason) < 8" by (simp add: status_line_def)
  have e: "drop 8 (status_line v code reason) = CHR '' '' # code @ CHR '' '' # reason" by (simp add: status_line_def)
  show ?thesis unfolding status_of_def e Let_def d using h l n t by simp
qed

definition has_field :: "string \<Rightarrow> string \<Rightarrow> bool" where
  "has_field key l \<longleftrightarrow> rt_strstr l key \<noteq> None \<and> CHR '':'' \<in> set l"

definition field_value :: "string \<Rightarrow> string" where
  "field_value l = dropWhile is_blank (tl (dropWhile (\<lambda>c. c \<noteq> CHR '':'') l))"

definition field_of :: "string \<Rightarrow> string list \<Rightarrow> string option" where
  "field_of key ls = map_option field_value (find (has_field key) ls)"

lemma fields_get_loop_zeros:
  assumes "0 < z"
  shows "fields_get_loop key len (zeros z) k = Some None"
proof -
  obtain y where z: "z = Suc y" using assms by (cases z) auto
  have "rt_strstr [] '':'' = None" by (simp add: rt_strstr.simps)
  then show ?thesis using z
    unfolding fields_get_loop.simps [of key len "zeros z" k] by (simp add: zeros_def c_string_def split: option.split)
qed

lemma fields_get_loop_read:
  assumes "list_all good_line ls" "0 < z" "k + length (head_mem (tl ls)) < len"
  shows "fields_get_loop key len (head_mem ls @ zeros z) k = Some (field_of key ls)"
  using assms
proof (induction ls arbitrary: k)
  case Nil
  then show ?case by (simp add: fields_get_loop_zeros field_of_def)
next
  case (Cons l ls)
  let ?buf = "head_mem (l # ls) @ zeros z"
  have g: "l \<noteq> []" "NUL \<notin> set l" using Cons.prems by (simp_all add: good_line_def)
  then have c: "c_string ?buf = l" by simp
  have d: "drop (length l + 1) ?buf = head_mem ls @ zeros z" by simp
  have n: "NUL \<in> set (head_mem ls @ zeros z)" using Cons.prems by (simp add: zeros_def)
  show ?case
  proof (cases "has_field key l")
    case True
    then show ?thesis using c g Cons.prems
      by (subst fields_get_loop.simps) (auto simp: has_field_def field_of_def field_value_def rt_strstr_char)
  next
    case False
    then have u: "fields_get_loop key len ?buf k
        = fields_get_loop key len (head_mem ls @ zeros z) (k + length (c_string (head_mem ls @ zeros z)) + 1)"
      using c g n Cons.prems d
      by (subst fields_get_loop.simps) (auto simp: has_field_def rt_strstr_char Let_def split: option.split)
    show ?thesis
    proof (cases ls)
      case Nil
      then show ?thesis using u False fields_get_loop_zeros [OF Cons.prems(2)] by (simp add: field_of_def)
    next
      case (Cons m ms)
      then have "NUL \<notin> set m" using Cons.prems by (simp add: good_line_def)
      then have c: "c_string (head_mem ls @ zeros z) = m" using Cons by simp
      have "k + length m + 1 + length (head_mem (tl ls)) < len" using Cons.prems(3) Cons by simp
      then show ?thesis using Cons.IH [of "k + length m + 1"] Cons.prems(1,2) u c False by (simp add: field_of_def)
    qed
  qed
qed

lemma fields_get_read:
  assumes "list_all good_line ls" "header_buffer w = head_mem ls @ zeros z" "header_length w = length (head_mem ls)" "0 < z"
  shows "webclient_header_fields_get key w = Some (field_of key ls)"
proof (cases ls)
  case Nil
  then show ?thesis using assms by (simp add: webclient_header_fields_get_def fields_get_loop_zeros field_of_def)
next
  case (Cons l ms)
  then have "0 + length (head_mem (tl ls)) < header_length w" using assms by simp
  from fields_get_loop_read [OF assms(1,4) this] show ?thesis using assms by (simp add: webclient_header_fields_get_def)
qed

text \<open>The session after an answer with status \<open>code\<close> and the head \<open>ls\<close>.\<close>

definition declared_length :: "string list \<Rightarrow> int \<Rightarrow> int" where
  "declared_length ls old = (case field_of ''Content-Length'' ls of None \<Rightarrow> old | Some v \<Rightarrow> atoi v)"

definition answered :: "string list \<Rightarrow> int \<Rightarrow> string list \<Rightarrow> web \<Rightarrow> web" where
  "answered ls status ps w = (with_head ls (header_size w) ps w)\<lparr>memory := memory w - 1, resp_status := status,
     content_length := declared_length ls (content_length w),
     content_remainder := (if declared_length ls (content_length w) \<noteq> 0
                           then size_t (declared_length ls (content_length w)) else 2 ^ 32 - 1)\<rparr>"

definition chunked :: "string list \<Rightarrow> bool" where
  "chunked ls \<longleftrightarrow> field_of ''Transfer-Encoding'' ls = Some ''chunked''"

definition good_head :: "nat \<Rightarrow> string list \<Rightarrow> bool" where
  "good_head sz ls \<longleftrightarrow> list_all good_line ls \<and> length (head_mem ls) + 2 \<le> sz"

lemma handle_response_head:
  assumes f: "flows w (head_bytes ls @ s)" and ls: "ls = status_line v code reason # fs" and g: "good_head (header_size w) ls"
    and code: "no_blank code" "code \<noteq> []" and m: "0 < memory w"
  shows "\<exists>ps. flows (answered ls (atoi code) ps w) s \<and>
    webclient_handle_response w =
      (if chunked ls then
         (case first_chunk (answered ls (atoi code) ps w) of None \<Rightarrow> None | Some w \<Rightarrow> Some (resp_status w, w))
       else Some (atoi code, answered ls (atoi code) ps w))"
proof -
  have good: "list_all good_line ls" and room: "length (head_mem ls) + 2 \<le> header_size w" using g by (simp_all add: good_head_def)
  let ?sz = "header_size w"
  have w0: "w\<lparr>header_buffer := replicate ?sz NUL, header_length := 0\<rparr> = with_head [] ?sz (rx w) w"
    by (simp add: with_head_def zeros_def)
  have "flows (with_head [] ?sz (rx w) w) (head_bytes ls @ s)" using f by (simp add: with_head_def)
  from header_loop_read [OF this good] room obtain ps where
    1: "header_loop (with_head [] ?sz (rx w) w) = (Some 1, with_head ls ?sz ps w)" and 2: "flows (with_head ls ?sz ps w) s" by auto
  let ?w1 = "with_head ls ?sz ps w"
  have a: "web_alloc ?w1 = Some (?w1\<lparr>memory := memory w - 1\<rparr>)" using m by (simp add: web_alloc_def with_head_def)
  have "NUL \<notin> set (status_line v code reason)" using good ls by (simp add: good_line_def)
  then have t: "header_text (?w1\<lparr>memory := memory w - 1\<rparr>) = status_line v code reason"
    using ls by (simp add: header_text_def with_head_def)
  have z: "0 < ?sz - length (head_mem ls)" using room by linarith
  have fl: "webclient_header_fields_get key x = Some (field_of key ls)"
    if "header_buffer x = head_mem ls @ zeros (?sz - length (head_mem ls))" "header_length x = length (head_mem ls)" for key x
    using fields_get_read [OF good that z] .
  have c: "set_lengths (?w1\<lparr>memory := memory w - 1, resp_status := atoi code\<rparr>) =
    (if chunked ls then first_chunk (answered ls (atoi code) ps w) else Some (answered ls (atoi code) ps w))"
  proof (cases "field_of ''Content-Length'' ls")
    case None
    then have "answered ls (atoi code) ps w = ?w1\<lparr>memory := memory w - 1, resp_status := atoi code,
        content_remainder := (if content_length w \<noteq> 0 then size_t (content_length w) else 2 ^ 32 - 1)\<rparr>"
      by (simp add: with_head_def answered_def declared_length_def)
    then show ?thesis using None unfolding set_lengths_def by (simp add: fl with_head_def chunked_def Let_def)
  next
    case (Some v)
    then show ?thesis unfolding set_lengths_def
      by (simp add: fl with_head_def answered_def declared_length_def chunked_def Let_def)
  qed
  have "flows (answered ls (atoi code) ps w) s" using 2 by (simp add: answered_def flows_def)
  moreover have "resp_status (answered ls (atoi code) ps w) = atoi code" by (simp add: answered_def)
  ultimately show ?thesis unfolding webclient_handle_response_def w0 1
    using a t c status_of_line [OF code] by (intro exI [of _ ps]) (simp split: option.split)
qed

subsection \<open>Chunk sizes\<close>

definition hex_digits :: "string \<Rightarrow> bool" where
  "hex_digits h \<longleftrightarrow> list_all (\<lambda>c. hex_value c \<noteq> None) h"

lemma hex_value_excludes: "hex_value c \<noteq> None \<Longrightarrow> \<not> is_space c \<and> c \<notin> set ''-+xX'' \<and> c \<noteq> CHR 0x0D \<and> c \<noteq> CHR 0x0A \<and> c \<noteq> NUL"
proof -
  have "(of_char c :: int) = int (of_char c)" by (simp add: of_nat_of_char)
  then show "hex_value c \<noteq> None \<Longrightarrow> ?thesis" by (auto simp: hex_value_def is_space_def Let_def split: if_splits)
qed

lemma strtol16_line:
  assumes "hex_digits h" "h \<noteq> []"
  shows "strtol16 (h @ CHR 0x0D # z) = Some (clamp (hex_number h))"
proof -
  obtain c t where h: "h = c # t" using assms(2) by (cases h) auto
  have x: "hex_value c \<noteq> None" "\<And>d. d \<in> set t \<Longrightarrow> hex_value d \<noteq> None" using assms(1) h by (auto simp: hex_digits_def list_all_iff)
  note e = hex_value_excludes [OF x(1)]
  have p: "take 2 (h @ CHR 0x0D # z) \<noteq> ''0x''" "take 2 (h @ CHR 0x0D # z) \<noteq> ''0X''"
    using h x hex_value_excludes [of "hd t"] by (cases t; simp; metis)+
  have t: "takeWhile (\<lambda>c. hex_value c \<noteq> None) (h @ CHR 0x0D # z) = h"
    using assms(1) by (subst takeWhile_append2) (auto simp: hex_digits_def list_all_iff hex_value_def)
  define S where "S = h @ CHR 0x0D # z"
  have "dropWhile is_space S = S" "S \<noteq> []" "hd S \<noteq> CHR ''-''" "hd S \<noteq> CHR ''+''" "length h \<noteq> length S"
    using e h by (auto simp: S_def)
  then show ?thesis using p t unfolding S_def [symmetric] by (simp add: strtol16_def Let_def)
qed

subsection \<open>Bodies\<close>

text \<open>
  The contract of a body: \<open>body w s\<close> says that \<open>s\<close> is what is left of it. A read gives a non-empty part of it as long as there is
  any, and nothing at its end.
\<close>

locale body_source =
  fixes body :: "web \<Rightarrow> string \<Rightarrow> bool"
  assumes read_some: "\<And>w s len. body w s \<Longrightarrow> s \<noteq> [] \<Longrightarrow> 0 < len \<Longrightarrow>
      \<exists>k w'. 0 < k \<and> k \<le> len \<and> k \<le> length s \<and> webclient_read len w = Some (int k, take k s, w') \<and> body w' (drop k s)
             \<and> memory w' = memory w"
    and read_end: "\<And>w len. body w [] \<Longrightarrow> 0 < len \<Longrightarrow> \<exists>n w'. n \<le> 0 \<and> webclient_read len w = Some (n, [], w')"
    and any_memory: "\<And>w s m. body w s \<Longrightarrow> body (w\<lparr>memory := m\<rparr>) s"
begin

lemma read_all_body: "body w s \<Longrightarrow> 0 < cap \<Longrightarrow> \<exists>w'. read_all cap acc w = Some (acc @ s, w')"
proof (induction "length s" arbitrary: acc w s rule: less_induct)
  case less
  show ?case
  proof (cases "s = []")
    case True
    then obtain n w' where "n \<le> 0" "webclient_read cap w = Some (n, [], w')" using read_end less.prems by blast
    then show ?thesis using True by (subst read_all.simps) simp
  next
    case False
    from read_some [OF less.prems(1) False less.prems(2)] obtain k w' where
      k: "0 < k" "k \<le> length s" "webclient_read cap w = Some (int k, take k s, w')" "body w' (drop k s)" by blast
    then have "length (drop k s) < length s" by simp
    from less.hyps [OF this k(4) less.prems(2), of "acc @ take k s"] show ?thesis
      using k by (subst read_all.simps) simp
  qed
qed

lemma read_body_body: "body w s \<Longrightarrow> 0 < cap \<Longrightarrow> \<exists>w'. read_body cap left acc w = Some (acc @ take left s, w')"
proof (induction left arbitrary: acc w s rule: less_induct)
  case (less left)
  show ?case
  proof (cases "left = 0")
    case True
    then show ?thesis by (subst read_body.simps) simp
  next
    case False
    then have l: "0 < (if cap < left then cap else left)" using less.prems(2) by simp
    show ?thesis
    proof (cases "s = []")
      case True
      then obtain n w' where "n \<le> 0" "webclient_read (if cap < left then cap else left) w = Some (n, [], w')"
        using read_end [OF _ l] less.prems(1) by blast
      then show ?thesis using True False by (subst read_body.simps) simp
    next
      case s: False
      from read_some [OF less.prems(1) s l] obtain k w' where
        k: "0 < k" "k \<le> (if cap < left then cap else left)" "k \<le> length s"
        "webclient_read (if cap < left then cap else left) w = Some (int k, take k s, w')" "body w' (drop k s)" by blast
      have kl: "k \<le> left" using k(2) by (simp split: if_splits)
      have a: "acc @ take left s = (acc @ take k s) @ take (left - k) (drop k s)" using kl by (simp add: take_add [symmetric] flip: take_add)
      have "left - k < left" using k(1) False by simp
      from less.IH [OF this k(5) less.prems(2), of "acc @ take k s"] show ?thesis
        unfolding a using k(1,4) False by (subst read_body.simps) simp
    qed
  qed
qed

lemma response_all_body: "body w s \<Longrightarrow> length s < memory w \<Longrightarrow> \<exists>w'. response_all acc w = Some (acc @ s, w')"
proof (induction "length s" arbitrary: acc w s rule: less_induct)
  case less
  let ?w = "w\<lparr>memory := memory w - 1\<rparr>"
  have a: "web_alloc w = Some ?w" using less.prems(2) by (simp add: web_alloc_def)
  have b: "body ?w s" by (rule any_memory [OF less.prems(1)])
  have c: "0 < WEBCLIENT_RESPONSE_BUFSZ" by (simp add: WEBCLIENT_RESPONSE_BUFSZ_def)
  show ?case
  proof (cases "s = []")
    case True
    then obtain n w' where "n \<le> 0" "webclient_read WEBCLIENT_RESPONSE_BUFSZ ?w = Some (n, [], w')"
      using read_end [OF _ c] b by blast
    then show ?thesis using True a by (subst response_all.simps) simp
  next
    case False
    from read_some [OF b False c] obtain k w' where
      k: "0 < k" "k \<le> length s" "webclient_read WEBCLIENT_RESPONSE_BUFSZ ?w = Some (int k, take k s, w')" "body w' (drop k s)"
      "memory w' = memory w - 1" by auto
    then have "length (drop k s) < length s" "length (drop k s) < memory w'" using less.prems(2) by auto
    from less.hyps [OF this(1) k(4) this(2), of "acc @ take k s"] show ?thesis
      using k a by (subst response_all.simps) simp
  qed
qed

end

text \<open>The loop over \<open>recv\<close> fills its buffer or takes all there is.\<close>

lemma read_loop_flow:
  assumes "flows w s" "0 < left"
  shows "\<exists>ps. read_loop left acc w = (acc @ take left s, w\<lparr>rx := ps\<rparr>) \<and> flows (w\<lparr>rx := ps\<rparr>) (drop left s)"
  using assms
proof (induction left arbitrary: acc w s rule: less_induct)
  case (less left)
  show ?case
  proof (cases "s = []")
    case True
    then have "flows w []" "w\<lparr>rx := rx w\<rparr> = w" using less.prems by simp_all
    then show ?thesis using True recv_end [of w left]
      by (intro exI [of _ "rx w"]) (subst read_loop.simps, simp)
  next
    case False
    from recv_flow [OF less.prems(1) False less.prems(2)] obtain k ps where
      k: "0 < k" "k \<le> left" "webclient_recv left w = (int k, take k s, w\<lparr>rx := ps\<rparr>)" "flows (w\<lparr>rx := ps\<rparr>) (drop k s)" by blast
    show ?thesis
    proof (cases "k = left")
      case True
      then show ?thesis using k by (intro exI [of _ ps]) (subst read_loop.simps, simp)
    next
      case ne: False
      then have "left - k < left" "0 < left - k" using k by simp_all
      from less.IH [OF this(1) k(4) this(2), of "acc @ take k s"] obtain qs where
        q: "read_loop (left - k) (acc @ take k s) (w\<lparr>rx := ps\<rparr>) = ((acc @ take k s) @ take (left - k) (drop k s), w\<lparr>rx := qs\<rparr>)"
        "flows (w\<lparr>rx := qs\<rparr>) (drop left s)" using k(2) by auto
      have "take k s @ take (left - k) (drop k s) = take left s" using k(2) by (simp flip: take_add)
      then show ?thesis using k q ne by (intro exI [of _ qs]) (subst read_loop.simps, simp)
    qed
  qed
qed

text \<open>A body up to the end of the connection.\<close>

definition open_body :: "web \<Rightarrow> string \<Rightarrow> bool" where
  "open_body w s \<longleftrightarrow> flows w s \<and> chunk_sz w = 0 \<and> content_length w \<le> 0"

text \<open>A body with a length: what the stream still gives of it.\<close>

definition sized_body :: "web \<Rightarrow> string \<Rightarrow> bool" where
  "sized_body w s \<longleftrightarrow> flows w (concat (rx w)) \<and> chunk_sz w = 0 \<and> 0 < content_length w
     \<and> s = take (content_remainder w) (concat (rx w))"

lemma flows_socket: "flows w s \<Longrightarrow> 0 \<le> socket w"
  by (simp add: flows_def)

lemma read_open:
  assumes "open_body w s" "0 < len"
  shows "\<exists>ps. flows (w\<lparr>rx := ps\<rparr>) (drop len s) \<and>
    (if s = [] then \<exists>n w'. n \<le> 0 \<and> webclient_read len w = Some (n, [], w')
     else webclient_read len w = Some (int (length (take len s)), take len s, w\<lparr>rx := ps\<rparr>))"
proof -
  have f: "flows w s" "chunk_sz w = 0" "content_length w \<le> 0" using assms(1) by (simp_all add: open_body_def)
  from read_loop_flow [OF f(1) assms(2), of "[]"] obtain ps where
    l: "read_loop len [] w = (take len s, w\<lparr>rx := ps\<rparr>)" "flows (w\<lparr>rx := ps\<rparr>) (drop len s)" by auto
  show ?thesis using f l assms(2) flows_socket [OF f(1)]
    by (intro exI [of _ ps]) (simp add: webclient_read_def)
qed

interpretation open_source: body_source open_body
proof
  fix w s and len :: nat
  assume b: "open_body w s" "s \<noteq> []" "0 < len"
  from read_open [OF b(1,3)] b(2) obtain ps where
    p: "flows (w\<lparr>rx := ps\<rparr>) (drop len s)" "webclient_read len w = Some (int (length (take len s)), take len s, w\<lparr>rx := ps\<rparr>)" by auto
  have "drop (length (take len s)) s = drop len s" "take (length (take len s)) s = take len s" by (simp_all add: min_def)
  then show "\<exists>k w'. 0 < k \<and> k \<le> len \<and> k \<le> length s \<and> webclient_read len w = Some (int k, take k s, w') \<and> open_body w' (drop k s)
      \<and> memory w' = memory w"
    using p b by (intro exI [of _ "length (take len s)"] exI [of _ "w\<lparr>rx := ps\<rparr>"]) (simp add: open_body_def)
next
  fix w and len :: nat
  assume b: "open_body w []" "0 < len"
  from read_open [OF this] show "\<exists>n w'. n \<le> 0 \<and> webclient_read len w = Some (n, [], w')" by auto
next
  show "open_body w s \<Longrightarrow> open_body (w\<lparr>memory := m\<rparr>) s" for w s m by (simp add: open_body_def)
qed

lemma read_sized:
  assumes "sized_body w s" "0 < len" "s \<noteq> []"
  shows "\<exists>ps. webclient_read len w = Some (int (length (take len s)), take len s,
            w\<lparr>rx := ps, content_remainder := content_remainder w - length (take len s)\<rparr>)
    \<and> sized_body (w\<lparr>rx := ps, content_remainder := content_remainder w - length (take len s)\<rparr>) (drop len s)"
proof -
  let ?t = "concat (rx w)" and ?r = "content_remainder w"
  let ?l = "if ?r < len then ?r else len"
  have f: "flows w ?t" "chunk_sz w = 0" "0 < content_length w" "s = take ?r ?t" using assms(1) by (simp_all add: sized_body_def)
  have l: "0 < ?l" using assms(2,3) f(4) by auto
  from read_loop_flow [OF f(1) l, of "[]"] obtain ps where
    p: "read_loop ?l [] w = (take ?l ?t, w\<lparr>rx := ps\<rparr>)" "flows (w\<lparr>rx := ps\<rparr>) (drop ?l ?t)" by auto
  have t: "take ?l ?t = take len s" using f(4) by (simp add: min_def)
  obtain b where b: "b = take len s" "b \<noteq> []" using assms(2,3) by simp
  have d: "drop len s = take (?r - length (take len s)) (concat ps)"
    using p(2) f(4) by (auto simp: flows_def drop_take min_def)
  have p1: "read_loop ?l [] w = (b, w\<lparr>rx := ps\<rparr>)" using p(1) t b by simp
  have r: "webclient_read len w = Some (int (length b), b, w\<lparr>rx := ps, content_remainder := ?r - length b\<rparr>)"
    using p1 f(2,3) l b(2) flows_socket [OF f(1)] assms(2) by (simp add: webclient_read_def)
  have "flows (w\<lparr>rx := ps\<rparr>) (concat ps)" using p(2) by (simp add: flows_def)
  then show ?thesis using r d f unfolding b(1) by (intro exI [of _ ps]) (simp add: sized_body_def)
qed

lemma read_sized_end:
  assumes "sized_body w []" "0 < len"
  shows "\<exists>n w'. n \<le> 0 \<and> webclient_read len w = Some (n, [], w')"
proof -
  have f: "flows w (concat (rx w))" "chunk_sz w = 0" "0 < content_length w" "content_remainder w = 0 \<or> concat (rx w) = []"
    using assms(1) by (auto simp: sized_body_def)
  show ?thesis
  proof (cases "content_remainder w = 0")
    case True
    then show ?thesis using f assms(2) flows_socket [OF f(1)] by (simp add: webclient_read_def)
  next
    case False
    let ?l = "if content_remainder w < len then content_remainder w else len"
    have l: "0 < ?l" "flows w []" using False assms(2) f(1,4) by (simp, metis)
    from read_loop_flow [OF l(2,1), of "[]"] obtain ps where "read_loop ?l [] w = ([], w\<lparr>rx := ps\<rparr>)" by auto
    then show ?thesis using f l flows_socket [OF f(1)] assms(2) by (simp add: webclient_read_def)
  qed
qed

interpretation sized_source: body_source sized_body
proof
  fix w s and len :: nat
  assume b: "sized_body w s" "s \<noteq> []" "0 < len"
  from read_sized [OF b(1,3,2)] obtain w' where
    p: "sized_body w' (drop len s)" "webclient_read len w = Some (int (length (take len s)), take len s, w')" "memory w' = memory w" by auto
  have "drop (length (take len s)) s = drop len s" "take (length (take len s)) s = take len s" by (simp_all add: min_def)
  then show "\<exists>k w'. 0 < k \<and> k \<le> len \<and> k \<le> length s \<and> webclient_read len w = Some (int k, take k s, w') \<and> sized_body w' (drop k s)
      \<and> memory w' = memory w"
    using p b by (intro exI [of _ "length (take len s)"] exI [of _ w']) simp
qed (use read_sized_end in \<open>blast\<close>, simp add: sized_body_def)

subsection \<open>Chunked bodies\<close>

text \<open>A chunk is the text of its size, in hexadecimal, and its data; what follows the data of a chunk, up to a trailer.\<close>

type_synonym chunk = "string \<times> string"

fun chunk_tail :: "chunk list \<Rightarrow> string \<Rightarrow> string" where
  "chunk_tail [] t = CRLF @ ''0'' @ CRLF @ t"
| "chunk_tail ((h, d) # cs) t = CRLF @ h @ CRLF @ d @ chunk_tail cs t"

definition good_chunk :: "chunk \<Rightarrow> bool" where
  "good_chunk c \<longleftrightarrow> hex_digits (fst c) \<and> fst c \<noteq> [] \<and> length (fst c) \<le> 14 \<and> snd c \<noteq> []
     \<and> hex_number (fst c) = int (length (snd c)) \<and> length (snd c) < 2 ^ 31"

lemma c_string_replicate: "NUL \<notin> set s \<Longrightarrow> c_string (s @ replicate n NUL) = s"
  by (cases n) simp_all

lemma hex_digits_no_line_end: "hex_digits h \<Longrightarrow> CHR 0x0A \<notin> set h"
  unfolding hex_digits_def list_all_iff using hex_value_excludes by blast

lemma next_chunk_line:
  assumes "flows w (CRLF @ h @ CRLF @ s)" "hex_digits h" "h \<noteq> []" "length h \<le> 14"
  shows "\<exists>ps. flows (w\<lparr>rx := ps\<rparr>) s \<and> webclient_next_chunk w =
    Some (let n = clamp (hex_number h); w' = w\<lparr>rx := ps, chunk_sz := n, chunk_offset := 0\<rparr>
          in if n = 0 then (closesocket w')\<lparr>chunk_sz := - 1\<rparr> else w')"
proof -
  have "flows w ([] @ CRLF @ h @ CRLF @ s)" "CHR 0x0A \<notin> set []" "length ([] :: string) + 2 \<le> 64" using assms(1) by simp_all
  from read_line [OF this] obtain ps where
    "webclient_read_line 64 w = (int (length ([] :: string) + 1), [] @ [CHR 0x0D], w\<lparr>rx := ps\<rparr>)" "flows (w\<lparr>rx := ps\<rparr>) (h @ CRLF @ s)" by blast
  then have 1: "webclient_read_line 64 w = (1, [CHR 0x0D], w\<lparr>rx := ps\<rparr>)" "flows (w\<lparr>rx := ps\<rparr>) (h @ CRLF @ s)" by simp_all
  have "CHR 0x0A \<notin> set h" by (rule hex_digits_no_line_end [OF assms(2)])
  moreover have "length h + 2 \<le> 64" using assms(4) by simp
  ultimately have "\<exists>qs. webclient_read_line 64 (w\<lparr>rx := ps\<rparr>) = (int (length h + 1), h @ [CHR 0x0D], w\<lparr>rx := ps\<rparr>\<lparr>rx := qs\<rparr>)
    \<and> flows (w\<lparr>rx := ps\<rparr>\<lparr>rx := qs\<rparr>) s" by (rule read_line [OF 1(2)])
  then obtain qs where
    2: "webclient_read_line 64 (w\<lparr>rx := ps\<rparr>) = (int (length h + 1), h @ [CHR 0x0D], w\<lparr>rx := qs\<rparr>)" "flows (w\<lparr>rx := qs\<rparr>) s" by auto
  have c: "c_string (chunk_line [CHR 0x0D]) = [CHR 0x0D]"
    using c_string_replicate [of "[CHR 0x0D]" 63] by (simp add: chunk_line_def)
  have z: "strtol16 (overwrite 0 (h @ [CHR 0x0D]) (chunk_line [CHR 0x0D])) = Some (clamp (hex_number h))"
    by (simp add: overwrite_def strtol16_line [OF assms(2,3)])
  have "webclient_next_chunk w =
    Some (let n = clamp (hex_number h); w' = w\<lparr>rx := qs, chunk_sz := n, chunk_offset := 0\<rparr>
          in if n = 0 then (closesocket w')\<lparr>chunk_sz := - 1\<rparr> else w')"
    by (simp only: webclient_next_chunk_def 1(1) 2(1) c z Let_def prod.case if_True refl option.case) (simp add: closesocket_def)
  then show ?thesis using 2(2) by blast
qed

definition chunk_body :: "web \<Rightarrow> string \<Rightarrow> bool" where
  "chunk_body w s \<longleftrightarrow> chunk_sz w < 0 \<and> s = [] \<or>
     (\<exists>d cs t. flows w (d @ chunk_tail cs t) \<and> d \<noteq> [] \<and> 0 < chunk_sz w \<and> chunk_sz w - chunk_offset w = int (length d)
        \<and> length d < 2 ^ 31 \<and> list_all good_chunk cs \<and> s = d @ concat (map snd cs))"

text \<open>After the data of a chunk the next one is opened, or the body ends.\<close>

lemma next_chunk_body:
  assumes "flows w (chunk_tail cs t)" "list_all good_chunk cs"
  shows "\<exists>w'. webclient_next_chunk w = Some w' \<and> chunk_body w' (concat (map snd cs)) \<and> memory w' = memory w"
proof (cases cs)
  case Nil
  have "flows w (CRLF @ ''0'' @ CRLF @ t)" "hex_digits ''0''" using assms(1) Nil by (simp_all add: hex_digits_def hex_value_def)
  from next_chunk_line [OF this] obtain ps where "webclient_next_chunk w =
    Some (let n = clamp (hex_number ''0''); w' = w\<lparr>rx := ps, chunk_sz := n, chunk_offset := 0\<rparr>
          in if n = 0 then (closesocket w')\<lparr>chunk_sz := - 1\<rparr> else w')" by auto
  then show ?thesis using Nil by (simp add: hex_number_def hex_value_def clamp_def Let_def chunk_body_def closesocket_def)
next
  case (Cons c cs')
  obtain h d where c: "c = (h, d)" by (cases c)
  then have f: "flows w (CRLF @ h @ CRLF @ d @ chunk_tail cs' t)" using assms(1) Cons by simp
  have g: "hex_digits h" "h \<noteq> []" "length h \<le> 14" "d \<noteq> []" "hex_number h = int (length d)" "length d < 2 ^ 31" "list_all good_chunk cs'"
    using assms(2) Cons c by (simp_all add: good_chunk_def)
  have n: "clamp (hex_number h) = int (length d)" "int (length d) \<noteq> 0" using g(4,5,6) by (simp_all add: clamp_def)
  from next_chunk_line [OF f g(1,2,3)] obtain ps where p: "flows (w\<lparr>rx := ps\<rparr>) (d @ chunk_tail cs' t)"
    "webclient_next_chunk w = Some (w\<lparr>rx := ps, chunk_sz := int (length d), chunk_offset := 0\<rparr>)" unfolding n(1) Let_def if_not_P [OF n(2)] by blast
  have "chunk_body (w\<lparr>rx := ps, chunk_sz := int (length d), chunk_offset := 0\<rparr>) (d @ concat (map snd cs'))"
    unfolding chunk_body_def using p(1) g by (intro disjI2 exI [of _ d] exI [of _ cs'] exI [of _ t]) simp
  then show ?thesis using p(2) Cons c by simp
qed

lemma read_chunk:
  assumes "chunk_body w s" "s \<noteq> []" "0 < len"
  shows "\<exists>k w'. 0 < k \<and> k \<le> len \<and> k \<le> length s \<and> webclient_read len w = Some (int k, take k s, w') \<and> chunk_body w' (drop k s)
      \<and> memory w' = memory w"
proof -
  from assms(1,2) obtain d cs t where b: "flows w (d @ chunk_tail cs t)" "d \<noteq> []" "0 < chunk_sz w"
    "chunk_sz w - chunk_offset w = int (length d)" "length d < 2 ^ 31" "list_all good_chunk cs" "s = d @ concat (map snd cs)"
    unfolding chunk_body_def by blast
  let ?l = "if int len > chunk_sz w - chunk_offset w then size_t (chunk_sz w - chunk_offset w) else len"
  have l: "0 < ?l" "?l \<le> len" "?l \<le> length d" using b(2,5) assms(3) unfolding b(4) by (auto simp: size_t_def)
  have "d @ chunk_tail cs t \<noteq> []" using b(2) by simp
  from recv_flow [OF b(1) this l(1)] obtain k ps where
    k: "0 < k" "k \<le> ?l" "webclient_recv ?l w = (int k, take k (d @ chunk_tail cs t), w\<lparr>rx := ps\<rparr>)"
    "flows (w\<lparr>rx := ps\<rparr>) (drop k (d @ chunk_tail cs t))" by blast
  have kd: "k \<le> length d" "k \<le> len" using k(2) l by linarith+
  then have r: "webclient_recv ?l w = (int k, take k s, w\<lparr>rx := ps\<rparr>)" using k(3) b(7) by simp
  let ?w = "w\<lparr>rx := ps, chunk_offset := chunk_offset w + int k\<rparr>"
  have u: "webclient_read len w = (if chunk_sz w \<le> chunk_offset w + int k then map_option (\<lambda>w. (int k, take k s, w)) (webclient_next_chunk ?w)
      else Some (int k, take k s, ?w))"
    using b(3) assms(3) flows_socket [OF b(1)] r k(1) by (simp add: webclient_read_def Let_def)
  show ?thesis
  proof (cases "k = length d")
    case True
    then have "flows ?w (chunk_tail cs t)" using k(4) by simp
    from next_chunk_body [OF this b(6)] obtain w' where "webclient_next_chunk ?w = Some w'" "chunk_body w' (concat (map snd cs))"
      "memory w' = memory w" by auto
    then show ?thesis using u k(1) kd True b(4,7) by (intro exI [of _ k] exI [of _ w']) simp
  next
    case False
    then have lt: "k < length d" using kd by simp
    have "chunk_body ?w (drop k s)"
      unfolding chunk_body_def using k(4) lt b by (intro disjI2 exI [of _ "drop k d"] exI [of _ cs] exI [of _ t]) simp
    then show ?thesis using u k(1) kd lt b(4,7) by (intro exI [of _ k] exI [of _ ?w]) simp
  qed
qed

interpretation chunk_source: body_source chunk_body
proof
  show "chunk_body w s \<Longrightarrow> s \<noteq> [] \<Longrightarrow> 0 < len \<Longrightarrow> \<exists>k w'. 0 < k \<and> k \<le> len \<and> k \<le> length s
      \<and> webclient_read len w = Some (int k, take k s, w') \<and> chunk_body w' (drop k s) \<and> memory w' = memory w" for w s len
    by (rule read_chunk)
  show "chunk_body w [] \<Longrightarrow> 0 < len \<Longrightarrow> \<exists>n w'. n \<le> 0 \<and> webclient_read len w = Some (n, [], w')" for w len
    by (auto simp: chunk_body_def webclient_read_def)
  show "chunk_body w s \<Longrightarrow> chunk_body (w\<lparr>memory := m\<rparr>) s" for w s m by (simp add: chunk_body_def)
qed

end
