(* ===== verification/WebDownload.thy ===== *)
theory WebDownload
  imports WebStream
begin

text \<open>
  A download by \<open>webclient_get_file\<close> from the address to the file: how the address is resolved, what the server receives, and what
  the client stores of its answer. The code ignores the result of \<open>write\<close>; the file is what it passes to \<open>write\<close>, which it is
  when the file system has room.
\<close>

subsection \<open>Addresses\<close>

definition host_ok :: "string \<Rightarrow> bool" where
  "host_ok h \<longleftrightarrow> h \<noteq> [] \<and> hd h \<noteq> CHR ''['' \<and> CHR ''/'' \<notin> set h \<and> CHR '':'' \<notin> set h"

definition port_ok :: "string \<Rightarrow> bool" where
  "port_ok p \<longleftrightarrow> CHR ''/'' \<notin> set p \<and> NUL \<notin> set p"

definition url_text :: "string \<Rightarrow> string option \<Rightarrow> string \<Rightarrow> string" where
  "url_text h port path = ''http://'' @ h @ (case port of None \<Rightarrow> [] | Some p \<Rightarrow> '':'' @ p) @ ''/'' @ path"

lemma strstr_skip: "c \<notin> set u \<Longrightarrow> rt_strstr (u @ v) [c] = rt_strstr v [c]"
  unfolding rt_strstr_char by (induction u) auto

lemma strstr_first: "c \<notin> set u \<Longrightarrow> rt_strstr (u @ c # v) [c] = Some (c # v)"
  unfolding strstr_skip by (simp add: rt_strstr_char)

lemma resolve_http: "take 7 u = ''http://'' \<Longrightarrow> drop 7 u \<noteq> [] \<Longrightarrow> hd (drop 7 u) \<noteq> CHR ''['' \<Longrightarrow> resolve_url u = resolve_ipv4 ''80'' (drop 7 u)"
  by (simp add: resolve_url_def Let_def)

lemma resolve_plain:
  assumes "host_ok h"
  shows "resolve_url (url_text h None path) = Url h ''80'' (CHR ''/'' # path)"
proof -
  let ?u = "h @ CHR ''/'' # path"
  have h: "h \<noteq> []" "hd h \<noteq> CHR ''[''" "CHR ''/'' \<notin> set h" "CHR '':'' \<notin> set h" using assms by (simp_all add: host_ok_def)
  have r: "resolve_url (url_text h None path) = resolve_ipv4 ''80'' ?u"
    using h resolve_http [of "url_text h None path"] by (simp add: url_text_def)
  have slash: "rt_strstr ?u ''/'' = Some (CHR ''/'' # path)" by (rule strstr_first [OF h(3)])
  have colon: "\<not> length ?u - length p < length h" if "rt_strstr ?u '':'' = Some p" for p
  proof -
    have "rt_strstr (CHR ''/'' # path) '':'' = Some p" using that strstr_skip [OF h(4)] by simp
    then obtain u v where "CHR ''/'' # path = u @ p" using rt_strstr_Some by blast
    then have "length p \<le> length (CHR ''/'' # path)" by simp
    then show ?thesis by simp
  qed
  show ?thesis unfolding r resolve_ipv4_def slash using h colon by (auto simp: Let_def split: option.split)
qed

lemma resolve_port:
  assumes "host_ok h" "port_ok p"
  shows "resolve_url (url_text h (Some p) path) = (if 5 < length p then Url_overflow else Url h p (CHR ''/'' # path))"
proof -
  let ?u = "h @ CHR '':'' # p @ CHR ''/'' # path"
  have h: "h \<noteq> []" "hd h \<noteq> CHR ''[''" "CHR ''/'' \<notin> set h" "CHR '':'' \<notin> set h" using assms by (simp_all add: host_ok_def)
  have p: "CHR ''/'' \<notin> set p" "NUL \<notin> set p" using assms by (simp_all add: port_ok_def)
  have r: "resolve_url (url_text h (Some p) path) = resolve_ipv4 ''80'' ?u"
    using h resolve_http [of "url_text h (Some p) path"] by (simp add: url_text_def)
  have slash: "rt_strstr ?u ''/'' = Some (CHR ''/'' # path)" using strstr_first [of "CHR ''/''" "h @ CHR '':'' # p" path] h p by simp
  have colon: "rt_strstr ?u '':'' = Some (CHR '':'' # p @ CHR ''/'' # path)" by (rule strstr_first [OF h(4)])
  show ?thesis unfolding r resolve_ipv4_def slash colon using h p by (simp add: Let_def port_copy_def)
qed

subsection \<open>A request and its answer\<close>

text \<open>The server accepts a connection, takes \<open>n\<close> bytes and sends \<open>s\<close>, in pieces of any size.\<close>

definition serves :: "connection \<Rightarrow> nat \<Rightarrow> string \<Rightarrow> bool" where
  "serves c n s \<longleftrightarrow> dns_ok c \<and> socket_ok c \<and> connect_ok c \<and> [] \<notin> set (arriving c) \<and> concat (arriving c) = s \<and> n \<le> taking c"

definition request_text :: "string \<Rightarrow> string \<Rightarrow> string" where
  "request_text h path = ''GET /'' @ path @ '' HTTP/1.1'' @ CRLF @ ''Host: '' @ h @ CRLF @ ''User-Agent: RT-Thread HTTP Agent'' @ CRLF @ CRLF"

definition connected :: "connection \<Rightarrow> string \<Rightarrow> string \<Rightarrow> web \<Rightarrow> web" where
  "connected c h path w = w\<lparr>socket := 1, connections := tl (connections w), memory := memory w - 2, host := Some h,
     req_url := Some (CHR ''/'' # path), rx := arriving c, rx_end := arriving_end c, tx := [], tx_room := taking c\<rparr>"

lemma connect_serves:
  assumes u: "resolve_url url = Url h port (CHR ''/'' # path)" "take 8 url \<noteq> ''https://''"
    and c: "connections w = c # cs" "serves c n s" and m: "2 \<le> memory w"
  shows "webclient_connect url w = Some (0, connected c h path w)"
proof -
  obtain m' where m': "memory w = Suc (Suc m')" using le_Suc_ex [OF m] by auto
  show ?thesis using u c m'
    by (simp add: webclient_connect_def webclient_resolve_address_def web_alloc_def serves_def connected_def Let_def)
qed

lemma add_field_fits:
  assumes "header_length w + length l < header_size w"
  shows "webclient_header_fields_add l w = Some (int (length l),
    w\<lparr>header_buffer := overwrite (header_length w) (l @ [NUL]) (header_buffer w), header_length := header_length w + length l\<rparr>)"
  using assms by (simp add: webclient_header_fields_add_def print_at_def Let_def)

lemma add_fields_fit:
  assumes "header_length w + length (concat ls) < header_size w"
  shows "\<exists>b. add_fields ls w = Some (True, w\<lparr>header_buffer := b, header_length := header_length w + length (concat ls)\<rparr>)
    \<and> length b = header_size w \<and> take (header_length w + length (concat ls)) b = take (header_length w) (header_buffer w) @ concat ls"
  using assms
proof (induction ls arbitrary: w)
  case Nil
  then show ?case by (intro exI [of _ "header_buffer w"]) (simp add: header_size_def)
next
  case (Cons l ls)
  let ?b = "overwrite (header_length w) (l @ [NUL]) (header_buffer w)"
  let ?w = "w\<lparr>header_buffer := ?b, header_length := header_length w + length l\<rparr>"
  have fit: "header_length w + length l < header_size w" using Cons.prems by simp
  then have size: "header_size ?w = header_size w" by (simp add: header_size_def)
  have len: "header_length ?w = header_length w + length l" "header_buffer ?w = ?b" by simp_all
  have t: "take (header_length w + length l) ?b = take (header_length w) (header_buffer w) @ l"
    using fit by (simp add: overwrite_def header_size_def)
  have c: "header_length w + length l + length (concat ls) = header_length w + length (concat (l # ls))" by simp
  have "header_length ?w + length (concat ls) < header_size ?w" unfolding size len c by (rule Cons.prems)
  from Cons.IH [OF this] obtain b where
    b: "add_fields ls ?w = Some (True, ?w\<lparr>header_buffer := b, header_length := header_length w + length (concat (l # ls))\<rparr>)"
    "length b = header_size w" "take (header_length w + length (concat (l # ls))) b = (take (header_length w) (header_buffer w) @ l) @ concat ls"
    unfolding size len c t by (elim exE conjE)
  have "add_fields (l # ls) w = add_fields ls ?w" using add_field_fits [OF fit] by simp
  then have "add_fields (l # ls) w = Some (True, w\<lparr>header_buffer := b, header_length := header_length w + length (concat (l # ls))\<rparr>)"
    unfolding b(1) by simp
  moreover have "take (header_length w + length (concat (l # ls))) b = take (header_length w) (header_buffer w) @ concat (l # ls)"
    using b(3) by simp
  ultimately show ?case using b(2) by blast
qed

lemma write_all:
  assumes "0 \<le> socket w" "bytes \<noteq> []" "length bytes \<le> tx_room w"
  shows "webclient_write bytes w = (int (length bytes), w\<lparr>tx := tx w @ bytes, tx_room := tx_room w - length bytes\<rparr>)"
  using assms by (simp add: webclient_write_def Let_def)

definition request_lines :: "web \<Rightarrow> string list" where
  "request_lines w = [request_line WEBCLIENT_GET (shown (req_url w)), ''Host: '' @ shown (host w) @ CRLF,
     ''User-Agent: RT-Thread HTTP Agent'' @ CRLF @ CRLF]"

lemma request_lines: "host w = Some h \<Longrightarrow> req_url w = Some (CHR ''/'' # path) \<Longrightarrow> concat (request_lines w) = request_text h path"
  by (simp add: request_lines_def request_line_def shown_def request_text_def)

lemma send_default:
  assumes w: "header_length w = 0" "host w = Some h" "req_url w = Some (CHR ''/'' # path)" "0 \<le> socket w"
    and fit: "length (request_text h path) < header_size w" "length (request_text h path) \<le> tx_room w"
  shows "\<exists>b. length b = header_size w \<and> webclient_send_header m w =
    Some (0, w\<lparr>header_buffer := b, header_length := length (request_text h path), tx := tx w @ request_text h path,
               tx_room := tx_room w - length (request_text h path)\<rparr>)"
proof -
  note t = request_lines [OF w(2,3)]
  have "header_length w + length (concat (request_lines w)) < header_size w" unfolding t w(1) using fit by simp
  from add_fields_fit [OF this] obtain b where
    b: "add_fields (request_lines w) w = Some (True, w\<lparr>header_buffer := b, header_length := length (request_text h path)\<rparr>)"
    "length b = header_size w" "take (length (request_text h path)) b = request_text h path"
    unfolding t w(1) add_0 take_0 append_Nil by blast
  have ne: "request_text h path \<noteq> []" by (simp add: request_text_def)
  let ?w = "w\<lparr>header_buffer := b, header_length := length (request_text h path)\<rparr>"
  have "webclient_write (request_text h path) ?w = (int (length (request_text h path)),
    ?w\<lparr>tx := tx ?w @ request_text h path, tx_room := tx_room ?w - length (request_text h path)\<rparr>)"
    by (rule write_all) (use w(4) fit(2) ne in simp_all)
  moreover have "webclient_send_header m w = Some (0, snd (webclient_write (take (header_length ?w) (header_buffer ?w)) ?w))"
    unfolding webclient_send_header_def request_lines_def [symmetric] b(1) using w(1) by simp
  ultimately show ?thesis using b(2,3) by (intro exI [of _ b]) simp
qed

text \<open>The state after the request has been sent.\<close>

definition sent :: "connection \<Rightarrow> string \<Rightarrow> string \<Rightarrow> string \<Rightarrow> web \<Rightarrow> web" where
  "sent c h path b w = (connected c h path w)\<lparr>header_buffer := b, header_length := length (request_text h path),
     tx := request_text h path, tx_room := taking c - length (request_text h path)\<rparr>"

lemma request_sent:
  assumes u: "resolve_url url = Url h port (CHR ''/'' # path)" "take 8 url \<noteq> ''https://''"
    and c: "connections w = c # cs" "serves c (length (request_text h path)) s"
    and m: "2 \<le> memory w" and w: "header_length w = 0" "length (request_text h path) < header_size w"
  shows "webclient_connect url w = Some (0, connected c h path w)"
    "\<exists>b. length b = header_size w \<and> webclient_send_header WEBCLIENT_GET (connected c h path w) = Some (0, sent c h path b w)"
    "flows (sent c h path b w) s"
proof -
  show "webclient_connect url w = Some (0, connected c h path w)" by (rule connect_serves [OF u c m])
  show "flows (sent c h path b w) s" using c(2) by (simp add: sent_def connected_def flows_def serves_def)
  let ?w = "connected c h path w"
  have p: "header_length ?w = 0" "host ?w = Some h" "req_url ?w = Some (CHR ''/'' # path)" "0 \<le> socket ?w"
    "length (request_text h path) < header_size ?w" "length (request_text h path) \<le> tx_room ?w"
    using w c(2) by (simp_all add: connected_def header_size_def serves_def)
  have e: "header_size ?w = header_size w" "tx ?w = []" "tx_room ?w = taking c" by (simp_all add: connected_def header_size_def)
  from send_default [OF p, of WEBCLIENT_GET] obtain b where b: "length b = header_size w"
    "webclient_send_header WEBCLIENT_GET ?w = Some (0, ?w\<lparr>header_buffer := b, header_length := length (request_text h path),
       tx := [] @ request_text h path, tx_room := taking c - length (request_text h path)\<rparr>)" unfolding e by blast
  then show "\<exists>b. length b = header_size w \<and> webclient_send_header WEBCLIENT_GET ?w = Some (0, sent c h path b w)"
    by (intro exI [of _ b]) (simp add: sent_def)
qed

text \<open>What \<open>webclient_get\<close> does after the head of the answer.\<close>

definition followed :: "(nat \<Rightarrow> string) \<Rightarrow> nat \<Rightarrow> (int \<times> web) option \<Rightarrow> got option" where
  "followed fresh k r =
      (case r of
         None \<Rightarrow> None
       | Some (status, w) \<Rightarrow>
           if status \<le> 0 then Some (Got status w)
           else
             (case redirects status w of
                None \<Rightarrow> None
              | Some None \<Rightarrow> Some (Got status w)
              | Some (Some new_url) \<Rightarrow>
                  (case web_alloc w of
                     None \<Rightarrow> Some (Got (err WEBCLIENT_NOMEM) w)
                   | Some w \<Rightarrow>
                       (case webclient_session_create (fresh k) (closesocket w) of
                          None \<Rightarrow> Some (Gone (err WEBCLIENT_NOMEM) (closesocket w))
                        | Some w \<Rightarrow>
                            (case webclient_get k fresh new_url w of
                               None \<Rightarrow> None
                             | Some (Got rc w) \<Rightarrow> Some (Gone rc w)
                             | Some (Gone rc w) \<Rightarrow> Some (Gone rc w))))))"

lemma get_answered:
  assumes u: "resolve_url url = Url h port (CHR ''/'' # path)" "take 8 url \<noteq> ''https://''"
    and c: "connections w = c # cs" "serves c (length (request_text h path)) (head_bytes ls @ s)"
    and m: "3 \<le> memory w" and w: "header_length w = 0" "length (request_text h path) < header_size w"
    and ls: "ls = status_line v code reason # fs" "good_head (header_size w) ls" "no_blank code" "code \<noteq> []"
  shows "\<exists>b ps. length b = header_size w \<and> flows (answered ls (atoi code) ps (sent c h path b w)) s \<and>
    webclient_get (Suc k) fresh url w =
      followed fresh k
        (if chunked ls then
               map_option (\<lambda>w. (resp_status w, w)) (first_chunk (answered ls (atoi code) ps (sent c h path b w)))
             else Some (atoi code, answered ls (atoi code) ps (sent c h path b w)))"
proof -
  have m2: "2 \<le> memory w" using m by simp
  note r = request_sent [OF u c m2 w]
  from r(2) obtain b where b: "length b = header_size w"
    "webclient_send_header WEBCLIENT_GET (connected c h path w) = Some (0, sent c h path b w)" by blast
  have g: "good_head (header_size (sent c h path b w)) ls" "0 < memory (sent c h path b w)"
    using ls(2) b(1) m by (simp_all add: sent_def connected_def header_size_def)
  from handle_response_head [OF r(3) ls(1) g(1) ls(3,4) g(2)] obtain ps where
    p: "flows (answered ls (atoi code) ps (sent c h path b w)) s"
    "webclient_handle_response (sent c h path b w) =
      (if chunked ls then
         (case first_chunk (answered ls (atoi code) ps (sent c h path b w)) of None \<Rightarrow> None | Some w \<Rightarrow> Some (resp_status w, w))
       else Some (atoi code, answered ls (atoi code) ps (sent c h path b w)))" by blast
  have q: "webclient_handle_response (sent c h path b w) =
      (if chunked ls then map_option (\<lambda>w. (resp_status w, w)) (first_chunk (answered ls (atoi code) ps (sent c h path b w)))
       else Some (atoi code, answered ls (atoi code) ps (sent c h path b w)))"
    unfolding p(2) by (simp split: option.split)
  show ?thesis
    by (rule exI [of _ b], rule exI [of _ ps], intro conjI b(1) p(1))
      (simp only: webclient_get.simps followed_def r(1) b(2) q option.case prod.case refl not_True_eq_False if_False)
qed

subsection \<open>A download\<close>

text \<open>What a download needs on the side of the client, and the first connection's answer.\<close>

definition client_ready :: "nat \<Rightarrow> (nat \<Rightarrow> string) \<Rightarrow> string \<Rightarrow> string option \<Rightarrow> string \<Rightarrow> web \<Rightarrow> bool" where
  "client_ready sz fresh h port path w \<longleftrightarrow> host_ok h \<and> (case port of None \<Rightarrow> True | Some p \<Rightarrow> port_ok p \<and> length p \<le> 5)
     \<and> length (request_text h path) < sz \<and> 7 \<le> memory w \<and> length (fresh (get_fuel w)) = sz"

definition answers :: "nat \<Rightarrow> web \<Rightarrow> string \<Rightarrow> string \<Rightarrow> string list \<Rightarrow> string \<Rightarrow> bool" where
  "answers sz w h path ls s \<longleftrightarrow> good_head sz ls
     \<and> (case connections w of [] \<Rightarrow> False | c # _ \<Rightarrow> serves c (length (request_text h path)) (head_bytes ls @ s))"

definition created :: "string \<Rightarrow> web \<Rightarrow> web" where
  "created b w = w\<lparr>memory := memory w - 3, header_buffer := b, header_length := 0, socket := 0, resp_status := 0, host := None,
     req_url := None, chunk_sz := 0, chunk_offset := 0, content_length := - 1, content_remainder := 0\<rparr>"

lemma create_session: "3 \<le> memory w \<Longrightarrow> webclient_session_create b w = Some (created b w)"
proof -
  assume "3 \<le> memory w"
  from le_Suc_ex [OF this] obtain m where "memory w = Suc (Suc (Suc m))" by auto
  then show ?thesis by (simp add: webclient_session_create_def web_alloc_def created_def)
qed

lemma url_not_tls: "take 8 (url_text h port path) \<noteq> ''https://''"
  by (simp add: url_text_def)

lemma redirects_200: "good_head sz ls \<Longrightarrow> header_buffer w = head_mem ls @ zeros (sz - length (head_mem ls)) \<Longrightarrow>
  header_length w = length (head_mem ls) \<Longrightarrow> redirects status w = Some (if status = 302 \<or> status = 301 then field_of ''Location'' ls else None)"
  using fields_get_read [of ls w "sz - length (head_mem ls)" "''Location''"] by (simp add: redirects_def good_head_def)

lemma answered_head:
  "header_buffer (answered ls st ps w) = head_mem ls @ zeros (header_size w - length (head_mem ls))"
  "header_length (answered ls st ps w) = length (head_mem ls)"
  by (simp_all add: answered_def with_head_def)

text \<open>The session with which the body is read.\<close>

definition at_body :: "nat \<Rightarrow> string list \<Rightarrow> int \<Rightarrow> web \<Rightarrow> bool" where
  "at_body sz ls status w \<longleftrightarrow> header_size w = sz \<and> header_buffer w = head_mem ls @ zeros (sz - length (head_mem ls))
     \<and> header_length w = length (head_mem ls) \<and> resp_status w = status \<and> chunk_sz w = 0
     \<and> content_length w = declared_length ls (- 1) \<and> content_remainder w = (if content_length w \<noteq> 0 then size_t (content_length w) else 2 ^ 32 - 1)"

lemma download_head:
  assumes r: "client_ready sz fresh h port path w" and a: "answers sz w h path (status_line v code reason # fs) s"
    and code: "no_blank code" "code \<noteq> []"
  defines "ls \<equiv> status_line v code reason # fs" and "n \<equiv> get_fuel w"
  shows "\<exists>w1. at_body sz ls (atoi code) w1 \<and> 0 < memory w1 \<and> memory w1 = memory w - 6 \<and> flows w1 s \<and> webclient_session_create (fresh n) w = Some (created (fresh n) w) \<and>
    webclient_get n fresh (url_text h port path) (created (fresh n) w) =
      followed fresh (n - 1)
        (if chunked ls then map_option (\<lambda>w. (resp_status w, w)) (first_chunk w1) else Some (atoi code, w1))"
proof -
  from a obtain c cs where c: "connections w = c # cs" and g: "good_head sz ls"
    and sv: "serves c (length (request_text h path)) (head_bytes ls @ s)"
    by (auto simp: answers_def ls_def split: list.splits)
  let ?w = "created (fresh n) w"
  have u: "\<exists>p. resolve_url (url_text h port path) = Url h p (CHR ''/'' # path)"
    using r resolve_plain resolve_port by (fastforce simp: client_ready_def split: option.splits)
  then obtain p where u: "resolve_url (url_text h port path) = Url h p (CHR ''/'' # path)" by blast
  have "7 \<le> memory w" using r by (simp add: client_ready_def)
  then have m4: "4 \<le> memory w - 3" by linarith
  have w: "connections ?w = c # cs" "4 \<le> memory ?w" "header_length ?w = 0" "header_size ?w = sz"
    "length (request_text h path) < header_size ?w" "content_length ?w = - 1" "chunk_sz ?w = 0" "3 \<le> memory w"
    using r c m4 by (simp_all add: created_def client_ready_def header_size_def n_def)
  have m: "3 \<le> memory ?w" using w(2) by simp
  have g2: "good_head (header_size ?w) ls" using g w(4) by simp
  have ls: "ls = status_line v code reason # fs" by (simp add: ls_def)
  have n: "n = Suc (n - 1)" by (simp add: n_def get_fuel_def)
  from get_answered [OF u url_not_tls w(1) sv m w(3,5) ls g2 code, of "n - 1" fresh] obtain b ps where
    b: "length b = header_size ?w" "flows (answered ls (atoi code) ps (sent c h path b ?w)) s" and
    q: "webclient_get (Suc (n - 1)) fresh (url_text h port path) ?w =
      followed fresh (n - 1)
        (if chunked ls then
               map_option (\<lambda>w. (resp_status w, w)) (first_chunk (answered ls (atoi code) ps (sent c h path b ?w)))
             else Some (atoi code, answered ls (atoi code) ps (sent c h path b ?w)))" by (elim exE conjE)
  let ?w1 = "answered ls (atoi code) ps (sent c h path b ?w)"
  have e: "header_size (sent c h path b ?w) = sz" using b(1) w(4) by (simp add: sent_def header_size_def)
  have sz: "length (head_mem ls) \<le> sz" using g by (simp add: good_head_def)
  have f: "content_length (sent c h path b ?w) = - 1" "chunk_sz (sent c h path b ?w) = 0" "1 < memory (sent c h path b ?w)"
    using w(2,6,7) by (simp_all add: sent_def connected_def)
  have "at_body sz ls (atoi code) ?w1"
    using f sz e unfolding at_body_def answered_head header_size_def by (simp add: answered_def with_head_def zeros_def header_size_def)
  moreover have "0 < memory ?w1" using f(3) by (simp add: answered_def)
  moreover have "memory ?w1 = memory w - 6" by (simp add: answered_def sent_def connected_def created_def)
  ultimately show ?thesis using b(2) q create_session [OF w(8)] n by (intro exI [of _ ?w1]) (simp only: simp_thms)
qed

lemma first_chunk_size:
  assumes "flows w (h @ CRLF @ s)" "hex_digits h" "h \<noteq> []" "length h \<le> 14" "16 \<le> header_size w"
  shows "\<exists>ps. first_chunk w = Some (w\<lparr>rx := ps, chunk_sz := clamp (hex_number h), chunk_offset := 0\<rparr>) \<and> flows (w\<lparr>rx := ps\<rparr>) s"
proof -
  have "length h + 2 \<le> header_size w" using assms(4,5) by simp
  from read_line [OF assms(1) hex_digits_no_line_end [OF assms(2)] this] obtain ps where
    p: "webclient_read_line (header_size w) w = (int (length h + 1), h @ [CHR 0x0D], w\<lparr>rx := ps\<rparr>)" "flows (w\<lparr>rx := ps\<rparr>) s" by blast
  show ?thesis using p(2) assms(4) strtol16_line [OF assms(2,3)] unfolding first_chunk_def p(1)
    by (intro exI [of _ ps]) simp
qed

text \<open>The line of the first size must fit into its 16 bytes.\<close>

lemma first_chunk_long:
  assumes "flows w (l @ CRLF @ s)" "CHR 0x0A \<notin> set l" "16 \<le> length l" "length l + 2 \<le> header_size w"
  shows "first_chunk w = None"
proof -
  from read_line [OF assms(1,2,4)] obtain ps where
    "webclient_read_line (header_size w) w = (int (length l + 1), l @ [CHR 0x0D], w\<lparr>rx := ps\<rparr>)" by blast
  then show ?thesis using assms(3) by (simp add: first_chunk_def)
qed

lemma clamp_bound: "clamp n < 2 ^ 31"
  by (simp add: clamp_def min_less_iff_disj)

lemma declared_length_bound: "declared_length ls (- 1) < 2 ^ 31"
  by (simp add: declared_length_def atoi_def clamp_bound [simplified] Let_def split: option.split)

text \<open>The loop of the download over a body with a status of 200.\<close>

definition save_body :: "web \<Rightarrow> (int \<times> string option) option" where
  "save_body w = map_option (\<lambda>(bytes, w). (0, Some bytes))
     (if content_length w < 0 then read_all WEBCLIENT_RESPONSE_BUFSZ [] w
      else read_body WEBCLIENT_RESPONSE_BUFSZ (nat (content_length w)) [] w)"

lemma get_file_200:
  assumes "webclient_session_create (fresh (get_fuel w)) w = Some w1" "get_fuel w1 = get_fuel w"
    "webclient_get (get_fuel w) fresh url w1 = Some (Got 200 w2)" "0 < memory w2"
  shows "webclient_get_file fresh url True w = save_body (w2\<lparr>memory := memory w2 - 1\<rparr>)"
  using assms by (simp add: webclient_get_file_def save_body_def web_alloc_def)

lemma created_fuel: "get_fuel (created b w) = get_fuel w"
  by (simp add: get_fuel_def created_def)

lemma atoi_200: "atoi ''200'' = 200" "no_blank ''200''" "''200'' \<noteq> []"
  by (simp_all add: atoi_def digits_value_def clamp_def is_space_def is_digit_def no_blank_def is_blank_def)

lemma buffer_size: "0 < WEBCLIENT_RESPONSE_BUFSZ" "16 \<le> WEBCLIENT_HEADER_BUFSZ"
  by (simp_all add: WEBCLIENT_RESPONSE_BUFSZ_def WEBCLIENT_HEADER_BUFSZ_def)

text \<open>Saving the body: the content length decides, and the stream gives the bytes in pieces of any size.\<close>

lemma save_plain:
  assumes "at_body sz ls st w" "flows w s"
  shows "save_body w = Some (0, Some (if content_length w < 0 then s else take (nat (content_length w)) s))"
proof -
  consider "content_length w < 0" | "content_length w = 0" | "0 < content_length w" by linarith
  then show ?thesis
  proof cases
    case 1
    then have "open_body w s" using assms by (simp add: open_body_def at_body_def)
    from open_source.read_all_body [OF this buffer_size(1), of "[]"] show ?thesis using 1 by (auto simp: save_body_def)
  next
    case 2
    then show ?thesis by (simp add: save_body_def read_body.simps)
  next
    case 3
    have "content_length w < 2 ^ 31" "content_remainder w = size_t (content_length w)"
      using assms(1) 3 declared_length_bound by (simp_all add: at_body_def)
    then have "content_remainder w = nat (content_length w)" using 3 by (simp add: size_t_def)
    then have "sized_body w (take (nat (content_length w)) s)"
      using assms 3 by (auto simp: sized_body_def at_body_def flows_def)
    from sized_source.read_body_body [OF this buffer_size(1), of "nat (content_length w)" "[]"] show ?thesis
      using 3 by (auto simp: save_body_def)
  qed
qed

lemma at_body_memory: "at_body sz ls st (w\<lparr>memory := m\<rparr>) = at_body sz ls st w"
  by (simp add: at_body_def header_size_def)

lemma at_body_chunk_redirects:
  assumes "good_head sz ls" "at_body sz ls st w"
  shows "redirects status (w\<lparr>rx := ps, chunk_sz := i, chunk_offset := j\<rparr>) = Some (if status = 302 \<or> status = 301 then field_of ''Location'' ls else None)"
    "redirects status w = Some (if status = 302 \<or> status = 301 then field_of ''Location'' ls else None)"
  using assms redirects_200 by (simp_all add: at_body_def)

lemma answers_head: "answers sz w h path ls s \<Longrightarrow> good_head sz ls"
  by (simp add: answers_def)

lemma download_plain:
  assumes "client_ready sz fresh h port path w" "answers sz w h path (status_line v ''200'' reason # fs) s"
    "\<not> chunked (status_line v ''200'' reason # fs)"
  shows "\<exists>w1. at_body sz (status_line v ''200'' reason # fs) 200 w1 \<and> 0 < memory w1 \<and> flows w1 s \<and>
    webclient_get_file fresh (url_text h port path) True w = save_body (w1\<lparr>memory := memory w1 - 1\<rparr>)"
proof -
  let ?ls = "status_line v ''200'' reason # fs" and ?n = "get_fuel w" and ?url = "url_text h port path"
  from download_head [OF assms(1,2) atoi_200(2,3)] assms(3) obtain w1 where
    w1: "at_body sz ?ls 200 w1" "0 < memory w1" "flows w1 s" "webclient_session_create (fresh ?n) w = Some (created (fresh ?n) w)"
    and q: "webclient_get ?n fresh ?url (created (fresh ?n) w) = followed fresh (?n - 1) (Some (200, w1))" unfolding atoi_200(1) by auto
  have "redirects 200 w1 = Some None"
    using at_body_chunk_redirects(2) [OF answers_head [OF assms(2)] w1(1), of 200] by simp
  then have "webclient_get ?n fresh ?url (created (fresh ?n) w) = Some (Got 200 w1)" using q by (simp add: followed_def)
  from get_file_200 [OF w1(4) created_fuel this w1(2)] show ?thesis using w1 by blast
qed

lemma download_chunked:
  assumes "client_ready sz fresh h port path w" "answers sz w h path (status_line v ''200'' reason # fs) s"
    "chunked (status_line v ''200'' reason # fs)"
  shows "\<exists>w1. at_body sz (status_line v ''200'' reason # fs) 200 w1 \<and> 0 < memory w1 \<and> flows w1 s \<and>
    (first_chunk w1 = None \<longrightarrow> webclient_get_file fresh (url_text h port path) True w = None) \<and>
    (\<forall>ps i j. first_chunk w1 = Some (w1\<lparr>rx := ps, chunk_sz := i, chunk_offset := j\<rparr>) \<longrightarrow>
       webclient_get_file fresh (url_text h port path) True w
         = save_body (w1\<lparr>rx := ps, chunk_sz := i, chunk_offset := j, memory := memory w1 - 1\<rparr>))"
proof -
  let ?ls = "status_line v ''200'' reason # fs" and ?n = "get_fuel w" and ?url = "url_text h port path"
  from download_head [OF assms(1,2) atoi_200(2,3)] assms(3) obtain w1 where
    w1: "at_body sz ?ls 200 w1" "0 < memory w1" "flows w1 s" "webclient_session_create (fresh ?n) w = Some (created (fresh ?n) w)"
    and q: "webclient_get ?n fresh ?url (created (fresh ?n) w)
      = followed fresh (?n - 1) (map_option (\<lambda>w. (resp_status w, w)) (first_chunk w1))" unfolding atoi_200(1) by auto
  have "webclient_get_file fresh ?url True w = None" if "first_chunk w1 = None"
    using q that w1(4) by (simp add: webclient_get_file_def created_fuel followed_def)
  moreover have "webclient_get_file fresh ?url True w = save_body (w1\<lparr>rx := ps, chunk_sz := i, chunk_offset := j, memory := memory w1 - 1\<rparr>)"
    if "first_chunk w1 = Some (w1\<lparr>rx := ps, chunk_sz := i, chunk_offset := j\<rparr>)" for ps i j
  proof -
    let ?w = "w1\<lparr>rx := ps, chunk_sz := i, chunk_offset := j\<rparr>"
    have "redirects 200 ?w = Some None" "resp_status ?w = 200"
      using at_body_chunk_redirects(1) [OF answers_head [OF assms(2)] w1(1), of 200] w1(1) by (simp_all add: at_body_def)
    then have "webclient_get ?n fresh ?url (created (fresh ?n) w) = Some (Got 200 ?w)" using q that by (simp add: followed_def)
    from get_file_200 [OF w1(4) created_fuel this] show ?thesis using w1(2) by simp
  qed
  ultimately show ?thesis using w1(1-3) by (intro exI [of _ w1] conjI impI allI) (assumption | simp)+
qed

text \<open>A server for the witnesses, which sends its answer in the given pieces.\<close>

definition demo_web :: "string list \<Rightarrow> web" where
  "demo_web pieces = \<lparr>header_buffer = [], header_length = 0, socket = - 1, resp_status = 0, host = None, req_url = None,
     chunk_sz = 0, chunk_offset = 0, content_length = 0, content_remainder = 0, rx = [], rx_end = Closed, tx = [], tx_room = 0,
     connections = [\<lparr>dns_ok = True, socket_ok = True, connect_ok = True, arriving = pieces, arriving_end = Closed, taking = 500\<rparr>],
     memory = 9, stack_junk = replicate 16 NUL\<rparr>"

definition demo_fresh :: "nat \<Rightarrow> string" where
  "demo_fresh n = zeros WEBCLIENT_HEADER_BUFSZ"

lemma demo_client_ready: "client_ready WEBCLIENT_HEADER_BUFSZ demo_fresh ''h'' None ''s'' (demo_web pieces)"
  by (simp add: client_ready_def demo_fresh_def zeros_def demo_web_def host_ok_def request_text_def WEBCLIENT_HEADER_BUFSZ_def)

lemma demo_server_answers:
  assumes "good_head 4096 ls" "[] \<notin> set pieces" "concat pieces = head_bytes ls @ s"
  shows "answers WEBCLIENT_HEADER_BUFSZ (demo_web pieces) ''h'' ''s'' ls s"
  using assms by (simp add: answers_def demo_web_def serves_def request_text_def WEBCLIENT_HEADER_BUFSZ_def)

abbreviation demo_head :: "string \<Rightarrow> string list" where
  "demo_head field \<equiv> [status_line CHR ''1'' ''200'' ''OK'', field]"

subsection \<open>Properties\<close>

text \<open>
  C20. Addresses: from \<open>http://host/path\<close> and \<open>http://host:port/path\<close> the client takes the host, the port, 80 by default, and
  the request with its slash; a port of more than five characters overflows the array it is copied to.
\<close>

theorem url_resolved:
  assumes "host_ok h" "case port of None \<Rightarrow> True | Some p \<Rightarrow> port_ok p"
  shows "resolve_url (url_text h port path) =
    (case port of
       None \<Rightarrow> Url h ''80'' (CHR ''/'' # path)
     | Some p \<Rightarrow> if 5 < length p then Url_overflow else Url h p (CHR ''/'' # path))"
  using assms by (cases port) (simp_all add: resolve_plain resolve_port)

theorem url_resolved_witness:
  "resolve_url (url_text ''10.0.0.1'' (Some ''1234'') ''dir'') = Url ''10.0.0.1'' ''1234'' ''/dir''
   \<and> resolve_url (url_text ''10.0.0.1'' (Some ''123456'') ''dir'') = Url_overflow"
  using url_resolved [of "''10.0.0.1''" "Some ''1234''" "''dir''"] url_resolved [of "''10.0.0.1''" "Some ''123456''" "''dir''"]
  by (simp add: host_ok_def port_ok_def)

text \<open>
  C21. The request: to a server that takes it, the client sends the request line, the host and the agent, byte for byte and nothing
  more, when the text is shorter than the header buffer.
\<close>

theorem request_is_sent:
  assumes "host_ok h" "case port of None \<Rightarrow> True | Some p \<Rightarrow> port_ok p \<and> length p \<le> 5"
    and "connections w = c # cs" "serves c (length (request_text h path)) s" "2 \<le> memory w"
    and "header_length w = 0" "length (request_text h path) < header_size w"
  shows "\<exists>w1 w2. webclient_connect (url_text h port path) w = Some (0, w1)
    \<and> webclient_send_header WEBCLIENT_GET w1 = Some (0, w2) \<and> tx w2 = request_text h path \<and> flows w2 s"
proof -
  have "\<exists>p. resolve_url (url_text h port path) = Url h p (CHR ''/'' # path)"
    using assms(1,2) resolve_plain resolve_port by (fastforce split: option.splits)
  then obtain p where u: "resolve_url (url_text h port path) = Url h p (CHR ''/'' # path)" by blast
  note r = request_sent [OF u url_not_tls assms(3-7)]
  from r(2) obtain b where "webclient_send_header WEBCLIENT_GET (connected c h path w) = Some (0, sent c h path b w)" by blast
  then show ?thesis using r(1,3)
    by (intro exI [of _ "connected c h path w"] exI [of _ "sent c h path b w"]) (simp add: sent_def)
qed

theorem request_is_sent_witness:
  "\<exists>w1 w2. webclient_connect (url_text ''h'' None ''s'') (created (demo_fresh 0) (demo_web [''ok''])) = Some (0, w1)
    \<and> webclient_send_header WEBCLIENT_GET w1 = Some (0, w2) \<and> tx w2 = request_text ''h'' ''s'' \<and> flows w2 ''ok''"
  by (rule request_is_sent [of _ _ _ "hd (connections (demo_web [''ok'']))" "[]"])
    (simp_all add: demo_web_def created_def demo_fresh_def zeros_def serves_def request_text_def host_ok_def header_size_def WEBCLIENT_HEADER_BUFSZ_def)

text \<open>
  C17. Download of a page: when the server answers with status 200 and no chunks, the file holds exactly the body, the first
  \<open>Content-Length\<close> bytes behind the head or, without that field, all bytes up to the end of the connection, whatever the pieces
  in which head and body arrive.
\<close>

theorem get_file_saves_body:
  assumes "client_ready WEBCLIENT_HEADER_BUFSZ fresh h port path w"
    and "answers WEBCLIENT_HEADER_BUFSZ w h path (status_line v ''200'' reason # fs) s"
    and "\<not> chunked (status_line v ''200'' reason # fs)"
  shows "webclient_get_file fresh (url_text h port path) True w =
    Some (0, Some (if declared_length (status_line v ''200'' reason # fs) (- 1) < 0 then s
                   else take (nat (declared_length (status_line v ''200'' reason # fs) (- 1))) s))"
proof -
  from download_plain [OF assms] obtain w1 where
    w1: "at_body WEBCLIENT_HEADER_BUFSZ (status_line v ''200'' reason # fs) 200 w1" "flows w1 s"
      "webclient_get_file fresh (url_text h port path) True w = save_body (w1\<lparr>memory := memory w1 - 1\<rparr>)" by blast
  then have "at_body WEBCLIENT_HEADER_BUFSZ (status_line v ''200'' reason # fs) 200 (w1\<lparr>memory := memory w1 - 1\<rparr>)" "flows (w1\<lparr>memory := memory w1 - 1\<rparr>) s"
    by (simp_all add: at_body_memory)
  from save_plain [OF this] show ?thesis using w1(1,3) by (simp add: at_body_def)
qed

text \<open>
  C18. Chunked bodies: the file holds the data of all chunks and nothing else, for any chunk sizes below \<open>2 ^ 31\<close>, whatever the
  pieces in which sizes and data arrive.
\<close>

theorem get_file_joins_chunks:
  assumes "client_ready WEBCLIENT_HEADER_BUFSZ fresh h port path w"
    and "answers WEBCLIENT_HEADER_BUFSZ w h path (status_line v ''200'' reason # fs) (n @ CRLF @ d @ chunk_tail cs t)"
    and "chunked (status_line v ''200'' reason # fs)"
    and "field_of ''Content-Length'' (status_line v ''200'' reason # fs) = None"
    and "list_all good_chunk ((n, d) # cs)"
  shows "webclient_get_file fresh (url_text h port path) True w = Some (0, Some (d @ concat (map snd cs)))"
proof -
  from download_chunked [OF assms(1-3)] obtain w1 where
    w1: "at_body WEBCLIENT_HEADER_BUFSZ (status_line v ''200'' reason # fs) 200 w1" "flows w1 (n @ CRLF @ d @ chunk_tail cs t)"
    and q: "\<And>ps i j. first_chunk w1 = Some (w1\<lparr>rx := ps, chunk_sz := i, chunk_offset := j\<rparr>) \<Longrightarrow>
       webclient_get_file fresh (url_text h port path) True w
         = save_body (w1\<lparr>rx := ps, chunk_sz := i, chunk_offset := j, memory := memory w1 - 1\<rparr>)" by blast
  have g: "hex_digits n" "n \<noteq> []" "length n \<le> 14" "d \<noteq> []" "hex_number n = int (length d)" "length d < 2 ^ 31" "list_all good_chunk cs"
    using assms(5) by (simp_all add: good_chunk_def)
  have c: "clamp (hex_number n) = int (length d)" using g(5,6) by (simp add: clamp_def)
  have "16 \<le> header_size w1" using w1(1) buffer_size(2) by (simp add: at_body_def)
  from first_chunk_size [OF w1(2) g(1,2,3) this] obtain ps where
    p: "first_chunk w1 = Some (w1\<lparr>rx := ps, chunk_sz := int (length d), chunk_offset := 0\<rparr>)" "flows (w1\<lparr>rx := ps\<rparr>) (d @ chunk_tail cs t)"
    unfolding c by blast
  let ?w = "w1\<lparr>rx := ps, chunk_sz := int (length d), chunk_offset := 0, memory := memory w1 - 1\<rparr>"
  have b: "chunk_body ?w (d @ concat (map snd cs))"
    unfolding chunk_body_def using p(2) g by (intro disjI2 exI [of _ d] exI [of _ cs] exI [of _ t]) simp
  have "content_length ?w < 0" using w1(1) assms(4) by (simp add: at_body_def declared_length_def)
  then show ?thesis using q [OF p(1)] chunk_source.read_all_body [OF b buffer_size(1), of "[]"] by (auto simp: save_body_def)
qed

theorem get_file_saves_body_witness:
  "webclient_get_file demo_fresh (url_text ''h'' None ''s'') True
     (demo_web [''HTTP/1.1 200 OK'' @ [CHR 0x0D], [CHR 0x0A] @ ''Content-Length: 3'' @ CRLF @ CRLF @ ''[1'', '']xx''])
   = Some (0, Some ''[1]'')"
proof -
  let ?p = "[''HTTP/1.1 200 OK'' @ [CHR 0x0D], [CHR 0x0A] @ ''Content-Length: 3'' @ CRLF @ CRLF @ ''[1'', '']xx'']"
  have a: "answers WEBCLIENT_HEADER_BUFSZ (demo_web ?p) ''h'' ''s'' (demo_head ''Content-Length: 3'') ''[1]xx''"
    by (rule demo_server_answers) code_simp+
  have "\<not> chunked (demo_head ''Content-Length: 3'')" "declared_length (demo_head ''Content-Length: 3'') (- 1) = 3"
    by code_simp+
  then show ?thesis using get_file_saves_body [OF demo_client_ready a] by simp
qed

theorem get_file_joins_chunks_witness:
  "webclient_get_file demo_fresh (url_text ''h'' None ''s'') True
     (demo_web [''HTTP/1.1 200 OK'' @ CRLF @ ''Transfer-Encoding: chunked'' @ CRLF, CRLF @ ''2'' @ CRLF @ ''ab'' @ [CHR 0x0D],
        [CHR 0x0A] @ ''a'' @ CRLF @ ''01234'', ''56789'' @ CRLF @ ''0'' @ CRLF @ CRLF])
   = Some (0, Some ''ab0123456789'')"
proof -
  let ?p = "[''HTTP/1.1 200 OK'' @ CRLF @ ''Transfer-Encoding: chunked'' @ CRLF, CRLF @ ''2'' @ CRLF @ ''ab'' @ [CHR 0x0D],
    [CHR 0x0A] @ ''a'' @ CRLF @ ''01234'', ''56789'' @ CRLF @ ''0'' @ CRLF @ CRLF]"
  let ?h = "demo_head ''Transfer-Encoding: chunked''"
  have a: "answers WEBCLIENT_HEADER_BUFSZ (demo_web ?p) ''h'' ''s'' ?h (''2'' @ CRLF @ ''ab'' @ chunk_tail [(''a'', ''0123456789'')] CRLF)"
    by (rule demo_server_answers) code_simp+
  have f: "chunked ?h" "field_of ''Content-Length'' ?h = None" by code_simp+
  have "list_all good_chunk [(''2'', ''ab''), (''a'', ''0123456789'')]"
    by (simp add: good_chunk_def hex_digits_def hex_value_def hex_number_def)
  from get_file_joins_chunks [OF demo_client_ready a f this] show ?thesis by simp
qed

lemma redirect_codes:
  "atoi ''301'' = 301" "atoi ''302'' = 302" "no_blank ''301''" "no_blank ''302''"
  by code_simp+

text \<open>
  C19. A redirection crashes the download: \<open>webclient_get\<close> closes and frees the session of its caller, and \<open>webclient_get_file\<close>
  goes on with the freed session, whatever the new address answers.
\<close>

theorem get_file_redirected_crash:
  assumes "client_ready WEBCLIENT_HEADER_BUFSZ fresh h port path w"
    and "answers WEBCLIENT_HEADER_BUFSZ w h path (status_line v code reason # fs) s"
    and "code \<in> {''301'', ''302''}"
    and "\<not> chunked (status_line v code reason # fs)"
    and "field_of ''Location'' (status_line v code reason # fs) = Some new_url"
  shows "webclient_get_file fresh (url_text h port path) file_ok w = None"
proof -
  let ?ls = "status_line v code reason # fs" and ?n = "get_fuel w" and ?url = "url_text h port path"
  have c: "no_blank code" "code \<noteq> []" "atoi code = 301 \<or> atoi code = 302"
    using assms(3) redirect_codes by auto
  from download_head [OF assms(1,2) c(1,2)] assms(4) obtain w1 where
    w1: "at_body WEBCLIENT_HEADER_BUFSZ ?ls (atoi code) w1" "0 < memory w1" "webclient_session_create (fresh ?n) w = Some (created (fresh ?n) w)"
    and q: "webclient_get ?n fresh ?url (created (fresh ?n) w) = followed fresh (?n - 1) (Some (atoi code, w1))" by auto
  have r: "redirects (atoi code) w1 = Some (Some new_url)"
    using at_body_chunk_redirects(2) [OF answers_head [OF assms(2)] w1(1), of "atoi code"] c(3) assms(5) by auto
  have m: "web_alloc w1 = Some (w1\<lparr>memory := memory w1 - 1\<rparr>)" using w1(2) by (simp add: web_alloc_def)
  have "\<not> atoi code \<le> 0" using c(3) by auto
  then have "followed fresh (?n - 1) (Some (atoi code, w1)) = None \<or> (\<exists>rc w'. followed fresh (?n - 1) (Some (atoi code, w1)) = Some (Gone rc w'))"
    using r m by (simp add: followed_def split: option.split got.split)
  then show ?thesis using q w1(3) by (auto simp: webclient_get_file_def created_fuel)
qed

theorem get_file_redirected_crash_witness:
  "webclient_get_file demo_fresh (url_text ''h'' None ''s'') True
     (demo_web [''HTTP/1.1 302 Found'' @ CRLF @ ''Location: http://h/t'' @ CRLF @ CRLF]) = None"
proof -
  let ?h = "[status_line CHR ''1'' ''302'' ''Found'', ''Location: http://h/t'']"
  have a: "answers WEBCLIENT_HEADER_BUFSZ (demo_web [''HTTP/1.1 302 Found'' @ CRLF @ ''Location: http://h/t'' @ CRLF @ CRLF]) ''h'' ''s'' ?h []"
    by (rule demo_server_answers) code_simp+
  have "\<not> chunked ?h" "field_of ''Location'' ?h = Some ''http://h/t''" by code_simp+
  from get_file_redirected_crash [OF demo_client_ready a _ this] show ?thesis by simp
qed

text \<open>The body of an empty chunked answer is not empty: what follows its size line is read as a body without a length.\<close>

lemma get_file_empty_chunks:
  assumes "client_ready WEBCLIENT_HEADER_BUFSZ fresh h port path w"
    and "answers WEBCLIENT_HEADER_BUFSZ w h path (status_line v ''200'' reason # fs) (''0'' @ CRLF @ s)"
    and "chunked (status_line v ''200'' reason # fs)"
    and "field_of ''Content-Length'' (status_line v ''200'' reason # fs) = None"
  shows "webclient_get_file fresh (url_text h port path) True w = Some (0, Some s)"
proof -
  from download_chunked [OF assms(1-3)] obtain w1 where
    w1: "at_body WEBCLIENT_HEADER_BUFSZ (status_line v ''200'' reason # fs) 200 w1" "flows w1 (''0'' @ CRLF @ s)"
    and q: "\<And>ps i j. first_chunk w1 = Some (w1\<lparr>rx := ps, chunk_sz := i, chunk_offset := j\<rparr>) \<Longrightarrow>
       webclient_get_file fresh (url_text h port path) True w
         = save_body (w1\<lparr>rx := ps, chunk_sz := i, chunk_offset := j, memory := memory w1 - 1\<rparr>)" by blast
  have z: "hex_digits ''0''" "''0'' \<noteq> []" "length ''0'' \<le> 14" "clamp (hex_number ''0'') = 0"
    by (simp_all add: hex_digits_def hex_value_def hex_number_def clamp_def)
  have "16 \<le> header_size w1" using w1(1) buffer_size(2) by (simp add: at_body_def)
  from first_chunk_size [OF w1(2) z(1,2,3) this] obtain ps where
    p: "first_chunk w1 = Some (w1\<lparr>rx := ps, chunk_sz := 0, chunk_offset := 0\<rparr>)" "flows (w1\<lparr>rx := ps\<rparr>) s" unfolding z(4) by blast
  let ?w = "w1\<lparr>rx := ps, chunk_sz := 0, chunk_offset := 0, memory := memory w1 - 1\<rparr>"
  have c: "content_length ?w < 0" using w1(1) assms(4) by (simp add: at_body_def declared_length_def)
  then have b: "open_body ?w s" using p(2) by (simp add: open_body_def)
  show ?thesis using q [OF p(1)] c open_source.read_all_body [OF b buffer_size(1), of "[]"] by (auto simp: save_body_def)
qed

text \<open>A size line of sixteen bytes or more, as with a chunk extension, is written behind its array.\<close>

lemma get_file_long_size_line:
  assumes "client_ready WEBCLIENT_HEADER_BUFSZ fresh h port path w"
    and "answers WEBCLIENT_HEADER_BUFSZ w h path (status_line v ''200'' reason # fs) (l @ CRLF @ s)"
    and "chunked (status_line v ''200'' reason # fs)"
    and "CHR 0x0A \<notin> set l" "16 \<le> length l" "length l + 2 \<le> WEBCLIENT_HEADER_BUFSZ"
  shows "webclient_get_file fresh (url_text h port path) True w = None"
proof -
  from download_chunked [OF assms(1-3)] obtain w1 where
    w1: "at_body WEBCLIENT_HEADER_BUFSZ (status_line v ''200'' reason # fs) 200 w1" "flows w1 (l @ CRLF @ s)"
      "first_chunk w1 = None \<longrightarrow> webclient_get_file fresh (url_text h port path) True w = None" by (elim exE conjE)
  have "length l + 2 \<le> header_size w1" using w1(1) assms(6) by (simp add: at_body_def)
  from first_chunk_long [OF w1(2) assms(4,5) this] show ?thesis using w1(3) by blast
qed

text \<open>A status line that ends behind the code, which the protocol allows, makes the search for the blank pass its end.\<close>

lemma status_of_unfinished:
  assumes "no_blank code"
  shows "status_of (''HTTP/1.'' @ [v] @ '' '' @ code) = None"
proof -
  have "dropWhile is_blank (CHR '' '' # code) = code" using assms by (cases code) (simp_all add: is_blank_def no_blank_def)
  then show ?thesis using assms rt_strstr_head [of "''HTTP/1.''" "[v] @ '' '' @ code"]
    by (simp add: status_of_def no_blank_def)
qed

end
