(* ===== verification/WebPage.thy ===== *)
theory WebPage
  imports WebSongs WebDownload
begin

text \<open>
  The song list page on top of the HTTP client: the loops of \<open>iotb_lcd_show_httpwebserver\<close> over \<open>webclient_read\<close>, whose pieces go
  through the receive buffer to the JSON parser and to the display thread.
\<close>

definition GET_HEADER_BUFSZ :: nat where "GET_HEADER_BUFSZ = 1024"

text \<open>The pieces that successful reads give: without a length until the end, else up to the length.\<close>

function page_reads :: "web \<Rightarrow> (string list \<times> web) option" where
  "page_reads w =
     (case webclient_read (nat GET_RESP_BUFSZ) w of
        None \<Rightarrow> None
      | Some (bytes_read, piece, w') \<Rightarrow>
          if bytes_read \<le> 0 then Some ([], w') else map_option (\<lambda>(ps, w). (piece # ps, w)) (page_reads w'))"
  by pat_completeness auto
termination
  by (relation "measure pending") (auto dest: webclient_read_pending)

function page_reads_sized :: "nat \<Rightarrow> nat \<Rightarrow> web \<Rightarrow> (string list \<times> web) option" where
  "page_reads_sized len pos w =
     (case webclient_read (if len - pos > nat GET_RESP_BUFSZ then nat GET_RESP_BUFSZ else len - pos) w of
        None \<Rightarrow> None
      | Some (bytes_read, piece, w') \<Rightarrow>
          if bytes_read \<le> 0 then Some ([], w')
          else if pos + nat bytes_read < len then
            map_option (\<lambda>(ps, w). (piece # ps, w)) (page_reads_sized len (pos + nat bytes_read) w')
          else Some ([piece], w'))"
  by pat_completeness auto
termination
  by (relation "measure (\<lambda>(n, k, w). pending w)") (auto dest: webclient_read_pending)

declare page_reads.simps [simp del] page_reads_sized.simps [simp del]

text \<open>The outer \<open>None\<close> is an access to freed memory; without pieces the thread has given up.\<close>

definition page_fetch :: "(nat \<Rightarrow> string) \<Rightarrow> web \<Rightarrow> (string list option \<times> web) option" where
  "page_fetch fresh w =
     (case web_alloc w of
        None \<Rightarrow> Some (None, w)
      | Some w \<Rightarrow>
          (case webclient_session_create (fresh (get_fuel w)) w of
             None \<Rightarrow> Some (None, w)
           | Some w \<Rightarrow>
               (case webclient_get (get_fuel w) fresh WEBSERVER_URL w of
                  None \<Rightarrow> None
                | Some (Gone rc w) \<Rightarrow> None
                | Some (Got status w) \<Rightarrow>
                    if status \<noteq> 200 then Some (None, w)
                    else
                      (case web_alloc w of
                         None \<Rightarrow> Some (None, w)
                       | Some w \<Rightarrow>
                           map_option (\<lambda>(ps, w). (Some ps, w))
                             (if webclient_content_length_get w < 0 then page_reads w
                              else page_reads_sized (nat (webclient_content_length_get w)) 0 w)))))"

definition page_songs :: "fp_env \<Rightarrow> (nat \<Rightarrow> string) \<Rightarrow> web \<Rightarrow> lcd_state \<Rightarrow> lcd_state option" where
  "page_songs fe fresh w st =
     (case page_fetch fresh w of
        None \<Rightarrow> None
      | Some (None, w) \<Rightarrow> Some st
      | Some (Some pieces, w) \<Rightarrow> show_songs_of_reply fe pieces (memory w) st)"

subsection \<open>A reply that fits into the buffer arrives in one piece\<close>

lemma recv_memory: "webclient_recv n w = (k, bytes, w') \<Longrightarrow> memory w' = memory w"
  by (auto simp: webclient_recv_def split: if_splits list.splits)

lemma read_loop_memory: "read_loop left acc w = (bytes, w') \<Longrightarrow> memory w' = memory w"
proof (induction left acc w rule: read_loop.induct)
  case (1 left acc w)
  obtain n bs w1 where r: "webclient_recv left w = (n, bs, w1)" by (cases "webclient_recv left w")
  have u: "read_loop left acc w = (if n \<le> 0 then (acc, w1)
      else if left \<le> nat n then (acc @ bs, w1) else read_loop (left - nat n) (acc @ bs) w1)"
    using r by (subst read_loop.simps) simp
  show ?case using recv_memory [OF r] "1.IH" [OF r [symmetric] refl] "1.prems" unfolding u by (auto split: if_splits)
qed

lemma read_plain_memory:
  assumes "webclient_read len w = Some (n, bytes, w')" "chunk_sz w = 0"
  shows "memory w' = memory w"
proof -
  let ?l = "if content_length w > 0 \<and> content_remainder w < len then content_remainder w else len"
  obtain bs2 w2 where l: "read_loop ?l [] w = (bs2, w2)" by (cases "read_loop ?l [] w")
  show ?thesis using assms l read_loop_memory [OF l]
    by (auto simp: webclient_read_def Let_def closesocket_def split: if_splits)
qed

lemma page_reads_short:
  assumes "open_body w s" "s \<noteq> []" "length s \<le> nat GET_RESP_BUFSZ"
  shows "\<exists>w'. page_reads w = Some ([s], w') \<and> memory w' = memory w"
proof -
  have b: "0 < nat GET_RESP_BUFSZ" by (simp add: GET_RESP_BUFSZ_def)
  from read_open [OF assms(1) b] assms(2,3) obtain ps where
    r: "webclient_read (nat GET_RESP_BUFSZ) w = Some (int (length s), s, w\<lparr>rx := ps\<rparr>)" "flows (w\<lparr>rx := ps\<rparr>) []" by auto
  have o: "open_body (w\<lparr>rx := ps\<rparr>) []" using r(2) assms(1) by (simp add: open_body_def)
  from read_open [OF o b] obtain n w' where e: "n \<le> 0" "webclient_read (nat GET_RESP_BUFSZ) (w\<lparr>rx := ps\<rparr>) = Some (n, [], w')" by auto
  have m: "memory w' = memory w" using read_plain_memory [OF e(2)] assms(1) by (simp add: open_body_def)
  have "page_reads (w\<lparr>rx := ps\<rparr>) = Some ([], w')" using e by (subst page_reads.simps) simp
  then show ?thesis using r(1) assms(2) m by (subst page_reads.simps) simp
qed

lemma page_reads_sized_short:
  assumes "sized_body w s" "s \<noteq> []" "length s = len" "len \<le> nat GET_RESP_BUFSZ"
  shows "\<exists>w'. page_reads_sized len 0 w = Some ([s], w') \<and> memory w' = memory w"
proof -
  have "0 < len" using assms(2,3) by auto
  from read_sized [OF assms(1) this assms(2)] obtain w' where
    r: "webclient_read len w = Some (int len, s, w')" "memory w' = memory w" using assms(3) by auto
  then show ?thesis using assms(3,4) \<open>0 < len\<close> by (intro exI [of _ w']) (subst page_reads_sized.simps, simp)
qed

lemma page_body_short:
  assumes "at_body sz ls st w" "flows w s" "s \<noteq> []" "length s \<le> nat GET_RESP_BUFSZ"
    "content_length w < 0 \<or> content_length w = int (length s)"
  shows "\<exists>w'. (if content_length w < 0 then page_reads w else page_reads_sized (nat (content_length w)) 0 w) = Some ([s], w')
    \<and> memory w' = memory w"
proof (cases "content_length w < 0")
  case True
  then have "open_body w s" using assms(1,2) by (simp add: open_body_def at_body_def)
  from page_reads_short [OF this assms(3,4)] show ?thesis using True by simp
next
  case False
  then have l: "content_length w = int (length s)" "0 < content_length w" using assms(3,5) by auto
  have "content_length w < 2 ^ 31" "content_remainder w = size_t (content_length w)"
    using assms(1) l(2) declared_length_bound by (simp_all add: at_body_def)
  then have "content_remainder w = length s" using l by (simp add: size_t_def)
  then have "sized_body w s" using assms(1,2) l by (auto simp: sized_body_def at_body_def flows_def)
  from page_reads_sized_short [OF this assms(3) refl assms(4)] show ?thesis using False l by simp
qed

subsection \<open>From the server to the song list\<close>

definition page_answers :: "web \<Rightarrow> string list \<Rightarrow> string \<Rightarrow> bool" where
  "page_answers w ls s \<longleftrightarrow> answers GET_HEADER_BUFSZ w ''123.207.116.104'' ''dir'' ls s"

lemma server_url: "WEBSERVER_URL = url_text ''123.207.116.104'' (Some ''1234'') ''dir''"
  by (simp add: WEBSERVER_URL_def url_text_def)

lemma page_fetch_short:
  assumes "length (fresh (get_fuel w)) = GET_HEADER_BUFSZ" "9 \<le> memory w"
    and "page_answers w (status_line v ''200'' reason # fs) s" "\<not> chunked (status_line v ''200'' reason # fs)"
    and "s \<noteq> []" "length s \<le> nat GET_RESP_BUFSZ"
    and "declared_length (status_line v ''200'' reason # fs) (- 1) \<in> {- 1, int (length s)}"
  shows "\<exists>w'. page_fetch fresh w = Some (Some [s], w') \<and> memory w' = memory w - 8"
proof -
  let ?ls = "status_line v ''200'' reason # fs" and ?w = "w\<lparr>memory := memory w - 1\<rparr>" and ?n = "get_fuel w"
  have n: "get_fuel ?w = ?n" by (simp add: get_fuel_def)
  have m: "8 \<le> memory w - 1" using assms(2) by simp
  have r: "client_ready GET_HEADER_BUFSZ fresh ''123.207.116.104'' (Some ''1234'') ''dir'' ?w"
    using assms(1) m n by (simp add: client_ready_def host_ok_def port_ok_def request_text_def GET_HEADER_BUFSZ_def)
  have a: "answers GET_HEADER_BUFSZ ?w ''123.207.116.104'' ''dir'' ?ls s" using assms(3) by (simp add: page_answers_def answers_def)
  from download_head [OF r a atoi_200(2,3)] assms(4) obtain w1 where
    w1: "at_body GET_HEADER_BUFSZ ?ls 200 w1" "flows w1 s" "memory w1 = memory w - 7"
    "webclient_session_create (fresh ?n) ?w = Some (created (fresh ?n) ?w)"
    and q: "webclient_get ?n fresh WEBSERVER_URL (created (fresh ?n) ?w) = followed fresh (?n - 1) (Some (200, w1))"
    unfolding atoi_200(1) n server_url by auto
  have "redirects 200 w1 = Some None" using at_body_chunk_redirects(2) [OF answers_head [OF a] w1(1), of 200] by simp
  then have g: "webclient_get ?n fresh WEBSERVER_URL (created (fresh ?n) ?w) = Some (Got 200 w1)" using q by (simp add: followed_def)
  let ?w1 = "w1\<lparr>memory := memory w1 - 1\<rparr>"
  have b: "at_body GET_HEADER_BUFSZ ?ls 200 ?w1" "flows ?w1 s" using w1(1,2) by (simp_all add: at_body_memory)
  have l: "content_length ?w1 < 0 \<or> content_length ?w1 = int (length s)" using b(1) assms(7) by (auto simp: at_body_def)
  from page_body_short [OF b assms(5,6) l] obtain w' where
    p: "(if content_length ?w1 < 0 then page_reads ?w1 else page_reads_sized (nat (content_length ?w1)) 0 ?w1) = Some ([s], w')"
    "memory w' = memory w1 - 1" by auto
  have al: "web_alloc w = Some ?w" "web_alloc w1 = Some ?w1" using assms(2) w1(3) by (simp_all add: web_alloc_def)
  have "page_fetch fresh w = Some (Some [s], w')"
    unfolding page_fetch_def al option.case n w1(4) created_fuel g webclient_content_length_get_def p(1) got.case by (simp add: al p(1) webclient_content_length_get_def)
  then show ?thesis using p(2) w1(3) by simp
qed



end
