(* ===== verification/LcdServed.thy ===== *)
theory LcdServed
  imports LcdMenu
begin

text \<open>
  The display thread of \<open>LcdMenu\<close> with a server that answers: as long as the web server sends lists of the same number of songs
  with names that fit, no key makes a page handler access anything invalid. Without a list, the first click of KEY0 does.
\<close>

subsection \<open>States that change no song\<close>

lemma songs_ok_cong:
  assumes "songlist a = songlist b" "item_num a = item_num b" "songlist_num a = songlist_num b"
  shows "songs_ok a = songs_ok b"
proof -
  have "song a = song b" using assms(1) by (simp add: song_def fun_eq_iff)
  then show ?thesis using assms(2,3) by (simp add: songs_ok_def)
qed

definition selected :: "int \<Rightarrow> lcd_state \<Rightarrow> bool" where
  "selected n st \<longleftrightarrow> 0 \<le> songlist_num st \<and> songlist_num st < n"

definition loaded :: "int \<Rightarrow> lcd_state \<Rightarrow> bool" where
  "loaded n st \<longleftrightarrow> songs_ok st \<and> item_num st = n"

lemma loaded_selected: "loaded n st \<Longrightarrow> selected n st"
  by (simp add: loaded_def songs_ok_def selected_def)

lemma loaded_cong:
  "\<lbrakk>songlist a = songlist b; item_num a = item_num b; songlist_num a = songlist_num b\<rbrakk> \<Longrightarrow> loaded n a = loaded n b"
  using songs_ok_cong [of a b] by (simp add: loaded_def)

lemma loaded_simps [simp]:
  "loaded n (emit es st) = loaded n st" "loaded n (set_event i e st) = loaded n st" "loaded n (set_content i c st) = loaded n st"
  "loaded n (st\<lparr>show_cnt := w\<rparr>) = loaded n st" "loaded n (st\<lparr>show_menu_index := k\<rparr>) = loaded n st"
  "loaded n (st\<lparr>iotb_lcd_menu_index := k\<rparr>) = loaded n st" "loaded n (st\<lparr>iotb_music_is_play := b\<rparr>) = loaded n st"
  "loaded n (st\<lparr>iotb_music_is_resume := b\<rparr>) = loaded n st" "loaded n (st\<lparr>volume_value := v\<rparr>) = loaded n st"
  "loaded n (st\<lparr>lcd_fds := f\<rparr>) = loaded n st"
  by (simp_all add: loaded_def songs_ok_def song_def emit_def set_event_def set_content_def set_menu_def)

lemma selected_simps [simp]:
  "selected n (emit es st) = selected n st" "selected n (set_event i e st) = selected n st" "selected n (set_content i c st) = selected n st"
  "selected n (st\<lparr>show_cnt := w\<rparr>) = selected n st" "selected n (st\<lparr>show_menu_index := k\<rparr>) = selected n st"
  "selected n (st\<lparr>iotb_lcd_menu_index := k\<rparr>) = selected n st"
  by (simp_all add: selected_def emit_def set_event_def set_content_def set_menu_def)

lemma the_menu_frame [simp]: "the_menu i (emit es st) = the_menu i st"
  by (simp add: the_menu_def emit_def)

lemma menu_set:
  "i < length (lcd_instance st) \<Longrightarrow> content_type (the_menu i (set_event i e (set_content i c st))) = c"
  "i < length (lcd_instance st) \<Longrightarrow> current_event (the_menu i (set_event i e (set_content i c st))) = e"
  by (simp_all add: the_menu_def set_event_def set_content_def set_menu_def)

lemma lcd_inv_length: "lcd_inv st \<Longrightarrow> length (lcd_instance st) = 4"
  by (auto simp: lcd_inv_def dest: arg_cong [where f = length])

subsection \<open>The handlers\<close>

definition serving :: "int \<Rightarrow> lcd_env \<Rightarrow> bool" where
  "serving n env \<longleftrightarrow> env_url_ok env \<and> env_session_ok env \<and> env_get_status env = 200 \<and> env_buffer_ok env \<and> 6 < env_memory env
     \<and> (\<exists>names. env_reply env = Song_array names \<and> names \<noteq> [] \<and> int (min (length names) 6) = n \<and> (\<forall>s \<in> set names. length s < 30))"

lemma serving_memory: "serving n env \<Longrightarrow> env_memory env \<noteq> 0"
  by (simp add: serving_def)

lemma connect_server_total:
  assumes "serving n env" "selected n st"
  shows "\<exists>st'. connect_server env st = Some (st', False) \<and> loaded n st'"
proof -
  obtain names where names: "env_reply env = Song_array names" "names \<noteq> []" "int (min (length names) 6) = n" "\<forall>s \<in> set names. length s < 30"
    using assms(1) by (auto simp: serving_def)
  have "\<exists>st'. fetch_songs env s = Some st' \<and> loaded n st'" if "selected n s" for s
  proof -
    have "min (length names) 6 \<le> 6" "6 < env_memory env" using assms(1) by (simp_all add: serving_def)
    then have "min (length names) 6 < env_memory env" by linarith
    from webserver_data_parse_loads [OF names(2,4) this] have load:
      "\<exists>st'. webserver_data_parse (env_memory env) (env_reply env) r = Some st' \<and> loaded n st'" if "selected n r" for r
      using that names(1,3) by (fastforce simp: selected_def loaded_def)
    show ?thesis using that unfolding fetch_songs_def Let_def by (intro load) simp
  qed
  from this [of "emit [Web_get WEBSERVER_URL] st"] show ?thesis
    using assms by (auto simp: connect_server_def serving_def)
qed

lemma select_song_total:
  assumes "loaded n st"
  shows "\<exists>st'. select_song i st = Some st' \<and> loaded n st'"
proof -
  have "\<exists>st1. (if current_event (the_menu i st) = IOTB_LCD_EVENT_NEXTSONG then next_song i st else Some st) = Some st1 \<and> loaded n st1"
    using assms next_song_spec [of st i] by (auto simp: loaded_def)
  then obtain st1 where 1: "(if current_event (the_menu i st) = IOTB_LCD_EVENT_NEXTSONG then next_song i st else Some st) = Some st1" "loaded n st1"
    by blast
  have "\<exists>st2. (if current_event (the_menu i st1) = IOTB_LCD_EVENT_LASTSONG then last_song i st1 else Some st1) = Some st2 \<and> loaded n st2"
    using 1(2) last_song_spec [of st1 i] by (auto simp: loaded_def)
  then show ?thesis using 1 by (auto simp: select_song_def)
qed

lemma httpwebserver_total:
  assumes "selected n st" "loaded n st \<or> serving n env \<and> content_type (the_menu i st) = IOTB_LCD_STATIC_CONTENT"
    and "connects i st \<Longrightarrow> serving n env"
  shows "\<exists>st'. iotb_lcd_show_httpwebserver env i st = Some st' \<and> loaded n st'"
proof -
  let ?st1 = "web_page i st"
  have s: "selected n ?st1" "connects i ?st1 = connects i st" and l: "loaded n ?st1 = loaded n st"
    using assms(1) by (simp_all add: web_page_def connects_def)
  have "\<exists>st2. (if connects i ?st1 then connect_server env ?st1 else Some (?st1, False)) = Some (st2, False) \<and> loaded n st2"
  proof (cases "connects i st")
    case True
    then show ?thesis using connect_server_total [OF assms(3) s(1)] s(2) by simp
  next
    case False
    then show ?thesis using assms(2) s(2) l by (auto simp: connects_def)
  qed
  then obtain st2 where 2: "(if connects i ?st1 then connect_server env ?st1 else Some (?st1, False)) = Some (st2, False)" "loaded n st2"
    by blast
  then show ?thesis using select_song_total [OF 2(2), of i] unfolding iotb_lcd_show_httpwebserver_def Let_def by auto
qed

lemma enter_music_total:
  assumes "loaded n st" "env_memory env \<noteq> 0"
  shows "\<exists>st'. enter_music env i st = Some st' \<and> loaded n st'"
proof -
  obtain s where "song st (songlist_num st) = Some s"
    using songs_okD [of st "songlist_num st"] assms(1) by (auto simp: loaded_def songs_ok_def)
  then show ?thesis using assms by (auto simp: enter_music_def Let_def)
qed

lemma toggle_play_total:
  assumes "loaded n st"
  shows "\<exists>st'. toggle_play i st = Some st' \<and> loaded n st'"
proof -
  obtain s where "song st (songlist_num st) = Some s"
    using songs_okD [of st "songlist_num st"] assms by (auto simp: loaded_def songs_ok_def)
  then show ?thesis using assms by (auto simp: toggle_play_def)
qed

lemma music_controls_loaded: "loaded n (music_controls i st) = loaded n st"
  by (simp add: music_controls_def Let_def toggle_pause_def volume_down_def volume_up_def)

lemma music_total:
  assumes "loaded n st" "env_memory env \<noteq> 0"
  shows "\<exists>st'. iotb_lcd_show_music env i st = Some st' \<and> loaded n st'"
proof -
  let ?st0 = "music_page i st"
  have 0: "loaded n ?st0" using assms(1) by (simp add: music_page_def)
  have "\<exists>st1. (if current_event (the_menu i ?st0) = IOTB_LCD_EVENT_ENTER then enter_music env i ?st0 else Some ?st0) = Some st1 \<and> loaded n st1"
    using 0 enter_music_total [OF 0 assms(2)] by simp
  then obtain st1 where 1: "(if current_event (the_menu i ?st0) = IOTB_LCD_EVENT_ENTER then enter_music env i ?st0 else Some ?st0) = Some st1"
    "loaded n st1" by blast
  have "\<exists>st2. (if current_event (the_menu i st1) = IOTB_LCD_EVENT_WKUP_DOUBLE_CLICK then toggle_play i st1 else Some st1) = Some st2 \<and> loaded n st2"
    using 1(2) toggle_play_total [OF 1(2)] by simp
  then show ?thesis using 1(1) by (auto simp: iotb_lcd_show_music_def music_controls_loaded)
qed

lemma free_songs_total:
  assumes "loaded n st"
  shows "\<exists>st'. free_songs st = Some st' \<and> selected n st'"
proof -
  have n: "0 < item_num st" "song st (item_num st - 1) \<noteq> None" using assms by (simp_all add: loaded_def songs_ok_def)
  then obtain xs where xs: "songlist st = Some xs" "nat (item_num st - 1) < length xs"
    by (auto simp: song_def split: option.splits if_splits)
  then show ?thesis using n(1) loaded_selected [OF assms] by (simp add: free_songs_def selected_def)
qed

lemma sdcard_total:
  assumes "selected n st" "loaded n st \<or> content_type (the_menu i st) \<noteq> IOTB_LCD_STATIC_CONTENT"
  shows "\<exists>st'. iotb_lcd_show_sdcard env i st = Some st' \<and> selected n st'"
proof -
  let ?e = "emit [Lcd_clear WHITE, Lcd_set_color WHITE BLACK, Lcd_show_string 32 8 32 ''File System''] st"
  have "\<exists>st1. (if content_type (the_menu i st) = IOTB_LCD_STATIC_CONTENT then free_songs ?e else Some st) = Some st1 \<and> selected n st1"
    using assms free_songs_total [of n ?e] by auto
  then show ?thesis by (auto simp: iotb_lcd_show_sdcard_def split: option.split)
qed

subsection \<open>Pages and rounds\<close>

definition ready :: "int \<Rightarrow> lcd_state \<Rightarrow> bool" where
  "ready n st \<longleftrightarrow> lcd_inv st \<and> selected n st \<and> (show_menu_index st \<noteq> 3 \<longrightarrow> loaded n st)"

lemma ready_updates [simp]:
  "ready n (set_event i e st) = ready n st" "ready n (set_content i c st) = ready n st"
  "ready n (st\<lparr>show_cnt := w\<rparr>) = ready n st"
proof -
  have "show_menu_index (set_event i e st) = show_menu_index st" "show_menu_index (set_content i c st) = show_menu_index st"
    by (simp_all add: set_event_def set_content_def set_menu_def)
  then show "ready n (set_event i e st) = ready n st" "ready n (set_content i c st) = ready n st"
    "ready n (st\<lparr>show_cnt := w\<rparr>) = ready n st"
    by (simp_all add: ready_def)
qed

text \<open>A page that is shown without entering it.\<close>

lemma handle_stays:
  assumes "ready n st" "serving n env" "content_type (the_menu (unat (show_menu_index st)) st) \<noteq> IOTB_LCD_STATIC_CONTENT"
  shows "\<exists>st'. lcd_handle env (unat (show_menu_index st)) st = Some st' \<and> ready n st'"
proof -
  have inv: "lcd_inv st" and sel: "selected n st" using assms(1) by (simp_all add: ready_def)
  consider "show_menu_index st = 1" "loaded n st" | "show_menu_index st = 2" "loaded n st" | "show_menu_index st = 3"
    using assms(1) by (auto simp: ready_def lcd_inv_def)
  then have "\<exists>st'. lcd_handle env (unat (show_menu_index st)) st = Some st' \<and> selected n st' \<and> (show_menu_index st \<noteq> 3 \<longrightarrow> loaded n st')"
  proof cases
    case 1
    then show ?thesis using httpwebserver_total [OF sel, of env 1] assms(2) loaded_selected by (fastforce simp: lcd_handle_def)
  next
    case 2
    then show ?thesis using music_total [OF 2(2) serving_memory [OF assms(2)], of 2] loaded_selected by (fastforce simp: lcd_handle_def)
  next
    case 3
    then show ?thesis using sdcard_total [OF sel, of 3 env] assms(3) by (fastforce simp: lcd_handle_def)
  qed
  then show ?thesis using lcd_handle_kept kept_inv inv kept_pages unfolding ready_def by metis
qed

lemma leave_menu_total:
  assumes "ready n st" "serving n env"
  shows "\<exists>st'. leave_menu env st = Some st' \<and> ready n st' \<and> show_menu_index st' = show_menu_index st"
proof -
  let ?i = "unat (show_menu_index st)"
  let ?s = "set_event ?i IOTB_LCD_EVENT_EXIT (set_content ?i IOTB_LCD_CONTENT_NONE st)"
  have inv: "lcd_inv st" using assms(1) by (simp add: ready_def)
  have i: "?i < length (lcd_instance st)" using lcd_inv_length [OF inv] inv by (auto simp: lcd_inv_def)
  have idx: "show_menu_index ?s = show_menu_index st" by (simp add: set_event_def set_content_def set_menu_def)
  have same: "st\<lparr>show_menu_index := iotb_lcd_menu_index st\<rparr> = st" using inv by (simp add: lcd_inv_def)
  obtain st' where st': "lcd_handle env ?i ?s = Some st'" "ready n st'"
    using handle_stays [of n ?s env] assms menu_set(1) [OF i] unfolding idx by auto
  have k: "iotb_lcd_menu_index st = show_menu_index st" using inv by (simp add: lcd_inv_def)
  have "leave_menu env st = Some st'"
    using st'(1) same unfolding leave_menu_def Let_def iotb_lcd_get_menu_index_def k by simp
  then show ?thesis using st'(2) kept_pages [OF lcd_handle_kept [OF st'(1)]] unfolding idx by blast
qed

lemma enter_menu_total:
  assumes "ready n st" "serving n env" "k = 1 \<or> loaded n st \<and> (k = 2 \<or> k = 3)"
  shows "\<exists>st'. enter_menu env k st = Some st' \<and> ready n st' \<and> show_menu_index st' = k"
proof -
  let ?i = "unat k"
  let ?s = "set_event ?i IOTB_LCD_EVENT_ENTER (set_content ?i IOTB_LCD_STATIC_CONTENT (iotb_lcd_update_menu_index k (st\<lparr>show_menu_index := k\<rparr>)))"
  have inv: "lcd_inv st" and sel: "selected n ?s" and load: "loaded n ?s = loaded n st"
    using assms(1) by (simp_all add: ready_def iotb_lcd_update_menu_index_def)
  have "?i < length (lcd_instance (iotb_lcd_update_menu_index k (st\<lparr>show_menu_index := k\<rparr>)))"
    using lcd_inv_length [OF inv] assms(3) by (auto simp: iotb_lcd_update_menu_index_def)
  from menu_set(1) [OF this] have static: "content_type (the_menu ?i ?s) = IOTB_LCD_STATIC_CONTENT" .
  have "\<exists>st1. lcd_handle env ?i ?s = Some st1 \<and> selected n st1 \<and> (k \<noteq> 3 \<longrightarrow> loaded n st1)"
    using assms(3)
  proof (elim disjE conjE)
    assume "k = 1"
    then show ?thesis using httpwebserver_total [OF sel, of env ?i] static assms(2) loaded_selected by (fastforce simp: lcd_handle_def)
  next
    assume "loaded n st" "k = 2"
    then show ?thesis using music_total [OF _ serving_memory [OF assms(2)], of n ?s ?i] load loaded_selected by (fastforce simp: lcd_handle_def)
  next
    assume "loaded n st" "k = 3"
    then show ?thesis using sdcard_total [OF sel, of ?i env] load by (fastforce simp: lcd_handle_def)
  qed
  then obtain st1 where st1: "lcd_handle env ?i ?s = Some st1" "selected n st1" "k \<noteq> 3 \<longrightarrow> loaded n st1" by blast
  then have "enter_menu env k st = Some (st1\<lparr>show_cnt := refresh_time (the_menu ?i st1)\<rparr>)" by (simp add: enter_menu_def Let_def)
  moreover from enter_menu_inv [OF this inv] have "lcd_inv st1" "show_menu_index st1 = k" using assms(3) by auto
  ultimately show ?thesis using st1(2,3) by (simp add: ready_def)
qed

lemma switch_page_total:
  assumes "ready n st" "serving n env"
    and "f (show_menu_index st) = 1 \<or> show_menu_index st \<noteq> 3 \<and> (f (show_menu_index st) = 2 \<or> f (show_menu_index st) = 3)"
  shows "\<exists>st'. do { st1 \<leftarrow> leave_menu env st; enter_menu env (f (show_menu_index st1)) st1 } = Some st' \<and> ready n st'
    \<and> show_menu_index st' = f (show_menu_index st)"
proof -
  obtain st1 where st1: "leave_menu env st = Some st1" "ready n st1" "show_menu_index st1 = show_menu_index st"
    using leave_menu_total [OF assms(1,2)] by blast
  have "f (show_menu_index st1) = 1 \<or> loaded n st1 \<and> (f (show_menu_index st1) = 2 \<or> f (show_menu_index st1) = 3)"
    using assms(3) st1(2,3) by (auto simp: ready_def)
  from enter_menu_total [OF st1(2) assms(2) this] st1(1,3) show ?thesis by auto
qed

lemma on_click_total:
  assumes "ready n st" "serving n env"
  shows "\<exists>st'. on_click env ev st = Some st' \<and> ready n st'"
proof (cases "show_menu_index st = 2 \<and> has ev IOTB_LCD_EVENT_KEY2_CLICK")
  case True
  have "show_menu_index (set_content 2 IOTB_LCD_DYNAMIC_CONTENT st) = 2" using True by (simp add: set_content_def set_menu_def)
  then show ?thesis
    using switch_page_total [of n "set_content 2 IOTB_LCD_DYNAMIC_CONTENT st" env "\<lambda>k. k - 1"] assms True
    by (auto simp: on_click_def Let_def)
next
  case False
  have inv: "lcd_inv st" using assms(1) by (simp add: ready_def)
  show ?thesis using False assms(1) by (simp add: on_click_def Let_def lcd_inv_index [OF inv])
qed

lemma on_event_total:
  assumes "ready n st" "serving n env"
  shows "\<exists>st'. on_event env ev st = Some st' \<and> ready n st'"
proof -
  have inv: "lcd_inv st" using assms(1) by (simp add: ready_def)
  let ?i = "unat (show_menu_index st)"
  have page: "\<exists>st'. do { st1 \<leftarrow> leave_menu env st; enter_menu env (next_page (show_menu_index st1)) st1 } = Some st' \<and> ready n st'"
    using switch_page_total [OF assms, of next_page] inv by (auto simp: lcd_inv_def next_page_values)
  have music: "\<exists>st'. do { st1 \<leftarrow> leave_menu env st; enter_menu env (show_menu_index st1 + 1) st1 } = Some st' \<and> ready n st'"
    if "show_menu_index st = 1"
    using switch_page_total [OF assms, of "\<lambda>k. k + 1"] that by auto
  have i: "?i < length (lcd_instance st)" using lcd_inv_length [OF inv] inv by (auto simp: lcd_inv_def)
  let ?s = "set_event ?i IOTB_LCD_EVENT_EXIT (set_content ?i IOTB_LCD_CONTENT_NONE st)"
  have idx: "show_menu_index ?s = show_menu_index st" by (simp add: set_event_def set_content_def set_menu_def)
  have exit: "\<exists>st'. lcd_handle env ?i ?s = Some st' \<and> ready n st'"
    using handle_stays [of n ?s env] assms menu_set(1) [OF i] unfolding idx by auto
  show ?thesis
    using page music exit on_click_total [OF assms, of ev] assms(1)
    by (auto simp: on_event_def on_double_click_def Let_def)
qed

lemma refresh_total:
  assumes "ready n st" "serving n env"
  shows "\<exists>st'. refresh env st = Some st' \<and> ready n st'"
  using handle_stays [of n "st\<lparr>show_cnt := 0\<rparr>" env] assms by (auto simp: refresh_def Let_def the_menu_def)

lemma show_round_total:
  assumes "ready n st" "serving n env"
  shows "\<exists>lcd' st'. iotb_lcd_show_round env lcd st = Some (lcd', st') \<and> ready n st'"
proof -
  have count: "ready n (count_round s) = ready n s" for s by (simp add: count_round_def)
  obtain st1 where 1: "on_event env (ev_set lcd AND lcd_want) st = Some st1" "ready n st1" using on_event_total [OF assms] by blast
  obtain st2 where 2: "refresh env st1 = Some st2" "ready n st2" using refresh_total [OF 1(2) assms(2)] by blast
  obtain st3 where 3: "refresh env st = Some st3" "ready n st3" using refresh_total [OF assms] by blast
  show ?thesis using 1 2 3 by (simp add: show_round_cases count)
qed

lemma lcd_thread_total:
  "\<lbrakk>ready n st; \<forall>(env, es) \<in> set rs. serving n env\<rbrakk> \<Longrightarrow> \<exists>lcd' st'. lcd_thread rs lcd st = Some (lcd', st') \<and> ready n st'"
proof (induction rs arbitrary: lcd st)
  case (Cons r rs)
  obtain env es where r: "r = (env, es)" by (cases r)
  then have "serving n env" using Cons.prems(2) by simp
  then obtain l1 st1 where 1: "iotb_lcd_show_round env (foldl (\<lambda>l e. iotb_lcd_event_put e l) lcd es) st = Some (l1, st1)" "ready n st1"
    using show_round_total [OF Cons.prems(1)] by blast
  from Cons.IH [OF 1(2), of l1] Cons.prems(2) 1(1) show ?case by (simp add: r)
qed simp

lemma show_start_total:
  assumes "serving n env"
  shows "\<exists>st. iotb_lcd_show_start env lcd_boot = Some st \<and> ready n st"
proof -
  let ?s = "set_event 1 IOTB_LCD_EVENT_NONE (set_content 1 IOTB_LCD_STATIC_CONTENT (lcd_boot\<lparr>show_menu_index := 1, show_cnt := 0\<rparr>))"
  have n: "0 < n" using assms by (auto simp: serving_def)
  have sel: "selected n ?s" using n by (simp add: selected_def lcd_boot_def iotb_lcd_menu_init_def set_event_def set_content_def set_menu_def)
  have static: "content_type (the_menu 1 ?s) = IOTB_LCD_STATIC_CONTENT"
    by (rule menu_set(1)) (simp add: lcd_boot_def iotb_lcd_menu_init_def)
  obtain st where st: "iotb_lcd_show_httpwebserver env 1 ?s = Some st" "loaded n st"
    using httpwebserver_total [OF sel, of env 1] static assms by auto
  then have s: "iotb_lcd_show_start env lcd_boot = Some st" by (simp add: iotb_lcd_show_start_def lcd_handle_def)
  from show_start_inv [OF s] show ?thesis using s st(2) loaded_selected by (simp add: ready_def)
qed

subsection \<open>KEY0 on the song list page\<close>

lemma menu_frames:
  "content_type (the_menu i (set_event j e st)) = content_type (the_menu i st)"
  "lcd_log (set_event i e st) = lcd_log st" "lcd_log (set_content i c st) = lcd_log st"
  "lcd_fds (set_event i e st) = lcd_fds st" "lcd_fds (set_content i c st) = lcd_fds st" "lcd_fds (emit es st) = lcd_fds st"
  "iotb_music_is_play (set_event i e st) = iotb_music_is_play st" "iotb_music_is_play (emit es st) = iotb_music_is_play st"
  "songlist_num (set_content i c st) = songlist_num st"
  "length (lcd_instance (set_content i c st)) = length (lcd_instance st)"
  "show_menu_index (set_event i e st) = show_menu_index st" "show_menu_index (set_content i c st) = show_menu_index st"
  "show_menu_index (emit es st) = show_menu_index st"
proof -
  show "content_type (the_menu i (set_event j e st)) = content_type (the_menu i st)"
    by (cases "j < length (lcd_instance st)"; cases "i = j") (simp_all add: the_menu_def set_event_def set_menu_def list_update_beyond)
qed (simp_all add: set_event_def set_content_def set_menu_def emit_def)

lemma the_menu_fields [simp]:
  "the_menu i (st\<lparr>lcd_fds := f\<rparr>) = the_menu i st" "the_menu i (st\<lparr>iotb_music_is_play := b\<rparr>) = the_menu i st"
  "the_menu i (st\<lparr>show_cnt := w\<rparr>) = the_menu i st"
  by (simp_all add: the_menu_def)

text \<open>Leaving the song list page stops the player and touches no song.\<close>

lemma leave_songs:
  assumes "lcd_inv st" "show_menu_index st = 1"
  shows "leave_menu env st = Some (emit [Wav_stop] (set_event 1 IOTB_LCD_EVENT_EXIT (set_content 1 IOTB_LCD_CONTENT_NONE st)))"
proof -
  let ?s = "set_event 1 IOTB_LCD_EVENT_EXIT (set_content 1 IOTB_LCD_CONTENT_NONE st)"
  have len: "1 < length (lcd_instance st)" using lcd_inv_length [OF assms(1)] by simp
  have same: "st\<lparr>show_menu_index := 1\<rparr> = st" "iotb_lcd_menu_index st = 1" using assms by (simp_all add: lcd_inv_def)
  have "lcd_handle env 1 ?s = Some (emit [Wav_stop] ?s)"
    using menu_set [OF len]
    by (simp add: lcd_handle_def iotb_lcd_show_httpwebserver_def web_page_def connects_def select_song_def)
  then show ?thesis using same by (simp add: leave_menu_def Let_def iotb_lcd_get_menu_index_def)
qed

text \<open>Entering the player page.\<close>

lemma enter_music_plays:
  assumes "song p (songlist_num p) = Some s" "env_memory env \<noteq> 0"
  shows "\<exists>q. enter_music env i p = Some (set_event i IOTB_LCD_EVENT_NONE q) \<and> lcd_instance q = lcd_instance p
    \<and> show_menu_index q = show_menu_index p \<and> loaded n q = loaded n p
    \<and> (env_open env (lcd_fds p) s \<or> env_download env (DOWNLOAD_URL @ s) s \<longrightarrow> Wav_play s \<in> set (lcd_log q) \<and> iotb_music_is_play q)"
proof -
  have fds: "lcd_fds (emit es p) = lcd_fds p" for es by (simp add: emit_def)
  let ?e = "emit ([Lcd_set_color WHITE BLACK] @ album_image s) p"
  let ?d = "emit [Lcd_set_color WHITE BLACK, Lcd_show_string 60 179 24 ''Caching...'',
      Heap_write (length DOWNLOAD_URL + length s) (length (DOWNLOAD_URL @ s) + 1), Web_get_file (DOWNLOAD_URL @ s) s] ?e"
  consider (local) "env_open env (lcd_fds p) s" | (web) "\<not> env_open env (lcd_fds p) s" "env_download env (DOWNLOAD_URL @ s) s"
    | (none) "\<not> env_open env (lcd_fds p) s" "\<not> env_download env (DOWNLOAD_URL @ s) s" by blast
  then show ?thesis
  proof cases
    case local
    let ?q = "emit [Wav_play s, Lcd_set_color WHITE BLACK, Lcd_show_string (title_x s) 179 24 s]
        (?e\<lparr>lcd_fds := lcd_fds ?e + 1, iotb_music_is_play := True\<rparr>)"
    have "enter_music env i p = Some (set_event i IOTB_LCD_EVENT_NONE ?q)" using local assms(1) by (simp add: enter_music_def Let_def fds)
    moreover have "Wav_play s \<in> set (lcd_log ?q)" "lcd_instance ?q = lcd_instance p" "show_menu_index ?q = show_menu_index p" "iotb_music_is_play ?q"
      by (simp_all add: emit_def)
    ultimately show ?thesis by (intro exI [of _ ?q]) simp
  next
    case web
    let ?q = "emit [Wav_play s, Lcd_set_color WHITE BLACK, Lcd_show_string 0 179 24 blank20, Lcd_show_string (title_x s) 179 24 s]
        (?d\<lparr>iotb_music_is_play := True\<rparr>)"
    have "enter_music env i p = Some (set_event i IOTB_LCD_EVENT_NONE ?q)" using web assms by (simp add: enter_music_def Let_def fds)
    moreover have "Wav_play s \<in> set (lcd_log ?q)" "lcd_instance ?q = lcd_instance p" "show_menu_index ?q = show_menu_index p" "iotb_music_is_play ?q"
      by (simp_all add: emit_def)
    ultimately show ?thesis by (intro exI [of _ ?q]) simp
  next
    case none
    have "enter_music env i p = Some (set_event i IOTB_LCD_EVENT_NONE ?d)" using none assms by (simp add: enter_music_def Let_def fds)
    moreover have "lcd_instance ?d = lcd_instance p" "show_menu_index ?d = show_menu_index p" by (simp_all add: emit_def)
    ultimately show ?thesis using none by (intro exI [of _ ?d]) simp
  qed
qed

lemma enter_player:
  assumes "length (lcd_instance st) = 4" "song st (songlist_num st) = Some s" "env_memory env \<noteq> 0"
  shows "\<exists>st'. enter_menu env 2 st = Some st' \<and> show_menu_index st' = 2 \<and> content_type (the_menu 2 st') = IOTB_LCD_STATIC_CONTENT
    \<and> loaded n st' = loaded n st
    \<and> (env_open env (lcd_fds st) s \<or> env_download env (DOWNLOAD_URL @ s) s \<longrightarrow> Wav_play s \<in> set (lcd_log st') \<and> iotb_music_is_play st')"
proof -
  let ?u = "iotb_lcd_update_menu_index 2 (st\<lparr>show_menu_index := 2\<rparr>)"
  let ?s = "set_event 2 IOTB_LCD_EVENT_ENTER (set_content 2 IOTB_LCD_STATIC_CONTENT ?u)"
  let ?p = "music_page 2 ?s"
  have len: "2 < length (lcd_instance ?u)" "2 < length (lcd_instance ?p)"
    using assms(1) by (simp_all add: iotb_lcd_update_menu_index_def music_page_def emit_def set_event_def set_content_def set_menu_def)
  have "song ?u = song st" "songlist_num ?u = songlist_num st" "lcd_fds ?u = lcd_fds st" "show_menu_index ?u = 2"
    by (simp_all add: iotb_lcd_update_menu_index_def song_def fun_eq_iff)
  then have sg: "song ?p (songlist_num ?p) = Some s" "lcd_fds ?p = lcd_fds st" "show_menu_index ?p = 2"
    using assms(2) by (simp_all add: music_page_def frame_simps menu_frames)
  have ld: "loaded n ?p = loaded n st" by (simp add: music_page_def iotb_lcd_update_menu_index_def)
  have ev: "current_event (the_menu 2 ?p) = IOTB_LCD_EVENT_ENTER" "content_type (the_menu 2 ?p) = IOTB_LCD_STATIC_CONTENT"
    using menu_set [OF len(1)] by (simp_all add: music_page_def)
  obtain q where q: "enter_music env 2 ?p = Some (set_event 2 IOTB_LCD_EVENT_NONE q)" "lcd_instance q = lcd_instance ?p"
    "show_menu_index q = show_menu_index ?p" "loaded n q = loaded n ?p"
    "env_open env (lcd_fds ?p) s \<or> env_download env (DOWNLOAD_URL @ s) s \<longrightarrow> Wav_play s \<in> set (lcd_log q) \<and> iotb_music_is_play q"
    using enter_music_plays [OF sg(1) assms(3), of 2 n] by (elim exE conjE) (rule that)
  let ?q = "set_event 2 IOTB_LCD_EVENT_NONE q"
  have "current_event (the_menu 2 ?q) = IOTB_LCD_EVENT_NONE" using len(2) q(2) by (simp add: current_event_set)
  then have "iotb_lcd_show_music env 2 ?s = Some ?q"
    using ev(1) q(1) by (simp add: iotb_lcd_show_music_def music_controls_def Let_def)
  then have "enter_menu env 2 st = Some (?q\<lparr>show_cnt := refresh_time (the_menu 2 ?q)\<rparr>)"
    by (simp add: enter_menu_def lcd_handle_def)
  moreover have "the_menu 2 q = the_menu 2 ?p" using q(2) by (simp add: the_menu_def)
  ultimately show ?thesis using q(3-5) ev(2) ld sg(2,3) by (simp add: menu_frames)
qed

text \<open>With a loaded list the round opens the player page and starts the chosen song, from the file system if it is there.\<close>

lemma music_play_opens:
  assumes "lcd_inv st" "show_menu_index st = 1" "songs_ok st" "env_memory env \<noteq> 0" "ev_set lcd = lcd_value IOTB_LCD_EVENT_MUSIC_PLAY"
  shows "\<exists>lcd' st' s. iotb_lcd_show_round env lcd st = Some (lcd', st') \<and> show_menu_index st' = 2 \<and> ev_set lcd' = 0
    \<and> songs_ok st' \<and> song st (songlist_num st) = Some s
    \<and> (env_open env (lcd_fds st) s \<or> env_download env (DOWNLOAD_URL @ s) s \<longrightarrow> Wav_play s \<in> set (lcd_log st') \<and> iotb_music_is_play st')"
proof -
  let ?ev = "lcd_value IOTB_LCD_EVENT_MUSIC_PLAY"
  have bits: "?ev AND lcd_want = ?ev" "?ev \<noteq> 0" "?ev AND lcd_value IOTB_LCD_EVENT_NONE = 0"
      "has ?ev IOTB_LCD_EVENT_MUSIC_PLAY" "\<not> has ?ev IOTB_LCD_EVENT_NEXT"
    by (simp_all add: lcd_value_def has_def)
  obtain s where s: "song st (songlist_num st) = Some s" using songs_okD [OF assms(3)] assms(3) by (auto simp: songs_ok_def)
  let ?l = "emit [Wav_stop] (set_event 1 IOTB_LCD_EVENT_EXIT (set_content 1 IOTB_LCD_CONTENT_NONE st))"
  have l: "length (lcd_instance ?l) = 4" "song ?l (songlist_num ?l) = Some s" "lcd_fds ?l = lcd_fds st" "show_menu_index ?l = 1"
    "loaded (item_num st) ?l"
    using lcd_inv_length [OF assms(1)] s assms(2,3) by (simp_all add: frame_simps menu_frames len_set_event) (simp add: loaded_def)
  obtain st' where st': "enter_menu env 2 ?l = Some st'" "show_menu_index st' = 2" "content_type (the_menu 2 st') = IOTB_LCD_STATIC_CONTENT"
    "loaded (item_num st) st'"
    "env_open env (lcd_fds st) s \<or> env_download env (DOWNLOAD_URL @ s) s \<longrightarrow> Wav_play s \<in> set (lcd_log st') \<and> iotb_music_is_play st'"
    using enter_player [OF l(1,2) assms(4), of "item_num st"] l(3,5) by auto
  have "on_event env ?ev st = Some st'"
    using bits(4,5) assms(2) leave_songs [OF assms(1,2)] st'(1) l(4) by (simp add: on_event_def)
  then have "iotb_lcd_show_round env lcd st = Some (lcd\<lparr>ev_set := 0\<rparr>, st')"
    using st'(2,3) assms(5) bits(1-3) by (simp add: show_round_cases refresh_def count_round_def)
  then show ?thesis using st'(2,4,5) s by (simp add: loaded_def)
qed

text \<open>Without a list, as after start-up while the server does not answer, it follows a NULL pointer.\<close>

lemma music_play_no_songs:
  assumes "lcd_inv st" "show_menu_index st = 1" "songlist st = None" "ev_set lcd = lcd_value IOTB_LCD_EVENT_MUSIC_PLAY"
  shows "iotb_lcd_show_round env lcd st = None"
proof -
  let ?ev = "lcd_value IOTB_LCD_EVENT_MUSIC_PLAY"
  have bits: "?ev AND lcd_want = ?ev" "?ev \<noteq> 0" "has ?ev IOTB_LCD_EVENT_MUSIC_PLAY" "\<not> has ?ev IOTB_LCD_EVENT_NEXT"
    by (simp_all add: lcd_value_def has_def)
  let ?l = "emit [Wav_stop] (set_event 1 IOTB_LCD_EVENT_EXIT (set_content 1 IOTB_LCD_CONTENT_NONE st))"
  let ?u = "iotb_lcd_update_menu_index 2 (?l\<lparr>show_menu_index := 2\<rparr>)"
  let ?s = "set_event 2 IOTB_LCD_EVENT_ENTER (set_content 2 IOTB_LCD_STATIC_CONTENT ?u)"
  have len: "2 < length (lcd_instance ?u)"
    using lcd_inv_length [OF assms(1)] by (simp add: iotb_lcd_update_menu_index_def emit_def set_event_def set_content_def set_menu_def)
  have "song (music_page 2 ?s) j = None" for j
    using assms(3) by (simp add: song_def music_page_def iotb_lcd_update_menu_index_def emit_def set_event_def set_content_def set_menu_def)
  moreover have "current_event (the_menu 2 (music_page 2 ?s)) = IOTB_LCD_EVENT_ENTER"
    using menu_set(2) [OF len, of IOTB_LCD_EVENT_ENTER IOTB_LCD_STATIC_CONTENT] by (simp add: music_page_def)
  ultimately have "enter_menu env 2 ?l = None" by (simp add: enter_menu_def lcd_handle_def iotb_lcd_show_music_def enter_music_def)
  then have "on_event env ?ev st = None"
    using bits(3,4) assms(2) leave_songs [OF assms(1,2)] by (simp add: on_event_def menu_frames)
  then show ?thesis using assms(4) bits(1,2) by (simp add: show_round_cases)
qed

end
