(* ===== verification/LcdDrv.thy ===== *)
theory LcdDrv
  imports Printf
begin

text \<open>
  The display driver \<open>board/ports/drv_lcd.c\<close>: what it sends to the display controller over the serial bus, with the pin that tells
  commands from data. A result is missing when the code leaves an array or never returns. Results of the bus are not modelled
  because every drawing routine ignores them.
\<close>

subsection \<open>The bus\<close>

datatype bus_event = Pin_dc bool | Pin_power bool | Pin_reset bool | Spi "u8 list" | Delay nat

text \<open>\<open>mallocs\<close> says which of the next allocations succeed, \<open>lcd_junk\<close> is what a new block holds.\<close>

record lcd_drv =
  BACK_COLOR :: u16
  FORE_COLOR :: u16
  lcd_bus :: "bus_event list"
  mallocs :: "bool list"
  lcd_junk :: "nat \<Rightarrow> u8"

record lcd_fonts =
  asc2_1608 :: "u8 list"
  asc2_2412 :: "u8 list"
  asc2_3216 :: "u8 list"

definition LCD_W :: nat where "LCD_W = 240"
definition LCD_H :: nat where "LCD_H = 240"
definition LCD_CLEAR_SEND_NUMBER :: nat where "LCD_CLEAR_SEND_NUMBER = 5760"

definition lcd_io :: "bus_event list \<Rightarrow> lcd_drv \<Rightarrow> lcd_drv" where
  "lcd_io es s = s\<lparr>lcd_bus := lcd_bus s @ es\<rparr>"

definition lcd_malloc :: "nat \<Rightarrow> lcd_drv \<Rightarrow> bool \<times> lcd_drv" where
  "lcd_malloc n s = (n \<noteq> 0 \<and> mallocs s \<noteq> [] \<and> hd (mallocs s), s\<lparr>mallocs := tl (mallocs s)\<rparr>)"

definition half_word :: "u16 \<Rightarrow> u8 list" where
  "half_word da = [ucast (drop_bit 8 da), ucast da]"

definition lcd_write_cmd :: "u8 \<Rightarrow> lcd_drv \<Rightarrow> lcd_drv" where
  "lcd_write_cmd cmd = lcd_io [Pin_dc False, Spi [cmd]]"

definition lcd_write_data :: "u8 \<Rightarrow> lcd_drv \<Rightarrow> lcd_drv" where
  "lcd_write_data data = lcd_io [Pin_dc True, Spi [data]]"

definition lcd_write_half_word :: "u16 \<Rightarrow> lcd_drv \<Rightarrow> lcd_drv" where
  "lcd_write_half_word da = lcd_io [Pin_dc True, Spi (half_word da)]"

definition lcd_set_color :: "u16 \<Rightarrow> u16 \<Rightarrow> lcd_drv \<Rightarrow> lcd_drv" where
  "lcd_set_color back fore s = s\<lparr>BACK_COLOR := back, FORE_COLOR := fore\<rparr>"

definition lcd_display_on :: "lcd_drv \<Rightarrow> lcd_drv" where
  "lcd_display_on = lcd_io [Pin_power True]"

definition lcd_display_off :: "lcd_drv \<Rightarrow> lcd_drv" where
  "lcd_display_off = lcd_io [Pin_power False]"

definition lcd_enter_sleep :: "lcd_drv \<Rightarrow> lcd_drv" where
  "lcd_enter_sleep s = lcd_write_cmd 0x10 (lcd_io [Pin_power False, Delay 5] s)"

definition lcd_exit_sleep :: "lcd_drv \<Rightarrow> lcd_drv" where
  "lcd_exit_sleep s = lcd_io [Delay 120] (lcd_write_cmd 0x11 (lcd_io [Pin_power True, Delay 5] s))"

definition lcd_address_set :: "u16 \<Rightarrow> u16 \<Rightarrow> u16 \<Rightarrow> u16 \<Rightarrow> lcd_drv \<Rightarrow> lcd_drv" where
  "lcd_address_set x1 y1 x2 y2 s =
     (let s = lcd_write_cmd 0x2a s;
          s = lcd_write_data (ucast (drop_bit 8 x1)) s;
          s = lcd_write_data (ucast x1) s;
          s = lcd_write_data (ucast (drop_bit 8 x2)) s;
          s = lcd_write_data (ucast x2) s;
          s = lcd_write_cmd 0x2b s;
          s = lcd_write_data (ucast (drop_bit 8 y1)) s;
          s = lcd_write_data (ucast y1) s;
          s = lcd_write_data (ucast (drop_bit 8 y2)) s;
          s = lcd_write_data (ucast y2) s
      in lcd_write_cmd 0x2C s)"

subsection \<open>Areas, points and lines\<close>

definition lcd_clear :: "u16 \<Rightarrow> lcd_drv \<Rightarrow> lcd_drv" where
  "lcd_clear color s =
     (let s = lcd_address_set 0 0 (of_nat (LCD_W - 1)) (of_nat (LCD_H - 1)) s;
          (buf, s) = lcd_malloc LCD_CLEAR_SEND_NUMBER s
      in if buf then lcd_io (Pin_dc True # replicate 20 (Spi (concat (replicate (LCD_CLEAR_SEND_NUMBER div 2) (half_word color))))) s
         else lcd_io (Pin_dc True # replicate (LCD_W * LCD_H) (Spi (half_word color))) s)"

definition lcd_draw_point :: "u16 \<Rightarrow> u16 \<Rightarrow> lcd_drv \<Rightarrow> lcd_drv" where
  "lcd_draw_point x y s = lcd_write_half_word (FORE_COLOR s) (lcd_address_set x y x y s)"

definition lcd_draw_point_color :: "u16 \<Rightarrow> u16 \<Rightarrow> u16 \<Rightarrow> lcd_drv \<Rightarrow> lcd_drv" where
  "lcd_draw_point_color x y color s = lcd_write_half_word color (lcd_address_set x y x y s)"

text \<open>The sizes of the blocks that the fast filling sends.\<close>

function fill_sizes :: "nat \<Rightarrow> nat \<Rightarrow> nat list" where
  "fill_sizes n remain =
     n # (if remain = 0 then []
          else if remain > LCD_CLEAR_SEND_NUMBER then fill_sizes n (remain - LCD_CLEAR_SEND_NUMBER) else fill_sizes remain 0)"
  by pat_completeness auto
termination
  by (relation "measure (\<lambda>(n, remain). remain)") (auto simp: LCD_CLEAR_SEND_NUMBER_def)

declare fill_sizes.simps [simp del]

text \<open>The size is computed in \<open>int\<close> and stored in 32 bits; the slow filling includes the end coordinates and never ends when one of
  them is the largest number of its type.\<close>

definition lcd_fill :: "u16 \<Rightarrow> u16 \<Rightarrow> u16 \<Rightarrow> u16 \<Rightarrow> u16 \<Rightarrow> lcd_drv \<Rightarrow> lcd_drv option" where
  "lcd_fill x_start y_start x_end y_end color s =
     (let total = unat (word_of_int ((uint x_end - uint x_start) * (uint y_end - uint y_start) * 2) :: u32);
          (n, remain) = (if total > LCD_CLEAR_SEND_NUMBER then (LCD_CLEAR_SEND_NUMBER, total - LCD_CLEAR_SEND_NUMBER) else (total, 0));
          s = lcd_address_set x_start y_start x_end y_end s;
          (fill_buf, s) = lcd_malloc n s
      in if fill_buf then
           Some (lcd_io (concat (map (\<lambda>k. [Pin_dc True, Spi (concat (replicate (k div 2) (half_word color)))]) (fill_sizes n remain))) s)
         else if y_start \<le> y_end \<and> (y_end = - 1 \<or> x_start \<le> x_end \<and> x_end = - 1) then None
         else
           Some (lcd_io (concat (replicate (nat (uint y_end - uint y_start + 1) * nat (uint x_end - uint x_start + 1))
                   [Pin_dc True, Spi (half_word color)])) s))"

record line_state =
  line_xerr :: int
  line_yerr :: int
  line_row :: int
  line_col :: int

definition line_step :: "int \<Rightarrow> int \<Rightarrow> int \<Rightarrow> int \<Rightarrow> int \<Rightarrow> line_state \<Rightarrow> line_state" where
  "line_step delta_x delta_y distance incx incy l =
     (let xerr = line_xerr l + delta_x;
          yerr = line_yerr l + delta_y;
          (xerr, row) = (if xerr > distance then (xerr - distance, line_row l + incx) else (xerr, line_row l));
          (yerr, col) = (if yerr > distance then (yerr - distance, line_col l + incy) else (yerr, line_col l))
      in \<lparr>line_xerr = xerr, line_yerr = yerr, line_row = row, line_col = col\<rparr>)"

text \<open>The points of a number of rounds.\<close>

primrec line_points :: "int \<Rightarrow> int \<Rightarrow> int \<Rightarrow> int \<Rightarrow> int \<Rightarrow> nat \<Rightarrow> line_state \<Rightarrow> (int \<times> int) list" where
  "line_points delta_x delta_y distance incx incy 0 l = []"
| "line_points delta_x delta_y distance incx incy (Suc t) l =
     (line_row l, line_col l) # line_points delta_x delta_y distance incx incy t (line_step delta_x delta_y distance incx incy l)"

definition draw_points :: "(int \<times> int) list \<Rightarrow> lcd_drv \<Rightarrow> lcd_drv" where
  "draw_points ps s = fold (\<lambda>(x, y). lcd_draw_point (word_of_int x) (word_of_int y)) ps s"

text \<open>The row of a horizontal line is put together in 480 bytes. The 16-bit counter of the other lines never passes 65535.\<close>

definition slanted_points :: "u16 \<Rightarrow> u16 \<Rightarrow> u16 \<Rightarrow> u16 \<Rightarrow> (int \<times> int) list option" where
  "slanted_points x1 y1 x2 y2 =
     (let dx = uint x2 - uint x1; dy = uint y2 - uint y1; distance = max \<bar>dx\<bar> \<bar>dy\<bar>
      in if 65535 \<le> distance + 1 then None
         else Some (line_points \<bar>dx\<bar> \<bar>dy\<bar> distance (sgn dx) (sgn dy) (nat distance + 2)
                \<lparr>line_xerr = 0, line_yerr = 0, line_row = uint x1, line_col = uint y1\<rparr>))"

definition lcd_draw_line :: "u16 \<Rightarrow> u16 \<Rightarrow> u16 \<Rightarrow> u16 \<Rightarrow> lcd_drv \<Rightarrow> lcd_drv option" where
  "lcd_draw_line x1 y1 x2 y2 s =
     (if y1 = y2 then
        let s = lcd_address_set x1 y1 x2 y2 s
        in if x2 < x1 \<or> 240 < uint x2 - uint x1 then None
           else Some (lcd_io [Pin_dc True, Spi (concat (replicate (unat x2 - unat x1) (half_word (FORE_COLOR s))))] s)
      else map_option (\<lambda>ps. draw_points ps s) (slanted_points x1 y1 x2 y2))"

definition lcd_draw_rectangle :: "u16 \<Rightarrow> u16 \<Rightarrow> u16 \<Rightarrow> u16 \<Rightarrow> lcd_drv \<Rightarrow> lcd_drv option" where
  "lcd_draw_rectangle x1 y1 x2 y2 s =
     Option.bind (Option.bind (Option.bind (lcd_draw_line x1 y1 x2 y1 s) (lcd_draw_line x1 y1 x1 y2))
       (lcd_draw_line x1 y2 x2 y2)) (lcd_draw_line x2 y1 x2 y2)"

text \<open>The points of a circle around (0, 0), one of them twice in each round.\<close>

function circle_points :: "int \<Rightarrow> int \<Rightarrow> int \<Rightarrow> (int \<times> int) list" where
  "circle_points a b di =
     (if a \<le> b then
        [(- b, - a), (b, - a), (- a, b), (- b, - a), (- a, - b), (b, a), (a, - b), (a, b), (- b, a)] @
        (let a = a + 1;
             (di, b) = (if di < 0 then (di + (4 * a + 6), b) else (di + (10 + 4 * (a - b)), b - 1))
         in (a, b) # circle_points a b di)
      else [])"
  by pat_completeness auto
termination
  by (relation "measure (\<lambda>(a, b, di). nat (b - a + 1))") (auto split: if_splits)

declare circle_points.simps [simp del]

definition lcd_draw_circle :: "u16 \<Rightarrow> u16 \<Rightarrow> u8 \<Rightarrow> lcd_drv \<Rightarrow> lcd_drv" where
  "lcd_draw_circle x0 y0 r s =
     draw_points (map (\<lambda>(x, y). (uint x0 + x, uint y0 + y)) (circle_points 0 (uint r) (3 - 2 * uint r))) s"

subsection \<open>Characters\<close>

text \<open>The bits of a font byte, highest first.\<close>

definition font_bits :: "nat \<Rightarrow> u8 \<Rightarrow> bool list" where
  "font_bits num temp = map (\<lambda>t. bit temp (7 - t)) [0..<num]"

text \<open>The font bytes of a character and how many bits of the byte at \<open>pos\<close> count.\<close>

definition font_of :: "lcd_fonts \<Rightarrow> nat \<Rightarrow> u8 list" where
  "font_of fonts sz = (if sz = 16 then asc2_1608 fonts else if sz = 24 then asc2_2412 fonts else asc2_3216 fonts)"

definition glyph_bytes :: "nat \<Rightarrow> nat" where
  "glyph_bytes sz = (if sz = 24 then sz * 16 div 8 else sz * (sz div 2) div 8)"

definition bits_at :: "nat \<Rightarrow> nat \<Rightarrow> nat" where
  "bits_at sz pos = (if sz = 24 then (if pos mod 2 = 0 then 8 else 4) else 8)"

definition pixel_index :: "nat \<Rightarrow> nat \<Rightarrow> nat \<Rightarrow> nat" where
  "pixel_index sz pos t =
     (if sz = 24 then (if bits_at sz pos = 8 then 12 * (pos div 2) + t else 8 + 12 * (pos div 2) + t) else 8 * pos + t)"

definition glyph :: "lcd_fonts \<Rightarrow> nat \<Rightarrow> u8 \<Rightarrow> u8 list option" where
  "glyph fonts sz data =
     (let i = unat (data - 32) * glyph_bytes sz
      in if length (font_of fonts sz) < i + glyph_bytes sz then None else Some (take (glyph_bytes sz) (drop i (font_of fonts sz))))"

definition bit_color :: "lcd_drv \<Rightarrow> bool \<Rightarrow> u16" where
  "bit_color s b = (if b then FORE_COLOR s else BACK_COLOR s)"

definition put_pixel :: "nat \<times> u16 \<Rightarrow> u8 list \<Rightarrow> u8 list" where
  "put_pixel p buf = buf[2 * fst p := ucast (drop_bit 8 (snd p)), 2 * fst p + 1 := ucast (snd p)]"

text \<open>The pixels that the loop over the font bytes puts into \<open>font_buf\<close>, with their index.\<close>

definition glyph_pixels :: "nat \<Rightarrow> u8 list \<Rightarrow> lcd_drv \<Rightarrow> (nat \<times> u16) list" where
  "glyph_pixels sz g s =
     concat (map (\<lambda>pos. map (\<lambda>(t, b). (pixel_index sz pos t, bit_color s b)) (enumerate 0 (font_bits (bits_at sz pos) (g ! pos))))
       [0..<length g])"

definition lcd_show_char :: "lcd_fonts \<Rightarrow> u16 \<Rightarrow> u16 \<Rightarrow> u8 \<Rightarrow> nat \<Rightarrow> lcd_drv \<Rightarrow> lcd_drv option" where
  "lcd_show_char fonts x y data sz s =
     (if LCD_W - sz div 2 < unat x \<or> LCD_H - sz < unat y then Some s
      else if sz \<noteq> 16 \<and> sz \<noteq> 24 \<and> sz \<noteq> 32 then Some s
      else
        let s = lcd_address_set x y (x + of_nat (sz div 2) - 1) (y + of_nat sz - 1) s;
            (font_buf, s) = lcd_malloc (sz * sz) s
        in (case glyph fonts sz data of
              None \<Rightarrow> None
            | Some g \<Rightarrow>
                if font_buf then
                  Some (lcd_io [Pin_dc True, Spi (fold put_pixel (glyph_pixels sz g s) (map (lcd_junk s) [0..<sz * sz]))] s)
                else
                  Some (fold (\<lambda>(i, c). lcd_write_half_word c) (glyph_pixels sz g s) s)))"

subsection \<open>Texts and images\<close>

definition RED_COLOR :: u16 where "RED_COLOR = 0xF800"

text \<open>The loop of \<open>lcd_show_string\<close>: a character that does not fit into the row begins a new one, a row that does not fit onto the
  screen clears it and begins again at the top.\<close>

primrec show_chars :: "lcd_fonts \<Rightarrow> nat \<Rightarrow> string \<Rightarrow> u16 \<Rightarrow> u16 \<Rightarrow> lcd_drv \<Rightarrow> lcd_drv option" where
  "show_chars fonts sz [] x y s = Some s"
| "show_chars fonts sz (c # p) x y s =
     (let (x, y) = (if LCD_W - sz div 2 < unat x then (0, y + of_nat sz) else (x, y));
          (x, y, s) = (if LCD_H - sz < unat y then (0, 0, lcd_clear RED_COLOR s) else (x, y, s))
      in case lcd_show_char fonts x y (of_char c) sz s of
           None \<Rightarrow> None
         | Some s \<Rightarrow> show_chars fonts sz p (x + of_nat (sz div 2)) y s)"

definition LCD_STRING_BUF_LEN :: nat where "LCD_STRING_BUF_LEN = 128"

definition lcd_show_string :: "lcd_fonts \<Rightarrow> u16 \<Rightarrow> u16 \<Rightarrow> nat \<Rightarrow> string \<Rightarrow> va_arg list \<Rightarrow> lcd_drv \<Rightarrow> (rt_err \<times> lcd_drv) option" where
  "lcd_show_string fonts x y sz fmt args s =
     (if sz \<noteq> 16 \<and> sz \<noteq> 24 \<and> sz \<noteq> 32 then Some (RT_ERROR, s)
      else
        (case rt_vsnprintf (replicate LCD_STRING_BUF_LEN NUL) 100 fmt args of
           None \<Rightarrow> None
         | Some (_, buf) \<Rightarrow> map_option (Pair RT_EOK) (show_chars fonts sz (c_string buf) x y s)))"

definition lcd_show_num :: "lcd_fonts \<Rightarrow> u16 \<Rightarrow> u16 \<Rightarrow> u32 \<Rightarrow> nat \<Rightarrow> lcd_drv \<Rightarrow> lcd_drv option" where
  "lcd_show_num fonts x y num sz s = map_option snd (lcd_show_string fonts x y sz ''%d'' [Word num] s)"

definition lcd_show_image :: "u16 \<Rightarrow> u16 \<Rightarrow> u16 \<Rightarrow> u16 \<Rightarrow> u8 list \<Rightarrow> lcd_drv \<Rightarrow> (rt_err \<times> lcd_drv) option" where
  "lcd_show_image x y len wide p s =
     (if LCD_W < unat x + unat len \<or> LCD_H < unat y + unat wide then Some (RT_ERROR, s)
      else
        let s = lcd_address_set x y (x + len - 1) (y + wide - 1) s
        in if length p < unat len * unat wide * 2 then None
           else Some (RT_EOK, lcd_io [Pin_dc True, Spi (take (unat len * unat wide * 2) p)] s))"

subsection \<open>Initialisation\<close>

definition lcd_gpio_init :: "lcd_drv \<Rightarrow> lcd_drv" where
  "lcd_gpio_init = lcd_io [Pin_power False, Pin_reset False, Delay 100, Pin_reset True]"

text \<open>The commands with their data.\<close>

definition init_commands :: "(u8 \<times> u8 list) list" where
  "init_commands =
     [(0x36, [0x00]), (0x3A, [0x65]), (0xB2, [0x0C, 0x0C, 0x00, 0x33, 0x33]), (0xB7, [0x35]), (0xBB, [0x19]), (0xC0, [0x2C]),
      (0xC2, [0x01]), (0xC3, [0x12]), (0xC4, [0x20]), (0xC6, [0x0F]), (0xD0, [0xA4, 0xA1]),
      (0xE0, [0xD0, 0x04, 0x0D, 0x11, 0x13, 0x2B, 0x3F, 0x54, 0x4C, 0x18, 0x0D, 0x0B, 0x1F, 0x23]),
      (0xE1, [0xD0, 0x04, 0x0C, 0x11, 0x13, 0x2C, 0x3F, 0x44, 0x51, 0x2F, 0x1F, 0x1F, 0x20, 0x23]), (0x21, []), (0x11, [])]"

definition rt_hw_lcd_init :: "lcd_drv \<Rightarrow> lcd_drv" where
  "rt_hw_lcd_init s =
     (let s = fold (\<lambda>(cmd, ds) s. fold lcd_write_data ds (lcd_write_cmd cmd s)) init_commands (lcd_gpio_init s);
          s = lcd_clear 0xFFFF (lcd_io [Delay 100] s)
      in lcd_write_cmd 0x29 (lcd_io [Pin_power True] s))"

subsection \<open>What the controller receives\<close>

text \<open>Every byte of the bus with the level of the pin that tells data (\<open>True\<close>) from commands.\<close>

primrec received :: "bool \<Rightarrow> bus_event list \<Rightarrow> (bool \<times> u8) list" where
  "received dc [] = []"
| "received dc (e # es) = (case e of Pin_dc b \<Rightarrow> received b es | Spi bs \<Rightarrow> map (Pair dc) bs @ received dc es | _ \<Rightarrow> received dc es)"

primrec dc_after :: "bool \<Rightarrow> bus_event list \<Rightarrow> bool" where
  "dc_after dc [] = dc"
| "dc_after dc (e # es) = dc_after (case e of Pin_dc b \<Rightarrow> b | _ \<Rightarrow> dc) es"

lemma received_append: "received dc (xs @ ys) = received dc xs @ received (dc_after dc xs) ys"
  by (induction xs arbitrary: dc) (auto split: bus_event.split)

definition window :: "u16 \<Rightarrow> u16 \<Rightarrow> u16 \<Rightarrow> u16 \<Rightarrow> (bool \<times> u8) list" where
  "window x1 y1 x2 y2 =
     (False, 0x2a) # map (Pair True) (half_word x1 @ half_word x2) @ (False, 0x2b) # map (Pair True) (half_word y1 @ half_word y2) @ [(False, 0x2C)]"

definition pixels :: "u16 list \<Rightarrow> (bool \<times> u8) list" where
  "pixels cs = map (Pair True) (concat (map half_word cs))"

lemma pixels_append: "pixels (xs @ ys) = pixels xs @ pixels ys"
  by (simp add: pixels_def)

lemma lcd_io_fields [simp]:
  "lcd_bus (lcd_io es s) = lcd_bus s @ es" "FORE_COLOR (lcd_io es s) = FORE_COLOR s" "BACK_COLOR (lcd_io es s) = BACK_COLOR s"
  "mallocs (lcd_io es s) = mallocs s" "lcd_junk (lcd_io es s) = lcd_junk s"
  by (simp_all add: lcd_io_def)

lemma lcd_io_io: "lcd_io es (lcd_io es' s) = lcd_io (es' @ es) s"
  by (simp add: lcd_io_def)

definition window_io :: "u16 \<Rightarrow> u16 \<Rightarrow> u16 \<Rightarrow> u16 \<Rightarrow> bus_event list" where
  "window_io x1 y1 x2 y2 = lcd_bus (lcd_address_set x1 y1 x2 y2 \<lparr>BACK_COLOR = 0, FORE_COLOR = 0, lcd_bus = [], mallocs = [], lcd_junk = (\<lambda>_. 0)\<rparr>)"

lemma lcd_address_set_io: "lcd_address_set x1 y1 x2 y2 s = lcd_io (window_io x1 y1 x2 y2) s"
  by (simp add: lcd_address_set_def window_io_def lcd_write_cmd_def lcd_write_data_def lcd_io_io)

lemma received_window [simp]: "received dc (window_io x1 y1 x2 y2) = window x1 y1 x2 y2" "dc_after dc (window_io x1 y1 x2 y2) = False"
  by (simp_all add: window_io_def window_def half_word_def lcd_address_set_def lcd_write_cmd_def lcd_write_data_def lcd_io_io)

lemma received_spi_many: "received dc (replicate n (Spi bs)) = map (Pair dc) (concat (replicate n bs))"
  by (induction n) auto

lemma concat_replicate_concat: "concat (replicate m (concat (replicate k xs))) = concat (replicate (m * k) xs)"
  by (induction m) (simp_all add: replicate_add)

text \<open>A drawing: a window of the screen with a color for each of its pixels.\<close>

inductive drawings :: "(bool \<times> u8) list \<Rightarrow> bool" where
  drawn_nothing: "drawings []"
| drawn: "\<lbrakk>drawings bs; x1 \<le> x2; x2 < of_nat LCD_W; y1 \<le> y2; y2 < of_nat LCD_H;
    length cs = (unat (x2 - x1) + 1) * (unat (y2 - y1) + 1)\<rbrakk> \<Longrightarrow> drawings (window x1 y1 x2 y2 @ pixels cs @ bs)"

lemma drawings_append: "\<lbrakk>drawings as; drawings bs\<rbrakk> \<Longrightarrow> drawings (as @ bs)"
proof (induction as rule: drawings.induct)
  case (drawn cs x1 x2 y1 y2 ps)
  show ?case using drawings.drawn [OF drawn.IH [OF drawn.prems] drawn.hyps(2-6)] by simp
qed simp

lemma last_index:
  assumes "0 < k" "unat (z :: u16) + k \<le> 240"
  shows "z \<le> z + of_nat k - 1 \<and> z + of_nat k - 1 < 240 \<and> unat (z + of_nat k - 1 - z) + 1 = k"
proof -
  obtain j where j: "k = Suc j" using assms(1) gr0_implies_Suc by blast
  have e: "z + of_nat k - 1 = z + of_nat j" unfolding j by simp
  have u: "unat (of_nat j :: u16) = j" using assms(2) j by (simp add: unsigned_of_nat take_bit_nat_eq_self)
  have s: "unat (z + of_nat j) = unat z + j" using assms(2) j u by (simp add: unat_word_ariths)
  have "z \<le> z + of_nat j" "z + of_nat j < 240" using s assms(2) j by (simp_all add: word_le_nat_alt word_less_nat_alt)
  moreover have "unat (z + of_nat j - z) + 1 = k" using u j by simp
  ultimately show ?thesis unfolding e by blast
qed

text \<open>A window with a number of columns and rows.\<close>

lemma drawn_area:
  assumes "0 < w" "0 < h" "unat x + w \<le> 240" "unat y + h \<le> 240" "length cs = w * h"
  shows "drawings (window x y (x + of_nat w - 1) (y + of_nat h - 1) @ pixels cs)"
proof -
  have x: "x \<le> x + of_nat w - 1 \<and> x + of_nat w - 1 < 240 \<and> unat (x + of_nat w - 1 - x) + 1 = w" by (rule last_index [OF assms(1,3)])
  have y: "y \<le> y + of_nat h - 1 \<and> y + of_nat h - 1 < 240 \<and> unat (y + of_nat h - 1 - y) + 1 = h" by (rule last_index [OF assms(2,4)])
  have "drawings (window x y (x + of_nat w - 1) (y + of_nat h - 1) @ pixels cs @ [])"
    by (rule drawn [OF drawn_nothing]) (use x y assms(5) in \<open>simp_all add: LCD_W_def LCD_H_def\<close>)
  then show ?thesis by simp
qed

subsection \<open>Clearing\<close>

lemma lcd_clear_bus: "\<exists>es. lcd_bus (lcd_clear color s) = lcd_bus s @ es
    \<and> (\<forall>dc. received dc es = window 0 0 239 239 @ pixels (replicate 57600 color))"
proof -
  define es where "es = (if fst (lcd_malloc LCD_CLEAR_SEND_NUMBER s) then replicate 20 (Spi (concat (replicate 2880 (half_word color))))
     else replicate 57600 (Spi (half_word color)))"
  have r: "received True es = pixels (replicate 57600 color)"
    by (simp add: es_def received_spi_many concat_replicate_concat pixels_def)
  show ?thesis
    by (rule exI [of _ "window_io 0 0 239 239 @ Pin_dc True # es"])
      (simp add: r received_append, simp add: es_def lcd_clear_def lcd_address_set_io LCD_W_def LCD_H_def LCD_CLEAR_SEND_NUMBER_def
        lcd_malloc_def lcd_io_io Let_def)
qed

subsection \<open>Characters on the screen\<close>

text \<open>The bit of a glyph at a row and a column: rows of whole bytes, the leftmost column in the highest bit.\<close>

definition glyph_bit :: "nat \<Rightarrow> u8 list \<Rightarrow> nat \<Rightarrow> nat \<Rightarrow> bool" where
  "glyph_bit sz g r c = bit (g ! (r * ((sz div 2 + 7) div 8) + c div 8)) (7 - c mod 8)"

definition picture :: "nat \<Rightarrow> u8 list \<Rightarrow> lcd_drv \<Rightarrow> u16 list" where
  "picture sz g s = concat (map (\<lambda>r. map (\<lambda>c. bit_color s (glyph_bit sz g r c)) [0..<sz div 2]) [0..<sz])"

lemma picture_length: "length (picture sz g s) = sz div 2 * sz"
  by (simp add: picture_def length_concat comp_def sum_list_triv)

lemma map_upt_add: "map f [0..<a + b] = map f [0..<a] @ map (\<lambda>i. f (a + i)) [0..<b]"
  by (induction b) auto

lemma concat_upt_double: "concat (map f [0..<2 * n]) = concat (map (\<lambda>r. f (2 * r) @ f (2 * r + 1)) [0..<n])"
  by (induction n) simp_all

lemma concat_map_upt: "concat (map (\<lambda>p. map (\<lambda>t. k * p + t) [0..<k]) [0..<n]) = [0..<k * n]"
proof (induction n)
  case (Suc n)
  have "[0..<k * Suc n] = [0..<k * n] @ map ((+) (k * n)) [0..<k]" using map_upt_add [of id "k * n" k] by (simp add: add.commute)
  then show ?case using Suc.IH by simp
qed simp

lemma glyph_pixels_row:
  "map fst (glyph_pixels sz g s) = concat (map (\<lambda>pos. map (pixel_index sz pos) [0..<bits_at sz pos]) [0..<length g])"
  "map snd (glyph_pixels sz g s) =
     concat (map (\<lambda>pos. map (\<lambda>t. bit_color s (bit (g ! pos) (7 - t))) [0..<bits_at sz pos]) [0..<length g])"
proof -
  have "map (\<lambda>(t, b). (h t, f b)) (enumerate 0 (map p [0..<k])) = map (\<lambda>t. (h t, f (p t))) [0..<k]"
    for h :: "nat \<Rightarrow> nat" and f :: "bool \<Rightarrow> u16" and p and k
    by (rule nth_equalityI) (simp_all add: nth_enumerate_eq)
  then show "map fst (glyph_pixels sz g s) = concat (map (\<lambda>pos. map (pixel_index sz pos) [0..<bits_at sz pos]) [0..<length g])"
    "map snd (glyph_pixels sz g s) =
     concat (map (\<lambda>pos. map (\<lambda>t. bit_color s (bit (g ! pos) (7 - t))) [0..<bits_at sz pos]) [0..<length g])"
    by (simp_all add: glyph_pixels_def font_bits_def map_concat comp_def)
qed

text \<open>The loop fills the buffer from the first to the last pixel, with the picture.\<close>

lemma glyph_pixels_index:
  assumes "sz \<in> {16, 24, 32}" "length g = glyph_bytes sz"
  shows "map fst (glyph_pixels sz g s) = [0..<sz div 2 * sz]"
proof -
  have bytewise: "bits_at n pos = 8" "pixel_index n pos = (+) (8 * pos)" if "n \<noteq> 24" for n pos
    using that by (simp_all add: bits_at_def pixel_index_def fun_eq_iff)
  consider "sz = 16" | "sz = 24" | "sz = 32" using assms(1) by blast
  then show ?thesis
  proof cases
    case 2
    have p: "map (pixel_index 24 (2 * r)) [0..<bits_at 24 (2 * r)] @ map (pixel_index 24 (2 * r + 1)) [0..<bits_at 24 (2 * r + 1)]
        = map (\<lambda>t. 12 * r + t) [0..<12]" for r
      using map_upt_add [of "\<lambda>t. 12 * r + t" 8 4] by (simp add: pixel_index_def bits_at_def)
    have "concat (map (\<lambda>pos. map (pixel_index 24 pos) [0..<bits_at 24 pos]) [0..<2 * 24]) = [0..<12 * 24]"
      unfolding concat_upt_double p by (rule concat_map_upt)
    then show ?thesis unfolding glyph_pixels_row using 2 assms(2) by (simp add: glyph_bytes_def)
  next
    case 1
    then show ?thesis unfolding glyph_pixels_row using concat_map_upt [of 8 16] bytewise assms(2) by (simp add: glyph_bytes_def)
  next
    case 3
    then show ?thesis unfolding glyph_pixels_row using concat_map_upt [of 8 64] bytewise assms(2) by (simp add: glyph_bytes_def)
  qed
qed

lemma glyph_pixels_picture:
  assumes "sz \<in> {16, 24, 32}" "length g = glyph_bytes sz"
  shows "map snd (glyph_pixels sz g s) = picture sz g s"
proof -
  consider "sz = 16" | "sz = 24" | "sz = 32" using assms(1) by blast
  then show ?thesis
  proof cases
    case 1
    have "map (\<lambda>t. bit_color s (bit (g ! pos) (7 - t))) [0..<bits_at 16 pos] = map (\<lambda>c. bit_color s (glyph_bit 16 g pos c)) [0..<8]" for pos
      by (rule map_cong) (simp_all add: bits_at_def glyph_bit_def)
    then show ?thesis unfolding glyph_pixels_row picture_def using 1 assms(2) by (simp add: glyph_bytes_def)
  next
    case 2
    have "map (\<lambda>t. bit_color s (bit (g ! (2 * r)) (7 - t))) [0..<8] @ map (\<lambda>t. bit_color s (bit (g ! (2 * r + 1)) (7 - t))) [0..<4]
        = map (\<lambda>c. bit_color s (glyph_bit 24 g r c)) [0..<8 + 4]" for r
      unfolding map_upt_add by (intro arg_cong2 [where f = append] map_cong) (auto simp: glyph_bit_def mult.commute div_add_self1)
    then have p: "map (\<lambda>t. bit_color s (bit (g ! (2 * r)) (7 - t))) [0..<bits_at 24 (2 * r)]
        @ map (\<lambda>t. bit_color s (bit (g ! (2 * r + 1)) (7 - t))) [0..<bits_at 24 (2 * r + 1)]
        = map (\<lambda>c. bit_color s (glyph_bit 24 g r c)) [0..<12]" for r
      by (simp add: bits_at_def)
    have "concat (map (\<lambda>pos. map (\<lambda>t. bit_color s (bit (g ! pos) (7 - t))) [0..<bits_at 24 pos]) [0..<2 * 24]) = picture 24 g s"
      unfolding concat_upt_double p picture_def by simp
    then show ?thesis unfolding glyph_pixels_row using 2 assms(2) by (simp add: glyph_bytes_def)
  next
    case 3
    have "map (\<lambda>t. bit_color s (bit (g ! (2 * r)) (7 - t))) [0..<8] @ map (\<lambda>t. bit_color s (bit (g ! (2 * r + 1)) (7 - t))) [0..<8]
        = map (\<lambda>c. bit_color s (glyph_bit 32 g r c)) [0..<8 + 8]" for r
      unfolding map_upt_add by (intro arg_cong2 [where f = append] map_cong) (auto simp: glyph_bit_def mult.commute div_add_self1)
    then have p: "map (\<lambda>t. bit_color s (bit (g ! (2 * r)) (7 - t))) [0..<bits_at 32 (2 * r)]
        @ map (\<lambda>t. bit_color s (bit (g ! (2 * r + 1)) (7 - t))) [0..<bits_at 32 (2 * r + 1)]
        = map (\<lambda>c. bit_color s (glyph_bit 32 g r c)) [0..<16]" for r
      by (simp add: bits_at_def)
    have "concat (map (\<lambda>pos. map (\<lambda>t. bit_color s (bit (g ! pos) (7 - t))) [0..<bits_at 32 pos]) [0..<2 * 32]) = picture 32 g s"
      unfolding concat_upt_double p picture_def by simp
    then show ?thesis unfolding glyph_pixels_row using 3 assms(2) by (simp add: glyph_bytes_def)
  qed
qed

lemma half_words_length: "length (concat (map half_word cs)) = 2 * length cs"
  by (induction cs) (simp_all add: half_word_def)

lemma put_pixels:
  "2 * length cs \<le> length buf \<Longrightarrow>
    fold put_pixel (zip [0..<length cs] cs) buf = concat (map half_word cs) @ drop (2 * length cs) buf"
proof (induction cs rule: rev_induct)
  case (snoc c cs)
  let ?n = "2 * length cs"
  have l: "length (concat (map half_word cs)) = ?n" by (rule half_words_length)
  obtain b0 b1 where d: "drop ?n buf = b0 # b1 # drop (?n + 2) buf"
    using snoc.prems by (metis Cons_nth_drop_Suc Suc_le_lessD add_2_eq_Suc' length_append_singleton mult_Suc_right add.commute Suc_lessD)
  have "fold put_pixel (zip [0..<length (cs @ [c])] (cs @ [c])) buf = put_pixel (length cs, c) (concat (map half_word cs) @ drop ?n buf)"
    using snoc by simp
  also have "\<dots> = concat (map half_word cs) @ half_word c @ drop (?n + 2) buf"
    unfolding d by (simp add: put_pixel_def list_update_append l half_word_def)
  finally show ?case by simp
qed simp

lemma glyph_pixels_zip:
  assumes "sz \<in> {16, 24, 32}" "length g = glyph_bytes sz"
  shows "glyph_pixels sz g s = zip [0..<length (picture sz g s)] (picture sz g s)"
  using zip_map_fst_snd [of "glyph_pixels sz g s"] glyph_pixels_index [OF assms, of s] glyph_pixels_picture [OF assms, of s]
  by (simp add: picture_length)

lemma half_words_bus:
  "fold (\<lambda>(i, c). lcd_write_half_word c) ps s = lcd_io (concat (map (\<lambda>(i, c). [Pin_dc True, Spi (half_word c)]) ps)) s"
proof (induction ps arbitrary: s)
  case Nil
  show ?case by (simp add: lcd_io_def)
next
  case (Cons p ps)
  then show ?case by (cases p) (simp add: lcd_write_half_word_def lcd_io_io)
qed

lemma received_half_words:
  "received dc (concat (map (\<lambda>(i, c). [Pin_dc True, Spi (half_word c)]) ps)) = pixels (map snd ps)"
  by (induction ps arbitrary: dc) (auto simp: pixels_def half_word_def)

lemma picture_state: "\<lbrakk>FORE_COLOR s = FORE_COLOR s'; BACK_COLOR s = BACK_COLOR s'\<rbrakk> \<Longrightarrow> picture sz g s = picture sz g s'"
  by (simp add: picture_def bit_color_def cong: if_cong)

lemma glyph_length: "glyph fonts sz data = Some g \<Longrightarrow> length g = glyph_bytes sz"
  by (auto simp: glyph_def Let_def split: if_splits)

text \<open>Whether or not there is memory for the buffer, a character is its window and its picture.\<close>

lemma lcd_show_char_bus:
  assumes "sz \<in> {16, 24, 32}" "unat x + sz div 2 \<le> 240" "unat y + sz \<le> 240" "glyph fonts sz data = Some g"
  shows "\<exists>s' es. lcd_show_char fonts x y data sz s = Some s' \<and> lcd_bus s' = lcd_bus s @ es
    \<and> FORE_COLOR s' = FORE_COLOR s \<and> BACK_COLOR s' = BACK_COLOR s
    \<and> (\<forall>dc. received dc es = window x y (x + of_nat (sz div 2) - 1) (y + of_nat sz - 1) @ pixels (picture sz g s))"
proof -
  have sz: "\<not> (sz \<noteq> 16 \<and> sz \<noteq> 24 \<and> sz \<noteq> 32)" using assms(1) by blast
  have fits: "\<not> (LCD_W - sz div 2 < unat x \<or> LCD_H - sz < unat y)" using assms(2,3) by (auto simp: LCD_W_def LCD_H_def)
  define w where "w = window_io x y (x + of_nat (sz div 2) - 1) (y + of_nat sz - 1)"
  obtain font_buf s1 where m: "lcd_malloc (sz * sz) (lcd_io w s) = (font_buf, s1)" by (cases "lcd_malloc (sz * sz) (lcd_io w s)")
  then have s1: "lcd_bus s1 = lcd_bus s @ w" "FORE_COLOR s1 = FORE_COLOR s" "BACK_COLOR s1 = BACK_COLOR s" by (auto simp: lcd_malloc_def)
  have z: "glyph_pixels sz g s1 = zip [0..<length (picture sz g s)] (picture sz g s)"
    using glyph_pixels_zip [OF assms(1) glyph_length [OF assms(4)], of s1] picture_state [OF s1(2,3)] by simp
  have size: "2 * (sz div 2 * sz) = sz * sz" using assms(1) by auto
  have buf: "fold put_pixel (zip [0..<length (picture sz g s)] (picture sz g s)) (map (lcd_junk s1) [0..<sz * sz]) = concat (map half_word (picture sz g s))"
    using put_pixels [of "picture sz g s" "map (lcd_junk s1) [0..<sz * sz]"] size by (simp add: picture_length)
  define out where "out = (if font_buf then [Pin_dc True, Spi (concat (map half_word (picture sz g s)))]
     else concat (map (\<lambda>(i, c). [Pin_dc True, Spi (half_word c)]) (zip [0..<length (picture sz g s)] (picture sz g s))))"
  have run: "lcd_show_char fonts x y data sz s = Some (lcd_io out s1)"
    unfolding lcd_show_char_def if_not_P [OF fits] if_not_P [OF sz]
    by (simp add: lcd_address_set_io w_def [symmetric] m assms(4) z buf half_words_bus out_def)
  have out: "received dc out = pixels (picture sz g s)" for dc
    by (simp add: out_def received_half_words) (simp add: pixels_def)
  show ?thesis
    by (rule exI [of _ "lcd_io out s1"], rule exI [of _ "w @ out"]) (simp add: run s1 received_append out, simp add: w_def)
qed

subsection \<open>What the drawings show\<close>

text \<open>C30. A character that fits reaches the display as its window and the picture of its glyph, row by row from the highest bit, in the
  foreground and the background color, and whether the routine got memory for its buffer makes no difference.\<close>

theorem lcd_show_char_draws:
  assumes "sz \<in> {16, 24, 32}" "unat x + sz div 2 \<le> 240" "unat y + sz \<le> 240" "glyph fonts sz data = Some g"
  shows "\<exists>s'. lcd_show_char fonts x y data sz s = Some s'
    \<and> received dc (lcd_bus s') = received dc (lcd_bus s) @ window x y (x + of_nat (sz div 2) - 1) (y + of_nat sz - 1) @ pixels (picture sz g s)"
  using lcd_show_char_bus [OF assms, of s] received_append by metis

theorem lcd_show_char_draws_witness:
  "\<exists>s'. lcd_show_char \<lparr>asc2_1608 = replicate 16 0x80, asc2_2412 = [], asc2_3216 = []\<rparr> 232 224 0x20 16
      \<lparr>BACK_COLOR = 0xFFFF, FORE_COLOR = 0, lcd_bus = [], mallocs = [True], lcd_junk = (\<lambda>_. 0xAA)\<rparr> = Some s'
    \<and> received True (lcd_bus s') = received True (lcd_bus \<lparr>BACK_COLOR = 0xFFFF, FORE_COLOR = 0, lcd_bus = [], mallocs = [True], lcd_junk = (\<lambda>_. 0xAA)\<rparr>)
      @ window 232 224 (232 + of_nat (16 div 2) - 1) (224 + of_nat 16 - 1)
      @ pixels (picture 16 (replicate 16 0x80) \<lparr>BACK_COLOR = 0xFFFF, FORE_COLOR = 0, lcd_bus = [], mallocs = [True], lcd_junk = (\<lambda>_. 0xAA)\<rparr>)"
  by (rule lcd_show_char_draws) (simp_all add: glyph_def font_of_def glyph_bytes_def)

text \<open>The fonts of the board hold the characters from the space to the closing brace.\<close>

definition printable :: "string \<Rightarrow> bool" where
  "printable p \<longleftrightarrow> (\<forall>c\<in>set p. 32 \<le> (of_char c :: nat) \<and> (of_char c :: nat) < 126)"

definition full_fonts :: "lcd_fonts \<Rightarrow> bool" where
  "full_fonts fonts \<longleftrightarrow> length (asc2_1608 fonts) = 94 * 16 \<and> length (asc2_2412 fonts) = 94 * 48 \<and> length (asc2_3216 fonts) = 94 * 64"

lemma printable_glyph:
  assumes "full_fonts fonts" "32 \<le> (of_char c :: nat)" "(of_char c :: nat) < 126" "sz \<in> {16, 24, 32}"
  shows "\<exists>g. glyph fonts sz (of_char c) = Some g"
proof -
  obtain n where n: "n = (of_char c :: nat)" by blast
  have "(of_char c :: u8) = of_nat n" unfolding n by (rule of_nat_of_char [symmetric])
  moreover have "unat (of_nat n - 32 :: u8) = n - 32"
  proof -
    have "(of_nat n - 32 :: u8) = of_nat (n - 32)" using assms(2) n by (simp add: of_nat_diff)
    then show ?thesis using assms(3) n by (simp add: unsigned_of_nat take_bit_nat_eq_self)
  qed
  moreover have "n - 32 < 94" using assms(2,3) n by simp
  ultimately have "\<not> length (font_of fonts sz) < unat ((of_char c :: u8) - 32) * glyph_bytes sz + glyph_bytes sz"
    using assms(1,4) by (auto simp: full_fonts_def font_of_def glyph_bytes_def)
  then show ?thesis by (simp add: glyph_def Let_def)
qed

lemma drawings_pixels: "\<lbrakk>0 < w; 0 < h; unat x + w \<le> 240; unat y + h \<le> 240; length cs = w * h; drawings bs\<rbrakk>
    \<Longrightarrow> drawings (window x y (x + of_nat w - 1) (y + of_nat h - 1) @ pixels cs @ bs)"
  using drawings_append [OF drawn_area, of w h x y cs bs] by simp

lemma drawn_screen: "drawings (window 0 0 239 239 @ pixels (replicate 57600 color))"
  using drawn_area [of 240 240 0 0 "replicate 57600 color"] by simp

lemma show_chars_drawings:
  assumes "full_fonts fonts" "sz \<in> {16, 24, 32}" "printable p"
  shows "\<exists>s' es. show_chars fonts sz p x y s = Some s' \<and> lcd_bus s' = lcd_bus s @ es \<and> (\<forall>dc. drawings (received dc es))"
  using assms(3)
proof (induction p arbitrary: x y s)
  case (Cons c p)
  have sz: "sz div 2 \<le> 16" "sz \<le> 32" "0 < sz div 2" "0 < sz" using assms(2) by auto
  define x1 y1 where "x1 = (if LCD_W - sz div 2 < unat x then 0 else x)" and "y1 = (if LCD_W - sz div 2 < unat x then y + of_nat sz else y)"
  define x2 y2 s2 where "x2 = (if LCD_H - sz < unat y1 then 0 else x1)" and "y2 = (if LCD_H - sz < unat y1 then 0 else y1)"
    and "s2 = (if LCD_H - sz < unat y1 then lcd_clear RED_COLOR s else s)"
  have b: "unat x2 + sz div 2 \<le> 240" "unat y2 + sz \<le> 240"
    using sz by (auto simp: x2_def y2_def x1_def LCD_W_def LCD_H_def)
  obtain g where g: "glyph fonts sz (of_char c) = Some g"
    using printable_glyph [OF assms(1) _ _ assms(2), of c] Cons.prems by (simp add: printable_def) blast
  obtain es2 where es2: "lcd_bus s2 = lcd_bus s @ es2" "\<And>dc. drawings (received dc es2)"
  proof (cases "LCD_H - sz < unat y1")
    case True
    from lcd_clear_bus [of RED_COLOR s] obtain es where es: "lcd_bus (lcd_clear RED_COLOR s) = lcd_bus s @ es"
      "\<And>dc. received dc es = window 0 0 239 239 @ pixels (replicate 57600 RED_COLOR)" by (elim exE conjE) blast
    show ?thesis by (rule that [of es]) (simp_all only: s2_def True if_True es drawn_screen)
  next
    case False
    then show ?thesis using that [of "[]"] by (simp add: s2_def drawn_nothing)
  qed
  from lcd_show_char_bus [OF assms(2) b g, of s2] obtain s3 es3 where
    3: "lcd_show_char fonts x2 y2 (of_char c) sz s2 = Some s3" "lcd_bus s3 = lcd_bus s2 @ es3"
    and d3: "\<And>dc. received dc es3 = window x2 y2 (x2 + of_nat (sz div 2) - 1) (y2 + of_nat sz - 1) @ pixels (picture sz g s2)" by blast
  have p: "printable p" using Cons.prems by (simp add: printable_def)
  obtain s4 es4 where 4: "show_chars fonts sz p (x2 + of_nat (sz div 2)) y2 s3 = Some s4" "lcd_bus s4 = lcd_bus s3 @ es4"
    and d4: "\<And>dc. drawings (received dc es4)"
    using Cons.IH [OF p, of "x2 + of_nat (sz div 2)" y2 s3] by (elim exE conjE) blast
  have e1: "(if LCD_W - sz div 2 < unat x then (0, y + of_nat sz) else (x, y)) = (x1, y1)" by (simp add: x1_def y1_def)
  have e2: "(if LCD_H - sz < unat y1 then (0, 0, lcd_clear RED_COLOR s) else (x1, y1, s)) = (x2, y2, s2)" by (simp add: x2_def y2_def s2_def)
  have run: "show_chars fonts sz (c # p) x y s = Some s4"
    using 3(1) 4(1) by (simp only: show_chars.simps e1 e2 Let_def prod.case option.case)
  have "drawings (received dc (es2 @ es3 @ es4))" for dc
    unfolding received_append d3
    using drawings_append [OF es2(2) drawings_pixels [OF sz(3,4) b picture_length d4]] by simp
  then show ?case using run 3(2) 4(2) es2(1) by (intro exI [of _ s4] exI [of _ "es2 @ es3 @ es4"]) simp
qed (auto intro: drawn_nothing)

lemma lcd_show_string_bus:
  assumes "full_fonts fonts" "sz \<in> {16, 24, 32}" "vformat fmt args = Some p" "printable p"
  shows "\<exists>s' es. lcd_show_string fonts x y sz fmt args s = Some (RT_EOK, s') \<and> lcd_bus s' = lcd_bus s @ es
    \<and> (\<forall>dc. drawings (received dc es))"
proof -
  have sz: "\<not> (sz \<noteq> 16 \<and> sz \<noteq> 24 \<and> sz \<noteq> 32)" using assms(2) by blast
  have "NUL \<notin> set p" using assms(4) by (auto simp: printable_def)
  then have "\<exists>b. rt_vsnprintf (replicate LCD_STRING_BUF_LEN NUL) 100 fmt args = Some (length p, b)
      \<and> length b = length (replicate LCD_STRING_BUF_LEN NUL) \<and> drop 100 b = drop 100 (replicate LCD_STRING_BUF_LEN NUL) \<and> c_string b = take (100 - 1) p"
    by (intro printed [OF assms(3)]) (simp_all add: LCD_STRING_BUF_LEN_def)
  then obtain b where b: "rt_vsnprintf (replicate LCD_STRING_BUF_LEN NUL) 100 fmt args = Some (length p, b)" "c_string b = take 99 p"
    by (elim exE conjE) simp
  have "printable (take 99 p)" using assms(4) set_take_subset [of 99 p] by (auto simp: printable_def)
  from show_chars_drawings [OF assms(1,2) this, of x y s] obtain s' es where
    s': "show_chars fonts sz (take 99 p) x y s = Some s'" "lcd_bus s' = lcd_bus s @ es" and d: "\<And>dc. drawings (received dc es)"
    by (elim exE conjE) blast
  have "lcd_show_string fonts x y sz fmt args s = Some (RT_EOK, s')"
    unfolding lcd_show_string_def if_not_P [OF sz] using b s'(1) by simp
  then show ?thesis using s'(2) d by blast
qed

text \<open>On the board's fonts and for a text of printable characters without a percent sign, \<open>lcd_show_string\<close> returns, whatever the
  length of the text, the position and the memory for the buffers, and all it sends are windows of the 240 by 240 screen with one
  color for each pixel: a text that is too long begins a new row or a new screen.\<close>

lemma lcd_show_string_on_screen:
  assumes "full_fonts fonts" "sz \<in> {16, 24, 32}" "printable p" "CHR ''%'' \<notin> set p"
  shows "\<exists>s' ds. lcd_show_string fonts x y sz p [] s = Some (RT_EOK, s')
    \<and> received dc (lcd_bus s') = received dc (lcd_bus s) @ ds \<and> drawings ds"
proof -
  have "vformat p [] = Some p" by (rule vformat_plain [OF assms(4)])
  from lcd_show_string_bus [OF assms(1,2) this assms(3), of x y s] show ?thesis
    using received_append [of dc "lcd_bus s"] by (elim exE conjE) metis
qed

subsection \<open>Lines\<close>

text \<open>How far a coordinate has gone after \<open>k\<close> rounds on a way of \<open>d\<close> out of \<open>D\<close>.\<close>

definition way :: "int \<Rightarrow> int \<Rightarrow> nat \<Rightarrow> int" where
  "way D d k = (if k = 0 \<or> d = 0 then 0 else (int k * d - 1) div D)"

lemma way_round:
  assumes "0 \<le> d" "d \<le> D" "0 < D"
  shows "way D d (Suc k) = (if int k * d - way D d k * D + d > D then way D d k + 1 else way D d k)"
proof (cases "k = 0 \<or> d = 0")
  case True
  then show ?thesis using assms by (auto simp: way_def)
next
  case False
  obtain q where q: "q = way D d k" by blast
  then have q': "q = (int k * d - 1) div D" using False by (simp add: way_def)
  obtain r where r: "r = (int k * d - 1) mod D" by blast
  have e: "int k * d = D * q + r + 1" unfolding q' r by simp
  have b: "0 \<le> r" "r < D" unfolding r using assms(3) by simp_all
  have "way D d (Suc k) = (D * q + (r + d)) div D" using False e by (simp add: way_def algebra_simps)
  also have "\<dots> = q + (r + d) div D" using assms(3) by simp
  also have "(r + d) div D = (if r + d \<ge> D then 1 else 0)" using b assms div_pos_geq [of D "r + d"] by (auto simp: div_pos_pos_trivial)
  finally show ?thesis unfolding q [symmetric] using e by (simp add: algebra_simps)
qed

lemma way_step: "\<lbrakk>0 \<le> d; d \<le> D; 0 < D\<rbrakk> \<Longrightarrow> way D d (Suc k) - way D d k \<in> {0, 1}"
  by (simp add: way_round)

lemma way_last:
  assumes "0 \<le> d" "d \<le> D" "0 < D"
  shows "way D d (nat D + 1) = d"
proof (cases "d = 0")
  case False
  have "way D d (nat D + 1) = (D * d + (d - 1)) div D" using False assms by (simp add: way_def algebra_simps)
  also have "\<dots> = d + (d - 1) div D" using assms by simp
  also have "(d - 1) div D = 0" using False assms by simp
  finally show ?thesis by simp
qed (simp add: way_def)

lemma way_mono: "\<lbrakk>0 \<le> d; d \<le> D; 0 < D; j \<le> k\<rbrakk> \<Longrightarrow> way D d j \<le> way D d k"
proof (induction k)
  case (Suc k)
  show ?case
  proof (cases "j = Suc k")
    case False
    then have "way D d j \<le> way D d k" using Suc by simp
    then show ?thesis using way_step [OF Suc.prems(1-3), of k] by auto
  qed simp
qed simp

definition line_at :: "int \<Rightarrow> int \<Rightarrow> int \<Rightarrow> int \<Rightarrow> int \<Rightarrow> int \<Rightarrow> int \<Rightarrow> nat \<Rightarrow> line_state" where
  "line_at dx dy D ix iy x y k =
     \<lparr>line_xerr = int k * dx - way D dx k * D, line_yerr = int k * dy - way D dy k * D,
      line_row = x + ix * way D dx k, line_col = y + iy * way D dy k\<rparr>"

lemma line_step_at:
  assumes "0 \<le> dx" "dx \<le> D" "0 \<le> dy" "dy \<le> D" "0 < D"
  shows "line_step dx dy D ix iy (line_at dx dy D ix iy x y k) = line_at dx dy D ix iy x y (Suc k)"
  using way_round [OF assms(1,2,5), of k] way_round [OF assms(3,4,5), of k]
  by (simp add: line_step_def line_at_def Let_def algebra_simps)

lemma line_points_at:
  assumes "0 \<le> dx" "dx \<le> D" "0 \<le> dy" "dy \<le> D" "0 < D"
  shows "line_points dx dy D ix iy n (line_at dx dy D ix iy x y k) = map (\<lambda>j. (x + ix * way D dx j, y + iy * way D dy j)) [k..<k + n]"
proof (induction n arbitrary: k)
  case (Suc n)
  have u: "[k..<k + Suc n] = k # [Suc k..<Suc k + n]" using upt_conv_Cons [of k "k + Suc n"] by simp
  have "line_points dx dy D ix iy (Suc n) (line_at dx dy D ix iy x y k)
      = (x + ix * way D dx k, y + iy * way D dy k) # line_points dx dy D ix iy n (line_at dx dy D ix iy x y (Suc k))"
    unfolding line_points.simps line_step_at [OF assms] by (simp add: line_at_def)
  then show ?case unfolding u Suc.IH by simp
qed simp

lemma way_error:
  assumes "0 \<le> d" "d \<le> D" "0 < D"
  shows "0 \<le> int k * d - way D d k * D" "int k * d - way D d k * D \<le> D"
proof -
  have "int k * d - way D d k * D = (if k = 0 \<or> d = 0 then 0 else (int k * d - 1) mod D + 1)"
    by (auto simp: way_def minus_div_mult_eq_mod [symmetric])
  moreover have "0 \<le> (int k * d - 1) mod D" "(int k * d - 1) mod D + 1 \<le> D" using assms(3) by (simp_all add: zless_imp_add1_zle)
  ultimately show "0 \<le> int k * d - way D d k * D" "int k * d - way D d k * D \<le> D" using assms(3) by (simp_all only: split: if_split) simp_all
qed

text \<open>The two ways keep together: a point lies within one pixel of the ideal line.\<close>

lemma ways_straight:
  assumes "0 \<le> dx" "dx \<le> D" "0 \<le> dy" "dy \<le> D" "0 < D"
  shows "\<bar>way D dx k * dy - way D dy k * dx\<bar> \<le> D"
proof -
  obtain e where e: "e = int k * dx - way D dx k * D" by blast
  obtain f where f: "f = int k * dy - way D dy k * D" by blast
  have b: "0 \<le> e" "e \<le> D" "0 \<le> f" "f \<le> D" unfolding e f using way_error [OF assms(1,2,5), of k] way_error [OF assms(3,4,5), of k] by simp_all
  have i: "(way D dx k * dy - way D dy k * dx) * D = f * dx - e * dy" unfolding e f by (simp add: algebra_simps)
  have "0 \<le> f * dx" "f * dx \<le> D * D" "0 \<le> e * dy" "e * dy \<le> D * D"
    using b assms by (simp_all add: mult_mono)
  then have "\<bar>(way D dx k * dy - way D dy k * dx) * D\<bar> \<le> D * D" unfolding i by linarith
  then show ?thesis using assms(5) by (simp add: abs_mult)
qed

lemma sgn_way: "0 \<le> w \<Longrightarrow> w \<le> \<bar>d :: int\<bar> \<Longrightarrow> min z (z + d) \<le> z + sgn d * w \<and> z + sgn d * w \<le> max z (z + d)"
  by (cases d "0 :: int" rule: linorder_cases) auto

lemma turned: "sgn dx * w * dy - sgn dy * v * dx = sgn dx * sgn dy * (w * \<bar>dy\<bar> - v * \<bar>dx\<bar>)" for dx dy w v :: int
  by (cases dx "0 :: int" rule: linorder_cases; cases dy "0 :: int" rule: linorder_cases) (simp_all add: algebra_simps)

lemma turned_abs: "\<bar>sgn dx * sgn dy * z\<bar> \<le> \<bar>z\<bar>" for dx dy z :: int
  by (simp add: sgn_if abs_mult)

lemma sgn_unit: "w \<in> {0, 1} \<Longrightarrow> \<bar>sgn (d :: int) * w\<bar> \<le> 1"
  by (auto simp: sgn_if)

lemma slanted_line:
  assumes "y1 \<noteq> y2" "\<bar>uint x2 - uint x1\<bar> < 65534" "\<bar>uint y2 - uint y1\<bar> < 65534"
  shows "\<exists>ps. lcd_draw_line x1 y1 x2 y2 s = Some (draw_points ps s)
    \<and> hd ps = (uint x1, uint y1) \<and> last ps = (uint x2, uint y2)
    \<and> (\<forall>i. Suc i < length ps \<longrightarrow> \<bar>fst (ps ! Suc i) - fst (ps ! i)\<bar> \<le> 1 \<and> \<bar>snd (ps ! Suc i) - snd (ps ! i)\<bar> \<le> 1)
    \<and> (\<forall>p\<in>set ps. min (uint x1) (uint x2) \<le> fst p \<and> fst p \<le> max (uint x1) (uint x2)
        \<and> min (uint y1) (uint y2) \<le> snd p \<and> snd p \<le> max (uint y1) (uint y2)
        \<and> \<bar>(fst p - uint x1) * (uint y2 - uint y1) - (snd p - uint y1) * (uint x2 - uint x1)\<bar>
          \<le> max \<bar>uint x2 - uint x1\<bar> \<bar>uint y2 - uint y1\<bar>)"
proof -
  obtain x y where xy: "x = uint x1" "y = uint y1" by blast
  obtain dx where dx: "dx = uint x2 - uint x1" by blast
  obtain dy where dy: "dy = uint y2 - uint y1" by blast
  obtain D where D: "D = max \<bar>dx\<bar> \<bar>dy\<bar>" by blast
  have "dy \<noteq> 0" using assms(1) dy by (metis right_minus_eq word_uint_eqI)
  then have c: "0 \<le> \<bar>dx\<bar>" "\<bar>dx\<bar> \<le> D" "0 \<le> \<bar>dy\<bar>" "\<bar>dy\<bar> \<le> D" "0 < D" "D < 65534" using assms(2,3) unfolding D dx dy by auto
  define pt where "pt = (\<lambda>k. (x + sgn dx * way D \<bar>dx\<bar> k, y + sgn dy * way D \<bar>dy\<bar> k))"
  define ps where "ps = map pt [0..<nat D + 2]"
  have start: "line_at \<bar>dx\<bar> \<bar>dy\<bar> D (sgn dx) (sgn dy) x y 0 = \<lparr>line_xerr = 0, line_yerr = 0, line_row = x, line_col = y\<rparr>"
    by (simp add: line_at_def way_def)
  have "line_points \<bar>dx\<bar> \<bar>dy\<bar> D (sgn dx) (sgn dy) (nat D + 2) \<lparr>line_xerr = 0, line_yerr = 0, line_row = x, line_col = y\<rparr> = ps"
    unfolding start [symmetric] line_points_at [OF c(1-5)] ps_def pt_def by simp
  moreover have "slanted_points x1 y1 x2 y2 = (if 65535 \<le> D + 1 then None
      else Some (line_points \<bar>dx\<bar> \<bar>dy\<bar> D (sgn dx) (sgn dy) (nat D + 2) \<lparr>line_xerr = 0, line_yerr = 0, line_row = x, line_col = y\<rparr>))"
    by (simp only: slanted_points_def Let_def D dx dy xy)
  ultimately have "slanted_points x1 y1 x2 y2 = Some ps" using c(6) by simp
  then have run: "lcd_draw_line x1 y1 x2 y2 s = Some (draw_points ps s)" using assms(1) by (simp add: lcd_draw_line_def)
  have len: "length ps = nat D + 2" and nth: "\<And>k. k < nat D + 2 \<Longrightarrow> ps ! k = pt k" by (simp_all add: ps_def del: upt_Suc)
  have first: "hd ps = (x, y)" using nth [of 0] len by (simp add: hd_conv_nth pt_def way_def flip: length_greater_0_conv)
  have "x + sgn dx * \<bar>dx\<bar> = uint x2" "y + sgn dy * \<bar>dy\<bar> = uint y2" unfolding xy dx dy by (simp_all add: sgn_mult_abs)
  then have last: "last ps = (uint x2, uint y2)"
    using nth [of "nat D + 1"] len way_last [OF c(1,2,5)] way_last [OF c(3,4,5)]
    by (simp add: last_conv_nth pt_def flip: length_greater_0_conv)
  have near: "\<bar>fst (ps ! Suc i) - fst (ps ! i)\<bar> \<le> 1 \<and> \<bar>snd (ps ! Suc i) - snd (ps ! i)\<bar> \<le> 1" if "Suc i < length ps" for i
  proof -
    have "ps ! Suc i = pt (Suc i)" "ps ! i = pt i" using that len by (simp_all add: nth)
    moreover have "fst (pt (Suc i)) - fst (pt i) = sgn dx * (way D \<bar>dx\<bar> (Suc i) - way D \<bar>dx\<bar> i)"
      "snd (pt (Suc i)) - snd (pt i) = sgn dy * (way D \<bar>dy\<bar> (Suc i) - way D \<bar>dy\<bar> i)" by (simp_all add: pt_def algebra_simps)
    ultimately show ?thesis using sgn_unit [OF way_step [OF c(1,2,5)]] sgn_unit [OF way_step [OF c(3,4,5)]] by simp
  qed
  have inside: "min x (uint x2) \<le> fst p \<and> fst p \<le> max x (uint x2) \<and> min y (uint y2) \<le> snd p \<and> snd p \<le> max y (uint y2)
      \<and> \<bar>(fst p - x) * dy - (snd p - y) * dx\<bar> \<le> D" if "p \<in> set ps" for p
  proof -
    from that obtain k where "k \<in> set [0..<nat D + 2]" "p = pt k" unfolding ps_def set_map by blast
    then have k: "k \<le> nat D + 1" "p = pt k" by (simp_all del: upt_Suc)
    have w: "0 \<le> way D \<bar>dx\<bar> k" "way D \<bar>dx\<bar> k \<le> \<bar>dx\<bar>" "0 \<le> way D \<bar>dy\<bar> k" "way D \<bar>dy\<bar> k \<le> \<bar>dy\<bar>"
      using way_mono [OF c(1,2,5), of 0 k] way_mono [OF c(1,2,5) k(1)] way_last [OF c(1,2,5)]
        way_mono [OF c(3,4,5), of 0 k] way_mono [OF c(3,4,5) k(1)] way_last [OF c(3,4,5)] by (simp_all add: way_def [of _ _ 0])
    have ends: "uint x2 = x + dx" "uint y2 = y + dy" unfolding xy dx dy by simp_all
    have "(fst p - x) * dy - (snd p - y) * dx = sgn dx * sgn dy * (way D \<bar>dx\<bar> k * \<bar>dy\<bar> - way D \<bar>dy\<bar> k * \<bar>dx\<bar>)"
      unfolding k(2) pt_def by (simp add: turned)
    then have "\<bar>(fst p - x) * dy - (snd p - y) * dx\<bar> \<le> D"
      using order_trans [OF turned_abs ways_straight [OF c(1-5), of k]] by simp
    then show ?thesis using sgn_way [OF w(1,2), of x] sgn_way [OF w(3,4), of y] unfolding ends k(2) pt_def by simp
  qed
  show ?thesis using run first last near inside unfolding xy dx dy D by blast
qed

text \<open>C31. A line that is not horizontal is drawn from its first to its last point without a gap: neighbouring points differ by at most one
  in each coordinate, all stay between the end points, and each lies within one pixel of the straight line. The 16-bit counter needs
  the end points to be less than 65534 apart.\<close>

theorem lcd_draw_line_straight:
  assumes "y1 \<noteq> y2" "\<bar>uint x2 - uint x1\<bar> < 65534" "\<bar>uint y2 - uint y1\<bar> < 65534"
  shows "\<exists>ps. lcd_draw_line x1 y1 x2 y2 s = Some (draw_points ps s)
    \<and> hd ps = (uint x1, uint y1) \<and> last ps = (uint x2, uint y2)
    \<and> (\<forall>i. Suc i < length ps \<longrightarrow> \<bar>fst (ps ! Suc i) - fst (ps ! i)\<bar> \<le> 1 \<and> \<bar>snd (ps ! Suc i) - snd (ps ! i)\<bar> \<le> 1)
    \<and> (\<forall>p\<in>set ps. min (uint x1) (uint x2) \<le> fst p \<and> fst p \<le> max (uint x1) (uint x2)
        \<and> min (uint y1) (uint y2) \<le> snd p \<and> snd p \<le> max (uint y1) (uint y2)
        \<and> \<bar>(fst p - uint x1) * (uint y2 - uint y1) - (snd p - uint y1) * (uint x2 - uint x1)\<bar>
          \<le> max \<bar>uint x2 - uint x1\<bar> \<bar>uint y2 - uint y1\<bar>)"
  by (rule slanted_line [OF assms])

theorem lcd_draw_line_straight_witness:
  "\<exists>ps. lcd_draw_line 0 0 1 1 \<lparr>BACK_COLOR = 0xFFFF, FORE_COLOR = 0, lcd_bus = [], mallocs = [], lcd_junk = (\<lambda>_. 0)\<rparr>
      = Some (draw_points ps \<lparr>BACK_COLOR = 0xFFFF, FORE_COLOR = 0, lcd_bus = [], mallocs = [], lcd_junk = (\<lambda>_. 0)\<rparr>)
    \<and> hd ps = (uint (0 :: u16), uint (0 :: u16)) \<and> last ps = (uint (1 :: u16), uint (1 :: u16))"
  using lcd_draw_line_straight [of 0 1 1 0 "\<lparr>BACK_COLOR = 0xFFFF, FORE_COLOR = 0, lcd_bus = [], mallocs = [], lcd_junk = (\<lambda>_. 0)\<rparr>"] by auto

subsection \<open>Areas\<close>

lemma fill_blocks:
  assumes "even r" "r \<le> 2 ^ 32"
  shows "concat (map (\<lambda>k. replicate (k div 2) a) (fill_sizes LCD_CLEAR_SEND_NUMBER r)) = replicate ((LCD_CLEAR_SEND_NUMBER + r) div 2) a"
  using assms
proof (induction r rule: less_induct)
  case (less r)
  have L: "LCD_CLEAR_SEND_NUMBER = 5760" by (simp add: LCD_CLEAR_SEND_NUMBER_def)
  show ?case
  proof (cases "r > 5760")
    case True
    then obtain q where q: "r = 5760 + q" "0 < q" using less_imp_add_positive by blast
    have "even q" using less.prems(1) q(1) by simp
    then have "concat (map (\<lambda>k. replicate (k div 2) a) (fill_sizes 5760 q)) = replicate ((5760 + q) div 2) a"
      using less.IH [of q] less.prems(2) q unfolding L by simp
    moreover have "fill_sizes 5760 r = 5760 # fill_sizes 5760 q" using q by (subst fill_sizes.simps) (simp add: L)
    moreover have "(5760 + r) div 2 = 2880 + (5760 + q) div 2" using q by simp
    ultimately show ?thesis unfolding L by (simp add: replicate_add)
  next
    case False
    then have "fill_sizes 5760 r = 5760 # (if r = 0 then [] else [r])"
      by (subst fill_sizes.simps, subst (2) fill_sizes.simps) (simp add: L)
    moreover have "(5760 + r) div 2 = 2880 + r div 2" using less.prems(1) by (elim evenE) simp
    ultimately show ?thesis unfolding L by (simp add: replicate_add)
  qed
qed

lemma received_blocks:
  "received dc (concat (map (\<lambda>k. [Pin_dc True, Spi (concat (replicate (k div 2) (half_word color)))]) ks))
    = pixels (concat (map (\<lambda>k. replicate (k div 2) color) ks))"
proof (induction ks arbitrary: dc)
  case (Cons k ks)
  have "map (Pair True) (concat (replicate n (half_word color))) = pixels (replicate n color)" for n
    by (simp add: pixels_def map_replicate)
  then show ?case using Cons by (simp add: pixels_append)
qed (simp add: pixels_def)

text \<open>With memory \<open>lcd_fill\<close> sends one row and one column less than its window, without memory all of it.\<close>

lemma lcd_fill_sends:
  assumes "x_start \<le> x_end" "y_start \<le> y_end" "x_end < 240" "y_end < 240"
  shows "\<exists>s'. lcd_fill x_start y_start x_end y_end color s = Some s' \<and>
    received dc (lcd_bus s') = received dc (lcd_bus s) @ window x_start y_start x_end y_end @
      pixels (replicate (if mallocs s \<noteq> [] \<and> hd (mallocs s) \<and> x_start < x_end \<and> y_start < y_end
        then (unat x_end - unat x_start) * (unat y_end - unat y_start)
        else (unat x_end - unat x_start + 1) * (unat y_end - unat y_start + 1)) color)"
proof -
  obtain a b where ab: "a = unat x_end - unat x_start" "b = unat y_end - unat y_start" by blast
  have u: "unat x_start \<le> unat x_end" "unat y_start \<le> unat y_end" "unat x_end < 240" "unat y_end < 240"
    using assms by (simp_all add: word_le_nat_alt word_less_nat_alt)
  then have i: "uint x_end - uint x_start = int a" "uint y_end - uint y_start = int b" and lt: "a < 240" "b < 240"
    by (simp_all add: ab of_nat_diff)
  have m: "a * b < 240 * 240" by (rule mult_strict_mono') (use lt in simp_all)
  have w1: "word_of_int (int a * int b * 2) = (of_nat (2 * (a * b)) :: u32)" by (simp add: of_nat_mult)
  have w2: "unat (of_nat (2 * (a * b)) :: u32) = 2 * (a * b)"
    by (simp only: unsigned_of_nat of_nat_id, rule take_bit_nat_eq_self) (use m in simp)
  have total: "unat (word_of_int ((uint x_end - uint x_start) * (uint y_end - uint y_start) * 2) :: u32) = 2 * (a * b)"
    by (simp only: i w1 w2)
  have pos: "(x_start < x_end \<and> y_start < y_end) = (0 < a * b)" using ab u by (auto simp: word_less_nat_alt)
  obtain T where T: "T = 2 * (a * b)" by blast
  obtain n remain where nr: "(if T > LCD_CLEAR_SEND_NUMBER then (LCD_CLEAR_SEND_NUMBER, T - LCD_CLEAR_SEND_NUMBER) else (T, 0)) = (n, remain)"
    by (cases "if T > LCD_CLEAR_SEND_NUMBER then (LCD_CLEAR_SEND_NUMBER, T - LCD_CLEAR_SEND_NUMBER) else (T, 0)")
  have "(n \<noteq> 0) = (T \<noteq> 0)" using nr by (auto simp: LCD_CLEAR_SEND_NUMBER_def split: if_splits)
  also have "(T \<noteq> 0) = (0 < a * b)" using T by simp
  finally have n: "(n \<noteq> 0) = (0 < a * b)" .
  have blocks: "concat (map (\<lambda>k. replicate (k div 2) color) (fill_sizes n remain)) = replicate (a * b) color"
  proof (cases "T > LCD_CLEAR_SEND_NUMBER")
    case True
    then have "n = LCD_CLEAR_SEND_NUMBER" "remain = T - LCD_CLEAR_SEND_NUMBER" using nr by simp_all
    moreover have "even (T - LCD_CLEAR_SEND_NUMBER)" "T - LCD_CLEAR_SEND_NUMBER \<le> 2 ^ 32" using T m by (simp_all add: LCD_CLEAR_SEND_NUMBER_def)
    ultimately show ?thesis using fill_blocks [of "T - LCD_CLEAR_SEND_NUMBER" color] True T by simp
  next
    case False
    then have "n = T" "remain = 0" using nr by (simp_all)
    then show ?thesis using T by (subst fill_sizes.simps) simp
  qed
  have never: "\<not> (y_start \<le> y_end \<and> (y_end = - 1 \<or> x_start \<le> x_end \<and> x_end = - 1))" using assms(3,4) by auto
  obtain fill_buf s1 where f: "lcd_malloc n (lcd_io (window_io x_start y_start x_end y_end) s) = (fill_buf, s1)"
    by (cases "lcd_malloc n (lcd_io (window_io x_start y_start x_end y_end) s)")
  then have s1: "lcd_bus s1 = lcd_bus s @ window_io x_start y_start x_end y_end"
    "fill_buf = (mallocs s \<noteq> [] \<and> hd (mallocs s) \<and> x_start < x_end \<and> y_start < y_end)"
    unfolding pos n [symmetric] by (auto simp: lcd_malloc_def)
  define out where "out = (if fill_buf then concat (map (\<lambda>k. [Pin_dc True, Spi (concat (replicate (k div 2) (half_word color)))]) (fill_sizes n remain))
    else concat (replicate ((b + 1) * (a + 1)) [Pin_dc True, Spi (half_word color)]))"
  have sizes: "nat (int b + 1) = b + 1" "nat (int a + 1) = a + 1" by simp_all
  have run: "lcd_fill x_start y_start x_end y_end color s = Some (lcd_io out s1)"
    unfolding lcd_fill_def Let_def lcd_address_set_io total
    unfolding T [symmetric] nr prod.case f if_not_P [OF never]
    unfolding i sizes out_def by simp
  have "received d (concat (replicate k [Pin_dc True, Spi (half_word color)])) = pixels (replicate k color)" for k d
    by (induction k arbitrary: d) (simp_all add: pixels_def)
  then have "received d out = pixels (replicate (if fill_buf then a * b else (a + 1) * (b + 1)) color)" for d
    unfolding out_def by (simp only: received_blocks blocks mult.commute [of "b + 1"] split: if_split) simp
  then have "received dc (lcd_bus (lcd_io out s1)) = received dc (lcd_bus s) @ window x_start y_start x_end y_end @
      pixels (replicate (if fill_buf then a * b else (a + 1) * (b + 1)) color)"
    by (simp add: s1(1) received_append)
  then show ?thesis using run unfolding s1(2) ab by blast
qed

text \<open>A text that comes from outside is a format: with a conversion in it the code reads an argument that is not there.\<close>

lemma lcd_show_string_format:
  assumes "sz \<in> {16, 24, 32}" "CHR ''%'' \<notin> set a" "c \<in> set ''csdxp''"
  shows "lcd_show_string fonts x y sz (a @ CHR ''%'' # c # rest) [] s = None"
proof -
  have "\<not> (sz \<noteq> 16 \<and> sz \<noteq> 24 \<and> sz \<noteq> 32)" using assms(1) by blast
  moreover have "rt_vsnprintf (replicate LCD_STRING_BUF_LEN NUL) 100 (a @ CHR ''%'' # c # rest) [] = None"
    by (subst rt_vsnprintf_text) (simp_all only: vformat_no_argument [OF assms(2,3)] option.map(1), simp add: LCD_STRING_BUF_LEN_def)
  ultimately show ?thesis unfolding lcd_show_string_def by simp
qed

text \<open>The 94 glyphs of a font end before the tilde.\<close>

lemma glyph_tilde: "\<lbrakk>full_fonts fonts; sz \<in> {16, 24, 32}; 126 \<le> unat data \<or> unat data < 32\<rbrakk> \<Longrightarrow> glyph fonts sz data = None"
proof -
  assume a: "full_fonts fonts" "sz \<in> {16, 24, 32}" "126 \<le> unat data \<or> unat data < 32"
  have "unat data < 256" using unsigned_less [of data] by simp
  then have "94 \<le> unat (data - 32)" using a(3) by (auto simp: unat_sub_if' word_le_nat_alt)
  then show ?thesis using a(1,2) by (auto simp: glyph_def Let_def full_fonts_def font_of_def glyph_bytes_def)
qed

end
