(* ===== verification/LcdScreen.thy ===== *)
theory LcdScreen
  imports LcdServed LcdDrv
begin

text \<open>
  The display thread on the display driver: what \<open>iotb_lcd_process.c\<close> asks for (the log of \<open>LcdMenu\<close>) is done by \<open>drv_lcd.c\<close>
  (\<open>LcdDrv\<close>). \<open>tidy\<close> is the invariant of the thread that makes every request one that the driver can do.
\<close>

subsection \<open>Requests to the driver\<close>

text \<open>The colors of \<open>drv_lcd.h\<close> that the pages use.\<close>

fun color_code :: "colour \<Rightarrow> u16" where
  "color_code WHITE = 0xFFFF"
| "color_code BLACK = 0x0000"
| "color_code BLUE = 0x001F"
| "color_code RED = 0xF800"
| "color_code GRAY240 = 0xF79E"

text \<open>\<open>images\<close> are the pictures of \<open>applications/image\<close>. Requests to other components change nothing here.\<close>

definition draw :: "lcd_fonts \<Rightarrow> (string \<Rightarrow> u8 list) \<Rightarrow> lcd_effect \<Rightarrow> lcd_drv \<Rightarrow> lcd_drv option" where
  "draw fonts images e s =
     (case e of
        Lcd_clear c \<Rightarrow> Some (lcd_clear (color_code c) s)
      | Lcd_set_color b f \<Rightarrow> Some (lcd_set_color (color_code b) (color_code f) s)
      | Lcd_show_string x y sz t \<Rightarrow> map_option snd (lcd_show_string fonts x y sz t [] s)
      | Lcd_show_num x y n sz \<Rightarrow> lcd_show_num fonts x y (word_of_int n) sz s
      | Lcd_draw_line x1 y1 x2 y2 \<Rightarrow> lcd_draw_line x1 y1 x2 y2 s
      | Lcd_draw_rectangle x1 y1 x2 y2 \<Rightarrow> lcd_draw_rectangle x1 y1 x2 y2 s
      | Lcd_show_image x y len wide name \<Rightarrow> map_option snd (lcd_show_image x y len wide (images name) s)
      | _ \<Rightarrow> Some s)"

primrec draw_all :: "lcd_fonts \<Rightarrow> (string \<Rightarrow> u8 list) \<Rightarrow> lcd_effect list \<Rightarrow> lcd_drv \<Rightarrow> lcd_drv option" where
  "draw_all fonts images [] s = Some s"
| "draw_all fonts images (e # es) s = Option.bind (draw fonts images e s) (draw_all fonts images es)"

subsection \<open>What a request draws\<close>

text \<open>Windows of the screen with at most one color for each pixel: a horizontal line leaves out its last one.\<close>

inductive shown :: "(bool \<times> u8) list \<Rightarrow> bool" where
  shown_nothing: "shown []"
| shown_window: "\<lbrakk>shown bs; x1 \<le> x2; x2 < of_nat LCD_W; y1 \<le> y2; y2 < of_nat LCD_H;
    length cs \<le> (unat (x2 - x1) + 1) * (unat (y2 - y1) + 1)\<rbrakk> \<Longrightarrow> shown (window x1 y1 x2 y2 @ pixels cs @ bs)"

lemma shown_append: "\<lbrakk>shown as; shown bs\<rbrakk> \<Longrightarrow> shown (as @ bs)"
proof (induction as rule: shown.induct)
  case (shown_window cs x1 x2 y1 y2 ps)
  show ?case using shown.shown_window [OF shown_window.IH [OF shown_window.prems] shown_window.hyps(2-6)] by simp
qed simp

lemma drawings_shown: "drawings bs \<Longrightarrow> shown bs"
proof (induction bs rule: drawings.induct)
  case (drawn bs x1 x2 y1 y2 cs)
  show ?case by (rule shown_window [OF drawn.IH drawn.hyps(2-5)]) (simp add: drawn.hyps(6))
qed (rule shown_nothing)

text \<open>A step of the driver that shows something on the screen.\<close>

definition shows_on :: "lcd_drv \<Rightarrow> lcd_drv option \<Rightarrow> bool" where
  "shows_on s r \<longleftrightarrow> (\<exists>s' es. r = Some s' \<and> lcd_bus s' = lcd_bus s @ es \<and> (\<forall>dc. shown (received dc es)))"

lemma shows_onI: "\<lbrakk>r = Some s'; lcd_bus s' = lcd_bus s @ es; \<And>dc. shown (received dc es)\<rbrakk> \<Longrightarrow> shows_on s r"
  unfolding shows_on_def by blast

lemma shows_on_same: "lcd_bus s' = lcd_bus s \<Longrightarrow> shows_on s (Some s')"
  by (rule shows_onI [OF refl, where es = "[]"]) (simp_all add: shown_nothing)

lemma shows_on_bind:
  assumes "shows_on s r" "\<And>s'. shows_on s' (f s')"
  shows "shows_on s (Option.bind r f)"
proof -
  from assms(1) obtain s1 es where 1: "r = Some s1" "lcd_bus s1 = lcd_bus s @ es" and d1: "\<And>dc. shown (received dc es)"
    unfolding shows_on_def by blast
  from assms(2) [of s1] obtain s2 fs where 2: "f s1 = Some s2" "lcd_bus s2 = lcd_bus s1 @ fs" and d2: "\<And>dc. shown (received dc fs)"
    unfolding shows_on_def by blast
  show ?thesis
    by (rule shows_onI [of _ s2 _ "es @ fs"]) (simp_all add: 1 2 received_append shown_append [OF d1 d2])
qed

lemma shows_on_string:
  assumes "full_fonts fonts" "sz \<in> {16, 24, 32}" "vformat fmt args = Some p" "printable p"
  shows "shows_on s (map_option snd (lcd_show_string fonts x y sz fmt args s))"
  using lcd_show_string_bus [OF assms, of x y s] drawings_shown unfolding shows_on_def by fastforce

lemma shows_on_clear: "shows_on s (Some (lcd_clear color s))"
  using lcd_clear_bus [of color s] drawings_shown [OF drawn_screen] unfolding shows_on_def by metis

lemma shows_on_point:
  assumes "x < of_nat LCD_W" "y < of_nat LCD_H"
  shows "shows_on s (Some (lcd_draw_point x y s))"
proof (rule shows_onI [OF refl])
  show "lcd_bus (lcd_draw_point x y s) = lcd_bus s @ window_io x y x y @ [Pin_dc True, Spi (half_word (FORE_COLOR s))]"
    by (simp add: lcd_draw_point_def lcd_address_set_io lcd_write_half_word_def)
  have "shown (window x y x y @ pixels [FORE_COLOR s] @ [])"
    by (rule shown_window [OF shown_nothing]) (use assms in simp_all)
  then show "shown (received dc (window_io x y x y @ [Pin_dc True, Spi (half_word (FORE_COLOR s))]))" for dc
    by (simp add: received_append pixels_def)
qed

lemma shows_on_points:
  "\<forall>p\<in>set ps. 0 \<le> fst p \<and> fst p < 240 \<and> 0 \<le> snd p \<and> snd p < 240 \<Longrightarrow> shows_on s (Some (draw_points ps s))"
proof (induction ps arbitrary: s)
  case (Cons p ps)
  have w: "(word_of_int z :: u16) < 240" if "0 \<le> z" "z < 240" for z :: int
    using that by (simp add: word_less_def uint_word_of_int take_bit_int_eq_self)
  have "shows_on s (Some (lcd_draw_point (word_of_int (fst p)) (word_of_int (snd p)) s))"
    using Cons.prems by (intro shows_on_point) (simp_all add: LCD_W_def LCD_H_def w)
  from shows_on_bind [OF this Cons.IH] Cons.prems show ?case by (cases p) (simp add: draw_points_def)
qed (simp add: draw_points_def shows_on_same)

lemma shows_on_line:
  assumes "x1 < 240" "y1 < 240" "x2 < 240" "y2 < 240" "y1 = y2 \<Longrightarrow> x1 \<le> x2"
  shows "shows_on s (lcd_draw_line x1 y1 x2 y2 s)"
proof (cases "y1 = y2")
  case True
  have le: "x1 \<le> x2" using True assms(5) by simp
  have n: "\<not> (x2 < x1 \<or> 240 < uint x2 - uint x1)" proof -
    have "uint x2 < 240" "0 \<le> uint x1" using assms(3) by (simp_all add: word_less_def)
    then have "\<not> 240 < uint x2 - uint x1" by linarith
    then show ?thesis using le by simp
  qed
  define k where "k = unat x2 - unat x1"
  have run: "lcd_draw_line x1 y1 x2 y2 s = Some (lcd_io [Pin_dc True, Spi (concat (replicate k (half_word (FORE_COLOR s))))]
      (lcd_io (window_io x1 y1 x2 y2) s))"
    unfolding lcd_draw_line_def if_P [OF True] Let_def if_not_P [OF n] by (simp add: lcd_address_set_io k_def)
  have "unat (x2 - x1) = k" using le by (simp add: k_def word_le_nat_alt unat_sub)
  then have "shown (window x1 y1 x2 y2 @ pixels (replicate k (FORE_COLOR s)) @ [])"
    by (intro shown_window [OF shown_nothing]) (use le True assms in \<open>simp_all add: LCD_W_def LCD_H_def\<close>)
  then show ?thesis
    by (intro shows_onI [OF run, where es = "window_io x1 y1 x2 y2 @ [Pin_dc True, Spi (concat (replicate k (half_word (FORE_COLOR s))))]"])
      (simp_all add: received_append pixels_def)
next
  case False
  have b: "0 \<le> uint x1" "uint x1 < 240" "0 \<le> uint y1" "uint y1 < 240" "0 \<le> uint x2" "uint x2 < 240" "0 \<le> uint y2" "uint y2 < 240"
    using assms(1-4) by (simp_all add: word_less_def)
  then have "\<bar>uint x2 - uint x1\<bar> < 65534" "\<bar>uint y2 - uint y1\<bar> < 65534" by linarith+
  from slanted_line [OF False this, of s] obtain ps where run: "lcd_draw_line x1 y1 x2 y2 s = Some (draw_points ps s)"
    and box: "\<forall>p\<in>set ps. min (uint x1) (uint x2) \<le> fst p \<and> fst p \<le> max (uint x1) (uint x2)
        \<and> min (uint y1) (uint y2) \<le> snd p \<and> snd p \<le> max (uint y1) (uint y2)" by (elim exE conjE) blast
  have "\<forall>p\<in>set ps. 0 \<le> fst p \<and> fst p < 240 \<and> 0 \<le> snd p \<and> snd p < 240" using box b by (meson le_less_trans max_less_iff_conj min.boundedI order_trans)
  from shows_on_points [OF this] show ?thesis unfolding run .
qed

lemma half_word_of: "\<exists>c. half_word c = [b0, b1]"
proof -
  define c :: u16 where "c = push_bit 8 (ucast b0) OR ucast b1"
  have "ucast (drop_bit 8 c) = b0" "ucast c = b1"
    by (rule bit_word_eqI; auto simp: c_def bit_simps dest: bit_imp_le_length)+
  then show ?thesis unfolding half_word_def by blast
qed

lemma bytes_pixels: "length p = 2 * n \<Longrightarrow> \<exists>cs. length cs = n \<and> map (Pair True) p = pixels cs"
proof (induction n arbitrary: p)
  case (Suc n)
  then obtain b0 b1 q where p: "p = b0 # b1 # q" "length q = 2 * n" by (auto simp: length_Suc_conv)
  obtain c where c: "half_word c = [b0, b1]" using half_word_of by blast
  from Suc.IH [OF p(2)] obtain cs where cs: "length cs = n" "map (Pair True) q = pixels cs" by blast
  have "length (c # cs) = Suc n \<and> map (Pair True) p = pixels (c # cs)"
    using cs(1) cs(2) [unfolded pixels_def] by (simp add: p(1) pixels_def c)
  then show ?case by blast
qed (simp add: pixels_def)

lemma shows_on_image:
  assumes "0 < len" "0 < wide" "unat x + unat len \<le> 240" "unat y + unat wide \<le> 240" "length p = unat len * unat wide * 2"
  shows "shows_on s (map_option snd (lcd_show_image x y len wide p s))"
proof -
  obtain cs where cs: "length cs = unat len * unat wide" "map (Pair True) p = pixels cs"
    using bytes_pixels [of p "unat len * unat wide"] assms(5) by auto
  have "\<not> (LCD_W < unat x + unat len \<or> LCD_H < unat y + unat wide)" using assms(3,4) by (simp add: LCD_W_def LCD_H_def)
  then have run: "map_option snd (lcd_show_image x y len wide p s)
      = Some (lcd_io [Pin_dc True, Spi p] (lcd_io (window_io x y (x + len - 1) (y + wide - 1)) s))"
    using assms(5) unfolding lcd_show_image_def by (simp add: Let_def lcd_address_set_io)
  have "0 < unat len" "0 < unat wide" using assms(1,2) by (simp_all add: unat_gt_0)
  from drawn_area [OF this assms(3,4), of cs] cs(1) have "drawings (window x y (x + len - 1) (y + wide - 1) @ pixels cs)" by simp
  then show ?thesis
    by (intro shows_onI [OF run, where es = "window_io x y (x + len - 1) (y + wide - 1) @ [Pin_dc True, Spi p]"])
      (simp_all add: received_append cs(2) drawings_shown)
qed

subsection \<open>Requests the driver can do\<close>

definition safe_text :: "string \<Rightarrow> bool" where
  "safe_text t \<longleftrightarrow> printable t \<and> CHR ''%'' \<notin> set t"

fun showable :: "(string \<Rightarrow> u8 list) \<Rightarrow> lcd_effect \<Rightarrow> bool" where
  "showable images (Lcd_show_string x y sz t) \<longleftrightarrow> sz \<in> {16, 24, 32} \<and> safe_text t"
| "showable images (Lcd_show_num x y n sz) \<longleftrightarrow> sz \<in> {16, 24, 32}"
| "showable images (Lcd_draw_line x1 y1 x2 y2) \<longleftrightarrow> x1 < 240 \<and> y1 < 240 \<and> x2 < 240 \<and> y2 < 240 \<and> (y1 = y2 \<longrightarrow> x1 \<le> x2)"
| "showable images (Lcd_draw_rectangle x1 y1 x2 y2) \<longleftrightarrow> x1 \<le> x2 \<and> x2 < 240 \<and> y1 < 240 \<and> y2 < 240"
| "showable images (Lcd_show_image x y len wide name) \<longleftrightarrow> 0 < len \<and> 0 < wide \<and> unat x + unat len \<le> 240 \<and> unat y + unat wide \<le> 240
     \<and> length (images name) = unat len * unat wide * 2"
| "showable images e \<longleftrightarrow> True"

lemma printable_append: "printable (a @ b) \<longleftrightarrow> printable a \<and> printable b"
  by (auto simp: printable_def)

lemma printable_decimal: "printable (decimal_int v)"
proof -
  have "(of_char (char_of (48 + n mod 10) :: char) :: nat) = 48 + n mod 10" for n :: nat
  proof -
    have "n mod 10 < 10" by simp
    then have "48 + n mod 10 < 256" by linarith
    then show ?thesis by simp
  qed
  then have d: "printable [char_of (48 + n mod 10)]" for n :: nat by (simp add: printable_def)
  have "printable (decimal_nat n)" for n
  proof (induction n rule: less_induct)
    case (less n)
    show ?case
    proof (cases "n < 10")
      case True
      then show ?thesis using d [of n] by (subst decimal_nat.simps) simp
    next
      case False
      then have "printable (decimal_nat (n div 10))" using less.IH by simp
      then show ?thesis using False d [of n] by (subst decimal_nat.simps) (simp add: printable_append)
    qed
  qed
  then show ?thesis by (simp add: decimal_int_def) (simp add: printable_def)
qed

lemma shows_on_num:
  assumes "full_fonts fonts" "sz \<in> {16, 24, 32}"
  shows "shows_on s (lcd_show_num fonts x y num sz s)"
proof -
  have "vformat ''%d'' [Word num] = Some (decimal_int (sint num))" using vformat_d [of "[]" num "[]"] by simp
  from shows_on_string [OF assms this printable_decimal] show ?thesis unfolding lcd_show_num_def .
qed

lemma shows_on_rectangle:
  assumes "x1 \<le> x2" "x2 < 240" "y1 < 240" "y2 < 240"
  shows "shows_on s (lcd_draw_rectangle x1 y1 x2 y2 s)"
proof -
  have x1: "x1 < 240" using assms(1,2) by (rule order_le_less_trans)
  show ?thesis
    unfolding lcd_draw_rectangle_def
    by (intro shows_on_bind shows_on_line) (use assms x1 in simp_all)
qed

lemma draw_shows:
  assumes "full_fonts fonts" "showable images e"
  shows "shows_on s (draw fonts images e s)"
proof (cases e)
  case (Lcd_show_string x y sz t)
  have v: "vformat t [] = Some t" by (rule vformat_plain) (use assms(2) in \<open>simp add: Lcd_show_string safe_text_def\<close>)
  show ?thesis unfolding draw_def Lcd_show_string lcd_effect.case
    by (rule shows_on_string [OF assms(1) _ v]) (use assms(2) in \<open>simp_all add: Lcd_show_string safe_text_def\<close>)
next
  case (Lcd_show_num x y n sz)
  show ?thesis unfolding draw_def Lcd_show_num lcd_effect.case
    by (rule shows_on_num [OF assms(1)]) (use assms(2) in \<open>simp add: Lcd_show_num\<close>)
next
  case (Lcd_draw_line x1 y1 x2 y2)
  show ?thesis unfolding draw_def Lcd_draw_line lcd_effect.case
    by (rule shows_on_line) (use assms(2) in \<open>simp_all add: Lcd_draw_line\<close>)
next
  case (Lcd_draw_rectangle x1 y1 x2 y2)
  show ?thesis unfolding draw_def Lcd_draw_rectangle lcd_effect.case
    by (rule shows_on_rectangle) (use assms(2) in \<open>simp_all add: Lcd_draw_rectangle\<close>)
next
  case (Lcd_show_image x y len wide name)
  show ?thesis unfolding draw_def Lcd_show_image lcd_effect.case
    by (rule shows_on_image) (use assms(2) in \<open>simp_all add: Lcd_show_image\<close>)
qed (simp_all add: draw_def shows_on_clear shows_on_same lcd_set_color_def)

lemma draw_all_shows:
  "\<lbrakk>full_fonts fonts; \<forall>e\<in>set es. showable images e\<rbrakk> \<Longrightarrow> shows_on s (draw_all fonts images es s)"
proof (induction es arbitrary: s)
  case (Cons e es)
  then show ?case using draw_shows [of fonts images e s] by (simp add: shows_on_bind)
qed (simp add: shows_on_same)

subsection \<open>The thread asks only for such\<close>

text \<open>What comes from outside: names of printable characters without a percent sign, and complete album pictures.\<close>

definition safe_env :: "lcd_env \<Rightarrow> bool" where
  "safe_env env \<longleftrightarrow>
     (case env_reply env of Song_array names \<Rightarrow> (\<forall>s\<in>set names. safe_text s) | _ \<Rightarrow> True)
     \<and> (case env_dir env of Some ds \<Rightarrow> (\<forall>(s, ty)\<in>set ds. safe_text s) | None \<Rightarrow> True)"

definition albums :: "string list" where
  "albums = [''gImage_fangjian2'', ''gImage_gaobaiqiqiu2'', ''gImage_jiandanai2'', ''gImage_mingmingjiu2'', ''gImage_xiatiandefeng2'',
     ''gImage_yuebanxiaoyequ2'']"

definition full_images :: "(string \<Rightarrow> u8 list) \<Rightarrow> bool" where
  "full_images images \<longleftrightarrow> (\<forall>name\<in>set albums. length (images name) = 158 * 118 * 2)"

definition tidy :: "(string \<Rightarrow> u8 list) \<Rightarrow> lcd_state \<Rightarrow> bool" where
  "tidy images st \<longleftrightarrow> (\<forall>e\<in>set (lcd_log st). showable images e)
     \<and> (\<forall>xs s. songlist st = Some xs \<longrightarrow> Some s \<in> set xs \<longrightarrow> safe_text s)"

lemma tidy_emit [simp]: "tidy images (emit es st) \<longleftrightarrow> tidy images st \<and> (\<forall>e\<in>set es. showable images e)"
  by (auto simp: tidy_def emit_def)

lemma tidy_menu [simp]: "tidy images (set_event i e st) = tidy images st" "tidy images (set_content i c st) = tidy images st"
  by (simp_all add: tidy_def set_event_def set_content_def set_menu_def)

lemma tidy_fields [simp]:
  "tidy images (st\<lparr>item_num := n\<rparr>) = tidy images st" "tidy images (st\<lparr>songlist_num := n\<rparr>) = tidy images st"
  "tidy images (st\<lparr>iotb_music_is_play := b\<rparr>) = tidy images st" "tidy images (st\<lparr>iotb_music_is_resume := b\<rparr>) = tidy images st"
  "tidy images (st\<lparr>volume_value := v\<rparr>) = tidy images st" "tidy images (st\<lparr>lcd_fds := k\<rparr>) = tidy images st"
  "tidy images (st\<lparr>show_cnt := w\<rparr>) = tidy images st" "tidy images (st\<lparr>show_menu_index := m\<rparr>) = tidy images st"
  "tidy images (st\<lparr>iotb_lcd_menu_index := m\<rparr>) = tidy images st"
  by (simp_all add: tidy_def)

lemma tidy_song: "\<lbrakk>tidy images st; song st i = Some s\<rbrakk> \<Longrightarrow> safe_text s"
  by (auto simp: tidy_def song_def split: option.splits if_splits) (metis nth_mem)

lemma safe_take: "safe_text s \<Longrightarrow> safe_text (take n s)"
  using set_take_subset [of n s] by (auto simp: safe_text_def printable_def)

lemma safe_blanks: "safe_text blank20" "safe_text blank12" "safe_text (replicate n CHR '' '')"
  by (simp_all add: blank20_def blank12_def safe_text_def printable_def of_char_def)

lemma safe_append: "safe_text (a @ b) \<longleftrightarrow> safe_text a \<and> safe_text b"
  by (auto simp: safe_text_def printable_def)

lemma safe_literals:
  "safe_text ''No Data''" "safe_text ''Web Server''" "safe_text ''Searching...''" "safe_text ''Wav Player''" "safe_text ''Volume:''"
  "safe_text ''>''" "safe_text ''No Album''" "safe_text ''Caching...''" "safe_text ''File System''" "safe_text ''file''" "safe_text ''dir ''"
  "safe_text '' Insert SD card''" "safe_text '' before power-on''"
  by (simp_all add: safe_text_def printable_def of_char_def)

lemma row_line: "k \<le> 6 \<Longrightarrow> row_y (int k) - 4 < 240"
proof -
  assume "k \<le> 6"
  then consider "k = 0" | "k = 1" | "k = 2" | "k = 3" | "k = 4" | "k = 5" | "k = 6" by linarith
  then show ?thesis by cases (simp_all add: row_y_def)
qed

subsubsection \<open>The song list page\<close>

lemma show_names_showable:
  "\<lbrakk>\<forall>s\<in>set names. safe_text s; cnt + length names \<le> 7\<rbrakk> \<Longrightarrow> \<forall>e\<in>set (show_names cnt names). showable images e"
proof (induction names arbitrary: cnt)
  case (Cons s names)
  have "row_y (int cnt) - 4 < 240" using Cons.prems(2) by (intro row_line) simp
  moreover have "\<forall>e\<in>set (show_names (Suc cnt) names). showable images e" using Cons.IH [of "Suc cnt"] Cons.prems by simp
  ultimately show ?case using Cons.prems(1) by simp
qed simp

lemma webserver_data_parse_tidy:
  assumes "webserver_data_parse mem r st = Some st'" "tidy images st" "\<And>names. r = Song_array names \<Longrightarrow> \<forall>s\<in>set names. safe_text s"
  shows "tidy images st'"
proof (cases r)
  case (Song_array names)
  obtain n where n: "n = (if int (length names) > 6 then 6 else int (length names))" by blast
  then have n6: "n \<le> 6" by simp
  have safe: "\<forall>s\<in>set (take k names). safe_text s" for k using assms(3) [OF Song_array] in_set_takeD by fast
  show ?thesis
  proof (cases "n > 0")
    case True
    define st1 where "st1 = st\<lparr>item_num := n, songlist := Some (map (\<lambda>s. Some (take 30 s)) (take (nat n) names))\<rparr>"
    define st2 where "st2 = emit ([Lcd_show_string 48 80 24 blank12] @ show_names 0 (take (nat n) names)) st1"
    have "safe_text s" if "Some s \<in> (\<lambda>s. Some (take 30 s)) ` set (take (nat n) names)" for s
      using that safe safe_take by blast
    then have t1: "tidy images st1" using assms(2) by (simp add: tidy_def st1_def)
    have "\<forall>e\<in>set (show_names 0 (take (nat n) names)). showable images e"
      by (rule show_names_showable [OF safe]) (use n6 in simp)
    then have t2: "tidy images st2" unfolding st2_def using t1 by (simp add: safe_blanks)
    obtain s where s: "song st2 (songlist_num st2) = Some s"
      "st' = emit [Lcd_draw_line 8 (row_y n - 4) (240 - 8) (row_y n - 4), Lcd_set_color BLUE WHITE,
         Lcd_show_string 0 (row_y (songlist_num st2)) 24 blank20, Lcd_show_string 8 (row_y (songlist_num st2)) 24 s] st2"
      using assms(1) unfolding Song_array webserver_data_parse_def web_reply.case Let_def n [symmetric] if_P [OF True] st2_def st1_def
        bind_eq_Some_conv new_songlist_eq
      by (elim exE conjE) (simp split: if_splits)
    have "row_y n - 4 < 240" using row_line [of "nat n"] n6 True by simp
    then show ?thesis unfolding s(2) using t2 tidy_song [OF t2 s(1)] by (simp add: safe_blanks)
  next
    case False
    have "st' = emit [Lcd_set_color WHITE BLACK, Lcd_show_string 48 80 24 blank12, Lcd_show_string 78 80 24 ''No Data''] (st\<lparr>item_num := n\<rparr>)"
      using assms(1) unfolding Song_array webserver_data_parse_def web_reply.case Let_def n [symmetric] if_not_P [OF False] by simp
    then show ?thesis using assms(2) by (simp add: safe_blanks safe_literals)
  qed
qed (use assms in \<open>simp_all add: webserver_data_parse_def\<close>)

lemma connect_server_tidy:
  assumes "connect_server env st = Some (st', exit)" "tidy images st" "safe_env env"
  shows "tidy images st'"
proof -
  have safe: "env_reply env = Song_array names \<Longrightarrow> \<forall>s\<in>set names. safe_text s" for names using assms(3) by (simp add: safe_env_def)
  have "tidy images st1" if "fetch_songs env (emit [Web_get WEBSERVER_URL] st) = Some st1" for st1
    using webserver_data_parse_tidy [OF that [unfolded fetch_songs_def Let_def] _ safe] assms(2) by auto
  then show ?thesis using assms(1,2) by (auto simp: connect_server_def Let_def split: if_splits)
qed

lemma next_song_tidy:
  assumes "next_song i st = Some st'" "tidy images st"
  shows "tidy images st'"
proof -
  note safe = tidy_song [OF assms(2)]
  show ?thesis using assms
    by (auto simp: next_song_def Let_def bind_eq_Some_conv safe_blanks frame_simps split: if_splits dest: safe)
qed

lemma last_song_tidy:
  assumes "last_song i st = Some st'" "tidy images st"
  shows "tidy images st'"
proof -
  note safe = tidy_song [OF assms(2)]
  show ?thesis using assms
    by (auto simp: last_song_def Let_def bind_eq_Some_conv safe_blanks frame_simps split: if_splits dest: safe)
qed

lemma select_song_tidy:
  assumes "select_song i st = Some st'" "tidy images st"
  shows "tidy images st'"
proof -
  obtain st1 st2 where s:
    "(if current_event (the_menu i st) = IOTB_LCD_EVENT_NEXTSONG then next_song i st else Some st) = Some st1"
    "(if current_event (the_menu i st1) = IOTB_LCD_EVENT_LASTSONG then last_song i st1 else Some st1) = Some st2"
    "st' = (if current_event (the_menu i st2) = IOTB_LCD_EVENT_EXIT then emit [Wav_stop] st2 else st2)"
    using assms(1) unfolding select_song_def bind_eq_Some_conv by blast
  have "tidy images st1" using s(1) assms(2) next_song_tidy by (simp split: if_splits)
  then have "tidy images st2" using s(2) last_song_tidy by (simp split: if_splits)
  then show ?thesis using s(3) by simp
qed

lemma httpwebserver_tidy:
  assumes "iotb_lcd_show_httpwebserver env i st = Some st'" "tidy images st" "safe_env env"
  shows "tidy images st'"
proof -
  let ?st1 = "web_page i st"
  obtain p st3 where s:
    "(if connects i ?st1 then connect_server env ?st1 else Some (?st1, False)) = Some p"
    "(if snd p then Some (fst p) else select_song i (fst p)) = Some st3"
    "st' = (if connects i ?st1 \<and> env_url_ok env \<and> env_session_ok env then emit [Web_close] st3 else st3)"
    using assms(1) unfolding iotb_lcd_show_httpwebserver_def Let_def bind_eq_Some_conv case_prod_unfold by blast
  have "tidy images ?st1" using assms(2) by (simp add: web_page_def safe_literals)
  then have "tidy images (fst p)" using s(1) connect_server_tidy [of env ?st1 "fst p" "snd p" images] assms(3) by (cases "connects i ?st1") auto
  then have "tidy images st3" using s(2) select_song_tidy [of i "fst p" st3 images] by (cases "snd p") simp_all
  then show ?thesis using s(3) by simp
qed

subsubsection \<open>The player page\<close>

lemma volume_bar_showable: "\<forall>e\<in>set (volume_bar v). showable images e"
  by (auto simp: volume_bar_def safe_literals split: if_splits)

lemma album_image_showable: "full_images images \<Longrightarrow> \<forall>e\<in>set (album_image s). showable images e"
  by (simp add: album_image_def full_images_def albums_def safe_literals)

lemma enter_music_tidy:
  assumes "enter_music env i st = Some st'" "tidy images st" "full_images images"
  shows "tidy images st'"
proof -
  obtain s where s: "song st (songlist_num st) = Some s" using assms(1) by (auto simp: enter_music_def bind_eq_Some_conv)
  have "safe_text s" by (rule tidy_song [OF assms(2) s])
  then show ?thesis
    using assms(1,2) s album_image_showable [OF assms(3), of s]
    by (auto simp: enter_music_def Let_def safe_blanks safe_literals split: if_splits)
qed

lemma toggle_play_tidy: "\<lbrakk>toggle_play i st = Some st'; tidy images st\<rbrakk> \<Longrightarrow> tidy images st'"
  by (auto simp: toggle_play_def bind_eq_Some_conv split: if_splits)

lemma toggle_pause_tidy: "tidy images st \<Longrightarrow> tidy images (toggle_pause i st)"
  by (simp add: toggle_pause_def)

lemma volume_tidy: "tidy images st \<Longrightarrow> tidy images (volume_down i st)" "tidy images st \<Longrightarrow> tidy images (volume_up i st)"
  by (simp_all add: volume_down_def volume_up_def Let_def safe_literals)

lemma music_controls_tidy:
  assumes "tidy images st"
  shows "tidy images (music_controls i st)"
proof -
  obtain st1 where st1: "st1 = (if current_event (the_menu i st) = IOTB_LCD_EVENT_KEY1_DOUBLE_CLICK then toggle_pause i st else st)" by blast
  obtain st2 where st2: "st2 = (if current_event (the_menu i st1) = IOTB_LCD_EVENT_KEY1_CLICK then volume_down i st1 else st1)" by blast
  obtain st3 where st3: "st3 = (if current_event (the_menu i st2) = IOTB_LCD_EVENT_WKUP_CLICK then volume_up i st2 else st2)" by blast
  have "tidy images st1" unfolding st1 using assms toggle_pause_tidy by simp
  then have "tidy images st2" unfolding st2 using volume_tidy by simp
  then have "tidy images st3" unfolding st3 using volume_tidy by simp
  then show ?thesis
    unfolding music_controls_def Let_def st1 [symmetric] st2 [symmetric] st3 [symmetric] by simp
qed

lemma music_tidy:
  assumes "iotb_lcd_show_music env i st = Some st'" "tidy images st" "full_images images"
  shows "tidy images st'"
proof -
  let ?st0 = "music_page i st"
  obtain st1 st2 where s:
    "(if current_event (the_menu i ?st0) = IOTB_LCD_EVENT_ENTER then enter_music env i ?st0 else Some ?st0) = Some st1"
    "(if current_event (the_menu i st1) = IOTB_LCD_EVENT_WKUP_DOUBLE_CLICK then toggle_play i st1 else Some st1) = Some st2"
    "st' = music_controls i st2"
    using assms(1) unfolding iotb_lcd_show_music_def Let_def bind_eq_Some_conv by blast
  have "tidy images ?st0" using assms(2) by (simp add: music_page_def safe_literals volume_bar_showable)
  then have "tidy images st1" using s(1) enter_music_tidy [OF _ _ assms(3)] by (simp split: if_splits)
  then have "tidy images st2" using s(2) toggle_play_tidy by (simp split: if_splits)
  then show ?thesis using s(3) music_controls_tidy by simp
qed

subsubsection \<open>The file system page\<close>

lemma show_dir_showable:
  "\<lbrakk>\<forall>(s, ty)\<in>set ds. safe_text s; line \<le> 5\<rbrakk> \<Longrightarrow> \<forall>e\<in>set (show_dir line ds). showable images e"
proof (induction line ds rule: show_dir.induct)
  case (2 line name ty ds)
  have "row_y (int line) - 4 < 240" "row_y (int (line + 1)) - 4 < 240" using 2(3) by (intro row_line, simp)+
  moreover have "safe_text (name_field name)" using 2(2) by (simp add: name_field_def safe_take safe_append safe_blanks)
  moreover have "\<not> line + 1 > 5 \<Longrightarrow> \<forall>e\<in>set (show_dir (line + 1) ds). showable images e" using 2 by simp
  ultimately show ?case by (auto simp: safe_literals split: if_splits)
qed simp

lemma sdcard_tidy:
  assumes "iotb_lcd_show_sdcard env i st = Some st'" "tidy images st" "safe_env env"
  shows "tidy images st'"
proof -
  obtain st1 where s: "(if content_type (the_menu i st) = IOTB_LCD_STATIC_CONTENT
      then free_songs (emit [Lcd_clear WHITE, Lcd_set_color WHITE BLACK, Lcd_show_string 32 8 32 ''File System''] st) else Some st) = Some st1"
    "st' = (case env_dir env of
             None \<Rightarrow> emit [Lcd_show_string 24 (52 + 27 * 2) 24 '' Insert SD card'',
                           Lcd_show_string 24 (52 + 27 * 3) 24 '' before power-on''] st1
           | Some ds \<Rightarrow> emit (show_dir 0 ds) st1)"
    using assms(1) unfolding iotb_lcd_show_sdcard_def bind_eq_Some_conv by blast
  have free: "\<lbrakk>free_songs a = Some b; tidy images a\<rbrakk> \<Longrightarrow> tidy images b" for a b
    by (auto simp: free_songs_def tidy_def split: option.splits if_splits)
  have "tidy images st1" using s(1) free assms(2) by (simp add: safe_literals split: if_splits)
  then show ?thesis
    using s(2) assms(3) show_dir_showable [of "the (env_dir env)" 0 images] by (cases "env_dir env") (simp_all add: safe_literals safe_env_def)
qed

lemma lcd_handle_tidy:
  "\<lbrakk>lcd_handle env i st = Some st'; tidy images st; safe_env env; full_images images\<rbrakk> \<Longrightarrow> tidy images st'"
  by (auto simp: lcd_handle_def httpwebserver_tidy music_tidy sdcard_tidy split: if_splits)

subsubsection \<open>Pages and rounds\<close>

lemma leave_menu_tidy: "\<lbrakk>leave_menu env st = Some st'; tidy images st; safe_env env; full_images images\<rbrakk> \<Longrightarrow> tidy images st'"
  unfolding leave_menu_def Let_def by (erule lcd_handle_tidy) simp_all

lemma enter_menu_tidy:
  assumes "enter_menu env k st = Some st'" "tidy images st" "safe_env env" "full_images images"
  shows "tidy images st'"
proof -
  obtain st1 where st1: "lcd_handle env (unat k) (set_event (unat k) IOTB_LCD_EVENT_ENTER (set_content (unat k) IOTB_LCD_STATIC_CONTENT
      (iotb_lcd_update_menu_index k (st\<lparr>show_menu_index := k\<rparr>)))) = Some st1"
    "st' = st1\<lparr>show_cnt := refresh_time (the_menu (unat k) st1)\<rparr>"
    using assms(1) unfolding enter_menu_def Let_def bind_eq_Some_conv by blast
  have "tidy images st1"
    by (rule lcd_handle_tidy [OF st1(1) _ assms(3,4)]) (simp add: assms(2) iotb_lcd_update_menu_index_def)
  then show ?thesis unfolding st1(2) by simp
qed

lemma switch_page_tidy:
  assumes "do { st1 \<leftarrow> leave_menu env st; enter_menu env (f (show_menu_index st1)) st1 } = Some st'"
    and "tidy images st" "safe_env env" "full_images images"
  shows "tidy images st'"
proof -
  obtain st1 where "leave_menu env st = Some st1" "enter_menu env (f (show_menu_index st1)) st1 = Some st'"
    using assms(1) unfolding bind_eq_Some_conv by blast
  then show ?thesis using leave_menu_tidy enter_menu_tidy assms(2-4) by blast
qed

lemma on_click_tidy:
  assumes "on_click env ev st = Some st'" "tidy images st" "safe_env env" "full_images images"
  shows "tidy images st'"
proof (cases "unat (show_menu_index st) = 2 \<and> has ev IOTB_LCD_EVENT_KEY2_CLICK")
  case True
  then have "do { st1 \<leftarrow> leave_menu env (set_content 2 IOTB_LCD_DYNAMIC_CONTENT st); enter_menu env (show_menu_index st1 - 1) st1 } = Some st'"
    using assms(1) by (simp add: on_click_def Let_def)
  from switch_page_tidy [OF this _ assms(3,4)] show ?thesis using assms(2) by simp
next
  case False
  then show ?thesis using assms(1,2) by (auto simp: on_click_def Let_def split: if_splits)
qed

lemma on_event_tidy:
  assumes "on_event env ev st = Some st'" "tidy images st" "safe_env env" "full_images images"
  shows "tidy images st'"
proof -
  note switch = switch_page_tidy [OF _ assms(2-4)]
  consider (page) "has ev IOTB_LCD_EVENT_NEXT"
    | (music) "\<not> has ev IOTB_LCD_EVENT_NEXT" "has ev IOTB_LCD_EVENT_MUSIC_PLAY"
    | (exit) "\<not> has ev IOTB_LCD_EVENT_NEXT" "\<not> has ev IOTB_LCD_EVENT_MUSIC_PLAY" "has ev IOTB_LCD_EVENT_EXIT"
    | (rest) "\<not> has ev IOTB_LCD_EVENT_NEXT" "\<not> has ev IOTB_LCD_EVENT_MUSIC_PLAY" "\<not> has ev IOTB_LCD_EVENT_EXIT"
    by blast
  then show ?thesis
  proof cases
    case page
    then show ?thesis using assms(1) switch [where f = next_page] by (simp add: on_event_def)
  next
    case music
    then show ?thesis
      using assms(1,2) switch [where f = "\<lambda>k. k + 1"] by (simp add: on_event_def split: if_splits)
  next
    case exit
    then obtain st1 where st1: "lcd_handle env (unat (show_menu_index st))
        (set_event (unat (show_menu_index st)) IOTB_LCD_EVENT_EXIT
          (set_content (unat (show_menu_index st)) IOTB_LCD_CONTENT_NONE st)) = Some st1"
      "st' = (set_event (unat (show_menu_index st)) IOTB_LCD_EVENT_NONE st1)\<lparr>show_cnt := 0\<rparr>"
      using assms(1) by (auto simp: on_event_def Let_def bind_eq_Some_conv)
    show ?thesis using lcd_handle_tidy [OF st1(1) _ assms(3,4)] assms(2) unfolding st1(2) by simp
  next
    case rest
    then show ?thesis
      using assms(1,2) on_click_tidy [OF _ assms(2-4), of ev st'] by (auto simp: on_event_def on_double_click_def Let_def split: if_splits)
  qed
qed

lemma refresh_tidy: "\<lbrakk>refresh env st = Some st'; tidy images st; safe_env env; full_images images\<rbrakk> \<Longrightarrow> tidy images st'"
  using lcd_handle_tidy [of env "unat (show_menu_index st)" "st\<lparr>show_cnt := 0\<rparr>" st' images]
  by (auto simp: refresh_def Let_def split: if_splits)

lemma show_round_tidy:
  assumes "iotb_lcd_show_round env lcd st = Some (lcd', st')" "tidy images st" "safe_env env" "full_images images"
  shows "tidy images st'"
proof (cases "iotb_lcd_event_get lcd (NOT (lcd_value IOTB_LCD_EVENT_NONE)) 1 0")
  case (Ev_return r got l)
  let ?m = "case got of Some ev \<Rightarrow> if r = 0 then on_event env ev st else Some st | None \<Rightarrow> Some st"
  have "\<exists>st1 st2. ?m = Some st1 \<and> refresh env st1 = Some st2 \<and> st' = count_round st2"
    using assms(1) unfolding iotb_lcd_show_round_def Ev_return event_result.case bind_eq_Some_conv
    by (metis option.inject prod.inject)
  then obtain st1 st2 where s: "?m = Some st1" "refresh env st1 = Some st2" "st' = count_round st2" by blast
  have "tidy images st1" using s(1) assms(2) on_event_tidy [OF _ assms(2-4)] by (simp split: option.splits if_splits)
  then have "tidy images st2" using s(2) refresh_tidy assms(3,4) by blast
  then show ?thesis unfolding s(3) count_round_def by simp
qed (use assms(1) in \<open>simp_all add: iotb_lcd_show_round_def\<close>)

lemma lcd_thread_tidy:
  "\<lbrakk>lcd_thread rs lcd st = Some (lcd', st'); tidy images st; \<forall>(env, es)\<in>set rs. safe_env env; full_images images\<rbrakk> \<Longrightarrow> tidy images st'"
proof (induction rs arbitrary: lcd st)
  case (Cons r rs)
  obtain env es where r: "r = (env, es)" by (cases r)
  obtain l1 st1 where s: "iotb_lcd_show_round env (foldl (\<lambda>l e. iotb_lcd_event_put e l) lcd es) st = Some (l1, st1)"
    "lcd_thread rs l1 st1 = Some (lcd', st')"
    using Cons.prems(1) by (auto simp: r split: option.splits)
  have "tidy images st1" by (rule show_round_tidy [OF s(1) Cons.prems(2)]) (use Cons.prems(3,4) in \<open>simp_all add: r\<close>)
  then show ?case using Cons.IH [OF s(2)] Cons.prems(3,4) by simp
qed simp

lemma show_start_tidy:
  assumes "iotb_lcd_show_start env lcd_boot = Some st" "safe_env env" "full_images images"
  shows "tidy images st"
proof -
  have "tidy images lcd_boot" by (simp add: tidy_def lcd_boot_def iotb_lcd_menu_init_def)
  then show ?thesis using lcd_handle_tidy [OF _ _ assms(2,3)] assms(1) by (simp add: iotb_lcd_show_start_def)
qed

subsection \<open>The thread on the display\<close>

lemma lcd_thread_shown:
  assumes "full_fonts fonts" "full_images images" "safe_env env0" "\<forall>(env, es)\<in>set rs. safe_env env"
    and "iotb_lcd_show_start env0 lcd_boot = Some st0" "lcd_thread rs lcd st0 = Some (lcd', st)"
  shows "\<exists>s' bs. draw_all fonts images (lcd_log st) s = Some s'
    \<and> received dc (lcd_bus s') = received dc (lcd_bus s) @ bs \<and> shown bs"
proof -
  have "tidy images st" by (rule lcd_thread_tidy [OF assms(6) show_start_tidy [OF assms(5,3,2)] assms(4,2)])
  then have "shows_on s (draw_all fonts images (lcd_log st) s)" unfolding tidy_def by (blast intro: draw_all_shows [OF assms(1)])
  then show ?thesis unfolding shows_on_def using received_append by metis
qed



text \<open>A request that the driver cannot do spoils the whole run.\<close>

lemma draw_all_fails: "\<lbrakk>e \<in> set es; \<And>s. draw fonts images e s = None\<rbrakk> \<Longrightarrow> draw_all fonts images es s = None"
proof (induction es arbitrary: s)
  case (Cons e' es)
  then show ?case by (cases "draw fonts images e' s") auto
qed simp

lemma show_names_shows: "name \<in> set names \<Longrightarrow> \<exists>y. Lcd_show_string 8 y 24 name \<in> set (show_names cnt names)"
  by (induction names arbitrary: cnt) auto

text \<open>C29. The names that the web server sends are used as formats: if one of the six shown names has a conversion such as \<open>%s\<close> in it, drawing
  the page reads an argument that was never passed, whatever the display's state is.\<close>

theorem song_name_is_format:
  assumes "webserver_data_parse mem (Song_array names) st = Some st'" "a @ CHR ''%'' # c # rest \<in> set (take 6 names)"
    and "CHR ''%'' \<notin> set a" "c \<in> set ''csdxp''"
  shows "draw_all fonts images (lcd_log st') s = None"
proof -
  obtain n where n: "n = (if int (length names) > 6 then 6 else int (length names))" by blast
  have tk: "take (nat n) names = take 6 names" unfolding n by auto
  have "names \<noteq> []" using assms(2) by auto
  then have pos: "n > 0" unfolding n by simp
  obtain y where y: "Lcd_show_string 8 y 24 (a @ CHR ''%'' # c # rest) \<in> set (show_names 0 (take 6 names))"
    using show_names_shows [OF assms(2)] by blast
  have "set (show_names 0 (take 6 names)) \<subseteq> set (lcd_log st')"
    using assms(1) unfolding webserver_data_parse_def web_reply.case Let_def n [symmetric] if_P [OF pos] tk bind_eq_Some_conv
    by (auto simp: emit_def)
  with y have "Lcd_show_string 8 y 24 (a @ CHR ''%'' # c # rest) \<in> set (lcd_log st')" by blast
  moreover have "draw fonts images (Lcd_show_string 8 y 24 (a @ CHR ''%'' # c # rest)) s = None" for s
    using lcd_show_string_format [OF _ assms(3,4), of 24 fonts 8 y rest s] by (simp add: draw_def)
  ultimately show ?thesis by (rule draw_all_fails)
qed

theorem song_name_is_format_witness:
  "\<exists>st'. webserver_data_parse 3 (Song_array [''a.wav'', ''100%sure.wav'']) lcd_boot = Some st'
    \<and> draw_all \<lparr>asc2_1608 = [], asc2_2412 = replicate 4512 0, asc2_3216 = []\<rparr> (\<lambda>_. []) (lcd_log st')
        \<lparr>BACK_COLOR = 0xFFFF, FORE_COLOR = 0, lcd_bus = [], mallocs = [], lcd_junk = (\<lambda>_. 0)\<rparr> = None"
proof -
  obtain st' where st': "webserver_data_parse 3 (Song_array [''a.wav'', ''100%sure.wav'']) lcd_boot = Some st'"
    using webserver_data_parse_loads [of "[''a.wav'', ''100%sure.wav'']" 3 lcd_boot] by (auto simp: lcd_boot_def iotb_lcd_menu_init_def)
  have "''100'' @ CHR ''%'' # CHR ''s'' # ''ure.wav'' \<in> set (take 6 [''a.wav'', ''100%sure.wav''])" by simp
  from song_name_is_format [OF st' this] st' show ?thesis by simp
qed

end
