(* ===== verification/DataQueue.thy ===== *)
theory DataQueue
  imports Prelude
begin

text \<open>
  The data queue \<open>rt-thread/components/drivers/src/dataqueue.c\<close>: a ring of pointers with sizes, indexed by two 16-bit counters
  that run freely. A thread that has to wait is queued; what it does when it is woken is the operation again, or its error.
\<close>

subsection \<open>State and operations\<close>

datatype dq_event = DATAQUEUE_EVENT_POP | DATAQUEUE_EVENT_PUSH | DATAQUEUE_EVENT_LWM

record 'p data_queue =
  dq_size :: u16
  dq_lwm :: u16
  dq_get :: u16
  dq_put :: u16
  dq_items :: "('p \<times> nat) list"
  dq_notify :: bool
  dq_push_list :: "nat list"
  dq_pop_list :: "nat list"

text \<open>A return has an error code, an item, the thread that is resumed and the event that is notified.\<close>

datatype 'p dq_result =
    Dq_return rt_err "('p \<times> nat) option" "nat option" "dq_event option" "'p data_queue"
  | Dq_wait "'p data_queue"

text \<open>\<open>room\<close> is what \<open>rt_malloc\<close> returns for the items, if anything.\<close>

definition rt_data_queue_init :: "u16 \<Rightarrow> u16 \<Rightarrow> bool \<Rightarrow> ('p \<times> nat) list option \<Rightarrow> rt_err \<times> 'p data_queue" where
  "rt_data_queue_init sz lwm notify room =
     (if room = None then RT_ENOMEM else RT_EOK,
      \<lparr>dq_size = sz, dq_lwm = lwm, dq_get = 0, dq_put = 0, dq_items = (case room of None \<Rightarrow> [] | Some r \<Rightarrow> r),
       dq_notify = notify, dq_push_list = [], dq_pop_list = []\<rparr>)"

text \<open>The difference of the counters is one of integers.\<close>

definition dq_full :: "'p data_queue \<Rightarrow> bool" where
  "dq_full q \<longleftrightarrow> uint (dq_put q) - uint (dq_get q) = uint (dq_size q)"

definition notified :: "dq_event \<Rightarrow> 'p data_queue \<Rightarrow> dq_event option" where
  "notified e q = (if dq_notify q then Some e else None)"

definition rt_data_queue_push :: "nat \<Rightarrow> 'p \<Rightarrow> nat \<Rightarrow> int \<Rightarrow> 'p data_queue \<Rightarrow> 'p dq_result" where
  "rt_data_queue_push self data_ptr data_size timeout q =
     (if dq_full q then
        if timeout = 0 then Dq_return RT_ETIMEOUT None None None q
        else Dq_wait (q\<lparr>dq_push_list := dq_push_list q @ [self]\<rparr>)
      else
        let q = q\<lparr>dq_items := (dq_items q)[unat (dq_put q) mod unat (dq_size q) := (data_ptr, data_size)], dq_put := dq_put q + 1\<rparr>
        in (case dq_pop_list q of
              t # ts \<Rightarrow> Dq_return RT_EOK None (Some t) None (q\<lparr>dq_pop_list := ts\<rparr>)
            | [] \<Rightarrow> Dq_return RT_EOK None None (notified DATAQUEUE_EVENT_PUSH q) q))"

definition rt_data_queue_push_resumed :: "rt_err \<Rightarrow> nat \<Rightarrow> 'p \<Rightarrow> nat \<Rightarrow> int \<Rightarrow> 'p data_queue \<Rightarrow> 'p dq_result" where
  "rt_data_queue_push_resumed error self data_ptr data_size timeout q =
     (if error \<noteq> RT_EOK then Dq_return error None None None q else rt_data_queue_push self data_ptr data_size timeout q)"

definition dq_front :: "'p data_queue \<Rightarrow> 'p \<times> nat" where
  "dq_front q = dq_items q ! (unat (dq_get q) mod unat (dq_size q))"

definition rt_data_queue_pop :: "nat \<Rightarrow> int \<Rightarrow> 'p data_queue \<Rightarrow> 'p dq_result" where
  "rt_data_queue_pop self timeout q =
     (if dq_get q = dq_put q then
        if timeout = 0 then Dq_return RT_ETIMEOUT None None None q
        else Dq_wait (q\<lparr>dq_pop_list := dq_pop_list q @ [self]\<rparr>)
      else
        let item = dq_front q;
            q = q\<lparr>dq_get := dq_get q + 1\<rparr>
        in if uint (dq_put q) - uint (dq_get q) \<le> uint (dq_lwm q) then
             (case dq_push_list q of
                t # ts \<Rightarrow> Dq_return RT_EOK (Some item) (Some t) (notified DATAQUEUE_EVENT_LWM q) (q\<lparr>dq_push_list := ts\<rparr>)
              | [] \<Rightarrow> Dq_return RT_EOK (Some item) None (notified DATAQUEUE_EVENT_LWM q) q)
           else Dq_return RT_EOK (Some item) None (notified DATAQUEUE_EVENT_POP q) q)"

definition rt_data_queue_pop_resumed :: "rt_err \<Rightarrow> nat \<Rightarrow> int \<Rightarrow> 'p data_queue \<Rightarrow> 'p dq_result" where
  "rt_data_queue_pop_resumed error self timeout q =
     (if error \<noteq> RT_EOK then Dq_return error None None None q else rt_data_queue_pop self timeout q)"

definition rt_data_queue_peak :: "'p data_queue \<Rightarrow> rt_err \<times> ('p \<times> nat) option" where
  "rt_data_queue_peak q = (if dq_get q = dq_put q then (RT_EEMPTY, None) else (RT_EOK, Some (dq_front q)))"

text \<open>All waiting threads are resumed with \<open>-RT_ERROR\<close>; the items stay.\<close>

definition rt_data_queue_reset :: "'p data_queue \<Rightarrow> nat list \<times> 'p data_queue" where
  "rt_data_queue_reset q = (dq_pop_list q @ dq_push_list q, q\<lparr>dq_pop_list := [], dq_push_list := []\<rparr>)"

subsection \<open>The queue as a list\<close>

definition dq_count :: "'p data_queue \<Rightarrow> nat" where
  "dq_count q = unat (dq_put q - dq_get q)"

definition dq_contents :: "'p data_queue \<Rightarrow> ('p \<times> nat) list" where
  "dq_contents q = map (\<lambda>i. dq_items q ! ((unat (dq_get q) + i) mod unat (dq_size q))) [0..<dq_count q]"

definition dq_inv :: "'p data_queue \<Rightarrow> bool" where
  "dq_inv q \<longleftrightarrow> 0 < dq_size q \<and> unat (dq_size q) dvd 2 ^ 16 \<and> length (dq_items q) = unat (dq_size q) \<and> dq_count q \<le> unat (dq_size q)"

lemma dq_count_contents: "length (dq_contents q) = dq_count q"
  by (simp add: dq_contents_def)

text \<open>The counters may wrap: only a full queue is taken for another one then.\<close>

lemma dq_not_full: "dq_count q < unat (dq_size q) \<Longrightarrow> \<not> dq_full q"
proof
  assume c: "dq_count q < unat (dq_size q)" and "dq_full q"
  then have "uint (dq_put q) - uint (dq_get q) = uint (dq_size q)" by (simp add: dq_full_def)
  then have "dq_put q - dq_get q = dq_size q" by (metis word_of_int_uint wi_hom_sub)
  then show False using c by (simp add: dq_count_def)
qed

lemma dq_empty: "dq_get q = dq_put q \<longleftrightarrow> dq_count q = 0"
  by (auto simp: dq_count_def unat_eq_zero)

lemma dq_put_get: "unat (dq_put q) mod unat (dq_size q) = (unat (dq_get q) + dq_count q) mod unat (dq_size q)"
  if "unat (dq_size q) dvd 2 ^ 16"
proof -
  have "unat (dq_put q) = (unat (dq_get q) + dq_count q) mod 2 ^ 16"
    using unat_word_ariths(1) [of "dq_get q" "dq_put q - dq_get q"] by (simp add: dq_count_def)
  then show ?thesis using that by (simp add: mod_mod_cancel)
qed

lemma dq_index_inject:
  assumes "i < m" "j < m" "(g + i) mod m = (g + j) mod m"
  shows "i = (j :: nat)"
proof -
  have le: "a = b" if "a \<le> b" "b < m" "(g + a) mod m = (g + b) mod m" for a b
  proof -
    have "g + a \<le> g + b" using that(1) by simp
    then have "m dvd (g + b) - (g + a)" using that(3) [symmetric] by (rule mod_eq_dvd_iff_nat [THEN iffD1])
    then have "m dvd b - a" by simp
    then show ?thesis using that(1,2) by (metis diff_is_0_eq dvd_imp_le le_antisym less_imp_diff_less not_le zero_less_diff)
  qed
  show ?thesis using le [of i j] le [of j i] assms by (cases i j rule: linorder_le_cases) metis+
qed

text \<open>A push into a queue with room appends, whatever the counters are, and never waits.\<close>

lemma rt_data_queue_push_spec:
  assumes "dq_inv q" "dq_count q < unat (dq_size q)"
  shows "\<exists>woken ev q'. rt_data_queue_push self p n timeout q = Dq_return RT_EOK None woken ev q' \<and> dq_inv q'
    \<and> dq_contents q' = dq_contents q @ [(p, n)] \<and> dq_size q' = dq_size q \<and> dq_push_list q' = dq_push_list q"
proof -
  let ?m = "unat (dq_size q)" and ?g = "unat (dq_get q)" and ?c = "dq_count q"
  define q1 where "q1 = q\<lparr>dq_items := (dq_items q)[unat (dq_put q) mod ?m := (p, n)], dq_put := dq_put q + 1\<rparr>"
  have d: "?m dvd 2 ^ 16" "length (dq_items q) = ?m" using assms(1) by (simp_all add: dq_inv_def)
  have m: "0 < ?m" using assms(2) by simp
  have c1: "dq_count q1 = ?c + 1"
  proof -
    have "?m \<le> 2 ^ 16" using d(1) by (rule dvd_imp_le) simp
    then have "?c + 1 < 2 ^ 16 \<or> ?c + 1 = 2 ^ 16" using assms(2) by linarith
    moreover have "?m < 2 ^ LENGTH(16)" by (rule unsigned_less)
    then have "?m < 2 ^ 16" by simp
    then have "?c + 1 \<noteq> 2 ^ 16" using assms(2) by linarith
    ultimately have "unat (dq_put q - dq_get q + 1) = ?c + 1" by (simp add: dq_count_def unat_word_ariths)
    then show ?thesis by (simp add: q1_def dq_count_def algebra_simps)
  qed
  have same: "dq_items q1 ! ((?g + i) mod ?m) = dq_items q ! ((?g + i) mod ?m)" if "i < ?c" for i
  proof -
    have "(?g + i) mod ?m \<noteq> (?g + ?c) mod ?m" using dq_index_inject [of i ?m ?c ?g] that assms(2) by auto
    then show ?thesis by (simp add: q1_def dq_put_get [OF d(1)])
  qed
  have "dq_items q1 ! ((?g + ?c) mod ?m) = (p, n)" using m d(2) by (simp add: q1_def dq_put_get [OF d(1)])
  then have contents: "dq_contents q1 = dq_contents q @ [(p, n)]"
    unfolding dq_contents_def c1 using same by (simp add: q1_def)
  have inv: "dq_inv q1" using assms c1 by (simp add: dq_inv_def) (simp add: q1_def)
  have fields: "dq_size q1 = dq_size q" "dq_push_list q1 = dq_push_list q" by (simp_all add: q1_def)
  have upd: "dq_contents (q1\<lparr>dq_pop_list := ts\<rparr>) = dq_contents q1" "dq_inv (q1\<lparr>dq_pop_list := ts\<rparr>) = dq_inv q1" for ts
    by (simp_all add: dq_contents_def dq_inv_def dq_count_def)
  have run: "rt_data_queue_push self p n timeout q
      = (case dq_pop_list q1 of t # ts \<Rightarrow> Dq_return RT_EOK None (Some t) None (q1\<lparr>dq_pop_list := ts\<rparr>)
         | [] \<Rightarrow> Dq_return RT_EOK None None (notified DATAQUEUE_EVENT_PUSH q1) q1)"
    unfolding rt_data_queue_push_def if_not_P [OF dq_not_full [OF assms(2)]] Let_def q1_def [symmetric] by (cases "dq_pop_list q1") simp_all
  show ?thesis
    unfolding run by (cases "dq_pop_list q1") (simp_all add: upd contents inv fields)
qed

lemma dq_contents_Cons: "dq_inv q \<Longrightarrow> 0 < dq_count q \<Longrightarrow>
    dq_contents q = dq_front q # map (\<lambda>i. dq_items q ! ((unat (dq_get q) + Suc i) mod unat (dq_size q))) [0..<dq_count q - 1]"
  by (cases "dq_count q") (simp_all add: dq_contents_def dq_front_def map_upt_Suc del: upt_Suc)

text \<open>A pop takes the oldest item.\<close>

lemma rt_data_queue_pop_spec:
  assumes "dq_inv q" "dq_contents q = x # xs"
  shows "\<exists>woken ev q'. rt_data_queue_pop self timeout q = Dq_return RT_EOK (Some x) woken ev q' \<and> dq_inv q'
    \<and> dq_contents q' = xs \<and> dq_size q' = dq_size q \<and> (dq_push_list q = [] \<longrightarrow> woken = None \<and> dq_push_list q' = [])"
proof -
  let ?m = "unat (dq_size q)" and ?g = "unat (dq_get q)"
  define q1 where "q1 = q\<lparr>dq_get := dq_get q + 1\<rparr>"
  have c: "dq_count q = length xs + 1" using assms(2) dq_count_contents [of q] by simp
  have d: "?m dvd 2 ^ 16" using assms(1) by (simp add: dq_inv_def)
  have x: "dq_front q = x" "xs = map (\<lambda>i. dq_items q ! ((?g + Suc i) mod ?m)) [0..<dq_count q - 1]"
    using dq_contents_Cons [OF assms(1)] assms(2) c by simp_all
  have c1: "dq_count q1 = length xs"
  proof -
    have "dq_put q - dq_get q \<noteq> 0" using c by (auto simp: dq_count_def)
    then have "unat (dq_put q - dq_get q - 1) = length xs" using c unat_minus_one [of "dq_put q - dq_get q"] by (simp add: dq_count_def)
    then show ?thesis by (simp add: q1_def dq_count_def algebra_simps)
  qed
  have "(unat (dq_get q + 1) + i) mod ?m = (?g + Suc i) mod ?m" for i
  proof -
    have "unat (dq_get q + 1) mod ?m = (?g + 1) mod ?m"
      using unat_word_ariths(1) [of "dq_get q" 1] d by (simp add: mod_mod_cancel)
    then have "(unat (dq_get q + 1) mod ?m + i) mod ?m = ((?g + 1) mod ?m + i) mod ?m" by simp
    then show ?thesis by (simp add: mod_add_left_eq)
  qed
  then have contents: "dq_contents q1 = xs"
    unfolding dq_contents_def c1 x(2) using c by (simp add: q1_def)
  have inv: "dq_inv q1" using assms(1) c c1 by (simp add: dq_inv_def) (simp add: q1_def)
  have upd: "dq_contents (q1\<lparr>dq_push_list := ts\<rparr>) = dq_contents q1" "dq_inv (q1\<lparr>dq_push_list := ts\<rparr>) = dq_inv q1" for ts
    by (simp_all add: dq_contents_def dq_inv_def dq_count_def)
  have size: "dq_size q1 = dq_size q" "dq_push_list q1 = dq_push_list q" by (simp_all add: q1_def)
  have ne: "dq_get q \<noteq> dq_put q" using dq_empty [of q] c by simp
  show ?thesis
    unfolding rt_data_queue_pop_def if_not_P [OF ne] Let_def q1_def [symmetric] x(1)
    using contents inv size upd by (cases "dq_push_list q") auto
qed

lemma rt_data_queue_peak_spec:
  "dq_inv q \<Longrightarrow> rt_data_queue_peak q = (case dq_contents q of [] \<Rightarrow> (RT_EEMPTY, None) | x # xs \<Rightarrow> (RT_EOK, Some x))"
  using dq_count_contents [of q] dq_contents_Cons [of q]
  by (cases "dq_contents q") (auto simp: rt_data_queue_peak_def dq_empty)

lemma rt_data_queue_init_spec:
  assumes "0 < sz" "unat sz dvd 2 ^ 16" "length room = unat sz"
  shows "\<exists>q. rt_data_queue_init sz lwm notify (Some room) = (RT_EOK, q) \<and> dq_inv q \<and> dq_contents q = [] \<and> dq_size q = sz"
  using assms by (simp add: rt_data_queue_init_def dq_inv_def dq_contents_def dq_count_def)

text \<open>When the counters have wrapped, a full queue is not recognised and the oldest item is overwritten.\<close>

lemma dq_full_after_wrap:
  defines "q \<equiv> \<lparr>dq_size = 2, dq_lwm = 0, dq_get = 65535, dq_put = 1, dq_items = [(''b'', 1), (''a'', 1)], dq_notify = False,
    dq_push_list = [], dq_pop_list = []\<rparr>"
  shows "dq_inv q" "dq_contents q = [(''a'', 1), (''b'', 1)]" "dq_count q = 2"
    "\<exists>q'. rt_data_queue_push 0 ''c'' 1 0 q = Dq_return RT_EOK None None None q' \<and> dq_front q' = (''c'', 1)"
proof -
  have n: "[0..<2] = [0, 1 :: nat]" by code_simp
  show "dq_inv q" "dq_contents q = [(''a'', 1), (''b'', 1)]" "dq_count q = 2"
    by (simp_all add: q_def dq_inv_def dq_contents_def dq_count_def n)
  show "\<exists>q'. rt_data_queue_push 0 ''c'' 1 0 q = Dq_return RT_EOK None None None q' \<and> dq_front q' = (''c'', 1)"
    by (simp add: q_def rt_data_queue_push_def dq_full_def notified_def dq_front_def)
qed

end
