(* ===== verification/MemPool.thy ===== *)
theory MemPool
  imports RtMq
begin

text \<open>
  The memory pool \<open>rt-thread/src/mempool.c\<close>: blocks of one size, each behind a word that links the free blocks and, in a block
  that was handed out, points to the pool. Addresses are natural numbers; sizes are computed in 32 bits. A result is missing when an
  assertion fails or a word that is no link is followed.
\<close>

subsection \<open>State and operations\<close>

datatype mp_word = Next "nat option" | Pool

record mempool =
  start_address :: nat
  mp_size :: u32
  block_size :: u32
  block_list :: "nat option"
  block_total_count :: nat
  block_free_count :: nat
  mp_words :: "nat \<Rightarrow> mp_word"
  suspend_thread :: "nat list"

text \<open>The address of a block, the loop that links the blocks, and the last link.\<close>

definition block_at :: "nat \<Rightarrow> u32 \<Rightarrow> nat \<Rightarrow> nat" where
  "block_at start bs offset = start + unat (of_nat offset * (bs + 4))"

primrec link_blocks :: "nat \<Rightarrow> u32 \<Rightarrow> nat \<Rightarrow> (nat \<Rightarrow> mp_word) \<Rightarrow> nat \<Rightarrow> mp_word" where
  "link_blocks start bs 0 w = w"
| "link_blocks start bs (Suc offset) w =
     (link_blocks start bs offset w)(block_at start bs offset := Next (Some (block_at start bs (offset + 1))))"

definition linked :: "nat \<Rightarrow> u32 \<Rightarrow> nat \<Rightarrow> (nat \<Rightarrow> mp_word) \<Rightarrow> (nat \<Rightarrow> mp_word) option" where
  "linked start bs n w =
     (if n = 0 then None else Some ((link_blocks start bs n w)(block_at start bs (n - 1) := Next None)))"

definition rt_mp_init :: "nat \<Rightarrow> u32 \<Rightarrow> u32 \<Rightarrow> (nat \<Rightarrow> mp_word) \<Rightarrow> mempool option" where
  "rt_mp_init start sz bs w =
     (if sz = 0 \<or> bs = 0 then None
      else
        let sz = RT_ALIGN_DOWN sz RT_ALIGN_SIZE;
            bs = RT_ALIGN bs RT_ALIGN_SIZE;
            total = unat (sz div (bs + 4))
        in map_option (\<lambda>w. \<lparr>start_address = start, mp_size = sz, block_size = bs, block_list = Some start, block_total_count = total,
                             block_free_count = total, mp_words = w, suspend_thread = []\<rparr>)
             (linked start bs total w))"

text \<open>\<open>room\<close> is the address that \<open>rt_malloc\<close> returns for a number of bytes. The outer option is the assertion, the inner one \<open>RT_NULL\<close>.\<close>

definition rt_mp_create :: "bool \<Rightarrow> (u32 \<Rightarrow> nat option) \<Rightarrow> nat \<Rightarrow> u32 \<Rightarrow> (nat \<Rightarrow> mp_word) \<Rightarrow> mempool option option" where
  "rt_mp_create object room block_count bs w =
     (if block_count = 0 \<or> bs = 0 then None
      else if \<not> object then Some None
      else
        let bs = RT_ALIGN bs RT_ALIGN_SIZE;
            sz = (bs + 4) * of_nat block_count
        in (case room sz of
              None \<Rightarrow> Some None
            | Some start \<Rightarrow>
                map_option (\<lambda>w. Some \<lparr>start_address = start, mp_size = sz, block_size = bs, block_list = Some start,
                    block_total_count = block_count, block_free_count = block_count, mp_words = w, suspend_thread = []\<rparr>)
                  (linked start bs block_count w)))"

datatype mp_result = Mp_return "nat option" mempool | Mp_wait mempool

text \<open>A thread that waits is put in front of the others.\<close>

definition rt_mp_alloc :: "nat \<Rightarrow> int \<Rightarrow> mempool \<Rightarrow> mp_result option" where
  "rt_mp_alloc self time mp =
     (if block_free_count mp = 0 then
        Some (if time = 0 then Mp_return None mp else Mp_wait (mp\<lparr>suspend_thread := self # suspend_thread mp\<rparr>))
      else
        (case block_list mp of
           None \<Rightarrow> None
         | Some b \<Rightarrow>
             (case mp_words mp b of
                Pool \<Rightarrow> None
              | Next nx \<Rightarrow>
                  Some (Mp_return (Some (b + 4))
                    (mp\<lparr>block_free_count := block_free_count mp - 1, block_list := nx, mp_words := (mp_words mp)(b := Pool)\<rparr>)))))"

text \<open>After \<open>rt_schedule\<close>: \<open>slept\<close> ticks are over.\<close>

definition rt_mp_alloc_resumed :: "rt_err \<Rightarrow> int \<Rightarrow> nat \<Rightarrow> int \<Rightarrow> mempool \<Rightarrow> mp_result option" where
  "rt_mp_alloc_resumed error slept self time mp =
     (if error \<noteq> RT_EOK then Some (Mp_return None mp)
      else rt_mp_alloc self (if time > 0 then max 0 (time - slept) else time) mp)"

definition rt_mp_free :: "nat option \<Rightarrow> mempool \<Rightarrow> (mempool \<times> nat option) option" where
  "rt_mp_free block mp =
     (case block of
        None \<Rightarrow> Some (mp, None)
      | Some a \<Rightarrow>
          if mp_words mp (a - 4) \<noteq> Pool then None
          else
            let mp = mp\<lparr>block_free_count := block_free_count mp + 1, mp_words := (mp_words mp)(a - 4 := Next (block_list mp)),
                        block_list := Some (a - 4)\<rparr>
            in (case suspend_thread mp of
                  [] \<Rightarrow> Some (mp, None)
                | t # ts \<Rightarrow> Some (mp\<lparr>suspend_thread := ts\<rparr>, Some t)))"

text \<open>Detaching resumes every waiting thread with \<open>-RT_ERROR\<close>; deleting also gives the memory back.\<close>

definition rt_mp_detach :: "mempool \<Rightarrow> nat list \<times> mempool" where
  "rt_mp_detach mp = (suspend_thread mp, mp\<lparr>suspend_thread := []\<rparr>)"

definition rt_mp_delete :: "mempool \<Rightarrow> nat list \<times> nat" where
  "rt_mp_delete mp = (suspend_thread mp, start_address mp)"

subsection \<open>The blocks of a pool\<close>

definition mp_link :: "mempool \<Rightarrow> nat \<Rightarrow> nat option" where
  "mp_link mp b = (case mp_words mp b of Next nx \<Rightarrow> nx | Pool \<Rightarrow> None)"

definition pool_blocks :: "mempool \<Rightarrow> nat set" where
  "pool_blocks mp = block_at (start_address mp) (block_size mp) ` {..<block_total_count mp}"

text \<open>\<open>used\<close> are the blocks that were handed out, by the address of their data.\<close>

definition mp_inv :: "nat list \<Rightarrow> mempool \<Rightarrow> bool" where
  "mp_inv used mp \<longleftrightarrow>
     (\<exists>free. chain (mp_link mp) (block_list mp) free \<and> distinct (free @ map (\<lambda>a. a - 4) used)
        \<and> set free \<union> (\<lambda>a. a - 4) ` set used = pool_blocks mp \<and> (\<forall>a\<in>set used. 4 \<le> a \<and> mp_words mp (a - 4) = Pool)
        \<and> (\<forall>b\<in>set free. mp_words mp b \<noteq> Pool) \<and> block_free_count mp = length free)"

lemma rt_mp_alloc_spec:
  assumes "mp_inv used mp" "0 < block_free_count mp"
  shows "\<exists>a mp'. rt_mp_alloc self time mp = Some (Mp_return (Some a) mp') \<and> mp_inv (a # used) mp' \<and> a \<notin> set used
    \<and> block_free_count mp' = block_free_count mp - 1 \<and> pool_blocks mp' = pool_blocks mp \<and> suspend_thread mp' = suspend_thread mp
    \<and> a - 4 \<in> pool_blocks mp \<and> 4 \<le> a \<and> block_total_count mp' = block_total_count mp"
proof -
  from assms(1) obtain free where f: "chain (mp_link mp) (block_list mp) free" "distinct (free @ map (\<lambda>a. a - 4) used)"
    "set free \<union> (\<lambda>a. a - 4) ` set used = pool_blocks mp" "\<forall>a\<in>set used. 4 \<le> a \<and> mp_words mp (a - 4) = Pool"
    "\<forall>b\<in>set free. mp_words mp b \<noteq> Pool" "block_free_count mp = length free" unfolding mp_inv_def by (elim exE conjE) blast
  from assms(2) f(6) obtain b bs where free: "free = b # bs" by (cases free) auto
  then have b: "block_list mp = Some b" "chain (mp_link mp) (mp_link mp b) bs" using f(1) by simp_all
  have "mp_words mp b \<noteq> Pool" using f(5) free by simp
  then obtain nx where nx: "mp_words mp b = Next nx" by (cases "mp_words mp b") auto
  define mp' where "mp' = mp\<lparr>block_free_count := block_free_count mp - 1, block_list := nx, mp_words := (mp_words mp)(b := Pool)\<rparr>"
  have run: "rt_mp_alloc self time mp = Some (Mp_return (Some (b + 4)) mp')"
    using assms(2) b(1) nx by (simp add: rt_mp_alloc_def mp'_def)
  have link: "mp_link mp' = (mp_link mp)(b := None)" by (rule ext) (simp add: mp_link_def mp'_def)
  have nin: "b \<notin> set bs" "b \<notin> (\<lambda>a. a - 4) ` set used" using f(2) free by auto
  have "chain (mp_link mp') (block_list mp') bs"
    unfolding link chain_other [OF nin(1)] using b(2) nx by (simp add: mp'_def mp_link_def)
  moreover have "distinct (bs @ map (\<lambda>a. a - 4) ((b + 4) # used))" using f(2) free by auto
  moreover have "set bs \<union> (\<lambda>a. a - 4) ` set ((b + 4) # used) = pool_blocks mp'"
    using f(3) free by (auto simp: mp'_def pool_blocks_def)
  moreover have "\<forall>a\<in>set ((b + 4) # used). 4 \<le> a \<and> mp_words mp' (a - 4) = Pool" using f(4) by (simp add: mp'_def)
  moreover have "\<forall>c\<in>set bs. mp_words mp' c \<noteq> Pool" using f(5) free nin(1) by (auto simp: mp'_def)
  moreover have "block_free_count mp' = length bs" using f(6) free by (simp add: mp'_def)
  ultimately have "mp_inv ((b + 4) # used) mp'" unfolding mp_inv_def by blast
  moreover have "b + 4 \<notin> set used" using nin(2) by (metis add_diff_cancel_right' image_eqI)
  moreover have "b \<in> pool_blocks mp" using f(3) free by auto
  ultimately show ?thesis using run by (auto simp: mp'_def pool_blocks_def)
qed

lemma rt_mp_free_spec:
  assumes "mp_inv used mp" "a \<in> set used"
  shows "\<exists>mp' woken. rt_mp_free (Some a) mp = Some (mp', woken) \<and> mp_inv (remove1 a used) mp'
    \<and> block_free_count mp' = block_free_count mp + 1 \<and> pool_blocks mp' = pool_blocks mp
    \<and> suspend_thread mp' = tl (suspend_thread mp) \<and> block_total_count mp' = block_total_count mp
    \<and> woken = (case suspend_thread mp of [] \<Rightarrow> None | t # ts \<Rightarrow> Some t)"
proof -
  from assms(1) obtain free where f: "chain (mp_link mp) (block_list mp) free" "distinct (free @ map (\<lambda>a. a - 4) used)"
    "set free \<union> (\<lambda>a. a - 4) ` set used = pool_blocks mp" "\<forall>a\<in>set used. 4 \<le> a \<and> mp_words mp (a - 4) = Pool"
    "\<forall>b\<in>set free. mp_words mp b \<noteq> Pool" "block_free_count mp = length free" unfolding mp_inv_def by (elim exE conjE) blast
  define b where "b = a - 4"
  define mp1 where "mp1 = mp\<lparr>block_free_count := block_free_count mp + 1, mp_words := (mp_words mp)(b := Next (block_list mp)), block_list := Some b\<rparr>"
  have pool: "mp_words mp b = Pool" using f(4) assms(2) by (simp add: b_def)
  have nin: "b \<notin> set free" using f(5) pool by auto
  have d: "distinct used" "inj_on (\<lambda>a. a - 4) (set used)" using f(2) by (simp_all add: distinct_map)
  have rest: "set (remove1 a used) = set used - {a}" using d(1) by (rule set_remove1_eq)
  have img: "(\<lambda>a. a - 4) ` set (remove1 a used) = (\<lambda>a. a - 4) ` set used - {b}"
    unfolding rest b_def using inj_on_image_set_diff [OF d(2), of "set used" "{a}"] assms(2) by auto
  have link: "mp_link mp1 = (mp_link mp)(b := block_list mp)" by (rule ext) (simp add: mp_link_def mp1_def)
  have "chain (mp_link mp1) (block_list mp1) (b # free)"
    unfolding link using f(1) by (simp add: mp1_def chain_other [OF nin])
  moreover have "distinct ((b # free) @ map (\<lambda>a. a - 4) (remove1 a used))"
  proof -
    have "inj_on (\<lambda>a. a - 4) (set (remove1 a used))" using d(2) by (rule inj_on_subset) (rule set_remove1_subset)
    then have "distinct (map (\<lambda>a. a - 4) (remove1 a used))" using d(1) by (simp add: distinct_map distinct_remove1)
    then show ?thesis using f(2) nin img by auto
  qed
  moreover have "set (b # free) \<union> (\<lambda>a. a - 4) ` set (remove1 a used) = pool_blocks mp1"
    using f(3) assms(2) unfolding img by (auto simp: mp1_def pool_blocks_def b_def)
  moreover have "\<forall>c\<in>set (remove1 a used). 4 \<le> c \<and> mp_words mp1 (c - 4) = Pool"
  proof
    fix c assume c: "c \<in> set (remove1 a used)"
    then have "c - 4 \<noteq> b" using img by blast
    then show "4 \<le> c \<and> mp_words mp1 (c - 4) = Pool" using c f(4) rest by (simp add: mp1_def)
  qed
  moreover have "\<forall>c\<in>set (b # free). mp_words mp1 c \<noteq> Pool" using f(5) by (simp add: mp1_def)
  moreover have "block_free_count mp1 = length (b # free)" using f(6) by (simp add: mp1_def)
  ultimately have inv: "mp_inv (remove1 a used) mp1" unfolding mp_inv_def by blast
  have upd: "mp_inv us (mp1\<lparr>suspend_thread := ts\<rparr>) = mp_inv us mp1" "pool_blocks (mp1\<lparr>suspend_thread := ts\<rparr>) = pool_blocks mp" for us ts
    by (simp_all add: mp_inv_def mp_link_def [abs_def] pool_blocks_def mp1_def)
  have run: "rt_mp_free (Some a) mp = (case suspend_thread mp1 of [] \<Rightarrow> Some (mp1, None) | t # ts \<Rightarrow> Some (mp1\<lparr>suspend_thread := ts\<rparr>, Some t))"
    using pool by (cases "suspend_thread mp") (simp_all add: rt_mp_free_def mp1_def b_def Let_def)
  have fields: "pool_blocks mp1 = pool_blocks mp" "block_free_count mp1 = block_free_count mp + 1" "suspend_thread mp1 = suspend_thread mp"
    "block_total_count mp1 = block_total_count mp" by (simp_all add: mp1_def pool_blocks_def)
  show ?thesis
    unfolding run using inv by (cases "suspend_thread mp1") (simp_all add: upd fields)
qed

subsection \<open>A new pool\<close>

text \<open>
  A pool that does not reach round the address arithmetic starts with all its blocks free: they follow each other, a word before
  each, and none overlaps another.
\<close>

lemma block_at_linear:
  assumes "n * (unat bs + 4) < 2 ^ 32" "i \<le> n" "0 < n"
  shows "block_at start bs i = start + i * (unat bs + 4)"
proof -
  have "1 * (unat bs + 4) \<le> n * (unat bs + 4)" using assms(3) by (intro mult_le_mono1) simp
  then have "unat bs + 4 < 2 ^ 32" using le_less_trans [OF _ assms(1)] by simp
  then have u: "unat (bs + 4) = unat bs + 4" by (simp add: unat_word_ariths)
  have le: "i * (unat bs + 4) < 2 ^ 32" using mult_le_mono1 [OF assms(2)] assms(1) by (rule le_less_trans)
  have "i \<le> i * (unat bs + 4)" by simp
  then have "i < 2 ^ 32" using le by (rule le_less_trans)
  then have i: "unat (of_nat i :: u32) = i" by (simp add: unsigned_of_nat take_bit_nat_eq_self_iff)
  have "unat (of_nat i * (bs + 4)) = i * (unat bs + 4)"
    using le unfolding unat_word_ariths(2) i u by simp
  then show ?thesis by (simp add: block_at_def)
qed

lemma link_blocks_at:
  "inj_on (block_at start bs) {..<n} \<Longrightarrow> i < n \<Longrightarrow>
     link_blocks start bs n w (block_at start bs i) = Next (Some (block_at start bs (i + 1)))"
proof (induction n)
  case (Suc n)
  have inj: "inj_on (block_at start bs) {..<n}" using Suc.prems(1) by (rule inj_on_subset) auto
  show ?case
  proof (cases "i = n")
    case False
    then have "block_at start bs i \<noteq> block_at start bs n" using Suc.prems inj_onD [OF Suc.prems(1), of i n] by auto
    then show ?thesis using Suc.IH [OF inj] Suc.prems(2) False by simp
  qed simp
qed simp

lemma chain_upt:
  assumes "\<And>i. i < n \<Longrightarrow> nx (f i) = (if Suc i = n then None else Some (f (Suc i)))"
  shows "i < n \<Longrightarrow> chain nx (Some (f i)) (map f [i..<n])"
proof (induction "n - i" arbitrary: i)
  case (Suc k)
  then have u: "[i..<n] = i # [Suc i..<n]" by (simp add: upt_conv_Cons)
  show ?case
  proof (cases "Suc i = n")
    case False
    then have "chain nx (Some (f (Suc i))) (map f [Suc i..<n])" using Suc by simp
    then show ?thesis using False assms [OF Suc.prems] by (simp add: u)
  qed (use assms [OF Suc.prems] in \<open>simp add: u\<close>)
qed simp

lemma linked_inv:
  assumes "n * (unat bs + 4) < 2 ^ 32" "0 < n"
  shows "\<exists>w'. linked start bs n w = Some w' \<and>
    mp_inv [] \<lparr>start_address = start, mp_size = sz, block_size = bs, block_list = Some start, block_total_count = n,
      block_free_count = n, mp_words = w', suspend_thread = []\<rparr>"
proof -
  let ?f = "block_at start bs"
  define w' where "w' = (link_blocks start bs n w)(?f (n - 1) := Next None)"
  define mp where "mp = \<lparr>start_address = start, mp_size = sz, block_size = bs, block_list = Some start, block_total_count = n,
      block_free_count = n, mp_words = w', suspend_thread = []\<rparr>"
  have lin: "?f i = start + i * (unat bs + 4)" if "i < n" for i using block_at_linear [OF assms(1) _ assms(2)] that by simp
  have inj: "inj_on ?f {..<n}" by (rule inj_onI) (simp add: lin)
  have words: "w' (?f i) = Next (if Suc i = n then None else Some (?f (Suc i)))" if i: "i < n" for i
  proof (cases "Suc i = n")
    case False
    then have "?f i \<noteq> ?f (n - 1)" using i inj_onD [OF inj, of i "n - 1"] by auto
    then show ?thesis using link_blocks_at [OF inj i] False by (simp add: w'_def)
  qed (auto simp: w'_def)
  have "chain (mp_link mp) (Some (?f 0)) (map ?f [0..<n])"
    using assms(2) by (intro chain_upt) (simp_all add: mp_link_def mp_def words)
  then have "chain (mp_link mp) (block_list mp) (map ?f [0..<n])" using lin [OF assms(2)] by (simp add: mp_def)
  moreover have "distinct (map ?f [0..<n])" using inj by (simp add: distinct_map atLeast0LessThan)
  moreover have "set (map ?f [0..<n]) = pool_blocks mp" by (simp add: pool_blocks_def mp_def atLeast0LessThan)
  moreover have "\<forall>b\<in>set (map ?f [0..<n]). mp_words mp b \<noteq> Pool" using words by (auto simp: mp_def)
  moreover have "block_free_count mp = length (map ?f [0..<n])" by (simp add: mp_def)
  ultimately have "mp_inv [] mp" unfolding mp_inv_def by (intro exI [of _ "map ?f [0..<n]"]) simp
  then show ?thesis using assms(2) by (simp add: linked_def mp_def w'_def)
qed

lemma rt_mp_create_spec:
  assumes "0 < n" "bs \<noteq> 0" "n * (unat (RT_ALIGN bs RT_ALIGN_SIZE) + 4) < 2 ^ 32"
    and "room ((RT_ALIGN bs RT_ALIGN_SIZE + 4) * of_nat n) = Some start"
  shows "\<exists>mp. rt_mp_create True room n bs w = Some (Some mp) \<and> mp_inv [] mp \<and> block_total_count mp = n
    \<and> block_free_count mp = n \<and> start_address mp = start \<and> suspend_thread mp = []"
proof -
  obtain w' where "linked start (RT_ALIGN bs RT_ALIGN_SIZE) n w = Some w'"
    "mp_inv [] \<lparr>start_address = start, mp_size = (RT_ALIGN bs RT_ALIGN_SIZE + 4) * of_nat n, block_size = RT_ALIGN bs RT_ALIGN_SIZE,
      block_list = Some start, block_total_count = n, block_free_count = n, mp_words = w', suspend_thread = []\<rparr>"
    using linked_inv [OF assms(3,1)] by blast
  then show ?thesis using assms by (simp add: rt_mp_create_def Let_def)
qed

lemma pool_blocks_apart:
  assumes "n * (unat bs + 4) < 2 ^ 32" "i < j" "j < n"
  shows "block_at start bs i + 4 + unat bs \<le> block_at start bs j"
    and "block_at start bs j + 4 + unat bs \<le> start + n * (unat bs + 4)"
proof -
  have f: "block_at start bs i = start + i * (unat bs + 4)" "block_at start bs j = start + j * (unat bs + 4)"
    using assms block_at_linear [OF assms(1)] by simp_all
  have "Suc i * (unat bs + 4) \<le> j * (unat bs + 4)" "Suc j * (unat bs + 4) \<le> n * (unat bs + 4)"
    using assms(2,3) by (simp_all only: mult_le_mono1 Suc_le_eq)
  then show "block_at start bs i + 4 + unat bs \<le> block_at start bs j"
    "block_at start bs j + 4 + unat bs \<le> start + n * (unat bs + 4)" by (simp_all add: f)
qed

text \<open>The order of the blocks that are out does not matter, and there are no more blocks than were made.\<close>

lemma mp_inv_mset:
  assumes "mset us = mset vs"
  shows "mp_inv us mp = mp_inv vs mp"
proof -
  have "set us = set vs" using assms by (rule mset_eq_setD)
  moreover have "distinct (free @ map (\<lambda>a. a - 4) us) = distinct (free @ map (\<lambda>a. a - 4) vs)" for free
    using assms by (intro mset_eq_imp_distinct_iff) simp
  ultimately show ?thesis by (simp only: mp_inv_def)
qed

lemma mp_inv_count:
  assumes "mp_inv used mp"
  shows "length used + block_free_count mp \<le> block_total_count mp"
proof -
  obtain free where f: "distinct (free @ map (\<lambda>a. a - 4) used)" "set free \<union> (\<lambda>a. a - 4) ` set used = pool_blocks mp"
    "block_free_count mp = length free" using assms unfolding mp_inv_def by (elim exE conjE) blast
  have "length used + block_free_count mp = length (free @ map (\<lambda>a. a - 4) used)" using f(3) by simp
  also have "\<dots> = card (set (free @ map (\<lambda>a. a - 4) used))" using f(1) by (rule distinct_card [symmetric])
  also have "\<dots> = card (pool_blocks mp)" using f(2) by simp
  also have "\<dots> \<le> card {..<block_total_count mp}" unfolding pool_blocks_def by (rule card_image_le) simp
  finally show ?thesis by simp
qed

lemma mp_inv_distinct:
  assumes "mp_inv used mp"
  shows "distinct used"
proof -
  from assms obtain free where "distinct (free @ map (\<lambda>a. a - 4) used)" unfolding mp_inv_def by blast
  then show ?thesis by (simp add: distinct_map)
qed

end
