(* ===== verification/AudioDev.thy ===== *)
theory AudioDev
  imports DataQueue MemPool RtCompletion
begin

text \<open>
  Playing through the audio device of \<open>rt-thread/components/drivers/audio/audio.c\<close> as \<open>board/ports/audio/drv_sound.c\<close> sets it
  up: a writer copies its bytes into blocks of a memory pool and pushes them into a data queue, and the interrupt that comes when one
  half of the transmit buffer has been sent fills that half again from the front of the queue. A result is missing when an assertion
  fails or memory is touched that does not belong to the operation.
\<close>

subsection \<open>State\<close>

text \<open>
  \<open>struct rt_audio_replay\<close>. A block is named by the address of its data, \<open>rp_data\<close> holds what is in it. The completion is missing
  while its memory is still all zero, as \<open>_audio_dev_init\<close> leaves it.
\<close>

record replay =
  rp_mp :: mempool
  rp_queue :: "nat data_queue"
  rp_data :: "nat \<Rightarrow> u8 list"
  rp_cmp :: "completion option"
  rp_buffer :: "u8 list"
  rp_block_size :: u16
  rp_total_size :: u32
  rp_write_data :: nat
  rp_write_index :: u16
  rp_read_index :: u16
  rp_pos :: u32
  rp_event :: u8
  rp_activated :: bool

definition REPLAY_EVT_NONE :: u8 where "REPLAY_EVT_NONE = 0"
definition REPLAY_EVT_STOP :: u8 where "REPLAY_EVT_STOP = 2"

definition RT_AUDIO_REPLAY_MP_BLOCK_SIZE :: u16 where "RT_AUDIO_REPLAY_MP_BLOCK_SIZE = 4096"
definition RT_AUDIO_REPLAY_MP_BLOCK_COUNT :: nat where "RT_AUDIO_REPLAY_MP_BLOCK_COUNT = 2"
definition CFG_AUDIO_REPLAY_QUEUE_COUNT :: u16 where "CFG_AUDIO_REPLAY_QUEUE_COUNT = 4"
definition TX_FIFO_SIZE :: nat where "TX_FIFO_SIZE = 2048"

subsection \<open>Initialisation and opening\<close>

text \<open>
  The replay half of \<open>_audio_dev_init\<close>: \<open>replay_room\<close> says whether \<open>rt_malloc\<close> gives the structure, \<open>object\<close> and \<open>room\<close> are the
  allocations of the memory pool, \<open>items\<close> the one of the queue, whose result is not looked at; then \<open>sound_buffer_info\<close> hands out
  the transmit buffer, which \<open>rt_hw_sound_init\<close> has cleared.
\<close>

definition audio_replay_init ::
  "bool \<Rightarrow> bool \<Rightarrow> (u32 \<Rightarrow> nat option) \<Rightarrow> (nat \<times> nat) list option \<Rightarrow> (nat \<Rightarrow> u8 list) \<Rightarrow> (nat \<Rightarrow> mp_word) \<Rightarrow> (rt_err \<times> replay option) option" where
  "audio_replay_init replay_room object room items mem w =
     (if \<not> replay_room then Some (RT_ENOMEM, None)
      else
        (case rt_mp_create object room RT_AUDIO_REPLAY_MP_BLOCK_COUNT (ucast RT_AUDIO_REPLAY_MP_BLOCK_SIZE) w of
           None \<Rightarrow> None
         | Some None \<Rightarrow> Some (RT_ENOMEM, None)
         | Some (Some mp) \<Rightarrow>
             Some (RT_EOK, Some \<lparr>rp_mp = mp, rp_queue = snd (rt_data_queue_init CFG_AUDIO_REPLAY_QUEUE_COUNT 0 False items), rp_data = mem,
               rp_cmp = None, rp_buffer = replicate TX_FIFO_SIZE 0, rp_block_size = of_nat (TX_FIFO_SIZE div 2),
               rp_total_size = of_nat TX_FIFO_SIZE, rp_write_data = 0, rp_write_index = 0, rp_read_index = 0, rp_pos = 0,
               rp_event = REPLAY_EVT_NONE, rp_activated = False\<rparr>)))"

definition audio_replay_open :: "replay \<Rightarrow> replay" where
  "audio_replay_open rp =
     (if \<not> rp_activated rp then rp\<lparr>rp_write_index := 0, rp_read_index := 0, rp_pos := 0, rp_event := REPLAY_EVT_NONE\<rparr> else rp)"

subsection \<open>The interrupt\<close>

definition woken_threads :: "nat option \<Rightarrow> nat option \<Rightarrow> nat list" where
  "woken_threads a b = (case a of None \<Rightarrow> [] | Some t \<Rightarrow> [t]) @ (case b of None \<Rightarrow> [] | Some t \<Rightarrow> [t])"

text \<open>\<open>memset\<close> and \<open>memcpy\<close> into the transmit buffer.\<close>

definition fifo_store :: "u8 list \<Rightarrow> replay \<Rightarrow> replay option" where
  "fifo_store bs rp =
     (if unat (rp_pos rp) + length bs \<le> length (rp_buffer rp)
      then Some (rp\<lparr>rp_buffer := overwrite (unat (rp_pos rp)) bs (rp_buffer rp)\<rparr>) else None)"

text \<open>
  One round of the copying loop, for the item at the front of the queue. It gives the next index, the bytes copied and the threads
  it has resumed; no client of the device asks to be told of sent blocks (\<open>tx_complete\<close>).
\<close>

definition replay_chunk :: "u16 \<Rightarrow> nat \<Rightarrow> nat \<Rightarrow> replay \<Rightarrow> (u16 \<times> u16 \<times> nat list \<times> replay) option" where
  "replay_chunk index data src_size rp =
     (let remain_bytes = ucast (min (ucast (rp_block_size rp) - ucast index :: u32) (of_nat src_size - ucast (rp_read_index rp))) :: u16;
          ri = unat (rp_read_index rp)
      in if length (rp_data rp data) < ri + unat remain_bytes then None
         else
           (case fifo_store (take (unat remain_bytes) (drop ri (rp_data rp data))) rp of
              None \<Rightarrow> None
            | Some rp \<Rightarrow>
                let rp = rp\<lparr>rp_read_index := rp_read_index rp + remain_bytes,
                            rp_pos := (rp_pos rp + ucast remain_bytes) mod rp_total_size rp\<rparr>
                in if (ucast (rp_read_index rp) :: u32) = of_nat src_size then
                     (case rt_data_queue_pop 0 0 (rp_queue rp) of
                        Dq_wait _ \<Rightarrow> None
                      | Dq_return _ item woken _ q \<Rightarrow>
                          (case rt_mp_free (map_option fst item) (rp_mp rp) of
                             None \<Rightarrow> None
                           | Some (mp, woken') \<Rightarrow>
                               Some (index + remain_bytes, remain_bytes, woken_threads woken woken',
                                     rp\<lparr>rp_read_index := 0, rp_queue := q, rp_mp := mp\<rparr>)))
                   else Some (index + remain_bytes, remain_bytes, [], rp)))"

text \<open>The loop: when the queue runs empty in a frame, the position moves on as if the last copy alone had been made.\<close>

partial_function (option) replay_fill :: "u16 \<Rightarrow> u16 \<Rightarrow> nat list \<Rightarrow> replay \<Rightarrow> (rt_err \<times> nat list \<times> replay) option" where
  "replay_fill index remain_bytes ts rp =
     (if index < rp_block_size rp then
        (case snd (rt_data_queue_peak (rp_queue rp)) of
           None \<Rightarrow>
             Some (RT_EEMPTY, ts,
               rp\<lparr>rp_pos := (rp_pos rp - ucast remain_bytes + ucast (rp_block_size rp)) mod rp_total_size rp, rp_read_index := 0\<rparr>)
         | Some item \<Rightarrow>
             (case replay_chunk index (fst item) (snd item) rp of
                None \<Rightarrow> None
              | Some r \<Rightarrow> replay_fill (fst r) (fst (snd r)) (ts @ fst (snd (snd r))) (snd (snd (snd r)))))
      else Some (RT_EOK, ts, rp))"

definition ack_stop :: "replay \<Rightarrow> (nat list \<times> replay) option" where
  "ack_stop rp =
     (if rp_event rp AND REPLAY_EVT_STOP \<noteq> 0 then
        (case rp_cmp rp of
           None \<Rightarrow> None
         | Some c \<Rightarrow> (case rt_completion_done c of (c, woken) \<Rightarrow> Some (woken_threads woken None, rp\<lparr>rp_cmp := Some c\<rparr>)))
      else Some ([], rp))"

text \<open>\<open>transmit\<close> is the optional function of the driver, on the frame; the driver of the sound device has none.\<close>

definition audio_send_replay_frame :: "(u8 list \<Rightarrow> u32) option \<Rightarrow> replay \<Rightarrow> (rt_err \<times> nat list \<times> replay) option" where
  "audio_send_replay_frame transmit rp =
     (let position = ucast (rp_pos rp) :: u16;
          dst_size = rp_block_size rp;
          zero = replicate (unat dst_size) 0
      in (case
            (if snd (rt_data_queue_peak (rp_queue rp)) = None then
               (case ack_stop rp of
                  None \<Rightarrow> None
                | Some (ts, rp) \<Rightarrow>
                    (case fifo_store zero rp of
                       None \<Rightarrow> None
                     | Some rp \<Rightarrow> Some (RT_EOK, ts, rp\<lparr>rp_pos := (rp_pos rp + ucast dst_size) mod rp_total_size rp\<rparr>)))
             else
               (case fifo_store zero rp of
                  None \<Rightarrow> None
                | Some rp \<Rightarrow> replay_fill 0 0 [] rp))
          of None \<Rightarrow> None
           | Some (result, ts, rp) \<Rightarrow>
               Some (case transmit of
                       None \<Rightarrow> result
                     | Some f \<Rightarrow> if f (take (unat dst_size) (drop (unat position) (rp_buffer rp))) \<noteq> ucast dst_size then RT_ERROR else result,
                     ts, rp)))"

subsection \<open>The thread\<close>

text \<open>
  A thread in \<open>_audio_dev_write\<close> or \<open>_aduio_replay_stop\<close>, between two points at which the interrupt may come: the buffer and
  \<open>index\<close> of the write, and whether a wait has ended.
\<close>

datatype audio_pc =
    Idle
  | Write_test "u8 list" u16
  | Write_alloc "u8 list" u16 bool
  | Write_alloc_wait "u8 list" u16
  | Write_copy "u8 list" u16
  | Write_push "u8 list" u16 bool
  | Write_push_wait "u8 list" u16
  | Stop_flush bool
  | Stop_flush_wait
  | Stop_event
  | Stop_init
  | Stop_wait
  | Stop_waiting
  | Stop_woken
  | Stop_clear
  | Stop_hw

text \<open>What \<open>sound_start\<close> and \<open>sound_stop\<close> do to the transmission.\<close>

datatype audio_hw = Hw_none | Hw_start | Hw_stop

definition aduio_replay_start :: "replay \<Rightarrow> audio_hw \<times> replay" where
  "aduio_replay_start rp = (if \<not> rp_activated rp then (Hw_start, rp\<lparr>rp_activated := True\<rparr>) else (Hw_none, rp))"

definition push_block :: "nat \<Rightarrow> bool \<Rightarrow> u16 \<Rightarrow> replay \<Rightarrow> nat dq_result" where
  "push_block self woken n rp =
     (if woken then rt_data_queue_push_resumed RT_EOK self (rp_write_data rp) (unat n) (- 1) (rp_queue rp)
      else rt_data_queue_push self (rp_write_data rp) (unat n) (- 1) (rp_queue rp))"

definition write_alloc :: "nat \<Rightarrow> u8 list \<Rightarrow> u16 \<Rightarrow> bool \<Rightarrow> replay \<Rightarrow> (audio_pc \<times> replay) option" where
  "write_alloc self buf index woken rp =
     (case (if woken then rt_mp_alloc_resumed RT_EOK 0 self (- 1) (rp_mp rp) else rt_mp_alloc self (- 1) (rp_mp rp)) of
        None \<Rightarrow> None
      | Some (Mp_wait mp) \<Rightarrow> Some (Write_alloc_wait buf index, rp\<lparr>rp_mp := mp\<rparr>)
      | Some (Mp_return None mp) \<Rightarrow> None
      | Some (Mp_return (Some a) mp) \<Rightarrow>
          Some (Write_copy buf index,
            rp\<lparr>rp_mp := mp, rp_write_data := a, rp_data := (rp_data rp)(a := replicate (unat RT_AUDIO_REPLAY_MP_BLOCK_SIZE) 0)\<rparr>))"

definition write_copy :: "u8 list \<Rightarrow> u16 \<Rightarrow> replay \<Rightarrow> (audio_pc \<times> replay) option" where
  "write_copy buf index rp =
     (let wi = rp_write_index rp;
          remain_bytes = ucast (min (ucast RT_AUDIO_REPLAY_MP_BLOCK_SIZE - ucast wi :: u32) (of_nat (length buf) - ucast index)) :: u16;
          block = rp_data rp (rp_write_data rp);
          wi' = (wi + remain_bytes) mod RT_AUDIO_REPLAY_MP_BLOCK_SIZE
      in if length block < unat wi + unat remain_bytes \<or> length buf < unat index + unat remain_bytes then None
         else Some (if wi' = 0 then Write_push buf (index + remain_bytes) False else Write_test buf (index + remain_bytes),
                rp\<lparr>rp_data := (rp_data rp)(rp_write_data rp :=
                      overwrite (unat wi) (take (unat remain_bytes) (drop (unat index) buf)) block), rp_write_index := wi'\<rparr>))"

definition dev_write_thread :: "nat \<Rightarrow> audio_pc \<Rightarrow> replay \<Rightarrow> (audio_hw \<times> audio_pc \<times> replay) option" where
  "dev_write_thread self pc rp =
     (case pc of
        Write_test buf index \<Rightarrow>
          if unat index < length buf then
            Some (Hw_none,
              if rp_write_index rp mod RT_AUDIO_REPLAY_MP_BLOCK_SIZE = 0 then Write_alloc buf index False else Write_copy buf index, rp)
          else (case aduio_replay_start rp of (hw, rp) \<Rightarrow> Some (hw, Idle, rp))
      | Write_alloc buf index woken \<Rightarrow> map_option (Pair Hw_none) (write_alloc self buf index woken rp)
      | Write_copy buf index \<Rightarrow> map_option (Pair Hw_none) (write_copy buf index rp)
      | Write_push buf index woken \<Rightarrow>
          (case push_block self woken RT_AUDIO_REPLAY_MP_BLOCK_SIZE rp of
             Dq_wait q \<Rightarrow> Some (Hw_none, Write_push_wait buf index, rp\<lparr>rp_queue := q\<rparr>)
           | Dq_return _ _ _ _ q \<Rightarrow> Some (Hw_none, Write_test buf index, rp\<lparr>rp_queue := q\<rparr>))
      | _ \<Rightarrow> None)"

definition replay_stop_thread :: "nat \<Rightarrow> audio_pc \<Rightarrow> replay \<Rightarrow> (audio_hw \<times> audio_pc \<times> replay) option" where
  "replay_stop_thread self pc rp =
     (case pc of
        Stop_flush woken \<Rightarrow>
          if rp_write_index rp = 0 then Some (Hw_none, Stop_event, rp)
          else
            (case push_block self woken (rp_write_index rp) rp of
               Dq_wait q \<Rightarrow> Some (Hw_none, Stop_flush_wait, rp\<lparr>rp_queue := q\<rparr>)
             | Dq_return _ _ _ _ q \<Rightarrow> Some (Hw_none, Stop_event, rp\<lparr>rp_queue := q, rp_write_index := 0\<rparr>))
      | Stop_event \<Rightarrow> Some (Hw_none, Stop_init, rp\<lparr>rp_event := rp_event rp OR REPLAY_EVT_STOP\<rparr>)
      | Stop_init \<Rightarrow> Some (Hw_none, Stop_wait, rp\<lparr>rp_cmp := Some rt_completion_init\<rparr>)
      | Stop_wait \<Rightarrow>
          (case rp_cmp rp of
             None \<Rightarrow> None
           | Some c \<Rightarrow>
               (case rt_completion_wait self (- 1) c of
                  Proceed _ c \<Rightarrow> Some (Hw_none, Stop_clear, rp\<lparr>rp_cmp := Some c\<rparr>)
                | Suspend c \<Rightarrow> Some (Hw_none, Stop_waiting, rp\<lparr>rp_cmp := Some c\<rparr>)
                | Assert_failed \<Rightarrow> None))
      | Stop_woken \<Rightarrow> Some (Hw_none, Stop_clear, rp\<lparr>rp_cmp := map_option (\<lambda>c. snd (rt_completion_resumed RT_EOK c)) (rp_cmp rp)\<rparr>)
      | Stop_clear \<Rightarrow> Some (Hw_none, Stop_hw, rp\<lparr>rp_event := rp_event rp AND NOT REPLAY_EVT_STOP\<rparr>)
      | Stop_hw \<Rightarrow> Some (Hw_stop, Idle, rp\<lparr>rp_activated := False\<rparr>)
      | _ \<Rightarrow> None)"

definition in_write :: "audio_pc \<Rightarrow> bool" where
  "in_write pc =
     (case pc of
        Write_test _ _ \<Rightarrow> True | Write_alloc _ _ _ \<Rightarrow> True | Write_alloc_wait _ _ \<Rightarrow> True | Write_copy _ _ \<Rightarrow> True
      | Write_push _ _ _ \<Rightarrow> True | Write_push_wait _ _ \<Rightarrow> True | _ \<Rightarrow> False)"

definition audio_thread :: "nat \<Rightarrow> audio_pc \<Rightarrow> replay \<Rightarrow> (audio_hw \<times> audio_pc \<times> replay) option" where
  "audio_thread self pc rp = (if in_write pc then dev_write_thread self pc rp else replay_stop_thread self pc rp)"

lemmas audio_thread_defs = audio_thread_def in_write_def dev_write_thread_def replay_stop_thread_def

text \<open>The entries of \<open>_audio_dev_write\<close>, with the bytes of the caller, and of \<open>_aduio_replay_stop\<close>.\<close>

definition audio_dev_write :: "u8 list \<Rightarrow> audio_pc" where
  "audio_dev_write buf = Write_test buf 0"

definition aduio_replay_stop :: "replay \<Rightarrow> audio_pc" where
  "aduio_replay_stop rp = (if rp_activated rp then Stop_flush False else Idle)"

text \<open>What a resumed thread goes on with.\<close>

definition audio_resume :: "audio_pc \<Rightarrow> audio_pc" where
  "audio_resume pc =
     (case pc of
        Write_alloc_wait buf index \<Rightarrow> Write_alloc buf index True
      | Write_push_wait buf index \<Rightarrow> Write_push buf index True
      | Stop_flush_wait \<Rightarrow> Stop_flush True
      | Stop_waiting \<Rightarrow> Stop_woken
      | _ \<Rightarrow> pc)"

subsection \<open>The device at work\<close>

text \<open>
  The thread and the transmission, which sends the halves of the buffer in turn while it runs (\<open>Some\<close> half) and raises the interrupt
  at the end of each. \<open>s_written\<close> are the bytes of all writes so far, \<open>s_frames\<close> what the interrupt has put into the halves.
\<close>

record audio_sys =
  s_rp :: replay
  s_pc :: audio_pc
  s_dma :: "bool option"
  s_written :: "u8 list"
  s_frames :: "u8 list list"

definition dma_after :: "audio_hw \<Rightarrow> bool option \<Rightarrow> bool option" where
  "dma_after hw dma = (case hw of Hw_none \<Rightarrow> dma | Hw_start \<Rightarrow> Some False | Hw_stop \<Rightarrow> None)"

inductive audio_step :: "nat \<Rightarrow> audio_sys \<Rightarrow> audio_sys \<Rightarrow> bool" for self :: nat where
  open_dev: "s_pc s = Idle \<Longrightarrow> audio_step self s (s\<lparr>s_rp := audio_replay_open (s_rp s)\<rparr>)"
| new_write: "s_pc s = Idle \<Longrightarrow> length buf < 2 ^ 16 \<Longrightarrow>
    audio_step self s (s\<lparr>s_pc := audio_dev_write buf, s_written := s_written s @ buf\<rparr>)"
| new_stop: "s_pc s = Idle \<Longrightarrow> audio_step self s (s\<lparr>s_pc := aduio_replay_stop (s_rp s)\<rparr>)"
| new_start: "s_pc s = Idle \<Longrightarrow> aduio_replay_start (s_rp s) = (hw, rp) \<Longrightarrow>
    audio_step self s (s\<lparr>s_rp := rp, s_dma := dma_after hw (s_dma s)\<rparr>)"
| thread_runs: "audio_thread self (s_pc s) (s_rp s) = Some (hw, pc, rp) \<Longrightarrow>
    audio_step self s (s\<lparr>s_pc := pc, s_rp := rp, s_dma := dma_after hw (s_dma s)\<rparr>)"
| interrupt: "s_dma s = Some h \<Longrightarrow> audio_send_replay_frame None (s_rp s) = Some (result, ts, rp) \<Longrightarrow>
    audio_step self s (s\<lparr>s_rp := rp, s_dma := Some (\<not> h), s_pc := (if self \<in> set ts then audio_resume (s_pc s) else s_pc s),
      s_frames := s_frames s @ [take 1024 (drop (unat (rp_pos (s_rp s))) (rp_buffer rp))]\<rparr>)"

end
