(* ===== verification/AudioFrame.thy ===== *)
theory AudioFrame
  imports AudioDev
begin

text \<open>
  One operation of the device of \<open>AudioDev\<close> at a time: the blocks of the pool are either held by the writer or queued (\<open>replay_inv\<close>),
  the bytes in the queue are read off it (\<open>queued_bytes\<close>), a frame is the next part of them, and a block is allocated, filled and
  pushed at the end.
\<close>

subsection \<open>The bytes in the device\<close>

abbreviation items :: "replay \<Rightarrow> (nat \<times> nat) list" where
  "items rp \<equiv> dq_contents (rp_queue rp)"

definition item_bytes :: "replay \<Rightarrow> nat \<times> nat \<Rightarrow> u8 list" where
  "item_bytes rp x = take (snd x) (rp_data rp (fst x))"

definition queued_bytes :: "replay \<Rightarrow> u8 list" where
  "queued_bytes rp = drop (unat (rp_read_index rp)) (concat (map (item_bytes rp) (items rp)))"

text \<open>All items but the last are whole blocks.\<close>

fun sizes_ok :: "(nat \<times> nat) list \<Rightarrow> bool" where
  "sizes_ok [] \<longleftrightarrow> True"
| "sizes_ok [x] \<longleftrightarrow> 0 < snd x \<and> snd x \<le> 4096"
| "sizes_ok (x # y # xs) \<longleftrightarrow> snd x = 4096 \<and> sizes_ok (y # xs)"

text \<open>\<open>held\<close> is the block that is being written, if there is one, \<open>waiting\<close> the threads that wait for a block.\<close>

definition replay_inv :: "nat list \<Rightarrow> nat list \<Rightarrow> replay \<Rightarrow> bool" where
  "replay_inv held waiting rp \<longleftrightarrow>
     dq_inv (rp_queue rp) \<and> dq_size (rp_queue rp) = 4 \<and> dq_push_list (rp_queue rp) = []
     \<and> mp_inv (held @ map fst (items rp)) (rp_mp rp) \<and> block_total_count (rp_mp rp) = 2 \<and> suspend_thread (rp_mp rp) = waiting
     \<and> (\<forall>a\<in>set (held @ map fst (items rp)). length (rp_data rp a) = 4096) \<and> sizes_ok (items rp)
     \<and> 1024 dvd unat (rp_read_index rp) \<and> unat (rp_read_index rp) < (case items rp of [] \<Rightarrow> 1 | x # _ \<Rightarrow> snd x)
     \<and> rp_pos rp \<in> {0, 1024} \<and> length (rp_buffer rp) = 2048 \<and> rp_block_size rp = 1024 \<and> rp_total_size rp = 2048
     \<and> card (pool_blocks (rp_mp rp)) = 2 \<and> length waiting \<le> 1 \<and> (waiting \<noteq> [] \<longrightarrow> block_free_count (rp_mp rp) = 0)"

lemma replay_invD:
  assumes "replay_inv held waiting rp"
  shows "dq_inv (rp_queue rp)" "dq_size (rp_queue rp) = 4" "dq_push_list (rp_queue rp) = []"
    "mp_inv (held @ map fst (items rp)) (rp_mp rp)" "block_total_count (rp_mp rp) = 2" "suspend_thread (rp_mp rp) = waiting"
    "\<forall>a\<in>set (held @ map fst (items rp)). length (rp_data rp a) = 4096" "sizes_ok (items rp)"
    "1024 dvd unat (rp_read_index rp)" "unat (rp_read_index rp) < (case items rp of [] \<Rightarrow> 1 | x # _ \<Rightarrow> snd x)"
    "rp_pos rp \<in> {0, 1024}" "length (rp_buffer rp) = 2048" "rp_block_size rp = 1024" "rp_total_size rp = 2048"
    "card (pool_blocks (rp_mp rp)) = 2" "length waiting \<le> 1" "waiting \<noteq> [] \<longrightarrow> block_free_count (rp_mp rp) = 0"
  using assms unfolding replay_inv_def by simp_all

lemma sizes_ok_Cons: "sizes_ok (x # xs) \<Longrightarrow> sizes_ok xs \<and> 0 < snd x \<and> snd x \<le> 4096 \<and> (snd x < 4096 \<longrightarrow> xs = [])"
  by (cases xs) simp_all

lemma sizes_ok_snoc: "\<forall>x\<in>set xs. snd x = 4096 \<Longrightarrow> 0 < n \<Longrightarrow> n \<le> 4096 \<Longrightarrow> sizes_ok (xs @ [(a, n)])"
  by (induction xs rule: sizes_ok.induct) simp_all

lemma overwrite_twice:
  "length a \<le> length b \<Longrightarrow> p + length b \<le> length dst \<Longrightarrow>
     overwrite p a (overwrite p b dst) = overwrite p (a @ drop (length a) b) dst"
  by (auto simp: overwrite_def min_def simp flip: length_0_conv)

definition as_frame :: "u8 list \<Rightarrow> u8 list" where
  "as_frame bs = bs @ replicate (1024 - length bs) 0"

lemma length_as_frame [simp]: "length bs \<le> 1024 \<Longrightarrow> length (as_frame bs) = 1024"
  by (simp add: as_frame_def)

lemma chunk_size:
  assumes "n \<le> 4096" "unat (ri :: u16) \<le> n"
  shows "unat (ucast (min (1024 :: u32) (of_nat n - ucast ri)) :: u16) = min 1024 (n - unat ri)"
proof -
  define k where "k = n - unat ri"
  have "of_nat n - ucast ri = (of_nat k :: u32)" using assms(2) by (simp add: k_def)
  moreover have "unat (of_nat k :: u32) = k"
    unfolding unsigned_of_nat of_nat_id by (rule take_bit_nat_eq_self) (use assms in \<open>simp add: k_def\<close>)
  ultimately have "unat (min (1024 :: u32) (of_nat n - ucast ri)) = min 1024 k"
    by (simp add: min_def word_le_nat_alt)
  then show ?thesis unfolding k_def [symmetric] by (simp add: unsigned_ucast_eq take_bit_nat_eq_self_iff)
qed

subsection \<open>One frame\<close>

text \<open>The round of the loop on the front item \<open>(a, n)\<close>, with \<open>r\<close> bytes copied into a buffer that was cleared.\<close>

lemma replay_chunk_run:
  assumes inv: "replay_inv held waiting rp" and it: "items rp = (a, n) # xs"
  defines "r \<equiv> min 1024 (n - unat (rp_read_index rp))"
  defines "rp1 \<equiv> \<lambda>buf. rp\<lparr>rp_buffer := overwrite (unat (rp_pos rp)) (take r (drop (unat (rp_read_index rp)) (rp_data rp a))) buf,
      rp_read_index := rp_read_index rp + of_nat r, rp_pos := (rp_pos rp + of_nat r) mod 2048\<rparr>"
  assumes buf: "length buf = 2048"
  shows "replay_chunk 0 a n (rp\<lparr>rp_buffer := buf\<rparr>) =
     (if unat (rp_read_index rp) + r = n then
        (case rt_data_queue_pop 0 0 (rp_queue rp) of
           Dq_wait _ \<Rightarrow> None
         | Dq_return _ item woken _ q \<Rightarrow>
             (case rt_mp_free (map_option fst item) (rp_mp rp) of
                None \<Rightarrow> None
              | Some (mp, woken') \<Rightarrow>
                  Some (of_nat r, of_nat r, woken_threads woken woken', (rp1 buf)\<lparr>rp_read_index := 0, rp_queue := q, rp_mp := mp\<rparr>)))
      else Some (of_nat r, of_nat r, [], rp1 buf))"
proof -
  note inv = replay_invD [OF inv]
  let ?ri = "unat (rp_read_index rp)"
  have n: "0 < n" "n \<le> 4096" "?ri < n" using inv(8,10) sizes_ok_Cons [of "(a, n)" xs] by (simp_all add: it)
  have len: "length (rp_data rp a) = 4096" using inv(7) by (simp add: it)
  have ur: "unat (of_nat r :: u16) = r" unfolding unsigned_of_nat of_nat_id by (rule take_bit_nat_eq_self) (simp add: r_def)
  have rb: "(ucast (min (1024 :: u32) (of_nat n - ucast (rp_read_index rp))) :: u16) = of_nat r"
    using chunk_size [of n "rp_read_index rp"] n ur by (intro word_unat_eq_iff [THEN iffD2]) (simp add: r_def)
  have rr: "?ri + r \<le> n" using n by (simp add: r_def)
  have room: "\<not> length (rp_data rp a) < ?ri + r" using rr n len by simp
  have pos: "unat (rp_pos rp) + r \<le> 2048" using inv(11) by (auto simp: r_def)
  have st: "fifo_store (take r (drop ?ri (rp_data rp a))) (rp\<lparr>rp_buffer := buf\<rparr>)
      = Some (rp\<lparr>rp_buffer := overwrite (unat (rp_pos rp)) (take r (drop ?ri (rp_data rp a))) buf\<rparr>)"
    using pos rr n len by (simp add: fifo_store_def buf)
  have uri: "unat (rp_read_index rp + of_nat r) = ?ri + r" using rr n by (simp add: unat_word_ariths ur)
  have eq: "((ucast (rp_read_index rp + of_nat r) :: u32) = of_nat n) = (?ri + r = n)"
  proof -
    have "(ucast (rp_read_index rp + of_nat r) :: u32) = of_nat (?ri + r)" by (simp flip: uri)
    moreover have "unat (of_nat m :: u32) = m" if "m \<le> 4096" for m
      unfolding unsigned_of_nat of_nat_id by (rule take_bit_nat_eq_self) (use that in simp)
    ultimately show ?thesis using rr n by (metis le_trans)
  qed
  have cast: "(ucast (of_nat r :: u16) :: u32) = of_nat r" using arg_cong [OF ur, of "of_nat :: nat \<Rightarrow> u32"] by simp
  show ?thesis
    unfolding replay_chunk_def Let_def
    using room st inv(13,14)
    by (cases "rt_data_queue_pop 0 0 (rp_queue rp)") (auto simp: rb ur eq rp1_def cast split: option.split)
qed

text \<open>When the front item is used up, it leaves the queue and its block goes back to the pool.\<close>

lemma front_leaves:
  assumes inv: "replay_inv held waiting rp" and it: "items rp = (a, n) # xs"
  shows "\<exists>ev q mp woken'. rt_data_queue_pop 0 0 (rp_queue rp) = Dq_return RT_EOK (Some (a, n)) None ev q
    \<and> rt_mp_free (Some a) (rp_mp rp) = Some (mp, woken') \<and> woken_threads None woken' = take 1 waiting
    \<and> dq_inv q \<and> dq_contents q = xs \<and> dq_size q = 4 \<and> dq_push_list q = []
    \<and> mp_inv (held @ map fst xs) mp \<and> block_total_count mp = 2 \<and> suspend_thread mp = tl waiting
    \<and> pool_blocks mp = pool_blocks (rp_mp rp)"
proof -
  note inv = replay_invD [OF inv]
  obtain woken ev q where q: "rt_data_queue_pop 0 0 (rp_queue rp) = Dq_return RT_EOK (Some (a, n)) woken ev q" "dq_inv q"
    "dq_contents q = xs" "dq_size q = 4" "woken = None" "dq_push_list q = []"
    using rt_data_queue_pop_spec [OF inv(1) it, of 0 0] unfolding inv(2,3) by (elim exE conjE) simp
  have "a \<in> set (held @ map fst (items rp))" by (simp add: it)
  from rt_mp_free_spec [OF inv(4) this] obtain mp woken' where mp: "rt_mp_free (Some a) (rp_mp rp) = Some (mp, woken')"
    "mp_inv (remove1 a (held @ map fst (items rp))) mp" "block_total_count mp = 2" "suspend_thread mp = tl waiting"
    "pool_blocks mp = pool_blocks (rp_mp rp)"
    "woken' = (case waiting of [] \<Rightarrow> None | t # ts \<Rightarrow> Some t)" unfolding inv(5,6) by (elim exE conjE) blast
  have "mset (remove1 a (held @ map fst (items rp))) = mset (held @ map fst xs)" by (simp add: it)
  then have "mp_inv (held @ map fst xs) mp" using mp(2) mp_inv_mset [of "remove1 a (held @ map fst (items rp))" "held @ map fst xs" mp] by simp
  moreover have "woken_threads None woken' = take 1 waiting" unfolding mp(6) by (cases waiting) (simp_all add: woken_threads_def)
  ultimately show ?thesis using q(1) [unfolded q(5)] q(2-4,6) mp(1,3-5) by (intro exI conjI)
qed

lemma queued_bytes_front:
  assumes inv: "replay_inv held waiting rp" and it: "items rp = (a, n) # xs"
  defines "chunk \<equiv> take (min 1024 (n - unat (rp_read_index rp))) (drop (unat (rp_read_index rp)) (rp_data rp a))"
  shows "take 1024 (queued_bytes rp) = chunk" "length chunk = min 1024 (n - unat (rp_read_index rp))"
    "drop 1024 (queued_bytes rp) = (if unat (rp_read_index rp) + length chunk = n then concat (map (item_bytes rp) xs)
      else drop (unat (rp_read_index rp) + 1024) (concat (map (item_bytes rp) (items rp))))"
    "unat (rp_read_index rp) + length chunk \<noteq> n \<Longrightarrow> length chunk = 1024"
    "length chunk < 1024 \<Longrightarrow> xs = [] \<and> unat (rp_read_index rp) + length chunk = n"
proof -
  note inv = replay_invD [OF inv]
  let ?ri = "unat (rp_read_index rp)"
  have n: "0 < n" "n \<le> 4096" "?ri < n" "n < 4096 \<Longrightarrow> xs = []"
    using inv(8,10) sizes_ok_Cons [of "(a, n)" xs] by (simp_all add: it)
  have len: "length (rp_data rp a) = 4096" using inv(7) by (simp add: it)
  show lc: "length chunk = min 1024 (n - ?ri)" using n len by (simp add: chunk_def)
  show all: "?ri + length chunk \<noteq> n \<Longrightarrow> length chunk = 1024" using n by (simp add: lc)
  have short: "n - ?ri < 1024 \<Longrightarrow> xs = []"
  proof -
    assume "n - ?ri < 1024"
    moreover obtain k where "?ri = 1024 * k" using inv(9) by (elim dvdE)
    ultimately have "n \<noteq> 4096" using n(3) by (cases "k < 4") linarith+
    then show "xs = []" using n by simp
  qed
  show "length chunk < 1024 \<Longrightarrow> xs = [] \<and> ?ri + length chunk = n" using short n by (simp add: lc)
  have front: "drop ?ri (item_bytes rp (a, n)) = take (n - ?ri) (drop ?ri (rp_data rp a))" by (simp add: item_bytes_def drop_take)
  have li: "length (item_bytes rp (a, n)) = n" using n len by (simp add: item_bytes_def)
  have qb: "queued_bytes rp = take (n - ?ri) (drop ?ri (rp_data rp a)) @ concat (map (item_bytes rp) xs)"
    using n(3) by (simp add: queued_bytes_def it li front)
  show "take 1024 (queued_bytes rp) = chunk"
    unfolding qb chunk_def using n len short by (cases "n - ?ri < 1024") simp_all
  show "drop 1024 (queued_bytes rp) = (if ?ri + length chunk = n then concat (map (item_bytes rp) xs)
      else drop (?ri + 1024) (concat (map (item_bytes rp) (items rp))))"
  proof (cases "?ri + length chunk = n")
    case True
    then have "n - ?ri \<le> 1024" "n - ?ri < 1024 \<Longrightarrow> xs = []" using short n by (simp_all add: lc)
    then show ?thesis using True n len unfolding qb by (cases "n - ?ri = 1024") simp_all
  qed (simp add: queued_bytes_def add.commute)
qed

text \<open>The loop makes one round of a frame only; where it ends early, the position is put right.\<close>

lemma fill_starts:
  assumes "replay_inv held waiting rp" "items rp = (a, n) # xs"
  shows "audio_send_replay_frame None rp = replay_fill 0 0 [] (rp\<lparr>rp_buffer := overwrite (unat (rp_pos rp)) (replicate 1024 0) (rp_buffer rp)\<rparr>)"
proof -
  note inv = replay_invD [OF assms(1)]
  have pk: "snd (rt_data_queue_peak (rp_queue rp)) = Some (a, n)" using rt_data_queue_peak_spec [OF inv(1)] assms(2) by simp
  have "unat (rp_pos rp) + 1024 \<le> 2048" using inv(11) by auto
  then have st: "fifo_store (replicate (unat (rp_block_size rp)) 0) rp
      = Some (rp\<lparr>rp_buffer := overwrite (unat (rp_pos rp)) (replicate 1024 0) (rp_buffer rp)\<rparr>)"
    using inv(12,13) by (simp add: fifo_store_def)
  show ?thesis unfolding audio_send_replay_frame_def Let_def pk st
    by (simp split: option.split prod.split)
qed

lemma pos_word:
  assumes "rp_pos rp \<in> {0, 1024}" "r < 1024"
  shows "((rp_pos rp + of_nat r) mod 2048 - ucast (of_nat r :: u16) + 1024) mod 2048 = (rp_pos rp + 1024) mod 2048"
proof -
  have r: "unat (of_nat r :: u32) = r" "(ucast (of_nat r :: u16) :: u32) = of_nat r"
  proof -
    show "unat (of_nat r :: u32) = r" unfolding unsigned_of_nat of_nat_id by (rule take_bit_nat_eq_self) (use assms(2) in simp)
    have ur: "unat (of_nat r :: u16) = r" unfolding unsigned_of_nat of_nat_id by (rule take_bit_nat_eq_self) (use assms(2) in simp)
    show "(ucast (of_nat r :: u16) :: u32) = of_nat r" using arg_cong [OF ur, of "of_nat :: nat \<Rightarrow> u32"] by simp
  qed
  have "unat (rp_pos rp + of_nat r) < 2048" using assms by (auto simp: unat_word_ariths r(1))
  then have "(rp_pos rp + of_nat r) mod 2048 = rp_pos rp + of_nat r" by (intro word_unat_eq_iff [THEN iffD2]) (simp add: unat_mod)
  then show ?thesis by (simp add: r(2))
qed

lemma frame_sent:
  assumes inv: "replay_inv held waiting rp" and it: "items rp = (a, n) # xs"
  defines "k \<equiv> length (take 1024 (queued_bytes rp))"
  shows "\<exists>result ts ri q mp. audio_send_replay_frame None rp = Some (result, ts,
      rp\<lparr>rp_buffer := overwrite (unat (rp_pos rp)) (as_frame (take 1024 (queued_bytes rp))) (rp_buffer rp), rp_pos := (rp_pos rp + 1024) mod 2048,
         rp_read_index := ri, rp_queue := q, rp_mp := mp\<rparr>)
    \<and> (if unat (rp_read_index rp) + k = n
       then ri = 0 \<and> ts = take 1 waiting \<and> dq_inv q \<and> dq_contents q = xs \<and> dq_size q = 4 \<and> dq_push_list q = []
         \<and> mp_inv (held @ map fst xs) mp \<and> block_total_count mp = 2 \<and> suspend_thread mp = tl waiting
         \<and> pool_blocks mp = pool_blocks (rp_mp rp)
       else ri = rp_read_index rp + 1024 \<and> ts = [] \<and> q = rp_queue rp \<and> mp = rp_mp rp)"
proof -
  note invs = replay_invD [OF inv]
  note front = queued_bytes_front [OF inv it]
  let ?ri = "unat (rp_read_index rp)"
  define chunk where "chunk = take 1024 (queued_bytes rp)"
  define buf where "buf = overwrite (unat (rp_pos rp)) (replicate 1024 0) (rp_buffer rp)"
  have chunk: "chunk = take (min 1024 (n - ?ri)) (drop ?ri (rp_data rp a))" "length chunk = k" "k = min 1024 (n - ?ri)"
    using front(1,2) by (simp_all add: chunk_def k_def)
  have pos: "unat (rp_pos rp) + 1024 \<le> 2048" using invs(11) by auto
  have lb: "length buf = 2048" using pos invs(12) by (simp add: buf_def)
  have k: "k \<le> 1024" by (simp add: k_def)
  define rp1 where "rp1 = rp\<lparr>rp_buffer := overwrite (unat (rp_pos rp)) (as_frame chunk) (rp_buffer rp),
      rp_pos := (rp_pos rp + of_nat k) mod 2048\<rparr>"
  have b1: "overwrite (unat (rp_pos rp)) chunk buf = overwrite (unat (rp_pos rp)) (as_frame chunk) (rp_buffer rp)"
    unfolding buf_def using overwrite_twice [of chunk "replicate 1024 0" "unat (rp_pos rp)" "rp_buffer rp"] chunk(2) k pos invs(12)
    by (simp add: as_frame_def)
  have pk: "snd (rt_data_queue_peak (rp_queue rp)) = Some (a, n)" using rt_data_queue_peak_spec [OF invs(1)] it by simp
  note run = replay_chunk_run [OF inv it lb, folded chunk(3), folded chunk(1) [folded chunk(3)]]
  have start: "audio_send_replay_frame None rp
      = (case replay_chunk 0 a n (rp\<lparr>rp_buffer := buf\<rparr>) of None \<Rightarrow> None
         | Some r \<Rightarrow> replay_fill (fst r) (fst (snd r)) (fst (snd (snd r))) (snd (snd (snd r))))"
    unfolding fill_starts [OF inv it] buf_def [symmetric] using invs(13) pk by (subst replay_fill.simps) (simp add: word_less_nat_alt split: option.split)
  have wk: "((of_nat k :: u16) < 1024) = (k < 1024)" "k = 1024 \<Longrightarrow> (of_nat k :: u32) = 1024"
  proof -
    have "unat (of_nat k :: u16) = k" unfolding unsigned_of_nat of_nat_id by (rule take_bit_nat_eq_self) (use k in simp)
    then show "((of_nat k :: u16) < 1024) = (k < 1024)" by (simp add: word_less_nat_alt)
  qed simp
  show ?thesis
  proof (cases "?ri + k = n")
    case True
    obtain ev q mp woken' where q: "rt_data_queue_pop 0 0 (rp_queue rp) = Dq_return RT_EOK (Some (a, n)) None ev q"
      "rt_mp_free (Some a) (rp_mp rp) = Some (mp, woken')" "woken_threads None woken' = take 1 waiting"
      "dq_inv q" "dq_contents q = xs" "dq_size q = 4" "dq_push_list q = []"
      "mp_inv (held @ map fst xs) mp" "block_total_count mp = 2" "suspend_thread mp = tl waiting" "pool_blocks mp = pool_blocks (rp_mp rp)"
      using front_leaves [OF inv it] by (elim exE conjE) (rule that)
    define rp2 where "rp2 = rp1\<lparr>rp_read_index := 0, rp_queue := q, rp_mp := mp\<rparr>"
    have "replay_chunk 0 a n (rp\<lparr>rp_buffer := buf\<rparr>) = Some (of_nat k, of_nat k, take 1 waiting, rp2)"
      unfolding run if_P [OF True] q(1) dq_result.case option.map fst_conv q(2) option.case prod.case q(3) b1
      by (simp add: rp2_def rp1_def)
    then have go: "audio_send_replay_frame None rp = replay_fill (of_nat k) (of_nat k) (take 1 waiting) rp2"
      unfolding start by simp
    have done': "\<exists>result. replay_fill (of_nat k) (of_nat k) (take 1 waiting) rp2
        = Some (result, take 1 waiting, rp2\<lparr>rp_pos := (rp_pos rp + 1024) mod 2048\<rparr>)"
    proof (cases "k < 1024")
      case True
      then have "dq_contents q = []" using front(5) q(5) by (simp add: k_def front(1))
      then have "snd (rt_data_queue_peak q) = None" using rt_data_queue_peak_spec [OF q(4)] by simp
      then show ?thesis
        by (subst replay_fill.simps)
          (simp add: wk True rp2_def rp1_def invs(13,14) pos_word [OF invs(11) True])
    next
      case False
      then have "k = 1024" using k by simp
      then show ?thesis
        by (subst replay_fill.simps) (simp add: rp2_def rp1_def invs(13))
    qed
    then obtain result where res: "replay_fill (of_nat k) (of_nat k) (take 1 waiting) rp2
        = Some (result, take 1 waiting, rp2\<lparr>rp_pos := (rp_pos rp + 1024) mod 2048\<rparr>)" by (elim exE)
    have eq: "rp2\<lparr>rp_pos := (rp_pos rp + 1024) mod 2048\<rparr>
        = rp\<lparr>rp_buffer := overwrite (unat (rp_pos rp)) (as_frame chunk) (rp_buffer rp), rp_pos := (rp_pos rp + 1024) mod 2048,
             rp_read_index := 0, rp_queue := q, rp_mp := mp\<rparr>" by (cases rp) (simp add: rp2_def rp1_def)
    have "audio_send_replay_frame None rp = Some (result, take 1 waiting,
        rp\<lparr>rp_buffer := overwrite (unat (rp_pos rp)) (as_frame chunk) (rp_buffer rp), rp_pos := (rp_pos rp + 1024) mod 2048,
             rp_read_index := 0, rp_queue := q, rp_mp := mp\<rparr>)" unfolding go res eq by (rule refl)
    then show ?thesis unfolding chunk_def [symmetric] if_P [OF True] using q(4-11) by (intro exI conjI) (assumption | rule refl)+
  next
    case False
    then have k: "k = 1024" using front(4) by (simp add: k_def front(1))
    have "replay_chunk 0 a n (rp\<lparr>rp_buffer := buf\<rparr>) = Some (1024, 1024, [], rp1\<lparr>rp_read_index := rp_read_index rp + 1024\<rparr>)"
      unfolding run if_not_P [OF False] b1 by (simp add: rp1_def k)
    then have "audio_send_replay_frame None rp = Some (RT_EOK, [], rp1\<lparr>rp_read_index := rp_read_index rp + 1024\<rparr>)"
      unfolding start by (simp add: replay_fill.simps rp1_def invs(13))
    then show ?thesis using False unfolding chunk_def [symmetric] by (simp add: rp1_def k)
  qed
qed

text \<open>A frame takes the next 1024 bytes of the queue, fewer at its end, and clears the rest.\<close>

definition frame_done :: "replay \<Rightarrow> replay \<Rightarrow> bool" where
  "frame_done rp rp' \<longleftrightarrow>
     queued_bytes rp' = drop 1024 (queued_bytes rp)
     \<and> rp_buffer rp' = overwrite (unat (rp_pos rp)) (as_frame (take 1024 (queued_bytes rp))) (rp_buffer rp)
     \<and> rp_pos rp' = (rp_pos rp + 1024) mod 2048 \<and> set (items rp') \<subseteq> set (items rp) \<and> rp_data rp' = rp_data rp
     \<and> rp_write_data rp' = rp_write_data rp \<and> rp_write_index rp' = rp_write_index rp \<and> rp_event rp' = rp_event rp
     \<and> rp_activated rp' = rp_activated rp"

lemma next_pos: "p \<in> {0, 1024} \<Longrightarrow> (p + 1024) mod 2048 \<in> {0, 1024 :: u32}"
  by auto

lemma frame_of_items:
  assumes inv: "replay_inv held waiting rp" and it: "items rp \<noteq> []"
  shows "\<exists>result j rp'. audio_send_replay_frame None rp = Some (result, take j waiting, rp') \<and> j \<le> 1 \<and> frame_done rp rp'
    \<and> rp_cmp rp' = rp_cmp rp \<and> replay_inv held (drop j waiting) rp'"
proof -
  from it obtain a n xs where it: "items rp = (a, n) # xs" by (cases "items rp") auto
  note invs = replay_invD [OF inv]
  note front = queued_bytes_front [OF inv it, folded queued_bytes_front(1) [OF inv it]]
  let ?ri = "unat (rp_read_index rp)" and ?k = "length (take 1024 (queued_bytes rp))"
  obtain result ts ri q mp where run: "audio_send_replay_frame None rp = Some (result, ts,
      rp\<lparr>rp_buffer := overwrite (unat (rp_pos rp)) (as_frame (take 1024 (queued_bytes rp))) (rp_buffer rp), rp_pos := (rp_pos rp + 1024) mod 2048,
         rp_read_index := ri, rp_queue := q, rp_mp := mp\<rparr>)" (is "_ = Some (_, _, ?rp')")
    and post: "if ?ri + ?k = n
       then ri = 0 \<and> ts = take 1 waiting \<and> dq_inv q \<and> dq_contents q = xs \<and> dq_size q = 4 \<and> dq_push_list q = []
         \<and> mp_inv (held @ map fst xs) mp \<and> block_total_count mp = 2 \<and> suspend_thread mp = tl waiting
         \<and> pool_blocks mp = pool_blocks (rp_mp rp)
       else ri = rp_read_index rp + 1024 \<and> ts = [] \<and> q = rp_queue rp \<and> mp = rp_mp rp"
    using frame_sent [OF inv it] by (elim exE conjE) (rule that)
  have np: "(rp_pos rp + 1024) mod 2048 \<in> {0, 1024}" using invs(11) by (rule next_pos)
  have "length (as_frame (take 1024 (queued_bytes rp))) = 1024" by (rule length_as_frame) simp
  then have lb: "length (overwrite (unat (rp_pos rp)) (as_frame (take 1024 (queued_bytes rp))) (rp_buffer rp)) = 2048"
    using invs(11,12) by auto
  have ib: "item_bytes ?rp' = item_bytes rp" by (rule ext) (simp add: item_bytes_def)
  have qb: "queued_bytes ?rp' = drop (unat ri) (concat (map (item_bytes rp) (dq_contents q)))"
    unfolding queued_bytes_def [of ?rp'] ib by simp
  have wl: "tl waiting = []" using invs(16) by (cases waiting) simp_all
  have ok: "sizes_ok xs" "n \<le> 4096" "0 < n" using sizes_ok_Cons [of "(a, n)" xs] invs(8) by (simp_all add: it)
  show ?thesis
  proof (cases "?ri + ?k = n")
    case True
    note post = post [unfolded if_P [OF True]]
    have "xs = [] \<or> (\<exists>y ys. xs = y # ys \<and> 0 < snd y)" using ok(1) sizes_ok_Cons by (cases xs) auto
    then have "0 < (case xs of [] \<Rightarrow> 1 | x # _ \<Rightarrow> snd x)" by auto
    then have "replay_inv held (drop 1 waiting) ?rp'"
      using post invs(6,7,13-15) np lb ok(1) wl by (simp add: replay_inv_def it drop_Suc)
    moreover have "frame_done rp ?rp'"
      unfolding frame_done_def qb using post front(3) True by (simp add: it subset_insertI)
    ultimately show ?thesis using run post by (intro exI [of _ result] exI [of _ 1] exI [of _ ?rp']) simp
  next
    case False
    note post = post [unfolded if_not_P [OF False]]
    have k: "?k = 1024" by (rule front(4) [OF False])
    have "?ri + 1024 < n"
      using False front(2) k invs(10) by (simp add: it)
    then have ri: "unat (rp_read_index rp + 1024) = ?ri + 1024" "?ri + 1024 < n" using ok(2) by (simp_all add: unat_word_ariths)
    have "1024 dvd ?ri + 1024" using invs(9) by simp
    then have "replay_inv held (drop 0 waiting) ?rp'"
      using post invs np lb ri by (simp add: replay_inv_def it)
    moreover have "frame_done rp ?rp'"
      unfolding frame_done_def qb using post front(3) False ri(1) by simp
    ultimately show ?thesis using run post by (intro exI [of _ result] exI [of _ 0] exI [of _ ?rp']) simp
  qed
qed

lemma frame_of_nothing:
  assumes inv: "replay_inv held waiting rp" and it: "items rp = []" and ack: "ack_stop rp = Some (ts, rp')"
  shows "\<exists>rp''. audio_send_replay_frame None rp = Some (RT_EOK, ts, rp'') \<and> frame_done rp rp'' \<and> rp_cmp rp'' = rp_cmp rp'
    \<and> replay_inv held waiting rp''"
proof -
  note invs = replay_invD [OF inv]
  have pk: "snd (rt_data_queue_peak (rp_queue rp)) = None" using rt_data_queue_peak_spec [OF invs(1)] it by simp
  have rp': "rp' = rp\<lparr>rp_cmp := rp_cmp rp'\<rparr>" using ack by (auto simp: ack_stop_def split: if_splits option.splits prod.splits)
  define rp'' where "rp'' = rp\<lparr>rp_cmp := rp_cmp rp', rp_buffer := overwrite (unat (rp_pos rp)) (replicate 1024 0) (rp_buffer rp),
      rp_pos := (rp_pos rp + 1024) mod 2048\<rparr>"
  have pos: "unat (rp_pos rp) + 1024 \<le> 2048" using invs(11) by auto
  have fields: "rp_pos rp' = rp_pos rp" "rp_block_size rp' = rp_block_size rp" "rp_total_size rp' = rp_total_size rp"
    by (subst rp', simp)+
  have eq: "rp'\<lparr>rp_buffer := overwrite (unat (rp_pos rp)) (replicate 1024 0) (rp_buffer rp), rp_pos := (rp_pos rp + 1024) mod 2048\<rparr> = rp''"
    by (subst rp') (simp add: rp''_def)
  have "fifo_store (replicate (unat (rp_block_size rp)) 0) rp'
      = Some (rp'\<lparr>rp_buffer := overwrite (unat (rp_pos rp)) (replicate 1024 0) (rp_buffer rp)\<rparr>)"
    using pos invs(12,13) by (subst (1 2) rp') (simp add: fifo_store_def)
  then have run: "audio_send_replay_frame None rp = Some (RT_EOK, ts, rp'')"
    unfolding audio_send_replay_frame_def Let_def pk ack using invs(13,14)
    by (simp add: fields eq [symmetric])
  have qb: "queued_bytes rp = []" "queued_bytes rp'' = []" by (simp_all add: queued_bytes_def it rp''_def)
  have "frame_done rp rp''" unfolding frame_done_def qb by (simp add: rp''_def as_frame_def)
  moreover have "replay_inv held waiting rp''"
    using invs next_pos [OF invs(11)] pos by (simp add: replay_inv_def rp''_def)
  ultimately show ?thesis using run by (auto simp: rp''_def)
qed

subsection \<open>The steps of the thread\<close>

definition all_whole :: "replay \<Rightarrow> bool" where
  "all_whole rp \<longleftrightarrow> (\<forall>x\<in>set (items rp). snd x = 4096)"

lemma read_index_le:
  assumes "replay_inv held waiting rp"
  shows "unat (rp_read_index rp) \<le> length (concat (map (item_bytes rp) (items rp)))"
proof (cases "items rp")
  case (Cons x xs)
  note inv = replay_invD [OF assms]
  have "unat (rp_read_index rp) < snd x" "snd x \<le> 4096" "length (rp_data rp (fst x)) = 4096"
    using inv(7,8,10) sizes_ok_Cons [of x xs] by (simp_all add: Cons)
  then show ?thesis by (simp add: Cons item_bytes_def)
qed (use replay_invD(10) [OF assms] in simp)

text \<open>A push always finds room: there are fewer blocks than places in the queue.\<close>

lemma block_pushed:
  assumes inv: "replay_inv [rp_write_data rp] waiting rp" and whole: "all_whole rp" and n: "0 < unat n" "unat n \<le> 4096"
  shows "\<exists>t ev q. push_block self woken n rp = Dq_return RT_EOK None t ev q \<and> replay_inv [] waiting (rp\<lparr>rp_queue := q\<rparr>)
    \<and> dq_contents q = items rp @ [(rp_write_data rp, unat n)]
    \<and> queued_bytes (rp\<lparr>rp_queue := q\<rparr>) = queued_bytes rp @ take (unat n) (rp_data rp (rp_write_data rp))"
proof -
  note invs = replay_invD [OF inv]
  have "length (items rp) \<le> 1" using mp_inv_count [OF invs(4)] invs(5) by simp
  then have "dq_count (rp_queue rp) < unat (dq_size (rp_queue rp))" using invs(2) by (simp flip: dq_count_contents)
  from rt_data_queue_push_spec [OF invs(1) this, of self "rp_write_data rp" "unat n" "- 1"]
  obtain t ev q where q: "rt_data_queue_push self (rp_write_data rp) (unat n) (- 1) (rp_queue rp) = Dq_return RT_EOK None t ev q"
    "dq_inv q" "dq_contents q = items rp @ [(rp_write_data rp, unat n)]" "dq_size q = dq_size (rp_queue rp)"
    "dq_push_list q = dq_push_list (rp_queue rp)" by (elim exE conjE) (rule that)
  have run: "push_block self woken n rp = Dq_return RT_EOK None t ev q"
    using q(1) by (simp add: push_block_def rt_data_queue_push_resumed_def)
  have ok: "sizes_ok (items rp @ [(rp_write_data rp, unat n)])" using whole n by (intro sizes_ok_snoc) (simp_all add: all_whole_def)
  have "mset ([rp_write_data rp] @ map fst (items rp)) = mset (map fst (dq_contents q))" by (simp add: q(3))
  then have pool: "mp_inv (map fst (dq_contents q)) (rp_mp rp)" using invs(4) mp_inv_mset by blast
  have "unat (rp_read_index rp) < (case items rp @ [(rp_write_data rp, unat n)] of [] \<Rightarrow> 1 | x # _ \<Rightarrow> snd x)"
    using invs(10) n by (cases "items rp") simp_all
  then have "replay_inv [] waiting (rp\<lparr>rp_queue := q\<rparr>)"
    using invs q(2,4,5) ok pool by (simp add: replay_inv_def q(3))
  moreover have "queued_bytes (rp\<lparr>rp_queue := q\<rparr>) = queued_bytes rp @ take (unat n) (rp_data rp (rp_write_data rp))"
    using read_index_le [OF inv] by (simp add: queued_bytes_def q(3) item_bytes_def [abs_def])
  ultimately show ?thesis using run q(3) by (intro exI conjI)
qed

lemma block_allocated:
  assumes inv: "replay_inv [] [] rp"
  shows "(\<exists>rp'. write_alloc self buf index woken rp = Some (Write_alloc_wait buf index, rp') \<and> replay_inv [] [self] rp'
      \<and> rp' = rp\<lparr>rp_mp := rp_mp rp'\<rparr>)
    \<or> (\<exists>rp'. write_alloc self buf index woken rp = Some (Write_copy buf index, rp') \<and> replay_inv [rp_write_data rp'] [] rp'
      \<and> items rp' = items rp \<and> queued_bytes rp' = queued_bytes rp
      \<and> rp' = rp\<lparr>rp_mp := rp_mp rp', rp_write_data := rp_write_data rp', rp_data := rp_data rp'\<rparr>)"
proof -
  note invs = replay_invD [OF inv]
  have same: "(if woken then rt_mp_alloc_resumed RT_EOK 0 self (- 1) (rp_mp rp) else rt_mp_alloc self (- 1) (rp_mp rp))
      = rt_mp_alloc self (- 1) (rp_mp rp)" by (simp add: rt_mp_alloc_resumed_def)
  show ?thesis
  proof (cases "block_free_count (rp_mp rp) = 0")
    case True
    let ?mp = "(rp_mp rp)\<lparr>suspend_thread := [self]\<rparr>"
    have run: "write_alloc self buf index woken rp = Some (Write_alloc_wait buf index, rp\<lparr>rp_mp := ?mp\<rparr>)"
      unfolding write_alloc_def same using True invs(6) by (simp add: rt_mp_alloc_def)
    have "mp_inv us ?mp = mp_inv us (rp_mp rp)" for us by (simp add: mp_inv_def mp_link_def [abs_def] pool_blocks_def)
    moreover have "pool_blocks ?mp = pool_blocks (rp_mp rp)" by (simp add: pool_blocks_def)
    ultimately have "replay_inv [] [self] (rp\<lparr>rp_mp := ?mp\<rparr>)" using invs True by (simp add: replay_inv_def)
    then show ?thesis using run by auto
  next
    case False
    then have "0 < block_free_count (rp_mp rp)" by simp
    from rt_mp_alloc_spec [OF invs(4) this, of self "- 1"]
    obtain a mp where mp: "rt_mp_alloc self (- 1) (rp_mp rp) = Some (Mp_return (Some a) mp)" "mp_inv (a # [] @ map fst (items rp)) mp"
      "suspend_thread mp = []" "block_total_count mp = 2" "a \<notin> set ([] @ map fst (items rp))"
      "pool_blocks mp = pool_blocks (rp_mp rp)" using invs(5,6) by (elim exE conjE) simp
    let ?rp = "rp\<lparr>rp_mp := mp, rp_write_data := a, rp_data := (rp_data rp)(a := replicate 4096 0)\<rparr>"
    have run: "write_alloc self buf index woken rp = Some (Write_copy buf index, ?rp)"
      unfolding write_alloc_def same using mp(1) by (simp add: RT_AUDIO_REPLAY_MP_BLOCK_SIZE_def)
    have bytes: "item_bytes ?rp x = item_bytes rp x" if "x \<in> set (items rp)" for x
      using mp(5) that by (auto simp: item_bytes_def)
    then have "queued_bytes ?rp = queued_bytes rp" by (simp add: queued_bytes_def cong: map_cong)
    moreover have "replay_inv [a] [] ?rp" using invs mp by (auto simp: replay_inv_def)
    ultimately show ?thesis using run by auto
  qed
qed

lemma copy_size:
  assumes "unat (wi :: u16) < 4096" "unat (index :: u16) < len" "len < 2 ^ 16"
  shows "unat (ucast (min (4096 - ucast wi :: u32) (of_nat len - ucast index)) :: u16) = min (4096 - unat wi) (len - unat index)"
proof -
  have a: "unat (4096 - ucast wi :: u32) = 4096 - unat wi"
  proof -
    have "take_bit 32 (unat wi) = unat wi" using assms(1) by (intro take_bit_nat_eq_self) simp
    then show ?thesis using assms(1) by (subst unat_sub) (simp_all add: word_le_nat_alt unsigned_ucast_eq)
  qed
  have "of_nat len - ucast index = (of_nat (len - unat index) :: u32)" using assms(2) by simp
  moreover define k where "k = len - unat index"
  moreover have "unat (of_nat k :: u32) = k"
    unfolding unsigned_of_nat of_nat_id by (rule take_bit_nat_eq_self) (use assms in \<open>simp add: k_def\<close>)
  ultimately have b: "unat (of_nat len - ucast index :: u32) = len - unat index" by simp
  have "unat (min (4096 - ucast wi :: u32) (of_nat len - ucast index)) = min (4096 - unat wi) (len - unat index)"
    using a b by (simp add: min_def word_le_nat_alt)
  moreover have "min (4096 - unat wi) (len - unat index) < 2 ^ 16" by simp
  ultimately show ?thesis by (simp add: unsigned_ucast_eq take_bit_nat_eq_self_iff)
qed

lemma block_copied:
  assumes inv: "replay_inv [rp_write_data rp] waiting rp"
    and b: "unat (rp_write_index rp) < 4096" "unat index < length buf" "length buf < 2 ^ 16"
  defines "m \<equiv> min (4096 - unat (rp_write_index rp)) (length buf - unat index)"
  shows "\<exists>index' rp'. write_copy buf index rp =
      Some (if rp_write_index rp' = 0 then Write_push buf index' False else Write_test buf index', rp')
    \<and> unat index' = unat index + m \<and> rp' = rp\<lparr>rp_data := rp_data rp', rp_write_index := rp_write_index rp'\<rparr>
    \<and> unat (rp_write_index rp') = (unat (rp_write_index rp) + m) mod 4096
    \<and> take (unat (rp_write_index rp) + m) (rp_data rp' (rp_write_data rp))
      = take (unat (rp_write_index rp)) (rp_data rp (rp_write_data rp)) @ take m (drop (unat index) buf)
    \<and> replay_inv [rp_write_data rp] waiting rp' \<and> queued_bytes rp' = queued_bytes rp"
proof -
  note invs = replay_invD [OF inv]
  let ?wi = "unat (rp_write_index rp)" and ?a = "rp_write_data rp"
  define r where "r = (ucast (min (ucast RT_AUDIO_REPLAY_MP_BLOCK_SIZE - ucast (rp_write_index rp) :: u32)
      (of_nat (length buf) - ucast index)) :: u16)"
  have r: "unat r = m" using copy_size [OF b] by (simp add: r_def m_def RT_AUDIO_REPLAY_MP_BLOCK_SIZE_def)
  have m: "?wi + m \<le> 4096" "unat index + m \<le> length buf" using b by (simp_all add: m_def)
  have la: "length (rp_data rp ?a) = 4096" using invs(7) by simp
  let ?block = "overwrite ?wi (take m (drop (unat index) buf)) (rp_data rp ?a)"
  define rp' where "rp' = rp\<lparr>rp_data := (rp_data rp)(?a := ?block), rp_write_index := (rp_write_index rp + r) mod 4096\<rparr>"
  have "write_copy buf index rp = Some (if rp_write_index rp' = 0 then Write_push buf (index + r) False else Write_test buf (index + r), rp')"
    unfolding write_copy_def Let_def r_def [symmetric] using la m by (simp add: r rp'_def RT_AUDIO_REPLAY_MP_BLOCK_SIZE_def)
  moreover have "unat (index + r) = unat index + m" using m b by (simp add: unat_word_ariths r)
  moreover have "unat (rp_write_index rp') = (?wi + m) mod 4096"
  proof -
    have "unat (rp_write_index rp + r) = ?wi + m" using m by (simp add: unat_word_ariths r)
    then show ?thesis by (simp add: rp'_def unat_mod)
  qed
  moreover have "take (?wi + m) (rp_data rp' ?a) = take ?wi (rp_data rp ?a) @ take m (drop (unat index) buf)"
    using take_overwrite_end [of ?wi "rp_data rp ?a" "take m (drop (unat index) buf)"] m la by (simp add: rp'_def)
  moreover have "?a \<notin> set (map fst (items rp))" using mp_inv_distinct [OF invs(4)] by simp
  then have "item_bytes rp' x = item_bytes rp x" if "x \<in> set (items rp)" for x
    using that by (cases "fst x = ?a") (force simp: item_bytes_def rp'_def)+
  then have "queued_bytes rp' = queued_bytes rp" by (simp add: queued_bytes_def rp'_def cong: map_cong)
  moreover have "length ?block = 4096" using m la by simp
  then have "replay_inv [?a] waiting rp'" using invs by (auto simp: replay_inv_def rp'_def)
  moreover have "rp' = rp\<lparr>rp_data := rp_data rp', rp_write_index := rp_write_index rp'\<rparr>" by (simp add: rp'_def)
  ultimately show ?thesis by (intro exI conjI)
qed

end
