(* ===== verification/AudioPlay.thy ===== *)
theory AudioPlay
  imports AudioFrame
begin

text \<open>
  The device of \<open>AudioDev\<close> with its thread and its interrupt coming in any order: an invariant of all reachable states, from which no byte
  is lost, repeated or moved, no step fails but one, and waiting ends.
\<close>

subsection \<open>The states of the device\<close>

text \<open>The bytes a write has still to copy, the block being filled, and what is in it.\<close>

definition pc_rest :: "audio_pc \<Rightarrow> u8 list" where
  "pc_rest pc =
     (case pc of
        Write_test buf index \<Rightarrow> drop (unat index) buf
      | Write_alloc buf index _ \<Rightarrow> drop (unat index) buf
      | Write_alloc_wait buf index \<Rightarrow> drop (unat index) buf
      | Write_copy buf index \<Rightarrow> drop (unat index) buf
      | Write_push buf index _ \<Rightarrow> drop (unat index) buf
      | _ \<Rightarrow> [])"

definition pc_held :: "audio_pc \<Rightarrow> replay \<Rightarrow> nat list" where
  "pc_held pc rp =
     (case pc of
        Write_copy _ _ \<Rightarrow> [rp_write_data rp]
      | Write_push _ _ _ \<Rightarrow> [rp_write_data rp]
      | _ \<Rightarrow> (if rp_write_index rp = 0 then [] else [rp_write_data rp]))"

definition pc_partial :: "audio_pc \<Rightarrow> replay \<Rightarrow> u8 list" where
  "pc_partial pc rp =
     take (case pc of Write_push _ _ _ \<Rightarrow> 4096 | _ \<Rightarrow> unat (rp_write_index rp)) (rp_data rp (rp_write_data rp))"

definition pc_waiting :: "nat \<Rightarrow> audio_pc \<Rightarrow> nat list" where
  "pc_waiting self pc = (case pc of Write_alloc_wait _ _ \<Rightarrow> [self] | _ \<Rightarrow> [])"

text \<open>Where the thread is in a write or a stop, and what is true there. It never waits for room in the queue.\<close>

definition pc_ok :: "audio_pc \<Rightarrow> replay \<Rightarrow> bool" where
  "pc_ok pc rp \<longleftrightarrow> unat (rp_write_index rp) < 4096 \<and>
     (case pc of
        Idle \<Rightarrow> all_whole rp \<and> (\<not> rp_activated rp \<longrightarrow> items rp = [] \<and> rp_write_index rp = 0)
      | Write_test buf index \<Rightarrow> all_whole rp \<and> length buf < 2 ^ 16 \<and> unat index \<le> length buf
      | Write_alloc buf index _ \<Rightarrow> all_whole rp \<and> length buf < 2 ^ 16 \<and> unat index < length buf \<and> rp_write_index rp = 0
      | Write_alloc_wait buf index \<Rightarrow> all_whole rp \<and> length buf < 2 ^ 16 \<and> unat index < length buf \<and> rp_write_index rp = 0
      | Write_copy buf index \<Rightarrow> all_whole rp \<and> length buf < 2 ^ 16 \<and> unat index < length buf
      | Write_push buf index _ \<Rightarrow> all_whole rp \<and> length buf < 2 ^ 16 \<and> unat index \<le> length buf \<and> rp_write_index rp = 0
      | Write_push_wait _ _ \<Rightarrow> False
      | Stop_flush _ \<Rightarrow> all_whole rp \<and> rp_activated rp
      | Stop_flush_wait \<Rightarrow> False
      | Stop_event \<Rightarrow> rp_activated rp \<and> rp_write_index rp = 0
      | Stop_init \<Rightarrow> rp_activated rp \<and> rp_write_index rp = 0
      | Stop_wait \<Rightarrow> rp_activated rp \<and> rp_write_index rp = 0
      | Stop_waiting \<Rightarrow> rp_activated rp \<and> rp_write_index rp = 0
      | Stop_woken \<Rightarrow> rp_activated rp \<and> rp_write_index rp = 0 \<and> items rp = []
      | Stop_clear \<Rightarrow> rp_activated rp \<and> rp_write_index rp = 0 \<and> items rp = []
      | Stop_hw \<Rightarrow> rp_activated rp \<and> rp_write_index rp = 0 \<and> items rp = [])"

definition stopping :: "audio_pc \<Rightarrow> bool" where
  "stopping pc \<longleftrightarrow> pc \<in> {Stop_init, Stop_wait, Stop_waiting, Stop_woken, Stop_clear}"

definition cmp_ok :: "nat \<Rightarrow> audio_pc \<Rightarrow> replay \<Rightarrow> bool" where
  "cmp_ok self pc rp \<longleftrightarrow>
     rp_event rp = (if stopping pc then REPLAY_EVT_STOP else REPLAY_EVT_NONE)
     \<and> (stopping pc \<and> pc \<noteq> Stop_init \<longrightarrow> rp_cmp rp \<noteq> None)
     \<and> (\<forall>c. rp_cmp rp = Some c \<longrightarrow> c_suspended c = (if pc = Stop_waiting then [self] else [])
          \<and> (pc = Stop_waiting \<longrightarrow> \<not> c_flag c) \<and> (pc = Stop_wait \<and> c_flag c \<longrightarrow> items rp = []))"

definition bytes_ok :: "audio_sys \<Rightarrow> bool" where
  "bytes_ok s \<longleftrightarrow>
     (\<exists>chunks. s_frames s = map as_frame chunks \<and> (\<forall>c\<in>set chunks. length c \<le> 1024)
        \<and> concat chunks @ queued_bytes (s_rp s) @ pc_partial (s_pc s) (s_rp s) @ pc_rest (s_pc s) = s_written s)"

definition audio_inv :: "nat \<Rightarrow> audio_sys \<Rightarrow> bool" where
  "audio_inv self s \<longleftrightarrow>
     replay_inv (pc_held (s_pc s) (s_rp s)) (pc_waiting self (s_pc s)) (s_rp s) \<and> pc_ok (s_pc s) (s_rp s)
     \<and> cmp_ok self (s_pc s) (s_rp s) \<and> (rp_activated (s_rp s) \<longleftrightarrow> s_dma s \<noteq> None) \<and> bytes_ok s"

lemmas pc_simps = pc_rest_def pc_held_def pc_partial_def pc_waiting_def pc_ok_def

subsection \<open>The interrupt keeps them\<close>

lemma frame_doneD:
  assumes "frame_done rp rp'"
  shows "queued_bytes rp' = drop 1024 (queued_bytes rp)" "set (items rp') \<subseteq> set (items rp)" "rp_data rp' = rp_data rp"
    "rp_buffer rp' = overwrite (unat (rp_pos rp)) (as_frame (take 1024 (queued_bytes rp))) (rp_buffer rp)"
    "rp_write_data rp' = rp_write_data rp" "rp_write_index rp' = rp_write_index rp" "rp_event rp' = rp_event rp"
    "rp_activated rp' = rp_activated rp"
  using assms by (simp_all add: frame_done_def)

lemma pc_frame:
  assumes "frame_done rp rp'"
  shows "pc_held pc rp' = pc_held pc rp" "pc_partial pc rp' = pc_partial pc rp" "all_whole rp \<Longrightarrow> all_whole rp'"
    "pc_ok pc rp \<Longrightarrow> pc_ok pc rp'"
proof -
  note f = frame_doneD [OF assms]
  show "pc_held pc rp' = pc_held pc rp" "pc_partial pc rp' = pc_partial pc rp"
    by (cases pc; simp add: pc_held_def pc_partial_def f)+
  show whole: "all_whole rp \<Longrightarrow> all_whole rp'" using f(2) by (auto simp: all_whole_def)
  have none: "items rp = [] \<Longrightarrow> items rp' = []" using f(2) by simp
  show "pc_ok pc rp \<Longrightarrow> pc_ok pc rp'" using whole none by (cases pc) (simp_all add: pc_ok_def f)
qed

lemma frame_shown:
  assumes "frame_done rp rp'" "replay_inv held waiting rp"
  shows "take 1024 (drop (unat (rp_pos rp)) (rp_buffer rp')) = as_frame (take 1024 (queued_bytes rp))"
proof -
  have l: "length (as_frame (take 1024 (queued_bytes rp))) = 1024" by simp
  have "unat (rp_pos rp) \<le> 2048" using replay_invD(11) [OF assms(2)] by auto
  then show ?thesis
    unfolding frame_doneD(4) [OF assms(1)] overwrite_def using replay_invD(12) [OF assms(2)] l by simp
qed

lemma bytes_ok_frame:
  assumes "bytes_ok s" "frame_done (s_rp s) rp" "replay_inv held waiting (s_rp s)" "pc_rest pc = pc_rest (s_pc s)"
    and "pc_partial pc rp = pc_partial (s_pc s) rp"
  shows "bytes_ok (s\<lparr>s_rp := rp, s_dma := dma, s_pc := pc,
      s_frames := s_frames s @ [take 1024 (drop (unat (rp_pos (s_rp s))) (rp_buffer rp))]\<rparr>)"
proof -
  obtain chunks where c: "s_frames s = map as_frame chunks" "\<forall>c\<in>set chunks. length c \<le> 1024"
    "concat chunks @ queued_bytes (s_rp s) @ pc_partial (s_pc s) (s_rp s) @ pc_rest (s_pc s) = s_written s"
    using assms(1) unfolding bytes_ok_def by (elim exE conjE) (rule that)
  have "concat (chunks @ [take 1024 (queued_bytes (s_rp s))]) @ queued_bytes rp = concat chunks @ queued_bytes (s_rp s)"
    unfolding frame_doneD(1) [OF assms(2)] by simp
  then have "(concat (chunks @ [take 1024 (queued_bytes (s_rp s))]) @ queued_bytes rp) @ pc_partial pc rp @ pc_rest pc = s_written s"
    unfolding assms(4,5) unfolding pc_frame(2) [OF assms(2)] c(3) [symmetric] by simp
  then show ?thesis
    unfolding bytes_ok_def using c(1,2) frame_shown [OF assms(2,3)]
    by (intro exI [of _ "chunks @ [take 1024 (queued_bytes (s_rp s))]"]) simp
qed

lemma audio_resume_simps:
  "pc_rest (audio_resume pc) = pc_rest pc" "pc_partial (audio_resume pc) rp = pc_partial pc rp"
  if "pc_ok pc rp"
  using that by (cases pc; simp add: audio_resume_def pc_simps)+

lemma interrupt_keeps_items:
  assumes inv: "audio_inv self s" and dma: "s_dma s = Some h" and it: "items (s_rp s) \<noteq> []"
    and run: "audio_send_replay_frame None (s_rp s) = Some (result, ts, rp)"
  shows "audio_inv self (s\<lparr>s_rp := rp, s_dma := Some (\<not> h), s_pc := (if self \<in> set ts then audio_resume (s_pc s) else s_pc s),
      s_frames := s_frames s @ [take 1024 (drop (unat (rp_pos (s_rp s))) (rp_buffer rp))]\<rparr>)"
proof -
  let ?pc = "s_pc s"
  from inv have i: "replay_inv (pc_held ?pc (s_rp s)) (pc_waiting self ?pc) (s_rp s)" "pc_ok ?pc (s_rp s)" "cmp_ok self ?pc (s_rp s)"
    "rp_activated (s_rp s)" "bytes_ok s" using dma by (simp_all add: audio_inv_def)
  obtain j where j: "ts = take j (pc_waiting self ?pc)" "j \<le> 1" "frame_done (s_rp s) rp" "rp_cmp rp = rp_cmp (s_rp s)"
    "replay_inv (pc_held ?pc (s_rp s)) (drop j (pc_waiting self ?pc)) rp"
  proof -
    obtain result' j rp' where "audio_send_replay_frame None (s_rp s) = Some (result', take j (pc_waiting self ?pc), rp')" "j \<le> 1"
      "frame_done (s_rp s) rp'" "rp_cmp rp' = rp_cmp (s_rp s)" "replay_inv (pc_held ?pc (s_rp s)) (drop j (pc_waiting self ?pc)) rp'"
      using frame_of_items [OF i(1) it] by (elim exE conjE) (rule that)
    then show thesis using run by (intro that) simp_all
  qed
  define pc where "pc = (if self \<in> set ts then audio_resume ?pc else ?pc)"
  have ok: "pc_ok ?pc rp" by (rule pc_frame(4) [OF j(3) i(2)])
  have rest: "pc_rest pc = pc_rest ?pc" "pc_partial pc rp = pc_partial ?pc rp"
    unfolding pc_def using audio_resume_simps [OF ok] by simp_all
  have cases: "pc = ?pc \<and> drop j (pc_waiting self ?pc) = pc_waiting self ?pc \<or> (\<exists>buf index. ?pc = Write_alloc_wait buf index \<and> pc = Write_alloc buf index True
      \<and> drop j (pc_waiting self ?pc) = [])"
    using j(1,2) by (cases ?pc; cases j) (simp_all add: pc_waiting_def pc_def audio_resume_def)
  have c: "cmp_ok self pc rp \<and> pc_ok pc rp \<and> replay_inv (pc_held pc rp) (pc_waiting self pc) rp"
    using cases
  proof
    assume "pc = ?pc \<and> drop j (pc_waiting self ?pc) = pc_waiting self ?pc"
    moreover have "cmp_ok self ?pc rp" using i(3) it by (auto simp: cmp_ok_def j(4) frame_doneD(7) [OF j(3)])
    ultimately show ?thesis using ok j(5) by (simp add: pc_frame(1) [OF j(3)])
  next
    assume "\<exists>buf index. ?pc = Write_alloc_wait buf index \<and> pc = Write_alloc buf index True \<and> drop j (pc_waiting self ?pc) = []"
    then obtain buf index where w: "?pc = Write_alloc_wait buf index" "pc = Write_alloc buf index True"
      "drop j (pc_waiting self ?pc) = []" by (elim exE conjE)
    have "cmp_ok self pc rp" using i(3) by (simp add: cmp_ok_def j(4) frame_doneD(7) [OF j(3)] w(1,2) stopping_def)
    moreover have "pc_ok pc rp" using ok by (simp add: pc_ok_def w(1,2))
    moreover have "replay_inv (pc_held pc rp) (pc_waiting self pc) rp"
      using j(5) unfolding w(3)
      by (cases "rp_write_index (s_rp s) = 0") (simp_all add: w(1,2) pc_held_def pc_waiting_def frame_doneD(5,6) [OF j(3)])
    ultimately show ?thesis by blast
  qed
  have "rp_activated rp" using i(4) frame_doneD(8) [OF j(3)] by simp
  then show ?thesis
    unfolding pc_def [symmetric] using c bytes_ok_frame [OF i(5) j(3) i(1) rest] by (simp add: audio_inv_def)
qed

lemma interrupt_keeps_nothing:
  assumes inv: "audio_inv self s" and dma: "s_dma s = Some h" and it: "items (s_rp s) = []"
    and run: "audio_send_replay_frame None (s_rp s) = Some (result, ts, rp)"
  shows "audio_inv self (s\<lparr>s_rp := rp, s_dma := Some (\<not> h), s_pc := (if self \<in> set ts then audio_resume (s_pc s) else s_pc s),
      s_frames := s_frames s @ [take 1024 (drop (unat (rp_pos (s_rp s))) (rp_buffer rp))]\<rparr>)"
proof -
  let ?pc = "s_pc s"
  from inv have i: "replay_inv (pc_held ?pc (s_rp s)) (pc_waiting self ?pc) (s_rp s)" "pc_ok ?pc (s_rp s)" "cmp_ok self ?pc (s_rp s)"
    "rp_activated (s_rp s)" "bytes_ok s" using dma by (simp_all add: audio_inv_def)
  have pk: "snd (rt_data_queue_peak (rp_queue (s_rp s))) = None"
    using rt_data_queue_peak_spec [OF replay_invD(1) [OF i(1)]] it by simp
  have "ack_stop (s_rp s) \<noteq> None"
    using run unfolding audio_send_replay_frame_def Let_def pk by (auto split: option.splits)
  then obtain ts' rp1 where ack: "ack_stop (s_rp s) = Some (ts', rp1)" by auto
  from frame_of_nothing [OF i(1) it ack] run
  have f: "ts = ts'" "frame_done (s_rp s) rp" "rp_cmp rp = rp_cmp rp1" "replay_inv (pc_held ?pc (s_rp s)) (pc_waiting self ?pc) rp"
    by simp_all
  note ack = ack [folded f(1)]
  note fd = frame_doneD [OF f(2)]
  define pc where "pc = (if self \<in> set ts then audio_resume ?pc else ?pc)"
  have ok: "pc_ok ?pc rp" by (rule pc_frame(4) [OF f(2) i(2)])
  have none: "items rp = []" using fd(2) it by simp
  have rest: "pc_rest pc = pc_rest ?pc" "pc_partial pc rp = pc_partial ?pc rp"
    unfolding pc_def using audio_resume_simps [OF ok] by simp_all
  have "cmp_ok self pc rp \<and> (pc = ?pc \<or> ?pc = Stop_waiting \<and> pc = Stop_woken)"
  proof (cases "stopping ?pc")
    case False
    then have "ts = []" "rp_cmp rp = rp_cmp (s_rp s)"
      using i(3) ack f(3) by (auto simp: cmp_ok_def ack_stop_def REPLAY_EVT_NONE_def)
    moreover have "pc = ?pc" by (simp add: pc_def calculation(1))
    ultimately show ?thesis using i(3) none by (simp add: cmp_ok_def fd(7))
  next
    case True
    then have ev: "rp_event (s_rp s) AND REPLAY_EVT_STOP \<noteq> 0" using i(3) by (simp add: cmp_ok_def REPLAY_EVT_STOP_def)
    then obtain c where c: "rp_cmp (s_rp s) = Some c" using ack by (auto simp: ack_stop_def split: option.splits)
    then have sus: "c_suspended c = (if ?pc = Stop_waiting then [self] else [])" "?pc = Stop_waiting \<longrightarrow> \<not> c_flag c"
      using i(3) by (simp_all add: cmp_ok_def)
    have cmp: "rp_cmp rp = Some (fst (rt_completion_done c))" "ts = woken_threads (snd (rt_completion_done c)) None"
      using ack ev f(3) by (auto simp: ack_stop_def c split: prod.splits)
    have evr: "rp_event rp = REPLAY_EVT_STOP" using i(3) True by (simp add: cmp_ok_def fd(7))
    show ?thesis
    proof (cases "?pc = Stop_waiting")
      case True
      then have d: "rt_completion_done c = (c\<lparr>c_flag := True, c_suspended := []\<rparr>, Some self)"
        using sus by (simp add: rt_completion_done_def)
      have "pc = Stop_woken" by (simp add: pc_def cmp(2) d woken_threads_def True audio_resume_def)
      then show ?thesis using True by (simp add: cmp_ok_def cmp(1) d evr stopping_def)
    next
      case False
      then have d: "c_suspended (fst (rt_completion_done c)) = []" "snd (rt_completion_done c) = None"
        using sus by (simp_all add: rt_completion_done_def)
      have "pc = ?pc" by (simp add: pc_def cmp(2) d(2) woken_threads_def)
      then show ?thesis using True False by (simp add: cmp_ok_def cmp(1) d(1) evr none)
    qed
  qed
  moreover have "pc_ok pc rp \<and> replay_inv (pc_held pc rp) (pc_waiting self pc) rp"
    if "pc = ?pc \<or> ?pc = Stop_waiting \<and> pc = Stop_woken"
    using that
  proof
    assume "pc = ?pc" then show ?thesis using ok f(4) by (simp add: pc_frame(1) [OF f(2)])
  next
    assume w: "?pc = Stop_waiting \<and> pc = Stop_woken"
    then show ?thesis using ok f(4) none by (simp add: pc_ok_def pc_held_def pc_waiting_def fd(5,6))
  qed
  moreover have "rp_activated rp" using i(4) fd(8) by simp
  ultimately show ?thesis
    unfolding pc_def [symmetric] using bytes_ok_frame [OF i(5) f(2) i(1) rest] by (simp add: audio_inv_def)
qed

text \<open>The handler fails only if a stop is asked for before its completion was ever set up.\<close>

lemma interrupt_runs:
  assumes "audio_inv self s" "s_pc s \<noteq> Stop_init \<or> rp_cmp (s_rp s) \<noteq> None \<or> items (s_rp s) \<noteq> []"
  shows "audio_send_replay_frame None (s_rp s) \<noteq> None"
proof (cases "items (s_rp s) = []")
  case False
  have "replay_inv (pc_held (s_pc s) (s_rp s)) (pc_waiting self (s_pc s)) (s_rp s)" using assms(1) by (simp add: audio_inv_def)
  from frame_of_items [OF this False] show ?thesis by (elim exE conjE) simp
next
  case True
  have i: "replay_inv (pc_held (s_pc s) (s_rp s)) (pc_waiting self (s_pc s)) (s_rp s)" "cmp_ok self (s_pc s) (s_rp s)"
    using assms(1) by (simp_all add: audio_inv_def)
  have "ack_stop (s_rp s) \<noteq> None"
    using i(2) assms(2) True by (auto simp: ack_stop_def cmp_ok_def REPLAY_EVT_NONE_def split: option.split prod.split if_splits)
  then obtain ts rp where "ack_stop (s_rp s) = Some (ts, rp)" by auto
  from frame_of_nothing [OF i(1) True this] show ?thesis by auto
qed

subsection \<open>The thread keeps them\<close>

lemma bytes_ok_step:
  assumes "bytes_ok s"
    and "queued_bytes rp @ pc_partial pc rp @ pc_rest pc = queued_bytes (s_rp s) @ pc_partial (s_pc s) (s_rp s) @ pc_rest (s_pc s)"
  shows "bytes_ok (s\<lparr>s_pc := pc, s_rp := rp, s_dma := d\<rparr>)"
  using assms(1) by (simp add: bytes_ok_def assms(2))

lemma audio_invI:
  assumes "audio_inv self s" "replay_inv (pc_held pc rp) (pc_waiting self pc) rp" "pc_ok pc rp" "cmp_ok self pc rp"
    and "rp_activated rp \<longleftrightarrow> d \<noteq> None"
    and "queued_bytes rp @ pc_partial pc rp @ pc_rest pc = queued_bytes (s_rp s) @ pc_partial (s_pc s) (s_rp s) @ pc_rest (s_pc s)"
  shows "audio_inv self (s\<lparr>s_pc := pc, s_rp := rp, s_dma := d\<rparr>)"
  using assms bytes_ok_step [of s rp pc d] by (simp add: audio_inv_def)

lemma audio_invD:
  assumes "audio_inv self s" "s_pc s = pc"
  shows "replay_inv (pc_held pc (s_rp s)) (pc_waiting self pc) (s_rp s)" "pc_ok pc (s_rp s)" "cmp_ok self pc (s_rp s)"
    "rp_activated (s_rp s) \<longleftrightarrow> s_dma s \<noteq> None"
  using assms by (simp_all add: audio_inv_def)

text \<open>A step outside a stop leaves the completion and the event alone.\<close>

lemma cmp_ok_same:
  "cmp_ok self pc rp \<Longrightarrow> rp_event rp' = rp_event rp \<Longrightarrow> rp_cmp rp' = rp_cmp rp \<Longrightarrow> \<not> stopping pc \<Longrightarrow> \<not> stopping pc' \<Longrightarrow> cmp_ok self pc' rp'"
  by (auto simp: cmp_ok_def stopping_def)

lemma start_keeps:
  assumes "audio_inv self s" "s_pc s = pc" "\<not> stopping pc" "aduio_replay_start (s_rp s) = (hw, rp)"
    and "pc = Idle \<or> (\<exists>buf index. pc = Write_test buf index \<and> length buf \<le> unat index)"
  shows "audio_inv self (s\<lparr>s_pc := Idle, s_rp := rp, s_dma := dma_after hw (s_dma s)\<rparr>)"
proof (rule audio_invI [OF assms(1)])
  note i = audio_invD [OF assms(1,2)]
  have rp: "rp = (s_rp s)\<lparr>rp_activated := True\<rparr>" "hw = (if rp_activated (s_rp s) then Hw_none else Hw_start)"
    using assms(4) by (auto simp: aduio_replay_start_def split: if_splits)
  have ib: "item_bytes rp = item_bytes (s_rp s)" by (rule ext) (simp add: item_bytes_def rp(1))
  have r: "replay_inv held w rp = replay_inv held w (s_rp s)" for held w by (simp add: replay_inv_def rp(1))
  show "replay_inv (pc_held Idle rp) (pc_waiting self Idle) rp"
    using i(1) assms(5) unfolding r
    by (cases "rp_write_index (s_rp s) = 0"; elim disjE exE conjE) (simp_all add: pc_held_def pc_waiting_def rp(1))
  show "pc_ok Idle rp" using i(2) assms(5) by (elim disjE exE conjE) (simp_all add: pc_ok_def all_whole_def rp(1))
  show "cmp_ok self Idle rp" by (rule cmp_ok_same [OF i(3) _ _ assms(3)]) (simp_all add: rp(1) stopping_def)
  show "rp_activated rp \<longleftrightarrow> dma_after hw (s_dma s) \<noteq> None" using i(4) by (cases "s_dma s") (auto simp: rp dma_after_def)
  have "queued_bytes rp = queued_bytes (s_rp s)" by (simp add: queued_bytes_def ib) (simp add: rp(1))
  then show "queued_bytes rp @ pc_partial Idle rp @ pc_rest Idle = queued_bytes (s_rp s) @ pc_partial (s_pc s) (s_rp s) @ pc_rest (s_pc s)"
    using assms(2,5) by (elim disjE exE conjE) (simp_all add: pc_partial_def pc_rest_def rp(1))
qed

lemma test_keeps:
  assumes "audio_inv self s" "s_pc s = Write_test buf index" "audio_thread self (s_pc s) (s_rp s) = Some (hw, pc, rp)"
  shows "audio_inv self (s\<lparr>s_pc := pc, s_rp := rp, s_dma := dma_after hw (s_dma s)\<rparr>)"
proof (cases "unat index < length buf")
  case False
  then obtain hw' rp' where st: "aduio_replay_start (s_rp s) = (hw', rp')" by force
  then have "hw = hw'" "pc = Idle" "rp = rp'" using assms(3) False by (simp_all add: audio_thread_defs assms(2))
  then show ?thesis using start_keeps [OF assms(1,2) _ st] False by (simp add: stopping_def)
next
  case True
  note i = audio_invD [OF assms(1,2)]
  have wi: "unat (rp_write_index (s_rp s)) < 4096" using i(2) by (simp add: pc_ok_def)
  have "(rp_write_index (s_rp s) mod RT_AUDIO_REPLAY_MP_BLOCK_SIZE = 0) = (rp_write_index (s_rp s) = 0)"
    using wi by (simp add: RT_AUDIO_REPLAY_MP_BLOCK_SIZE_def word_unat_eq_iff unat_mod)
  then have r: "hw = Hw_none" "rp = s_rp s"
    "pc = (if rp_write_index (s_rp s) = 0 then Write_alloc buf index False else Write_copy buf index)"
    using assms(3) True by (auto simp: audio_thread_defs assms(2) split: if_splits)
  show ?thesis
  proof (rule audio_invI [OF assms(1)])
    show "replay_inv (pc_held pc rp) (pc_waiting self pc) rp" using i(1) by (auto simp: r pc_held_def pc_waiting_def)
    show "pc_ok pc rp" using i(2) True by (auto simp: r pc_ok_def)
    show "cmp_ok self pc rp" by (rule cmp_ok_same [OF i(3)]) (simp_all add: r stopping_def)
    show "rp_activated rp \<longleftrightarrow> dma_after hw (s_dma s) \<noteq> None" using i(4) by (simp add: r dma_after_def)
    show "queued_bytes rp @ pc_partial pc rp @ pc_rest pc = queued_bytes (s_rp s) @ pc_partial (s_pc s) (s_rp s) @ pc_rest (s_pc s)"
      unfolding assms(2) by (simp add: r pc_partial_def pc_rest_def)
  qed
qed

lemma alloc_keeps:
  assumes "audio_inv self s" "s_pc s = Write_alloc buf index woken" "audio_thread self (s_pc s) (s_rp s) = Some (hw, pc, rp)"
  shows "audio_inv self (s\<lparr>s_pc := pc, s_rp := rp, s_dma := dma_after hw (s_dma s)\<rparr>)"
proof -
  note i = audio_invD [OF assms(1,2)]
  have ok: "all_whole (s_rp s)" "length buf < 2 ^ 16" "unat index < length buf" "rp_write_index (s_rp s) = 0"
    using i(2) by (simp_all add: pc_ok_def)
  have run: "hw = Hw_none" "write_alloc self buf index woken (s_rp s) = Some (pc, rp)"
    using assms(3) by (auto simp: audio_thread_defs assms(2))
  have "replay_inv [] [] (s_rp s)" using i(1) ok(4) by (simp add: pc_held_def pc_waiting_def)
  from block_allocated [OF this, of self buf index woken] run(2)
  consider "pc = Write_alloc_wait buf index" "replay_inv [] [self] rp" "rp = (s_rp s)\<lparr>rp_mp := rp_mp rp\<rparr>"
    | "pc = Write_copy buf index" "replay_inv [rp_write_data rp] [] rp" "items rp = items (s_rp s)" "queued_bytes rp = queued_bytes (s_rp s)"
      "rp = (s_rp s)\<lparr>rp_mp := rp_mp rp, rp_write_data := rp_write_data rp, rp_data := rp_data rp\<rparr>"
    by auto
  then show ?thesis
  proof cases
    case 1
    have f: "items rp = items (s_rp s)" "rp_write_index rp = 0" "rp_event rp = rp_event (s_rp s)" "rp_cmp rp = rp_cmp (s_rp s)"
      "rp_activated rp = rp_activated (s_rp s)" "rp_data rp = rp_data (s_rp s)" "rp_read_index rp = rp_read_index (s_rp s)"
      using ok(4) by (subst 1(3), simp)+
    have ib: "item_bytes rp = item_bytes (s_rp s)" by (rule ext) (simp add: item_bytes_def f)
    show ?thesis
    proof (rule audio_invI [OF assms(1)])
      show "replay_inv (pc_held pc rp) (pc_waiting self pc) rp" using 1(2) by (simp add: 1(1) pc_held_def pc_waiting_def f)
      show "pc_ok pc rp" using ok by (simp add: 1(1) pc_ok_def f all_whole_def)
      show "cmp_ok self pc rp" by (rule cmp_ok_same [OF i(3) f(3,4)]) (simp_all add: 1(1) stopping_def)
      show "rp_activated rp \<longleftrightarrow> dma_after hw (s_dma s) \<noteq> None" using i(4) by (simp add: f run(1) dma_after_def)
      show "queued_bytes rp @ pc_partial pc rp @ pc_rest pc = queued_bytes (s_rp s) @ pc_partial (s_pc s) (s_rp s) @ pc_rest (s_pc s)"
        by (simp add: assms(2) 1(1) pc_partial_def pc_rest_def f ok(4) queued_bytes_def ib)
    qed
  next
    case 2
    have f: "rp_write_index rp = 0" "rp_event rp = rp_event (s_rp s)" "rp_cmp rp = rp_cmp (s_rp s)" "rp_activated rp = rp_activated (s_rp s)"
      using ok(4) by (subst 2(5), simp)+
    show ?thesis
    proof (rule audio_invI [OF assms(1)])
      show "replay_inv (pc_held pc rp) (pc_waiting self pc) rp" using 2(2) by (simp add: 2(1) pc_held_def pc_waiting_def)
      show "pc_ok pc rp" using ok by (simp add: 2(1,3) pc_ok_def f all_whole_def)
      show "cmp_ok self pc rp" by (rule cmp_ok_same [OF i(3) f(2,3)]) (simp_all add: 2(1) stopping_def)
      show "rp_activated rp \<longleftrightarrow> dma_after hw (s_dma s) \<noteq> None" using i(4) by (simp add: f run(1) dma_after_def)
      show "queued_bytes rp @ pc_partial pc rp @ pc_rest pc = queued_bytes (s_rp s) @ pc_partial (s_pc s) (s_rp s) @ pc_rest (s_pc s)"
        by (simp add: assms(2) 2(1,4) pc_partial_def pc_rest_def f ok(4))
    qed
  qed
qed

lemma copy_keeps:
  assumes "audio_inv self s" "s_pc s = Write_copy buf index" "audio_thread self (s_pc s) (s_rp s) = Some (hw, pc, rp)"
  shows "audio_inv self (s\<lparr>s_pc := pc, s_rp := rp, s_dma := dma_after hw (s_dma s)\<rparr>)"
proof -
  note i = audio_invD [OF assms(1,2)]
  let ?wi = "unat (rp_write_index (s_rp s))" and ?a = "rp_write_data (s_rp s)"
  let ?m = "min (4096 - ?wi) (length buf - unat index)"
  have ok: "?wi < 4096" "unat index < length buf" "length buf < 2 ^ 16" "all_whole (s_rp s)" using i(2) by (simp_all add: pc_ok_def)
  have run: "hw = Hw_none" "write_copy buf index (s_rp s) = Some (pc, rp)"
    using assms(3) by (auto simp: audio_thread_defs assms(2))
  have "replay_inv [?a] [] (s_rp s)" using i(1) by (simp add: pc_held_def pc_waiting_def)
  from block_copied [OF this ok(1-3)] obtain index' where c:
    "pc = (if rp_write_index rp = 0 then Write_push buf index' False else Write_test buf index')" "unat index' = unat index + ?m"
    "rp = (s_rp s)\<lparr>rp_data := rp_data rp, rp_write_index := rp_write_index rp\<rparr>" "unat (rp_write_index rp) = (?wi + ?m) mod 4096"
    "take (?wi + ?m) (rp_data rp ?a) = take ?wi (rp_data (s_rp s) ?a) @ take ?m (drop (unat index) buf)"
    "replay_inv [?a] [] rp" "queued_bytes rp = queued_bytes (s_rp s)"
    using run(2) by auto
  have f: "items rp = items (s_rp s)" "rp_event rp = rp_event (s_rp s)" "rp_cmp rp = rp_cmp (s_rp s)"
    "rp_activated rp = rp_activated (s_rp s)" "rp_write_data rp = ?a" by (subst c(3), simp)+
  have m: "?wi + ?m \<le> 4096" "unat index + ?m \<le> length buf" using ok by simp_all
  have zero: "(rp_write_index rp = 0) = (?wi + ?m = 4096)"
  proof -
    have mod: "(x mod 4096 = 0) = (x = 4096)" if "0 < x" "x \<le> 4096" for x :: nat
      using that by (cases "x = 4096") simp_all
    have "0 < ?wi + ?m" using ok by simp
    moreover have "(rp_write_index rp = 0) = ((?wi + ?m) mod 4096 = 0)" unfolding unat_eq_0 [symmetric] c(4) ..
    ultimately show ?thesis using mod m(1) by simp
  qed
  have part: "pc_partial pc rp = take (?wi + ?m) (rp_data rp ?a)"
  proof (cases "rp_write_index rp = 0")
    case True then show ?thesis using zero by (simp add: c(1) pc_partial_def f)
  next
    case False
    then have "unat (rp_write_index rp) = ?wi + ?m" using zero c(4) m(1) by simp
    then show ?thesis using False by (simp add: c(1) pc_partial_def f)
  qed
  have rest: "take ?m (drop (unat index) buf) @ pc_rest pc = drop (unat index) buf"
  proof -
    have "pc_rest pc = drop ?m (drop (unat index) buf)" unfolding drop_drop by (simp add: c(1,2) pc_rest_def add.commute)
    then show ?thesis by (simp only: append_take_drop_id)
  qed
  show ?thesis
  proof (rule audio_invI [OF assms(1)])
    show "replay_inv (pc_held pc rp) (pc_waiting self pc) rp" using c(6) by (simp add: c(1) pc_held_def pc_waiting_def f)
    have "all_whole rp" using ok(4) by (simp add: all_whole_def f)
    moreover have "unat (rp_write_index rp) < 4096" by (simp add: c(4))
    ultimately show "pc_ok pc rp" using ok(3) m(2) c(2) by (simp add: c(1) pc_ok_def)
    show "cmp_ok self pc rp" by (rule cmp_ok_same [OF i(3) f(2,3)]) (simp_all add: c(1) stopping_def)
    show "rp_activated rp \<longleftrightarrow> dma_after hw (s_dma s) \<noteq> None" using i(4) by (simp add: f run(1) dma_after_def)
    show "queued_bytes rp @ pc_partial pc rp @ pc_rest pc = queued_bytes (s_rp s) @ pc_partial (s_pc s) (s_rp s) @ pc_rest (s_pc s)"
      unfolding part c(5,7) append_assoc rest by (simp add: assms(2) pc_partial_def pc_rest_def)
  qed
qed

text \<open>Pushing a whole block, and pushing what is left when the transmission stops.\<close>

lemma push_keeps:
  assumes "audio_inv self s" "s_pc s = Write_push buf index woken" "audio_thread self (s_pc s) (s_rp s) = Some (hw, pc, rp)"
  shows "audio_inv self (s\<lparr>s_pc := pc, s_rp := rp, s_dma := dma_after hw (s_dma s)\<rparr>)"
proof -
  note i = audio_invD [OF assms(1,2)]
  let ?a = "rp_write_data (s_rp s)"
  have ok: "unat index \<le> length buf" "length buf < 2 ^ 16" "all_whole (s_rp s)" "rp_write_index (s_rp s) = 0"
    using i(2) by (simp_all add: pc_ok_def)
  have inv: "replay_inv [?a] [] (s_rp s)" using i(1) by (simp add: pc_held_def pc_waiting_def)
  have n: "0 < unat RT_AUDIO_REPLAY_MP_BLOCK_SIZE" "unat RT_AUDIO_REPLAY_MP_BLOCK_SIZE \<le> 4096" "unat RT_AUDIO_REPLAY_MP_BLOCK_SIZE = 4096"
    by (simp_all add: RT_AUDIO_REPLAY_MP_BLOCK_SIZE_def)
  from block_pushed [OF inv ok(3) n(1,2), of self woken] obtain t ev q where
    q: "push_block self woken RT_AUDIO_REPLAY_MP_BLOCK_SIZE (s_rp s) = Dq_return RT_EOK None t ev q"
    "replay_inv [] [] ((s_rp s)\<lparr>rp_queue := q\<rparr>)" "dq_contents q = items (s_rp s) @ [(?a, 4096)]"
    "queued_bytes ((s_rp s)\<lparr>rp_queue := q\<rparr>) = queued_bytes (s_rp s) @ take 4096 (rp_data (s_rp s) ?a)"
    unfolding n(3) by (elim exE conjE) (rule that)
  have r: "hw = Hw_none" "pc = Write_test buf index" "rp = (s_rp s)\<lparr>rp_queue := q\<rparr>"
    using assms(3) q(1) by (simp_all add: audio_thread_defs assms(2))
  show ?thesis
  proof (rule audio_invI [OF assms(1)])
    show "replay_inv (pc_held pc rp) (pc_waiting self pc) rp" using q(2) ok(4) by (simp add: r pc_held_def pc_waiting_def)
    show "pc_ok pc rp" using ok q(3) by (auto simp: r pc_ok_def all_whole_def)
    show "cmp_ok self pc rp" by (rule cmp_ok_same [OF i(3)]) (simp_all add: r stopping_def)
    show "rp_activated rp \<longleftrightarrow> dma_after hw (s_dma s) \<noteq> None" using i(4) by (simp add: r dma_after_def)
    show "queued_bytes rp @ pc_partial pc rp @ pc_rest pc = queued_bytes (s_rp s) @ pc_partial (s_pc s) (s_rp s) @ pc_rest (s_pc s)"
      unfolding r q(4) by (simp add: assms(2) pc_partial_def pc_rest_def ok(4))
  qed
qed

lemma flush_keeps:
  assumes "audio_inv self s" "s_pc s = Stop_flush woken" "audio_thread self (s_pc s) (s_rp s) = Some (hw, pc, rp)"
  shows "audio_inv self (s\<lparr>s_pc := pc, s_rp := rp, s_dma := dma_after hw (s_dma s)\<rparr>)"
proof -
  note i = audio_invD [OF assms(1,2)]
  let ?a = "rp_write_data (s_rp s)" and ?wi = "rp_write_index (s_rp s)"
  have ok: "all_whole (s_rp s)" "unat ?wi < 4096" "rp_activated (s_rp s)" using i(2) by (simp_all add: pc_ok_def)
  show ?thesis
  proof (cases "?wi = 0")
    case True
    then have r: "hw = Hw_none" "pc = Stop_event" "rp = s_rp s" using assms(3) by (simp_all add: audio_thread_defs assms(2))
    show ?thesis
    proof (rule audio_invI [OF assms(1)])
      show "replay_inv (pc_held pc rp) (pc_waiting self pc) rp" using i(1) True by (simp add: r pc_held_def pc_waiting_def)
      show "pc_ok pc rp" using ok True by (simp add: r pc_ok_def)
      show "cmp_ok self pc rp" by (rule cmp_ok_same [OF i(3)]) (simp_all add: r stopping_def)
      show "rp_activated rp \<longleftrightarrow> dma_after hw (s_dma s) \<noteq> None" using i(4) by (simp add: r dma_after_def)
      show "queued_bytes rp @ pc_partial pc rp @ pc_rest pc = queued_bytes (s_rp s) @ pc_partial (s_pc s) (s_rp s) @ pc_rest (s_pc s)"
        by (simp add: assms(2) r pc_partial_def pc_rest_def)
    qed
  next
    case False
    have inv: "replay_inv [?a] [] (s_rp s)" using i(1) False by (simp add: pc_held_def pc_waiting_def)
    have n: "0 < unat ?wi" "unat ?wi \<le> 4096" using False ok(2) by (simp_all add: unat_gt_0)
    from block_pushed [OF inv ok(1) n, of self woken] obtain t ev q where
      q: "push_block self woken ?wi (s_rp s) = Dq_return RT_EOK None t ev q" "replay_inv [] [] ((s_rp s)\<lparr>rp_queue := q\<rparr>)"
      "queued_bytes ((s_rp s)\<lparr>rp_queue := q\<rparr>) = queued_bytes (s_rp s) @ take (unat ?wi) (rp_data (s_rp s) ?a)"
      by (elim exE conjE) (rule that)
    have r: "hw = Hw_none" "pc = Stop_event" "rp = (s_rp s)\<lparr>rp_queue := q, rp_write_index := 0\<rparr>"
      using assms(3) q(1) False by (simp_all add: audio_thread_defs assms(2))
    have same: "replay_inv [] [] rp = replay_inv [] [] ((s_rp s)\<lparr>rp_queue := q\<rparr>)"
      "queued_bytes rp = queued_bytes ((s_rp s)\<lparr>rp_queue := q\<rparr>)"
      by (simp_all add: r(3) replay_inv_def queued_bytes_def item_bytes_def [abs_def])
    show ?thesis
    proof (rule audio_invI [OF assms(1)])
      show "replay_inv (pc_held pc rp) (pc_waiting self pc) rp"
        using q(2) unfolding same(1) [symmetric] by (simp add: r(2) pc_held_def pc_waiting_def) (simp add: r(3))
      show "pc_ok pc rp" using ok by (simp add: r pc_ok_def)
      show "cmp_ok self pc rp" by (rule cmp_ok_same [OF i(3)]) (simp_all add: r stopping_def)
      show "rp_activated rp \<longleftrightarrow> dma_after hw (s_dma s) \<noteq> None" using i(4) by (simp add: r dma_after_def)
      show "queued_bytes rp @ pc_partial pc rp @ pc_rest pc = queued_bytes (s_rp s) @ pc_partial (s_pc s) (s_rp s) @ pc_rest (s_pc s)"
        unfolding same(2) q(3) by (simp add: assms(2) r pc_partial_def pc_rest_def)
    qed
  qed
qed

text \<open>The rest of a stop leaves the bytes alone.\<close>

lemma quiet_keeps:
  assumes "audio_inv self s" "s_pc s = pc0" "rp_write_index (s_rp s) = 0"
    and "pc0 \<in> {Stop_event, Stop_init, Stop_wait, Stop_waiting, Stop_woken, Stop_clear, Stop_hw}"
    and "pc \<in> {Stop_init, Stop_wait, Stop_waiting, Stop_clear, Stop_hw, Idle}"
    and "rp = (s_rp s)\<lparr>rp_cmp := c, rp_event := e, rp_activated := act\<rparr>" "pc_ok pc rp" "cmp_ok self pc rp" "act \<longleftrightarrow> d \<noteq> None"
  shows "audio_inv self (s\<lparr>s_pc := pc, s_rp := rp, s_dma := d\<rparr>)"
proof (rule audio_invI [OF assms(1)])
  note i = audio_invD [OF assms(1,2)]
  have h: "pc_held pc0 (s_rp s) = []" "pc_held pc rp = []" "pc_waiting self pc0 = []" "pc_waiting self pc = []"
    using assms(3-5) by (auto simp: pc_held_def pc_waiting_def assms(6))
  show "replay_inv (pc_held pc rp) (pc_waiting self pc) rp" using i(1) unfolding h by (simp add: replay_inv_def assms(6))
  show "pc_ok pc rp" "cmp_ok self pc rp" by (fact assms(7), fact assms(8))
  show "rp_activated rp \<longleftrightarrow> d \<noteq> None" using assms(9) by (simp add: assms(6))
  have "pc_partial pc rp = []" "pc_partial pc0 (s_rp s) = []" "pc_rest pc = []" "pc_rest pc0 = []"
    using assms(3-5) by (auto simp: pc_partial_def pc_rest_def assms(6))
  moreover have "queued_bytes rp = queued_bytes (s_rp s)" by (simp add: queued_bytes_def item_bytes_def [abs_def] assms(6))
  ultimately show "queued_bytes rp @ pc_partial pc rp @ pc_rest pc = queued_bytes (s_rp s) @ pc_partial (s_pc s) (s_rp s) @ pc_rest (s_pc s)"
    by (simp add: assms(2))
qed

lemma stop_keeps:
  assumes "audio_inv self s" "s_pc s \<in> {Stop_event, Stop_init, Stop_wait, Stop_woken, Stop_clear, Stop_hw}"
    and "audio_thread self (s_pc s) (s_rp s) = Some (hw, pc, rp)"
  shows "audio_inv self (s\<lparr>s_pc := pc, s_rp := rp, s_dma := dma_after hw (s_dma s)\<rparr>)"
proof -
  note i = audio_invD [OF assms(1) refl]
  have wi: "rp_write_index (s_rp s) = 0" "rp_activated (s_rp s)" "s_dma s \<noteq> None"
    using i(2,4) assms(2) by (auto simp: pc_ok_def)
  note q = quiet_keeps [OF assms(1) refl wi(1)]
  from assms(2) consider "s_pc s = Stop_event" | "s_pc s = Stop_init" | "s_pc s = Stop_wait" | "s_pc s = Stop_woken"
    | "s_pc s = Stop_clear" | "s_pc s = Stop_hw" by auto
  then show ?thesis
  proof cases
    case 1
    then have r: "hw = Hw_none" "pc = Stop_init" "rp = (s_rp s)\<lparr>rp_event := REPLAY_EVT_STOP\<rparr>"
      using assms(3) i(3) by (auto simp: audio_thread_defs cmp_ok_def stopping_def REPLAY_EVT_NONE_def)
    show ?thesis
    proof (rule q [where act = True and c = "rp_cmp (s_rp s)" and e = REPLAY_EVT_STOP])
      show "cmp_ok self pc rp" using i(3) by (auto simp: 1 r cmp_ok_def stopping_def)
    qed (use wi in \<open>simp_all add: 1 r pc_ok_def dma_after_def\<close>)
  next
    case 2
    then have r: "hw = Hw_none" "pc = Stop_wait" "rp = (s_rp s)\<lparr>rp_cmp := Some rt_completion_init\<rparr>"
      using assms(3) by (simp_all add: audio_thread_defs)
    show ?thesis
    proof (rule q [where act = True and c = "Some rt_completion_init" and e = "rp_event (s_rp s)"])
      show "cmp_ok self pc rp" using i(3) by (simp add: 2 r cmp_ok_def stopping_def rt_completion_init_def)
    qed (use wi in \<open>simp_all add: 2 r pc_ok_def dma_after_def\<close>)
  next
    case 3
    obtain c where c: "rp_cmp (s_rp s) = Some c" using i(3) by (auto simp: cmp_ok_def 3 stopping_def)
    then have cs: "c_suspended c = []" "c_flag c \<Longrightarrow> items (s_rp s) = []" using i(3) by (auto simp: cmp_ok_def 3)
    have ev: "rp_event (s_rp s) = REPLAY_EVT_STOP" using i(3) by (simp add: cmp_ok_def 3 stopping_def)
    show ?thesis
    proof (cases "c_flag c")
      case True
      then have r: "hw = Hw_none" "pc = Stop_clear" "rp = (s_rp s)\<lparr>rp_cmp := Some (c\<lparr>c_flag := False\<rparr>)\<rparr>"
        using assms(3) by (auto simp: audio_thread_defs 3 c rt_completion_wait_def)
      show ?thesis
      proof (rule q [where act = True and c = "Some (c\<lparr>c_flag := False\<rparr>)" and e = "rp_event (s_rp s)"])
        show "cmp_ok self pc rp" using cs by (simp add: r cmp_ok_def stopping_def ev)
        show "pc_ok pc rp" using wi cs(2) True by (simp add: r pc_ok_def)
      qed (use wi in \<open>simp_all add: 3 r dma_after_def\<close>)
    next
      case False
      then have r: "hw = Hw_none" "pc = Stop_waiting" "rp = (s_rp s)\<lparr>rp_cmp := Some (c\<lparr>c_suspended := [self]\<rparr>)\<rparr>"
        using assms(3) cs(1) by (auto simp: audio_thread_defs 3 c rt_completion_wait_def)
      show ?thesis
      proof (rule q [where act = True and c = "Some (c\<lparr>c_suspended := [self]\<rparr>)" and e = "rp_event (s_rp s)"])
        show "cmp_ok self pc rp" using False by (simp add: r cmp_ok_def stopping_def ev)
      qed (use wi in \<open>simp_all add: 3 r dma_after_def pc_ok_def\<close>)
    qed
  next
    case 4
    obtain c where c: "rp_cmp (s_rp s) = Some c" using i(3) by (auto simp: cmp_ok_def 4 stopping_def)
    then have r: "hw = Hw_none" "pc = Stop_clear" "rp = (s_rp s)\<lparr>rp_cmp := Some (c\<lparr>c_flag := False\<rparr>)\<rparr>"
      using assms(3) by (simp_all add: audio_thread_defs 4 rt_completion_resumed_def)
    show ?thesis
    proof (rule q [where act = True and c = "Some (c\<lparr>c_flag := False\<rparr>)" and e = "rp_event (s_rp s)"])
      show "cmp_ok self pc rp" using i(3) c by (simp add: 4 r cmp_ok_def stopping_def)
      show "pc_ok pc rp" using i(2) by (simp add: 4 r pc_ok_def)
    qed (use wi in \<open>simp_all add: 4 r dma_after_def\<close>)
  next
    case 5
    have "rp_event (s_rp s) = REPLAY_EVT_STOP" using i(3) by (simp add: cmp_ok_def 5 stopping_def)
    then have r: "hw = Hw_none" "pc = Stop_hw" "rp = (s_rp s)\<lparr>rp_event := REPLAY_EVT_NONE\<rparr>"
      using assms(3) by (simp_all add: audio_thread_defs 5 REPLAY_EVT_STOP_def REPLAY_EVT_NONE_def)
    show ?thesis
    proof (rule q [where act = True and c = "rp_cmp (s_rp s)" and e = REPLAY_EVT_NONE])
      show "cmp_ok self pc rp" using i(3) by (auto simp: 5 r cmp_ok_def stopping_def)
      show "pc_ok pc rp" using i(2) by (simp add: 5 r pc_ok_def)
    qed (use wi in \<open>simp_all add: 5 r dma_after_def\<close>)
  next
    case 6
    then have r: "hw = Hw_stop" "pc = Idle" "rp = (s_rp s)\<lparr>rp_activated := False\<rparr>"
      using assms(3) by (simp_all add: audio_thread_defs)
    show ?thesis
    proof (rule q [where act = False and c = "rp_cmp (s_rp s)" and e = "rp_event (s_rp s)"])
      show "cmp_ok self pc rp" using i(3) by (auto simp: 6 r cmp_ok_def stopping_def)
      show "pc_ok pc rp" using i(2) by (simp add: 6 r pc_ok_def all_whole_def)
    qed (use wi in \<open>simp_all add: 6 r dma_after_def\<close>)
  qed
qed

subsection \<open>Every reachable state\<close>

lemma thread_keeps:
  assumes "audio_inv self s" "audio_thread self (s_pc s) (s_rp s) = Some (hw, pc, rp)"
  shows "audio_inv self (s\<lparr>s_pc := pc, s_rp := rp, s_dma := dma_after hw (s_dma s)\<rparr>)"
proof (cases "s_pc s")
  case (Write_test buf index) then show ?thesis using test_keeps [OF assms(1) _ assms(2)] by simp
next
  case (Write_alloc buf index woken) then show ?thesis using alloc_keeps [OF assms(1) _ assms(2)] by simp
next
  case (Write_copy buf index) then show ?thesis using copy_keeps [OF assms(1) _ assms(2)] by simp
next
  case (Write_push buf index woken) then show ?thesis using push_keeps [OF assms(1) _ assms(2)] by simp
next
  case (Stop_flush woken) then show ?thesis using flush_keeps [OF assms(1) _ assms(2)] by simp
qed (use assms stop_keeps [OF assms(1) _ assms(2)] in \<open>simp_all add: audio_thread_defs\<close>)

lemma idle_same: "s_pc s = Idle \<Longrightarrow> s\<lparr>s_rp := rp\<rparr> = s\<lparr>s_pc := Idle, s_rp := rp, s_dma := s_dma s\<rparr>"
  by (cases s) simp

lemma open_keeps:
  assumes "audio_inv self s" "s_pc s = Idle"
  shows "audio_inv self (s\<lparr>s_rp := audio_replay_open (s_rp s)\<rparr>)"
proof (cases "rp_activated (s_rp s)")
  case True
  then have "audio_replay_open (s_rp s) = s_rp s" by (simp add: audio_replay_open_def)
  then show ?thesis using assms(1) by simp
next
  case False
  note i = audio_invD [OF assms]
  define rp where "rp = audio_replay_open (s_rp s)"
  have ok: "items (s_rp s) = []" "rp_write_index (s_rp s) = 0" using i(2) False by (simp_all add: pc_ok_def)
  have ev: "rp_event (s_rp s) = REPLAY_EVT_NONE" using i(3) by (simp add: cmp_ok_def stopping_def)
  have rp: "rp = (s_rp s)\<lparr>rp_write_index := 0, rp_read_index := 0, rp_pos := 0, rp_event := REPLAY_EVT_NONE\<rparr>"
    using False by (simp add: rp_def audio_replay_open_def)
  have "audio_inv self (s\<lparr>s_pc := Idle, s_rp := rp, s_dma := s_dma s\<rparr>)"
  proof (rule audio_invI [OF assms(1)])
    show "replay_inv (pc_held Idle rp) (pc_waiting self Idle) rp"
      using i(1) ok by (simp add: pc_held_def pc_waiting_def replay_inv_def rp)
    show "pc_ok Idle rp" using ok by (simp add: pc_ok_def all_whole_def rp)
    show "cmp_ok self Idle rp" using i(3) ev by (simp add: cmp_ok_def rp)
    show "rp_activated rp \<longleftrightarrow> s_dma s \<noteq> None" using i(4) by (simp add: rp)
    show "queued_bytes rp @ pc_partial Idle rp @ pc_rest Idle = queued_bytes (s_rp s) @ pc_partial (s_pc s) (s_rp s) @ pc_rest (s_pc s)"
      using ok by (simp add: assms(2) queued_bytes_def pc_partial_def pc_rest_def rp)
  qed
  then show ?thesis unfolding idle_same [OF assms(2)] rp_def .
qed

lemma write_keeps:
  assumes "audio_inv self s" "s_pc s = Idle" "length buf < 2 ^ 16"
  shows "audio_inv self (s\<lparr>s_pc := audio_dev_write buf, s_written := s_written s @ buf\<rparr>)"
proof -
  note i = audio_invD [OF assms(1,2)]
  let ?pc = "audio_dev_write buf"
  have "replay_inv (pc_held ?pc (s_rp s)) (pc_waiting self ?pc) (s_rp s)"
    using i(1) by (cases "rp_write_index (s_rp s) = 0") (simp_all add: pc_held_def pc_waiting_def audio_dev_write_def)
  moreover have "pc_ok ?pc (s_rp s)" using i(2) assms(3) by (simp add: pc_ok_def audio_dev_write_def)
  moreover have "cmp_ok self ?pc (s_rp s)"
    by (rule cmp_ok_same [OF i(3)]) (simp_all add: stopping_def audio_dev_write_def)
  moreover have "bytes_ok (s\<lparr>s_pc := ?pc, s_written := s_written s @ buf\<rparr>)"
  proof -
    obtain chunks where "s_frames s = map as_frame chunks" "\<forall>c\<in>set chunks. length c \<le> 1024"
      "concat chunks @ queued_bytes (s_rp s) @ pc_partial Idle (s_rp s) = s_written s"
      using assms(1,2) unfolding audio_inv_def bytes_ok_def by (elim exE conjE) (rule that, simp_all add: pc_rest_def)
    moreover have "pc_partial ?pc (s_rp s) = pc_partial Idle (s_rp s)" "pc_rest ?pc = buf"
      by (simp_all add: pc_partial_def pc_rest_def audio_dev_write_def)
    ultimately show ?thesis unfolding bytes_ok_def by (intro exI [of _ chunks]) (simp flip: append_assoc)
  qed
  ultimately show ?thesis using i(4) by (simp add: audio_inv_def)
qed

lemma stop_begins:
  assumes "audio_inv self s" "s_pc s = Idle"
  shows "audio_inv self (s\<lparr>s_pc := aduio_replay_stop (s_rp s)\<rparr>)"
proof -
  note i = audio_invD [OF assms]
  define pc where "pc = aduio_replay_stop (s_rp s)"
  have pc: "pc = (if rp_activated (s_rp s) then Stop_flush False else Idle)" by (simp add: pc_def aduio_replay_stop_def)
  have "audio_inv self (s\<lparr>s_pc := pc, s_rp := s_rp s, s_dma := s_dma s\<rparr>)"
  proof (rule audio_invI [OF assms(1)])
    show "replay_inv (pc_held pc (s_rp s)) (pc_waiting self pc) (s_rp s)"
      using i(1) by (cases "rp_write_index (s_rp s) = 0") (simp_all add: pc pc_held_def pc_waiting_def)
    show "pc_ok pc (s_rp s)" using i(2) by (simp add: pc pc_ok_def)
    show "cmp_ok self pc (s_rp s)" by (rule cmp_ok_same [OF i(3)]) (simp_all add: pc stopping_def)
    show "queued_bytes (s_rp s) @ pc_partial pc (s_rp s) @ pc_rest pc = queued_bytes (s_rp s) @ pc_partial (s_pc s) (s_rp s) @ pc_rest (s_pc s)"
      by (simp add: assms(2) pc pc_partial_def pc_rest_def)
  qed (rule i(4))
  moreover have "s\<lparr>s_pc := pc, s_rp := s_rp s, s_dma := s_dma s\<rparr> = s\<lparr>s_pc := pc\<rparr>" by (cases s) simp
  ultimately show ?thesis by (simp add: pc_def)
qed

lemma step_keeps:
  assumes "audio_step self s s'" "audio_inv self s"
  shows "audio_inv self s'"
  using assms
proof (cases rule: audio_step.cases)
  case open_dev
  then show ?thesis using open_keeps [OF assms(2)] by simp
next
  case (new_write buf)
  then show ?thesis using write_keeps [OF assms(2)] by simp
next
  case new_stop
  then show ?thesis using stop_begins [OF assms(2)] by simp
next
  case (new_start hw rp)
  have "s\<lparr>s_rp := rp, s_dma := d\<rparr> = s\<lparr>s_pc := Idle, s_rp := rp, s_dma := d\<rparr>" for d using new_start(2) by (cases s) simp
  then show ?thesis using start_keeps [OF assms(2) new_start(2) _ new_start(3)] new_start(1) by (simp add: stopping_def)
next
  case (thread_runs hw pc rp)
  then show ?thesis using thread_keeps [OF assms(2)] by simp
next
  case (interrupt h result ts rp)
  then show ?thesis using interrupt_keeps_items [OF assms(2)] interrupt_keeps_nothing [OF assms(2)]
    by (cases "items (s_rp s) = []") simp_all
qed

text \<open>The device as it is created, with the room that the queue asks for.\<close>

definition audio_created :: "replay \<Rightarrow> bool" where
  "audio_created rp \<longleftrightarrow>
     (\<exists>room ps mem w. length ps = unat CFG_AUDIO_REPLAY_QUEUE_COUNT \<and> audio_replay_init True True room (Some ps) mem w = Some (RT_EOK, Some rp))"

definition audio_start :: "replay \<Rightarrow> audio_sys" where
  "audio_start rp = \<lparr>s_rp = rp, s_pc = Idle, s_dma = None, s_written = [], s_frames = []\<rparr>"

lemma created_parts:
  assumes "audio_created rp"
  shows "\<exists>mp q mem. rp = \<lparr>rp_mp = mp, rp_queue = q, rp_data = mem, rp_cmp = None, rp_buffer = replicate 2048 0, rp_block_size = 1024,
      rp_total_size = 2048, rp_write_data = 0, rp_write_index = 0, rp_read_index = 0, rp_pos = 0, rp_event = REPLAY_EVT_NONE,
      rp_activated = False\<rparr>
    \<and> mp_inv [] mp \<and> block_total_count mp = 2 \<and> block_free_count mp = 2 \<and> suspend_thread mp = []
    \<and> dq_inv q \<and> dq_contents q = [] \<and> dq_size q = 4 \<and> dq_push_list q = []"
proof -
  obtain room ps mem w where ps: "length ps = 4" and init: "audio_replay_init True True room (Some ps) mem w = Some (RT_EOK, Some rp)"
    using assms by (auto simp: audio_created_def CFG_AUDIO_REPLAY_QUEUE_COUNT_def)
  have al: "RT_ALIGN 4096 RT_ALIGN_SIZE = 4096" by (simp add: RT_ALIGN_def RT_ALIGN_SIZE_def)
  obtain start where start: "room ((4096 + 4) * of_nat 2) = Some start"
    using init by (auto simp: audio_replay_init_def rt_mp_create_def Let_def al RT_AUDIO_REPLAY_MP_BLOCK_SIZE_def
      RT_AUDIO_REPLAY_MP_BLOCK_COUNT_def split: option.splits)
  obtain mp where mp: "rt_mp_create True room 2 4096 w = Some (Some mp)" "mp_inv [] mp" "block_total_count mp = 2"
    "block_free_count mp = 2" "suspend_thread mp = []"
    using rt_mp_create_spec [of 2 4096 room start w] start by (auto simp: al)
  obtain q where q: "rt_data_queue_init 4 0 False (Some ps) = (RT_EOK, q)" "dq_inv q" "dq_contents q = []" "dq_size q = 4"
    using rt_data_queue_init_spec [of 4 ps 0 False] ps by auto
  have ql: "dq_push_list q = []" using q(1) by (auto simp: rt_data_queue_init_def)
  have "rp = \<lparr>rp_mp = mp, rp_queue = q, rp_data = mem, rp_cmp = None, rp_buffer = replicate 2048 0, rp_block_size = 1024,
      rp_total_size = 2048, rp_write_data = 0, rp_write_index = 0, rp_read_index = 0, rp_pos = 0, rp_event = REPLAY_EVT_NONE,
      rp_activated = False\<rparr>"
    using init mp(1) q(1) by (simp add: audio_replay_init_def RT_AUDIO_REPLAY_MP_BLOCK_SIZE_def RT_AUDIO_REPLAY_MP_BLOCK_COUNT_def
      CFG_AUDIO_REPLAY_QUEUE_COUNT_def TX_FIFO_SIZE_def)
  then show ?thesis using mp q ql by (intro exI conjI)
qed

lemma created_inv:
  assumes "audio_created rp"
  shows "audio_inv self (audio_start rp)"
proof -
  obtain mp q mem where rp: "rp = \<lparr>rp_mp = mp, rp_queue = q, rp_data = mem, rp_cmp = None, rp_buffer = replicate 2048 0,
      rp_block_size = 1024, rp_total_size = 2048, rp_write_data = 0, rp_write_index = 0, rp_read_index = 0, rp_pos = 0,
      rp_event = REPLAY_EVT_NONE, rp_activated = False\<rparr>"
    and mp: "mp_inv [] mp" "block_total_count mp = 2" "block_free_count mp = 2" "suspend_thread mp = []"
    and q: "dq_inv q" "dq_contents q = []" "dq_size q = 4" "dq_push_list q = []"
    using created_parts [OF assms] by (elim exE conjE) (rule that)
  obtain free where "distinct free" "set free = pool_blocks mp" "length free = 2" using mp(1,3) by (auto simp: mp_inv_def)
  then have "card (pool_blocks mp) = 2" by (metis distinct_card)
  then have "replay_inv [] [] rp" using mp q by (simp add: replay_inv_def rp)
  then show ?thesis
    using q(2) by (simp add: audio_inv_def audio_start_def pc_held_def pc_waiting_def pc_ok_def cmp_ok_def stopping_def bytes_ok_def
      all_whole_def queued_bytes_def pc_partial_def pc_rest_def rp)
qed

lemma reachable_inv: "(audio_step self)\<^sup>*\<^sup>* (audio_start rp) s \<Longrightarrow> audio_created rp \<Longrightarrow> audio_inv self s"
  by (induction rule: rtranclp_induct) (simp_all add: created_inv step_keeps)

lemma created_exists: "\<exists>rp. audio_created rp"
proof -
  have al: "RT_ALIGN 4096 RT_ALIGN_SIZE = 4096" by (simp add: RT_ALIGN_def RT_ALIGN_SIZE_def)
  obtain mp where "rt_mp_create True (\<lambda>_. Some 0) 2 4096 (\<lambda>_. Pool) = Some (Some mp)"
    using rt_mp_create_spec [of 2 4096 "\<lambda>_. Some 0" 0 "\<lambda>_. Pool"] by (auto simp: al)
  then have "\<exists>rp. audio_replay_init True True (\<lambda>_. Some 0) (Some (replicate 4 (0, 0))) (\<lambda>_. []) (\<lambda>_. Pool) = Some (RT_EOK, Some rp)"
    by (simp add: audio_replay_init_def RT_AUDIO_REPLAY_MP_BLOCK_SIZE_def RT_AUDIO_REPLAY_MP_BLOCK_COUNT_def)
  moreover have "length (replicate 4 (0, 0)) = unat CFG_AUDIO_REPLAY_QUEUE_COUNT" by (simp add: CFG_AUDIO_REPLAY_QUEUE_COUNT_def)
  ultimately show ?thesis unfolding audio_created_def by blast
qed

subsection \<open>No step fails but one\<close>

lemma thread_goes_on:
  assumes "audio_inv self s"
  shows "audio_thread self (s_pc s) (s_rp s) = None
    \<longleftrightarrow> s_pc s = Idle \<or> s_pc s = Stop_waiting \<or> (\<exists>buf index. s_pc s = Write_alloc_wait buf index)"
proof (cases "s_pc s")
  case (Write_test buf index)
  then show ?thesis by (simp add: audio_thread_defs split: prod.split)
next
  case (Write_alloc buf index woken)
  note i = audio_invD [OF assms Write_alloc]
  have "replay_inv [] [] (s_rp s)" using i(1,2) by (simp add: pc_held_def pc_waiting_def pc_ok_def)
  from block_allocated [OF this, of self buf index woken] show ?thesis by (auto simp: audio_thread_defs Write_alloc)
next
  case (Write_copy buf index)
  note i = audio_invD [OF assms Write_copy]
  have "replay_inv [rp_write_data (s_rp s)] [] (s_rp s)" using i(1) by (simp add: pc_held_def pc_waiting_def)
  from block_copied [OF this, of index buf] i(2) show ?thesis by (auto simp: audio_thread_defs Write_copy pc_ok_def)
next
  case (Write_push buf index woken)
  then show ?thesis by (simp add: audio_thread_defs split: dq_result.split)
next
  case (Stop_flush woken)
  then show ?thesis by (simp add: audio_thread_defs split: dq_result.split)
next
  case Stop_wait
  note i = audio_invD [OF assms Stop_wait]
  obtain c where "rp_cmp (s_rp s) = Some c" "c_suspended c = []" using i(3) by (auto simp: cmp_ok_def stopping_def)
  then show ?thesis by (simp add: audio_thread_defs Stop_wait rt_completion_wait_def)
qed (use assms in \<open>simp_all add: audio_thread_defs audio_inv_def pc_ok_def\<close>)

lemma handler_fails:
  assumes "audio_inv self s"
  shows "audio_send_replay_frame None (s_rp s) = None \<longleftrightarrow> s_pc s = Stop_init \<and> rp_cmp (s_rp s) = None \<and> items (s_rp s) = []"
proof
  assume "audio_send_replay_frame None (s_rp s) = None"
  then show "s_pc s = Stop_init \<and> rp_cmp (s_rp s) = None \<and> items (s_rp s) = []" using interrupt_runs [OF assms] by blast
next
  assume a: "s_pc s = Stop_init \<and> rp_cmp (s_rp s) = None \<and> items (s_rp s) = []"
  then have i: "replay_inv (pc_held Stop_init (s_rp s)) (pc_waiting self Stop_init) (s_rp s)" "cmp_ok self Stop_init (s_rp s)"
    using audio_invD [OF assms, of Stop_init] by simp_all
  have "ack_stop (s_rp s) = None" using a i(2) by (simp add: ack_stop_def cmp_ok_def stopping_def REPLAY_EVT_STOP_def)
  moreover have "snd (rt_data_queue_peak (rp_queue (s_rp s))) = None"
    using rt_data_queue_peak_spec [OF replay_invD(1) [OF i(1)]] a by simp
  ultimately show "audio_send_replay_frame None (s_rp s) = None" by (simp add: audio_send_replay_frame_def)
qed

subsection \<open>Waiting ends\<close>

definition audio_irq :: "nat \<Rightarrow> audio_sys \<Rightarrow> audio_sys" where
  "audio_irq self s =
     (case (s_dma s, audio_send_replay_frame None (s_rp s)) of
        (Some h, Some (result, ts, rp)) \<Rightarrow>
          s\<lparr>s_rp := rp, s_dma := Some (\<not> h), s_pc := (if self \<in> set ts then audio_resume (s_pc s) else s_pc s),
            s_frames := s_frames s @ [take 1024 (drop (unat (rp_pos (s_rp s))) (rp_buffer rp))]\<rparr>
      | _ \<Rightarrow> s)"

lemma audio_irq_step:
  assumes "s_dma s = Some h" "audio_send_replay_frame None (s_rp s) = Some (result, ts, rp)"
  shows "audio_step self s (audio_irq self s)"
  using audio_step.interrupt [OF assms, of self] assms by (simp add: audio_irq_def)

lemma queued_none:
  assumes "replay_inv held waiting rp"
  shows "queued_bytes rp = [] \<longleftrightarrow> items rp = []"
proof (cases "items rp")
  case (Cons x xs)
  note inv = replay_invD [OF assms]
  have "unat (rp_read_index rp) < snd x" "snd x \<le> 4096" "length (rp_data rp (fst x)) = 4096"
    using inv(7,8,10) sizes_ok_Cons [of x xs] by (simp_all add: Cons)
  then show ?thesis by (simp add: Cons queued_bytes_def item_bytes_def)
qed (simp add: queued_bytes_def)

lemma stop_waits:
  assumes "audio_inv self s" "s_pc s = Stop_waiting"
  shows "\<exists>n \<le> (length (queued_bytes (s_rp s)) + 1023) div 1024 + 1. s_pc ((audio_irq self ^^ n) s) = Stop_woken
    \<and> audio_inv self ((audio_irq self ^^ n) s) \<and> (audio_step self)\<^sup>*\<^sup>* s ((audio_irq self ^^ n) s)"
  using assms
proof (induction "length (queued_bytes (s_rp s))" arbitrary: s rule: less_induct)
  case less
  note i = audio_invD [OF less.prems]
  obtain h where h: "s_dma s = Some h" using i(2,4) by (auto simp: pc_ok_def)
  obtain result ts rp where run: "audio_send_replay_frame None (s_rp s) = Some (result, ts, rp)"
    using interrupt_runs [OF less.prems(1)] less.prems(2) by (cases "audio_send_replay_frame None (s_rp s)") auto
  define s' where "s' = audio_irq self s"
  have st: "audio_step self s s'" unfolding s'_def by (rule audio_irq_step [OF h run])
  have inv': "audio_inv self s'" by (rule step_keeps [OF st less.prems(1)])
  have s': "s_rp s' = rp" "s_pc s' = (if self \<in> set ts then Stop_woken else Stop_waiting)"
    by (simp_all add: s'_def audio_irq_def h run less.prems(2) audio_resume_def)
  show ?case
  proof (cases "items (s_rp s) = []")
    case True
    obtain c where c: "rp_cmp (s_rp s) = Some c" "c_suspended c = [self]" "\<not> c_flag c" "rp_event (s_rp s) = REPLAY_EVT_STOP"
      using i(3) by (auto simp: cmp_ok_def stopping_def)
    then have "ack_stop (s_rp s) = Some ([self], (s_rp s)\<lparr>rp_cmp := Some (c\<lparr>c_flag := True, c_suspended := []\<rparr>)\<rparr>)"
      by (simp add: ack_stop_def REPLAY_EVT_STOP_def rt_completion_done_def woken_threads_def)
    from frame_of_nothing [OF i(1) True this] run have "ts = [self]" by auto
    then have "s_pc s' = Stop_woken" by (simp add: s'(2))
    then show ?thesis using inv' st by (intro exI [of _ 1]) (simp add: s'_def [symmetric])
  next
    case False
    from frame_of_items [OF i(1) False] run have f: "ts = []" "frame_done (s_rp s) rp" by (auto simp: pc_waiting_def)
    have pc': "s_pc s' = Stop_waiting" by (simp add: s'(2) f(1))
    have qb: "queued_bytes (s_rp s') = drop 1024 (queued_bytes (s_rp s))" using frame_doneD(1) [OF f(2)] by (simp add: s'(1))
    have pos: "0 < length (queued_bytes (s_rp s))" using queued_none [OF i(1)] False by simp
    then have "length (queued_bytes (s_rp s')) < length (queued_bytes (s_rp s))" by (simp add: qb)
    from less.hyps [OF this inv' pc'] obtain n where n: "n \<le> (length (queued_bytes (s_rp s)) - 1024 + 1023) div 1024 + 1"
      "s_pc ((audio_irq self ^^ n) s') = Stop_woken" "audio_inv self ((audio_irq self ^^ n) s')"
      "(audio_step self)\<^sup>*\<^sup>* s' ((audio_irq self ^^ n) s')" unfolding qb length_drop by (elim exE conjE) (rule that)
    have "n + 1 \<le> (length (queued_bytes (s_rp s)) + 1023) div 1024 + 1"
    proof -
      have "(l - 1024 + 1023) div 1024 + 1 \<le> (l + 1023) div 1024" if "0 < l" for l :: nat
      proof (cases "l \<le> 1024")
        case False
        then have "l + 1023 = (l - 1024 + 1023) + 1024" by simp
        then show ?thesis by simp
      qed (use that in simp)
      from this [OF pos] show ?thesis using n(1) by linarith
    qed
    moreover have "(audio_irq self ^^ (n + 1)) s = (audio_irq self ^^ n) s'" by (simp add: s'_def funpow_swap1)
    ultimately show ?thesis using n(2-4) converse_rtranclp_into_rtranclp [of "audio_step self", OF st n(4)]
      by (intro exI [of _ "n + 1"] conjI) simp_all
  qed
qed

text \<open>A writer that waits for a block while the transmission runs gets one within four frames; one that waits before it runs never does.\<close>

lemma write_waits:
  assumes "audio_inv self s" "s_pc s = Write_alloc_wait buf index" "s_dma s = Some h"
  shows "\<exists>n \<le> (4096 - unat (rp_read_index (s_rp s))) div 1024. s_pc ((audio_irq self ^^ n) s) = Write_alloc buf index True"
  using assms
proof (induction "4096 - unat (rp_read_index (s_rp s))" arbitrary: s h rule: less_induct)
  case less
  note i = audio_invD [OF less.prems(1,2)]
  note invs = replay_invD [OF i(1)]
  let ?ri = "unat (rp_read_index (s_rp s))"
  have wi: "rp_write_index (s_rp s) = 0" "all_whole (s_rp s)" using i(2) by (simp_all add: pc_ok_def)
  have none: "block_free_count (rp_mp (s_rp s)) = 0" using invs(17) by (simp add: pc_waiting_def)
  have "items (s_rp s) \<noteq> []"
  proof
    assume "items (s_rp s) = []"
    then have "mp_inv [] (rp_mp (s_rp s))" using invs(4) wi(1) by (simp add: pc_held_def)
    then have "pool_blocks (rp_mp (s_rp s)) = {}" using none by (auto simp: mp_inv_def)
    then show False using invs(15) by simp
  qed
  then obtain a xs where it: "items (s_rp s) = (a, 4096) # xs" using wi(2) by (cases "items (s_rp s)") (auto simp: all_whole_def)
  let ?k = "length (take 1024 (queued_bytes (s_rp s)))"
  obtain result ts ri q mp where run: "audio_send_replay_frame None (s_rp s) = Some (result, ts,
      (s_rp s)\<lparr>rp_buffer := overwrite (unat (rp_pos (s_rp s))) (as_frame (take 1024 (queued_bytes (s_rp s)))) (rp_buffer (s_rp s)),
        rp_pos := (rp_pos (s_rp s) + 1024) mod 2048, rp_read_index := ri, rp_queue := q, rp_mp := mp\<rparr>)"
    and post: "if ?ri + ?k = 4096 then ts = [self] else ri = rp_read_index (s_rp s) + 1024 \<and> ts = []"
    using frame_sent [OF i(1) it] by (elim exE conjE) (rule that, auto simp: pc_waiting_def split: if_splits)
  define s' where "s' = audio_irq self s"
  have st: "audio_step self s s'" unfolding s'_def by (rule audio_irq_step [OF less.prems(3) run])
  have inv': "audio_inv self s'" by (rule step_keeps [OF st less.prems(1)])
  have s': "rp_read_index (s_rp s') = ri" "s_pc s' = (if self \<in> set ts then Write_alloc buf index True else Write_alloc_wait buf index)"
    "s_dma s' = Some (\<not> h)" by (simp_all add: s'_def audio_irq_def less.prems(2,3) run audio_resume_def)
  obtain m where m: "?ri = 1024 * m" using invs(9) by (elim dvdE)
  have "?ri < 4096" using invs(10) by (simp add: it)
  then have m4: "m < 4" using m by simp
  show ?case
  proof (cases "?ri + ?k = 4096")
    case True
    then have "s_pc s' = Write_alloc buf index True" using post by (simp add: s'(2))
    moreover have "1 \<le> (4096 - ?ri) div 1024" using m4 unfolding m by simp
    ultimately show ?thesis by (intro exI [of _ 1]) (simp add: s'_def [symmetric])
  next
    case False
    then have ri: "ri = rp_read_index (s_rp s) + 1024" "ts = []" using post by simp_all
    have u: "unat ri = ?ri + 1024" using m4 by (simp add: ri(1) unat_word_ariths m)
    have "4096 - unat (rp_read_index (s_rp s')) < 4096 - ?ri" using m4 m by (simp add: s'(1) u)
    from less.hyps [OF this inv' _ s'(3)] obtain n where n: "n \<le> (4096 - unat ri) div 1024"
      "s_pc ((audio_irq self ^^ n) s') = Write_alloc buf index True" by (auto simp: s'(1,2) ri(2))
    have "4096 - 1024 * m = (4 - m) * 1024" "4096 - (1024 * m + 1024) = (3 - m) * 1024" by simp_all
    then have "n + 1 \<le> (4096 - ?ri) div 1024" using n(1) m4 unfolding u m by simp
    moreover have "(audio_irq self ^^ (n + 1)) s = (audio_irq self ^^ n) s'" by (simp add: s'_def funpow_swap1)
    ultimately show ?thesis using n(2) by (intro exI [of _ "n + 1"]) simp
  qed
qed

lemma first_write_stuck: "s_pc s = Write_alloc_wait buf index \<Longrightarrow> s_dma s = None \<Longrightarrow> \<not> audio_step self s s'"
  by (auto simp: audio_thread_defs elim!: audio_step.cases)

text \<open>A stop in the window between its event and its completion, with nothing queued.\<close>

lemma stop_steps:
  assumes "s_pc s = Stop_flush False" "rp_write_index (s_rp s) = 0"
  shows "(audio_step self)\<^sup>*\<^sup>* s (s\<lparr>s_pc := Stop_init, s_rp := (s_rp s)\<lparr>rp_event := rp_event (s_rp s) OR REPLAY_EVT_STOP\<rparr>\<rparr>)"
proof -
  let ?s1 = "s\<lparr>s_pc := Stop_event\<rparr>"
  have "audio_step self s (s\<lparr>s_pc := Stop_event, s_rp := s_rp s, s_dma := dma_after Hw_none (s_dma s)\<rparr>)"
    by (rule audio_step.thread_runs) (simp add: assms audio_thread_defs)
  then have 1: "audio_step self s ?s1" by (simp add: dma_after_def)
  have "audio_step self ?s1 (?s1\<lparr>s_pc := Stop_init, s_rp := (s_rp s)\<lparr>rp_event := rp_event (s_rp s) OR REPLAY_EVT_STOP\<rparr>,
      s_dma := dma_after Hw_none (s_dma ?s1)\<rparr>)"
    by (rule audio_step.thread_runs) (simp add: audio_thread_defs)
  then have "audio_step self ?s1 (s\<lparr>s_pc := Stop_init, s_rp := (s_rp s)\<lparr>rp_event := rp_event (s_rp s) OR REPLAY_EVT_STOP\<rparr>\<rparr>)"
    by (simp add: dma_after_def)
  with 1 show ?thesis by (meson r_into_rtranclp rtranclp.rtrancl_into_rtrancl)
qed

lemma stop_race:
  assumes "audio_created rp"
  shows "\<exists>s. (audio_step self)\<^sup>*\<^sup>* (audio_start rp) s \<and> s_dma s \<noteq> None \<and> s_pc s = Stop_init \<and> audio_send_replay_frame None (s_rp s) = None"
proof -
  have inv: "audio_inv self (audio_start rp)" by (rule created_inv [OF assms])
  have f: "\<not> rp_activated rp" "items rp = []" "rp_write_index rp = 0"
    using audio_invD [OF inv, of Idle] by (simp_all add: audio_start_def pc_ok_def)
  have cmp: "rp_cmp rp = None" using created_parts [OF assms] by (elim exE conjE) simp
  define rp1 where "rp1 = rp\<lparr>rp_activated := True\<rparr>"
  define s1 where "s1 = (audio_start rp)\<lparr>s_rp := rp1, s_dma := Some False\<rparr>"
  have 1: "audio_step self (audio_start rp) s1"
    using audio_step.new_start [of "audio_start rp" Hw_start rp1 self] f by (simp add: s1_def rp1_def audio_start_def aduio_replay_start_def dma_after_def)
  define s2 where "s2 = s1\<lparr>s_pc := Stop_flush False\<rparr>"
  have 2: "audio_step self s1 s2"
    using audio_step.new_stop [of s1 self] by (simp add: s1_def s2_def rp1_def audio_start_def aduio_replay_stop_def)
  define s3 where "s3 = s2\<lparr>s_pc := Stop_init, s_rp := rp1\<lparr>rp_event := rp_event rp1 OR REPLAY_EVT_STOP\<rparr>\<rparr>"
  have 3: "(audio_step self)\<^sup>*\<^sup>* s2 s3"
    using stop_steps [of s2 self] f by (simp add: s3_def s2_def s1_def rp1_def)
  have reach: "(audio_step self)\<^sup>*\<^sup>* (audio_start rp) s3" using 1 2 3 by (meson converse_rtranclp_into_rtranclp)
  have "audio_inv self s3" by (rule reachable_inv [OF reach assms])
  from handler_fails [OF this] have "audio_send_replay_frame None (s_rp s3) = None"
    using cmp f by (simp add: s3_def s2_def s1_def rp1_def)
  then show ?thesis using reach by (intro exI [of _ s3]) (simp add: s3_def s2_def s1_def)
qed

subsection \<open>Properties\<close>

lemma bytes_in_order:
  assumes "audio_inv self s"
  shows "\<exists>chunks. s_frames s = map as_frame chunks \<and> (\<forall>c\<in>set chunks. length c \<le> 1024)
    \<and> concat chunks @ queued_bytes (s_rp s) @ pc_partial (s_pc s) (s_rp s) @ pc_rest (s_pc s) = s_written s
    \<and> (s_pc s = Idle \<and> \<not> rp_activated (s_rp s) \<longrightarrow> concat chunks = s_written s)"
proof -
  obtain chunks where c: "s_frames s = map as_frame chunks" "\<forall>c\<in>set chunks. length c \<le> 1024"
    "concat chunks @ queued_bytes (s_rp s) @ pc_partial (s_pc s) (s_rp s) @ pc_rest (s_pc s) = s_written s"
    using assms unfolding audio_inv_def bytes_ok_def by (elim conjE exE) (rule that)
  have "concat chunks = s_written s" if "s_pc s = Idle \<and> \<not> rp_activated (s_rp s)"
  proof -
    have "items (s_rp s) = []" "rp_write_index (s_rp s) = 0" using assms that by (simp_all add: audio_inv_def pc_ok_def)
    then show ?thesis using c(3) that by (simp add: queued_bytes_def pc_partial_def pc_rest_def)
  qed
  then show ?thesis using c by (intro exI [of _ chunks]) simp
qed

lemma stop_plays_all:
  assumes "audio_inv self s" "s_pc s = Stop_waiting"
  shows "\<exists>n \<le> (length (queued_bytes (s_rp s)) + 1023) div 1024 + 1. \<exists>chunks.
    s_pc ((audio_irq self ^^ n) s) = Stop_woken \<and> s_frames ((audio_irq self ^^ n) s) = map as_frame chunks
    \<and> concat chunks = s_written ((audio_irq self ^^ n) s) \<and> (audio_step self)\<^sup>*\<^sup>* s ((audio_irq self ^^ n) s)"
proof -
  obtain n where n: "n \<le> (length (queued_bytes (s_rp s)) + 1023) div 1024 + 1" "s_pc ((audio_irq self ^^ n) s) = Stop_woken"
    "audio_inv self ((audio_irq self ^^ n) s)" "(audio_step self)\<^sup>*\<^sup>* s ((audio_irq self ^^ n) s)"
    using stop_waits [OF assms] by (elim exE conjE) (rule that)
  let ?s = "(audio_irq self ^^ n) s"
  obtain chunks where c: "s_frames ?s = map as_frame chunks"
    "concat chunks @ queued_bytes (s_rp ?s) @ pc_partial (s_pc ?s) (s_rp ?s) @ pc_rest (s_pc ?s) = s_written ?s"
    using bytes_in_order [OF n(3)] by (elim exE conjE) (rule that)
  have "items (s_rp ?s) = []" "rp_write_index (s_rp ?s) = 0" using n(2,3) by (simp_all add: audio_inv_def pc_ok_def)
  then have "concat chunks = s_written ?s" using c(2) n(2) by (simp add: queued_bytes_def pc_partial_def pc_rest_def)
  then show ?thesis using n c(1) by blast
qed

text \<open>
  A run for the witnesses: the transmission is started, a byte is written, and a stop is asked for; the thread ends up waiting.
\<close>

lemma byte_run:
  assumes "audio_created rp"
  shows "\<exists>s. (audio_step self)\<^sup>*\<^sup>* (audio_start rp) s \<and> s_pc s = Write_test [7] 0 \<and> s_written s = [7] \<and> s_dma s = Some True \<and> length (s_frames s) = 1"
proof -
  have inv: "audio_inv self (audio_start rp)" by (rule created_inv [OF assms])
  have act: "\<not> rp_activated rp" using audio_invD(4) [OF inv refl] by (simp add: audio_start_def)
  define s1 where "s1 = (audio_start rp)\<lparr>s_rp := rp\<lparr>rp_activated := True\<rparr>, s_dma := Some False\<rparr>"
  have 1: "audio_step self (audio_start rp) s1"
    using audio_step.new_start [of "audio_start rp" Hw_start "rp\<lparr>rp_activated := True\<rparr>" self] act
    by (simp add: s1_def audio_start_def aduio_replay_start_def dma_after_def)
  have inv1: "audio_inv self s1" by (rule step_keeps [OF 1 inv])
  obtain result ts rp' where run: "audio_send_replay_frame None (s_rp s1) = Some (result, ts, rp')"
    using interrupt_runs [OF inv1] by (auto simp: s1_def audio_start_def)
  define s2 where "s2 = audio_irq self s1"
  have d: "s_dma s1 = Some False" "s_pc s1 = Idle" "s_written s1 = []" "s_frames s1 = []" by (simp_all add: s1_def audio_start_def)
  have 2: "audio_step self s1 s2" unfolding s2_def by (rule audio_irq_step [OF d(1) run])
  have s2: "s_dma s2 = Some True" "s_pc s2 = Idle" "s_written s2 = []" "length (s_frames s2) = 1"
    using d by (simp_all add: s2_def audio_irq_def run audio_resume_def)
  have 3: "audio_step self s2 (s2\<lparr>s_pc := audio_dev_write [7], s_written := s_written s2 @ [7]\<rparr>)"
    by (rule audio_step.new_write) (simp_all add: s2)
  have "(audio_step self)\<^sup>*\<^sup>* (audio_start rp) (s2\<lparr>s_pc := audio_dev_write [7], s_written := s_written s2 @ [7]\<rparr>)"
    using 1 2 3 by (meson r_into_rtranclp rtranclp.rtrancl_into_rtrancl)
  then show ?thesis by (intro exI conjI) (assumption | simp add: s2 audio_dev_write_def)+
qed

lemma waiting_run:
  assumes "audio_created rp"
  shows "\<exists>s. (audio_step self)\<^sup>*\<^sup>* (audio_start rp) s \<and> s_pc s = Stop_waiting"
proof -
  have inv: "audio_inv self (audio_start rp)" by (rule created_inv [OF assms])
  have f: "\<not> rp_activated rp" "rp_write_index rp = 0" using audio_invD [OF inv, of Idle] by (simp_all add: audio_start_def pc_ok_def)
  define rp1 where "rp1 = rp\<lparr>rp_activated := True\<rparr>"
  define s1 where "s1 = (audio_start rp)\<lparr>s_rp := rp1, s_dma := Some False\<rparr>"
  have 1: "audio_step self (audio_start rp) s1"
    using audio_step.new_start [of "audio_start rp" Hw_start rp1 self] f by (simp add: s1_def rp1_def audio_start_def aduio_replay_start_def dma_after_def)
  have 2: "audio_step self s1 (s1\<lparr>s_pc := Stop_flush False\<rparr>)"
    using audio_step.new_stop [of s1 self] by (simp add: s1_def rp1_def audio_start_def aduio_replay_stop_def)
  define rp2 where "rp2 = rp1\<lparr>rp_event := rp_event rp1 OR REPLAY_EVT_STOP\<rparr>"
  define s3 where "s3 = s1\<lparr>s_pc := Stop_init, s_rp := rp2\<rparr>"
  have 3: "(audio_step self)\<^sup>*\<^sup>* (s1\<lparr>s_pc := Stop_flush False\<rparr>) s3"
    using stop_steps [of "s1\<lparr>s_pc := Stop_flush False\<rparr>" self] f by (simp add: s3_def s1_def rp1_def rp2_def)
  define s4 where "s4 = s3\<lparr>s_pc := Stop_wait, s_rp := rp2\<lparr>rp_cmp := Some rt_completion_init\<rparr>, s_dma := dma_after Hw_none (s_dma s3)\<rparr>"
  have 4: "audio_step self s3 s4" unfolding s4_def by (rule audio_step.thread_runs) (simp add: s3_def audio_thread_defs)
  have "audio_step self s4 (s4\<lparr>s_pc := Stop_waiting, s_rp := (s_rp s4)\<lparr>rp_cmp := Some (rt_completion_init\<lparr>c_suspended := [self]\<rparr>)\<rparr>,
      s_dma := dma_after Hw_none (s_dma s4)\<rparr>)"
    by (rule audio_step.thread_runs) (simp add: s4_def audio_thread_defs rt_completion_wait_def rt_completion_init_def)
  then have "\<exists>s5. audio_step self s4 s5 \<and> s_pc s5 = Stop_waiting" by (intro exI conjI) (assumption | simp)+
  moreover have "(audio_step self)\<^sup>*\<^sup>* (audio_start rp) s4"
    using 1 2 3 4 by (meson converse_rtranclp_into_rtranclp rtranclp.rtrancl_into_rtrancl)
  ultimately show ?thesis by (meson rtranclp.rtrancl_into_rtrancl)
qed

text \<open>
  C9. Whatever is written to the sound device, in any order in which the writing thread and the interrupt of the transmission come,
  with any number of openings, starts and stops: the frames handed to the transmission are the bytes written, in order, cut into pieces of
  at most 1024 bytes and filled up with zeros, and the bytes that are not in a frame yet are those in the queue, in the block being filled and in
  the rest of the caller's buffer. When the device is stopped, every byte has been in a frame.
\<close>

theorem audio_bytes_in_order:
  assumes "audio_created rp" "(audio_step self)\<^sup>*\<^sup>* (audio_start rp) s"
  shows "\<exists>chunks. s_frames s = map as_frame chunks \<and> (\<forall>c\<in>set chunks. length c \<le> 1024)
    \<and> concat chunks @ queued_bytes (s_rp s) @ pc_partial (s_pc s) (s_rp s) @ pc_rest (s_pc s) = s_written s
    \<and> (s_pc s = Idle \<and> \<not> rp_activated (s_rp s) \<longrightarrow> concat chunks = s_written s)"
  by (rule bytes_in_order [OF reachable_inv [OF assms(2,1)]])

lemma audio_bytes_in_order_witness:
  "\<exists>rp s. audio_created rp \<and> (audio_step 1)\<^sup>*\<^sup>* (audio_start rp) s \<and> s_written s = [7] \<and> length (s_frames s) = 1
    \<and> (\<exists>chunks. s_frames s = map as_frame chunks \<and> concat chunks @ queued_bytes (s_rp s) @ pc_partial (s_pc s) (s_rp s) @ pc_rest (s_pc s) = [7])"
proof -
  obtain rp where rp: "audio_created rp" using created_exists ..
  obtain s where s: "(audio_step 1)\<^sup>*\<^sup>* (audio_start rp) s" "s_written s = [7]" "length (s_frames s) = 1"
    using byte_run [OF rp, of 1] by (elim exE conjE) (rule that)
  obtain chunks where "s_frames s = map as_frame chunks"
    "concat chunks @ queued_bytes (s_rp s) @ pc_partial (s_pc s) (s_rp s) @ pc_rest (s_pc s) = [7]"
    using audio_bytes_in_order [OF rp s(1)] unfolding s(2) by (elim exE conjE) (rule that)
  then show ?thesis using rp s by (intro exI [of _ rp] exI [of _ s] conjI) (simp_all, blast)
qed

text \<open>
  C10. In every state the sound device can reach, the interrupt handler runs without touching memory that is not its own, with one
  exception: it comes after a stop has set its event and before the first stop ever has set up the completion, with nothing queued; then
  it signals a completion whose list is all zero. The writing thread never fails either, and it never waits for room in the queue: it can
  go on unless it has nothing to do, waits for a block or waits for the last frame.
\<close>

theorem audio_never_fails_but:
  assumes "audio_created rp" "(audio_step self)\<^sup>*\<^sup>* (audio_start rp) s"
  shows "(audio_send_replay_frame None (s_rp s) = None
      \<longleftrightarrow> s_pc s = Stop_init \<and> rp_cmp (s_rp s) = None \<and> rt_data_queue_peak (rp_queue (s_rp s)) = (RT_EEMPTY, None))
    \<and> (audio_thread self (s_pc s) (s_rp s) = None
      \<longleftrightarrow> s_pc s = Idle \<or> s_pc s = Stop_waiting \<or> (\<exists>buf index. s_pc s = Write_alloc_wait buf index))"
proof
  have inv: "audio_inv self s" by (rule reachable_inv [OF assms(2,1)])
  have "dq_inv (rp_queue (s_rp s))" using inv replay_invD(1) unfolding audio_inv_def by blast
  then have "(rt_data_queue_peak (rp_queue (s_rp s)) = (RT_EEMPTY, None)) = (items (s_rp s) = [])"
    using rt_data_queue_peak_spec [of "rp_queue (s_rp s)"] by (cases "items (s_rp s)") simp_all
  then show "audio_send_replay_frame None (s_rp s) = None
      \<longleftrightarrow> s_pc s = Stop_init \<and> rp_cmp (s_rp s) = None \<and> rt_data_queue_peak (rp_queue (s_rp s)) = (RT_EEMPTY, None)"
    using handler_fails [OF inv] by simp
  show "audio_thread self (s_pc s) (s_rp s) = None
      \<longleftrightarrow> s_pc s = Idle \<or> s_pc s = Stop_waiting \<or> (\<exists>buf index. s_pc s = Write_alloc_wait buf index)"
    by (rule thread_goes_on [OF inv])
qed

lemma audio_never_fails_but_witness:
  "\<exists>rp s. audio_created rp \<and> (audio_step 1)\<^sup>*\<^sup>* (audio_start rp) s \<and> s_pc s = Write_test [7] 0
    \<and> audio_send_replay_frame None (s_rp s) \<noteq> None \<and> audio_thread 1 (s_pc s) (s_rp s) \<noteq> None"
proof -
  obtain rp where rp: "audio_created rp" using created_exists ..
  obtain s where s: "(audio_step 1)\<^sup>*\<^sup>* (audio_start rp) s" "s_pc s = Write_test [7] 0"
    using byte_run [OF rp, of 1] by (elim exE conjE) (rule that)
  show ?thesis using audio_never_fails_but [OF rp s(1)] rp s by (intro exI [of _ rp] exI [of _ s] conjI) simp_all
qed

text \<open>
  C11. A stop ends: from any reachable state in which the thread waits for the last frame, it is released after at most one interrupt for every 1024 bytes that
  are still queued and one more, and by then every byte that was written has been put into a frame of the transmit buffer. (The stop then ends the
  transmission, so that the last frame, handed over by the interrupt that releases the thread, need not be heard.)
\<close>

theorem audio_stop_ends:
  assumes "audio_created rp" "(audio_step self)\<^sup>*\<^sup>* (audio_start rp) s" "s_pc s = Stop_waiting"
  shows "\<exists>n \<le> (length (queued_bytes (s_rp s)) + 1023) div 1024 + 1. \<exists>chunks.
    s_pc ((audio_irq self ^^ n) s) = Stop_woken \<and> s_frames ((audio_irq self ^^ n) s) = map as_frame chunks
    \<and> concat chunks = s_written ((audio_irq self ^^ n) s) \<and> (audio_step self)\<^sup>*\<^sup>* s ((audio_irq self ^^ n) s)"
  by (rule stop_plays_all [OF reachable_inv [OF assms(2,1)] assms(3)])

lemma audio_stop_ends_witness:
  "\<exists>rp s n. audio_created rp \<and> (audio_step 1)\<^sup>*\<^sup>* (audio_start rp) s \<and> s_pc s = Stop_waiting \<and> s_pc ((audio_irq 1 ^^ n) s) = Stop_woken"
proof -
  obtain rp where rp: "audio_created rp" using created_exists ..
  obtain s where s: "(audio_step 1)\<^sup>*\<^sup>* (audio_start rp) s" "s_pc s = Stop_waiting"
    using waiting_run [OF rp, of 1] by (elim exE conjE)
  obtain n where "s_pc ((audio_irq 1 ^^ n) s) = Stop_woken"
    using audio_stop_ends [OF rp s] by (elim exE conjE) (rule that)
  then show ?thesis using rp s by blast
qed

end
