(* ===== verification/PlaySong.thy ===== *)
theory PlaySong
  imports WavPlayer AudioPlay
begin

text \<open>
  The player of \<open>WavPlayer\<close> on the sound device of \<open>AudioDev\<close>: its device calls carried out one after the other, with the interrupt of the
  transmission coming at any time in between, from the file down to the frames of the transmit buffer.
\<close>

subsection \<open>The device calls of the player\<close>

text \<open>What goes on while a call is carried out: the thread in the device and the interrupt.\<close>

inductive audio_bg :: "nat \<Rightarrow> audio_sys \<Rightarrow> audio_sys \<Rightarrow> bool" for self :: nat where
  bg_thread: "audio_thread self (s_pc s) (s_rp s) = Some (hw, pc, rp) \<Longrightarrow>
    audio_bg self s (s\<lparr>s_pc := pc, s_rp := rp, s_dma := dma_after hw (s_dma s)\<rparr>)"
| bg_interrupt: "s_dma s = Some h \<Longrightarrow> audio_send_replay_frame None (s_rp s) = Some r \<Longrightarrow> audio_bg self s (audio_irq self s)"

text \<open>The beginning of a call; configuration and volume do not touch the stream.\<close>

definition begin_effect :: "effect \<Rightarrow> audio_sys \<Rightarrow> audio_sys" where
  "begin_effect e s =
     (case e of
        Dev_open \<Rightarrow> s\<lparr>s_rp := audio_replay_open (s_rp s)\<rparr>
      | Dev_close \<Rightarrow> s\<lparr>s_pc := aduio_replay_stop (s_rp s)\<rparr>
      | Dev_write buf \<Rightarrow> s\<lparr>s_pc := audio_dev_write buf, s_written := s_written s @ buf\<rparr>
      | _ \<Rightarrow> s)"

fun device_does :: "nat \<Rightarrow> effect list \<Rightarrow> audio_sys \<Rightarrow> audio_sys \<Rightarrow> bool" where
  "device_does self [] s s' \<longleftrightarrow> s' = s"
| "device_does self (e # es) s s' \<longleftrightarrow>
     (\<exists>s1. (audio_bg self)\<^sup>*\<^sup>* (begin_effect e s) s1 \<and> s_pc s1 = Idle \<and> device_does self es s1 s')"

definition bytes_of :: "effect \<Rightarrow> u8 list" where
  "bytes_of e = (case e of Dev_write buf \<Rightarrow> buf | _ \<Rightarrow> [])"

lemma bg_is_step: "audio_bg self s s' \<Longrightarrow> audio_step self s s' \<and> s_written s' = s_written s"
proof (induction rule: audio_bg.cases)
  case (bg_thread s hw pc rp)
  then show ?case by (simp add: audio_step.thread_runs)
next
  case (bg_interrupt s h r)
  then show ?case using audio_irq_step [of s h "fst r" "fst (snd r)" "snd (snd r)" self] by (simp add: audio_irq_def split: prod.split)
qed

lemma bg_are_steps: "(audio_bg self)\<^sup>*\<^sup>* s s' \<Longrightarrow> (audio_step self)\<^sup>*\<^sup>* s s' \<and> s_written s' = s_written s"
  by (induction rule: rtranclp_induct) (auto dest: bg_is_step)

lemma begin_step:
  assumes "s_pc s = Idle" "length (bytes_of e) < 2 ^ 16"
  shows "(audio_step self)\<^sup>*\<^sup>* s (begin_effect e s) \<and> s_written (begin_effect e s) = s_written s @ bytes_of e"
  using audio_step.open_dev [OF assms(1), of self] audio_step.new_stop [OF assms(1), of self] audio_step.new_write [OF assms(1), of _ self] assms(2)
  by (cases e) (auto simp: begin_effect_def bytes_of_def)

lemma device_does_steps:
  assumes "device_does self es s s'" "s_pc s = Idle" "\<forall>e\<in>set es. length (bytes_of e) < 2 ^ 16"
  shows "(audio_step self)\<^sup>*\<^sup>* s s' \<and> s_pc s' = Idle \<and> s_written s' = s_written s @ concat (map bytes_of es)"
  using assms
proof (induction es arbitrary: s)
  case (Cons e es)
  then obtain s1 where s1: "(audio_bg self)\<^sup>*\<^sup>* (begin_effect e s) s1" "s_pc s1 = Idle" "device_does self es s1 s'" by auto
  have b: "(audio_step self)\<^sup>*\<^sup>* s (begin_effect e s)" "s_written (begin_effect e s) = s_written s @ bytes_of e"
    using begin_step [OF Cons.prems(2), of e self] Cons.prems(3) by simp_all
  have g: "(audio_step self)\<^sup>*\<^sup>* (begin_effect e s) s1" "s_written s1 = s_written (begin_effect e s)"
    using bg_are_steps [OF s1(1)] by simp_all
  have c: "(audio_step self)\<^sup>*\<^sup>* s1 s'" "s_pc s' = Idle" "s_written s' = s_written s1 @ concat (map bytes_of es)"
    using Cons.IH [OF s1(3,2)] Cons.prems(3) by simp_all
  then show ?case using b g rtranclp_trans [OF rtranclp_trans [OF b(1) g(1)] c(1)] by simp
qed simp

lemma device_does_append:
  "device_does self (es @ es') s s' \<longleftrightarrow> (\<exists>s1. device_does self es s s1 \<and> device_does self es' s1 s')"
  by (induction es arbitrary: s) (simp, fastforce)

subsection \<open>Every call ends\<close>

text \<open>How much of a write is left: bytes to copy with the place in the loop, then bytes queued before a waiting writer is served.\<close>

definition in_loop :: "audio_pc \<Rightarrow> nat" where
  "in_loop pc =
     (case pc of
        Write_test buf index \<Rightarrow> 4 * (length buf - unat index) + 3
      | Write_alloc buf index _ \<Rightarrow> 4 * (length buf - unat index) + 2
      | Write_alloc_wait buf index \<Rightarrow> 4 * (length buf - unat index) + 2
      | Write_copy buf index \<Rightarrow> 4 * (length buf - unat index) + 1
      | Write_push buf index _ \<Rightarrow> 4 * (length buf - unat index) + 4
      | _ \<Rightarrow> 0)"

definition waits :: "audio_pc \<Rightarrow> nat" where
  "waits pc = (case pc of Write_alloc_wait _ _ \<Rightarrow> 0 | _ \<Rightarrow> 1)"

definition writing :: "audio_pc \<Rightarrow> bool" where
  "writing pc \<longleftrightarrow> in_loop pc \<noteq> 0"

text \<open>The transmission runs, or nothing is queued and what is written fits into the block at hand.\<close>

definition can_write :: "audio_sys \<Rightarrow> bool" where
  "can_write s \<longleftrightarrow> s_dma s \<noteq> None
     \<or> items (s_rp s) = [] \<and> unat (rp_write_index (s_rp s)) + length (pc_rest (s_pc s)) < 4096 \<and> (\<forall>b i w. s_pc s \<noteq> Write_push b i w)
       \<and> (\<forall>b i. s_pc s \<noteq> Write_alloc_wait b i)"

lemma free_block:
  assumes "replay_inv [] [] rp" "items rp = []"
  shows "block_free_count (rp_mp rp) \<noteq> 0"
proof
  assume "block_free_count (rp_mp rp) = 0"
  moreover have "mp_inv [] (rp_mp rp)" using replay_invD(4) [OF assms(1)] assms(2) by simp
  ultimately have "pool_blocks (rp_mp rp) = {}" by (auto simp: mp_inv_def)
  then show False using replay_invD(15) [OF assms(1)] by simp
qed

lemma write_step:
  assumes inv: "audio_inv self s" and pc: "writing (s_pc s)" and nw: "\<forall>b i. s_pc s \<noteq> Write_alloc_wait b i" and can: "can_write s"
  shows "\<exists>hw pc rp. audio_thread self (s_pc s) (s_rp s) = Some (hw, pc, rp)
    \<and> (pc = Idle \<and> dma_after hw (s_dma s) \<noteq> None
       \<or> writing pc \<and> can_write (s\<lparr>s_pc := pc, s_rp := rp, s_dma := dma_after hw (s_dma s)\<rparr>)
         \<and> (in_loop pc < in_loop (s_pc s) \<or> in_loop pc = in_loop (s_pc s) \<and> queued_bytes rp = queued_bytes (s_rp s) \<and> waits pc < waits (s_pc s)))"
proof (cases "s_pc s")
  case (Write_test buf index)
  note i = audio_invD [OF inv Write_test]
  have ix: "unat index \<le> length buf" using i(2) by (simp add: pc_ok_def)
  show ?thesis
  proof (cases "unat index < length buf")
    case True
    then show ?thesis using can by (simp add: Write_test audio_thread_defs can_write_def in_loop_def writing_def dma_after_def pc_rest_def)
  next
    case False
    obtain hw rp where st: "aduio_replay_start (s_rp s) = (hw, rp)" by force
    then have "dma_after hw (s_dma s) \<noteq> None" using i(4) by (auto simp: aduio_replay_start_def dma_after_def split: if_splits)
    then show ?thesis using False by (simp add: Write_test audio_thread_defs st)
  qed
next
  case (Write_alloc buf index woken)
  note i = audio_invD [OF inv Write_alloc]
  have ok: "rp_write_index (s_rp s) = 0" "unat index < length buf" using i(2) by (simp_all add: pc_ok_def)
  have r: "replay_inv [] [] (s_rp s)" using i(1) ok(1) by (simp add: pc_held_def pc_waiting_def)
  from block_allocated [OF r, of self buf index woken] consider
      rp where "write_alloc self buf index woken (s_rp s) = Some (Write_alloc_wait buf index, rp)" "rp = (s_rp s)\<lparr>rp_mp := rp_mp rp\<rparr>"
    | rp where "write_alloc self buf index woken (s_rp s) = Some (Write_copy buf index, rp)" "items rp = items (s_rp s)"
        "rp = (s_rp s)\<lparr>rp_mp := rp_mp rp, rp_write_data := rp_write_data rp, rp_data := rp_data rp\<rparr>" by blast
  then show ?thesis
  proof cases
    case (1 rp)
    have "s_dma s \<noteq> None"
    proof
      assume "s_dma s = None"
      then have "items (s_rp s) = []" using can by (simp add: can_write_def)
      then have "0 < block_free_count (rp_mp (s_rp s))" using free_block [OF r] by simp
      from rt_mp_alloc_spec [OF replay_invD(4) [OF r] this, of self "- 1"] 1(1) show False
        by (cases woken) (auto simp: write_alloc_def rt_mp_alloc_resumed_def)
    qed
    moreover have "queued_bytes rp = queued_bytes (s_rp s)"
      by (subst 1(2)) (simp add: queued_bytes_def item_bytes_def [abs_def])
    ultimately show ?thesis using 1(1)
      by (simp add: Write_alloc audio_thread_defs can_write_def in_loop_def writing_def dma_after_def waits_def)
  next
    case (2 rp)
    have "rp_write_index rp = 0" using ok(1) by (subst 2(3)) simp
    then show ?thesis using 2(1,2) can ok(1)
      by (simp add: Write_alloc audio_thread_defs can_write_def in_loop_def writing_def dma_after_def pc_rest_def)
  qed
next
  case (Write_copy buf index)
  note i = audio_invD [OF inv Write_copy]
  let ?wi = "unat (rp_write_index (s_rp s))" and ?m = "min (4096 - unat (rp_write_index (s_rp s))) (length buf - unat index)"
  have ok: "?wi < 4096" "unat index < length buf" "length buf < 2 ^ 16" using i(2) by (simp_all add: pc_ok_def)
  have r: "replay_inv [rp_write_data (s_rp s)] [] (s_rp s)" using i(1) by (simp add: pc_held_def pc_waiting_def)
  obtain index' rp where c: "write_copy buf index (s_rp s) = Some (if rp_write_index rp = 0 then Write_push buf index' False else Write_test buf index', rp)"
    "unat index' = unat index + ?m" "rp = (s_rp s)\<lparr>rp_data := rp_data rp, rp_write_index := rp_write_index rp\<rparr>"
    "unat (rp_write_index rp) = (?wi + ?m) mod 4096"
    using block_copied [OF r ok] by (elim exE conjE) (rule that)
  have it: "items rp = items (s_rp s)" by (subst c(3)) simp
  have m: "0 < ?m" "unat index + ?m \<le> length buf" using ok by simp_all
  have lp: "4 * (length buf - unat index') + 4 < 4 * (length buf - unat index) + 1"
    using m unfolding c(2) by linarith
  have cw: "can_write (s\<lparr>s_pc := (if rp_write_index rp = 0 then Write_push buf index' False else Write_test buf index'), s_rp := rp,
      s_dma := dma_after Hw_none (s_dma s)\<rparr>)"
  proof (cases "s_dma s = None")
    case True
    then have f: "items (s_rp s) = []" "?wi + (length buf - unat index) < 4096"
      using can by (simp_all add: can_write_def Write_copy pc_rest_def)
    then have me: "?m = length buf - unat index" by simp
    then have w: "unat (rp_write_index rp) = ?wi + (length buf - unat index)" using f(2) c(4) by simp
    then have "rp_write_index rp \<noteq> 0" using ok(2) by (auto simp: unat_eq_0 [symmetric])
    moreover have "unat index' = length buf" using c(2) me ok(2) by simp
    ultimately show ?thesis using True f w by (simp add: can_write_def it pc_rest_def)
  qed (simp add: can_write_def dma_after_def)
  have "audio_thread self (s_pc s) (s_rp s)
      = Some (Hw_none, if rp_write_index rp = 0 then Write_push buf index' False else Write_test buf index', rp)"
    by (simp add: Write_copy audio_thread_defs c(1))
  then show ?thesis using cw lp
    by (intro exI [of _ Hw_none] exI [of _ "if rp_write_index rp = 0 then Write_push buf index' False else Write_test buf index'"] exI [of _ rp])
      (simp add: Write_copy in_loop_def writing_def)
next
  case (Write_push buf index woken)
  note i = audio_invD [OF inv Write_push]
  have d: "s_dma s \<noteq> None" using can Write_push unfolding can_write_def by blast
  obtain hw pc rp where t: "audio_thread self (s_pc s) (s_rp s) = Some (hw, pc, rp)"
    using thread_goes_on [OF inv] by (cases "audio_thread self (s_pc s) (s_rp s)") (auto simp: Write_push)
  have "audio_inv self (s\<lparr>s_pc := pc, s_rp := rp, s_dma := dma_after hw (s_dma s)\<rparr>)" by (rule thread_keeps [OF inv t])
  then have "pc_ok pc rp" by (simp add: audio_inv_def)
  then have "hw = Hw_none \<and> pc = Write_test buf index"
    using t by (auto simp: Write_push audio_thread_defs pc_ok_def split: dq_result.splits)
  then show ?thesis using t d by (simp add: Write_push can_write_def in_loop_def writing_def dma_after_def)
qed (use pc nw in \<open>simp_all add: writing_def in_loop_def\<close>)

lemma write_ends:
  assumes "audio_inv self s" "writing (s_pc s)" "can_write s"
  shows "\<exists>s'. (audio_bg self)\<^sup>*\<^sup>* s s' \<and> s_pc s' = Idle \<and> s_dma s' \<noteq> None"
  using assms
proof (induction s rule: wf_induct_rule [OF wf_measures
    [of "[\<lambda>s. in_loop (s_pc s), \<lambda>s. length (queued_bytes (s_rp s)), \<lambda>s. waits (s_pc s)]"]])
  case (1 s)
  show ?case
  proof (cases "\<exists>b i. s_pc s = Write_alloc_wait b i")
    case True
    then obtain buf index where pc: "s_pc s = Write_alloc_wait buf index" by blast
    note i = audio_invD [OF 1(2) pc]
    obtain h where h: "s_dma s = Some h" using 1(4) pc by (auto simp: can_write_def)
    obtain r where run: "audio_send_replay_frame None (s_rp s) = Some r"
      using interrupt_runs [OF 1(2)] pc by (cases "audio_send_replay_frame None (s_rp s)") auto
    obtain result ts rp where r: "r = (result, ts, rp)" by (cases r)
    have it: "items (s_rp s) \<noteq> []"
    proof
      assume "items (s_rp s) = []"
      moreover have "rp_write_index (s_rp s) = 0" using i(2) by (simp add: pc_ok_def)
      ultimately have "mp_inv [] (rp_mp (s_rp s))" using replay_invD(4) [OF i(1)] by (simp add: pc_held_def)
      moreover have "block_free_count (rp_mp (s_rp s)) = 0" using replay_invD(17) [OF i(1)] by (simp add: pc_waiting_def)
      ultimately have "pool_blocks (rp_mp (s_rp s)) = {}" by (auto simp: mp_inv_def)
      then show False using replay_invD(15) [OF i(1)] by simp
    qed
    define s' where "s' = audio_irq self s"
    have st: "audio_bg self s s'" unfolding s'_def by (rule audio_bg.bg_interrupt [OF h run])
    have inv': "audio_inv self s'" using bg_is_step [OF st] step_keeps [OF _ 1(2)] by blast
    have f: "s_rp s' = rp" "s_dma s' = Some (\<not> h)" "s_pc s' = Write_alloc_wait buf index \<or> s_pc s' = Write_alloc buf index True"
      by (simp_all add: s'_def audio_irq_def h run r pc audio_resume_def)
    have "frame_done (s_rp s) rp" using frame_of_items [OF i(1) it] run r by auto
    then have "length (queued_bytes (s_rp s')) < length (queued_bytes (s_rp s))"
      using queued_none [OF i(1)] it frame_doneD(1) by (simp add: f(1))
    moreover have "in_loop (s_pc s') = in_loop (s_pc s)" using f(3) pc by (auto simp: in_loop_def)
    ultimately have "(s', s) \<in> measures [\<lambda>s. in_loop (s_pc s), \<lambda>s. length (queued_bytes (s_rp s)), \<lambda>s. waits (s_pc s)]" by simp
    moreover have "writing (s_pc s')" using f(3) by (auto simp: writing_def in_loop_def)
    moreover have "can_write s'" by (simp add: can_write_def f(2))
    ultimately obtain s'' where "(audio_bg self)\<^sup>*\<^sup>* s' s''" "s_pc s'' = Idle" "s_dma s'' \<noteq> None" using 1(1) inv' by blast
    then show ?thesis using converse_rtranclp_into_rtranclp [of "audio_bg self", OF st] by blast
  next
    case False
    then have nw: "\<forall>b i. s_pc s \<noteq> Write_alloc_wait b i" by blast
    from write_step [OF 1(2,3) nw 1(4)] obtain hw pc rp where t: "audio_thread self (s_pc s) (s_rp s) = Some (hw, pc, rp)"
      and post: "pc = Idle \<and> dma_after hw (s_dma s) \<noteq> None
       \<or> writing pc \<and> can_write (s\<lparr>s_pc := pc, s_rp := rp, s_dma := dma_after hw (s_dma s)\<rparr>)
         \<and> (in_loop pc < in_loop (s_pc s) \<or> in_loop pc = in_loop (s_pc s) \<and> queued_bytes rp = queued_bytes (s_rp s) \<and> waits pc < waits (s_pc s))"
      by (elim exE conjE) (rule that)
    define s' where "s' = s\<lparr>s_pc := pc, s_rp := rp, s_dma := dma_after hw (s_dma s)\<rparr>"
    have st: "audio_bg self s s'" unfolding s'_def by (rule audio_bg.bg_thread [OF t])
    have inv': "audio_inv self s'" unfolding s'_def by (rule thread_keeps [OF 1(2) t])
    show ?thesis
    proof (cases "pc = Idle")
      case True
      then have "s_pc s' = Idle" "s_dma s' \<noteq> None" using post by (auto simp: s'_def writing_def in_loop_def)
      then show ?thesis using st by blast
    next
      case False
      then have "(s', s) \<in> measures [\<lambda>s. in_loop (s_pc s), \<lambda>s. length (queued_bytes (s_rp s)), \<lambda>s. waits (s_pc s)]"
        "writing (s_pc s')" "can_write s'" using post by (auto simp: s'_def)
      then obtain s'' where "(audio_bg self)\<^sup>*\<^sup>* s' s''" "s_pc s'' = Idle" "s_dma s'' \<noteq> None" using 1(1) inv' by blast
      then show ?thesis using converse_rtranclp_into_rtranclp [of "audio_bg self", OF st] by blast
    qed
  qed
qed

text \<open>A stop ends with the transmission off.\<close>

definition in_stop :: "audio_pc \<Rightarrow> nat" where
  "in_stop pc =
     (case pc of
        Stop_flush _ \<Rightarrow> 9 | Stop_event \<Rightarrow> 8 | Stop_init \<Rightarrow> 7 | Stop_wait \<Rightarrow> 6 | Stop_waiting \<Rightarrow> 5 | Stop_woken \<Rightarrow> 4 | Stop_clear \<Rightarrow> 3
      | Stop_hw \<Rightarrow> 2 | _ \<Rightarrow> 0)"

lemma irq_run_bg:
  assumes "audio_inv self s" "s_pc s = Stop_waiting"
  shows "\<exists>s'. (audio_bg self)\<^sup>*\<^sup>* s s' \<and> s_pc s' = Stop_woken \<and> audio_inv self s'"
  using assms
proof (induction "length (queued_bytes (s_rp s))" arbitrary: s rule: less_induct)
  case less
  note i = audio_invD [OF less.prems]
  obtain h where h: "s_dma s = Some h" using i(2,4) by (auto simp: pc_ok_def)
  obtain r where run: "audio_send_replay_frame None (s_rp s) = Some r"
    using interrupt_runs [OF less.prems(1)] less.prems(2) by (cases "audio_send_replay_frame None (s_rp s)") auto
  obtain result ts rp where r: "r = (result, ts, rp)" by (cases r)
  define s' where "s' = audio_irq self s"
  have st: "audio_bg self s s'" unfolding s'_def by (rule audio_bg.bg_interrupt [OF h run])
  have inv': "audio_inv self s'" using bg_is_step [OF st] step_keeps [OF _ less.prems(1)] by blast
  have f: "s_rp s' = rp" "s_pc s' = (if self \<in> set ts then Stop_woken else Stop_waiting)"
    by (simp_all add: s'_def audio_irq_def h run r less.prems(2) audio_resume_def)
  show ?case
  proof (cases "self \<in> set ts")
    case True
    then show ?thesis using st inv' f(2) by auto
  next
    case False
    have it: "items (s_rp s) \<noteq> []"
    proof
      assume it: "items (s_rp s) = []"
      obtain c where "rp_cmp (s_rp s) = Some c" "c_suspended c = [self]" "\<not> c_flag c" "rp_event (s_rp s) = REPLAY_EVT_STOP"
        using i(3) by (auto simp: cmp_ok_def stopping_def)
      then have "ack_stop (s_rp s) = Some ([self], (s_rp s)\<lparr>rp_cmp := Some (c\<lparr>c_flag := True, c_suspended := []\<rparr>)\<rparr>)"
        by (simp add: ack_stop_def REPLAY_EVT_STOP_def rt_completion_done_def woken_threads_def)
      from frame_of_nothing [OF i(1) it this] run r False show False by auto
    qed
    have "frame_done (s_rp s) rp" using frame_of_items [OF i(1) it] run r by auto
    then have "length (queued_bytes (s_rp s')) < length (queued_bytes (s_rp s))"
      using queued_none [OF i(1)] it frame_doneD(1) by (simp add: f(1))
    from less.hyps [OF this inv'] f(2) False obtain s'' where "(audio_bg self)\<^sup>*\<^sup>* s' s''" "s_pc s'' = Stop_woken" "audio_inv self s''" by auto
    then show ?thesis using converse_rtranclp_into_rtranclp [of "audio_bg self", OF st] by blast
  qed
qed

lemma stop_step:
  assumes inv: "audio_inv self s" and pc: "in_stop (s_pc s) \<noteq> 0" "s_pc s \<noteq> Stop_waiting"
  shows "\<exists>hw pc rp. audio_thread self (s_pc s) (s_rp s) = Some (hw, pc, rp) \<and> (pc = Idle \<or> in_stop pc \<noteq> 0 \<and> in_stop pc < in_stop (s_pc s))"
proof -
  obtain hw pc rp where t: "audio_thread self (s_pc s) (s_rp s) = Some (hw, pc, rp)"
    using thread_goes_on [OF inv] pc by (cases "audio_thread self (s_pc s) (s_rp s)") (auto simp: in_stop_def)
  have "audio_inv self (s\<lparr>s_pc := pc, s_rp := rp, s_dma := dma_after hw (s_dma s)\<rparr>)" by (rule thread_keeps [OF inv t])
  then have "pc_ok pc rp" by (simp add: audio_inv_def)
  then have "pc = Idle \<or> in_stop pc \<noteq> 0 \<and> in_stop pc < in_stop (s_pc s)"
    using t pc by (cases "s_pc s")
      (auto simp: audio_thread_defs in_stop_def pc_ok_def split: if_splits dq_result.splits option.splits completion_wait.splits)
  then show ?thesis using t by blast
qed

lemma stop_reaches_idle:
  assumes "audio_inv self s" "in_stop (s_pc s) \<noteq> 0"
  shows "\<exists>s'. (audio_bg self)\<^sup>*\<^sup>* s s' \<and> s_pc s' = Idle"
  using assms
proof (induction "in_stop (s_pc s)" arbitrary: s rule: less_induct)
  case less
  show ?case
  proof (cases "s_pc s = Stop_waiting")
    case True
    obtain s' where s': "(audio_bg self)\<^sup>*\<^sup>* s s'" "s_pc s' = Stop_woken" "audio_inv self s'" using irq_run_bg [OF less.prems(1) True] by blast
    then have "in_stop (s_pc s') < in_stop (s_pc s)" "in_stop (s_pc s') \<noteq> 0" using True by (simp_all add: in_stop_def)
    from less.hyps [OF this(1) s'(3) this(2)] s'(1) show ?thesis by (meson rtranclp_trans)
  next
    case False
    obtain hw pc rp where t: "audio_thread self (s_pc s) (s_rp s) = Some (hw, pc, rp)"
      "pc = Idle \<or> in_stop pc \<noteq> 0 \<and> in_stop pc < in_stop (s_pc s)" using stop_step [OF less.prems False] by blast
    define s' where "s' = s\<lparr>s_pc := pc, s_rp := rp, s_dma := dma_after hw (s_dma s)\<rparr>"
    have st: "audio_bg self s s'" unfolding s'_def by (rule audio_bg.bg_thread [OF t(1)])
    have inv': "audio_inv self s'" unfolding s'_def by (rule thread_keeps [OF less.prems(1) t(1)])
    show ?thesis
    proof (cases "pc = Idle")
      case True
      then show ?thesis using st by (intro exI [of _ s']) (simp add: s'_def r_into_rtranclp)
    next
      case False
      then have "in_stop (s_pc s') < in_stop (s_pc s)" "in_stop (s_pc s') \<noteq> 0" using t(2) by (simp_all add: s'_def)
      from less.hyps [OF this(1) inv' this(2)] show ?thesis using converse_rtranclp_into_rtranclp [of "audio_bg self", OF st] by blast
    qed
  qed
qed

text \<open>Wherever a stop comes back, the device is off.\<close>

lemma stopped_off:
  assumes "(audio_bg self)\<^sup>*\<^sup>* s s'" "audio_inv self s" "in_stop (s_pc s) \<noteq> 0 \<or> s_pc s = Idle \<and> \<not> rp_activated (s_rp s)"
  shows "audio_inv self s' \<and> (in_stop (s_pc s') \<noteq> 0 \<or> s_pc s' = Idle \<and> \<not> rp_activated (s_rp s'))"
  using assms
proof (induction rule: rtranclp_induct)
  case (step s1 s2)
  then have inv: "audio_inv self s1" and pc: "in_stop (s_pc s1) \<noteq> 0 \<or> s_pc s1 = Idle \<and> \<not> rp_activated (s_rp s1)" by simp_all
  have inv2: "audio_inv self s2" using bg_is_step [OF step.hyps(2)] step_keeps [OF _ inv] by blast
  from step.hyps(2) have "in_stop (s_pc s2) \<noteq> 0 \<or> s_pc s2 = Idle \<and> \<not> rp_activated (s_rp s2)"
  proof (cases rule: audio_bg.cases)
    case (bg_thread hw pc' rp)
    have "in_stop (s_pc s1) \<noteq> 0" "s_pc s1 \<noteq> Stop_waiting" using bg_thread(2) pc by (auto simp: audio_thread_defs)
    from stop_step [OF inv this] bg_thread(2) have "pc' = Idle \<or> in_stop pc' \<noteq> 0" by auto
    moreover have "\<not> rp_activated rp" if "pc' = Idle"
      using bg_thread(2) that \<open>in_stop (s_pc s1) \<noteq> 0\<close> by (cases "s_pc s1")
        (auto simp: audio_thread_defs in_stop_def split: if_splits dq_result.splits option.splits completion_wait.splits)
    ultimately show ?thesis by (auto simp: bg_thread(1))
  next
    case (bg_interrupt h r)
    have "rp_activated (s_rp s1)" using inv bg_interrupt(2) by (simp add: audio_inv_def)
    then have "in_stop (s_pc s1) \<noteq> 0" using pc by simp
    then have "in_stop (s_pc s2) \<noteq> 0"
      using bg_interrupt by (cases "s_pc s1") (auto simp: audio_irq_def audio_resume_def in_stop_def split: prod.splits if_splits)
    then show ?thesis ..
  qed
  then show ?case using inv2 by simp
qed simp

subsection \<open>From the file to the transmit buffer\<close>

lemma begin_write_ok:
  assumes "audio_inv self s" "s_pc s = Idle" "length buf < 4096" "s_dma s \<noteq> None \<or> \<not> rp_activated (s_rp s)"
  shows "audio_inv self (begin_effect (Dev_write buf) s) \<and> writing (s_pc (begin_effect (Dev_write buf) s)) \<and> can_write (begin_effect (Dev_write buf) s)"
proof -
  let ?s = "begin_effect (Dev_write buf) s"
  have "audio_inv self ?s" using write_keeps [OF assms(1,2), of buf] assms(3) by (simp add: begin_effect_def)
  moreover have "writing (s_pc ?s)" by (simp add: begin_effect_def audio_dev_write_def writing_def in_loop_def)
  moreover have "can_write ?s"
  proof (cases "s_dma s = None")
    case True
    then have "\<not> rp_activated (s_rp s)" using assms(1) by (simp add: audio_inv_def)
    then have "items (s_rp s) = []" "rp_write_index (s_rp s) = 0" using assms(1,2) by (simp_all add: audio_inv_def pc_ok_def)
    then show ?thesis using assms(3) by (simp add: can_write_def begin_effect_def audio_dev_write_def pc_rest_def)
  qed (simp add: can_write_def begin_effect_def)
  ultimately show ?thesis by simp
qed

lemma writes_done:
  assumes "audio_inv self s" "s_pc s = Idle" "\<forall>b\<in>set bs. length b = 2048"
  shows "\<exists>s'. device_does self (map Dev_write bs) s s' \<and> s_pc s' = Idle \<and> audio_inv self s'"
  using assms
proof (induction bs arbitrary: s)
  case (Cons b bs)
  have "s_dma s \<noteq> None \<or> \<not> rp_activated (s_rp s)" using Cons.prems(1) by (auto simp: audio_inv_def)
  then have b: "audio_inv self (begin_effect (Dev_write b) s)" "writing (s_pc (begin_effect (Dev_write b) s))"
    "can_write (begin_effect (Dev_write b) s)" using begin_write_ok [OF Cons.prems(1,2), of b] Cons.prems(3) by simp_all
  obtain s1 where s1: "(audio_bg self)\<^sup>*\<^sup>* (begin_effect (Dev_write b) s) s1" "s_pc s1 = Idle" using write_ends [OF b] by blast
  have "audio_inv self s1" using s1(1) b(1)
    by (induction rule: rtranclp_induct) (use bg_is_step step_keeps in \<open>blast+\<close>)
  from Cons.IH [OF this s1(2)] Cons.prems(3) s1 show ?case by auto
qed simp

lemma close_done:
  assumes "audio_inv self s" "s_pc s = Idle"
  shows "\<exists>s'. device_does self [Dev_close] s s'"
    and "device_does self [Dev_close] s s' \<Longrightarrow> s_pc s' = Idle \<and> \<not> rp_activated (s_rp s') \<and> audio_inv self s'"
proof -
  let ?s = "begin_effect Dev_close s"
  have inv: "audio_inv self ?s" using stop_begins [OF assms] by (simp add: begin_effect_def)
  have pc: "in_stop (s_pc ?s) \<noteq> 0 \<or> s_pc ?s = Idle \<and> \<not> rp_activated (s_rp ?s)"
    by (simp add: begin_effect_def aduio_replay_stop_def in_stop_def)
  show "\<exists>s'. device_does self [Dev_close] s s'"
  proof (cases "in_stop (s_pc ?s) = 0")
    case True
    then show ?thesis using pc by auto
  next
    case False
    from stop_reaches_idle [OF inv False] show ?thesis by simp
  qed
  show "s_pc s' = Idle \<and> \<not> rp_activated (s_rp s') \<and> audio_inv self s'" if "device_does self [Dev_close] s s'"
  proof -
    have "(audio_bg self)\<^sup>*\<^sup>* ?s s'" "s_pc s' = Idle" using that by auto
    with stopped_off [OF this(1) inv pc] show ?thesis by (simp add: in_stop_def)
  qed
qed

lemma calls_done:
  assumes "audio_created rp" "\<forall>b\<in>set bs. length b = 2048"
    and es_def: "es = [Dev_open, Dev_config a c d, Dev_volume v] @ map Dev_write bs"
  shows "\<exists>s. device_does self (es @ [Dev_close]) (audio_start rp) s"
    and "device_does self (es @ [Dev_close]) (audio_start rp) s \<Longrightarrow>
      \<exists>chunks. s_frames s = map as_frame chunks \<and> (\<forall>x\<in>set chunks. length x \<le> 1024) \<and> concat chunks = concat bs"
proof -
  let ?s0 = "audio_start rp"
  have inv0: "audio_inv self ?s0" by (rule created_inv [OF assms(1)])
  have i0: "s_pc ?s0 = Idle" by (simp add: audio_start_def)
  define s1 where "s1 = ?s0\<lparr>s_rp := audio_replay_open (s_rp ?s0)\<rparr>"
  have inv1: "audio_inv self s1" "s_pc s1 = Idle" unfolding s1_def using open_keeps [OF inv0 i0] i0 by simp_all
  have first: "device_does self [Dev_open, Dev_config a c d, Dev_volume v] ?s0 s1"
  proof -
    have "begin_effect Dev_open ?s0 = s1" "begin_effect (Dev_config a c d) s1 = s1" "begin_effect (Dev_volume v) s1 = s1"
      by (simp_all add: begin_effect_def s1_def)
    then show ?thesis using inv1(2) by (simp del: split_paired_Ex) (intro exI [of _ s1] conjI, simp_all)
  qed
  obtain s2 where s2: "device_does self (map Dev_write bs) s1 s2" "s_pc s2 = Idle" "audio_inv self s2"
    using writes_done [OF inv1 assms(2)] by blast
  obtain s3 where "device_does self [Dev_close] s2 s3" using close_done(1) [OF s2(3,2)] by blast
  then show "\<exists>s. device_does self (es @ [Dev_close]) ?s0 s"
    unfolding es_def device_does_append using first s2(1) by blast
  assume run: "device_does self (es @ [Dev_close]) ?s0 s"
  then obtain t where t: "device_does self es ?s0 t" "device_does self [Dev_close] t s" unfolding device_does_append by blast
  have small: "\<forall>e\<in>set es. length (bytes_of e) < 2 ^ 16" using assms(2) by (auto simp: es_def bytes_of_def)
  from device_does_steps [OF t(1) i0 small] have tt: "(audio_step self)\<^sup>*\<^sup>* ?s0 t" "s_pc t = Idle"
    "s_written t = s_written ?s0 @ concat (map bytes_of es)" by simp_all
  have invt: "audio_inv self t" by (rule reachable_inv [OF tt(1) assms(1)])
  have off: "s_pc s = Idle" "\<not> rp_activated (s_rp s)" "audio_inv self s" using close_done(2) [OF invt tt(2) t(2)] by simp_all
  have "s_written s = s_written t"
    using device_does_steps [OF t(2) tt(2)] by (simp add: bytes_of_def)
  moreover have "concat (map bytes_of es) = concat bs" by (simp add: es_def bytes_of_def o_def)
  ultimately have w: "s_written s = concat bs" using tt(3) by (simp add: audio_start_def)
  from bytes_in_order [OF off(3)] off(1,2) w
  show "\<exists>chunks. s_frames s = map as_frame chunks \<and> (\<forall>x\<in>set chunks. length x \<le> 1024) \<and> concat chunks = concat bs"
    by (elim exE conjE) (intro exI conjI, assumption+, simp)
qed

text \<open>A state in the middle of one of the calls.\<close>

definition on_the_way :: "nat \<Rightarrow> effect list \<Rightarrow> replay \<Rightarrow> audio_sys \<Rightarrow> bool" where
  "on_the_way self calls rp s \<longleftrightarrow>
     (\<exists>es e es' s0. calls = es @ e # es' \<and> device_does self es (audio_start rp) s0 \<and> (audio_bg self)\<^sup>*\<^sup>* (begin_effect e s0) s)"

lemma on_the_way_fails:
  assumes "on_the_way self calls rp s" "audio_created rp" "\<forall>e\<in>set calls. length (bytes_of e) < 2 ^ 16"
  shows "audio_send_replay_frame None (s_rp s) = None \<longleftrightarrow> s_pc s = Stop_init \<and> rp_cmp (s_rp s) = None \<and> items (s_rp s) = []"
proof -
  obtain es e es' s0 where s: "calls = es @ e # es'" "device_does self es (audio_start rp) s0" "(audio_bg self)\<^sup>*\<^sup>* (begin_effect e s0) s"
    using assms(1) unfolding on_the_way_def by (elim exE conjE) (rule that)
  have i: "s_pc (audio_start rp) = Idle" by (simp add: audio_start_def)
  have 0: "(audio_step self)\<^sup>*\<^sup>* (audio_start rp) s0" "s_pc s0 = Idle"
    using device_does_steps [OF s(2) i] assms(3) s(1) by simp_all
  have 1: "(audio_step self)\<^sup>*\<^sup>* s0 (begin_effect e s0)" using begin_step [OF 0(2), of e self] assms(3) s(1) by simp
  have "(audio_step self)\<^sup>*\<^sup>* (begin_effect e s0) s" using bg_are_steps [OF s(3)] by simp
  then have "(audio_step self)\<^sup>*\<^sup>* (audio_start rp) s" using 0(1) 1 by (meson rtranclp_trans)
  from handler_fails [OF reachable_inv [OF this assms(2)]] show ?thesis .
qed

text \<open>
  C8. From the file to the transmit buffer: when the player plays a file to its end, the device calls it makes can be carried out one after the other
  on the sound device as it was created. In every way in which they are carried out, with interrupts of the transmission in between that do not fail, the
  frames that were put into the transmit buffer hold the sound data behind the 44 bytes of the header up to the last full block of 2048
  bytes, in order, cut into pieces of at most 1024 bytes filled up with zeros. And an interrupt on the way fails in one window only: during the close, before
  the completion of the device has been set up for the first time, with nothing queued (then no more is put into a frame). What is
  shown is that the bytes are handed to the transmission; the close stops it when the last frame has been handed over, so the last frame need not be heard to its end.
\<close>

theorem song_reaches_transmission:
  assumes "p_pc p = Opening" "p_mq p = []" "p_state p = PLAYER_STATE_PLAYING" "p_uri p = Some u"
    and "find_ok env" "dev_open env = RT_EOK" "files env u = Some f"
    and "audio_created rp"
  shows "\<exists>k q calls. thread_run env k p = Some q \<and> p_pc q = Outer \<and> p_effects q = p_effects p @ calls
    \<and> (\<exists>s. device_does self calls (audio_start rp) s)
    \<and> (\<forall>s. device_does self calls (audio_start rp) s \<longrightarrow>
         (\<exists>chunks. s_frames s = map as_frame chunks \<and> (\<forall>x\<in>set chunks. length x \<le> 1024)
            \<and> concat chunks = take ((length f - 44) div 2048 * 2048) (drop 44 f)))
    \<and> (\<forall>s. on_the_way self calls rp s \<longrightarrow>
         (audio_send_replay_frame None (s_rp s) = None \<longleftrightarrow> s_pc s = Stop_init \<and> rp_cmp (s_rp s) = None \<and> items (s_rp s) = []))"
proof -
  obtain k q bs where q: "thread_run env k p = Some q" "p_pc q = Outer"
    "p_effects q = p_effects p
        @ [Dev_open, Dev_config (fmt_sample_rate (open_wav env f)) (fmt_channels (open_wav env f)) (fmt_bit_per_sample (open_wav env f)),
           Dev_volume (wavplayer_volume_get p)] @ map Dev_write bs @ [Dev_close]"
    "\<forall>b \<in> set bs. length b = 2048" "concat bs = take ((length f - 44) div 2048 * 2048) (drop 44 f)"
    using plays_file [OF assms(1-7)] by (elim exE conjE) (rule that)
  let ?calls = "[Dev_open, Dev_config (fmt_sample_rate (open_wav env f)) (fmt_channels (open_wav env f)) (fmt_bit_per_sample (open_wav env f)),
      Dev_volume (wavplayer_volume_get p)] @ map Dev_write bs @ [Dev_close]"
  note result = calls_done [OF assms(8) q(4) refl, of self "fmt_sample_rate (open_wav env f)" "fmt_channels (open_wav env f)"
      "fmt_bit_per_sample (open_wav env f)" "wavplayer_volume_get p", unfolded append_assoc q(5)]
  have "\<forall>e\<in>set ?calls. length (bytes_of e) < 2 ^ 16" using q(4) by (auto simp: bytes_of_def)
  note fails = on_the_way_fails [OF _ assms(8) this, of self]
  show ?thesis
    by (rule exI [of _ k], rule exI [of _ q], rule exI [of _ ?calls], intro conjI allI impI, rule q(1), rule q(2), rule q(3), rule result(1))
      (rule result(2), assumption, rule fails, assumption)
qed

lemma song_reaches_transmission_witness:
  "\<exists>rp k q calls s chunks. thread_run demo_env k (player_zero\<lparr>p_pc := Opening, p_state := PLAYER_STATE_PLAYING, p_uri := Some ''/b.wav''\<rparr>) = Some q
     \<and> p_effects q = calls \<and> device_does 1 calls (audio_start rp) s \<and> s_frames s = map as_frame chunks \<and> concat chunks = replicate 4096 7"
proof -
  let ?p = "player_zero\<lparr>p_pc := Opening, p_state := PLAYER_STATE_PLAYING, p_uri := Some ''/b.wav''\<rparr>"
  have h: "p_pc ?p = Opening" "p_mq ?p = []" "p_state ?p = PLAYER_STATE_PLAYING" "p_uri ?p = Some ''/b.wav''"
      "find_ok demo_env" "dev_open demo_env = RT_EOK" "files demo_env ''/b.wav'' = Some (replicate 4200 7)" "p_effects ?p = []"
    by (simp_all add: player_zero_def demo_env_def)
  have f: "take ((length (replicate 4200 (7 :: u8)) - 44) div 2048 * 2048) (drop 44 (replicate 4200 7)) = replicate 4096 (7 :: u8)" by simp
  obtain rp where rp: "audio_created rp" using created_exists ..
  obtain k q calls s where q: "thread_run demo_env k ?p = Some q" "p_effects q = p_effects ?p @ calls" "device_does 1 calls (audio_start rp) s"
    "\<forall>s. device_does 1 calls (audio_start rp) s \<longrightarrow>
         (\<exists>chunks. s_frames s = map as_frame chunks \<and> (\<forall>x\<in>set chunks. length x \<le> 1024)
            \<and> concat chunks = take ((length (replicate 4200 (7 :: u8)) - 44) div 2048 * 2048) (drop 44 (replicate 4200 7)))"
    using song_reaches_transmission [OF h(1-7) rp, of 1] by (elim exE conjE) (rule that)
  from q(4) [rule_format, OF q(3)] obtain chunks where c: "s_frames s = map as_frame chunks" "concat chunks = replicate 4096 7"
    unfolding f by (elim exE conjE) (rule that)
  have e: "p_effects q = calls" unfolding q(2) h(8) by (rule append_Nil)
  show ?thesis by (intro exI conjI) (rule q(1) e q(3) c)+
qed

end
