(* ===== verification/AudioPipe.thy ===== *)
theory AudioPipe
  imports RingBuffer
begin

text \<open>
  The pipe between the microphone's interrupt and a reader, \<open>rt-thread/components/drivers/audio/audio_pipe.c\<close>: a ring buffer with the
  threads that wait to read or to write. A thread that was woken makes the call again. The pipe's own \<open>rx_indicate\<close> is an event.
\<close>

subsection \<open>State and operations\<close>

definition RT_PIPE_FLAG_BLOCK_RD :: u32 where "RT_PIPE_FLAG_BLOCK_RD = 1"
definition RT_PIPE_FLAG_BLOCK_WR :: u32 where "RT_PIPE_FLAG_BLOCK_WR = 2"
definition RT_PIPE_FLAG_FORCE_WR :: u32 where "RT_PIPE_FLAG_FORCE_WR = 4"
definition PIPE_CTRL_GET_SPACE :: int where "PIPE_CTRL_GET_SPACE = 0x14"
definition RT_AUDIO_RECORD_PIPE_SIZE :: u32 where "RT_AUDIO_RECORD_PIPE_SIZE = 2048"

record audio_pipe =
  pipe_ringbuffer :: ringbuffer
  pipe_flag :: u32
  suspended_read_list :: "nat list"
  suspended_write_list :: "nat list"
  pipe_rx_indicate :: bool

datatype pipe_event = Indicate nat | Resume nat

datatype 'a pipe_result = Pipe_return 'a "pipe_event list" audio_pipe | Pipe_wait audio_pipe | Pipe_assert

definition pipe_resume_writer :: "audio_pipe \<Rightarrow> (pipe_event list \<times> audio_pipe) option" where
  "pipe_resume_writer p =
     (case suspended_write_list p of
        [] \<Rightarrow> Some ([], p)
      | t # ts \<Rightarrow> if pipe_flag p AND RT_PIPE_FLAG_BLOCK_WR = 0 then None else Some ([Resume t], p\<lparr>suspended_write_list := ts\<rparr>))"

definition pipe_resume_reader :: "audio_pipe \<Rightarrow> (pipe_event list \<times> audio_pipe) option" where
  "pipe_resume_reader p =
     (let es = (if pipe_rx_indicate p then [Indicate (rt_ringbuffer_data_len (pipe_ringbuffer p))] else [])
      in (case suspended_read_list p of
            [] \<Rightarrow> Some (es, p)
          | t # ts \<Rightarrow> if pipe_flag p AND RT_PIPE_FLAG_BLOCK_RD = 0 then None else Some (es @ [Resume t], p\<lparr>suspended_read_list := ts\<rparr>)))"

definition piped :: "'a \<Rightarrow> (pipe_event list \<times> audio_pipe) option \<Rightarrow> 'a pipe_result" where
  "piped x r = (case r of None \<Rightarrow> Pipe_assert | Some (es, p) \<Rightarrow> Pipe_return x es p)"

text \<open>The ring buffer takes a 16-bit length.\<close>

definition rt_pipe_read :: "nat \<Rightarrow> u32 \<Rightarrow> audio_pipe \<Rightarrow> u8 list pipe_result" where
  "rt_pipe_read thread sz p =
     (case rt_ringbuffer_get (pipe_ringbuffer p) (ucast sz) of (bs, rb) \<Rightarrow>
        let p = p\<lparr>pipe_ringbuffer := rb\<rparr>
        in if pipe_flag p AND RT_PIPE_FLAG_BLOCK_RD = 0 then
             (if bs \<noteq> [] then piped bs (pipe_resume_writer p) else Pipe_return bs [] p)
           else if bs = [] then Pipe_wait (p\<lparr>suspended_read_list := suspended_read_list p @ [thread]\<rparr>)
           else piped bs (pipe_resume_writer p))"

definition rt_pipe_write :: "nat \<Rightarrow> u8 list \<Rightarrow> u32 \<Rightarrow> audio_pipe \<Rightarrow> nat pipe_result" where
  "rt_pipe_write thread buf sz p =
     (if pipe_flag p AND RT_PIPE_FLAG_FORCE_WR \<noteq> 0 \<or> pipe_flag p AND RT_PIPE_FLAG_BLOCK_WR = 0 then
        (case (if pipe_flag p AND RT_PIPE_FLAG_FORCE_WR \<noteq> 0 then rt_ringbuffer_put_force (pipe_ringbuffer p) buf (ucast sz)
               else rt_ringbuffer_put (pipe_ringbuffer p) buf (ucast sz)) of
           (n, rb) \<Rightarrow> piped n (pipe_resume_reader (p\<lparr>pipe_ringbuffer := rb\<rparr>)))
      else
        (case rt_ringbuffer_put (pipe_ringbuffer p) buf (ucast sz) of (n, rb) \<Rightarrow>
           let p = p\<lparr>pipe_ringbuffer := rb\<rparr>
           in if n = 0 then Pipe_wait (p\<lparr>suspended_write_list := suspended_write_list p @ [thread]\<rparr>)
              else piped n (pipe_resume_reader p)))"

definition rt_pipe_control :: "int \<Rightarrow> audio_pipe \<Rightarrow> nat option" where
  "rt_pipe_control cmd p = (if cmd = PIPE_CTRL_GET_SPACE then Some (rt_ringbuffer_space_len (pipe_ringbuffer p)) else None)"

definition rt_audio_pipe_init :: "u32 \<Rightarrow> u8 list \<Rightarrow> u32 \<Rightarrow> audio_pipe" where
  "rt_audio_pipe_init flag buf sz =
     \<lparr>pipe_ringbuffer = rt_ringbuffer_init buf (ucast sz), pipe_flag = flag, suspended_read_list = [], suspended_write_list = [],
      pipe_rx_indicate = False\<rparr>"

text \<open>\<open>pipe_room\<close> and \<open>room\<close> are the two allocations.\<close>

definition rt_audio_pipe_create :: "bool \<Rightarrow> (u32 \<Rightarrow> u8 list option) \<Rightarrow> u32 \<Rightarrow> u32 \<Rightarrow> rt_err \<times> audio_pipe option" where
  "rt_audio_pipe_create pipe_room room flag sz =
     (let sz = RT_ALIGN sz RT_ALIGN_SIZE
      in if \<not> pipe_room then (RT_ENOMEM, None)
         else (case room sz of None \<Rightarrow> (RT_ENOMEM, None) | Some buf \<Rightarrow> (RT_EOK, Some (rt_audio_pipe_init flag buf sz))))"

subsection \<open>The microphone's pipe\<close>

text \<open>The pipe that \<open>_audio_dev_init\<close> makes for the record stream.\<close>

definition record_pipe :: "u8 list \<Rightarrow> audio_pipe" where
  "record_pipe buf = rt_audio_pipe_init (RT_PIPE_FLAG_FORCE_WR OR RT_PIPE_FLAG_BLOCK_RD) buf RT_AUDIO_RECORD_PIPE_SIZE"

definition pipe_inv :: "audio_pipe \<Rightarrow> bool" where
  "pipe_inv p \<longleftrightarrow> rb_inv (pipe_ringbuffer p) \<and> rb_size (pipe_ringbuffer p) = 2048
     \<and> pipe_flag p = RT_PIPE_FLAG_FORCE_WR OR RT_PIPE_FLAG_BLOCK_RD \<and> suspended_write_list p = []"

abbreviation pipe_bytes :: "audio_pipe \<Rightarrow> u8 list" where
  "pipe_bytes p \<equiv> rb_contents (pipe_ringbuffer p)"

lemma put_force_room:
  assumes "rb_inv rb" "unat len \<le> length ptr" "unat len \<le> rb_size rb - length (rb_contents rb)" "0 < unat len"
  shows "rt_ringbuffer_put_force rb ptr len = rt_ringbuffer_put rb ptr len"
proof -
  have l: "length (rb_contents rb) \<le> rb_size rb" by (rule length_contents_le [OF assms(1)])
  have sp: "rt_ringbuffer_space_len rb = rb_size rb - length (rb_contents rb)" by (rule space_len_contents [OF assms(1)])
  have c: "rb_size rb - length (rb_contents rb) \<noteq> 0" "\<not> rb_size rb - length (rb_contents rb) < unat len" "\<not> rb_size rb < unat len"
    using assms(3,4) l by simp_all
  show ?thesis
    unfolding rt_ringbuffer_put_force_def rt_ringbuffer_put_def sp Let_def if_not_P [OF c(1)] if_not_P [OF c(2)] if_not_P [OF c(3)]
    using c(2) by simp
qed

text \<open>The interrupt of the microphone writes a half of its buffer; a reader takes what it asks for, or waits.\<close>

lemma record_write:
  assumes inv: "pipe_inv p" and len: "unat sz \<le> length buf" "unat sz \<le> 2048 - length (pipe_bytes p)" "0 < unat sz"
  shows "\<exists>es p'. rt_pipe_write t buf sz p = Pipe_return (unat sz) es p' \<and> pipe_inv p' \<and> pipe_bytes p' = pipe_bytes p @ take (unat sz) buf
    \<and> suspended_read_list p' = tl (suspended_read_list p)"
proof -
  let ?rb = "pipe_ringbuffer p"
  have i: "rb_inv ?rb" "rb_size ?rb = 2048" "pipe_flag p = RT_PIPE_FLAG_FORCE_WR OR RT_PIPE_FLAG_BLOCK_RD" "suspended_write_list p = []"
    using inv by (simp_all add: pipe_inv_def)
  have u: "unat (ucast sz :: u16) = unat sz" using len(2) by (simp add: unsigned_ucast_eq take_bit_nat_eq_self_iff)
  have put: "rt_ringbuffer_put_force ?rb buf (ucast sz) = rt_ringbuffer_put ?rb buf (ucast sz)"
    using len i by (intro put_force_room) (simp_all add: u)
  obtain rb where rb: "rt_ringbuffer_put ?rb buf (ucast sz) = (unat sz, rb)" "rb_inv rb" "rb_contents rb = pipe_bytes p @ take (unat sz) buf"
    "rb_size rb = 2048"
    using rt_ringbuffer_put_spec [OF i(1), of "ucast sz" buf] size_put [of ?rb buf "ucast sz"] len i(2)
    by (cases "rt_ringbuffer_put ?rb buf (ucast sz)") (simp add: u rb_accept_def min_def split: if_splits)
  have f: "pipe_flag p AND RT_PIPE_FLAG_FORCE_WR \<noteq> 0" "pipe_flag p AND RT_PIPE_FLAG_BLOCK_RD \<noteq> 0"
    by (simp_all add: i(3) RT_PIPE_FLAG_FORCE_WR_def RT_PIPE_FLAG_BLOCK_RD_def)
  show ?thesis
    using rb i f by (cases "suspended_read_list p")
      (simp_all add: rt_pipe_write_def put piped_def pipe_resume_reader_def pipe_inv_def)
qed

lemma record_read:
  assumes inv: "pipe_inv p" and sz: "0 < unat sz" "unat sz < 2 ^ 16" and some: "pipe_bytes p \<noteq> []"
  shows "\<exists>p'. rt_pipe_read t sz p = Pipe_return (take (unat sz) (pipe_bytes p)) [] p' \<and> pipe_inv p' \<and> pipe_bytes p' = drop (unat sz) (pipe_bytes p)"
proof -
  let ?rb = "pipe_ringbuffer p"
  have i: "rb_inv ?rb" "rb_size ?rb = 2048" "pipe_flag p = RT_PIPE_FLAG_FORCE_WR OR RT_PIPE_FLAG_BLOCK_RD" "suspended_write_list p = []"
    using inv by (simp_all add: pipe_inv_def)
  have u: "unat (ucast sz :: u16) = unat sz" using sz(2) by (simp add: unsigned_ucast_eq take_bit_nat_eq_self_iff)
  note get = rt_ringbuffer_get_spec [OF i(1), of "ucast sz", unfolded u]
  obtain rb where rb: "rt_ringbuffer_get ?rb (ucast sz) = (take (unat sz) (pipe_bytes p), rb)" "rb_inv rb"
    "rb_contents rb = drop (unat sz) (pipe_bytes p)" "rb_size rb = 2048"
    using get size_get [of ?rb "ucast sz"] i(2) by (cases "rt_ringbuffer_get ?rb (ucast sz)") simp
  have f: "pipe_flag p AND RT_PIPE_FLAG_BLOCK_RD \<noteq> 0" by (simp add: i(3) RT_PIPE_FLAG_FORCE_WR_def RT_PIPE_FLAG_BLOCK_RD_def)
  have ne: "take (unat sz) (pipe_bytes p) \<noteq> []" using sz(1) some by simp
  show ?thesis
    using rb i f ne by (simp add: rt_pipe_read_def Let_def piped_def pipe_resume_writer_def pipe_inv_def)
qed

lemma record_read_waits:
  assumes inv: "pipe_inv p" and none: "pipe_bytes p = []"
  shows "\<exists>p'. rt_pipe_read t sz p = Pipe_wait p' \<and> pipe_inv p' \<and> pipe_bytes p' = [] \<and> suspended_read_list p' = suspended_read_list p @ [t]"
proof -
  let ?rb = "pipe_ringbuffer p"
  have i: "rb_inv ?rb" "rb_size ?rb = 2048" "pipe_flag p = RT_PIPE_FLAG_FORCE_WR OR RT_PIPE_FLAG_BLOCK_RD" "suspended_write_list p = []"
    using inv by (simp_all add: pipe_inv_def)
  note get = rt_ringbuffer_get_spec [OF i(1), of "ucast sz", unfolded none]
  obtain rb where rb: "rt_ringbuffer_get ?rb (ucast sz) = ([], rb)" "rb_inv rb" "rb_contents rb = []" "rb_size rb = 2048"
    using get size_get [of ?rb "ucast sz"] i(2) by (cases "rt_ringbuffer_get ?rb (ucast sz)") simp
  have f: "pipe_flag p AND RT_PIPE_FLAG_BLOCK_RD \<noteq> 0" by (simp add: i(3) RT_PIPE_FLAG_FORCE_WR_def RT_PIPE_FLAG_BLOCK_RD_def)
  show ?thesis using rb i f by (simp add: rt_pipe_read_def Let_def pipe_inv_def)
qed

lemma record_pipe_inv: "length buf = 2048 \<Longrightarrow> pipe_inv (record_pipe buf) \<and> pipe_bytes (record_pipe buf) = []"
  by (simp add: record_pipe_def rt_audio_pipe_init_def rt_ringbuffer_init_def pipe_inv_def rb_inv_def rb_contents_def
    RT_AUDIO_RECORD_PIPE_SIZE_def RT_ALIGN_DOWN_def RT_ALIGN_SIZE_def)

end
