(* ===== verification/Es8388.thy ===== *)
theory Es8388
  imports Prelude
begin

text \<open>
  The audio codec \<open>board/ports/audio/drv_es8388.c\<close>: what is written to its registers over the two-wire bus, and when. The chip is a
  parameter: what a register write does to it and what a read gives, if the transfer succeeds. An access before the bus was found
  fails its assertion.
\<close>

subsection \<open>Registers\<close>

definition ES8388_CONTROL1 :: u8 where "ES8388_CONTROL1 = 0x00"
definition ES8388_CONTROL2 :: u8 where "ES8388_CONTROL2 = 0x01"
definition ES8388_CHIPPOWER :: u8 where "ES8388_CHIPPOWER = 0x02"
definition ES8388_ADCPOWER :: u8 where "ES8388_ADCPOWER = 0x03"
definition ES8388_DACPOWER :: u8 where "ES8388_DACPOWER = 0x04"
definition ES8388_MASTERMODE :: u8 where "ES8388_MASTERMODE = 0x08"
definition ES8388_ADCCONTROL :: "nat \<Rightarrow> u8" where "ES8388_ADCCONTROL n = of_nat (8 + n)"
definition ES8388_DACCONTROL :: "nat \<Rightarrow> u8" where "ES8388_DACCONTROL n = of_nat (22 + n)"

datatype es8388_mode = ES_MODE_NONE | ES_MODE_DAC | ES_MODE_ADC | ES_MODE_DAC_ADC | ES_MODE_LINE

datatype es8388_format = ES_FMT_NORMAL | ES_FMT_LEFT | ES_FMT_RIGHT | ES_FMT_DSP

primrec format_code :: "es8388_format \<Rightarrow> u8" where
  "format_code ES_FMT_NORMAL = 0"
| "format_code ES_FMT_LEFT = 1"
| "format_code ES_FMT_RIGHT = 2"
| "format_code ES_FMT_DSP = 3"

subsection \<open>Operations\<close>

record 'c i2c =
  i2c_write :: "u8 \<Rightarrow> u8 \<Rightarrow> 'c \<Rightarrow> 'c"
  i2c_read :: "u8 \<Rightarrow> 'c \<Rightarrow> u8 option"

text \<open>\<open>es_pa\<close> is the level last put on the pin of the power amplifier.\<close>

record 'c es8388 =
  es_found :: bool
  es_pin :: u16
  es_chip :: 'c
  es_pa :: "(u16 \<times> bool) option"

definition reg_read :: "'c i2c \<Rightarrow> u8 \<Rightarrow> 'c es8388 \<Rightarrow> u8 option" where
  "reg_read bus addr d =
     (if \<not> es_found d then None else Some (case i2c_read bus addr (es_chip d) of None \<Rightarrow> 0xff | Some v \<Rightarrow> v))"

definition reg_write :: "'c i2c \<Rightarrow> u8 \<Rightarrow> u8 \<Rightarrow> 'c es8388 \<Rightarrow> 'c es8388 option" where
  "reg_write bus addr v d = (if \<not> es_found d then None else Some (d\<lparr>es_chip := i2c_write bus addr v (es_chip d)\<rparr>))"

primrec reg_writes :: "'c i2c \<Rightarrow> (u8 \<times> u8) list \<Rightarrow> 'c es8388 \<Rightarrow> 'c es8388 option" where
  "reg_writes bus [] d = Some d"
| "reg_writes bus (x # xs) d = (case reg_write bus (fst x) (snd x) d of None \<Rightarrow> None | Some d \<Rightarrow> reg_writes bus xs d)"

definition es8388_set_adc_dac_volume :: "es8388_mode \<Rightarrow> int \<Rightarrow> int \<Rightarrow> (u8 \<times> u8) list" where
  "es8388_set_adc_dac_volume mode volume dot =
     (let volume = (if volume < - 96 then - 96 else if volume > 0 then 0 else volume);
          v = of_int (2 * (- volume) + (if dot \<ge> 5 then 1 else 0)) :: u8
      in (if mode = ES_MODE_ADC \<or> mode = ES_MODE_DAC_ADC then [(ES8388_ADCCONTROL 8, v), (ES8388_ADCCONTROL 9, v)] else [])
         @ (if mode = ES_MODE_DAC \<or> mode = ES_MODE_DAC_ADC then [(ES8388_DACCONTROL 5, v), (ES8388_DACCONTROL 4, v)] else []))"

definition es8388_set_voice_mute :: "'c i2c \<Rightarrow> bool \<Rightarrow> 'c es8388 \<Rightarrow> 'c es8388 option" where
  "es8388_set_voice_mute bus enable d =
     (case reg_read bus (ES8388_DACCONTROL 3) d of
        None \<Rightarrow> None
      | Some reg \<Rightarrow> reg_write bus (ES8388_DACCONTROL 3) ((reg AND 0xFB) OR (if enable then 4 else 0)) d)"

definition es8388_pa_power :: "bool \<Rightarrow> 'c es8388 \<Rightarrow> 'c es8388" where
  "es8388_pa_power enable d = d\<lparr>es_pa := Some (es_pin d, enable)\<rparr>"

definition init_writes :: "(u8 \<times> u8) list" where
  "init_writes =
     [(ES8388_DACCONTROL 3, 0x04), (ES8388_CONTROL2, 0x50), (ES8388_CHIPPOWER, 0x00), (ES8388_MASTERMODE, 0x00),
      (ES8388_DACPOWER, 0xC0), (ES8388_CONTROL1, 0x12), (ES8388_DACCONTROL 1, 0x18), (ES8388_DACCONTROL 2, 0x02),
      (ES8388_DACCONTROL 16, 0x00), (ES8388_DACCONTROL 17, 0x90), (ES8388_DACCONTROL 20, 0x90), (ES8388_DACCONTROL 21, 0x80),
      (ES8388_DACCONTROL 23, 0x00)]
     @ es8388_set_adc_dac_volume ES_MODE_DAC 0 0
     @ [(ES8388_DACPOWER, 0x3c), (ES8388_ADCPOWER, 0xFF), (ES8388_ADCCONTROL 1, 0xbb), (ES8388_ADCCONTROL 2, 0x00),
        (ES8388_ADCCONTROL 3, 0x02), (ES8388_ADCCONTROL 4, 0x0d), (ES8388_ADCCONTROL 5, 0x02)]
     @ es8388_set_adc_dac_volume ES_MODE_ADC 0 0
     @ [(ES8388_ADCPOWER, 0x09)]"

text \<open>\<open>found\<close> is whether there is a bus of the given name.\<close>

definition es8388_init :: "'c i2c \<Rightarrow> bool \<Rightarrow> u16 \<Rightarrow> 'c es8388 \<Rightarrow> (rt_err \<times> 'c es8388) option" where
  "es8388_init bus found pin d =
     (if \<not> found then Some (RT_ERROR, d\<lparr>es_found := False\<rparr>)
      else map_option (\<lambda>d. (RT_EOK, es8388_pa_power True d)) (reg_writes bus init_writes (d\<lparr>es_found := True, es_pin := pin\<rparr>)))"

definition es8388_start :: "'c i2c \<Rightarrow> es8388_mode \<Rightarrow> 'c es8388 \<Rightarrow> 'c es8388 option" where
  "es8388_start bus mode d =
     (case reg_read bus (ES8388_DACCONTROL 21) d of
        None \<Rightarrow> None
      | Some prev_data \<Rightarrow>
          (case reg_writes bus
              (if mode = ES_MODE_LINE
               then [(ES8388_DACCONTROL 16, 0x09), (ES8388_DACCONTROL 17, 0x50), (ES8388_DACCONTROL 20, 0x50), (ES8388_DACCONTROL 21, 0xC0)]
               else [(ES8388_DACCONTROL 21, 0x80)]) d of
             None \<Rightarrow> None
           | Some d \<Rightarrow>
               (case reg_read bus (ES8388_DACCONTROL 21) d of
                  None \<Rightarrow> None
                | Some data \<Rightarrow>
                    (case reg_writes bus
                        ((if prev_data \<noteq> data then [(ES8388_CHIPPOWER, 0xF0), (ES8388_CHIPPOWER, 0x00)] else [])
                         @ (if mode = ES_MODE_ADC \<or> mode = ES_MODE_DAC_ADC \<or> mode = ES_MODE_LINE then [(ES8388_ADCPOWER, 0x00)] else [])
                         @ (if mode = ES_MODE_DAC \<or> mode = ES_MODE_DAC_ADC \<or> mode = ES_MODE_LINE then [(ES8388_DACPOWER, 0x3c)] else [])) d of
                       None \<Rightarrow> None
                     | Some d \<Rightarrow>
                         if mode = ES_MODE_DAC \<or> mode = ES_MODE_DAC_ADC \<or> mode = ES_MODE_LINE
                         then es8388_set_voice_mute bus False d else Some d))))"

definition es8388_stop :: "'c i2c \<Rightarrow> es8388_mode \<Rightarrow> 'c es8388 \<Rightarrow> 'c es8388 option" where
  "es8388_stop bus mode d =
     (if mode = ES_MODE_LINE then
        reg_writes bus [(ES8388_DACCONTROL 21, 0x80), (ES8388_DACCONTROL 16, 0x00), (ES8388_DACCONTROL 17, 0x90), (ES8388_DACCONTROL 20, 0x90)] d
      else
        (case (if mode = ES_MODE_DAC \<or> mode = ES_MODE_DAC_ADC
               then (case reg_write bus ES8388_DACPOWER 0x00 d of None \<Rightarrow> None | Some d \<Rightarrow> es8388_set_voice_mute bus True d)
               else Some d) of
           None \<Rightarrow> None
         | Some d \<Rightarrow>
             reg_writes bus
               ((if mode = ES_MODE_ADC \<or> mode = ES_MODE_DAC_ADC then [(ES8388_ADCPOWER, 0xFF)] else [])
                @ (if mode = ES_MODE_DAC_ADC then [(ES8388_DACCONTROL 21, 0x9C)] else [])) d))"

definition es8388_fmt_set :: "'c i2c \<Rightarrow> es8388_mode \<Rightarrow> es8388_format \<Rightarrow> 'c es8388 \<Rightarrow> 'c es8388 option" where
  "es8388_fmt_set bus mode fmt d =
     (case (if mode = ES_MODE_ADC \<or> mode = ES_MODE_DAC_ADC
            then (case reg_read bus (ES8388_ADCCONTROL 4) d of
                    None \<Rightarrow> None
                  | Some reg \<Rightarrow> reg_write bus (ES8388_ADCCONTROL 4) ((reg AND 0xfc) OR format_code fmt) d)
            else Some d) of
        None \<Rightarrow> None
      | Some d \<Rightarrow>
          if mode = ES_MODE_DAC \<or> mode = ES_MODE_DAC_ADC
          then (case reg_read bus (ES8388_DACCONTROL 1) d of
                  None \<Rightarrow> None
                | Some reg \<Rightarrow> reg_write bus (ES8388_DACCONTROL 1) ((reg AND 0xf9) OR push_bit 1 (format_code fmt)) d)
          else Some d)"

definition es8388_volume_set :: "'c i2c \<Rightarrow> u8 \<Rightarrow> 'c es8388 \<Rightarrow> 'c es8388 option" where
  "es8388_volume_set bus volume d =
     (let volume = (if volume > 100 then 100 else volume) div 3
      in reg_writes bus [(ES8388_DACCONTROL 24, volume), (ES8388_DACCONTROL 25, volume)] d)"

definition es8388_volume_get :: "'c i2c \<Rightarrow> 'c es8388 \<Rightarrow> u8 option" where
  "es8388_volume_get bus d =
     map_option (\<lambda>volume. if volume = 0xff then 0 else if volume * 3 = 99 then 100 else volume * 3)
       (reg_read bus (ES8388_DACCONTROL 24) d)"

subsection \<open>A chip that keeps its registers\<close>

text \<open>What the data sheet says of the registers: a write is read back, and other registers stay.\<close>

locale register_file =
  fixes bus :: "'c i2c"
    and content :: "'c \<Rightarrow> u8 \<Rightarrow> u8"
  assumes reads: "i2c_read bus a c = Some (content c a)"
    and writes: "content (i2c_write bus a v c) = (content c)(a := v)"
begin

lemma reg_read_content: "es_found d \<Longrightarrow> reg_read bus a d = Some (content (es_chip d) a)"
  by (simp add: reg_read_def reads)

lemma reg_write_content:
  "es_found d \<Longrightarrow> \<exists>d'. reg_write bus a v d = Some d' \<and> content (es_chip d') = (content (es_chip d))(a := v) \<and> es_found d'
     \<and> es_pin d' = es_pin d \<and> es_pa d' = es_pa d"
  by (simp add: reg_write_def writes)

lemma reg_writes_content:
  "es_found d \<Longrightarrow> \<exists>d'. reg_writes bus ws d = Some d' \<and> content (es_chip d') = fold (\<lambda>(a, v) r. r(a := v)) ws (content (es_chip d))
     \<and> es_found d' \<and> es_pin d' = es_pin d \<and> es_pa d' = es_pa d"
proof (induction ws arbitrary: d)
  case (Cons x ws)
  obtain d1 where d1: "reg_write bus (fst x) (snd x) d = Some d1" "content (es_chip d1) = (content (es_chip d))(fst x := snd x)"
    "es_found d1" "es_pin d1 = es_pin d" "es_pa d1 = es_pa d" using reg_write_content [OF Cons.prems] by blast
  from Cons.IH [OF d1(3)] d1 show ?case by (auto simp: case_prod_unfold)
qed simp

lemma volume_roundtrip:
  assumes "es_found d"
  shows "\<exists>d'. es8388_volume_set bus v d = Some d'
    \<and> es8388_volume_get bus d' = Some (if v \<ge> 99 then 100 else v div 3 * 3) \<and> es_found d'"
proof -
  let ?w = "(if v > 100 then 100 else v) div 3"
  obtain d' where d': "es8388_volume_set bus v d = Some d'" "content (es_chip d') (ES8388_DACCONTROL 24) = ?w" "es_found d'"
    using reg_writes_content [OF assms, of "[(ES8388_DACCONTROL 24, ?w), (ES8388_DACCONTROL 25, ?w)]"]
    by (auto simp: es8388_volume_set_def Let_def ES8388_DACCONTROL_def)
  have lt: "unat v < 2 ^ LENGTH(8)" by (rule unsigned_less)
  have w: "unat ?w = min 100 (unat v) div 3" by (simp add: unat_div min_def word_le_nat_alt word_less_nat_alt)
  have "(if ?w = 0xff then 0 else if ?w * 3 = 99 then 100 else ?w * 3) = (if v \<ge> 99 then 100 else v div 3 * 3)"
  proof (cases "v \<ge> 99")
    case True
    then have "unat ?w = 33" unfolding w using lt by (simp add: word_le_nat_alt min_def split: if_splits) presburger
    then have "?w = 33" by (simp add: word_unat_eq_iff)
    then show ?thesis using True by simp
  next
    case False
    then have v: "unat v < 99" by (simp add: word_le_nat_alt)
    then have w': "?w = v div 3" by (simp add: word_less_nat_alt)
    have u: "unat (v div 3) = unat v div 3" by (simp add: unat_div)
    have "unat (v div 3 * 3) = unat v div 3 * 3" using v by (simp add: unat_word_ariths u)
    then have "v div 3 * 3 \<noteq> 99" using v by auto
    moreover have "v div 3 \<noteq> 0xff" using u v by auto
    ultimately show ?thesis using False w' by simp
  qed
  then show ?thesis using d'(1,3) reg_read_content [OF d'(3), of "ES8388_DACCONTROL 24"] d'(2)
    by (simp add: es8388_volume_get_def)
qed

text \<open>Starting the output side powers it up and takes the mute away; stopping it powers it down and mutes it, and leaves the input side alone.\<close>

lemma mute_content:
  assumes "es_found d"
  shows "\<exists>d'. es8388_set_voice_mute bus b d = Some d' \<and> es_found d'
    \<and> content (es_chip d') = (content (es_chip d))(ES8388_DACCONTROL 3 := (content (es_chip d) (ES8388_DACCONTROL 3) AND 0xFB) OR (if b then 4 else 0))"
proof -
  let ?v = "(content (es_chip d) (ES8388_DACCONTROL 3) AND 0xFB) OR (if b then 4 else 0)"
  obtain d' where "reg_write bus (ES8388_DACCONTROL 3) ?v d = Some d'" "es_found d'"
    "content (es_chip d') = (content (es_chip d))(ES8388_DACCONTROL 3 := ?v)"
    using reg_write_content [OF assms, of "ES8388_DACCONTROL 3" ?v] by (elim exE conjE) (rule that)
  then show ?thesis by (intro exI [of _ d']) (simp add: es8388_set_voice_mute_def reg_read_content [OF assms])
qed

lemma dac_stopped:
  assumes "es_found d"
  shows "\<exists>d'. es8388_stop bus ES_MODE_DAC d = Some d' \<and> es_found d' \<and> content (es_chip d') ES8388_DACPOWER = 0
    \<and> content (es_chip d') (ES8388_DACCONTROL 3) AND 4 = 4 \<and> content (es_chip d') ES8388_ADCPOWER = content (es_chip d) ES8388_ADCPOWER"
proof -
  obtain d1 where d1: "reg_write bus ES8388_DACPOWER 0 d = Some d1" "es_found d1"
    "content (es_chip d1) = (content (es_chip d))(ES8388_DACPOWER := 0)"
    using reg_write_content [OF assms, of ES8388_DACPOWER 0] by (elim exE conjE) (rule that)
  obtain d2 where d2: "es8388_set_voice_mute bus True d1 = Some d2" "es_found d2"
    "content (es_chip d2) = (content (es_chip d1))(ES8388_DACCONTROL 3 := (content (es_chip d1) (ES8388_DACCONTROL 3) AND 0xFB) OR 4)"
    using mute_content [OF d1(2), of True] by (elim exE conjE) (rule that, simp_all)
  have "(x AND 0xFB OR 4) AND 4 = (4 :: u8)" for x by (simp add: bit.conj_disj_distrib2 and.assoc)
  then show ?thesis using d1 d2
    by (intro exI [of _ d2]) (simp add: es8388_stop_def ES8388_DACPOWER_def ES8388_ADCPOWER_def ES8388_DACCONTROL_def)
qed

lemma dac_started:
  assumes "es_found d"
  shows "\<exists>d'. es8388_start bus ES_MODE_DAC d = Some d' \<and> es_found d' \<and> content (es_chip d') ES8388_DACPOWER = 0x3c
    \<and> content (es_chip d') (ES8388_DACCONTROL 3) AND 4 = 0 \<and> content (es_chip d') (ES8388_DACCONTROL 21) = 0x80
    \<and> content (es_chip d') ES8388_ADCPOWER = content (es_chip d) ES8388_ADCPOWER"
proof -
  obtain d1 where d1: "reg_writes bus [(ES8388_DACCONTROL 21, 0x80)] d = Some d1" "es_found d1"
    "content (es_chip d1) = (content (es_chip d))(ES8388_DACCONTROL 21 := 0x80)"
    using reg_writes_content [OF assms, of "[(ES8388_DACCONTROL 21, 0x80)]"] by auto
  let ?ws = "(if content (es_chip d) (ES8388_DACCONTROL 21) \<noteq> 0x80 then [(ES8388_CHIPPOWER, 0xF0), (ES8388_CHIPPOWER, 0x00)] else [])
      @ [(ES8388_DACPOWER, 0x3c)]"
  obtain d2 where d2: "reg_writes bus ?ws d1 = Some d2" "es_found d2"
    "content (es_chip d2) = fold (\<lambda>(a, v) r. r(a := v)) ?ws (content (es_chip d1))"
    using reg_writes_content [OF d1(2), of ?ws] by (elim exE conjE) (rule that)
  obtain d3 where d3: "es8388_set_voice_mute bus False d2 = Some d3" "es_found d3"
    "content (es_chip d3) = (content (es_chip d2))(ES8388_DACCONTROL 3 := content (es_chip d2) (ES8388_DACCONTROL 3) AND 0xFB)"
    using mute_content [OF d2(2), of False] by (elim exE conjE) (rule that, simp_all)
  have run: "es8388_start bus ES_MODE_DAC d = Some d3"
    unfolding es8388_start_def using d1 d2(1) d3(1) by (simp add: reg_read_content [OF assms] reg_read_content [OF d1(2)])
  have "(x AND 0xFB) AND 4 = (0 :: u8)" for x by (simp add: and.assoc)
  then show ?thesis using run d3(2) d3(3) d2(3) d1(3)
    by (intro exI [of _ d3]) (simp add: ES8388_DACPOWER_def ES8388_ADCPOWER_def ES8388_CHIPPOWER_def ES8388_DACCONTROL_def)
qed

end

text \<open>A chip that is its registers.\<close>

definition register_bus :: "(u8 \<Rightarrow> u8) i2c" where
  "register_bus = \<lparr>i2c_write = (\<lambda>a v c. c(a := v)), i2c_read = (\<lambda>a c. Some (c a))\<rparr>"

interpretation registers: register_file register_bus "\<lambda>c. c"
  by unfold_locales (simp_all add: register_bus_def)

end
