(* ===== verification/Sound.thy ===== *)
theory Sound
  imports AudioDev AudioPipe Es8388
begin

text \<open>
  The two audio devices of the board, \<open>sound0\<close> (\<open>board/ports/audio/drv_sound.c\<close>) and \<open>mic0\<close> (\<open>drv_mic.c\<close>), with the entry points of
  \<open>audio.c\<close> that lead to them: opening and closing by the flags, capabilities and configuration, the record stream. What is asked of the serial
  audio interface is a list of events.
\<close>

subsection \<open>Capabilities\<close>

text \<open>The union of \<open>struct rt_audio_caps\<close>: \<open>mask\<close> and \<open>value\<close> are the word that is also the sample rate.\<close>

record udata =
  u_samplerate :: u32
  u_channels :: u16
  u_samplebits :: u16

record audio_caps =
  main_type :: int
  sub_type :: int
  caps_udata :: udata

abbreviation u_value :: "udata \<Rightarrow> int" where
  "u_value u \<equiv> sint (u_samplerate u)"

definition AUDIO_TYPE_QUERY :: int where "AUDIO_TYPE_QUERY = 0"
definition AUDIO_TYPE_INPUT :: int where "AUDIO_TYPE_INPUT = 1"
definition AUDIO_TYPE_OUTPUT :: int where "AUDIO_TYPE_OUTPUT = 2"
definition AUDIO_TYPE_MIXER :: int where "AUDIO_TYPE_MIXER = 4"
definition AUDIO_DSP_PARAM :: int where "AUDIO_DSP_PARAM = 0"
definition AUDIO_DSP_SAMPLERATE :: int where "AUDIO_DSP_SAMPLERATE = 1"
definition AUDIO_DSP_CHANNELS :: int where "AUDIO_DSP_CHANNELS = 2"
definition AUDIO_DSP_SAMPLEBITS :: int where "AUDIO_DSP_SAMPLEBITS = 3"
definition AUDIO_MIXER_QUERY :: int where "AUDIO_MIXER_QUERY = 0"
definition AUDIO_MIXER_VOLUME :: int where "AUDIO_MIXER_VOLUME = 2"
definition AUDIO_MIXER_LINE :: int where "AUDIO_MIXER_LINE = 0x40"
definition AUDIO_CTL_GETCAPS :: int where "AUDIO_CTL_GETCAPS = 0x11"
definition AUDIO_CTL_CONFIGURE :: int where "AUDIO_CTL_CONFIGURE = 0x12"
definition AUDIO_CTL_START :: int where "AUDIO_CTL_START = 0x13"
definition AUDIO_CTL_STOP :: int where "AUDIO_CTL_STOP = 0x14"

subsection \<open>The sound device\<close>

text \<open>Clock multiplier, frequency and mono flag that the interface is set to, and the transfers that are started and stopped.\<close>

datatype sai_event =
    Sai_clock nat
  | Sai_frequency u32
  | Sai_channels bool
  | Sai_transmit_dma nat
  | Sai_transmit nat
  | Sai_receive_dma nat
  | Sai_stop_tx
  | Sai_stop_rx
  | Sai_abort_tx

record sound_device =
  snd_config :: udata
  snd_volume :: u8

definition SAIA_Frequency_Set :: "u32 \<Rightarrow> sai_event list" where
  "SAIA_Frequency_Set frequency =
     [Sai_clock (if frequency = 11025 \<or> frequency = 22050 \<or> frequency = 44100 then 40 else 43), Sai_frequency frequency]"

definition SAIA_Channels_Set :: "u8 \<Rightarrow> sai_event list" where
  "SAIA_Channels_Set channels = [Sai_channels (channels = 1)]"

text \<open>The part that both drivers have for their stream: which fields of the union are filled in.\<close>

definition stream_caps :: "int \<Rightarrow> udata \<Rightarrow> udata \<Rightarrow> rt_err \<times> udata" where
  "stream_caps st config u =
     (if st = AUDIO_DSP_PARAM then
        (RT_EOK, u\<lparr>u_samplerate := u_samplerate config, u_channels := u_channels config, u_samplebits := u_samplebits config\<rparr>)
      else if st = AUDIO_DSP_SAMPLERATE then (RT_EOK, u\<lparr>u_samplerate := u_samplerate config\<rparr>)
      else if st = AUDIO_DSP_CHANNELS then (RT_EOK, u\<lparr>u_channels := u_channels config\<rparr>)
      else if st = AUDIO_DSP_SAMPLEBITS then (RT_EOK, u\<lparr>u_samplebits := u_samplebits config\<rparr>)
      else (RT_ERROR, u))"

definition sound_getcaps :: "'c i2c \<Rightarrow> 'c es8388 \<Rightarrow> sound_device \<Rightarrow> audio_caps \<Rightarrow> (rt_err \<times> audio_caps) option" where
  "sound_getcaps bus codec sd caps =
     (let u = caps_udata caps
      in if main_type caps = AUDIO_TYPE_QUERY then
           (if sub_type caps = AUDIO_TYPE_QUERY
            then Some (RT_EOK, caps\<lparr>caps_udata := u\<lparr>u_samplerate := of_int (AUDIO_TYPE_OUTPUT + AUDIO_TYPE_MIXER)\<rparr>\<rparr>)
            else Some (RT_ERROR, caps))
         else if main_type caps = AUDIO_TYPE_OUTPUT then
           (case stream_caps (sub_type caps) (snd_config sd) u of (e, u) \<Rightarrow> Some (e, caps\<lparr>caps_udata := u\<rparr>))
         else if main_type caps = AUDIO_TYPE_MIXER then
           (if sub_type caps = AUDIO_MIXER_QUERY
            then Some (RT_EOK, caps\<lparr>caps_udata := u\<lparr>u_samplerate := of_int AUDIO_MIXER_VOLUME\<rparr>\<rparr>)
            else if sub_type caps = AUDIO_MIXER_VOLUME
            then (case es8388_volume_get bus codec of
                    None \<Rightarrow> None
                  | Some v \<Rightarrow> Some (RT_EOK, caps\<lparr>caps_udata := u\<lparr>u_samplerate := ucast v\<rparr>\<rparr>))
            else Some (RT_ERROR, caps))
         else Some (RT_ERROR, caps))"

definition sound_configure ::
  "'c i2c \<Rightarrow> audio_caps \<Rightarrow> 'c es8388 \<Rightarrow> sound_device \<Rightarrow> (rt_err \<times> sai_event list \<times> 'c es8388 \<times> sound_device) option" where
  "sound_configure bus caps codec sd =
     (let u = caps_udata caps; c = snd_config sd
      in if main_type caps = AUDIO_TYPE_MIXER then
           (if sub_type caps = AUDIO_MIXER_VOLUME then
              let volume = of_int (u_value u) :: u8
              in (case es8388_volume_set bus volume codec of
                    None \<Rightarrow> None
                  | Some codec \<Rightarrow> Some (RT_EOK, [], codec, sd\<lparr>snd_volume := volume\<rparr>))
            else Some (RT_ERROR, [], codec, sd))
         else if main_type caps = AUDIO_TYPE_OUTPUT then
           (if sub_type caps = AUDIO_DSP_PARAM then
              Some (RT_EOK, SAIA_Frequency_Set (u_samplerate u) @ SAIA_Channels_Set (ucast (u_channels u)), codec,
                sd\<lparr>snd_config := c\<lparr>u_samplerate := u_samplerate u, u_channels := u_channels u, u_samplebits := u_samplebits u\<rparr>\<rparr>)
            else if sub_type caps = AUDIO_DSP_SAMPLERATE then
              Some (RT_EOK, SAIA_Frequency_Set (u_samplerate u), codec, sd\<lparr>snd_config := c\<lparr>u_samplerate := u_samplerate u\<rparr>\<rparr>)
            else if sub_type caps = AUDIO_DSP_CHANNELS then
              Some (RT_EOK, SAIA_Channels_Set (ucast (u_channels u)), codec, sd\<lparr>snd_config := c\<lparr>u_channels := u_channels u\<rparr>\<rparr>)
            else if sub_type caps = AUDIO_DSP_SAMPLEBITS then
              Some (RT_EOK, [], codec, sd\<lparr>snd_config := c\<lparr>u_samplebits := u_samplebits u\<rparr>\<rparr>)
            else Some (RT_ERROR, [], codec, sd))
         else Some (RT_EOK, [], codec, sd))"

text \<open>\<open>rt_hw_sound_init\<close>: \<open>room\<close> says whether the transmit buffer can be had; the registration leads to \<open>sound_init\<close>, which does
  not look at whether the codec was found.\<close>

definition sound_default :: sound_device where
  "sound_default = \<lparr>snd_config = \<lparr>u_samplerate = 44100, u_channels = 2, u_samplebits = 16\<rparr>, snd_volume = 55\<rparr>"

definition sound_init ::
  "'c i2c \<Rightarrow> bool \<Rightarrow> u16 \<Rightarrow> 'c es8388 \<Rightarrow> sound_device \<Rightarrow> (sai_event list \<times> 'c es8388) option" where
  "sound_init bus found pin codec sd =
     (case es8388_init bus found pin codec of
        None \<Rightarrow> None
      | Some (_, codec) \<Rightarrow>
          Some (SAIA_Frequency_Set (u_samplerate (snd_config sd)) @ SAIA_Channels_Set (ucast (u_channels (snd_config sd))), codec))"

definition rt_hw_sound_init ::
  "bool \<Rightarrow> bool \<Rightarrow> 'c i2c \<Rightarrow> bool \<Rightarrow> u16 \<Rightarrow> 'c es8388 \<Rightarrow> (rt_err \<times> sound_device option \<times> sai_event list \<times> 'c es8388) option" where
  "rt_hw_sound_init ready room bus found pin codec =
     (if ready then Some (RT_EOK, None, [], codec)
      else if \<not> room then Some (RT_ENOMEM, None, [], codec)
      else map_option (\<lambda>(es, codec). (RT_EOK, Some sound_default, es, codec)) (sound_init bus found pin codec sound_default))"

definition AUDIO_STREAM_REPLAY :: int where "AUDIO_STREAM_REPLAY = 0"
definition AUDIO_STREAM_RECORD :: int where "AUDIO_STREAM_RECORD = 1"

definition sound_start :: "'c i2c \<Rightarrow> int \<Rightarrow> 'c es8388 \<Rightarrow> (sai_event list \<times> 'c es8388) option" where
  "sound_start bus stream codec =
     (if stream = AUDIO_STREAM_REPLAY
      then map_option (Pair [Sai_transmit_dma (TX_FIFO_SIZE div 2)]) (es8388_start bus ES_MODE_DAC codec)
      else Some ([], codec))"

definition sound_stop :: "'c i2c \<Rightarrow> int \<Rightarrow> 'c es8388 \<Rightarrow> (sai_event list \<times> 'c es8388) option" where
  "sound_stop bus stream codec =
     (if stream = AUDIO_STREAM_REPLAY then map_option (Pair [Sai_stop_tx]) (es8388_stop bus ES_MODE_DAC codec)
      else Some ([], codec))"

subsection \<open>The microphone\<close>

definition RX_FIFO_SIZE :: nat where "RX_FIFO_SIZE = 1024"

definition SAIB_Channels_Set :: "u8 \<Rightarrow> sai_event list" where
  "SAIB_Channels_Set channels = [Sai_channels (channels = 1)]"

definition mic_getcaps :: "sound_device \<Rightarrow> audio_caps \<Rightarrow> rt_err \<times> audio_caps" where
  "mic_getcaps mic caps =
     (let u = caps_udata caps
      in if main_type caps = AUDIO_TYPE_QUERY then
           (if sub_type caps = AUDIO_TYPE_QUERY
            then (RT_EOK, caps\<lparr>caps_udata := u\<lparr>u_samplerate := of_int (AUDIO_TYPE_INPUT + AUDIO_TYPE_MIXER)\<rparr>\<rparr>)
            else (RT_ERROR, caps))
         else if main_type caps = AUDIO_TYPE_INPUT then
           (case stream_caps (sub_type caps) (snd_config mic) u of (e, u) \<Rightarrow> (e, caps\<lparr>caps_udata := u\<rparr>))
         else if main_type caps = AUDIO_TYPE_MIXER then
           (if sub_type caps = AUDIO_MIXER_QUERY
            then (RT_EOK, caps\<lparr>caps_udata := u\<lparr>u_samplerate := of_int (AUDIO_MIXER_VOLUME + AUDIO_MIXER_LINE)\<rparr>\<rparr>)
            else if sub_type caps = AUDIO_MIXER_VOLUME then (RT_EOK, caps\<lparr>caps_udata := u\<lparr>u_samplerate := ucast (snd_volume mic)\<rparr>\<rparr>)
            else if sub_type caps = AUDIO_MIXER_LINE then (RT_EOK, caps)
            else (RT_ERROR, caps))
         else (RT_ERROR, caps))"

definition mic_configure :: "audio_caps \<Rightarrow> sound_device \<Rightarrow> rt_err \<times> sai_event list \<times> sound_device" where
  "mic_configure caps mic =
     (let u = caps_udata caps; c = snd_config mic
      in if main_type caps = AUDIO_TYPE_MIXER then
           (if sub_type caps = AUDIO_MIXER_VOLUME then (RT_EOK, [], mic\<lparr>snd_volume := of_int (u_value u)\<rparr>) else (RT_ERROR, [], mic))
         else if main_type caps = AUDIO_TYPE_INPUT then
           (if sub_type caps = AUDIO_DSP_PARAM then
              (RT_EOK,
               SAIA_Frequency_Set (u_samplerate u) @ [Sai_stop_rx] @ SAIB_Channels_Set (ucast (u_channels u))
                 @ [Sai_transmit 2, Sai_receive_dma (RX_FIFO_SIZE div 2)],
               mic\<lparr>snd_config := c\<lparr>u_samplerate := u_samplerate u, u_channels := u_channels u, u_samplebits := u_samplebits u\<rparr>\<rparr>)
            else if sub_type caps = AUDIO_DSP_SAMPLERATE then (RT_EOK, [], mic\<lparr>snd_config := c\<lparr>u_samplerate := u_samplerate u\<rparr>\<rparr>)
            else if sub_type caps = AUDIO_DSP_CHANNELS then (RT_EOK, [], mic\<lparr>snd_config := c\<lparr>u_channels := u_channels u\<rparr>\<rparr>)
            else (RT_EOK, [], mic))
         else (RT_EOK, [], mic))"

definition mic_start :: "'c i2c \<Rightarrow> int \<Rightarrow> 'c es8388 \<Rightarrow> (sai_event list \<times> 'c es8388) option" where
  "mic_start bus stream codec =
     (if stream = AUDIO_STREAM_RECORD
      then map_option (Pair [Sai_transmit 2, Sai_receive_dma (RX_FIFO_SIZE div 2)]) (es8388_start bus ES_MODE_ADC codec)
      else Some ([], codec))"

definition mic_stop :: "'c i2c \<Rightarrow> int \<Rightarrow> 'c es8388 \<Rightarrow> (sai_event list \<times> 'c es8388) option" where
  "mic_stop bus stream codec =
     (if stream = AUDIO_STREAM_RECORD then map_option (Pair [Sai_stop_rx, Sai_abort_tx]) (es8388_stop bus ES_MODE_ADC codec)
      else Some ([], codec))"

definition mic_default :: sound_device where
  "mic_default = \<lparr>snd_config = \<lparr>u_samplerate = 44100, u_channels = 2, u_samplebits = 16\<rparr>, snd_volume = 55\<rparr>"

definition rt_hw_mic_init :: "bool \<Rightarrow> bool \<Rightarrow> rt_err \<times> sound_device option \<times> sai_event list" where
  "rt_hw_mic_init ready room =
     (if ready then (RT_EOK, None, [])
      else if \<not> room then (RT_ENOMEM, None, [])
      else (RT_EOK, Some mic_default, SAIB_Channels_Set (ucast (u_channels (snd_config mic_default)))))"

subsection \<open>The audio device\<close>

text \<open>
  \<open>struct rt_audio_device\<close> with the flags of its \<open>struct rt_device\<close>; each half is there if the device has it. What a call asks of the
  halves is listed: the streams are started and stopped as in \<open>AudioDev\<close>, where a stop takes time.
\<close>

definition RT_DEVICE_FLAG_RDONLY :: u16 where "RT_DEVICE_FLAG_RDONLY = 1"
definition RT_DEVICE_FLAG_WRONLY :: u16 where "RT_DEVICE_FLAG_WRONLY = 2"

record audio_record =
  rec_pipe :: audio_pipe
  rec_activated :: bool

record audio_device =
  dev_flag :: u16
  dev_open_flag :: u16
  dev_replay :: "replay option"
  dev_record :: "audio_record option"

datatype audio_call = Call_pipe_open | Call_start int | Call_stop int | Call_pipe_close | Call_replay_stop

definition audio_record_start :: "audio_record \<Rightarrow> audio_call list \<times> audio_record" where
  "audio_record_start r =
     (if \<not> rec_activated r then ([Call_pipe_open, Call_start AUDIO_STREAM_RECORD], r\<lparr>rec_activated := True\<rparr>) else ([], r))"

definition audio_record_stop :: "audio_record \<Rightarrow> audio_call list \<times> audio_record" where
  "audio_record_stop r =
     (if rec_activated r then ([Call_stop AUDIO_STREAM_RECORD, Call_pipe_close], r\<lparr>rec_activated := False\<rparr>) else ([], r))"

text \<open>A half that the flags allow but that is not there is dereferenced all the same.\<close>

definition audio_dev_open :: "u16 \<Rightarrow> audio_device \<Rightarrow> (rt_err \<times> audio_call list \<times> audio_device) option" where
  "audio_dev_open oflag d =
     (if oflag AND RT_DEVICE_FLAG_RDONLY \<noteq> 0 \<and> dev_flag d AND RT_DEVICE_FLAG_RDONLY = 0 then Some (RT_EIO, [], d)
      else if oflag AND RT_DEVICE_FLAG_WRONLY \<noteq> 0 \<and> dev_flag d AND RT_DEVICE_FLAG_WRONLY = 0 then Some (RT_EIO, [], d)
      else
        let d = d\<lparr>dev_open_flag := oflag AND 0xff\<rparr>
        in (case (if oflag AND RT_DEVICE_FLAG_WRONLY \<noteq> 0
                  then (case dev_replay d of
                          None \<Rightarrow> None
                        | Some rp \<Rightarrow> Some (d\<lparr>dev_replay := Some (audio_replay_open rp), dev_open_flag := dev_open_flag d OR RT_DEVICE_FLAG_WRONLY\<rparr>))
                  else Some d) of
              None \<Rightarrow> None
            | Some d \<Rightarrow>
                if oflag AND RT_DEVICE_FLAG_RDONLY \<noteq> 0
                then (case dev_record d of
                        None \<Rightarrow> None
                      | Some r \<Rightarrow>
                          (case audio_record_start r of
                             (cs, r) \<Rightarrow> Some (RT_EOK, cs, d\<lparr>dev_record := Some r, dev_open_flag := dev_open_flag d OR RT_DEVICE_FLAG_RDONLY\<rparr>)))
                else Some (RT_EOK, [], d)))"

definition audio_dev_close :: "audio_device \<Rightarrow> (audio_call list \<times> audio_device) option" where
  "audio_dev_close d =
     (case (if dev_open_flag d AND RT_DEVICE_FLAG_WRONLY \<noteq> 0
            then (case dev_replay d of
                    None \<Rightarrow> None
                  | Some rp \<Rightarrow>
                      Some (if aduio_replay_stop rp = Idle then [] else [Call_replay_stop],
                        d\<lparr>dev_open_flag := dev_open_flag d AND NOT RT_DEVICE_FLAG_WRONLY\<rparr>))
            else Some ([], d)) of
        None \<Rightarrow> None
      | Some (cs, d) \<Rightarrow>
          if dev_open_flag d AND RT_DEVICE_FLAG_RDONLY \<noteq> 0
          then (case dev_record d of
                  None \<Rightarrow> None
                | Some r \<Rightarrow>
                    (case audio_record_stop r of
                       (cs', r) \<Rightarrow> Some (cs @ cs', d\<lparr>dev_record := Some r, dev_open_flag := dev_open_flag d AND NOT RT_DEVICE_FLAG_RDONLY\<rparr>)))
          else Some (cs, d))"

text \<open>What a read of the pipe gives; nothing, if the call returns 0 without reading.\<close>

definition audio_dev_read :: "nat \<Rightarrow> u32 \<Rightarrow> audio_device \<Rightarrow> u8 list pipe_result option" where
  "audio_dev_read self sz d =
     (case dev_record d of
        None \<Rightarrow> None
      | Some r \<Rightarrow> if dev_open_flag d AND RT_DEVICE_FLAG_RDONLY = 0 then None else Some (rt_pipe_read self sz (rec_pipe r)))"

text \<open>Where a write goes on; nothing, if the device is not open for writing.\<close>

definition audio_dev_write_pc :: "u8 list \<Rightarrow> audio_device \<Rightarrow> audio_pc option" where
  "audio_dev_write_pc buf d =
     (if dev_open_flag d AND RT_DEVICE_FLAG_WRONLY = 0 \<or> dev_replay d = None then None else Some (audio_dev_write buf))"

text \<open>\<open>rt_audio_rx_done\<close>, which the two interrupts of the microphone call with the first and the second half of its buffer; the result
  says whether the \<open>rx_indicate\<close> of the device is called.\<close>

definition rt_audio_rx_done :: "bool \<Rightarrow> u8 list \<Rightarrow> u32 \<Rightarrow> audio_record \<Rightarrow> (nat option \<times> pipe_event list \<times> audio_record) option" where
  "rt_audio_rx_done indicate pbuf len r =
     (case rt_pipe_write 0 pbuf len (rec_pipe r) of
        Pipe_return _ es p \<Rightarrow> Some (if indicate then Some (unat len) else None, es, r\<lparr>rec_pipe := p\<rparr>)
      | _ \<Rightarrow> None)"

definition mic_rx_half :: "bool \<Rightarrow> u8 list \<Rightarrow> audio_record \<Rightarrow> (nat option \<times> pipe_event list \<times> audio_record) option" where
  "mic_rx_half second rx_fifo r =
     rt_audio_rx_done False (if second then drop (RX_FIFO_SIZE div 2) rx_fifo else rx_fifo) (of_nat (RX_FIFO_SIZE div 2)) r"

text \<open>The record half of \<open>_audio_dev_init\<close>: \<open>room\<close> says whether the structure can be had, \<open>buf\<close> is the room of the pipe.\<close>

definition audio_record_init :: "bool \<Rightarrow> u8 list option \<Rightarrow> rt_err \<times> audio_record option" where
  "audio_record_init room buf =
     (if \<not> room then (RT_ENOMEM, None)
      else (case buf of None \<Rightarrow> (RT_ENOMEM, None) | Some b \<Rightarrow> (RT_EOK, Some \<lparr>rec_pipe = record_pipe b, rec_activated = False\<rparr>)))"

text \<open>\<open>_audio_dev_control\<close>: what a command does with its stream.\<close>

datatype audio_command = Get_caps | Configure | Start_replay | Start_record | Stop_replay | Stop_record | No_command

definition audio_dev_control :: "int \<Rightarrow> int \<Rightarrow> audio_command" where
  "audio_dev_control cmd stream =
     (if cmd = AUDIO_CTL_GETCAPS then Get_caps
      else if cmd = AUDIO_CTL_CONFIGURE then Configure
      else if cmd = AUDIO_CTL_START then (if stream = AUDIO_STREAM_REPLAY then Start_replay else Start_record)
      else if cmd = AUDIO_CTL_STOP then (if stream = AUDIO_STREAM_REPLAY then Stop_replay else Stop_record)
      else No_command)"

definition rt_audio_samplerate_to_speed :: "u32 \<Rightarrow> int" where
  "rt_audio_samplerate_to_speed bitValue =
     (if bitValue = 0x0001 then 8000
      else if bitValue = 0x0002 then 11052
      else if bitValue = 0x0004 then 16000
      else if bitValue = 0x0008 then 22050
      else if bitValue = 0x0010 then 32000
      else if bitValue = 0x0020 then 44100
      else if bitValue = 0x0040 then 48000
      else if bitValue = 0x0080 then 96000
      else if bitValue = 0x0100 then 128000
      else if bitValue = 0x0200 then 160000
      else if bitValue = 0x0400 then 176400
      else if bitValue = 0x0800 then 192000
      else 0)"

subsection \<open>What is set is what is reported\<close>

text \<open>A configuration of the stream is reported as it was set, by both devices, and the interface is set to it.\<close>

lemma sound_config_reported:
  assumes "main_type caps = AUDIO_TYPE_OUTPUT" "sub_type caps = AUDIO_DSP_PARAM"
  shows "\<exists>es sd'. sound_configure bus caps codec sd = Some (RT_EOK, es, codec, sd') \<and> Sai_frequency (u_samplerate (caps_udata caps)) \<in> set es
    \<and> sound_getcaps bus codec sd' (caps\<lparr>caps_udata := u\<rparr>) = Some (RT_EOK, caps)"
  using assms by (cases caps; cases "caps_udata caps"; cases u)
    (simp add: sound_configure_def sound_getcaps_def stream_caps_def SAIA_Frequency_Set_def AUDIO_TYPE_OUTPUT_def AUDIO_TYPE_QUERY_def
      AUDIO_TYPE_MIXER_def AUDIO_DSP_PARAM_def Let_def)

lemma mic_config_reported:
  assumes "main_type caps = AUDIO_TYPE_INPUT" "sub_type caps = AUDIO_DSP_PARAM"
  shows "\<exists>es sd'. mic_configure caps sd = (RT_EOK, es, sd') \<and> Sai_frequency (u_samplerate (caps_udata caps)) \<in> set es
    \<and> mic_getcaps sd' (caps\<lparr>caps_udata := u\<rparr>) = (RT_EOK, caps)"
  using assms by (cases caps; cases "caps_udata caps"; cases u)
    (simp add: mic_configure_def mic_getcaps_def stream_caps_def SAIA_Frequency_Set_def AUDIO_TYPE_INPUT_def AUDIO_TYPE_QUERY_def
      AUDIO_TYPE_MIXER_def AUDIO_DSP_PARAM_def Let_def)

text \<open>A volume is reported in steps of three, on a chip that keeps its registers.\<close>

lemma sound_volume_reported:
  assumes "es_found codec" "0 \<le> v" "v \<le> 100"
    and "caps = \<lparr>main_type = AUDIO_TYPE_MIXER, sub_type = AUDIO_MIXER_VOLUME, caps_udata = \<lparr>u_samplerate = of_int v, u_channels = c, u_samplebits = b\<rparr>\<rparr>"
  shows "\<exists>codec' sd'. sound_configure register_bus caps codec sd = Some (RT_EOK, [], codec', sd')
    \<and> (\<exists>caps'. sound_getcaps register_bus codec' sd' caps = Some (RT_EOK, caps') \<and> u_value (caps_udata caps') = (if v \<ge> 99 then 100 else v div 3 * 3))"
proof -
  let ?v = "of_int v :: u8"
  obtain codec' where c: "es8388_volume_set register_bus ?v codec = Some codec'"
    "es8388_volume_get register_bus codec' = Some (if ?v \<ge> 99 then 100 else ?v div 3 * 3)"
    using registers.volume_roundtrip [OF assms(1), of ?v] by (elim exE conjE) (rule that)
  have s: "sint (of_int v :: u32) = v" using assms(2,3) by (simp add: signed_of_int signed_take_bit_int_eq_self_iff)
  have u: "uint ?v = v" using assms(2,3) by (simp add: unsigned_of_int take_bit_int_eq_self_iff)
  have ge: "(?v \<ge> 99) = (v \<ge> 99)" by (simp add: word_le_def u)
  have "uint (?v div 3 * 3) = v div 3 * 3"
  proof -
    have d: "uint (?v div 3) = v div 3" by (simp add: uint_div_distrib u)
    have "v div 3 * 3 = v - v mod 3" by (simp add: minus_mod_eq_div_mult)
    moreover have "0 \<le> v mod 3" by simp
    moreover have "0 \<le> v div 3" using assms(2) by (simp add: pos_imp_zdiv_nonneg_iff)
    ultimately have "0 \<le> v div 3 * 3" "v div 3 * 3 < 256" using assms(3) by linarith+
    then show ?thesis by (simp add: uint_word_ariths(3) d mod_pos_pos_trivial)
  qed
  moreover have "sint (ucast x :: u32) = uint x" for x :: u8
  proof -
    have "uint x < 2 ^ LENGTH(8)" by (rule unsigned_less)
    then have "uint x < 256" by simp
    then have b: "uint x < 2 ^ 31" by simp
    have "- (2 ^ 31) \<le> uint x" by (rule order_trans [OF _ unsigned_greater_eq]) simp
    then have "signed_take_bit 31 (uint x) = uint x" using b by (rule signed_take_bit_int_eq_self)
    then show ?thesis by (simp add: signed_ucast_eq)
  qed
  ultimately have w: "sint (ucast (if ?v \<ge> 99 then 100 else ?v div 3 * 3) :: u32) = (if v \<ge> 99 then 100 else v div 3 * 3)"
    using ge by simp
  have "AUDIO_TYPE_MIXER \<noteq> AUDIO_TYPE_QUERY" "AUDIO_TYPE_MIXER \<noteq> AUDIO_TYPE_OUTPUT" "AUDIO_MIXER_VOLUME \<noteq> AUDIO_MIXER_QUERY"
    by (simp_all add: AUDIO_TYPE_MIXER_def AUDIO_TYPE_QUERY_def AUDIO_TYPE_OUTPUT_def AUDIO_MIXER_VOLUME_def AUDIO_MIXER_QUERY_def)
  note t = this
  have sc: "(scast (of_int v :: u32) :: u8) = ?v" by (simp only: scast_eq s)
  have "sound_configure register_bus caps codec sd = Some (RT_EOK, [], codec', sd\<lparr>snd_volume := ?v\<rparr>)"
    using t c(1) by (simp add: sound_configure_def Let_def assms(4) sc)
  moreover have "sound_getcaps register_bus codec' (sd\<lparr>snd_volume := ?v\<rparr>) caps
      = Some (RT_EOK, caps\<lparr>caps_udata := (caps_udata caps)\<lparr>u_samplerate := ucast (if ?v \<ge> 99 then 100 else ?v div 3 * 3)\<rparr>\<rparr>)"
    using t by (simp add: sound_getcaps_def Let_def assms(4) c(2))
  ultimately show ?thesis using w by (intro exI conjI) (assumption | simp)+
qed

subsection \<open>The record stream\<close>

text \<open>Halves of the microphone's buffer arriving, and reads; a reader that finds nothing waits and asks again when it is woken.\<close>

datatype mic_op = Half bool "u8 list" | Take u32

fun mic_run :: "nat \<Rightarrow> mic_op list \<Rightarrow> audio_record \<Rightarrow> (u8 list \<times> audio_record) option" where
  "mic_run self [] r = Some ([], r)"
| "mic_run self (Half second rx_fifo # ops) r =
     (case mic_rx_half second rx_fifo r of None \<Rightarrow> None | Some (_, _, r) \<Rightarrow> mic_run self ops r)"
| "mic_run self (Take sz # ops) r =
     (case rt_pipe_read self sz (rec_pipe r) of
        Pipe_return bs _ p \<Rightarrow> map_option (\<lambda>(bs', r). (bs @ bs', r)) (mic_run self ops (r\<lparr>rec_pipe := p\<rparr>))
      | Pipe_wait p \<Rightarrow> mic_run self ops (r\<lparr>rec_pipe := p\<rparr>)
      | Pipe_assert \<Rightarrow> None)"

text \<open>The reader keeps up: no half arrives when fewer than 512 bytes are free.\<close>

fun keeps_up :: "mic_op list \<Rightarrow> nat \<Rightarrow> bool" where
  "keeps_up [] n \<longleftrightarrow> True"
| "keeps_up (Half _ rx_fifo # ops) n \<longleftrightarrow> length rx_fifo = RX_FIFO_SIZE \<and> n + 512 \<le> 2048 \<and> keeps_up ops (n + 512)"
| "keeps_up (Take sz # ops) n \<longleftrightarrow> 0 < unat sz \<and> unat sz < 2 ^ 16 \<and> keeps_up ops (n - unat sz)"

fun mic_bytes :: "mic_op list \<Rightarrow> u8 list" where
  "mic_bytes [] = []"
| "mic_bytes (Half second rx_fifo # ops) = take 512 (if second then drop 512 rx_fifo else rx_fifo) @ mic_bytes ops"
| "mic_bytes (Take _ # ops) = mic_bytes ops"

lemma mic_run_in_order:
  "pipe_inv (rec_pipe r) \<Longrightarrow> keeps_up ops (length (pipe_bytes (rec_pipe r))) \<Longrightarrow>
     \<exists>bs r'. mic_run self ops r = Some (bs, r') \<and> bs @ pipe_bytes (rec_pipe r') = pipe_bytes (rec_pipe r) @ mic_bytes ops"
proof (induction ops arbitrary: r)
  case (Cons x ops)
  show ?case
  proof (cases x)
    case (Half second rx_fifo)
    let ?buf = "if second then drop (RX_FIFO_SIZE div 2) rx_fifo else rx_fifo"
    have h: "length rx_fifo = 1024" "length (pipe_bytes (rec_pipe r)) + 512 \<le> 2048" "keeps_up ops (length (pipe_bytes (rec_pipe r)) + 512)"
      using Cons.prems(2) by (simp_all add: Half RX_FIFO_SIZE_def)
    have sz: "unat (512 :: u32) = 512" by simp
    have len: "unat (512 :: u32) \<le> length ?buf" using h(1) by (simp add: RX_FIFO_SIZE_def)
    have room: "unat (512 :: u32) \<le> 2048 - length (pipe_bytes (rec_pipe r))" using h(2) by simp
    have pos: "0 < unat (512 :: u32)" by simp
    obtain es p where p: "rt_pipe_write 0 ?buf 512 (rec_pipe r) = Pipe_return 512 es p" "pipe_inv p"
      "pipe_bytes p = pipe_bytes (rec_pipe r) @ take 512 ?buf"
      using record_write [OF Cons.prems(1) len room pos, of 0] unfolding sz by (elim exE conjE) (rule that)
    have run: "mic_rx_half second rx_fifo r = Some (None, es, r\<lparr>rec_pipe := p\<rparr>)"
      using p(1) by (simp add: mic_rx_half_def rt_audio_rx_done_def RX_FIFO_SIZE_def)
    have "length (take 512 ?buf) = 512" using len by simp
    then have "keeps_up ops (length (pipe_bytes (rec_pipe (r\<lparr>rec_pipe := p\<rparr>))))" using h(3) p(3) by simp
    then obtain bs r' where "mic_run self ops (r\<lparr>rec_pipe := p\<rparr>) = Some (bs, r')"
      "bs @ pipe_bytes (rec_pipe r') = pipe_bytes p @ mic_bytes ops" using Cons.IH [of "r\<lparr>rec_pipe := p\<rparr>"] p(2) by auto
    then show ?thesis using run p(3) by (simp add: Half RX_FIFO_SIZE_def)
  next
    case (Take sz)
    have k: "0 < unat sz" "unat sz < 2 ^ 16" "keeps_up ops (length (pipe_bytes (rec_pipe r)) - unat sz)"
      using Cons.prems(2) by (simp_all add: Take)
    show ?thesis
    proof (cases "pipe_bytes (rec_pipe r) = []")
      case True
      obtain p where p: "rt_pipe_read self sz (rec_pipe r) = Pipe_wait p" "pipe_inv p" "pipe_bytes p = []"
        using record_read_waits [OF Cons.prems(1) True] by blast
      then show ?thesis using Cons.IH [of "r\<lparr>rec_pipe := p\<rparr>"] k True by (simp add: Take)
    next
      case False
      obtain p where p: "rt_pipe_read self sz (rec_pipe r) = Pipe_return (take (unat sz) (pipe_bytes (rec_pipe r))) [] p" "pipe_inv p"
        "pipe_bytes p = drop (unat sz) (pipe_bytes (rec_pipe r))"
        using record_read [OF Cons.prems(1) k(1,2) False] by blast
      from p Cons.IH [of "r\<lparr>rec_pipe := p\<rparr>"] k obtain bs r' where "mic_run self ops (r\<lparr>rec_pipe := p\<rparr>) = Some (bs, r')"
        "bs @ pipe_bytes (rec_pipe r') = pipe_bytes p @ mic_bytes ops" by auto
      then show ?thesis using p(1,3) by (simp add: Take)
    qed
  qed
qed simp

end
