(* ===== verification/Spec2Isabelle.thy ===== *)
theory Spec2Isabelle
  imports RingBuffer FlexButton RtMq RtEvent RtMutex IotbEvent KeyProcess LcdMenu WavHdr RtCompletion WavPlayer WavRecorder OptParse
    PlayerCmd Msh WebSongs WebPage LcdScreen PlaySong Sound
begin

text \<open>
  A verification library for the internet WAV player in \<open>src/stm32l475-atk-pandora\<close>, an application for an STM32L475 board
  on RT-Thread 4.0.2. Four keys drive a display with three pages: the song list of a web server, the player,
  and the files of the SD card. A scan thread samples the keys and reports their gestures to an event hub, a
  dispatcher thread turns the reports into flags of the display's event, the display thread acts on the flags
  and calls the WAV player, which streams files to the sound device from a thread of its own; a recorder writes
  WAV files from the microphone.

  \<^bold>\<open>Parts and theories.\<close> Every theory says in its opening text which file it models; names are those of the C code.

  \<^item> \<open>Prelude\<close>: word types, the error codes and alignment macros of \<open>rtdef.h\<close>, shared lemmas.
  \<^item> \<open>Interfaces\<close>: the contracts between components as locales: bounded FIFOs, machines and step relations with an
    invariant, event flags, stream codecs. Each provider interprets the contract on its own definitions.
  \<^item> \<open>RingBuffer\<close> (\<open>rt-thread/components/drivers/src/ringbuffer.c\<close>): the mirrored-index ring buffer; refinement to
    the list of its bytes (\<open>rb_contents\<close>), and where \<open>put_force\<close> breaks it.
  \<^item> \<open>FlexButton\<close> (\<open>packages/FlexibleButton-v1.0.0\<close>): the key state machine over the registered buttons. The buttons
    are a list with addresses, the samples a 16-bit word as in the code; the run of one button (\<open>btn_run\<close>)
    is related to the scan of all of them.
  \<^item> \<open>RtMq\<close> (\<open>rt-thread/src/ipc.c\<close>, \<open>rt_mq_*\<close>): the block lists of the message queue with their links, waiting threads and
    timeouts. \<open>mq_inv\<close> is the shape invariant, \<open>mq_contents\<close> the abstraction; the two critical sections of a send and of
    a receive are separate steps in \<open>mq_step\<close>, refined to
    an abstract queue with its calls (\<open>spec_step\<close>), in which a message is the bytes its sender passed.
  \<^item> \<open>RtEvent\<close> (\<open>ipc.c\<close>, \<open>rt_event_*\<close>): flags and waiting threads; no lost wake-up.
  \<^item> \<open>RtCompletion\<close> (\<open>rt-thread/components/drivers/src/completion.c\<close>): the handshake of one waiter and one signal.
  \<^item> \<open>RtMutex\<close> (\<open>ipc.c\<close>, \<open>rt_mutex_*\<close>): owner, hold count, waiting threads and priority inheritance; refinement to a
    recursive lock (\<open>represents\<close>) and the inheritance invariant (\<open>inherits\<close>).
  \<^item> \<open>IotbEvent\<close> (\<open>applications/iotb_event.c\<close>): the hub on the model of \<open>RtMq\<close>, messages as bytes; the dispatcher. \<open>es\<close> is the
    size the compiler gives to an enum, 1 or 4.
  \<^item> \<open>KeyProcess\<close> (\<open>applications/iotb_key_process.c\<close>): the four keys, their callbacks and the scan thread.
  \<^item> \<open>LcdMenu\<close> (\<open>applications/iotb_lcd_process.c\<close>): the page state machine and the page handlers.
  \<^item> \<open>LcdServed\<close>: the thread with a server that answers (\<open>serving\<close>): no key leads to an invalid access; without a list KEY0 does.
  \<^item> \<open>WavHdr\<close> (\<open>packages/wavplayer-v0.2.0/src/wavhdr.c\<close>): the header codec.
  \<^item> \<open>WavPlayer\<close> (\<open>packages/wavplayer-v0.2.0/src/wavplayer.c\<close>): the player thread and any number of clients as an interleaving
    step relation \<open>wp_step\<close>; \<open>wp_inv\<close> is the invariant of all reachable states.
  \<^item> \<open>WavRecorder\<close> (\<open>packages/wavplayer-v0.2.0/src/wavrecorder.c\<close>): the recorder thread on the models of \<open>RtEvent\<close>,
    \<open>RtCompletion\<close> and \<open>WavHdr\<close>; files are byte lists with a position.
  \<^item> \<open>OptParse\<close> (\<open>packages/optparse-v1.0.0/optparse.c\<close>): the option parser with its permutation of \<open>argv\<close>; its loop is proved to
    end and to be equivalent to reading a command line as a list of words with a meaning (\<open>opt_word\<close>).
  \<^item> \<open>PlayerCmd\<close> (\<open>wavplayer_cmd.c\<close>, \<open>wavrecorder_cmd.c\<close>): the shell commands of player and recorder.
  \<^item> \<open>Msh\<close> (\<open>rt-thread/components/finsh/msh.c\<close>): splitting a typed line and running a command.
  \<^item> \<open>CJson\<close> (\<open>packages/cJSON-v1.0.2/cJSON.c\<close>): parser and printer of the JSON library. A text is the list of its characters,
    \<open>Bad\<close> and \<open>Overflow\<close> are accesses outside the library's blocks, memory is a number of allocations that succeed.
    \<open>render\<close> is the text of an item, against which both directions are proved; \<open>typed\<close> is what the parser builds.
  \<^item> \<open>CJsonItems\<close> (\<open>cJSON.c\<close>, \<open>cJSON_util.c\<close>): operations on arrays and objects, copies, and \<open>cJSON_Minify\<close> on its block
    with two indices, refined to a function on texts (\<open>minify\<close>).
  \<^item> \<open>WebSongs\<close> (\<open>iotb_lcd_process.c\<close>): the receive buffer and the parse of the song list, joined to \<open>LcdMenu\<close>.
  \<^item> \<open>CString\<close> (\<open>rt-thread/src/kservice.c\<close>): C strings, \<open>rt_strstr\<close>, and the number conversions of the C library.
  \<^item> \<open>KService\<close> (\<open>kservice.c\<close>): the memory and string functions. Memory is a function from addresses to bytes; the word-wise loops
    of \<open>rt_memset\<close> and \<open>rt_memcpy\<close> are equal to \<open>filled\<close> and \<open>copied\<close>.
  \<^item> \<open>Printf\<close> (\<open>kservice.c\<close>): \<open>rt_vsnprintf\<close> with flags, width, precision and qualifiers, writing one character after the other
    behind its checks; \<open>vformat\<close> is the text it is proved to write. The arguments are a list, and a conversion without an argument has no result.
  \<^item> \<open>WebClient\<close> (\<open>packages/webclient-v2.1.0\<close>): the HTTP client. The state is the session with its connection: the pieces that
    the server still sends, what it has received, and the connections that later calls will get.
  \<^item> \<open>WebStream\<close>: lines, heads and bodies read from the stream of arriving bytes, for any division into pieces. The
    contract of a body is the locale \<open>body_source\<close>, with an interpretation for each of the three ways to delimit it.
  \<^item> \<open>WebDownload\<close>: the address, the request and the whole of a download.
  \<^item> \<open>WebPage\<close> (\<open>iotb_lcd_process.c\<close>): the fetch loops of the song list page on top of the web client, down to the list shown.
  \<^item> \<open>LcdDrv\<close> (\<open>board/ports/drv_lcd.c\<close>): the drawing routines as what they send over the bus. \<open>received\<close> is what reaches the
    display controller, \<open>drawings\<close> are windows of the screen with their pixels; the fonts are a parameter.
  \<^item> \<open>LcdScreen\<close>: the requests of the display thread (\<open>LcdMenu\<close>) carried out by the driver. \<open>tidy\<close> is the invariant of the thread
    under which every request is one that the driver can do.
  \<^item> \<open>DataQueue\<close> (\<open>rt-thread/components/drivers/src/dataqueue.c\<close>) and \<open>MemPool\<close> (\<open>rt-thread/src/mempool.c\<close>): the queue of blocks and the
    pool they come from. \<open>dq_contents\<close> is the queue as a list, \<open>mp_inv\<close> says which blocks are free and which are out.
  \<^item> \<open>AudioDev\<close> (\<open>rt-thread/components/drivers/audio/audio.c\<close>, as set up by \<open>board/ports/audio/drv_sound.c\<close>): playing. The writing
    thread (\<open>audio_pc\<close> says where it is) and the interrupt that fills the transmit buffer are the steps of \<open>audio_step\<close>.
  \<^item> \<open>AudioFrame\<close>: each operation of it alone (\<open>replay_inv\<close>, \<open>queued_bytes\<close>). \<open>AudioPlay\<close>: the invariant of all its states
    (\<open>audio_inv\<close>), from which the bytes arrive in order, nothing fails but in one window, and waiting ends.
  \<^item> \<open>PlaySong\<close>: the device calls of the player carried out on the sound device, from the file to the transmit buffer.
  \<^item> \<open>AudioPipe\<close> (\<open>audio_pipe.c\<close>): the pipe between the microphone's interrupt and a reader.
  \<^item> \<open>Es8388\<close> (\<open>board/ports/audio/drv_es8388.c\<close>): the codec's registers; what a chip does with them is the locale \<open>register_file\<close>.
  \<^item> \<open>Sound\<close> (\<open>drv_sound.c\<close>, \<open>drv_mic.c\<close>, \<open>audio.c\<close>): the two devices: open flags, capabilities, configuration, the record stream.
  \<^item> this theory: the composition from pin levels to the page shown.

  \<^bold>\<open>State and outside world.\<close> A C struct is a record, static variables are fields of their component's state, machine integers
  are words of their width. What comes from outside (pins, heap, file system, sockets, floating
  point, sound device) is a parameter, and drawing, device and player calls of the display are logged as effects.
  A file holds what is passed to \<open>write\<close>, whose result a download ignores; blocks for the song list are counted (\<open>env_memory\<close>), and
  without one the code writes through NULL. Errors are values; a NULL or out-of-range access or an assertion failure is \<open>None\<close>, \<open>Fault\<close> or an
  explicit constructor.

  \<^bold>\<open>Bounds.\<close> Loops are structural recursions; the waiting loops of the message queue recurse over the given list of
  wake-ups, \<open>mq_reset_loop\<close> has the number of blocks as fuel, which suffices because the queue holds no more
  (\<open>mq_control_reset\<close>). Runs of threads are given by their number of rounds or their schedule. The option
  parser's loop terminates by the measure of \<open>optparse_call_progress\<close>. The JSON parser has one more than the length of its
  text as fuel, which suffices because every level and every round consumes a character (\<open>json_parse_terminates\<close>). A
  request of the web client has one more than the number of connections as fuel, and every redirection takes one; its reading
  loops end because each read uses up arriving bytes. The frame loop of the audio device is a partial function, whose result is
  proved to be there: it makes one round. A write is given by its bytes, fewer than 65536.

  \<^bold>\<open>Not modelled.\<close> Freeing of objects, thread creation and priorities (every interleaving is allowed instead), the
  AT driver (a modem on a serial line), the register set-up of the serial audio interface, the vendor libraries and the rest of
  the kernel. The lock of the audio device is left out because one thread writes.
  Of the JSON library, printing into a growing buffer and reference items; of the web client, TLS and \<open>webclient_post_file\<close>.
\<close>

section \<open>From a key to the display\<close>

text \<open>The dispatcher thread over a number of rounds.\<close>

fun dispatch_rounds ::
  "nat \<Rightarrow> rt_thread \<Rightarrow> nat \<Rightarrow> iotb_event_state \<Rightarrow> rt_event \<Rightarrow> (iotb_event_state \<times> rt_event) option" where
  "dispatch_rounds es t 0 st lcd = Some (st, lcd)"
| "dispatch_rounds es t (Suc n) st lcd =
     (case iotb_event_handler_round es t [] st lcd of
        None \<Rightarrow> None
      | Some (st', lcd') \<Rightarrow> dispatch_rounds es t n st' lcd')"

text \<open>The flag a message sets.\<close>

definition message_flag :: "iotb_event_msg \<Rightarrow> u32" where
  "message_flag m = (case iotb_event_dispatch m of Put e \<Rightarrow> lcd_value e | _ \<Rightarrow> 0)"

lemma event_process_flags:
  assumes "event_idle lcd"
  shows "ev_set (snd (iotb_event_process m lcd)) = ev_set lcd OR message_flag m"
    and "event_idle (snd (iotb_event_process m lcd))"
  using event_post_simps [OF assms] assms
  by (auto simp: iotb_event_process_def message_flag_def iotb_lcd_event_put_def event_post_def split: dispatch.split)

lemma handler_round_some:
  assumes "iotb_inv es st" "iotb_pending es st = m # ms" "event_idle lcd"
  shows "\<exists>st' lcd'. iotb_event_handler_round es t [] st lcd = Some (st', lcd') \<and> iotb_inv es st'
    \<and> iotb_pending es st' = ms \<and> event_idle lcd' \<and> ev_set lcd' = ev_set lcd OR message_flag m"
proof -
  obtain mq where "iotb_event_get es t [] st (ucast (iotb_event_thr_cycle st)) = Some (0, Some m, st\<lparr>iotb_event_mq := mq\<rparr>)"
    "iotb_inv es (st\<lparr>iotb_event_mq := mq\<rparr>)" "iotb_pending es (st\<lparr>iotb_event_mq := mq\<rparr>) = ms"
    using iotb_get_some [OF assms(1,2)] by blast
  then show ?thesis
    using event_process_flags [OF assms(3), of m] by (simp add: iotb_event_handler_round_def)
qed

lemma dispatch_rounds_all:
  assumes "iotb_inv es st" "iotb_pending es st = ms" "event_idle lcd"
  shows "\<exists>st' lcd'. dispatch_rounds es t (length ms) st lcd = Some (st', lcd') \<and> iotb_inv es st'
    \<and> iotb_pending es st' = [] \<and> event_idle lcd' \<and> ev_set lcd' = foldl (OR) (ev_set lcd) (map message_flag ms)"
  using assms
proof (induction ms arbitrary: st lcd)
  case (Cons m ms)
  obtain st1 lcd1 where 1: "iotb_event_handler_round es t [] st lcd = Some (st1, lcd1)" "iotb_inv es st1"
    "iotb_pending es st1 = ms" "event_idle lcd1" "ev_set lcd1 = ev_set lcd OR message_flag m"
    using handler_round_some [OF Cons.prems] by blast
  show ?case
    using Cons.IH [OF 1(2-4)] 1(1,5) by simp
qed simp

lemma gesture_to_flags:
  assumes ok: "\<forall>l \<in> set ls. levels_ok l"
    and press: "map (\<lambda>l. key_pressed l b) ls = replicate (k + 1) True @ replicate m False"
    and range: "23 \<le> m" "k + 2 < 65536" and alone: "\<forall>l \<in> set ls. \<forall>c. c \<noteq> b \<longrightarrow> \<not> key_pressed l c"
    and hub: "iotb_inv es (key_hub ks)" "iotb_pending es (key_hub ks) = []"
      "length (gesture_types k) \<le> iotb_capacity (key_hub ks)"
    and lcd: "event_idle lcd"
  shows "\<exists>fs ks' st' lcd'. button_scan_thread es t ls (user_button_init flex_init) ks = Some (fs, ks')
    \<and> dispatch_rounds es td (length (gesture_types k)) (key_hub ks') lcd = Some (st', lcd')
    \<and> iotb_pending es st' = [] \<and> event_idle lcd'
    \<and> ev_set lcd' = foldl (OR) (ev_set lcd)
        (map (\<lambda>ty. message_flag \<lparr>event_src = button_src b, event_type = ty\<rparr>) (gesture_types k))"
proof -
  let ?msgs = "call_messages (snd (flex_scans (user_button_init flex_init) ls))"
  have msgs: "?msgs = map (\<lambda>ty. \<lparr>event_src = button_src b, event_type = ty\<rparr>) (gesture_types k)"
    by (rule single_key_messages [OF ok press range alone])
  have room: "length (iotb_pending es (key_hub ks)) + length ?msgs \<le> iotb_capacity (key_hub ks)"
    using hub(2,3) unfolding msgs by simp
  obtain ks' where ks': "button_scan_thread es t ls (user_button_init flex_init) ks
      = Some (fst (flex_scans (user_button_init flex_init) ls), ks')"
    "iotb_inv es (key_hub ks')" "iotb_pending es (key_hub ks') = ?msgs"
    using button_scan_thread_room [OF hub(1) _ room, of t] user_calls_lt4 hub(2) by auto
  have n: "length ?msgs = length (gesture_types k)" unfolding msgs by simp
  show ?thesis
    using dispatch_rounds_all [OF ks'(2,3) lcd, of td] ks'(1) unfolding n msgs by (simp add: o_def) blast
qed

text \<open>What a press of each key is for, as a table of bits of the display's event: a click, a short press and a long hold. The click
  of KEY0 opens the player (bit 23). \<open>press_bits\<close> gives the bits for a number of scans that see the key pressed.\<close>

fun click_bit :: "user_button \<Rightarrow> nat" where
  "click_bit USER_BUTTON_0 = 23"
| "click_bit USER_BUTTON_1 = 1"
| "click_bit USER_BUTTON_2 = 0"
| "click_bit USER_BUTTON_3 = 3"

fun short_bit :: "user_button \<Rightarrow> nat" where
  "short_bit USER_BUTTON_0 = 10"
| "short_bit USER_BUTTON_1 = 9"
| "short_bit USER_BUTTON_2 = 8"
| "short_bit USER_BUTTON_3 = 11"

fun hold_bit :: "user_button \<Rightarrow> nat" where
  "hold_bit USER_BUTTON_0 = 14"
| "hold_bit USER_BUTTON_1 = 13"
| "hold_bit USER_BUTTON_2 = 12"
| "hold_bit USER_BUTTON_3 = 15"

definition press_bits :: "user_button \<Rightarrow> nat \<Rightarrow> nat set" where
  "press_bits b scans =
     (if scans < 99 then {click_bit b} else if scans < 101 then {} else if scans < 301 then {short_bit b} else {short_bit b, hold_bit b})"

definition all_flags :: "nat set \<Rightarrow> u32" where
  "all_flags A = (\<Sum>n\<in>A. 2 ^ n)"

lemma flag_click: "message_flag \<lparr>event_src = button_src b, event_type = IOTB_EVENT_TYPE_KEY_CLICK\<rparr> = 2 ^ click_bit b"
  by (cases b) (simp_all add: message_flag_def lcd_value_def)

lemma flag_short: "message_flag \<lparr>event_src = button_src b, event_type = IOTB_EVENT_TYPE_KEY_SHORT_PRESSED\<rparr> = 2 ^ short_bit b"
  by (cases b) (simp_all add: message_flag_def lcd_value_def)

lemma flag_hold: "message_flag \<lparr>event_src = button_src b, event_type = IOTB_EVENT_TYPE_KEY_LONG_HOLD\<rparr> = 2 ^ hold_bit b"
  by (cases b) (simp_all add: message_flag_def lcd_value_def)

lemma flag_none:
  assumes "ty \<in> {IOTB_EVENT_TYPE_KEY_LONG_PRESSED, IOTB_EVENT_TYPE_KEY_SHORT_PRESSED_UP, IOTB_EVENT_TYPE_KEY_LONG_PRESSED_UP,
    IOTB_EVENT_TYPE_KEY_LONG_HOLD_UP}"
  shows "message_flag \<lparr>event_src = button_src b, event_type = ty\<rparr> = 0"
  using assms by (cases b) (auto simp: message_flag_def)

lemmas message_flags = flag_click flag_short flag_hold flag_none

lemma gesture_bits:
  "foldl (OR) f (map (\<lambda>ty. message_flag \<lparr>event_src = button_src b, event_type = ty\<rparr>) (gesture_types k))
    = f OR all_flags (press_bits b (k + 1))"
proof -
  have hold: "all_flags {short_bit b, hold_bit b} = 2 ^ short_bit b OR 2 ^ hold_bit b"
    by (cases b) (simp_all add: all_flags_def)
  consider "k + 2 < 100" | "k + 2 = 100 \<or> k + 2 = 101" | "100 \<le> k" "k < 300" | "300 \<le> k" by linarith
  then show ?thesis
  proof cases
    case 3
    then show ?thesis by (simp add: gesture_types_def message_flags press_bits_def all_flags_def)
  next
    case 4
    then have "all_flags (press_bits b (k + 1)) = 2 ^ short_bit b OR 2 ^ hold_bit b" using hold by (simp add: press_bits_def)
    then show ?thesis using 4 by (simp add: gesture_types_def message_flags or.assoc)
  qed (auto simp: gesture_types_def message_flags press_bits_def all_flags_def)
qed

text \<open>C1. A press of one key, end to end: the scan thread turns the pin levels of a press of \<open>k + 1\<close> scans into messages in the hub,
  and as many rounds of the dispatcher empty the hub again and add to the display's event exactly the flags that the table above gives for
  this key and this length of the press, and no other, provided the hub has room for the messages.\<close>

theorem press_reaches_display:
  assumes "\<forall>l \<in> set ls. levels_ok l"
    and "map (\<lambda>l. key_pressed l b) ls = replicate (k + 1) True @ replicate m False"
    and "23 \<le> m" "k + 2 < 65536" "\<forall>l \<in> set ls. \<forall>c. c \<noteq> b \<longrightarrow> \<not> key_pressed l c"
    and "iotb_inv es (key_hub ks)" "iotb_pending es (key_hub ks) = []"
      "length (gesture_types k) \<le> iotb_capacity (key_hub ks)"
    and "event_idle lcd"
  shows "\<exists>fs ks' st' lcd'. button_scan_thread es t ls (user_button_init flex_init) ks = Some (fs, ks')
    \<and> dispatch_rounds es td (length (gesture_types k)) (key_hub ks') lcd = Some (st', lcd')
    \<and> iotb_pending es st' = [] \<and> event_idle lcd'
    \<and> ev_set lcd' = ev_set lcd OR all_flags (press_bits b (k + 1))"
  using gesture_to_flags [OF assms] unfolding gesture_bits .

lemma key0_press_facts:
  "\<forall>l \<in> set (replicate (9 + 1) key0_down @ replicate 30 keys_up). levels_ok l"
  "map (\<lambda>l. key_pressed l USER_BUTTON_0) (replicate (9 + 1) key0_down @ replicate 30 keys_up)
     = replicate (9 + 1) True @ replicate 30 False"
  "\<forall>l \<in> set (replicate (9 + 1) key0_down @ replicate 30 keys_up). \<forall>c. c \<noteq> USER_BUTTON_0 \<longrightarrow> \<not> key_pressed l c"
  by (rule key0_down_ok, rule key0_down_run) (auto simp: key0_levels)

lemma click_types: "k + 2 < 100 \<Longrightarrow> gesture_types k = [IOTB_EVENT_TYPE_KEY_CLICK]"
  by (simp add: gesture_types_def)

lemma key0_flag:
  "message_flag \<lparr>event_src = IOTB_EVENT_SRC_KEY0, event_type = IOTB_EVENT_TYPE_KEY_CLICK\<rparr>
     = lcd_value IOTB_LCD_EVENT_MUSIC_PLAY"
  by (simp add: message_flag_def)

text \<open>A press of KEY0 for ten scans.\<close>

theorem press_reaches_display_witness:
  "\<exists>fs ks' st' lcd'. button_scan_thread 1 \<lparr>thread_id = 3, current_priority = 10\<rparr>
        (replicate (9 + 1) key0_down @ replicate 30 keys_up) (user_button_init flex_init) example_keys = Some (fs, ks')
    \<and> dispatch_rounds 1 \<lparr>thread_id = 4, current_priority = 12\<rparr> (length (gesture_types 9)) (key_hub ks') (rt_event_init 0)
        = Some (st', lcd')
    \<and> ev_set lcd' = 0x800000"
proof -
  have types: "gesture_types 9 = [IOTB_EVENT_TYPE_KEY_CLICK]" by (simp add: click_types)
  have room: "length (gesture_types 9) \<le> iotb_capacity (key_hub example_keys)"
    by (simp add: types example_keys_props)
  have lcd: "event_idle (rt_event_init 0)" "ev_set (rt_event_init 0) = 0"
    by (simp_all add: event_idle_def rt_event_init_def)
  have m: "23 \<le> (30 :: nat)" "(9 :: nat) + 2 < 65536" by simp_all
  have flags: "ev_set (rt_event_init 0) OR all_flags (press_bits USER_BUTTON_0 (9 + 1)) = 0x800000"
    by (simp add: lcd(2) all_flags_def press_bits_def)
  show ?thesis
    using press_reaches_display [OF key0_press_facts(1,2) m key0_press_facts(3) example_keys_props(1,2) room lcd(1),
        of "\<lparr>thread_id = 3, current_priority = 10\<rparr>" "\<lparr>thread_id = 4, current_priority = 12\<rparr>"]
    unfolding flags by blast
qed


lemma example_songs_inv: "lcd_inv example_songs" "show_menu_index example_songs = 1"
  using lcd_boot_inv by (simp_all add: lcd_inv_def example_songs_def lcd_boot_def iotb_lcd_menu_init_def)


end
